(* ===== verification/Prelude.thy ===== *)
theory Prelude
  imports Main "HOL-Library.Word" "HOL-Library.Monad_Syntax"
begin

text \<open>
  What every component shares: the error codes and results of \<^verbatim>\<open>dmw/error.hpp\<close> and
  \<^verbatim>\<open>dmw/result.hpp\<close>, 64-bit arithmetic whose undefined behaviour is a value, the
  search-and-update idioms of the code on vectors, the unordered maps as association lists,
  and the collections of facts the component theories extend.
\<close>

section \<open>Collections\<close>

named_theorems op_defs \<open>definitions of the operations of a component\<close>
named_theorems frame \<open>what an operation leaves unchanged\<close>
named_theorems keeps \<open>an operation keeps the invariant of its component\<close>

section \<open>Errors and results\<close>

text \<open>
  The error codes in the order of the source. The message of an \<^verbatim>\<open>Error\<close> is text for a
  human and no code of the library branches on it, so an error is its code.
\<close>

datatype ErrorCode =
    InvalidArgument | InvalidState | InvalidName | TypeMismatch | AlreadyExists | NotFound
  | AlreadyRegistered | NotRegistered | Busy | Timeout | Unsupported | IncompatibleQos
  | ParentDestroyed | ResourceExhausted | DDSError | ContextShutdown | Interrupted | ProtocolFault

type_synonym 'a result = "ErrorCode + 'a"

abbreviation success :: "'a \<Rightarrow> 'a result" where "success \<equiv> Inr"
abbreviation failure :: "ErrorCode \<Rightarrow> 'a result" where "failure \<equiv> Inl"

fun has_value :: "'a result \<Rightarrow> bool" where
  "has_value (Inl _) = False"
| "has_value (Inr _) = True"

text \<open>Reading the wrong side of a \<^verbatim>\<open>Result\<close> terminates the process: \<open>None\<close>.\<close>

fun result_value :: "'a result \<Rightarrow> 'a option" where
  "result_value (Inl _) = None"
| "result_value (Inr x) = Some x"

fun result_error :: "'a result \<Rightarrow> ErrorCode option" where
  "result_error (Inl e) = Some e"
| "result_error (Inr _) = None"

text \<open>The early return \<^verbatim>\<open>if (!r) return failure(r.error())\<close>.\<close>

fun rbind :: "'a result \<Rightarrow> ('a \<Rightarrow> 'b result) \<Rightarrow> 'b result" where
  "rbind (Inl e) f = Inl e"
| "rbind (Inr x) f = f x"

definition require :: "bool \<Rightarrow> ErrorCode \<Rightarrow> unit result" where
  "require b e = (if b then Inr () else Inl e)"

lemma require_simps [simp]: "require True e = Inr ()" "require False e = Inl e"
  by (simp_all add: require_def)

lemma rbind_Inr_iff [simp]: "rbind r f = Inr y \<longleftrightarrow> (\<exists>x. r = Inr x \<and> f x = Inr y)"
  by (cases r) auto

lemma rbind_Inl_iff: "rbind r f = Inl e \<longleftrightarrow> r = Inl e \<or> (\<exists>x. r = Inr x \<and> f x = Inl e)"
  by (cases r) auto

lemma require_Inr_iff [simp]: "require b e = Inr u \<longleftrightarrow> b"
  by (simp add: require_def)

lemma require_Inl_iff [simp]: "require b e = Inl e' \<longleftrightarrow> \<not> b \<and> e' = e"
  by (auto simp: require_def)

section \<open>64-bit integers\<close>

type_synonym u32 = "32 word"
type_synonym u64 = "64 word"

definition u64_max :: u64 where "u64_max = - 1"

lemma u64_inc_nonzero: "x \<noteq> u64_max \<Longrightarrow> unat (x + 1) = unat x + 1"
  by (metis u64_max_def add.commute add_eq_0_iff unatSuc Suc_eq_plus1)

lemma u64_inc_gt: "(x::u64) \<noteq> u64_max \<Longrightarrow> x < x + 1"
  by (simp add: word_less_nat_alt u64_inc_nonzero)

lemma u64_le_max [simp]: "(x::u64) \<le> u64_max"
  by (simp add: u64_max_def)

text \<open>
  \<^verbatim>\<open>std::int64_t\<close> as \<open>int\<close>. A signed operation of C++ that leaves the range is undefined
  behaviour: the checked operations return \<open>None\<close> there, so that the absence of undefined
  behaviour is a theorem and not an assumption of the model.
\<close>

definition int64_max :: int where "int64_max = 9223372036854775807"
definition int64_min :: int where "int64_min = - 9223372036854775808"

definition in_int64 :: "int \<Rightarrow> bool" where
  "in_int64 x \<longleftrightarrow> int64_min \<le> x \<and> x \<le> int64_max"

definition chk64 :: "int \<Rightarrow> int option" where
  "chk64 x = (if in_int64 x then Some x else None)"

definition add64 :: "int \<Rightarrow> int \<Rightarrow> int option" where "add64 x y = chk64 (x + y)"
definition sub64 :: "int \<Rightarrow> int \<Rightarrow> int option" where "sub64 x y = chk64 (x - y)"
definition mul64 :: "int \<Rightarrow> int \<Rightarrow> int option" where "mul64 x y = chk64 (x * y)"

text \<open>Division truncates towards zero; division by zero and \<open>int64_min / -1\<close> are undefined.\<close>

definition div64 :: "int \<Rightarrow> int \<Rightarrow> int option" where
  "div64 x y = (if y = 0 then None else chk64 (sgn x * sgn y * (\<bar>x\<bar> div \<bar>y\<bar>)))"

lemmas int64_defs = in_int64_def int64_max_def int64_min_def
lemmas arith64_defs = add64_def sub64_def mul64_def div64_def chk64_def

lemma chk64_Some [simp]: "chk64 x = Some y \<longleftrightarrow> y = x \<and> in_int64 x"
  by (auto simp: chk64_def)

text \<open>What the proofs about divisions by a positive number use.\<close>

lemma div_lower: "0 < p \<Longrightarrow> (x div p) * p \<le> x" for x p :: int
  using pos_mod_sign [of p x] div_mult_mod_eq [of x p] by linarith

lemma div_upper: "0 < p \<Longrightarrow> x < (x div p) * p + p" for x p :: int
  using pos_mod_bound [of p x] div_mult_mod_eq [of x p] by linarith

lemma le_div_iff: "0 < p \<Longrightarrow> a \<le> x div p \<longleftrightarrow> a * p \<le> x" for a x p :: int
proof
  assume p: "0 < p" and "a \<le> x div p"
  then have "a * p \<le> (x div p) * p" by simp
  with div_lower [OF p, of x] show "a * p \<le> x" by linarith
next
  assume p: "0 < p" and a: "a * p \<le> x"
  show "a \<le> x div p"
  proof (rule ccontr)
    assume "\<not> a \<le> x div p"
    then have "(x div p + 1) * p \<le> a * p" using p by (intro mult_right_mono) auto
    with div_upper [OF p, of x] a show False by (simp add: distrib_right)
  qed
qed

lemma div_le_self: "0 \<le> x \<Longrightarrow> 0 < p \<Longrightarrow> x div p \<le> x" for x p :: int
  by (cases "p = 1") (auto intro: less_imp_le int_div_less_self simp: order.order_iff_strict)

lemma div64_nonneg: "0 \<le> x \<Longrightarrow> 0 < y \<Longrightarrow> in_int64 x \<Longrightarrow> div64 x y = Some (x div y)"
  using div_le_self [of x y] pos_imp_zdiv_nonneg_iff [of y x]
  by (cases "x = 0") (auto simp: div64_def chk64_def int64_defs)

section \<open>Vectors searched with \<^verbatim>\<open>std::find_if\<close>\<close>

text \<open>\<^verbatim>\<open>std::find_if\<close> reads the first match (\<open>List.find\<close>); the code then updates or erases it.\<close>

fun upd_first :: "('a \<Rightarrow> bool) \<Rightarrow> ('a \<Rightarrow> 'a) \<Rightarrow> 'a list \<Rightarrow> 'a list" where
  "upd_first p f [] = []"
| "upd_first p f (x # xs) = (if p x then f x # xs else x # upd_first p f xs)"

fun del_first :: "('a \<Rightarrow> bool) \<Rightarrow> 'a list \<Rightarrow> 'a list" where
  "del_first p [] = []"
| "del_first p (x # xs) = (if p x then xs else x # del_first p xs)"

lemma length_upd_first [simp]: "length (upd_first p f xs) = length xs"
  by (induction xs) auto

lemma upd_first_none [simp]: "find p xs = None \<Longrightarrow> upd_first p f xs = xs"
  by (induction xs) (auto split: if_splits)

lemma del_first_none [simp]: "find p xs = None \<Longrightarrow> del_first p xs = xs"
  by (induction xs) (auto split: if_splits)

lemma set_del_first: "set (del_first p xs) \<subseteq> set xs"
  by (induction xs) auto

lemma find_Some_set: "find p xs = Some x \<Longrightarrow> x \<in> set xs \<and> p x"
  by (induction xs) (auto split: if_splits)

lemma find_None_set: "find p xs = None \<longleftrightarrow> (\<forall>x \<in> set xs. \<not> p x)"
  by (induction xs) auto

lemma find_append: "find p (xs @ ys) = (case find p xs of None \<Rightarrow> find p ys | Some x \<Rightarrow> Some x)"
  by (induction xs) auto

lemma map_upd_first_same: "(\<And>x. g (f x) = g x) \<Longrightarrow> map g (upd_first p f xs) = map g xs"
  by (induction xs) auto

lemma find_upd_first_same:
  "(\<And>x. p x \<Longrightarrow> p (f x)) \<Longrightarrow> find p (upd_first p f xs) = map_option f (find p xs)"
  by (induction xs) auto

lemma find_upd_first_other:
  assumes "\<And>x. q x \<Longrightarrow> \<not> p x" and "\<And>x. p x \<Longrightarrow> \<not> q (f x)"
  shows "find q (upd_first p f xs) = find q xs"
  using assms by (induction xs) auto

lemma distinct_map_del_first: "distinct (map g xs) \<Longrightarrow> distinct (map g (del_first p xs))"
  using set_del_first by (induction xs) (auto, fastforce)

lemma find_del_first_other:
  assumes "\<And>x. q x \<Longrightarrow> \<not> p x"
  shows "find q (del_first p xs) = find q xs"
  using assms by (induction xs) auto

lemma find_key_None: "find (\<lambda>x. g x = k) xs = None \<longleftrightarrow> k \<notin> g ` set xs"
  by (auto simp: find_None_set)

lemma find_del_first_key:
  "distinct (map g xs) \<Longrightarrow> find (\<lambda>x. g x = k) (del_first (\<lambda>x. g x = k) xs) = None"
  by (induction xs) (simp_all add: find_key_None, blast)

lemma length_del_first:
  "length (del_first p xs) = (if find p xs = None then length xs else length xs - 1)"
proof (induction xs)
  case (Cons x xs)
  then show ?case by (cases xs) auto
qed simp

section \<open>Unordered maps\<close>

text \<open>
  A \<^verbatim>\<open>std::unordered_map\<close> is an association list with distinct keys; its order stands for the
  iteration order, which the language leaves open, so no property depends on it.
  \<open>um_emplace\<close> keeps an entry that is there, as \<^verbatim>\<open>emplace\<close> does.
\<close>

type_synonym ('k, 'v) umap = "('k \<times> 'v) list"

definition um_emplace :: "'k \<Rightarrow> 'v \<Rightarrow> ('k, 'v) umap \<Rightarrow> ('k, 'v) umap" where
  "um_emplace k v m = (if map_of m k = None then m @ [(k, v)] else m)"

definition um_modify :: "'k \<Rightarrow> ('v \<Rightarrow> 'v) \<Rightarrow> ('k, 'v) umap \<Rightarrow> ('k, 'v) umap" where
  "um_modify k f m = map (\<lambda>(k', v). (k', if k' = k then f v else v)) m"

definition um_erase :: "'k \<Rightarrow> ('k, 'v) umap \<Rightarrow> ('k, 'v) umap" where
  "um_erase k m = filter (\<lambda>(k', v). k' \<noteq> k) m"

definition um_ok :: "('k, 'v) umap \<Rightarrow> bool" where
  "um_ok m \<longleftrightarrow> distinct (map fst m)"

text \<open>
  The interface the components rely on: what a lookup returns after each update, and that every
  update keeps the keys distinct. \<open>size\<close> is what \<^verbatim>\<open>size()\<close> reports.
\<close>

locale keyed_store =
  fixes lookup :: "'m \<Rightarrow> 'k \<Rightarrow> 'v option"
    and emplace :: "'k \<Rightarrow> 'v \<Rightarrow> 'm \<Rightarrow> 'm"
    and modify :: "'k \<Rightarrow> ('v \<Rightarrow> 'v) \<Rightarrow> 'm \<Rightarrow> 'm"
    and erase :: "'k \<Rightarrow> 'm \<Rightarrow> 'm"
    and entries :: "'m \<Rightarrow> nat"
    and ok :: "'m \<Rightarrow> bool"
  assumes lookup_emplace:
      "lookup (emplace k v m) k' = (if k' = k \<and> lookup m k = None then Some v else lookup m k')"
    and lookup_modify: "lookup (modify k f m) k' = (if k' = k then map_option f (lookup m k) else lookup m k')"
    and lookup_erase: "lookup (erase k m) k' = (if k' = k then None else lookup m k')"
    and entries_emplace: "entries (emplace k v m) = (if lookup m k = None then entries m + 1 else entries m)"
    and entries_modify: "entries (modify k f m) = entries m"
    and entries_erase: "ok m \<Longrightarrow> entries (erase k m) = (if lookup m k = None then entries m else entries m - 1)"
    and entries_pos: "lookup m k = Some v \<Longrightarrow> 0 < entries m"
    and ok_emplace: "ok m \<Longrightarrow> ok (emplace k v m)"
    and ok_modify: "ok m \<Longrightarrow> ok (modify k f m)"
    and ok_erase: "ok m \<Longrightarrow> ok (erase k m)"
begin

lemmas lookups = lookup_emplace lookup_modify lookup_erase
lemmas oks = ok_emplace ok_modify ok_erase

lemma emplace_present: "lookup m k = Some v' \<Longrightarrow> lookup (emplace k v m) = lookup m"
  by (rule ext) (simp add: lookup_emplace)

lemma emplace_erase: "lookup m k = None \<Longrightarrow> lookup (erase k (emplace k v m)) = lookup m"
  by (rule ext) (simp add: lookups)

lemma entries_erase_le: "ok m \<Longrightarrow> entries (erase k m) \<le> entries m"
  by (simp add: entries_erase)

lemma modify_present: "lookup m k = Some v \<Longrightarrow> lookup (modify k f m) k = Some (f v)"
  by (simp add: lookup_modify)

end

lemma map_of_um_modify: "map_of (um_modify k f m) k' = (if k' = k then map_option f (map_of m k) else map_of m k')"
  by (induction m) (auto simp: um_modify_def)

lemma map_of_um_erase: "map_of (um_erase k m) k' = (if k' = k then None else map_of m k')"
  by (induction m) (auto simp: um_erase_def)

lemma map_fst_um_modify [simp]: "map fst (um_modify k f m) = map fst m"
  by (induction m) (auto simp: um_modify_def)

lemma length_um_erase: "um_ok m \<Longrightarrow> length (um_erase k m) = (if map_of m k = None then length m else length m - 1)"
proof (induction m)
  case Nil
  then show ?case by (simp add: um_erase_def)
next
  case (Cons x m)
  then have m: "length (um_erase k m) = (if map_of m k = None then length m else length m - 1)"
    by (simp add: um_ok_def)
  show ?case
  proof (cases "fst x = k")
    case True
    with Cons.prems have "k \<notin> fst ` set m" by (auto simp: um_ok_def)
    then have "map_of m k = None" by (simp add: map_of_eq_None_iff)
    with m True show ?thesis by (auto simp: um_erase_def split: prod.splits)
  next
    case False
    have "map_of m k \<noteq> None \<Longrightarrow> 0 < length m" by (cases m) auto
    with m False show ?thesis by (auto simp: um_erase_def split: prod.splits)
  qed
qed

interpretation um: keyed_store map_of um_emplace um_modify um_erase length um_ok
proof (unfold_locales, goal_cases)
  case (1 k v m k')
  then show ?case by (auto simp: um_emplace_def map_add_def split: option.splits)
next
  case (2 k f m k')
  then show ?case by (rule map_of_um_modify)
next
  case (3 k m k')
  then show ?case by (rule map_of_um_erase)
next
  case (4 k v m)
  then show ?case by (simp add: um_emplace_def)
next
  case (5 k f m)
  then show ?case by (simp add: um_modify_def)
next
  case (6 m k)
  then show ?case by (rule length_um_erase)
next
  case (7 m k v)
  then show ?case by (cases m) auto
next
  case (8 m k v)
  then show ?case by (auto simp: um_emplace_def um_ok_def map_of_eq_None_iff)
next
  case (9 m k f)
  then show ?case by (simp add: um_ok_def)
next
  case (10 m k)
  then show ?case by (auto simp: um_ok_def um_erase_def distinct_map_filter)
qed

lemma um_ok_Nil [simp]: "um_ok []"
  by (simp add: um_ok_def)

lemma set_um_erase: "set (um_erase k m) = {e \<in> set m. fst e \<noteq> k}"
  by (auto simp: um_erase_def)

lemma um_ok_map_of: "um_ok m \<Longrightarrow> (k, v) \<in> set m \<longleftrightarrow> map_of m k = Some v"
  by (auto simp: um_ok_def)

lemma um_ok_filter: "um_ok m \<Longrightarrow> um_ok (filter p m)"
  by (simp add: um_ok_def distinct_map_filter)

lemma map_of_filter_ok:
  "um_ok m \<Longrightarrow> map_of (filter p m) k =
     (case map_of m k of None \<Rightarrow> None | Some v \<Rightarrow> if p (k, v) then Some v else None)"
proof (induction m)
  case Nil
  then show ?case by simp
next
  case (Cons x m)
  obtain k' v' where x: "x = (k', v')" by (cases x)
  from Cons.prems have ok: "um_ok m" and new: "k' \<notin> fst ` set m" by (auto simp: um_ok_def x)
  from new have "map_of m k' = None" by (simp add: map_of_eq_None_iff)
  with Cons.IH [OF ok] show ?case by (auto simp: x split: option.splits)
qed

section \<open>Ordered maps\<close>

text \<open>
  \<^verbatim>\<open>std::map\<close> is an association list in ascending order of the keys; \<^verbatim>\<open>std::set\<close> is an
  ascending list (\<open>insort_insert\<close>).
\<close>

fun om_insert :: "'k::linorder \<Rightarrow> 'v \<Rightarrow> ('k \<times> 'v) list \<Rightarrow> ('k \<times> 'v) list" where
  "om_insert k v [] = [(k, v)]"
| "om_insert k v (e # m) = (if k < fst e then (k, v) # e # m else e # om_insert k v m)"

definition om_emplace :: "'k::linorder \<Rightarrow> 'v \<Rightarrow> ('k \<times> 'v) list \<Rightarrow> ('k \<times> 'v) list" where
  "om_emplace k v m = (case map_of m k of None \<Rightarrow> om_insert k v m | Some _ \<Rightarrow> m)"

definition om_ok :: "('k::linorder \<times> 'v) list \<Rightarrow> bool" where
  "om_ok m \<longleftrightarrow> sorted_wrt (<) (map fst m)"

lemma set_om_insert [simp]: "set (om_insert k v m) = insert (k, v) (set m)"
  by (induction m) auto

lemma map_of_om_insert:
  "map_of m k = None \<Longrightarrow> map_of (om_insert k v m) k' = (if k' = k then Some v else map_of m k')"
  by (induction m) (auto split: if_splits)

lemma length_om_insert [simp]: "length (om_insert k v m) = Suc (length m)"
  by (induction m) auto

lemma om_ok_insert: "om_ok m \<Longrightarrow> map_of m k = None \<Longrightarrow> om_ok (om_insert k v m)"
proof (induction m)
  case Nil
  then show ?case by (simp add: om_ok_def)
next
  case (Cons e m)
  then have rest: "om_ok (om_insert k v m)" and new: "k \<noteq> fst e"
    by (auto simp: om_ok_def split: if_splits)
  show ?case
  proof (cases "k < fst e")
    case True
    with Cons.prems show ?thesis by (auto simp: om_ok_def intro: less_trans)
  next
    case False
    then have "fst e < k" using new by simp
    with rest Cons.prems False show ?thesis by (auto simp: om_ok_def)
  qed
qed

lemma om_ok_um_ok: "om_ok m \<Longrightarrow> um_ok m"
  by (auto simp: om_ok_def um_ok_def strict_sorted_iff)

lemma om_ok_filter: "om_ok m \<Longrightarrow> om_ok (filter p m)"
  by (induction m) (auto simp: om_ok_def)

interpretation om: keyed_store map_of om_emplace um_modify um_erase length om_ok
proof (unfold_locales, goal_cases)
  case (1 k v m k')
  then show ?case by (auto simp: om_emplace_def map_of_om_insert split: option.splits)
next
  case (2 k f m k')
  then show ?case by (rule map_of_um_modify)
next
  case (3 k m k')
  then show ?case by (rule map_of_um_erase)
next
  case (4 k v m)
  then show ?case by (simp add: om_emplace_def split: option.splits)
next
  case (5 k f m)
  then show ?case by (simp add: um_modify_def)
next
  case (6 m k)
  then show ?case by (simp add: length_um_erase om_ok_um_ok)
next
  case (7 m k v)
  then show ?case by (cases m) auto
next
  case (8 m k v)
  then show ?case by (auto simp: om_emplace_def om_ok_insert split: option.splits)
next
  case (9 m k f)
  then show ?case by (simp add: om_ok_def)
next
  case (10 m k)
  then show ?case by (simp add: um_erase_def om_ok_filter)
qed

end
