(* ===== verification/Clocks.thy ===== *)
theory Clocks
  imports Prelude
begin

text \<open>
  The clock runtime of \<^verbatim>\<open>dmw/src/clock.cpp\<close> and \<^verbatim>\<open>impl/clock_impl.hpp\<close>, the wait timeouts of
  \<^verbatim>\<open>dmw/wait_timeout.hpp\<close> and the absolute deadlines of \<^verbatim>\<open>impl/deadline.hpp\<close>. The host's
  clocks are read once per operation and passed as an argument; \<open>shut\<close> says whether the
  operation guard of the Context is refused.
\<close>

section \<open>Clock state\<close>

datatype ClockType = System | Steady | Ros

record TimePoint =
  nanoseconds :: int
  clock_type :: ClockType

record HostClocks =
  system_nanoseconds :: int
  steady_nanoseconds :: int

text \<open>A wake target is a callback, \<open>None\<close> an empty \<^verbatim>\<open>std::function\<close>.\<close>

record 'cb ClockState =
  ck_type :: ClockType
  ros_override :: bool
  ros_time :: int
  ck_generation :: u64
  next_wake_handle :: u64
  wake_targets :: "(u64, 'cb option) umap"

definition new_clock :: "ClockType \<Rightarrow> 'cb ClockState" where
  "new_clock ty = \<lparr>ck_type = ty, ros_override = False, ros_time = 0, ck_generation = 0,
     next_wake_handle = 1, wake_targets = []\<rparr>"

definition current_nanoseconds :: "HostClocks \<Rightarrow> 'cb ClockState \<Rightarrow> int" where
  "current_nanoseconds h c =
     (if ck_type c = Ros \<and> ros_override c then ros_time c
      else if ck_type c = Steady then steady_nanoseconds h
      else system_nanoseconds h)"

definition clock_now :: "bool \<Rightarrow> HostClocks \<Rightarrow> 'cb ClockState \<Rightarrow> TimePoint result" where
  "clock_now shut h c =
     (if shut then Inl ContextShutdown
      else Inr \<lparr>nanoseconds = current_nanoseconds h c, clock_type = ck_type c\<rparr>)"

definition ros_override_active :: "'cb ClockState \<Rightarrow> bool" where
  "ros_override_active c \<longleftrightarrow> ck_type c = Ros \<and> ros_override c"

definition ros_time_override_enabled :: "'cb ClockState \<Rightarrow> bool result" where
  "ros_time_override_enabled c =
     (if ck_type c \<noteq> Ros then Inl InvalidState else Inr (ros_override c))"

definition collect_wake_targets :: "'cb ClockState \<Rightarrow> 'cb list" where
  "collect_wake_targets c = List.map_filter snd (wake_targets c)"

text \<open>An update returns its result, the new state and the callbacks it runs after the lock.\<close>

definition enable_ros_time_override ::
  "bool \<Rightarrow> bool \<Rightarrow> 'cb ClockState \<Rightarrow> unit result \<times> 'cb ClockState \<times> 'cb list" where
  "enable_ros_time_override shut enabled c =
     (if ck_type c \<noteq> Ros then (Inl InvalidState, c, [])
      else if shut then (Inl ContextShutdown, c, [])
      else if ros_override c = enabled then (Inr (), c, [])
      else let c' = c\<lparr>ros_override := enabled, ck_generation := ck_generation c + 1\<rparr>
           in (Inr (), c', collect_wake_targets c'))"

definition set_ros_time ::
  "bool \<Rightarrow> TimePoint \<Rightarrow> 'cb ClockState \<Rightarrow> unit result \<times> 'cb ClockState \<times> 'cb list" where
  "set_ros_time shut t c =
     (if ck_type c \<noteq> Ros \<or> clock_type t \<noteq> Ros then (Inl InvalidArgument, c, [])
      else if shut then (Inl ContextShutdown, c, [])
      else let c' = c\<lparr>ros_time := nanoseconds t, ck_generation := ck_generation c + 1\<rparr>
           in (Inr (), c', if ros_override c' then collect_wake_targets c' else []))"

definition register_wake_target :: "'cb option \<Rightarrow> 'cb ClockState \<Rightarrow> u64 \<times> 'cb ClockState" where
  "register_wake_target cb c =
     (next_wake_handle c,
      c\<lparr>next_wake_handle := next_wake_handle c + 1,
        wake_targets := um_emplace (next_wake_handle c) cb (wake_targets c)\<rparr>)"

definition unregister_wake_target :: "u64 \<Rightarrow> 'cb ClockState \<Rightarrow> 'cb ClockState" where
  "unregister_wake_target h c = c\<lparr>wake_targets := um_erase h (wake_targets c)\<rparr>"

lemmas [op_defs] = new_clock_def current_nanoseconds_def clock_now_def ros_override_active_def
  ros_time_override_enabled_def collect_wake_targets_def enable_ros_time_override_def
  set_ros_time_def register_wake_target_def unregister_wake_target_def

subsection \<open>Well-formed clocks\<close>

definition host_ok :: "HostClocks \<Rightarrow> bool" where
  "host_ok h \<longleftrightarrow> in_int64 (system_nanoseconds h) \<and> in_int64 (steady_nanoseconds h)"

definition clock_ok :: "'cb ClockState \<Rightarrow> bool" where
  "clock_ok c \<longleftrightarrow> in_int64 (ros_time c) \<and> um_ok (wake_targets c)
     \<and> (\<forall>h \<in> fst ` set (wake_targets c). h < next_wake_handle c)"

lemma clock_ok_new [keeps]: "clock_ok (new_clock ty)"
  by (simp add: clock_ok_def new_clock_def int64_defs)

lemma clock_ok_enable [keeps]:
  "clock_ok c \<Longrightarrow> clock_ok (fst (snd (enable_ros_time_override shut e c)))"
  by (simp add: clock_ok_def enable_ros_time_override_def Let_def)

lemma clock_ok_set_time [keeps]:
  "clock_ok c \<Longrightarrow> in_int64 (nanoseconds t) \<Longrightarrow> clock_ok (fst (snd (set_ros_time shut t c)))"
  by (simp add: clock_ok_def set_ros_time_def Let_def)

lemma clock_ok_register [keeps]:
  assumes "clock_ok c" and "next_wake_handle c \<noteq> u64_max"
  shows "clock_ok (snd (register_wake_target cb c))"
proof -
  have lt: "next_wake_handle c < next_wake_handle c + 1"
    using assms(2) by (rule u64_inc_gt)
  have "h < next_wake_handle c + 1"
    if "h \<in> fst ` set (um_emplace (next_wake_handle c) cb (wake_targets c))" for h
    using that assms(1) lt by (auto simp: um_emplace_def clock_ok_def split: if_splits)
  then show ?thesis
    using assms(1) by (simp add: clock_ok_def register_wake_target_def um.ok_emplace)
qed

lemma clock_ok_unregister [keeps]: "clock_ok c \<Longrightarrow> clock_ok (unregister_wake_target h c)"
  by (auto simp: clock_ok_def unregister_wake_target_def um.ok_erase set_um_erase)

lemma current_nanoseconds_in_int64: "host_ok h \<Longrightarrow> clock_ok c \<Longrightarrow> in_int64 (current_nanoseconds h c)"
  by (auto simp: host_ok_def clock_ok_def current_nanoseconds_def)

text \<open>A fresh handle is a new key while fewer than \<open>2^64 - 1\<close> targets were registered.\<close>

lemma register_fresh:
  "clock_ok c \<Longrightarrow> map_of (wake_targets c) (next_wake_handle c) = None"
  by (auto simp: clock_ok_def map_of_eq_None_iff)

section \<open>Wait timeouts and absolute deadlines\<close>

text \<open>\<^verbatim>\<open>duration()\<close> of a timeout that is not finite terminates, so the datatype carries it there only.\<close>

datatype WaitTimeout = Poll | Finite int | Infinite

definition wait_timeout_finite :: "int \<Rightarrow> WaitTimeout result" where
  "wait_timeout_finite d = (if d \<le> 0 then Inl InvalidArgument else Inr (Finite d))"

fun wait_timeout_ok :: "WaitTimeout \<Rightarrow> bool" where
  "wait_timeout_ok (Finite d) = (0 < d \<and> d \<le> int64_max)"
| "wait_timeout_ok _ = True"

text \<open>
  The comparison is made on \<^verbatim>\<open>long double\<close> seconds, whose rounding is left to the
  implementation: \<open>wide\<close> is the conversion, and all that is used of it is that it is monotone.
\<close>

definition saturating_steady_add :: "(int \<Rightarrow> 'w::linorder) \<Rightarrow> int \<Rightarrow> int \<Rightarrow> int option" where
  "saturating_steady_add wide base duration =
     (if duration \<le> 0 then Some base
      else do {
        available \<leftarrow> sub64 int64_max base;
        if wide duration \<ge> wide available then Some int64_max else add64 base duration
      })"

fun steady_deadline :: "(int \<Rightarrow> 'w::linorder) \<Rightarrow> int \<Rightarrow> WaitTimeout \<Rightarrow> int option" where
  "steady_deadline wide now Infinite = Some int64_max"
| "steady_deadline wide now Poll = Some now"
| "steady_deadline wide now (Finite d) = saturating_steady_add wide now d"

text \<open>
  No base that a steady clock can show and no duration make the addition overflow; what is
  returned is the exact sum whenever the conversion tells the two sides apart.
\<close>

lemma wide_less: "mono wide \<Longrightarrow> \<not> wide y \<le> wide d \<Longrightarrow> d < (y::int)" for wide :: "int \<Rightarrow> 'w::linorder"
  by (meson leI monoD)

lemma saturating_steady_add_cases:
  assumes "mono wide" and "0 \<le> base" and "base \<le> int64_max"
  shows "saturating_steady_add wide base d =
    (if d \<le> 0 then Some base
     else if wide d \<ge> wide (int64_max - base) then Some int64_max else Some (base + d))"
proof -
  have sub: "sub64 int64_max base = Some (int64_max - base)"
    using assms(2,3) by (simp add: arith64_defs int64_defs)
  have "add64 base d = Some (base + d)" if "\<not> wide (int64_max - base) \<le> wide d" and "\<not> d \<le> 0"
    using wide_less [OF assms(1) that(1)] that(2) assms(2) by (simp add: arith64_defs int64_defs)
  then show ?thesis
    by (simp add: saturating_steady_add_def sub)
qed

lemma saturating_steady_add_bounds:
  assumes "mono wide" and "0 \<le> base" and "base \<le> int64_max"
    and "saturating_steady_add wide base d = Some t"
  shows "base \<le> t \<and> t \<le> int64_max"
proof -
  note wl = wide_less [OF assms(1), of "int64_max - base" d]
  from assms(4) wl assms(3) show ?thesis
    by (auto simp: saturating_steady_add_cases [OF assms(1-3)] simp del: not_le split: if_splits)
qed

end
