(* ===== verification/Timers.thy ===== *)
theory Timers
  imports Clocks
begin

text \<open>
  The Clock-bound timer of \<^verbatim>\<open>dmw/src/timer.cpp\<close> and \<^verbatim>\<open>impl/timer_impl.hpp\<close>: saturating
  arithmetic on \<^verbatim>\<open>std::int64_t\<close>, the period grid, and every operation of \<^verbatim>\<open>TimerState\<close>.
  A function returns \<open>None\<close> where the C++ would leave the range of a signed 64-bit integer;
  the first lemmas show that this never happens.
\<close>

section \<open>Saturating arithmetic\<close>

definition saturating_add :: "int \<Rightarrow> int \<Rightarrow> int option" where
  "saturating_add lhs rhs = do {
     high \<leftarrow> (if rhs > 0 then map_option (\<lambda>m. lhs > m) (sub64 int64_max rhs) else Some False);
     if high then Some int64_max else do {
       low \<leftarrow> (if rhs < 0 then map_option (\<lambda>m. lhs < m) (sub64 int64_min rhs) else Some False);
       if low then Some int64_min else add64 lhs rhs }}"

definition saturating_sub :: "int \<Rightarrow> int \<Rightarrow> int option" where
  "saturating_sub lhs rhs = do {
     low \<leftarrow> (if rhs > 0 then map_option (\<lambda>m. lhs < m) (add64 int64_min rhs) else Some False);
     if low then Some int64_min else do {
       high \<leftarrow> (if rhs < 0 then map_option (\<lambda>m. lhs > m) (add64 int64_max rhs) else Some False);
       if high then Some int64_max else sub64 lhs rhs }}"

definition saturating_mul :: "int \<Rightarrow> int \<Rightarrow> int option" where
  "saturating_mul lhs rhs =
     (if lhs = 0 \<or> rhs = 0 then Some 0
      else do {
        m \<leftarrow> div64 int64_max rhs;
        if lhs > m then Some int64_max else mul64 lhs rhs })"

definition next_period_grid_point :: "int \<Rightarrow> int \<Rightarrow> int \<Rightarrow> int option" where
  "next_period_grid_point expected period now = do {
     next \<leftarrow> saturating_add expected period;
     if next > now then Some next else do {
       behind \<leftarrow> saturating_sub now next;
       cycles \<leftarrow> div64 behind period;
       missed \<leftarrow> saturating_add 1 cycles;
       skip \<leftarrow> saturating_mul missed period;
       next \<leftarrow> saturating_add next skip;
       Some (if next > now then next else now) }}"

definition clamp64 :: "int \<Rightarrow> int" where
  "clamp64 x = max int64_min (min int64_max x)"

lemma clamp64_in [simp]: "in_int64 (clamp64 x)"
  by (auto simp: clamp64_def int64_defs)

lemma clamp64_id: "in_int64 x \<Longrightarrow> clamp64 x = x"
  by (auto simp: clamp64_def int64_defs)

lemma saturating_add_eq: "in_int64 a \<Longrightarrow> in_int64 b \<Longrightarrow> saturating_add a b = Some (clamp64 (a + b))"
  by (auto simp: saturating_add_def arith64_defs clamp64_def int64_defs)

lemma saturating_sub_eq: "in_int64 a \<Longrightarrow> in_int64 b \<Longrightarrow> saturating_sub a b = Some (clamp64 (a - b))"
  by (auto simp: saturating_sub_def arith64_defs clamp64_def int64_defs)

lemma saturating_mul_eq:
  assumes "0 \<le> a" "in_int64 a" "0 \<le> b" "in_int64 b"
  shows "saturating_mul a b = Some (clamp64 (a * b))"
proof (cases "a = 0 \<or> b = 0")
  case True
  then show ?thesis by (auto simp: saturating_mul_def clamp64_def int64_defs)
next
  case False
  with assms have pos: "0 < a" "0 < b" by auto
  have d: "div64 int64_max b = Some (int64_max div b)"
    using pos by (intro div64_nonneg) (auto simp: int64_defs)
  have le: "a * b \<le> int64_max \<longleftrightarrow> a \<le> int64_max div b"
    using pos by (simp add: le_div_iff)
  have "0 \<le> a * b" using pos by simp
  with le False d show ?thesis
    by (auto simp: saturating_mul_def arith64_defs clamp64_def int64_defs not_less)
qed

section \<open>The period grid\<close>

text \<open>
  \<open>grid_next e p n\<close> is the least \<open>e + k * p\<close> with \<open>k \<ge> 1\<close> that is later than \<open>n\<close>, in
  unbounded integers.
\<close>

definition grid_next :: "int \<Rightarrow> int \<Rightarrow> int \<Rightarrow> int" where
  "grid_next e p n = (if e + p > n then e + p else e + p + ((n - (e + p)) div p + 1) * p)"

lemma grid_next_gt: "0 < p \<Longrightarrow> n < grid_next e p n"
proof -
  assume p: "0 < p"
  show ?thesis
    using div_upper [OF p, of "n - (e + p)"] by (auto simp: grid_next_def distrib_right)
qed

lemma grid_next_on_grid: "\<exists>k \<ge> 1. grid_next e p n = e + k * p" if "0 < p"
proof (cases "e + p > n")
  case True
  then show ?thesis by (auto simp: grid_next_def intro: exI [of _ 1])
next
  case False
  then have "0 \<le> (n - (e + p)) div p" using that by (simp add: pos_imp_zdiv_nonneg_iff)
  with False show ?thesis
    by (auto simp: grid_next_def algebra_simps intro!: exI [of _ "(n - (e + p)) div p + 2"])
qed

lemma grid_next_least:
  assumes "0 < p" "1 \<le> k" "n < e + k * p"
  shows "grid_next e p n \<le> e + k * p"
proof (cases "e + p > n")
  case True
  have "p \<le> k * p" using assms(1,2) by (simp add: mult_le_cancel_right)
  with True show ?thesis by (simp add: grid_next_def)
next
  case False
  have "n - (e + p) < (k - 1) * p" using assms(3) by (simp add: algebra_simps)
  then have "(n - (e + p)) div p < k - 1"
    using assms(1) le_div_iff [of p "k - 1" "n - (e + p)"] by linarith
  then have "((n - (e + p)) div p + 1) * p \<le> (k - 1) * p"
    using assms(1) by (intro mult_right_mono) auto
  with False show ?thesis by (simp add: grid_next_def algebra_simps)
qed

lemma in_int64_zero [simp]: "in_int64 0" and in_int64_one [simp]: "in_int64 1"
  by (simp_all add: int64_defs)

lemma clamp64_nonneg: "0 \<le> x \<Longrightarrow> 0 \<le> clamp64 x"
  by (simp add: clamp64_def int64_defs)

lemma in_int64_between: "in_int64 a \<Longrightarrow> in_int64 b \<Longrightarrow> a \<le> x \<Longrightarrow> x \<le> b \<Longrightarrow> in_int64 x"
  by (auto simp: in_int64_def)

text \<open>
  The computation is total on 64-bit inputs and never falls behind \<open>now\<close>; it is the exact grid
  point whenever that one and the distance to it are representable.
\<close>

lemma next_period_total:
  assumes "in_int64 e" "0 < p" "in_int64 p" "in_int64 n"
  shows "\<exists>t. next_period_grid_point e p n = Some t \<and> in_int64 t \<and> n \<le> t"
proof -
  let ?x = "clamp64 (e + p)"
  have x: "saturating_add e p = Some ?x" using assms by (simp add: saturating_add_eq)
  show ?thesis
  proof (cases "?x > n")
    case True
    then show ?thesis by (simp add: next_period_grid_point_def x)
  next
    case False
    let ?b = "clamp64 (n - ?x)"
    have b: "saturating_sub n ?x = Some ?b" using assms by (simp add: saturating_sub_eq)
    have b0: "0 \<le> ?b" using False by (intro clamp64_nonneg) simp
    let ?c = "?b div p"
    have c: "div64 ?b p = Some ?c" using b0 assms by (intro div64_nonneg) auto
    have c0: "0 \<le> ?c" using b0 assms by (simp add: pos_imp_zdiv_nonneg_iff)
    have cb: "?c \<le> ?b" using b0 assms(2) by (rule div_le_self)
    have ci: "in_int64 ?c" by (rule in_int64_between [OF in_int64_zero clamp64_in c0 cb])
    let ?m = "clamp64 (1 + ?c)"
    have m: "saturating_add 1 ?c = Some ?m" using ci by (simp add: saturating_add_eq)
    have m0: "0 \<le> ?m" using c0 by (intro clamp64_nonneg) simp
    let ?s = "clamp64 (?m * p)"
    have s: "saturating_mul ?m p = Some ?s" using m0 assms by (intro saturating_mul_eq) auto
    let ?y = "clamp64 (?x + ?s)"
    have y: "saturating_add ?x ?s = Some ?y" by (simp add: saturating_add_eq)
    show ?thesis
      using False assms(4) by (simp add: next_period_grid_point_def x b c m s y)
  qed
qed

lemma next_period_exact:
  assumes "in_int64 e" "0 < p" "in_int64 n" "in_int64 (grid_next e p n)" "in_int64 (n - e)"
    and "in_int64 p"
  shows "next_period_grid_point e p n = Some (grid_next e p n)"
proof (cases "e + p > n")
  case True
  then have "in_int64 (e + p)" using assms(4) by (simp add: grid_next_def)
  then have "saturating_add e p = Some (e + p)"
    using assms by (simp add: saturating_add_eq clamp64_id)
  with True show ?thesis by (simp add: next_period_grid_point_def grid_next_def)
next
  case False
  let ?x = "e + p" let ?c = "(n - ?x) div p"
  have x_in: "in_int64 ?x"
    by (rule in_int64_between [OF assms(1,3)]) (use False assms(2) in linarith)+
  have b_in: "in_int64 (n - ?x)"
    by (rule in_int64_between [OF in_int64_zero assms(5)]) (use False assms(2) in linarith)+
  have c0: "0 \<le> ?c" using False assms by (simp add: pos_imp_zdiv_nonneg_iff)
  have g: "grid_next e p n = ?x + (?c + 1) * p" using False by (simp add: grid_next_def)
  have nx: "0 \<le> n - ?x" using False by linarith
  have c_le: "?c \<le> n - ?x" by (rule div_le_self [OF nx assms(2)])
  have c_in: "in_int64 ?c" by (rule in_int64_between [OF in_int64_zero b_in c0 c_le])
  have cp: "?c * p \<le> n - ?x" using assms(2) by (rule div_lower)
  have s0: "0 \<le> (?c + 1) * p" by (rule mult_nonneg_nonneg) (use c0 assms(2) in linarith)+
  have "(?c + 1) * p = ?c * p + p" by (simp only: distrib_right mult_1)
  then have s_le: "(?c + 1) * p \<le> n - e" using cp by linarith
  have s_in: "in_int64 ((?c + 1) * p)" by (rule in_int64_between [OF in_int64_zero assms(5) s0 s_le])
  have "(?c + 1) * 1 \<le> (?c + 1) * p" by (rule mult_left_mono) (use c0 assms(2) in linarith)+
  then have m_le: "1 + ?c \<le> (?c + 1) * p" by (simp only: mult_1_right add.commute [of 1 ?c])
  have m0: "0 \<le> 1 + ?c" using c0 by linarith
  have m_in: "in_int64 (1 + ?c)" by (rule in_int64_between [OF in_int64_zero s_in m0 m_le])
  have 1: "saturating_add e p = Some ?x" by (simp add: saturating_add_eq clamp64_id assms x_in)
  have 2: "saturating_sub n ?x = Some (n - ?x)"
    by (simp add: saturating_sub_eq clamp64_id assms x_in b_in del: diff_diff_eq2)
  have 3: "div64 (n - ?x) p = Some ?c" by (rule div64_nonneg [OF nx assms(2) b_in])
  have 4: "saturating_add 1 ?c = Some (1 + ?c)"
    by (simp only: saturating_add_eq [OF in_int64_one c_in] clamp64_id [OF m_in])
  have 5: "saturating_mul (1 + ?c) p = Some ((?c + 1) * p)"
    using saturating_mul_eq [OF m0 m_in _ assms(6)] clamp64_id [OF s_in] assms(2)
    by (simp only: add.commute [of 1 ?c] less_imp_le)
  have 6: "saturating_add ?x ((?c + 1) * p) = Some (grid_next e p n)"
    by (simp only: saturating_add_eq [OF x_in s_in] g [symmetric] clamp64_id [OF assms(4)])
  have "\<not> ?x > n" using False .
  then show ?thesis
    using grid_next_gt [OF assms(2), of n e]
    by (simp only: next_period_grid_point_def 1 2 3 4 5 6 bind.bind_lunit if_False if_True)
qed

lemma grid_next_le: "0 < p \<Longrightarrow> e \<le> n \<Longrightarrow> grid_next e p n \<le> n + p"
  using div_lower [of p "n - (e + p)"] by (auto simp: grid_next_def distrib_right)

section \<open>Timer state\<close>

record TimerState =
  tm_closing :: bool
  period_ns :: int
  tm_canceled :: bool
  last_call_ns :: int
  next_call_ns :: int

record TimerInfo =
  expected_call_time :: TimePoint
  actual_call_time :: TimePoint
  elapsed_since_last_call :: int

text \<open>The constructor; \<open>now\<close> is what the clock shows.\<close>

definition new_timer :: "int \<Rightarrow> int \<Rightarrow> bool \<Rightarrow> TimerState option" where
  "new_timer now period autostart = do {
     next \<leftarrow> saturating_add now period;
     Some \<lparr>tm_closing = False, period_ns = period, tm_canceled = \<not> autostart,
           last_call_ns = now, next_call_ns = next\<rparr> }"

text \<open>\<^verbatim>\<open>Context::create_timer\<close>: \<open>same\<close> says whether the clock belongs to this Context.\<close>

definition create_timer :: "bool \<Rightarrow> bool \<Rightarrow> int \<Rightarrow> int \<Rightarrow> bool \<Rightarrow> TimerState result option" where
  "create_timer shut same now period autostart =
     (if period < 0 then Some (Inl InvalidArgument)
      else if shut then Some (Inl ContextShutdown)
      else if \<not> same then Some (Inl InvalidArgument)
      else map_option Inr (new_timer now period autostart))"

text \<open>
  \<open>wake\<close> is what the wake callback of the WaitSet the timer is registered with returns,
  \<open>None\<close> without a registration.
\<close>

definition timer_notify :: "unit result option \<Rightarrow> unit result" where
  "timer_notify wake = (case wake of None \<Rightarrow> Inr () | Some r \<Rightarrow> r)"

definition timer_guard :: "bool \<Rightarrow> TimerState \<Rightarrow> unit result" where
  "timer_guard shut t =
     (if tm_closing t then Inl ParentDestroyed else if shut then Inl ContextShutdown else Inr ())"

definition timer_close :: "TimerState \<Rightarrow> TimerState" where
  "timer_close t = t\<lparr>tm_closing := True\<rparr>"

definition timer_is_canceled :: "bool \<Rightarrow> TimerState \<Rightarrow> bool result" where
  "timer_is_canceled shut t = rbind (timer_guard shut t) (\<lambda>_. Inr (tm_canceled t))"

definition timer_is_ready :: "bool \<Rightarrow> int \<Rightarrow> TimerState \<Rightarrow> bool result" where
  "timer_is_ready shut now t = rbind (timer_guard shut t) (\<lambda>_.
     if tm_canceled t then Inr False else Inr (now \<ge> next_call_ns t))"

definition timer_logically_ready :: "bool \<Rightarrow> int \<Rightarrow> TimerState \<Rightarrow> bool" where
  "timer_logically_ready shut now t =
     (if tm_closing t \<or> shut then False
      else if tm_canceled t then False
      else now \<ge> next_call_ns t)"

definition timer_cancel :: "bool \<Rightarrow> unit result option \<Rightarrow> TimerState \<Rightarrow> unit result \<times> TimerState" where
  "timer_cancel shut wake t =
     (case timer_guard shut t of
        Inl e \<Rightarrow> (Inl e, t)
      | Inr _ \<Rightarrow> if tm_canceled t then (Inr (), t)
                else (timer_notify wake, t\<lparr>tm_canceled := True\<rparr>))"

definition timer_reset ::
  "bool \<Rightarrow> int \<Rightarrow> unit result option \<Rightarrow> TimerState \<Rightarrow> (unit result \<times> TimerState) option" where
  "timer_reset shut now wake t =
     (case timer_guard shut t of
        Inl e \<Rightarrow> Some (Inl e, t)
      | Inr _ \<Rightarrow> do {
          next \<leftarrow> saturating_add now (period_ns t);
          Some (timer_notify wake,
            t\<lparr>tm_canceled := False, last_call_ns := now, next_call_ns := next\<rparr>) })"

definition timer_exchange_period ::
  "bool \<Rightarrow> int \<Rightarrow> unit result option \<Rightarrow> TimerState \<Rightarrow> int result \<times> TimerState" where
  "timer_exchange_period shut new_period wake t =
     (if new_period < 0 then (Inl InvalidArgument, t)
      else case timer_guard shut t of
        Inl e \<Rightarrow> (Inl e, t)
      | Inr _ \<Rightarrow> (rbind (timer_notify wake) (\<lambda>_. Inr (period_ns t)), t\<lparr>period_ns := new_period\<rparr>))"

definition timer_time_until_next_call :: "bool \<Rightarrow> int \<Rightarrow> TimerState \<Rightarrow> int result option" where
  "timer_time_until_next_call shut now t =
     (case timer_guard shut t of
        Inl e \<Rightarrow> Some (Inl e)
      | Inr _ \<Rightarrow>
          if tm_canceled t then Some (Inl InvalidState)
          else map_option (\<lambda>remaining. Inr (max remaining 0)) (saturating_sub (next_call_ns t) now))"

text \<open>The caller's \<^verbatim>\<open>TimerInfo\<close> is written only where the result is \<open>True\<close>.\<close>

definition timer_consume ::
  "bool \<Rightarrow> ClockType \<Rightarrow> int \<Rightarrow> TimerState \<Rightarrow> (bool result \<times> TimerInfo option \<times> TimerState) option" where
  "timer_consume shut ty now t =
     (case timer_guard shut t of
        Inl e \<Rightarrow> Some (Inl e, None, t)
      | Inr _ \<Rightarrow>
          if tm_canceled t \<or> now < next_call_ns t then Some (Inr False, None, t)
          else do {
            elapsed \<leftarrow> saturating_sub now (last_call_ns t);
            next \<leftarrow> (if period_ns t > 0
                     then next_period_grid_point (next_call_ns t) (period_ns t) now else Some now);
            Some (Inr True,
              Some \<lparr>expected_call_time = \<lparr>nanoseconds = next_call_ns t, clock_type = ty\<rparr>,
                    actual_call_time = \<lparr>nanoseconds = now, clock_type = ty\<rparr>,
                    elapsed_since_last_call = elapsed\<rparr>,
              t\<lparr>last_call_ns := now, next_call_ns := next\<rparr>) })"

definition kMaxNativeWait :: int where "kMaxNativeWait = 24 * 365 * 10 * 3600 * 1000000000"

text \<open>The inner \<open>None\<close> is \<^verbatim>\<open>nullopt\<close>; the outer one an overflow.\<close>

definition timer_steady_deadline ::
  "bool \<Rightarrow> bool \<Rightarrow> int \<Rightarrow> int \<Rightarrow> TimerState \<Rightarrow> int option option" where
  "timer_steady_deadline shut override_active steady_now now t =
     (if tm_closing t \<or> shut then Some None
      else if tm_canceled t then Some None
      else if override_active then Some None
      else if now \<ge> next_call_ns t then Some (Some steady_now)
      else do {
        remaining \<leftarrow> saturating_sub (next_call_ns t) now;
        map_option Some (add64 steady_now (min remaining kMaxNativeWait)) })"

lemmas timer_defs [op_defs] = new_timer_def create_timer_def timer_notify_def timer_guard_def
  timer_close_def timer_is_canceled_def timer_is_ready_def timer_logically_ready_def
  timer_cancel_def timer_reset_def timer_exchange_period_def timer_time_until_next_call_def
  timer_consume_def timer_steady_deadline_def

subsection \<open>Every operation keeps a timer well formed\<close>

definition timer_ok :: "TimerState \<Rightarrow> bool" where
  "timer_ok t \<longleftrightarrow> 0 \<le> period_ns t \<and> in_int64 (period_ns t) \<and> in_int64 (last_call_ns t)
     \<and> in_int64 (next_call_ns t)"

lemma new_timer_ok [keeps]:
  "0 \<le> p \<Longrightarrow> in_int64 p \<Longrightarrow> in_int64 now \<Longrightarrow> \<exists>t. new_timer now p a = Some t \<and> timer_ok t"
  by (simp add: new_timer_def saturating_add_eq timer_ok_def)

lemma timer_cancel_ok [keeps]: "timer_ok t \<Longrightarrow> timer_ok (snd (timer_cancel shut w t))"
  by (simp add: timer_cancel_def timer_ok_def split: sum.splits)

lemma timer_reset_ok [keeps]:
  "timer_ok t \<Longrightarrow> in_int64 now \<Longrightarrow> \<exists>r t'. timer_reset shut now w t = Some (r, t') \<and> timer_ok t'"
  by (auto simp: timer_reset_def timer_ok_def saturating_add_eq split: sum.splits)

lemma timer_exchange_ok [keeps]:
  "timer_ok t \<Longrightarrow> in_int64 p \<Longrightarrow> timer_ok (snd (timer_exchange_period shut p w t))"
  by (simp add: timer_exchange_period_def timer_ok_def split: sum.splits)

lemma timer_exchange_schedule [frame]:
  "next_call_ns (snd (timer_exchange_period shut p w t)) = next_call_ns t"
  "last_call_ns (snd (timer_exchange_period shut p w t)) = last_call_ns t"
  by (simp_all add: timer_exchange_period_def split: sum.splits)

lemma timer_guard_Inr [simp]: "timer_guard shut t = Inr u \<longleftrightarrow> \<not> tm_closing t \<and> \<not> shut"
  by (simp add: timer_guard_def)

lemma timer_consume_ready:
  assumes "timer_ok t" "in_int64 now" "\<not> tm_closing t" "\<not> shut" "\<not> tm_canceled t" "next_call_ns t \<le> now"
  shows "\<exists>next. timer_consume shut ty now t =
      Some (Inr True,
        Some \<lparr>expected_call_time = \<lparr>nanoseconds = next_call_ns t, clock_type = ty\<rparr>,
              actual_call_time = \<lparr>nanoseconds = now, clock_type = ty\<rparr>,
              elapsed_since_last_call = clamp64 (now - last_call_ns t)\<rparr>,
        t\<lparr>last_call_ns := now, next_call_ns := next\<rparr>)
      \<and> in_int64 next \<and> now \<le> next
      \<and> (0 < period_ns t \<longrightarrow> in_int64 (now + period_ns t) \<longrightarrow> in_int64 (now - next_call_ns t) \<longrightarrow>
           next = grid_next (next_call_ns t) (period_ns t) now)"
proof (cases "0 < period_ns t")
  case False
  then show ?thesis
    using assms by (intro exI [of _ now])
      (simp add: timer_consume_def timer_guard_def saturating_sub_eq timer_ok_def)
next
  case True
  let ?e = "next_call_ns t" let ?p = "period_ns t"
  have e: "in_int64 ?e" and p: "in_int64 ?p" and l: "in_int64 (last_call_ns t)"
    using assms(1) by (auto simp: timer_ok_def)
  obtain n where n: "next_period_grid_point ?e ?p now = Some n" "in_int64 n" "now \<le> n"
    using next_period_total [OF e True p assms(2)] by blast
  have "n = grid_next ?e ?p now" if a: "in_int64 (now + ?p)" and b: "in_int64 (now - ?e)"
  proof -
    have "in_int64 (grid_next ?e ?p now)"
      by (rule in_int64_between [OF assms(2) a])
        (use grid_next_gt [OF True, of now ?e] grid_next_le [OF True assms(6)] in linarith)+
    from next_period_exact [OF e True assms(2) this b p] n(1) show ?thesis by simp
  qed
  then show ?thesis
    using True assms(2-6) n l by (intro exI [of _ n])
      (simp add: timer_consume_def timer_guard_def saturating_sub_eq)
qed

lemma timer_consume_not_ready:
  "\<not> tm_closing t \<Longrightarrow> \<not> shut \<Longrightarrow> tm_canceled t \<or> now < next_call_ns t \<Longrightarrow>
    timer_consume shut ty now t = Some (Inr False, None, t)"
  by (auto simp: timer_consume_def timer_guard_def)

lemma timer_consume_ok [keeps]:
  assumes "timer_ok t" "in_int64 now"
  shows "\<exists>r i t'. timer_consume shut ty now t = Some (r, i, t') \<and> timer_ok t'"
proof (cases "tm_closing t \<or> shut \<or> tm_canceled t \<or> now < next_call_ns t")
  case True
  then show ?thesis using assms(1) by (auto simp: timer_consume_def timer_guard_def)
next
  case False
  then obtain n where "timer_consume shut ty now t = Some (Inr True,
        Some \<lparr>expected_call_time = \<lparr>nanoseconds = next_call_ns t, clock_type = ty\<rparr>,
              actual_call_time = \<lparr>nanoseconds = now, clock_type = ty\<rparr>,
              elapsed_since_last_call = clamp64 (now - last_call_ns t)\<rparr>,
        t\<lparr>last_call_ns := now, next_call_ns := n\<rparr>)" "in_int64 n"
    using timer_consume_ready [OF assms, of shut ty] by auto
  then show ?thesis using assms by (simp add: timer_ok_def)
qed

section \<open>A timer on a clock\<close>

text \<open>
  What a timer relies on: a well-formed clock shows a 64-bit number of nanoseconds. The contract
  gives the timer its totality on every clock that keeps it.
\<close>

locale clock_source =
  fixes now :: "'c \<Rightarrow> int" and kind :: "'c \<Rightarrow> ClockType" and ok :: "'c \<Rightarrow> bool"
  assumes now_range: "ok c \<Longrightarrow> in_int64 (now c)"
begin

lemma consume_total:
  "ok c \<Longrightarrow> timer_ok t \<Longrightarrow>
    \<exists>r i t'. timer_consume shut (kind c) (now c) t = Some (r, i, t') \<and> timer_ok t'"
  by (intro timer_consume_ok now_range)

lemma reset_total:
  "ok c \<Longrightarrow> timer_ok t \<Longrightarrow> \<exists>r t'. timer_reset shut (now c) w t = Some (r, t') \<and> timer_ok t'"
  by (intro timer_reset_ok now_range)

lemma until_total:
  "ok c \<Longrightarrow> timer_ok t \<Longrightarrow> timer_time_until_next_call shut (now c) t \<noteq> None"
  by (auto simp: timer_time_until_next_call_def timer_ok_def saturating_sub_eq now_range split: sum.splits)

end

interpretation ck: clock_source "\<lambda>(h, c). current_nanoseconds h c" "\<lambda>(h, c). ck_type c"
  "\<lambda>(h, c). host_ok h \<and> clock_ok c"
  by unfold_locales (auto intro: current_nanoseconds_in_int64)

section \<open>Properties\<close>

text \<open>
  A run: the timer is consumed once at each instant of a list; the result counts the calls that
  reported a deadline.
\<close>

fun consume_run :: "ClockType \<Rightarrow> int list \<Rightarrow> TimerState \<Rightarrow> (nat \<times> TimerState) option" where
  "consume_run ty [] t = Some (0, t)"
| "consume_run ty (now # ns) t =
     (case timer_consume False ty now t of
        Some (Inr b, _, t') \<Rightarrow>
          map_option (\<lambda>(k, t''). (if b then Suc k else k, t'')) (consume_run ty ns t')
      | _ \<Rightarrow> None)"

lemma consume_step:
  assumes t: "timer_ok t" "\<not> tm_closing t" "\<not> tm_canceled t" "0 < period_ns t" "period_ns t \<le> 2 ^ 62"
    and n: "0 \<le> now" "now < 2 ^ 62" and e: "0 \<le> next_call_ns t"
  shows "\<exists>b i t'. timer_consume False ty now t = Some (Inr b, i, t')
    \<and> timer_ok t' \<and> tm_closing t' = tm_closing t \<and> tm_canceled t' = tm_canceled t
    \<and> period_ns t' = period_ns t \<and> next_call_ns t \<le> next_call_ns t'
    \<and> next_call_ns t' \<le> max (next_call_ns t) (now + period_ns t)
    \<and> (\<exists>k. next_call_ns t' = next_call_ns t + k * period_ns t \<and> (if b then 1 else 0) \<le> k)"
proof (cases "now < next_call_ns t")
  case True
  then show ?thesis
    using t by (intro exI [of _ False] exI [of _ None] exI [of _ t])
      (auto simp: timer_consume_not_ready intro: exI [of _ 0])
next
  case False
  let ?p = "period_ns t" let ?e = "next_call_ns t"
  have now_in: "in_int64 now" and "in_int64 (now + ?p)" and "in_int64 (now - ?e)"
    using n t(5,4) e False by (auto simp: int64_defs)
  then obtain i where c: "timer_consume False ty now t =
      Some (Inr True, Some i, t\<lparr>last_call_ns := now, next_call_ns := grid_next ?e ?p now\<rparr>)"
    and g: "in_int64 (grid_next ?e ?p now)"
    using timer_consume_ready [OF t(1) now_in t(2) _ t(3), of False ty] False t(4) by auto
  have up: "grid_next ?e ?p now \<le> now + ?p" using t(4) False by (intro grid_next_le) auto
  have lo: "now < grid_next ?e ?p now" using t(4) by (rule grid_next_gt)
  obtain k where k: "1 \<le> k" "grid_next ?e ?p now = ?e + k * ?p"
    using grid_next_on_grid [OF t(4)] by blast
  let ?t = "t\<lparr>last_call_ns := now, next_call_ns := grid_next ?e ?p now\<rparr>"
  have "timer_ok ?t" using t(1) now_in g by (simp add: timer_ok_def)
  moreover have "\<exists>k. next_call_ns ?t = ?e + k * ?p \<and> (if True then 1 else 0) \<le> k"
    using k by (intro exI [of _ k]) simp
  ultimately show ?thesis
    using False up lo
    by (intro exI [of _ True] exI [of _ "Some i"] exI [of _ ?t] conjI c) simp_all
qed

text \<open>
  C39. The period grid: on 64-bit inputs the computation never leaves the range of
  \<^verbatim>\<open>std::int64_t\<close> and never returns an instant before \<open>now\<close>; away from the ends of the range
  it is the least point \<open>expected + k * period\<close>, \<open>k \<ge> 1\<close>, strictly later than \<open>now\<close>, so
  missed cycles are skipped and no later cycle is.
\<close>

theorem next_period_grid_point_correct:
  assumes "in_int64 e" "0 < p" "in_int64 p" "in_int64 now"
  shows "\<exists>t. next_period_grid_point e p now = Some t \<and> in_int64 t \<and> now \<le> t
    \<and> (e \<le> now \<longrightarrow> in_int64 (now + p) \<longrightarrow> in_int64 (now - e) \<longrightarrow>
         now < t \<and> (\<exists>k \<ge> 1. t = e + k * p) \<and> (\<forall>k \<ge> 1. now < e + k * p \<longrightarrow> t \<le> e + k * p))"
proof -
  obtain t where t: "next_period_grid_point e p now = Some t" "in_int64 t" "now \<le> t"
    using next_period_total [OF assms] by blast
  have "t = grid_next e p now" if "e \<le> now" "in_int64 (now + p)" "in_int64 (now - e)"
  proof -
    have "in_int64 (grid_next e p now)"
      by (rule in_int64_between [OF assms(4) that(2)])
        (use grid_next_gt [OF assms(2), of now e] grid_next_le [OF assms(2) that(1)] in linarith)+
    from next_period_exact [OF assms(1,2,4) this that(3) assms(3)] t(1) show ?thesis by simp
  qed
  then show ?thesis
    using t grid_next_gt [OF assms(2), of now e] grid_next_on_grid [OF assms(2), of e now]
      grid_next_least [OF assms(2)]
    by (intro exI [of _ t]) auto
qed

theorem next_period_grid_point_correct_witness:
  "\<exists>t. next_period_grid_point 100 30 205 = Some t \<and> 205 < t \<and> t \<le> 220"
proof -
  have "in_int64 100" "in_int64 30" "in_int64 205" "in_int64 (205 + 30)" "in_int64 (205 - 100)"
    by (simp_all add: int64_defs)
  then obtain t where "next_period_grid_point 100 30 205 = Some t" "205 < t"
      "\<forall>k \<ge> 1. 205 < 100 + k * 30 \<longrightarrow> t \<le> 100 + k * (30::int)"
    using next_period_grid_point_correct [of 100 30 205] by auto
  moreover from this(3) have "t \<le> 100 + 4 * 30" by (elim allE [of _ 4]) simp
  ultimately show ?thesis by auto
qed

text \<open>
  A timer neither drifts nor fires twice for one cycle: consumed at any instants, in any
  order, every call returns (no overflow, no error), the next deadline stays on the grid of the
  first one, each reported deadline moves it by at least one period, and it is never more than
  one period beyond the latest instant seen.
\<close>

theorem consume_run_no_drift:
  assumes "timer_ok t" "\<not> tm_closing t" "\<not> tm_canceled t" "0 < period_ns t" "period_ns t \<le> 2 ^ 62"
    and "0 \<le> next_call_ns t" and "\<forall>n \<in> set ns. 0 \<le> n \<and> n \<le> m" and "m < 2 ^ 62"
  shows "\<exists>k t'. consume_run ty ns t = Some (k, t')
    \<and> period_ns t dvd next_call_ns t' - next_call_ns t
    \<and> int k * period_ns t \<le> next_call_ns t' - next_call_ns t
    \<and> next_call_ns t' \<le> max (next_call_ns t) (m + period_ns t)"
  using assms
proof (induction ns arbitrary: t)
  case Nil
  then show ?case by simp
next
  case (Cons n ns)
  then have "0 \<le> n" "n < 2 ^ 62" "n \<le> m" by auto
  with consume_step [OF Cons.prems(1-5) _ _ Cons.prems(6), of n ty]
  obtain b i t1 j where c: "timer_consume False ty n t = Some (Inr b, i, t1)"
    and ok: "timer_ok t1" "\<not> tm_closing t1" "\<not> tm_canceled t1" "period_ns t1 = period_ns t"
    and le: "next_call_ns t \<le> next_call_ns t1"
      "next_call_ns t1 \<le> max (next_call_ns t) (n + period_ns t)"
    and j: "next_call_ns t1 = next_call_ns t + j * period_ns t" "(if b then 1 else 0) \<le> j"
    using Cons.prems(2,3) by metis
  obtain k t' where r: "consume_run ty ns t1 = Some (k, t')"
    and dv: "period_ns t dvd next_call_ns t' - next_call_ns t1"
    and kp: "int k * period_ns t \<le> next_call_ns t' - next_call_ns t1"
    and up: "next_call_ns t' \<le> max (next_call_ns t1) (m + period_ns t)"
    using Cons.IH [OF ok(1-3)] ok(4) le Cons.prems(4-8) by auto
  let ?k = "if b then Suc k else k"
  have "period_ns t dvd (next_call_ns t' - next_call_ns t1) + j * period_ns t"
    using dv by simp
  moreover have "(if b then 1 else 0) * period_ns t \<le> j * period_ns t"
    using j(2) Cons.prems(4) by (intro mult_right_mono) auto
  then have "int ?k * period_ns t \<le> (next_call_ns t' - next_call_ns t1) + j * period_ns t"
    using kp by (auto simp: distrib_right split: if_splits)
  moreover have "next_call_ns t' \<le> max (next_call_ns t) (m + period_ns t)"
    using up le \<open>n \<le> m\<close> by auto
  ultimately show ?case
    using c r j(1) by (auto simp: algebra_simps)
qed

definition sample_timer :: TimerState where
  "sample_timer = \<lparr>tm_closing = False, period_ns = 10, tm_canceled = False,
     last_call_ns = 0, next_call_ns = 10\<rparr>"

theorem consume_run_no_drift_witness:
  "\<exists>k t'. consume_run Steady [5, 12, 47] sample_timer = Some (k, t')
    \<and> int k * 10 \<le> next_call_ns t' - 10 \<and> next_call_ns t' \<le> 57"
  using consume_run_no_drift [of sample_timer "[5, 12, 47]" 47 Steady]
  by (auto simp: sample_timer_def timer_ok_def int64_defs)

text \<open>
  Readiness is level triggered and agrees everywhere: at one instant the WaitSet's
  \<open>logically_ready\<close>, \<open>is_ready\<close> and the result of \<open>consume\<close> are the same boolean, a
  call that reports nothing leaves the timer and the caller's \<^verbatim>\<open>TimerInfo\<close> untouched, and
  right after a reported deadline of a positive period the timer is ready no more.
\<close>

theorem timer_readiness_agrees:
  assumes "timer_ok t" "in_int64 now" "\<not> tm_closing t" "\<not> shut"
  shows "\<exists>b i t'. timer_consume shut ty now t = Some (Inr b, i, t')
    \<and> b = timer_logically_ready shut now t \<and> timer_is_ready shut now t = Inr b
    \<and> (\<not> b \<longrightarrow> t' = t \<and> i = None)
    \<and> (b \<longrightarrow> 0 < period_ns t \<longrightarrow> in_int64 (now + period_ns t) \<longrightarrow> in_int64 (now - next_call_ns t)
         \<longrightarrow> \<not> timer_logically_ready shut now t')"
proof (cases "tm_canceled t \<or> now < next_call_ns t")
  case True
  then show ?thesis
    using assms(3,4) timer_consume_not_ready [OF assms(3,4) True, of ty]
    by (intro exI [of _ False] exI [of _ None] exI [of _ t])
      (auto simp: timer_logically_ready_def timer_is_ready_def timer_guard_def)
next
  case False
  then obtain i nx where
    c: "timer_consume shut ty now t = Some (Inr True, Some i, t\<lparr>last_call_ns := now, next_call_ns := nx\<rparr>)"
    and g: "0 < period_ns t \<longrightarrow> in_int64 (now + period_ns t) \<longrightarrow> in_int64 (now - next_call_ns t) \<longrightarrow>
           nx = grid_next (next_call_ns t) (period_ns t) now"
    using timer_consume_ready [OF assms, of ty] by auto
  show ?thesis
    using False assms(3,4) g grid_next_gt [of "period_ns t" now "next_call_ns t"]
    by (intro exI [of _ True] exI [of _ "Some i"]
        exI [of _ "t\<lparr>last_call_ns := now, next_call_ns := nx\<rparr>"] conjI c)
      (auto simp: timer_logically_ready_def timer_is_ready_def timer_guard_def)
qed

theorem timer_readiness_agrees_witness:
  "\<exists>i t'. timer_consume False Steady 12 sample_timer = Some (Inr True, i, t')
    \<and> \<not> timer_logically_ready False 12 t'"
proof -
  have "timer_ok sample_timer" "in_int64 12" "\<not> tm_closing sample_timer"
    by (simp_all add: sample_timer_def timer_ok_def int64_defs)
  from timer_readiness_agrees [OF this, of False Steady] obtain b i t' where
    c: "timer_consume False Steady 12 sample_timer = Some (Inr b, i, t')"
    and b: "b = timer_logically_ready False 12 sample_timer"
    and n: "b \<Longrightarrow> 0 < period_ns sample_timer \<Longrightarrow> in_int64 (12 + period_ns sample_timer) \<Longrightarrow>
      in_int64 (12 - next_call_ns sample_timer) \<Longrightarrow> \<not> timer_logically_ready False 12 t'"
    by blast
  have "b" unfolding b by (simp add: sample_timer_def timer_logically_ready_def)
  with n have "\<not> timer_logically_ready False 12 t'"
    by (simp add: sample_timer_def int64_defs)
  with c \<open>b\<close> show ?thesis by auto
qed

end
