(* ===== verification/Identity.thy ===== *)
theory Identity
  imports Prelude
begin

text \<open>
  Identities and codes at the DDS boundary: \<^verbatim>\<open>dmw/gid.hpp\<close>, \<^verbatim>\<open>dmw/request_id.hpp\<close>,
  \<^verbatim>\<open>impl/identity.hpp\<close> and \<^verbatim>\<open>impl/return_code.hpp\<close>. The structures of Fast DDS that the code
  reads field by field are records; its distinguished constants (the unknown GUID, the unknown
  sequence number) are parameters.
\<close>

section \<open>Identifiers\<close>

type_synonym Bytes = "8 word list"

text \<open>\<^verbatim>\<open>std::array<std::uint8_t, 16>\<close>.\<close>

type_synonym Gid = Bytes

definition gid_ok :: "Gid \<Rightarrow> bool" where
  "gid_ok g \<longleftrightarrow> length g = 16"

record RequestId =
  client_gid :: Gid
  sequence_number :: int

text \<open>The Fast DDS structures.\<close>

record Guid =
  guidPrefix :: Bytes
  entityId :: Bytes

definition guid_ok :: "Guid \<Rightarrow> bool" where
  "guid_ok g \<longleftrightarrow> length (guidPrefix g) = 12 \<and> length (entityId g) = 4"

record SequenceNumber =
  seq_high :: u32
  seq_low :: u32

record SampleIdentity =
  writer_guid :: Guid
  sample_sequence :: SequenceNumber

section \<open>Hashes\<close>

definition fnv_step :: "8 word \<Rightarrow> u64 \<Rightarrow> u64" where
  "fnv_step byte value = (xor value (ucast byte)) * 1099511628211"

definition GidHash :: "Gid \<Rightarrow> u64" where
  "GidHash gid = fold fnv_step gid 1469598103934665603"

text \<open>\<open>h\<close> is the standard library's hash of a 64-bit integer.\<close>

definition RequestIdHash :: "(int \<Rightarrow> u64) \<Rightarrow> RequestId \<Rightarrow> u64" where
  "RequestIdHash h r =
     (let gid_hash = GidHash (client_gid r); sequence_hash = h (sequence_number r)
      in xor gid_hash (sequence_hash + 0x9e3779b9 + push_bit 6 gid_hash + drop_bit 2 gid_hash))"

section \<open>Sequence numbers\<close>

definition from_sequence :: "SequenceNumber \<Rightarrow> int" where
  "from_sequence s = sint (or (push_bit 32 (ucast (seq_high s))) (ucast (seq_low s)) :: u64)"

definition to_sequence :: "int \<Rightarrow> SequenceNumber" where
  "to_sequence value =
     (let bits = (word_of_int value :: u64)
      in \<lparr>seq_high = ucast (drop_bit 32 bits), seq_low = ucast bits\<rparr>)"

definition to_gid :: "Guid \<Rightarrow> Gid" where
  "to_gid guid = guidPrefix guid @ entityId guid"

definition to_request_id :: "SequenceNumber \<Rightarrow> SampleIdentity \<Rightarrow> RequestId option" where
  "to_request_id unknown identity =
     (if sample_sequence identity = unknown then None
      else Some \<lparr>client_gid = to_gid (writer_guid identity),
                 sequence_number = from_sequence (sample_sequence identity)\<rparr>)"

definition to_writer_sequence :: "SequenceNumber \<Rightarrow> SequenceNumber \<Rightarrow> u64" where
  "to_writer_sequence unknown s = (if s = unknown then 0 else word_of_int (from_sequence s))"

text \<open>\<^verbatim>\<open>is_reader_guid\<close> of \<^verbatim>\<open>server_impl.cpp\<close>: bit 2 of the last byte of the entity id.\<close>

definition is_reader_guid :: "Guid \<Rightarrow> Guid \<Rightarrow> bool" where
  "is_reader_guid unknown guid \<longleftrightarrow> guid \<noteq> unknown \<and> and (entityId guid ! 3) 4 \<noteq> 0"

lemmas identity_defs [op_defs] = from_sequence_def to_sequence_def to_gid_def to_request_id_def
  to_writer_sequence_def is_reader_guid_def

text \<open>The two halves of a sequence number are the halves of one 64-bit word.\<close>

lemma halves_of_join:
  fixes h l :: u32
  shows "ucast (drop_bit 32 (or (push_bit 32 (ucast h)) (ucast l) :: u64)) = h"
    and "ucast (or (push_bit 32 (ucast h)) (ucast l) :: u64) = l"
  by (rule bit_word_eqI; auto simp: bit_simps dest: bit_imp_le_length)+

lemma join_of_halves:
  fixes w :: u64
  shows "or (push_bit 32 (ucast (ucast (drop_bit 32 w) :: u32))) (ucast (ucast w :: u32)) = w"
  by (rule bit_word_eqI) (auto simp: bit_simps dest: bit_imp_le_length)

lemma to_from_sequence [simp]: "to_sequence (from_sequence s) = s"
  using halves_of_join [of "seq_high s" "seq_low s"]
  by (simp add: to_sequence_def from_sequence_def del: drop_bit_or)

lemma from_to_sequence: "in_int64 v \<Longrightarrow> from_sequence (to_sequence v) = v"
proof -
  assume v: "in_int64 v"
  have "from_sequence (to_sequence v) = sint (word_of_int v :: u64)"
    by (simp add: to_sequence_def from_sequence_def join_of_halves Let_def)
  also have "\<dots> = (v + 2 ^ 63) mod 2 ^ 64 - 2 ^ 63"
    using int_word_sint [of v, where 'a = 64] by simp
  also have "\<dots> = v"
    using v by (simp add: int64_defs)
  finally show ?thesis .
qed

lemma from_sequence_inject [simp]: "from_sequence s = from_sequence s' \<longleftrightarrow> s = s'"
  by (metis to_from_sequence)

lemma to_gid_inject: "guid_ok g \<Longrightarrow> guid_ok g' \<Longrightarrow> to_gid g = to_gid g' \<longleftrightarrow> g = g'"
  by (auto simp: to_gid_def guid_ok_def)

lemma to_gid_ok: "guid_ok g \<Longrightarrow> gid_ok (to_gid g)"
  by (simp add: guid_ok_def gid_ok_def to_gid_def)

section \<open>Return codes\<close>

text \<open>The Fast DDS return codes the source names; \<open>RETCODE_UNNAMED\<close> is any other one.\<close>

datatype ReturnCode =
    RETCODE_OK | RETCODE_NO_DATA | RETCODE_BAD_PARAMETER | RETCODE_OUT_OF_RESOURCES
  | RETCODE_UNSUPPORTED | RETCODE_NOT_ALLOWED_BY_SECURITY | RETCODE_INCONSISTENT_POLICY
  | RETCODE_TIMEOUT | RETCODE_PRECONDITION_NOT_MET | RETCODE_NOT_ENABLED
  | RETCODE_IMMUTABLE_POLICY | RETCODE_ALREADY_DELETED | RETCODE_ILLEGAL_OPERATION
  | RETCODE_UNNAMED

fun to_return_code :: "ReturnCode \<Rightarrow> ErrorCode" where
  "to_return_code RETCODE_BAD_PARAMETER = InvalidArgument"
| "to_return_code RETCODE_OUT_OF_RESOURCES = ResourceExhausted"
| "to_return_code RETCODE_UNSUPPORTED = Unsupported"
| "to_return_code RETCODE_NOT_ALLOWED_BY_SECURITY = Unsupported"
| "to_return_code RETCODE_INCONSISTENT_POLICY = IncompatibleQos"
| "to_return_code RETCODE_TIMEOUT = Timeout"
| "to_return_code RETCODE_PRECONDITION_NOT_MET = InvalidState"
| "to_return_code RETCODE_NOT_ENABLED = InvalidState"
| "to_return_code RETCODE_IMMUTABLE_POLICY = InvalidState"
| "to_return_code RETCODE_ALREADY_DELETED = InvalidState"
| "to_return_code RETCODE_ILLEGAL_OPERATION = InvalidState"
| "to_return_code _ = DDSError"

section \<open>Properties\<close>

text \<open>
  A sample identity and its \<^verbatim>\<open>RequestId\<close> determine each other: sequence numbers survive the
  conversion to \<^verbatim>\<open>std::int64_t\<close> and back in both directions, a well-formed GUID gives a 16-byte
  gid, and two known identities with the same \<^verbatim>\<open>RequestId\<close> are equal, so that no two requests
  are correlated with one response.
\<close>

theorem request_identity_roundtrip:
  "to_sequence (from_sequence s) = s
   \<and> (in_int64 v \<longrightarrow> from_sequence (to_sequence v) = v)
   \<and> (guid_ok (writer_guid i) \<longrightarrow> guid_ok (writer_guid j) \<longrightarrow> to_request_id u i = Some r \<longrightarrow>
        to_request_id u j = Some r \<longrightarrow> i = j \<and> gid_ok (client_gid r))"
  by (auto simp: to_request_id_def to_gid_inject to_gid_ok from_to_sequence split: if_splits)

definition sample_identity_1 :: SampleIdentity where
  "sample_identity_1 =
     \<lparr>writer_guid = \<lparr>guidPrefix = replicate 12 7, entityId = [0, 0, 1, 4]\<rparr>,
      sample_sequence = \<lparr>seq_high = 0, seq_low = 5\<rparr>\<rparr>"

definition unknown_sequence_1 :: SequenceNumber where
  "unknown_sequence_1 = \<lparr>seq_high = - 1, seq_low = 0\<rparr>"

theorem request_identity_roundtrip_witness:
  "from_sequence (to_sequence (- 3)) = - 3
   \<and> gid_ok (client_gid \<lparr>client_gid = to_gid (writer_guid sample_identity_1), sequence_number = 5\<rparr>)"
proof -
  let ?r = "\<lparr>client_gid = to_gid (writer_guid sample_identity_1), sequence_number = 5\<rparr>"
  have r: "to_request_id unknown_sequence_1 sample_identity_1 = Some ?r"
    by (simp add: to_request_id_def unknown_sequence_1_def sample_identity_1_def from_sequence_def)
  have g: "guid_ok (writer_guid sample_identity_1)"
    by (simp add: guid_ok_def sample_identity_1_def)
  have v: "in_int64 (- 3)" by (simp add: int64_defs)
  show ?thesis
    using request_identity_roundtrip [of unknown_sequence_1 "- 3" sample_identity_1 sample_identity_1
        unknown_sequence_1 ?r] r g v
    by blast
qed

end
