(* ===== verification/GoalRegistry.thy ===== *)
theory GoalRegistry
  imports Identity Clocks "HOL-Library.Multiset"
begin

text \<open>
  The goals of an action server: \<^verbatim>\<open>dmw/action_common.hpp\<close> and
  \<^verbatim>\<open>impl/action_goal_registry.cpp\<close>. Every public operation takes one mutex, so an operation is
  one step. The steady clock an operation reads is its argument \<open>now\<close>; \<open>alive\<close> tells which weak
  observers can still be locked, and the observers an operation wakes are part of its result.
\<close>

section \<open>Goals\<close>

type_synonym GoalId = Bytes

record GoalInfo =
  goal_id :: GoalId
  accepted_stamp :: int

datatype GoalState = Unknown | Accepted | Executing | Canceling | Succeeded | Canceled | Aborted

datatype GoalEvent = Execute | CancelGoal | Succeed | Abort | CanceledEvent

datatype GoalAcceptMode = Defer | ExecuteNow

record GoalTransition =
  previous :: GoalState
  current :: GoalState
  became_terminal :: bool

record GoalStatusInfo =
  goal_info :: GoalInfo
  goal_status :: GoalState

record CancelGoalCriteria =
  crit_goal_id :: GoalId
  crit_stamp :: int

datatype ResultRequestDisposition = UnknownGoal | Pending | Terminal

definition is_zero_goal_id :: "GoalId \<Rightarrow> bool" where
  "is_zero_goal_id g \<longleftrightarrow> (\<forall>b \<in> set g. b = 0)"

definition is_terminal_goal_state :: "GoalState \<Rightarrow> bool" where
  "is_terminal_goal_state s \<longleftrightarrow> s = Succeeded \<or> s = Canceled \<or> s = Aborted"

definition is_cancelable_goal_state :: "GoalState \<Rightarrow> bool" where
  "is_cancelable_goal_state s \<longleftrightarrow> s = Accepted \<or> s = Executing"

definition next_goal_state :: "GoalState \<Rightarrow> GoalEvent \<Rightarrow> GoalState option" where
  "next_goal_state state event =
     (case state of
        Accepted \<Rightarrow>
          if event = Execute then Some Executing
          else if event = CancelGoal then Some Canceling else None
      | Executing \<Rightarrow>
          if event = CancelGoal then Some Canceling
          else if event = Succeed then Some Succeeded
          else if event = Abort then Some Aborted else None
      | Canceling \<Rightarrow>
          if event = Succeed then Some Succeeded
          else if event = Abort then Some Aborted
          else if event = CanceledEvent then Some Canceled else None
      | _ \<Rightarrow> None)"

section \<open>The registry\<close>

record GoalRecord =
  gr_info :: GoalInfo
  gr_state :: GoalState
  committed :: bool
  expiry_scheduled :: bool
  terminal_time :: int
  pending_result_requests :: "RequestId list"

record 'o GoalRegistry =
  result_timeout :: int
  goals :: "(GoalId, GoalRecord) umap"
  expired_notifications :: "GoalId list"
  expiry_observers :: "'o list"

definition fresh_record :: GoalRecord where
  "fresh_record = \<lparr>gr_info = \<lparr>goal_id = replicate 16 0, accepted_stamp = 0\<rparr>, gr_state = Unknown,
     committed = False, expiry_scheduled = False, terminal_time = 0, pending_result_requests = []\<rparr>"

definition new_registry :: "int \<Rightarrow> 'o GoalRegistry" where
  "new_registry timeout = \<lparr>result_timeout = (if timeout < 0 then 0 else timeout), goals = [],
     expired_notifications = [], expiry_observers = []\<rparr>"

text \<open>A record that is there and committed: what every query on a goal asks first.\<close>

definition committed_goal :: "'o GoalRegistry \<Rightarrow> GoalId \<Rightarrow> GoalRecord option" where
  "committed_goal g k =
     (case map_of (goals g) k of None \<Rightarrow> None | Some r \<Rightarrow> if committed r then Some r else None)"

definition reserve :: "GoalId \<Rightarrow> 'o GoalRegistry \<Rightarrow> bool \<times> 'o GoalRegistry" where
  "reserve k g =
     (if map_of (goals g) k \<noteq> None then (False, g)
      else (True, g\<lparr>goals := um_emplace k fresh_record (goals g)\<rparr>))"

definition rollback_reservation :: "GoalId \<Rightarrow> 'o GoalRegistry \<Rightarrow> 'o GoalRegistry" where
  "rollback_reservation k g =
     (case map_of (goals g) k of
        None \<Rightarrow> g
      | Some r \<Rightarrow> if committed r then g else g\<lparr>goals := um_erase k (goals g)\<rparr>)"

definition is_reserved :: "GoalId \<Rightarrow> 'o GoalRegistry \<Rightarrow> bool" where
  "is_reserved k g \<longleftrightarrow> map_of (goals g) k \<noteq> None"

definition commit_record :: "GoalInfo \<Rightarrow> GoalAcceptMode \<Rightarrow> GoalRecord \<Rightarrow> GoalRecord" where
  "commit_record info mode r =
     r\<lparr>gr_info := info, gr_state := (if mode = ExecuteNow then Executing else Accepted),
       committed := True, expiry_scheduled := False, pending_result_requests := []\<rparr>"

definition commit :: "GoalInfo \<Rightarrow> GoalAcceptMode \<Rightarrow> 'o GoalRegistry \<Rightarrow> bool \<times> 'o GoalRegistry" where
  "commit info mode g =
     (case map_of (goals g) (goal_id info) of
        None \<Rightarrow> (False, g)
      | Some r \<Rightarrow>
          if committed r then (False, g)
          else (True, g\<lparr>goals := um_modify (goal_id info) (commit_record info mode) (goals g)\<rparr>))"

definition expired :: "int \<Rightarrow> int \<Rightarrow> GoalRecord \<Rightarrow> bool" where
  "expired timeout now r \<longleftrightarrow> (if \<not> expiry_scheduled r then False else now - terminal_time r \<ge> timeout)"

text \<open>Wakes the live observers and drops the dead ones.\<close>

definition notify_expiry :: "('o \<Rightarrow> bool) \<Rightarrow> 'o list \<Rightarrow> 'o list \<times> 'o list" where
  "notify_expiry alive obs = (filter alive obs, filter alive obs)"

text \<open>The loop of \<^verbatim>\<open>prune_expired_locked\<close>: kept entries, notifications, observers, woken observers.\<close>

fun prune_loop ::
  "('o \<Rightarrow> bool) \<Rightarrow> int \<Rightarrow> int \<Rightarrow> (GoalId, GoalRecord) umap \<Rightarrow> GoalId list \<Rightarrow> 'o list
    \<Rightarrow> (GoalId, GoalRecord) umap \<times> GoalId list \<times> 'o list \<times> 'o list" where
  "prune_loop alive timeout now [] ns obs = ([], ns, obs, [])"
| "prune_loop alive timeout now ((k, r) # es) ns obs =
     (if committed r \<and> expired timeout now r then
        (let (woken, obs1) = notify_expiry alive obs;
             (es', ns', obs', woken') = prune_loop alive timeout now es (ns @ [k]) obs1
         in (es', ns', obs', woken @ woken'))
      else
        (let (es', ns', obs', woken') = prune_loop alive timeout now es ns obs
         in ((k, r) # es', ns', obs', woken')))"

definition prune_expired :: "('o \<Rightarrow> bool) \<Rightarrow> int \<Rightarrow> 'o GoalRegistry \<Rightarrow> 'o list \<times> 'o GoalRegistry" where
  "prune_expired alive now g =
     (let (es, ns, obs, woken) = prune_loop alive (result_timeout g) now (goals g)
            (expired_notifications g) (expiry_observers g)
      in (woken, g\<lparr>goals := es, expired_notifications := ns, expiry_observers := obs\<rparr>))"

definition goal_state :: "GoalId \<Rightarrow> 'o GoalRegistry \<Rightarrow> GoalState result" where
  "goal_state k g =
     (case committed_goal g k of None \<Rightarrow> Inl NotFound | Some r \<Rightarrow> Inr (gr_state r))"

definition update_state ::
  "('o \<Rightarrow> bool) \<Rightarrow> int \<Rightarrow> GoalId \<Rightarrow> GoalEvent \<Rightarrow> 'o GoalRegistry
    \<Rightarrow> GoalTransition result \<times> 'o list \<times> 'o GoalRegistry" where
  "update_state alive now k event g =
     (case committed_goal g k of
        None \<Rightarrow> (Inl NotFound, [], g)
      | Some r \<Rightarrow>
          if is_terminal_goal_state (gr_state r) then (Inl InvalidState, [], g)
          else (case next_goal_state (gr_state r) event of
            None \<Rightarrow> (Inl InvalidState, [], g)
          | Some s \<Rightarrow>
              let g1 = g\<lparr>goals := um_modify k (\<lambda>r. r\<lparr>gr_state := s\<rparr>) (goals g)\<rparr> in
              if is_terminal_goal_state s then
                (let g2 = g1\<lparr>goals := um_modify k
                       (\<lambda>r. r\<lparr>terminal_time := now, expiry_scheduled := True\<rparr>) (goals g1)\<rparr>;
                     (woken, obs) = notify_expiry alive (expiry_observers g2)
                 in (Inr \<lparr>previous = gr_state r, current = s, became_terminal = True\<rparr>, woken,
                     g2\<lparr>expiry_observers := obs\<rparr>))
              else (Inr \<lparr>previous = gr_state r, current = s, became_terminal = False\<rparr>, [], g1)))"

text \<open>
  \<^verbatim>\<open>std::sort\<close> by the accepted stamp. It leaves the order of equal stamps open, the model uses
  a stable sort: no property speaks of that order.
\<close>

definition cancel_selected :: "CancelGoalCriteria \<Rightarrow> GoalRecord \<Rightarrow> bool" where
  "cancel_selected c r =
     (let wildcard = is_zero_goal_id (crit_goal_id c);
          time_bounded = crit_stamp c \<noteq> 0;
          exact_match = (\<not> wildcard \<and> goal_id (gr_info r) = crit_goal_id c);
          before_stamp = (time_bounded \<and> accepted_stamp (gr_info r) \<le> crit_stamp c)
      in if wildcard then (if time_bounded then before_stamp else True)
         else (if time_bounded then exact_match \<or> before_stamp else exact_match))"

definition select_cancel_goals :: "CancelGoalCriteria \<Rightarrow> 'o GoalRegistry \<Rightarrow> GoalInfo list result" where
  "select_cancel_goals c g =
     (if crit_stamp c < 0 then Inl InvalidArgument
      else Inr (sort_key accepted_stamp
        (map (\<lambda>e. gr_info (snd e))
          (filter (\<lambda>e. committed (snd e) \<and> is_cancelable_goal_state (gr_state (snd e))
              \<and> cancel_selected c (snd e)) (goals g)))))"

definition register_result_request ::
  "('o \<Rightarrow> bool) \<Rightarrow> int \<Rightarrow> GoalId \<Rightarrow> RequestId \<Rightarrow> 'o GoalRegistry
    \<Rightarrow> ResultRequestDisposition result \<times> 'o list \<times> 'o GoalRegistry" where
  "register_result_request alive now k rid g0 =
     (let (woken, g) = prune_expired alive now g0 in
      case committed_goal g k of
        None \<Rightarrow> (Inr UnknownGoal, woken, g)
      | Some r \<Rightarrow>
          if is_terminal_goal_state (gr_state r) then (Inr Terminal, woken, g)
          else if \<exists>e \<in> set (goals g). rid \<in> set (pending_result_requests (snd e))
          then (Inl AlreadyExists, woken, g)
          else (Inr Pending, woken, g\<lparr>goals := um_modify k
                 (\<lambda>r. r\<lparr>pending_result_requests := pending_result_requests r @ [rid]\<rparr>) (goals g)\<rparr>))"

definition remove_result_request :: "RequestId \<Rightarrow> 'o GoalRegistry \<Rightarrow> 'o GoalRegistry" where
  "remove_result_request rid g =
     g\<lparr>goals := map (\<lambda>(k, r). (k, r\<lparr>pending_result_requests :=
         filter (\<lambda>x. x \<noteq> rid) (pending_result_requests r)\<rparr>)) (goals g)\<rparr>"

definition take_pending_result_requests ::
  "GoalId \<Rightarrow> 'o GoalRegistry \<Rightarrow> RequestId list result \<times> 'o GoalRegistry" where
  "take_pending_result_requests k g =
     (case committed_goal g k of
        None \<Rightarrow> (Inl NotFound, g)
      | Some r \<Rightarrow> (Inr (pending_result_requests r),
          g\<lparr>goals := um_modify k (\<lambda>r. r\<lparr>pending_result_requests := []\<rparr>) (goals g)\<rparr>))"

definition status_snapshot ::
  "('o \<Rightarrow> bool) \<Rightarrow> int \<Rightarrow> 'o GoalRegistry \<Rightarrow> GoalStatusInfo list \<times> 'o list \<times> 'o GoalRegistry" where
  "status_snapshot alive now g0 =
     (let (woken, g) = prune_expired alive now g0
      in (sort_key (\<lambda>i. accepted_stamp (goal_info i))
            (map (\<lambda>e. \<lparr>goal_info = gr_info (snd e), goal_status = gr_state (snd e)\<rparr>)
              (filter (\<lambda>e. committed (snd e)) (goals g))), woken, g))"

definition take_expired_goals ::
  "('o \<Rightarrow> bool) \<Rightarrow> int \<Rightarrow> 'o GoalRegistry \<Rightarrow> GoalId list \<times> 'o list \<times> 'o GoalRegistry" where
  "take_expired_goals alive now g0 =
     (let (woken, g) = prune_expired alive now g0
      in (expired_notifications g, woken, g\<lparr>expired_notifications := []\<rparr>))"

definition observe_expiry :: "('o \<Rightarrow> bool) \<Rightarrow> 'o \<Rightarrow> 'o GoalRegistry \<Rightarrow> 'o GoalRegistry" where
  "observe_expiry alive ob g =
     (if \<exists>w \<in> set (expiry_observers g). alive w \<and> w = ob then g
      else g\<lparr>expiry_observers := expiry_observers g @ [ob]\<rparr>)"

definition expiry_ready :: "int \<Rightarrow> 'o GoalRegistry \<Rightarrow> bool" where
  "expiry_ready now g \<longleftrightarrow>
     (if expired_notifications g \<noteq> [] then True
      else \<exists>e \<in> set (goals g). committed (snd e) \<and> expired (result_timeout g) now (snd e))"

fun earliest_loop ::
  "(int \<Rightarrow> 'w::linorder) \<Rightarrow> int \<Rightarrow> (GoalId, GoalRecord) umap \<Rightarrow> int option \<Rightarrow> int option option" where
  "earliest_loop wide timeout [] earliest = Some earliest"
| "earliest_loop wide timeout ((k, r) # es) earliest =
     (if \<not> committed r \<or> \<not> expiry_scheduled r then earliest_loop wide timeout es earliest
      else do {
        deadline \<leftarrow> saturating_steady_add wide (terminal_time r) timeout;
        earliest_loop wide timeout es
          (case earliest of
             None \<Rightarrow> Some deadline
           | Some e \<Rightarrow> if deadline < e then Some deadline else Some e) })"

definition earliest_expiry :: "(int \<Rightarrow> 'w::linorder) \<Rightarrow> 'o GoalRegistry \<Rightarrow> int option option" where
  "earliest_expiry wide g = earliest_loop wide (result_timeout g) (goals g) None"

definition committed_goal_count :: "'o GoalRegistry \<Rightarrow> nat" where
  "committed_goal_count g = length (filter (\<lambda>e. committed (snd e)) (goals g))"

lemmas registry_defs [op_defs] = reserve_def rollback_reservation_def commit_def prune_expired_def
  update_state_def register_result_request_def remove_result_request_def
  take_pending_result_requests_def status_snapshot_def take_expired_goals_def observe_expiry_def

section \<open>Pruning in closed form\<close>

abbreviation (input) is_expired :: "int \<Rightarrow> int \<Rightarrow> GoalRecord \<Rightarrow> bool" where
  "is_expired timeout now r \<equiv> committed r \<and> expired timeout now r"

lemma prune_loop_closed:
  "\<exists>w. prune_loop alive timeout now es ns obs =
     (filter (\<lambda>e. \<not> is_expired timeout now (snd e)) es,
      ns @ map fst (filter (\<lambda>e. is_expired timeout now (snd e)) es),
      if \<exists>e \<in> set es. is_expired timeout now (snd e) then filter alive obs else obs, w)"
proof (induction es arbitrary: ns obs)
  case Nil
  then show ?case by simp
next
  case (Cons e es)
  obtain k r where e: "e = (k, r)" by (cases e)
  let ?n = "if is_expired timeout now r then ns @ [k] else ns"
  let ?o = "if is_expired timeout now r then filter alive obs else obs"
  from Cons.IH [of ?n ?o] obtain w where
    "prune_loop alive timeout now es ?n ?o =
     (filter (\<lambda>e. \<not> is_expired timeout now (snd e)) es,
      ?n @ map fst (filter (\<lambda>e. is_expired timeout now (snd e)) es),
      if \<exists>e \<in> set es. is_expired timeout now (snd e) then filter alive ?o else ?o, w)"
    by blast
  then show ?case
    by (cases "committed r \<and> expired timeout now r") (auto simp: e notify_expiry_def)
qed

lemma prune_simps [simp]:
  "goals (snd (prune_expired alive now g)) =
     filter (\<lambda>e. \<not> is_expired (result_timeout g) now (snd e)) (goals g)"
  "expired_notifications (snd (prune_expired alive now g)) = expired_notifications g @
     map fst (filter (\<lambda>e. is_expired (result_timeout g) now (snd e)) (goals g))"
  "result_timeout (snd (prune_expired alive now g)) = result_timeout g"
  using prune_loop_closed [of alive "result_timeout g" now "goals g" "expired_notifications g"
      "expiry_observers g"]
  by (auto simp: prune_expired_def)

lemma count_filter_keys:
  "um_ok m \<Longrightarrow> count_list (map fst (filter p m)) k =
     (case map_of m k of None \<Rightarrow> 0 | Some v \<Rightarrow> if p (k, v) then 1 else 0)"
proof (induction m)
  case Nil
  then show ?case by simp
next
  case (Cons x m)
  obtain k' v' where x: "x = (k', v')" by (cases x)
  from Cons.prems have ok: "um_ok m" and new: "k' \<notin> fst ` set m" by (auto simp: um_ok_def x)
  from new have "map_of m k' = None" by (simp add: map_of_eq_None_iff)
  with Cons.IH [OF ok] show ?case by (auto simp: x split: option.splits)
qed

section \<open>The invariant\<close>

text \<open>
  A committed goal is filed under its own id, is past \<open>Unknown\<close>, and its expiry is scheduled
  exactly when it is terminal; a reservation holds no request; a request waits in one goal, once.
\<close>

definition record_ok :: "GoalId \<Rightarrow> GoalRecord \<Rightarrow> bool" where
  "record_ok k r \<longleftrightarrow>
     (if committed r
      then goal_id (gr_info r) = k \<and> gr_state r \<noteq> Unknown
        \<and> (expiry_scheduled r \<longleftrightarrow> is_terminal_goal_state (gr_state r))
        \<and> distinct (pending_result_requests r)
      else r = fresh_record)"

definition requests_apart :: "(GoalId \<Rightarrow> GoalRecord option) \<Rightarrow> bool" where
  "requests_apart m \<longleftrightarrow> (\<forall>k k' r r'. k \<noteq> k' \<longrightarrow> m k = Some r \<longrightarrow> m k' = Some r' \<longrightarrow>
     set (pending_result_requests r) \<inter> set (pending_result_requests r') = {})"

definition registry_ok :: "'o GoalRegistry \<Rightarrow> bool" where
  "registry_ok g \<longleftrightarrow> um_ok (goals g) \<and> 0 \<le> result_timeout g
     \<and> (\<forall>k r. map_of (goals g) k = Some r \<longrightarrow> record_ok k r) \<and> requests_apart (map_of (goals g))"

lemma fresh_record_simps [simp]:
  "committed fresh_record = False" "pending_result_requests fresh_record = []"
  by (simp_all add: fresh_record_def)

lemma fresh_record_no_requests [simp]: "fresh_record\<lparr>pending_result_requests := []\<rparr> = fresh_record"
  by (simp add: fresh_record_def)

lemma record_ok_fresh [simp]: "record_ok k fresh_record"
  by (simp add: record_ok_def)

lemma registry_okI:
  assumes "um_ok (goals g)" "0 \<le> result_timeout g"
    and "\<And>k r. map_of (goals g) k = Some r \<Longrightarrow> record_ok k r" "requests_apart (map_of (goals g))"
  shows "registry_ok g"
  using assms by (auto simp: registry_ok_def)

lemma requests_apart_mono:
  assumes "requests_apart m"
    and "\<And>k r. m' k = Some r \<Longrightarrow> pending_result_requests r \<noteq> [] \<Longrightarrow>
      \<exists>r0. m k = Some r0 \<and> set (pending_result_requests r) \<subseteq> set (pending_result_requests r0)"
  shows "requests_apart m'"
  unfolding requests_apart_def
proof (intro allI impI)
  fix k k' r r'
  assume k: "k \<noteq> k'" "m' k = Some r" "m' k' = Some r'"
  show "set (pending_result_requests r) \<inter> set (pending_result_requests r') = {}"
  proof (cases "pending_result_requests r = [] \<or> pending_result_requests r' = []")
    case False
    with k assms(2) obtain r0 r0' where
      "m k = Some r0" "set (pending_result_requests r) \<subseteq> set (pending_result_requests r0)"
      "m k' = Some r0'" "set (pending_result_requests r') \<subseteq> set (pending_result_requests r0')"
      by metis
    with assms(1) k(1) show ?thesis unfolding requests_apart_def by blast
  qed auto
qed

lemma committed_goal_Some:
  "committed_goal g k = Some r \<longleftrightarrow> map_of (goals g) k = Some r \<and> committed r"
  by (auto simp: committed_goal_def split: option.splits)

lemmas goal_lookups = um.lookups map_of_filter_ok

lemma new_registry_ok [keeps]: "registry_ok (new_registry t)"
  by (simp add: registry_ok_def new_registry_def requests_apart_def)

lemma prune_ok [keeps]:
  assumes "registry_ok g"
  shows "registry_ok (snd (prune_expired alive now g))"
proof (rule registry_okI)
  have ok: "um_ok (goals g)" using assms by (simp add: registry_ok_def)
  show "requests_apart (map_of (goals (snd (prune_expired alive now g))))"
    by (rule requests_apart_mono [of "map_of (goals g)"])
      (use assms in \<open>auto simp: registry_ok_def map_of_filter_ok [OF ok] split: option.splits if_splits\<close>)
qed (use assms in \<open>auto simp: registry_ok_def um_ok_filter map_of_filter_ok split: option.splits if_splits\<close>)

lemma reserve_ok [keeps]:
  assumes "registry_ok g"
  shows "registry_ok (snd (reserve k g))"
proof (cases "map_of (goals g) k")
  case None
  show ?thesis
  proof (rule registry_okI)
    show "requests_apart (map_of (goals (snd (reserve k g))))"
      by (rule requests_apart_mono [of "map_of (goals g)"])
        (use assms None in \<open>auto simp: registry_ok_def reserve_def um.lookups split: if_splits\<close>)
  qed (use assms None in \<open>auto simp: registry_ok_def reserve_def um.lookups um.oks split: if_splits\<close>)
qed (use assms in \<open>simp add: reserve_def\<close>)

lemma rollback_ok [keeps]:
  assumes "registry_ok g"
  shows "registry_ok (rollback_reservation k g)"
proof (rule registry_okI)
  show "requests_apart (map_of (goals (rollback_reservation k g)))"
    by (rule requests_apart_mono [of "map_of (goals g)"])
      (use assms in \<open>auto simp: registry_ok_def rollback_reservation_def um.lookups
        split: option.splits if_splits\<close>)
qed (use assms in \<open>auto simp: registry_ok_def rollback_reservation_def um.lookups um.oks
    split: option.splits if_splits\<close>)

text \<open>An update of one goal that keeps its record in order and adds no request but fresh ones.\<close>

lemma modify_ok:
  assumes "registry_ok g" "map_of (goals g) k = Some r" "record_ok k (f r)"
    and "set (pending_result_requests (f r)) \<subseteq> set (pending_result_requests r) \<union> new"
    and "\<And>k' r'. map_of (goals g) k' = Some r' \<Longrightarrow> set (pending_result_requests r') \<inter> new = {}"
  shows "registry_ok (g\<lparr>goals := um_modify k f (goals g)\<rparr>)"
proof (rule registry_okI)
  have ap: "requests_apart (map_of (goals g))" using assms(1) by (simp add: registry_ok_def)
  show "requests_apart (map_of (goals (g\<lparr>goals := um_modify k f (goals g)\<rparr>)))"
    unfolding requests_apart_def
  proof (intro allI impI)
    fix k1 k2 r1 r2
    assume a: "k1 \<noteq> k2" "map_of (goals (g\<lparr>goals := um_modify k f (goals g)\<rparr>)) k1 = Some r1"
      "map_of (goals (g\<lparr>goals := um_modify k f (goals g)\<rparr>)) k2 = Some r2"
    have old: "map_of (goals g) k1 = Some r1" if "k1 \<noteq> k"
      using a(2) that by (simp add: um.lookup_modify)
    have old2: "map_of (goals g) k2 = Some r2" if "k2 \<noteq> k"
      using a(3) that by (simp add: um.lookup_modify)
    have f1: "r1 = f r" if "k1 = k" using a(2) that assms(2) by (simp add: um.lookup_modify)
    have f2: "r2 = f r" if "k2 = k" using a(3) that assms(2) by (simp add: um.lookup_modify)
    note d = ap [unfolded requests_apart_def, rule_format]
    show "set (pending_result_requests r1) \<inter> set (pending_result_requests r2) = {}"
    proof (cases "k1 = k")
      case True
      then have "k2 \<noteq> k" using a(1) by simp
      then show ?thesis
        using True f1 old2 assms(4) assms(5) [OF old2] d [of k k2 r r2] assms(2) by blast
    next
      case False
      show ?thesis
      proof (cases "k2 = k")
        case True
        then show ?thesis
          using False f2 old assms(4) assms(5) [OF old] d [of k1 k r1 r] assms(2) by blast
      next
        case False2: False
        then show ?thesis using d [OF a(1) old old2] False by blast
      qed
    qed
  qed
qed (use assms(1-3) in \<open>auto simp: registry_ok_def um.lookup_modify um.oks split: if_splits\<close>)

section \<open>What each operation does to a goal\<close>

lemma lookup_reserve [frame]:
  "map_of (goals (snd (reserve k g))) k' =
     (if k' = k \<and> map_of (goals g) k = None then Some fresh_record else map_of (goals g) k')"
  by (simp add: reserve_def um.lookup_emplace)

lemma lookup_rollback [frame]:
  "map_of (goals (rollback_reservation k g)) k' =
     (if k' = k \<and> committed_goal g k = None then None else map_of (goals g) k')"
  by (auto simp: rollback_reservation_def committed_goal_def um.lookup_erase split: option.splits)

lemma lookup_commit [frame]:
  "map_of (goals (snd (commit i m g))) k' =
     (if k' = goal_id i \<and> committed_goal g (goal_id i) = None
      then map_option (commit_record i m) (map_of (goals g) k') else map_of (goals g) k')"
  by (auto simp: commit_def committed_goal_def um.lookup_modify split: option.splits)

lemma lookup_prune [frame]:
  "um_ok (goals g) \<Longrightarrow> map_of (goals (snd (prune_expired alive now g))) k =
     (case map_of (goals g) k of None \<Rightarrow> None
      | Some r \<Rightarrow> if is_expired (result_timeout g) now r then None else Some r)"
  by (simp add: map_of_filter_ok split: option.splits)

lemma lookup_remove [frame]:
  "map_of (goals (remove_result_request rid g)) k =
     map_option (\<lambda>r. r\<lparr>pending_result_requests :=
       filter (\<lambda>x. x \<noteq> rid) (pending_result_requests r)\<rparr>) (map_of (goals g) k)"
  by (simp add: remove_result_request_def map_of_map)

lemma lookup_take [frame]:
  "map_of (goals (snd (take_pending_result_requests k g))) k' =
     (if k' = k \<and> committed_goal g k \<noteq> None
      then map_option (\<lambda>r. r\<lparr>pending_result_requests := []\<rparr>) (map_of (goals g) k)
      else map_of (goals g) k')"
  by (auto simp: take_pending_result_requests_def committed_goal_def um.lookup_modify
      split: option.splits)

lemma notifications_frame [frame]:
  "expired_notifications (snd (reserve k g)) = expired_notifications g"
  "expired_notifications (rollback_reservation k g) = expired_notifications g"
  "expired_notifications (snd (commit i m g)) = expired_notifications g"
  "expired_notifications (remove_result_request rid g) = expired_notifications g"
  "expired_notifications (snd (take_pending_result_requests k g)) = expired_notifications g"
  by (simp_all add: reserve_def rollback_reservation_def commit_def remove_result_request_def
      take_pending_result_requests_def split: option.splits)

text \<open>The record a successful transition to \<open>s\<close> leaves.\<close>

definition moved :: "int \<Rightarrow> GoalState \<Rightarrow> GoalRecord \<Rightarrow> GoalRecord" where
  "moved now s r =
     (let r1 = r\<lparr>gr_state := s\<rparr>
      in if is_terminal_goal_state s then r1\<lparr>terminal_time := now, expiry_scheduled := True\<rparr> else r1)"

lemma update_state_cases:
  obtains (refused) e where "update_state alive now k ev g = (Inl e, [], g)"
      "e = (if committed_goal g k = None then NotFound else InvalidState)"
  | (moved) r s w g' where "committed_goal g k = Some r" "\<not> is_terminal_goal_state (gr_state r)"
      "next_goal_state (gr_state r) ev = Some s"
      "update_state alive now k ev g =
        (Inr \<lparr>previous = gr_state r, current = s, became_terminal = is_terminal_goal_state s\<rparr>, w, g')"
      "\<And>k'. map_of (goals g') k' =
        (if k' = k then Some (moved now s r) else map_of (goals g) k')"
      "um_ok (goals g) \<Longrightarrow> um_ok (goals g')"
      "expired_notifications g' = expired_notifications g" "result_timeout g' = result_timeout g"
proof (cases "committed_goal g k")
  case None
  then show thesis by (intro refused) (simp_all add: update_state_def)
next
  case (Some r)
  show thesis
  proof (cases "is_terminal_goal_state (gr_state r) \<or> next_goal_state (gr_state r) ev = None")
    case True
    with Some show thesis
      by (intro refused) (auto simp: update_state_def split: option.splits)
  next
    case False
    then obtain s where s: "next_goal_state (gr_state r) ev = Some s" by auto
    have m: "map_of (goals g) k = Some r" using Some by (simp add: committed_goal_Some)
    show thesis
      by (rule moved [OF Some _ s, of "fst (snd (update_state alive now k ev g))"
            "snd (snd (update_state alive now k ev g))"])
        (use False Some s m in \<open>auto simp: update_state_def moved_def notify_expiry_def Let_def
          um.lookup_modify um.oks\<close>)
  qed
qed

section \<open>Runs of the registry\<close>

datatype 'o RegOp =
    OpReserve GoalId | OpRollback GoalId | OpCommit GoalInfo GoalAcceptMode
  | OpUpdate GoalId GoalEvent | OpRegister GoalId RequestId | OpRemove RequestId
  | OpTakePending GoalId | OpSnapshot | OpTakeExpired | OpObserve 'o

text \<open>
  One operation at one instant: the goals it brings to a terminal state, the expired goals it
  hands to the caller, and the registry after it.
\<close>

fun reg_exec ::
  "('o \<Rightarrow> bool) \<Rightarrow> int \<Rightarrow> 'o RegOp \<Rightarrow> 'o GoalRegistry \<Rightarrow> GoalId list \<times> GoalId list \<times> 'o GoalRegistry" where
  "reg_exec alive now (OpReserve k) g = ([], [], snd (reserve k g))"
| "reg_exec alive now (OpRollback k) g = ([], [], rollback_reservation k g)"
| "reg_exec alive now (OpCommit i m) g = ([], [], snd (commit i m g))"
| "reg_exec alive now (OpUpdate k ev) g =
     (case update_state alive now k ev g of
        (Inl e, w, g') \<Rightarrow> ([], [], g')
      | (Inr t, w, g') \<Rightarrow> (if became_terminal t then [k] else [], [], g'))"
| "reg_exec alive now (OpRegister k rid) g =
     ([], [], snd (snd (register_result_request alive now k rid g)))"
| "reg_exec alive now (OpRemove rid) g = ([], [], remove_result_request rid g)"
| "reg_exec alive now (OpTakePending k) g = ([], [], snd (take_pending_result_requests k g))"
| "reg_exec alive now OpSnapshot g = ([], [], snd (snd (status_snapshot alive now g)))"
| "reg_exec alive now OpTakeExpired g =
     ([], fst (take_expired_goals alive now g), snd (snd (take_expired_goals alive now g)))"
| "reg_exec alive now (OpObserve ob) g = ([], [], observe_expiry alive ob g)"

fun reg_run ::
  "('o \<Rightarrow> bool) \<Rightarrow> (int \<times> 'o RegOp) list \<Rightarrow> 'o GoalRegistry
    \<Rightarrow> GoalId list \<times> GoalId list \<times> 'o GoalRegistry" where
  "reg_run alive [] g = ([], [], g)"
| "reg_run alive ((now, op) # ops) g =
     (let (fin, col, g1) = reg_exec alive now op g; (fin', col', g2) = reg_run alive ops g1
      in (fin @ fin', col @ col', g2))"

lemma register_cases:
  obtains (kept) d where
    "register_result_request alive now k rid g =
      (d, fst (prune_expired alive now g), snd (prune_expired alive now g))"
    "d \<noteq> Inr Pending"
  | (added) r where
    "committed_goal (snd (prune_expired alive now g)) k = Some r"
    "\<not> is_terminal_goal_state (gr_state r)"
    "\<And>e. e \<in> set (goals (snd (prune_expired alive now g))) \<Longrightarrow> rid \<notin> set (pending_result_requests (snd e))"
    "register_result_request alive now k rid g =
      (Inr Pending, fst (prune_expired alive now g),
       (snd (prune_expired alive now g))\<lparr>goals := um_modify k
          (\<lambda>r. r\<lparr>pending_result_requests := pending_result_requests r @ [rid]\<rparr>)
          (goals (snd (prune_expired alive now g)))\<rparr>)"
proof -
  let ?g = "snd (prune_expired alive now g)"
  obtain w g1 where p: "prune_expired alive now g = (w, g1)" by fastforce
  consider (none) "committed_goal ?g k = None"
    | (over) r where "committed_goal ?g k = Some r" "is_terminal_goal_state (gr_state r)"
    | (dup) r where "committed_goal ?g k = Some r" "\<not> is_terminal_goal_state (gr_state r)"
        "\<exists>e \<in> set (goals ?g). rid \<in> set (pending_result_requests (snd e))"
    | (new) r where "committed_goal ?g k = Some r" "\<not> is_terminal_goal_state (gr_state r)"
        "\<not> (\<exists>e \<in> set (goals ?g). rid \<in> set (pending_result_requests (snd e)))"
    by (cases "committed_goal ?g k") auto
  then show thesis
  proof cases
    case none
    then show thesis
      by (intro kept [of "Inr UnknownGoal"])
        (simp_all add: register_result_request_def p)
  next
    case (over r)
    then show thesis
      by (intro kept [of "Inr Terminal"])
        (simp_all add: register_result_request_def p)
  next
    case (dup r)
    then show thesis
      by (intro kept [of "Inl AlreadyExists"])
        (simp_all add: register_result_request_def p)
  next
    case (new r)
    then show thesis
      by (intro added [of r]) (simp_all add: register_result_request_def p)
  qed
qed

lemma modify_kept:
  assumes "registry_ok g" "map_of (goals g) k = Some r" "record_ok k (f r)"
    and "set (pending_result_requests (f r)) \<subseteq> set (pending_result_requests r)"
  shows "registry_ok (g\<lparr>goals := um_modify k f (goals g)\<rparr>)"
  using assms by (intro modify_ok [where new = "{}"]) auto

lemma commit_ok [keeps]:
  assumes "registry_ok g"
  shows "registry_ok (snd (commit i m g))"
proof (cases "map_of (goals g) (goal_id i)")
  case (Some r)
  have "record_ok (goal_id i) (commit_record i m r)"
    by (simp add: record_ok_def commit_record_def is_terminal_goal_state_def)
  with modify_kept [OF assms Some, of "commit_record i m"] assms Some show ?thesis
    by (simp add: commit_def commit_record_def)
qed (use assms in \<open>simp add: commit_def\<close>)

lemma next_goal_state_not_Unknown: "next_goal_state s e = Some s' \<Longrightarrow> s' \<noteq> Unknown"
  by (auto simp: next_goal_state_def split: GoalState.splits if_splits)

lemma update_ok [keeps]:
  assumes "registry_ok g"
  shows "registry_ok (snd (snd (update_state alive now k ev g)))"
proof (cases rule: update_state_cases [of alive now k ev g])
  case (moved r s w g')
  have r: "map_of (goals g) k = Some r" "committed r" using moved(1) by (auto simp: committed_goal_Some)
  then have ok: "record_ok k (moved now s r)"
    using assms moved(2) next_goal_state_not_Unknown [OF moved(3)]
    by (auto simp: registry_ok_def record_ok_def moved_def Let_def split: if_splits)
  have "requests_apart (map_of (goals g'))"
    by (rule requests_apart_mono [of "map_of (goals g)"])
      (use assms r moved(5) in \<open>auto simp: registry_ok_def moved_def Let_def split: if_splits\<close>)
  then have "registry_ok g'"
    using assms moved(5-8) ok by (intro registry_okI) (auto simp: registry_ok_def split: if_splits)
  then show ?thesis by (simp add: moved(4))
qed (use assms in simp)

lemma register_ok [keeps]:
  assumes "registry_ok g"
  shows "registry_ok (snd (snd (register_result_request alive now k rid g)))"
proof (cases rule: register_cases [of alive now k rid g])
  case (kept d)
  then show ?thesis using prune_ok [OF assms] by simp
next
  case (added r)
  let ?g = "snd (prune_expired alive now g)"
  have g: "registry_ok ?g" by (rule prune_ok [OF assms])
  have r: "map_of (goals ?g) k = Some r" "committed r" using added(1) by (auto simp: committed_goal_Some)
  have new: "rid \<notin> set (pending_result_requests r')" if "map_of (goals ?g) k' = Some r'" for k' r'
    using added(3) [of "(k', r')"] map_of_SomeD [OF that] by simp
  have ok: "record_ok k (r\<lparr>pending_result_requests := pending_result_requests r @ [rid]\<rparr>)"
    using g r new [OF r(1)] by (auto simp: registry_ok_def record_ok_def)
  have "registry_ok (?g\<lparr>goals := um_modify k
      (\<lambda>r. r\<lparr>pending_result_requests := pending_result_requests r @ [rid]\<rparr>) (goals ?g)\<rparr>)"
    using modify_ok [where f = "\<lambda>r. r\<lparr>pending_result_requests := pending_result_requests r @ [rid]\<rparr>"
        and new = "{rid}", OF g r(1) ok] new by auto
  then show ?thesis by (simp only: added(4) snd_conv)
qed

lemma remove_ok [keeps]:
  assumes "registry_ok g"
  shows "registry_ok (remove_result_request rid g)"
proof (rule registry_okI)
  show "requests_apart (map_of (goals (remove_result_request rid g)))"
    by (rule requests_apart_mono [of "map_of (goals g)"])
      (use assms in \<open>auto simp: registry_ok_def lookup_remove\<close>)
  show "um_ok (goals (remove_result_request rid g))"
    using assms by (simp add: registry_ok_def um_ok_def remove_result_request_def comp_def case_prod_beta)
  fix k r
  assume "map_of (goals (remove_result_request rid g)) k = Some r"
  with assms show "record_ok k r"
    by (fastforce simp: lookup_remove registry_ok_def record_ok_def split: if_splits)
qed (use assms in \<open>simp add: registry_ok_def remove_result_request_def\<close>)

lemma take_pending_ok [keeps]:
  assumes "registry_ok g"
  shows "registry_ok (snd (take_pending_result_requests k g))"
proof (cases "committed_goal g k")
  case (Some r)
  then have r: "map_of (goals g) k = Some r" "committed r" by (auto simp: committed_goal_Some)
  then have "record_ok k (r\<lparr>pending_result_requests := []\<rparr>)"
    using assms by (auto simp: registry_ok_def record_ok_def)
  from modify_kept [where f = "\<lambda>r. r\<lparr>pending_result_requests := []\<rparr>", OF assms r(1) this] Some show ?thesis
    by (simp add: take_pending_result_requests_def)
qed (use assms in \<open>simp add: take_pending_result_requests_def\<close>)

lemma frame_ok:
  "registry_ok g \<Longrightarrow> registry_ok (g\<lparr>expired_notifications := ns\<rparr>)"
  "registry_ok g \<Longrightarrow> registry_ok (g\<lparr>expiry_observers := obs\<rparr>)"
  by (simp_all add: registry_ok_def)

lemma reg_exec_ok [keeps]:
  assumes "registry_ok g"
  shows "registry_ok (snd (snd (reg_exec alive now op g)))"
proof (cases op)
  case (OpUpdate k ev)
  then show ?thesis
    using update_ok [OF assms, of alive now k ev] by (auto split: prod.splits sum.splits)
next
  case OpSnapshot
  then show ?thesis
    using prune_ok [OF assms, of alive now] by (simp add: status_snapshot_def case_prod_beta)
next
  case OpTakeExpired
  then show ?thesis
    using prune_ok [OF assms, of alive now]
    by (simp add: take_expired_goals_def frame_ok case_prod_beta)
next
  case (OpObserve ob)
  then show ?thesis using assms by (simp add: observe_expiry_def frame_ok)
qed (use assms in \<open>simp_all add: keeps\<close>)

section \<open>Conservation of finished goals\<close>

text \<open>How often \<open>k\<close> is a terminal goal of the registry: once or not at all.\<close>

definition live_terminal :: "GoalId \<Rightarrow> 'o GoalRegistry \<Rightarrow> nat" where
  "live_terminal k g =
     (case committed_goal g k of None \<Rightarrow> 0
      | Some r \<Rightarrow> if is_terminal_goal_state (gr_state r) then 1 else 0)"

definition awaiting :: "GoalId \<Rightarrow> 'o GoalRegistry \<Rightarrow> nat" where
  "awaiting k g = live_terminal k g + count_list (expired_notifications g) k"

lemma expired_terminal:
  "registry_ok g \<Longrightarrow> map_of (goals g) k = Some r \<Longrightarrow> is_expired t now r \<Longrightarrow>
    is_terminal_goal_state (gr_state r)"
  by (auto simp: registry_ok_def record_ok_def expired_def split: if_splits)

lemma awaiting_prune [simp]:
  assumes "registry_ok g"
  shows "awaiting k (snd (prune_expired alive now g)) = awaiting k g"
proof -
  have ok: "um_ok (goals g)" using assms by (simp add: registry_ok_def)
  show ?thesis
    using expired_terminal [OF assms, of k]
    by (auto simp: awaiting_def live_terminal_def committed_goal_def map_of_filter_ok [OF ok]
        count_filter_keys [OF ok] split: option.splits)
qed

lemma awaiting_same:
  assumes "\<And>k. map_of (goals g') k = map_option (\<lambda>r. r\<lparr>pending_result_requests := f r\<rparr>) (map_of (goals g) k)"
    and "expired_notifications g' = expired_notifications g"
  shows "awaiting k g' = awaiting k g"
  by (auto simp: awaiting_def live_terminal_def committed_goal_def assms split: option.splits)

lemma awaiting_modify_requests:
  "awaiting k (g\<lparr>goals := um_modify k' (\<lambda>r. r\<lparr>pending_result_requests := f r\<rparr>) (goals g)\<rparr>) = awaiting k g"
  by (cases "map_of (goals g) k")
    (auto simp: awaiting_def live_terminal_def committed_goal_def um.lookup_modify)

lemma awaiting_exec:
  assumes "registry_ok g" "reg_exec alive now op g = (fin, col, g')"
  shows "awaiting k g' + count_list col k = awaiting k g + count_list fin k"
proof (cases op)
  case (OpReserve k')
  then show ?thesis
    using assms(2) by (auto simp: awaiting_def live_terminal_def committed_goal_def frame
        split: option.splits if_splits)
next
  case (OpRollback k')
  then show ?thesis
    using assms(2) by (auto simp: awaiting_def live_terminal_def committed_goal_def frame
        split: option.splits if_splits)
next
  case (OpCommit i m)
  then show ?thesis
    using assms(2) by (auto simp: awaiting_def live_terminal_def committed_goal_def frame
        commit_record_def is_terminal_goal_state_def split: option.splits if_splits)
next
  case (OpUpdate k' ev)
  show ?thesis
  proof (cases rule: update_state_cases [of alive now k' ev g])
    case (refused e)
    then show ?thesis using assms(2) OpUpdate by simp
  next
    case (moved r s w g'')
    then have "g'' = g'" "fin = (if is_terminal_goal_state s then [k'] else [])" "col = []"
      using assms(2) OpUpdate by auto
    then show ?thesis
      using moved(1,2,5,7)
      by (auto simp: awaiting_def live_terminal_def committed_goal_def moved_def Let_def
          split: option.splits if_splits)
  qed
next
  case (OpRegister k' rid)
  show ?thesis
  proof (cases rule: register_cases [of alive now k' rid g])
    case (kept d)
    then show ?thesis using assms OpRegister by auto
  next
    case (added r)
    then have "awaiting k g' = awaiting k (snd (prune_expired alive now g))"
      using assms(2) OpRegister by (auto simp: awaiting_modify_requests simp del: prune_simps)
    then show ?thesis using assms OpRegister by auto
  qed
next
  case (OpRemove rid)
  then have "awaiting k g' = awaiting k g"
    using assms(2)
    by (intro awaiting_same [where f = "\<lambda>r. filter (\<lambda>x. x \<noteq> rid) (pending_result_requests r)"])
      (auto simp: lookup_remove notifications_frame)
  then show ?thesis using assms(2) OpRemove by auto
next
  case (OpTakePending k')
  then have "awaiting k g' = awaiting k g"
    using assms(2)
    by (auto simp: awaiting_def live_terminal_def committed_goal_def frame
        split: option.splits if_splits)
  then show ?thesis using assms(2) OpTakePending by auto
next
  case OpSnapshot
  then have "g' = snd (prune_expired alive now g)"
    using assms(2) by (auto simp: status_snapshot_def split: prod.splits)
  then show ?thesis using assms OpSnapshot by auto
next
  case OpTakeExpired
  obtain w g1 where p: "prune_expired alive now g = (w, g1)" by fastforce
  then have "awaiting k g1 = awaiting k g" using awaiting_prune [OF assms(1), of k alive now] by simp
  then show ?thesis
    using assms(2) OpTakeExpired p
    by (auto simp: take_expired_goals_def awaiting_def live_terminal_def committed_goal_def)
next
  case (OpObserve ob)
  then show ?thesis
    using assms(2) by (auto simp: observe_expiry_def awaiting_def live_terminal_def committed_goal_def)
qed

lemma reg_run_conserves:
  "registry_ok g \<Longrightarrow> reg_run alive ops g = (fin, col, g') \<Longrightarrow>
    registry_ok g' \<and> awaiting k g' + count_list col k = awaiting k g + count_list fin k"
proof (induction ops arbitrary: g fin col g')
  case Nil
  then show ?case by simp
next
  case (Cons x ops)
  obtain now op where x: "x = (now, op)" by (cases x)
  obtain f1 c1 g1 where e: "reg_exec alive now op g = (f1, c1, g1)" by (metis prod_cases3)
  obtain f2 c2 g2 where r: "reg_run alive ops g1 = (f2, c2, g2)" by (metis prod_cases3)
  have ok: "registry_ok g1" using reg_exec_ok [OF Cons.prems(1), of alive now op] e by simp
  have "fin = f1 @ f2" "col = c1 @ c2" "g' = g2" using Cons.prems(2) e r x by auto
  then show ?case
    using Cons.IH [OF ok r] awaiting_exec [OF Cons.prems(1) e, of k] by auto
qed

section \<open>The life of a goal\<close>

text \<open>The arcs of the goal automaton as the action protocol draws them.\<close>

inductive goal_arc :: "GoalState \<Rightarrow> GoalState \<Rightarrow> bool" where
  execute: "goal_arc Accepted Executing"
| cancel: "s \<in> {Accepted, Executing} \<Longrightarrow> goal_arc s Canceling"
| succeed: "s \<in> {Executing, Canceling} \<Longrightarrow> goal_arc s Succeeded"
| abort: "s \<in> {Executing, Canceling} \<Longrightarrow> goal_arc s Aborted"
| canceled: "goal_arc Canceling Canceled"

inductive_simps goal_arc_simps: "goal_arc s s'"

lemma next_goal_state_arc: "(\<exists>ev. next_goal_state s ev = Some s') \<longleftrightarrow> goal_arc s s'"
proof
  assume "\<exists>ev. next_goal_state s ev = Some s'"
  then show "goal_arc s s'"
    by (cases s) (auto simp: next_goal_state_def split: if_splits intro: goal_arc.intros)
next
  assume "goal_arc s s'"
  then show "\<exists>ev. next_goal_state s ev = Some s'"
  proof cases
    case execute
    then show ?thesis by (auto simp: next_goal_state_def intro!: exI [of _ Execute])
  next
    case cancel
    then show ?thesis by (auto simp: next_goal_state_def intro!: exI [of _ CancelGoal])
  next
    case succeed
    then show ?thesis by (auto simp: next_goal_state_def intro!: exI [of _ Succeed])
  next
    case abort
    then show ?thesis by (auto simp: next_goal_state_def intro!: exI [of _ Abort])
  next
    case canceled
    then show ?thesis by (auto simp: next_goal_state_def intro!: exI [of _ CanceledEvent])
  qed
qed

lemma goal_arc_not_terminal: "goal_arc s s' \<Longrightarrow> \<not> is_terminal_goal_state s"
  by (auto simp: goal_arc_simps is_terminal_goal_state_def)

lemma committed_prune:
  "um_ok (goals g) \<Longrightarrow> committed_goal (snd (prune_expired alive now g)) k =
     (case committed_goal g k of None \<Rightarrow> None
      | Some r \<Rightarrow> if expired (result_timeout g) now r then None else Some r)"
  by (auto simp: committed_goal_def map_of_filter_ok split: option.splits)

lemma pruned_notified:
  assumes "committed_goal g k = Some r" "expired (result_timeout g) now r"
  shows "k \<in> set (expired_notifications (snd (prune_expired alive now g)))"
proof -
  have "(k, r) \<in> set (goals g)" "committed r"
    using assms(1) by (auto simp: committed_goal_Some map_of_SomeD)
  with assms(2) show ?thesis by (force simp: image_iff)
qed

text \<open>What one step may do to a committed goal.\<close>

definition goal_step_ok ::
  "int \<Rightarrow> 'o RegOp \<Rightarrow> GoalId \<Rightarrow> GoalRecord \<Rightarrow> int \<Rightarrow> GoalRecord option \<Rightarrow> GoalId list \<Rightarrow> bool" where
  "goal_step_ok now op k r timeout after handed \<longleftrightarrow>
     (case after of
        Some r' \<Rightarrow> gr_info r' = gr_info r \<and>
          (gr_state r' = gr_state r \<or> goal_arc (gr_state r) (gr_state r') \<and> (\<exists>ev. op = OpUpdate k ev))
      | None \<Rightarrow> is_terminal_goal_state (gr_state r) \<and> timeout \<le> now - terminal_time r \<and> k \<in> set handed)"

lemma goal_step_same:
  "map_option (\<lambda>r. (gr_info r, gr_state r)) after = Some (gr_info r, gr_state r) \<Longrightarrow>
    goal_step_ok now op k r t after h"
  by (auto simp: goal_step_ok_def)

lemma goal_step_prune:
  assumes "registry_ok g" "committed_goal g k = Some r"
    and "map_option (\<lambda>r. (gr_info r, gr_state r)) (committed_goal g' k) =
      map_option (\<lambda>r. (gr_info r, gr_state r)) (committed_goal (snd (prune_expired alive now g)) k)"
    and "set (expired_notifications (snd (prune_expired alive now g))) \<subseteq> set h"
  shows "goal_step_ok now op k r (result_timeout g) (committed_goal g' k) h"
proof -
  have um: "um_ok (goals g)" using assms(1) by (simp add: registry_ok_def)
  show ?thesis
  proof (cases "expired (result_timeout g) now r")
    case True
    have "map_of (goals g) k = Some r" "committed r" using assms(2) by (auto simp: committed_goal_Some)
    then have "is_terminal_goal_state (gr_state r)" using expired_terminal [OF assms(1)] True by blast
    then show ?thesis
      using assms(2-4) True pruned_notified [OF assms(2) True, of alive] committed_prune [OF um, of alive now k]
      by (auto simp: goal_step_ok_def expired_def simp del: prune_simps split: option.splits if_splits)
  next
    case False
    then show ?thesis
      using assms(2,3) committed_prune [OF um, of alive now k] by (intro goal_step_same) simp
  qed
qed

lemma committed_modify_requests:
  "map_option (\<lambda>r. (gr_info r, gr_state r)) (committed_goal
     (g\<lparr>goals := um_modify k' (\<lambda>r. r\<lparr>pending_result_requests := f r\<rparr>) (goals g)\<rparr>) k) =
   map_option (\<lambda>r. (gr_info r, gr_state r)) (committed_goal g k)"
  by (cases "map_of (goals g) k") (auto simp: committed_goal_def um.lookup_modify)

lemma goal_step:
  assumes "registry_ok g" "reg_exec alive now op g = (fin, col, g')" "committed_goal g k = Some r"
  shows "goal_step_ok now op k r (result_timeout g) (committed_goal g' k) (expired_notifications g' @ col)"
proof (cases op)
  case (OpReserve k')
  then show ?thesis
    using assms(2,3) by (intro goal_step_same) (auto simp: committed_goal_def frame split: option.splits if_splits)
next
  case (OpRollback k')
  then show ?thesis
    using assms(2,3) by (intro goal_step_same) (auto simp: committed_goal_def frame split: option.splits if_splits)
next
  case (OpCommit i m)
  then show ?thesis
    using assms(2,3) by (intro goal_step_same) (auto simp: committed_goal_def frame split: option.splits if_splits)
next
  case (OpUpdate k' ev)
  show ?thesis
  proof (cases rule: update_state_cases [of alive now k' ev g])
    case (refused e)
    then show ?thesis using assms(2,3) OpUpdate by (intro goal_step_same) auto
  next
    case (moved r0 s w g'')
    have g'': "g'' = g'" using moved(4) assms(2) OpUpdate by auto
    show ?thesis
    proof (cases "k = k'")
      case True
      have "goal_arc (gr_state r) s" using moved(1,3) assms(3) True next_goal_state_arc by auto
      moreover have "committed_goal g' k = Some (moved now s r)"
        using moved(1,5) True assms(3)
        by (simp add: g'' [symmetric] committed_goal_def moved_def Let_def split: option.splits if_splits)
      ultimately show ?thesis
        using OpUpdate True by (simp add: goal_step_ok_def moved_def Let_def)
    next
      case False
      then have "committed_goal g' k = Some r"
        using moved(5) assms(3) by (simp add: g'' [symmetric] committed_goal_def)
      then show ?thesis by (intro goal_step_same) simp
    qed
  qed
next
  case (OpRegister k' rid)
  show ?thesis
  proof (cases rule: register_cases [of alive now k' rid g])
    case (kept d)
    then have "g' = snd (prune_expired alive now g)" using assms(2) OpRegister by auto
    then show ?thesis using assms(1,3) by (intro goal_step_prune) auto
  next
    case (added r')
    then have "g' = (snd (prune_expired alive now g))\<lparr>goals := um_modify k'
          (\<lambda>r. r\<lparr>pending_result_requests := pending_result_requests r @ [rid]\<rparr>)
          (goals (snd (prune_expired alive now g)))\<rparr>" using assms(2) OpRegister by auto
    then show ?thesis
      using assms(1,3) committed_modify_requests [where g = "snd (prune_expired alive now g)" and k = k]
      by (intro goal_step_prune) (auto simp del: prune_simps)
  qed
next
  case (OpRemove rid)
  then show ?thesis
    using assms(2,3) by (intro goal_step_same) (auto simp: committed_goal_def frame split: option.splits if_splits)
next
  case (OpTakePending k')
  then show ?thesis
    using assms(2,3) by (intro goal_step_same) (auto simp: committed_goal_def frame split: option.splits if_splits)
next
  case OpSnapshot
  then have "g' = snd (prune_expired alive now g)"
    using assms(2) by (auto simp: status_snapshot_def case_prod_beta)
  then show ?thesis using assms(1,3) by (intro goal_step_prune) auto
next
  case OpTakeExpired
  then have "g' = (snd (prune_expired alive now g))\<lparr>expired_notifications := []\<rparr>"
    "col = expired_notifications (snd (prune_expired alive now g))"
    using assms(2) by (auto simp: take_expired_goals_def case_prod_beta)
  then show ?thesis
    using assms(1,3) by (intro goal_step_prune) (auto simp: committed_goal_def)
next
  case (OpObserve ob)
  then show ?thesis
    using assms(2,3) by (intro goal_step_same) (auto simp: committed_goal_def observe_expiry_def)
qed

section \<open>Expiry\<close>

lemma earliest_loop_total:
  assumes "mono wide"
    and "\<And>e. e \<in> set es \<Longrightarrow> expiry_scheduled (snd e) \<Longrightarrow> 0 \<le> terminal_time (snd e) \<and> terminal_time (snd e) \<le> int64_max"
  shows "\<exists>d. earliest_loop wide timeout es acc = Some d"
  using assms(2)
proof (induction es arbitrary: acc)
  case Nil
  then show ?case by simp
next
  case (Cons e es)
  obtain k r where e: "e = (k, r)" by (cases e)
  have IH: "\<exists>d. earliest_loop wide timeout es acc = Some d" for acc
    using Cons.IH Cons.prems by auto
  show ?case
  proof (cases "committed r \<and> expiry_scheduled r")
    case True
    then have "0 \<le> terminal_time r" "terminal_time r \<le> int64_max"
      using Cons.prems [of e] by (auto simp: e)
    then obtain d where "saturating_steady_add wide (terminal_time r) timeout = Some d"
      using saturating_steady_add_cases [OF assms(1)] by (metis (full_types))
    then show ?thesis using True IH by (simp add: e)
  qed (use IH in \<open>auto simp: e\<close>)
qed

lemma Min_insert_min: "finite A \<Longrightarrow> Min (insert (min a b) A) = Min (insert a (insert b A))" for a b :: int
  by (cases "A = {}") (simp_all add: min.assoc)

text \<open>The loop computes the least deadline of the scheduled goals.\<close>

lemma earliest_loop_min:
  assumes "earliest_loop wide timeout es acc = Some d"
    and "\<And>e. e \<in> set es \<Longrightarrow> committed (snd e) \<Longrightarrow> expiry_scheduled (snd e) \<Longrightarrow>
      saturating_steady_add wide (terminal_time (snd e)) timeout = Some (dl e)"
  shows "d = (let D = set_option acc \<union> dl ` {e \<in> set es. committed (snd e) \<and> expiry_scheduled (snd e)}
              in if D = {} then None else Some (Min D))"
  using assms
proof (induction es arbitrary: acc)
  case Nil
  then show ?case by (cases acc) auto
next
  case (Cons e es)
  obtain k r where e: "e = (k, r)" by (cases e)
  show ?case
  proof (cases "committed r \<and> expiry_scheduled r")
    case False
    then have "earliest_loop wide timeout es acc = Some d" using Cons.prems(1) by (auto simp: e)
    then have d: "d = (let D = set_option acc \<union> dl ` {e \<in> set es. committed (snd e) \<and> expiry_scheduled (snd e)}
              in if D = {} then None else Some (Min D))"
      using Cons.IH Cons.prems(2) by simp
    have "{x \<in> set (e # es). committed (snd x) \<and> expiry_scheduled (snd x)} =
      {x \<in> set es. committed (snd x) \<and> expiry_scheduled (snd x)}"
      using False by (auto simp: e)
    then show ?thesis using d by simp
  next
    case True
    let ?S = "{e \<in> set es. committed (snd e) \<and> expiry_scheduled (snd e)}"
    let ?acc = "case acc of None \<Rightarrow> Some (dl e) | Some a \<Rightarrow> if dl e < a then Some (dl e) else Some a"
    have "saturating_steady_add wide (terminal_time r) timeout = Some (dl e)"
      using Cons.prems(2) [of e] True by (simp add: e)
    then have "earliest_loop wide timeout es ?acc = Some d"
      using Cons.prems(1) True unfolding e by simp
    then have d: "d = (let D = set_option ?acc \<union> dl ` ?S in if D = {} then None else Some (Min D))"
      using Cons.IH Cons.prems(2) by simp
    have S: "{x \<in> set (e # es). committed (snd x) \<and> expiry_scheduled (snd x)} = insert e ?S"
      using True by (auto simp: e)
    have "Min (set_option ?acc \<union> dl ` ?S) = Min (set_option acc \<union> dl ` insert e ?S)"
    proof (cases "acc")
      case None
      then show ?thesis by simp
    next
      case (Some a)
      have "Min (insert (min a (dl e)) (dl ` ?S)) = Min (insert a (insert (dl e) (dl ` ?S)))"
        by (rule Min_insert_min) simp
      moreover have "set_option ?acc \<union> dl ` ?S = insert (min a (dl e)) (dl ` ?S)" using Some by simp
      moreover have "set_option acc \<union> dl ` insert e ?S = insert a (insert (dl e) (dl ` ?S))"
        using Some by auto
      ultimately show ?thesis by presburger
    qed
    moreover have "set_option ?acc \<noteq> {}" by (cases acc) auto
    ultimately show ?thesis using d S by (simp add: Let_def)
  qed
qed

lemma expiry_ready_iff:
  "expiry_ready now g \<longleftrightarrow> expired_notifications (snd (prune_expired alive now g)) \<noteq> []"
  by (auto simp: expiry_ready_def filter_empty_conv)

section \<open>Properties\<close>

text \<open>
  The life of a goal, over every sequence of operations: while it is registered its
  information never changes and its state only moves along an arc of the protocol's automaton,
  under an explicit event for that goal; it leaves the registry only when it is terminal, its
  result timeout has passed, and its id has been queued for, or handed to, the caller.
\<close>

theorem goal_lifecycle:
  assumes "reg_run alive ops (new_registry t) = (fin0, col0, g)"
    and "reg_exec alive now op g = (fin, col, g')" and "committed_goal g k = Some r"
  shows "(case committed_goal g' k of
      Some r' \<Rightarrow> gr_info r' = gr_info r \<and>
        (gr_state r' = gr_state r \<or> goal_arc (gr_state r) (gr_state r') \<and> (\<exists>ev. op = OpUpdate k ev))
    | None \<Rightarrow> is_terminal_goal_state (gr_state r) \<and> result_timeout g \<le> now - terminal_time r
        \<and> k \<in> set (expired_notifications g' @ col))"
proof -
  have "registry_ok g" using reg_run_conserves [OF new_registry_ok assms(1)] by blast
  from goal_step [OF this assms(2,3)] show ?thesis unfolding goal_step_ok_def .
qed

definition goal_A :: GoalId where "goal_A = replicate 16 1"
definition goal_B :: GoalId where "goal_B = replicate 16 2"

definition sample_ops :: "(int \<times> nat RegOp) list" where
  "sample_ops = [(0, OpReserve goal_A), (1, OpCommit \<lparr>goal_id = goal_A, accepted_stamp = 7\<rparr> ExecuteNow),
     (2, OpReserve goal_B), (3, OpCommit \<lparr>goal_id = goal_B, accepted_stamp = 5\<rparr> Defer),
     (10, OpUpdate goal_A Succeed)]"

lemmas run_simps = Let_def reserve_def commit_def commit_record_def fresh_record_def um_emplace_def
  um_modify_def new_registry_def update_state_def committed_goal_def next_goal_state_def
  is_terminal_goal_state_def notify_expiry_def goal_A_def goal_B_def

lemma sample_run:
  "reg_run (\<lambda>_. True) sample_ops (new_registry 100) = ([goal_A], [],
     \<lparr>result_timeout = 100,
      goals = [(goal_A, \<lparr>gr_info = \<lparr>goal_id = goal_A, accepted_stamp = 7\<rparr>, gr_state = Succeeded,
                  committed = True, expiry_scheduled = True, terminal_time = 10,
                  pending_result_requests = []\<rparr>),
               (goal_B, \<lparr>gr_info = \<lparr>goal_id = goal_B, accepted_stamp = 5\<rparr>, gr_state = Accepted,
                  committed = True, expiry_scheduled = False, terminal_time = 0,
                  pending_result_requests = []\<rparr>)],
      expired_notifications = [], expiry_observers = []\<rparr>)"
  by (simp add: sample_ops_def run_simps)

theorem goal_lifecycle_witness:
  "\<exists>fin col g'. reg_exec (\<lambda>_. True) 200 OpTakeExpired (snd (snd (reg_run (\<lambda>_::nat. True) sample_ops (new_registry 100))))
     = (fin, col, g') \<and> goal_A \<in> set col"
proof -
  let ?g = "snd (snd (reg_run (\<lambda>_::nat. True) sample_ops (new_registry 100)))"
  obtain fin col g' where e: "reg_exec (\<lambda>_. True) 200 OpTakeExpired ?g = (fin, col, g')"
    by (metis prod_cases3)
  have c: "committed_goal ?g goal_A = Some
      \<lparr>gr_info = \<lparr>goal_id = goal_A, accepted_stamp = 7\<rparr>, gr_state = Succeeded, committed = True,
       expiry_scheduled = True, terminal_time = 10, pending_result_requests = []\<rparr>"
    by (simp add: sample_run committed_goal_def)
  have gone: "committed_goal g' goal_A = None" "expired_notifications g' = []"
    using e by (auto simp: sample_run committed_goal_def take_expired_goals_def prune_expired_def
        expired_def notify_expiry_def goal_A_def goal_B_def)
  from goal_lifecycle [OF sample_run, of 200 OpTakeExpired fin col g' goal_A] e c gone
  have "goal_A \<in> set col" by (simp add: sample_run)
  with e show ?thesis by blast
qed

text \<open>
  No expired goal is lost or reported twice: over any sequence of operations, the number of
  times a goal has become terminal is the number of times it was handed to the caller, plus the
  times it waits in the notification queue, plus one while it is a terminal goal of the registry.
\<close>

theorem expiry_conservation:
  "reg_run alive ops (new_registry t) = (fin, col, g) \<Longrightarrow>
    count_list fin k = count_list col k + count_list (expired_notifications g) k
      + (case committed_goal g k of Some r \<Rightarrow> if is_terminal_goal_state (gr_state r) then 1 else 0
         | None \<Rightarrow> 0)"
  using reg_run_conserves [OF new_registry_ok, of alive ops t fin col g k]
  by (auto simp: awaiting_def live_terminal_def new_registry_def committed_goal_def
      split: option.splits)

theorem expiry_conservation_witness:
  "count_list (fst (reg_run (\<lambda>_::nat. True) (sample_ops @ [(200, OpTakeExpired)]) (new_registry 100))) goal_A = 1
   \<and> count_list (fst (snd (reg_run (\<lambda>_::nat. True) (sample_ops @ [(200, OpTakeExpired)]) (new_registry 100)))) goal_A = 1"
proof -
  have r: "reg_run (\<lambda>_::nat. True) (sample_ops @ [(200, OpTakeExpired)]) (new_registry 100) =
    ([goal_A], [goal_A], \<lparr>result_timeout = 100,
      goals = [(goal_B, \<lparr>gr_info = \<lparr>goal_id = goal_B, accepted_stamp = 5\<rparr>, gr_state = Accepted,
                  committed = True, expiry_scheduled = False, terminal_time = 0,
                  pending_result_requests = []\<rparr>)],
      expired_notifications = [], expiry_observers = []\<rparr>)"
    by (simp add: sample_ops_def run_simps take_expired_goals_def prune_expired_def expired_def)
  from expiry_conservation [OF r, of goal_A] show ?thesis
    unfolding r by (simp add: committed_goal_def goal_A_def goal_B_def)
qed

text \<open>
  Expiry readiness is exact: \<^verbatim>\<open>expiry_ready\<close> holds exactly when \<^verbatim>\<open>take_expired_goals\<close> at the
  same instant hands out a goal, and afterwards it does not hold.
\<close>

theorem expiry_ready_exact:
  "(expiry_ready now g \<longleftrightarrow> fst (take_expired_goals alive now g) \<noteq> [])
   \<and> \<not> expiry_ready now (snd (snd (take_expired_goals alive now g)))"
  using expiry_ready_iff [of now g alive]
  by (auto simp: take_expired_goals_def case_prod_beta expiry_ready_def)

text \<open>
  The deadline a WaitSet sleeps to is the right one: no computation overflows, there is a
  deadline exactly when some goal is terminal, and, away from saturation, with an empty queue the
  registry becomes ready precisely at the deadline.
\<close>

theorem earliest_expiry_exact:
  assumes "registry_ok g" "strict_mono wide"
    and "\<forall>e \<in> set (goals g). expiry_scheduled (snd e) \<longrightarrow>
          0 \<le> terminal_time (snd e) \<and> terminal_time (snd e) + result_timeout g < int64_max"
  shows "\<exists>d. earliest_expiry wide g = Some d
    \<and> (d = None \<longleftrightarrow> \<not> (\<exists>k r. committed_goal g k = Some r \<and> is_terminal_goal_state (gr_state r)))
    \<and> (\<forall>t. d = Some t \<longrightarrow> expired_notifications g = [] \<longrightarrow> (\<forall>now. expiry_ready now g \<longleftrightarrow> t \<le> now))"
proof -
  let ?S = "{e \<in> set (goals g). committed (snd e) \<and> expiry_scheduled (snd e)}"
  let ?dl = "\<lambda>e. terminal_time (snd e) + result_timeout g"
  have t0: "0 \<le> result_timeout g" using assms(1) by (simp add: registry_ok_def)
  have dl: "saturating_steady_add wide (terminal_time (snd e)) (result_timeout g) = Some (?dl e)"
    if "e \<in> set (goals g)" "expiry_scheduled (snd e)" for e
    using assms(2,3) t0 that
    by (subst saturating_steady_add_cases [OF strict_mono_mono [OF assms(2)]])
      (auto simp: strict_mono_less_eq)
  obtain d where d: "earliest_expiry wide g = Some d"
    using earliest_loop_total [OF strict_mono_mono [OF assms(2)], of "goals g"] assms(3) t0
    unfolding earliest_expiry_def by fastforce
  then have min: "d = (if ?dl ` ?S = {} then None else Some (Min (?dl ` ?S)))"
    using earliest_loop_min [of wide "result_timeout g" "goals g" None d ?dl] dl
    by (simp add: earliest_expiry_def Let_def)
  have um: "um_ok (goals g)" using assms(1) by (simp add: registry_ok_def)
  have sched: "expiry_scheduled r \<longleftrightarrow> is_terminal_goal_state (gr_state r)"
    if "(k, r) \<in> set (goals g)" "committed r" for k r
    using assms(1) that by (auto simp: registry_ok_def record_ok_def um_ok_map_of [OF um])
  have "?S = {} \<longleftrightarrow> \<not> (\<exists>k r. committed_goal g k = Some r \<and> is_terminal_goal_state (gr_state r))"
    using sched by (fastforce simp: committed_goal_Some um_ok_map_of [OF um, symmetric])
  moreover have "expiry_ready now g \<longleftrightarrow> Min (?dl ` ?S) \<le> now"
    if "?S \<noteq> {}" "expired_notifications g = []" for now
  proof -
    have "finite (?dl ` ?S)" "?dl ` ?S \<noteq> {}" using that(1) by simp_all
    from Min_le_iff [OF this, of now]
    have "Min (?dl ` ?S) \<le> now \<longleftrightarrow> (\<exists>e \<in> ?S. ?dl e \<le> now)" by simp
    moreover have "expiry_ready now g \<longleftrightarrow>
        (\<exists>e \<in> set (goals g). committed (snd e) \<and> expiry_scheduled (snd e) \<and> ?dl e \<le> now)"
      using that(2) by (simp add: expiry_ready_def expired_def le_diff_eq add.commute) blast
    ultimately show ?thesis by blast
  qed
  ultimately show ?thesis using d min by auto
qed

theorem earliest_expiry_exact_witness:
  "expiry_ready 110 (snd (snd (reg_run (\<lambda>_::nat. True) sample_ops (new_registry 100))))"
proof -
  let ?g = "snd (snd (reg_run (\<lambda>_::nat. True) sample_ops (new_registry 100)))"
  have ok: "registry_ok ?g" using reg_run_conserves [OF new_registry_ok sample_run] by (simp add: sample_run)
  have sm: "strict_mono (id :: int \<Rightarrow> int)" by (simp add: strict_mono_def)
  have dl: "earliest_expiry (id :: int \<Rightarrow> int) ?g = Some (Some 110)"
    by (simp add: sample_run earliest_expiry_def saturating_steady_add_def arith64_defs int64_defs)
  have "\<forall>e \<in> set (goals ?g). expiry_scheduled (snd e) \<longrightarrow>
          0 \<le> terminal_time (snd e) \<and> terminal_time (snd e) + result_timeout ?g < int64_max"
    by (simp add: sample_run int64_defs)
  from earliest_expiry_exact [OF ok sm this] dl show ?thesis by (auto simp: sample_run)
qed

text \<open>
  The four forms of a cancel request: an all-zero id means every goal, a zero stamp means no time
  bound, and a request with both an id and a stamp selects that goal and every goal accepted up
  to the stamp.
\<close>

fun cancel_form :: "bool \<Rightarrow> bool \<Rightarrow> CancelGoalCriteria \<Rightarrow> GoalId \<Rightarrow> int \<Rightarrow> bool" where
  "cancel_form True True c k stamp = True"
| "cancel_form True False c k stamp = (stamp \<le> crit_stamp c)"
| "cancel_form False True c k stamp = (k = crit_goal_id c)"
| "cancel_form False False c k stamp = (k = crit_goal_id c \<or> stamp \<le> crit_stamp c)"

lemma cancel_selected_form:
  "cancel_selected c r = cancel_form (is_zero_goal_id (crit_goal_id c)) (crit_stamp c = 0) c
     (goal_id (gr_info r)) (accepted_stamp (gr_info r))"
  by (cases "is_zero_goal_id (crit_goal_id c)"; cases "crit_stamp c = 0")
    (simp_all add: cancel_selected_def Let_def)

text \<open>
  Cancel selection: a negative stamp is refused; otherwise the goals returned are, without
  repetition and in the order of their stamps, exactly the committed goals in a cancelable state
  that the request's form selects, and a cancel event is allowed for each of them.
\<close>

theorem cancel_selection_correct:
  assumes "registry_ok g"
  shows "if crit_stamp c < 0 then select_cancel_goals c g = Inl InvalidArgument
    else \<exists>xs. select_cancel_goals c g = Inr xs \<and> sorted (map accepted_stamp xs)
      \<and> distinct (map goal_id xs)
      \<and> set xs = {gr_info r |k r. committed_goal g k = Some r \<and> gr_state r \<in> {Accepted, Executing}
          \<and> cancel_form (is_zero_goal_id (crit_goal_id c)) (crit_stamp c = 0) c k (accepted_stamp (gr_info r))}
      \<and> (\<forall>i \<in> set xs. \<exists>r. committed_goal g (goal_id i) = Some r
          \<and> next_goal_state (gr_state r) CancelGoal = Some Canceling)"
proof (cases "crit_stamp c < 0")
  case True
  then show ?thesis by (simp add: select_cancel_goals_def)
next
  case False
  let ?p = "\<lambda>e. committed (snd e) \<and> is_cancelable_goal_state (gr_state (snd e)) \<and> cancel_selected c (snd e)"
  let ?ys = "map (\<lambda>e. gr_info (snd e)) (filter ?p (goals g))"
  let ?xs = "sort_key accepted_stamp ?ys"
  have um: "um_ok (goals g)" using assms by (simp add: registry_ok_def)
  have key: "goal_id (gr_info r) = k \<and> committed_goal g k = Some r" if "(k, r) \<in> set (goals g)" "committed r" for k r
    using assms that by (auto simp: registry_ok_def record_ok_def um_ok_map_of [OF um] committed_goal_Some)
  have ids: "map goal_id ?ys = map fst (filter ?p (goals g))"
    using key by (auto simp: map_eq_conv)
  have "distinct (map goal_id ?ys)"
    unfolding ids using um by (simp add: um_ok_def distinct_map_filter)
  moreover have "distinct (map goal_id ?xs) \<longleftrightarrow> distinct (map goal_id ?ys)"
    by (rule mset_eq_imp_distinct_iff) (simp only: mset_map mset_sort)
  ultimately have d: "distinct (map goal_id ?xs)" by blast
  let ?sel = "\<lambda>k r. committed_goal g k = Some r \<and> gr_state r \<in> {Accepted, Executing}
      \<and> cancel_form (is_zero_goal_id (crit_goal_id c)) (crit_stamp c = 0) c k (accepted_stamp (gr_info r))"
  have eq: "(k, r) \<in> set (goals g) \<and> ?p (k, r) \<longleftrightarrow> ?sel k r" for k r
    using key [of k r] um_ok_map_of [OF um, of k r]
    by (cases "(k, r) \<in> set (goals g) \<and> committed r")
      (auto simp: is_cancelable_goal_state_def cancel_selected_form committed_goal_Some)
  have "i \<in> set ?xs \<longleftrightarrow> (\<exists>k r. (k, r) \<in> set (goals g) \<and> ?p (k, r) \<and> i = gr_info r)" for i
    by (auto simp: image_iff)
  then have mem: "i \<in> set ?xs \<longleftrightarrow> (\<exists>k r. i = gr_info r \<and> ?sel k r)" for i
    using eq by blast
  have "\<exists>r. committed_goal g (goal_id i) = Some r \<and> next_goal_state (gr_state r) CancelGoal = Some Canceling"
    if "i \<in> set ?xs" for i
  proof -
    from that obtain k r where r: "i = gr_info r" "committed_goal g k = Some r" "gr_state r \<in> {Accepted, Executing}"
      unfolding mem by blast
    then have "goal_id i = k" using key [of k r] by (auto simp: committed_goal_Some dest: map_of_SomeD)
    with r show ?thesis by (auto simp: next_goal_state_def)
  qed
  moreover have "sorted (map accepted_stamp ?xs)" by (rule sorted_sort_key)
  moreover have "select_cancel_goals c g = Inr ?xs" using False by (simp add: select_cancel_goals_def)
  moreover have "set ?xs = {gr_info r |k r. committed_goal g k = Some r \<and> gr_state r \<in> {Accepted, Executing}
          \<and> cancel_form (is_zero_goal_id (crit_goal_id c)) (crit_stamp c = 0) c k (accepted_stamp (gr_info r))}"
    using mem by blast
  ultimately show ?thesis using d False by auto
qed

theorem cancel_selection_correct_witness:
  "select_cancel_goals \<lparr>crit_goal_id = replicate 16 0, crit_stamp = 6\<rparr>
     (snd (snd (reg_run (\<lambda>_::nat. True) sample_ops (new_registry 100))))
     = Inr [\<lparr>goal_id = goal_B, accepted_stamp = 5\<rparr>]
   \<and> (\<exists>r. committed_goal (snd (snd (reg_run (\<lambda>_::nat. True) sample_ops (new_registry 100)))) goal_B = Some r
        \<and> next_goal_state (gr_state r) CancelGoal = Some Canceling)"
proof -
  let ?g = "snd (snd (reg_run (\<lambda>_::nat. True) sample_ops (new_registry 100)))"
  let ?c = "\<lparr>crit_goal_id = replicate 16 0, crit_stamp = 6\<rparr>"
  have ok: "registry_ok ?g" using reg_run_conserves [OF new_registry_ok sample_run] by (simp add: sample_run)
  have sel: "select_cancel_goals ?c ?g = Inr [\<lparr>goal_id = goal_B, accepted_stamp = 5\<rparr>]"
    by (simp add: sample_run select_cancel_goals_def cancel_selected_form is_cancelable_goal_state_def
        is_zero_goal_id_def)
  from cancel_selection_correct [OF ok, of ?c] sel show ?thesis by auto
qed

text \<open>
  A waiting result request is handed over exactly once: a request registered as pending is
  in the next \<^verbatim>\<open>take_pending_result_requests\<close> of its goal, together with every request that
  waited there and nothing twice, no other goal holds it, registering it a second time is
  refused, and a second take returns nothing.
\<close>

theorem result_request_once:
  assumes "registry_ok g" "register_result_request alive now k rid g = (Inr Pending, w, g1)"
  shows "\<exists>xs g2. take_pending_result_requests k g1 = (Inr xs, g2) \<and> rid \<in> set xs \<and> distinct xs
    \<and> (\<forall>r. committed_goal g k = Some r \<longrightarrow> set xs = insert rid (set (pending_result_requests r)))
    \<and> (\<forall>k' r. k' \<noteq> k \<longrightarrow> map_of (goals g1) k' = Some r \<longrightarrow> rid \<notin> set (pending_result_requests r))
    \<and> fst (register_result_request alive now k rid g1) = Inl AlreadyExists
    \<and> fst (take_pending_result_requests k g2) = Inr []"
proof (cases rule: register_cases [of alive now k rid g])
  case (kept d)
  then show ?thesis using assms(2) by simp
next
  case (added r)
  let ?g = "snd (prune_expired alive now g)"
  let ?r = "r\<lparr>pending_result_requests := pending_result_requests r @ [rid]\<rparr>"
  have um: "um_ok (goals g)" using assms(1) by (simp add: registry_ok_def)
  have r: "map_of (goals ?g) k = Some r" "committed r" using added(1) by (auto simp: committed_goal_Some)
  have g1: "g1 = ?g\<lparr>goals := um_modify k
          (\<lambda>r. r\<lparr>pending_result_requests := pending_result_requests r @ [rid]\<rparr>) (goals ?g)\<rparr>"
    using assms(2) added(4) by simp
  have ok1: "registry_ok g1"
    using register_ok [OF assms(1), of alive now k rid] assms(2) by simp
  then have um1: "um_ok (goals g1)" by (simp add: registry_ok_def)
  have k1: "map_of (goals g1) k = Some ?r"
    using r(1) unfolding g1 by (simp add: um.lookup_modify del: prune_simps)
  have c1: "committed_goal g1 k = Some ?r" using k1 r(2) by (simp add: committed_goal_Some)
  have old: "committed_goal g k = Some r0 \<Longrightarrow> r0 = r" for r0
    using added(1) committed_prune [OF um, of alive now k] by (auto split: if_splits)
  have nexp: "\<not> expired (result_timeout g1) now ?r"
    using added(1) committed_prune [OF um, of alive now k] old unfolding g1
    by (auto simp: expired_def simp del: prune_simps(1,2) split: option.splits if_splits)
  obtain w2 g3 where p: "prune_expired alive now g1 = (w2, g3)" by fastforce
  have c3: "committed_goal g3 k = Some ?r"
    using committed_prune [OF um1, of alive now k] c1 nexp by (simp add: p)
  then have "(k, ?r) \<in> set (goals g3)" by (auto simp: committed_goal_Some dest: map_of_SomeD)
  then have dup: "\<exists>e \<in> set (goals g3). rid \<in> set (pending_result_requests (snd e))"
    by (intro bexI [of _ "(k, ?r)"]) auto
  have again: "fst (register_result_request alive now k rid g1) = Inl AlreadyExists"
    using c3 dup added(2) by (simp add: register_result_request_def p)
  have apart: "rid \<notin> set (pending_result_requests r')" if "k' \<noteq> k" "map_of (goals g1) k' = Some r'" for k' r'
    using ok1 that k1 unfolding registry_ok_def requests_apart_def by fastforce
  have "record_ok k ?r" using ok1 k1 unfolding registry_ok_def by blast
  then have "distinct (pending_result_requests ?r)" using r(2) by (simp add: record_ok_def)
  then show ?thesis
    using c1 again apart old added(1)
    by (auto simp: take_pending_result_requests_def committed_goal_Some um.lookup_modify k1 r(2)
        split: option.splits)
qed

theorem result_request_once_witness:
  "\<exists>w g1 xs g2. register_result_request (\<lambda>_. True) 20 goal_B \<lparr>client_gid = replicate 16 9, sequence_number = 1\<rparr>
      (snd (snd (reg_run (\<lambda>_::nat. True) sample_ops (new_registry 100)))) = (Inr Pending, w, g1)
    \<and> take_pending_result_requests goal_B g1 = (Inr xs, g2)
    \<and> set xs = {\<lparr>client_gid = replicate 16 9, sequence_number = 1\<rparr>}
    \<and> fst (take_pending_result_requests goal_B g2) = Inr []"
proof -
  let ?g = "snd (snd (reg_run (\<lambda>_::nat. True) sample_ops (new_registry 100)))"
  let ?rid = "\<lparr>client_gid = replicate 16 9, sequence_number = 1\<rparr>"
  have ok: "registry_ok ?g" using reg_run_conserves [OF new_registry_ok sample_run] by (simp add: sample_run)
  have c: "\<exists>r. committed_goal ?g goal_B = Some r \<and> pending_result_requests r = []"
    by (simp add: sample_run committed_goal_def goal_A_def goal_B_def)
  obtain d w g1 where r: "register_result_request (\<lambda>_. True) 20 goal_B ?rid ?g = (d, w, g1)"
    by (metis prod_cases3)
  then have "d = Inr Pending"
    by (simp add: sample_run register_result_request_def prune_expired_def expired_def
        committed_goal_def is_terminal_goal_state_def goal_A_def goal_B_def)
  with result_request_once [OF ok, of "\<lambda>_. True" 20 goal_B ?rid w g1] r c show ?thesis by auto
qed

end
