(* ===== verification/ServerFsm.thy ===== *)
theory ServerFsm
  imports Identity
begin

text \<open>
  The pending requests of a server: \<^verbatim>\<open>impl/server_impl.cpp\<close> and \<^verbatim>\<open>impl/server_impl.hpp\<close>.
  First every operation run by itself, then the same operations cut at their critical sections
  and interleaved by any number of threads.

  What Fast DDS and the discovery state answer during an operation is an argument of it: the
  samples \<^verbatim>\<open>take_next_sample\<close> yields, the status of the response reader, the result of the
  write. Allocation failures (\<^verbatim>\<open>std::bad_alloc\<close>) are not modelled.
\<close>

section \<open>State\<close>

datatype PendingPhase = PhasePending | PhaseResponding

record PendingRequest =
  pr_identity :: SampleIdentity
  pr_phase :: PendingPhase

text \<open>\<open>blocking_enabled\<close> is the flag of the request reader's wait state.\<close>

record ServerState =
  max_pending_requests :: nat
  reservations :: nat
  pending :: "(RequestId, PendingRequest) umap"
  blocking_enabled :: bool
  has_scratch :: bool

definition new_server :: "nat \<Rightarrow> ServerState" where
  "new_server m = \<lparr>max_pending_requests = m, reservations = 0, pending = [],
     blocking_enabled = True, has_scratch = False\<rparr>"

definition in_use :: "ServerState \<Rightarrow> nat" where
  "in_use s = length (pending s) + reservations s"

definition set_blocking_enabled :: "bool \<Rightarrow> ServerState \<Rightarrow> ServerState" where
  "set_blocking_enabled b s = s\<lparr>blocking_enabled := b\<rparr>"

section \<open>Critical sections\<close>

text \<open>\<open>None\<close>: no slot; otherwise whether the reservation took the last one.\<close>

definition reserve_request_slot :: "ServerState \<Rightarrow> (bool \<times> ServerState) option" where
  "reserve_request_slot s =
     (if length (pending s) + reservations s \<ge> max_pending_requests s then None
      else let s1 = s\<lparr>reservations := reservations s + 1\<rparr>
           in Some (length (pending s1) + reservations s1 = max_pending_requests s1, s1))"

definition release_request_reservation :: "ServerState \<Rightarrow> bool \<times> ServerState" where
  "release_request_reservation s =
     (let s1 = s\<lparr>reservations := reservations s - 1\<rparr>
      in (length (pending s1) + reservations s1 + 1 = max_pending_requests s1, s1))"

definition release_pending_request :: "RequestId \<Rightarrow> ServerState \<Rightarrow> bool \<times> ServerState" where
  "release_pending_request r s =
     (length (pending s) + reservations s = max_pending_requests s, s\<lparr>pending := um_erase r (pending s)\<rparr>)"

definition insert_pending :: "RequestId \<Rightarrow> SampleIdentity \<Rightarrow> ServerState \<Rightarrow> bool \<times> ServerState" where
  "insert_pending r i s =
     (map_of (pending s) r = None,
      s\<lparr>pending := um_emplace r \<lparr>pr_identity = i, pr_phase = PhasePending\<rparr> (pending s),
        reservations := reservations s - 1\<rparr>)"

definition restore_pending :: "RequestId \<Rightarrow> ServerState \<Rightarrow> ServerState" where
  "restore_pending r s = s\<lparr>pending := um_modify r (\<lambda>p. p\<lparr>pr_phase := PhasePending\<rparr>) (pending s)\<rparr>"

definition enable_if :: "bool \<times> ServerState \<Rightarrow> ServerState" where
  "enable_if = (\<lambda>(b, s). if b then set_blocking_enabled True s else s)"

section \<open>Operations\<close>

record RequestSample =
  valid_data :: bool
  sample_identity :: SampleIdentity
  related_writer :: Guid

text \<open>The request id and the identity a response is addressed to.\<close>

definition request_addressing ::
  "SequenceNumber \<Rightarrow> Guid \<Rightarrow> RequestSample \<Rightarrow> (RequestId \<times> SampleIdentity) option" where
  "request_addressing unknown_seq unknown_guid info =
     (case to_request_id unknown_seq (sample_identity info) of
        None \<Rightarrow> None
      | Some r \<Rightarrow>
          Some (if related_writer info \<noteq> unknown_guid
                then (r\<lparr>client_gid := to_gid (related_writer info)\<rparr>,
                      (sample_identity info)\<lparr>writer_guid := related_writer info\<rparr>)
                else (r, sample_identity info)))"

text \<open>
  The loop of \<^verbatim>\<open>read_request\<close>: \<open>n\<close> is what is left of the unread count, \<open>takes\<close> what
  \<^verbatim>\<open>take_next_sample\<close> returns call by call (an exhausted list has no data), \<open>create\<close> and
  \<open>commit\<close> the results of creating the scratch sample and of committing it to the caller.
\<close>

fun read_loop ::
  "SequenceNumber \<Rightarrow> Guid \<Rightarrow> unit result \<Rightarrow> unit result \<Rightarrow> nat \<Rightarrow> (ReturnCode \<times> RequestSample) list
    \<Rightarrow> ServerState \<Rightarrow> bool result \<times> RequestId option \<times> ServerState" where
  "read_loop us ug create commit 0 takes s = (Inr False, None, s)"
| "read_loop us ug create commit (Suc n) takes s =
     (case reserve_request_slot s of
        None \<Rightarrow> (Inl ResourceExhausted, None, s)
      | Some (became_full, s1) \<Rightarrow>
          let s2 = (if became_full then set_blocking_enabled False s1 else s1) in
          case (if has_scratch s2 then Inr () else create) of
            Inl e \<Rightarrow> (Inl e, None, enable_if (release_request_reservation s2))
          | Inr _ \<Rightarrow>
              let s3 = s2\<lparr>has_scratch := True\<rparr> in
              case takes of
                [] \<Rightarrow> (Inr False, None, enable_if (release_request_reservation s3))
              | (code, info) # rest \<Rightarrow>
                  if code = RETCODE_NO_DATA
                  then (Inr False, None, enable_if (release_request_reservation s3))
                  else if code \<noteq> RETCODE_OK
                  then (Inl (to_return_code code), None, enable_if (release_request_reservation s3))
                  else if \<not> valid_data info
                  then read_loop us ug create commit n rest (enable_if (release_request_reservation s3))
                  else (case request_addressing us ug info of
                    None \<Rightarrow> (Inl DDSError, None, enable_if (release_request_reservation s3))
                  | Some (r, i) \<Rightarrow>
                      let (inserted, s4) = insert_pending r i s3 in
                      if \<not> inserted
                      then read_loop us ug create commit n rest (enable_if (became_full, s4))
                      else (case commit of
                        Inr _ \<Rightarrow> (Inr True, Some r, s4)
                      | Inl e \<Rightarrow> (Inl e, None, enable_if (release_pending_request r s4)))))"

definition read_request ::
  "SequenceNumber \<Rightarrow> Guid \<Rightarrow> bool \<Rightarrow> bool \<Rightarrow> unit result \<Rightarrow> unit result \<Rightarrow> nat
    \<Rightarrow> (ReturnCode \<times> RequestSample) list \<Rightarrow> ServerState \<Rightarrow> bool result \<times> RequestId option \<times> ServerState" where
  "read_request us ug null shut create commit unread takes s =
     (if null then (Inl InvalidArgument, None, s)
      else if shut then (Inl ContextShutdown, None, s)
      else read_loop us ug create commit unread takes s)"

definition check_pending_request :: "RequestId \<Rightarrow> ServerState \<Rightarrow> unit result" where
  "check_pending_request r s =
     (case map_of (pending s) r of
        None \<Rightarrow> Inl NotFound
      | Some p \<Rightarrow> if pr_phase p = PhaseResponding then Inl Busy else Inr ())"

definition discard_section :: "RequestId \<Rightarrow> ServerState \<Rightarrow> bool result \<times> ServerState" where
  "discard_section r s =
     (case map_of (pending s) r of
        None \<Rightarrow> (Inl NotFound, s)
      | Some p \<Rightarrow>
          if pr_phase p = PhaseResponding then (Inl Busy, s)
          else (Inr (length (pending s) + reservations s = max_pending_requests s),
                s\<lparr>pending := um_erase r (pending s)\<rparr>))"

definition discard_request :: "bool \<Rightarrow> RequestId \<Rightarrow> ServerState \<Rightarrow> unit result \<times> ServerState" where
  "discard_request shut r s =
     (if shut then (Inl ContextShutdown, s)
      else case discard_section r s of
        (Inl e, s1) \<Rightarrow> (Inl e, s1)
      | (Inr was_full, s1) \<Rightarrow> (Inr (), enable_if (was_full, s1)))"

definition claim_response :: "bool \<Rightarrow> RequestId \<Rightarrow> ServerState \<Rightarrow> SampleIdentity result \<times> ServerState" where
  "claim_response shut r s =
     (if shut then (Inl ContextShutdown, s)
      else case map_of (pending s) r of
        None \<Rightarrow> (Inl NotFound, s)
      | Some p \<Rightarrow>
          if pr_phase p = PhaseResponding then (Inl Busy, s)
          else (Inr (pr_identity p),
                s\<lparr>pending := um_modify r (\<lambda>p. p\<lparr>pr_phase := PhaseResponding\<rparr>) (pending s)\<rparr>))"

datatype TargetStatus = TargetReady | TargetRemoved | TargetTimedOut | TargetUnavailable

text \<open>What the environment answers while a claimed response is written, in the order asked.\<close>

record WriteEnv =
  we_shutdown :: bool
  we_deadline :: "int result"
  we_wait :: TargetStatus
  we_shutdown_commit :: bool
  we_check :: TargetStatus
  we_wait_again :: TargetStatus
  we_write :: bool

text \<open>
  \<open>write_body\<close> is \<^verbatim>\<open>write_claimed_response\<close> up to its return; the destructor of
  \<^verbatim>\<open>RestorePending\<close> then runs on every path.
\<close>

definition write_body ::
  "Guid \<Rightarrow> bool \<Rightarrow> WriteEnv \<Rightarrow> RequestId \<Rightarrow> SampleIdentity \<Rightarrow> ServerState \<Rightarrow> unit result \<times> ServerState" where
  "write_body unknown_guid null env r identity s =
     (let has_target = is_reader_guid unknown_guid (writer_guid identity);
          failed = (\<lambda>e. (Inl e, restore_pending r s));
          target_failure = (\<lambda>t. if t = TargetUnavailable then failed DDSError else failed Timeout);
          released = (Inr (), enable_if (release_pending_request r s));
          write = (if we_write env then released else failed DDSError)
      in if null then (Inl InvalidArgument, s)
         else if we_shutdown env then (Inl ContextShutdown, s)
         else case we_deadline env of
           Inl e \<Rightarrow> failed e
         | Inr deadline \<Rightarrow>
             if has_target \<and> we_wait env \<noteq> TargetReady then
               (if we_wait env = TargetRemoved then released else target_failure (we_wait env))
             else if we_shutdown_commit env then failed ContextShutdown
             else if has_target then
               (let final = (if we_check env = TargetTimedOut then we_wait_again env else we_check env)
                in if final = TargetRemoved then released
                   else if final \<noteq> TargetReady then target_failure final
                   else write)
             else write)"

definition write_claimed_response ::
  "Guid \<Rightarrow> bool \<Rightarrow> WriteEnv \<Rightarrow> RequestId \<Rightarrow> SampleIdentity \<Rightarrow> ServerState \<Rightarrow> unit result \<times> ServerState" where
  "write_claimed_response unknown_guid null env r identity s =
     (let (res, s1) = write_body unknown_guid null env r identity s in (res, restore_pending r s1))"

definition write_response ::
  "Guid \<Rightarrow> bool \<Rightarrow> bool \<Rightarrow> WriteEnv \<Rightarrow> RequestId \<Rightarrow> ServerState \<Rightarrow> unit result \<times> ServerState" where
  "write_response unknown_guid null shut env r s =
     (if null then (Inl InvalidArgument, s)
      else case claim_response shut r s of
        (Inl e, s1) \<Rightarrow> (Inl e, s1)
      | (Inr identity, s1) \<Rightarrow> write_claimed_response unknown_guid null env r identity s1)"

text \<open>
  The deadline of a response: \<open>dur\<close> is the writer's maximal blocking time, \<open>None\<close> when infinite.
\<close>

definition response_target_deadline ::
  "(int \<times> int) option result \<Rightarrow> int \<Rightarrow> int result option" where
  "response_target_deadline qos now =
     (case qos of
        Inl e \<Rightarrow> Some (Inl e)
      | Inr None \<Rightarrow> Some (Inr int64_max)
      | Inr (Some (seconds, nanosec)) \<Rightarrow>
          if seconds < 0 \<or> nanosec \<ge> 1000000000 then Some (Inl DDSError)
          else do {
            bound \<leftarrow> div64 int64_max 1000000000;
            if seconds > bound then Some (Inr int64_max) else do {
              ns \<leftarrow> mul64 seconds 1000000000;
              wait \<leftarrow> add64 ns nanosec;
              room \<leftarrow> sub64 int64_max now;
              if room < wait then Some (Inr int64_max) else map_option Inr (add64 now wait) }})"

lemmas server_defs [op_defs] = reserve_request_slot_def release_request_reservation_def
  release_pending_request_def insert_pending_def restore_pending_def discard_section_def
  claim_response_def set_blocking_enabled_def

section \<open>Whole operations keep the capacity gate exact\<close>

text \<open>
  Between operations nothing is reserved, the capacity is respected, no claim is outstanding and
  the reader takes part in WaitSets exactly while there is room.
\<close>

definition server_ok :: "ServerState \<Rightarrow> bool" where
  "server_ok s \<longleftrightarrow> um_ok (pending s) \<and> 0 < max_pending_requests s \<and> reservations s = 0
     \<and> length (pending s) \<le> max_pending_requests s
     \<and> (blocking_enabled s \<longleftrightarrow> length (pending s) < max_pending_requests s)"

definition idle_phases :: "ServerState \<Rightarrow> bool" where
  "idle_phases s \<longleftrightarrow> (\<forall>r p. map_of (pending s) r = Some p \<longrightarrow> pr_phase p = PhasePending)"

lemma new_server_ok: "0 < m \<Longrightarrow> server_ok (new_server m) \<and> idle_phases (new_server m)"
  by (simp add: server_ok_def idle_phases_def new_server_def)

lemma release_after_reserve:
  assumes "server_ok s" "reserve_request_slot s = Some (full, s1)"
    and "s3 = (if full then set_blocking_enabled False s1 else s1)\<lparr>has_scratch := b\<rparr>"
  shows "server_ok (enable_if (release_request_reservation s3))"
    and "pending (enable_if (release_request_reservation s3)) = pending s"
    and "max_pending_requests (enable_if (release_request_reservation s3)) = max_pending_requests s"
  using assms by (auto simp: server_ok_def server_defs enable_if_def Let_def split: if_splits)

lemma reserved_facts:
  assumes "server_ok s" "reserve_request_slot s = Some (full, s1)"
    and "s3 = (if full then set_blocking_enabled False s1 else s1)\<lparr>has_scratch := b\<rparr>"
  shows "pending s3 = pending s" "reservations s3 = 1" "max_pending_requests s3 = max_pending_requests s"
    "length (pending s) < max_pending_requests s"
    "full \<longleftrightarrow> length (pending s) + 1 = max_pending_requests s" "blocking_enabled s3 \<longleftrightarrow> \<not> full"
  using assms by (auto simp: server_ok_def server_defs Let_def split: if_splits)

lemma enable_if_simps [simp]:
  "pending (enable_if (b, s)) = pending s" "reservations (enable_if (b, s)) = reservations s"
  "max_pending_requests (enable_if (b, s)) = max_pending_requests s"
  "blocking_enabled (enable_if (b, s)) \<longleftrightarrow> b \<or> blocking_enabled s"
  by (simp_all add: enable_if_def set_blocking_enabled_def)

lemma insert_pending_facts:
  assumes "insert_pending r i s3 = (ins, s4)"
  shows "ins \<longleftrightarrow> map_of (pending s3) r = None" "reservations s4 = reservations s3 - 1"
    "max_pending_requests s4 = max_pending_requests s3" "blocking_enabled s4 = blocking_enabled s3"
    "pending s4 = um_emplace r \<lparr>pr_identity = i, pr_phase = PhasePending\<rparr> (pending s3)"
  using assms by (auto simp: insert_pending_def)

lemma insert_after_reserve:
  assumes ok: "server_ok s" and res: "reserve_request_slot s = Some (full, s1)"
    and s3: "s3 = (if full then set_blocking_enabled False s1 else s1)\<lparr>has_scratch := b\<rparr>"
    and ins: "insert_pending r i s3 = (ins, s4)"
  shows "ins \<longleftrightarrow> map_of (pending s) r = None"
    and "ins \<Longrightarrow> server_ok s4 \<and> map_of (pending s4) =
      (map_of (pending s))(r \<mapsto> \<lparr>pr_identity = i, pr_phase = PhasePending\<rparr>)"
    and "ins \<Longrightarrow> server_ok (enable_if (release_pending_request r s4))
      \<and> map_of (pending (enable_if (release_pending_request r s4))) = map_of (pending s)"
    and "\<not> ins \<Longrightarrow> server_ok (enable_if (full, s4)) \<and> pending (enable_if (full, s4)) = pending s"
    and "max_pending_requests s4 = max_pending_requests s"
proof -
  note f = reserved_facts [OF ok res s3] and g = insert_pending_facts [OF ins]
  have um: "um_ok (pending s)" using ok by (simp add: server_ok_def)
  show i: "ins \<longleftrightarrow> map_of (pending s) r = None" by (simp add: f g)
  show "max_pending_requests s4 = max_pending_requests s" by (simp add: f g)
  have len: "length (pending s4) = (if ins then length (pending s) + 1 else length (pending s))"
    by (simp add: f g i um.entries_emplace del: One_nat_def)
  have um4: "um_ok (pending s4)" using um by (simp add: f g um.ok_emplace)
  have look: "map_of (pending s4) =
      (map_of (pending s))(r \<mapsto> \<lparr>pr_identity = i, pr_phase = PhasePending\<rparr>)" if ins
    using that by (auto simp: f g i um.lookup_emplace)
  show "server_ok s4 \<and> map_of (pending s4) =
      (map_of (pending s))(r \<mapsto> \<lparr>pr_identity = i, pr_phase = PhasePending\<rparr>)" if ins
    using look [OF that] um4 len that ok f g by (simp add: server_ok_def) arith
  show "\<not> ins \<Longrightarrow> server_ok (enable_if (full, s4)) \<and> pending (enable_if (full, s4)) = pending s"
    using um4 len ok f g i by (auto simp: server_ok_def um_emplace_def)
  assume a: ins
  have "length (um_erase r (pending s4)) = length (pending s)"
    using um.entries_erase [OF um4, of r] look [OF a] len a by simp
  moreover have "map_of (um_erase r (pending s4)) = map_of (pending s)"
    using look [OF a] a i by (auto simp: um.lookup_erase)
  ultimately show "server_ok (enable_if (release_pending_request r s4))
      \<and> map_of (pending (enable_if (release_pending_request r s4))) = map_of (pending s)"
    using um.ok_erase [OF um4, of r] ok f g len a
    by (simp add: server_ok_def release_pending_request_def)
qed

text \<open>What a sequential \<^verbatim>\<open>read_request\<close> leaves behind.\<close>

definition read_post :: "ServerState \<Rightarrow> bool result \<times> RequestId option \<times> ServerState \<Rightarrow> bool" where
  "read_post s = (\<lambda>(res, rid, s'). server_ok s' \<and> max_pending_requests s' = max_pending_requests s \<and>
     (case rid of
        None \<Rightarrow> res \<noteq> Inr True \<and> map_of (pending s') = map_of (pending s)
      | Some r \<Rightarrow> res = Inr True \<and> map_of (pending s) r = None \<and>
          (\<exists>i. map_of (pending s') = (map_of (pending s))(r \<mapsto> \<lparr>pr_identity = i, pr_phase = PhasePending\<rparr>))))"

lemma read_post_chain:
  "map_of (pending s1) = map_of (pending s) \<Longrightarrow> max_pending_requests s1 = max_pending_requests s \<Longrightarrow>
    read_post s1 out \<Longrightarrow> read_post s out"
  by (auto simp: read_post_def split: prod.splits option.splits)

lemma read_loop_post: "server_ok s \<Longrightarrow> read_post s (read_loop us ug create commit n takes s)"
proof (induction n arbitrary: takes s)
  case 0
  then show ?case by (simp add: read_post_def)
next
  case (Suc n)
  show ?case
  proof (cases "reserve_request_slot s")
    case None
    then show ?thesis using Suc.prems by (simp add: read_post_def)
  next
    case (Some p)
    obtain full s1 where res: "reserve_request_slot s = Some (full, s1)" using Some by (cases p) simp
    let ?s2 = "if full then set_blocking_enabled False s1 else s1"
    note rel = release_after_reserve [OF Suc.prems res refl]
    have out: "read_post s (e, None, enable_if (release_request_reservation (?s2\<lparr>has_scratch := b\<rparr>)))"
      if "e \<noteq> Inr True" for e b
      using rel that by (simp add: read_post_def)
    have out2: "read_post s (e, None, enable_if (release_request_reservation ?s2))" if "e \<noteq> Inr True" for e
      using out [OF that, of "has_scratch ?s2"] by simp
    show ?thesis
    proof (cases "if has_scratch ?s2 then Inr () else create")
      case (Inl e)
      then show ?thesis using out2 by (simp add: res Let_def)
    next
      case (Inr u)
      let ?s3 = "?s2\<lparr>has_scratch := True\<rparr>"
      have step: "read_loop us ug create commit (Suc n) takes s =
        (case takes of
                [] \<Rightarrow> (Inr False, None, enable_if (release_request_reservation ?s3))
              | (code, info) # rest \<Rightarrow>
                  if code = RETCODE_NO_DATA
                  then (Inr False, None, enable_if (release_request_reservation ?s3))
                  else if code \<noteq> RETCODE_OK
                  then (Inl (to_return_code code), None, enable_if (release_request_reservation ?s3))
                  else if \<not> valid_data info
                  then read_loop us ug create commit n rest (enable_if (release_request_reservation ?s3))
                  else (case request_addressing us ug info of
                    None \<Rightarrow> (Inl DDSError, None, enable_if (release_request_reservation ?s3))
                  | Some (r, i) \<Rightarrow>
                      let (inserted, s4) = insert_pending r i ?s3 in
                      if \<not> inserted
                      then read_loop us ug create commit n rest (enable_if (full, s4))
                      else (case commit of
                        Inr _ \<Rightarrow> (Inr True, Some r, s4)
                      | Inl e \<Rightarrow> (Inl e, None, enable_if (release_pending_request r s4)))))"
        using Inr by (simp add: res Let_def)
      show ?thesis
      proof (cases takes)
        case Nil
        then show ?thesis unfolding step using out by simp
      next
        case (Cons x rest)
        obtain code info where x: "x = (code, info)" by (cases x)
        consider (bad) "code \<noteq> RETCODE_OK" | (invalid) "code = RETCODE_OK" "\<not> valid_data info"
          | (unknown) "code = RETCODE_OK" "valid_data info" "request_addressing us ug info = None"
          | (req) r i where "code = RETCODE_OK" "valid_data info" "request_addressing us ug info = Some (r, i)"
          by (cases "request_addressing us ug info") auto
        then show ?thesis
        proof cases
          case bad
          then show ?thesis unfolding step unfolding Cons x using out by simp
        next
          case invalid
          have "read_post s (read_loop us ug create commit n rest (enable_if (release_request_reservation ?s3)))"
            by (rule read_post_chain [OF _ _ Suc.IH]) (simp_all only: rel)
          then show ?thesis unfolding step unfolding Cons x using invalid by simp
        next
          case unknown
          then show ?thesis unfolding step unfolding Cons x using out by simp
        next
          case (req r i)
          obtain ins s4 where ins: "insert_pending r i ?s3 = (ins, s4)" by fastforce
          note post = insert_after_reserve [OF Suc.prems res refl ins]
          show ?thesis
          proof (cases ins)
            case True
            then show ?thesis
              unfolding step unfolding Cons x using req ins post(1,5) post(2,3) [OF True] True
              by (cases commit) (auto simp: read_post_def release_pending_request_def)
          next
            case False
            have "read_post s (read_loop us ug create commit n rest (enable_if (full, s4)))"
              using post(4) [OF False] post(5)
              by (intro read_post_chain [OF _ _ Suc.IH]) simp_all
            then show ?thesis unfolding step unfolding Cons x using req ins False by simp
          qed
        qed
      qed
    qed
  qed
qed

lemma read_request_post: "server_ok s \<Longrightarrow> read_post s (read_request us ug null shut create commit n takes s)"
  using read_loop_post [of s us ug create commit n takes] by (simp add: read_request_def read_post_def)

lemma enable_release_ok:
  assumes "server_ok s" "map_of (pending s) r \<noteq> None"
  shows "server_ok (enable_if (release_pending_request r s))"
proof -
  have um: "um_ok (pending s)" using assms(1) by (simp add: server_ok_def)
  obtain v where v: "map_of (pending s) r = Some v" using assms(2) by auto
  have "length (um_erase r (pending s)) = length (pending s) - 1" "0 < length (pending s)"
    using um.entries_erase [OF um, of r] um.entries_pos [OF v] v by simp_all
  then show ?thesis
    using assms um.ok_erase [OF um, of r]
    by (simp add: server_ok_def release_pending_request_def) arith
qed

lemma discard_ok:
  assumes "server_ok s" shows "server_ok (snd (discard_request shut r s))"
proof (cases "shut \<or> map_of (pending s) r = None \<or> (\<exists>p. map_of (pending s) r = Some p \<and> pr_phase p = PhaseResponding)")
  case True
  then show ?thesis using assms by (auto simp: discard_request_def discard_section_def split: option.splits)
next
  case False
  then have "discard_request shut r s = (Inr (), enable_if (release_pending_request r s))"
    by (auto simp: discard_request_def discard_section_def release_pending_request_def)
  with enable_release_ok [OF assms, of r] False show ?thesis by simp
qed

lemma claim_ok: "server_ok s \<Longrightarrow> server_ok (snd (claim_response shut r s))"
  by (auto simp: server_ok_def claim_response_def um.oks um.entries_modify split: option.splits)

lemma restore_ok: "server_ok s \<Longrightarrow> server_ok (restore_pending r s)"
  by (simp add: server_ok_def restore_pending_def um.oks um.entries_modify)

lemma write_body_cases:
  "write_body ug null env r i s = (Inr (), enable_if (release_pending_request r s))
   \<or> (\<exists>e s'. write_body ug null env r i s = (Inl e, s') \<and> (s' = s \<or> s' = restore_pending r s))"
  by (auto simp: write_body_def Let_def split: sum.splits)

lemma write_claimed_ok:
  assumes "server_ok s" "map_of (pending s) r \<noteq> None"
  shows "server_ok (snd (write_claimed_response ug null env r i s))"
  using write_body_cases [of ug null env r i s] assms(1) enable_release_ok [OF assms]
  by (auto simp: write_claimed_response_def restore_ok)

text \<open>Lookups after a critical section.\<close>

lemma lookup_restore [frame]:
  "map_of (pending (restore_pending r s)) r' =
     (if r' = r then map_option (\<lambda>p. p\<lparr>pr_phase := PhasePending\<rparr>) (map_of (pending s) r)
      else map_of (pending s) r')"
  by (simp add: restore_pending_def um.lookup_modify)

lemma lookup_release [frame]:
  "map_of (pending (snd (release_pending_request r s))) r' =
     (if r' = r then None else map_of (pending s) r')"
  by (simp add: release_pending_request_def um.lookup_erase)

lemma claim_cases:
  obtains (refused) e where "claim_response shut r s = (Inl e, s)"
  | (claimed) p where "map_of (pending s) r = Some p" "pr_phase p = PhasePending"
      "claim_response shut r s = (Inr (pr_identity p),
         s\<lparr>pending := um_modify r (\<lambda>p. p\<lparr>pr_phase := PhaseResponding\<rparr>) (pending s)\<rparr>)"
proof (cases "shut \<or> map_of (pending s) r = None \<or> (\<exists>p. map_of (pending s) r = Some p \<and> pr_phase p = PhaseResponding)")
  case True
  then have "\<exists>e. claim_response shut r s = (Inl e, s)"
    by (auto simp: claim_response_def split: option.splits)
  then show thesis using refused by blast
next
  case False
  then obtain p where p: "map_of (pending s) r = Some p" "pr_phase p \<noteq> PhaseResponding" "\<not> shut"
    by auto
  then have "pr_phase p = PhasePending" by (cases "pr_phase p") auto
  with p show thesis by (intro claimed [of p]) (simp_all add: claim_response_def)
qed

lemma write_response_post:
  assumes "server_ok s" "idle_phases s"
  shows "server_ok (snd (write_response ug null shut env r s))
    \<and> idle_phases (snd (write_response ug null shut env r s))"
proof (cases null)
  case False
  show ?thesis
  proof (cases rule: claim_cases [of shut r s])
    case (refused e)
    then show ?thesis using assms False by (simp add: write_response_def)
  next
    case (claimed p)
    let ?s = "snd (claim_response shut r s)"
    have look: "map_of (pending ?s) r' = (if r' = r then Some (p\<lparr>pr_phase := PhaseResponding\<rparr>) else map_of (pending s) r')" for r'
      using claimed by (simp add: um.lookup_modify)
    have step: "write_response ug null shut env r s = write_claimed_response ug null env r (pr_identity p) ?s"
      using claimed(3) False by (simp add: write_response_def)
    have "server_ok (snd (write_claimed_response ug null env r (pr_identity p) ?s))"
      using claim_ok [OF assms(1)] look by (intro write_claimed_ok) simp_all
    moreover have "idle_phases (snd (write_claimed_response ug null env r (pr_identity p) ?s))"
      using write_body_cases [of ug null env r "pr_identity p" ?s] look assms(2)
      by (auto simp: idle_phases_def write_claimed_response_def lookup_restore release_pending_request_def
          um.lookup_erase split: if_splits)
    ultimately show ?thesis by (simp add: step)
  qed
qed (use assms in \<open>simp add: write_response_def\<close>)

datatype ServerOp =
    OpRead bool bool "unit result" "unit result" nat "(ReturnCode \<times> RequestSample) list"
  | OpRespond bool bool WriteEnv RequestId
  | OpDiscard bool RequestId

fun server_exec :: "SequenceNumber \<Rightarrow> Guid \<Rightarrow> ServerOp \<Rightarrow> ServerState \<Rightarrow> ServerState" where
  "server_exec us ug (OpRead null shut create commit n takes) s =
     snd (snd (read_request us ug null shut create commit n takes s))"
| "server_exec us ug (OpRespond null shut env r) s = snd (write_response ug null shut env r s)"
| "server_exec us ug (OpDiscard shut r) s = snd (discard_request shut r s)"

lemma idle_phases_read:
  "idle_phases s \<Longrightarrow> read_post s out \<Longrightarrow> idle_phases (snd (snd out))"
  by (auto simp: idle_phases_def read_post_def split: option.splits prod.splits if_splits)

lemma idle_phases_discard: "idle_phases s \<Longrightarrow> idle_phases (snd (discard_request shut r s))"
  by (auto simp: idle_phases_def discard_request_def discard_section_def um.lookup_erase
      split: option.splits if_splits)

lemma frame_max [frame]:
  "max_pending_requests (snd (discard_request shut r s)) = max_pending_requests s"
  "max_pending_requests (snd (write_response ug null shut env r s)) = max_pending_requests s"
proof -
  show "max_pending_requests (snd (discard_request shut r s)) = max_pending_requests s"
    by (simp add: discard_request_def discard_section_def split: option.splits)
  have w: "max_pending_requests (snd (write_claimed_response ug nil env r i s1)) = max_pending_requests s1" for nil i s1
    using write_body_cases [of ug nil env r i s1]
    by (auto simp: write_claimed_response_def restore_pending_def release_pending_request_def)
  show "max_pending_requests (snd (write_response ug null shut env r s)) = max_pending_requests s"
    by (cases rule: claim_cases [of shut r s]) (simp_all add: write_response_def w)
qed

lemma server_exec_ok:
  assumes "server_ok s" "idle_phases s"
  shows "server_ok (server_exec us ug op s) \<and> idle_phases (server_exec us ug op s)
    \<and> max_pending_requests (server_exec us ug op s) = max_pending_requests s"
proof (cases op)
  case (OpRead null shut create commit n takes)
  have p: "read_post s (read_request us ug null shut create commit n takes s)"
    by (rule read_request_post [OF assms(1)])
  then show ?thesis
    using idle_phases_read [OF assms(2) p] OpRead by (auto simp: read_post_def split: prod.splits)
next
  case (OpRespond null shut env r)
  then show ?thesis using write_response_post [OF assms] by (simp add: frame)
next
  case (OpDiscard shut r)
  then show ?thesis using discard_ok [OF assms(1)] idle_phases_discard [OF assms(2)] by (simp add: frame)
qed

section \<open>Interleaved operations\<close>

text \<open>
  The one reader (\<^verbatim>\<open>request_read_mutex_\<close>) and any number of threads that answer or discard.
  Each program counter names the critical section that comes next.
\<close>

datatype ReaderPc = RIdle | RReserved bool | RTaking bool | RCommit RequestId | RWake bool

datatype ThreadPc =
    TIdle | TWriting RequestId | TWritten RequestId | TWake bool RequestId | TRestore RequestId
  | TDiscarded bool

record Sys =
  srv :: ServerState
  rd :: ReaderPc
  threads :: "nat \<Rightarrow> ThreadPc"
  seen :: "RequestId set"
  answered :: "RequestId \<Rightarrow> nat"

fun handles :: "ThreadPc \<Rightarrow> RequestId option" where
  "handles (TWriting r) = Some r"
| "handles (TWritten r) = Some r"
| "handles (TWake b r) = Some r"
| "handles (TRestore r) = Some r"
| "handles _ = None"

definition init_sys :: "nat \<Rightarrow> Sys" where
  "init_sys m = \<lparr>srv = new_server m, rd = RIdle, threads = (\<lambda>_. TIdle), seen = {}, answered = (\<lambda>_. 0)\<rparr>"

text \<open>
  \<open>seen\<close> and \<open>answered\<close> are history: a reader delivers a sample identity once, and \<open>answered\<close>
  counts the responses written. With \<open>excl\<close> the application lets one thread at a time answer a
  given request, and only after \<^verbatim>\<open>read_request\<close> has returned its id.
\<close>

inductive sys_step :: "bool \<Rightarrow> Sys \<Rightarrow> Sys \<Rightarrow> bool" for excl where
  reader_reserve:
    "rd S = RIdle \<Longrightarrow> reserve_request_slot (srv S) = Some (full, s1) \<Longrightarrow>
     sys_step excl S (S\<lparr>srv := s1, rd := RReserved full\<rparr>)"
| reader_disable:
    "rd S = RReserved full \<Longrightarrow>
     sys_step excl S (S\<lparr>srv := (if full then set_blocking_enabled False (srv S) else srv S), rd := RTaking full\<rparr>)"
| reader_release:
    "rd S = RTaking full \<Longrightarrow> release_request_reservation (srv S) = (b, s1) \<Longrightarrow>
     sys_step excl S (S\<lparr>srv := s1, rd := RWake b\<rparr>)"
| reader_insert:
    "rd S = RTaking full \<Longrightarrow> r \<notin> seen S \<Longrightarrow> insert_pending r i (srv S) = (True, s1) \<Longrightarrow>
     sys_step excl S (S\<lparr>srv := s1, rd := RCommit r, seen := insert r (seen S)\<rparr>)"
| reader_duplicate:
    "rd S = RTaking full \<Longrightarrow> insert_pending r i (srv S) = (False, s1) \<Longrightarrow>
     sys_step excl S (S\<lparr>srv := s1, rd := RWake full\<rparr>)"
| reader_return:
    "rd S = RCommit r \<Longrightarrow> sys_step excl S (S\<lparr>rd := RIdle\<rparr>)"
| reader_uncommit:
    "rd S = RCommit r \<Longrightarrow> release_pending_request r (srv S) = (b, s1) \<Longrightarrow>
     sys_step excl S (S\<lparr>srv := s1, rd := RWake b\<rparr>)"
| reader_wake:
    "rd S = RWake b \<Longrightarrow> sys_step excl S (S\<lparr>srv := enable_if (b, srv S), rd := RIdle\<rparr>)"
| claim:
    "threads S t = TIdle \<Longrightarrow> claim_response False r (srv S) = (Inr i, s1) \<Longrightarrow>
     excl \<longrightarrow> rd S \<noteq> RCommit r \<and> (\<forall>u. handles (threads S u) \<noteq> Some r) \<Longrightarrow>
     sys_step excl S (S\<lparr>srv := s1, threads := (threads S)(t := TWriting r)\<rparr>)"
| fail_section:
    "threads S t = TWriting r \<Longrightarrow>
     sys_step excl S (S\<lparr>srv := restore_pending r (srv S), threads := (threads S)(t := TRestore r)\<rparr>)"
| fail_early:
    "threads S t = TWriting r \<Longrightarrow> sys_step excl S (S\<lparr>threads := (threads S)(t := TRestore r)\<rparr>)"
| target_removed:
    "threads S t = TWriting r \<Longrightarrow> release_pending_request r (srv S) = (b, s1) \<Longrightarrow>
     sys_step excl S (S\<lparr>srv := s1, threads := (threads S)(t := TWake b r)\<rparr>)"
| dds_write:
    "threads S t = TWriting r \<Longrightarrow>
     sys_step excl S (S\<lparr>threads := (threads S)(t := TWritten r),
       answered := (answered S)(r := answered S r + 1)\<rparr>)"
| written_release:
    "threads S t = TWritten r \<Longrightarrow> release_pending_request r (srv S) = (b, s1) \<Longrightarrow>
     sys_step excl S (S\<lparr>srv := s1, threads := (threads S)(t := TWake b r)\<rparr>)"
| writer_wake:
    "threads S t = TWake b r \<Longrightarrow>
     sys_step excl S (S\<lparr>srv := enable_if (b, srv S), threads := (threads S)(t := TRestore r)\<rparr>)"
| destructor:
    "threads S t = TRestore r \<Longrightarrow>
     sys_step excl S (S\<lparr>srv := restore_pending r (srv S), threads := (threads S)(t := TIdle)\<rparr>)"
| discard:
    "threads S t = TIdle \<Longrightarrow> discard_section r (srv S) = (Inr b, s1) \<Longrightarrow>
     sys_step excl S (S\<lparr>srv := s1, threads := (threads S)(t := TDiscarded b)\<rparr>)"
| discard_wake:
    "threads S t = TDiscarded b \<Longrightarrow>
     sys_step excl S (S\<lparr>srv := enable_if (b, srv S), threads := (threads S)(t := TIdle)\<rparr>)"

inductive sys_reach :: "bool \<Rightarrow> nat \<Rightarrow> Sys \<Rightarrow> bool" for excl m where
  init: "sys_reach excl m (init_sys m)"
| step: "sys_reach excl m S \<Longrightarrow> sys_step excl S S' \<Longrightarrow> sys_reach excl m S'"

inductive_cases sys_stepE: "sys_step excl S S'"

section \<open>Invariants of every interleaving\<close>

definition capacity_inv :: "nat \<Rightarrow> Sys \<Rightarrow> bool" where
  "capacity_inv m S \<longleftrightarrow> um_ok (pending (srv S)) \<and> max_pending_requests (srv S) = m
     \<and> length (pending (srv S)) + reservations (srv S) \<le> m
     \<and> reservations (srv S) = (case rd S of RReserved _ \<Rightarrow> 1 | RTaking _ \<Rightarrow> 1 | _ \<Rightarrow> 0)"

lemma capacity_step:
  assumes "sys_step excl S S'" "capacity_inv m S"
  shows "capacity_inv m S'"
  using assms
proof cases
  case (reader_insert full r i s1)
  then show ?thesis
    using assms(2) um.entries_emplace [of r "\<lparr>pr_identity = i, pr_phase = PhasePending\<rparr>" "pending (srv S)"]
    by (auto simp: capacity_inv_def insert_pending_def um.oks)
next
  case (reader_uncommit r b s1)
  then show ?thesis
    using assms(2) um.entries_erase_le [of "pending (srv S)" r]
    by (auto simp: capacity_inv_def release_pending_request_def um.oks)
next
  case (claim t r i s1)
  from claim(3) show ?thesis
    by (cases rule: claim_cases [of False r "srv S"])
      (use claim assms(2) in \<open>auto simp: capacity_inv_def um.oks um.entries_modify\<close>)
next
  case (target_removed t r b s1)
  then show ?thesis
    using assms(2) um.entries_erase_le [of "pending (srv S)" r]
    by (auto simp: capacity_inv_def release_pending_request_def um.oks)
next
  case (written_release t r b s1)
  then show ?thesis
    using assms(2) um.entries_erase_le [of "pending (srv S)" r]
    by (auto simp: capacity_inv_def release_pending_request_def um.oks)
next
  case (discard t r b s1)
  then show ?thesis
    using assms(2) um.entries_erase_le [of "pending (srv S)" r]
    by (auto simp: capacity_inv_def discard_section_def um.oks split: option.splits if_splits)
qed (auto simp: capacity_inv_def server_defs enable_if_def Let_def um.oks um.entries_modify um_emplace_def
    split: if_splits)

lemma capacity_reach: "sys_reach excl m S \<Longrightarrow> capacity_inv m S"
proof (induction rule: sys_reach.induct)
  case init
  show ?case by (simp add: capacity_inv_def init_sys_def new_server_def)
next
  case (step S S')
  then show ?case by (blast intro: capacity_step)
qed

text \<open>
  One answering thread per request. Seen from one request: nobody handles it, or exactly one
  thread does; \<open>pc_ok\<close> relates the program counter of that thread (\<open>TIdle\<close>: nobody), the phase of
  the request (\<open>None\<close>: not pending) and the number of responses written.
\<close>

definition phase :: "RequestId \<Rightarrow> Sys \<Rightarrow> PendingPhase option" where
  "phase r S = map_option pr_phase (map_of (pending (srv S)) r)"

fun pc_ok :: "ThreadPc \<Rightarrow> PendingPhase option \<Rightarrow> nat \<Rightarrow> bool" where
  "pc_ok (TWriting _) ph n \<longleftrightarrow> ph = Some PhaseResponding \<and> n = 0"
| "pc_ok (TWritten _) ph n \<longleftrightarrow> ph = Some PhaseResponding \<and> n = 1"
| "pc_ok (TWake _ _) ph n \<longleftrightarrow> n = 0 \<or> n = 1 \<and> ph = None"
| "pc_ok (TRestore _) ph n \<longleftrightarrow> n = 0 \<or> n = 1 \<and> ph = None"
| "pc_ok _ ph n \<longleftrightarrow> (n = 0 \<or> n = 1 \<and> ph = None) \<and> ph \<noteq> Some PhaseResponding"

definition free :: "RequestId \<Rightarrow> Sys \<Rightarrow> bool" where
  "free r S \<longleftrightarrow> (\<forall>u. handles (threads S u) \<noteq> Some r)"

definition held :: "RequestId \<Rightarrow> nat \<Rightarrow> Sys \<Rightarrow> bool" where
  "held r t S \<longleftrightarrow> handles (threads S t) = Some r \<and> (\<forall>u. handles (threads S u) = Some r \<longrightarrow> u = t)"

definition request_inv :: "RequestId \<Rightarrow> Sys \<Rightarrow> bool" where
  "request_inv r S \<longleftrightarrow>
     (phase r S \<noteq> None \<or> rd S = RCommit r \<or> answered S r \<noteq> 0 \<longrightarrow> r \<in> seen S)
     \<and> (free r S \<and> pc_ok TIdle (phase r S) (answered S r)
        \<or> (\<exists>t. held r t S \<and> r \<in> seen S \<and> rd S \<noteq> RCommit r
             \<and> pc_ok (threads S t) (phase r S) (answered S r)))"

lemma inv_holder:
  assumes "request_inv r S" "handles (threads S t) = Some r"
  shows "held r t S" "r \<in> seen S" "rd S \<noteq> RCommit r" "pc_ok (threads S t) (phase r S) (answered S r)"
  using assms by (auto simp: request_inv_def free_def held_def)

lemma inv_frame:
  assumes "request_inv r S" "phase r S' = phase r S" "answered S' r = answered S r"
    and "rd S' = RCommit r \<longrightarrow> rd S = RCommit r" "r \<in> seen S \<longrightarrow> r \<in> seen S'"
    and "\<And>u. handles (threads S' u) = Some r \<or> handles (threads S u) = Some r \<Longrightarrow> threads S' u = threads S u"
  shows "request_inv r S'"
proof -
  have h: "handles (threads S' u) = Some r \<longleftrightarrow> handles (threads S u) = Some r" for u
    using assms(6) [of u] by auto
  have "free r S' \<longleftrightarrow> free r S" "\<And>t. held r t S' \<longleftrightarrow> held r t S" by (simp_all add: free_def held_def h)
  moreover have "held r t S \<Longrightarrow> threads S' t = threads S t" for t
    using assms(6) [of t] by (simp add: held_def)
  ultimately show ?thesis
    using assms(1-5) unfolding request_inv_def by metis
qed

lemma inv_move:
  assumes "request_inv r S" "handles (threads S t) = Some r"
    and "threads S' = (threads S)(t := pc)" "rd S' = rd S" "seen S' = seen S" "handles pc = Some r"
    and "pc_ok pc (phase r S') (answered S' r)"
  shows "request_inv r S'"
  using inv_holder [OF assms(1,2)] assms(3-7) by (auto simp: request_inv_def held_def)

lemma inv_leave:
  assumes "request_inv r S" "handles (threads S t) = Some r"
    and "threads S' = (threads S)(t := pc)" "rd S' = rd S" "seen S' = seen S" "handles pc = None"
    and "pc_ok TIdle (phase r S') (answered S' r)"
  shows "request_inv r S'"
  using inv_holder [OF assms(1,2)] assms(3-7) by (auto simp: request_inv_def held_def free_def)

lemma phase_simps:
  "map_of (pending (srv S')) r = map_of (pending (srv S)) r \<Longrightarrow> phase r S' = phase r S"
  by (simp add: phase_def)

lemmas phase_defs = phase_def server_defs enable_if_def um.lookups

lemma request_step:
  assumes "sys_step True S S'" "request_inv r S"
  shows "request_inv r S'"
  using assms(1)
proof cases
  case (reader_reserve full s1)
  then show ?thesis
    by (intro inv_frame [OF assms(2)]) (auto simp: phase_defs Let_def split: if_splits)
next
  case (reader_disable full)
  then show ?thesis by (intro inv_frame [OF assms(2)]) (auto simp: phase_defs)
next
  case (reader_release full b s1)
  then show ?thesis by (intro inv_frame [OF assms(2)]) (auto simp: phase_defs Let_def)
next
  case (reader_insert full r0 i s1)
  show ?thesis
  proof (cases "r = r0")
    case True
    have "free r S"
      using inv_holder(2) [OF assms(2)] reader_insert(3) True by (auto simp: free_def)
    moreover have "phase r S' = Some PhasePending"
      using reader_insert True by (auto simp: phase_defs)
    moreover have "answered S r = 0" using assms(2) reader_insert(3) True by (auto simp: request_inv_def)
    ultimately show ?thesis using reader_insert True by (simp add: request_inv_def free_def)
  next
    case False
    then show ?thesis
      using reader_insert by (intro inv_frame [OF assms(2)]) (auto simp: phase_defs)
  qed
next
  case (reader_duplicate full r0 i s1)
  then show ?thesis by (intro inv_frame [OF assms(2)]) (auto simp: phase_defs)
next
  case (reader_return r0)
  then show ?thesis by (intro inv_frame [OF assms(2)]) (auto simp: phase_defs)
next
  case (reader_uncommit r0 b s1)
  show ?thesis
  proof (cases "r = r0")
    case True
    then have "free r S" using inv_holder(3) [OF assms(2)] reader_uncommit(2) by (auto simp: free_def)
    then show ?thesis
      using assms(2) reader_uncommit True by (auto simp: request_inv_def free_def held_def phase_defs)
  next
    case False
    then show ?thesis
      using reader_uncommit by (intro inv_frame [OF assms(2)]) (auto simp: phase_defs)
  qed
next
  case (reader_wake b)
  then show ?thesis by (intro inv_frame [OF assms(2)]) (auto simp: phase_defs)
next
  case (claim t r0 i s1)
  from claim(3) obtain p where p: "map_of (pending (srv S)) r0 = Some p" "pr_phase p = PhasePending"
    and s1: "s1 = (srv S)\<lparr>pending := um_modify r0 (\<lambda>p. p\<lparr>pr_phase := PhaseResponding\<rparr>) (pending (srv S))\<rparr>"
    by (cases rule: claim_cases [of False r0 "srv S"]) auto
  show ?thesis
  proof (cases "r = r0")
    case True
    then show ?thesis
      using assms(2) claim p s1
      by (auto simp: request_inv_def free_def held_def phase_def um.lookups)
  next
    case False
    then show ?thesis
      using claim s1 by (intro inv_frame [OF assms(2)]) (auto simp: phase_def um.lookups split: if_splits)
  qed
next
  case (fail_section t r0)
  show ?thesis
  proof (cases "r = r0")
    case True
    then show ?thesis
      using fail_section inv_holder(4) [OF assms(2), of t]
      by (intro inv_move [OF assms(2), of t]) (auto simp: phase_defs)
  next
    case False
    then show ?thesis
      using fail_section by (intro inv_frame [OF assms(2)]) (auto simp: phase_defs split: if_splits)
  qed
next
  case (fail_early t r0)
  show ?thesis
  proof (cases "r = r0")
    case True
    then show ?thesis
      using fail_early inv_holder(4) [OF assms(2), of t]
      by (intro inv_move [OF assms(2), of t]) (auto simp: phase_defs)
  next
    case False
    then show ?thesis
      using fail_early by (intro inv_frame [OF assms(2)]) (auto simp: phase_defs split: if_splits)
  qed
next
  case (target_removed t r0 b s1)
  show ?thesis
  proof (cases "r = r0")
    case True
    then show ?thesis
      using target_removed inv_holder(4) [OF assms(2), of t]
      by (intro inv_move [OF assms(2), of t]) (auto simp: phase_defs)
  next
    case False
    then show ?thesis
      using target_removed by (intro inv_frame [OF assms(2)]) (auto simp: phase_defs split: if_splits)
  qed
next
  case (dds_write t r0)
  show ?thesis
  proof (cases "r = r0")
    case True
    then show ?thesis
      using dds_write inv_holder(4) [OF assms(2), of t]
      by (intro inv_move [OF assms(2), of t]) (auto simp: phase_defs)
  next
    case False
    then show ?thesis
      using dds_write by (intro inv_frame [OF assms(2)]) (auto simp: phase_defs split: if_splits)
  qed
next
  case (written_release t r0 b s1)
  show ?thesis
  proof (cases "r = r0")
    case True
    then show ?thesis
      using written_release inv_holder(4) [OF assms(2), of t]
      by (intro inv_move [OF assms(2), of t]) (auto simp: phase_defs)
  next
    case False
    then show ?thesis
      using written_release by (intro inv_frame [OF assms(2)]) (auto simp: phase_defs split: if_splits)
  qed
next
  case (writer_wake t b r0)
  show ?thesis
  proof (cases "r = r0")
    case True
    then show ?thesis
      using writer_wake inv_holder(4) [OF assms(2), of t]
      by (intro inv_move [OF assms(2), of t]) (auto simp: phase_defs)
  next
    case False
    then show ?thesis
      using writer_wake by (intro inv_frame [OF assms(2)]) (auto simp: phase_defs split: if_splits)
  qed
next
  case (destructor t r0)
  show ?thesis
  proof (cases "r = r0")
    case True
    then show ?thesis
      using destructor inv_holder(4) [OF assms(2), of t]
      by (intro inv_leave [OF assms(2), of t]) (auto simp: phase_defs)
  next
    case False
    then show ?thesis
      using destructor by (intro inv_frame [OF assms(2)]) (auto simp: phase_defs split: if_splits)
  qed
next
  case (discard t r0 b s1)
  show ?thesis
  proof (cases "r = r0")
    case True
    have "phase r S \<noteq> Some PhaseResponding" "phase r S \<noteq> None" "phase r S' = None"
      using discard True by (auto simp: phase_def discard_section_def um.lookups split: option.splits if_splits)
    moreover have h: "handles (threads S' u) = handles (threads S u)" for u
      using discard(1,2) by simp
    moreover have "free r S' \<longleftrightarrow> free r S" "held r u S' \<longleftrightarrow> held r u S" for u
      by (simp_all only: free_def held_def h)
    moreover have "threads S' u = threads S u" if "held r u S" for u
      using that discard(1,2) by (cases "u = t") (simp_all add: held_def)
    moreover have ok: "pc_ok pc ph n \<Longrightarrow> ph \<noteq> Some PhaseResponding \<Longrightarrow> pc_ok pc None n" for pc ph n
      by (cases pc) auto
    moreover have "rd S' = rd S" "seen S' = seen S" "answered S' = answered S" using discard(1) by simp_all
    ultimately show ?thesis
      using assms(2) unfolding request_inv_def by (metis (no_types, lifting))
  next
    case False
    then show ?thesis
      using discard by (intro inv_frame [OF assms(2)])
        (auto simp: phase_def discard_section_def um.lookups split: if_splits option.splits)
  qed
next
  case (discard_wake t b)
  then show ?thesis by (intro inv_frame [OF assms(2)]) (auto simp: phase_defs split: if_splits)
qed

lemma request_reach: "sys_reach True m S \<Longrightarrow> request_inv r S"
proof (induction rule: sys_reach.induct)
  case init
  show ?case by (simp add: request_inv_def init_sys_def free_def phase_def new_server_def)
next
  case (step S S')
  then show ?case by (blast intro: request_step)
qed

section \<open>Properties\<close>

text \<open>
  C16. Run one after another, in any order and whatever Fast DDS answers, the operations of a
  server keep its capacity gate exact: at most \<^verbatim>\<open>max_pending_requests\<close> requests are pending, no
  reservation and no response claim outlives its operation, and the request reader takes part in
  WaitSets exactly while there is room for another request.
\<close>

theorem capacity_gate_exact:
  assumes "0 < m" "s = fold (server_exec us ug) ops (new_server m)"
  shows "length (pending s) \<le> m \<and> reservations s = 0
    \<and> (blocking_enabled s \<longleftrightarrow> length (pending s) < m)
    \<and> (\<forall>r p. map_of (pending s) r = Some p \<longrightarrow> pr_phase p = PhasePending)"
proof -
  have "server_ok (fold (server_exec us ug) ops s0) \<and> idle_phases (fold (server_exec us ug) ops s0)
      \<and> max_pending_requests (fold (server_exec us ug) ops s0) = max_pending_requests s0"
    if "server_ok s0" "idle_phases s0" for s0
    using that by (induction ops arbitrary: s0) (simp_all add: server_exec_ok)
  from this [of "new_server m"] new_server_ok [OF assms(1)] assms(2)
  show ?thesis by (simp add: server_ok_def idle_phases_def new_server_def)
qed

definition guid_1 :: Guid where
  "guid_1 = \<lparr>guidPrefix = replicate 12 7, entityId = [0, 0, 1, 4]\<rparr>"

definition sample_1 :: RequestSample where
  "sample_1 = \<lparr>valid_data = True,
     sample_identity = \<lparr>writer_guid = guid_1, sample_sequence = \<lparr>seq_high = 0, seq_low = 5\<rparr>\<rparr>,
     related_writer = guid_1\<rparr>"

definition seq_unknown_1 :: SequenceNumber where "seq_unknown_1 = \<lparr>seq_high = - 1, seq_low = 0\<rparr>"
definition guid_unknown_1 :: Guid where "guid_unknown_1 = \<lparr>guidPrefix = replicate 12 0, entityId = [0, 0, 0, 0]\<rparr>"

definition request_1 :: RequestId where
  "request_1 = \<lparr>client_gid = replicate 12 7 @ [0, 0, 1, 4], sequence_number = 5\<rparr>"

lemma read_sample_1:
  "read_request seq_unknown_1 guid_unknown_1 False False (Inr ()) (Inr ()) 1 [(RETCODE_OK, sample_1)] (new_server 1)
   = (Inr True, Some request_1, \<lparr>max_pending_requests = 1, reservations = 0,
        pending = [(request_1, \<lparr>pr_identity = sample_identity sample_1, pr_phase = PhasePending\<rparr>)],
        blocking_enabled = False, has_scratch = True\<rparr>)"
  by (simp add: read_request_def new_server_def server_defs request_addressing_def to_request_id_def
      sample_1_def guid_1_def guid_unknown_1_def seq_unknown_1_def request_1_def from_sequence_def
      to_gid_def um_emplace_def)

theorem capacity_gate_exact_witness:
  "\<not> blocking_enabled (server_exec seq_unknown_1 guid_unknown_1
      (OpRead False False (Inr ()) (Inr ()) 1 [(RETCODE_OK, sample_1)]) (new_server 1))
   \<and> blocking_enabled (server_exec seq_unknown_1 guid_unknown_1 (OpDiscard False request_1)
       (server_exec seq_unknown_1 guid_unknown_1
         (OpRead False False (Inr ()) (Inr ()) 1 [(RETCODE_OK, sample_1)]) (new_server 1)))"
proof -
  let ?r = "OpRead False False (Inr ()) (Inr ()) 1 [(RETCODE_OK, sample_1)]"
  let ?x = "server_exec seq_unknown_1 guid_unknown_1"
  have 1: "pending (?x ?r (new_server 1)) \<noteq> []"
    using read_sample_1 by simp
  have 2: "pending (?x (OpDiscard False request_1) (?x ?r (new_server 1))) = []"
    using read_sample_1 by (simp add: discard_request_def discard_section_def um_erase_def)
  show ?thesis
    using capacity_gate_exact [of 1 "?x ?r (new_server 1)" seq_unknown_1 guid_unknown_1 "[?r]"]
      capacity_gate_exact [of 1 "?x (OpDiscard False request_1) (?x ?r (new_server 1))"
        seq_unknown_1 guid_unknown_1 "[?r, OpDiscard False request_1]"] 1 2 by simp
qed

text \<open>
  Under every interleaving of the reader with any number of answering and discarding
  threads, pending requests and reservations together never exceed the configured capacity, at
  most one slot is reserved, and it is reserved only while the reader is between its reservation
  and its insertion or release.
\<close>

theorem capacity_never_exceeded:
  assumes "sys_reach excl m S"
  shows "length (pending (srv S)) + reservations (srv S) \<le> m \<and> reservations (srv S) \<le> 1
    \<and> (reservations (srv S) = 1 \<longleftrightarrow> (\<exists>b. rd S = RReserved b \<or> rd S = RTaking b))"
  using capacity_reach [OF assms] by (cases "rd S") (auto simp: capacity_inv_def)

theorem capacity_never_exceeded_witness:
  "\<exists>S. sys_reach True 1 S \<and> rd S = RReserved True \<and> length (pending (srv S)) + reservations (srv S) \<le> 1"
proof -
  let ?s = "(new_server 1)\<lparr>reservations := 1\<rparr>"
  have "sys_reach True 1 ((init_sys 1)\<lparr>srv := ?s, rd := RReserved True\<rparr>)"
    by (rule sys_reach.step [OF sys_reach.init reader_reserve])
      (simp_all add: init_sys_def reserve_request_slot_def new_server_def)
  from this capacity_never_exceeded [OF this] show ?thesis
    by (intro exI [of _ "(init_sys 1)\<lparr>srv := ?s, rd := RReserved True\<rparr>"]) simp
qed

text \<open>
  C18. A request is answered at most once when one thread at a time answers it: under every
  interleaving no request has two responses, a thread that is writing holds the only claim on
  its request, which is then pending and marked as being answered, and once answered and
  released a request is pending no more.
\<close>

theorem at_most_one_response:
  assumes "sys_reach True m S"
  shows "answered S r \<le> 1
    \<and> (\<forall>t. threads S t = TWriting r \<longrightarrow>
         (\<exists>p. map_of (pending (srv S)) r = Some p \<and> pr_phase p = PhaseResponding) \<and> answered S r = 0
         \<and> (\<forall>u. handles (threads S u) = Some r \<longrightarrow> u = t))
    \<and> (answered S r = 1 \<longrightarrow> (\<forall>t. threads S t \<noteq> TWritten r) \<longrightarrow> map_of (pending (srv S)) r = None)"
proof -
  have inv: "request_inv r S" by (rule request_reach [OF assms])
  note h = inv_holder [OF inv]
  have n: "pc_ok pc ph n \<Longrightarrow> n \<le> 1 \<and> (n = 1 \<longrightarrow> ph = None \<or> (\<exists>q. pc = TWritten q))" for pc ph n
    by (cases pc) auto
  have "answered S r \<le> 1 \<and> (answered S r = 1 \<longrightarrow> (\<forall>t. threads S t \<noteq> TWritten r) \<longrightarrow> phase r S = None)"
  proof (cases "free r S")
    case True
    then show ?thesis using inv n [of TIdle "phase r S" "answered S r"]
      by (auto simp: request_inv_def free_def held_def)
  next
    case False
    then obtain t where t: "handles (threads S t) = Some r" by (auto simp: free_def)
    show ?thesis using n [OF h(4) [OF t]] t by (cases "threads S t") auto
  qed
  moreover have "(\<exists>p. map_of (pending (srv S)) r = Some p \<and> pr_phase p = PhaseResponding) \<and> answered S r = 0
      \<and> (\<forall>u. handles (threads S u) = Some r \<longrightarrow> u = t)" if "threads S t = TWriting r" for t
    using h(1,4) [of t] that by (auto simp: held_def phase_def)
  ultimately show ?thesis by (auto simp: phase_def)
qed

definition id_1 :: SampleIdentity where
  "id_1 = \<lparr>writer_guid = guid_1, sample_sequence = \<lparr>seq_high = 0, seq_low = 5\<rparr>\<rparr>"

text \<open>Explicit global states, to run the step relation on.\<close>

definition server_of :: "nat \<Rightarrow> nat \<Rightarrow> PendingPhase option \<Rightarrow> bool \<Rightarrow> ServerState" where
  "server_of m n ph b = \<lparr>max_pending_requests = m, reservations = n,
     pending = (case ph of None \<Rightarrow> [] | Some p \<Rightarrow> [(request_1, \<lparr>pr_identity = id_1, pr_phase = p\<rparr>)]),
     blocking_enabled = b, has_scratch = False\<rparr>"

definition sys_of :: "ServerState \<Rightarrow> ReaderPc \<Rightarrow> ThreadPc \<Rightarrow> ThreadPc \<Rightarrow> nat \<Rightarrow> Sys" where
  "sys_of s r t0 t1 n = \<lparr>srv = s, rd = r,
     threads = (\<lambda>t. if t = 0 then t0 else if t = 1 then t1 else TIdle), seen = {request_1},
     answered = (\<lambda>r. if r = request_1 then n else 0)\<rparr>"

lemma sys_ofI:
  "S' = \<lparr>srv = s, rd = r, threads = th, seen = {request_1}, answered = an\<rparr> \<Longrightarrow>
    th = (\<lambda>t. if t = 0 then t0 else if t = 1 then t1 else TIdle) \<Longrightarrow>
    an = (\<lambda>r. if r = request_1 then n else 0) \<Longrightarrow> S' = sys_of s r t0 t1 n"
  by (simp add: sys_of_def)

lemmas run_defs = sys_of_def server_of_def server_defs enable_if_def Let_def um_erase_def um_modify_def

lemma threads_upd:
  "(\<lambda>t. if t = 0 then t0 else if t = 1 then t1 else TIdle)(0 := x) =
     (\<lambda>t. if t = 0 then x else if t = (1::nat) then t1 else TIdle)"
  "(\<lambda>t. if t = 0 then t0 else if t = 1 then t1 else TIdle)(1 := x) =
     (\<lambda>t. if t = 0 then t0 else if t = (1::nat) then x else TIdle)"
  by (auto simp: fun_upd_def)

lemma answered_upd:
  "(\<lambda>r. if r = request_1 then n else 0)(request_1 := n') = (\<lambda>r. if r = request_1 then n' else (0::nat))"
  "(\<lambda>r. 0)(request_1 := n') = (\<lambda>r. if r = request_1 then n' else (0::nat))"
  by (auto simp: fun_upd_def)

text \<open>The state in which one request has been read and nothing is going on.\<close>

lemma reach_one_pending:
  assumes "1 \<le> m"
  shows "sys_reach excl m (sys_of (server_of m 0 (Some PhasePending) (m \<noteq> 1)) RIdle TIdle TIdle 0)"
proof -
  let ?s1 = "server_of m 1 None True"
  let ?s2 = "server_of m 1 None (m \<noteq> 1)"
  let ?s3 = "server_of m 0 (Some PhasePending) (m \<noteq> 1)"
  let ?S1 = "(init_sys m)\<lparr>srv := ?s1, rd := RReserved (m = 1)\<rparr>"
  let ?S2 = "?S1\<lparr>srv := ?s2, rd := RTaking (m = 1)\<rparr>"
  let ?S3 = "?S2\<lparr>srv := ?s3, rd := RCommit request_1, seen := insert request_1 (seen ?S2)\<rparr>"
  have "sys_reach excl m ?S1"
    by (rule sys_reach.step [OF sys_reach.init reader_reserve])
      (use assms in \<open>auto simp: init_sys_def new_server_def run_defs\<close>)
  moreover have "sys_step excl ?S1 ?S2"
    using reader_disable [of ?S1 "m = 1" excl] by (cases "m = 1") (simp_all add: run_defs)
  moreover have "sys_step excl ?S2 ?S3"
    by (rule reader_insert [where i = id_1 and full = "m = 1"])
      (simp_all add: init_sys_def run_defs um_emplace_def)
  moreover have "sys_step excl ?S3 (?S3\<lparr>rd := RIdle\<rparr>)"
    by (rule reader_return [where r = request_1]) simp
  ultimately have "sys_reach excl m (?S3\<lparr>rd := RIdle\<rparr>)" by (meson sys_reach.step)
  moreover have "?S3\<lparr>rd := RIdle\<rparr> = sys_of ?s3 RIdle TIdle TIdle 0"
    by (simp add: init_sys_def sys_of_def fun_eq_iff)
  ultimately show ?thesis by simp
qed

text \<open>
  The wake of a full server can be lost: the flag that takes the reader out of WaitSets is
  written after the lock is released, so a discard between the reservation of the last slot and
  that write leaves a server with no operation in progress and room for requests whose reader is
  out of WaitSets for good.
\<close>

theorem capacity_wake_lost:
  "\<exists>S. sys_reach True 2 S \<and> rd S = RIdle \<and> (\<forall>t. threads S t = TIdle)
    \<and> pending (srv S) = [] \<and> reservations (srv S) = 0 \<and> \<not> blocking_enabled (srv S)"
proof -
  let ?S0 = "sys_of (server_of 2 0 (Some PhasePending) True) RIdle TIdle TIdle 0"
  let ?S1 = "sys_of (server_of 2 1 (Some PhasePending) True) (RReserved True) TIdle TIdle 0"
  let ?S2 = "sys_of (server_of 2 1 None True) (RReserved True) (TDiscarded True) TIdle 0"
  let ?S3 = "sys_of (server_of 2 1 None True) (RReserved True) TIdle TIdle 0"
  let ?S4 = "sys_of (server_of 2 1 None False) (RTaking True) TIdle TIdle 0"
  let ?S5 = "sys_of (server_of 2 0 None False) (RWake False) TIdle TIdle 0"
  let ?S6 = "sys_of (server_of 2 0 None False) RIdle TIdle TIdle 0"
  have "sys_reach True 2 ?S0" using reach_one_pending [of 2 True] by simp
  moreover have "sys_step True ?S0 ?S1"
    using reader_reserve [of ?S0 True "server_of 2 1 (Some PhasePending) True" True]
    by (simp add: run_defs)
  moreover have "sys_step True ?S1 ?S2"
    using discard [of ?S1 0 request_1 True "server_of 2 1 None True" True]
    by (simp add: run_defs threads_upd del: One_nat_def)
  moreover have "sys_step True ?S2 ?S3"
    using discard_wake [of ?S2 0 True True] by (simp add: run_defs threads_upd del: One_nat_def)
  moreover have "sys_step True ?S3 ?S4" using reader_disable [of ?S3 True True] by (simp add: run_defs)
  moreover have "sys_step True ?S4 ?S5"
    using reader_release [of ?S4 True False "server_of 2 0 None False" True] by (simp add: run_defs)
  moreover have "sys_step True ?S5 ?S6" using reader_wake [of ?S5 False True] by (simp add: run_defs)
  ultimately have "sys_reach True 2 ?S6" by (meson sys_reach.step)
  then show ?thesis by (intro exI [of _ ?S6]) (simp add: run_defs)
qed

text \<open>
  Without that discipline a request can be answered twice: after a failed write the destructor
  that restores the claim runs in a second critical section, so it can undo the claim another
  thread has taken meanwhile, and a third attempt is then let in while that one is writing.
\<close>

theorem response_can_double:
  "\<exists>S. sys_reach False 2 S \<and> answered S request_1 = 2"
proof -
  let ?S0 = "sys_of (server_of 2 0 (Some PhasePending) True) RIdle TIdle TIdle 0"
  let ?S1 = "sys_of (server_of 2 0 (Some PhaseResponding) True) RIdle (TWriting request_1) TIdle 0"
  let ?S2 = "sys_of (server_of 2 0 (Some PhasePending) True) RIdle (TRestore request_1) TIdle 0"
  let ?S3 = "sys_of (server_of 2 0 (Some PhaseResponding) True) RIdle (TRestore request_1) (TWriting request_1) 0"
  let ?S4 = "sys_of (server_of 2 0 (Some PhasePending) True) RIdle TIdle (TWriting request_1) 0"
  let ?S5 = "sys_of (server_of 2 0 (Some PhaseResponding) True) RIdle (TWriting request_1) (TWriting request_1) 0"
  let ?S6 = "sys_of (server_of 2 0 (Some PhaseResponding) True) RIdle (TWritten request_1) (TWriting request_1) 1"
  let ?S7 = "sys_of (server_of 2 0 (Some PhaseResponding) True) RIdle (TWritten request_1) (TWritten request_1) 2"
  have cl: "claim_response False request_1 (server_of 2 0 (Some PhasePending) True) =
      (Inr id_1, server_of 2 0 (Some PhaseResponding) True)"
    by (simp add: run_defs)
  have "sys_reach False 2 ?S0" using reach_one_pending [of 2 False] by simp
  moreover have "sys_step False ?S0 ?S1"
    using claim [of ?S0 0 request_1 id_1 "server_of 2 0 (Some PhaseResponding) True" False] cl
    by (simp add: sys_of_def threads_upd answered_upd del: One_nat_def)
  moreover have "sys_step False ?S1 ?S2"
    using fail_section [of ?S1 0 request_1 False] by (simp add: run_defs threads_upd del: One_nat_def)
  moreover have "sys_step False ?S2 ?S3"
    using claim [of ?S2 1 request_1 id_1 "server_of 2 0 (Some PhaseResponding) True" False] cl
    by (simp add: sys_of_def threads_upd del: One_nat_def)
  moreover have "sys_step False ?S3 ?S4"
    using destructor [of ?S3 0 request_1 False] by (simp add: run_defs threads_upd del: One_nat_def)
  moreover have "sys_step False ?S4 ?S5"
    using claim [of ?S4 0 request_1 id_1 "server_of 2 0 (Some PhaseResponding) True" False] cl
    by (simp add: sys_of_def threads_upd answered_upd del: One_nat_def)
  moreover have "sys_step False ?S5 ?S6"
    using dds_write [of ?S5 0 request_1 False] by (simp add: sys_of_def threads_upd answered_upd del: One_nat_def)
  moreover have "sys_step False ?S6 ?S7"
    using dds_write [of ?S6 1 request_1 False] by (simp add: sys_of_def threads_upd answered_upd del: One_nat_def)
  ultimately have "sys_reach False 2 ?S7" by (meson sys_reach.step)
  then show ?thesis by (intro exI [of _ ?S7]) (simp add: sys_of_def)
qed

theorem at_most_one_response_witness:
  "\<exists>S t. sys_reach True 2 S \<and> threads S t = TWriting request_1 \<and> answered S request_1 = 0"
proof -
  let ?S0 = "sys_of (server_of 2 0 (Some PhasePending) True) RIdle TIdle TIdle 0"
  let ?S1 = "sys_of (server_of 2 0 (Some PhaseResponding) True) RIdle (TWriting request_1) TIdle 0"
  have "sys_reach True 2 ?S0" using reach_one_pending [of 2 True] by simp
  moreover have "sys_step True ?S0 ?S1"
    using claim [of ?S0 0 request_1 id_1 "server_of 2 0 (Some PhaseResponding) True" True]
    by (simp add: run_defs threads_upd del: One_nat_def)
  ultimately have r: "sys_reach True 2 ?S1" by (rule sys_reach.step)
  have "threads ?S1 0 = TWriting request_1" by (simp add: sys_of_def)
  with r at_most_one_response [OF r, of request_1] show ?thesis by blast
qed

text \<open>
  Reading a request: whatever the reader yields, a read that reports a request makes exactly
  one new request pending, the reported one, which was not pending before; every other outcome
  (no data, invalid samples, duplicates, a failed take or commit, a full server) leaves the
  pending requests as they were, and in every case the capacity gate stays exact.
\<close>

theorem read_request_correct:
  assumes "server_ok s" "read_request us ug null shut create commit n takes s = (res, rid, s')"
  shows "server_ok s' \<and>
    (res = Inr True \<and> (\<exists>r i. rid = Some r \<and> map_of (pending s) r = None \<and>
        map_of (pending s') = (map_of (pending s))(r \<mapsto> \<lparr>pr_identity = i, pr_phase = PhasePending\<rparr>))
     \<or> res \<noteq> Inr True \<and> rid = None \<and> map_of (pending s') = map_of (pending s))"
  using read_request_post [OF assms(1), of us ug null shut create commit n takes] assms(2)
  by (auto simp: read_post_def split: option.splits)

theorem read_request_correct_witness:
  "\<exists>s' i. read_request seq_unknown_1 guid_unknown_1 False False (Inr ()) (Inr ()) 1 [(RETCODE_OK, sample_1)]
      (new_server 1) = (Inr True, Some request_1, s')
    \<and> map_of (pending s') = [request_1 \<mapsto> \<lparr>pr_identity = i, pr_phase = PhasePending\<rparr>]"
  using read_request_correct [OF _ read_sample_1] new_server_ok [of 1] read_sample_1
  by (auto simp: new_server_def)

text \<open>
  Answering a request: a response that succeeds removes its request and nothing else; one
  that fails for any reason (null pointer, shutdown, no such request, a response in progress, no
  matching reader, a failed write) leaves every pending request as it was, the claim given back.
\<close>

theorem write_response_correct:
  assumes "idle_phases s" "write_response ug null shut env r s = (res, s')"
  shows "res = Inr () \<and> map_of (pending s) r \<noteq> None \<and> map_of (pending s') = (map_of (pending s))(r := None)
    \<or> res \<noteq> Inr () \<and> map_of (pending s') = map_of (pending s)"
proof (cases null)
  case False
  show ?thesis
  proof (cases rule: claim_cases [of shut r s])
    case (refused e)
    then show ?thesis using assms(2) False by (auto simp: write_response_def)
  next
    case (claimed p)
    obtain s1 where c: "claim_response shut r s = (Inr (pr_identity p), s1)" using claimed(3) by blast
    then have look: "map_of (pending s1) r' =
        (if r' = r then Some (p\<lparr>pr_phase := PhaseResponding\<rparr>) else map_of (pending s) r')" for r'
      using claimed by (auto simp: um.lookup_modify)
    have step: "(res, s') = write_claimed_response ug null env r (pr_identity p) s1"
      using c False assms(2) by (simp add: write_response_def)
    have "p\<lparr>pr_phase := PhasePending\<rparr> = p" using claimed(2) by (cases p) simp
    then show ?thesis
      using write_body_cases [of ug null env r "pr_identity p" s1] step claimed(1)
      by (auto simp: write_claimed_response_def look lookup_restore release_pending_request_def
          um.lookup_erase fun_eq_iff split: if_splits)
  qed
qed (use assms in \<open>auto simp: write_response_def\<close>)

definition env_1 :: "bool \<Rightarrow> WriteEnv" where
  "env_1 ok = \<lparr>we_shutdown = False, we_deadline = Inr 100, we_wait = TargetReady,
     we_shutdown_commit = False, we_check = TargetReady, we_wait_again = TargetReady, we_write = ok\<rparr>"

theorem write_response_correct_witness:
  "\<exists>s'. write_response guid_unknown_1 False False (env_1 True) request_1
      (server_of 2 0 (Some PhasePending) True) = (Inr (), s') \<and> map_of (pending s') request_1 = None"
proof -
  let ?s = "server_of 2 0 (Some PhasePending) True"
  have i: "idle_phases ?s" by (simp add: idle_phases_def server_of_def)
  obtain res s' where w: "write_response guid_unknown_1 False False (env_1 True) request_1 ?s = (res, s')"
    by fastforce
  then have "res = Inr ()"
    by (simp add: write_response_def claim_response_def server_of_def write_claimed_response_def
        write_body_def env_1_def Let_def case_prod_beta split: if_splits)
  with write_response_correct [OF i w] w show ?thesis by auto
qed

end
