(* ===== verification/Discovery.thy ===== *)
theory Discovery
  imports Identity
begin

text \<open>
  The discovered graph of \<^verbatim>\<open>impl/discovery_graph.hpp\<close>: participants, endpoints, local nodes with
  their reference counts, remote nodes, and the revision that tells observers when to look again.
  The type \<open>'q\<close> stands for a QoS value, which the graph stores and returns and never inspects.

  An endpoint record of the source points to the record of its participant. There is one such
  record per prefix and none is ever removed, so the model finds it by the prefix.

  A mutation returns the graph and the notifications it issues: each subscriber with the revision
  it is given.
\<close>

section \<open>Records\<close>

datatype DiscoveryChange = Added | Removed
datatype DiscoveryHealth = Healthy | Unavailable
datatype EndpointKind = Reader | Writer
datatype EndpointState = EndpointUnknown | EndpointActive | EndpointRemoved | EndpointUnavailable
datatype ServiceState = ServiceUnknown | ServiceComplete | ServiceIncomplete | ServiceUnavailable
datatype GraphMutation = Changed | Unchanged | Invalid

record ParticipantRecord =
  p_prefix :: Bytes
  p_lifecycle :: DiscoveryChange
  p_generation :: u64

record 'q EndpointRecord =
  e_guid :: Guid
  e_kind :: EndpointKind
  e_topic :: string
  e_type :: string
  e_qos :: 'q
  e_lifecycle :: DiscoveryChange

record LocalNodeRecord =
  ln_id :: u64
  ln_name :: string
  ln_namespace :: string
  references :: nat

record 'q LocalEndpointRecord =
  le_guid :: Guid
  le_kind :: EndpointKind
  le_topic :: string
  le_type :: string
  le_qos :: 'q
  le_node_id :: u64

record RemoteNodeRecord =
  rn_namespace :: string
  rn_name :: string
  reader_gids :: "Gid list"
  writer_gids :: "Gid list"

record RemoteParticipantNodes =
  rp_prefix :: Bytes
  rp_nodes :: "RemoteNodeRecord list"

record 'q DiscoveryGraph =
  health :: DiscoveryHealth
  revision :: u64
  next_subscription :: u64
  next_local_node_id :: u64
  local_nodes :: "LocalNodeRecord list"
  local_endpoints :: "'q LocalEndpointRecord list"
  remote_nodes :: "RemoteParticipantNodes list"
  participants :: "ParticipantRecord list"
  endpoints :: "'q EndpointRecord list"
  subscriptions :: "u64 list"

record 'q GraphView =
  gv_revision :: u64
  gv_participants :: "ParticipantRecord list"
  gv_endpoints :: "'q EndpointRecord list"
  gv_local_nodes :: "LocalNodeRecord list"
  gv_local_endpoints :: "'q LocalEndpointRecord list"
  gv_remote_nodes :: "RemoteParticipantNodes list"

definition new_graph :: "'q DiscoveryGraph" where
  "new_graph = \<lparr>health = Healthy, revision = 0, next_subscription = 0, next_local_node_id = 0,
     local_nodes = [], local_endpoints = [], remote_nodes = [], participants = [], endpoints = [],
     subscriptions = []\<rparr>"

section \<open>Mutations\<close>

type_synonym notices = "(u64 \<times> u64) list"

text \<open>What \<^verbatim>\<open>notify\<close> issues: every subscriber gets the current revision.\<close>

definition notify :: "'q DiscoveryGraph \<Rightarrow> notices" where
  "notify g = map (\<lambda>i. (i, revision g)) (subscriptions g)"

definition mutate ::
  "('q DiscoveryGraph \<Rightarrow> GraphMutation \<times> 'q DiscoveryGraph) \<Rightarrow> 'q DiscoveryGraph \<Rightarrow> notices \<times> 'q DiscoveryGraph" where
  "mutate change g =
     (if health g \<noteq> Healthy then ([], g)
      else case change g of
        (Invalid, g1) \<Rightarrow> let g2 = g1\<lparr>health := Unavailable\<rparr> in (notify g2, g2)
      | (Changed, g1) \<Rightarrow>
          let g2 = (if revision g1 = u64_max then g1\<lparr>health := Unavailable\<rparr>
                    else g1\<lparr>revision := revision g1 + 1\<rparr>)
          in (notify g2, g2)
      | (Unchanged, g1) \<Rightarrow> ([], g1))"

definition unavailable :: "'q DiscoveryGraph \<Rightarrow> notices \<times> 'q DiscoveryGraph" where
  "unavailable g = (let g1 = g\<lparr>health := Unavailable\<rparr> in (notify g1, g1))"

definition find_participant :: "Bytes \<Rightarrow> 'q DiscoveryGraph \<Rightarrow> ParticipantRecord option" where
  "find_participant prefix g = find (\<lambda>p. p_prefix p = prefix) (participants g)"

definition find_endpoint :: "Guid \<Rightarrow> 'q DiscoveryGraph \<Rightarrow> 'q EndpointRecord option" where
  "find_endpoint guid g = find (\<lambda>e. e_guid e = guid) (endpoints g)"

definition participant_change ::
  "Bytes \<Rightarrow> DiscoveryChange \<Rightarrow> 'q DiscoveryGraph \<Rightarrow> GraphMutation \<times> 'q DiscoveryGraph" where
  "participant_change prefix change g =
     (case find_participant prefix g of
        None \<Rightarrow> (Changed, g\<lparr>participants := participants g @
                  [\<lparr>p_prefix = prefix, p_lifecycle = change, p_generation = 0\<rparr>]\<rparr>)
      | Some p \<Rightarrow>
          if change = Added \<and> p_lifecycle p = Removed then (Invalid, g)
          else if change = Removed \<and> p_lifecycle p \<noteq> Removed then
            (if p_generation p = u64_max then (Invalid, g)
             else (Changed, g\<lparr>participants := upd_first (\<lambda>p. p_prefix p = prefix)
                    (\<lambda>p. p\<lparr>p_lifecycle := change, p_generation := p_generation p + 1\<rparr>) (participants g)\<rparr>))
          else (Unchanged, g))"

definition apply_participant ::
  "Bytes \<Rightarrow> DiscoveryChange \<Rightarrow> 'q DiscoveryGraph \<Rightarrow> notices \<times> 'q DiscoveryGraph" where
  "apply_participant prefix change g = mutate (participant_change prefix change) g"

text \<open>The record of a participant, made on demand.\<close>

definition participant_for :: "Bytes \<Rightarrow> 'q DiscoveryGraph \<Rightarrow> ParticipantRecord \<times> 'q DiscoveryGraph" where
  "participant_for prefix g =
     (case find_participant prefix g of
        Some p \<Rightarrow> (p, g)
      | None \<Rightarrow> let p = \<lparr>p_prefix = prefix, p_lifecycle = Added, p_generation = 0\<rparr>
                in (p, g\<lparr>participants := participants g @ [p]\<rparr>))"

definition endpoint_change ::
  "Guid \<Rightarrow> EndpointKind \<Rightarrow> string \<Rightarrow> string \<Rightarrow> DiscoveryChange \<Rightarrow> 'q \<Rightarrow> 'q DiscoveryGraph
    \<Rightarrow> GraphMutation \<times> 'q DiscoveryGraph" where
  "endpoint_change guid kind topic type change qos g0 =
     (let (participant, g) = participant_for (guidPrefix guid) g0 in
      if change = Added \<and> p_lifecycle participant = Removed then (Invalid, g)
      else case find_endpoint guid g of
        None \<Rightarrow> (Changed, g\<lparr>endpoints := endpoints g @
           [\<lparr>e_guid = guid, e_kind = kind, e_topic = topic, e_type = type, e_qos = qos,
             e_lifecycle = change\<rparr>]\<rparr>)
      | Some e \<Rightarrow>
          if change = Added \<and> e_lifecycle e = Removed then (Invalid, g)
          else if e_kind e = kind \<and> e_topic e = topic \<and> e_type e = type \<and> e_lifecycle e = change
          then (Unchanged, g)
          else (Changed, g\<lparr>endpoints := upd_first (\<lambda>e. e_guid e = guid)
            (\<lambda>e. e\<lparr>e_kind := kind, e_topic := topic, e_type := type, e_qos := qos,
                   e_lifecycle := change\<rparr>) (endpoints g)\<rparr>))"

definition apply_endpoint ::
  "Guid \<Rightarrow> EndpointKind \<Rightarrow> string \<Rightarrow> string \<Rightarrow> DiscoveryChange \<Rightarrow> 'q \<Rightarrow> 'q DiscoveryGraph
    \<Rightarrow> notices \<times> 'q DiscoveryGraph" where
  "apply_endpoint guid kind topic type change qos g =
     mutate (endpoint_change guid kind topic type change qos) g"

definition local_node_change ::
  "string \<Rightarrow> string \<Rightarrow> 'q DiscoveryGraph \<Rightarrow> GraphMutation \<times> 'q DiscoveryGraph" where
  "local_node_change name ns g =
     (if next_local_node_id g = u64_max then (Invalid, g)
      else let candidate = next_local_node_id g + 1
           in (Changed, g\<lparr>next_local_node_id := candidate,
                local_nodes := local_nodes g @
                  [\<lparr>ln_id = candidate, ln_name = name, ln_namespace = ns, references = 1\<rparr>]\<rparr>))"

text \<open>The id of the new node; 0 when the graph admits no more.\<close>

definition add_local_node ::
  "string \<Rightarrow> string \<Rightarrow> 'q DiscoveryGraph \<Rightarrow> u64 \<times> notices \<times> 'q DiscoveryGraph" where
  "add_local_node name ns g =
     (let (ntc, g1) = mutate (local_node_change name ns) g
      in (if health g = Healthy \<and> next_local_node_id g \<noteq> u64_max then next_local_node_id g + 1 else 0, ntc, g1))"

text \<open>
  Drops one reference of a node, and the node with its last one.
  \<^verbatim>\<open>release_local_node\<close> and \<^verbatim>\<open>remove_local_endpoint\<close> both do this.
\<close>

definition drop_reference :: "u64 \<Rightarrow> LocalNodeRecord list \<Rightarrow> LocalNodeRecord list" where
  "drop_reference i ns =
     (let ns1 = upd_first (\<lambda>n. ln_id n = i) (\<lambda>n. n\<lparr>references := references n - 1\<rparr>) ns
      in case find (\<lambda>n. ln_id n = i) ns1 of
        None \<Rightarrow> ns1
      | Some n \<Rightarrow> if references n = 0 then del_first (\<lambda>n. ln_id n = i) ns1 else ns1)"

definition release_node_change :: "u64 \<Rightarrow> 'q DiscoveryGraph \<Rightarrow> GraphMutation \<times> 'q DiscoveryGraph" where
  "release_node_change i g =
     (case find (\<lambda>n. ln_id n = i) (local_nodes g) of
        None \<Rightarrow> (Unchanged, g)
      | Some n \<Rightarrow> (if references n - 1 = 0 then Changed else Unchanged,
                   g\<lparr>local_nodes := drop_reference i (local_nodes g)\<rparr>))"

definition release_local_node :: "u64 \<Rightarrow> 'q DiscoveryGraph \<Rightarrow> notices \<times> 'q DiscoveryGraph" where
  "release_local_node i g = (if i = 0 then ([], g) else mutate (release_node_change i) g)"

definition local_endpoint_change ::
  "Guid \<Rightarrow> EndpointKind \<Rightarrow> string \<Rightarrow> string \<Rightarrow> u64 \<Rightarrow> 'q \<Rightarrow> 'q DiscoveryGraph
    \<Rightarrow> GraphMutation \<times> 'q DiscoveryGraph" where
  "local_endpoint_change guid kind topic type node qos g =
     (case find (\<lambda>n. ln_id n = node) (local_nodes g) of
        None \<Rightarrow> (Invalid, g)
      | Some n \<Rightarrow>
          (case find (\<lambda>e. le_guid e = guid) (local_endpoints g) of
             Some e \<Rightarrow>
               if le_kind e = kind \<and> le_topic e = topic \<and> le_type e = type \<and> le_node_id e = node
               then (Unchanged, g)
               else (Changed, g\<lparr>local_endpoints := upd_first (\<lambda>e. le_guid e = guid)
                 (\<lambda>e. e\<lparr>le_kind := kind, le_topic := topic, le_type := type, le_qos := qos,
                        le_node_id := node\<rparr>) (local_endpoints g)\<rparr>)
           | None \<Rightarrow>
               (Changed, g\<lparr>local_nodes := upd_first (\<lambda>n. ln_id n = node)
                    (\<lambda>n. n\<lparr>references := references n + 1\<rparr>) (local_nodes g),
                  local_endpoints := local_endpoints g @
                    [\<lparr>le_guid = guid, le_kind = kind, le_topic = topic, le_type = type, le_qos = qos,
                      le_node_id = node\<rparr>]\<rparr>)))"

definition add_local_endpoint ::
  "Guid \<Rightarrow> EndpointKind \<Rightarrow> string \<Rightarrow> string \<Rightarrow> u64 \<Rightarrow> 'q \<Rightarrow> 'q DiscoveryGraph
    \<Rightarrow> notices \<times> 'q DiscoveryGraph" where
  "add_local_endpoint guid kind topic type node qos g =
     (if node = 0 then ([], g) else mutate (local_endpoint_change guid kind topic type node qos) g)"

definition remove_endpoint_change :: "Guid \<Rightarrow> 'q DiscoveryGraph \<Rightarrow> GraphMutation \<times> 'q DiscoveryGraph" where
  "remove_endpoint_change guid g =
     (case find (\<lambda>e. le_guid e = guid) (local_endpoints g) of
        None \<Rightarrow> (Unchanged, g)
      | Some e \<Rightarrow> (Changed, g\<lparr>local_endpoints := del_first (\<lambda>e. le_guid e = guid) (local_endpoints g),
                             local_nodes := drop_reference (le_node_id e) (local_nodes g)\<rparr>))"

definition remove_local_endpoint :: "Guid \<Rightarrow> 'q DiscoveryGraph \<Rightarrow> notices \<times> 'q DiscoveryGraph" where
  "remove_local_endpoint guid g = mutate (remove_endpoint_change guid) g"

fun remote_nodes_equal :: "RemoteNodeRecord list \<Rightarrow> RemoteNodeRecord list \<Rightarrow> bool" where
  "remote_nodes_equal [] [] = True"
| "remote_nodes_equal (l # ls) (r # rs) =
     (if rn_namespace l \<noteq> rn_namespace r \<or> rn_name l \<noteq> rn_name r \<or> reader_gids l \<noteq> reader_gids r
        \<or> writer_gids l \<noteq> writer_gids r then False else remote_nodes_equal ls rs)"
| "remote_nodes_equal _ _ = False"

definition remote_change ::
  "Bytes \<Rightarrow> RemoteNodeRecord list \<Rightarrow> 'q DiscoveryGraph \<Rightarrow> GraphMutation \<times> 'q DiscoveryGraph" where
  "remote_change prefix nodes g =
     (case find (\<lambda>p. rp_prefix p = prefix) (remote_nodes g) of
        None \<Rightarrow>
          if nodes = [] then (Unchanged, g)
          else (Changed, g\<lparr>remote_nodes := remote_nodes g @ [\<lparr>rp_prefix = prefix, rp_nodes = nodes\<rparr>]\<rparr>)
      | Some p \<Rightarrow>
          if remote_nodes_equal (rp_nodes p) nodes then (Unchanged, g)
          else if nodes = []
          then (Changed, g\<lparr>remote_nodes := del_first (\<lambda>p. rp_prefix p = prefix) (remote_nodes g)\<rparr>)
          else (Changed, g\<lparr>remote_nodes := upd_first (\<lambda>p. rp_prefix p = prefix)
                 (\<lambda>p. p\<lparr>rp_nodes := nodes\<rparr>) (remote_nodes g)\<rparr>))"

definition apply_remote_nodes ::
  "Bytes \<Rightarrow> RemoteNodeRecord list \<Rightarrow> 'q DiscoveryGraph \<Rightarrow> notices \<times> 'q DiscoveryGraph" where
  "apply_remote_nodes prefix nodes g = mutate (remote_change prefix nodes) g"

text \<open>The id 0 is the empty subscription.\<close>

definition subscribe :: "'q DiscoveryGraph \<Rightarrow> u64 \<times> 'q DiscoveryGraph" where
  "subscribe g =
     (if next_subscription g = u64_max then (0, g\<lparr>health := Unavailable\<rparr>)
      else let i = next_subscription g + 1
           in (i, g\<lparr>next_subscription := i, subscriptions := subscriptions g @ [i]\<rparr>))"

definition unsubscribe :: "u64 \<Rightarrow> 'q DiscoveryGraph \<Rightarrow> 'q DiscoveryGraph" where
  "unsubscribe i g = g\<lparr>subscriptions := del_first (\<lambda>j. j = i) (subscriptions g)\<rparr>"

section \<open>Queries\<close>

definition endpoint_state :: "Guid \<Rightarrow> 'q DiscoveryGraph \<Rightarrow> EndpointState" where
  "endpoint_state guid g =
     (if health g \<noteq> Healthy then EndpointUnavailable
      else case find_endpoint guid g of
        None \<Rightarrow> EndpointUnknown
      | Some e \<Rightarrow>
          if e_lifecycle e = Removed \<or>
             (\<exists>p. find_participant (guidPrefix (e_guid e)) g = Some p \<and> p_lifecycle p = Removed)
          then EndpointRemoved else EndpointActive)"

definition participant_gone :: "Bytes \<Rightarrow> 'q DiscoveryGraph \<Rightarrow> bool" where
  "participant_gone prefix g \<longleftrightarrow>
     (case find_participant prefix g of None \<Rightarrow> True | Some p \<Rightarrow> p_lifecycle p = Removed)"

text \<open>The loop over the endpoints: is anything relevant, the request readers, the response writers.\<close>

fun service_loop ::
  "Bytes \<Rightarrow> string \<Rightarrow> string \<Rightarrow> string \<Rightarrow> string \<Rightarrow> 'q DiscoveryGraph \<Rightarrow> 'q EndpointRecord list
    \<Rightarrow> bool \<times> Guid list \<times> Guid list" where
  "service_loop prefix qt qy rt ry g [] = (False, [], [])"
| "service_loop prefix qt qy rt ry g (v # vs) =
     (let (relevant, readers, writers) = service_loop prefix qt qy rt ry g vs in
      if guidPrefix (e_guid v) \<noteq> prefix \<or> e_lifecycle v = Removed \<or> participant_gone (guidPrefix (e_guid v)) g
      then (relevant, readers, writers)
      else
        (let is_request = (e_topic v = qt \<and> e_type v = qy);
             is_response = (e_topic v = rt \<and> e_type v = ry)
         in (relevant \<or> is_request \<or> is_response,
             (if is_request \<and> e_kind v = Reader then e_guid v # readers else readers),
             (if is_response \<and> e_kind v = Writer then e_guid v # writers else writers))))"

definition service_state ::
  "Bytes \<Rightarrow> string \<Rightarrow> string \<Rightarrow> string \<Rightarrow> string \<Rightarrow> bool \<Rightarrow> 'q DiscoveryGraph \<Rightarrow> ServiceState" where
  "service_state prefix qt qy rt ry assoc g =
     (if health g \<noteq> Healthy then ServiceUnavailable
      else
        (let (relevant, readers, writers) = service_loop prefix qt qy rt ry g (endpoints g) in
         if readers = [] \<or> writers = [] then (if relevant then ServiceIncomplete else ServiceUnknown)
         else if \<not> assoc then ServiceComplete
         else case find (\<lambda>p. rp_prefix p = prefix) (remote_nodes g) of
           None \<Rightarrow> ServiceIncomplete
         | Some p \<Rightarrow>
             if \<exists>n \<in> set (rp_nodes p). (\<exists>q \<in> set readers. to_gid q \<in> set (reader_gids n))
                 \<and> (\<exists>q \<in> set writers. to_gid q \<in> set (writer_gids n))
             then ServiceComplete else ServiceIncomplete))"

definition view :: "'q DiscoveryGraph \<Rightarrow> 'q GraphView" where
  "view g = \<lparr>gv_revision = revision g, gv_participants = participants g, gv_endpoints = endpoints g,
     gv_local_nodes = local_nodes g, gv_local_endpoints = local_endpoints g,
     gv_remote_nodes = remote_nodes g\<rparr>"

lemmas change_defs [op_defs] = participant_change_def endpoint_change_def participant_for_def
  local_node_change_def release_node_change_def local_endpoint_change_def remove_endpoint_change_def
  remote_change_def

section \<open>Runs\<close>

datatype 'q GraphOp =
    GParticipant Bytes DiscoveryChange
  | GEndpoint Guid EndpointKind string string DiscoveryChange 'q
  | GRemote Bytes "RemoteNodeRecord list"
  | GAddNode string string
  | GReleaseNode u64
  | GAddLocal Guid EndpointKind string string u64 'q
  | GRemoveLocal Guid
  | GUnavailable
  | GSubscribe
  | GUnsubscribe u64

fun graph_exec :: "'q GraphOp \<Rightarrow> 'q DiscoveryGraph \<Rightarrow> notices \<times> 'q DiscoveryGraph" where
  "graph_exec (GParticipant p c) g = apply_participant p c g"
| "graph_exec (GEndpoint u k t y c q) g = apply_endpoint u k t y c q g"
| "graph_exec (GRemote p ns) g = apply_remote_nodes p ns g"
| "graph_exec (GAddNode n ns) g = snd (add_local_node n ns g)"
| "graph_exec (GReleaseNode i) g = release_local_node i g"
| "graph_exec (GAddLocal u k t y i q) g = add_local_endpoint u k t y i q g"
| "graph_exec (GRemoveLocal u) g = remove_local_endpoint u g"
| "graph_exec GUnavailable g = unavailable g"
| "graph_exec GSubscribe g = ([], snd (subscribe g))"
| "graph_exec (GUnsubscribe i) g = ([], unsubscribe i g)"

definition graph_run :: "'q GraphOp list \<Rightarrow> 'q DiscoveryGraph \<Rightarrow> 'q DiscoveryGraph" where
  "graph_run ops g = fold (\<lambda>op g. snd (graph_exec op g)) ops g"

text \<open>The change an operation tries to make; \<open>None\<close> for those that bypass \<^verbatim>\<open>mutate\<close>.\<close>

fun change_of :: "'q GraphOp \<Rightarrow> ('q DiscoveryGraph \<Rightarrow> GraphMutation \<times> 'q DiscoveryGraph) option" where
  "change_of (GParticipant p c) = Some (participant_change p c)"
| "change_of (GEndpoint u k t y c q) = Some (endpoint_change u k t y c q)"
| "change_of (GRemote p ns) = Some (remote_change p ns)"
| "change_of (GAddNode n ns) = Some (local_node_change n ns)"
| "change_of (GReleaseNode i) = (if i = 0 then None else Some (release_node_change i))"
| "change_of (GAddLocal u k t y i q) = (if i = 0 then None else Some (local_endpoint_change u k t y i q))"
| "change_of (GRemoveLocal u) = Some (remove_endpoint_change u)"
| "change_of _ = None"

lemma graph_exec_change: "change_of op = Some c \<Longrightarrow> graph_exec op g = mutate c g"
  by (cases op) (auto simp: apply_participant_def apply_endpoint_def apply_remote_nodes_def
      add_local_node_def release_local_node_def add_local_endpoint_def remove_local_endpoint_def
      case_prod_beta split: if_splits)

lemma mutate_cases:
  obtains (refused) "health g \<noteq> Healthy" "mutate c g = ([], g)"
  | (invalid) g1 where "health g = Healthy" "c g = (Invalid, g1)"
      "mutate c g = (notify (g1\<lparr>health := Unavailable\<rparr>), g1\<lparr>health := Unavailable\<rparr>)"
  | (exhausted) g1 where "health g = Healthy" "c g = (Changed, g1)" "revision g1 = u64_max"
      "mutate c g = (notify (g1\<lparr>health := Unavailable\<rparr>), g1\<lparr>health := Unavailable\<rparr>)"
  | (changed) g1 where "health g = Healthy" "c g = (Changed, g1)" "revision g1 \<noteq> u64_max"
      "mutate c g = (notify (g1\<lparr>revision := revision g1 + 1\<rparr>), g1\<lparr>revision := revision g1 + 1\<rparr>)"
  | (unchanged) g1 where "health g = Healthy" "c g = (Unchanged, g1)" "mutate c g = ([], g1)"
proof (cases "health g = Healthy")
  case True
  obtain m g1 where c: "c g = (m, g1)" by fastforce
  show thesis
  proof (cases m)
    case Changed
    show thesis
      by (cases "revision g1 = u64_max")
        (use True c Changed in \<open>auto simp: mutate_def Let_def intro: exhausted changed\<close>)
  next
    case Unchanged
    then show thesis using True c by (intro unchanged) (auto simp: mutate_def)
  next
    case Invalid
    then show thesis using True c by (intro invalid) (auto simp: mutate_def Let_def)
  qed
next
  case False
  then show thesis by (intro refused) (auto simp: mutate_def)
qed

section \<open>Well-formed graphs\<close>

definition ids_ok :: "u64 \<Rightarrow> u64 set \<Rightarrow> bool" where
  "ids_ok m I \<longleftrightarrow> (\<forall>i \<in> I. 0 < i \<and> i \<le> m)"

definition graph_ok :: "'q DiscoveryGraph \<Rightarrow> bool" where
  "graph_ok g \<longleftrightarrow>
     distinct (map p_prefix (participants g)) \<and> distinct (map e_guid (endpoints g))
     \<and> distinct (map rp_prefix (remote_nodes g)) \<and> distinct (map le_guid (local_endpoints g))
     \<and> distinct (map ln_id (local_nodes g))
     \<and> ids_ok (next_local_node_id g) (set (map ln_id (local_nodes g)))
     \<and> (\<forall>e \<in> set (endpoints g). guidPrefix (e_guid e) \<in> p_prefix ` set (participants g))
     \<and> (\<forall>p \<in> set (remote_nodes g). rp_nodes p \<noteq> [])"

lemma map_ids_drop [simp]: "set (map ln_id (drop_reference i ns)) \<subseteq> set (map ln_id ns)"
  using set_del_first [of "\<lambda>n. ln_id n = i" "upd_first (\<lambda>n. ln_id n = i) (\<lambda>n. n\<lparr>references := references n - 1\<rparr>) ns"]
    arg_cong [OF map_upd_first_same [of ln_id "\<lambda>n. n\<lparr>references := references n - 1\<rparr>" "\<lambda>n. ln_id n = i" ns], of set]
  by (auto simp: drop_reference_def Let_def split: option.splits)

lemma distinct_drop: "distinct (map ln_id ns) \<Longrightarrow> distinct (map ln_id (drop_reference i ns))"
  by (auto simp: drop_reference_def Let_def map_upd_first_same intro!: distinct_map_del_first
      split: option.splits)

lemma image_upd_first: "(\<And>x. g (f x) = g x) \<Longrightarrow> g ` set (upd_first p f xs) = g ` set xs"
  by (metis list.set_map map_upd_first_same)

lemma image_del_first: "g ` set (del_first p xs) \<subseteq> g ` set xs"
  by (rule image_mono [OF set_del_first])

lemma find_key_new: "find (\<lambda>x. key x = k) xs = None \<Longrightarrow> distinct (map key xs) \<Longrightarrow> key y = k \<Longrightarrow>
    distinct (map key (xs @ [y]))"
  by (auto simp: find_None_set)

lemma set_upd_first: "x \<in> set (upd_first p f xs) \<Longrightarrow> x \<in> set xs \<or> (\<exists>y \<in> set xs. p y \<and> x = f y)"
  by (induction xs) (auto split: if_splits)

lemma participant_change_ok: "graph_ok g \<Longrightarrow> graph_ok (snd (participant_change p c g))"
  by (auto simp: participant_change_def graph_ok_def find_participant_def find_None_set
      map_upd_first_same image_upd_first split: option.splits)

lemma participant_for_ok:
  assumes "graph_ok g" "participant_for prefix g = (p, g1)"
  shows "graph_ok g1" "find_participant prefix g1 = Some p" "endpoints g1 = endpoints g"
proof -
  have "graph_ok g1 \<and> find_participant prefix g1 = Some p \<and> endpoints g1 = endpoints g"
  proof (cases "find_participant prefix g")
    case None
    then have g1: "p = \<lparr>p_prefix = prefix, p_lifecycle = Added, p_generation = 0\<rparr>"
        "g1 = g\<lparr>participants := participants g @ [p]\<rparr>"
      using assms(2) by (auto simp: participant_for_def Let_def)
    have "graph_ok g1"
      using None assms(1) by (auto simp: g1 graph_ok_def find_participant_def find_None_set)
    moreover have "find_participant prefix g1 = Some p"
      using None by (simp add: g1 find_participant_def find_append)
    ultimately show ?thesis by (simp add: g1)
  qed (use assms in \<open>simp add: participant_for_def find_participant_def\<close>)
  then show "graph_ok g1" "find_participant prefix g1 = Some p" "endpoints g1 = endpoints g"
    by simp_all
qed

lemma find_participant_prefix: "find_participant prefix g = Some p \<Longrightarrow> prefix \<in> p_prefix ` set (participants g)"
  unfolding find_participant_def by (auto dest: find_Some_set)

lemma endpoints_ok:
  assumes "graph_ok g" "distinct (map e_guid es)"
    and "\<And>e. e \<in> set es \<Longrightarrow> guidPrefix (e_guid e) \<in> p_prefix ` set (participants g)"
  shows "graph_ok (g\<lparr>endpoints := es\<rparr>)"
  using assms by (simp add: graph_ok_def)

lemma endpoint_change_ok:
  assumes "graph_ok g" shows "graph_ok (snd (endpoint_change u k t y c q g))"
proof -
  obtain p g1 where p: "participant_for (guidPrefix u) g = (p, g1)" by fastforce
  note ok = participant_for_ok [OF assms p]
  let ?e = "\<lparr>e_guid = u, e_kind = k, e_topic = t, e_type = y, e_qos = q, e_lifecycle = c\<rparr>"
  have es: "\<And>e. e \<in> set (endpoints g1) \<Longrightarrow> guidPrefix (e_guid e) \<in> p_prefix ` set (participants g1)"
    and d: "distinct (map e_guid (endpoints g1))"
    using ok(1) by (auto simp: graph_ok_def)
  have "graph_ok (g1\<lparr>endpoints := endpoints g1 @ [?e]\<rparr>)" if "find_endpoint u g1 = None"
    by (rule endpoints_ok [OF ok(1)])
      (use that d es find_participant_prefix [OF ok(2)] in \<open>auto simp: find_endpoint_def find_None_set\<close>)
  moreover have "graph_ok (g1\<lparr>endpoints := upd_first (\<lambda>e. e_guid e = u)
            (\<lambda>e. e\<lparr>e_kind := k, e_topic := t, e_type := y, e_qos := q,
                   e_lifecycle := c\<rparr>) (endpoints g1)\<rparr>)"
  proof (rule endpoints_ok [OF ok(1)])
    fix e
    assume "e \<in> set (upd_first (\<lambda>e. e_guid e = u) (\<lambda>e. e\<lparr>e_kind := k, e_topic := t, e_type := y,
      e_qos := q, e_lifecycle := c\<rparr>) (endpoints g1))"
    from set_upd_first [OF this] show "guidPrefix (e_guid e) \<in> p_prefix ` set (participants g1)"
      using es by auto
  qed (use d in \<open>simp add: map_upd_first_same\<close>)
  ultimately show ?thesis
    using ok(1) by (simp add: endpoint_change_def p Let_def split: option.splits)
qed

lemma remote_ok:
  assumes "graph_ok g" "distinct (map rp_prefix ps)" "\<forall>p \<in> set ps. rp_nodes p \<noteq> []"
  shows "graph_ok (g\<lparr>remote_nodes := ps\<rparr>)"
  using assms by (simp add: graph_ok_def)

lemma remote_change_ok: assumes "graph_ok g" shows "graph_ok (snd (remote_change p ns g))"
proof -
  have d: "distinct (map rp_prefix (remote_nodes g))" "\<forall>p \<in> set (remote_nodes g). rp_nodes p \<noteq> []"
    using assms by (simp_all add: graph_ok_def)
  have "graph_ok (g\<lparr>remote_nodes := remote_nodes g @ [\<lparr>rp_prefix = p, rp_nodes = ns\<rparr>]\<rparr>)"
    if "find (\<lambda>q. rp_prefix q = p) (remote_nodes g) = None" "ns \<noteq> []"
    by (rule remote_ok [OF assms]) (use that d in \<open>auto simp: find_None_set\<close>)
  moreover have "graph_ok (g\<lparr>remote_nodes := del_first (\<lambda>q. rp_prefix q = p) (remote_nodes g)\<rparr>)"
  proof (rule remote_ok [OF assms distinct_map_del_first [OF d(1)]])
    show "\<forall>q \<in> set (del_first (\<lambda>q. rp_prefix q = p) (remote_nodes g)). rp_nodes q \<noteq> []"
      using d(2) set_del_first [of "\<lambda>q. rp_prefix q = p" "remote_nodes g"] by auto
  qed
  moreover have "graph_ok (g\<lparr>remote_nodes := upd_first (\<lambda>q. rp_prefix q = p)
      (\<lambda>q. q\<lparr>rp_nodes := ns\<rparr>) (remote_nodes g)\<rparr>)" if "ns \<noteq> []"
  proof (rule remote_ok [OF assms])
    show "\<forall>q \<in> set (upd_first (\<lambda>q. rp_prefix q = p) (\<lambda>q. q\<lparr>rp_nodes := ns\<rparr>) (remote_nodes g)).
        rp_nodes q \<noteq> []"
      using that d(2) by (auto dest!: set_upd_first)
  qed (use d in \<open>simp add: map_upd_first_same\<close>)
  ultimately show ?thesis
    using assms by (simp add: remote_change_def split: option.splits)
qed

lemma u64_inc_pos: "(x::u64) \<noteq> u64_max \<Longrightarrow> 0 < x + 1"
  using u64_inc_nonzero [of x] by (auto simp: word_gt_0)

lemma endpoint_participant:
  assumes "graph_ok g" "find_endpoint u g = Some e"
  shows "\<exists>p. find_participant (guidPrefix u) g = Some p"
proof -
  have "e \<in> set (endpoints g)" "e_guid e = u"
    using find_Some_set [OF assms(2) [unfolded find_endpoint_def]] by simp_all
  then have "guidPrefix u \<in> p_prefix ` set (participants g)" using assms(1) by (auto simp: graph_ok_def)
  then obtain p where "p \<in> set (participants g)" "p_prefix p = guidPrefix u" by auto
  then have "find_participant (guidPrefix u) g \<noteq> None" by (auto simp: find_participant_def find_None_set)
  then show ?thesis by simp
qed

lemma ids_ok_mono: "ids_ok m J \<Longrightarrow> I \<subseteq> J \<Longrightarrow> m \<le> m' \<Longrightarrow> ids_ok m' I"
  by (force simp: ids_ok_def)

lemma ids_ok_new:
  assumes "ids_ok m I" "m \<noteq> u64_max"
  shows "ids_ok (m + 1) (insert (m + 1) I)" "m + 1 \<notin> I"
proof -
  have m: "m < m + 1" using assms(2) by (rule u64_inc_gt)
  then show "ids_ok (m + 1) (insert (m + 1) I)"
    using ids_ok_mono [OF assms(1) subset_refl, of "m + 1"] u64_inc_pos [OF assms(2)]
    by (simp add: ids_ok_def)
  show "m + 1 \<notin> I" using assms(1) m by (auto simp: ids_ok_def)
qed

lemma local_nodes_ok:
  assumes "graph_ok g" "distinct (map ln_id ns)" "set (map ln_id ns) \<subseteq> set (map ln_id (local_nodes g))"
  shows "graph_ok (g\<lparr>local_nodes := ns\<rparr>)"
  using assms ids_ok_mono [of "next_local_node_id g" "set (map ln_id (local_nodes g))" "set (map ln_id ns)"]
  by (simp add: graph_ok_def)

lemma local_node_change_ok: "graph_ok g \<Longrightarrow> graph_ok (snd (local_node_change n ns g))"
  using ids_ok_new [of "next_local_node_id g" "set (map ln_id (local_nodes g))"]
  by (cases "next_local_node_id g = u64_max") (simp_all add: local_node_change_def graph_ok_def Let_def)

lemma drop_reference_ok:
  assumes "graph_ok g" shows "graph_ok (g\<lparr>local_nodes := drop_reference i (local_nodes g)\<rparr>)"
  using assms by (intro local_nodes_ok distinct_drop map_ids_drop) (simp_all add: graph_ok_def)

lemma release_node_change_ok: "graph_ok g \<Longrightarrow> graph_ok (snd (release_node_change i g))"
  by (simp add: release_node_change_def drop_reference_ok split: option.splits)

lemma local_endpoint_change_ok: "graph_ok g \<Longrightarrow> graph_ok (snd (local_endpoint_change u k t y i q g))"
  by (auto simp: local_endpoint_change_def graph_ok_def find_None_set map_upd_first_same
      image_upd_first split: option.splits)

lemma remove_endpoint_change_ok:
  assumes "graph_ok g" shows "graph_ok (snd (remove_endpoint_change u g))"
proof (cases "find (\<lambda>e. le_guid e = u) (local_endpoints g)")
  case (Some e)
  show ?thesis
    using Some drop_reference_ok [OF assms, of "le_node_id e"] by (simp add: remove_endpoint_change_def graph_ok_def distinct_map_del_first)
qed (use assms in \<open>simp add: remove_endpoint_change_def\<close>)

lemma change_of_ok: "change_of op = Some c \<Longrightarrow> graph_ok g \<Longrightarrow> graph_ok (snd (c g))"
  by (cases op) (auto simp: participant_change_ok endpoint_change_ok remote_change_ok
      local_node_change_ok release_node_change_ok local_endpoint_change_ok remove_endpoint_change_ok
      split: if_splits)

lemma graph_ok_health [simp]:
  "graph_ok (g\<lparr>health := h\<rparr>) = graph_ok g" "graph_ok (g\<lparr>revision := r\<rparr>) = graph_ok g"
  by (simp_all add: graph_ok_def)

lemma mutate_ok: "graph_ok g \<Longrightarrow> graph_ok (snd (c g)) \<Longrightarrow> graph_ok (snd (mutate c g))"
  by (cases rule: mutate_cases [of g c]) simp_all

lemma graph_exec_ok [keeps]: "graph_ok g \<Longrightarrow> graph_ok (snd (graph_exec op g))"
proof (cases "change_of op")
  case None
  then show "graph_ok g \<Longrightarrow> graph_ok (snd (graph_exec op g))"
    by (cases op) (auto simp: unavailable_def Let_def subscribe_def unsubscribe_def graph_ok_def
        release_local_node_def add_local_endpoint_def split: if_splits)
next
  case (Some c)
  then show "graph_ok g \<Longrightarrow> graph_ok (snd (graph_exec op g))"
    by (simp add: graph_exec_change mutate_ok change_of_ok)
qed

lemma new_graph_ok [keeps]: "graph_ok new_graph"
  by (simp add: graph_ok_def new_graph_def ids_ok_def)

lemma graph_run_ok: "graph_ok g \<Longrightarrow> graph_ok (graph_run ops g)"
  unfolding graph_run_def by (induction ops arbitrary: g) (simp_all add: graph_exec_ok)

section \<open>The revision counts observable changes\<close>

text \<open>What a view shows but for the revision and the reference counts.\<close>

definition observable where
  "observable g = (participants g, endpoints g, local_endpoints g, remote_nodes g,
     map (\<lambda>n. (ln_id n, ln_name n, ln_namespace n)) (local_nodes g))"

lemma observable_drop:
  assumes "find (\<lambda>n. ln_id n = i) ns = Some n" "references n - 1 \<noteq> 0"
  shows "map (\<lambda>n. (ln_id n, ln_name n, ln_namespace n)) (drop_reference i ns) =
    map (\<lambda>n. (ln_id n, ln_name n, ln_namespace n)) ns"
  using assms by (simp add: drop_reference_def Let_def map_upd_first_same find_upd_first_same)

lemma unchanged_observable:
  assumes "change_of op = Some c" "graph_ok g" "c g = (Unchanged, g1)"
  shows "observable g1 = observable g \<and> revision g1 = revision g \<and> health g1 = health g
    \<and> subscriptions g1 = subscriptions g"
proof (cases op)
  case (GEndpoint u k t y ch q)
  note ep = endpoint_participant [OF assms(2), of u]
  then show ?thesis
    using assms GEndpoint ep
    by (auto simp: endpoint_change_def participant_for_def Let_def find_endpoint_def split: option.splits if_splits)
next
  case (GReleaseNode i)
  then show ?thesis
    using assms by (auto simp: release_node_change_def observable_def observable_drop
        split: option.splits if_splits)
qed (use assms in \<open>auto simp: change_defs Let_def split: option.splits if_splits\<close>)

lemma change_frame:
  "change_of op = Some c \<Longrightarrow> revision (snd (c g)) = revision g \<and> subscriptions (snd (c g)) = subscriptions g
    \<and> health (snd (c g)) = health g"
  by (cases op) (auto simp: change_defs Let_def split: option.splits if_splits)

lemma upd_first_changes: "find p xs = Some x \<Longrightarrow> f x \<noteq> x \<Longrightarrow> upd_first p f xs \<noteq> xs"
  by (induction xs) (auto split: if_splits)

lemma del_first_changes: "find p xs = Some x \<Longrightarrow> del_first p xs \<noteq> xs"
proof
  assume f: "find p xs = Some x" and "del_first p xs = xs"
  then have "length xs - 1 = length xs" using length_del_first [of p xs] by simp
  then show False using f by (cases xs) auto
qed

lemma drop_reference_last:
  assumes "find (\<lambda>n. ln_id n = i) ns = Some n" "references n - 1 = 0"
  shows "length (drop_reference i ns) \<noteq> length ns"
proof -
  have "0 < length ns" using assms(1) by (cases ns) auto
  moreover have "length (drop_reference i ns) = length ns - 1"
    using assms by (simp add: drop_reference_def Let_def find_upd_first_same length_del_first)
  ultimately show ?thesis by linarith
qed

lemma remote_nodes_equal_refl [simp]: "remote_nodes_equal ns ns"
  by (induction ns) auto

lemma changed_observable:
  assumes "change_of op = Some c" "c g = (Changed, g1)"
  shows "observable g1 \<noteq> observable g"
proof (cases op)
  case (GEndpoint u k t y ch q)
  obtain p g2 where p: "participant_for (guidPrefix u) g = (p, g2)" by fastforce
  then have e: "endpoints g2 = endpoints g" by (auto simp: participant_for_def Let_def split: option.splits)
  show ?thesis
  proof (cases "find_endpoint u g2")
    case None
    then show ?thesis
      using assms GEndpoint p e by (auto simp: endpoint_change_def observable_def split: if_splits)
  next
    case (Some x)
    let ?f = "\<lambda>x. x\<lparr>e_kind := k, e_topic := t, e_type := y, e_qos := q, e_lifecycle := ch\<rparr>"
    have "e_kind x \<noteq> k \<or> e_topic x \<noteq> t \<or> e_type x \<noteq> y \<or> e_lifecycle x \<noteq> ch"
        and g1: "endpoints g1 = upd_first (\<lambda>x. e_guid x = u) ?f (endpoints g)"
      using assms GEndpoint p e Some by (auto simp: endpoint_change_def split: if_splits)
    then have "?f x \<noteq> x" by (cases x) auto
    with Some e have "endpoints g1 \<noteq> endpoints g"
      unfolding g1 find_endpoint_def by (metis upd_first_changes)
    then show ?thesis by (auto simp: observable_def)
  qed
next
  case (GAddLocal u k t y i q)
  let ?f = "\<lambda>x. x\<lparr>le_kind := k, le_topic := t, le_type := y, le_qos := q, le_node_id := i\<rparr>"
  have "local_endpoints g1 \<noteq> local_endpoints g"
  proof (cases "find (\<lambda>x. le_guid x = u) (local_endpoints g)")
    case (Some x)
    then have "le_kind x \<noteq> k \<or> le_topic x \<noteq> t \<or> le_type x \<noteq> y \<or> le_node_id x \<noteq> i"
        and g1: "local_endpoints g1 = upd_first (\<lambda>x. le_guid x = u) ?f (local_endpoints g)"
      using assms GAddLocal by (auto simp: local_endpoint_change_def split: if_splits option.splits)
    then have "?f x \<noteq> x" by (cases x) auto
    with Some show ?thesis unfolding g1 by (rule upd_first_changes)
  qed (use assms GAddLocal in \<open>auto simp: local_endpoint_change_def split: if_splits option.splits\<close>)
  then show ?thesis by (auto simp: observable_def)
next
  case (GReleaseNode i)
  then obtain n where "find (\<lambda>n. ln_id n = i) (local_nodes g) = Some n" "references n - 1 = 0"
      "g1 = g\<lparr>local_nodes := drop_reference i (local_nodes g)\<rparr>"
    using assms by (auto simp: release_node_change_def split: option.splits if_splits)
  then show ?thesis using drop_reference_last by (auto simp: observable_def dest!: map_eq_imp_length_eq)
next
  case (GRemoveLocal u)
  then obtain x where "find (\<lambda>x. le_guid x = u) (local_endpoints g) = Some x"
      "local_endpoints g1 = del_first (\<lambda>x. le_guid x = u) (local_endpoints g)"
    using assms by (auto simp: remove_endpoint_change_def split: option.splits)
  then have "local_endpoints g1 \<noteq> local_endpoints g" using del_first_changes by fastforce
  then show ?thesis by (auto simp: observable_def)
next
  case (GParticipant p ch)
  have "participants g1 \<noteq> participants g"
  proof (cases "find_participant p g")
    case (Some x)
    let ?f = "\<lambda>x. x\<lparr>p_lifecycle := ch, p_generation := p_generation x + 1\<rparr>"
    have l: "p_lifecycle x \<noteq> ch"
        and g1: "participants g1 = upd_first (\<lambda>x. p_prefix x = p) ?f (participants g)"
      using assms GParticipant Some by (auto simp: participant_change_def split: if_splits)
    from l have "?f x \<noteq> x" by (cases x) auto
    with Some show ?thesis unfolding g1 find_participant_def by (rule upd_first_changes)
  qed (use assms GParticipant in \<open>auto simp: participant_change_def\<close>)
  then show ?thesis by (auto simp: observable_def)
next
  case (GRemote p ns)
  have "remote_nodes g1 \<noteq> remote_nodes g"
  proof (cases "find (\<lambda>q. rp_prefix q = p) (remote_nodes g)")
    case (Some x)
    then have neq: "rp_nodes x \<noteq> ns" using assms GRemote by (auto simp: remote_change_def split: if_splits)
    then have "x\<lparr>rp_nodes := ns\<rparr> \<noteq> x" by (cases x) auto
    with Some show ?thesis
      using assms GRemote del_first_changes [OF Some] upd_first_changes [OF Some, of "\<lambda>q. q\<lparr>rp_nodes := ns\<rparr>"]
      by (auto simp: remote_change_def split: if_splits)
  qed (use assms GRemote in \<open>auto simp: remote_change_def split: if_splits\<close>)
  then show ?thesis by (auto simp: observable_def)
next
  case (GAddNode n ns)
  then show ?thesis
    using assms by (auto simp: local_node_change_def observable_def Let_def split: if_splits dest!: map_eq_imp_length_eq)
qed (use assms in auto)

section \<open>What a removal leaves behind\<close>

text \<open>An endpoint is gone when its record, or that of its participant, says so.\<close>

definition endpoint_gone :: "Guid \<Rightarrow> 'q DiscoveryGraph \<Rightarrow> bool" where
  "endpoint_gone u g \<longleftrightarrow> (\<exists>e. find_endpoint u g = Some e \<and>
     (e_lifecycle e = Removed \<or>
      (\<exists>p. find_participant (guidPrefix u) g = Some p \<and> p_lifecycle p = Removed)))"

lemma find_endpoint_guid: "find_endpoint u g = Some e \<Longrightarrow> e_guid e = u"
  unfolding find_endpoint_def by (auto dest: find_Some_set)

lemma endpoint_state_gone:
  "health g = Healthy \<Longrightarrow> endpoint_state u g = EndpointRemoved \<longleftrightarrow> endpoint_gone u g"
  by (auto simp: endpoint_state_def endpoint_gone_def find_endpoint_guid split: option.splits)

lemma find_participant_upd:
  "(\<And>x. p_prefix (f x) = p_prefix x) \<Longrightarrow>
    find_participant q (g\<lparr>participants := upd_first (\<lambda>x. p_prefix x = p) f (participants g)\<rparr>) =
    (if q = p then map_option f (find_participant p g) else find_participant q g)"
  by (cases "q = p") (auto simp: find_participant_def find_upd_first_same intro!: find_upd_first_other)

lemma find_endpoint_upd:
  "(\<And>x. e_guid (f x) = e_guid x) \<Longrightarrow>
    find_endpoint v (g\<lparr>endpoints := upd_first (\<lambda>x. e_guid x = u) f (endpoints g)\<rparr>) =
    (if v = u then map_option f (find_endpoint u g) else find_endpoint v g)"
  by (cases "v = u") (auto simp: find_endpoint_def find_upd_first_same intro!: find_upd_first_other)

lemma find_endpoint_cong: "endpoints g1 = endpoints g \<Longrightarrow> find_endpoint u g1 = find_endpoint u g"
  by (simp add: find_endpoint_def)

lemma find_participant_cong: "participants g1 = participants g \<Longrightarrow> find_participant p g1 = find_participant p g"
  by (simp add: find_participant_def)

lemma endpoint_gone_cong:
  "endpoints g1 = endpoints g \<Longrightarrow> participants g1 = participants g \<Longrightarrow> endpoint_gone u g1 = endpoint_gone u g"
  by (simp add: endpoint_gone_def find_endpoint_def find_participant_def)

lemma find_append_Some: "find p xs = Some x \<Longrightarrow> find p (xs @ ys) = Some x"
  by (simp add: find_append)

lemma participant_for_keeps:
  assumes "participant_for q g = (p, g1)" "find_participant r g = Some x"
  shows "find_participant r g1 = Some x" "endpoints g1 = endpoints g"
  using assms by (auto simp: participant_for_def find_participant_def Let_def find_append split: option.splits)

lemma participant_change_gone:
  assumes "endpoint_gone u g" "graph_ok g" "participant_change p c g = (m, g1)"
  shows "endpoint_gone u g1"
proof -
  obtain e where e: "find_endpoint u g = Some e" using assms(1) by (auto simp: endpoint_gone_def)
  obtain x where x: "find_participant (guidPrefix u) g = Some x"
    using endpoint_participant [OF assms(2) e] by blast
  have g1e: "find_endpoint u g1 = Some e"
    using assms(3) e by (auto simp: participant_change_def find_endpoint_def split: option.splits if_splits)
  have "\<exists>x'. find_participant (guidPrefix u) g1 = Some x' \<and> (p_lifecycle x = Removed \<longrightarrow> p_lifecycle x' = Removed)"
  proof (cases "find_participant p g")
    case None
    then show ?thesis
      using assms(3) x by (auto simp: participant_change_def find_participant_def find_append)
  next
    case (Some y)
    then show ?thesis
      using assms(3) x by (auto simp: participant_change_def find_participant_upd split: if_splits)
  qed
  with assms(1) e x g1e show ?thesis by (auto simp: endpoint_gone_def)
qed

lemma endpoint_change_gone:
  assumes "endpoint_gone u g" "graph_ok g" "endpoint_change v k t y c q g = (m, g1)" "m \<noteq> Invalid"
  shows "endpoint_gone u g1"
proof -
  obtain e where e: "find_endpoint u g = Some e" using assms(1) by (auto simp: endpoint_gone_def)
  obtain x where x: "find_participant (guidPrefix u) g = Some x"
    using endpoint_participant [OF assms(2) e] by blast
  obtain p g2 where p: "participant_for (guidPrefix v) g = (p, g2)" by fastforce
  note keep = participant_for_keeps [OF p x]
  have part: "find_participant (guidPrefix u) g1 = Some x"
    using assms(3) keep(1) p
    by (auto simp: endpoint_change_def find_participant_def split: option.splits if_splits)
  have e2: "find_endpoint u g2 = Some e" using e keep(2) by (simp add: find_endpoint_def)
  have "\<exists>e'. find_endpoint u g1 = Some e' \<and> (e_lifecycle e' = Removed \<or> p_lifecycle x = Removed)"
  proof (cases "v = u")
    case True
    then have "p = x" using p x by (auto simp: participant_for_def)
    then show ?thesis
      using True assms(1,3,4) p e e2 x
      by (cases c) (auto simp: endpoint_change_def endpoint_gone_def find_endpoint_upd split: if_splits)
  next
    case False
    have "find_endpoint u g1 = Some e"
      using False assms(3) p e2
      by (auto simp: endpoint_change_def find_endpoint_upd split: option.splits if_splits)
        (auto simp: find_endpoint_def find_append)
    then show ?thesis using assms(1) e x by (auto simp: endpoint_gone_def)
  qed
  with part show ?thesis by (auto simp: endpoint_gone_def)
qed

definition remote_frame :: "'q DiscoveryGraph \<Rightarrow> 'q DiscoveryGraph \<Rightarrow> bool" where
  "remote_frame g g1 \<longleftrightarrow> endpoints g1 = endpoints g \<and> participants g1 = participants g"

lemma remote_frame_gone: "remote_frame g g1 \<Longrightarrow> endpoint_gone u g1 = endpoint_gone u g"
  unfolding remote_frame_def by (rule endpoint_gone_cong) simp_all

lemma other_change_frame [frame]:
  "remote_frame g (snd (remote_change p ns g))"
  "remote_frame g (snd (local_endpoint_change v k t y i q g))"
  "remote_frame g (snd (local_node_change n s g))"
  "remote_frame g (snd (release_node_change i g))"
  "remote_frame g (snd (remove_endpoint_change v g))"
  by (simp_all add: remote_frame_def remote_change_def local_endpoint_change_def local_node_change_def
      release_node_change_def remove_endpoint_change_def Let_def split: option.splits)

lemma change_gone:
  assumes "change_of op = Some c" "endpoint_gone u g" "graph_ok g" "c g = (m, g1)" "m \<noteq> Invalid"
  shows "endpoint_gone u g1"
proof (cases "\<exists>p ch. op = GParticipant p ch")
  case True
  then show ?thesis using participant_change_gone [OF assms(2,3)] assms by auto
next
  case False
  show ?thesis
  proof (cases "\<exists>v k t y ch q. op = GEndpoint v k t y ch q")
    case True
    then show ?thesis using endpoint_change_gone [OF assms(2,3) _ assms(5)] assms by auto
  next
    case other: False
    have "remote_frame g (snd (c g))"
      using False other assms(1) by (cases op) (auto intro: frame split: if_splits)
    then show ?thesis using assms(2,4) remote_frame_gone by fastforce
  qed
qed

lemma endpoint_gone_upd [simp]:
  "endpoint_gone u (g\<lparr>subscriptions := x\<rparr>) = endpoint_gone u g"
  "endpoint_gone u (g\<lparr>next_subscription := n\<rparr>) = endpoint_gone u g"
  "endpoint_gone u (g\<lparr>revision := r\<rparr>) = endpoint_gone u g"
  by (simp_all add: endpoint_gone_def find_endpoint_def find_participant_def)

lemma graph_exec_gone:
  assumes "endpoint_gone u g \<or> health g = Unavailable" "graph_ok g"
  shows "endpoint_gone u (snd (graph_exec op g)) \<or> health (snd (graph_exec op g)) = Unavailable"
proof (cases "change_of op")
  case None
  show ?thesis
    using None assms(1)
    by (cases op) (auto simp: unavailable_def Let_def subscribe_def unsubscribe_def
        release_local_node_def add_local_endpoint_def split: if_splits)
next
  case (Some c)
  note ex = graph_exec_change [OF Some, of g]
  show ?thesis
  proof (cases rule: mutate_cases [of g c])
    case refused
    then show ?thesis using assms(1) ex by simp
  next
    case (changed g1)
    then have "endpoint_gone u g1" using change_gone [OF Some _ assms(2)] assms(1) by fastforce
    then show ?thesis using ex changed by simp
  next
    case (unchanged g1)
    then have "endpoint_gone u g1" using change_gone [OF Some _ assms(2)] assms(1) by fastforce
    then show ?thesis using ex unchanged by simp
  qed (use ex in simp_all)
qed

lemma graph_run_gone:
  "endpoint_gone u g \<or> health g = Unavailable \<Longrightarrow> graph_ok g \<Longrightarrow>
    endpoint_gone u (graph_run ops g) \<or> health (graph_run ops g) = Unavailable"
  unfolding graph_run_def
proof (induction ops arbitrary: g)
  case (Cons op ops)
  show ?case
    using Cons.IH [OF graph_exec_gone [OF Cons.prems] graph_exec_ok [OF Cons.prems(2)]] by simp
qed simp

lemma graph_run_append: "graph_run (xs @ ys) g = graph_run ys (graph_run xs g)"
  by (simp add: graph_run_def)

section \<open>Services\<close>

text \<open>What counts as live on a participant.\<close>

definition live :: "Bytes \<Rightarrow> 'q DiscoveryGraph \<Rightarrow> 'q EndpointRecord \<Rightarrow> bool" where
  "live prefix g v \<longleftrightarrow> guidPrefix (e_guid v) = prefix \<and> e_lifecycle v \<noteq> Removed
     \<and> \<not> participant_gone prefix g"

definition relevant_to :: "Bytes \<Rightarrow> 'q DiscoveryGraph \<Rightarrow> string \<Rightarrow> string \<Rightarrow> 'q EndpointRecord \<Rightarrow> bool" where
  "relevant_to prefix g t y v \<longleftrightarrow> live prefix g v \<and> e_topic v = t \<and> e_type v = y"

lemma service_loop_step:
  assumes "service_loop prefix qt qy rt ry g vs = (a, b, c)"
  shows "service_loop prefix qt qy rt ry g (v # vs) =
    (a \<or> relevant_to prefix g qt qy v \<or> relevant_to prefix g rt ry v,
     (if relevant_to prefix g qt qy v \<and> e_kind v = Reader then e_guid v # b else b),
     (if relevant_to prefix g rt ry v \<and> e_kind v = Writer then e_guid v # c else c))"
  using assms by (auto simp: live_def relevant_to_def)

lemma service_loop_char:
  "service_loop prefix qt qy rt ry g vs = (relevant, readers, writers) \<Longrightarrow>
    set readers = {e_guid v |v. v \<in> set vs \<and> relevant_to prefix g qt qy v \<and> e_kind v = Reader}
    \<and> set writers = {e_guid v |v. v \<in> set vs \<and> relevant_to prefix g rt ry v \<and> e_kind v = Writer}"
proof (induction vs arbitrary: relevant readers writers)
  case (Cons v vs)
  obtain a b c where r: "service_loop prefix qt qy rt ry g vs = (a, b, c)" by (metis prod_cases3)
  have "readers = (if relevant_to prefix g qt qy v \<and> e_kind v = Reader then e_guid v # b else b)"
      "writers = (if relevant_to prefix g rt ry v \<and> e_kind v = Writer then e_guid v # c else c)"
    using Cons.prems unfolding service_loop_step [OF r] by simp_all
  then show ?case using Cons.IH [OF r] by auto
qed simp

text \<open>The first announcement of the participant has a node that owns both endpoints.\<close>

definition same_node :: "Bytes \<Rightarrow> 'q DiscoveryGraph \<Rightarrow> Guid \<Rightarrow> Guid \<Rightarrow> bool" where
  "same_node prefix g q w \<longleftrightarrow> (case find (\<lambda>p. rp_prefix p = prefix) (remote_nodes g) of
     None \<Rightarrow> False
   | Some p \<Rightarrow> \<exists>n \<in> set (rp_nodes p). to_gid q \<in> set (reader_gids n) \<and> to_gid w \<in> set (writer_gids n))"

lemma service_state_complete:
  assumes "service_loop prefix qt qy rt ry g (endpoints g) = (a, b, c)"
  shows "service_state prefix qt qy rt ry assoc g = ServiceComplete \<longleftrightarrow>
    health g = Healthy \<and> (\<exists>q \<in> set b. \<exists>w \<in> set c. assoc = False \<or> same_node prefix g q w)"
proof (cases "b = [] \<or> c = []")
  case True
  then show ?thesis using assms by (auto simp: service_state_def)
next
  case False
  then have "\<exists>q. q \<in> set b" "\<exists>q. q \<in> set c" by (simp_all add: ex_in_conv)
  then show ?thesis
    using assms False by (cases "find (\<lambda>p. rp_prefix p = prefix) (remote_nodes g)"; cases assoc)
      (auto simp: service_state_def same_node_def)
qed

section \<open>Reference counts\<close>

text \<open>
  The reference count of a node against what it should be: one for the facade while it holds the
  node, one for each endpoint associated with it. \<open>H\<close> is the set of ids held by facades.
\<close>

definition endpoint_count :: "u64 \<Rightarrow> 'q LocalEndpointRecord list \<Rightarrow> nat" where
  "endpoint_count i es = length (filter (\<lambda>e. le_node_id e = i) es)"

definition node_references :: "u64 \<Rightarrow> LocalNodeRecord list \<Rightarrow> nat option" where
  "node_references i ns = map_option references (find (\<lambda>n. ln_id n = i) ns)"

definition counted :: "nat \<Rightarrow> nat option" where
  "counted c = (if c = 0 then None else Some c)"

definition refs_exact :: "u64 set \<Rightarrow> 'q DiscoveryGraph \<Rightarrow> bool" where
  "refs_exact H g \<longleftrightarrow> (\<forall>i. node_references i (local_nodes g) =
     counted ((if i \<in> H then 1 else 0) + endpoint_count i (local_endpoints g)))"

text \<open>
  How the node layer uses the graph: a facade releases its own id and once, an endpoint is
  registered under a node that is held, and a GUID is not moved to another node.
\<close>

definition disciplined :: "'q GraphOp \<Rightarrow> u64 set \<Rightarrow> 'q DiscoveryGraph \<Rightarrow> bool" where
  "disciplined op H g \<longleftrightarrow> (case op of
     GReleaseNode i \<Rightarrow> i \<in> H
   | GAddLocal u k t y i q \<Rightarrow> i \<in> H \<and> (\<forall>e \<in> set (local_endpoints g). le_guid e = u \<longrightarrow> le_node_id e = i)
   | _ \<Rightarrow> True)"

definition held_after :: "'q GraphOp \<Rightarrow> u64 set \<Rightarrow> 'q DiscoveryGraph \<Rightarrow> u64 set" where
  "held_after op H g = (case op of
     GAddNode n ns \<Rightarrow> insert (fst (add_local_node n ns g)) H
   | GReleaseNode i \<Rightarrow> H - {i}
   | _ \<Rightarrow> H)"

inductive held_run :: "u64 set \<Rightarrow> 'q DiscoveryGraph \<Rightarrow> bool" where
  start: "held_run {} new_graph"
| step: "held_run H g \<Longrightarrow> disciplined op H g \<Longrightarrow> held_run (held_after op H g) (snd (graph_exec op g))"

lemma node_references_drop:
  assumes "distinct (map ln_id ns)"
  shows "node_references j (drop_reference i ns) =
    (if j = i then Option.bind (node_references i ns) (\<lambda>r. counted (r - 1)) else node_references j ns)"
proof -
  let ?ns = "upd_first (\<lambda>n. ln_id n = i) (\<lambda>n. n\<lparr>references := references n - 1\<rparr>) ns"
  have d: "distinct (map ln_id ?ns)" using assms by (simp add: map_upd_first_same)
  have i: "find (\<lambda>n. ln_id n = i) ?ns = map_option (\<lambda>n. n\<lparr>references := references n - 1\<rparr>) (find (\<lambda>n. ln_id n = i) ns)"
    by (simp add: find_upd_first_same)
  show ?thesis
  proof (cases "j = i")
    case True
    then show ?thesis
      using i find_del_first_key [OF d, of i]
      by (cases "find (\<lambda>n. ln_id n = i) ns")
        (auto simp: node_references_def drop_reference_def Let_def counted_def)
  next
    case False
    then have "find (\<lambda>n. ln_id n = j) ?ns = find (\<lambda>n. ln_id n = j) ns"
        "find (\<lambda>n. ln_id n = j) (del_first (\<lambda>n. ln_id n = i) ?ns) = find (\<lambda>n. ln_id n = j) ?ns"
      by (auto intro!: find_upd_first_other find_del_first_other)
    with False show ?thesis
      by (auto simp: node_references_def drop_reference_def Let_def split: option.splits)
  qed
qed

lemma node_references_inc:
  "node_references j (upd_first (\<lambda>n. ln_id n = i) (\<lambda>n. n\<lparr>references := references n + 1\<rparr>) ns) =
    (if j = i then map_option Suc (node_references i ns) else node_references j ns)"
proof (cases "j = i")
  case False
  then have "find (\<lambda>n. ln_id n = j) (upd_first (\<lambda>n. ln_id n = i) (\<lambda>n. n\<lparr>references := references n + 1\<rparr>) ns)
      = find (\<lambda>n. ln_id n = j) ns"
    by (intro find_upd_first_other) auto
  with False show ?thesis by (simp add: node_references_def)
qed (simp add: node_references_def find_upd_first_same option.map_comp comp_def)

lemma endpoint_count_append: "endpoint_count i (es @ [e]) = endpoint_count i es + (if le_node_id e = i then 1 else 0)"
  by (simp add: endpoint_count_def)

lemma endpoint_count_upd:
  "(\<And>e. e \<in> set es \<Longrightarrow> p e \<Longrightarrow> le_node_id (f e) = le_node_id e) \<Longrightarrow>
    endpoint_count i (upd_first p f es) = endpoint_count i es"
  by (induction es) (auto simp: endpoint_count_def)

lemma endpoint_count_del:
  "find p es = Some e \<Longrightarrow> endpoint_count i es =
    endpoint_count i (del_first p es) + (if le_node_id e = i then 1 else 0)"
  by (induction es) (auto simp: endpoint_count_def split: if_splits)

lemma counted_simps [simp]: "counted 0 = None" "counted (Suc n) = Some (Suc n)"
  by (simp_all add: counted_def)

lemma counted_bind [simp]: "Option.bind (counted (Suc n)) (\<lambda>r. counted (r - 1)) = counted n"
  by simp

lemma counted_Suc: "counted n \<noteq> None \<Longrightarrow> map_option Suc (counted n) = counted (Suc n)"
  by (cases n) auto

lemma refs_exactD: "refs_exact H g \<Longrightarrow> node_references i (local_nodes g) =
    counted ((if i \<in> H then 1 else 0) + endpoint_count i (local_endpoints g))"
  by (simp add: refs_exact_def)

lemma release_refs:
  assumes "refs_exact H g" "graph_ok g" "i \<in> H"
  shows "refs_exact (H - {i}) (snd (release_node_change i g))"
proof -
  have d: "distinct (map ln_id (local_nodes g))" using assms(2) by (simp add: graph_ok_def)
  have "node_references i (local_nodes g) = counted (Suc (endpoint_count i (local_endpoints g)))"
    using refs_exactD [OF assms(1), of i] assms(3) by simp
  moreover from this have "find (\<lambda>n. ln_id n = i) (local_nodes g) \<noteq> None"
    by (auto simp: node_references_def)
  ultimately show ?thesis
    using refs_exactD [OF assms(1)]
    by (auto simp: refs_exact_def release_node_change_def node_references_drop [OF d])
qed

lemma remove_refs:
  assumes "refs_exact H g" "graph_ok g"
  shows "refs_exact H (snd (remove_endpoint_change u g))"
proof (cases "find (\<lambda>e. le_guid e = u) (local_endpoints g)")
  case (Some e)
  have d: "distinct (map ln_id (local_nodes g))" using assms(2) by (simp add: graph_ok_def)
  show ?thesis
    using refs_exactD [OF assms(1)] endpoint_count_del [OF Some] Some
    by (auto simp: refs_exact_def remove_endpoint_change_def node_references_drop [OF d])
qed (use assms in \<open>simp add: remove_endpoint_change_def\<close>)

lemma add_endpoint_refs:
  assumes "refs_exact H g" "disciplined (GAddLocal u k t y i q) H g"
  shows "refs_exact H (snd (local_endpoint_change u k t y i q g))"
proof -
  have iH: "i \<in> H" and same: "\<And>e. e \<in> set (local_endpoints g) \<Longrightarrow> le_guid e = u \<Longrightarrow> le_node_id e = i"
    using assms(2) by (auto simp: disciplined_def)
  note r = refs_exactD [OF assms(1)]
  have upd: "endpoint_count j (upd_first (\<lambda>e. le_guid e = u) (\<lambda>e. e\<lparr>le_kind := k, le_topic := t,
      le_type := y, le_qos := q, le_node_id := i\<rparr>) (local_endpoints g)) = endpoint_count j (local_endpoints g)" for j
    using same by (intro endpoint_count_upd) auto
  have "refs_exact H (g\<lparr>local_nodes := upd_first (\<lambda>n. ln_id n = i) (\<lambda>n. n\<lparr>references := references n + 1\<rparr>) (local_nodes g),
      local_endpoints := local_endpoints g @ [\<lparr>le_guid = u, le_kind = k, le_topic = t, le_type = y, le_qos = q, le_node_id = i\<rparr>]\<rparr>)"
    using iH by (simp add: refs_exact_def node_references_inc [simplified] r endpoint_count_append)
  moreover have "refs_exact H (g\<lparr>local_endpoints := upd_first (\<lambda>e. le_guid e = u) (\<lambda>e. e\<lparr>le_kind := k,
      le_topic := t, le_type := y, le_qos := q, le_node_id := i\<rparr>) (local_endpoints g)\<rparr>)"
    using r by (simp add: refs_exact_def upd)
  ultimately show ?thesis
    using assms(1) by (simp add: local_endpoint_change_def split: option.splits)
qed

lemma add_node_refs:
  assumes "refs_exact H g" "graph_ok g" "next_local_node_id g \<noteq> u64_max"
  shows "refs_exact (insert (next_local_node_id g + 1) H) (snd (local_node_change n ns g))"
proof -
  let ?i = "next_local_node_id g + 1"
  have new: "?i \<notin> set (map ln_id (local_nodes g))"
    using ids_ok_new(2) [of "next_local_node_id g" "set (map ln_id (local_nodes g))"] assms(2,3)
    by (simp add: graph_ok_def)
  then have none: "find (\<lambda>n. ln_id n = ?i) (local_nodes g) = None"
    by (metis find_key_None list.set_map)
  then have "node_references ?i (local_nodes g) = None" by (simp add: node_references_def)
  then have c: "?i \<notin> H" "endpoint_count ?i (local_endpoints g) = 0"
    using refs_exactD [OF assms(1), of ?i] by (auto simp: counted_def split: if_splits)
  show ?thesis
    unfolding refs_exact_def
  proof
    fix j
    show "node_references j (local_nodes (snd (local_node_change n ns g))) =
      counted ((if j \<in> insert ?i H then 1 else 0) + endpoint_count j (local_endpoints (snd (local_node_change n ns g))))"
    proof (cases "j = ?i")
      case True
      then show ?thesis
        using none c assms(3) by (simp add: local_node_change_def Let_def node_references_def find_append)
    next
      case False
      have "node_references j (local_nodes g @ [x]) = node_references j (local_nodes g)" if "ln_id x = ?i" for x
        using that False by (auto simp: node_references_def find_append split: option.splits)
      then show ?thesis
        using False refs_exactD [OF assms(1), of j] assms(3) by (simp add: local_node_change_def Let_def)
    qed
  qed
qed

definition local_frame :: "'q DiscoveryGraph \<Rightarrow> 'q DiscoveryGraph \<Rightarrow> bool" where
  "local_frame g g1 \<longleftrightarrow> local_nodes g1 = local_nodes g \<and> local_endpoints g1 = local_endpoints g"

lemma local_frame_refs: "local_frame g g1 \<Longrightarrow> refs_exact H g1 = refs_exact H g"
  by (simp add: local_frame_def refs_exact_def)

lemma participant_for_local: "local_frame g (snd (participant_for p g))"
  by (simp add: local_frame_def participant_for_def Let_def split: option.splits)

lemma remote_change_frame [frame]:
  "local_frame g (snd (participant_change p c g))"
  "local_frame g (snd (endpoint_change u k t y c q g))"
  "local_frame g (snd (remote_change p ns g))"
  using participant_for_local [of g "guidPrefix u"]
  by (simp_all add: local_frame_def participant_change_def endpoint_change_def remote_change_def Let_def
      case_prod_beta split: option.splits)

lemma change_refs:
  assumes "change_of op = Some c" "refs_exact H g" "graph_ok g" "disciplined op H g"
    and "health g = Healthy" "fst (c g) \<noteq> Invalid"
  shows "refs_exact (held_after op H g) (snd (c g))"
proof (cases op)
  case (GAddNode n ns)
  then show ?thesis
    using add_node_refs [OF assms(2,3)] assms
    by (auto simp: held_after_def add_local_node_def case_prod_beta local_node_change_def)
next
  case (GReleaseNode i)
  then show ?thesis
    using release_refs [OF assms(2,3)] assms by (auto simp: held_after_def disciplined_def split: if_splits)
next
  case (GAddLocal u k t y i q)
  then show ?thesis
    using add_endpoint_refs [OF assms(2)] assms by (auto simp: held_after_def split: if_splits)
next
  case (GRemoveLocal u)
  then show ?thesis using remove_refs [OF assms(2,3)] assms by (auto simp: held_after_def)
qed (use assms in \<open>auto simp: held_after_def local_frame_refs [OF remote_change_frame(1)]
       local_frame_refs [OF remote_change_frame(2)] local_frame_refs [OF remote_change_frame(3)]
       split: if_splits\<close>)

lemma refs_exact_zero:
  assumes "refs_exact H g" "graph_ok g" shows "0 \<notin> H"
proof
  assume "0 \<in> H"
  then have "node_references 0 (local_nodes g) \<noteq> None"
    using refs_exactD [OF assms(1), of 0] by simp
  then obtain n where "find (\<lambda>n. ln_id n = 0) (local_nodes g) = Some n"
    by (auto simp: node_references_def)
  from find_Some_set [OF this] have "0 \<in> set (map ln_id (local_nodes g))" by force
  then show False using assms(2) by (auto simp: graph_ok_def ids_ok_def)
qed

lemma exec_refs:
  assumes "refs_exact H g" "graph_ok g" "disciplined op H g" "health g = Healthy"
    and "health (snd (graph_exec op g)) = Healthy"
  shows "refs_exact (held_after op H g) (snd (graph_exec op g))"
proof (cases "change_of op")
  case None
  have [simp]: "refs_exact H (g\<lparr>subscriptions := x\<rparr>) = refs_exact H g"
      "refs_exact H (g\<lparr>next_subscription := n\<rparr>) = refs_exact H g" for x n and g :: "'b DiscoveryGraph"
    by (simp_all add: refs_exact_def)
  show ?thesis
    using None assms refs_exact_zero [OF assms(1,2)]
    by (cases op) (auto simp: unavailable_def Let_def subscribe_def unsubscribe_def held_after_def
        disciplined_def release_local_node_def add_local_endpoint_def split: if_splits)
next
  case (Some c)
  note ex = graph_exec_change [OF Some, of g]
  have [simp]: "refs_exact J (h\<lparr>revision := r\<rparr>) = refs_exact J h" for J r and h :: "'b DiscoveryGraph"
    by (simp add: refs_exact_def)
  show ?thesis
  proof (cases rule: mutate_cases [of g c])
    case (changed g1)
    then show ?thesis using ex change_refs [OF Some assms(1,2,3,4)] by simp
  next
    case (unchanged g1)
    then show ?thesis using ex change_refs [OF Some assms(1,2,3,4)] by simp
  qed (use ex assms in simp_all)
qed

lemma graph_exec_health: "health g = Unavailable \<Longrightarrow> health (snd (graph_exec op g)) = Unavailable"
proof (cases "change_of op")
  case None
  then show "health g = Unavailable \<Longrightarrow> ?thesis"
    by (cases op) (auto simp: unavailable_def Let_def subscribe_def unsubscribe_def
        release_local_node_def add_local_endpoint_def split: if_splits)
next
  case (Some c)
  then show "health g = Unavailable \<Longrightarrow> ?thesis" by (simp add: graph_exec_change mutate_def)
qed

lemma held_run_refs: "held_run H g \<Longrightarrow> graph_ok g \<and> (health g = Healthy \<longrightarrow> refs_exact H g)"
proof (induction rule: held_run.induct)
  case start
  show ?case
    by (intro conjI impI new_graph_ok) (simp add: refs_exact_def new_graph_def node_references_def endpoint_count_def)
next
  case (step H g op)
  have "health g = Healthy" if "health (snd (graph_exec op g)) = Healthy"
    using that graph_exec_health [of g op] by (cases "health g") auto
  then show ?case using step exec_refs graph_exec_ok by blast
qed

section \<open>Properties\<close>

text \<open>
  C8. The revision is a faithful change counter. In every graph the operations can build, an
  update of a healthy graph either notifies nobody, and then neither the revision nor anything a
  view shows (reference counts apart) has changed, or what a view shows has changed, the revision
  moves up by exactly one without wrapping and every subscriber is handed the new revision, or
  the graph becomes unavailable, of which every subscriber is told. An unavailable graph ignores
  every further update.
\<close>

theorem revision_counts_changes:
  assumes "change_of op = Some c" "graph_exec op (graph_run ops new_graph) = (ntc, g')"
    and "g = graph_run ops new_graph"
  shows "if health g = Healthy then
      ntc = [] \<and> health g' = Healthy \<and> revision g' = revision g \<and> observable g' = observable g
      \<or> health g' = Healthy \<and> observable g' \<noteq> observable g \<and> unat (revision g') = unat (revision g) + 1
        \<and> ntc = map (\<lambda>i. (i, revision g')) (subscriptions g)
      \<or> health g' = Unavailable \<and> map fst ntc = subscriptions g
    else ntc = [] \<and> g' = g"
proof -
  have ok: "graph_ok g" unfolding assms(3) by (rule graph_run_ok [OF new_graph_ok])
  have e: "mutate c g = (ntc, g')" using assms(2) graph_exec_change [OF assms(1), of g] assms(3) by simp
  have [simp]: "\<And>g r. observable (g\<lparr>revision := r\<rparr>) = observable g" by (simp add: observable_def)
  show ?thesis
  proof (cases rule: mutate_cases [of g c])
    case (changed g1)
    have "revision g1 = revision g" "subscriptions g1 = subscriptions g" "health g1 = health g"
      using change_frame [OF assms(1), of g] changed by simp_all
    with changed show ?thesis
      using e u64_inc_nonzero [of "revision g1"] changed_observable [OF assms(1) changed(2)]
      by (auto simp: notify_def)
  next
    case (unchanged g1)
    then show ?thesis using e unchanged_observable [OF assms(1) ok unchanged(2)] by auto
  qed (use e change_frame [OF assms(1), of g] in \<open>auto simp: notify_def comp_def\<close>)
qed

theorem revision_counts_changes_witness:
  "graph_exec (GAddNode ''n'' ''/'') (graph_run [GSubscribe] (new_graph :: nat DiscoveryGraph)) =
     ([(1, 1)], snd (graph_exec (GAddNode ''n'' ''/'') (graph_run [GSubscribe] new_graph)))"
proof -
  let ?g = "graph_run [GSubscribe] (new_graph :: nat DiscoveryGraph)"
  let ?r = "graph_exec (GAddNode ''n'' ''/'') ?g"
  have m: "u64_max \<noteq> 0" by (simp add: u64_max_def)
  have "?r = (fst ?r, snd ?r)" by simp
  from revision_counts_changes [OF _ this refl, of "local_node_change ''n'' ''/''"] m
  show ?thesis
    by (simp add: graph_run_def new_graph_def subscribe_def add_local_node_def local_node_change_def
        mutate_def Let_def notify_def)
qed

text \<open>
  C40. A removal is final. Once the graph reports an endpoint removed, whether its own record or
  that of its participant was, no later sequence of discovery callbacks and local operations
  makes it active or unknown again: it stays removed, or the whole graph is unavailable.
\<close>

theorem removed_is_final:
  assumes "endpoint_state u (graph_run before new_graph) = EndpointRemoved"
  shows "endpoint_state u (graph_run (before @ after) new_graph) \<in> {EndpointRemoved, EndpointUnavailable}"
proof -
  let ?g = "graph_run before new_graph"
  have "health ?g = Healthy" using assms by (auto simp: endpoint_state_def split: if_splits)
  then have "endpoint_gone u ?g" using assms by (simp add: endpoint_state_gone)
  with graph_run_gone [OF _ graph_run_ok [OF new_graph_ok, of before]]
  have "endpoint_gone u (graph_run after ?g) \<or> health (graph_run after ?g) = Unavailable" by blast
  moreover have "endpoint_state u (graph_run after ?g) = EndpointUnavailable"
    if "health (graph_run after ?g) \<noteq> Healthy"
    using that by (simp add: endpoint_state_def)
  moreover have "endpoint_state u (graph_run after ?g) = EndpointRemoved"
    if "health (graph_run after ?g) = Healthy" "endpoint_gone u (graph_run after ?g)"
    using that by (simp add: endpoint_state_gone)
  ultimately show ?thesis by (auto simp: graph_run_append)
qed

theorem removed_is_final_witness:
  "endpoint_state \<lparr>guidPrefix = [1], entityId = [2]\<rparr>
     (graph_run ([GEndpoint \<lparr>guidPrefix = [1], entityId = [2]\<rparr> Writer ''t'' ''y'' Added (0::nat),
        GParticipant [1] Removed] @ [GParticipant [1] Added]) new_graph)
   \<in> {EndpointRemoved, EndpointUnavailable}"
  by (rule removed_is_final)
    (simp add: graph_run_def new_graph_def apply_endpoint_def apply_participant_def participant_change_def
      endpoint_change_def participant_for_def find_participant_def find_endpoint_def mutate_def Let_def
      u64_max_def endpoint_state_def)

text \<open>
  A service is reported complete exactly when the graph is healthy and the participant,
  itself not removed, has a live request reader and a live response writer of the right topics
  and types; and when the association with a node is required, exactly when moreover one node of
  the participant's announcement owns such a reader and such a writer.
\<close>

theorem service_complete_iff:
  "service_state prefix qt qy rt ry assoc g = ServiceComplete \<longleftrightarrow>
     health g = Healthy \<and>
     (\<exists>r w. r \<in> set (endpoints g) \<and> relevant_to prefix g qt qy r \<and> e_kind r = Reader
        \<and> w \<in> set (endpoints g) \<and> relevant_to prefix g rt ry w \<and> e_kind w = Writer
        \<and> (assoc = False \<or> same_node prefix g (e_guid r) (e_guid w)))"
proof -
  obtain a b c where l: "service_loop prefix qt qy rt ry g (endpoints g) = (a, b, c)" by (metis prod_cases3)
  from service_loop_char [OF l] have
    b: "\<And>q. q \<in> set b \<longleftrightarrow> (\<exists>v. q = e_guid v \<and> v \<in> set (endpoints g) \<and> relevant_to prefix g qt qy v \<and> e_kind v = Reader)"
    and c: "\<And>w. w \<in> set c \<longleftrightarrow> (\<exists>v. w = e_guid v \<and> v \<in> set (endpoints g) \<and> relevant_to prefix g rt ry v \<and> e_kind v = Writer)"
    by auto
  show ?thesis unfolding service_state_complete [OF l] Bex_def b c by blast
qed

text \<open>
  Node references are exact. As long as facades release each node once, endpoints are
  registered under a held node and no GUID moves between nodes, the count of every local node
  of a healthy graph is the number of its endpoints plus one while its facade holds it, and a
  node is present exactly as long as that number is not zero.
\<close>

theorem node_references_exact:
  assumes "held_run H g" "health g = Healthy"
  shows "map_option references (find (\<lambda>n. ln_id n = i) (local_nodes g)) =
    (let c = (if i \<in> H then 1 else 0) + length (filter (\<lambda>e. le_node_id e = i) (local_endpoints g))
     in if c = 0 then None else Some c)"
  using held_run_refs [OF assms(1)] assms(2)
  by (simp add: refs_exact_def node_references_def counted_def endpoint_count_def Let_def)

lemmas exec_nodes = held_after_def add_local_node_def local_node_change_def mutate_def Let_def
  u64_max_def notify_def add_local_endpoint_def local_endpoint_change_def remove_local_endpoint_def
  remove_endpoint_change_def drop_reference_def release_local_node_def release_node_change_def

lemma one_node_run: "held_run {1} (snd (graph_exec (GAddNode ''n'' ''/'') (new_graph :: nat DiscoveryGraph)))"
  using held_run.step [OF held_run.start, of "GAddNode ''n'' ''/''"]
  by (simp add: disciplined_def exec_nodes new_graph_def)

theorem node_references_exact_witness:
  "map_option references (find (\<lambda>n. ln_id n = 1)
     (local_nodes (snd (graph_exec (GAddNode ''n'' ''/'') (new_graph :: nat DiscoveryGraph))))) = Some 1"
proof -
  have "health (snd (graph_exec (GAddNode ''n'' ''/'') (new_graph :: nat DiscoveryGraph))) = Healthy"
    by (simp add: exec_nodes new_graph_def)
  from node_references_exact [OF one_node_run this, of 1] show ?thesis
    by (simp add: exec_nodes new_graph_def)
qed

definition moved_endpoint :: "Guid \<Rightarrow> nat GraphOp list" where
  "moved_endpoint u = [GAddNode ''a'' ''/'', GAddNode ''b'' ''/'', GAddLocal u Writer ''t'' ''y'' 1 0,
      GAddLocal u Writer ''t'' ''y'' 2 0, GRemoveLocal u]"

lemma moved_endpoint_run:
  "graph_run (moved_endpoint u) new_graph = new_graph\<lparr>revision := 5, next_local_node_id := 2,
     local_nodes := [\<lparr>ln_id = 1, ln_name = ''a'', ln_namespace = ''/'', references = 2\<rparr>]\<rparr>"
  by (simp add: moved_endpoint_def graph_run_def exec_nodes new_graph_def)

text \<open>
  Moving a registered GUID to another node, which the graph accepts as a change, does not
  move its reference: two nodes, an endpoint moved from the first to the second and then removed,
  and the second node is gone although its facade still holds it, while the first stays in the
  graph after its facade has released it and it has no endpoint left.
\<close>

theorem reassociation_breaks_references:
  "map ln_id (local_nodes (graph_run (moved_endpoint u) new_graph)) = [1]
   \<and> local_nodes (graph_run (moved_endpoint u @ [GReleaseNode 1]) new_graph) =
       [\<lparr>ln_id = 1, ln_name = ''a'', ln_namespace = ''/'', references = 1\<rparr>]
   \<and> local_endpoints (graph_run (moved_endpoint u @ [GReleaseNode 1]) new_graph) = []
   \<and> health (graph_run (moved_endpoint u @ [GReleaseNode 1]) new_graph) = Healthy"
  by (simp add: graph_run_append moved_endpoint_run) (simp add: graph_run_def exec_nodes new_graph_def)

text \<open>
  A change of QoS alone is not seen: an announcement of a known endpoint that differs from
  the record only in its QoS leaves the graph exactly as it was, the old QoS included, and
  notifies nobody.
\<close>

theorem qos_update_lost:
  assumes "graph_ok g" "find_endpoint u g = Some e" "endpoint_state u g = EndpointActive"
    and "e_lifecycle e = Added"
  shows "apply_endpoint u (e_kind e) (e_topic e) (e_type e) Added q g = ([], g)"
proof -
  obtain p where p: "find_participant (guidPrefix u) g = Some p"
    using endpoint_participant [OF assms(1,2)] by blast
  then have "p_lifecycle p = Added" "health g = Healthy"
    using assms(2,3) find_endpoint_guid [OF assms(2)]
    by (cases "p_lifecycle p"; auto simp: endpoint_state_def split: if_splits)+
  then show ?thesis
    using p assms(2,4) by (simp add: apply_endpoint_def mutate_def endpoint_change_def participant_for_def)
qed

theorem qos_update_lost_witness:
  "let u = \<lparr>guidPrefix = [1], entityId = [2]\<rparr>;
       g = graph_run [GEndpoint u Writer ''t'' ''y'' Added (0::nat)] new_graph
   in apply_endpoint u Writer ''t'' ''y'' Added 1 g = ([], g)"
proof -
  let ?u = "\<lparr>guidPrefix = [1], entityId = [2]\<rparr>"
  let ?g = "graph_run [GEndpoint ?u Writer ''t'' ''y'' Added (0::nat)] new_graph"
  let ?e = "\<lparr>e_guid = ?u, e_kind = Writer, e_topic = ''t'', e_type = ''y'', e_qos = 0::nat, e_lifecycle = Added\<rparr>"
  have e: "find_endpoint ?u ?g = Some ?e" and a: "endpoint_state ?u ?g = EndpointActive"
    by (simp_all add: graph_run_def new_graph_def apply_endpoint_def endpoint_change_def participant_for_def
        find_participant_def find_endpoint_def mutate_def Let_def u64_max_def endpoint_state_def)
  from qos_update_lost [OF graph_run_ok [OF new_graph_ok] e a, of 1]
  show ?thesis by (simp add: Let_def)
qed

end
