(* ===== verification/Gates.thy ===== *)
theory Gates
  imports Prelude
begin

text \<open>
  The gates that let an owner delete what its callbacks use: callbacks enter and leave, the owner
  closes the gate and waits until nobody is inside. The same contract has three implementations:
  \<^verbatim>\<open>CallbackInFlightGate\<close> of \<^verbatim>\<open>impl/request.hpp\<close> (and its copy in
  \<^verbatim>\<open>impl/event_parent_state.cpp\<close>), \<^verbatim>\<open>DiscoveryListener::guard\<close> and the \<^verbatim>\<open>Subscriber\<close> of
  \<^verbatim>\<open>impl/discovery_graph.hpp\<close>. The contract is the locale \<open>in_flight_gate\<close>; each implementation
  interprets it.
\<close>

section \<open>The implementations\<close>

record CallbackInFlightGate =
  accepting_callbacks :: bool
  callbacks_in_flight :: nat

definition gate_enter :: "CallbackInFlightGate \<Rightarrow> bool \<times> CallbackInFlightGate" where
  "gate_enter g =
     (if \<not> accepting_callbacks g then (False, g)
      else (True, g\<lparr>callbacks_in_flight := callbacks_in_flight g + 1\<rparr>))"

definition gate_release :: "CallbackInFlightGate \<Rightarrow> CallbackInFlightGate" where
  "gate_release g = g\<lparr>callbacks_in_flight := callbacks_in_flight g - 1\<rparr>"

text \<open>\<^verbatim>\<open>close_and_drain\<close> is two sections: it closes, and returns once \<open>gate_drained\<close> holds.\<close>

definition gate_close :: "CallbackInFlightGate \<Rightarrow> CallbackInFlightGate" where
  "gate_close g = g\<lparr>accepting_callbacks := False\<rparr>"

definition gate_drained :: "CallbackInFlightGate \<Rightarrow> bool" where
  "gate_drained g \<longleftrightarrow> callbacks_in_flight g = 0"

record DiscoveryListener =
  l_active :: bool
  l_accepting :: bool
  l_in_flight :: nat

definition listener_activate :: "DiscoveryListener \<Rightarrow> DiscoveryListener" where
  "listener_activate l = l\<lparr>l_active := True\<rparr>"

definition listener_enter :: "DiscoveryListener \<Rightarrow> bool \<times> DiscoveryListener" where
  "listener_enter l =
     (if \<not> l_active l then (False, l)
      else if \<not> l_accepting l then (False, l)
      else (True, l\<lparr>l_in_flight := l_in_flight l + 1\<rparr>))"

definition listener_leave :: "DiscoveryListener \<Rightarrow> DiscoveryListener" where
  "listener_leave l = l\<lparr>l_in_flight := l_in_flight l - 1\<rparr>"

definition listener_close :: "DiscoveryListener \<Rightarrow> DiscoveryListener" where
  "listener_close l = l\<lparr>l_active := False, l_accepting := False\<rparr>"

record GraphSubscriber =
  s_accepting :: bool
  s_in_flight :: nat

definition subscriber_enter :: "GraphSubscriber \<Rightarrow> bool \<times> GraphSubscriber" where
  "subscriber_enter s =
     (if \<not> s_accepting s then (False, s) else (True, s\<lparr>s_in_flight := s_in_flight s + 1\<rparr>))"

definition subscriber_leave :: "GraphSubscriber \<Rightarrow> GraphSubscriber" where
  "subscriber_leave s = s\<lparr>s_in_flight := s_in_flight s - 1\<rparr>"

definition subscriber_close :: "GraphSubscriber \<Rightarrow> GraphSubscriber" where
  "subscriber_close s = s\<lparr>s_accepting := False\<rparr>"

section \<open>Schedules\<close>

text \<open>
  A schedule of critical sections: callback \<open>t\<close> asks to enter or leaves, the owner closes. The
  second component of the state is the set of callbacks that are running.
\<close>

datatype gate_event = Enter nat | Leave nat | Close

fun gate_exec ::
  "('g \<Rightarrow> bool \<times> 'g) \<Rightarrow> ('g \<Rightarrow> 'g) \<Rightarrow> ('g \<Rightarrow> 'g) \<Rightarrow> gate_event \<Rightarrow> 'g \<times> nat set \<Rightarrow> 'g \<times> nat set" where
  "gate_exec enter leave close (Enter t) (g, A) =
     (if t \<in> A then (g, A) else let (admitted, g1) = enter g in (g1, if admitted then insert t A else A))"
| "gate_exec enter leave close (Leave t) (g, A) = (if t \<in> A then (leave g, A - {t}) else (g, A))"
| "gate_exec enter leave close Close (g, A) = (close g, A)"

definition gate_run where
  "gate_run enter leave close evs s = fold (gate_exec enter leave close) evs s"

lemma gate_run_simps [simp]:
  "gate_run e l c [] s = s"
  "gate_run e l c (ev # evs) s = gate_run e l c evs (gate_exec e l c ev s)"
  "gate_run e l c (xs @ ys) s = gate_run e l c ys (gate_run e l c xs s)"
  by (simp_all add: gate_run_def)

locale in_flight_gate =
  fixes enter :: "'g \<Rightarrow> bool \<times> 'g"
    and leave :: "'g \<Rightarrow> 'g"
    and close :: "'g \<Rightarrow> 'g"
    and accepting :: "'g \<Rightarrow> bool"
    and inside :: "'g \<Rightarrow> nat"
  assumes enter_admits: "enter g = (True, g') \<Longrightarrow> accepting g \<and> accepting g' \<and> inside g' = inside g + 1"
    and enter_refuses: "enter g = (False, g') \<Longrightarrow> g' = g"
    and leave_inside: "inside (leave g) = inside g - 1"
    and leave_accepting: "accepting (leave g) = accepting g"
    and close_accepting: "\<not> accepting (close g)"
    and close_inside: "inside (close g) = inside g"
begin

lemma exec_counts:
  assumes "finite A" "inside g = card A" "gate_exec enter leave close ev (g, A) = (g', A')"
  shows "finite A' \<and> inside g' = card A'"
proof (cases ev)
  case (Enter t)
  obtain b g1 where e: "enter g = (b, g1)" by fastforce
  show ?thesis
    using assms Enter e enter_admits enter_refuses
    by (cases b) (auto split: if_splits)
next
  case (Leave t)
  then show ?thesis using assms by (auto simp: leave_inside card_Diff_singleton_if split: if_splits)
next
  case Close
  then show ?thesis using assms by (auto simp: close_inside)
qed

lemma run_counts:
  "finite A \<Longrightarrow> inside g = card A \<Longrightarrow> gate_run enter leave close evs (g, A) = (g', A') \<Longrightarrow>
    finite A' \<and> inside g' = card A'"
proof (induction evs arbitrary: g A)
  case (Cons ev evs)
  obtain g1 A1 where e: "gate_exec enter leave close ev (g, A) = (g1, A1)" by fastforce
  show ?case using Cons.IH [of A1 g1] Cons.prems(3) e exec_counts [OF Cons.prems(1,2) e] by simp
qed simp

lemma exec_closed:
  assumes "\<not> accepting g" "gate_exec enter leave close ev (g, A) = (g', A')"
  shows "\<not> accepting g' \<and> A' \<subseteq> A"
proof (cases ev)
  case (Enter t)
  obtain b g1 where e: "enter g = (b, g1)" by fastforce
  with assms(1) have "\<not> b" using enter_admits by (cases b) auto
  with e have "g1 = g" "\<not> b" using enter_refuses by (cases b; simp)+
  then show ?thesis using assms Enter e by (auto split: if_splits)
next
  case (Leave t)
  then show ?thesis using assms by (auto simp: leave_accepting split: if_splits)
next
  case Close
  then show ?thesis using assms by (auto simp: close_accepting)
qed

lemma run_closed:
  "\<not> accepting g \<Longrightarrow> gate_run enter leave close evs (g, A) = (g', A') \<Longrightarrow> \<not> accepting g' \<and> A' \<subseteq> A"
proof (induction evs arbitrary: g A)
  case (Cons ev evs)
  obtain g1 A1 where e: "gate_exec enter leave close ev (g, A) = (g1, A1)" by fastforce
  show ?case using Cons.IH [of g1 A1] Cons.prems(2) e exec_closed [OF Cons.prems(1) e] by auto
qed simp

text \<open>
  What \<^verbatim>\<open>close_and_drain\<close> promises: when nobody is inside after the close, no callback runs,
  and none ever runs again.
\<close>

lemma drained_for_good:
  assumes "inside g = 0" "gate_run enter leave close (before @ Close # mid) (g, {}) = (g', A')"
    and "inside g' = 0"
  shows "snd (gate_run enter leave close (before @ Close # mid @ rest) (g, {})) = {}"
proof -
  obtain g1 A1 where b: "gate_run enter leave close before (g, {}) = (g1, A1)" by fastforce
  have "\<not> accepting g' \<and> A' \<subseteq> A1"
    by (rule run_closed [OF close_accepting]) (use assms(2) b in simp)
  moreover have "finite A' \<and> inside g' = card A'"
    using run_counts [OF _ _ assms(2)] assms(1) by simp
  ultimately have a: "\<not> accepting g'" "A' = {}" using assms(3) by auto
  obtain g2 A2 where r: "gate_run enter leave close rest (g', A') = (g2, A2)" by fastforce
  then have "A2 = {}" using run_closed [OF a(1) r] a(2) by simp
  moreover have "gate_run enter leave close (before @ Close # mid @ rest) (g, {}) =
      gate_run enter leave close rest (gate_run enter leave close (before @ Close # mid) (g, {}))"
    by simp
  ultimately show ?thesis using assms(2) r by simp
qed

text \<open>The wait ends: every running callback that leaves brings the count down to nobody inside.\<close>

lemma leaving_drains:
  assumes "distinct ts" "set ts = A" "inside g = card A"
  shows "inside (fst (gate_run enter leave close (map Leave ts) (g, A))) = 0"
  using assms
proof (induction ts arbitrary: g A)
  case (Cons t ts)
  have "inside (leave g) = card (A - {t})" "set ts = A - {t}" "distinct ts"
    using Cons.prems by (auto simp: leave_inside card_Diff_singleton_if)
  with Cons.IH Cons.prems show ?case by auto
qed simp

end

interpretation callback_gate: in_flight_gate gate_enter gate_release gate_close accepting_callbacks callbacks_in_flight
  by unfold_locales (auto simp: gate_enter_def gate_release_def gate_close_def split: if_splits)

interpretation listener_gate: in_flight_gate listener_enter listener_leave listener_close l_accepting l_in_flight
  by unfold_locales (auto simp: listener_enter_def listener_leave_def listener_close_def split: if_splits)

interpretation subscriber_gate: in_flight_gate subscriber_enter subscriber_leave subscriber_close s_accepting s_in_flight
  by unfold_locales (auto simp: subscriber_enter_def subscriber_leave_def subscriber_close_def split: if_splits)

section \<open>Properties\<close>

text \<open>
  Once \<^verbatim>\<open>close_and_drain\<close> of a callback gate returns, under every schedule of callbacks
  that enter and leave, no callback is running and none ever runs again, so that the owner may
  delete what the callbacks use; and it can always return, because the callbacks that are inside
  at any moment bring the count to zero by leaving.
\<close>

theorem close_and_drain_final:
  assumes "gate_run gate_enter gate_release gate_close (before @ Close # mid)
      (\<lparr>accepting_callbacks = True, callbacks_in_flight = 0\<rparr>, {}) = (g', A')"
  shows "(gate_drained g' \<longrightarrow> A' = {} \<and>
      snd (gate_run gate_enter gate_release gate_close (before @ Close # mid @ rest)
        (\<lparr>accepting_callbacks = True, callbacks_in_flight = 0\<rparr>, {})) = {})
    \<and> (distinct ts \<and> set ts = A' \<longrightarrow>
      gate_drained (fst (gate_run gate_enter gate_release gate_close (map Leave ts) (g', A'))))"
proof -
  let ?g = "\<lparr>accepting_callbacks = True, callbacks_in_flight = 0\<rparr>"
  have c: "finite A' \<and> callbacks_in_flight g' = card A'"
    by (rule callback_gate.run_counts [OF _ _ assms]) simp_all
  have "gate_drained g' \<longrightarrow> A' = {} \<and>
      snd (gate_run gate_enter gate_release gate_close (before @ Close # mid @ rest) (?g, {})) = {}"
    using callback_gate.drained_for_good [OF _ assms, of rest] c by (auto simp: gate_drained_def)
  moreover have "distinct ts \<and> set ts = A' \<longrightarrow>
      gate_drained (fst (gate_run gate_enter gate_release gate_close (map Leave ts) (g', A')))"
    using callback_gate.leaving_drains [of ts A' g'] c by (simp add: gate_drained_def)
  ultimately show ?thesis by blast
qed

theorem close_and_drain_final_witness:
  "snd (gate_run gate_enter gate_release gate_close ([Enter 1] @ Close # [Leave 1] @ [Enter 2])
     (\<lparr>accepting_callbacks = True, callbacks_in_flight = 0\<rparr>, {})) = {}"
  using close_and_drain_final [of "[Enter 1]" "[Leave 1]"
      "\<lparr>accepting_callbacks = False, callbacks_in_flight = 0\<rparr>" "{}" "[Enter 2]" "[]"]
  by (simp add: gate_enter_def gate_release_def gate_close_def gate_drained_def)

text \<open>
  After the drain of a discovery listener nothing reaches the graph any more, whether the
  listener was active or not, and the drained subscriber of a graph is never called again.
\<close>

theorem listener_drain_final:
  assumes "gate_run listener_enter listener_leave listener_close (before @ Close # mid)
      (\<lparr>l_active = a, l_accepting = True, l_in_flight = 0\<rparr>, {}) = (l', A')" "l_in_flight l' = 0"
    and "gate_run subscriber_enter subscriber_leave subscriber_close (before' @ Close # mid')
      (\<lparr>s_accepting = True, s_in_flight = 0\<rparr>, {}) = (s', B')" "s_in_flight s' = 0"
  shows "snd (gate_run listener_enter listener_leave listener_close (before @ Close # mid @ rest)
      (\<lparr>l_active = a, l_accepting = True, l_in_flight = 0\<rparr>, {})) = {}
    \<and> snd (gate_run subscriber_enter subscriber_leave subscriber_close (before' @ Close # mid' @ rest')
      (\<lparr>s_accepting = True, s_in_flight = 0\<rparr>, {})) = {}"
  using listener_gate.drained_for_good [OF _ assms(1,2)] subscriber_gate.drained_for_good [OF _ assms(3,4)]
  by simp

theorem listener_drain_final_witness:
  "snd (gate_run listener_enter listener_leave listener_close ([Enter 1] @ Close # [Leave 1] @ [Enter 2])
     (\<lparr>l_active = True, l_accepting = True, l_in_flight = 0\<rparr>, {})) = {}"
  using listener_drain_final [of "[Enter 1]" "[Leave 1]" True
      "\<lparr>l_active = False, l_accepting = False, l_in_flight = 0\<rparr>" "{}" "[]" "[]"
      "\<lparr>s_accepting = False, s_in_flight = 0\<rparr>" "{}" "[Enter 2]" "[]"]
  by (simp add: listener_enter_def listener_leave_def listener_close_def subscriber_close_def)

end
