(* ===== verification/Matching.thy ===== *)
theory Matching
  imports Discovery ServerFsm
begin

text \<open>
  Which remote endpoints a service is matched with: \<^verbatim>\<open>RequestState\<close> of \<^verbatim>\<open>impl/request.hpp\<close>, on
  which a client decides that its server is available, and \<^verbatim>\<open>ResponseState\<close> of
  \<^verbatim>\<open>impl/response.hpp\<close>, on which a server decides that a response can reach its client. The
  graph they refer to weakly is an argument, \<open>None\<close> when it is gone. A handle of Fast DDS is the
  GUID it stands for, \<open>None\<close> when it is undefined; the two unknown values are parameters.
\<close>

section \<open>Counts of matched endpoints\<close>

text \<open>
  Both states count what the DDS reports for a key: an entry is made by the first positive change
  and erased when a decrement reaches its count.
\<close>

definition count_change :: "'k \<Rightarrow> int \<Rightarrow> ('k \<times> nat) list \<Rightarrow> ('k \<times> nat) list" where
  "count_change k change cs =
     (if change > 0 then
        (case find (\<lambda>c. fst c = k) cs of
           None \<Rightarrow> cs @ [(k, nat change)]
         | Some _ \<Rightarrow> upd_first (\<lambda>c. fst c = k) (\<lambda>c. (fst c, snd c + nat change)) cs)
      else
        (case find (\<lambda>c. fst c = k) cs of
           None \<Rightarrow> cs
         | Some c \<Rightarrow>
             if nat (- change) \<ge> snd c then del_first (\<lambda>c. fst c = k) cs
             else upd_first (\<lambda>c. fst c = k) (\<lambda>c. (fst c, snd c - nat (- change))) cs))"

definition count_of :: "'k \<Rightarrow> ('k \<times> nat) list \<Rightarrow> nat option" where
  "count_of k cs = map_option snd (find (\<lambda>c. fst c = k) cs)"

definition counts_ok :: "('k \<times> nat) list \<Rightarrow> bool" where
  "counts_ok cs \<longleftrightarrow> distinct (map fst cs) \<and> (\<forall>c \<in> set cs. 0 < snd c)"

definition counted_int :: "int \<Rightarrow> nat option" where
  "counted_int n = (if n \<le> 0 then None else Some (nat n))"

lemma find_key_append_new: "find (\<lambda>c. fst c = k) cs = None \<Longrightarrow>
    find (\<lambda>c. fst c = j) (cs @ [(k, n)]) = (if j = k then Some (k, n) else find (\<lambda>c. fst c = j) cs)"
  by (auto simp: find_append split: option.splits)

lemma count_upd:
  "(\<And>c. fst (f c) = fst c) \<Longrightarrow> count_of j (upd_first (\<lambda>c. fst c = k) f cs) =
    (if j = k then map_option (\<lambda>c. snd (f c)) (find (\<lambda>c. fst c = k) cs) else count_of j cs)"
  unfolding count_of_def
  by (cases "j = k") (auto simp: find_upd_first_same option.map_comp comp_def
      intro!: arg_cong [where f = "map_option snd"] find_upd_first_other)

lemma count_del:
  "distinct (map fst cs) \<Longrightarrow> count_of j (del_first (\<lambda>c. fst c = k) cs) =
    (if j = k then None else count_of j cs)"
  by (cases "j = k") (auto simp: count_of_def find_del_first_key
      intro!: arg_cong [where f = "map_option snd"] find_del_first_other)

text \<open>The count of a key after a change: what it was plus the change, gone when that is not positive.\<close>

lemma count_of_change:
  assumes "counts_ok cs"
  shows "count_of j (count_change k change cs) =
    (if j = k then counted_int (int (case count_of k cs of None \<Rightarrow> 0 | Some n \<Rightarrow> n) + change) else count_of j cs)"
proof (cases "find (\<lambda>c. fst c = k) cs")
  case None
  then show ?thesis
    by (auto simp: count_change_def count_of_def find_key_append_new counted_int_def)
next
  case (Some c)
  have d: "distinct (map fst cs)" using assms by (simp add: counts_ok_def)
  have p: "0 < snd c" using assms find_Some_set [OF Some] by (auto simp: counts_ok_def)
  show ?thesis
    using Some p by (auto simp: count_change_def count_upd count_del [OF d] counted_int_def)
      (auto simp: count_of_def nat_add_distrib nat_diff_distrib nat_minus_as_int)
qed

lemma counts_ok_change: assumes "counts_ok cs" "change \<noteq> 0" shows "counts_ok (count_change k change cs)"
proof -
  have d: "distinct (map fst cs)" and p: "\<forall>c \<in> set cs. 0 < snd c" using assms by (auto simp: counts_ok_def)
  have upd: "counts_ok (upd_first (\<lambda>c. fst c = k) (\<lambda>c. (fst c, f (snd c))) cs)"
    if "\<And>c. find (\<lambda>c. fst c = k) cs = Some c \<Longrightarrow> 0 < f (snd c)" for f
    using that d p by (induction cs) (auto simp: counts_ok_def map_upd_first_same dest!: set_upd_first split: if_splits)
  show ?thesis
  proof (cases "find (\<lambda>c. fst c = k) cs")
    case None
    then have "k \<notin> set (map fst cs)" by (auto simp: find_None_set)
    with None show ?thesis using d p by (auto simp: count_change_def counts_ok_def)
  next
    case (Some c)
    have "counts_ok (del_first (\<lambda>c. fst c = k) cs)"
      using d p set_del_first [of "\<lambda>c. fst c = k" cs] by (auto simp: counts_ok_def intro: distinct_map_del_first)
    with Some assms(2) show ?thesis by (auto simp: count_change_def intro!: upd)
  qed
qed

section \<open>\<^verbatim>\<open>RequestState\<close>\<close>

record RequestState =
  rs_degraded :: bool
  request_participants :: "(Bytes \<times> nat) list"
  response_participants :: "(Bytes \<times> nat) list"
  request_topic :: string
  request_type :: string
  response_topic :: string
  response_type :: string
  require_node_association :: bool

definition request_update ::
  "Bytes \<Rightarrow> Guid option \<Rightarrow> int \<Rightarrow> (Bytes \<times> nat) list \<Rightarrow> (Bytes \<times> nat) list" where
  "request_update unknown handle change ps =
     (case handle of
        None \<Rightarrow> ps
      | Some guid \<Rightarrow>
          if change = 0 then ps
          else if guidPrefix guid = unknown then ps
          else count_change (guidPrefix guid) change ps)"

definition observe_request_reader :: "Bytes \<Rightarrow> Guid option \<Rightarrow> int \<Rightarrow> RequestState \<Rightarrow> RequestState" where
  "observe_request_reader unknown handle change s =
     s\<lparr>request_participants := request_update unknown handle change (request_participants s)\<rparr>"

definition observe_response_writer :: "Bytes \<Rightarrow> Guid option \<Rightarrow> int \<Rightarrow> RequestState \<Rightarrow> RequestState" where
  "observe_response_writer unknown handle change s =
     s\<lparr>response_participants := request_update unknown handle change (response_participants s)\<rparr>"

definition request_degrade :: "RequestState \<Rightarrow> RequestState" where
  "request_degrade s = s\<lparr>rs_degraded := True, request_participants := [], response_participants := []\<rparr>"

definition request_is_degraded :: "'q DiscoveryGraph option \<Rightarrow> RequestState \<Rightarrow> bool" where
  "request_is_degraded graph s \<longleftrightarrow>
     rs_degraded s \<or> (case graph of None \<Rightarrow> False | Some g \<Rightarrow> health g \<noteq> Healthy)"

fun available_loop ::
  "'q DiscoveryGraph option \<Rightarrow> RequestState \<Rightarrow> (Bytes \<times> nat) list \<Rightarrow> bool" where
  "available_loop graph s [] = False"
| "available_loop graph s (request # requests) =
     (case find (\<lambda>c. fst c = fst request) (response_participants s) of
        None \<Rightarrow> available_loop graph s requests
      | Some response \<Rightarrow>
          if snd request \<noteq> snd response then available_loop graph s requests
          else (case graph of
            None \<Rightarrow> True
          | Some g \<Rightarrow>
              (case service_state (fst request) (request_topic s) (request_type s) (response_topic s)
                      (response_type s) (require_node_association s) g of
                 ServiceUnavailable \<Rightarrow> False
               | ServiceComplete \<Rightarrow> True
               | _ \<Rightarrow> available_loop graph s requests)))"

definition is_available :: "'q DiscoveryGraph option \<Rightarrow> RequestState \<Rightarrow> bool" where
  "is_available graph s =
     (if rs_degraded s then False
      else if (case graph of None \<Rightarrow> False | Some g \<Rightarrow> health g \<noteq> Healthy) then False
      else available_loop graph s (request_participants s))"

section \<open>\<^verbatim>\<open>ResponseState\<close>\<close>

record ResponseState =
  ps_degraded :: bool
  readers :: "(Guid \<times> nat) list"

definition observe_reader :: "Guid \<Rightarrow> Guid option \<Rightarrow> int \<Rightarrow> ResponseState \<Rightarrow> ResponseState" where
  "observe_reader unknown handle change s =
     (case handle of
        None \<Rightarrow> s
      | Some guid \<Rightarrow>
          if change = 0 then s
          else if guid = unknown then s
          else s\<lparr>readers := count_change guid change (readers s)\<rparr>)"

definition response_degrade :: "ResponseState \<Rightarrow> ResponseState" where
  "response_degrade s = s\<lparr>ps_degraded := True, readers := []\<rparr>"

definition target_status :: "'q DiscoveryGraph option \<Rightarrow> Guid \<Rightarrow> TargetStatus" where
  "target_status graph reader =
     (case graph of
        None \<Rightarrow> TargetUnavailable
      | Some g \<Rightarrow>
          if health g \<noteq> Healthy then TargetUnavailable
          else (case endpoint_state reader g of
            EndpointRemoved \<Rightarrow> TargetRemoved
          | EndpointUnavailable \<Rightarrow> TargetUnavailable
          | EndpointActive \<Rightarrow> TargetTimedOut
          | EndpointUnknown \<Rightarrow> TargetTimedOut))"

definition reader_present :: "Guid \<Rightarrow> ResponseState \<Rightarrow> bool" where
  "reader_present reader s \<longleftrightarrow> (\<exists>c \<in> set (readers s). fst c = reader)"

definition check_target :: "'q DiscoveryGraph option \<Rightarrow> Guid \<Rightarrow> ResponseState \<Rightarrow> TargetStatus" where
  "check_target graph reader s =
     (let status = target_status graph reader in
      if ps_degraded s \<or> status = TargetUnavailable then TargetUnavailable
      else if status = TargetRemoved then TargetRemoved
      else if reader_present reader s then TargetReady else TargetTimedOut)"

text \<open>
  The wait. \<open>wakes\<close> are the notifications before the deadline, each with the graph and the state
  the loop finds after it; when they run out the condition variable times out.
\<close>

fun wait_loop ::
  "Guid \<Rightarrow> TargetStatus \<Rightarrow> ResponseState \<Rightarrow> ('q DiscoveryGraph option \<times> ResponseState) list \<Rightarrow> TargetStatus" where
  "wait_loop reader status s wakes =
     (if ps_degraded s \<or> status = TargetUnavailable then TargetUnavailable
      else if status = TargetRemoved then TargetRemoved
      else if reader_present reader s then TargetReady
      else (case wakes of
        [] \<Rightarrow> TargetTimedOut
      | (graph, s') # wakes' \<Rightarrow> wait_loop reader (target_status graph reader) s' wakes'))"

declare wait_loop.simps [simp del]

definition wait_for_target ::
  "'q DiscoveryGraph option \<Rightarrow> Guid \<Rightarrow> ResponseState \<Rightarrow> ('q DiscoveryGraph option \<times> ResponseState) list \<Rightarrow> TargetStatus" where
  "wait_for_target graph reader s wakes =
     (let status = target_status graph reader in
      if ps_degraded s then TargetUnavailable else wait_loop reader status s wakes)"

lemma target_status_not_ready: "target_status graph reader \<noteq> TargetReady"
  by (auto simp: target_status_def split: option.splits EndpointState.splits)

lemma wait_loop_check:
  "wait_loop reader (target_status graph reader) s wakes =
     (if check_target graph reader s \<noteq> TargetTimedOut then check_target graph reader s
      else case wakes of [] \<Rightarrow> TargetTimedOut
        | (graph', s') # wakes' \<Rightarrow> wait_loop reader (target_status graph' reader) s' wakes')"
  by (subst wait_loop.simps) (simp add: check_target_def Let_def)

lemma available_loop_iff:
  assumes "case graph of None \<Rightarrow> True | Some g \<Rightarrow> health g = Healthy"
  shows "available_loop graph s requests \<longleftrightarrow>
    (\<exists>r \<in> set requests. count_of (fst r) (response_participants s) = Some (snd r)
       \<and> (case graph of None \<Rightarrow> True | Some g \<Rightarrow>
            service_state (fst r) (request_topic s) (request_type s) (response_topic s) (response_type s)
              (require_node_association s) g = ServiceComplete))"
proof (induction requests)
  case (Cons r rs)
  have nu: "service_state p a b c d e g \<noteq> ServiceUnavailable" if "graph = Some g" for p a b c d e g
    using assms that by (auto simp: service_state_def split: prod.splits option.splits)
  show ?case
  proof (cases "count_of (fst r) (response_participants s) = Some (snd r)")
    case False
    then have "available_loop graph s (r # rs) = available_loop graph s rs"
      by (auto simp: count_of_def split: option.splits)
    with False Cons.IH show ?thesis by auto
  next
    case True
    then obtain c where c: "find (\<lambda>c. fst c = fst r) (response_participants s) = Some c" "snd c = snd r"
      by (auto simp: count_of_def)
    show ?thesis
    proof (cases graph)
      case None
      with True c show ?thesis by auto
    next
      case (Some g)
      show ?thesis
        using nu [OF Some, of "fst r" "request_topic s" "request_type s" "response_topic s"
            "response_type s" "require_node_association s"] c True Some Cons.IH
        by (cases "service_state (fst r) (request_topic s) (request_type s) (response_topic s)
            (response_type s) (require_node_association s) g") auto
    qed
  qed
qed simp

section \<open>Runs of notifications\<close>

text \<open>The changes reported for one prefix, in order, and their sum.\<close>

fun request_run :: "Bytes \<Rightarrow> (Guid option \<times> int) list \<Rightarrow> (Bytes \<times> nat) list \<Rightarrow> (Bytes \<times> nat) list" where
  "request_run unknown [] ps = ps"
| "request_run unknown ((h, c) # hs) ps = request_run unknown hs (request_update unknown h c ps)"

definition changes_for :: "Bytes \<Rightarrow> (Guid option \<times> int) list \<Rightarrow> int list" where
  "changes_for p hs = map snd (filter (\<lambda>(h, c). \<exists>guid. h = Some guid \<and> guidPrefix guid = p) hs)"

definition balanced :: "int list \<Rightarrow> bool" where
  "balanced cs \<longleftrightarrow> (\<forall>n \<le> length cs. 0 \<le> sum_list (take n cs))"

lemma request_run_append: "request_run u (xs @ ys) ps = request_run u ys (request_run u xs ps)"
  by (induction u xs ps rule: request_run.induct) auto

lemma balanced_butlast: "balanced (cs @ [c]) \<Longrightarrow> balanced cs \<and> 0 \<le> sum_list cs + c"
proof -
  assume b: "balanced (cs @ [c])"
  have "0 \<le> sum_list (take (length cs + 1) (cs @ [c]))" using b [unfolded balanced_def, rule_format, of "length cs + 1"] by simp
  moreover have "0 \<le> sum_list (take n cs)" if "n \<le> length cs" for n
    using b that unfolding balanced_def by (metis le_SucI length_append_singleton take_append diff_is_0_eq take0 append_Nil2)
  ultimately show ?thesis by (simp add: balanced_def)
qed

lemma request_update_ok: "counts_ok ps \<Longrightarrow> counts_ok (request_update u h c ps)"
  by (auto simp: request_update_def counts_ok_change split: option.splits)

lemma request_run_ok: "counts_ok ps \<Longrightarrow> counts_ok (request_run u hs ps)"
  by (induction u hs ps rule: request_run.induct) (simp_all add: request_update_ok)

lemma request_run_count:
  assumes "p \<noteq> unknown" "balanced (changes_for p hs)"
  shows "count_of p (request_run unknown hs []) = counted_int (sum_list (changes_for p hs))"
  using assms(2)
proof (induction hs rule: rev_induct)
  case Nil
  then show ?case by (simp add: changes_for_def count_of_def counted_int_def)
next
  case (snoc hc hs)
  obtain h c where hc: "hc = (h, c)" by fastforce
  let ?ps = "request_run unknown hs []"
  have ok: "counts_ok ?ps" by (rule request_run_ok) (simp add: counts_ok_def)
  show ?case
  proof (cases "\<exists>guid. h = Some guid \<and> guidPrefix guid = p")
    case False
    then have same: "changes_for p (hs @ [hc]) = changes_for p hs" by (simp add: changes_for_def hc)
    have "count_of p (request_update unknown h c ?ps) = count_of p ?ps"
      using False by (auto simp: request_update_def count_of_change [OF ok] split: option.splits)
    then show ?thesis using snoc same by (simp add: request_run_append hc)
  next
    case True
    then have ch: "changes_for p (hs @ [hc]) = changes_for p hs @ [c]" by (auto simp: changes_for_def hc)
    note b = balanced_butlast [OF snoc.prems [unfolded ch]]
    have IH: "count_of p ?ps = counted_int (sum_list (changes_for p hs))" using snoc.IH b by simp
    have nn: "0 \<le> sum_list (changes_for p hs)"
      using b unfolding balanced_def by (metis order_refl take_all)
    show ?thesis
      using True IH nn ch assms(1)
      by (auto simp: request_run_append hc request_update_def count_of_change [OF ok] counted_int_def)
  qed
qed

section \<open>Properties\<close>

text \<open>
  The match counts are exact: after any sequence of match notifications in which what was
  reported for a participant never adds up to a negative number, its count is the sum of the
  reported changes, and the participant is listed exactly while that sum is positive.
  Notifications for other participants, undefined handles and the unknown prefix change nothing.
\<close>

theorem match_counts_exact:
  assumes "p \<noteq> unknown" "balanced (changes_for p hs)"
  shows "count_of p (request_run unknown hs []) =
    (let n = sum_list (changes_for p hs) in if n \<le> 0 then None else Some (nat n))"
  using request_run_count [OF assms] by (simp add: counted_int_def Let_def)

theorem match_counts_exact_witness:
  "let r = \<lparr>guidPrefix = [1], entityId = [2]\<rparr>; w = \<lparr>guidPrefix = [3], entityId = [2]\<rparr>
   in count_of [1] (request_run [0] [(Some r, 2), (Some w, 1), (None, 4), (Some r, - 1)] []) = Some 1"
proof -
  let ?hs = "[(Some \<lparr>guidPrefix = [1], entityId = [2]\<rparr>, 2), (Some \<lparr>guidPrefix = [3], entityId = [2]\<rparr>, 1),
    (None, 4), (Some \<lparr>guidPrefix = [1], entityId = [2]\<rparr>, - 1)] :: (Guid option \<times> int) list"
  have ch: "changes_for [1] ?hs = [2, - 1]" by (simp add: changes_for_def)
  have "balanced [2, - 1]" by (auto simp: balanced_def take_Cons split: nat.splits)
  with match_counts_exact [of "[1]" "[0]" ?hs] ch show ?thesis by (simp add: Let_def)
qed

text \<open>
  C38. A client sees its server available exactly when it is not degraded, the graph (while it
  exists) is healthy, and some participant is matched by as many request readers as response
  writers, its service being complete in the graph while there is one.
\<close>

theorem available_iff:
  "is_available graph s \<longleftrightarrow> \<not> request_is_degraded graph s \<and>
     (\<exists>r \<in> set (request_participants s).
        count_of (fst r) (response_participants s) = Some (snd r)
        \<and> (case graph of None \<Rightarrow> True | Some g \<Rightarrow>
             service_state (fst r) (request_topic s) (request_type s) (response_topic s) (response_type s)
               (require_node_association s) g = ServiceComplete))"
proof (cases "request_is_degraded graph s")
  case True
  then show ?thesis by (auto simp: is_available_def request_is_degraded_def split: option.splits)
next
  case False
  then have "case graph of None \<Rightarrow> True | Some g \<Rightarrow> health g = Healthy"
    by (auto simp: request_is_degraded_def split: option.splits)
  from available_loop_iff [OF this, of s "request_participants s"] show ?thesis
    using False by (auto simp: is_available_def request_is_degraded_def split: option.splits)
qed

text \<open>
  C32. Waiting for a response target is checking it until the answer is not a timeout: the wait
  returns the first answer other than \<open>TargetTimedOut\<close> that \<^verbatim>\<open>check_target\<close> would give on the
  states the waiter observes, and \<open>TargetTimedOut\<close> only when every observed state gives that.
\<close>

theorem wait_is_first_check:
  "wait_for_target graph reader s wakes =
     (case find (\<lambda>t. t \<noteq> TargetTimedOut) (map (\<lambda>(g, s'). check_target g reader s') ((graph, s) # wakes)) of
        Some t \<Rightarrow> t
      | None \<Rightarrow> TargetTimedOut)"
proof -
  have loop: "wait_loop reader (target_status graph reader) s wakes =
     (case find (\<lambda>t. t \<noteq> TargetTimedOut) (map (\<lambda>(g, s'). check_target g reader s') ((graph, s) # wakes)) of
        Some t \<Rightarrow> t | None \<Rightarrow> TargetTimedOut)" for graph s
  proof (induction wakes arbitrary: graph s)
    case Nil
    then show ?case by (subst wait_loop_check) simp
  next
    case (Cons w ws)
    then show ?case by (cases w) (subst wait_loop_check, simp)
  qed
  show ?thesis
    by (cases "ps_degraded s") (simp_all add: wait_for_target_def loop check_target_def Let_def)
qed

end
