(* ===== verification/Events.thy ===== *)
theory Events
  imports Prelude
begin

text \<open>
  Guard conditions (\<^verbatim>\<open>impl/guard_condition_impl.hpp\<close>) and endpoint events: the statuses of
  \<^verbatim>\<open>dmw/event_info.hpp\<close>, the parent that accumulates what the DDS listeners report and wakes the
  registered events (\<^verbatim>\<open>impl/event_parent_state.cpp\<close>), and the event that takes the difference to
  its cursor (\<^verbatim>\<open>impl/event_impl.cpp\<close>).

  \<^verbatim>\<open>std::int32_t\<close> counts are checked integers: \<open>None\<close> stands for a signed overflow, which is
  undefined, and for \<^verbatim>\<open>std::get\<close> of the wrong alternative, which terminates the process.
  \<^verbatim>\<open>std::size_t\<close> counts wrap. The wait state of a registered event is known by the registration.
\<close>

section \<open>Guard conditions\<close>

record GuardConditionState =
  trigger_generation :: u64
  consumed_generation :: u64
  guard_pending :: bool
  guard_closing :: bool

text \<open>\<open>wake\<close> is what the wake callback answers; success when there is none.\<close>

definition guard_trigger ::
  "bool \<Rightarrow> unit result \<Rightarrow> GuardConditionState \<Rightarrow> unit result \<times> GuardConditionState" where
  "guard_trigger shut wake g =
     (if shut then (Inl ContextShutdown, g)
      else if trigger_generation g = u64_max then (Inl ResourceExhausted, g)
      else (wake, g\<lparr>trigger_generation := trigger_generation g + 1, guard_pending := True\<rparr>))"

definition consume_trigger :: "GuardConditionState \<Rightarrow> bool \<times> GuardConditionState" where
  "consume_trigger g =
     (if consumed_generation g = trigger_generation g then (False, g)
      else (True, g\<lparr>consumed_generation := trigger_generation g, guard_pending := False\<rparr>))"

definition guard_close :: "GuardConditionState \<Rightarrow> GuardConditionState" where
  "guard_close g = g\<lparr>guard_closing := True\<rparr>"

section \<open>Statuses\<close>

datatype EventType =
    LivelinessChanged | RequestedDeadlineMissed | RequestedIncompatibleQos | MessageLost
  | LivelinessLost | OfferedDeadlineMissed | OfferedIncompatibleQos

datatype QosPolicyKind =
    PolicyUnknown | PolicyHistory | PolicyReliability | PolicyDurability | PolicyDeadline
  | PolicyLifespan | PolicyLiveliness

datatype EventInfo =
    DeadlineMissedInfo int int
  | LivelinessLostInfo int int
  | LivelinessChangedInfo int int int int
  | IncompatibleQosInfo int int QosPolicyKind
  | MessageLostInfo u64 u64

definition in_int32 :: "int \<Rightarrow> bool" where
  "in_int32 x \<longleftrightarrow> - 2147483648 \<le> x \<and> x \<le> 2147483647"

definition add32 :: "int \<Rightarrow> int \<Rightarrow> int option" where
  "add32 x y = (if in_int32 (x + y) then Some (x + y) else None)"

definition sub32 :: "int \<Rightarrow> int \<Rightarrow> int option" where
  "sub32 x y = (if in_int32 (x - y) then Some (x - y) else None)"

fun empty_event_info :: "EventType \<Rightarrow> EventInfo" where
  "empty_event_info LivelinessChanged = LivelinessChangedInfo 0 0 0 0"
| "empty_event_info LivelinessLost = LivelinessLostInfo 0 0"
| "empty_event_info RequestedIncompatibleQos = IncompatibleQosInfo 0 0 PolicyUnknown"
| "empty_event_info OfferedIncompatibleQos = IncompatibleQosInfo 0 0 PolicyUnknown"
| "empty_event_info MessageLost = MessageLostInfo 0 0"
| "empty_event_info RequestedDeadlineMissed = DeadlineMissedInfo 0 0"
| "empty_event_info OfferedDeadlineMissed = DeadlineMissedInfo 0 0"

fun accumulate :: "EventInfo \<Rightarrow> EventInfo \<Rightarrow> EventInfo option" where
  "accumulate (DeadlineMissedInfo t c) (DeadlineMissedInfo t' c') =
     do { s \<leftarrow> add32 c c'; Some (DeadlineMissedInfo t' s) }"
| "accumulate (LivelinessLostInfo t c) (LivelinessLostInfo t' c') =
     do { s \<leftarrow> add32 c c'; Some (LivelinessLostInfo t' s) }"
| "accumulate (LivelinessChangedInfo a n ac nc) (LivelinessChangedInfo a' n' ac' nc') =
     do { s \<leftarrow> add32 ac ac'; r \<leftarrow> add32 nc nc'; Some (LivelinessChangedInfo a' n' s r) }"
| "accumulate (IncompatibleQosInfo t c p) (IncompatibleQosInfo t' c' p') =
     do { s \<leftarrow> add32 c c'; Some (IncompatibleQosInfo t' s p') }"
| "accumulate (MessageLostInfo t c) (MessageLostInfo t' c') = Some (MessageLostInfo t' (c + c'))"
| "accumulate _ _ = None"

fun difference :: "EventInfo \<Rightarrow> EventInfo \<Rightarrow> EventInfo option" where
  "difference (DeadlineMissedInfo t c) (DeadlineMissedInfo t' c') =
     do { d \<leftarrow> sub32 c c'; Some (DeadlineMissedInfo t d) }"
| "difference (LivelinessLostInfo t c) (LivelinessLostInfo t' c') =
     do { d \<leftarrow> sub32 c c'; Some (LivelinessLostInfo t d) }"
| "difference (LivelinessChangedInfo a n ac nc) (LivelinessChangedInfo a' n' ac' nc') =
     do { d \<leftarrow> sub32 ac ac'; e \<leftarrow> sub32 nc nc'; Some (LivelinessChangedInfo a n d e) }"
| "difference (IncompatibleQosInfo t c p) (IncompatibleQosInfo t' c' p') =
     do { d \<leftarrow> sub32 c c'; Some (IncompatibleQosInfo t d p) }"
| "difference (MessageLostInfo t c) (MessageLostInfo t' c') = Some (MessageLostInfo t (c - c'))"
| "difference _ _ = None"

section \<open>What the listeners report\<close>

datatype QosPolicyId =
    HISTORY_QOS_POLICY_ID | RELIABILITY_QOS_POLICY_ID | DURABILITY_QOS_POLICY_ID
  | DEADLINE_QOS_POLICY_ID | LIFESPAN_QOS_POLICY_ID | LIVELINESS_QOS_POLICY_ID | OTHER_QOS_POLICY_ID

fun to_qos_policy :: "QosPolicyId \<Rightarrow> QosPolicyKind" where
  "to_qos_policy HISTORY_QOS_POLICY_ID = PolicyHistory"
| "to_qos_policy RELIABILITY_QOS_POLICY_ID = PolicyReliability"
| "to_qos_policy DURABILITY_QOS_POLICY_ID = PolicyDurability"
| "to_qos_policy DEADLINE_QOS_POLICY_ID = PolicyDeadline"
| "to_qos_policy LIFESPAN_QOS_POLICY_ID = PolicyLifespan"
| "to_qos_policy LIVELINESS_QOS_POLICY_ID = PolicyLiveliness"
| "to_qos_policy OTHER_QOS_POLICY_ID = PolicyUnknown"

text \<open>The status structures of Fast DDS, as the callbacks of the two listeners receive them.\<close>

datatype WriterStatus =
    OfferedDeadlineMissedStatus u32 u32
  | OfferedIncompatibleQosStatus u32 u32 QosPolicyId
  | LivelinessLostStatus u32 u32

datatype ReaderStatus =
    RequestedDeadlineMissedStatus u32 u32
  | LivelinessChangedStatus int int int int
  | RequestedIncompatibleQosStatus u32 u32 QosPolicyId
  | SampleLostStatus int int

fun writer_callback :: "WriterStatus \<Rightarrow> EventType \<times> EventInfo" where
  "writer_callback (OfferedDeadlineMissedStatus t c) =
     (OfferedDeadlineMissed, DeadlineMissedInfo (sint t) (sint c))"
| "writer_callback (OfferedIncompatibleQosStatus t c p) =
     (OfferedIncompatibleQos, IncompatibleQosInfo (sint t) (sint c) (to_qos_policy p))"
| "writer_callback (LivelinessLostStatus t c) = (LivelinessLost, LivelinessLostInfo (sint t) (sint c))"

fun reader_callback :: "ReaderStatus \<Rightarrow> EventType \<times> EventInfo" where
  "reader_callback (RequestedDeadlineMissedStatus t c) =
     (RequestedDeadlineMissed, DeadlineMissedInfo (sint t) (sint c))"
| "reader_callback (LivelinessChangedStatus a n ac nc) = (LivelinessChanged, LivelinessChangedInfo a n ac nc)"
| "reader_callback (RequestedIncompatibleQosStatus t c p) =
     (RequestedIncompatibleQos, IncompatibleQosInfo (sint t) (sint c) (to_qos_policy p))"
| "reader_callback (SampleLostStatus t c) =
     (MessageLost, MessageLostInfo (word_of_int (max t 0)) (word_of_int (max c 0)))"

section \<open>The parent\<close>

record EventRecord =
  reg_id :: u64
  reg_type :: EventType

record EventSlot =
  slot_info :: EventInfo
  slot_generation :: u64

record EventParent =
  ep_alive :: bool
  slots :: "EventType \<Rightarrow> EventSlot"
  event_records :: "EventRecord list"
  next_event_registration_id :: u64
  exhausted :: bool
  event_pending :: "u64 \<Rightarrow> bool"

definition new_event_parent :: EventParent where
  "new_event_parent = \<lparr>ep_alive = True,
     slots = (\<lambda>_. \<lparr>slot_info = DeadlineMissedInfo 0 0, slot_generation = 0\<rparr>),
     event_records = [], next_event_registration_id = 1, exhausted = False, event_pending = (\<lambda>_. False)\<rparr>"

definition register_event :: "EventType \<Rightarrow> EventParent \<Rightarrow> u64 \<times> EventParent" where
  "register_event t p =
     (if exhausted p \<or> next_event_registration_id p = 0 then (0, p\<lparr>exhausted := True\<rparr>)
      else let i = next_event_registration_id p
           in (i, p\<lparr>next_event_registration_id := i + 1,
                    event_records := event_records p @ [\<lparr>reg_id = i, reg_type = t\<rparr>]\<rparr>))"

definition unregister_event :: "u64 \<Rightarrow> EventParent \<Rightarrow> EventParent" where
  "unregister_event i p =
     (if i = 0 then p
      else p\<lparr>event_records := del_first (\<lambda>r. reg_id r = i) (event_records p)\<rparr>)"

definition event_snapshot :: "EventType \<Rightarrow> EventParent \<Rightarrow> EventInfo \<times> u64" where
  "event_snapshot t p =
     (let current = slots p t
      in (if slot_generation current = 0 then empty_event_info t else slot_info current,
          slot_generation current))"

definition parent_close :: "EventParent \<Rightarrow> EventParent" where
  "parent_close p = p\<lparr>ep_alive := False, event_records := []\<rparr>"

definition set_all_pending :: "(EventRecord \<Rightarrow> bool) \<Rightarrow> EventParent \<Rightarrow> EventParent" where
  "set_all_pending sel p =
     p\<lparr>event_pending := (\<lambda>i. if \<exists>r \<in> set (event_records p). sel r \<and> reg_id r = i then True
                             else event_pending p i)\<rparr>"

text \<open>
  The locked section of \<^verbatim>\<open>update\<close>; besides the parent it gives what is to be woken: everything or
  one type only, and the last registration that existed.
\<close>

definition event_update ::
  "EventType \<Rightarrow> EventInfo \<Rightarrow> EventParent \<Rightarrow> (EventParent \<times> (bool \<times> u64) option) option" where
  "event_update t info p =
     (if exhausted p then Some (p, None)
      else
        (let current = slots p t; limit = next_event_registration_id p - 1 in
         if slot_generation current = u64_max
         then Some (set_all_pending (\<lambda>_. True) (p\<lparr>exhausted := True\<rparr>), Some (True, limit))
         else do {
           total \<leftarrow> (if slot_generation current = 0 then Some info else accumulate (slot_info current) info);
           let p1 = p\<lparr>slots := (slots p)(t := \<lparr>slot_info = total,
                             slot_generation = slot_generation current + 1\<rparr>)\<rparr>;
           Some (set_all_pending (\<lambda>r. reg_type r = t) p1, Some (False, limit)) }))"

text \<open>
  The wake loop. The registrations may change between two rounds: \<open>env k\<close> is the list the
  \<open>k\<close>-th round finds. The result is the registrations woken, in order.
\<close>

function notify_loop :: "(nat \<Rightarrow> EventRecord list) \<Rightarrow> bool \<Rightarrow> EventType \<Rightarrow> u64 \<Rightarrow> u64 \<Rightarrow> nat \<Rightarrow> u64 list" where
  "notify_loop env all t previous limit k =
     (if previous < limit then
        (case find (\<lambda>r. (all \<or> reg_type r = t) \<and> reg_id r > previous \<and> reg_id r \<le> limit) (env k) of
           None \<Rightarrow> []
         | Some r \<Rightarrow> reg_id r # notify_loop env all t (reg_id r) limit (k + 1))
      else [])"
  by pat_completeness auto

termination
proof (relation "measure (\<lambda>(env, all, t, previous, limit, k). unat limit - unat previous)", goal_cases)
  case (2 env all t previous limit k r)
  from find_Some_set [OF 2(2)] have "previous < reg_id r" "reg_id r \<le> limit" by simp_all
  then show ?case by (auto simp: word_less_nat_alt word_le_nat_alt)
qed simp

declare notify_loop.simps [simp del]

section \<open>Events\<close>

record Event =
  event_type :: EventType
  cursor :: "EventInfo \<times> u64"
  registration :: u64

text \<open>
  \<^verbatim>\<open>take\<close> reads the parent's snapshot in one section and clears its flag in another. The outer
  \<open>None\<close> is undefined behaviour; the inner one says that there was nothing to take.
\<close>

definition clear_event :: "u64 \<Rightarrow> EventParent \<Rightarrow> EventParent" where
  "clear_event i p = p\<lparr>event_pending := (event_pending p)(i := False)\<rparr>"

definition take_commit ::
  "EventInfo \<times> u64 \<Rightarrow> Event \<Rightarrow> (EventInfo option \<times> Event) option" where
  "take_commit current e =
     (if snd current = snd (cursor e) then Some (None, e)
      else do { info \<leftarrow> difference (fst current) (fst (cursor e)); Some (Some info, e\<lparr>cursor := current\<rparr>) })"

definition event_take ::
  "bool \<Rightarrow> EventParent \<Rightarrow> Event \<Rightarrow> (EventInfo option result \<times> EventParent \<times> Event) option" where
  "event_take shut p e =
     (if shut then Some (Inl ContextShutdown, p, e)
      else if \<not> ep_alive p then Some (Inl ParentDestroyed, p, e)
      else if exhausted p then Some (Inl ResourceExhausted, p, e)
      else do {
        (taken, e1) \<leftarrow> take_commit (event_snapshot (event_type e) p) e;
        Some (Inr taken, (if taken = None then p else clear_event (registration e) p), e1) })"

definition event_destroy :: "Event \<Rightarrow> EventParent \<Rightarrow> EventParent" where
  "event_destroy e p = unregister_event (registration e) p"

text \<open>\<open>attached\<close> is the answer of \<^verbatim>\<open>attach\<close>; the publisher and the subscriber differ in their types.\<close>

definition create_event ::
  "EventType set \<Rightarrow> bool \<Rightarrow> unit result \<Rightarrow> EventType \<Rightarrow> EventParent \<Rightarrow> Event result \<times> EventParent" where
  "create_event allowed shut attached t p =
     (if t \<notin> allowed then (Inl InvalidArgument, p)
      else if shut then (Inl ContextShutdown, p)
      else if \<not> ep_alive p then (Inl ParentDestroyed, p)
      else case attached of
        Inl e \<Rightarrow> (Inl e, p)
      | Inr _ \<Rightarrow>
          let c = event_snapshot t p; (i, p1) = register_event t p
          in if i = 0 then (Inl ResourceExhausted, p1)
             else (Inr \<lparr>event_type = t, cursor = c, registration = i\<rparr>, p1))"

definition publisher_create_event where
  "publisher_create_event = create_event {LivelinessLost, OfferedDeadlineMissed, OfferedIncompatibleQos}"

definition subscriber_create_event where
  "subscriber_create_event =
     create_event {LivelinessChanged, RequestedDeadlineMissed, RequestedIncompatibleQos, MessageLost}"

section \<open>What was reported since the cursor\<close>

text \<open>The reference: the latest totals and the exact sum of the changes of a list of reports.\<close>

fun same_kind :: "EventInfo \<Rightarrow> EventInfo \<Rightarrow> bool" where
  "same_kind (DeadlineMissedInfo _ _) (DeadlineMissedInfo _ _) = True"
| "same_kind (LivelinessLostInfo _ _) (LivelinessLostInfo _ _) = True"
| "same_kind (LivelinessChangedInfo _ _ _ _) (LivelinessChangedInfo _ _ _ _) = True"
| "same_kind (IncompatibleQosInfo _ _ _) (IncompatibleQosInfo _ _ _) = True"
| "same_kind (MessageLostInfo _ _) (MessageLostInfo _ _) = True"
| "same_kind _ _ = False"

fun join_info :: "EventInfo \<Rightarrow> EventInfo \<Rightarrow> EventInfo" where
  "join_info (DeadlineMissedInfo _ c) (DeadlineMissedInfo t d) = DeadlineMissedInfo t (c + d)"
| "join_info (LivelinessLostInfo _ c) (LivelinessLostInfo t d) = LivelinessLostInfo t (c + d)"
| "join_info (LivelinessChangedInfo _ _ c n) (LivelinessChangedInfo a b d m) =
     LivelinessChangedInfo a b (c + d) (n + m)"
| "join_info (IncompatibleQosInfo _ c _) (IncompatibleQosInfo t d p) = IncompatibleQosInfo t (c + d) p"
| "join_info (MessageLostInfo _ c) (MessageLostInfo t d) = MessageLostInfo t (c + d)"
| "join_info x y = y"

definition merged :: "EventType \<Rightarrow> EventInfo list \<Rightarrow> EventInfo" where
  "merged t us = foldl join_info (empty_event_info t) us"

fun info_in_range :: "EventInfo \<Rightarrow> bool" where
  "info_in_range (DeadlineMissedInfo _ c) = in_int32 c"
| "info_in_range (LivelinessLostInfo _ c) = in_int32 c"
| "info_in_range (LivelinessChangedInfo _ _ c d) = (in_int32 c \<and> in_int32 d)"
| "info_in_range (IncompatibleQosInfo _ c _) = in_int32 c"
| "info_in_range (MessageLostInfo _ _) = True"

lemma join_same_kind [simp]: "same_kind i u \<Longrightarrow> same_kind i (join_info i u)"
  by (cases i; cases u) auto

lemma same_kind_trans: "same_kind i j \<Longrightarrow> same_kind i k = same_kind j k"
  by (cases i; cases j; cases k) auto

lemma same_kind_refl [simp]: "same_kind i i"
  by (cases i) auto

lemma merged_snoc [simp]: "merged t (us @ [u]) = join_info (merged t us) u"
  by (simp add: merged_def)

lemma merged_kind: "\<forall>u \<in> set us. same_kind (empty_event_info t) u \<Longrightarrow> same_kind (empty_event_info t) (merged t us)"
proof (induction us rule: rev_induct)
  case (snoc u us)
  then have "same_kind (merged t us) u" using same_kind_trans [of "empty_event_info t" "merged t us"] by auto
  then show ?case
    using snoc same_kind_trans [of "empty_event_info t" "merged t us"] join_same_kind by auto
qed (simp add: merged_def)

lemma accumulate_join:
  "same_kind i u \<Longrightarrow> info_in_range (join_info i u) \<Longrightarrow> accumulate i u = Some (join_info i u)"
  by (cases i; cases u) (auto simp: add32_def)

lemma join_empty: "same_kind (empty_event_info t) u \<Longrightarrow> join_info (empty_event_info t) u = u"
  by (cases t; cases u) auto

lemma join_assoc:
  "same_kind i u \<Longrightarrow> same_kind u v \<Longrightarrow> join_info (join_info i u) v = join_info i (join_info u v)"
  by (cases i; cases u; cases v) auto

lemma difference_join:
  "same_kind i u \<Longrightarrow> info_in_range u \<Longrightarrow> difference (join_info i u) i = Some u"
  by (cases i; cases u) (auto simp: sub32_def)

lemma merged_append:
  assumes "\<forall>u \<in> set (us @ vs). same_kind (empty_event_info t) u"
  shows "merged t (us @ vs) = (if vs = [] then merged t us else join_info (merged t us) (merged t vs))"
  using assms
proof (induction vs rule: rev_induct)
  case (snoc v vs)
  have k: "same_kind (empty_event_info t) (merged t us)" "same_kind (empty_event_info t) (merged t vs)"
      "same_kind (empty_event_info t) v"
    using snoc.prems by (auto intro: merged_kind)
  show ?case
  proof (cases "vs = []")
    case True
    have "merged t (us @ [v]) = join_info (merged t us) v" by simp
    moreover have "merged t [v] = v" using k(3) join_empty by (simp add: merged_def)
    ultimately show ?thesis using True by simp
  next
    case False
    have IH: "merged t (us @ vs) = join_info (merged t us) (merged t vs)" using snoc False by simp
    have "merged t (us @ vs @ [v]) = join_info (merged t (us @ vs)) v"
      using merged_snoc [of t "us @ vs" v] by simp
    also have "\<dots> = join_info (merged t us) (join_info (merged t vs) v)"
      unfolding IH using k same_kind_trans by (intro join_assoc) blast+
    finally show ?thesis by simp
  qed
qed simp

text \<open>A slot after a list of reports of its type, starting from a fresh one.\<close>

definition slot_after :: "EventType \<Rightarrow> EventInfo list \<Rightarrow> EventSlot \<Rightarrow> bool" where
  "slot_after t us s \<longleftrightarrow> unat (slot_generation s) = length us \<and> (us \<noteq> [] \<longrightarrow> slot_info s = merged t us)"

definition reports_ok :: "EventType \<Rightarrow> EventInfo list \<Rightarrow> bool" where
  "reports_ok t us \<longleftrightarrow> (\<forall>u \<in> set us. same_kind (empty_event_info t) u)
     \<and> (\<forall>n \<le> length us. info_in_range (merged t (take n us))) \<and> length us < unat u64_max"

fun report_all :: "EventType \<Rightarrow> EventInfo list \<Rightarrow> EventParent \<Rightarrow> EventParent option" where
  "report_all t [] p = Some p"
| "report_all t (u # us) p = do { (p1, _) \<leftarrow> event_update t u p; report_all t us p1 }"

lemma set_all_pending_frame [simp, frame]:
  "slots (set_all_pending sel p) = slots p" "exhausted (set_all_pending sel p) = exhausted p"
  "event_records (set_all_pending sel p) = event_records p" "ep_alive (set_all_pending sel p) = ep_alive p"
  "next_event_registration_id (set_all_pending sel p) = next_event_registration_id p"
  by (simp_all add: set_all_pending_def)

lemma event_update_slot:
  assumes "slot_after t us (slots p t)" "reports_ok t (us @ [u])" "\<not> exhausted p"
  obtains p1 lim where "event_update t u p = Some (p1, Some (False, lim))"
    "slot_after t (us @ [u]) (slots p1 t)" "\<not> exhausted p1" "ep_alive p1 = ep_alive p"
    "event_records p1 = event_records p"
proof -
  let ?s = "slots p t"
  have kind: "\<forall>u \<in> set (us @ [u]). same_kind (empty_event_info t) u"
    and rng: "info_in_range (merged t (us @ [u]))" and len: "length us + 1 < unat u64_max"
    using assms(2) unfolding reports_ok_def by (simp_all, metis length_append_singleton order_refl take_all merged_snoc length_Cons list.size(3) take_append)
  have ne: "slot_generation ?s \<noteq> u64_max" using assms(1) len by (auto simp: slot_after_def)
  have gen: "unat (slot_generation ?s + 1) = length (us @ [u])"
    using assms(1) u64_inc_nonzero [OF ne] by (simp add: slot_after_def)
  have tot: "(if slot_generation ?s = 0 then Some u else accumulate (slot_info ?s) u) = Some (merged t (us @ [u]))"
  proof (cases "us = []")
    case True
    then show ?thesis using assms(1) kind join_empty by (simp add: slot_after_def merged_def unat_eq_0)
  next
    case False
    then have i: "slot_info ?s = merged t us" "slot_generation ?s \<noteq> 0"
      using assms(1) by (auto simp: slot_after_def)
    have "same_kind (merged t us) u"
      using kind merged_kind [of us t] same_kind_trans by auto
    then show ?thesis using i rng by (simp add: accumulate_join)
  qed
  let ?p1 = "set_all_pending (\<lambda>r. reg_type r = t)
    (p\<lparr>slots := (slots p)(t := \<lparr>slot_info = merged t (us @ [u]), slot_generation = slot_generation ?s + 1\<rparr>)\<rparr>)"
  show thesis
    by (rule that [of ?p1 "next_event_registration_id p - 1"])
      (use tot ne assms(3) gen in \<open>simp_all add: event_update_def Let_def slot_after_def\<close>)
qed

lemma reports_ok_prefix: "reports_ok t (us @ vs) \<Longrightarrow> reports_ok t us"
  unfolding reports_ok_def by (auto simp: take_append) (metis append_Nil2 diff_is_0_eq take0 trans_le_add1)

lemma report_all_append: "report_all t (us @ vs) p = Option.bind (report_all t us p) (report_all t vs)"
  by (induction t us p rule: report_all.induct) (auto split: Option.bind_splits)

lemma report_all_slot:
  "slot_after t us (slots p t) \<Longrightarrow> \<not> exhausted p \<Longrightarrow> reports_ok t (us @ vs) \<Longrightarrow>
    \<exists>p1. report_all t vs p = Some p1 \<and> slot_after t (us @ vs) (slots p1 t) \<and> \<not> exhausted p1
      \<and> ep_alive p1 = ep_alive p"
proof (induction vs arbitrary: us p)
  case (Cons v vs)
  have ok: "reports_ok t (us @ [v])" using Cons.prems(3) reports_ok_prefix [of t "us @ [v]" vs] by simp
  obtain p1 lim where p1: "event_update t v p = Some (p1, Some (False, lim))"
      "slot_after t (us @ [v]) (slots p1 t)" "\<not> exhausted p1" "ep_alive p1 = ep_alive p"
    by (rule event_update_slot [OF Cons.prems(1) ok Cons.prems(2)])
  show ?case using Cons.IH [OF p1(2,3)] Cons.prems(3) p1 by simp
qed simp

lemma unat_is_of_nat: "unat (w :: u64) = n \<Longrightarrow> w = of_nat n"
  by auto

lemma snapshot_after: "slot_after t us (slots p t) \<Longrightarrow> length us < unat u64_max \<Longrightarrow>
    event_snapshot t p = (merged t us, of_nat (length us))"
  by (cases "us = []") (auto simp: slot_after_def event_snapshot_def Let_def merged_def unat_eq_0 unat_is_of_nat)

lemma of_nat_u64_inject: "m < unat u64_max \<Longrightarrow> n < unat u64_max \<Longrightarrow> (of_nat m :: u64) = of_nat n \<longleftrightarrow> m = n"
proof -
  have "unat (of_nat k :: u64) = k" if "k < unat u64_max" for k
  proof -
    have "unat u64_max = 2 ^ 64 - 1" by (simp add: u64_max_def unsigned_minus_1_eq_mask mask_eq_exp_minus_1)
    with that show ?thesis by (simp add: unsigned_of_nat take_bit_nat_eq_self)
  qed
  then show "m < unat u64_max \<Longrightarrow> n < unat u64_max \<Longrightarrow> ?thesis" by metis
qed

section \<open>Waking\<close>

text \<open>Registrations stay in the order of their ids.\<close>

definition ascending :: "EventRecord list \<Rightarrow> bool" where
  "ascending rs \<longleftrightarrow> sorted_wrt (<) (map reg_id rs)"

lemma ascending_del: "ascending rs \<Longrightarrow> ascending (del_first p rs)"
  unfolding ascending_def
  by (induction rs) (auto dest: subsetD [OF set_del_first])

definition parent_ok :: "EventParent \<Rightarrow> bool" where
  "parent_ok p \<longleftrightarrow> ascending (event_records p)
     \<and> (\<forall>r \<in> set (event_records p). 0 < reg_id r
         \<and> (next_event_registration_id p \<noteq> 0 \<longrightarrow> reg_id r < next_event_registration_id p))"

lemma register_event_ok [keeps]: assumes "parent_ok p" shows "parent_ok (snd (register_event t p))"
proof (cases "exhausted p \<or> next_event_registration_id p = 0")
  case False
  let ?i = "next_event_registration_id p"
  have lt: "?i < ?i + 1" if "?i + 1 \<noteq> 0"
    using that u64_inc_gt [of ?i] by (cases "?i = u64_max") (simp_all add: u64_max_def)
  have "ascending (event_records p @ [\<lparr>reg_id = ?i, reg_type = t\<rparr>])"
    using assms False by (auto simp: parent_ok_def ascending_def sorted_wrt_append)
  then show ?thesis
    using False assms lt
    by (auto simp: register_event_def Let_def parent_ok_def word_gt_0 intro: less_trans)
qed (use assms in \<open>auto simp: register_event_def parent_ok_def\<close>)

lemma unregister_event_ok [keeps]: "parent_ok p \<Longrightarrow> parent_ok (unregister_event i p)"
  using set_del_first [of "\<lambda>r. reg_id r = i" "event_records p"]
  by (auto simp: unregister_event_def parent_ok_def ascending_del)

lemma event_update_ok [keeps]: "parent_ok p \<Longrightarrow> event_update t i p = Some (p', w) \<Longrightarrow> parent_ok p'"
  by (auto simp: event_update_def parent_ok_def Let_def split: if_splits Option.bind_splits)

lemma notify_loop_bounds:
  "set (notify_loop env all t prev limit k) \<subseteq> {i. prev < i \<and> i \<le> limit}
    \<and> sorted_wrt (<) (notify_loop env all t prev limit k)"
proof (induction "unat limit - unat prev" arbitrary: prev k rule: less_induct)
  case less
  note unfold = notify_loop.simps [of env all t prev limit k]
  show ?case
  proof (cases "prev < limit \<and> find (\<lambda>r. (all \<or> reg_type r = t) \<and> reg_id r > prev \<and> reg_id r \<le> limit) (env k) \<noteq> None")
    case True
    then obtain r where lt: "prev < limit"
      and r: "find (\<lambda>r. (all \<or> reg_type r = t) \<and> reg_id r > prev \<and> reg_id r \<le> limit) (env k) = Some r" by blast
    then have le: "prev < reg_id r" "reg_id r \<le> limit" using find_Some_set [OF r] by simp_all
    then have "unat limit - unat (reg_id r) < unat limit - unat prev"
      using lt by (auto simp: word_less_nat_alt word_le_nat_alt)
    then have "set (notify_loop env all t (reg_id r) limit (k + 1)) \<subseteq> {i. reg_id r < i \<and> i \<le> limit}"
        "sorted_wrt (<) (notify_loop env all t (reg_id r) limit (k + 1))"
      using less.hyps [of "reg_id r" "k + 1"] by blast+
    then show ?thesis using lt r le unfold by (auto intro: less_trans)
  next
    case False
    then show ?thesis using unfold by (cases "prev < limit") auto
  qed
qed

lemma find_ascending_least:
  "ascending rs \<Longrightarrow> find p rs = Some r \<Longrightarrow> x \<in> set rs \<Longrightarrow> p x \<Longrightarrow> reg_id r \<le> reg_id x"
  unfolding ascending_def by (induction rs) (auto split: if_splits)

lemma notify_loop_complete:
  assumes "\<And>k. ascending (env k)" "\<And>k. x \<in> set (env k)"
  shows "all \<or> reg_type x = t \<Longrightarrow> prev < reg_id x \<Longrightarrow> reg_id x \<le> limit \<Longrightarrow>
    reg_id x \<in> set (notify_loop env all t prev limit k)"
proof (induction "unat limit - unat prev" arbitrary: prev k rule: less_induct)
  case less
  let ?p = "\<lambda>prev r. (all \<or> reg_type r = t) \<and> prev < reg_id r \<and> reg_id r \<le> limit"
  note unfold = notify_loop.simps [of env all t prev limit k]
  have lt: "prev < limit" using less.prems by (meson less_le_trans)
  have "?p prev x" using less.prems by simp
  with assms(2) [of k] have "find (?p prev) (env k) \<noteq> None" by (auto simp: find_None_set)
  then obtain r where r: "find (?p prev) (env k) = Some r" by blast
  have le: "reg_id r \<le> reg_id x"
    by (rule find_ascending_least [OF assms(1) r assms(2)]) (use less.prems in simp)
  show ?case
  proof (cases "reg_id r = reg_id x")
    case True
    then show ?thesis using unfold lt r by simp
  next
    case False
    have "prev < reg_id r" using find_Some_set [OF r] by simp
    then have "unat limit - unat (reg_id r) < unat limit - unat prev"
      using lt find_Some_set [OF r] by (auto simp: word_less_nat_alt word_le_nat_alt)
    moreover have "reg_id r < reg_id x" using le False by simp
    ultimately show ?thesis using less.hyps [of "reg_id r" "k + 1"] less.prems unfold lt r by simp
  qed
qed

section \<open>Readiness\<close>

text \<open>
  An event and its parent, driven by whole reports and whole takes. \<open>pending_exact\<close> says that
  the flag a wait set reads is up exactly while there is something to take.
\<close>

definition pending_exact :: "EventParent \<Rightarrow> Event \<Rightarrow> bool" where
  "pending_exact p e \<longleftrightarrow>
     (\<exists>r \<in> set (event_records p). reg_id r = registration e \<and> reg_type r = event_type e)
     \<and> distinct (map reg_id (event_records p))
     \<and> unat (snd (cursor e)) \<le> unat (slot_generation (slots p (event_type e)))
     \<and> (exhausted p \<or> event_pending p (registration e) =
          (slot_generation (slots p (event_type e)) \<noteq> snd (cursor e)))"

datatype EventOp = Report EventType EventInfo | Take

fun event_exec :: "EventOp \<Rightarrow> EventParent \<times> Event \<Rightarrow> (EventParent \<times> Event) option" where
  "event_exec (Report t i) (p, e) = do { (p1, _) \<leftarrow> event_update t i p; Some (p1, e) }"
| "event_exec Take (p, e) = do { (_, p1, e1) \<leftarrow> event_take False p e; Some (p1, e1) }"

fun event_run :: "EventOp list \<Rightarrow> EventParent \<times> Event \<Rightarrow> (EventParent \<times> Event) option" where
  "event_run [] s = Some s"
| "event_run (op # ops) s = do { s1 \<leftarrow> event_exec op s; event_run ops s1 }"

lemma distinct_reg_type:
  "distinct (map reg_id rs) \<Longrightarrow> r \<in> set rs \<Longrightarrow> r' \<in> set rs \<Longrightarrow> reg_id r = reg_id r' \<Longrightarrow> r = r'"
  by (meson distinct_map inj_on_eq_iff)

lemma update_pending_exact:
  assumes "pending_exact p e" "event_update t i p = Some (p', w)"
  shows "pending_exact p' e"
proof -
  obtain r where r: "r \<in> set (event_records p)" "reg_id r = registration e" "reg_type r = event_type e"
    using assms(1) by (auto simp: pending_exact_def)
  have only: "(\<exists>r' \<in> set (event_records p). reg_type r' = t \<and> reg_id r' = registration e) \<longleftrightarrow> t = event_type e"
    using r distinct_reg_type [of "event_records p"] assms(1) unfolding pending_exact_def by metis
  show ?thesis
  proof (cases "exhausted p \<or> slot_generation (slots p t) = u64_max")
    case True
    then show ?thesis
      using assms r by (auto simp: event_update_def Let_def pending_exact_def split: if_splits)
  next
    case False
    then obtain total where p': "p' = set_all_pending (\<lambda>r. reg_type r = t)
        (p\<lparr>slots := (slots p)(t := \<lparr>slot_info = total, slot_generation = slot_generation (slots p t) + 1\<rparr>)\<rparr>)"
      using assms(2) by (auto simp: event_update_def Let_def split: Option.bind_splits)
    have inc: "unat (slot_generation (slots p t) + 1) = unat (slot_generation (slots p t)) + 1"
      using False u64_inc_nonzero by blast
    show ?thesis
    proof (cases "t = event_type e")
      case True
      then have "slot_generation (slots p t) + 1 \<noteq> snd (cursor e)"
        using assms(1) inc by (auto simp: pending_exact_def)
      moreover have "event_pending p' (registration e)"
        using r True unfolding p' by (auto simp: set_all_pending_def)
      moreover have "event_records p' = event_records p" "slot_generation (slots p' (event_type e)) =
          slot_generation (slots p t) + 1"
        using True by (simp_all add: p')
      ultimately show ?thesis using True assms(1) inc by (simp add: pending_exact_def)
    next
      case other: False
      then have "\<not> (\<exists>r' \<in> set (event_records p). reg_type r' = t \<and> reg_id r' = registration e)"
        using only by simp
      then have "event_pending p' (registration e) = event_pending p (registration e)"
        unfolding p' by (auto simp: set_all_pending_def)
      then show ?thesis using other assms(1) unfolding pending_exact_def p' by simp
    qed
  qed
qed

lemma take_pending_exact:
  assumes "pending_exact p e" "event_take False p e = Some (res, p', e')"
  shows "pending_exact p' e'"
  using assms
  by (auto simp: event_take_def take_commit_def event_snapshot_def Let_def pending_exact_def
      clear_event_def split: if_splits Option.bind_splits)

lemma run_pending_exact:
  "pending_exact p e \<Longrightarrow> event_run ops (p, e) = Some (p', e') \<Longrightarrow> pending_exact p' e'"
proof (induction ops arbitrary: p e)
  case (Cons op ops)
  obtain p1 e1 where s: "event_exec op (p, e) = Some (p1, e1)" "event_run ops (p1, e1) = Some (p', e')"
    using Cons.prems(2) by (auto split: Option.bind_splits)
  have "pending_exact p1 e1"
  proof (cases op)
    case (Report t i)
    then show ?thesis using s(1) update_pending_exact [OF Cons.prems(1)] by (auto split: Option.bind_splits)
  next
    case Take
    then show ?thesis using s(1) take_pending_exact [OF Cons.prems(1)] by (auto split: Option.bind_splits)
  qed
  then show ?case using Cons.IH s(2) by blast
qed simp

lemma create_pending_exact:
  assumes "create_event allowed shut attached t p = (Inr e, p')" "parent_ok p"
    and "\<not> event_pending p (next_event_registration_id p)"
  shows "pending_exact p' e"
proof -
  have new: "next_event_registration_id p \<noteq> 0" "\<not> exhausted p"
      "e = \<lparr>event_type = t, cursor = event_snapshot t p, registration = next_event_registration_id p\<rparr>"
      "p' = p\<lparr>next_event_registration_id := next_event_registration_id p + 1,
         event_records := event_records p @ [\<lparr>reg_id = next_event_registration_id p, reg_type = t\<rparr>]\<rparr>"
    using assms(1) by (auto simp: create_event_def register_event_def Let_def split: if_splits sum.splits)
  have "distinct (map reg_id (event_records p'))"
    using register_event_ok [OF assms(2), of t] new
    by (auto simp: register_event_def Let_def parent_ok_def ascending_def strict_sorted_iff)
  then show ?thesis
    using assms(3) new by (auto simp: pending_exact_def event_snapshot_def Let_def)
qed

section \<open>Properties\<close>

text \<open>
  C10. An event reports exactly what happened since it was last read. From a fresh endpoint, for
  reports of one type whose sums stay in the range of their counters: nothing the code computes
  overflows, and an event whose cursor stands after the first reports takes, after the later
  ones, the latest totals with the sum of their changes, or nothing when there were none; its
  cursor then stands after all of them.
\<close>

theorem event_take_exact:
  assumes "reports_ok t (us @ vs)" "info_in_range (merged t vs)"
  shows "\<exists>p1 p2. report_all t us new_event_parent = Some p1 \<and> report_all t vs p1 = Some p2
    \<and> (\<forall>e. event_type e = t \<and> cursor e = event_snapshot t p1 \<longrightarrow>
        event_take False p2 e = Some
          (Inr (if vs = [] then None else Some (merged t vs)),
           (if vs = [] then p2 else clear_event (registration e) p2), e\<lparr>cursor := event_snapshot t p2\<rparr>))"
proof -
  have kind: "\<forall>u \<in> set (us @ vs). same_kind (empty_event_info t) u"
    and len: "length (us @ vs) < unat u64_max" using assms(1) by (auto simp: reports_ok_def)
  have s0: "slot_after t [] (slots new_event_parent t)" "\<not> exhausted new_event_parent"
    "ep_alive new_event_parent"
    by (simp_all add: slot_after_def new_event_parent_def)
  obtain p1 where p1: "report_all t us new_event_parent = Some p1" "slot_after t us (slots p1 t)"
      "\<not> exhausted p1" "ep_alive p1"
    using report_all_slot [OF s0(1,2), of us] reports_ok_prefix [OF assms(1)] s0(3) by auto
  obtain p2 where p2: "report_all t vs p1 = Some p2" "slot_after t (us @ vs) (slots p2 t)"
      "\<not> exhausted p2" "ep_alive p2"
    using report_all_slot [OF p1(2,3) assms(1)] p1(4) by auto
  have snap: "event_snapshot t p1 = (merged t us, of_nat (length us))"
      "event_snapshot t p2 = (merged t (us @ vs), of_nat (length (us @ vs)))"
    using snapshot_after p1(2) p2(2) len by auto
  have gen: "(of_nat (length (us @ vs)) :: u64) = of_nat (length us) \<longleftrightarrow> vs = []"
    using of_nat_u64_inject [of "length (us @ vs)" "length us"] len by simp
  have "same_kind (merged t us) (merged t vs)"
    using kind merged_kind same_kind_trans by (metis set_append Un_iff)
  then have diff: "difference (merged t (us @ vs)) (merged t us) = Some (merged t vs)" if "vs \<noteq> []"
    using that merged_append [OF kind] difference_join assms(2) by simp
  have "event_take False p2 e = Some
      (Inr (if vs = [] then None else Some (merged t vs)),
       (if vs = [] then p2 else clear_event (registration e) p2), e\<lparr>cursor := event_snapshot t p2\<rparr>)"
    if "event_type e = t" "cursor e = event_snapshot t p1" for e
  proof (cases "vs = []")
    case True
    then have "event_snapshot t p2 = cursor e" using that p1 p2 by simp
    then show ?thesis using that p2 True by (simp add: event_take_def take_commit_def)
  next
    case False
    then show ?thesis
      using that p2 snap gen diff by (simp add: event_take_def take_commit_def)
  qed
  then show ?thesis using p1(1) p2(1) by blast
qed

definition lost_1 :: "EventInfo list" where
  "lost_1 = [LivelinessLostInfo 1 1, LivelinessLostInfo 3 2]"

theorem event_take_exact_witness:
  "\<exists>p1 p2. report_all LivelinessLost [LivelinessLostInfo 1 1] new_event_parent = Some p1
    \<and> report_all LivelinessLost [LivelinessLostInfo 3 2] p1 = Some p2
    \<and> event_take False p2 \<lparr>event_type = LivelinessLost, cursor = event_snapshot LivelinessLost p1, registration = 1\<rparr>
       = Some (Inr (Some (LivelinessLostInfo 3 2)), clear_event 1 p2,
           \<lparr>event_type = LivelinessLost, cursor = event_snapshot LivelinessLost p2, registration = 1\<rparr>)"
proof -
  have "2 < unat u64_max" by (simp add: u64_max_def unsigned_minus_1_eq_mask mask_eq_exp_minus_1)
  then have "reports_ok LivelinessLost ([LivelinessLostInfo 1 1] @ [LivelinessLostInfo 3 2])"
    by (auto simp: reports_ok_def merged_def in_int32_def take_Cons split: nat.splits)
  moreover have "merged LivelinessLost [LivelinessLostInfo 3 2] = LivelinessLostInfo 3 2"
    by (simp add: merged_def)
  ultimately show ?thesis
    using event_take_exact [of LivelinessLost "[LivelinessLostInfo 1 1]" "[LivelinessLostInfo 3 2]"]
    by (fastforce simp: in_int32_def)
qed

text \<open>
  Every event is woken once. Whatever registrations come and go between its rounds, the wake
  loop of an update ends, wakes registrations of the update's limit only, each at most once and
  in ascending order, and wakes every registration of the right type that is there throughout.
\<close>

theorem update_wakes_each_once:
  assumes "\<And>k. ascending (env k)"
  shows "sorted_wrt (<) (notify_loop env all t 0 limit 0)
    \<and> set (notify_loop env all t 0 limit 0) \<subseteq> {i. 0 < i \<and> i \<le> limit}
    \<and> (\<forall>x. (\<forall>k. x \<in> set (env k)) \<and> (all \<or> reg_type x = t) \<and> 0 < reg_id x \<and> reg_id x \<le> limit \<longrightarrow>
         reg_id x \<in> set (notify_loop env all t 0 limit 0))"
  using notify_loop_bounds [of env all t 0 limit 0] notify_loop_complete [where env = env and all = all and t = t and prev = 0 and limit = limit and k = 0, OF assms]
  by blast

theorem update_wakes_each_once_witness:
  "1 \<in> set (notify_loop (\<lambda>k. if k = 0 then [\<lparr>reg_id = 1, reg_type = MessageLost\<rparr>, \<lparr>reg_id = 2, reg_type = MessageLost\<rparr>]
     else [\<lparr>reg_id = 1, reg_type = MessageLost\<rparr>]) False MessageLost 0 2 0)"
proof -
  let ?env = "\<lambda>k::nat. if k = 0 then [\<lparr>reg_id = 1, reg_type = MessageLost\<rparr>, \<lparr>reg_id = 2, reg_type = MessageLost\<rparr>]
     else [\<lparr>reg_id = 1, reg_type = MessageLost\<rparr>]"
  have "ascending (?env k)" for k by (simp add: ascending_def)
  from update_wakes_each_once [where env = ?env and all = False and t = MessageLost and limit = 2, OF this]
  have "\<forall>x. (\<forall>k. x \<in> set (?env k)) \<and> (False \<or> reg_type x = MessageLost) \<and> 0 < reg_id x \<and> reg_id x \<le> 2 \<longrightarrow>
      reg_id x \<in> set (notify_loop ?env False MessageLost 0 2 0)" by blast
  from this [rule_format, of "\<lparr>reg_id = 1, reg_type = MessageLost\<rparr>"] show ?thesis by simp
qed

text \<open>
  Run one at a time, reports and takes keep the flag of an event exact: from its creation
  on, while the generations last, it is up exactly while there is something to take.
\<close>

theorem event_flag_exact:
  assumes "create_event allowed shut attached t p = (Inr e, p1)" "parent_ok p"
    and "\<not> event_pending p (next_event_registration_id p)"
    and "event_run ops (p1, e) = Some (p2, e2)" "\<not> exhausted p2"
  shows "event_pending p2 (registration e2) =
    (slot_generation (slots p2 (event_type e2)) \<noteq> snd (cursor e2))"
  using run_pending_exact [OF create_pending_exact [OF assms(1-3)] assms(4)] assms(5)
  by (simp add: pending_exact_def)

theorem event_flag_exact_witness:
  "let r = create_event {MessageLost} False (Inr ()) MessageLost new_event_parent;
       s = event_run [Report MessageLost (MessageLostInfo 1 1)] (snd r, projr (fst r))
   in event_pending (fst (the s)) 1"
proof -
  let ?e = "\<lparr>event_type = MessageLost, cursor = (MessageLostInfo 0 0, 0), registration = 1\<rparr>"
  let ?p = "snd (create_event {MessageLost} False (Inr ()) MessageLost new_event_parent)"
  let ?s = "event_run [Report MessageLost (MessageLostInfo 1 1)] (?p, ?e)"
  have c: "create_event {MessageLost} False (Inr ()) MessageLost new_event_parent = (Inr ?e, ?p)"
    by (simp add: create_event_def register_event_def new_event_parent_def Let_def event_snapshot_def)
  have p: "?p = new_event_parent\<lparr>next_event_registration_id := 2,
      event_records := [\<lparr>reg_id = 1, reg_type = MessageLost\<rparr>]\<rparr>"
    by (simp add: create_event_def register_event_def new_event_parent_def Let_def event_snapshot_def)
  obtain p2 where s: "?s = Some (p2, ?e)" "\<not> exhausted p2" "slot_generation (slots p2 MessageLost) = 1"
    unfolding p by (simp add: event_update_def new_event_parent_def Let_def u64_max_def)
  from event_flag_exact [OF c _ _ s(1,2)] s(3) have "event_pending p2 1"
    by (simp add: parent_ok_def new_event_parent_def ascending_def)
  moreover have "projr (fst (create_event {MessageLost} False (Inr ()) MessageLost new_event_parent)) = ?e"
    by (subst c) simp
  ultimately show ?thesis using s(1) by (simp add: Let_def del: event_run.simps)
qed

text \<open>
  Interleaved with a report, a take loses readiness: when a report of the event's type
  arrives between the snapshot and the flag's clearing, the take succeeds, the report is still to
  be taken, and the flag is down, so a wait set does not see the event; so it is when a report
  arrives between the snapshot and the registration of a new event.
\<close>

theorem event_readiness_lost:
  assumes "\<not> exhausted p" "slot_generation (slots p t) \<noteq> u64_max"
    and "event_update t i p = Some (p1, w)" "current = event_snapshot t p"
    and "event_type e = t" "take_commit current e = Some (Some info, e1)"
  shows "slot_generation (slots (clear_event (registration e) p1) t) \<noteq> snd (cursor e1)
    \<and> \<not> event_pending (clear_event (registration e) p1) (registration e)
    \<and> (\<not> event_pending p (next_event_registration_id p) \<and> next_event_registration_id p \<noteq> 0 \<and>
       (\<forall>r \<in> set (event_records p). reg_id r \<noteq> next_event_registration_id p) \<longrightarrow>
       (let (r, p2) = register_event t p1
        in \<not> event_pending p2 r \<and> slot_generation (slots p2 t) \<noteq> snd current))"
proof -
  obtain total where p1: "p1 = set_all_pending (\<lambda>r. reg_type r = t)
      (p\<lparr>slots := (slots p)(t := \<lparr>slot_info = total, slot_generation = slot_generation (slots p t) + 1\<rparr>)\<rparr>)"
    using assms(1-3) by (auto simp: event_update_def Let_def split: Option.bind_splits)
  have c: "cursor e1 = current" "snd current = slot_generation (slots p t)"
    using assms(4,6) by (auto simp: take_commit_def event_snapshot_def Let_def split: if_splits Option.bind_splits)
  have ne: "slot_generation (slots p t) + 1 \<noteq> slot_generation (slots p t)" by simp
  have "slot_generation (slots (clear_event (registration e) p1) t) \<noteq> snd (cursor e1)"
    using c ne by (simp add: clear_event_def p1)
  moreover have "\<not> event_pending (clear_event (registration e) p1) (registration e)"
    by (simp add: clear_event_def)
  moreover have "\<not> event_pending p1 (next_event_registration_id p)"
    if "\<not> event_pending p (next_event_registration_id p)"
      "\<forall>r \<in> set (event_records p). reg_id r \<noteq> next_event_registration_id p"
    using that by (auto simp: p1 set_all_pending_def)
  ultimately show ?thesis
    using assms(1) c by (auto simp: register_event_def Let_def p1)
qed

theorem event_readiness_lost_witness:
  "let p = \<lparr>ep_alive = True, slots = (\<lambda>_. \<lparr>slot_info = MessageLostInfo 1 1, slot_generation = 1\<rparr>),
              event_records = [\<lparr>reg_id = 1, reg_type = MessageLost\<rparr>], next_event_registration_id = 2,
              exhausted = False, event_pending = (\<lambda>i. i = 1)\<rparr>;
       p1 = fst (the (event_update MessageLost (MessageLostInfo 2 1) p))
   in \<not> event_pending (clear_event 1 p1) 1 \<and> slot_generation (slots (clear_event 1 p1) MessageLost) = 2"
proof -
  let ?p = "\<lparr>ep_alive = True, slots = (\<lambda>_. \<lparr>slot_info = MessageLostInfo 1 1, slot_generation = 1\<rparr>),
      event_records = [\<lparr>reg_id = 1, reg_type = MessageLost\<rparr>], next_event_registration_id = 2,
      exhausted = False, event_pending = (\<lambda>i. i = 1)\<rparr>"
  let ?e = "\<lparr>event_type = MessageLost, cursor = (MessageLostInfo 0 0, 0), registration = 1\<rparr>"
  have one: "(1 :: u64) \<noteq> u64_max" by (simp add: u64_max_def)
  obtain p1 w where u: "event_update MessageLost (MessageLostInfo 2 1) ?p = Some (p1, w)"
      "slot_generation (slots p1 MessageLost) = 2"
    using one by (simp add: event_update_def Let_def)
  have t: "take_commit (event_snapshot MessageLost ?p) ?e =
      Some (Some (MessageLostInfo 1 1), ?e\<lparr>cursor := (MessageLostInfo 1 1, 1)\<rparr>)"
    by (simp add: take_commit_def event_snapshot_def Let_def)
  from event_readiness_lost [OF _ _ u(1) refl _ t] one
  have "\<not> event_pending (clear_event 1 p1) 1" by simp
  then show ?thesis using u by (simp add: Let_def clear_event_def)
qed

end
