(* ===== verification/WaitSets.thy ===== *)
theory WaitSets
  imports Events Clocks
begin

text \<open>
  The wait set of \<^verbatim>\<open>impl/wait_set_impl.hpp\<close> and \<^verbatim>\<open>impl/wait_set_impl.cpp\<close>, with the reader
  wait state of \<^verbatim>\<open>impl/reader_wait_state.hpp\<close> and the kinds and bits of \<^verbatim>\<open>dmw/wait_result.hpp\<close>.

  A waitable is \<^emph>\<open>logical\<close> (guard condition, event, timer, graph event: no native condition) or
  one or several data readers. Waitables are shared objects: the model keeps them in two stores,
  by a number, and a registration names the numbers. The DDS answers through arguments: \<open>attach\<close>
  and \<open>detach\<close> say of a reader whether its native condition could be attached or detached.
  A result \<open>None\<close> of an operation says that the call never returns.
\<close>

section \<open>Kinds and bits\<close>

datatype WaitableKind =
    KSubscriber | KClient | KServer | KTimer | KActionClient | KActionServer | KEvent | KGraphEvent
  | KGuardCondition

definition kWaitableReadyBit :: u32 where "kWaitableReadyBit = 1"

definition kActionGoalExpiredBit :: u32 where "kActionGoalExpiredBit = push_bit 3 1"

text \<open>The bits of the action server; the aggregate of an action client uses bits 0 to 4.\<close>

definition allowed_interest :: u32 where
  "allowed_interest = or (push_bit 0 1) (or (push_bit 1 1) (or (push_bit 2 1) kActionGoalExpiredBit))"

fun reader_detail_bit :: "WaitableKind \<Rightarrow> nat \<Rightarrow> u32" where
  "reader_detail_bit KActionClient index = (if index < 5 then push_bit index 1 else kWaitableReadyBit)"
| "reader_detail_bit KActionServer index = (if index < 3 then push_bit index 1 else kWaitableReadyBit)"
| "reader_detail_bit _ index = kWaitableReadyBit"

section \<open>Waitables\<close>

record Logical =
  lw_state :: GuardConditionState
  lw_wait_set :: u64
  lw_registration :: u64
  lw_callbacks :: bool

datatype Lifecycle = Open | DeleteDeferredByWaitSet | Closed

record ReaderWaitState =
  rd_closing :: bool
  rd_wait_set :: u64
  rd_registration :: u64
  blocking_enabled :: bool
  lifecycle :: Lifecycle
  has_reader :: bool
  unread_count :: nat
  claim_in_progress :: bool
  rd_callbacks :: bool
  quarantined :: bool

definition reader_is_ready :: "ReaderWaitState \<Rightarrow> bool" where
  "reader_is_ready r \<longleftrightarrow> blocking_enabled r \<and> \<not> rd_closing r \<and> has_reader r \<and> unread_count r \<noteq> 0"

text \<open>\<open>detached\<close> is what the detach callback answers, true when there is none.\<close>

definition reader_close :: "bool \<Rightarrow> ReaderWaitState \<Rightarrow> bool \<times> ReaderWaitState" where
  "reader_close detached r =
     (let r1 = r\<lparr>rd_closing := True\<rparr>
      in (detached, if detached then r1\<lparr>has_reader := False, lifecycle := Closed\<rparr>
                    else r1\<lparr>lifecycle := DeleteDeferredByWaitSet\<rparr>))"

definition complete_deferred_delete :: "bool \<Rightarrow> ReaderWaitState \<Rightarrow> ReaderWaitState" where
  "complete_deferred_delete deleted r =
     (if lifecycle r \<noteq> DeleteDeferredByWaitSet \<or> rd_wait_set r \<noteq> 0 then r
      else if \<not> has_reader r then r\<lparr>lifecycle := Closed\<rparr>
      else if deleted then r\<lparr>has_reader := False, lifecycle := Closed\<rparr>
      else r)"

section \<open>The wait set\<close>

datatype RegistrationPhase = PAttached | PDetaching | PDetached
datatype AttachResult = AAttached | AAlreadyRegistered | AClosing | ADDSError

datatype Target = LogicalTarget nat | ReaderTarget "nat list"

record Registration =
  r_kind :: WaitableKind
  r_target :: Target
  r_conditions :: "bool list"
  r_phase :: RegistrationPhase
  r_interest :: u32

record World =
  logicals :: "nat \<Rightarrow> Logical"
  readers :: "nat \<Rightarrow> ReaderWaitState"
  registrations :: "(u64, Registration) umap"
  next_registration_id :: u64
  ws_closing :: bool
  ws_waiting :: bool
  ws_poisoned :: bool
  topology_generation :: u64

definition note_topology_mutation :: "World \<Rightarrow> World" where
  "note_topology_mutation w =
     (if topology_generation w = u64_max then w\<lparr>ws_poisoned := True\<rparr>
      else w\<lparr>topology_generation := topology_generation w + 1\<rparr>)"

definition reader_interested :: "Registration \<Rightarrow> nat \<Rightarrow> bool" where
  "reader_interested r index \<longleftrightarrow> and (r_interest r) (reader_detail_bit (r_kind r) index) \<noteq> 0"

definition claim_logical_waitable :: "u64 \<Rightarrow> u64 \<Rightarrow> Logical \<Rightarrow> AttachResult \<times> Logical" where
  "claim_logical_waitable wsid i l =
     (if guard_closing (lw_state l) then (AClosing, l)
      else if lw_wait_set l \<noteq> 0 then (AAlreadyRegistered, l)
      else (AAttached, l\<lparr>lw_wait_set := wsid, lw_registration := i, lw_callbacks := True\<rparr>))"

definition release_logical_waitable :: "u64 \<Rightarrow> u64 \<Rightarrow> Logical \<Rightarrow> Logical" where
  "release_logical_waitable wsid i l =
     (if lw_wait_set l \<noteq> wsid \<or> lw_registration l \<noteq> i then l
      else l\<lparr>lw_callbacks := False, lw_registration := 0, lw_wait_set := 0\<rparr>)"

text \<open>
  Marking the readers of a registration, one at a time under the reader's own lock. On a reader
  that is closing or taken the code calls \<^verbatim>\<open>clear_reader_claims\<close>, which locks every reader of the
  registration, while it still holds the lock of this one: a second lock of the same mutex by
  the same thread, which does not return.
\<close>

fun claim_readers :: "nat list \<Rightarrow> (nat \<Rightarrow> ReaderWaitState) \<Rightarrow> (nat \<Rightarrow> ReaderWaitState) option" where
  "claim_readers [] rds = Some rds"
| "claim_readers (x # xs) rds =
     (if rd_closing (rds x) then None
      else if rd_wait_set (rds x) \<noteq> 0 \<or> claim_in_progress (rds x) then None
      else claim_readers xs (rds(x := (rds x)\<lparr>claim_in_progress := True\<rparr>)))"

definition clear_reader_claims :: "nat list \<Rightarrow> (nat \<Rightarrow> ReaderWaitState) \<Rightarrow> (nat \<Rightarrow> ReaderWaitState)" where
  "clear_reader_claims xs rds =
     (\<lambda>x. if x \<in> set xs \<and> claim_in_progress (rds x) then (rds x)\<lparr>claim_in_progress := False\<rparr> else rds x)"

definition attach_single_reader_condition ::
  "(nat \<Rightarrow> bool) \<Rightarrow> (nat \<Rightarrow> ReaderWaitState) \<Rightarrow> nat \<Rightarrow> nat \<Rightarrow> Registration \<Rightarrow> AttachResult \<times> Registration" where
  "attach_single_reader_condition attach rds x index r =
     (if \<not> reader_interested r index \<or> \<not> blocking_enabled (rds x) then (AAttached, r)
      else if rd_closing (rds x) \<or> \<not> has_reader (rds x) then (AClosing, r)
      else if \<not> attach x then (ADDSError, r)
      else (AAttached, r\<lparr>r_conditions := (r_conditions r)[index := True]\<rparr>))"

text \<open>The loop over the readers; on a failure every attached condition is detached again.\<close>

fun attach_loop ::
  "(nat \<Rightarrow> bool) \<Rightarrow> (nat \<Rightarrow> ReaderWaitState) \<Rightarrow> nat list \<Rightarrow> nat \<Rightarrow> Registration \<Rightarrow> AttachResult \<times> Registration" where
  "attach_loop attach rds [] index r = (AAttached, r)"
| "attach_loop attach rds (x # xs) index r =
     (let (res, r1) = attach_single_reader_condition attach rds x index r
      in if res = AAttached then attach_loop attach rds xs (index + 1) r1 else (res, r1))"

definition attach_reader_conditions ::
  "(nat \<Rightarrow> bool) \<Rightarrow> (nat \<Rightarrow> ReaderWaitState) \<Rightarrow> nat list \<Rightarrow> Registration \<Rightarrow> AttachResult \<times> Registration" where
  "attach_reader_conditions attach rds xs r =
     (let (res, r1) = attach_loop attach rds xs 0 r
      in (res, if res = AAttached then r1 else r1\<lparr>r_conditions := map (\<lambda>_. False) (r_conditions r1)\<rparr>))"

definition commit_claims :: "u64 \<Rightarrow> u64 \<Rightarrow> nat list \<Rightarrow> (nat \<Rightarrow> ReaderWaitState) \<Rightarrow> (nat \<Rightarrow> ReaderWaitState)" where
  "commit_claims wsid i xs rds =
     (\<lambda>x. if x \<in> set xs then (rds x)\<lparr>claim_in_progress := False, rd_wait_set := wsid,
             rd_registration := i, rd_callbacks := True\<rparr> else rds x)"

definition claim ::
  "(nat \<Rightarrow> bool) \<Rightarrow> u64 \<Rightarrow> u64 \<Rightarrow> Registration \<Rightarrow> World \<Rightarrow> (AttachResult \<times> Registration \<times> World) option" where
  "claim attach wsid i r w =
     (case r_target r of
        LogicalTarget l \<Rightarrow>
          let (res, l1) = claim_logical_waitable wsid i (logicals w l)
          in Some (res, r, w\<lparr>logicals := (logicals w)(l := l1)\<rparr>)
      | ReaderTarget xs \<Rightarrow>
          do { rds \<leftarrow> claim_readers xs (readers w);
               let (res, r1) = attach_reader_conditions attach rds xs r;
               Some (if res = AAttached
                     then (AAttached, r1, w\<lparr>readers := commit_claims wsid i xs rds\<rparr>)
                     else (res, r1, w\<lparr>readers := clear_reader_claims xs rds\<rparr>)) })"

definition attach_error :: "AttachResult \<Rightarrow> ErrorCode" where
  "attach_error res = (case res of
     AAlreadyRegistered \<Rightarrow> AlreadyRegistered | AClosing \<Rightarrow> ParentDestroyed | _ \<Rightarrow> DDSError)"

text \<open>The guard of the topology counts the mutation when it goes out of scope, failed or not.\<close>

definition ws_add ::
  "(nat \<Rightarrow> bool) \<Rightarrow> u64 \<Rightarrow> WaitableKind \<Rightarrow> Target \<Rightarrow> World \<Rightarrow> (u64 result \<times> World) option" where
  "ws_add attach wsid kind target w =
     (if ws_closing w then Some (Inl ParentDestroyed, w)
      else if ws_poisoned w then Some (Inl DDSError, w)
      else if next_registration_id w = 0 then Some (Inl ResourceExhausted, w)
      else
        (let i = next_registration_id w;
             r = \<lparr>r_kind = kind, r_target = target,
                  r_conditions = (case target of LogicalTarget _ \<Rightarrow> [] | ReaderTarget xs \<Rightarrow> map (\<lambda>_. False) xs),
                  r_phase = PAttached, r_interest = - 1\<rparr>
         in do {
           (res, r1, w1) \<leftarrow> claim attach wsid i r w;
           Some (if res = AAttached
                 then (Inr i, note_topology_mutation (w1\<lparr>registrations := um_emplace i r1 (registrations w1),
                                next_registration_id := i + 1\<rparr>))
                 else (Inl (attach_error res), note_topology_mutation w1)) }))"

text \<open>Releasing the readers; it stops at the first condition that cannot be detached.\<close>

fun release_readers ::
  "(nat \<Rightarrow> bool) \<Rightarrow> u64 \<Rightarrow> u64 \<Rightarrow> nat list \<Rightarrow> nat \<Rightarrow> Registration \<Rightarrow> (nat \<Rightarrow> ReaderWaitState)
    \<Rightarrow> bool \<times> Registration \<times> (nat \<Rightarrow> ReaderWaitState)" where
  "release_readers detach wsid i [] index r rds = (True, r, rds)"
| "release_readers detach wsid i (x # xs) index r rds =
     (if rd_wait_set (rds x) \<noteq> wsid \<or> rd_registration (rds x) \<noteq> i
      then release_readers detach wsid i xs (index + 1) r rds
      else if r_conditions r ! index \<and> \<not> detach x then (False, r, rds)
      else release_readers detach wsid i xs (index + 1)
             (r\<lparr>r_conditions := (r_conditions r)[index := False]\<rparr>)
             (rds(x := (rds x)\<lparr>rd_callbacks := False, quarantined := False, rd_registration := 0,
                         rd_wait_set := 0\<rparr>)))"

definition release ::
  "(nat \<Rightarrow> bool) \<Rightarrow> u64 \<Rightarrow> u64 \<Rightarrow> Registration \<Rightarrow> World \<Rightarrow> bool \<times> Registration \<times> World" where
  "release detach wsid i r w =
     (case r_target r of
        LogicalTarget l \<Rightarrow>
          (True, r, w\<lparr>logicals := (logicals w)(l := release_logical_waitable wsid i (logicals w l))\<rparr>)
      | ReaderTarget xs \<Rightarrow>
          let (ok, r1, rds) = release_readers detach wsid i xs 0 r (readers w)
          in (ok, r1, w\<lparr>readers := rds\<rparr>))"

definition quarantine :: "Target \<Rightarrow> World \<Rightarrow> World" where
  "quarantine target w =
     (case target of LogicalTarget _ \<Rightarrow> w
      | ReaderTarget xs \<Rightarrow> w\<lparr>readers := (\<lambda>x. if x \<in> set xs then (readers w x)\<lparr>quarantined := True\<rparr> else readers w x)\<rparr>)"

text \<open>Whole detaches run one after another, so a registration that is found is attached.\<close>

definition ws_detach :: "(nat \<Rightarrow> bool) \<Rightarrow> u64 \<Rightarrow> u64 \<Rightarrow> World \<Rightarrow> bool \<times> World" where
  "ws_detach detach wsid i w =
     (case map_of (registrations w) i of
        None \<Rightarrow> (False, w)
      | Some r \<Rightarrow>
          if r_phase r \<noteq> PAttached then (False, w)
          else
            (let (ok, r1, w1) = release detach wsid i r w
             in if ok then (True, note_topology_mutation (w1\<lparr>registrations := um_erase i (registrations w1)\<rparr>))
                else (False, note_topology_mutation (quarantine (r_target r)
                        (w1\<lparr>registrations := um_modify i (\<lambda>_. r1) (registrations w1), ws_poisoned := True\<rparr>)))))"

definition ws_remove :: "(nat \<Rightarrow> bool) \<Rightarrow> u64 \<Rightarrow> u64 \<Rightarrow> WaitableKind \<Rightarrow> World \<Rightarrow> bool \<times> World" where
  "ws_remove detach wsid i kind w =
     (case map_of (registrations w) i of
        None \<Rightarrow> (False, w)
      | Some r \<Rightarrow> if r_kind r \<noteq> kind then (False, w) else ws_detach detach wsid i w)"

text \<open>\<open>None\<close>: the wait set is poisoned.\<close>

definition reconcile_reader_condition ::
  "(nat \<Rightarrow> bool) \<Rightarrow> (nat \<Rightarrow> bool) \<Rightarrow> (nat \<Rightarrow> ReaderWaitState) \<Rightarrow> nat \<Rightarrow> nat \<Rightarrow> Registration \<Rightarrow> Registration option" where
  "reconcile_reader_condition attach detach rds x index r =
     (if \<not> (reader_interested r index \<and> blocking_enabled (rds x) \<and> \<not> rd_closing (rds x)) then
        (if r_conditions r ! index \<and> \<not> detach x then None
         else Some (r\<lparr>r_conditions := (r_conditions r)[index := False]\<rparr>))
      else if \<not> r_conditions r ! index then
        (let (res, r1) = attach_single_reader_condition attach rds x index r
         in if res = AAttached then Some r1 else None)
      else Some r)"

fun reconcile_loop ::
  "(nat \<Rightarrow> bool) \<Rightarrow> (nat \<Rightarrow> bool) \<Rightarrow> (nat \<Rightarrow> ReaderWaitState) \<Rightarrow> nat list \<Rightarrow> nat \<Rightarrow> Registration
    \<Rightarrow> bool \<times> Registration" where
  "reconcile_loop attach detach rds [] index r = (True, r)"
| "reconcile_loop attach detach rds (x # xs) index r =
     (case reconcile_reader_condition attach detach rds x index r of
        None \<Rightarrow> (False, r)
      | Some r1 \<Rightarrow> reconcile_loop attach detach rds xs (index + 1) r1)"

definition target_readers :: "Target \<Rightarrow> nat list" where
  "target_readers t = (case t of LogicalTarget _ \<Rightarrow> [] | ReaderTarget xs \<Rightarrow> xs)"

definition ws_set_interest ::
  "(nat \<Rightarrow> bool) \<Rightarrow> (nat \<Rightarrow> bool) \<Rightarrow> u64 \<Rightarrow> WaitableKind \<Rightarrow> u32 \<Rightarrow> World \<Rightarrow> unit result \<times> World" where
  "ws_set_interest attach detach i kind bits w =
     (case map_of (registrations w) i of
        None \<Rightarrow> (Inl NotRegistered, w)
      | Some r \<Rightarrow>
          if r_kind r \<noteq> kind then (Inl NotRegistered, w)
          else if r_phase r \<noteq> PAttached then (Inl NotRegistered, w)
          else if kind \<noteq> KActionServer then (Inl Unsupported, w)
          else if and bits (not allowed_interest) \<noteq> 0 then (Inl InvalidArgument, w)
          else
            (let (ok, r1) = reconcile_loop attach detach (readers w) (target_readers (r_target r)) 0 (r\<lparr>r_interest := bits\<rparr>);
                 w1 = w\<lparr>registrations := um_modify i (\<lambda>_. r1) (registrations w)\<rparr>
             in if ok then (Inr (), note_topology_mutation w1)
                else (Inl DDSError, note_topology_mutation (w1\<lparr>ws_poisoned := True\<rparr>))))"

definition set_reader_blocking ::
  "(nat \<Rightarrow> bool) \<Rightarrow> (nat \<Rightarrow> bool) \<Rightarrow> u64 \<Rightarrow> nat \<Rightarrow> World \<Rightarrow> World" where
  "set_reader_blocking attach detach i index w =
     (case map_of (registrations w) i of
        None \<Rightarrow> w
      | Some r \<Rightarrow>
          if index \<ge> length (target_readers (r_target r)) \<or> r_phase r \<noteq> PAttached then w
          else
            (case reconcile_reader_condition attach detach (readers w) (target_readers (r_target r) ! index) index r of
               None \<Rightarrow> note_topology_mutation (w\<lparr>ws_poisoned := True\<rparr>)
             | Some r1 \<Rightarrow> note_topology_mutation (w\<lparr>registrations := um_modify i (\<lambda>_. r1) (registrations w)\<rparr>)))"

text \<open>\<^verbatim>\<open>close\<close>: every registration is detached until one cannot be.\<close>

fun close_loop :: "(nat \<Rightarrow> bool) \<Rightarrow> u64 \<Rightarrow> nat \<Rightarrow> World \<Rightarrow> World" where
  "close_loop detach wsid 0 w = w"
| "close_loop detach wsid (Suc n) w =
     (case registrations w of
        [] \<Rightarrow> w
      | (i, _) # _ \<Rightarrow> let (ok, w1) = ws_detach detach wsid i w
                     in if ok then close_loop detach wsid n w1 else w1)"

definition ws_close :: "(nat \<Rightarrow> bool) \<Rightarrow> u64 \<Rightarrow> World \<Rightarrow> World" where
  "ws_close detach wsid w =
     (if ws_closing w then w
      else close_loop detach wsid (length (registrations w)) (w\<lparr>ws_closing := True\<rparr>))"

definition begin_wait :: "World \<Rightarrow> unit result \<times> World" where
  "begin_wait w =
     (if ws_closing w then (Inl ParentDestroyed, w)
      else if ws_poisoned w then (Inl DDSError, w)
      else if ws_waiting w then (Inl Busy, w)
      else (Inr (), w\<lparr>ws_waiting := True\<rparr>))"

definition end_wait :: "World \<Rightarrow> World" where
  "end_wait w = w\<lparr>ws_waiting := False\<rparr>"

section \<open>Readiness\<close>

definition registration_closing :: "Registration \<Rightarrow> World \<Rightarrow> bool" where
  "registration_closing r w \<longleftrightarrow> (case r_target r of
     LogicalTarget l \<Rightarrow> guard_closing (lw_state (logicals w l))
   | ReaderTarget xs \<Rightarrow> \<exists>x \<in> set xs. rd_closing (readers w x))"

fun reader_mask :: "Registration \<Rightarrow> (nat \<Rightarrow> ReaderWaitState) \<Rightarrow> nat list \<Rightarrow> nat \<Rightarrow> u32" where
  "reader_mask r rds [] index = 0"
| "reader_mask r rds (x # xs) index =
     (if reader_interested r index \<and> reader_is_ready (rds x)
      then or (reader_detail_bit (r_kind r) index) (reader_mask r rds xs (index + 1))
      else reader_mask r rds xs (index + 1))"

text \<open>
  \<open>logical_ready\<close> is what a timer or graph event answers, \<open>logical_detail\<close> the provider of an
  aggregate, 0 where there is none. A guard condition commits its trigger here.
\<close>

definition ready_mask ::
  "(nat \<Rightarrow> bool) \<Rightarrow> (u64 \<Rightarrow> u32) \<Rightarrow> u64 \<Rightarrow> Registration \<Rightarrow> World \<Rightarrow> u32 \<times> World" where
  "ready_mask logical_ready logical_detail i r w =
     (case r_target r of
        LogicalTarget l \<Rightarrow>
          if r_kind r = KTimer \<or> r_kind r = KGraphEvent
          then (if logical_ready l then kWaitableReadyBit else 0, w)
          else if r_kind r = KEvent
          then (if guard_pending (lw_state (logicals w l)) then kWaitableReadyBit else 0, w)
          else (let (consumed, g) = consume_trigger (lw_state (logicals w l))
                in (if consumed then kWaitableReadyBit else 0,
                    w\<lparr>logicals := (logicals w)(l := (logicals w l)\<lparr>lw_state := g\<rparr>)\<rparr>))
      | ReaderTarget xs \<Rightarrow>
          (and (or (reader_mask r (readers w) xs 0) (logical_detail i)) (r_interest r), w))"

definition snapshot :: "World \<Rightarrow> (u64 \<times> Registration) list" where
  "snapshot w = filter (\<lambda>(i, r). r_phase r = PAttached) (registrations w)"

text \<open>One pass over a snapshot: what is ready, in order; closing registrations are detached.\<close>

fun collect ::
  "(nat \<Rightarrow> bool) \<Rightarrow> u64 \<Rightarrow> (nat \<Rightarrow> bool) \<Rightarrow> (u64 \<Rightarrow> u32) \<Rightarrow> (u64 \<times> Registration) list \<Rightarrow> World
    \<Rightarrow> (u64 \<times> WaitableKind \<times> u32) list \<times> World" where
  "collect detach wsid ready detail [] w = ([], w)"
| "collect detach wsid ready detail ((i, r) # rs) w =
     (if registration_closing r w
      then collect detach wsid ready detail rs (snd (ws_detach detach wsid i w))
      else
        (let (bits, w1) = ready_mask ready detail i r w;
             (found, w2) = collect detach wsid ready detail rs w1
         in (if bits = 0 then found else (i, r_kind r, bits) # found, w2)))"

text \<open>The earliest deadline of the wait, the timers and the runtime deadlines of the snapshot.\<close>

fun native_deadline ::
  "(nat \<Rightarrow> int option) \<Rightarrow> (u64 \<Rightarrow> int option) \<Rightarrow> (u64 \<times> Registration) list \<Rightarrow> int \<Rightarrow> int" where
  "native_deadline timer runtime [] d = d"
| "native_deadline timer runtime ((i, r) # rs) d =
     (let d1 = (case r_target r of
                  LogicalTarget l \<Rightarrow>
                    if r_kind r = KTimer then (case timer l of None \<Rightarrow> d | Some t \<Rightarrow> if t < d then t else d) else d
                | ReaderTarget _ \<Rightarrow> d);
          d2 = (if r_kind r \<noteq> KActionServer \<or> and (r_interest r) kActionGoalExpiredBit \<noteq> 0
                then (case runtime i of None \<Rightarrow> d1 | Some t \<Rightarrow> if t < d1 then t else d1)
                else d1)
      in native_deadline timer runtime rs d2)"

section \<open>Waiting\<close>

text \<open>
  What one pass of the loop asks of its environment, in order: the repair of the control
  condition, shutdown, readiness, what other threads do to the wait set while the snapshot is
  read (\<open>pe_meanwhile\<close>), the clock, deadlines, what they do before the native wait, and the clock.
\<close>

record PassEnv =
  pe_repaired :: bool
  pe_shutdown :: bool
  pe_detach :: "nat \<Rightarrow> bool"
  pe_ready :: "nat \<Rightarrow> bool"
  pe_detail :: "u64 \<Rightarrow> u32"
  pe_meanwhile :: "World \<Rightarrow> World"
  pe_now :: int
  pe_timer :: "nat \<Rightarrow> int option"
  pe_runtime :: "u64 \<Rightarrow> int option"
  pe_before_wait :: "World \<Rightarrow> World"
  pe_now_wait :: int

datatype PassResult =
    Failed ErrorCode
  | Ready "(u64 \<times> WaitableKind \<times> u32) list"
  | TimedOut
  | Retry
  | Sleep "int option"

definition is_finite :: "WaitTimeout \<Rightarrow> bool" where
  "is_finite t \<longleftrightarrow> (case t of Finite _ \<Rightarrow> True | _ \<Rightarrow> False)"

definition wait_pass :: "PassEnv \<Rightarrow> u64 \<Rightarrow> WaitTimeout \<Rightarrow> int \<Rightarrow> World \<Rightarrow> PassResult \<times> World" where
  "wait_pass e wsid timeout deadline w =
     (if \<not> pe_repaired e then (Failed DDSError, w\<lparr>ws_poisoned := True\<rparr>)
      else if pe_shutdown e then (Failed ContextShutdown, w)
      else if ws_closing w then (Failed ParentDestroyed, w)
      else
        (let observed = topology_generation w;
             regs = snapshot w;
             (found, w1) = collect (pe_detach e) wsid (pe_ready e) (pe_detail e) regs w;
             w2 = pe_meanwhile e w1
         in if topology_generation w2 \<noteq> observed then (Retry, w2)
            else if found \<noteq> [] then (Ready found, w2)
            else if timeout = Poll then (TimedOut, w2)
            else if is_finite timeout \<and> pe_now e \<ge> deadline then (TimedOut, w2)
            else
              (let d = native_deadline (pe_timer e) (pe_runtime e) regs deadline;
                   w3 = pe_before_wait e w2
               in if topology_generation w3 \<noteq> observed then (Retry, w3)
                  else if d \<noteq> int64_max then
                    (if d - pe_now_wait e \<le> 0 then (Retry, w3) else (Sleep (Some (d - pe_now_wait e)), w3))
                  else (Sleep None, w3))))"

text \<open>
  The loop, for a list of passes; with each pass comes what the native wait answers and what the
  other threads do while it lasts. \<open>None\<close>: the call has not returned when the passes are over.
\<close>

datatype WaitResult = WaitReady "(u64 \<times> WaitableKind \<times> u32) list" | WaitTimedOut

fun wait_passes ::
  "(PassEnv \<times> unit result \<times> (World \<Rightarrow> World)) list \<Rightarrow> u64 \<Rightarrow> WaitTimeout \<Rightarrow> int \<Rightarrow> World
    \<Rightarrow> (WaitResult result \<times> World) option" where
  "wait_passes [] wsid timeout deadline w = None"
| "wait_passes ((e, wake, after) # es) wsid timeout deadline w =
     (case wait_pass e wsid timeout deadline w of
        (Failed c, w1) \<Rightarrow> Some (Inl c, w1)
      | (Ready found, w1) \<Rightarrow> Some (Inr (WaitReady found), w1)
      | (TimedOut, w1) \<Rightarrow> Some (Inr WaitTimedOut, w1)
      | (Retry, w1) \<Rightarrow> wait_passes es wsid timeout deadline w1
      | (Sleep _, w1) \<Rightarrow>
          (case wake of Inl c \<Rightarrow> Some (Inl c, w1) | Inr _ \<Rightarrow> wait_passes es wsid timeout deadline (after w1)))"

definition ws_wait ::
  "bool \<Rightarrow> (PassEnv \<times> unit result \<times> (World \<Rightarrow> World)) list \<Rightarrow> u64 \<Rightarrow> WaitTimeout \<Rightarrow> int \<Rightarrow> World
    \<Rightarrow> (WaitResult result \<times> World) option" where
  "ws_wait shut es wsid timeout deadline w =
     (if shut then Some (Inl ContextShutdown, w)
      else case begin_wait w of
        (Inl c, w1) \<Rightarrow> Some (Inl c, w1)
      | (Inr _, w1) \<Rightarrow> map_option (map_prod id end_wait) (wait_passes es wsid timeout deadline w1))"

text \<open>The native wait counts seconds in 32 bits: one slice of a longer wait.\<close>

definition native_wait_slice :: "int \<Rightarrow> int \<times> int" where
  "native_wait_slice timeout =
     (if timeout \<le> 0 then (0, 0)
      else let clamped = min timeout (2147483647 * 1000000000 + 999999999)
           in (clamped div 1000000000, clamped mod 1000000000))"

section \<open>The control condition\<close>

text \<open>
  What wakes the native wait: a guard condition of the DDS and a generation that counts the
  notifications. \<open>dds\<close> says whether the DDS accepted the change.
\<close>

record WaitSetWake =
  wake_generation :: u64
  wake_broken :: bool
  control_trigger :: bool

definition wake_notify :: "bool \<Rightarrow> WaitSetWake \<Rightarrow> unit result \<times> WaitSetWake" where
  "wake_notify dds k =
     (let k1 = k\<lparr>wake_generation := wake_generation k + 1\<rparr>
      in if dds then (Inr (), k1\<lparr>control_trigger := True\<rparr>) else (Inl DDSError, k1\<lparr>wake_broken := True\<rparr>))"

definition clear_if_unchanged :: "bool \<Rightarrow> u64 \<Rightarrow> WaitSetWake \<Rightarrow> bool \<times> WaitSetWake" where
  "clear_if_unchanged dds observed k =
     (if wake_generation k \<noteq> observed then (False, k)
      else if dds then (True, k\<lparr>control_trigger := False\<rparr>)
      else (False, k\<lparr>wake_broken := True\<rparr>))"

definition wake_replace :: "bool \<Rightarrow> WaitSetWake \<Rightarrow> bool \<times> WaitSetWake" where
  "wake_replace dds k = (if dds then (True, k\<lparr>control_trigger := False, wake_broken := False\<rparr>) else (False, k))"

definition repair_control_guard :: "bool \<Rightarrow> WaitSetWake \<Rightarrow> World \<Rightarrow> unit result \<times> WaitSetWake \<times> World" where
  "repair_control_guard dds k w =
     (if \<not> wake_broken k then (Inr (), k, w)
      else let (ok, k1) = wake_replace dds k
           in if ok then (Inr (), k1, note_topology_mutation w)
              else (Inl DDSError, k1, w\<lparr>ws_poisoned := True\<rparr>))"

text \<open>
  The native wait; the native wait set answers \<open>native\<close>. It is entered only when the control
  condition could be cleared without missing a notification: the second component says so.
\<close>

definition wait_for_notification ::
  "bool \<Rightarrow> unit result \<Rightarrow> u64 \<Rightarrow> WaitSetWake \<Rightarrow> (unit result \<times> bool) \<times> WaitSetWake" where
  "wait_for_notification dds native observed k =
     (let (cleared, k1) = clear_if_unchanged dds observed k
      in if \<not> cleared then ((Inr (), False), k1) else ((native, True), k1))"

fun notifications :: "bool list \<Rightarrow> WaitSetWake \<Rightarrow> WaitSetWake" where
  "notifications [] k = k"
| "notifications (d # ds) k = notifications ds (snd (wake_notify d k))"

lemma notifications_generation: "wake_generation (notifications ds k) = wake_generation k + of_nat (length ds)"
  by (induction ds k rule: notifications.induct) (simp_all add: wake_notify_def Let_def add.assoc)

text \<open>
  A notification after the generation was observed keeps the thread out of the native wait and the
  control condition up; less than \<open>2^64\<close> notifications arrive between the two.
\<close>

lemma notified_never_sleeps:
  assumes "observed = wake_generation k" "ds \<noteq> []" "length ds < 2 ^ 64"
  shows "wait_for_notification dds native observed (notifications ds k) = ((Inr (), False), notifications ds k)"
proof -
  have "(of_nat (length ds) :: u64) \<noteq> 0"
    using assms(2,3) by (simp add: word_of_nat_eq_0_iff nat_dvd_not_less)
  then have "wake_generation (notifications ds k) \<noteq> observed" by (simp add: notifications_generation assms(1))
  then show ?thesis by (simp add: wait_for_notification_def clear_if_unchanged_def)
qed

section \<open>Registration identities\<close>

text \<open>
  A waitable knows the registration that holds it: what the wait set has registered and what the
  waitables say agree. Readers of a poisoned wait set may have been released by a detach that
  failed half way.
\<close>

definition target_held :: "u64 \<Rightarrow> World \<Rightarrow> u64 \<Rightarrow> Registration \<Rightarrow> bool" where
  "target_held wsid w i r \<longleftrightarrow> (case r_target r of
     LogicalTarget l \<Rightarrow> lw_wait_set (logicals w l) = wsid \<and> lw_registration (logicals w l) = i
   | ReaderTarget xs \<Rightarrow> ws_poisoned w \<or>
       (\<forall>x \<in> set xs. rd_wait_set (readers w x) = wsid \<and> rd_registration (readers w x) = i))"

definition entry_ok :: "u64 \<Rightarrow> World \<Rightarrow> u64 \<Rightarrow> Registration \<Rightarrow> bool" where
  "entry_ok wsid w i r \<longleftrightarrow> i \<noteq> 0 \<and> (next_registration_id w \<noteq> 0 \<longrightarrow> i < next_registration_id w)
     \<and> r_phase r = PAttached \<and> length (r_conditions r) = length (target_readers (r_target r))
     \<and> target_held wsid w i r"

definition logical_ok :: "u64 \<Rightarrow> World \<Rightarrow> nat \<Rightarrow> bool" where
  "logical_ok wsid w l \<longleftrightarrow> (lw_wait_set (logicals w l) = wsid \<longrightarrow>
     (\<exists>r. map_of (registrations w) (lw_registration (logicals w l)) = Some r \<and> r_target r = LogicalTarget l))"

definition reader_ok :: "u64 \<Rightarrow> World \<Rightarrow> nat \<Rightarrow> bool" where
  "reader_ok wsid w x \<longleftrightarrow> \<not> claim_in_progress (readers w x) \<and> (rd_wait_set (readers w x) = wsid \<longrightarrow>
     (\<exists>r. map_of (registrations w) (rd_registration (readers w x)) = Some r \<and> x \<in> set (target_readers (r_target r))))"

definition world_ok :: "u64 \<Rightarrow> World \<Rightarrow> bool" where
  "world_ok wsid w \<longleftrightarrow> um_ok (registrations w)
     \<and> (\<forall>i r. map_of (registrations w) i = Some r \<longrightarrow> entry_ok wsid w i r)
     \<and> (\<forall>l. logical_ok wsid w l) \<and> (\<forall>x. reader_ok wsid w x)"

lemma world_okD:
  assumes "world_ok wsid w"
  shows "um_ok (registrations w)" "map_of (registrations w) i = Some r \<Longrightarrow> entry_ok wsid w i r"
    "logical_ok wsid w l" "reader_ok wsid w x"
  using assms by (auto simp: world_ok_def)

lemma note_topology_frame [simp, frame]:
  "logicals (note_topology_mutation w) = logicals w" "readers (note_topology_mutation w) = readers w"
  "registrations (note_topology_mutation w) = registrations w"
  "next_registration_id (note_topology_mutation w) = next_registration_id w"
  "ws_closing (note_topology_mutation w) = ws_closing w" "ws_waiting (note_topology_mutation w) = ws_waiting w"
  by (simp_all add: note_topology_mutation_def)

lemma note_topology_poisoned: "ws_poisoned w \<Longrightarrow> ws_poisoned (note_topology_mutation w)"
  by (simp add: note_topology_mutation_def)

lemma target_held_note [simp]:
  "target_held wsid w i r \<Longrightarrow> target_held wsid (note_topology_mutation w) i r"
  by (auto simp: target_held_def note_topology_poisoned split: Target.splits)

lemma world_ok_note [keeps]: "world_ok wsid w \<Longrightarrow> world_ok wsid (note_topology_mutation w)"
  by (simp add: world_ok_def entry_ok_def logical_ok_def reader_ok_def)

lemma claim_readers_Some:
  "claim_readers xs rds = Some rds' \<Longrightarrow>
    distinct xs \<and> (\<forall>x \<in> set xs. rd_wait_set (rds x) = 0 \<and> \<not> rd_closing (rds x) \<and> \<not> claim_in_progress (rds x))
    \<and> rds' = (\<lambda>x. if x \<in> set xs then (rds x)\<lparr>claim_in_progress := True\<rparr> else rds x)"
proof (induction xs arbitrary: rds)
  case (Cons x xs)
  let ?rds = "rds(x := (rds x)\<lparr>claim_in_progress := True\<rparr>)"
  have x: "\<not> rd_closing (rds x)" "rd_wait_set (rds x) = 0" "\<not> claim_in_progress (rds x)"
    and c: "claim_readers xs ?rds = Some rds'"
    using Cons.prems by (auto split: if_splits)
  note IH = Cons.IH [OF c]
  have "x \<notin> set xs" using IH by auto
  then have same: "\<forall>y \<in> set xs. ?rds y = rds y" by auto
  have "rds' = (\<lambda>y. if y \<in> set (x # xs) then (rds y)\<lparr>claim_in_progress := True\<rparr> else rds y)"
    using IH by (auto simp: fun_eq_iff)
  moreover have "\<forall>y \<in> set xs. rd_wait_set (rds y) = 0 \<and> \<not> rd_closing (rds y) \<and> \<not> claim_in_progress (rds y)"
    using IH same by metis
  ultimately show ?case using IH \<open>x \<notin> set xs\<close> x by simp
qed auto

text \<open>Attaching touches the conditions of the registration only.\<close>

definition same_registration :: "Registration \<Rightarrow> Registration \<Rightarrow> bool" where
  "same_registration r r1 \<longleftrightarrow> r_kind r1 = r_kind r \<and> r_target r1 = r_target r \<and> r_phase r1 = r_phase r
     \<and> length (r_conditions r1) = length (r_conditions r)"

lemma attach_single_frame:
  "attach_single_reader_condition attach rds x index r = (res, r1) \<Longrightarrow>
    same_registration r r1 \<and> r_interest r1 = r_interest r"
  by (auto simp: attach_single_reader_condition_def same_registration_def split: if_splits)

lemma attach_loop_frame:
  "attach_loop attach rds xs index r = (res, r1) \<Longrightarrow> same_registration r r1 \<and> r_interest r1 = r_interest r"
proof (induction xs arbitrary: index r)
  case (Cons x xs)
  obtain res1 r2 where a: "attach_single_reader_condition attach rds x index r = (res1, r2)" by fastforce
  note f = attach_single_frame [OF a]
  show ?case
  proof (cases "res1 = AAttached")
    case True
    then have "attach_loop attach rds xs (index + 1) r2 = (res, r1)" using Cons.prems a by simp
    from Cons.IH [OF this] f show ?thesis by (simp add: same_registration_def)
  next
    case False
    then show ?thesis using Cons.prems a f by simp
  qed
qed (simp add: same_registration_def)

lemma attach_conditions_frame:
  "attach_reader_conditions attach rds xs r = (res, r1) \<Longrightarrow> same_registration r r1 \<and> r_interest r1 = r_interest r"
  using attach_loop_frame [of attach rds xs 0 r]
  by (auto simp: attach_reader_conditions_def Let_def same_registration_def split: prod.splits if_splits)

lemma next_id_fresh:
  assumes "world_ok wsid w" "next_registration_id w \<noteq> 0"
  shows "map_of (registrations w) (next_registration_id w) = None"
  using world_okD(2) [OF assms(1), of "next_registration_id w"] assms(2)
  by (cases "map_of (registrations w) (next_registration_id w)") (auto simp: entry_ok_def)

lemma next_id_less: "(i :: u64) + 1 \<noteq> 0 \<Longrightarrow> i < i + 1"
  using u64_inc_gt [of i] by (cases "i = u64_max") (simp_all add: u64_max_def)

lemma um_emplace_new: "map_of m k = None \<Longrightarrow> map_of (um_emplace k v m) j = (if j = k then Some v else map_of m j)"
  by (simp add: um.lookup_emplace)

lemma add_logical_ok:
  assumes ok: "world_ok wsid w" and ne: "wsid \<noteq> 0" "next_registration_id w \<noteq> 0"
    and free: "lw_wait_set (logicals w l) = 0"
    and r: "r_target r = LogicalTarget l" "r_phase r = PAttached" "r_conditions r = []"
  defines "i \<equiv> next_registration_id w"
  defines "w' \<equiv> w\<lparr>logicals := (logicals w)(l := (logicals w l)\<lparr>lw_wait_set := wsid, lw_registration := i, lw_callbacks := True\<rparr>),
    registrations := um_emplace i r (registrations w), next_registration_id := i + 1\<rparr>"
  shows "world_ok wsid w'"
proof -
  note new = next_id_fresh [OF ok ne(2), folded i_def]
  note D = world_okD [OF ok]
  have look: "map_of (registrations w') j = (if j = i then Some r else map_of (registrations w) j)" for j
    using new by (simp add: w'_def um_emplace_new)
  have "entry_ok wsid w' j s" if "map_of (registrations w') j = Some s" for j s
  proof (cases "j = i")
    case True
    with that look have "s = r" by simp
    then show ?thesis
      using True r ne next_id_less [of i] by (auto simp: entry_ok_def target_held_def target_readers_def w'_def i_def)
  next
    case False
    with that look have e: "entry_ok wsid w j s" using D(2) by simp
    then have "j < i" using ne(2) by (simp add: entry_ok_def i_def)
    moreover have "r_target s \<noteq> LogicalTarget l"
      using e free ne(1) by (auto simp: entry_ok_def target_held_def)
    ultimately show ?thesis
      using e next_id_less [of i]
      by (auto simp: entry_ok_def target_held_def w'_def split: Target.splits intro: less_trans)
  qed
  moreover have "logical_ok wsid w' k" for k
    using D(3) [of k] look new r(1) by (auto simp: logical_ok_def w'_def i_def) 
  moreover have "reader_ok wsid w' x" for x
    using D(4) [of x] look new by (auto simp: reader_ok_def w'_def)
  moreover have "um_ok (registrations w')" using D(1) by (simp add: w'_def um.ok_emplace)
  ultimately show ?thesis by (simp add: world_ok_def)
qed

lemma add_readers_ok:
  assumes ok: "world_ok wsid w" and ne: "wsid \<noteq> 0" "next_registration_id w \<noteq> 0"
    and claimed: "claim_readers xs (readers w) = Some rds"
    and r: "r_target r = ReaderTarget xs" "r_phase r = PAttached" "length (r_conditions r) = length xs"
  defines "i \<equiv> next_registration_id w"
  defines "w' \<equiv> w\<lparr>readers := commit_claims wsid i xs rds,
    registrations := um_emplace i r (registrations w), next_registration_id := i + 1\<rparr>"
  shows "world_ok wsid w'"
proof -
  note new = next_id_fresh [OF ok ne(2), folded i_def]
  note D = world_okD [OF ok]
  note c = claim_readers_Some [OF claimed]
  have look: "map_of (registrations w') j = (if j = i then Some r else map_of (registrations w) j)" for j
    using new by (simp add: w'_def um_emplace_new)
  have "entry_ok wsid w' j s" if "map_of (registrations w') j = Some s" for j s
  proof (cases "j = i")
    case True
    with that look have "s = r" by simp
    then show ?thesis
      using True r ne next_id_less [of i]
      by (auto simp: entry_ok_def target_held_def target_readers_def w'_def i_def commit_claims_def)
  next
    case False
    with that look have e: "entry_ok wsid w j s" using D(2) by simp
    then have "j < i" using ne(2) by (simp add: entry_ok_def i_def)
    moreover have "target_held wsid w' j s"
      using e c ne(1) by (fastforce simp: entry_ok_def target_held_def w'_def commit_claims_def split: Target.splits)
    ultimately show ?thesis
      using e next_id_less [of i] by (auto simp: entry_ok_def w'_def intro: less_trans)
  qed
  moreover have "logical_ok wsid w' k" for k
    using D(3) [of k] look new by (auto simp: logical_ok_def w'_def)
  moreover have "reader_ok wsid w' x" for x
    using D(4) [of x] look new r(1) c by (auto simp: reader_ok_def w'_def commit_claims_def target_readers_def)
  moreover have "um_ok (registrations w')" using D(1) by (simp add: w'_def um.ok_emplace)
  ultimately show ?thesis by (simp add: world_ok_def)
qed

lemma clear_claims_id:
  assumes "claim_readers xs rds = Some rds'" shows "clear_reader_claims xs rds' = rds"
  using claim_readers_Some [OF assms] by (auto simp: clear_reader_claims_def fun_eq_iff)

lemma claim_logical_fail: "claim_logical_waitable wsid i l = (res, l1) \<Longrightarrow> res \<noteq> AAttached \<Longrightarrow> l1 = l"
  by (auto simp: claim_logical_waitable_def split: if_splits)

text \<open>A failed add leaves everything but the topology generation as it was.\<close>

lemma ws_add_fail:
  assumes "ws_add attach wsid kind target w = Some (Inl c, w')"
  shows "w' = w \<or> w' = note_topology_mutation w"
proof (cases "ws_closing w \<or> ws_poisoned w \<or> next_registration_id w = 0")
  case True
  then show ?thesis using assms unfolding ws_add_def by (auto split: if_splits)
next
  case False
  let ?i = "next_registration_id w"
  show ?thesis
  proof (cases target)
    case (LogicalTarget l)
    obtain res l1 where c: "claim_logical_waitable wsid ?i (logicals w l) = (res, l1)" by fastforce
    then have "res \<noteq> AAttached" and w': "w' = note_topology_mutation (w\<lparr>logicals := (logicals w)(l := l1)\<rparr>)"
      using assms False LogicalTarget by (auto simp: ws_add_def Let_def claim_def split: if_splits)
    then have "l1 = logicals w l" using claim_logical_fail [OF c] by simp
    then show ?thesis using w' by simp
  next
    case (ReaderTarget xs)
    then obtain rds res r r1 where c: "claim_readers xs (readers w) = Some rds" "res \<noteq> AAttached"
        "attach_reader_conditions attach rds xs r = (res, r1)"
        "w' = note_topology_mutation (w\<lparr>readers := clear_reader_claims xs rds\<rparr>)"
      using assms False
      by (auto simp: ws_add_def Let_def claim_def split: if_splits prod.splits Option.bind_splits)
    then show ?thesis using clear_claims_id [OF c(1)] by simp
  qed
qed

lemma ws_add_ok [keeps]:
  assumes "world_ok wsid w" "wsid \<noteq> 0" "ws_add attach wsid kind target w = Some (res, w')"
  shows "world_ok wsid w'"
proof (cases res)
  case (Inl c)
  then show ?thesis using ws_add_fail assms world_ok_note by blast
next
  case (Inr i)
  then have ne: "next_registration_id w \<noteq> 0" using assms(3) by (auto simp: ws_add_def split: if_splits)
  show ?thesis
  proof (cases target)
    case (LogicalTarget l)
    then show ?thesis
      using Inr assms ne add_logical_ok [OF assms(1,2) ne, of l]
      by (auto simp: ws_add_def Let_def claim_def claim_logical_waitable_def intro!: world_ok_note
          split: if_splits prod.splits)
  next
    case (ReaderTarget xs)
    then obtain rds r1 r where c: "claim_readers xs (readers w) = Some rds"
        "attach_reader_conditions attach rds xs r = (AAttached, r1)"
        "r = \<lparr>r_kind = kind, r_target = ReaderTarget xs, r_conditions = map (\<lambda>_. False) xs, r_phase = PAttached, r_interest = - 1\<rparr>"
        "w' = note_topology_mutation (w\<lparr>readers := commit_claims wsid (next_registration_id w) xs rds,
           registrations := um_emplace (next_registration_id w) r1 (registrations w),
           next_registration_id := next_registration_id w + 1\<rparr>)"
      using Inr assms(3)
      by (auto simp: ws_add_def Let_def claim_def split: if_splits prod.splits Option.bind_splits)
    then show ?thesis
      using attach_conditions_frame [OF c(2)] add_readers_ok [OF assms(1,2) ne c(1), of r1]
      by (auto simp: same_registration_def intro!: world_ok_note)
  qed
qed

definition held_by :: "u64 \<Rightarrow> u64 \<Rightarrow> ReaderWaitState \<Rightarrow> bool" where
  "held_by wsid i r \<longleftrightarrow> rd_wait_set r = wsid \<and> rd_registration r = i"

definition released :: "u64 \<Rightarrow> u64 \<Rightarrow> ReaderWaitState \<Rightarrow> ReaderWaitState \<Rightarrow> bool" where
  "released wsid i r r' \<longleftrightarrow> r' = r \<or> held_by wsid i r \<and> rd_wait_set r' = 0
     \<and> claim_in_progress r' = claim_in_progress r"

lemma released_trans: "wsid \<noteq> 0 \<Longrightarrow> released wsid i r r' \<Longrightarrow> released wsid i r' r'' \<Longrightarrow> released wsid i r r''"
  by (auto simp: released_def held_by_def)

lemma release_readers_spec:
  "wsid \<noteq> 0 \<Longrightarrow> release_readers detach wsid i xs index r rds = (ok, r1, rds1) \<Longrightarrow>
    (\<forall>x. released wsid i (rds x) (rds1 x)) \<and> (ok \<longrightarrow> (\<forall>x \<in> set xs. \<not> held_by wsid i (rds1 x)))
    \<and> same_registration r r1"
proof (induction xs arbitrary: index r rds)
  case (Cons x xs)
  let ?rds = "rds(x := (rds x)\<lparr>rd_callbacks := False, quarantined := False, rd_registration := 0, rd_wait_set := 0\<rparr>)"
  let ?r = "r\<lparr>r_conditions := (r_conditions r)[index := False]\<rparr>"
  have gone: "\<not> held_by wsid i (rds1 x)" if "released wsid i (rds' x) (rds1 x)" "\<not> held_by wsid i (rds' x)" for rds'
    using that by (auto simp: released_def)
  show ?case
  proof (cases "held_by wsid i (rds x)")
    case False
    then have "release_readers detach wsid i xs (index + 1) r rds = (ok, r1, rds1)"
      using Cons.prems(2) by (auto simp: held_by_def)
    from Cons.IH [OF Cons.prems(1) this] gone [of rds] False show ?thesis by auto
  next
    case held: True
    show ?thesis
    proof (cases "r_conditions r ! index \<and> \<not> detach x")
      case True
      then have "(ok, r1, rds1) = (False, r, rds)" using held Cons.prems(2) by (auto simp: held_by_def)
      then show ?thesis by (simp add: released_def same_registration_def)
    next
      case False
      then have "release_readers detach wsid i xs (index + 1) ?r ?rds = (ok, r1, rds1)"
        using held Cons.prems(2) by (auto simp: held_by_def)
      note IH = Cons.IH [OF Cons.prems(1) this]
      have step: "released wsid i (rds y) (?rds y)" for y
        using held by (auto simp: released_def)
      have rest: "released wsid i (?rds y) (rds1 y)" for y using IH by blast
      have "\<not> held_by wsid i (?rds x)" using Cons.prems(1) by (simp add: held_by_def)
      then have "\<not> held_by wsid i (rds1 x)" by (rule gone [of ?rds, OF rest [of x]])
      moreover have "released wsid i (rds y) (rds1 y)" for y
        by (rule released_trans [OF Cons.prems(1) step rest])
      ultimately show ?thesis using IH by (simp add: same_registration_def)
    qed
  qed
qed (auto simp: released_def same_registration_def)

lemma um_erase_lookup: "map_of (um_erase k m) j = (if j = k then None else map_of m j)"
  by (rule um.lookup_erase)

lemma um_modify_lookup: "map_of (um_modify k f m) j = (if j = k then map_option f (map_of m k) else map_of m j)"
  by (rule um.lookup_modify)

lemma detach_logical_ok:
  assumes ok: "world_ok wsid w" and "wsid \<noteq> 0"
    and r: "map_of (registrations w) i = Some r" "r_target r = LogicalTarget l"
  shows "world_ok wsid (w\<lparr>logicals := (logicals w)(l := release_logical_waitable wsid i (logicals w l)),
    registrations := um_erase i (registrations w)\<rparr>)" (is "world_ok wsid ?w")
proof -
  note D = world_okD [OF ok]
  have held: "lw_wait_set (logicals w l) = wsid" "lw_registration (logicals w l) = i"
    using D(2) [OF r(1)] r(2) by (simp_all add: entry_ok_def target_held_def)
  have "entry_ok wsid ?w j s" if "map_of (registrations ?w) j = Some s" for j s
  proof -
    from that have js: "j \<noteq> i" "entry_ok wsid w j s" using D(2) by (auto simp: um_erase_lookup split: if_splits)
    then have "r_target s \<noteq> LogicalTarget l" using held by (auto simp: entry_ok_def target_held_def)
    with js show ?thesis by (auto simp: entry_ok_def target_held_def split: Target.splits)
  qed
  moreover have "logical_ok wsid ?w k" for k
    using D(3) [of k] r held assms(2)
    by (auto simp: logical_ok_def um_erase_lookup release_logical_waitable_def)
  moreover have "reader_ok wsid ?w x" for x
    using D(4) [of x] r by (auto simp: reader_ok_def um_erase_lookup target_readers_def)
  ultimately show ?thesis using D(1) by (simp add: world_ok_def um.ok_erase)
qed

lemma released_reader_ok:
  assumes "reader_ok wsid w x" "released wsid i (readers w x) (rds1 x)" "wsid \<noteq> 0"
  shows "\<not> claim_in_progress (rds1 x)"
    and "rd_wait_set (rds1 x) = wsid \<Longrightarrow> rds1 x = readers w x \<and>
      (\<exists>r. map_of (registrations w) (rd_registration (rds1 x)) = Some r \<and> x \<in> set (target_readers (r_target r)))"
  using assms by (auto simp: reader_ok_def released_def)

lemma detach_readers_ok:
  assumes ok: "world_ok wsid w" and ne: "wsid \<noteq> 0"
    and r: "map_of (registrations w) i = Some r" "r_target r = ReaderTarget xs"
    and rel: "release_readers detach wsid i xs 0 r (readers w) = (True, r1, rds1)"
  shows "world_ok wsid (w\<lparr>readers := rds1, registrations := um_erase i (registrations w)\<rparr>)" (is "world_ok wsid ?w")
proof -
  note D = world_okD [OF ok] and R = release_readers_spec [OF ne rel]
  have "entry_ok wsid ?w j s" if "map_of (registrations ?w) j = Some s" for j s
  proof -
    from that have js: "j \<noteq> i" "entry_ok wsid w j s" using D(2) by (auto simp: um_erase_lookup split: if_splits)
    have "rds1 x = readers w x" if "rd_registration (readers w x) = j" for x
      using R that js(1) by (auto simp: released_def held_by_def)
    with js show ?thesis by (auto simp: entry_ok_def target_held_def split: Target.splits)
  qed
  moreover have "logical_ok wsid ?w k" for k
    using D(3) [of k] r by (auto simp: logical_ok_def um_erase_lookup)
  moreover have "reader_ok wsid ?w x" for x
  proof -
    have rx: "released wsid i (readers w x) (rds1 x)" using R by blast
    have "rd_registration (rds1 x) \<noteq> i" if "rd_wait_set (rds1 x) = wsid"
    proof
      assume i: "rd_registration (rds1 x) = i"
      then have "x \<in> set xs"
        using released_reader_ok(2) [of wsid w x i rds1, OF D(4) rx ne that] r
        by (auto simp: target_readers_def)
      then have "\<not> held_by wsid i (rds1 x)" using R by blast
      then show False using that i by (simp add: held_by_def)
    qed
    with released_reader_ok [of wsid w x i rds1, OF D(4) rx ne] show ?thesis by (auto simp: reader_ok_def um_erase_lookup)
  qed
  ultimately show ?thesis using D(1) by (simp add: world_ok_def um.ok_erase)
qed

lemma detach_fails_ok:
  assumes ok: "world_ok wsid w" and ne: "wsid \<noteq> 0"
    and r: "map_of (registrations w) i = Some r" "r_target r = ReaderTarget xs"
    and rel: "release_readers detach wsid i xs 0 r (readers w) = (False, r1, rds1)"
  shows "world_ok wsid (quarantine (ReaderTarget xs) (w\<lparr>readers := rds1,
    registrations := um_modify i (\<lambda>_. r1) (registrations w), ws_poisoned := True\<rparr>))" (is "world_ok wsid ?w")
proof -
  note D = world_okD [OF ok] and R = release_readers_spec [OF ne rel]
  have same: "r_target r1 = r_target r" "r_phase r1 = r_phase r" "length (r_conditions r1) = length (r_conditions r)"
    using R by (simp_all add: same_registration_def)
  have look: "map_of (registrations ?w) j = (if j = i then Some r1 else map_of (registrations w) j)" for j
    using r by (simp add: quarantine_def um_modify_lookup)
  have frame: "logicals ?w = logicals w" "next_registration_id ?w = next_registration_id w" "ws_poisoned ?w"
      "um_ok (registrations ?w)"
    using r D(1) by (simp_all add: quarantine_def um.ok_modify)
  have rd: "rd_wait_set (readers ?w x) = rd_wait_set (rds1 x)"
      "rd_registration (readers ?w x) = rd_registration (rds1 x)"
      "claim_in_progress (readers ?w x) = claim_in_progress (rds1 x)" for x
    using r by (simp_all add: quarantine_def)
  have "entry_ok wsid ?w j s" if "map_of (registrations ?w) j = Some s" for j s
  proof -
    note entry = that
    obtain s' where s': "map_of (registrations w) j = Some s'" "r_target s = r_target s'" "r_phase s = r_phase s'"
        "length (r_conditions s) = length (r_conditions s')"
      using entry same r(1) unfolding look by (cases "j = i") auto
    then show ?thesis
      using D(2) [OF s'(1)] frame by (auto simp: entry_ok_def target_held_def split: Target.splits)
  qed
  moreover have "logical_ok wsid ?w k" for k
    using D(3) [of k] r same look frame by (auto simp: logical_ok_def)
  moreover have "reader_ok wsid ?w x" for x
  proof -
    have rx: "released wsid i (readers w x) (rds1 x)" using R by blast
    show ?thesis using released_reader_ok [of wsid w x i rds1, OF D(4) rx ne] look r same rd by (auto simp: reader_ok_def)
  qed
  ultimately show ?thesis using frame by (simp add: world_ok_def)
qed

lemma ws_detach_ok [keeps]:
  assumes "world_ok wsid w" "wsid \<noteq> 0"
  shows "world_ok wsid (snd (ws_detach detach wsid i w))"
proof (cases "map_of (registrations w) i")
  case (Some r)
  have ph: "r_phase r = PAttached" using world_okD(2) [OF assms(1) Some] by (simp add: entry_ok_def)
  show ?thesis
  proof (cases "r_target r")
    case (LogicalTarget l)
    then show ?thesis
      using Some ph detach_logical_ok [OF assms Some LogicalTarget]
      by (simp add: ws_detach_def release_def world_ok_note)
  next
    case (ReaderTarget xs)
    obtain ok r1 rds1 where rel: "release_readers detach wsid i xs 0 r (readers w) = (ok, r1, rds1)"
      by (metis prod_cases3)
    show ?thesis
      using Some ph ReaderTarget rel detach_readers_ok [OF assms Some ReaderTarget]
        detach_fails_ok [OF assms Some ReaderTarget]
      by (cases ok) (simp_all add: ws_detach_def release_def world_ok_note)
  qed
qed (use assms in \<open>simp add: ws_detach_def\<close>)

lemma ws_remove_ok [keeps]:
  "world_ok wsid w \<Longrightarrow> wsid \<noteq> 0 \<Longrightarrow> world_ok wsid (snd (ws_remove detach wsid i kind w))"
  by (simp add: ws_remove_def ws_detach_ok split: option.splits)

lemma target_held_same: "r_target r1 = r_target r \<Longrightarrow> target_held wsid w i r1 = target_held wsid w i r"
  by (simp add: target_held_def)

lemma target_held_registrations [simp]:
  "target_held wsid (w\<lparr>registrations := m\<rparr>) i r = target_held wsid w i r"
  by (simp add: target_held_def split: Target.splits)

lemma logical_modify_ok:
  assumes ok: "world_ok wsid w" and r: "map_of (registrations w) i = Some r" "same_registration r r1"
  shows "world_ok wsid (w\<lparr>registrations := um_modify i (\<lambda>_. r1) (registrations w)\<rparr>)" (is "world_ok wsid ?w")
proof -
  note D = world_okD [OF ok]
  have look: "map_of (registrations ?w) j = (if j = i then Some r1 else map_of (registrations w) j)" for j
    using r by (simp add: um_modify_lookup)
  have "entry_ok wsid ?w j s" if "map_of (registrations ?w) j = Some s" for j s
  proof (cases "j = i")
    case True
    then show ?thesis
      using that look r D(2) [OF r(1)] target_held_same [of s r]
      by (simp add: entry_ok_def same_registration_def)
  next
    case False
    then show ?thesis using that look D(2) [of j s] by (simp add: entry_ok_def)
  qed
  moreover have "logical_ok wsid ?w k" for k
    using D(3) [of k] r look by (auto simp: logical_ok_def same_registration_def)
  moreover have "reader_ok wsid ?w x" for x
    using D(4) [of x] r look by (auto simp: reader_ok_def same_registration_def)
  ultimately show ?thesis using D(1) by (simp add: world_ok_def um.ok_modify)
qed

lemma poison_ok: "world_ok wsid w \<Longrightarrow> world_ok wsid (w\<lparr>ws_poisoned := True\<rparr>)"
  by (auto simp: world_ok_def entry_ok_def logical_ok_def reader_ok_def target_held_def split: Target.splits)

lemma reconcile_frame:
  "reconcile_reader_condition attach detach rds x index r = Some r1 \<Longrightarrow>
    same_registration r r1 \<and> r_interest r1 = r_interest r"
  using attach_single_frame [of attach rds x index r]
  by (auto simp: reconcile_reader_condition_def same_registration_def split: if_splits prod.splits)

lemma reconcile_loop_frame:
  "reconcile_loop attach detach rds xs index r = (ok, r1) \<Longrightarrow> same_registration r r1 \<and> r_interest r1 = r_interest r"
proof (induction xs arbitrary: index r)
  case (Cons x xs)
  show ?case
  proof (cases "reconcile_reader_condition attach detach rds x index r")
    case None
    then show ?thesis using Cons.prems by (simp add: same_registration_def)
  next
    case (Some r2)
    with Cons.prems have "reconcile_loop attach detach rds xs (index + 1) r2 = (ok, r1)" by simp
    from Cons.IH [OF this] reconcile_frame [OF Some] show ?thesis by (simp add: same_registration_def)
  qed
qed (simp add: same_registration_def)

lemma ws_set_interest_ok [keeps]:
  assumes "world_ok wsid w" shows "world_ok wsid (snd (ws_set_interest attach detach i kind bits w))"
proof (cases "map_of (registrations w) i")
  case (Some r)
  obtain ok r1 where l: "reconcile_loop attach detach (readers w) (target_readers (r_target r)) 0
      (r\<lparr>r_interest := bits\<rparr>) = (ok, r1)" by fastforce
  have "same_registration r r1" using reconcile_loop_frame [OF l] by (simp add: same_registration_def)
  note m = logical_modify_ok [OF assms Some this]
  show ?thesis
    using Some l m poison_ok [OF m] assms by (simp add: ws_set_interest_def Let_def world_ok_note)
qed (use assms in \<open>simp add: ws_set_interest_def\<close>)

lemma set_reader_blocking_ok [keeps]:
  assumes "world_ok wsid w" shows "world_ok wsid (set_reader_blocking attach detach i index w)"
proof (cases "map_of (registrations w) i")
  case (Some r)
  then show ?thesis
    using assms logical_modify_ok [OF assms Some] reconcile_frame poison_ok [OF assms]
    by (auto simp: set_reader_blocking_def intro!: world_ok_note split: option.splits)
qed (use assms in \<open>simp add: set_reader_blocking_def\<close>)

section \<open>Runs\<close>

text \<open>
  The operations of one wait set in sequence, and the capacity flag a server stores in its
  reader; other wait sets are the non-zero identities the waitables may start with.
\<close>

datatype WsOp =
    WAdd WaitableKind Target
  | WRemove u64 WaitableKind
  | WInterest u64 WaitableKind u32
  | WBlocking u64 nat
  | WEnable nat bool
  | WClose

fun ws_exec :: "(nat \<Rightarrow> bool) \<Rightarrow> (nat \<Rightarrow> bool) \<Rightarrow> u64 \<Rightarrow> WsOp \<Rightarrow> World \<Rightarrow> World option" where
  "ws_exec attach detach wsid (WAdd kind t) w = map_option snd (ws_add attach wsid kind t w)"
| "ws_exec attach detach wsid (WRemove i kind) w = Some (snd (ws_remove detach wsid i kind w))"
| "ws_exec attach detach wsid (WInterest i kind bits) w = Some (snd (ws_set_interest attach detach i kind bits w))"
| "ws_exec attach detach wsid (WBlocking i index) w = Some (set_reader_blocking attach detach i index w)"
| "ws_exec attach detach wsid (WEnable x b) w =
     Some (w\<lparr>readers := (readers w)(x := (readers w x)\<lparr>blocking_enabled := b\<rparr>)\<rparr>)"
| "ws_exec attach detach wsid WClose w = Some (ws_close detach wsid w)"

fun ws_run :: "(nat \<Rightarrow> bool) \<Rightarrow> (nat \<Rightarrow> bool) \<Rightarrow> u64 \<Rightarrow> WsOp list \<Rightarrow> World \<Rightarrow> World option" where
  "ws_run attach detach wsid [] w = Some w"
| "ws_run attach detach wsid (op # ops) w =
     do { w1 \<leftarrow> ws_exec attach detach wsid op w; ws_run attach detach wsid ops w1 }"

definition fresh_world :: "u64 \<Rightarrow> (nat \<Rightarrow> Logical) \<Rightarrow> (nat \<Rightarrow> ReaderWaitState) \<Rightarrow> World \<Rightarrow> bool" where
  "fresh_world wsid ls rds w \<longleftrightarrow>
     w = \<lparr>logicals = ls, readers = rds, registrations = [], next_registration_id = 1,
          ws_closing = False, ws_waiting = False, ws_poisoned = False, topology_generation = 1\<rparr>
     \<and> (\<forall>l. lw_wait_set (ls l) \<noteq> wsid)
     \<and> (\<forall>x. rd_wait_set (rds x) \<noteq> wsid \<and> \<not> claim_in_progress (rds x))"

lemma fresh_world_ok: "fresh_world wsid ls rds w \<Longrightarrow> world_ok wsid w"
  by (auto simp: fresh_world_def world_ok_def logical_ok_def reader_ok_def)

lemma enable_ok: "world_ok wsid w \<Longrightarrow>
    world_ok wsid (w\<lparr>readers := (readers w)(x := (readers w x)\<lparr>blocking_enabled := b\<rparr>)\<rparr>)"
  unfolding world_ok_def entry_ok_def logical_ok_def reader_ok_def target_held_def
  by (auto split: Target.splits)

lemma close_loop_ok: "world_ok wsid w \<Longrightarrow> wsid \<noteq> 0 \<Longrightarrow> world_ok wsid (close_loop detach wsid n w)"
proof (induction detach wsid n w rule: close_loop.induct)
  case (2 detach wsid n w)
  show ?case
  proof (cases "registrations w")
    case (Cons e es)
    obtain i r where e: "e = (i, r)" by fastforce
    obtain ok w1 where d: "ws_detach detach wsid i w = (ok, w1)" by fastforce
    have "world_ok wsid w1" using ws_detach_ok [OF 2(2,3), of detach i] d by simp
    then show ?thesis using 2(1) [OF Cons e [symmetric] d [symmetric]] 2(3) Cons e d by simp
  qed (use 2 in simp)
qed simp

lemma ws_close_ok [keeps]: assumes "world_ok wsid w" "wsid \<noteq> 0" shows "world_ok wsid (ws_close detach wsid w)"
proof -
  have "world_ok wsid (w\<lparr>ws_closing := True\<rparr>)"
    using assms(1) unfolding world_ok_def entry_ok_def logical_ok_def reader_ok_def target_held_def
    by (auto split: Target.splits)
  then show ?thesis using assms by (simp add: ws_close_def close_loop_ok)
qed

lemma ws_exec_ok: "world_ok wsid w \<Longrightarrow> wsid \<noteq> 0 \<Longrightarrow> ws_exec attach detach wsid op w = Some w' \<Longrightarrow> world_ok wsid w'"
  using ws_add_ok by (cases op) (auto intro: ws_remove_ok ws_set_interest_ok set_reader_blocking_ok enable_ok ws_close_ok)

lemma ws_run_ok: "world_ok wsid w \<Longrightarrow> wsid \<noteq> 0 \<Longrightarrow> ws_run attach detach wsid ops w = Some w' \<Longrightarrow> world_ok wsid w'"
proof (induction ops arbitrary: w)
  case (Cons op ops)
  obtain w1 where w1: "ws_exec attach detach wsid op w = Some w1" "ws_run attach detach wsid ops w1 = Some w'"
    using Cons.prems(3) by (auto split: Option.bind_splits)
  show ?case by (rule Cons.IH [OF ws_exec_ok [OF Cons.prems(1,2) w1(1)] Cons.prems(2) w1(2)])
qed simp

section \<open>Native conditions\<close>

definition should_block :: "Registration \<Rightarrow> (nat \<Rightarrow> ReaderWaitState) \<Rightarrow> nat \<Rightarrow> nat \<Rightarrow> bool" where
  "should_block r rds x index \<longleftrightarrow>
     reader_interested r index \<and> blocking_enabled (rds x) \<and> \<not> rd_closing (rds x)"

lemma reconcile_condition:
  assumes r1: "reconcile_reader_condition attach detach rds x index r = Some r1" and len: "index < length (r_conditions r)"
  shows "r_conditions r1 ! index = should_block r rds x index"
    and "k \<noteq> index \<Longrightarrow> r_conditions r1 ! k = r_conditions r ! k"
proof -
  have "r_conditions r1 = (r_conditions r)[index := should_block r rds x index]"
  proof (cases "should_block r rds x index")
    case False
    then have "r1 = r\<lparr>r_conditions := (r_conditions r)[index := False]\<rparr>"
      using r1 unfolding reconcile_reader_condition_def should_block_def [symmetric] by (simp split: if_splits)
    then show ?thesis using False by simp
  next
    case True
    then have "\<not> (\<not> reader_interested r index \<or> \<not> blocking_enabled (rds x))" "\<not> rd_closing (rds x)"
      by (simp_all add: should_block_def)
    then have "attach_single_reader_condition attach rds x index r = (AAttached, r2) \<Longrightarrow>
        r2 = r\<lparr>r_conditions := (r_conditions r)[index := True]\<rparr>" for r2
      by (auto simp: attach_single_reader_condition_def split: if_splits)
    then have "r1 = r\<lparr>r_conditions := (r_conditions r)[index := True]\<rparr> \<or> r1 = r \<and> r_conditions r ! index"
      using r1 True unfolding reconcile_reader_condition_def should_block_def [symmetric]
      by (auto split: if_splits prod.splits)
    moreover have "r_conditions r ! index \<Longrightarrow> (r_conditions r)[index := True] = r_conditions r"
      using list_update_id [of "r_conditions r" index] by simp
    ultimately show ?thesis using True by auto
  qed
  then show "r_conditions r1 ! index = should_block r rds x index"
    and "k \<noteq> index \<Longrightarrow> r_conditions r1 ! k = r_conditions r ! k"
    using len by simp_all
qed

lemma should_block_cong:
  "r_kind r1 = r_kind r \<Longrightarrow> r_interest r1 = r_interest r \<Longrightarrow> should_block r1 = should_block r"
  by (simp add: should_block_def reader_interested_def fun_eq_iff)

lemma reconcile_loop_conditions:
  "reconcile_loop attach detach rds xs index r = (True, r1) \<Longrightarrow> index + length xs \<le> length (r_conditions r) \<Longrightarrow>
    (\<forall>k < length xs. r_conditions r1 ! (index + k) = should_block r rds (xs ! k) (index + k))
    \<and> (\<forall>k < index. r_conditions r1 ! k = r_conditions r ! k)"
proof (induction xs arbitrary: index r)
  case (Cons x xs)
  obtain r2 where r2: "reconcile_reader_condition attach detach rds x index r = Some r2"
    using Cons.prems(1) by (cases "reconcile_reader_condition attach detach rds x index r") simp_all
  then have l: "reconcile_loop attach detach rds xs (index + 1) r2 = (True, r1)"
    using Cons.prems(1) by simp
  have f: "same_registration r r2 \<and> r_interest r2 = r_interest r" by (rule reconcile_frame [OF r2])
  have len: "index < length (r_conditions r)" "index + 1 + length xs \<le> length (r_conditions r2)"
    using Cons.prems(2) f by (auto simp: same_registration_def)
  note IH = Cons.IH [OF l len(2)]
  note rc = reconcile_condition [OF r2 len(1)]
  have sb: "should_block r2 = should_block r" by (rule should_block_cong) (use f in \<open>simp_all add: same_registration_def\<close>)
  have "r_conditions r1 ! (index + k) = should_block r rds ((x # xs) ! k) (index + k)" if "k < length (x # xs)" for k
  proof (cases k)
    case 0
    have "r_conditions r1 ! index = r_conditions r2 ! index" using IH by simp
    then show ?thesis using 0 rc(1) by simp
  next
    case (Suc j)
    then have "j < length xs" using that by simp
    then have "r_conditions r1 ! (index + 1 + j) = should_block r2 rds (xs ! j) (index + 1 + j)"
      using IH by blast
    then show ?thesis using Suc sb by simp
  qed
  moreover have "r_conditions r1 ! k = r_conditions r ! k" if "k < index" for k
    using that IH rc(2) [of k] by simp
  ultimately show ?case by blast
qed simp

section \<open>One pass\<close>

lemma ready_mask_zero:
  "ready_mask ready detail i r w = (0, w1) \<Longrightarrow> w1 = w"
proof -
  have bit: "kWaitableReadyBit \<noteq> 0" by (simp add: kWaitableReadyBit_def)
  assume "ready_mask ready detail i r w = (0, w1)"
  then show ?thesis using bit
    by (auto simp: ready_mask_def consume_trigger_def Let_def split: Target.splits if_splits)
qed

lemma ready_mask_frame:
  assumes "ready_mask ready detail i r w = (b, w1)"
  shows "registrations w1 = registrations w" "topology_generation w1 = topology_generation w"
    "registration_closing s w1 = registration_closing s w"
  using assms
  by (auto simp: ready_mask_def consume_trigger_def Let_def registration_closing_def split: Target.splits if_splits)

lemma note_topology_generation:
  "topology_generation (note_topology_mutation w) =
     (if topology_generation w = u64_max then u64_max else topology_generation w + 1)"
  by (simp add: note_topology_mutation_def)

lemma note_topology_mono: "topology_generation w \<le> topology_generation (note_topology_mutation w)"
  using u64_inc_gt [of "topology_generation w"] by (auto simp: note_topology_generation)

lemma release_generation: "release detach wsid i r w = (ok, r1, w1) \<Longrightarrow> topology_generation w1 = topology_generation w"
  by (auto simp: release_def split: Target.splits prod.splits)

lemma quarantine_generation [simp]: "topology_generation (quarantine t w) = topology_generation w"
  by (simp add: quarantine_def split: Target.splits)

lemma ws_detach_generation:
  "topology_generation w \<le> topology_generation (snd (ws_detach detach wsid i w))
   \<and> (map_of (registrations w) i = Some r \<and> r_phase r = PAttached \<and> topology_generation w \<noteq> u64_max \<longrightarrow>
        topology_generation w < topology_generation (snd (ws_detach detach wsid i w)))"
proof (cases "map_of (registrations w) i")
  case (Some s)
  obtain ok r1 w1 where rel: "release detach wsid i s w = (ok, r1, w1)" by (metis prod_cases3)
  have "topology_generation (snd (ws_detach detach wsid i w)) =
      (if r_phase s \<noteq> PAttached then topology_generation w
       else if topology_generation w = u64_max then u64_max else topology_generation w + 1)"
    using Some rel release_generation [OF rel] by (simp add: ws_detach_def note_topology_generation)
  then show ?thesis using Some u64_inc_gt [of "topology_generation w"] by auto
qed (simp add: ws_detach_def)

lemma collect_mono: "topology_generation w \<le> topology_generation (snd (collect detach wsid ready detail rs w))"
proof (induction rs arbitrary: w)
  case (Cons e rs)
  obtain i r where e: "e = (i, r)" by fastforce
  show ?case
  proof (cases "registration_closing r w")
    case True
    have "topology_generation w \<le> topology_generation (snd (ws_detach detach wsid i w))"
      using ws_detach_generation by blast
    then show ?thesis using e True Cons [of "snd (ws_detach detach wsid i w)"] by simp
  next
    case False
    obtain b w1 where m: "ready_mask ready detail i r w = (b, w1)" by fastforce
    show ?thesis using e False m Cons [of w1] ready_mask_frame(2) [OF m] by (simp add: case_prod_beta)
  qed
qed simp

lemma snapshot_registered:
  "world_ok wsid w \<Longrightarrow> \<forall>(i, r) \<in> set (snapshot w). map_of (registrations w) i = Some r \<and> r_phase r = PAttached"
  using um_ok_map_of [OF world_okD(1)] by (fastforce simp: snapshot_def)

text \<open>A pass that is not disturbed reports every registration of the snapshot that is ready, in order.\<close>

definition ready_bits :: "PassEnv \<Rightarrow> World \<Rightarrow> u64 \<times> Registration \<Rightarrow> u32" where
  "ready_bits e w = (\<lambda>(i, r). fst (ready_mask (pe_ready e) (pe_detail e) i r w))"

definition ready_entries :: "PassEnv \<Rightarrow> World \<Rightarrow> (u64 \<times> Registration) list \<Rightarrow> (u64 \<times> WaitableKind \<times> u32) list" where
  "ready_entries e w rs = map (\<lambda>(i, r). (i, r_kind r, ready_bits e w (i, r))) (filter (\<lambda>x. ready_bits e w x \<noteq> 0) rs)"

lemma ready_mask_elsewhere:
  assumes "ready_mask ready detail i r w = (b, w1)" "target_held wsid w i r" "target_held wsid w j s" "i \<noteq> j"
  shows "fst (ready_mask ready detail j s w1) = fst (ready_mask ready detail j s w)"
  using assms
  by (auto simp: ready_mask_def target_held_def consume_trigger_def Let_def split: Target.splits if_splits)

lemma ready_mask_held:
  assumes "ready_mask ready detail i r w = (b, w1)" shows "target_held wsid w1 j s = target_held wsid w j s"
  using assms
  by (auto simp: ready_mask_def target_held_def consume_trigger_def Let_def split: Target.splits if_splits)

lemma collect_exact:
  assumes "\<forall>(i, r) \<in> set rs. map_of (registrations w) i = Some r \<and> r_phase r = PAttached \<and> target_held wsid w i r"
    and "distinct (map fst rs)" "topology_generation w \<noteq> u64_max"
    and "collect detach wsid (pe_ready e) (pe_detail e) rs w = (found, w1)"
    and "topology_generation w1 = topology_generation w"
  shows "found = ready_entries e w rs \<and> (\<forall>(i, r) \<in> set rs. \<not> registration_closing r w)"
  using assms
proof (induction rs arbitrary: w found)
  case (Cons x rs)
  obtain i r where x: "x = (i, r)" by fastforce
  have here: "map_of (registrations w) i = Some r" "r_phase r = PAttached" "target_held wsid w i r"
    using Cons.prems(1) x by auto
  have nc: "\<not> registration_closing r w"
  proof
    assume c: "registration_closing r w"
    let ?w = "snd (ws_detach detach wsid i w)"
    have "topology_generation w < topology_generation ?w"
      using ws_detach_generation [of w detach wsid i r] here Cons.prems(3) by blast
    moreover have "topology_generation ?w \<le> topology_generation w1"
      using collect_mono [of ?w detach wsid "pe_ready e" "pe_detail e" rs] Cons.prems(4) x c by simp
    ultimately show False using Cons.prems(5) by simp
  qed
  obtain b w2 where m: "ready_mask (pe_ready e) (pe_detail e) i r w = (b, w2)" by fastforce
  obtain fs w3 where cl: "collect detach wsid (pe_ready e) (pe_detail e) rs w2 = (fs, w3)" by fastforce
  have f: "found = (if b = 0 then fs else (i, r_kind r, b) # fs)" "w3 = w1"
    using Cons.prems(4) x nc m cl by auto
  note fr = ready_mask_frame [OF m]
  note cl1 = cl [unfolded f(2)]
  have rest: "\<forall>(j, s) \<in> set rs. map_of (registrations w2) j = Some s \<and> r_phase s = PAttached \<and> target_held wsid w2 j s"
    using Cons.prems(1) fr(1) ready_mask_held [OF m] by auto
  have IH: "fs = ready_entries e w2 rs \<and> (\<forall>(j, s) \<in> set rs. \<not> registration_closing s w2)"
    by (rule Cons.IH [OF rest _ _ cl1]) (use Cons.prems(2,3,5) fr(2) f in auto)
  have same: "ready_bits e w2 y = ready_bits e w y" if "y \<in> set rs" for y
  proof -
    obtain j s where y: "y = (j, s)" by fastforce
    have "target_held wsid w j s" "i \<noteq> j" using Cons.prems(1,2) that x y by force+
    then show ?thesis using ready_mask_elsewhere [OF m here(3)] y by (simp add: ready_bits_def)
  qed
  then have "ready_entries e w2 rs = ready_entries e w rs"
    unfolding ready_entries_def by (auto intro!: map_cong filter_cong)
  then show ?case using IH f nc m x fr(3) by (auto simp: ready_entries_def ready_bits_def)
qed (simp add: ready_entries_def)

lemma snapshot_held:
  assumes "world_ok wsid w"
  shows "\<forall>(i, r) \<in> set (snapshot w). map_of (registrations w) i = Some r \<and> r_phase r = PAttached \<and> target_held wsid w i r"
  using snapshot_registered [OF assms] world_okD(2) [OF assms] by (auto simp: entry_ok_def)

lemma snapshot_distinct: "world_ok wsid w \<Longrightarrow> distinct (map fst (snapshot w))"
  using world_okD(1) by (auto simp: snapshot_def um_ok_def distinct_map_filter)

text \<open>The deadlines that a registration brings to the native wait: its timer's and its runtime's.\<close>

definition deadlines_of :: "PassEnv \<Rightarrow> u64 \<times> Registration \<Rightarrow> int set" where
  "deadlines_of e = (\<lambda>(i, r).
     {t. \<exists>l. r_target r = LogicalTarget l \<and> r_kind r = KTimer \<and> pe_timer e l = Some t} \<union>
     {t. (r_kind r = KActionServer \<longrightarrow> and (r_interest r) kActionGoalExpiredBit \<noteq> 0) \<and> pe_runtime e i = Some t})"

definition earliest_deadline :: "PassEnv \<Rightarrow> World \<Rightarrow> int \<Rightarrow> int" where
  "earliest_deadline e w deadline = Min (insert deadline (\<Union>x \<in> set (snapshot w). deadlines_of e x))"

lemma deadlines_finite [simp]: "finite (deadlines_of e x)"
proof -
  have "finite {t. \<exists>l. r_target (snd x) = LogicalTarget l \<and> r_kind (snd x) = KTimer \<and> pe_timer e l = Some t}"
  proof (cases "r_target (snd x)")
    case (LogicalTarget l)
    then show ?thesis by (cases "pe_timer e l") auto
  qed simp
  moreover have "finite {t. (r_kind (snd x) = KActionServer \<longrightarrow> and (r_interest (snd x)) kActionGoalExpiredBit \<noteq> 0)
      \<and> pe_runtime e (fst x) = Some t}" by (cases "pe_runtime e (fst x)") auto
  ultimately show ?thesis by (simp add: deadlines_of_def case_prod_beta)
qed

lemma native_deadline_Min:
  "native_deadline (pe_timer e) (pe_runtime e) rs d = Min (insert d (\<Union>x \<in> set rs. deadlines_of e x))"
proof (induction rs arbitrary: d)
  case (Cons x rs)
  obtain i r where x: "x = (i, r)" by fastforce
  let ?d1 = "case r_target r of
      LogicalTarget l \<Rightarrow> if r_kind r = KTimer then (case pe_timer e l of None \<Rightarrow> d | Some t \<Rightarrow> if t < d then t else d) else d
    | ReaderTarget _ \<Rightarrow> d"
  let ?d2 = "if r_kind r \<noteq> KActionServer \<or> and (r_interest r) kActionGoalExpiredBit \<noteq> 0
    then (case pe_runtime e i of None \<Rightarrow> ?d1 | Some t \<Rightarrow> if t < ?d1 then t else ?d1) else ?d1"
  let ?T = "{t. \<exists>l. r_target r = LogicalTarget l \<and> r_kind r = KTimer \<and> pe_timer e l = Some t}"
  let ?R = "{t. (r_kind r = KActionServer \<longrightarrow> and (r_interest r) kActionGoalExpiredBit \<noteq> 0) \<and> pe_runtime e i = Some t}"
  have d1: "?d1 = Min (insert d ?T)"
    by (auto simp: min_def split: Target.split option.split)
  have d2: "?d2 = Min (insert ?d1 ?R)"
    by (cases "pe_runtime e i") (auto simp: min_def)
  let ?U = "\<Union>y \<in> set rs. deadlines_of e y"
  have "finite (?T \<union> ?R)" using deadlines_finite [of e "(i, r)"] by (simp add: deadlines_of_def)
  then have fin: "finite ?U" "finite ?T" "finite ?R" by simp_all
  have ins: "Min (insert (Min (insert a A)) B) = Min (insert a (A \<union> B))" if "finite A" "finite B" for a :: int and A B
    using Min_Un [of "insert a A" B] that by (cases "B = {}") (simp_all add: min.commute)
  have "native_deadline (pe_timer e) (pe_runtime e) (x # rs) d = Min (insert ?d2 ?U)"
    using Cons.IH [of ?d2] x by (simp only: native_deadline.simps Let_def)
  also have "\<dots> = Min (insert d (?T \<union> ?R \<union> ?U))"
    unfolding d2 unfolding d1 using fin by (simp only: ins finite_UnI Un_assoc)
  finally show ?case by (simp add: x deadlines_of_def Un_assoc)
qed simp

lemma registered_reader_readd:
  assumes "x \<in> set xs" "rd_wait_set (readers w x) \<noteq> 0"
    and "\<not> ws_closing w" "\<not> ws_poisoned w" "next_registration_id w \<noteq> 0"
  shows "ws_add attach wsid kind (ReaderTarget xs) w = None"
proof -
  have "claim_readers xs (readers w) = None"
    using claim_readers_Some [of xs "readers w"] assms(1,2) by (cases "claim_readers xs (readers w)") auto
  then show ?thesis using assms(3-5) by (simp add: ws_add_def Let_def claim_def)
qed

section \<open>Properties\<close>

text \<open>
  C3. A waitable has at most one registration. In every wait set that additions, removals,
  changes of interest and of capacity and closing can build, two registrations never hold the
  same logical waitable, nor (unless a native detach failed) the same reader. A logical waitable
  that is registered is refused with AlreadyRegistered, or because it closes, and nothing but the
  topology generation changes; for a reader that is registered the call never returns, where the
  interface promises AlreadyRegistered.
\<close>

theorem registration_exclusive:
  assumes "fresh_world wsid ls rds w0" "wsid \<noteq> 0" "ws_run attach detach wsid ops w0 = Some w"
    and "map_of (registrations w) i = Some r" "map_of (registrations w) j = Some s"
  shows "(r_target r = LogicalTarget l \<and> r_target s = LogicalTarget l \<longrightarrow> i = j)
    \<and> (\<not> ws_poisoned w \<and> x \<in> set (target_readers (r_target r)) \<and> x \<in> set (target_readers (r_target s)) \<longrightarrow> i = j)
    \<and> (\<not> ws_closing w \<and> \<not> ws_poisoned w \<and> next_registration_id w \<noteq> 0 \<longrightarrow>
        (r_target r = LogicalTarget l \<longrightarrow>
          ws_add attach wsid kind (LogicalTarget l) w =
            Some (Inl (if guard_closing (lw_state (logicals w l)) then ParentDestroyed else AlreadyRegistered),
                  note_topology_mutation w)) \<and>
        (x \<in> set (target_readers (r_target r)) \<longrightarrow> x \<in> set xs \<longrightarrow> ws_add attach wsid kind (ReaderTarget xs) w = None))"
proof -
  have ok: "world_ok wsid w" by (rule ws_run_ok [OF fresh_world_ok [OF assms(1)] assms(2,3)])
  have held: "target_held wsid w i r" "target_held wsid w j s"
    using world_okD(2) [OF ok] assms(4,5) by (auto simp: entry_ok_def)
  have "lw_wait_set (logicals w l) \<noteq> 0" if "r_target r = LogicalTarget l"
    using held(1) that assms(2) by (simp add: target_held_def)
  then have "ws_add attach wsid kind (LogicalTarget l) w =
          Some (Inl (if guard_closing (lw_state (logicals w l)) then ParentDestroyed else AlreadyRegistered),
                note_topology_mutation w)"
    if "r_target r = LogicalTarget l" "\<not> ws_closing w" "\<not> ws_poisoned w" "next_registration_id w \<noteq> 0"
    using that by (simp add: ws_add_def Let_def claim_def claim_logical_waitable_def attach_error_def)
  moreover have "ws_add attach wsid kind (ReaderTarget xs) w = None"
    if "x \<in> set (target_readers (r_target r))" "x \<in> set xs" "\<not> ws_closing w" "\<not> ws_poisoned w" "next_registration_id w \<noteq> 0"
  proof (rule registered_reader_readd)
    show "rd_wait_set (readers w x) \<noteq> 0"
      using held(1) that assms(2) by (auto simp: target_held_def target_readers_def split: Target.splits)
  qed (use that in auto)
  moreover have "i = j" if "\<not> ws_poisoned w" "x \<in> set (target_readers (r_target r))" "x \<in> set (target_readers (r_target s))"
    using held that by (auto simp: target_held_def target_readers_def split: Target.splits)
  moreover have "i = j" if "r_target r = LogicalTarget l" "r_target s = LogicalTarget l"
    using held that by (auto simp: target_held_def)
  ultimately show ?thesis by blast
qed

text \<open>
  A reader registered a second time is not refused: the call never returns. Whatever wait
  set is asked, when a reader of the new registration already has one the thread locks a mutex
  it holds, where the interface promises AlreadyRegistered.
\<close>

theorem reader_readd_never_returns:
  assumes "\<not> ws_closing w" "\<not> ws_poisoned w" "next_registration_id w \<noteq> 0"
    and "x \<in> set xs" "rd_wait_set (readers w x) \<noteq> 0"
  shows "ws_add attach wsid kind (ReaderTarget xs) w = None"
  by (rule registered_reader_readd [OF assms(4,5,1-3)])

text \<open>
  The native conditions follow what the readers and the interest say: after a change of
  interest that succeeds, and for its own reader after a change of capacity, the native wait set
  holds the condition of exactly those readers that the registration is interested in, that may
  block and that are not closing.
\<close>

theorem native_conditions_exact:
  assumes "world_ok wsid w" "map_of (registrations w) i = Some r"
    and "ws_set_interest attach detach i kind bits w = (Inr (), w')"
  shows "\<exists>r'. map_of (registrations w') i = Some r' \<and> r_interest r' = bits \<and> r_target r' = r_target r
    \<and> (\<forall>k < length (target_readers (r_target r)).
         r_conditions r' ! k = should_block r' (readers w') (target_readers (r_target r) ! k) k)"
proof -
  let ?xs = "target_readers (r_target r)" and ?r = "r\<lparr>r_interest := bits\<rparr>"
  obtain ok r1 where l: "reconcile_loop attach detach (readers w) ?xs 0 ?r = (ok, r1)" by fastforce
  with assms(2,3) have ok: ok and w': "w' = note_topology_mutation (w\<lparr>registrations := um_modify i (\<lambda>_. r1) (registrations w)\<rparr>)"
    by (auto simp: ws_set_interest_def Let_def split: if_splits)
  have f: "same_registration ?r r1" "r_interest r1 = bits" using reconcile_loop_frame [OF l] by simp_all
  have len: "length (r_conditions r) = length ?xs" using world_okD(2) [OF assms(1,2)] by (simp add: entry_ok_def)
  have "should_block ?r = should_block r1"
    by (rule should_block_cong) (use f in \<open>simp_all add: same_registration_def\<close>)
  then have "\<forall>k < length ?xs. r_conditions r1 ! k = should_block r1 (readers w) (?xs ! k) k"
    using reconcile_loop_conditions [of attach detach "readers w" ?xs 0 ?r r1] l ok len by simp
  then show ?thesis
    using f assms(2) by (simp add: w' um_modify_lookup same_registration_def)
qed

text \<open>
  C5. What one pass of the loop of wait answers. A wait that reports names exactly the registrations
  that are ready, in order and with their bits; one that times out or sleeps saw that none is ready or closing; a
  poll never sleeps, and a timeout is due to the poll or to a deadline that has passed. A pass
  that sleeps does so until the earliest of the deadline of the wait, the deadlines of the
  registered timers and the runtime deadlines in which the registrations are interested, and
  without end exactly when there is none of them; a pass that starts over was disturbed, or that
  instant has come. Other threads only raise the generation of the topology.
\<close>

theorem wait_pass_exact:
  assumes "world_ok wsid w" "topology_generation w \<noteq> u64_max"
    and "\<And>v. topology_generation v \<le> topology_generation (pe_meanwhile e v)"
    and "wait_pass e wsid timeout deadline w = (res, w')"
  shows "case res of
      Failed c \<Rightarrow> c = DDSError \<and> \<not> pe_repaired e \<or> c = ContextShutdown \<and> pe_shutdown e \<or> c = ParentDestroyed \<and> ws_closing w
    | Ready found \<Rightarrow> found \<noteq> [] \<and> found = ready_entries e w (snapshot w) \<and>
        (\<forall>(i, r) \<in> set (snapshot w). \<not> registration_closing r w)
    | TimedOut \<Rightarrow> (timeout = Poll \<or> is_finite timeout \<and> deadline \<le> pe_now e) \<and>
        (\<forall>(i, r) \<in> set (snapshot w). \<not> registration_closing r w \<and> ready_bits e w (i, r) = 0)
    | Sleep d \<Rightarrow> timeout \<noteq> Poll \<and> (is_finite timeout \<longrightarrow> pe_now e < deadline) \<and>
        (\<forall>(i, r) \<in> set (snapshot w). \<not> registration_closing r w \<and> ready_bits e w (i, r) = 0) \<and>
        (case d of None \<Rightarrow> earliest_deadline e w deadline = int64_max
         | Some t \<Rightarrow> 0 < t \<and> earliest_deadline e w deadline = pe_now_wait e + t \<and> pe_now_wait e + t \<noteq> int64_max)
    | Retry \<Rightarrow> topology_generation w' \<noteq> topology_generation w \<or> earliest_deadline e w deadline \<le> pe_now_wait e"
proof -
  obtain found w1 where c: "collect (pe_detach e) wsid (pe_ready e) (pe_detail e) (snapshot w) w = (found, w1)" by fastforce
  have mono: "topology_generation w \<le> topology_generation w1"
    using collect_mono [of w "pe_detach e" wsid "pe_ready e" "pe_detail e" "snapshot w"] c by simp
  have exact: "found = ready_entries e w (snapshot w)" "\<forall>(i, r) \<in> set (snapshot w). \<not> registration_closing r w"
    if "topology_generation (pe_meanwhile e w1) = topology_generation w"
  proof -
    have "topology_generation w1 = topology_generation w" using mono assms(3) [of w1] that by simp
    from collect_exact [OF snapshot_held [OF assms(1)] snapshot_distinct [OF assms(1)] assms(2) c this]
    show "found = ready_entries e w (snapshot w)" "\<forall>(i, r) \<in> set (snapshot w). \<not> registration_closing r w" by auto
  qed
  have none: "\<forall>(i, r) \<in> set (snapshot w). ready_bits e w (i, r) = 0" if "ready_entries e w (snapshot w) = []"
    using that by (auto simp: ready_entries_def filter_empty_conv)
  have nd: "native_deadline (pe_timer e) (pe_runtime e) (snapshot w) deadline = earliest_deadline e w deadline"
    by (simp add: native_deadline_Min earliest_deadline_def)
  note pass = assms(4) [unfolded wait_pass_def c nd Let_def prod.case]
  show ?thesis
  proof (cases res)
    case (Ready f)
    then show ?thesis using pass exact by (auto split: if_splits)
  next
    case TimedOut
    then have "found = []" "topology_generation (pe_meanwhile e w1) = topology_generation w"
      "timeout = Poll \<or> is_finite timeout \<and> deadline \<le> pe_now e"
      using pass by (auto split: if_splits)
    then show ?thesis using TimedOut exact none by auto
  next
    case (Sleep d)
    then have "found = []" "topology_generation (pe_meanwhile e w1) = topology_generation w" "timeout \<noteq> Poll"
      "is_finite timeout \<longrightarrow> pe_now e < deadline"
      and "d = (if earliest_deadline e w deadline \<noteq> int64_max then Some (earliest_deadline e w deadline - pe_now_wait e) else None)"
      and "\<forall>t. d = Some t \<longrightarrow> 0 < t"
      using pass by (auto split: if_splits)
    then show ?thesis using Sleep exact none by (auto split: option.split)
  qed (use pass in \<open>auto split: if_splits\<close>)
qed

lemma consumed_not_ready:
  assumes "r_target r = LogicalTarget l" "r_kind r = KGuardCondition"
    and "consumed_generation (lw_state (logicals w l)) = trigger_generation (lw_state (logicals w l))"
  shows "ready_mask ready detail i r w = (0, w)"
proof -
  have "(logicals w l)\<lparr>lw_state := lw_state (logicals w l)\<rparr> = logicals w l" by simp
  then show ?thesis using assms by (simp add: ready_mask_def consume_trigger_def)
qed

text \<open>
  A trigger can be lost. With a triggered guard condition and another waitable that is being
  closed in one wait set, the pass commits the trigger, detaches the closing waitable, sees the
  generation it has itself raised and starts over without a result; the guard condition is still
  registered, nothing is left to consume, and the next pass sleeps without end.
\<close>

theorem guard_trigger_lost:
  assumes "world_ok wsid w" "registrations w = [(i, r), (j, s)]" "topology_generation w \<noteq> u64_max"
    and "r_target r = LogicalTarget l" "r_kind r = KGuardCondition" "\<not> guard_closing (lw_state (logicals w l))"
    and "consumed_generation (lw_state (logicals w l)) \<noteq> trigger_generation (lw_state (logicals w l))"
    and "r_target s = LogicalTarget k" "guard_closing (lw_state (logicals w k))" "\<not> ws_closing w"
    and "pe_repaired e" "\<not> pe_shutdown e" "pe_meanwhile e = id" "pe_before_wait e = id" "pe_runtime e i = None"
  shows "\<exists>w'. wait_pass e wsid Infinite int64_max w = (Retry, w') \<and> registrations w' = [(i, r)]
    \<and> wait_pass e wsid Infinite int64_max w' = (Sleep None, w')"
proof -
  note D = world_okD [OF assms(1)]
  have ij: "i \<noteq> j" using D(1) assms(2) by (auto simp: um_ok_def)
  have ph: "r_phase r = PAttached" "r_phase s = PAttached"
    using D(2) [of i r] D(2) [of j s] assms(2) ij by (auto simp: entry_ok_def)
  have kl: "k \<noteq> l" using assms(6,9) by auto
  have bit: "kWaitableReadyBit \<noteq> 0" by (simp add: kWaitableReadyBit_def)
  let ?g = "lw_state (logicals w l)"
  let ?g' = "?g\<lparr>consumed_generation := trigger_generation ?g, guard_pending := False\<rparr>"
  let ?w1 = "w\<lparr>logicals := (logicals w)(l := (logicals w l)\<lparr>lw_state := ?g'\<rparr>)\<rparr>"
  let ?w2 = "note_topology_mutation (?w1\<lparr>logicals := (logicals ?w1)(k := release_logical_waitable wsid j (logicals w k)),
      registrations := [(i, r)]\<rparr>)"
  have m: "ready_mask (pe_ready e) (pe_detail e) i r w = (kWaitableReadyBit, ?w1)"
    using assms(4,5,7) by (simp add: ready_mask_def consume_trigger_def Let_def)
  have d: "ws_detach (pe_detach e) wsid j ?w1 = (True, ?w2)"
    using assms(2,8) ij ph kl by (simp add: ws_detach_def release_def um_erase_def)
  have c: "collect (pe_detach e) wsid (pe_ready e) (pe_detail e) (snapshot w) w = ([(i, KGuardCondition, kWaitableReadyBit)], ?w2)"
    using assms(2,4,5,6,8,9) ph kl m d bit by (simp add: snapshot_def registration_closing_def)
  have gen: "topology_generation ?w2 = topology_generation w + 1"
    using assms(3) by (simp add: note_topology_generation)
  have 1: "wait_pass e wsid Infinite int64_max w = (Retry, ?w2)"
    using assms(10-13) c gen by (simp add: wait_pass_def Let_def)
  have l2: "logicals ?w2 l = (logicals w l)\<lparr>lw_state := ?g'\<rparr>" using kl by simp
  have m2: "ready_mask (pe_ready e) (pe_detail e) i r ?w2 = (0, ?w2)"
    by (rule consumed_not_ready [OF assms(4,5)]) (simp add: kl [symmetric])
  have c2: "collect (pe_detach e) wsid (pe_ready e) (pe_detail e) (snapshot ?w2) ?w2 = ([], ?w2)"
    using assms(4,6) ph m2 l2 by (simp add: snapshot_def registration_closing_def)
  have "native_deadline (pe_timer e) (pe_runtime e) (snapshot ?w2) int64_max = int64_max"
    using assms(4,5,15) ph by (simp add: snapshot_def)
  then have 2: "wait_pass e wsid Infinite int64_max ?w2 = (Sleep None, ?w2)"
    using assms(10-14) c2 by (simp add: wait_pass_def Let_def is_finite_def)
  show ?thesis using 1 2 by (intro exI [of _ ?w2]) simp
qed

section \<open>Witnesses\<close>

definition guard_0 :: GuardConditionState where
  "guard_0 = \<lparr>trigger_generation = 0, consumed_generation = 0, guard_pending = False, guard_closing = False\<rparr>"

definition reader_0 :: ReaderWaitState where
  "reader_0 = \<lparr>rd_closing = False, rd_wait_set = 0, rd_registration = 0, blocking_enabled = True,
     lifecycle = Open, has_reader = True, unread_count = 0, claim_in_progress = False,
     rd_callbacks = False, quarantined = False\<rparr>"

definition logical_0 :: Logical where
  "logical_0 = \<lparr>lw_state = guard_0, lw_wait_set = 0, lw_registration = 0, lw_callbacks = False\<rparr>"

definition world_0 :: World where
  "world_0 = \<lparr>logicals = (\<lambda>_. logical_0), readers = (\<lambda>_. reader_0), registrations = [],
     next_registration_id = 1, ws_closing = False, ws_waiting = False, ws_poisoned = False,
     topology_generation = 1\<rparr>"

lemmas world_0_defs = world_0_def logical_0_def reader_0_def guard_0_def

lemma fresh_0: "fresh_world 7 (\<lambda>_. logical_0) (\<lambda>_. reader_0) world_0"
  by (simp add: fresh_world_def world_0_def logical_0_def reader_0_def)

abbreviation always :: "nat \<Rightarrow> bool" where "always \<equiv> \<lambda>_. True"

definition env_0 :: PassEnv where
  "env_0 = \<lparr>pe_repaired = True, pe_shutdown = False, pe_detach = always, pe_ready = (\<lambda>_. False),
     pe_detail = (\<lambda>_. 0), pe_meanwhile = id, pe_now = 0, pe_timer = (\<lambda>_. None), pe_runtime = (\<lambda>_. None),
     pe_before_wait = id, pe_now_wait = 0\<rparr>"

lemma u64_max_num: "(1 :: u64) \<noteq> u64_max" "(2 :: u64) \<noteq> u64_max" "(3 :: u64) \<noteq> u64_max" "(0 :: u64) \<noteq> u64_max"
  by (simp_all add: u64_max_def)

lemmas ws_eval = ws_add_def claim_def claim_logical_waitable_def note_topology_mutation_def um_emplace_def
  attach_reader_conditions_def attach_single_reader_condition_def reader_interested_def Let_def u64_max_num
  commit_claims_def kWaitableReadyBit_def

theorem reader_readd_never_returns_witness:
  "ws_add always 7 KSubscriber (ReaderTarget [0]) (world_0\<lparr>readers := (\<lambda>_. reader_0\<lparr>rd_wait_set := 7\<rparr>)\<rparr>) = None"
  by (rule reader_readd_never_returns [of _ 0]) (simp_all add: world_0_defs)

lemma interest_1: "and (1 :: u32) (not allowed_interest) = 0" "reader_detail_bit KActionServer 0 = 1"
  by (simp_all add: allowed_interest_def kActionGoalExpiredBit_def)

definition server_registration :: Registration where
  "server_registration = \<lparr>r_kind = KActionServer, r_target = ReaderTarget [0], r_conditions = [True],
     r_phase = PAttached, r_interest = - 1\<rparr>"

lemma server_world: "ws_add always 7 KActionServer (ReaderTarget [0]) world_0 =
    Some (Inr 1, world_0\<lparr>readers := (\<lambda>_. reader_0)(0 := reader_0\<lparr>rd_wait_set := 7, rd_registration := 1, rd_callbacks := True\<rparr>),
      registrations := [(1, server_registration)], next_registration_id := 2, topology_generation := 2\<rparr>)"
  by (simp add: ws_eval world_0_defs server_registration_def fun_eq_iff)

theorem registration_exclusive_witness:
  "(\<exists>w. ws_run always always 7 [WAdd KGuardCondition (LogicalTarget 3)] world_0 = Some w
    \<and> ws_add always 7 KGuardCondition (LogicalTarget 3) w = Some (Inl AlreadyRegistered, note_topology_mutation w)) \<and>
   (\<exists>w. ws_run always always 7 [WAdd KActionServer (ReaderTarget [0])] world_0 = Some w
    \<and> ws_add always 7 KActionServer (ReaderTarget [0]) w = None)"
proof
  obtain w where w: "ws_run always always 7 [WAdd KGuardCondition (LogicalTarget 3)] world_0 = Some w"
    by (simp add: ws_eval world_0_defs)
  then have r: "map_of (registrations w) 1 = Some \<lparr>r_kind = KGuardCondition, r_target = LogicalTarget 3,
      r_conditions = [], r_phase = PAttached, r_interest = - 1\<rparr>"
    and f: "\<not> ws_closing w" "\<not> ws_poisoned w" "next_registration_id w = 2" "\<not> guard_closing (lw_state (logicals w 3))"
    by (auto simp: ws_eval world_0_defs)
  from registration_exclusive [OF fresh_0 _ w r r, where l = 3 and x = 0 and kind = KGuardCondition] f w
  show "\<exists>w. ws_run always always 7 [WAdd KGuardCondition (LogicalTarget 3)] world_0 = Some w
    \<and> ws_add always 7 KGuardCondition (LogicalTarget 3) w = Some (Inl AlreadyRegistered, note_topology_mutation w)" by simp
next
  let ?w = "snd (the (ws_add always 7 KActionServer (ReaderTarget [0]) world_0))"
  have w: "ws_run always always 7 [WAdd KActionServer (ReaderTarget [0])] world_0 = Some ?w"
    by (simp add: server_world)
  have r: "map_of (registrations ?w) 1 = Some server_registration" by (simp add: server_world)
  have f: "\<not> ws_closing ?w" "\<not> ws_poisoned ?w" "next_registration_id ?w \<noteq> 0"
    by (simp add: server_world, simp add: world_0_def)+ (simp add: server_world)
  have "target_readers (r_target server_registration) = [0]" by (simp add: server_registration_def target_readers_def)
  note f = f this
  from registration_exclusive [OF fresh_0 _ w r r, where x = 0 and xs = "[0]" and kind = KActionServer] f
  have "ws_add always 7 KActionServer (ReaderTarget [0]) ?w = None" by simp
  with w show "\<exists>w. ws_run always always 7 [WAdd KActionServer (ReaderTarget [0])] world_0 = Some w
    \<and> ws_add always 7 KActionServer (ReaderTarget [0]) w = None" by blast
qed

theorem native_conditions_exact_witness:
  "let w = snd (the (ws_add always 7 KActionServer (ReaderTarget [0]) world_0))
   in \<exists>r'. map_of (registrations (snd (ws_set_interest always always 1 KActionServer 1 w))) 1 = Some r'
      \<and> r_interest r' = 1"
proof -
  let ?w = "snd (the (ws_add always 7 KActionServer (ReaderTarget [0]) world_0))"
  have run: "ws_run always always 7 [WAdd KActionServer (ReaderTarget [0])] world_0 = Some ?w"
    by (simp add: server_world)
  have ok: "world_ok 7 ?w" by (rule ws_run_ok [OF fresh_world_ok [OF fresh_0] _ run]) simp
  have r: "map_of (registrations ?w) 1 = Some server_registration" by (simp add: server_world)
  have s: "ws_set_interest always always 1 KActionServer 1 ?w =
      (Inr (), snd (ws_set_interest always always 1 KActionServer 1 ?w))"
    using interest_1
    by (simp add: server_world ws_set_interest_def server_registration_def target_readers_def
        reconcile_reader_condition_def reader_interested_def)
  from native_conditions_exact [OF ok r s] show ?thesis by (auto simp: Let_def)
qed

text \<open>A wait for 100 on a guard condition and on a timer that is due at 50; the runtime is due at 70.\<close>

definition timer_world :: World where
  "timer_world = world_0\<lparr>logicals := (\<lambda>_. logical_0)
       (0 := logical_0\<lparr>lw_wait_set := 7, lw_registration := 1\<rparr>, 1 := logical_0\<lparr>lw_wait_set := 7, lw_registration := 2\<rparr>),
     registrations := [(1, server_registration\<lparr>r_kind := KGuardCondition, r_target := LogicalTarget 0, r_conditions := []\<rparr>),
       (2, server_registration\<lparr>r_kind := KTimer, r_target := LogicalTarget 1, r_conditions := []\<rparr>)],
     next_registration_id := 3\<rparr>"

definition timer_env :: PassEnv where
  "timer_env = env_0\<lparr>pe_timer := [1 \<mapsto> 50], pe_runtime := [1 \<mapsto> 70], pe_now_wait := 10\<rparr>"

lemma timer_world_ok: "world_ok 7 timer_world"
  by (auto simp: world_ok_def entry_ok_def logical_ok_def reader_ok_def target_held_def timer_world_def
      world_0_defs server_registration_def um_ok_def target_readers_def split: if_splits)

theorem wait_pass_exact_witness:
  "fst (wait_pass timer_env 7 (Finite 100) 100 timer_world) = Sleep (Some 40) \<and>
   earliest_deadline timer_env timer_world 100 = 50 \<and> length (snapshot timer_world) = 2"
proof -
  have p: "wait_pass timer_env 7 (Finite 100) 100 timer_world = (Sleep (Some 40), timer_world)"
    by (simp add: wait_pass_def timer_env_def env_0_def timer_world_def world_0_defs snapshot_def is_finite_def Let_def
        server_registration_def registration_closing_def ready_mask_def consume_trigger_def fun_upd_twist int64_max_def)
  have "topology_generation timer_world \<noteq> u64_max" by (simp add: timer_world_def world_0_defs u64_max_num)
  moreover have "topology_generation v \<le> topology_generation (pe_meanwhile timer_env v)" for v
    by (simp add: timer_env_def env_0_def)
  ultimately have "earliest_deadline timer_env timer_world 100 = pe_now_wait timer_env + 40"
    using wait_pass_exact [OF timer_world_ok _ _ p] by simp
  moreover have "length (snapshot timer_world) = 2" by (simp add: timer_world_def snapshot_def server_registration_def)
  moreover have "pe_now_wait timer_env = 10" by (simp add: timer_env_def)
  ultimately show ?thesis using p by simp
qed

definition lost_world :: World where
  "lost_world = world_0\<lparr>logicals := (\<lambda>_. logical_0)
       (0 := logical_0\<lparr>lw_state := guard_0\<lparr>trigger_generation := 1\<rparr>, lw_wait_set := 7, lw_registration := 1\<rparr>,
        1 := logical_0\<lparr>lw_state := guard_0\<lparr>guard_closing := True\<rparr>, lw_wait_set := 7, lw_registration := 2\<rparr>),
     registrations := [(1, server_registration\<lparr>r_kind := KGuardCondition, r_target := LogicalTarget 0, r_conditions := []\<rparr>),
       (2, server_registration\<lparr>r_kind := KGuardCondition, r_target := LogicalTarget 1, r_conditions := []\<rparr>)],
     next_registration_id := 3\<rparr>"

theorem guard_trigger_lost_witness:
  "fst (wait_pass env_0 7 Infinite int64_max lost_world) = Retry"
proof -
  have ok: "world_ok 7 lost_world"
    by (auto simp: world_ok_def entry_ok_def logical_ok_def reader_ok_def target_held_def lost_world_def
        world_0_defs server_registration_def um_ok_def target_readers_def split: if_splits)
  from guard_trigger_lost [OF ok, of 1 _ 2 _ 0 1 env_0] show ?thesis
    by (fastforce simp: lost_world_def world_0_defs server_registration_def env_0_def u64_max_num)
qed

end
