(* ===== verification/Doubles.thy ===== *)
theory Doubles
  imports Prelude Complex_Main
begin

text \<open>
  What the parameter code uses of \<^verbatim>\<open>double\<close> and of \<^verbatim>\<open>std::strtod\<close>: IEEE 754 binary64 with
  round-to-nearest-even, as rational numbers. The two zeros are one value: no operation used by
  the code tells them apart.
\<close>

section \<open>Values\<close>

datatype Double = NaN | Inf bool | Fin rat

definition pow2 :: "int \<Rightarrow> rat" where
  "pow2 e = (if 0 \<le> e then 2 ^ nat e else 1 / 2 ^ nat (- e))"

definition round_half_even :: "rat \<Rightarrow> int" where
  "round_half_even q = (let f = \<lfloor>q\<rfloor>; d = q - of_int f
     in if d < 1 / 2 then f else if 1 / 2 < d then f + 1 else if even f then f else f + 1)"

text \<open>
  The exponent of the last bit: the least \<open>e\<close> from \<open>-1074\<close> (subnormal numbers) on with
  \<open>\<bar>x\<bar> < 2 ^ (e + 53)\<close>. A result beyond the largest finite number is infinite.
\<close>

definition rnd :: "rat \<Rightarrow> Double" where
  "rnd x = (case find (\<lambda>e. \<bar>x\<bar> < pow2 (e + 53)) [- 1074..971] of
       None \<Rightarrow> Inf (x < 0)
     | Some e \<Rightarrow> let y = of_int (round_half_even (x / pow2 e)) * pow2 e
                 in if pow2 1024 \<le> \<bar>y\<bar> then Inf (x < 0) else Fin y)"

fun deq :: "Double \<Rightarrow> Double \<Rightarrow> bool" where
  "deq NaN _ = False"
| "deq _ NaN = False"
| "deq x y = (x = y)"

fun dless :: "Double \<Rightarrow> Double \<Rightarrow> bool" where
  "dless NaN _ = False"
| "dless _ NaN = False"
| "dless (Fin x) (Fin y) = (x < y)"
| "dless (Inf n) (Fin _) = n"
| "dless (Fin _) (Inf n) = (\<not> n)"
| "dless (Inf n) (Inf m) = (n \<and> \<not> m)"

definition dle :: "Double \<Rightarrow> Double \<Rightarrow> bool" where
  "dle x y \<longleftrightarrow> dless x y \<or> deq x y"

fun dneg :: "Double \<Rightarrow> Double" where
  "dneg NaN = NaN"
| "dneg (Inf n) = Inf (\<not> n)"
| "dneg (Fin x) = Fin (- x)"

fun dadd :: "Double \<Rightarrow> Double \<Rightarrow> Double" where
  "dadd NaN _ = NaN"
| "dadd _ NaN = NaN"
| "dadd (Fin x) (Fin y) = rnd (x + y)"
| "dadd (Inf n) (Fin _) = Inf n"
| "dadd (Fin _) (Inf n) = Inf n"
| "dadd (Inf n) (Inf m) = (if n = m then Inf n else NaN)"

definition dsub :: "Double \<Rightarrow> Double \<Rightarrow> Double" where
  "dsub x y = dadd x (dneg y)"

text \<open>Division; the code divides by positive numbers only, so a zero divisor is the positive one.\<close>

fun ddiv :: "Double \<Rightarrow> Double \<Rightarrow> Double" where
  "ddiv NaN _ = NaN"
| "ddiv _ NaN = NaN"
| "ddiv (Fin x) (Fin y) = (if y = 0 then (if x = 0 then NaN else Inf (x < 0)) else rnd (x / y))"
| "ddiv (Inf n) (Fin y) = Inf (n \<noteq> (y < 0))"
| "ddiv (Fin _) (Inf _) = Fin 0"
| "ddiv (Inf _) (Inf _) = NaN"

text \<open>\<^verbatim>\<open>std::round\<close> rounds halves away from zero; \<^verbatim>\<open>std::fabs\<close>, \<^verbatim>\<open>std::isfinite\<close>.\<close>

fun dround :: "Double \<Rightarrow> Double" where
  "dround (Fin x) = Fin (if 0 \<le> x then of_int \<lfloor>x + 1 / 2\<rfloor> else of_int \<lceil>x - 1 / 2\<rceil>)"
| "dround x = x"

fun dabs :: "Double \<Rightarrow> Double" where
  "dabs (Fin x) = Fin \<bar>x\<bar>"
| "dabs (Inf _) = Inf False"
| "dabs NaN = NaN"

fun dfinite :: "Double \<Rightarrow> bool" where
  "dfinite (Fin _) = True"
| "dfinite _ = False"

lemma deq_refl_iff: "deq x x \<longleftrightarrow> x \<noteq> NaN"
  by (cases x) auto

lemma deq_eq: "deq x y \<Longrightarrow> x = y"
  by (cases "(x, y)" rule: deq.cases) auto

lemma dless_irrefl [simp]: "\<not> dless x x"
  by (cases x) auto

section \<open>\<^verbatim>\<open>std::strtod\<close>\<close>

text \<open>The subject sequences of the C locale: decimal and hexadecimal numbers, infinities, NaNs.\<close>

definition char_in :: "char \<Rightarrow> char \<Rightarrow> char \<Rightarrow> bool" where
  "char_in lo hi c \<longleftrightarrow> (of_char lo :: nat) \<le> of_char c \<and> (of_char c :: nat) \<le> of_char hi"

definition is_space :: "char \<Rightarrow> bool" where
  "is_space c \<longleftrightarrow> c = CHR '' '' \<or> char_in (CHR 0x09) (CHR 0x0D) c"

definition is_digit :: "char \<Rightarrow> bool" where
  "is_digit c \<longleftrightarrow> char_in (CHR ''0'') (CHR ''9'') c"

definition digit_value :: "char \<Rightarrow> nat" where
  "digit_value c = of_char c - of_char (CHR ''0'')"

definition to_lower :: "char \<Rightarrow> char" where
  "to_lower c = (if char_in (CHR ''A'') (CHR ''Z'') c then char_of ((of_char c :: nat) + 32) else c)"

definition is_hex :: "char \<Rightarrow> bool" where
  "is_hex c \<longleftrightarrow> is_digit c \<or> char_in (CHR ''a'') (CHR ''f'') (to_lower c)"

definition hex_value :: "char \<Rightarrow> nat" where
  "hex_value c = (if is_digit c then digit_value c else of_char (to_lower c) - of_char (CHR ''a'') + 10)"

definition horner :: "nat \<Rightarrow> (char \<Rightarrow> nat) \<Rightarrow> string \<Rightarrow> nat" where
  "horner base dig s = foldl (\<lambda>m c. m * base + dig c) 0 s"

definition split_sign :: "string \<Rightarrow> bool \<times> string" where
  "split_sign s = (case s of
       c # r \<Rightarrow> if c = CHR ''-'' then (True, r) else if c = CHR ''+'' then (False, r) else (False, s)
     | [] \<Rightarrow> (False, s))"

text \<open>An optional exponent part \<^verbatim>\<open>e[sign]digits\<close>; without a digit it is not part of the number.\<close>

definition exponent_part :: "char \<Rightarrow> string \<Rightarrow> int \<times> string" where
  "exponent_part mark s = (case s of
       c # r \<Rightarrow> let (neg, r2) = split_sign r; ds = takeWhile is_digit r2
               in if to_lower c = mark \<and> ds \<noteq> []
                  then ((if neg then - 1 else 1) * int (horner 10 digit_value ds), dropWhile is_digit r2)
                  else (0, s)
     | [] \<Rightarrow> (0, s))"

text \<open>Digits, an optional point and more digits: the digits and how many follow the point.\<close>

definition mantissa :: "(char \<Rightarrow> bool) \<Rightarrow> string \<Rightarrow> string \<times> nat \<times> string" where
  "mantissa dig s = (let ip = takeWhile dig s; r = dropWhile dig s
     in case r of
          c # r' \<Rightarrow> if c = CHR ''.'' then (ip @ takeWhile dig r', length (takeWhile dig r'), dropWhile dig r') else (ip, 0, r)
        | [] \<Rightarrow> (ip, 0, r))"

definition starts_ci :: "string \<Rightarrow> string \<Rightarrow> bool" where
  "starts_ci p s \<longleftrightarrow> map to_lower (take (length p) s) = p"

definition nan_tail :: "string \<Rightarrow> string" where
  "nan_tail s = (case s of
       c # r \<Rightarrow> let t = dropWhile (\<lambda>x. is_digit x \<or> char_in (CHR ''a'') (CHR ''z'') (to_lower x) \<or> x = CHR ''_'') r
               in if c = CHR ''('' \<and> t \<noteq> [] \<and> hd t = CHR '')'' then tl t else s
     | [] \<Rightarrow> s)"

definition signed_rat :: "bool \<Rightarrow> rat \<Rightarrow> rat" where
  "signed_rat neg x = (if neg then - x else x)"

text \<open>The value and the rest of the string; without a conversion, zero and the whole string.\<close>

definition strtod :: "string \<Rightarrow> Double \<times> string" where
  "strtod s =
     (let (neg, t) = split_sign (dropWhile is_space s);
          (hds, hfrac, hrest) = mantissa is_hex (drop 2 t);
          (hexp, hend) = exponent_part (CHR ''p'') hrest;
          (ds, frac, rest) = mantissa is_digit t;
          (dexp, dend) = exponent_part (CHR ''e'') rest
      in if starts_ci ''infinity'' t then (Inf neg, drop 8 t)
         else if starts_ci ''inf'' t then (Inf neg, drop 3 t)
         else if starts_ci ''nan'' t then (NaN, nan_tail (drop 3 t))
         else if starts_ci ''0x'' t \<and> hds \<noteq> []
         then (rnd (signed_rat neg (of_nat (horner 16 hex_value hds) * pow2 (hexp - 4 * int hfrac))), hend)
         else if ds \<noteq> []
         then (rnd (signed_rat neg (of_nat (horner 10 digit_value ds) *
                 (if int frac \<le> dexp then 10 ^ nat (dexp - int frac) else 1 / 10 ^ nat (int frac - dexp)))), dend)
         else (Fin 0, s))"

end
