(* ===== verification/Names.thy ===== *)
theory Names
  imports Prelude "HOL-Library.Sublist"
begin

text \<open>
  Names: the syntax rules of \<^verbatim>\<open>impl/name.hpp\<close>, the mapping between logical names and DDS
  topics of \<^verbatim>\<open>impl/node_impl.cpp\<close> and \<^verbatim>\<open>impl/graph_names.hpp\<close>, remapping, and the argument
  parser of \<^verbatim>\<open>arguments.cpp\<close>. A \<^verbatim>\<open>std::string\<close> is a list of characters.
\<close>

section \<open>Searching strings\<close>

text \<open>\<^verbatim>\<open>std::string_view::find\<close> and \<^verbatim>\<open>rfind\<close>: \<open>None\<close> is \<^verbatim>\<open>npos\<close>.\<close>

fun str_find :: "string \<Rightarrow> string \<Rightarrow> nat option" where
  "str_find p [] = (if p = [] then Some 0 else None)"
| "str_find p (c # s) = (if take (length p) (c # s) = p then Some 0 else map_option Suc (str_find p s))"

fun str_rfind :: "string \<Rightarrow> string \<Rightarrow> nat option" where
  "str_rfind p [] = (if p = [] then Some 0 else None)"
| "str_rfind p (c # s) = (case str_rfind p s of
       Some n \<Rightarrow> Some (Suc n)
     | None \<Rightarrow> if take (length p) (c # s) = p then Some 0 else None)"

lemma take_eq_prefix: "take (length p) s = p \<longleftrightarrow> prefix p s"
  by (auto simp: prefix_def) (metis append_take_drop_id)

lemma str_find_Some: "str_find p s = Some n \<Longrightarrow> \<exists>a b. s = a @ p @ b \<and> length a = n"
proof (induction s arbitrary: n)
  case Nil
  then show ?case by (auto split: if_splits)
next
  case (Cons c s)
  show ?case
  proof (cases "prefix p (c # s)")
    case True
    with Cons.prems show ?thesis by (auto simp: take_eq_prefix prefix_def)
  next
    case False
    with Cons.prems obtain m where m: "str_find p s = Some m" "n = Suc m" by (auto simp: take_eq_prefix)
    from Cons.IH [OF m(1)] obtain a b where "s = a @ p @ b" "length a = m" by blast
    then have "c # s = (c # a) @ p @ b \<and> length (c # a) = n" using m by simp
    then show ?thesis by blast
  qed
qed

lemma str_find_None: "str_find p s = None \<longleftrightarrow> \<not> sublist p s"
  by (induction s) (auto simp: take_eq_prefix sublist_Cons_right)

lemma str_rfind_None: "str_rfind p s = None \<longleftrightarrow> \<not> sublist p s"
  by (induction s) (auto simp: take_eq_prefix sublist_Cons_right split: option.splits)

lemma str_rfind_Some: "str_rfind p s = Some n \<Longrightarrow> \<exists>a b. s = a @ p @ b \<and> length a = n"
proof (induction s arbitrary: n)
  case Nil
  then show ?case by (auto split: if_splits)
next
  case (Cons c s)
  show ?case
  proof (cases "str_rfind p s")
    case None
    with Cons.prems show ?thesis by (auto simp: take_eq_prefix prefix_def split: if_splits)
  next
    case (Some m)
    from Cons.IH [OF this] obtain a b where "s = a @ p @ b" "length a = m" by blast
    then have "c # s = (c # a) @ p @ b \<and> length (c # a) = n" using Some Cons.prems by simp
    then show ?thesis by blast
  qed
qed

lemma str_rfind_append:
  assumes "\<not> sublist p (tl (p @ b))" and "p \<noteq> []"
  shows "str_rfind p (a @ p @ b) = Some (length a)"
proof (induction a)
  case Nil
  obtain c q where p: "p = c # q" using assms(2) by (cases p) auto
  then have "str_rfind p (q @ b) = None" using assms(1) by (simp add: str_rfind_None)
  then show ?case by (simp add: p take_eq_prefix)
next
  case (Cons c a)
  then show ?case by simp
qed

definition name_starts_with :: "string \<Rightarrow> string \<Rightarrow> bool" where
  "name_starts_with value pre \<longleftrightarrow> length pre \<le> length value \<and> take (length pre) value = pre"

definition name_ends_with :: "string \<Rightarrow> string \<Rightarrow> bool" where
  "name_ends_with value suf \<longleftrightarrow>
     length suf \<le> length value \<and> drop (length value - length suf) value = suf"

lemma name_starts_with_iff: "name_starts_with s p \<longleftrightarrow> prefix p s"
  using prefix_length_le by (auto simp: name_starts_with_def take_eq_prefix)

lemma name_ends_with_iff: "name_ends_with s p \<longleftrightarrow> suffix p s"
proof
  assume "name_ends_with s p"
  then show "suffix p s" by (metis name_ends_with_def suffix_drop)
next
  assume "suffix p s"
  then show "name_ends_with s p" by (auto simp: name_ends_with_def suffix_def)
qed

section \<open>Logical names\<close>

definition has_invalid_name_syntax :: "string \<Rightarrow> bool" where
  "has_invalid_name_syntax v \<longleftrightarrow>
     str_find ''//'' v \<noteq> None \<or> CHR ''~'' \<in> set v \<or> CHR ''{'' \<in> set v \<or> CHR ''}'' \<in> set v"

definition normalize_namespace :: "string \<Rightarrow> string result" where
  "normalize_namespace v =
     (if v = [] then success ''/''
      else if has_invalid_name_syntax v then failure InvalidName
      else let normalized = if hd v = CHR ''/'' then v else ''/'' @ v
           in if 1 < length normalized \<and> last normalized = CHR ''/'' then failure InvalidName
              else success normalized)"

definition resolve_name :: "string \<Rightarrow> string \<Rightarrow> string result" where
  "resolve_name node_namespace v =
     (if v = [] \<or> has_invalid_name_syntax v \<or> last v = CHR ''/'' then failure InvalidName
      else if hd v = CHR ''/'' then success v
      else if node_namespace = ''/'' then success (''/'' @ v)
      else success (node_namespace @ ''/'' @ v))"

text \<open>What a resolved name satisfies: absolute, not the root, no trailing slash, no excluded syntax.\<close>

definition name_ok :: "string \<Rightarrow> bool" where
  "name_ok v \<longleftrightarrow> 1 < length v \<and> hd v = CHR ''/'' \<and> last v \<noteq> CHR ''/'' \<and> \<not> has_invalid_name_syntax v"

definition namespace_ok :: "string \<Rightarrow> bool" where
  "namespace_ok v \<longleftrightarrow> v = ''/'' \<or> name_ok v"

lemma slashes_append:
  "sublist ''//'' (a @ b) \<longleftrightarrow> sublist ''//'' a \<or> sublist ''//'' b \<or>
     (a \<noteq> [] \<and> b \<noteq> [] \<and> last a = CHR ''/'' \<and> hd b = CHR ''/'')"
proof (induction a)
  case Nil
  then show ?case by simp
next
  case (Cons c a)
  have step: "sublist ''//'' (c # xs) \<longleftrightarrow> c = CHR ''/'' \<and> xs \<noteq> [] \<and> hd xs = CHR ''/'' \<or> sublist ''//'' xs" for xs
    by (cases xs) (auto simp: sublist_Cons_right)
  show ?case
    by (cases "a = []") (auto simp: step Cons.IH)
qed

lemma invalid_syntax_append:
  "has_invalid_name_syntax (a @ b) \<longleftrightarrow> has_invalid_name_syntax a \<or> has_invalid_name_syntax b \<or>
     (a \<noteq> [] \<and> b \<noteq> [] \<and> last a = CHR ''/'' \<and> hd b = CHR ''/'')"
  by (auto simp: has_invalid_name_syntax_def str_find_None slashes_append)

lemma invalid_syntax_slash [simp]: "\<not> has_invalid_name_syntax ''/''"
  by (simp add: has_invalid_name_syntax_def)

lemma normalize_namespace_ok: "normalize_namespace v = Inr ns \<Longrightarrow> namespace_ok ns"
  using invalid_syntax_append [of "''/''" v]
  by (auto simp: normalize_namespace_def namespace_ok_def name_ok_def Let_def neq_Nil_conv split: if_splits)

lemma resolve_name_ok: "namespace_ok ns \<Longrightarrow> resolve_name ns v = Inr r \<Longrightarrow> name_ok r"
proof -
  assume ns: "namespace_ok ns" and r: "resolve_name ns v = Inr r"
  then have v: "v \<noteq> []" "\<not> has_invalid_name_syntax v" "last v \<noteq> CHR ''/''"
    by (auto simp: resolve_name_def split: if_splits)
  have abs: "name_ok v" if "hd v = CHR ''/''"
    using v that by (cases v) (auto simp: name_ok_def neq_Nil_conv split: if_splits)
  have rel: "\<not> has_invalid_name_syntax (CHR ''/'' # v)" if "hd v \<noteq> CHR ''/''"
    using v that invalid_syntax_append [of "''/''" v] by simp
  have tail: "name_ok (ns @ CHR ''/'' # v)" if "hd v \<noteq> CHR ''/''" "name_ok ns"
    using v that rel [OF that(1)] invalid_syntax_append [of ns "CHR ''/'' # v"] by (auto simp: name_ok_def hd_append)
  show ?thesis
    using r v ns abs rel tail
    by (auto simp: resolve_name_def namespace_ok_def name_ok_def split: if_splits)
qed

lemma resolve_name_absolute: "name_ok r \<Longrightarrow> resolve_name ns r = Inr r"
  by (auto simp: name_ok_def resolve_name_def)

lemma name_okE:
  assumes "name_ok l" obtains c p where "l = CHR ''/'' # c # p" "c \<noteq> CHR ''/''"
proof -
  obtain p where p: "l = CHR ''/'' # p" "p \<noteq> []" using assms by (cases l) (auto simp: name_ok_def)
  then obtain c q where "p = c # q" by (cases p) auto
  moreover have "c \<noteq> CHR ''/''"
    using assms p \<open>p = c # q\<close> invalid_syntax_append [of "''/''" p] by (auto simp: name_ok_def)
  ultimately show ?thesis using that p by blast
qed

section \<open>Names on the wire\<close>

datatype RuntimeMode = DDS | ROS2

definition dds_topic_name :: "RuntimeMode \<Rightarrow> string \<Rightarrow> string" where
  "dds_topic_name mode logical_name =
     (let path = drop 1 logical_name in if mode = ROS2 then ''rt/'' @ path else path)"

definition service_topic_name :: "RuntimeMode \<Rightarrow> string \<Rightarrow> bool \<Rightarrow> string" where
  "service_topic_name mode logical_name request =
     (let path = drop 1 logical_name
      in if mode = ROS2
         then (if request then ''rq/'' else ''rr/'') @ path @ (if request then ''Request'' else ''Reply'')
         else path @ (if request then ''_Request'' else ''_Reply''))"

datatype GraphEndpointRole = Topic | ServiceRequest | ServiceResponse

record NormalizedEndpointName =
  logical_name :: string
  ep_role :: GraphEndpointRole

text \<open>\<open>None\<close> is \<^verbatim>\<open>std::nullopt\<close>: the endpoint stays out of the public graph.\<close>

definition normalize_endpoint_name :: "RuntimeMode \<Rightarrow> string \<Rightarrow> NormalizedEndpointName option" where
  "normalize_endpoint_name mode name =
     (let result =
        (if mode = ROS2 then
           if name_starts_with name ''rt/'' then Some \<lparr>logical_name = ''/'' @ drop 3 name, ep_role = Topic\<rparr>
           else if name_starts_with name ''rq/'' \<and> name_ends_with name ''Request''
           then Some \<lparr>logical_name = ''/'' @ take (length name - 3 - 7) (drop 3 name), ep_role = ServiceRequest\<rparr>
           else if name_starts_with name ''rr/'' \<and> name_ends_with name ''Reply''
           then Some \<lparr>logical_name = ''/'' @ take (length name - 3 - 5) (drop 3 name), ep_role = ServiceResponse\<rparr>
           else None
         else if name_ends_with name ''_Request''
         then Some \<lparr>logical_name = ''/'' @ take (length name - 8) name, ep_role = ServiceRequest\<rparr>
         else if name_ends_with name ''_Reply''
         then Some \<lparr>logical_name = ''/'' @ take (length name - 6) name, ep_role = ServiceResponse\<rparr>
         else Some \<lparr>logical_name = ''/'' @ name, ep_role = Topic\<rparr>)
      in case result of None \<Rightarrow> None
         | Some r \<Rightarrow> if length (logical_name r) \<le> 1 then None else Some r)"

text \<open>The five logical endpoints of an action.\<close>

record ActionEndpointNames =
  send_goal :: string
  cancel_goal :: string
  get_result :: string
  feedback :: string
  status :: string

definition derive_action_endpoint_names :: "string \<Rightarrow> ActionEndpointNames option" where
  "derive_action_endpoint_names fqn =
     (if length fqn \<le> 1 \<or> hd fqn \<noteq> CHR ''/'' \<or> last fqn = CHR ''/'' then None
      else if str_find ''/_action'' fqn \<noteq> None then None
      else let pre = fqn @ ''/_action/''
           in Some \<lparr>send_goal = pre @ ''send_goal'', cancel_goal = pre @ ''cancel_goal'',
                    get_result = pre @ ''get_result'', feedback = pre @ ''feedback'',
                    status = pre @ ''status''\<rparr>)"

datatype ActionEndpointRole =
    SendGoalRequest | SendGoalResponse | CancelGoalRequest | CancelGoalResponse
  | GetResultRequest | GetResultResponse | Feedback | Status

record ActionEndpointClassification =
  action_name :: string
  action_role :: ActionEndpointRole

definition classify_action_endpoint ::
  "NormalizedEndpointName \<Rightarrow> ActionEndpointClassification option" where
  "classify_action_endpoint endpoint =
     (case str_rfind ''/_action/'' (logical_name endpoint) of
        None \<Rightarrow> None
      | Some position \<Rightarrow>
          if position = 0 then None
          else let suf = drop (position + length ''/_action/'') (logical_name endpoint);
                   result = (\<lambda>r. Some \<lparr>action_name = take position (logical_name endpoint), action_role = r\<rparr>);
                   request = (ep_role endpoint = ServiceRequest)
               in if suf = [] \<or> CHR ''/'' \<in> set suf then None
                  else if ep_role endpoint = Topic
                  then (if suf = ''feedback'' then result Feedback
                        else if suf = ''status'' then result Status else None)
                  else if suf = ''send_goal'' then result (if request then SendGoalRequest else SendGoalResponse)
                  else if suf = ''cancel_goal'' then result (if request then CancelGoalRequest else CancelGoalResponse)
                  else if suf = ''get_result'' then result (if request then GetResultRequest else GetResultResponse)
                  else None)"

lemma normalize_service:
  assumes "name_ok l"
  shows "normalize_endpoint_name mode (service_topic_name mode l request) =
           Some \<lparr>logical_name = l, ep_role = (if request then ServiceRequest else ServiceResponse)\<rparr>"
proof -
  obtain c p where l: "l = CHR ''/'' # c # p" using name_okE [OF assms] .
  have "\<not> suffix ''_Request'' (c # p @ ''_Reply'')" by (auto simp: suffix_def)
  then show ?thesis
    by (cases mode; cases request)
       (simp_all add: l normalize_endpoint_name_def service_topic_name_def name_starts_with_iff
          name_ends_with_iff suffix_def Let_def)
qed

lemma normalize_topic:
  assumes "name_ok l"
  shows "normalize_endpoint_name mode (dds_topic_name mode l) = Some \<lparr>logical_name = l, ep_role = Topic\<rparr> \<longleftrightarrow>
           mode = ROS2 \<or> (\<not> suffix ''_Request'' l \<and> \<not> suffix ''_Reply'' l)"
proof -
  obtain c p where l: "l = CHR ''/'' # c # p" using name_okE [OF assms] .
  show ?thesis
    by (cases mode)
       (auto simp: l normalize_endpoint_name_def dds_topic_name_def name_starts_with_iff
          name_ends_with_iff Let_def suffix_Cons split: if_splits)
qed

lemma marker_not_later:
  "CHR ''/'' \<notin> set b \<Longrightarrow> \<not> sublist ''/_action/'' (tl (''/_action/'' @ b))"
proof
  assume b: "CHR ''/'' \<notin> set b" and "sublist ''/_action/'' (tl (''/_action/'' @ b))"
  then obtain x y where xy: "''_action/'' @ b = x @ ''/_action/'' @ y" by (auto simp: sublist_def)
  then have "length (filter ((=) (CHR ''/'')) (''_action/'' @ b)) = length (filter ((=) (CHR ''/'')) (x @ ''/_action/'' @ y))"
    by simp
  moreover have "filter ((=) (CHR ''/'')) b = []" using b by (auto simp: filter_empty_conv)
  ultimately show False by simp
qed

lemma classify_marker:
  assumes "a \<noteq> []" and "b \<noteq> []" and "CHR ''/'' \<notin> set b"
  shows "str_rfind ''/_action/'' (a @ ''/_action/'' @ b) = Some (length a)"
  by (rule str_rfind_append [OF marker_not_later [OF assms(3)]]) simp

text \<open>The logical endpoint an action uses in each of its roles, and the DDS topic of an endpoint.\<close>

fun action_endpoint :: "ActionEndpointNames \<Rightarrow> ActionEndpointRole \<Rightarrow> NormalizedEndpointName" where
  "action_endpoint n SendGoalRequest = \<lparr>logical_name = send_goal n, ep_role = ServiceRequest\<rparr>"
| "action_endpoint n SendGoalResponse = \<lparr>logical_name = send_goal n, ep_role = ServiceResponse\<rparr>"
| "action_endpoint n CancelGoalRequest = \<lparr>logical_name = cancel_goal n, ep_role = ServiceRequest\<rparr>"
| "action_endpoint n CancelGoalResponse = \<lparr>logical_name = cancel_goal n, ep_role = ServiceResponse\<rparr>"
| "action_endpoint n GetResultRequest = \<lparr>logical_name = get_result n, ep_role = ServiceRequest\<rparr>"
| "action_endpoint n GetResultResponse = \<lparr>logical_name = get_result n, ep_role = ServiceResponse\<rparr>"
| "action_endpoint n Feedback = \<lparr>logical_name = feedback n, ep_role = Topic\<rparr>"
| "action_endpoint n Status = \<lparr>logical_name = status n, ep_role = Topic\<rparr>"

definition wire_name :: "RuntimeMode \<Rightarrow> NormalizedEndpointName \<Rightarrow> string" where
  "wire_name mode e = (case ep_role e of
       Topic \<Rightarrow> dds_topic_name mode (logical_name e)
     | ServiceRequest \<Rightarrow> service_topic_name mode (logical_name e) True
     | ServiceResponse \<Rightarrow> service_topic_name mode (logical_name e) False)"

lemma derive_Some:
  "derive_action_endpoint_names fqn = Some n \<Longrightarrow>
     n = \<lparr>send_goal = fqn @ ''/_action/'' @ ''send_goal'', cancel_goal = fqn @ ''/_action/'' @ ''cancel_goal'',
          get_result = fqn @ ''/_action/'' @ ''get_result'', feedback = fqn @ ''/_action/'' @ ''feedback'',
          status = fqn @ ''/_action/'' @ ''status''\<rparr>"
  by (auto simp: derive_action_endpoint_names_def Let_def split: if_splits)

lemma classify_derived:
  assumes "derive_action_endpoint_names fqn = Some n"
  shows "classify_action_endpoint (action_endpoint n r) = Some \<lparr>action_name = fqn, action_role = r\<rparr>"
proof -
  have f: "fqn \<noteq> []" using assms by (auto simp: derive_action_endpoint_names_def split: if_splits)
  have r: "str_rfind ''/_action/'' (fqn @ ''/_action/'' @ b) = Some (length fqn)"
    if "b \<noteq> []" "CHR ''/'' \<notin> set b" for b
    using classify_marker [OF f that] .
  note rs = r [of "''send_goal''"] r [of "''cancel_goal''"] r [of "''get_result''"]
    r [of "''feedback''"] r [of "''status''"]
  show ?thesis
    using f rs
    by (cases r) (simp_all add: derive_Some [OF assms] classify_action_endpoint_def Let_def)
qed

lemma name_ok_append:
  "name_ok a \<Longrightarrow> \<not> has_invalid_name_syntax b \<Longrightarrow> b \<noteq> [] \<Longrightarrow> last b \<noteq> CHR ''/'' \<Longrightarrow> name_ok (a @ b)"
  by (auto simp: name_ok_def invalid_syntax_append hd_append)

lemma action_endpoint_ok:
  assumes "derive_action_endpoint_names fqn = Some n" and "name_ok fqn"
  shows "name_ok (logical_name (action_endpoint n r))"
proof -
  have "name_ok (fqn @ b)" if "b \<in> {''/_action/send_goal'', ''/_action/cancel_goal'', ''/_action/get_result'',
      ''/_action/feedback'', ''/_action/status''}" for b
    using that by (intro name_ok_append [OF assms(2)]) (auto simp: has_invalid_name_syntax_def)
  then show ?thesis by (cases r) (simp_all add: derive_Some [OF assms(1)])
qed

lemma normalize_action_endpoint:
  assumes "name_ok fqn" and "derive_action_endpoint_names fqn = Some n"
  shows "normalize_endpoint_name mode (wire_name mode (action_endpoint n r)) = Some (action_endpoint n r)"
proof -
  let ?e = "action_endpoint n r"
  have l: "name_ok (logical_name ?e)" by (rule action_endpoint_ok [OF assms(2,1)])
  have plain: "\<not> suffix ''_Request'' (logical_name ?e) \<and> \<not> suffix ''_Reply'' (logical_name ?e)" if "ep_role ?e = Topic"
    using that by (cases r) (auto simp: derive_Some [OF assms(2)] suffix_def append_eq_append_conv2 Cons_eq_append_conv)
  show ?thesis
    using normalize_service [OF l, of mode True] normalize_service [OF l, of mode False]
      normalize_topic [OF l, of mode] plain
    by (cases "ep_role ?e") (auto simp: wire_name_def)
qed

section \<open>Remapping\<close>

record RemapRule =
  remap_from :: string
  remap_to :: string

definition drop_slash :: "string \<Rightarrow> string" where
  "drop_slash v = (if v \<noteq> [] \<and> hd v = CHR ''/'' then tl v else v)"

text \<open>The scope test of one rule: \<open>None\<close> when the rule addresses another node, else its source.\<close>

definition rule_source :: "string \<Rightarrow> string \<Rightarrow> RemapRule \<Rightarrow> string option" where
  "rule_source unqualified_node node_fqn rule =
     (case str_find '':'' (remap_from rule) of
        None \<Rightarrow> Some (remap_from rule)
      | Some separator \<Rightarrow>
          let scope = drop_slash (take separator (remap_from rule))
          in if scope \<noteq> unqualified_node \<and> scope \<noteq> node_fqn then None
             else Some (drop (separator + 1) (remap_from rule)))"

fun remap_loop :: "string \<Rightarrow> string \<Rightarrow> string \<Rightarrow> string \<Rightarrow> RemapRule list \<Rightarrow> string \<Rightarrow> string result" where
  "remap_loop node fqn ns original [] result = success result"
| "remap_loop node fqn ns original (rule # rules) result =
     (case rule_source node fqn rule of
        None \<Rightarrow> remap_loop node fqn ns original rules result
      | Some source \<Rightarrow> (case resolve_name ns source of
            Inl e \<Rightarrow> failure e
          | Inr resolved \<Rightarrow>
              if resolved \<noteq> original then remap_loop node fqn ns original rules result
              else (case resolve_name ns (remap_to rule) of
                      Inl e \<Rightarrow> failure e
                    | Inr target \<Rightarrow> remap_loop node fqn ns original rules target)))"

definition node_fqn :: "string \<Rightarrow> string \<Rightarrow> string" where
  "node_fqn node_name node_namespace =
     (if drop_slash node_namespace = [] then drop_slash node_name
      else drop_slash node_namespace @ ''/'' @ drop_slash node_name)"

definition resolve_remapped_name :: "string \<Rightarrow> string \<Rightarrow> RemapRule list \<Rightarrow> string \<Rightarrow> string result" where
  "resolve_remapped_name node_name node_namespace rules v =
     rbind (resolve_name node_namespace v) (\<lambda>original.
       remap_loop (drop_slash node_name) (node_fqn node_name node_namespace) node_namespace original rules original)"

text \<open>A rule that addresses the node and whose source is the requested name; an admissible rule.\<close>

definition remap_hit :: "string \<Rightarrow> string \<Rightarrow> string \<Rightarrow> string \<Rightarrow> RemapRule \<Rightarrow> bool" where
  "remap_hit node fqn ns original r = (case rule_source node fqn r of
       None \<Rightarrow> False | Some s \<Rightarrow> resolve_name ns s = Inr original)"

definition remap_admissible :: "string \<Rightarrow> string \<Rightarrow> string \<Rightarrow> string \<Rightarrow> RemapRule \<Rightarrow> bool" where
  "remap_admissible node fqn ns original r = (case rule_source node fqn r of
       None \<Rightarrow> True
     | Some s \<Rightarrow> has_value (resolve_name ns s) \<and>
         (resolve_name ns s = Inr original \<longrightarrow> has_value (resolve_name ns (remap_to r))))"

lemma has_value_iff: "has_value r \<longleftrightarrow> (\<exists>x. r = Inr x)"
  by (cases r) auto

lemma remap_loop_char:
  "remap_loop node fqn ns original rules result = Inr l \<longleftrightarrow>
     list_all (remap_admissible node fqn ns original) rules \<and>
     (case filter (remap_hit node fqn ns original) rules of
        [] \<Rightarrow> l = result | hits \<Rightarrow> resolve_name ns (remap_to (last hits)) = Inr l)"
proof (induction rules arbitrary: result)
  case Nil
  then show ?case by auto
next
  case (Cons r rules)
  show ?case
    by (cases "rule_source node fqn r";
        auto simp: Cons.IH remap_admissible_def remap_hit_def has_value_iff
             split: option.splits sum.splits list.splits)
qed

lemma remap_loop_ok:
  "namespace_ok ns \<Longrightarrow> name_ok result \<Longrightarrow> remap_loop node fqn ns original rules result = Inr l \<Longrightarrow> name_ok l"
  by (induction rules arbitrary: result)
    (auto dest: resolve_name_ok [rotated] split: option.splits sum.splits if_splits)

lemma resolve_remapped_name_ok:
  "namespace_ok ns \<Longrightarrow> resolve_remapped_name node ns rules v = Inr l \<Longrightarrow> name_ok l"
  by (auto simp: resolve_remapped_name_def intro: remap_loop_ok resolve_name_ok)

section \<open>Arguments\<close>

record ParameterOverride =
  override_name :: string
  override_value :: string

record Arguments =
  remaps :: "RemapRule list"
  parameter_overrides :: "ParameterOverride list"
  unparsed_arguments :: "string list"
  node_name_remap :: string
  namespace_remap :: string

definition no_arguments :: "Arguments" where
  "no_arguments = \<lparr>remaps = [], parameter_overrides = [], unparsed_arguments = [],
     node_name_remap = [], namespace_remap = []\<rparr>"

definition parse_assignment :: "string \<Rightarrow> (string \<times> string) result" where
  "parse_assignment v =
     (case str_find '':='' v of
        None \<Rightarrow> failure InvalidArgument
      | Some separator \<Rightarrow>
          if separator = 0 \<or> separator + 2 = length v then failure InvalidArgument
          else success (take separator v, drop (separator + 2) v))"

definition record_assignment :: "string \<Rightarrow> string \<times> string \<Rightarrow> Arguments \<Rightarrow> Arguments" where
  "record_assignment argument nv parsed =
     (if argument = ''-p'' \<or> argument = ''--param''
      then parsed\<lparr>parameter_overrides := parameter_overrides parsed @
                    [\<lparr>override_name = fst nv, override_value = snd nv\<rparr>]\<rparr>
      else if fst nv = ''__node'' then parsed\<lparr>node_name_remap := snd nv\<rparr>
      else if fst nv = ''__ns'' then parsed\<lparr>namespace_remap := snd nv\<rparr>
      else parsed\<lparr>remaps := remaps parsed @ [\<lparr>remap_from = fst nv, remap_to = snd nv\<rparr>]\<rparr>)"

definition option_words :: "string list" where
  "option_words = [''-r'', ''--remap'', ''-p'', ''--param'']"

fun parse_loop :: "string list \<Rightarrow> bool \<Rightarrow> Arguments \<Rightarrow> Arguments result" where
  "parse_loop [] in_ros parsed = (if in_ros then failure InvalidArgument else success parsed)"
| "parse_loop (argument # rest) in_ros parsed =
     (if argument = ''--ros-args'' then
        (if in_ros then failure InvalidArgument else parse_loop rest True parsed)
      else if argument = ''--'' \<and> in_ros then parse_loop rest False parsed
      else if \<not> in_ros
      then parse_loop rest in_ros (parsed\<lparr>unparsed_arguments := unparsed_arguments parsed @ [argument]\<rparr>)
      else if argument \<notin> set option_words then failure InvalidArgument
      else (case rest of
              [] \<Rightarrow> failure InvalidArgument
            | assignment # rest' \<Rightarrow> (case parse_assignment assignment of
                  Inl e \<Rightarrow> failure e
                | Inr nv \<Rightarrow> parse_loop rest' in_ros (record_assignment argument nv parsed))))"

definition parse_arguments :: "string list \<Rightarrow> Arguments result" where
  "parse_arguments arguments = parse_loop arguments False no_arguments"

text \<open>
  The grammar: a command line is a sequence of plain words and of groups of options between
  \<^verbatim>\<open>--ros-args\<close> and \<^verbatim>\<open>--\<close>.
\<close>

datatype ArgGroup = Plain string | Ros "(string \<times> string \<times> string) list"

fun print_assignments :: "(string \<times> string \<times> string) list \<Rightarrow> string list" where
  "print_assignments [] = []"
| "print_assignments ((opt, n, v) # os) = opt # (n @ '':='' @ v) # print_assignments os"

fun print_group :: "ArgGroup \<Rightarrow> string list" where
  "print_group (Plain a) = [a]"
| "print_group (Ros os) = ''--ros-args'' # print_assignments os @ [''--'']"

fun group_ok :: "ArgGroup \<Rightarrow> bool" where
  "group_ok (Plain a) \<longleftrightarrow> a \<noteq> ''--ros-args''"
| "group_ok (Ros os) \<longleftrightarrow>
     list_all (\<lambda>(opt, n, v). opt \<in> set option_words \<and> n \<noteq> [] \<and> v \<noteq> [] \<and> str_find '':='' n = None) os"

fun collect_group :: "Arguments \<Rightarrow> ArgGroup \<Rightarrow> Arguments" where
  "collect_group p (Plain a) = p\<lparr>unparsed_arguments := unparsed_arguments p @ [a]\<rparr>"
| "collect_group p (Ros os) = foldl (\<lambda>p (opt, nv). record_assignment opt nv p) p os"

text \<open>What a node is created from: its own arguments follow the ones of its context.\<close>

record NodeOptions =
  node_name :: string
  node_namespace :: string
  node_arguments :: Arguments
  use_global_arguments :: bool
  allow_undeclared_parameters :: bool

record NodeIdentity =
  id_name :: string
  id_namespace :: string
  id_remaps :: "RemapRule list"
  id_overrides :: "ParameterOverride list"

definition node_identity :: "Arguments \<Rightarrow> NodeOptions \<Rightarrow> NodeIdentity result" where
  "node_identity global options =
     (let own = node_arguments options; use = use_global_arguments options;
          name1 = (if use \<and> node_name_remap global \<noteq> [] then node_name_remap global else node_name options);
          ns1 = (if use \<and> namespace_remap global \<noteq> [] then namespace_remap global else node_namespace options);
          name = (if node_name_remap own \<noteq> [] then node_name_remap own else name1);
          ns = (if namespace_remap own \<noteq> [] then namespace_remap own else ns1);
          rules = (if use then remaps global else []) @ remaps own;
          overrides = (if use then parameter_overrides global else []) @ parameter_overrides own
      in if name = [] \<or> has_invalid_name_syntax name \<or> CHR ''/'' \<in> set name then failure InvalidName
         else rbind (normalize_namespace ns) (\<lambda>normalized.
           success \<lparr>id_name = name, id_namespace = normalized, id_remaps = rules, id_overrides = overrides\<rparr>))"

definition fully_qualified_name :: "NodeIdentity \<Rightarrow> string" where
  "fully_qualified_name i =
     (if id_namespace i = ''/'' then ''/'' @ id_name i else id_namespace i @ ''/'' @ id_name i)"

lemma node_identity_ok:
  assumes "node_identity global options = Inr i"
  shows "namespace_ok (id_namespace i)" and "name_ok (fully_qualified_name i)"
proof -
  from assms have n: "id_name i \<noteq> []" "\<not> has_invalid_name_syntax (id_name i)" "CHR ''/'' \<notin> set (id_name i)"
    and ns: "namespace_ok (id_namespace i)"
    by (auto simp: node_identity_def Let_def normalize_namespace_ok split: if_splits)
  show "namespace_ok (id_namespace i)" by (rule ns)
  have "last (id_name i) \<noteq> CHR ''/''" "hd (id_name i) \<noteq> CHR ''/''"
    using n(3) last_in_set [OF n(1)] hd_in_set [OF n(1)] by metis+
  then have "resolve_name (id_namespace i) (id_name i) = Inr (fully_qualified_name i)"
    using n by (simp add: resolve_name_def fully_qualified_name_def)
  then show "name_ok (fully_qualified_name i)" by (rule resolve_name_ok [OF ns])
qed

lemma str_find_separator:
  "str_find '':='' n = None \<Longrightarrow> str_find '':='' (n @ '':='' @ v) = Some (length n)"
proof (induction n)
  case Nil
  then show ?case by simp
next
  case (Cons c n)
  then show ?case by (cases n) (auto split: if_splits)
qed

lemma str_find_first: "str_find '':='' s = Some k \<Longrightarrow> str_find '':='' (take k s) = None"
proof (induction s arbitrary: k)
  case Nil
  then show ?case by simp
next
  case (Cons c s)
  show ?case
  proof (cases k)
    case 0
    then show ?thesis by simp
  next
    case (Suc m)
    with Cons.prems have t: "take (length '':='') (c # s) \<noteq> '':=''" and m: "str_find '':='' s = Some m"
      by (auto simp del: take_Suc_Cons split: if_splits)
    have n: "\<not> prefix '':='' (c # s)" using t by (simp only: take_eq_prefix not_False_eq_True)
    have "\<not> prefix '':='' (c # take m s)" using n by (metis prefix_Cons prefix_order.trans take_is_prefix)
    then have "take 2 (c # take m s) \<noteq> '':=''" using take_eq_prefix [of "'':=''" "c # take m s"] by simp
    then show ?thesis using Cons.IH [OF m] by (simp add: Suc)
  qed
qed

lemma parse_assignment_print:
  "n \<noteq> [] \<Longrightarrow> v \<noteq> [] \<Longrightarrow> str_find '':='' n = None \<Longrightarrow> parse_assignment (n @ '':='' @ v) = Inr (n, v)"
  using str_find_separator [of n v] by (simp add: parse_assignment_def)

lemma parse_assignment_Inr:
  assumes "parse_assignment a = Inr (n, v)"
  shows "a = n @ '':='' @ v" and "n \<noteq> []" and "v \<noteq> []" and "str_find '':='' n = None"
proof -
  from assms obtain k where k: "str_find '':='' a = Some k" "k \<noteq> 0" "k + 2 \<noteq> length a"
    and nv: "n = take k a" "v = drop (k + 2) a"
    by (auto simp: parse_assignment_def split: option.splits if_splits)
  from str_find_Some [OF k(1)] obtain x y where "a = x @ '':='' @ y" "length x = k" by blast
  then show "a = n @ '':='' @ v" "n \<noteq> []" "v \<noteq> []" using nv k(2,3) by auto
  show "str_find '':='' n = None" using str_find_first [OF k(1)] nv by simp
qed

lemma parse_assignments_print:
  "group_ok (Ros os) \<Longrightarrow>
     parse_loop (print_assignments os @ ''--'' # rest) True p =
       parse_loop rest False (foldl (\<lambda>p (opt, nv). record_assignment opt nv p) p os)"
  by (induction os arbitrary: p) (auto simp: option_words_def parse_assignment_print [simplified])

lemma parse_loop_print:
  "list_all group_ok gs \<Longrightarrow>
     parse_loop (concat (map print_group gs)) False p = Inr (foldl collect_group p gs)"
proof (induction gs arbitrary: p)
  case Nil
  then show ?case by simp
next
  case (Cons g gs)
  then show ?case
    by (cases g) (auto simp: parse_assignments_print simp del: group_ok.simps(2))
qed

lemma parse_loop_parsed:
  "parse_loop args in_ros p = Inr q \<Longrightarrow>
     (if in_ros then \<exists>os gs. group_ok (Ros os) \<and> list_all group_ok gs \<and>
          args = print_assignments os @ ''--'' # concat (map print_group gs) \<and>
          q = foldl collect_group (collect_group p (Ros os)) gs
      else \<exists>gs. list_all group_ok gs \<and> args = concat (map print_group gs) \<and> q = foldl collect_group p gs)"
proof (induction args in_ros p rule: parse_loop.induct)
  case (1 in_ros p)
  have "\<exists>gs. list_all group_ok gs \<and> [] = concat (map print_group gs) \<and> q = foldl collect_group p gs"
    using 1 by (intro exI [of _ "[]"]) (auto split: if_splits)
  then show ?case using 1 by (auto split: if_splits)
next
  case (2 a rest in_ros p)
  consider (open_group) "a = ''--ros-args''" "\<not> in_ros" | (close_group) "a = ''--''" "in_ros" "a \<noteq> ''--ros-args''"
    | (plain) "\<not> in_ros" "a \<noteq> ''--ros-args''"
    | (opt) "in_ros" "a \<noteq> ''--ros-args''" "a \<noteq> ''--''" "a \<in> set option_words"
    using "2.prems" by (auto split: if_splits)
  then show ?case
  proof cases
    case open_group
    then have "parse_loop rest True p = Inr q" using "2.prems" by simp
    with "2.IH"(1) open_group obtain os gs where "group_ok (Ros os)" "list_all group_ok gs"
      "rest = print_assignments os @ ''--'' # concat (map print_group gs)"
      "q = foldl collect_group (collect_group p (Ros os)) gs" by auto
    then have "list_all group_ok (Ros os # gs) \<and> a # rest = concat (map print_group (Ros os # gs)) \<and>
        q = foldl collect_group p (Ros os # gs)" using open_group by simp
    then show ?thesis by (simp only: open_group(2) if_False) blast
  next
    case close_group
    then have "parse_loop rest False p = Inr q" using "2.prems" by simp
    with "2.IH"(2) close_group obtain gs where "list_all group_ok gs"
      "rest = concat (map print_group gs)" "q = foldl collect_group p gs" by auto
    then have "group_ok (Ros []) \<and> list_all group_ok gs \<and>
        a # rest = print_assignments [] @ ''--'' # concat (map print_group gs) \<and>
        q = foldl collect_group (collect_group p (Ros [])) gs" using close_group by simp
    then show ?thesis by (simp only: close_group(2) if_True) blast
  next
    case plain
    let ?p = "p\<lparr>unparsed_arguments := unparsed_arguments p @ [a]\<rparr>"
    have "parse_loop rest False ?p = Inr q" using "2.prems" plain by simp
    with "2.IH"(3) plain obtain gs where "list_all group_ok gs"
      "rest = concat (map print_group gs)" "q = foldl collect_group ?p gs" by auto
    then have "list_all group_ok (Plain a # gs) \<and> a # rest = concat (map print_group (Plain a # gs)) \<and>
        q = foldl collect_group p (Plain a # gs)" using plain by simp
    then show ?thesis by (simp only: plain(1) if_False) blast
  next
    case opt
    obtain b rest' nv where r: "rest = b # rest'" "parse_assignment b = Inr nv"
      "parse_loop rest' True (record_assignment a nv p) = Inr q"
      using "2.prems" opt by (auto split: list.splits sum.splits)
    obtain n v where nv: "nv = (n, v)" by (cases nv)
    note b = parse_assignment_Inr [OF r(2) [unfolded nv]]
    have "\<exists>os gs. group_ok (Ros os) \<and> list_all group_ok gs \<and>
        rest' = print_assignments os @ ''--'' # concat (map print_group gs) \<and>
        q = foldl collect_group (collect_group (record_assignment a nv p) (Ros os)) gs"
      using "2.IH"(4) [of b rest' nv] opt r by simp
    then obtain os gs where "group_ok (Ros os)" "list_all group_ok gs"
      "rest' = print_assignments os @ ''--'' # concat (map print_group gs)"
      "q = foldl collect_group (collect_group (record_assignment a nv p) (Ros os)) gs" by blast
    then have "group_ok (Ros ((a, n, v) # os)) \<and> list_all group_ok gs \<and>
        a # rest = print_assignments ((a, n, v) # os) @ ''--'' # concat (map print_group gs) \<and>
        q = foldl collect_group (collect_group p (Ros ((a, n, v) # os))) gs"
      using opt(4) b r(1) by (simp add: nv)
    then show ?thesis by (simp only: opt(1) if_True) blast
  qed
qed

section \<open>Properties\<close>

text \<open>
  C7. Every name a node resolves for an endpoint is absolute, not the root, has no trailing or
  double slash and none of the excluded characters; the DDS names of its service endpoints map
  back to it with the right role in both runtime modes. Its topic name comes back in ROS 2 mode; in
  plain DDS mode it does exactly when the name does not end in \<^verbatim>\<open>_Request\<close> or \<^verbatim>\<open>_Reply\<close>.
\<close>

theorem endpoint_names_roundtrip:
  assumes "namespace_ok ns" and "resolve_remapped_name node ns rules v = Inr l"
  shows "name_ok l \<and>
    normalize_endpoint_name mode (service_topic_name mode l request) =
      Some \<lparr>logical_name = l, ep_role = (if request then ServiceRequest else ServiceResponse)\<rparr> \<and>
    (normalize_endpoint_name mode (dds_topic_name mode l) = Some \<lparr>logical_name = l, ep_role = Topic\<rparr> \<longleftrightarrow>
       mode = ROS2 \<or> (\<not> suffix ''_Request'' l \<and> \<not> suffix ''_Reply'' l))"
proof -
  have l: "name_ok l" by (rule resolve_remapped_name_ok [OF assms])
  show ?thesis using l normalize_service [OF l, of mode request] normalize_topic [OF l, of mode] by blast
qed

theorem endpoint_names_roundtrip_witness:
  "normalize_endpoint_name DDS (service_topic_name DDS ''/lab/add'' True) =
     Some \<lparr>logical_name = ''/lab/add'', ep_role = ServiceRequest\<rparr> \<and>
   normalize_endpoint_name DDS (dds_topic_name DDS ''/lab/add'') =
     Some \<lparr>logical_name = ''/lab/add'', ep_role = Topic\<rparr> \<and>
   normalize_endpoint_name DDS (dds_topic_name DDS ''/lab/a_Reply'') \<noteq>
     Some \<lparr>logical_name = ''/lab/a_Reply'', ep_role = Topic\<rparr>"
proof -
  have "namespace_ok ''/lab''" by (simp add: namespace_ok_def name_ok_def has_invalid_name_syntax_def)
  moreover have "resolve_remapped_name ''n'' ''/lab'' [] ''add'' = Inr ''/lab/add''"
    "resolve_remapped_name ''n'' ''/lab'' [] ''a_Reply'' = Inr ''/lab/a_Reply''"
    by (simp_all add: resolve_remapped_name_def resolve_name_def has_invalid_name_syntax_def)
  moreover have "\<not> suffix ''_Request'' ''/lab/add''" "\<not> suffix ''_Reply'' ''/lab/add''" "suffix ''_Reply'' ''/lab/a_Reply''"
    by (simp_all add: suffix_to_prefix)
  ultimately show ?thesis
    using endpoint_names_roundtrip [of "''/lab''" "''n''" "[]" "''add''" "''/lab/add''" DDS True]
      endpoint_names_roundtrip [of "''/lab''" "''n''" "[]" "''a_Reply''" "''/lab/a_Reply''" DDS True] by simp
qed

text \<open>
  The eight DDS endpoints of an action carry its name and their role: what discovery
  classifies from the wire is the action and the role the endpoint was created for.
\<close>

theorem action_endpoints_roundtrip:
  assumes "name_ok fqn" and "derive_action_endpoint_names fqn = Some n"
  shows "Option.bind (normalize_endpoint_name mode (wire_name mode (action_endpoint n r))) classify_action_endpoint =
           Some \<lparr>action_name = fqn, action_role = r\<rparr>"
  by (simp add: normalize_action_endpoint [OF assms] classify_derived [OF assms(2)])

theorem action_endpoints_roundtrip_witness:
  "Option.bind (normalize_endpoint_name ROS2 (wire_name ROS2 (action_endpoint
       (the (derive_action_endpoint_names ''/arm/move'')) Feedback))) classify_action_endpoint =
     Some \<lparr>action_name = ''/arm/move'', action_role = Feedback\<rparr>"
  by (rule action_endpoints_roundtrip)
    (simp_all add: name_ok_def has_invalid_name_syntax_def derive_action_endpoint_names_def Let_def)

text \<open>
  Remapping: a name resolves exactly when every rule that addresses the node is well formed,
  and then to the target of the last rule whose source is the requested name (to the requested
  name itself without such a rule); rules never chain.
\<close>

theorem remap_last_rule_wins:
  "resolve_remapped_name node ns rules v = Inr l \<longleftrightarrow>
     (\<exists>original. resolve_name ns v = Inr original \<and>
        list_all (remap_admissible (drop_slash node) (node_fqn node ns) ns original) rules \<and>
        (case filter (remap_hit (drop_slash node) (node_fqn node ns) ns original) rules of
           [] \<Rightarrow> l = original
         | hits \<Rightarrow> resolve_name ns (remap_to (last hits)) = Inr l))"
  by (auto simp: resolve_remapped_name_def remap_loop_char)

text \<open>
  The argument parser accepts exactly the printed command lines: sequences of plain words and
  of option groups closed by \<^verbatim>\<open>--\<close>, and returns what they record in order.
\<close>

theorem parse_arguments_grammar:
  "parse_arguments args = Inr p \<longleftrightarrow>
     (\<exists>gs. list_all group_ok gs \<and> args = concat (map print_group gs) \<and> p = foldl collect_group no_arguments gs)"
  using parse_loop_print [of _ no_arguments] parse_loop_parsed [of args False no_arguments p]
  by (auto simp: parse_arguments_def)

end
