(* ===== verification/Parameters.thy ===== *)
theory Parameters
  imports Doubles Names "HOL-Library.List_Lexorder" "HOL-Library.Char_ord"
begin

text \<open>
  The parameters of a node: \<^verbatim>\<open>dmw/parameter*.hpp\<close>, \<^verbatim>\<open>impl/parameter_store.*\<close> and the guarded
  operations of \<^verbatim>\<open>impl/node_impl.cpp\<close>. The store is a \<^verbatim>\<open>std::map\<close>, an ordered association list;
  each operation runs under the mutex of the store.
\<close>

section \<open>Values\<close>

datatype ParameterType =
    TNotSet | TBool | TInteger | TDouble | TString
  | TByteArray | TBoolArray | TIntegerArray | TDoubleArray | TStringArray

datatype ParameterValue =
    NotSet | BoolV bool | IntegerV int | DoubleV Double | StringV string
  | ByteArrayV "8 word list" | BoolArrayV "bool list" | IntegerArrayV "int list"
  | DoubleArrayV "Double list" | StringArrayV "string list"

fun value_type :: "ParameterValue \<Rightarrow> ParameterType" where
  "value_type NotSet = TNotSet"
| "value_type (BoolV _) = TBool"
| "value_type (IntegerV _) = TInteger"
| "value_type (DoubleV _) = TDouble"
| "value_type (StringV _) = TString"
| "value_type (ByteArrayV _) = TByteArray"
| "value_type (BoolArrayV _) = TBoolArray"
| "value_type (IntegerArrayV _) = TIntegerArray"
| "value_type (DoubleArrayV _) = TDoubleArray"
| "value_type (StringArrayV _) = TStringArray"

definition is_set :: "ParameterValue \<Rightarrow> bool" where
  "is_set v \<longleftrightarrow> value_type v \<noteq> TNotSet"

text \<open>The equality of the variant: doubles compare by the IEEE rules, so \<^verbatim>\<open>NaN\<close> differs from itself.\<close>

fun value_eq :: "ParameterValue \<Rightarrow> ParameterValue \<Rightarrow> bool" where
  "value_eq (DoubleV x) (DoubleV y) = deq x y"
| "value_eq (DoubleArrayV xs) (DoubleArrayV ys) = list_all2 deq xs ys"
| "value_eq v w = (v = w)"

record Parameter =
  par_name :: string
  par_value :: ParameterValue

record IntegerRange =
  ir_from :: int
  ir_to :: int
  ir_step :: u64

record FloatingPointRange =
  fr_from :: Double
  fr_to :: Double
  fr_step :: Double

record ParameterDescriptor =
  description :: string
  additional_constraints :: string
  read_only :: bool
  dynamic_typing :: bool
  integer_ranges :: "IntegerRange list"
  floating_point_ranges :: "FloatingPointRange list"

definition default_descriptor :: ParameterDescriptor where
  "default_descriptor = \<lparr>description = [], additional_constraints = [], read_only = False,
     dynamic_typing = False, integer_ranges = [], floating_point_ranges = []\<rparr>"

record ParameterChangeSet =
  new_parameters :: "Parameter list"
  changed_parameters :: "Parameter list"
  deleted_parameters :: "Parameter list"

definition no_changes :: ParameterChangeSet where
  "no_changes = \<lparr>new_parameters = [], changed_parameters = [], deleted_parameters = []\<rparr>"

lemma no_changes_simps [simp]:
  "new_parameters no_changes = []" "changed_parameters no_changes = []" "deleted_parameters no_changes = []"
  by (simp_all add: no_changes_def)

definition changes_empty :: "ParameterChangeSet \<Rightarrow> bool" where
  "changes_empty c \<longleftrightarrow> new_parameters c = [] \<and> changed_parameters c = [] \<and> deleted_parameters c = []"

record ParameterListResult =
  list_names :: "string list"
  list_prefixes :: "string list"

lemma value_eq_eq: "value_eq v w \<Longrightarrow> v = w"
proof (cases "(v, w)" rule: value_eq.cases)
  case (2 xs ys)
  assume "value_eq v w"
  with 2 have "list_all2 deq xs ys" by simp
  then have "xs = ys" by (induction rule: list_all2_induct) (auto dest: deq_eq)
  with 2 show ?thesis by simp
qed (auto dest: deq_eq)

section \<open>Literals\<close>

definition is_token_start :: "char \<Rightarrow> bool" where
  "is_token_start c \<longleftrightarrow> char_in (CHR ''a'') (CHR ''z'') c \<or> char_in (CHR ''A'') (CHR ''Z'') c \<or> c = CHR ''_''"

definition is_token_char :: "char \<Rightarrow> bool" where
  "is_token_char c \<longleftrightarrow> is_token_start c \<or> is_digit c"

definition positive_limit :: u64 where "positive_limit = 9223372036854775807"
definition magnitude_cap :: u64 where "magnitude_cap = positive_limit + 1"

text \<open>The digit loop on \<^verbatim>\<open>uint64_t\<close>: \<open>None\<close> is the early return.\<close>

fun magnitude_loop :: "u64 \<Rightarrow> string \<Rightarrow> u64 option" where
  "magnitude_loop magnitude [] = Some magnitude"
| "magnitude_loop magnitude (c # s) =
     (if \<not> is_digit c then None
      else let digit = (of_nat (digit_value c) :: u64)
           in if (magnitude_cap - digit) div 10 < magnitude then None
              else magnitude_loop (magnitude * 10 + digit) s)"

definition parses_as_integer :: "string \<Rightarrow> int option" where
  "parses_as_integer text =
     (if text = [] then None
      else let negative = (hd text = CHR ''-'');
               digits = (if hd text = CHR ''-'' \<or> hd text = CHR ''+'' then tl text else text)
           in if digits = [] then None
              else (case magnitude_loop 0 digits of
                      None \<Rightarrow> None
                    | Some magnitude \<Rightarrow>
                        if \<not> negative then (if positive_limit < magnitude then None else Some (uint magnitude))
                        else if magnitude = magnitude_cap then Some int64_min
                        else Some (- uint magnitude)))"

text \<open>\<^verbatim>\<open>strtod\<close> reads a C string: up to the first NUL.\<close>

definition parses_as_double :: "string \<Rightarrow> Double option" where
  "parses_as_double text =
     (if text = [] then None
      else if \<not> list_ex (\<lambda>c. c = CHR ''.'' \<or> c = CHR ''e'' \<or> c = CHR ''E'') text then None
      else let (parsed, rest) = strtod (takeWhile (\<lambda>c. c \<noteq> CHR 0x00) text)
           in if rest \<noteq> [] then None else Some parsed)"

definition parse_parameter_literal :: "string \<Rightarrow> ParameterValue" where
  "parse_parameter_literal text =
     (if text = ''true'' then BoolV True
      else if text = ''false'' then BoolV False
      else case parses_as_integer text of
             Some i \<Rightarrow> IntegerV i
           | None \<Rightarrow> (case parses_as_double text of Some d \<Rightarrow> DoubleV d | None \<Rightarrow> StringV text))"

text \<open>The reference: an optional sign and a digit string that denotes a 64-bit integer.\<close>

definition int_literal :: "string \<Rightarrow> int option" where
  "int_literal text =
     (let (neg, ds) = split_sign text; v = int (horner 10 digit_value ds)
      in if ds \<noteq> [] \<and> list_all is_digit ds \<and> in_int64 (if neg then - v else v)
         then Some (if neg then - v else v) else None)"

lemma digit_value_bound: "is_digit c \<Longrightarrow> digit_value c < 10"
  by (auto simp: is_digit_def char_in_def digit_value_def)

lemma horner_snoc_ge: "m \<le> foldl (\<lambda>m c. m * 10 + digit_value c) (m::nat) s"
proof (induction s arbitrary: m)
  case Nil
  then show ?case by simp
next
  case (Cons c s)
  have "m \<le> m * 10 + digit_value c" by simp
  also have "\<dots> \<le> foldl (\<lambda>m c. m * 10 + digit_value c) (m * 10 + digit_value c) s" by (rule Cons.IH)
  finally show ?case by simp
qed

lemma magnitude_cap_unat [simp]: "unat magnitude_cap = 2 ^ 63"
  by (simp add: magnitude_cap_def positive_limit_def)

lemma digit_guard:
  assumes "d < 10"
  shows "(magnitude_cap - of_nat d) div 10 < (m :: u64) \<longleftrightarrow> 2 ^ 63 < unat m * 10 + d"
proof -
  have u: "unat (of_nat d :: u64) = d" using assms by (simp add: unat_of_nat take_bit_nat_eq_self)
  have "of_nat d \<le> (magnitude_cap :: u64)" using assms u by (simp add: word_le_nat_alt)
  then have "unat ((magnitude_cap - of_nat d) div 10) = (2 ^ 63 - d) div 10"
    by (simp add: unat_div unat_sub u)
  then have "(magnitude_cap - of_nat d) div 10 < m \<longleftrightarrow> (2 ^ 63 - d) div 10 < unat m"
    by (simp add: word_less_nat_alt)
  also have "\<dots> \<longleftrightarrow> 2 ^ 63 < unat m * 10 + d" using assms by auto
  finally show ?thesis .
qed

lemma magnitude_step:
  assumes "d < 10" and "unat (m :: u64) * 10 + d \<le> 2 ^ 63"
  shows "unat (m * 10 + of_nat d) = unat m * 10 + d"
proof -
  have "m * 10 + of_nat d = of_nat (unat m * 10 + d)" by simp
  also have "unat \<dots> = unat m * 10 + d" using assms(2) by (simp only: unat_of_nat take_bit_nat_eq_self_iff) simp
  finally show ?thesis .
qed

lemma magnitude_loop_char:
  "unat m \<le> 2 ^ 63 \<Longrightarrow> magnitude_loop m s =
     (if list_all is_digit s \<and> foldl (\<lambda>m c. m * 10 + digit_value c) (unat m) s \<le> 2 ^ 63
      then Some (of_nat (foldl (\<lambda>m c. m * 10 + digit_value c) (unat m) s)) else None)"
proof (induction s arbitrary: m)
  case Nil
  then show ?case by simp
next
  case (Cons c s)
  show ?case
  proof (cases "is_digit c \<and> unat m * 10 + digit_value c \<le> 2 ^ 63")
    case True
    with digit_value_bound have d: "digit_value c < 10" by simp
    from True d have u: "unat (m * 10 + of_nat (digit_value c)) = unat m * 10 + digit_value c"
      by (intro magnitude_step) auto
    with True have "unat (m * 10 + of_nat (digit_value c)) \<le> 2 ^ 63" by simp
    note ih = Cons.IH [OF this, unfolded u]
    from True d show ?thesis by (simp add: digit_guard [OF d] Let_def ih)
  next
    case False
    show ?thesis
    proof (cases "is_digit c")
      case True
      with False have big: "2 ^ 63 < unat m * 10 + digit_value c" by simp
      with horner_snoc_ge [of "unat m * 10 + digit_value c" s]
      have "\<not> foldl (\<lambda>m c. m * 10 + digit_value c) (unat m * 10 + digit_value c) s \<le> 2 ^ 63" by linarith
      with big True show ?thesis by (simp add: digit_guard [OF digit_value_bound [OF True]] Let_def)
    qed simp
  qed
qed

lemma parses_as_integer_eq: "parses_as_integer text = int_literal text"
proof (cases "text = []")
  case True
  then show ?thesis by (simp add: parses_as_integer_def int_literal_def split_sign_def horner_def)
next
  case False
  obtain neg ds where sg: "split_sign text = (neg, ds)" by (cases "split_sign text")
  have n: "(hd text = CHR ''-'') = neg"
    and d: "(if hd text = CHR ''-'' \<or> hd text = CHR ''+'' then tl text else text) = ds"
    using False sg by (auto simp: split_sign_def neq_Nil_conv split: if_splits)
  let ?h = "foldl (\<lambda>m c. m * 10 + digit_value c) 0 ds"
  have loop: "magnitude_loop 0 ds = (if list_all is_digit ds \<and> ?h \<le> 2 ^ 63 then Some (of_nat ?h) else None)"
    using magnitude_loop_char [of 0 ds] by simp
  have u: "uint (of_nat ?h :: u64) = int ?h" if "?h \<le> 2 ^ 63"
    using that by (simp only: uint_nat unat_of_nat take_bit_nat_eq_self_iff) (simp add: take_bit_nat_eq_self)
  have cap: "(of_nat ?h :: u64) = magnitude_cap \<longleftrightarrow> ?h = 2 ^ 63" if "?h \<le> 2 ^ 63"
    using u [OF that] by (simp add: word_uint_eq_iff magnitude_cap_def positive_limit_def)
  have pos: "positive_limit < (of_nat ?h :: u64) \<longleftrightarrow> 2 ^ 63 \<le> ?h" if "?h \<le> 2 ^ 63"
    using u [OF that] by (simp add: word_less_def positive_limit_def, linarith)
  show ?thesis
    using False n d u cap pos
    by (auto simp: parses_as_integer_def int_literal_def sg Let_def loop horner_def int64_defs)
qed

section \<open>Names\<close>

fun name_loop :: "bool \<Rightarrow> string \<Rightarrow> unit result" where
  "name_loop at_start [] = (if at_start then failure InvalidName else success ())"
| "name_loop at_start (c # s) =
     (if c \<noteq> CHR ''.'' then
        (if at_start then (if \<not> is_token_start c then failure InvalidName else name_loop False s)
         else if \<not> is_token_char c then failure InvalidName
         else name_loop False s)
      else if at_start then failure InvalidName
      else name_loop True s)"

definition validate_parameter_name :: "string \<Rightarrow> unit result" where
  "validate_parameter_name name =
     (if name = [] then failure InvalidName
      else if hd name = CHR ''.'' \<or> last name = CHR ''.'' then failure InvalidName
      else name_loop True name)"

definition count_tokens :: "string \<Rightarrow> nat" where
  "count_tokens name = foldl (\<lambda>count c. if c = CHR ''.'' then count + 1 else count) 1 name"

fun truncate_loop :: "nat \<Rightarrow> nat \<Rightarrow> string \<Rightarrow> string" where
  "truncate_loop seen tokens [] = []"
| "truncate_loop seen tokens (c # s) =
     (if c = CHR ''.'' then (if seen + 1 = tokens then [] else c # truncate_loop (seen + 1) tokens s)
      else c # truncate_loop seen tokens s)"

definition truncate_to_depth :: "string \<Rightarrow> nat \<Rightarrow> string" where
  "truncate_to_depth name tokens = truncate_loop 0 tokens name"

text \<open>The reference: the tokens between the dots, each an identifier.\<close>

fun split_dots :: "string \<Rightarrow> string list" where
  "split_dots [] = [[]]"
| "split_dots (c # s) = (if c = CHR ''.'' then [] # split_dots s
     else (c # hd (split_dots s)) # tl (split_dots s))"

fun join_dots :: "string list \<Rightarrow> string" where
  "join_dots [] = []"
| "join_dots [t] = t"
| "join_dots (t # ts) = t @ CHR ''.'' # join_dots ts"

definition token_ok :: "string \<Rightarrow> bool" where
  "token_ok t \<longleftrightarrow> t \<noteq> [] \<and> is_token_start (hd t) \<and> list_all is_token_char (tl t)"

lemma split_dots_nonempty [simp]: "split_dots s \<noteq> []"
  by (cases s) auto

lemma dot_not_token [simp]: "\<not> is_token_char (CHR ''.'')" "\<not> is_token_start (CHR ''.'')"
  by (simp_all add: is_token_char_def is_token_start_def is_digit_def char_in_def)

lemma name_loop_tokens:
  "name_loop True s = Inr () \<longleftrightarrow> list_all token_ok (split_dots s)"
  "name_loop False s = Inr () \<longleftrightarrow>
     list_all is_token_char (hd (split_dots s)) \<and> list_all token_ok (tl (split_dots s))"
proof (induction s)
  case Nil
  {
    case 1
    then show ?case by (simp add: token_ok_def)
  next
    case 2
    then show ?case by simp
  }
next
  case (Cons c s)
  have ne: "list_all token_ok (split_dots s) \<longleftrightarrow>
      token_ok (hd (split_dots s)) \<and> list_all token_ok (tl (split_dots s))"
    by (cases "split_dots s") auto
  {
    case 1
    then show ?case using Cons.IH by (auto simp: token_ok_def)
  next
    case 2
    then show ?case using Cons.IH ne by auto
  }
qed

lemma valid_name_iff: "validate_parameter_name name = Inr () \<longleftrightarrow> list_all token_ok (split_dots name)"
proof -
  have "name_loop True name = Inr () \<Longrightarrow> name \<noteq> [] \<and> hd name \<noteq> CHR ''.''"
    by (cases name) (auto split: if_splits)
  moreover have "name_loop b name = Inr () \<Longrightarrow> name \<noteq> [] \<Longrightarrow> last name \<noteq> CHR ''.''" for b
  proof (induction name arbitrary: b)
    case (Cons c s)
    then show ?case by (cases "s = []") (auto split: if_splits)
  qed simp
  ultimately show ?thesis
    by (auto simp: validate_parameter_name_def name_loop_tokens(1) [symmetric])
qed

section \<open>Overrides and ranges\<close>

definition select_parameter_overrides :: "ParameterOverride list \<Rightarrow> string \<Rightarrow> string \<Rightarrow> Parameter list" where
  "select_parameter_overrides os name fqn =
     List.map_filter (\<lambda>ov. case str_find '':'' (override_name ov) of
         None \<Rightarrow> Some \<lparr>par_name = override_name ov, par_value = parse_parameter_literal (override_value ov)\<rparr>
       | Some separator \<Rightarrow>
           let scope = drop_slash (take separator (override_name ov))
           in if scope = [] \<or> (scope \<noteq> name \<and> scope \<noteq> drop_slash fqn) then None
              else Some \<lparr>par_name = drop (separator + 1) (override_name ov),
                         par_value = parse_parameter_literal (override_value ov)\<rparr>) os"

text \<open>The offset is computed on \<^verbatim>\<open>uint64_t\<close>.\<close>

definition integer_value_is_acceptable :: "int \<Rightarrow> IntegerRange \<Rightarrow> bool" where
  "integer_value_is_acceptable v r =
     (if ir_to r < ir_from r then False
      else if v < ir_from r \<or> ir_to r < v then False
      else if ir_step r \<noteq> 0 \<and> (word_of_int v - word_of_int (ir_from r)) mod ir_step r \<noteq> 0 then False
      else True)"

definition floating_epsilon :: Double where "floating_epsilon = rnd (1 / 10 ^ 9)"

definition double_value_is_acceptable :: "Double \<Rightarrow> FloatingPointRange \<Rightarrow> bool" where
  "double_value_is_acceptable v r =
     (if v = NaN then False
      else if dless (fr_to r) (fr_from r) then False
      else if dless v (dsub (fr_from r) floating_epsilon) \<or> dless (dadd (fr_to r) floating_epsilon) v then False
      else if dless (Fin 0) (fr_step r)
      then (let ratio = ddiv (dsub v (fr_from r)) (fr_step r)
            in \<not> dless floating_epsilon (dabs (dsub ratio (dround ratio))))
      else True)"

definition validate_descriptor :: "ParameterDescriptor \<Rightarrow> ParameterValue \<Rightarrow> unit result" where
  "validate_descriptor d direct_value =
     (if list_ex (\<lambda>r. ir_to r < ir_from r) (integer_ranges d) then failure InvalidArgument
      else if list_ex (\<lambda>r. \<not> dle (fr_from r) (fr_to r) \<or> dless (fr_step r) (Fin 0) \<or>
                            (\<not> dfinite (fr_step r) \<and> \<not> deq (fr_step r) (Fin 0))) (floating_point_ranges d)
      then failure InvalidArgument
      else if \<not> dynamic_typing d \<and> \<not> is_set direct_value then failure InvalidArgument
      else success ())"

definition validate_value_against_descriptor :: "ParameterValue \<Rightarrow> ParameterDescriptor \<Rightarrow> unit result" where
  "validate_value_against_descriptor v d = (case v of
       IntegerV i \<Rightarrow>
         if integer_ranges d \<noteq> [] \<and> \<not> list_ex (integer_value_is_acceptable i) (integer_ranges d)
         then failure InvalidArgument else success ()
     | DoubleV x \<Rightarrow>
         if floating_point_ranges d \<noteq> [] \<and> \<not> list_ex (double_value_is_acceptable x) (floating_point_ranges d)
         then failure InvalidArgument else success ()
     | _ \<Rightarrow> success ())"

text \<open>Without signed overflow: on 64-bit values the unsigned offset is the mathematical one.\<close>

lemma acceptable_iff:
  assumes "in_int64 v" and "in_int64 (ir_from r)"
  shows "integer_value_is_acceptable v r \<longleftrightarrow>
     ir_from r \<le> v \<and> v \<le> ir_to r \<and> (ir_step r = 0 \<or> uint (ir_step r) dvd (v - ir_from r))"
proof (cases "ir_from r \<le> v")
  case True
  have "uint (word_of_int v - word_of_int (ir_from r) :: u64) = v - ir_from r"
    using assms True by (simp add: of_int_diff [symmetric] uint_word_of_int take_bit_int_eq_self int64_defs del: of_int_diff)
  moreover have "(word_of_int v - word_of_int (ir_from r)) mod ir_step r = (0 :: u64) \<longleftrightarrow>
      uint (word_of_int v - word_of_int (ir_from r) :: u64) mod uint (ir_step r) = 0"
    by (simp add: word_uint_eq_iff uint_mod)
  ultimately show ?thesis
    using True by (auto simp: integer_value_is_acceptable_def dvd_eq_mod_eq_0)
next
  case False
  then show ?thesis by (simp add: integer_value_is_acceptable_def)
qed

section \<open>The store\<close>

record StoredParameter =
  sp_value :: ParameterValue
  sp_descriptor :: ParameterDescriptor

record ParameterStoreState =
  allow_undeclared :: bool
  overrides :: "Parameter list"
  parameters :: "(string \<times> StoredParameter) list"
  pending_changes :: ParameterChangeSet

definition new_store :: "bool \<Rightarrow> Parameter list \<Rightarrow> ParameterStoreState" where
  "new_store allow os = \<lparr>allow_undeclared = allow, overrides = os, parameters = [], pending_changes = no_changes\<rparr>"

definition validate_assignment_locked ::
  "string \<Rightarrow> ParameterValue \<Rightarrow> bool \<Rightarrow> ParameterStoreState \<Rightarrow> unit result" where
  "validate_assignment_locked name v implicit_declare s =
     rbind (validate_parameter_name name) (\<lambda>_. case map_of (parameters s) name of
         None \<Rightarrow> if \<not> allow_undeclared s \<and> \<not> implicit_declare then failure NotFound else success ()
       | Some found \<Rightarrow>
           if read_only (sp_descriptor found) then failure InvalidState
           else if \<not> dynamic_typing (sp_descriptor found) \<and> is_set (sp_value found) \<and>
                   value_type (sp_value found) \<noteq> value_type v
           then failure InvalidArgument
           else validate_value_against_descriptor v (sp_descriptor found))"

fun validate_names_loop :: "string set \<Rightarrow> Parameter list \<Rightarrow> unit result" where
  "validate_names_loop seen [] = success ()"
| "validate_names_loop seen (p # ps) =
     rbind (validate_parameter_name (par_name p)) (\<lambda>_.
       if par_name p \<in> seen then failure InvalidArgument
       else validate_names_loop (insert (par_name p) seen) ps)"

definition validate_name_and_duplicates :: "Parameter list \<Rightarrow> unit result" where
  "validate_name_and_duplicates ps = validate_names_loop {} ps"

definition declare_locked ::
  "string \<Rightarrow> ParameterValue \<Rightarrow> ParameterDescriptor \<Rightarrow> bool \<Rightarrow> ParameterStoreState \<Rightarrow>
     Parameter result \<times> ParameterStoreState" where
  "declare_locked name default_value d ignore_override s =
     (let effective = (if ignore_override then default_value
            else case find (\<lambda>p. par_name p = name) (overrides s) of
                   None \<Rightarrow> default_value | Some p \<Rightarrow> par_value p)
      in if \<not> dynamic_typing d \<and> is_set effective \<and> is_set default_value \<and>
            value_type effective \<noteq> value_type default_value
         then (failure InvalidArgument, s)
         else case validate_value_against_descriptor effective d of
                Inl e \<Rightarrow> (failure e, s)
              | Inr _ \<Rightarrow> (success \<lparr>par_name = name, par_value = effective\<rparr>,
                  s\<lparr>parameters := om_emplace name \<lparr>sp_value = effective, sp_descriptor = d\<rparr> (parameters s)\<rparr>))"

definition pp_declare ::
  "string \<Rightarrow> ParameterValue \<Rightarrow> ParameterDescriptor \<Rightarrow> bool \<Rightarrow> ParameterStoreState \<Rightarrow>
     Parameter result \<times> ParameterStoreState" where
  "pp_declare name default_value d ignore_override s =
     (case rbind (validate_parameter_name name) (\<lambda>_. validate_descriptor d default_value) of
        Inl e \<Rightarrow> (failure e, s)
      | Inr _ \<Rightarrow>
          if map_of (parameters s) name \<noteq> None then (failure AlreadyExists, s)
          else case declare_locked name default_value d ignore_override s of
                 (Inl e, s1) \<Rightarrow> (failure e, s1)
               | (Inr declared, s1) \<Rightarrow> (success declared,
                   s1\<lparr>pending_changes := (pending_changes s1)
                        \<lparr>new_parameters := new_parameters (pending_changes s1) @ [declared]\<rparr>\<rparr>))"

definition pp_undeclare :: "string \<Rightarrow> ParameterStoreState \<Rightarrow> unit result \<times> ParameterStoreState" where
  "pp_undeclare name s =
     (case validate_parameter_name name of
        Inl e \<Rightarrow> (failure e, s)
      | Inr _ \<Rightarrow> (case map_of (parameters s) name of
            None \<Rightarrow> (failure NotFound, s)
          | Some found \<Rightarrow> (success (), s\<lparr>parameters := um_erase name (parameters s),
              pending_changes := (pending_changes s)\<lparr>deleted_parameters := deleted_parameters (pending_changes s) @
                [\<lparr>par_name = name, par_value = sp_value found\<rparr>]\<rparr>\<rparr>)))"

definition pp_has :: "string \<Rightarrow> ParameterStoreState \<Rightarrow> bool result" where
  "pp_has name s = rbind (validate_parameter_name name) (\<lambda>_. success (map_of (parameters s) name \<noteq> None))"

definition pp_get :: "string \<Rightarrow> ParameterStoreState \<Rightarrow> Parameter result" where
  "pp_get name s = rbind (validate_parameter_name name) (\<lambda>_. case map_of (parameters s) name of
       None \<Rightarrow> if allow_undeclared s then success \<lparr>par_name = name, par_value = NotSet\<rparr> else failure NotFound
     | Some found \<Rightarrow> success \<lparr>par_name = name, par_value = sp_value found\<rparr>)"

fun pp_get_many :: "string list \<Rightarrow> ParameterStoreState \<Rightarrow> Parameter list result" where
  "pp_get_many [] s = success []"
| "pp_get_many (name # names) s =
     rbind (pp_get name s) (\<lambda>v. rbind (pp_get_many names s) (\<lambda>vs. success (v # vs)))"

definition pp_describe :: "string \<Rightarrow> ParameterStoreState \<Rightarrow> ParameterDescriptor result" where
  "pp_describe name s = rbind (validate_parameter_name name) (\<lambda>_. case map_of (parameters s) name of
       None \<Rightarrow> failure NotFound | Some found \<Rightarrow> success (sp_descriptor found))"

definition list_matches :: "string list \<Rightarrow> string \<Rightarrow> bool" where
  "list_matches pres name \<longleftrightarrow> pres = [] \<or>
     list_ex (\<lambda>p. p = [] \<or> name = p \<or>
        (length p < length name \<and> take (length p) name = p \<and> name ! length p = CHR ''.'')) pres"

definition list_entry :: "nat \<Rightarrow> string \<Rightarrow> string list \<times> string list \<Rightarrow> string list \<times> string list" where
  "list_entry depth name out =
     (if depth = 0 \<or> count_tokens name \<le> depth then (insort_insert name (fst out), snd out)
      else (fst out, insort_insert (truncate_to_depth name depth) (snd out)))"

fun list_loop ::
  "string list \<Rightarrow> nat \<Rightarrow> (string \<times> StoredParameter) list \<Rightarrow> string list \<times> string list \<Rightarrow> string list \<times> string list" where
  "list_loop pres depth [] out = out"
| "list_loop pres depth (e # es) out =
     list_loop pres depth es (if \<not> list_matches pres (fst e) then out else list_entry depth (fst e) out)"

fun validate_prefixes :: "string list \<Rightarrow> unit result" where
  "validate_prefixes [] = success ()"
| "validate_prefixes (p # ps) =
     rbind (if p \<noteq> [] then validate_parameter_name p else success ()) (\<lambda>_. validate_prefixes ps)"

definition pp_list :: "string list \<Rightarrow> nat \<Rightarrow> ParameterStoreState \<Rightarrow> ParameterListResult result" where
  "pp_list pres depth s =
     rbind (validate_prefixes pres) (\<lambda>_.
       let (names, pre) = list_loop pres depth (parameters s) ([], [])
       in success \<lparr>list_names = names, list_prefixes = pre\<rparr>)"

fun validate_all :: "Parameter list \<Rightarrow> ParameterStoreState \<Rightarrow> unit result" where
  "validate_all [] s = success ()"
| "validate_all (p # ps) s =
     rbind (validate_assignment_locked (par_name p) (par_value p) False s) (\<lambda>_. validate_all ps s)"

definition pp_validate :: "Parameter list \<Rightarrow> ParameterStoreState \<Rightarrow> unit result" where
  "pp_validate ps s = rbind (validate_name_and_duplicates ps) (\<lambda>_. validate_all ps s)"

text \<open>The candidate map and the delta, built one assignment at a time.\<close>

definition apply_assignment ::
  "Parameter \<Rightarrow> (string \<times> StoredParameter) list \<times> ParameterChangeSet \<Rightarrow>
     (string \<times> StoredParameter) list \<times> ParameterChangeSet" where
  "apply_assignment p cd = (case cd of (candidate, delta) \<Rightarrow>
     (case map_of candidate (par_name p) of
        None \<Rightarrow> (om_emplace (par_name p) \<lparr>sp_value = par_value p, sp_descriptor = default_descriptor\<rparr> candidate,
                 delta\<lparr>new_parameters := new_parameters delta @ [p]\<rparr>)
      | Some found \<Rightarrow>
          if value_eq (sp_value found) (par_value p) then (candidate, delta)
          else (um_modify (par_name p) (\<lambda>e. e\<lparr>sp_value := par_value p\<rparr>) candidate,
                delta\<lparr>changed_parameters := changed_parameters delta @ [p]\<rparr>)))"

definition pp_set_atomically ::
  "Parameter list \<Rightarrow> ParameterStoreState \<Rightarrow> ParameterChangeSet result \<times> ParameterStoreState" where
  "pp_set_atomically ps s =
     (case rbind (validate_name_and_duplicates ps) (\<lambda>_. validate_all ps s) of
        Inl e \<Rightarrow> (failure e, s)
      | Inr _ \<Rightarrow>
          let (candidate, delta) = fold apply_assignment ps (parameters s, no_changes);
              pending = pending_changes s
          in (success delta, s\<lparr>parameters := candidate, pending_changes := pending
                \<lparr>new_parameters := new_parameters pending @ new_parameters delta,
                 changed_parameters := changed_parameters pending @ changed_parameters delta\<rparr>\<rparr>))"

definition pp_take_changes :: "ParameterStoreState \<Rightarrow> ParameterChangeSet result \<times> ParameterStoreState" where
  "pp_take_changes s = (success (pending_changes s), s\<lparr>pending_changes := no_changes\<rparr>)"

section \<open>The operations of the node\<close>

text \<open>
  Arguments are validated before the context is asked for an operation, so a malformed request
  fails the same way before and after shutdown. \<open>shut\<close> is what \<^verbatim>\<open>try_acquire_operation\<close> found.
\<close>

definition node_declare_parameter where
  "node_declare_parameter shut name default_value d ignore_override s =
     (case rbind (validate_parameter_name name) (\<lambda>_. validate_descriptor d default_value) of
        Inl e \<Rightarrow> (failure e, s)
      | Inr _ \<Rightarrow> if shut then (failure ContextShutdown, s)
                else pp_declare name default_value d ignore_override s)"

definition node_undeclare_parameter where
  "node_undeclare_parameter shut name s =
     (case validate_parameter_name name of
        Inl e \<Rightarrow> (failure e, s)
      | Inr _ \<Rightarrow> if shut then (failure ContextShutdown, s) else pp_undeclare name s)"

definition node_has_parameter where
  "node_has_parameter shut name s =
     rbind (validate_parameter_name name) (\<lambda>_. if shut then failure ContextShutdown else pp_has name s)"

definition node_get_parameter where
  "node_get_parameter shut name s =
     rbind (validate_parameter_name name) (\<lambda>_. if shut then failure ContextShutdown else pp_get name s)"

fun validate_names :: "string list \<Rightarrow> unit result" where
  "validate_names [] = success ()"
| "validate_names (n # ns) = rbind (validate_parameter_name n) (\<lambda>_. validate_names ns)"

definition node_get_parameters where
  "node_get_parameters shut names s =
     rbind (validate_names names) (\<lambda>_. if shut then failure ContextShutdown else pp_get_many names s)"

definition node_describe_parameter where
  "node_describe_parameter shut name s =
     rbind (validate_parameter_name name) (\<lambda>_. if shut then failure ContextShutdown else pp_describe name s)"

definition node_list_parameters where
  "node_list_parameters shut pres depth s =
     rbind (validate_prefixes pres) (\<lambda>_. if shut then failure ContextShutdown else pp_list pres depth s)"

definition node_validate_parameters where
  "node_validate_parameters shut ps s =
     rbind (validate_name_and_duplicates ps) (\<lambda>_. if shut then failure ContextShutdown else pp_validate ps s)"

definition node_set_parameters_atomically where
  "node_set_parameters_atomically shut ps s =
     (case validate_name_and_duplicates ps of
        Inl e \<Rightarrow> (failure e, s)
      | Inr _ \<Rightarrow> if shut then (failure ContextShutdown, s) else pp_set_atomically ps s)"

definition node_take_parameter_changes where
  "node_take_parameter_changes shut s =
     (if shut then (failure ContextShutdown, s) else pp_take_changes s)"

section \<open>Facts about the loops\<close>

definition valid_name :: "string \<Rightarrow> bool" where
  "valid_name n \<longleftrightarrow> list_all token_ok (split_dots n)"

lemma validate_name [simp]: "validate_parameter_name n = Inr u \<longleftrightarrow> valid_name n"
  using valid_name_iff [of n] by (simp add: valid_name_def)

lemma validate_name_fails [dest]: "validate_parameter_name n = Inl e \<Longrightarrow> \<not> valid_name n"
  using validate_name [of n "()"] by auto

lemma validate_names_loop_iff:
  "validate_names_loop seen ps = Inr u \<longleftrightarrow>
     list_all (\<lambda>p. valid_name (par_name p) \<and> par_name p \<notin> seen) ps \<and> distinct (map par_name ps)"
  by (induction ps arbitrary: seen) (auto simp: list_all_iff image_iff)

lemma validate_all_iff:
  "validate_all ps s = Inr u \<longleftrightarrow>
     list_all (\<lambda>p. validate_assignment_locked (par_name p) (par_value p) False s = Inr ()) ps"
  by (induction ps) auto

definition assigned :: "StoredParameter option \<Rightarrow> ParameterValue \<Rightarrow> StoredParameter" where
  "assigned old v = (case old of
       None \<Rightarrow> \<lparr>sp_value = v, sp_descriptor = default_descriptor\<rparr>
     | Some e \<Rightarrow> if value_eq (sp_value e) v then e else e\<lparr>sp_value := v\<rparr>)"

definition assign_all ::
  "Parameter list \<Rightarrow> (string \<Rightarrow> StoredParameter option) \<Rightarrow> string \<Rightarrow> StoredParameter option" where
  "assign_all ps m n = (case find (\<lambda>p. par_name p = n) ps of
       None \<Rightarrow> m n | Some p \<Rightarrow> Some (assigned (m n) (par_value p)))"

definition is_new :: "(string \<Rightarrow> StoredParameter option) \<Rightarrow> Parameter \<Rightarrow> bool" where
  "is_new m p \<longleftrightarrow> m (par_name p) = None"

definition is_changed :: "(string \<Rightarrow> StoredParameter option) \<Rightarrow> Parameter \<Rightarrow> bool" where
  "is_changed m p \<longleftrightarrow> (case m (par_name p) of None \<Rightarrow> False | Some e \<Rightarrow> \<not> value_eq (sp_value e) (par_value p))"

lemma apply_assignment_char:
  "apply_assignment p (m, d) = (m', d') \<Longrightarrow>
     map_of m' = (map_of m)(par_name p \<mapsto> assigned (map_of m (par_name p)) (par_value p)) \<and>
     d' = d\<lparr>new_parameters := new_parameters d @ filter (is_new (map_of m)) [p],
           changed_parameters := changed_parameters d @ filter (is_changed (map_of m)) [p]\<rparr>"
  by (auto simp: apply_assignment_def assigned_def is_new_def is_changed_def om.lookups fun_eq_iff
      split: option.splits if_splits)

lemma apply_assignment_ok: "om_ok m \<Longrightarrow> om_ok (fst (apply_assignment p (m, d)))"
  by (auto simp: apply_assignment_def om.oks split: option.splits)

lemma fold_apply_assignment:
  assumes "distinct (map par_name ps)" and "fold apply_assignment ps (m, d) = (m', d')"
  shows "map_of m' = assign_all ps (map_of m)"
    and "d' = d\<lparr>new_parameters := new_parameters d @ filter (is_new (map_of m)) ps,
               changed_parameters := changed_parameters d @ filter (is_changed (map_of m)) ps\<rparr>"
proof -
  have "map_of m' = assign_all ps (map_of m) \<and>
      d' = d\<lparr>new_parameters := new_parameters d @ filter (is_new (map_of m)) ps,
             changed_parameters := changed_parameters d @ filter (is_changed (map_of m)) ps\<rparr>"
    using assms
  proof (induction ps arbitrary: m d)
    case Nil
    then show ?case by (simp add: assign_all_def fun_eq_iff)
  next
    case (Cons p ps)
    obtain m1 d1 where a: "apply_assignment p (m, d) = (m1, d1)" by fastforce
    note c = apply_assignment_char [OF a]
    have m1: "map_of m1 = (map_of m)(par_name p \<mapsto> assigned (map_of m (par_name p)) (par_value p))" using c by blast
    have other: "map_of m1 (par_name q) = map_of m (par_name q)" if "q \<in> set ps" for q
    proof -
      have "par_name q \<noteq> par_name p" using that Cons.prems(1) by (simp add: image_iff) metis
      then show ?thesis by (simp add: m1)
    qed
    have f: "filter (is_new (map_of m1)) ps = filter (is_new (map_of m)) ps"
      "filter (is_changed (map_of m1)) ps = filter (is_changed (map_of m)) ps"
      using other by (auto intro!: filter_cong simp: is_new_def is_changed_def)
    have rest: "fold apply_assignment ps (m1, d1) = (m', d')" using Cons.prems(2) a by simp
    have ih: "map_of m' = assign_all ps (map_of m1)" "d' = d1\<lparr>new_parameters := new_parameters d1 @ filter (is_new (map_of m)) ps,
             changed_parameters := changed_parameters d1 @ filter (is_changed (map_of m)) ps\<rparr>"
      using Cons.IH [OF _ rest] Cons.prems(1) by (auto simp: f)
    have "find (\<lambda>q. par_name q = par_name p) ps = None"
      using Cons.prems(1) by (simp add: find_None_set image_iff) metis
    then have "assign_all ps (map_of m1) = assign_all (p # ps) (map_of m)"
      by (auto simp: assign_all_def m1 fun_eq_iff split: option.splits)
    then show ?case using ih c by simp
  qed
  then show "map_of m' = assign_all ps (map_of m)"
    and "d' = d\<lparr>new_parameters := new_parameters d @ filter (is_new (map_of m)) ps,
               changed_parameters := changed_parameters d @ filter (is_changed (map_of m)) ps\<rparr>" by blast+
qed

lemma fold_apply_ok: "om_ok m \<Longrightarrow> om_ok (fst (fold apply_assignment ps (m, d)))"
proof (induction ps arbitrary: m d)
  case (Cons p ps)
  then show ?case using apply_assignment_ok [of m p d] by (cases "apply_assignment p (m, d)") simp
qed simp

definition listed :: "string list \<Rightarrow> nat \<Rightarrow> string set \<Rightarrow> string set" where
  "listed pres depth ns = {n \<in> ns. list_matches pres n \<and> (depth = 0 \<or> count_tokens n \<le> depth)}"

definition cut_off :: "string list \<Rightarrow> nat \<Rightarrow> string set \<Rightarrow> string set" where
  "cut_off pres depth ns = (\<lambda>n. truncate_to_depth n depth) ` {n \<in> ns. list_matches pres n \<and> 0 < depth \<and> depth < count_tokens n}"

lemma list_loop_char:
  "list_loop pres depth es (xs, ys) = (xs', ys') \<Longrightarrow> sorted xs \<and> distinct xs \<and> sorted ys \<and> distinct ys \<Longrightarrow>
     sorted xs' \<and> distinct xs' \<and> sorted ys' \<and> distinct ys' \<and>
     set xs' = set xs \<union> listed pres depth (fst ` set es) \<and> set ys' = set ys \<union> cut_off pres depth (fst ` set es)"
proof (induction es arbitrary: xs ys)
  case Nil
  then show ?case by (simp add: listed_def cut_off_def)
next
  case (Cons e es)
  obtain xs1 ys1 where o1: "(if \<not> list_matches pres (fst e) then (xs, ys) else list_entry depth (fst e) (xs, ys)) = (xs1, ys1)"
    by fastforce
  have s1: "sorted xs1 \<and> distinct xs1 \<and> sorted ys1 \<and> distinct ys1"
    using o1 Cons.prems(2)
    by (auto simp: list_entry_def sorted_insort_insert distinct_insort_insert split: if_splits)
  have x1: "set xs1 = set xs \<union> listed pres depth {fst e}" "set ys1 = set ys \<union> cut_off pres depth {fst e}"
    using o1 by (auto simp: list_entry_def listed_def cut_off_def set_insort_insert split: if_splits)
  have r: "list_loop pres depth es (xs1, ys1) = (xs', ys')" using Cons.prems(1) o1 by simp
  have u: "listed pres depth (fst ` set (e # es)) = listed pres depth {fst e} \<union> listed pres depth (fst ` set es)"
    "cut_off pres depth (fst ` set (e # es)) = cut_off pres depth {fst e} \<union> cut_off pres depth (fst ` set es)"
    by (auto simp: listed_def cut_off_def)
  show ?case using Cons.IH [OF r s1] by (simp only: x1 u Un_assoc)
qed

lemma list_loop_sorted:
  assumes "list_loop pres depth es ([], []) = (xs, ys)"
  shows "xs = sorted_list_of_set (listed pres depth (fst ` set es))"
    and "ys = sorted_list_of_set (cut_off pres depth (fst ` set es))"
  using list_loop_char [OF assms] sorted_list_of_set.idem_if_sorted_distinct by fastforce+

section \<open>The invariant\<close>

definition ranges_ok :: "ParameterDescriptor \<Rightarrow> bool" where
  "ranges_ok d \<longleftrightarrow> list_all (\<lambda>r. ir_from r \<le> ir_to r) (integer_ranges d) \<and>
     list_all (\<lambda>r. dle (fr_from r) (fr_to r)) (floating_point_ranges d)"

definition stored_ok :: "StoredParameter \<Rightarrow> bool" where
  "stored_ok e \<longleftrightarrow> ranges_ok (sp_descriptor e) \<and>
     validate_value_against_descriptor (sp_value e) (sp_descriptor e) = Inr ()"

definition store_ok :: "ParameterStoreState \<Rightarrow> bool" where
  "store_ok s \<longleftrightarrow> om_ok (parameters s) \<and>
     (\<forall>n e. map_of (parameters s) n = Some e \<longrightarrow> valid_name n \<and> stored_ok e)"

datatype ParamOp =
    OpDeclare string ParameterValue ParameterDescriptor bool
  | OpUndeclare string
  | OpSet "Parameter list"
  | OpTake

text \<open>An operation of the node, with what the context answered to it.\<close>

fun param_exec :: "bool \<times> ParamOp \<Rightarrow> ParameterStoreState \<Rightarrow> ParameterStoreState" where
  "param_exec (shut, OpDeclare n v d i) s = snd (node_declare_parameter shut n v d i s)"
| "param_exec (shut, OpUndeclare n) s = snd (node_undeclare_parameter shut n s)"
| "param_exec (shut, OpSet ps) s = snd (node_set_parameters_atomically shut ps s)"
| "param_exec (shut, OpTake) s = snd (node_take_parameter_changes shut s)"

definition param_run :: "(bool \<times> ParamOp) list \<Rightarrow> ParameterStoreState \<Rightarrow> ParameterStoreState" where
  "param_run ops s = fold param_exec ops s"

lemma new_store_ok: "store_ok (new_store allow os)"
  by (simp add: store_ok_def new_store_def om_ok_def)

lemma validate_descriptor_ranges: "validate_descriptor d v = Inr u \<Longrightarrow> ranges_ok d"
  by (auto simp: validate_descriptor_def ranges_ok_def list_all_iff list_ex_iff split: if_splits)

lemma default_unconstrained [simp]:
  "ranges_ok default_descriptor" "validate_value_against_descriptor v default_descriptor = Inr ()"
  by (auto simp: ranges_ok_def default_descriptor_def validate_value_against_descriptor_def
      split: ParameterValue.splits)

text \<open>What each mutation does to the entry of a name.\<close>

lemma declare_entry:
  assumes "pp_declare n v d i s = (r, s')"
  shows "s' = s \<or> (\<exists>e. map_of (parameters s) n = None \<and> valid_name n \<and> stored_ok e \<and> sp_descriptor e = d \<and>
      s' = s\<lparr>parameters := om_emplace n e (parameters s), pending_changes := (pending_changes s)
             \<lparr>new_parameters := new_parameters (pending_changes s) @ [\<lparr>par_name = n, par_value = sp_value e\<rparr>]\<rparr>\<rparr> \<and>
      r = Inr \<lparr>par_name = n, par_value = sp_value e\<rparr>)"
proof -
  define eff where "eff = (if i then v
      else case find (\<lambda>p. par_name p = n) (overrides s) of None \<Rightarrow> v | Some p \<Rightarrow> par_value p)"
  let ?e = "\<lparr>sp_value = eff, sp_descriptor = d\<rparr>"
  have "s' = s \<or> (map_of (parameters s) n = None \<and> valid_name n \<and> stored_ok ?e \<and> sp_descriptor ?e = d \<and>
      s' = s\<lparr>parameters := om_emplace n ?e (parameters s), pending_changes := (pending_changes s)
             \<lparr>new_parameters := new_parameters (pending_changes s) @ [\<lparr>par_name = n, par_value = sp_value ?e\<rparr>]\<rparr>\<rparr> \<and>
      r = Inr \<lparr>par_name = n, par_value = sp_value ?e\<rparr>)"
    using assms
    by (auto simp: pp_declare_def declare_locked_def eff_def [symmetric] stored_ok_def validate_descriptor_ranges
        split: sum.splits if_splits option.splits)
  then show ?thesis by blast
qed

lemma undeclare_entry:
  assumes "pp_undeclare n s = (r, s')"
  shows "s' = s \<or> (\<exists>e. map_of (parameters s) n = Some e \<and>
      s' = s\<lparr>parameters := um_erase n (parameters s), pending_changes := (pending_changes s)
             \<lparr>deleted_parameters := deleted_parameters (pending_changes s) @ [\<lparr>par_name = n, par_value = sp_value e\<rparr>]\<rparr>\<rparr>)"
  using assms by (auto simp: pp_undeclare_def split: sum.splits option.splits)

definition accepted :: "Parameter list \<Rightarrow> ParameterStoreState \<Rightarrow> bool" where
  "accepted ps s \<longleftrightarrow> distinct (map par_name ps) \<and>
     list_all (\<lambda>p. valid_name (par_name p) \<and> (case map_of (parameters s) (par_name p) of
         None \<Rightarrow> allow_undeclared s
       | Some e \<Rightarrow> \<not> read_only (sp_descriptor e) \<and>
           (dynamic_typing (sp_descriptor e) \<or> \<not> is_set (sp_value e) \<or> value_type (sp_value e) = value_type (par_value p)) \<and>
           validate_value_against_descriptor (par_value p) (sp_descriptor e) = Inr ())) ps"

lemma assignment_iff:
  "validate_assignment_locked n v False s = Inr u \<longleftrightarrow> valid_name n \<and> (case map_of (parameters s) n of
       None \<Rightarrow> allow_undeclared s
     | Some e \<Rightarrow> \<not> read_only (sp_descriptor e) \<and>
         (dynamic_typing (sp_descriptor e) \<or> \<not> is_set (sp_value e) \<or> value_type (sp_value e) = value_type v) \<and>
         validate_value_against_descriptor v (sp_descriptor e) = Inr ())"
  by (auto simp: validate_assignment_locked_def split: option.splits)

lemma accepted_iff:
  "rbind (validate_name_and_duplicates ps) (\<lambda>_. validate_all ps s) = Inr u \<longleftrightarrow> accepted ps s"
  by (auto simp: accepted_def validate_name_and_duplicates_def validate_names_loop_iff validate_all_iff
      assignment_iff list_all_iff)

lemma set_entry:
  assumes "pp_set_atomically ps s = (r, s')"
  shows "if accepted ps s then
      (let delta = no_changes\<lparr>new_parameters := filter (is_new (map_of (parameters s))) ps,
                              changed_parameters := filter (is_changed (map_of (parameters s))) ps\<rparr>
       in r = Inr delta \<and> map_of (parameters s') = assign_all ps (map_of (parameters s)) \<and>
          pending_changes s' = (pending_changes s)
            \<lparr>new_parameters := new_parameters (pending_changes s) @ new_parameters delta,
             changed_parameters := changed_parameters (pending_changes s) @ changed_parameters delta\<rparr> \<and>
          allow_undeclared s' = allow_undeclared s \<and> overrides s' = overrides s \<and>
          (om_ok (parameters s) \<longrightarrow> om_ok (parameters s')))
    else \<not> has_value r \<and> s' = s"
proof (cases "rbind (validate_name_and_duplicates ps) (\<lambda>_. validate_all ps s)")
  case (Inl e)
  then have "\<not> accepted ps s" using accepted_iff [of ps s "()"] by simp
  then show ?thesis using assms Inl by (auto simp: pp_set_atomically_def)
next
  case (Inr u)
  then have a: "accepted ps s" using accepted_iff [of ps s u] by simp
  obtain m d where f: "fold apply_assignment ps (parameters s, no_changes) = (m, d)" by fastforce
  have ps: "distinct (map par_name ps)" using a by (simp add: accepted_def)
  note c = fold_apply_assignment [OF ps f]
  have "om_ok (parameters s) \<Longrightarrow> om_ok m" using fold_apply_ok [of "parameters s" ps no_changes] f by simp
  then show ?thesis
    using assms Inr a c by (auto simp: pp_set_atomically_def f Let_def)
qed

lemma assigned_ok:
  assumes "validate_value_against_descriptor v (sp_descriptor (assigned old v)) = Inr ()"
    and "\<And>e. old = Some e \<Longrightarrow> stored_ok e"
  shows "stored_ok (assigned old v)"
  using assms by (cases old) (auto simp: assigned_def stored_ok_def split: if_splits)

lemma assign_all_find:
  "assign_all ps m n = Some e \<Longrightarrow> m n = Some e \<or>
     (\<exists>p. find (\<lambda>p. par_name p = n) ps = Some p \<and> p \<in> set ps \<and> par_name p = n \<and> e = assigned (m n) (par_value p))"
  by (auto simp: assign_all_def split: option.splits dest: find_Some_set)

lemma assigned_descriptor: "sp_descriptor (assigned old v) =
     (case old of None \<Rightarrow> default_descriptor | Some e \<Rightarrow> sp_descriptor e)"
  by (auto simp: assigned_def split: option.splits)

lemma set_stored_ok:
  assumes "store_ok s" and "accepted ps s" and "assign_all ps (map_of (parameters s)) n = Some e"
  shows "valid_name n \<and> stored_ok e"
  using assign_all_find [OF assms(3)]
proof (elim disjE exE conjE)
  assume "map_of (parameters s) n = Some e"
  then show ?thesis using assms(1) by (simp add: store_ok_def)
next
  fix p
  assume p: "p \<in> set ps" "par_name p = n" and e: "e = assigned (map_of (parameters s) n) (par_value p)"
  have n: "valid_name n" using assms(2) p by (auto simp: accepted_def list_all_iff)
  have v: "validate_value_against_descriptor (par_value p) (sp_descriptor e) = Inr ()"
    using assms(2) p by (auto simp: accepted_def list_all_iff e assigned_descriptor split: option.splits)
  have "stored_ok e" unfolding e
    by (rule assigned_ok) (use v e assms(1) in \<open>auto simp: store_ok_def\<close>)
  then show ?thesis using n by simp
qed

lemma set_ok:
  assumes s: "store_ok s" and op: "pp_set_atomically ps s = (r, s')"
  shows "store_ok s'"
proof (cases "accepted ps s")
  case True
  then have "map_of (parameters s') = assign_all ps (map_of (parameters s))" "om_ok (parameters s')"
    using set_entry [OF op] s by (simp_all add: Let_def store_ok_def)
  then show ?thesis using set_stored_ok [OF s True] by (simp add: store_ok_def)
next
  case False
  then show ?thesis using set_entry [OF op] s by simp
qed

lemma declare_ok: "store_ok s \<Longrightarrow> pp_declare n v d i s = (r, s') \<Longrightarrow> store_ok s'"
  using declare_entry [of n v d i s r s']
  by (auto simp: store_ok_def om.lookups om.oks split: if_splits)

lemma undeclare_ok: "store_ok s \<Longrightarrow> pp_undeclare n s = (r, s') \<Longrightarrow> store_ok s'"
  using undeclare_entry [of n s r s']
  by (auto simp: store_ok_def om.lookups om.oks split: if_splits)

lemma store_ok_pending [simp]: "store_ok (s\<lparr>pending_changes := c\<rparr>) = store_ok s"
  by (simp add: store_ok_def)

lemmas node_ops = node_declare_parameter_def node_undeclare_parameter_def
  node_set_parameters_atomically_def node_take_parameter_changes_def

lemma param_exec_ok: "store_ok s \<Longrightarrow> store_ok (param_exec op s)"
  by (cases "(op, s)" rule: param_exec.cases)
    (auto simp: node_ops pp_take_changes_def
       intro: declare_ok [OF _ surjective_pairing] undeclare_ok [OF _ surjective_pairing] set_ok [OF _ surjective_pairing]
       split: sum.splits)

lemma param_run_ok: "store_ok s \<Longrightarrow> store_ok (param_run ops s)"
  by (induction ops arbitrary: s) (simp_all add: param_run_def param_exec_ok)

text \<open>What stays of the declaration of a parameter until it is undeclared.\<close>

definition contract_kept :: "StoredParameter \<Rightarrow> StoredParameter \<Rightarrow> bool" where
  "contract_kept e e' \<longleftrightarrow> sp_descriptor e' = sp_descriptor e \<and>
     (read_only (sp_descriptor e) \<longrightarrow> sp_value e' = sp_value e) \<and>
     (\<not> dynamic_typing (sp_descriptor e) \<and> is_set (sp_value e) \<longrightarrow> value_type (sp_value e') = value_type (sp_value e))"

lemma contract_kept_refl [simp]: "contract_kept e e"
  by (simp add: contract_kept_def)

lemma contract_kept_trans: "contract_kept e e1 \<Longrightarrow> contract_kept e1 e2 \<Longrightarrow> contract_kept e e2"
  by (auto simp: contract_kept_def is_set_def)

lemma set_contract:
  assumes "pp_set_atomically ps s = (r, s')" and "map_of (parameters s) n = Some e"
  shows "\<exists>e'. map_of (parameters s') n = Some e' \<and> contract_kept e e'"
proof (cases "accepted ps s")
  case False
  then show ?thesis using set_entry [OF assms(1)] assms(2) by auto
next
  case True
  then have m: "map_of (parameters s') = assign_all ps (map_of (parameters s))"
    using set_entry [OF assms(1)] by (auto simp: Let_def)
  show ?thesis
  proof (cases "find (\<lambda>p. par_name p = n) ps")
    case None
    then show ?thesis using m assms(2) by (simp add: assign_all_def)
  next
    case (Some p)
    then have p: "p \<in> set ps" "par_name p = n" by (auto dest: find_Some_set)
    with True assms(2) have c: "\<not> read_only (sp_descriptor e)"
      "dynamic_typing (sp_descriptor e) \<or> \<not> is_set (sp_value e) \<or> value_type (sp_value e) = value_type (par_value p)"
      by (auto simp: accepted_def list_all_iff)
    have "contract_kept e (assigned (Some e) (par_value p))"
      using c by (auto simp: contract_kept_def assigned_def)
    then show ?thesis using m Some assms(2) by (simp add: assign_all_def)
  qed
qed

lemma exec_contract:
  assumes "snd op \<noteq> OpUndeclare n" and "map_of (parameters s) n = Some e"
  shows "\<exists>e'. map_of (parameters (param_exec op s)) n = Some e' \<and> contract_kept e e'"
proof (cases "(op, s)" rule: param_exec.cases)
  case (1 shut n' v d i s')
  obtain r s1 where d: "pp_declare n' v d i s = (r, s1)" by fastforce
  show ?thesis using declare_entry [OF d] assms(2) 1 d
    by (auto simp: node_declare_parameter_def om.lookups split: sum.splits)
next
  case (2 shut n' s')
  obtain r s1 where d: "pp_undeclare n' s = (r, s1)" by fastforce
  show ?thesis using undeclare_entry [OF d] assms 2 d
    by (auto simp: node_undeclare_parameter_def om.lookups split: sum.splits)
next
  case (3 shut ps s')
  obtain r s1 where d: "pp_set_atomically ps s = (r, s1)" by fastforce
  show ?thesis using set_contract [OF d assms(2)] assms(2) 3 d
    by (auto simp: node_set_parameters_atomically_def split: sum.splits)
next
  case (4 shut s')
  then show ?thesis using assms(2) by (simp add: node_take_parameter_changes_def pp_take_changes_def)
qed

section \<open>The abstract store\<close>

text \<open>
  What the store promises: a finite map from names to declarations and the changes since they
  were last taken. A batch is accepted or refused as a whole, its assignments are simultaneous,
  and an operation that fails leaves everything as it was.
\<close>

record ParamSpec =
  spec_allow :: bool
  spec_overrides :: "Parameter list"
  spec_decl :: "string \<Rightarrow> StoredParameter option"
  spec_pending :: ParameterChangeSet

definition abs_store :: "ParameterStoreState \<Rightarrow> ParamSpec" where
  "abs_store s = \<lparr>spec_allow = allow_undeclared s, spec_overrides = overrides s,
     spec_decl = map_of (parameters s), spec_pending = pending_changes s\<rparr>"

definition spec_initial :: "string \<Rightarrow> ParameterValue \<Rightarrow> bool \<Rightarrow> ParamSpec \<Rightarrow> ParameterValue" where
  "spec_initial n v ignore_override sp = (if ignore_override then v
     else case find (\<lambda>p. par_name p = n) (spec_overrides sp) of None \<Rightarrow> v | Some p \<Rightarrow> par_value p)"

definition spec_declares :: "string \<Rightarrow> ParameterValue \<Rightarrow> ParameterDescriptor \<Rightarrow> bool \<Rightarrow> ParamSpec \<Rightarrow> bool" where
  "spec_declares n v d i sp \<longleftrightarrow> valid_name n \<and> validate_descriptor d v = Inr () \<and> spec_decl sp n = None \<and>
     validate_value_against_descriptor (spec_initial n v i sp) d = Inr () \<and>
     (dynamic_typing d \<or> \<not> is_set (spec_initial n v i sp) \<or> \<not> is_set v \<or>
      value_type (spec_initial n v i sp) = value_type v)"

definition spec_accepts :: "Parameter list \<Rightarrow> ParamSpec \<Rightarrow> bool" where
  "spec_accepts ps sp \<longleftrightarrow> distinct (map par_name ps) \<and>
     list_all (\<lambda>p. valid_name (par_name p) \<and> (case spec_decl sp (par_name p) of
         None \<Rightarrow> spec_allow sp
       | Some e \<Rightarrow> \<not> read_only (sp_descriptor e) \<and>
           (dynamic_typing (sp_descriptor e) \<or> \<not> is_set (sp_value e) \<or> value_type (sp_value e) = value_type (par_value p)) \<and>
           validate_value_against_descriptor (par_value p) (sp_descriptor e) = Inr ())) ps"

fun spec_exec :: "bool \<times> ParamOp \<Rightarrow> ParamSpec \<Rightarrow> ParamSpec" where
  "spec_exec (shut, OpDeclare n v d i) sp =
     (if \<not> shut \<and> spec_declares n v d i sp
      then sp\<lparr>spec_decl := (spec_decl sp)(n \<mapsto> \<lparr>sp_value = spec_initial n v i sp, sp_descriptor = d\<rparr>),
              spec_pending := (spec_pending sp)\<lparr>new_parameters := new_parameters (spec_pending sp) @
                [\<lparr>par_name = n, par_value = spec_initial n v i sp\<rparr>]\<rparr>\<rparr>
      else sp)"
| "spec_exec (shut, OpUndeclare n) sp =
     (case spec_decl sp n of
        Some e \<Rightarrow> if \<not> shut \<and> valid_name n
          then sp\<lparr>spec_decl := (spec_decl sp)(n := None),
                  spec_pending := (spec_pending sp)\<lparr>deleted_parameters := deleted_parameters (spec_pending sp) @
                    [\<lparr>par_name = n, par_value = sp_value e\<rparr>]\<rparr>\<rparr>
          else sp
      | None \<Rightarrow> sp)"
| "spec_exec (shut, OpSet ps) sp =
     (if \<not> shut \<and> spec_accepts ps sp
      then sp\<lparr>spec_decl := assign_all ps (spec_decl sp),
              spec_pending := (spec_pending sp)
                \<lparr>new_parameters := new_parameters (spec_pending sp) @ filter (is_new (spec_decl sp)) ps,
                 changed_parameters := changed_parameters (spec_pending sp) @ filter (is_changed (spec_decl sp)) ps\<rparr>\<rparr>
      else sp)"
| "spec_exec (shut, OpTake) sp = (if shut then sp else sp\<lparr>spec_pending := no_changes\<rparr>)"

lemma abs_store_simps [simp]:
  "spec_allow (abs_store s) = allow_undeclared s" "spec_overrides (abs_store s) = overrides s"
  "spec_decl (abs_store s) = map_of (parameters s)" "spec_pending (abs_store s) = pending_changes s"
  by (simp_all add: abs_store_def)

lemma accepts_iff: "spec_accepts ps (abs_store s) \<longleftrightarrow> accepted ps s"
  unfolding spec_accepts_def accepted_def abs_store_simps ..

lemma declare_spec:
  "snd (pp_declare n v d i s) =
     (if spec_declares n v d i (abs_store s)
      then s\<lparr>parameters := om_emplace n \<lparr>sp_value = spec_initial n v i (abs_store s), sp_descriptor = d\<rparr> (parameters s),
             pending_changes := (pending_changes s)\<lparr>new_parameters := new_parameters (pending_changes s) @
               [\<lparr>par_name = n, par_value = spec_initial n v i (abs_store s)\<rparr>]\<rparr>\<rparr>
      else s)"
proof -
  define eff where "eff = spec_initial n v i (abs_store s)"
  have e: "(if i then v else case find (\<lambda>p. par_name p = n) (overrides s) of None \<Rightarrow> v | Some p \<Rightarrow> par_value p) = eff"
    by (simp add: eff_def spec_initial_def)
  show ?thesis
    unfolding pp_declare_def declare_locked_def e spec_declares_def eff_def [symmetric]
    by (auto simp: rbind_Inl_iff split: sum.splits)
qed

lemma refines_declare:
  "abs_store (param_exec (shut, OpDeclare n v d i) s) = spec_exec (shut, OpDeclare n v d i) (abs_store s)"
proof (cases "\<not> shut \<and> spec_declares n v d i (abs_store s)")
  case True
  then have n: "map_of (parameters s) n = None" "valid_name n" "validate_descriptor d v = Inr ()"
    by (simp_all add: spec_declares_def)
  have "map_of (om_emplace n e (parameters s)) = (map_of (parameters s))(n \<mapsto> e)" for e
    using n(1) by (auto simp: om.lookup_emplace)
  with True n show ?thesis
    by (auto simp: node_declare_parameter_def declare_spec rbind_Inl_iff intro!: ParamSpec.equality split: sum.splits)
next
  case False
  then show ?thesis by (auto simp: node_declare_parameter_def declare_spec split: sum.splits)
qed

lemma refines_undeclare:
  "abs_store (param_exec (shut, OpUndeclare n) s) = spec_exec (shut, OpUndeclare n) (abs_store s)"
proof -
  have m: "map_of (um_erase n (parameters s)) = (map_of (parameters s))(n := None)"
    by (auto simp: om.lookup_erase)
  show ?thesis
    by (auto simp: node_undeclare_parameter_def pp_undeclare_def abs_store_def m split: sum.splits option.splits)
qed

lemma refines_set:
  "abs_store (param_exec (shut, OpSet ps) s) = spec_exec (shut, OpSet ps) (abs_store s)"
proof (cases "\<not> shut \<and> accepted ps s")
  case True
  obtain r s' where op: "pp_set_atomically ps s = (r, s')" by fastforce
  have "has_value (validate_name_and_duplicates ps)"
    using True accepted_iff [of ps s "()"] by (auto simp: has_value_iff)
  then have "param_exec (shut, OpSet ps) s = s'"
    using True op by (auto simp: node_set_parameters_atomically_def has_value_iff)
  with True set_entry [OF op] show ?thesis
    by (auto simp: accepts_iff Let_def intro!: ParamSpec.equality)
next
  case False
  obtain r s' where op: "pp_set_atomically ps s = (r, s')" by fastforce
  have "param_exec (shut, OpSet ps) s = s"
    using set_entry [OF op] False op by (auto simp: node_set_parameters_atomically_def split: sum.splits)
  with False show ?thesis by (auto simp: accepts_iff)
qed

lemma refines_exec: "abs_store (param_exec op s) = spec_exec op (abs_store s)"
proof (cases "(op, s)" rule: param_exec.cases)
  case (4 shut s')
  then show ?thesis by (simp add: node_take_parameter_changes_def pp_take_changes_def abs_store_def)
qed (use refines_declare refines_undeclare refines_set in auto)

lemma refines_run: "abs_store (param_run ops s) = fold spec_exec ops (abs_store s)"
  by (induction ops arbitrary: s) (simp_all add: param_run_def refines_exec)

lemma run_contract:
  "list_all (\<lambda>op. snd op \<noteq> OpUndeclare n) ops \<Longrightarrow> map_of (parameters s) n = Some e \<Longrightarrow>
     \<exists>e'. map_of (parameters (param_run ops s)) n = Some e' \<and> contract_kept e e'"
proof (induction ops arbitrary: s e)
  case Nil
  then show ?case by (simp add: param_run_def)
next
  case (Cons op ops)
  then obtain e1 where "map_of (parameters (param_exec op s)) n = Some e1" "contract_kept e e1"
    using exec_contract [of op n s e] by auto
  with Cons show ?case using contract_kept_trans by (fastforce simp: param_run_def)
qed

section \<open>Properties\<close>

text \<open>
  C2. The typing of parameters: as long as a parameter is not undeclared, every sequence of
  operations, on a running context or not, keeps its descriptor; a read-only parameter keeps its
  value, one of fixed type keeps its type, and every value stays within the ranges declared for it.
\<close>

theorem parameter_contract:
  assumes "store_ok s" and "map_of (parameters s) n = Some e"
    and "list_all (\<lambda>op. snd op \<noteq> OpUndeclare n) ops"
  shows "\<exists>e'. map_of (parameters (param_run ops s)) n = Some e' \<and> sp_descriptor e' = sp_descriptor e \<and>
      (read_only (sp_descriptor e) \<longrightarrow> sp_value e' = sp_value e) \<and>
      (\<not> dynamic_typing (sp_descriptor e) \<and> is_set (sp_value e) \<longrightarrow> value_type (sp_value e') = value_type (sp_value e)) \<and>
      validate_value_against_descriptor (sp_value e') (sp_descriptor e) = Inr ()"
proof -
  obtain e' where e': "map_of (parameters (param_run ops s)) n = Some e'" "contract_kept e e'"
    using run_contract [OF assms(3,2)] by blast
  have "stored_ok e'" using param_run_ok [OF assms(1), of ops] e'(1) by (simp add: store_ok_def)
  with e' show ?thesis by (auto simp: contract_kept_def stored_ok_def)
qed

text \<open>
  C1. The store refines the abstract one: after any operations it holds the abstract map and the
  abstract changes. In particular a batch is accepted exactly when all its assignments are
  admissible in the state before it, is applied as one simultaneous update, and is otherwise
  without effect.
\<close>

theorem parameter_store_refines:
  "abs_store (param_run ops (new_store allow os)) =
     fold spec_exec ops \<lparr>spec_allow = allow, spec_overrides = os, spec_decl = Map.empty, spec_pending = no_changes\<rparr>"
  by (simp add: refines_run) (simp add: abs_store_def new_store_def)

text \<open>
  A literal is read as an integer exactly when it is an optional sign and a non-empty digit
  string whose value fits 64 bits, and then as that value: the guard of the digit loop neither
  wraps nor refuses a representable number.
\<close>

theorem integer_literal_exact: "parses_as_integer text = int_literal text"
  by (rule parses_as_integer_eq)

text \<open>
  The step test of an integer range is the mathematical one: the unsigned offset does not
  wrap for 64-bit bounds and values.
\<close>

theorem integer_range_exact:
  assumes "in_int64 v" and "in_int64 (ir_from r)"
  shows "integer_value_is_acceptable v r \<longleftrightarrow>
     ir_from r \<le> v \<and> v \<le> ir_to r \<and> (ir_step r = 0 \<or> uint (ir_step r) dvd (v - ir_from r))"
  by (rule acceptable_iff [OF assms])

text \<open>
  A listing succeeds exactly when its prefixes are valid names; it is then the ascending list
  of the matching names within the depth, and of the prefixes of the deeper ones, each once.
\<close>

theorem list_parameters_exact:
  "pp_list pres depth s = Inr out \<longleftrightarrow>
     list_all (\<lambda>p. p = [] \<or> valid_name p) pres \<and>
     list_names out = sorted_list_of_set (listed pres depth (dom (map_of (parameters s)))) \<and>
     list_prefixes out = sorted_list_of_set (cut_off pres depth (dom (map_of (parameters s))))"
proof -
  obtain xs ys where l: "list_loop pres depth (parameters s) ([], []) = (xs, ys)" by fastforce
  have v: "validate_prefixes pres = Inr u \<longleftrightarrow> list_all (\<lambda>p. p = [] \<or> valid_name p) pres" for u
    by (induction pres) auto
  show ?thesis
    using list_loop_sorted [OF l] by (cases out) (auto simp: pp_list_def v l dom_map_of_conv_image_fst)
qed

text \<open>
  The accumulated change set does not determine the store: declaring a parameter and removing
  it again leaves the same changes as removing a declared one and declaring it anew.
\<close>

theorem change_set_ambiguous:
  fixes allow :: bool and os :: "Parameter list"
  assumes "valid_name n" and "validate_descriptor d v = Inr ()"
    and "validate_value_against_descriptor v d = Inr ()"
  defines "run1 \<equiv> param_run [(False, OpDeclare n v d True), (False, OpUndeclare n)] (new_store allow os)"
    and "run2 \<equiv> param_run [(False, OpDeclare n v d True), (False, OpTake), (False, OpUndeclare n),
                             (False, OpDeclare n v d True)] (new_store allow os)"
  shows "pending_changes run1 = pending_changes run2 \<and> map_of (parameters run1) n = None \<and>
     map_of (parameters run2) n = Some \<lparr>sp_value = v, sp_descriptor = d\<rparr>"
  unfolding abs_store_simps(3,4) [symmetric] run1_def run2_def refines_run
  using assms(1-3) by (simp add: new_store_def abs_store_def spec_declares_def spec_initial_def)

lemma name_a: "valid_name ''a''"
  by (simp add: valid_name_def token_ok_def is_token_start_def char_in_def)

definition store_1 :: ParameterStoreState where
  "store_1 = new_store False []\<lparr>parameters := [(''a'', \<lparr>sp_value = IntegerV 3, sp_descriptor = default_descriptor\<rparr>)]\<rparr>"

lemma store_1_ok: "store_ok store_1"
  by (simp add: store_ok_def store_1_def new_store_def om_ok_def name_a stored_ok_def)

theorem parameter_contract_witness:
  "\<exists>e. map_of (parameters (param_run [(False, OpSet [\<lparr>par_name = ''a'', par_value = StringV ''x''\<rparr>])] store_1)) ''a'' = Some e \<and>
     value_type (sp_value e) = TInteger"
  using parameter_contract [OF store_1_ok, of "''a''" _ "[(False, OpSet [\<lparr>par_name = ''a'', par_value = StringV ''x''\<rparr>])]"]
  by (fastforce simp: store_1_def default_descriptor_def is_set_def)

theorem integer_range_exact_witness:
  "integer_value_is_acceptable int64_max \<lparr>ir_from = int64_min, ir_to = int64_max, ir_step = 5\<rparr>"
  by (subst integer_range_exact) (simp_all add: int64_defs)

theorem change_set_ambiguous_witness:
  "map_of (parameters (param_run [(False, OpDeclare ''a'' (BoolV True) default_descriptor True), (False, OpUndeclare ''a'')]
     (new_store False []))) ''a'' = None"
  using change_set_ambiguous [OF name_a, of default_descriptor "BoolV True" False "[]"]
  by (simp add: validate_descriptor_def default_descriptor_def is_set_def validate_value_against_descriptor_def)

end
