(* ===== verification/ContextRuntime.thy ===== *)
theory ContextRuntime
  imports Identity "HOL-Library.Multiset"
begin

text \<open>
  The runtime of a context (\<^verbatim>\<open>impl/context.hpp\<close>, \<^verbatim>\<open>impl/context_impl.cpp\<close>): operation guards
  and the shutdown protocol, the registries of DDS types and topics, and the creation and
  destruction of the participant. Every critical section of the source is one function; the
  threads between them are steps of a transition system.
\<close>

section \<open>Operations and shutdown\<close>

datatype ShutdownExecutionState = Running | RequestingChildren | Draining | Complete

record ShutdownChild =
  requested :: bool
  acknowledged :: bool

record Runtime =
  shutdown_flag :: bool
  shutdown_complete :: bool
  active_operations :: nat
  next_shutdown_callback_id :: u64
  shutdown_children :: "(u64, ShutdownChild) umap"
  shutdown_execution_state :: ShutdownExecutionState

definition new_runtime :: Runtime where
  "new_runtime = \<lparr>shutdown_flag = False, shutdown_complete = False, active_operations = 0,
     next_shutdown_callback_id = 1, shutdown_children = [], shutdown_execution_state = Running\<rparr>"

definition try_acquire_operation :: "Runtime \<Rightarrow> bool \<times> Runtime" where
  "try_acquire_operation s =
     (if shutdown_flag s then (False, s)
      else (True, s\<lparr>active_operations := active_operations s + 1\<rparr>))"

text \<open>The destructor of an operation guard; the flag is the notification of waiting shutdowns.\<close>

definition release_operation :: "Runtime \<Rightarrow> bool \<times> Runtime" where
  "release_operation s =
     (let s1 = s\<lparr>active_operations := active_operations s - 1\<rparr> in (active_operations s1 = 0, s1))"

text \<open>An operation guard holds the context or nothing; moving empties the source.\<close>

definition guard_move :: "bool \<Rightarrow> bool \<times> bool" where
  "guard_move other = (other, False)"

definition guard_assign :: "bool \<Rightarrow> bool \<Rightarrow> Runtime \<Rightarrow> (bool \<times> bool) \<times> Runtime" where
  "guard_assign this other s = (guard_move other, if this then snd (release_operation s) else s)"

text \<open>The steps of \<^verbatim>\<open>shutdown\<close>; the first returns whether this call executes the shutdown.\<close>

definition shutdown_begin :: "Runtime \<Rightarrow> bool \<times> Runtime" where
  "shutdown_begin s = (if shutdown_flag s then (False, s) else (True, s\<lparr>shutdown_flag := True\<rparr>))"

definition shutdown_request :: "Runtime \<Rightarrow> (u64, ShutdownChild) umap \<times> Runtime" where
  "shutdown_request s =
     (map (\<lambda>(cid, c). (cid, c\<lparr>requested := True\<rparr>)) (shutdown_children s),
      s\<lparr>shutdown_execution_state := RequestingChildren, shutdown_children := []\<rparr>)"

definition shutdown_acknowledge :: "ShutdownChild \<Rightarrow> ShutdownChild" where
  "shutdown_acknowledge c = c\<lparr>acknowledged := True\<rparr>"

definition shutdown_called :: "Runtime \<Rightarrow> Runtime" where
  "shutdown_called s = s\<lparr>shutdown_execution_state := Complete\<rparr>"

text \<open>Blocked (\<open>None\<close>) while an operation is active.\<close>

definition shutdown_drain :: "Runtime \<Rightarrow> Runtime option" where
  "shutdown_drain s = (if active_operations s = 0 then Some (s\<lparr>shutdown_complete := True\<rparr>) else None)"

definition register_shutdown_callback :: "Runtime \<Rightarrow> u64 \<times> Runtime" where
  "register_shutdown_callback s =
     (if shutdown_flag s \<or> next_shutdown_callback_id s = 0 then (0, s)
      else (next_shutdown_callback_id s,
            s\<lparr>next_shutdown_callback_id := next_shutdown_callback_id s + 1,
              shutdown_children := um_emplace (next_shutdown_callback_id s)
                \<lparr>requested = False, acknowledged = False\<rparr> (shutdown_children s)\<rparr>))"

definition unregister_shutdown_callback :: "u64 \<Rightarrow> Runtime \<Rightarrow> Runtime" where
  "unregister_shutdown_callback cid s =
     (if cid = 0 then s else s\<lparr>shutdown_children := um_erase cid (shutdown_children s)\<rparr>)"

text \<open>
  The threads: the call that executes the shutdown, the operations in progress, and who
  registered, unregistered in time, and was called.
\<close>

datatype ShutdownPc =
    NotStarted
  | Flagged
  | Calling "(u64 \<times> ShutdownChild) list"
  | Called
  | Returned

record CtxSys =
  runtime :: Runtime
  executor :: ShutdownPc
  live_guards :: nat
  registered :: "u64 set"
  unregistered :: "u64 set"
  calls :: "u64 list"

definition start_ctx :: CtxSys where
  "start_ctx = \<lparr>runtime = new_runtime, executor = NotStarted, live_guards = 0, registered = {},
     unregistered = {}, calls = []\<rparr>"

inductive ctx_step :: "CtxSys \<Rightarrow> CtxSys \<Rightarrow> bool" where
  acquire: "try_acquire_operation (runtime s) = (True, r) \<Longrightarrow>
    ctx_step s (s\<lparr>runtime := r, live_guards := live_guards s + 1\<rparr>)"
| release: "0 < live_guards s \<Longrightarrow>
    ctx_step s (s\<lparr>runtime := snd (release_operation (runtime s)), live_guards := live_guards s - 1\<rparr>)"
| begin_shutdown: "shutdown_begin (runtime s) = (True, r) \<Longrightarrow> executor s = NotStarted \<Longrightarrow>
    ctx_step s (s\<lparr>runtime := r, executor := Flagged\<rparr>)"
| request: "executor s = Flagged \<Longrightarrow> shutdown_request (runtime s) = (children, r) \<Longrightarrow>
    ctx_step s (s\<lparr>runtime := r, executor := Calling children\<rparr>)"
| call: "executor s = Calling ((cid, c) # rest) \<Longrightarrow>
    ctx_step s (s\<lparr>executor := Calling rest, calls := calls s @ [cid]\<rparr>)"
| all_called: "executor s = Calling [] \<Longrightarrow>
    ctx_step s (s\<lparr>runtime := shutdown_called (runtime s), executor := Called\<rparr>)"
| drain: "executor s = Called \<Longrightarrow> shutdown_drain (runtime s) = Some r \<Longrightarrow>
    ctx_step s (s\<lparr>runtime := r, executor := Returned\<rparr>)"
| register: "register_shutdown_callback (runtime s) = (cid, r) \<Longrightarrow> cid \<noteq> 0 \<Longrightarrow>
    ctx_step s (s\<lparr>runtime := r, registered := insert cid (registered s)\<rparr>)"
| unregister: "ctx_step s (s\<lparr>runtime := unregister_shutdown_callback cid (runtime s),
       unregistered := unregistered s \<union> ({cid} \<inter> dom (map_of (shutdown_children (runtime s))))\<rparr>)"

inductive ctx_reach :: "CtxSys \<Rightarrow> bool" where
  start: "ctx_reach start_ctx"
| step: "ctx_reach s \<Longrightarrow> ctx_step s s' \<Longrightarrow> ctx_reach s'"

lemmas runtime_ops = try_acquire_operation_def release_operation_def shutdown_begin_def
  shutdown_request_def shutdown_called_def shutdown_drain_def register_shutdown_callback_def
  unregister_shutdown_callback_def

text \<open>Who still has to be called.\<close>

definition due :: "CtxSys \<Rightarrow> u64 list" where
  "due s = (case executor s of
       Calling cs \<Rightarrow> map fst cs
     | _ \<Rightarrow> map fst (shutdown_children (runtime s)))"

definition ctx_ok :: "CtxSys \<Rightarrow> bool" where
  "ctx_ok s \<longleftrightarrow>
     active_operations (runtime s) = live_guards s \<and>
     (shutdown_flag (runtime s) \<longleftrightarrow> executor s \<noteq> NotStarted) \<and>
     (shutdown_complete (runtime s) \<longleftrightarrow> executor s = Returned) \<and>
     (shutdown_complete (runtime s) \<longrightarrow> live_guards s = 0) \<and>
     (executor s \<notin> {NotStarted, Flagged} \<longrightarrow> shutdown_children (runtime s) = []) \<and>
     um_ok (shutdown_children (runtime s)) \<and>
     distinct (calls s @ due s) \<and>
     set (calls s @ due s) = registered s - unregistered s \<and> unregistered s \<subseteq> registered s \<and> 0 \<notin> registered s \<and>
     (next_shutdown_callback_id (runtime s) = 0 \<or>
      (\<forall>cid \<in> registered s. cid < next_shutdown_callback_id (runtime s)))"

lemma start_ctx_ok: "ctx_ok start_ctx"
  by (simp add: ctx_ok_def start_ctx_def new_runtime_def due_def)

lemma distinct_fst_filter: "distinct (map fst xs) \<Longrightarrow> distinct (map fst (filter p xs))"
  by (simp add: distinct_map_filter)

lemma callback_register_ok:
  assumes "ctx_ok s" and "register_shutdown_callback (runtime s) = (cid, r)" and "cid \<noteq> 0"
  shows "ctx_ok (s\<lparr>runtime := r, registered := insert cid (registered s)\<rparr>)"
proof -
  from assms have cid: "cid = next_shutdown_callback_id (runtime s)" and flag: "\<not> shutdown_flag (runtime s)"
    and r: "r = (runtime s)\<lparr>next_shutdown_callback_id := cid + 1,
        shutdown_children := um_emplace cid \<lparr>requested = False, acknowledged = False\<rparr> (shutdown_children (runtime s))\<rparr>"
    by (auto simp: register_shutdown_callback_def split: if_splits)
  have ns: "executor s = NotStarted" using assms(1) flag by (simp add: ctx_ok_def)
  have fresh: "cid \<notin> registered s" using assms(1,3) cid by (auto simp: ctx_ok_def)
  have none: "map_of (shutdown_children (runtime s)) cid = None"
    using fresh assms(1) ns by (auto simp: ctx_ok_def due_def map_of_eq_None_iff)
  have fst: "map fst (um_emplace cid c (shutdown_children (runtime s))) = map fst (shutdown_children (runtime s)) @ [cid]" for c
    using none by (simp add: um_emplace_def)
  have "cid + 1 = 0 \<or> (\<forall>i \<in> insert cid (registered s). i < cid + 1)"
  proof (cases "cid + 1 = 0")
    case False
    then have "cid < cid + 1" using u64_inc_gt [of cid] by (metis add.right_inverse u64_max_def add.commute)
    then show ?thesis using assms(1,3) cid by (auto simp: ctx_ok_def dest: less_trans)
  qed simp
  moreover have "cid \<notin> set (calls s @ due s)" "cid \<notin> unregistered s" using fresh assms(1) by (auto simp: ctx_ok_def)
  ultimately show ?thesis
    using assms(1,3) ns fst by (auto simp: ctx_ok_def due_def r um.oks)
qed

lemma callback_unregister_ok:
  assumes "ctx_ok s"
  shows "ctx_ok (s\<lparr>runtime := unregister_shutdown_callback cid (runtime s),
       unregistered := unregistered s \<union> ({cid} \<inter> dom (map_of (shutdown_children (runtime s))))\<rparr>)"
proof (cases "cid \<in> dom (map_of (shutdown_children (runtime s)))")
  case False
  then have "um_erase cid (shutdown_children (runtime s)) = shutdown_children (runtime s)"
    by (auto simp: um_erase_def filter_id_conv dom_map_of_conv_image_fst image_iff)
  then show ?thesis using assms False by (simp add: unregister_shutdown_callback_def)
next
  case True
  let ?cs = "shutdown_children (runtime s)"
  have pc: "executor s \<in> {NotStarted, Flagged}" using assms True by (cases ?cs) (auto simp: ctx_ok_def)
  then have due: "due s = map fst ?cs" by (auto simp: due_def)
  have mem: "cid \<in> set (map fst ?cs)" using True by (auto simp: dom_map_of_conv_image_fst)
  have e: "map fst (um_erase cid ?cs) = filter (\<lambda>i. i \<noteq> cid) (map fst ?cs)"
    by (simp add: um_erase_def filter_map comp_def case_prod_unfold)
  have reg: "cid \<in> registered s" using assms due mem by (auto simp: ctx_ok_def)
  then have nz: "cid \<noteq> 0" using assms by (auto simp: ctx_ok_def)
  have calls: "cid \<notin> set (calls s)" using assms due mem by (auto simp: ctx_ok_def)
  let ?r = "(runtime s)\<lparr>shutdown_children := um_erase cid ?cs\<rparr>"
  let ?t = "s\<lparr>runtime := ?r, unregistered := insert cid (unregistered s)\<rparr>"
  have "due ?t = filter (\<lambda>i. i \<noteq> cid) (due s)" using pc by (auto simp: due_def e)
  then have "ctx_ok ?t"
    using assms pc reg calls by (auto simp: ctx_ok_def um.oks)
  then show ?thesis using True nz by (simp add: unregister_shutdown_callback_def)
qed

lemma ctx_step_ok: "ctx_step s s' \<Longrightarrow> ctx_ok s \<Longrightarrow> ctx_ok s'"
proof (induction rule: ctx_step.induct)
  case (register s cid r)
  then show ?case by (simp add: callback_register_ok)
next
  case (unregister s cid)
  then show ?case by (rule callback_unregister_ok)
next
  case (request s children r)
  then have c: "map fst children = map fst (shutdown_children (runtime s))"
    and r: "r = (runtime s)\<lparr>shutdown_execution_state := RequestingChildren, shutdown_children := []\<rparr>"
    by (auto simp: shutdown_request_def comp_def case_prod_unfold)
  have "due s = map fst children" using request(1) c by (simp add: due_def)
  moreover have "due (s\<lparr>runtime := r, executor := Calling children\<rparr>) = map fst children" by (simp add: due_def)
  ultimately show ?case using request(1,3) by (simp add: ctx_ok_def r)
next
  case (call s cid c rest)
  let ?t = "s\<lparr>executor := Calling rest, calls := calls s @ [cid]\<rparr>"
  have "calls ?t @ due ?t = calls s @ due s" using call(1) by (simp add: due_def)
  with call show ?case by (simp add: ctx_ok_def del: set_append distinct_append)
next
  case (acquire s r)
  then have r: "r = (runtime s)\<lparr>active_operations := active_operations (runtime s) + 1\<rparr>"
    and flag: "\<not> shutdown_flag (runtime s)"
    by (auto simp: try_acquire_operation_def split: if_splits)
  have "due (s\<lparr>runtime := r, live_guards := live_guards s + 1\<rparr>) = due s" by (simp add: due_def r split: ShutdownPc.split)
  with acquire(2) flag show ?case by (simp add: ctx_ok_def r)
next
  case (release s)
  let ?t = "s\<lparr>runtime := snd (release_operation (runtime s)), live_guards := live_guards s - 1\<rparr>"
  have "due ?t = due s" by (simp add: due_def release_operation_def Let_def split: ShutdownPc.split)
  with release show ?case
    by (simp add: ctx_ok_def release_operation_def Let_def del: set_append distinct_append, blast)
next
  case (begin_shutdown s r)
  then have r: "r = (runtime s)\<lparr>shutdown_flag := True\<rparr>" by (auto simp: shutdown_begin_def split: if_splits)
  have "due (s\<lparr>runtime := r, executor := Flagged\<rparr>) = due s" using begin_shutdown(2) by (simp add: due_def r)
  with begin_shutdown(2,3) show ?case by (simp add: ctx_ok_def r del: set_append distinct_append)
next
  case (all_called s)
  have "due (s\<lparr>runtime := shutdown_called (runtime s), executor := Called\<rparr>) = due s"
    using all_called by (simp add: due_def shutdown_called_def ctx_ok_def)
  with all_called show ?case
    by (simp add: ctx_ok_def shutdown_called_def del: set_append distinct_append)
next
  case (drain s r)
  then have r: "r = (runtime s)\<lparr>shutdown_complete := True\<rparr>" and idle: "active_operations (runtime s) = 0"
    by (auto simp: shutdown_drain_def split: if_splits)
  have "due (s\<lparr>runtime := r, executor := Returned\<rparr>) = due s" using drain(1) by (simp add: due_def r)
  with drain(1,3) idle show ?case by (simp add: ctx_ok_def r del: set_append distinct_append)
qed

lemma ctx_reach_ok: "ctx_reach s \<Longrightarrow> ctx_ok s"
  by (induction rule: ctx_reach.induct) (auto simp: start_ctx_ok ctx_step_ok)

section \<open>The registries of types and topics\<close>

datatype RegistryEntryPhase = Creating | Active | Retiring | Orphaned

text \<open>The C++ identity of the binding of a wire type (\<^verbatim>\<open>std::type_index\<close>) and a DDS topic are numbers.\<close>

record RegisteredType =
  pubsub_type :: nat
  ty_phase :: RegistryEntryPhase
  ty_references :: nat

record RegisteredTopic =
  wire_type_name :: string
  dds_topic :: "nat option"
  tp_phase :: RegistryEntryPhase
  tp_references :: nat

type_synonym type_registry = "(string, RegisteredType) umap"
type_synonym topic_registry = "(string, RegisteredTopic) umap"

text \<open>What the locked loop of an acquisition decides: \<open>WaitForOther\<close> sleeps and looks again.\<close>

datatype Admission = CreateEntry | ShareEntry | Refuse ErrorCode | WaitForOther

definition admit_type :: "string \<Rightarrow> nat \<Rightarrow> type_registry \<Rightarrow> Admission \<times> type_registry" where
  "admit_type name binding m = (case map_of m name of
       None \<Rightarrow> (CreateEntry, um_emplace name \<lparr>pubsub_type = binding, ty_phase = Creating, ty_references = 0\<rparr> m)
     | Some e \<Rightarrow>
         if pubsub_type e \<noteq> binding then (Refuse TypeMismatch, m)
         else if ty_phase e = Active
         then (ShareEntry, um_modify name (\<lambda>e. e\<lparr>ty_references := ty_references e + 1\<rparr>) m)
         else if ty_phase e = Orphaned then (Refuse DDSError, m)
         else (WaitForOther, m))"

text \<open>The answer of Fast DDS to a creation: the created object, a failure, or an exception.\<close>

datatype 'a Creation = Made 'a | NotMade | Threw

definition settle_type :: "string \<Rightarrow> unit Creation \<Rightarrow> type_registry \<Rightarrow> type_registry" where
  "settle_type name answer m = (case answer of
       Made _ \<Rightarrow> um_modify name (\<lambda>e. e\<lparr>ty_phase := Active, ty_references := 1\<rparr>) m
     | NotMade \<Rightarrow> um_erase name m
     | Threw \<Rightarrow> um_modify name (\<lambda>e. e\<lparr>ty_phase := Orphaned\<rparr>) m)"

text \<open>Dropping a reference: whether the caller now unregisters the type, and how that ends.\<close>

definition drop_type :: "string \<Rightarrow> type_registry \<Rightarrow> bool \<times> type_registry" where
  "drop_type name m = (case map_of m name of
       None \<Rightarrow> (False, m)
     | Some e \<Rightarrow>
         if ty_references e = 0 then (False, m)
         else if ty_references e - 1 \<noteq> 0 \<or> ty_phase e \<noteq> Active
         then (False, um_modify name (\<lambda>e. e\<lparr>ty_references := ty_references e - 1\<rparr>) m)
         else (True, um_modify name (\<lambda>e. e\<lparr>ty_references := ty_references e - 1, ty_phase := Retiring\<rparr>) m))"

definition retire_type :: "string \<Rightarrow> bool \<Rightarrow> type_registry \<Rightarrow> type_registry" where
  "retire_type name unregistered_ok m =
     (if unregistered_ok then um_erase name m else um_modify name (\<lambda>e. e\<lparr>ty_phase := Orphaned\<rparr>) m)"

definition admit_topic :: "bool \<Rightarrow> string \<Rightarrow> string \<Rightarrow> topic_registry \<Rightarrow> Admission \<times> topic_registry" where
  "admit_topic degraded name wire m =
     (if degraded then (Refuse DDSError, m)
      else case map_of m name of
        None \<Rightarrow> (CreateEntry, um_emplace name
            \<lparr>wire_type_name = wire, dds_topic = None, tp_phase = Creating, tp_references = 0\<rparr> m)
      | Some e \<Rightarrow>
          if wire_type_name e \<noteq> wire then (Refuse TypeMismatch, m)
          else if tp_phase e = Active
          then (ShareEntry, um_modify name (\<lambda>e. e\<lparr>tp_references := tp_references e + 1\<rparr>) m)
          else if tp_phase e = Orphaned then (Refuse DDSError, m)
          else (WaitForOther, m))"

definition settle_topic :: "string \<Rightarrow> nat Creation \<Rightarrow> topic_registry \<Rightarrow> topic_registry" where
  "settle_topic name answer m = (case answer of
       Made t \<Rightarrow> um_modify name (\<lambda>e. e\<lparr>dds_topic := Some t, tp_phase := Active, tp_references := 1\<rparr>) m
     | NotMade \<Rightarrow> um_erase name m
     | Threw \<Rightarrow> um_modify name (\<lambda>e. e\<lparr>tp_phase := Orphaned\<rparr>) m)"

text \<open>
  The first part of \<^verbatim>\<open>release_topic\<close>: either it answers at once (whether the DDS topic is in
  order), or the caller deletes the topic.
\<close>

datatype TopicRelease = Answer bool | DeleteTopic "nat option"

definition drop_topic :: "string \<Rightarrow> topic_registry \<Rightarrow> TopicRelease \<times> topic_registry" where
  "drop_topic name m = (case map_of m name of
       None \<Rightarrow> (Answer False, m)
     | Some e \<Rightarrow>
         if tp_references e = 0 then (Answer False, m)
         else let m1 = um_modify name (\<lambda>e. e\<lparr>tp_references := tp_references e - 1\<rparr>) m
              in if tp_references e - 1 \<noteq> 0 \<or> tp_phase e \<noteq> Active
                 then (Answer (tp_phase e = Active), m1)
                 else (DeleteTopic (dds_topic e), um_modify name (\<lambda>e. e\<lparr>tp_phase := Retiring\<rparr>) m1))"

definition retire_topic :: "string \<Rightarrow> bool \<Rightarrow> topic_registry \<Rightarrow> topic_registry" where
  "retire_topic name deleted m =
     (if deleted then um_erase name m else um_modify name (\<lambda>e. e\<lparr>tp_phase := Orphaned\<rparr>) m)"

text \<open>
  Who holds what. A \<open>TypeHandle\<close> is a \<^verbatim>\<open>TypeRegistration\<close> outside any topic; a \<open>TopicHandle\<close> is a
  \<^verbatim>\<open>Topic\<close> with the registration of its type; the other tokens are threads between two critical
  sections. \<open>Disarmed\<close> registrations are retained on purpose until the context ends.
\<close>

datatype Token =
    Registering string
  | Unregistering string
  | TypeHandle string
  | CreatingTopic string string
  | TopicHandle string string
  | DeletingTopic string string
  | Disarmed string

record Registries =
  registered_types :: type_registry
  topics :: topic_registry
  tokens :: "Token multiset"

definition new_registries :: Registries where
  "new_registries = \<lparr>registered_types = [], topics = [], tokens = {#}\<rparr>"

datatype RegEvent =
    AcquireType string nat
  | SettleType string "unit Creation"
  | AcquireTopic bool string string
  | SettleTopic string string "nat Creation"
  | ReleaseTopic string string
  | RetireTopic string string bool
  | ReleaseType string
  | RetireType string bool

text \<open>
  \<^verbatim>\<open>Topic::reset\<close>: when the DDS topic may still exist, the registration of its type is kept.
\<close>

definition topic_reset :: "bool \<Rightarrow> string \<Rightarrow> Token" where [simp]:
  "topic_reset topic_deleted t = (if topic_deleted then TypeHandle t else Disarmed t)"

definition swap :: "Token \<Rightarrow> Token multiset \<Rightarrow> Registries \<Rightarrow> Registries" where
  "swap old new s = s\<lparr>tokens := tokens s - {#old#} + new\<rparr>"

text \<open>
  One step of some thread. An event for which no thread is in the right place does nothing. A
  refused or waiting acquisition changes nothing: the type handle it holds stays, and is released
  (or used again) by a later event, as the destructor of the registration does.
\<close>

fun registry_exec :: "RegEvent \<Rightarrow> Registries \<Rightarrow> Registries" where
  "registry_exec (AcquireType t b) s =
     (let (a, m) = admit_type t b (registered_types s); s1 = s\<lparr>registered_types := m\<rparr>
      in case a of
           CreateEntry \<Rightarrow> s1\<lparr>tokens := add_mset (Registering t) (tokens s)\<rparr>
         | ShareEntry \<Rightarrow> s1\<lparr>tokens := add_mset (TypeHandle t) (tokens s)\<rparr>
         | _ \<Rightarrow> s1)"
| "registry_exec (SettleType t answer) s =
     (if Registering t \<in># tokens s
      then swap (Registering t) (case answer of Made _ \<Rightarrow> {#TypeHandle t#} | _ \<Rightarrow> {#})
             (s\<lparr>registered_types := settle_type t answer (registered_types s)\<rparr>)
      else s)"
| "registry_exec (AcquireTopic degraded n t) s =
     (if TypeHandle t \<in># tokens s
      then (let (a, m) = admit_topic degraded n t (topics s); s1 = s\<lparr>topics := m\<rparr>
            in case a of
                 CreateEntry \<Rightarrow> swap (TypeHandle t) {#CreatingTopic n t#} s1
               | ShareEntry \<Rightarrow> swap (TypeHandle t) {#TopicHandle n t#} s1
               | _ \<Rightarrow> s1)
      else s)"
| "registry_exec (SettleTopic n t answer) s =
     (if CreatingTopic n t \<in># tokens s
      then swap (CreatingTopic n t) (case answer of
               Made _ \<Rightarrow> {#TopicHandle n t#} | NotMade \<Rightarrow> {#TypeHandle t#} | Threw \<Rightarrow> {#Disarmed t#})
             (s\<lparr>topics := settle_topic n answer (topics s)\<rparr>)
      else s)"
| "registry_exec (ReleaseTopic n t) s =
     (if TopicHandle n t \<in># tokens s
      then (let (a, m) = drop_topic n (topics s)
            in swap (TopicHandle n t) (case a of
                   Answer ok \<Rightarrow> {#topic_reset ok t#}
                 | DeleteTopic _ \<Rightarrow> {#DeletingTopic n t#}) (s\<lparr>topics := m\<rparr>))
      else s)"
| "registry_exec (RetireTopic n t deleted) s =
     (if DeletingTopic n t \<in># tokens s
      then swap (DeletingTopic n t) {#topic_reset deleted t#}
             (s\<lparr>topics := retire_topic n deleted (topics s)\<rparr>)
      else s)"
| "registry_exec (ReleaseType t) s =
     (if TypeHandle t \<in># tokens s
      then (let (last_one, m) = drop_type t (registered_types s)
            in swap (TypeHandle t) (if last_one then {#Unregistering t#} else {#}) (s\<lparr>registered_types := m\<rparr>))
      else s)"
| "registry_exec (RetireType t unregistered_ok) s =
     (if Unregistering t \<in># tokens s
      then swap (Unregistering t) {#} (s\<lparr>registered_types := retire_type t unregistered_ok (registered_types s)\<rparr>)
      else s)"

definition registry_run :: "RegEvent list \<Rightarrow> Registries \<Rightarrow> Registries" where
  "registry_run es s = fold registry_exec es s"

fun tok_type :: "Token \<Rightarrow> string" where
  "tok_type (Registering t) = t"
| "tok_type (Unregistering t) = t"
| "tok_type (TypeHandle t) = t"
| "tok_type (CreatingTopic n t) = t"
| "tok_type (TopicHandle n t) = t"
| "tok_type (DeletingTopic n t) = t"
| "tok_type (Disarmed t) = t"

fun tok_topic :: "Token \<Rightarrow> string option" where
  "tok_topic (CreatingTopic n t) = Some n"
| "tok_topic (TopicHandle n t) = Some n"
| "tok_topic (DeletingTopic n t) = Some n"
| "tok_topic _ = None"

definition of_type :: "string \<Rightarrow> Token multiset \<Rightarrow> Token multiset" where
  "of_type t ts = filter_mset (\<lambda>k. tok_type k = t) ts"

definition on_topic :: "string \<Rightarrow> Token multiset \<Rightarrow> Token multiset" where
  "on_topic n ts = filter_mset (\<lambda>k. tok_topic k = Some n) ts"

definition type_entry_ok :: "RegisteredType option \<Rightarrow> string \<Rightarrow> Token multiset \<Rightarrow> bool" where
  "type_entry_ok e t T \<longleftrightarrow> (case e of
       None \<Rightarrow> T = {#}
     | Some e \<Rightarrow> (case ty_phase e of
           Creating \<Rightarrow> T = {#Registering t#}
         | Active \<Rightarrow> ty_references e = size T \<and> T \<noteq> {#} \<and> Registering t \<notin># T \<and> Unregistering t \<notin># T
         | Retiring \<Rightarrow> T = {#Unregistering t#}
         | Orphaned \<Rightarrow> T = {#}))"

definition topic_entry_ok :: "RegisteredTopic option \<Rightarrow> string \<Rightarrow> Token multiset \<Rightarrow> bool" where
  "topic_entry_ok e n ts \<longleftrightarrow> (case e of
       None \<Rightarrow> on_topic n ts = {#}
     | Some e \<Rightarrow> (case tp_phase e of
           Creating \<Rightarrow> on_topic n ts = {#CreatingTopic n (wire_type_name e)#}
         | Active \<Rightarrow> on_topic n ts = replicate_mset (tp_references e) (TopicHandle n (wire_type_name e)) \<and> 0 < tp_references e
         | Retiring \<Rightarrow> on_topic n ts = {#DeletingTopic n (wire_type_name e)#}
         | Orphaned \<Rightarrow> on_topic n ts = {#} \<and> Disarmed (wire_type_name e) \<in># ts))"

definition registries_ok :: "Registries \<Rightarrow> bool" where
  "registries_ok s \<longleftrightarrow>
     (\<forall>t. type_entry_ok (map_of (registered_types s) t) t (of_type t (tokens s))) \<and>
     (\<forall>n. topic_entry_ok (map_of (topics s) n) n (tokens s))"

lemma filter_none: "\<forall>k \<in># M. \<not> P k \<Longrightarrow> filter_mset P M = {#}"
  by (induction M) auto

lemma of_type_swap: "of_type t (ts - {#old#} + new) =
    of_type t ts - (if tok_type old = t then {#old#} else {#}) + of_type t new"
  by (simp add: of_type_def)

lemma on_topic_swap: "on_topic n (ts - {#old#} + new) =
    on_topic n ts - (if tok_topic old = Some n then {#old#} else {#}) + on_topic n new"
  by (simp add: on_topic_def)

lemma of_type_simps [simp]:
  "of_type t {#} = {#}" "of_type t (add_mset k ts) = (if tok_type k = t then add_mset k (of_type t ts) else of_type t ts)"
  by (simp_all add: of_type_def)

lemma on_topic_simps [simp]:
  "on_topic n {#} = {#}"
  "on_topic n (add_mset k ts) = (if tok_topic k = Some n then add_mset k (on_topic n ts) else on_topic n ts)"
  by (simp_all add: on_topic_def)

lemma on_topic_del [simp]:
  "on_topic n (ts - {#old#}) = on_topic n ts - (if tok_topic old = Some n then {#old#} else {#})"
  by (simp add: on_topic_def)

text \<open>A step that exchanges one token and changes the entry of its type (its topic) only.\<close>

lemma types_swap:
  assumes "\<forall>t. type_entry_ok (map_of m t) t (of_type t ts)"
    and "tok_type old = t" and "\<forall>k \<in># new. tok_type k = t"
    and "\<forall>t'. t' \<noteq> t \<longrightarrow> map_of m' t' = map_of m t'"
    and "type_entry_ok (map_of m' t) t (of_type t ts - {#old#} + new)"
  shows "\<forall>t'. type_entry_ok (map_of m' t') t' (of_type t' (ts - {#old#} + new))"
proof
  fix t'
  have new: "of_type t new = new" "t' \<noteq> t \<Longrightarrow> of_type t' new = {#}"
    using assms(3) by (auto simp: of_type_def filter_none filter_mset_eq_conv)
  show "type_entry_ok (map_of m' t') t' (of_type t' (ts - {#old#} + new))"
    using assms by (cases "t' = t") (simp_all add: of_type_swap new)
qed

lemma topic_entry_cong:
  "topic_entry_ok e n ts \<Longrightarrow> on_topic n ts' = on_topic n ts \<Longrightarrow>
     (\<And>t. Disarmed t \<in># ts \<Longrightarrow> Disarmed t \<in># ts') \<Longrightarrow> topic_entry_ok e n ts'"
  by (cases e) (auto simp: topic_entry_ok_def split: RegistryEntryPhase.splits)

lemma topics_swap:
  assumes "\<forall>n. topic_entry_ok (map_of m n) n ts"
    and "tok_topic old \<in> {None, Some n}" and "\<forall>k \<in># new. tok_topic k \<in> {None, Some n}"
    and "\<forall>n'. n' \<noteq> n \<longrightarrow> map_of m' n' = map_of m n'"
    and "\<forall>t. old \<noteq> Disarmed t"
    and "topic_entry_ok (map_of m' n) n (ts - {#old#} + new)"
  shows "\<forall>n'. topic_entry_ok (map_of m' n') n' (ts - {#old#} + new)"
proof
  fix n'
  show "topic_entry_ok (map_of m' n') n' (ts - {#old#} + new)"
  proof (cases "n' = n")
    case False
    have "on_topic n' new = {#}" using assms(3) False by (auto simp: on_topic_def intro!: filter_none)
    then have same: "on_topic n' (ts - {#old#} + new) = on_topic n' ts"
      using assms(2) False by (auto simp: on_topic_swap)
    have "Disarmed t \<in># ts \<Longrightarrow> Disarmed t \<in># ts - {#old#} + new" for t
      using assms(5) by (simp add: in_diff_count count_eq_zero_iff)
    with assms(1,4) False same show ?thesis by (metis topic_entry_cong)
  qed (use assms(6) in simp)
qed

lemma type_member: "k \<in># ts \<Longrightarrow> k \<in># of_type (tok_type k) ts"
  by (simp add: of_type_def)

lemma topic_member: "k \<in># ts \<Longrightarrow> tok_topic k = Some n \<Longrightarrow> k \<in># on_topic n ts"
  by (simp add: on_topic_def)

fun counted_token :: "Token \<Rightarrow> bool" where
  "counted_token (Registering t) = False"
| "counted_token (Unregistering t) = False"
| "counted_token _ = True"

lemma counted_entry:
  assumes "type_entry_ok e t T" and "k \<in># T" and "counted_token k"
  shows "\<exists>x. e = Some x \<and> ty_phase x = Active \<and> ty_references x = size T"
  using assms by (auto simp: type_entry_ok_def split: option.splits RegistryEntryPhase.splits)

lemma registering_entry:
  assumes "type_entry_ok e t T" and "Registering t \<in># T"
  shows "T = {#Registering t#} \<and> (\<exists>x. e = Some x \<and> ty_phase x = Creating)"
  using assms by (auto simp: type_entry_ok_def split: option.splits RegistryEntryPhase.splits)

lemma unregistering_entry:
  assumes "type_entry_ok e t T" and "Unregistering t \<in># T"
  shows "T = {#Unregistering t#} \<and> (\<exists>x. e = Some x \<and> ty_phase x = Retiring)"
  using assms by (auto simp: type_entry_ok_def split: option.splits RegistryEntryPhase.splits)

lemma types_exchange:
  assumes "\<forall>t. type_entry_ok (map_of m t) t (of_type t ts)" and "old \<in># ts"
    and "counted_token old" and "counted_token k" and "tok_type k = tok_type old"
  shows "\<forall>t. type_entry_ok (map_of m t) t (of_type t (ts - {#old#} + {#k#}))"
proof (rule types_swap [OF assms(1)])
  let ?t = "tok_type old"
  have mem: "old \<in># of_type ?t ts" using assms(2) by (rule type_member)
  obtain x where x: "map_of m ?t = Some x" "ty_phase x = Active" "ty_references x = size (of_type ?t ts)"
    using counted_entry [OF assms(1) [rule_format] mem assms(3)] by blast
  have "Registering ?t \<notin># of_type ?t ts" "Unregistering ?t \<notin># of_type ?t ts"
    using assms(1) [rule_format, of ?t] x by (auto simp: type_entry_ok_def)
  moreover have "0 < size (of_type ?t ts)" using mem by (auto simp: nonempty_has_size [symmetric])
  ultimately show "type_entry_ok (map_of m ?t) ?t (of_type ?t ts - {#old#} + {#k#})"
    using x mem assms(4) by (cases k) (auto simp: type_entry_ok_def size_Diff_singleton_if size_Suc_Diff1 dest: in_diffD)
qed (use assms(5) in simp_all)

lemma topics_same:
  assumes "\<forall>n. topic_entry_ok (map_of m n) n ts" and "tok_topic old = None" and "\<forall>t. old \<noteq> Disarmed t"
    and "\<forall>k \<in># new. tok_topic k = None"
  shows "\<forall>n. topic_entry_ok (map_of m n) n (ts - {#old#} + new)"
proof
  fix n
  have "on_topic n (ts - {#old#} + new) = on_topic n ts"
    using assms(2,4) by (simp add: on_topic_swap) (simp add: on_topic_def filter_none)
  moreover have "Disarmed t \<in># ts \<Longrightarrow> Disarmed t \<in># ts - {#old#} + new" for t
    using assms(3) by (simp add: in_diff_count count_eq_zero_iff)
  ultimately show "topic_entry_ok (map_of m n) n (ts - {#old#} + new)"
    using assms(1) topic_entry_cong by blast
qed

lemma topics_add: "\<forall>n. topic_entry_ok (map_of m n) n ts \<Longrightarrow> tok_topic k = None \<Longrightarrow>
    \<forall>n. topic_entry_ok (map_of m n) n (add_mset k ts)"
  using topic_entry_cong [of _ _ ts "add_mset k ts"] by fastforce

lemma types_add:
  assumes "\<forall>t. type_entry_ok (map_of m t) t (of_type t ts)" and "tok_type k = t"
    and "\<forall>t'. t' \<noteq> t \<longrightarrow> map_of m' t' = map_of m t'"
    and "type_entry_ok (map_of m' t) t (add_mset k (of_type t ts))"
  shows "\<forall>t. type_entry_ok (map_of m' t) t (of_type t (add_mset k ts))"
  using assms by auto

lemma creating_entry: "topic_entry_ok e n ts \<Longrightarrow> CreatingTopic n t \<in># ts \<Longrightarrow>
    \<exists>x. e = Some x \<and> tp_phase x = Creating \<and> wire_type_name x = t \<and> on_topic n ts = {#CreatingTopic n t#}"
  using topic_member [of "CreatingTopic n t" ts n]
  by (auto simp: topic_entry_ok_def split: option.splits RegistryEntryPhase.splits)

lemma handle_entry: "topic_entry_ok e n ts \<Longrightarrow> TopicHandle n t \<in># ts \<Longrightarrow>
    \<exists>x. e = Some x \<and> tp_phase x = Active \<and> wire_type_name x = t \<and> 0 < tp_references x \<and>
        on_topic n ts = replicate_mset (tp_references x) (TopicHandle n t)"
  using topic_member [of "TopicHandle n t" ts n]
  by (auto simp: topic_entry_ok_def split: option.splits RegistryEntryPhase.splits if_splits)

lemma deleting_entry: "topic_entry_ok e n ts \<Longrightarrow> DeletingTopic n t \<in># ts \<Longrightarrow>
    \<exists>x. e = Some x \<and> tp_phase x = Retiring \<and> wire_type_name x = t \<and> on_topic n ts = {#DeletingTopic n t#}"
  using topic_member [of "DeletingTopic n t" ts n]
  by (auto simp: topic_entry_ok_def split: option.splits RegistryEntryPhase.splits if_splits)

text \<open>Every event keeps both registries in step with what the threads hold.\<close>

lemma acquire_type_ok:
  assumes "registries_ok s"
  shows "registries_ok (registry_exec (AcquireType t b) s)"
proof -
  have e: "type_entry_ok (map_of (registered_types s) t) t (of_type t (tokens s))"
    and ty: "\<forall>t. type_entry_ok (map_of (registered_types s) t) t (of_type t (tokens s))"
    and tp: "\<forall>n. topic_entry_ok (map_of (topics s) n) n (tokens s)"
    using assms by (auto simp: registries_ok_def)
  obtain a m where am: "admit_type t b (registered_types s) = (a, m)" by fastforce
  show ?thesis
  proof (cases "a = CreateEntry \<or> a = ShareEntry")
    case True
    let ?k = "if a = CreateEntry then Registering t else TypeHandle t"
    have m: "\<forall>t'. t' \<noteq> t \<longrightarrow> map_of m t' = map_of (registered_types s) t'"
      and new: "type_entry_ok (map_of m t) t (add_mset ?k (of_type t (tokens s)))"
      using am True e
      by (auto simp: admit_type_def um.lookups type_entry_ok_def split: option.splits if_splits)
    have k: "tok_type ?k = t" "tok_topic ?k = None" by auto
    from types_add [OF ty k(1) m new] topics_add [OF tp k(2)] show ?thesis
      using am True by (auto simp: registries_ok_def Let_def split: if_splits)
  next
    case False
    then have "m = registered_types s" using am by (auto simp: admit_type_def split: option.splits if_splits)
    with False am assms show ?thesis by (simp add: Let_def split: Admission.splits)
  qed
qed

lemma settle_type_ok:
  assumes "registries_ok s" and "Registering t \<in># tokens s"
  shows "registries_ok (registry_exec (SettleType t answer) s)"
proof -
  have ty: "\<forall>t. type_entry_ok (map_of (registered_types s) t) t (of_type t (tokens s))"
    and tp: "\<forall>n. topic_entry_ok (map_of (topics s) n) n (tokens s)"
    using assms by (auto simp: registries_ok_def)
  let ?new = "case answer of Made _ \<Rightarrow> {#TypeHandle t#} | _ \<Rightarrow> {#}"
  let ?m = "settle_type t answer (registered_types s)"
  obtain x where x: "map_of (registered_types s) t = Some x" "ty_phase x = Creating"
    and T: "of_type t (tokens s) = {#Registering t#}"
    using registering_entry [OF ty [rule_format, of t]] type_member [OF assms(2)] by auto
  have m: "\<forall>t'. t' \<noteq> t \<longrightarrow> map_of ?m t' = map_of (registered_types s) t'"
    by (auto simp: settle_type_def um.lookups split: Creation.splits)
  have new: "type_entry_ok (map_of ?m t) t (of_type t (tokens s) - {#Registering t#} + ?new)"
    using x T by (auto simp: settle_type_def um.lookups type_entry_ok_def split: Creation.splits)
  have k: "\<forall>k \<in># ?new. tok_type k = t" "\<forall>k \<in># ?new. tok_topic k = None" by (auto split: Creation.splits)
  from types_swap [OF ty _ k(1) m new] topics_same [OF tp _ _ k(2), of "Registering t"] assms(2)
  show ?thesis by (simp add: registries_ok_def swap_def)
qed

lemma release_type_ok:
  assumes "registries_ok s" and "TypeHandle t \<in># tokens s"
  shows "registries_ok (registry_exec (ReleaseType t) s)"
proof -
  have ty: "\<forall>t. type_entry_ok (map_of (registered_types s) t) t (of_type t (tokens s))"
    and tp: "\<forall>n. topic_entry_ok (map_of (topics s) n) n (tokens s)"
    using assms by (auto simp: registries_ok_def)
  have mem: "TypeHandle t \<in># of_type t (tokens s)" using type_member [OF assms(2)] by simp
  obtain x where x: "map_of (registered_types s) t = Some x" "ty_phase x = Active"
      "ty_references x = size (of_type t (tokens s))"
    using counted_entry [OF ty [rule_format] mem] by auto
  obtain T where T: "of_type t (tokens s) = add_mset (TypeHandle t) T" using mem by (metis mset_add)
  obtain b m where bm: "drop_type t (registered_types s) = (b, m)" by fastforce
  let ?new = "if b then {#Unregistering t#} else {#}"
  have m: "\<forall>t'. t' \<noteq> t \<longrightarrow> map_of m t' = map_of (registered_types s) t'"
    using bm by (auto simp: drop_type_def um.lookups split: option.splits if_splits)
  have new: "type_entry_ok (map_of m t) t (of_type t (tokens s) - {#TypeHandle t#} + ?new)"
    using bm x T ty [rule_format, of t]
    by (auto simp: drop_type_def um.lookups type_entry_ok_def split: if_splits)
  have k: "\<forall>k \<in># ?new. tok_type k = t" "\<forall>k \<in># ?new. tok_topic k = None" by auto
  from types_swap [OF ty _ k(1) m new] topics_same [OF tp _ _ k(2), of "TypeHandle t"] assms(2) bm
  show ?thesis by (simp add: registries_ok_def swap_def Let_def)
qed

lemma retire_type_ok:
  assumes "registries_ok s" and "Unregistering t \<in># tokens s"
  shows "registries_ok (registry_exec (RetireType t ok) s)"
proof -
  have ty: "\<forall>t. type_entry_ok (map_of (registered_types s) t) t (of_type t (tokens s))"
    and tp: "\<forall>n. topic_entry_ok (map_of (topics s) n) n (tokens s)"
    using assms by (auto simp: registries_ok_def)
  let ?m = "retire_type t ok (registered_types s)"
  obtain x where x: "map_of (registered_types s) t = Some x" "ty_phase x = Retiring"
    and T: "of_type t (tokens s) = {#Unregistering t#}"
    using unregistering_entry [OF ty [rule_format, of t]] type_member [OF assms(2)] by auto
  have m: "\<forall>t'. t' \<noteq> t \<longrightarrow> map_of ?m t' = map_of (registered_types s) t'"
    by (auto simp: retire_type_def um.lookups)
  have new: "type_entry_ok (map_of ?m t) t (of_type t (tokens s) - {#Unregistering t#} + {#})"
    using x T by (auto simp: retire_type_def um.lookups type_entry_ok_def)
  from types_swap [OF ty _ _ m new] topics_same [OF tp, of "Unregistering t" "{#}"] assms(2)
  show ?thesis by (simp add: registries_ok_def swap_def)
qed

text \<open>A topic event exchanges one token for another of the same type and changes one topic entry.\<close>

lemma topic_event_ok:
  assumes "registries_ok s" and "old \<in># tokens s"
    and "counted_token old" and "counted_token k" and "tok_type k = tok_type old"
    and "tok_topic old \<in> {None, Some n}" and "tok_topic k \<in> {None, Some n}" and "\<forall>t. old \<noteq> Disarmed t"
    and "\<forall>n'. n' \<noteq> n \<longrightarrow> map_of m n' = map_of (topics s) n'"
    and "topic_entry_ok (map_of m n) n (tokens s - {#old#} + {#k#})"
  shows "registries_ok (swap old {#k#} (s\<lparr>topics := m\<rparr>))"
proof -
  have ty: "\<forall>t. type_entry_ok (map_of (registered_types s) t) t (of_type t (tokens s))"
    and tp: "\<forall>n. topic_entry_ok (map_of (topics s) n) n (tokens s)"
    using assms(1) by (auto simp: registries_ok_def)
  have k: "\<forall>k' \<in># {#k#}. tok_topic k' \<in> {None, Some n}" using assms(7) by simp
  show ?thesis
    using types_exchange [OF ty assms(2-5)] topics_swap [OF tp assms(6) k assms(9,8,10)]
    by (simp add: registries_ok_def swap_def)
qed

lemma acquire_topic_ok:
  assumes "registries_ok s" and "TypeHandle t \<in># tokens s"
  shows "registries_ok (registry_exec (AcquireTopic degraded n t) s)"
proof -
  have tp: "topic_entry_ok (map_of (topics s) n) n (tokens s)" using assms by (auto simp: registries_ok_def)
  obtain a m where am: "admit_topic degraded n t (topics s) = (a, m)" by fastforce
  show ?thesis
  proof (cases "a = CreateEntry \<or> a = ShareEntry")
    case True
    let ?k = "if a = CreateEntry then CreatingTopic n t else TopicHandle n t"
    have m: "\<forall>n'. n' \<noteq> n \<longrightarrow> map_of m n' = map_of (topics s) n'"
      using am True by (auto simp: admit_topic_def um.lookups split: option.splits if_splits)
    have "topic_entry_ok (map_of m n) n (tokens s - {#TypeHandle t#} + {#?k#})"
      using am True tp
      by (auto simp: admit_topic_def um.lookups topic_entry_ok_def on_topic_swap split: option.splits if_splits)
    from topic_event_ok [OF assms _ _ _ _ _ _ m this] show ?thesis
      using am True assms(2) by (auto simp: Let_def split: if_splits)
  next
    case False
    then have "m = topics s" using am by (auto simp: admit_topic_def split: option.splits if_splits)
    with False am assms show ?thesis by (simp add: Let_def split: Admission.splits)
  qed
qed

lemma settle_topic_ok:
  assumes "registries_ok s" and "CreatingTopic n t \<in># tokens s"
  shows "registries_ok (registry_exec (SettleTopic n t answer) s)"
proof -
  have tp: "topic_entry_ok (map_of (topics s) n) n (tokens s)" using assms by (auto simp: registries_ok_def)
  let ?k = "case answer of Made _ \<Rightarrow> TopicHandle n t | NotMade \<Rightarrow> TypeHandle t | Threw \<Rightarrow> Disarmed t"
  let ?m = "settle_topic n answer (topics s)"
  obtain x where x: "map_of (topics s) n = Some x" "tp_phase x = Creating" "wire_type_name x = t"
    "on_topic n (tokens s) = {#CreatingTopic n t#}"
    using creating_entry [OF tp assms(2)] by auto
  have m: "\<forall>n'. n' \<noteq> n \<longrightarrow> map_of ?m n' = map_of (topics s) n'"
    by (auto simp: settle_topic_def um.lookups split: Creation.splits)
  have "topic_entry_ok (map_of ?m n) n (tokens s - {#CreatingTopic n t#} + {#?k#})"
    using x by (auto simp: settle_topic_def um.lookups topic_entry_ok_def on_topic_swap split: Creation.splits)
  from topic_event_ok [OF assms _ _ _ _ _ _ m this] show ?thesis
    using assms(2) by (auto split: Creation.splits)
qed

lemma release_topic_ok:
  assumes "registries_ok s" and "TopicHandle n t \<in># tokens s"
  shows "registries_ok (registry_exec (ReleaseTopic n t) s)"
proof -
  have tp: "topic_entry_ok (map_of (topics s) n) n (tokens s)" using assms by (auto simp: registries_ok_def)
  obtain x r where x: "map_of (topics s) n = Some x" "tp_phase x = Active" "wire_type_name x = t"
    "tp_references x = Suc r" "on_topic n (tokens s) = replicate_mset (Suc r) (TopicHandle n t)"
    using handle_entry [OF tp assms(2)] by (auto simp: gr0_conv_Suc)
  obtain a m where am: "drop_topic n (topics s) = (a, m)" by fastforce
  have a: "if r = 0 then a = DeleteTopic (dds_topic x) else a = Answer True"
    using am x by (auto simp: drop_topic_def Let_def split: if_splits)
  let ?k = "if r = 0 then DeletingTopic n t else TypeHandle t"
  have m: "\<forall>n'. n' \<noteq> n \<longrightarrow> map_of m n' = map_of (topics s) n'"
    using am by (auto simp: drop_topic_def um.lookups Let_def split: option.splits if_splits)
  have "topic_entry_ok (map_of m n) n (tokens s - {#TopicHandle n t#} + {#?k#})"
    using x am by (auto simp: drop_topic_def Let_def um.lookups topic_entry_ok_def on_topic_swap)
  from topic_event_ok [OF assms _ _ _ _ _ _ m this] show ?thesis
    using am a assms(2) by (auto simp: Let_def split: if_splits)
qed

lemma retire_topic_ok:
  assumes "registries_ok s" and "DeletingTopic n t \<in># tokens s"
  shows "registries_ok (registry_exec (RetireTopic n t deleted) s)"
proof -
  have tp: "topic_entry_ok (map_of (topics s) n) n (tokens s)" using assms by (auto simp: registries_ok_def)
  let ?k = "if deleted then TypeHandle t else Disarmed t"
  let ?m = "retire_topic n deleted (topics s)"
  obtain x where x: "map_of (topics s) n = Some x" "tp_phase x = Retiring" "wire_type_name x = t"
    "on_topic n (tokens s) = {#DeletingTopic n t#}"
    using deleting_entry [OF tp assms(2)] by auto
  have m: "\<forall>n'. n' \<noteq> n \<longrightarrow> map_of ?m n' = map_of (topics s) n'"
    by (auto simp: retire_topic_def um.lookups)
  have "topic_entry_ok (map_of ?m n) n (tokens s - {#DeletingTopic n t#} + {#?k#})"
    using x by (auto simp: retire_topic_def um.lookups topic_entry_ok_def on_topic_swap)
  from topic_event_ok [OF assms _ _ _ _ _ _ m this] show ?thesis
    using assms(2) by (auto split: if_splits)
qed

lemma registry_exec_ok: "registries_ok s \<Longrightarrow> registries_ok (registry_exec e s)"
proof (cases e)
  case (AcquireType t b)
  then show "registries_ok s \<Longrightarrow> ?thesis" by (simp only: acquire_type_ok)
next
  case (SettleType t a)
  then show "registries_ok s \<Longrightarrow> ?thesis"
    by (cases "Registering t \<in># tokens s") (simp_all only: settle_type_ok, simp)
next
  case (AcquireTopic d n t)
  then show "registries_ok s \<Longrightarrow> ?thesis"
    by (cases "TypeHandle t \<in># tokens s") (simp_all only: acquire_topic_ok, simp)
next
  case (SettleTopic n t a)
  then show "registries_ok s \<Longrightarrow> ?thesis"
    by (cases "CreatingTopic n t \<in># tokens s") (simp_all only: settle_topic_ok, simp)
next
  case (ReleaseTopic n t)
  then show "registries_ok s \<Longrightarrow> ?thesis"
    by (cases "TopicHandle n t \<in># tokens s") (simp_all only: release_topic_ok, simp)
next
  case (RetireTopic n t d)
  then show "registries_ok s \<Longrightarrow> ?thesis"
    by (cases "DeletingTopic n t \<in># tokens s") (simp_all only: retire_topic_ok, simp)
next
  case (ReleaseType t)
  then show "registries_ok s \<Longrightarrow> ?thesis"
    by (cases "TypeHandle t \<in># tokens s") (simp_all only: release_type_ok, simp)
next
  case (RetireType t ok)
  then show "registries_ok s \<Longrightarrow> ?thesis"
    by (cases "Unregistering t \<in># tokens s") (simp_all only: retire_type_ok, simp)
qed

lemma registry_run_ok: "registries_ok s \<Longrightarrow> registries_ok (registry_run es s)"
  by (induction es arbitrary: s) (simp_all add: registry_run_def registry_exec_ok)

lemma new_registries_ok: "registries_ok new_registries"
  by (simp add: registries_ok_def new_registries_def type_entry_ok_def topic_entry_ok_def)

lemma topic_token:
  assumes "registries_ok s" and "map_of (topics s) n = Some e"
  shows "\<exists>k \<in># tokens s. counted_token k \<and> tok_type k = wire_type_name e"
proof -
  have "topic_entry_ok (Some e) n (tokens s)" using assms by (metis registries_ok_def)
  then have "(\<exists>k \<in># on_topic n (tokens s). counted_token k \<and> tok_type k = wire_type_name e) \<or>
      Disarmed (wire_type_name e) \<in># tokens s"
    by (cases "tp_phase e") (auto simp: topic_entry_ok_def)
  then show ?thesis by (force simp: on_topic_def)
qed

section \<open>Creating and destroying a context\<close>

text \<open>
  What the destructor and the creation do to the participant, in order. The arguments are the
  answers of Fast DDS; an exception counts as a refusal, as in the source.
\<close>

datatype CtxEffect =
    CloseMetadata | DetachListener | DrainListener | DeleteContained | DeleteParticipant | RetainParticipant

record TeardownEnv =
  detached :: bool
  contained_deleted :: bool
  participant_deleted :: bool

definition delete_participant :: "TeardownEnv \<Rightarrow> CtxEffect list" where
  "delete_participant env = DeleteContained #
     (if contained_deleted env
      then DeleteParticipant # (if participant_deleted env then [] else [RetainParticipant])
      else [RetainParticipant])"

definition destroy_context :: "bool \<Rightarrow> TeardownEnv \<Rightarrow> CtxEffect list" where
  "destroy_context has_listener env =
     CloseMetadata # (if has_listener then [DetachListener] else []) @
     (if has_listener \<and> \<not> detached env then [RetainParticipant]
      else (if has_listener then [DrainListener] else []) @ delete_participant env)"

text \<open>The guard that undoes a creation; it deletes even when the listener could not be detached.\<close>

definition creation_guard :: "TeardownEnv \<Rightarrow> CtxEffect list" where
  "creation_guard env = DetachListener # (if detached env then [DrainListener] else []) @ delete_participant env"

text \<open>
  \<open>transport\<close> is the result of \<^verbatim>\<open>GraphMetadataTransport::create\<close>, \<open>subscribed\<close> whether the graph
  accepted the subscription; the flag of the result is the publication of the first snapshot.
\<close>

definition install_graph_metadata_transport :: "bool \<Rightarrow> unit result \<Rightarrow> bool \<Rightarrow> unit result \<times> bool" where
  "install_graph_metadata_transport ros2 transport subscribed =
     (if \<not> ros2 then (success (), False)
      else case transport of
             Inl e \<Rightarrow> (failure e, False)
           | Inr _ \<Rightarrow> if \<not> subscribed then (failure ResourceExhausted, False) else (success (), True))"

record CreateEnv =
  participant_made :: bool
  containers_made :: bool
  baselines_read :: bool
  transport_result :: "unit result"
  graph_subscribed :: bool
  teardown :: TeardownEnv

definition create_context :: "bool \<Rightarrow> CreateEnv \<Rightarrow> unit result \<times> CtxEffect list" where
  "create_context ros2 env =
     (if \<not> participant_made env then (failure DDSError, [])
      else if \<not> containers_made env then (failure DDSError, creation_guard (teardown env))
      else if \<not> baselines_read env then (failure DDSError, creation_guard (teardown env))
      else case fst (install_graph_metadata_transport ros2 (transport_result env) (graph_subscribed env)) of
             Inl e \<Rightarrow> (failure e, destroy_context True (teardown env))
           | Inr _ \<Rightarrow> (success (), []))"

lemma delete_participant_end: "count_list (delete_participant env) RetainParticipant \<le> 1"
  by (simp add: delete_participant_def)

section \<open>Properties\<close>

text \<open>
  C6. When the call that executes the shutdown has returned, no operation is in progress and none
  can start, no callback can be registered, and the callbacks were called exactly once each: all
  that were registered, except those unregistered before the shutdown requested them.
\<close>

theorem shutdown_exact:
  assumes "ctx_reach s" and "shutdown_complete (runtime s)"
  shows "live_guards s = 0 \<and> active_operations (runtime s) = 0 \<and>
     fst (try_acquire_operation (runtime s)) = False \<and> fst (register_shutdown_callback (runtime s)) = 0 \<and>
     distinct (calls s) \<and> set (calls s) = registered s - unregistered s"
proof -
  have ok: "ctx_ok s" by (rule ctx_reach_ok [OF assms(1)])
  then have "executor s = Returned" and flag: "shutdown_flag (runtime s)" using assms(2) by (simp_all add: ctx_ok_def)
  then have "due s = []" using ok by (simp add: due_def ctx_ok_def)
  with ok flag assms(2) show ?thesis
    by (simp add: ctx_ok_def try_acquire_operation_def register_shutdown_callback_def)
qed

text \<open>
  C4. The type of a topic outlives it: whatever the threads do and whatever Fast DDS answers, the
  wire type of every entry of the topic registry, also of one that is being created, deleted or
  was orphaned, is registered and referenced, so it is never unregistered from DDS below a topic;
  and a topic handle names an active entry of its type, counted exactly.
\<close>

theorem type_outlives_topics:
  fixes es :: "RegEvent list"
  defines "s \<equiv> registry_run es new_registries"
  assumes "map_of (topics s) n = Some e"
  shows "(\<exists>ty. map_of (registered_types s) (wire_type_name e) = Some ty \<and> ty_phase ty = Active \<and> 0 < ty_references ty) \<and>
     (TopicHandle n t \<in># tokens s \<longrightarrow> tp_phase e = Active \<and> wire_type_name e = t \<and>
        tp_references e = count (tokens s) (TopicHandle n t))"
proof -
  have ok: "registries_ok s" unfolding s_def by (rule registry_run_ok [OF new_registries_ok])
  then have ty: "\<forall>t. type_entry_ok (map_of (registered_types s) t) t (of_type t (tokens s))"
    and tp: "topic_entry_ok (Some e) n (tokens s)" using assms(2) by (auto simp: registries_ok_def) metis
  obtain k where k: "k \<in># tokens s" "counted_token k" "tok_type k = wire_type_name e"
    using topic_token [OF ok assms(2)] by blast
  have mem: "k \<in># of_type (wire_type_name e) (tokens s)" using type_member [OF k(1)] k(3) by simp
  then have "0 < size (of_type (wire_type_name e) (tokens s))" by (auto simp: nonempty_has_size [symmetric])
  with counted_entry [OF ty [rule_format] mem k(2)]
  have type: "\<exists>ty. map_of (registered_types s) (wire_type_name e) = Some ty \<and> ty_phase ty = Active \<and> 0 < ty_references ty"
    by auto
  have "tp_phase e = Active \<and> wire_type_name e = t \<and> tp_references e = count (tokens s) (TopicHandle n t)"
    if h: "TopicHandle n t \<in># tokens s"
  proof -
    have e: "tp_phase e = Active" "wire_type_name e = t"
      "on_topic n (tokens s) = replicate_mset (tp_references e) (TopicHandle n t)"
      using handle_entry [OF tp h] by auto
    have "count (tokens s) (TopicHandle n t) = count (on_topic n (tokens s)) (TopicHandle n t)"
      by (simp add: on_topic_def)
    with e show ?thesis by simp
  qed
  with type show ?thesis by blast
qed

text \<open>
  No participant is leaked or used after its end: a failed creation and a destruction delete
  the participant or retain it for the process, never both successfully; the destructor deletes
  entities only behind a listener that is detached and drained, which the guard of a failed
  creation does not.
\<close>

theorem participant_never_leaked:
  "(case create_context ros2 env of
      (Inr _, effects) \<Rightarrow> effects = []
    | (Inl _, effects) \<Rightarrow> count_list effects RetainParticipant =
        (if participant_made env \<and> \<not> (DeleteParticipant \<in> set effects \<and> participant_deleted (teardown env)) then 1 else 0)) \<and>
   count_list (destroy_context has_listener tear) RetainParticipant =
     (if DeleteParticipant \<in> set (destroy_context has_listener tear) \<and> participant_deleted tear then 0 else 1) \<and>
   (DeleteContained \<in> set (destroy_context has_listener tear) \<longleftrightarrow> (has_listener \<longrightarrow> detached tear)) \<and>
   (\<not> detached tear \<longrightarrow> DeleteContained \<in> set (creation_guard tear) \<and> DrainListener \<notin> set (creation_guard tear))"
  by (auto simp: create_context_def creation_guard_def destroy_context_def delete_participant_def split: sum.splits)

definition done_1 :: CtxSys where
  "done_1 = start_ctx\<lparr>runtime := new_runtime\<lparr>shutdown_flag := True, shutdown_complete := True,
     shutdown_execution_state := Complete\<rparr>, executor := Returned\<rparr>"

lemma reach_done: "ctx_reach done_1"
proof -
  let ?a = "start_ctx\<lparr>runtime := new_runtime\<lparr>shutdown_flag := True\<rparr>, executor := Flagged\<rparr>"
  let ?b = "?a\<lparr>runtime := (runtime ?a)\<lparr>shutdown_execution_state := RequestingChildren\<rparr>, executor := Calling []\<rparr>"
  let ?c = "?b\<lparr>runtime := (runtime ?a)\<lparr>shutdown_execution_state := Complete\<rparr>, executor := Called\<rparr>"
  have "ctx_step start_ctx ?a"
    using ctx_step.begin_shutdown [of start_ctx "new_runtime\<lparr>shutdown_flag := True\<rparr>"]
    by (simp add: shutdown_begin_def start_ctx_def new_runtime_def)
  then have a: "ctx_reach ?a" by (rule ctx_reach.step [OF ctx_reach.start])
  have "ctx_step ?a ?b"
    using ctx_step.request [of ?a "[]" "runtime ?b"] by (simp add: shutdown_request_def start_ctx_def new_runtime_def)
  then have b: "ctx_reach ?b" by (rule ctx_reach.step [OF a])
  have "ctx_step ?b ?c" using ctx_step.all_called [of ?b] by (simp add: shutdown_called_def)
  then have c: "ctx_reach ?c" by (rule ctx_reach.step [OF b])
  have "ctx_step ?c done_1"
    using ctx_step.drain [of ?c "runtime done_1"]
    by (simp add: shutdown_drain_def start_ctx_def new_runtime_def done_1_def)
  then show ?thesis by (rule ctx_reach.step [OF c])
qed

theorem shutdown_exact_witness: "fst (try_acquire_operation (runtime done_1)) = False"
  using shutdown_exact [OF reach_done] by (simp add: done_1_def)

theorem type_outlives_topics_witness:
  "\<exists>ty. map_of (registered_types (registry_run [AcquireType ''T'' 1, SettleType ''T'' (Made ()),
       AcquireTopic False ''n'' ''T''] new_registries)) ''T'' = Some ty \<and> ty_phase ty = Active"
  using type_outlives_topics [of "[AcquireType ''T'' 1, SettleType ''T'' (Made ()), AcquireTopic False ''n'' ''T'']" "''n''"
      "\<lparr>wire_type_name = ''T'', dds_topic = None, tp_phase = Creating, tp_references = 0\<rparr>"]
  by (auto simp: registry_run_def new_registries_def admit_type_def settle_type_def admit_topic_def swap_def
      um_emplace_def um_modify_def)

theorem participant_never_leaked_witness:
  "count_list (destroy_context True \<lparr>detached = False, contained_deleted = True, participant_deleted = True\<rparr>) RetainParticipant = 1"
  using participant_never_leaked [where has_listener = True and tear = "\<lparr>detached = False, contained_deleted = True, participant_deleted = True\<rparr>"]
  by (simp add: destroy_context_def)

end
