(* ===== verification/ActionServer.thy ===== *)
theory ActionServer
  imports GoalRegistry ServerFsm
begin

text \<open>
  The action server of \<^verbatim>\<open>impl/action_impl.cpp\<close>: three servers (goal, cancel, result) and the
  goal registry, with the operations that span them, and the ready sets of
  \<^verbatim>\<open>dmw/action_common.hpp\<close>. First the operations as the code composes them, each run by itself,
  then the operations cut where other threads can run in between: \<^verbatim>\<open>accept_goal\<close> between its
  reservation, the write and the commit, and everything that touches the result server at each of
  its critical sections, with the steps of \<^verbatim>\<open>ServerFsm\<close>.
\<close>

section \<open>State and ready sets\<close>

record 'o ActionServer =
  goal_server :: ServerState
  cancel_server :: ServerState
  result_server :: ServerState
  goal_registry :: "'o GoalRegistry"

definition new_action_server :: "nat \<Rightarrow> nat \<Rightarrow> nat \<Rightarrow> int \<Rightarrow> 'o ActionServer" where
  "new_action_server goal_max cancel_max result_max timeout =
     \<lparr>goal_server = new_server goal_max, cancel_server = new_server cancel_max,
      result_server = new_server result_max, goal_registry = new_registry timeout\<rparr>"

record ActionServerReadySet =
  goal_request :: bool
  cancel_request :: bool
  result_request :: bool
  goal_expired :: bool

record ActionClientReadySet =
  goal_response :: bool
  cancel_response :: bool
  result_response :: bool
  feedback_ready :: bool
  status_ready :: bool

definition any_server_ready :: "ActionServerReadySet \<Rightarrow> bool" where
  "any_server_ready s \<longleftrightarrow> goal_request s \<or> cancel_request s \<or> result_request s \<or> goal_expired s"

definition any_client_ready :: "ActionClientReadySet \<Rightarrow> bool" where
  "any_client_ready c \<longleftrightarrow> goal_response c \<or> cancel_response c \<or> result_response c
     \<or> feedback_ready c \<or> status_ready c"

definition action_client_ready_set :: "u32 \<Rightarrow> ActionClientReadySet" where
  "action_client_ready_set bits =
     \<lparr>goal_response = (and bits (push_bit 0 1) \<noteq> 0), cancel_response = (and bits (push_bit 1 1) \<noteq> 0),
      result_response = (and bits (push_bit 2 1) \<noteq> 0), feedback_ready = (and bits (push_bit 3 1) \<noteq> 0),
      status_ready = (and bits (push_bit 4 1) \<noteq> 0)\<rparr>"

definition action_server_ready_set :: "u32 \<Rightarrow> ActionServerReadySet" where
  "action_server_ready_set bits =
     \<lparr>goal_request = (and bits (push_bit 0 1) \<noteq> 0), cancel_request = (and bits (push_bit 1 1) \<noteq> 0),
      result_request = (and bits (push_bit 2 1) \<noteq> 0), goal_expired = (and bits (push_bit 3 1) \<noteq> 0)\<rparr>"

section \<open>Operations\<close>

text \<open>
  The goal and cancel channels hand every call to their server. \<open>shut\<close> says that the context
  refuses an operation; an operation that takes two of them has a flag for each.
\<close>

definition act_read_goal_request where
  "act_read_goal_request us ug null shut create deliver unread takes a =
     (let (res, rid, s) = read_request us ug null shut create deliver unread takes (goal_server a)
      in (res, rid, a\<lparr>goal_server := s\<rparr>))"

definition act_read_cancel_request where
  "act_read_cancel_request us ug null shut create deliver unread takes a =
     (let (res, rid, s) = read_request us ug null shut create deliver unread takes (cancel_server a)
      in (res, rid, a\<lparr>cancel_server := s\<rparr>))"

definition act_read_result_request where
  "act_read_result_request us ug null shut create deliver unread takes a =
     (let (res, rid, s) = read_request us ug null shut create deliver unread takes (result_server a)
      in (res, rid, a\<lparr>result_server := s\<rparr>))"

definition act_write_goal_response where
  "act_write_goal_response ug null shut env rid a =
     (let (res, s) = write_response ug null shut env rid (goal_server a) in (res, a\<lparr>goal_server := s\<rparr>))"

definition act_write_cancel_response where
  "act_write_cancel_response ug null shut env rid a =
     (let (res, s) = write_response ug null shut env rid (cancel_server a) in (res, a\<lparr>cancel_server := s\<rparr>))"

definition act_discard_goal_request where
  "act_discard_goal_request shut rid a =
     (let (res, s) = discard_request shut rid (goal_server a) in (res, a\<lparr>goal_server := s\<rparr>))"

definition act_discard_cancel_request where
  "act_discard_cancel_request shut rid a =
     (let (res, s) = discard_request shut rid (cancel_server a) in (res, a\<lparr>cancel_server := s\<rparr>))"

text \<open>The section of \<^verbatim>\<open>write_result_response\<close> under the coordination mutex.\<close>

definition claim_result :: "bool \<Rightarrow> RequestId \<Rightarrow> 'o ActionServer \<Rightarrow> SampleIdentity result \<times> 'o ActionServer" where
  "claim_result shut rid a =
     (case claim_response shut rid (result_server a) of
        (Inl e, s) \<Rightarrow> (Inl e, a\<lparr>result_server := s\<rparr>)
      | (Inr identity, s) \<Rightarrow>
          (Inr identity, a\<lparr>result_server := s, goal_registry := remove_result_request rid (goal_registry a)\<rparr>))"

definition act_write_result_response ::
  "Guid \<Rightarrow> bool \<Rightarrow> bool \<Rightarrow> WriteEnv \<Rightarrow> RequestId \<Rightarrow> 'o ActionServer \<Rightarrow> unit result \<times> 'o ActionServer" where
  "act_write_result_response ug null shut env rid a =
     (if null then (Inl InvalidArgument, a)
      else case claim_result shut rid a of
        (Inl e, a1) \<Rightarrow> (Inl e, a1)
      | (Inr identity, a1) \<Rightarrow>
          let (res, s) = write_claimed_response ug False env rid identity (result_server a1)
          in (res, a1\<lparr>result_server := s\<rparr>))"

definition act_discard_result_request ::
  "bool \<Rightarrow> RequestId \<Rightarrow> 'o ActionServer \<Rightarrow> unit result \<times> 'o ActionServer" where
  "act_discard_result_request shut rid a =
     (let (discarded, s) = discard_request shut rid (result_server a);
          a1 = a\<lparr>result_server := s\<rparr>
      in (discarded,
          if discarded = Inr () \<or> discarded = Inl NotFound
          then a1\<lparr>goal_registry := remove_result_request rid (goal_registry a1)\<rparr> else a1))"

text \<open>
  \<^verbatim>\<open>accept_goal\<close>: the destructor of \<^verbatim>\<open>ReservationRollback\<close> runs on every path after the
  reservation but the successful one.
\<close>

definition act_accept_goal ::
  "Guid \<Rightarrow> bool \<Rightarrow> bool \<Rightarrow> bool \<Rightarrow> WriteEnv \<Rightarrow> RequestId \<Rightarrow> GoalInfo \<Rightarrow> GoalAcceptMode
    \<Rightarrow> 'o ActionServer \<Rightarrow> GoalTransition result \<times> 'o ActionServer" where
  "act_accept_goal ug null shut shut_write env rid info mode a =
     (if shut then (Inl ContextShutdown, a)
      else case reserve (goal_id info) (goal_registry a) of
        (False, g) \<Rightarrow> (Inl AlreadyExists, a\<lparr>goal_registry := g\<rparr>)
      | (True, g) \<Rightarrow>
          let rollback = (\<lambda>a. a\<lparr>goal_registry := rollback_reservation (goal_id info) (goal_registry a)\<rparr>)
          in case act_write_goal_response ug null shut_write env rid (a\<lparr>goal_registry := g\<rparr>) of
            (Inl e, a1) \<Rightarrow> (Inl e, rollback a1)
          | (Inr _, a1) \<Rightarrow>
              (case commit info mode (goal_registry a1) of
                (False, g1) \<Rightarrow> (Inl ProtocolFault, rollback (a1\<lparr>goal_registry := g1\<rparr>))
              | (True, g1) \<Rightarrow>
                  (Inr \<lparr>previous = Unknown, current = (if mode = ExecuteNow then Executing else Accepted),
                        became_terminal = False\<rparr>, a1\<lparr>goal_registry := g1\<rparr>)))"

definition act_goal_state :: "bool \<Rightarrow> GoalId \<Rightarrow> 'o ActionServer \<Rightarrow> GoalState result" where
  "act_goal_state shut k a = (if shut then Inl ContextShutdown else goal_state k (goal_registry a))"

definition act_update_goal_state ::
  "('o \<Rightarrow> bool) \<Rightarrow> int \<Rightarrow> bool \<Rightarrow> GoalId \<Rightarrow> GoalEvent \<Rightarrow> 'o ActionServer
    \<Rightarrow> GoalTransition result \<times> 'o list \<times> 'o ActionServer" where
  "act_update_goal_state alive now shut k event a =
     (if shut then (Inl ContextShutdown, [], a)
      else let (res, woken, g) = update_state alive now k event (goal_registry a)
           in (res, woken, a\<lparr>goal_registry := g\<rparr>))"

definition act_select_cancel_goals ::
  "bool \<Rightarrow> CancelGoalCriteria \<Rightarrow> 'o ActionServer \<Rightarrow> GoalInfo list result" where
  "act_select_cancel_goals shut c a =
     (if crit_stamp c < 0 then Inl InvalidArgument
      else if shut then Inl ContextShutdown
      else select_cancel_goals c (goal_registry a))"

definition act_register_result_request ::
  "('o \<Rightarrow> bool) \<Rightarrow> int \<Rightarrow> bool \<Rightarrow> GoalId \<Rightarrow> RequestId \<Rightarrow> 'o ActionServer
    \<Rightarrow> ResultRequestDisposition result \<times> 'o list \<times> 'o ActionServer" where
  "act_register_result_request alive now shut k rid a =
     (if shut then (Inl ContextShutdown, [], a)
      else case check_pending_request rid (result_server a) of
        Inl e \<Rightarrow> (Inl e, [], a)
      | Inr _ \<Rightarrow>
          let (res, woken, g) = register_result_request alive now k rid (goal_registry a)
          in (res, woken, a\<lparr>goal_registry := g\<rparr>))"

definition act_take_pending_result_requests ::
  "bool \<Rightarrow> GoalId \<Rightarrow> 'o ActionServer \<Rightarrow> RequestId list result \<times> 'o ActionServer" where
  "act_take_pending_result_requests shut k a =
     (if shut then (Inl ContextShutdown, a)
      else let (res, g) = take_pending_result_requests k (goal_registry a)
           in (res, a\<lparr>goal_registry := g\<rparr>))"

definition act_status_snapshot ::
  "('o \<Rightarrow> bool) \<Rightarrow> int \<Rightarrow> bool \<Rightarrow> 'o ActionServer \<Rightarrow> GoalStatusInfo list result \<times> 'o list \<times> 'o ActionServer" where
  "act_status_snapshot alive now shut a =
     (if shut then (Inl ContextShutdown, [], a)
      else let (infos, woken, g) = status_snapshot alive now (goal_registry a)
           in (Inr infos, woken, a\<lparr>goal_registry := g\<rparr>))"

definition act_take_expired_goals ::
  "('o \<Rightarrow> bool) \<Rightarrow> int \<Rightarrow> bool \<Rightarrow> 'o ActionServer \<Rightarrow> GoalId list result \<times> 'o list \<times> 'o ActionServer" where
  "act_take_expired_goals alive now shut a =
     (if shut then (Inl ContextShutdown, [], a)
      else let (ids, woken, g) = take_expired_goals alive now (goal_registry a)
           in (Inr ids, woken, a\<lparr>goal_registry := g\<rparr>))"

text \<open>\<open>ready\<close> is what \<^verbatim>\<open>is_ready\<close> answers for the wait states of the channels, in order.\<close>

definition act_server_readiness :: "int \<Rightarrow> bool \<Rightarrow> (nat \<Rightarrow> bool) \<Rightarrow> 'o ActionServer \<Rightarrow> ActionServerReadySet result" where
  "act_server_readiness now shut ready a =
     (if shut then Inl ContextShutdown
      else Inr \<lparr>goal_request = ready 0, cancel_request = ready 1, result_request = ready 2,
                goal_expired = expiry_ready now (goal_registry a)\<rparr>)"

definition act_client_readiness :: "bool \<Rightarrow> (nat \<Rightarrow> bool) \<Rightarrow> ActionClientReadySet result" where
  "act_client_readiness shut ready =
     (if shut then Inl ContextShutdown
      else Inr \<lparr>goal_response = ready 0, cancel_response = ready 1, result_response = ready 2,
                feedback_ready = ready 3, status_ready = ready 4\<rparr>)"

lemmas action_defs [op_defs] = claim_result_def act_write_result_response_def
  act_discard_result_request_def act_accept_goal_def act_register_result_request_def
  act_take_pending_result_requests_def act_write_goal_response_def

section \<open>Interleaved operations\<close>

text \<open>
  Where an accepting thread stands after its reservation, and what \<^verbatim>\<open>ServerFsm\<close> has of a server
  among its threads, here the result server: its reader, the threads that answer or discard, and
  the history of what was read and answered.
\<close>

datatype AcceptPc = Reserved | Written | Refused

record 'o ActionSys =
  act :: "'o ActionServer"
  accepting :: "(GoalId, AcceptPc) umap"
  result_reader :: ReaderPc
  result_threads :: "nat \<Rightarrow> ThreadPc"
  result_seen :: "RequestId set"
  result_answered :: "RequestId \<Rightarrow> nat"

definition start_action :: "'o ActionServer \<Rightarrow> 'o ActionSys" where
  "start_action a = \<lparr>act = a, accepting = [], result_reader = RIdle, result_threads = (\<lambda>_. TIdle),
     result_seen = {}, result_answered = (\<lambda>_. 0)\<rparr>"

definition result_sys :: "'o ActionSys \<Rightarrow> Sys" where
  "result_sys s = \<lparr>srv = result_server (act s), rd = result_reader s, threads = result_threads s,
     seen = result_seen s, answered = result_answered s\<rparr>"

definition with_results :: "Sys \<Rightarrow> 'o ActionSys \<Rightarrow> 'o ActionSys" where
  "with_results S s = s\<lparr>act := (act s)\<lparr>result_server := srv S\<rparr>, result_reader := rd S, result_threads := threads S,
     result_seen := seen S, result_answered := answered S\<rparr>"

text \<open>
  A step of some thread, other than a read of the result server and what follows a claim or a
  discard. The answers of the environment are part of it; the continuation of an operation that
  was cut runs only when its first part did. Claiming, discarding, registering and taking hold the
  coordination mutex: the registry is brought up to date in the step of the section of the result
  server. The goal and cancel servers run whole operations, which nothing else here depends on.
\<close>

datatype 'o ActionOp =
    AGoalChannel ServerOp | ACancelChannel ServerOp
  | AClaimResult nat bool RequestId | ADiscardResult nat bool RequestId
  | ARegister bool GoalId RequestId | ATakePending bool GoalId
  | AUpdate bool GoalId GoalEvent | ASnapshot bool | ATakeExpired bool | AObserve 'o
  | AReserve bool GoalId | ARespond bool bool WriteEnv RequestId GoalId
  | ACommit GoalInfo GoalAcceptMode | ARollback GoalId

definition op_claim_result :: "nat \<Rightarrow> bool \<Rightarrow> RequestId \<Rightarrow> 'o ActionSys \<Rightarrow> 'o ActionSys" where
  "op_claim_result t shut rid s =
     (if result_threads s t \<noteq> TIdle then s
      else case claim_result shut rid (act s) of
        (Inl e, a) \<Rightarrow> s\<lparr>act := a\<rparr>
      | (Inr identity, a) \<Rightarrow> s\<lparr>act := a, result_threads := (result_threads s)(t := TWriting rid)\<rparr>)"

definition op_discard_result :: "nat \<Rightarrow> bool \<Rightarrow> RequestId \<Rightarrow> 'o ActionSys \<Rightarrow> 'o ActionSys" where
  "op_discard_result t shut rid s =
     (if shut \<or> result_threads s t \<noteq> TIdle then s
      else let removed = remove_result_request rid (goal_registry (act s))
           in case discard_section rid (result_server (act s)) of
             (Inl e, s1) \<Rightarrow> if e = NotFound then s\<lparr>act := (act s)\<lparr>goal_registry := removed\<rparr>\<rparr> else s
           | (Inr was_full, s1) \<Rightarrow> s\<lparr>act := (act s)\<lparr>result_server := s1, goal_registry := removed\<rparr>,
                                    result_threads := (result_threads s)(t := TDiscarded was_full)\<rparr>)"

definition op_reserve :: "bool \<Rightarrow> GoalId \<Rightarrow> 'o ActionSys \<Rightarrow> 'o ActionSys" where
  "op_reserve shut k s =
     (if shut then s
      else case reserve k (goal_registry (act s)) of
        (False, g) \<Rightarrow> s
      | (True, g) \<Rightarrow> s\<lparr>act := (act s)\<lparr>goal_registry := g\<rparr>, accepting := um_emplace k Reserved (accepting s)\<rparr>)"

definition op_respond :: "Guid \<Rightarrow> bool \<Rightarrow> bool \<Rightarrow> WriteEnv \<Rightarrow> RequestId \<Rightarrow> GoalId \<Rightarrow> 'o ActionSys \<Rightarrow> 'o ActionSys" where
  "op_respond ug null shut env rid k s =
     (if map_of (accepting s) k \<noteq> Some Reserved then s
      else let (res, a) = act_write_goal_response ug null shut env rid (act s)
           in s\<lparr>act := a, accepting :=
                um_modify k (\<lambda>_. if res = Inr () then Written else Refused) (accepting s)\<rparr>)"

definition op_commit :: "GoalInfo \<Rightarrow> GoalAcceptMode \<Rightarrow> 'o ActionSys \<Rightarrow> 'o ActionSys" where
  "op_commit info mode s =
     (if map_of (accepting s) (goal_id info) \<noteq> Some Written then s
      else case commit info mode (goal_registry (act s)) of
        (False, g) \<Rightarrow>
          s\<lparr>act := (act s)\<lparr>goal_registry := rollback_reservation (goal_id info) g\<rparr>,
            accepting := um_erase (goal_id info) (accepting s)\<rparr>
      | (True, g) \<Rightarrow>
          s\<lparr>act := (act s)\<lparr>goal_registry := g\<rparr>, accepting := um_erase (goal_id info) (accepting s)\<rparr>)"

definition op_rollback :: "GoalId \<Rightarrow> 'o ActionSys \<Rightarrow> 'o ActionSys" where
  "op_rollback k s =
     (if map_of (accepting s) k \<noteq> Some Refused then s
      else s\<lparr>act := (act s)\<lparr>goal_registry := rollback_reservation k (goal_registry (act s))\<rparr>,
             accepting := um_erase k (accepting s)\<rparr>)"

fun action_exec ::
  "SequenceNumber \<Rightarrow> Guid \<Rightarrow> ('o \<Rightarrow> bool) \<Rightarrow> int \<Rightarrow> 'o ActionOp \<Rightarrow> 'o ActionSys \<Rightarrow> 'o ActionSys" where
  "action_exec us ug alive now (AGoalChannel op) s =
     s\<lparr>act := (act s)\<lparr>goal_server := server_exec us ug op (goal_server (act s))\<rparr>\<rparr>"
| "action_exec us ug alive now (ACancelChannel op) s =
     s\<lparr>act := (act s)\<lparr>cancel_server := server_exec us ug op (cancel_server (act s))\<rparr>\<rparr>"
| "action_exec us ug alive now (AClaimResult t shut rid) s = op_claim_result t shut rid s"
| "action_exec us ug alive now (ADiscardResult t shut rid) s = op_discard_result t shut rid s"
| "action_exec us ug alive now (ARegister shut k rid) s =
     s\<lparr>act := snd (snd (act_register_result_request alive now shut k rid (act s)))\<rparr>"
| "action_exec us ug alive now (ATakePending shut k) s =
     s\<lparr>act := snd (act_take_pending_result_requests shut k (act s))\<rparr>"
| "action_exec us ug alive now (AUpdate shut k ev) s =
     s\<lparr>act := snd (snd (act_update_goal_state alive now shut k ev (act s)))\<rparr>"
| "action_exec us ug alive now (ASnapshot shut) s =
     s\<lparr>act := snd (snd (act_status_snapshot alive now shut (act s)))\<rparr>"
| "action_exec us ug alive now (ATakeExpired shut) s =
     s\<lparr>act := snd (snd (act_take_expired_goals alive now shut (act s)))\<rparr>"
| "action_exec us ug alive now (AObserve ob) s =
     s\<lparr>act := (act s)\<lparr>goal_registry := observe_expiry alive ob (goal_registry (act s))\<rparr>\<rparr>"
| "action_exec us ug alive now (AReserve shut k) s = op_reserve shut k s"
| "action_exec us ug alive now (ARespond null shut env rid k) s = op_respond ug null shut env rid k s"
| "action_exec us ug alive now (ACommit info mode) s = op_commit info mode s"
| "action_exec us ug alive now (ARollback k) s = op_rollback k s"

text \<open>
  With \<open>orderly\<close> the application uses the id of a result request only after the read has returned
  it, and lets one thread at a time answer a given request: what \<^verbatim>\<open>ServerFsm\<close> asks with \<open>excl\<close>.
\<close>

fun orderly_op :: "'o ActionOp \<Rightarrow> 'o ActionSys \<Rightarrow> bool" where
  "orderly_op (AClaimResult t shut rid) s \<longleftrightarrow>
     result_reader s \<noteq> RCommit rid \<and> (\<forall>u. handles (result_threads s u) \<noteq> Some rid)"
| "orderly_op (ARegister shut k rid) s \<longleftrightarrow> result_reader s \<noteq> RCommit rid"
| "orderly_op _ s \<longleftrightarrow> True"

text \<open>
  What a server and its registry can have become, at any times and with any live observers. A
  \<open>inner\<close> step is one of the reader of the result server or of a thread that goes on with an answer or a
  discard; threads start those only with \<open>AClaimResult\<close> and \<open>ADiscardResult\<close>.
\<close>

inductive action_steps :: "bool \<Rightarrow> 'o ActionServer \<Rightarrow> 'o ActionSys \<Rightarrow> bool" for orderly a where
  start: "action_steps orderly a (start_action a)"
| step: "action_steps orderly a s \<Longrightarrow> orderly \<longrightarrow> orderly_op op s \<Longrightarrow>
    action_steps orderly a (action_exec us ug alive now op s)"
| inner: "action_steps orderly a s \<Longrightarrow> sys_step orderly (result_sys s) S \<Longrightarrow>
    \<forall>t. result_threads s t = TIdle \<longrightarrow> threads S t = TIdle \<Longrightarrow> action_steps orderly a (with_results S s)"

text \<open>Every interleaving, whatever the application does.\<close>

abbreviation action_reach :: "'o ActionServer \<Rightarrow> 'o ActionSys \<Rightarrow> bool" where
  "action_reach \<equiv> action_steps False"

lemma result_sys_simps [simp]:
  "srv (result_sys s) = result_server (act s)" "rd (result_sys s) = result_reader s"
  "threads (result_sys s) = result_threads s" "seen (result_sys s) = result_seen s"
  "answered (result_sys s) = result_answered s" "result_sys (with_results S s) = S"
  "goal_registry (act (with_results S s)) = goal_registry (act s)" "accepting (with_results S s) = accepting s"
  by (simp_all add: result_sys_def with_results_def)

lemma with_results_simps [simp]:
  "with_results S' (with_results S s) = with_results S' s" "with_results (result_sys s) s = s"
  "result_threads (with_results S s) = threads S"
  by (simp_all add: with_results_def result_sys_def)

lemma inner_chain:
  "action_steps orderly a (with_results S s) \<Longrightarrow> sys_step orderly S S' \<Longrightarrow>
    \<forall>t. threads S t = TIdle \<longrightarrow> threads S' t = TIdle \<Longrightarrow> action_steps orderly a (with_results S' s)"
  using action_steps.inner [of orderly a "with_results S s" S'] by simp

text \<open>\<open>write_result_response\<close> is its sections run one after the other.\<close>

lemma write_result_sections:
  assumes "action_reach a s" "\<not> null" "result_threads s t = TIdle"
  shows "\<exists>s'. action_reach a s' \<and> act s' = snd (act_write_result_response ug null shut env rid (act s))
    \<and> result_threads s' = result_threads s"
proof -
  let ?s = "op_claim_result t shut rid s"
  have reach: "action_reach a ?s"
    using action_steps.step [OF assms(1), of "AClaimResult t shut rid"] by simp
  show ?thesis
  proof (cases rule: claim_cases [of shut rid "result_server (act s)"])
    case (refused e)
    then show ?thesis
      using assms(1,2) by (intro exI [of _ s]) (simp add: act_write_result_response_def claim_result_def)
  next
    case (claimed p)
    define S1 where "S1 = result_sys ?s"
    let ?i = "pr_identity p"
    have S1: "threads S1 = (result_threads s)(t := TWriting rid)" "act ?s = snd (claim_result shut rid (act s))"
      using claimed assms(3) by (simp_all add: S1_def op_claim_result_def claim_result_def)
    have 0: "action_reach a (with_results S1 ?s)" using reach by (simp add: S1_def)
    have close: "\<exists>s'. action_reach a s' \<and> act s' = (act ?s)\<lparr>result_server := restore_pending rid (srv S)\<rparr>
        \<and> result_threads s' = result_threads s"
      if "action_reach a (with_results S ?s)" "threads S = (result_threads s)(t := TRestore rid)" for S
    proof -
      have "action_reach a (with_results (S\<lparr>srv := restore_pending rid (srv S), threads := (threads S)(t := TIdle)\<rparr>) ?s)"
        by (rule inner_chain [OF that(1) destructor]) (simp_all add: that(2))
      then show ?thesis using assms(3) by (intro exI conjI) (auto simp: with_results_def that(2) fun_eq_iff)
    qed
    have out: "snd (act_write_result_response ug null shut env rid (act s)) =
        (act ?s)\<lparr>result_server := restore_pending rid (snd (write_body ug False env rid ?i (srv S1)))\<rparr>"
      using claimed assms(2,3)
      by (simp add: act_write_result_response_def S1_def op_claim_result_def claim_result_def write_claimed_response_def case_prod_beta Let_def)
    let ?R = "\<lambda>s1. S1\<lparr>srv := s1, threads := (threads S1)(t := TRestore rid)\<rparr>"
    have early: "action_reach a (with_results (?R s1) ?s)" if "s1 = srv S1 \<or> s1 = restore_pending rid (srv S1)" for s1
      using that
    proof
      assume "s1 = srv S1"
      then show ?thesis
        using inner_chain [OF 0 fail_early [of S1 t rid False]] by (simp add: S1)
    next
      assume "s1 = restore_pending rid (srv S1)"
      then show ?thesis
        using inner_chain [OF 0 fail_section [of S1 t rid False]] by (simp add: S1)
    qed
    show ?thesis
      using write_body_cases [of ug False env rid ?i "srv S1"]
    proof
      assume w: "write_body ug False env rid ?i (srv S1) = (Inr (), enable_if (release_pending_request rid (srv S1)))"
      obtain b s1 where r: "release_pending_request rid (srv S1) = (b, s1)" by fastforce
      let ?S2 = "S1\<lparr>srv := s1, threads := (threads S1)(t := TWake b rid)\<rparr>"
      let ?S3 = "?S2\<lparr>srv := enable_if (b, s1), threads := (threads S1)(t := TRestore rid)\<rparr>"
      have "sys_step False S1 ?S2" by (rule target_removed [OF _ r]) (simp add: S1)
      with 0 have 2: "action_reach a (with_results ?S2 ?s)" by (rule inner_chain) (simp add: S1)
      have "sys_step False ?S2 ?S3" using writer_wake [of ?S2 t b rid False] by simp
      with 2 have "action_reach a (with_results ?S3 ?s)" by (rule inner_chain) (simp add: S1)
      from close [OF this] show ?thesis using out w r by (simp add: S1)
    next
      assume "\<exists>e s'. write_body ug False env rid ?i (srv S1) = (Inl e, s') \<and> (s' = srv S1 \<or> s' = restore_pending rid (srv S1))"
      then obtain s' where "snd (write_body ug False env rid ?i (srv S1)) = s'" "s' = srv S1 \<or> s' = restore_pending rid (srv S1)"
        by fastforce
      with close [OF early] show ?thesis using out by (simp add: S1)
    qed
  qed
qed

text \<open>\<open>accept_goal\<close> is its sections run one after the other.\<close>

lemma accept_sections:
  assumes "accepting s = []" "\<not> shut" "map_of (goals (goal_registry (act s))) (goal_id info) = None"
  shows "act (op_rollback (goal_id info) (op_commit info mode
           (op_respond ug null shut_write env rid (goal_id info) (op_reserve shut (goal_id info) s))))
      = snd (act_accept_goal ug null shut shut_write env rid info mode (act s))"
proof -
  let ?k = "goal_id info"
  obtain g where g: "reserve ?k (goal_registry (act s)) = (True, g)"
    using assms(3) by (simp add: reserve_def)
  obtain res a where w: "act_write_goal_response ug null shut_write env rid
      ((act s)\<lparr>goal_registry := g\<rparr>) = (res, a)" by fastforce
  obtain ok g1 where c: "commit info mode (goal_registry a) = (ok, g1)" by fastforce
  show ?thesis
    using assms g w c
    by (cases res; cases ok)
      (simp_all add: op_reserve_def op_respond_def op_commit_def op_rollback_def act_accept_goal_def
        um_emplace_def um_modify_def um_erase_def Let_def)
qed

section \<open>What the registry holds\<close>

definition waits :: "'o GoalRegistry \<Rightarrow> RequestId \<Rightarrow> bool" where
  "waits g rid \<longleftrightarrow> (\<exists>k r. map_of (goals g) k = Some r \<and> rid \<in> set (pending_result_requests r))"

definition reserved_only :: "'o GoalRegistry \<Rightarrow> GoalId \<Rightarrow> bool" where
  "reserved_only g k \<longleftrightarrow> (\<exists>r. map_of (goals g) k = Some r \<and> \<not> committed r)"

lemma waitsI: "map_of (goals g) k = Some r \<Longrightarrow> rid \<in> set (pending_result_requests r) \<Longrightarrow> waits g rid"
  unfolding waits_def by blast

lemma waitsE:
  assumes "waits g rid"
  obtains k r where "map_of (goals g) k = Some r" "rid \<in> set (pending_result_requests r)"
  using assms unfolding waits_def by blast

text \<open>An operation that neither adds a waiting request nor touches a reservation.\<close>

definition quiet :: "'o GoalRegistry \<Rightarrow> 'o GoalRegistry \<Rightarrow> bool" where
  "quiet g g' \<longleftrightarrow> (\<forall>rid. waits g' rid \<longrightarrow> waits g rid) \<and> (\<forall>k. reserved_only g' k \<longleftrightarrow> reserved_only g k)"

lemma quietI:
  assumes "\<And>k r'. map_of (goals g') k = Some r' \<Longrightarrow> \<exists>r. map_of (goals g) k = Some r
      \<and> set (pending_result_requests r') \<subseteq> set (pending_result_requests r) \<and> (committed r' \<longleftrightarrow> committed r)"
    and "\<And>k r. map_of (goals g) k = Some r \<Longrightarrow> \<not> committed r \<Longrightarrow>
      \<exists>r'. map_of (goals g') k = Some r' \<and> \<not> committed r'"
  shows "quiet g g'"
  unfolding quiet_def reserved_only_def
proof (intro conjI allI impI iffI)
  fix rid
  assume "waits g' rid"
  then show "waits g rid" using assms(1) by (meson waitsE waitsI subsetD)
next
  fix k
  assume "\<exists>r. map_of (goals g') k = Some r \<and> \<not> committed r"
  then show "\<exists>r. map_of (goals g) k = Some r \<and> \<not> committed r" using assms(1) by meson
next
  fix k
  assume "\<exists>r. map_of (goals g) k = Some r \<and> \<not> committed r"
  then show "\<exists>r. map_of (goals g') k = Some r \<and> \<not> committed r" using assms(2) by meson
qed

lemma quiet_same: "goals g' = goals g \<Longrightarrow> quiet g g'"
  by (simp add: quiet_def waits_def reserved_only_def)

lemma quiet_trans: "quiet g g1 \<Longrightarrow> quiet g1 g2 \<Longrightarrow> quiet g g2"
  by (simp add: quiet_def)

lemma quiet_prune: "registry_ok g \<Longrightarrow> quiet g (snd (prune_expired alive now g))"
  by (rule quietI) (auto simp del: prune_simps simp: registry_ok_def lookup_prune split: option.splits if_splits)

lemma quiet_modify:
  assumes "map_of (goals g) k = Some r" "committed (f r) = committed r"
    and "set (pending_result_requests (f r)) \<subseteq> set (pending_result_requests r)"
    and "\<And>k'. map_of (goals g') k' = (if k' = k then Some (f r) else map_of (goals g) k')"
  shows "quiet g g'"
  by (rule quietI) (use assms in \<open>auto split: if_splits\<close>)

lemma quiet_update: "quiet g (snd (snd (update_state alive now k ev g)))"
proof (cases rule: update_state_cases [of alive now k ev g])
  case (moved r s w g')
  have "quiet g g'"
    by (rule quiet_modify [of g k r "moved now s"])
      (use moved in \<open>simp_all add: committed_goal_Some moved_def Let_def\<close>)
  then show ?thesis by (simp add: moved(4))
qed (simp add: quiet_same)

lemma quiet_take: "quiet g (snd (take_pending_result_requests k g))"
proof (cases "committed_goal g k")
  case (Some r)
  show ?thesis
    by (rule quiet_modify [of g k r "\<lambda>r. r\<lparr>pending_result_requests := []\<rparr>"])
      (use Some in \<open>simp_all add: committed_goal_Some lookup_take\<close>)
qed (simp add: quiet_same take_pending_result_requests_def)

lemma quiet_remove: "quiet g (remove_result_request rid g)"
  by (rule quietI) (auto simp: lookup_remove)

lemma waits_remove: "waits (remove_result_request rid g) x \<longleftrightarrow> waits g x \<and> x \<noteq> rid"
proof
  assume "waits (remove_result_request rid g) x"
  then show "waits g x \<and> x \<noteq> rid" using quiet_remove [of g rid]
    by (cases "x = rid") (auto simp: quiet_def lookup_remove elim!: waitsE [of "remove_result_request rid g" rid])
next
  assume "waits g x \<and> x \<noteq> rid"
  then obtain k r where "map_of (goals g) k = Some r" "x \<in> set (pending_result_requests r)" "x \<noteq> rid"
    by (blast elim: waitsE)
  then show "waits (remove_result_request rid g) x"
    by (intro waitsI [of _ k "r\<lparr>pending_result_requests := filter (\<lambda>x. x \<noteq> rid) (pending_result_requests r)\<rparr>"])
      (simp_all add: lookup_remove)
qed

lemma quiet_snapshot: "registry_ok g \<Longrightarrow> quiet g (snd (snd (status_snapshot alive now g)))"
  using quiet_prune [of g alive now] by (simp add: status_snapshot_def case_prod_beta)

lemma quiet_expired: "registry_ok g \<Longrightarrow> quiet g (snd (snd (take_expired_goals alive now g)))"
  using quiet_trans [OF quiet_prune [of g alive now] quiet_same]
  by (simp add: take_expired_goals_def case_prod_beta)

lemma quiet_observe: "quiet g (observe_expiry alive ob g)"
  by (simp add: quiet_same observe_expiry_def)

lemma register_effect:
  assumes "registry_ok g"
  shows "waits (snd (snd (register_result_request alive now k rid g))) x \<Longrightarrow> waits g x \<or> x = rid"
    and "reserved_only (snd (snd (register_result_request alive now k rid g))) k' \<longleftrightarrow> reserved_only g k'"
proof -
  have q: "quiet g (snd (prune_expired alive now g))" by (rule quiet_prune [OF assms])
  have "(waits (snd (snd (register_result_request alive now k rid g))) x \<longrightarrow> waits g x \<or> x = rid)
    \<and> (reserved_only (snd (snd (register_result_request alive now k rid g))) k' \<longleftrightarrow> reserved_only g k')"
  proof (cases rule: register_cases [of alive now k rid g])
    case (kept d)
    then show ?thesis using q by (simp add: quiet_def)
  next
    case (added r)
    then have "(waits (snd (snd (register_result_request alive now k rid g))) x \<longrightarrow>
          waits (snd (prune_expired alive now g)) x \<or> x = rid)
      \<and> (reserved_only (snd (snd (register_result_request alive now k rid g))) k' \<longleftrightarrow>
          reserved_only (snd (prune_expired alive now g)) k')"
      unfolding waits_def reserved_only_def
      by (simp add: committed_goal_Some um.lookup_modify del: prune_simps split: if_split) blast
    then show ?thesis using q by (simp add: quiet_def del: prune_simps) blast
  qed
  then show "waits (snd (snd (register_result_request alive now k rid g))) x \<Longrightarrow> waits g x \<or> x = rid"
    and "reserved_only (snd (snd (register_result_request alive now k rid g))) k' \<longleftrightarrow> reserved_only g k'"
    by blast+
qed

lemma reserve_effect:
  "waits (snd (reserve k g)) x \<longleftrightarrow> waits g x"
  "reserved_only (snd (reserve k g)) k' \<longleftrightarrow> reserved_only g k' \<or> (k' = k \<and> map_of (goals g) k = None)"
proof -
  show "waits (snd (reserve k g)) x \<longleftrightarrow> waits g x"
    unfolding waits_def lookup_reserve by (auto split: if_splits)
  show "reserved_only (snd (reserve k g)) k' \<longleftrightarrow> reserved_only g k' \<or> (k' = k \<and> map_of (goals g) k = None)"
    by (auto simp: reserved_only_def lookup_reserve)
qed

lemma rollback_effect:
  "waits (rollback_reservation k g) x \<Longrightarrow> waits g x"
  "reserved_only (rollback_reservation k g) k' \<longleftrightarrow> reserved_only g k' \<and> k' \<noteq> k"
  unfolding waits_def reserved_only_def lookup_rollback committed_goal_def
  by (auto split: option.splits if_splits)

lemma commit_effect:
  assumes "reserved_only g (goal_id info)"
  shows "fst (commit info mode g)"
    and "waits (snd (commit info mode g)) x \<Longrightarrow> waits g x"
    and "reserved_only (snd (commit info mode g)) k \<longleftrightarrow> reserved_only g k \<and> k \<noteq> goal_id info"
  using assms unfolding waits_def reserved_only_def
  by (auto simp: lookup_commit committed_goal_def commit_def commit_record_def um.lookup_modify split: if_splits option.splits)

section \<open>What the result server holds\<close>

definition phase_at :: "ServerState \<Rightarrow> RequestId \<Rightarrow> PendingPhase option" where
  "phase_at s rid = map_option pr_phase (map_of (pending s) rid)"

lemma phase_at_write:
  assumes "server_ok s" "phase_at s rid = Some PhaseResponding"
    and "write_claimed_response ug False env rid i s = (res, s')"
  shows "server_ok s'"
    and "phase_at s' x = (if x = rid then (if res = Inr () then None else Some PhasePending) else phase_at s x)"
proof -
  have p: "map_of (pending s) rid \<noteq> None" using assms(2) by (auto simp: phase_at_def)
  show "server_ok s'" using write_claimed_ok [OF assms(1) p, of ug False env i] assms(3) by simp
  show "phase_at s' x = (if x = rid then (if res = Inr () then None else Some PhasePending) else phase_at s x)"
    using write_body_cases [of ug False env rid i s] p assms(3)
    by (auto simp: write_claimed_response_def phase_at_def lookup_restore lookup_release
        enable_if_def set_blocking_enabled_def restore_pending_def release_pending_request_def
        um.lookup_erase um.lookup_modify split: if_splits)
qed

lemma phase_at_claim:
  obtains (refused) e where "claim_response shut rid s = (Inl e, s)"
  | (claimed) i s' where "claim_response shut rid s = (Inr i, s')" "phase_at s rid = Some PhasePending"
      "\<And>x. phase_at s' x = (if x = rid then Some PhaseResponding else phase_at s x)"
      "server_ok s \<Longrightarrow> server_ok s'"
proof (cases rule: claim_cases [of shut rid s])
  case (claimed p)
  show thesis
    by (rule that(2) [OF claimed(3)])
      (use claimed claim_ok [of s shut rid] in \<open>simp_all add: phase_at_def um.lookup_modify\<close>)
qed (rule that(1))

lemma pending_iff: "check_pending_request rid s = Inr () \<longleftrightarrow> phase_at s rid = Some PhasePending"
  by (auto simp: check_pending_request_def phase_at_def split: option.splits)
    (metis PendingPhase.exhaust)

section \<open>The invariant of the action server\<close>

text \<open>
  The reservations of the registry are the goals that some thread is accepting, whatever the
  application does.
\<close>

definition action_inv :: "'o ActionSys \<Rightarrow> bool" where
  "action_inv s \<longleftrightarrow> registry_ok (goal_registry (act s))
     \<and> (\<forall>k. map_of (accepting s) k \<noteq> None \<longleftrightarrow> reserved_only (goal_registry (act s)) k)"

text \<open>What a step does to the registry, and which requests it may make wait.\<close>

definition added_by :: "'o ActionOp \<Rightarrow> 'o ActionSys \<Rightarrow> RequestId \<Rightarrow> bool" where
  "added_by op s x \<longleftrightarrow> (\<exists>shut k. op = ARegister shut k x) \<and> check_pending_request x (result_server (act s)) = Inr ()"

definition keeps_inv :: "'o ActionOp \<Rightarrow> 'o ActionSys \<Rightarrow> 'o ActionSys \<Rightarrow> bool" where
  "keeps_inv op s s' \<longleftrightarrow> action_inv s' \<and> (\<forall>x. waits (goal_registry (act s')) x \<longrightarrow> waits (goal_registry (act s)) x \<or> added_by op s x)"

lemma keeps_quiet:
  assumes "action_inv s" "registry_ok (goal_registry (act s'))" "quiet (goal_registry (act s)) (goal_registry (act s'))"
    and "accepting s' = accepting s"
  shows "keeps_inv op s s'"
  using assms by (simp add: keeps_inv_def action_inv_def quiet_def)

lemma keeps_same:
  "action_inv s \<Longrightarrow> goal_registry (act s') = goal_registry (act s) \<Longrightarrow> accepting s' = accepting s \<Longrightarrow> keeps_inv op s s'"
  by (simp add: keeps_inv_def action_inv_def)

lemma keeps_remove:
  assumes "action_inv s" "goal_registry (act s') = remove_result_request rid (goal_registry (act s))" "accepting s' = accepting s"
  shows "keeps_inv op s s'"
  using assms remove_ok [of "goal_registry (act s)" rid] quiet_remove [of "goal_registry (act s)" rid]
  by (intro keeps_quiet) (simp_all add: action_inv_def)

text \<open>A claim and a discard are steps of the result server, or leave it as it is.\<close>

lemma claim_result_cases:
  obtains (refused) "op_claim_result t shut rid s = s"
  | (claimed) i s1 where "result_threads s t = TIdle" "claim_response False rid (result_server (act s)) = (Inr i, s1)"
      "\<And>x. phase_at s1 x = (if x = rid then Some PhaseResponding else phase_at (result_server (act s)) x)"
      "op_claim_result t shut rid s = s\<lparr>act := (act s)\<lparr>result_server := s1, goal_registry := remove_result_request rid (goal_registry (act s))\<rparr>,
         result_threads := (result_threads s)(t := TWriting rid)\<rparr>"
proof (cases "result_threads s t = TIdle")
  case True
  show thesis
  proof (cases rule: phase_at_claim [of shut rid "result_server (act s)"])
    case (refused e)
    with that(1) show thesis by (simp add: op_claim_result_def claim_result_def)
  next
    case (claimed i s1)
    then have "\<not> shut" by (auto simp: claim_response_def)
    with claimed(1) have "claim_response False rid (result_server (act s)) = (Inr i, s1)" by simp
    with that(2) True claimed show thesis by (simp add: op_claim_result_def claim_result_def)
  qed
qed (simp add: that(1) op_claim_result_def)

lemma discard_result_cases:
  obtains (refused) "op_discard_result t shut rid s = s"
  | (cleared) "op_discard_result t shut rid s = s\<lparr>act := (act s)\<lparr>goal_registry := remove_result_request rid (goal_registry (act s))\<rparr>\<rparr>"
  | (discarded) b s1 where "result_threads s t = TIdle" "discard_section rid (result_server (act s)) = (Inr b, s1)"
      "\<And>x. phase_at s1 x = (if x = rid then None else phase_at (result_server (act s)) x)"
      "op_discard_result t shut rid s = s\<lparr>act := (act s)\<lparr>result_server := s1, goal_registry := remove_result_request rid (goal_registry (act s))\<rparr>,
         result_threads := (result_threads s)(t := TDiscarded b)\<rparr>"
proof (cases "shut \<or> result_threads s t \<noteq> TIdle")
  case False
  obtain r s1 where o: "discard_section rid (result_server (act s)) = (r, s1)" by fastforce
  show thesis
  proof (cases r)
    case (Inl e)
    with that(1,2) o False show thesis by (cases "e = NotFound") (simp_all add: op_discard_result_def)
  next
    case (Inr b)
    have "phase_at s1 x = (if x = rid then None else phase_at (result_server (act s)) x)" for x
      using o Inr by (auto simp: discard_section_def phase_at_def um.lookup_erase split: option.splits if_splits)
    with that(3) o Inr False show thesis by (simp add: op_discard_result_def)
  qed
qed (auto simp: that(1) op_discard_result_def)

lemma keeps_claim: "action_inv s \<Longrightarrow> keeps_inv op s (op_claim_result t shut rid s)"
  by (cases rule: claim_result_cases [of t shut rid s]) (auto intro: keeps_same keeps_remove)

lemma keeps_discard: "action_inv s \<Longrightarrow> keeps_inv op s (op_discard_result t shut rid s)"
  by (cases rule: discard_result_cases [of t shut rid s]) (auto intro: keeps_same keeps_remove)

lemma keeps_register:
  assumes "action_inv s"
  shows "keeps_inv (ARegister shut k rid) s (action_exec us ug alive now (ARegister shut k rid) s)"
proof (cases "shut \<or> check_pending_request rid (result_server (act s)) \<noteq> Inr ()")
  case True
  then have "act (action_exec us ug alive now (ARegister shut k rid) s) = act s"
    by (cases "check_pending_request rid (result_server (act s))") (auto simp: act_register_result_request_def)
  then show ?thesis by (intro keeps_same [OF assms]) simp_all
next
  case False
  let ?g = "goal_registry (act s)"
  have ok: "registry_ok ?g" using assms by (simp add: action_inv_def)
  obtain res w g where o: "register_result_request alive now k rid ?g = (res, w, g)"
    by (cases "register_result_request alive now k rid ?g")
  have "registry_ok g" "\<And>x. waits g x \<Longrightarrow> waits ?g x \<or> x = rid" "\<And>k'. reserved_only g k' \<longleftrightarrow> reserved_only ?g k'"
    using register_ok [OF ok, of alive now k rid] register_effect [OF ok, of alive now k rid] by (simp_all add: o)
  moreover have "action_exec us ug alive now (ARegister shut k rid) s = s\<lparr>act := (act s)\<lparr>goal_registry := g\<rparr>\<rparr>"
    using False by (simp add: act_register_result_request_def o)
  ultimately show ?thesis using assms False by (auto simp: keeps_inv_def action_inv_def added_by_def)
qed

lemma keeps_reserve:
  assumes "action_inv s"
  shows "keeps_inv op s (op_reserve shut k s)"
proof (cases "shut \<or> map_of (goals (goal_registry (act s))) k \<noteq> None")
  case True
  then have "op_reserve shut k s = s" by (auto simp: op_reserve_def reserve_def)
  then show ?thesis by (intro keeps_same [OF assms]) simp_all
next
  case False
  let ?g = "goal_registry (act s)"
  have e: "op_reserve shut k s = s\<lparr>act := (act s)\<lparr>goal_registry := snd (reserve k ?g)\<rparr>,
      accepting := um_emplace k Reserved (accepting s)\<rparr>"
    using False by (simp add: op_reserve_def reserve_def)
  have "registry_ok (snd (reserve k ?g))" using assms reserve_ok [of ?g k] by (simp add: action_inv_def)
  then show ?thesis
    unfolding e using assms False by (auto simp: keeps_inv_def action_inv_def reserve_effect um.lookup_emplace)
qed

lemma keeps_respond: "action_inv s \<Longrightarrow> keeps_inv op s (op_respond ug null shut env rid k s)"
  by (auto simp: op_respond_def act_write_goal_response_def keeps_inv_def action_inv_def um.lookup_modify
      split: prod.splits)

lemma accepting_reserved:
  "action_inv s \<Longrightarrow> map_of (accepting s) k = Some pc \<Longrightarrow> reserved_only (goal_registry (act s)) k"
  by (auto simp: action_inv_def)

lemma keeps_commit:
  assumes "action_inv s"
  shows "keeps_inv op s (op_commit info mode s)"
proof (cases "map_of (accepting s) (goal_id info) = Some Written")
  case True
  let ?g = "goal_registry (act s)"
  note e = commit_effect [OF accepting_reserved [OF assms True], of mode]
  obtain g where g: "commit info mode ?g = (True, g)" using e(1) by (cases "commit info mode ?g") simp
  have "registry_ok g" using assms commit_ok [of ?g info mode] g by (simp add: action_inv_def)
  then show ?thesis
    using assms True e(2,3) g by (auto simp: op_commit_def keeps_inv_def action_inv_def um.lookup_erase)
qed (use assms in \<open>simp add: op_commit_def keeps_inv_def\<close>)

lemma keeps_rollback:
  assumes "action_inv s"
  shows "keeps_inv op s (op_rollback k s)"
proof (cases "map_of (accepting s) k = Some Refused")
  case True
  have "registry_ok (rollback_reservation k (goal_registry (act s)))"
    using assms rollback_ok [of "goal_registry (act s)" k] by (simp add: action_inv_def)
  then show ?thesis
    using assms True rollback_effect [of k "goal_registry (act s)"]
    by (auto simp: op_rollback_def keeps_inv_def action_inv_def um.lookup_erase)
qed (use assms in \<open>simp add: op_rollback_def keeps_inv_def\<close>)

lemma action_step:
  assumes "action_inv s"
  shows "keeps_inv op s (action_exec us ug alive now op s)"
proof -
  let ?g = "goal_registry (act s)"
  have ok: "registry_ok ?g" using assms by (simp add: action_inv_def)
  note same = keeps_same [OF assms] and quiet_step = keeps_quiet [OF assms]
  show ?thesis
  proof (cases op)
    case (ATakePending shut k)
    then show ?thesis
      using quiet_step [of "action_exec us ug alive now op s"] take_pending_ok [OF ok, of k] quiet_take [of ?g k] same
      by (cases shut) (simp_all add: act_take_pending_result_requests_def case_prod_beta)
  next
    case (AUpdate shut k ev)
    then show ?thesis
      using quiet_step [of "action_exec us ug alive now op s"] update_ok [OF ok, of alive now k ev] quiet_update [of ?g alive now k ev] same
      by (cases shut) (simp_all add: act_update_goal_state_def case_prod_beta)
  next
    case (ASnapshot shut)
    have "registry_ok (snd (snd (status_snapshot alive now ?g)))"
      using reg_exec_ok [OF ok, of alive now OpSnapshot] by simp
    then show ?thesis
      using ASnapshot quiet_step [of "action_exec us ug alive now op s"] quiet_snapshot [OF ok, of alive now] same
      by (cases shut) (simp_all add: act_status_snapshot_def case_prod_beta)
  next
    case (ATakeExpired shut)
    have "registry_ok (snd (snd (take_expired_goals alive now ?g)))"
      using reg_exec_ok [OF ok, of alive now OpTakeExpired] by simp
    then show ?thesis
      using ATakeExpired quiet_step [of "action_exec us ug alive now op s"] quiet_expired [OF ok, of alive now] same
      by (cases shut) (simp_all add: act_take_expired_goals_def case_prod_beta)
  next
    case (AObserve ob)
    have "registry_ok (observe_expiry alive ob ?g)"
      using reg_exec_ok [OF ok, of alive now "OpObserve ob"] by simp
    then show ?thesis
      using AObserve quiet_step [of "action_exec us ug alive now op s"] quiet_observe [of ?g alive ob] by simp
  next
    case (ARegister shut k rid)
    show ?thesis unfolding ARegister by (rule keeps_register [OF assms])
  qed (use assms keeps_claim keeps_discard keeps_reserve keeps_respond keeps_commit keeps_rollback same
      in \<open>simp_all\<close>)
qed

lemma start_inv: "action_inv (start_action (new_action_server goal_max cancel_max result_max timeout))"
  using new_registry_ok [of timeout]
  by (simp add: start_action_def new_action_server_def action_inv_def reserved_only_def new_registry_def)

lemma action_steps_inv:
  "action_steps orderly (new_action_server goal_max cancel_max result_max timeout) s \<Longrightarrow> action_inv s"
proof (induction rule: action_steps.induct)
  case (step s op us ug alive now)
  then show ?case using action_step [of s op us ug alive now] by (simp add: keeps_inv_def)
next
  case (inner s S)
  then show ?case by (simp add: action_inv_def)
qed (rule start_inv)

section \<open>Waiting requests and the result server\<close>

lemma untouched_results:
  assumes "\<And>t shut rid. op \<noteq> AClaimResult t shut rid" "\<And>t shut rid. op \<noteq> ADiscardResult t shut rid"
  shows "result_sys (action_exec us ug alive now op s) = result_sys s"
  using assms
  by (cases op) (auto simp: result_sys_def act_register_result_request_def act_take_pending_result_requests_def
      act_update_goal_state_def act_status_snapshot_def act_take_expired_goals_def op_reserve_def op_respond_def
      op_commit_def op_rollback_def act_write_goal_response_def Let_def case_prod_beta split: sum.split prod.split bool.split)

text \<open>The result server among its threads takes the steps of \<^verbatim>\<open>ServerFsm\<close>.\<close>

lemma step_results:
  assumes "orderly \<longrightarrow> orderly_op op s"
  shows "result_sys (action_exec us ug alive now op s) = result_sys s \<or>
    sys_step orderly (result_sys s) (result_sys (action_exec us ug alive now op s))"
proof (cases op)
  case (AClaimResult t shut rid)
  show ?thesis
  proof (cases rule: claim_result_cases [of t shut rid s])
    case (claimed i s1)
    have "sys_step orderly (result_sys s) ((result_sys s)\<lparr>srv := s1, threads := (threads (result_sys s))(t := TWriting rid)\<rparr>)"
      using claimed(1,2) assms AClaimResult by (intro sys_step.claim) auto
    then show ?thesis by (simp add: AClaimResult claimed(4) result_sys_def)
  qed (simp add: AClaimResult)
next
  case (ADiscardResult t shut rid)
  show ?thesis
  proof (cases rule: discard_result_cases [of t shut rid s])
    case (discarded b s1)
    have "sys_step orderly (result_sys s) ((result_sys s)\<lparr>srv := s1, threads := (threads (result_sys s))(t := TDiscarded b)\<rparr>)"
      using discarded(1,2) by (intro sys_step.discard) auto
    then show ?thesis by (simp add: ADiscardResult discarded(4) result_sys_def)
  qed (simp_all add: ADiscardResult result_sys_def)
qed (use untouched_results [of op us ug alive now s] in \<open>auto simp del: action_exec.simps\<close>)

lemma steps_results:
  "action_steps orderly (new_action_server goal_max cancel_max result_max timeout) s \<Longrightarrow> sys_reach orderly result_max (result_sys s)"
proof (induction rule: action_steps.induct)
  case start
  have "result_sys (start_action (new_action_server goal_max cancel_max result_max timeout)) = init_sys result_max"
    by (simp add: result_sys_def start_action_def new_action_server_def init_sys_def)
  then show ?case using sys_reach.init by metis
next
  case (step s op us ug alive now)
  then show ?case using step_results [of orderly op s us ug alive now] by (metis sys_reach.step)
next
  case (inner s S)
  then show ?case by (simp add: sys_reach.step)
qed

text \<open>A request that is pending and that nobody handles stays pending while no thread starts.\<close>

lemma pending_kept:
  assumes st: "sys_step True S S'" and inv: "request_inv r S" and ph: "phase r S = Some PhasePending" "rd S \<noteq> RCommit r"
    and idle: "\<forall>t. threads S t = TIdle \<longrightarrow> threads S' t = TIdle"
  shows "phase r S' = Some PhasePending \<and> rd S' \<noteq> RCommit r"
  using st
proof cases
  case (reader_insert full r0 i s1)
  have "r \<noteq> r0" using inv ph(1) reader_insert(3) by (auto simp: request_inv_def)
  then show ?thesis using reader_insert ph by (auto simp: phase_defs)
next
  case (target_removed t r0 b s1)
  have "r \<noteq> r0" using inv_holder(4) [OF inv, of t] target_removed(2) ph(1) by auto
  then show ?thesis using target_removed ph by (auto simp: phase_defs)
next
  case (written_release t r0 b s1)
  have "r \<noteq> r0" using inv_holder(4) [OF inv, of t] written_release(2) ph(1) by auto
  then show ?thesis using written_release ph by (auto simp: phase_defs)
next
  case (claim t r0 i s1)
  then show ?thesis using idle [rule_format, of t] by simp
next
  case (discard t r0 b s1)
  then show ?thesis using idle [rule_format, of t] by simp
qed (use ph in \<open>auto simp: phase_defs Let_def split: if_splits\<close>)

text \<open>A waiting request is pending in the result server, and its read has returned.\<close>

definition waiting_inv :: "'o ActionSys \<Rightarrow> bool" where
  "waiting_inv s \<longleftrightarrow> (\<forall>rid. waits (goal_registry (act s)) rid \<longrightarrow>
     phase rid (result_sys s) = Some PhasePending \<and> result_reader s \<noteq> RCommit rid)"

lemma phase_result [simp]: "phase rid (result_sys s) = phase_at (result_server (act s)) rid"
  by (simp add: phase_def phase_at_def)

lemma waiting_step:
  assumes inv: "action_inv s" "waiting_inv s" and ord: "orderly_op op s"
  shows "waiting_inv (action_exec us ug alive now op s)"
proof -
  let ?s = "action_exec us ug alive now op s"
  have "result_sys ?s = result_sys s \<longrightarrow> waiting_inv ?s"
  proof
    assume "result_sys ?s = result_sys s"
    then have e: "result_server (act ?s) = result_server (act s)" "result_reader ?s = result_reader s"
      by (simp_all add: result_sys_def)
    have "phase_at (result_server (act s)) x = Some PhasePending \<and> result_reader s \<noteq> RCommit x" if "added_by op s x" for x
      using that ord by (auto simp: added_by_def pending_iff)
    then show "waiting_inv ?s"
      using action_step [OF inv(1), of op us ug alive now] inv(2) unfolding waiting_inv_def keeps_inv_def phase_result e by blast
  qed
  then show ?thesis
  proof (cases op)
    case (AClaimResult t shut rid)
    then show ?thesis
      by (cases rule: claim_result_cases [of t shut rid s]) (use inv(2) in \<open>simp_all add: waiting_inv_def waits_remove\<close>)
  next
    case (ADiscardResult t shut rid)
    then show ?thesis
      by (cases rule: discard_result_cases [of t shut rid s]) (use inv(2) in \<open>simp_all add: waiting_inv_def waits_remove\<close>)
  qed (use untouched_results [of op us ug alive now s] in \<open>simp_all del: action_exec.simps\<close>)
qed

lemma orderly_waiting:
  "action_steps True (new_action_server goal_max cancel_max result_max timeout) s \<Longrightarrow> waiting_inv s"
proof (induction rule: action_steps.induct)
  case start
  show ?case by (simp add: waiting_inv_def start_action_def new_action_server_def new_registry_def waits_def)
next
  case (step s op us ug alive now)
  then show ?case using waiting_step action_steps_inv by blast
next
  case (inner s S)
  have "phase rid S = Some PhasePending \<and> rd S \<noteq> RCommit rid" if "waits (goal_registry (act s)) rid" for rid
    using pending_kept [OF inner(2) request_reach [OF steps_results [OF inner(1)]], of rid] inner(3,4) that
    by (simp add: waiting_inv_def)
  then show ?case by (simp add: waiting_inv_def del: phase_result) (simp add: with_results_def)
qed

lemma write_response_removes:
  assumes "write_response ug null shut env rid s = (Inr (), s')"
  shows "map_of (pending s') rid = None"
proof (cases rule: claim_cases [of shut rid s])
  case (refused e)
  then show ?thesis using assms by (simp add: write_response_def split: if_splits)
next
  case (claimed p)
  let ?s = "s\<lparr>pending := um_modify rid (\<lambda>p. p\<lparr>pr_phase := PhaseResponding\<rparr>) (pending s)\<rparr>"
  have "write_claimed_response ug null env rid (pr_identity p) ?s = (Inr (), s')"
    using assms claimed(3) by (simp add: write_response_def split: if_splits)
  then show ?thesis
    using write_body_cases [of ug null env rid "pr_identity p" ?s]
    by (auto simp: write_claimed_response_def lookup_restore enable_if_def set_blocking_enabled_def
        release_pending_request_def um.lookup_erase)
qed

lemma write_response_codes:
  "we_deadline env \<noteq> Inl ProtocolFault \<Longrightarrow> fst (write_response ug null shut env rid s) \<noteq> Inl ProtocolFault"
  by (auto simp: write_response_def claim_response_def write_claimed_response_def write_body_def Let_def
      split: option.splits sum.splits if_splits)

lemma pending_unanswered:
  assumes "request_inv r S" "phase r S = Some PhasePending"
  shows "answered S r = 0 \<and> (\<forall>t. threads S t \<noteq> TWriting r \<and> threads S t \<noteq> TWritten r)"
proof -
  have n: "pc_ok pc (Some PhasePending) n \<Longrightarrow> n = 0 \<and> (\<forall>q. pc \<noteq> TWriting q \<and> pc \<noteq> TWritten q)" for pc n
    by (cases pc) auto
  show ?thesis
  proof (cases "free r S")
    case True
    then have "threads S t \<noteq> TWriting r \<and> threads S t \<noteq> TWritten r" for t using True [unfolded free_def, rule_format, of t] by auto
    moreover have "answered S r = 0" using assms True by (auto simp: request_inv_def free_def held_def)
    ultimately show ?thesis by blast
  next
    case False
    then obtain t where t: "handles (threads S t) = Some r" by (auto simp: free_def)
    note h = inv_holder(4) [OF assms(1)]
    have "threads S u \<noteq> TWriting r \<and> threads S u \<noteq> TWritten r" for u
      using h [of u] assms(2) by (cases "threads S u") auto
    then show ?thesis using n h [OF t] assms(2) by metis
  qed
qed

section \<open>Properties\<close>

text \<open>
  C21. When the application answers each result request from one thread at a time, and uses its id
  only after the read has returned it, then under every interleaving of the critical sections the
  requests that \<open>take_pending_result_requests\<close> hands over are distinct, wait nowhere any more, and
  each can be answered: the result server still holds it as pending, no thread is writing its
  response, and no response to it has been written. The same holds of every request that still waits.
\<close>

theorem taken_requests_answerable:
  assumes "action_steps True (new_action_server goal_max cancel_max result_max timeout) s"
    and "act_take_pending_result_requests False k (act s) = (Inr rids, a)"
  shows "distinct rids
    \<and> (\<forall>rid \<in> set rids. \<not> waits (goal_registry a) rid)
    \<and> (\<forall>rid. rid \<in> set rids \<or> waits (goal_registry a) rid \<longrightarrow>
        check_pending_request rid (result_server a) = Inr () \<and> result_answered s rid = 0
        \<and> (\<forall>t. result_threads s t \<noteq> TWriting rid \<and> result_threads s t \<noteq> TWritten rid))"
proof -
  have inv: "action_inv s" and wait: "waiting_inv s" by (rule action_steps_inv orderly_waiting, rule assms(1))+
  let ?g = "goal_registry (act s)"
  obtain r where r: "map_of (goals ?g) k = Some r" "committed r" "rids = pending_result_requests r"
    and a: "result_server a = result_server (act s)" "goal_registry a = snd (take_pending_result_requests k ?g)"
    using assms(2) by (auto simp: act_take_pending_result_requests_def take_pending_result_requests_def
        committed_goal_Some split: option.splits)
  have ok: "record_ok k r" "requests_apart (map_of (goals ?g))"
    using inv r(1) by (auto simp: action_inv_def registry_ok_def)
  have held: "waits ?g rid" if "rid \<in> set rids \<or> waits (goal_registry a) rid" for rid
    using that r quiet_take [of ?g k] by (auto simp: a(2) quiet_def intro: waitsI)
  have apart: "\<not> waits (goal_registry a) rid" if "rid \<in> set rids" for rid
    using that ok(2) r
    by (fastforce simp: a(2) lookup_take committed_goal_Some requests_apart_def elim!: waitsE split: if_splits)
  have open_request: "check_pending_request rid (result_server a) = Inr () \<and> result_answered s rid = 0
      \<and> (\<forall>t. result_threads s t \<noteq> TWriting rid \<and> result_threads s t \<noteq> TWritten rid)"
    if "waits ?g rid" for rid
  proof -
    have "phase_at (result_server (act s)) rid = Some PhasePending" using wait that by (simp add: waiting_inv_def)
    then show ?thesis
      using pending_unanswered [OF request_reach [OF steps_results [OF assms(1)]], of rid] by (simp add: a(1) pending_iff)
  qed
  show ?thesis using held apart open_request ok(1) r(2,3) by (simp add: record_ok_def)
qed

text \<open>A server that accepts one goal and is asked for its result.\<close>

definition one_goal :: "GoalInfo" where "one_goal = \<lparr>goal_id = goal_A, accepted_stamp = 7\<rparr>"

definition written_run :: "nat ActionOp list" where
  "written_run = [AGoalChannel (OpRead False False (Inr ()) (Inr ()) 1 [(RETCODE_OK, sample_1)]),
     AReserve False goal_A, ARespond False False (env_1 True) request_1 goal_A]"

fun action_run :: "nat ActionOp list \<Rightarrow> nat ActionSys \<Rightarrow> nat ActionSys" where
  "action_run [] s = s"
| "action_run (op # ops) s = action_run ops (action_exec seq_unknown_1 guid_unknown_1 (\<lambda>_. True) 0 op s)"

lemma always_orderly [simp]:
  "orderly_op (AGoalChannel c) = (\<lambda>_. True)" "orderly_op (AReserve b k) = (\<lambda>_. True)"
  "orderly_op (ARespond b b' e r k) = (\<lambda>_. True)" "orderly_op (ACommit i m) = (\<lambda>_. True)"
  by (rule ext, simp)+

lemma action_run_steps:
  "list_all (\<lambda>op. orderly_op op = (\<lambda>_. True)) ops \<Longrightarrow> action_steps orderly a s \<Longrightarrow> action_steps orderly a (action_run ops s)"
  by (induction ops arbitrary: s) (simp_all add: action_steps.step)

definition new_1 :: "nat ActionServer" where "new_1 = new_action_server 1 1 1 100"

definition written_1 :: "nat ActionSys" where "written_1 = action_run written_run (start_action new_1)"

definition read_1 :: Sys where
  "read_1 = \<lparr>srv = \<lparr>max_pending_requests = 1, reservations = 0,
       pending = [(request_1, \<lparr>pr_identity = sample_identity sample_1, pr_phase = PhasePending\<rparr>)],
       blocking_enabled = False, has_scratch = False\<rparr>,
     rd = RIdle, threads = (\<lambda>_. TIdle), seen = {request_1}, answered = (\<lambda>_. 0)\<rparr>"

definition asked_1 :: "nat ActionSys" where
  "asked_1 = action_run [ARegister False goal_A request_1] (with_results read_1 (action_run [ACommit one_goal Defer] written_1))"

lemma written_steps: "action_steps orderly new_1 written_1"
  unfolding written_1_def by (rule action_run_steps) (simp_all add: written_run_def action_steps.start)

lemma read_steps:
  assumes "action_steps orderly a s" "result_sys s = init_sys 1"
  shows "action_steps orderly a (with_results read_1 s)"
proof -
  let ?s1 = "(new_server 1)\<lparr>reservations := 1\<rparr>"
  let ?S1 = "(init_sys 1)\<lparr>srv := ?s1, rd := RReserved True\<rparr>"
  let ?S2 = "?S1\<lparr>srv := ?s1\<lparr>blocking_enabled := False\<rparr>, rd := RTaking True\<rparr>"
  let ?S3 = "?S2\<lparr>srv := srv read_1, rd := RCommit request_1, seen := {request_1}\<rparr>"
  have "action_steps orderly a (with_results (init_sys 1) s)" using assms with_results_simps(2) by metis
  moreover have "sys_step orderly (init_sys 1) ?S1"
    by (rule reader_reserve) (simp_all add: init_sys_def new_server_def reserve_request_slot_def)
  ultimately have 1: "action_steps orderly a (with_results ?S1 s)" by (rule inner_chain) simp
  have "sys_step orderly ?S1 ?S2"
    using reader_disable [of ?S1 True orderly] by (simp add: set_blocking_enabled_def)
  with 1 have 2: "action_steps orderly a (with_results ?S2 s)" by (rule inner_chain) simp
  have "sys_step orderly ?S2 ?S3"
    using reader_insert [of ?S2 True request_1 "sample_identity sample_1" "srv read_1" orderly]
    by (simp add: init_sys_def new_server_def insert_pending_def um_emplace_def read_1_def)
  with 2 have 3: "action_steps orderly a (with_results ?S3 s)" by (rule inner_chain) simp
  have "sys_step orderly ?S3 (?S3\<lparr>rd := RIdle\<rparr>)" by (rule reader_return [where r = request_1]) simp
  with 3 have "action_steps orderly a (with_results (?S3\<lparr>rd := RIdle\<rparr>) s)" by (rule inner_chain) simp
  moreover have "?S3\<lparr>rd := RIdle\<rparr> = read_1" by (simp add: init_sys_def read_1_def)
  ultimately show ?thesis by simp
qed

lemma respond_1:
  "write_response guid_unknown_1 False False (env_1 True) request_1
     \<lparr>max_pending_requests = 1, reservations = 0,
      pending = [(request_1, \<lparr>pr_identity = sample_identity sample_1, pr_phase = PhasePending\<rparr>)],
      blocking_enabled = False, has_scratch = True\<rparr>
   = (Inr (), \<lparr>max_pending_requests = 1, reservations = 0, pending = [], blocking_enabled = True, has_scratch = True\<rparr>)"
  by (simp add: write_response_def claim_response_def write_claimed_response_def write_body_def env_1_def
      Let_def um_modify_def um_erase_def release_pending_request_def restore_pending_def enable_if_def
      set_blocking_enabled_def)

lemma written_state:
  "written_1 =
     \<lparr>act = new_1\<lparr>goal_server := \<lparr>max_pending_requests = 1, reservations = 0, pending = [],
          blocking_enabled = True, has_scratch = True\<rparr>,
        goal_registry := (new_registry 100)\<lparr>goals := [(goal_A, fresh_record)]\<rparr>\<rparr>,
      accepting = [(goal_A, Written)], result_reader = RIdle, result_threads = (\<lambda>_. TIdle), result_seen = {},
      result_answered = (\<lambda>_. 0)\<rparr>"
  using read_sample_1 respond_1
  by (simp add: written_1_def new_1_def written_run_def start_action_def new_action_server_def op_reserve_def reserve_def
      um_emplace_def new_registry_def op_respond_def act_write_goal_response_def um_modify_def)

lemma asked_state:
  "asked_1 =
     \<lparr>act = \<lparr>goal_server = \<lparr>max_pending_requests = 1, reservations = 0, pending = [],
          blocking_enabled = True, has_scratch = True\<rparr>,
        cancel_server = new_server 1,
        result_server = \<lparr>max_pending_requests = 1, reservations = 0,
          pending = [(request_1, \<lparr>pr_identity = sample_identity sample_1, pr_phase = PhasePending\<rparr>)],
          blocking_enabled = False, has_scratch = False\<rparr>,
        goal_registry = (new_registry 100)\<lparr>goals := [(goal_A,
          (commit_record one_goal Defer fresh_record)\<lparr>pending_result_requests := [request_1]\<rparr>)]\<rparr>\<rparr>,
      accepting = [], result_reader = RIdle, result_threads = (\<lambda>_. TIdle), result_seen = {request_1},
      result_answered = (\<lambda>_. 0)\<rparr>"
  by (simp add: asked_1_def new_1_def written_state one_goal_def with_results_def read_1_def op_commit_def commit_def
      um_modify_def um_erase_def new_registry_def fresh_record_def commit_record_def expired_def
      new_action_server_def act_register_result_request_def
      check_pending_request_def register_result_request_def prune_expired_def committed_goal_def
      is_terminal_goal_state_def)

lemma asked_steps: "action_steps orderly new_1 asked_1"
proof -
  let ?s = "action_run [ACommit one_goal Defer] written_1"
  have "action_steps orderly new_1 ?s" by (rule action_run_steps [OF _ written_steps]) simp
  moreover have "result_sys ?s = init_sys 1"
    by (simp add: written_state op_commit_def commit_def result_sys_def init_sys_def new_1_def new_action_server_def
        new_registry_def one_goal_def fresh_record_def)
  ultimately have r: "action_steps orderly new_1 (with_results read_1 ?s)" by (rule read_steps)
  have "orderly_op (ARegister False goal_A request_1) (with_results read_1 ?s)" by (simp add: with_results_def read_1_def)
  with action_steps.step [OF r, of "ARegister False goal_A request_1"] show ?thesis by (simp add: asked_1_def)
qed

theorem taken_requests_answerable_witness:
  "fst (act_take_pending_result_requests False goal_A (act asked_1)) = Inr [request_1]
   \<and> check_pending_request request_1 (result_server (act asked_1)) = Inr () \<and> result_answered asked_1 request_1 = 0"
proof -
  let ?s = "asked_1"
  obtain res a where t: "act_take_pending_result_requests False goal_A (act ?s) = (res, a)" by fastforce
  then have "res = Inr [request_1]" "result_server a = result_server (act ?s)"
    by (auto simp: asked_state act_take_pending_result_requests_def take_pending_result_requests_def
        committed_goal_def commit_record_def)
  with taken_requests_answerable [OF asked_steps [unfolded new_1_def], of goal_A] t
  show ?thesis by simp
qed

text \<open>
  C22. Under every interleaving, once the accepting response of a goal is written its commit succeeds:
  the goal has the accepted state, nobody waits for it yet, and no other goal changes. The
  \<^verbatim>\<open>ProtocolFault\<close> of \<^verbatim>\<open>accept_goal\<close> never happens.
\<close>

theorem accept_commit_never_fails:
  assumes "action_reach (new_action_server goal_max cancel_max result_max timeout) s" "0 < result_max"
    and "map_of (accepting s) (goal_id info) = Some Written"
  shows "fst (commit info mode (goal_registry (act s)))
    \<and> act_goal_state False (goal_id info) (act (op_commit info mode s))
        = Inr (if mode = ExecuteNow then Executing else Accepted)
    \<and> fst (act_take_pending_result_requests False (goal_id info) (act (op_commit info mode s))) = Inr []
    \<and> (\<forall>k. k \<noteq> goal_id info \<longrightarrow>
         act_goal_state False k (act (op_commit info mode s)) = act_goal_state False k (act s))"
proof -
  have inv: "action_inv s" by (rule action_steps_inv [OF assms(1)])
  let ?g = "goal_registry (act s)" and ?k = "goal_id info"
  have res: "reserved_only ?g ?k" by (rule accepting_reserved [OF inv assms(3)])
  obtain g where g: "commit info mode ?g = (True, g)"
    using commit_effect(1) [OF res, of mode] by (cases "commit info mode ?g") simp
  have look: "map_of (goals g) k = (if k = ?k then map_option (commit_record info mode) (map_of (goals ?g) k)
      else map_of (goals ?g) k)" for k
    using lookup_commit [of info mode ?g k] res g by (auto simp: reserved_only_def committed_goal_def)
  have reg: "goal_registry (act (op_commit info mode s)) = g"
    using assms(3) g by (simp add: op_commit_def)
  obtain r where r: "map_of (goals ?g) ?k = Some r" using res by (auto simp: reserved_only_def)
  show ?thesis
    using g look r
    by (simp add: reg act_goal_state_def goal_state_def committed_goal_def commit_record_def
        act_take_pending_result_requests_def take_pending_result_requests_def)
qed

theorem accept_commit_never_fails_witness:
  "act_goal_state False goal_A (act (op_commit one_goal ExecuteNow
      written_1)) = Inr Executing"
  using accept_commit_never_fails
    [OF written_steps [unfolded new_1_def] zero_less_one, of one_goal ExecuteNow]
  by (simp add: written_state one_goal_def)

text \<open>
  C23. \<open>accept_goal\<close> by itself is a transaction: it succeeds only for an unknown goal and then leaves
  it accepted with its request answered; whenever it fails, the registry holds exactly the goals
  it held before.
\<close>

theorem accept_goal_transaction:
  assumes "act_accept_goal ug null shut shut_write env rid info mode a = (res, a')"
    and "we_deadline env \<noteq> Inl ProtocolFault"
  shows "(case res of
       Inr t \<Rightarrow> map_of (goals (goal_registry a)) (goal_id info) = None
         \<and> act_goal_state False (goal_id info) a' = Inr (current t)
         \<and> map_of (pending (goal_server a')) rid = None
     | Inl e \<Rightarrow> e \<noteq> ProtocolFault \<and> map_of (goals (goal_registry a')) (goal_id info)
           = map_of (goals (goal_registry a)) (goal_id info))
    \<and> (\<forall>k. k \<noteq> goal_id info \<longrightarrow> map_of (goals (goal_registry a')) k = map_of (goals (goal_registry a)) k)
    \<and> result_server a' = result_server a"
proof -
  let ?k = "goal_id info" and ?g = "goal_registry a"
  consider (refused) e where "res = Inl e" "e \<noteq> ProtocolFault" "a' = a"
    | (reserved) "\<not> shut" "map_of (goals ?g) ?k = None"
    using assms by (cases "map_of (goals ?g) ?k") (auto simp: act_accept_goal_def reserve_def split: if_splits)
  then show ?thesis
  proof cases
    case reserved
    obtain g1 where g1: "reserve ?k ?g = (True, g1)"
      "map_of (goals g1) k = (if k = ?k then Some fresh_record else map_of (goals ?g) k)" for k
      using reserved by (simp add: reserve_def um.lookup_emplace)
    obtain w s' where w: "write_response ug null shut_write env rid (goal_server a) = (w, s')" by fastforce
    show ?thesis
    proof (cases w)
      case (Inl e)
      have "e \<noteq> ProtocolFault" using write_response_codes [OF assms(2), of ug null shut_write rid "goal_server a"] w Inl by simp
      moreover have "res = Inl e" "a' = a\<lparr>goal_server := s', goal_registry := rollback_reservation ?k g1\<rparr>"
        using assms reserved g1(1) w Inl by (simp_all add: act_accept_goal_def act_write_goal_response_def Let_def)
      ultimately show ?thesis
        using reserved g1(2) by (simp add: lookup_rollback committed_goal_def)
    next
      case (Inr u)
      obtain g2 where g2: "commit info mode g1 = (True, g2)"
        using g1(2) by (simp add: commit_def)
      have "map_of (goals g2) k = (if k = ?k then Some (commit_record info mode fresh_record) else map_of (goals ?g) k)" for k
        using lookup_commit [of info mode g1 k] g1(2) g2 by (simp add: committed_goal_def)
      moreover have "res = Inr \<lparr>previous = Unknown, current = (if mode = ExecuteNow then Executing else Accepted),
          became_terminal = False\<rparr>" "a' = a\<lparr>goal_server := s', goal_registry := g2\<rparr>"
        using assms reserved g1(1) w Inr g2 by (simp_all add: act_accept_goal_def act_write_goal_response_def Let_def)
      ultimately show ?thesis
        using reserved write_response_removes [of ug null shut_write env rid "goal_server a"] w Inr
        by (simp add: act_goal_state_def goal_state_def committed_goal_def commit_record_def)
    qed
  qed simp
qed

theorem accept_goal_transaction_witness:
  "\<exists>e a'. act_accept_goal guid_unknown_1 False False False (env_1 True) request_1 one_goal Defer new_1
      = (Inl e, a') \<and> map_of (goals (goal_registry a')) goal_A = None"
proof -
  obtain res a' where r: "act_accept_goal guid_unknown_1 False False False (env_1 True) request_1 one_goal Defer new_1
      = (res, a')" by fastforce
  then have "res = Inl NotFound"
    by (auto simp: act_accept_goal_def new_1_def new_action_server_def new_registry_def reserve_def Let_def
        act_write_goal_response_def write_response_def claim_response_def new_server_def)
  with accept_goal_transaction [OF r] r show ?thesis
    by (auto simp: env_1_def one_goal_def new_1_def new_action_server_def new_registry_def)
qed

text \<open>
  Answering a result request: when it succeeds the request is gone from the server and waits for
  no goal; when it fails for any reason (a null pointer, shutdown, no matching reader, a failed
  write) the request can still be answered; no other request is touched.
\<close>

theorem result_response_retry:
  assumes "check_pending_request rid (result_server a) = Inr ()" "server_ok (result_server a)"
    and "act_write_result_response ug null shut env rid a = (res, a')"
  shows "(if res = Inr ()
      then check_pending_request rid (result_server a') = Inl NotFound \<and> \<not> waits (goal_registry a') rid
      else check_pending_request rid (result_server a') = Inr ())
    \<and> (\<forall>x. x \<noteq> rid \<longrightarrow>
        check_pending_request x (result_server a') = check_pending_request x (result_server a)
        \<and> (waits (goal_registry a') x \<longleftrightarrow> waits (goal_registry a) x))"
proof -
  have other: "check_pending_request x s = check_pending_request x t" if "phase_at s x = phase_at t x" for x s t
    using that by (cases "map_of (pending s) x"; cases "map_of (pending t) x")
      (simp_all add: check_pending_request_def phase_at_def)
  have gone: "phase_at s x = None \<Longrightarrow> check_pending_request x s = Inl NotFound" for x s
    by (simp add: check_pending_request_def phase_at_def)
  consider (refused) e where "res = Inl e" "a' = a"
    | (claimed) i s' where "\<not> null" "claim_response shut rid (result_server a) = (Inr i, s')"
        "\<And>x. phase_at s' x = (if x = rid then Some PhaseResponding else phase_at (result_server a) x)"
        "server_ok s'"
    using assms(2,3) by (cases rule: phase_at_claim [of shut rid "result_server a"])
      (auto simp: act_write_result_response_def claim_result_def split: if_splits)
  then show ?thesis
  proof cases
    case (claimed i s')
    let ?g = "remove_result_request rid (goal_registry a)"
    obtain w s2 where w: "write_claimed_response ug False env rid i s' = (w, s2)" by fastforce
    have a': "res = w" "a' = a\<lparr>result_server := s2, goal_registry := ?g\<rparr>"
      using assms(3) claimed(1,2) w by (auto simp: act_write_result_response_def claim_result_def)
    have "phase_at s' rid = Some PhaseResponding" by (simp add: claimed(3))
    note p = phase_at_write [OF claimed(4) this w]
    then show ?thesis
      using p(2) claimed(3) other [of s2 _ "result_server a"]
      by (simp add: a' pending_iff gone waits_remove)
  qed (use assms(1) in simp)
qed

theorem result_response_retry_witness:
  "\<exists>s'. act_write_result_response guid_unknown_1 False False (env_1 False) request_1
      (act asked_1) = (Inl DDSError, s')
    \<and> check_pending_request request_1 (result_server s') = Inr ()"
proof -
  let ?a = "act asked_1"
  obtain res s' where r: "act_write_result_response guid_unknown_1 False False (env_1 False) request_1 ?a = (res, s')"
    by fastforce
  then have res: "res = Inl DDSError"
    by (auto simp: asked_state act_write_result_response_def claim_result_def claim_response_def
        write_claimed_response_def write_body_def env_1_def Let_def split: if_splits)
  have "check_pending_request request_1 (result_server ?a) = Inr ()" "server_ok (result_server ?a)"
    by (simp_all add: asked_state check_pending_request_def server_ok_def um_ok_def)
  with result_response_retry [OF _ _ r] res r show ?thesis by auto
qed

end
