(* ===== verification/Availability.thy ===== *)
theory Availability
  imports Matching Clocks
begin

text \<open>
  Waiting for a service or an action server: \<^verbatim>\<open>impl/availability_wait_state.hpp\<close>, the loops of
  \<^verbatim>\<open>Client::Impl::wait_for_service\<close> and \<^verbatim>\<open>ActionClient::Impl::wait_for_server\<close> (the same loop
  over another check) and the notifications that are to wake them.

  The loop is cut at its two sections under the wait state's mutex and at the check between them,
  which the code runs without the mutex. A notification is first owed, by the thread that made
  the change, and then delivered. What the check asks is a parameter of the loop, so that both
  clients are instances.
\<close>

section \<open>The wait state\<close>

record AvailabilityWaitState =
  ws_identity :: nat
  wait_revision :: u64
  interruption_generation :: u64

text \<open>A token that was never prepared has no identity.\<close>

record AvailabilityWaitToken =
  token_identity :: "nat option"
  token_generation :: u64

definition prepare :: "AvailabilityWaitState \<Rightarrow> AvailabilityWaitToken" where
  "prepare s = \<lparr>token_identity = Some (ws_identity s), token_generation = interruption_generation s\<rparr>"

definition owns :: "AvailabilityWaitToken \<Rightarrow> AvailabilityWaitState \<Rightarrow> bool" where
  "owns t s \<longleftrightarrow> token_identity t = Some (ws_identity s)"

definition interrupted :: "AvailabilityWaitToken \<Rightarrow> AvailabilityWaitState \<Rightarrow> bool" where
  "interrupted t s \<longleftrightarrow> token_generation t \<noteq> interruption_generation s"

definition notify_revision :: "AvailabilityWaitState \<Rightarrow> AvailabilityWaitState" where
  "notify_revision s = s\<lparr>wait_revision := wait_revision s + 1\<rparr>"

definition interrupt_wait :: "AvailabilityWaitState \<Rightarrow> AvailabilityWaitState" where
  "interrupt_wait s = s\<lparr>interruption_generation := interruption_generation s + 1,
     wait_revision := wait_revision s + 1\<rparr>"

section \<open>The loop\<close>

datatype WaitPc = Top | Checking u64 | Locking u64 | Asleep u64 | Answered "bool result"

text \<open>
  \<open>owed\<close> counts the notifications that are on their way, \<open>missed\<close> those delivered since the loop
  last read the revision; both only record what happens.
\<close>

record 'e WaitSys =
  env :: 'e
  shut_down :: bool
  wait_state :: AvailabilityWaitState
  wait_time :: int
  pc :: WaitPc
  owed :: nat
  missed :: nat

text \<open>What precedes the loop: an answer at once, or the deadline.\<close>

definition wait_begin ::
  "(int \<Rightarrow> 'w::linorder) \<Rightarrow> int \<Rightarrow> bool \<Rightarrow> AvailabilityWaitToken \<Rightarrow> WaitTimeout \<Rightarrow> AvailabilityWaitState
    \<Rightarrow> int result option" where
  "wait_begin wide now shut token timeout s =
     (if shut then Some (Inl ContextShutdown)
      else if \<not> owns token s then Some (Inl InvalidArgument)
      else map_option Inr (steady_deadline wide now timeout))"

text \<open>
  One turn of the waiting thread. At \<open>Asleep\<close> it evaluates the predicate of the condition
  variable: after a notification, at its deadline, or spuriously.
\<close>

definition waiter_turn ::
  "(bool \<Rightarrow> 'e \<Rightarrow> bool result) \<Rightarrow> AvailabilityWaitToken \<Rightarrow> WaitTimeout \<Rightarrow> int \<Rightarrow> 'e WaitSys \<Rightarrow> WaitPc" where
  "waiter_turn available token timeout deadline s =
     (let past_deadline = (case timeout of Finite d \<Rightarrow> wait_time s \<ge> deadline | _ \<Rightarrow> False) in
      case pc s of
        Top \<Rightarrow>
          if shut_down s then Answered (Inl ContextShutdown)
          else if interrupted token (wait_state s) then Answered (Inl Interrupted)
          else Checking (wait_revision (wait_state s))
      | Checking observed \<Rightarrow>
          let answer = available (shut_down s) (env s)
          in if answer \<noteq> Inr False \<or> timeout = Poll then Answered answer else Locking observed
      | Locking observed \<Rightarrow>
          if shut_down s then Answered (Inl ContextShutdown)
          else if interrupted token (wait_state s) then Answered (Inl Interrupted)
          else if wait_revision (wait_state s) \<noteq> observed then Top
          else if past_deadline then Answered (Inr False)
          else Asleep observed
      | Asleep observed \<Rightarrow>
          if shut_down s \<or> interrupted token (wait_state s) \<or> wait_revision (wait_state s) \<noteq> observed
          then Top
          else if past_deadline then Answered (Inr False)
          else Asleep observed
      | Answered answer \<Rightarrow> Answered answer)"

inductive wait_step ::
  "(bool \<Rightarrow> 'e \<Rightarrow> bool result) \<Rightarrow> ('e \<Rightarrow> nat \<Rightarrow> 'e \<Rightarrow> bool) \<Rightarrow> AvailabilityWaitToken \<Rightarrow> WaitTimeout \<Rightarrow> int
    \<Rightarrow> 'e WaitSys \<Rightarrow> 'e WaitSys \<Rightarrow> bool"
  for available env_step token timeout deadline where
  turn: "wait_step available env_step token timeout deadline s
    (s\<lparr>pc := waiter_turn available token timeout deadline s, missed := (if pc s = Top then 0 else missed s)\<rparr>)"
| change: "env_step (env s) n e \<Longrightarrow>
    wait_step available env_step token timeout deadline s (s\<lparr>env := e, owed := owed s + n\<rparr>)"
| deliver: "owed s = Suc n \<Longrightarrow>
    wait_step available env_step token timeout deadline s
      (s\<lparr>owed := n, wait_state := notify_revision (wait_state s), missed := missed s + 1\<rparr>)"
| shutdown:
    "wait_step available env_step token timeout deadline s (s\<lparr>shut_down := True, owed := owed s + 1\<rparr>)"
| interrupt:
    "wait_step available env_step token timeout deadline s
      (s\<lparr>wait_state := interrupt_wait (wait_state s), missed := missed s + 1\<rparr>)"
| pass: "wait_time s \<le> t \<Longrightarrow>
    wait_step available env_step token timeout deadline s (s\<lparr>wait_time := t\<rparr>)"

inductive wait_reach ::
  "(bool \<Rightarrow> 'e \<Rightarrow> bool result) \<Rightarrow> ('e \<Rightarrow> nat \<Rightarrow> 'e \<Rightarrow> bool) \<Rightarrow> AvailabilityWaitToken \<Rightarrow> WaitTimeout \<Rightarrow> int
    \<Rightarrow> 'e WaitSys \<Rightarrow> 'e WaitSys \<Rightarrow> bool"
  for available env_step token timeout deadline s0 where
  start: "pc s0 = Top \<Longrightarrow> wait_reach available env_step token timeout deadline s0 s0"
| step: "wait_reach available env_step token timeout deadline s0 s \<Longrightarrow>
    wait_step available env_step token timeout deadline s t \<Longrightarrow>
    wait_reach available env_step token timeout deadline s0 t"

text \<open>A run together with the environment that the last check of the waiting thread saw.\<close>

definition last_check :: "'e WaitSys \<Rightarrow> 'e \<Rightarrow> 'e" where
  "last_check s e = (case pc s of Checking _ \<Rightarrow> env s | _ \<Rightarrow> e)"

inductive checked_reach ::
  "(bool \<Rightarrow> 'e \<Rightarrow> bool result) \<Rightarrow> ('e \<Rightarrow> nat \<Rightarrow> 'e \<Rightarrow> bool) \<Rightarrow> AvailabilityWaitToken \<Rightarrow> WaitTimeout \<Rightarrow> int
    \<Rightarrow> 'e WaitSys \<Rightarrow> 'e WaitSys \<Rightarrow> 'e \<Rightarrow> bool"
  for available env_step token timeout deadline s0 where
  start: "pc s0 = Top \<Longrightarrow> checked_reach available env_step token timeout deadline s0 s0 (env s0)"
| step: "checked_reach available env_step token timeout deadline s0 s e \<Longrightarrow>
    wait_step available env_step token timeout deadline s t \<Longrightarrow>
    checked_reach available env_step token timeout deadline s0 t (last_check s e)"

lemma wait_reach_checked:
  "wait_reach available env_step token timeout deadline s0 s \<longleftrightarrow>
     (\<exists>e. checked_reach available env_step token timeout deadline s0 s e)"
proof
  show "\<exists>e. checked_reach available env_step token timeout deadline s0 s e"
    if "wait_reach available env_step token timeout deadline s0 s"
    using that by induction (blast intro: checked_reach.intros)+
next
  assume "\<exists>e. checked_reach available env_step token timeout deadline s0 s e"
  then obtain e where "checked_reach available env_step token timeout deadline s0 s e" ..
  then show "wait_reach available env_step token timeout deadline s0 s"
    by induction (blast intro: wait_reach.intros)+
qed

text \<open>An unbounded wait falls asleep in three turns when nothing is available and nothing interferes.\<close>

lemma falls_asleep:
  assumes "pc s = Top" "\<not> shut_down s" "\<not> interrupted token (wait_state s)" "available False (env s) = Inr False"
  shows "checked_reach available env_step token Infinite deadline s
    (s\<lparr>pc := Asleep (wait_revision (wait_state s)), missed := 0\<rparr>) (env s)"
proof -
  let ?step = "wait_step available env_step token Infinite deadline"
  let ?reach = "checked_reach available env_step token Infinite deadline s"
  let ?s1 = "s\<lparr>pc := Checking (wait_revision (wait_state s)), missed := 0\<rparr>"
  let ?s2 = "s\<lparr>pc := Locking (wait_revision (wait_state s)), missed := 0\<rparr>"
  let ?s3 = "s\<lparr>pc := Asleep (wait_revision (wait_state s)), missed := 0\<rparr>"
  have 0: "?reach s (env s)" using assms(1) by (rule checked_reach.start)
  have "?step s ?s1"
    using wait_step.turn [of available env_step token Infinite deadline s] assms by (simp add: waiter_turn_def)
  from checked_reach.step [OF 0 this] have 1: "?reach ?s1 (env s)" by (simp add: last_check_def assms(1))
  have "?step ?s1 ?s2"
    using wait_step.turn [of available env_step token Infinite deadline ?s1] assms by (simp add: waiter_turn_def)
  from checked_reach.step [OF 1 this] have 2: "?reach ?s2 (env s)" by (simp add: last_check_def)
  have "?step ?s2 ?s3"
    using wait_step.turn [of available env_step token Infinite deadline ?s2] assms by (simp add: waiter_turn_def)
  from checked_reach.step [OF 2 this] show ?thesis by (simp add: last_check_def)
qed

section \<open>No change is missed\<close>

text \<open>
  What a client must provide for its waits. Some changes of its environment notify nobody:
  \<open>keep e e'\<close> is \<open>e'\<close> with what such changes touch still as it was in \<open>e\<close>. Apart from them, a change that
  owes no notification does not turn the answer of the check away from \<open>False\<close>.
\<close>

locale availability_wait =
  fixes available :: "bool \<Rightarrow> 'e \<Rightarrow> bool result"
    and env_step :: "'e \<Rightarrow> nat \<Rightarrow> 'e \<Rightarrow> bool"
    and env_ok :: "'e \<Rightarrow> bool"
    and keep :: "'e \<Rightarrow> 'e \<Rightarrow> 'e"
  assumes env_ok_step: "env_ok e \<Longrightarrow> env_step e n e' \<Longrightarrow> env_ok e'"
    and keep_same: "keep e e = e"
    and silent_step: "env_ok e \<Longrightarrow> env_step e 0 e' \<Longrightarrow> available False (keep c e) = Inr False \<Longrightarrow>
      available False (keep c e') = Inr False"
begin

text \<open>The answer of the last check still stands, but for what nobody is notified of.\<close>

definition answer_stands :: "AvailabilityWaitToken \<Rightarrow> 'e WaitSys \<Rightarrow> 'e \<Rightarrow> bool" where
  "answer_stands token s c \<longleftrightarrow>
     (missed s = 0 \<longrightarrow> owed s = 0 \<longrightarrow> \<not> shut_down s \<and> available False (keep c (env s)) = Inr False)
     \<and> (missed s = 0 \<longrightarrow> \<not> interrupted token (wait_state s))"

definition wait_inv :: "AvailabilityWaitToken \<Rightarrow> 'e WaitSys \<Rightarrow> 'e \<Rightarrow> bool" where
  "wait_inv token s c \<longleftrightarrow> env_ok (env s)
     \<and> (case pc s of
         Checking observed \<Rightarrow> wait_revision (wait_state s) = observed + of_nat (missed s)
           \<and> (missed s = 0 \<longrightarrow> owed s = 0 \<longrightarrow> \<not> shut_down s)
           \<and> (missed s = 0 \<longrightarrow> \<not> interrupted token (wait_state s))
       | Locking observed \<Rightarrow> wait_revision (wait_state s) = observed + of_nat (missed s) \<and> answer_stands token s c
       | Asleep observed \<Rightarrow> wait_revision (wait_state s) = observed + of_nat (missed s) \<and> answer_stands token s c
       | _ \<Rightarrow> True)"

lemma inv_step:
  assumes "wait_step available env_step token timeout deadline s t" "wait_inv token s c"
  shows "wait_inv token t (last_check s c)"
  using assms
proof (cases rule: wait_step.cases)
  case turn
  then show ?thesis
    using assms(2) unfolding wait_inv_def answer_stands_def
    by (cases "pc s") (auto simp: waiter_turn_def Let_def last_check_def keep_same)
next
  case (change n e)
  then show ?thesis
    using assms(2) env_ok_step [of "env s" n e] silent_step [of "env s" e] unfolding wait_inv_def answer_stands_def
    by (cases "pc s"; cases n) (auto simp: last_check_def)
qed (use assms(2) in \<open>auto simp: wait_inv_def answer_stands_def notify_revision_def interrupt_wait_def interrupted_def
      last_check_def split: WaitPc.splits\<close>)

lemma inv_reach:
  assumes "checked_reach available env_step token timeout deadline s0 s c" "env_ok (env s0)"
  shows "wait_inv token s c"
  using assms by (induction rule: checked_reach.induct) (auto simp: wait_inv_def [of _ s0] inv_step)

lemma same_revision:
  assumes "wait_revision w = observed + of_nat (missed s)" "wait_revision w = observed" "missed s < 2 ^ 64"
  shows "missed s = 0"
proof -
  have "(of_nat (missed s) :: u64) = 0" using assms(1,2) by simp
  then have "2 ^ 64 dvd missed s" by (simp add: word_of_nat_eq_0_iff)
  then show ?thesis using assms(3) by (metis dvd_imp_le leD neq0_conv)
qed

lemma nothing_missed:
  assumes "checked_reach available env_step token timeout deadline s0 s c" "env_ok (env s0)"
    and "pc s = Asleep (wait_revision (wait_state s)) \<or> pc s = Locking (wait_revision (wait_state s))"
    and "owed s = 0" "missed s < 2 ^ 64"
  shows "available (shut_down s) (keep c (env s)) = Inr False \<and> \<not> shut_down s \<and> \<not> interrupted token (wait_state s)"
proof -
  have inv: "wait_inv token s c" by (rule inv_reach [OF assms(1,2)])
  then have "wait_revision (wait_state s) = wait_revision (wait_state s) + of_nat (missed s)"
    using assms(3) by (auto simp: wait_inv_def)
  from same_revision [OF this refl assms(5)] have "missed s = 0" .
  then show ?thesis using inv assms(3,4) by (auto simp: wait_inv_def answer_stands_def)
qed

end

section \<open>A client\<close>

record 'q ClientEnv =
  client_graph :: "'q DiscoveryGraph"
  client_request :: RequestState

text \<open>
  \<open>ros2\<close>, \<open>metadata\<close>: the runtime mode, and whether the context has a metadata transport. What the
  check ingests from it are operations on the graph that precede the query.
\<close>

definition service_is_available :: "bool \<Rightarrow> bool \<Rightarrow> bool \<Rightarrow> 'q ClientEnv \<Rightarrow> bool result" where
  "service_is_available ros2 metadata shut e =
     (if shut then Inl ContextShutdown
      else if ros2 \<and> \<not> metadata then Inl DDSError
      else if request_is_degraded (Some (client_graph e)) (client_request e) then Inl DDSError
      else Inr (is_available (Some (client_graph e)) (client_request e)))"

text \<open>
  What changes around a client whose graph subscription is \<open>i\<close>: the graph, which notifies its
  subscribers, and the match counts, which the listeners of the client's own endpoints update
  and nobody is notified of. The subscription stays, and the graph has ids for further ones.
\<close>

inductive client_step :: "Bytes \<Rightarrow> u64 \<Rightarrow> 'q ClientEnv \<Rightarrow> nat \<Rightarrow> 'q ClientEnv \<Rightarrow> bool" for unknown i where
  discovered: "graph_exec op (client_graph e) = (ns, g) \<Longrightarrow> op \<noteq> GUnsubscribe i \<Longrightarrow>
    op \<noteq> GSubscribe \<or> next_subscription (client_graph e) \<noteq> u64_max \<Longrightarrow>
    client_step unknown i e (length (filter (\<lambda>n. fst n = i) ns)) (e\<lparr>client_graph := g\<rparr>)"
| request_matched: "client_step unknown i e 0
    (e\<lparr>client_request := observe_request_reader unknown handle change (client_request e)\<rparr>)"
| response_matched: "client_step unknown i e 0
    (e\<lparr>client_request := observe_response_writer unknown handle change (client_request e)\<rparr>)"
| degraded: "client_step unknown i e 0 (e\<lparr>client_request := request_degrade (client_request e)\<rparr>)"

lemma notify_mem: "i \<in> set (subscriptions g) \<Longrightarrow> filter (\<lambda>n. fst n = i) (notify g) \<noteq> []"
  by (auto simp: notify_def filter_empty_conv)

text \<open>An operation that does not notify a subscriber changes nothing that it could ask for.\<close>

lemma silent_graph_op:
  assumes "graph_ok g" "i \<in> set (subscriptions g)" "graph_exec op g = (ns, g')"
    and "op \<noteq> GUnsubscribe i" "op \<noteq> GSubscribe \<or> next_subscription g \<noteq> u64_max"
  shows "i \<in> set (subscriptions g')"
    and "filter (\<lambda>n. fst n = i) ns = [] \<Longrightarrow> observable g' = observable g \<and> revision g' = revision g \<and> health g' = health g"
proof -
  have "i \<in> set (subscriptions g')
    \<and> (filter (\<lambda>n. fst n = i) ns = [] \<longrightarrow> observable g' = observable g \<and> revision g' = revision g \<and> health g' = health g)"
  proof (cases "change_of op")
    case None
    have del: "i \<in> set xs \<Longrightarrow> i \<noteq> j \<Longrightarrow> i \<in> set (del_first (\<lambda>k. k = j) xs)" for j and xs :: "u64 list"
      by (induction xs) auto
    show ?thesis
    proof (cases op)
      case GUnavailable
      then show ?thesis
        using assms(2,3) notify_mem [of i "g\<lparr>health := Unavailable\<rparr>"]
        by (auto simp: unavailable_def Let_def)
    qed (use assms None del in \<open>auto simp: release_local_node_def add_local_endpoint_def subscribe_def
        unsubscribe_def observable_def Let_def split: if_splits\<close>)
  next
    case (Some c)
    have e: "mutate c g = (ns, g')" using assms(3) by (simp add: graph_exec_change [OF Some])
    have frame: "subscriptions (snd (c g)) = subscriptions g" using change_frame [OF Some, of g] by blast
    show ?thesis
    proof (cases rule: mutate_cases [of g c])
      case refused
      then show ?thesis using e assms(2) by simp
    next
      case (invalid g1)
      then show ?thesis using e frame assms(2) notify_mem [of i "g1\<lparr>health := Unavailable\<rparr>"] by auto
    next
      case (exhausted g1)
      then show ?thesis using e frame assms(2) notify_mem [of i "g1\<lparr>health := Unavailable\<rparr>"] by auto
    next
      case (changed g1)
      then show ?thesis using e frame assms(2) notify_mem [of i "g1\<lparr>revision := revision g1 + 1\<rparr>"] by auto
    next
      case (unchanged g1)
      then show ?thesis using e unchanged_observable [OF Some assms(1) unchanged(2)] assms(2) by auto
    qed
  qed
  then show "i \<in> set (subscriptions g')"
    "filter (\<lambda>n. fst n = i) ns = [] \<Longrightarrow> observable g' = observable g \<and> revision g' = revision g \<and> health g' = health g" by blast+
qed

lemma service_loop_cong:
  "participants g' = participants g \<Longrightarrow> service_loop p a b c d g' es = service_loop p a b c d g es"
  by (induction es) (simp_all add: participant_gone_def find_participant_def)

lemma service_state_cong:
  assumes "observable g' = observable g" "health g' = health g"
  shows "service_state p a b c d assoc g' = service_state p a b c d assoc g"
proof -
  have eqs: "participants g' = participants g" "endpoints g' = endpoints g" "remote_nodes g' = remote_nodes g"
    using assms(1) by (simp_all add: observable_def)
  show ?thesis unfolding service_state_def assms(2) eqs(2,3) service_loop_cong [OF eqs(1)] ..
qed

lemma available_cong:
  assumes "observable g' = observable g" "health g' = health g"
  shows "is_available (Some g') s = is_available (Some g) s"
proof -
  have "available_loop (Some g') s rs = available_loop (Some g) s rs" for rs
    by (induction rs) (simp_all add: service_state_cong [OF assms] split: option.split ServiceState.split)
  then show ?thesis by (simp add: is_available_def assms(2))
qed

definition client_ok :: "u64 \<Rightarrow> 'q ClientEnv \<Rightarrow> bool" where
  "client_ok i e \<longleftrightarrow> graph_ok (client_graph e) \<and> i \<in> set (subscriptions (client_graph e))"

lemma client_step_effect:
  assumes "client_ok i e" "client_step unknown i e n e'"
  shows "client_ok i e'"
    and "n = 0 \<Longrightarrow> observable (client_graph e') = observable (client_graph e)
      \<and> health (client_graph e') = health (client_graph e)"
proof -
  have g: "graph_ok (client_graph e)" "i \<in> set (subscriptions (client_graph e))"
    using assms(1) by (simp_all add: client_ok_def)
  from assms(2) have "client_ok i e' \<and> (n = 0 \<longrightarrow> observable (client_graph e') = observable (client_graph e)
      \<and> health (client_graph e') = health (client_graph e))"
  proof cases
    case (discovered op ns g')
    then show ?thesis
      using graph_exec_ok [OF g(1), of op] silent_graph_op [OF g discovered(3-5)] by (simp add: client_ok_def)
  qed (use g in \<open>simp_all add: client_ok_def\<close>)
  then show "client_ok i e'"
    and "n = 0 \<Longrightarrow> observable (client_graph e') = observable (client_graph e) \<and> health (client_graph e') = health (client_graph e)"
    by blast+
qed

definition with_matches :: "'q ClientEnv \<Rightarrow> 'q ClientEnv \<Rightarrow> 'q ClientEnv" where
  "with_matches c e = e\<lparr>client_request := client_request c\<rparr>"

interpretation service: availability_wait "service_is_available ros2 metadata" "client_step unknown i" "client_ok i" with_matches
  for ros2 metadata unknown i
proof
  fix e n and e' :: "'q ClientEnv"
  assume "client_ok i e" "client_step unknown i e n e'"
  then show "client_ok i e'" by (rule client_step_effect)
next
  show "with_matches e e = e" for e :: "'q ClientEnv" by (simp add: with_matches_def)
next
  fix e e' c :: "'q ClientEnv"
  assume s: "client_ok i e" "client_step unknown i e 0 e'" "service_is_available ros2 metadata False (with_matches c e) = Inr False"
  note eff = client_step_effect(2) [OF s(1,2)]
  show "service_is_available ros2 metadata False (with_matches c e') = Inr False"
    using s(3) eff available_cong [of "client_graph e'" "client_graph e" "client_request c"]
    by (auto simp: service_is_available_def request_is_degraded_def with_matches_def split: if_splits)
qed

section \<open>Waiting for the reader of a response\<close>

text \<open>
  \<^verbatim>\<open>ResponseState::wait_for_target\<close> cut the same way: it asks the graph without its mutex and
  sleeps under it. A change of the match counts notifies under the mutex, a change of the graph
  (\<^verbatim>\<open>notify_dependency_change\<close>) without it.
\<close>

datatype TargetPc = AskGraph | Locked TargetStatus | Sleeping | Answer TargetStatus

record 'q TargetSys =
  t_graph :: "'q DiscoveryGraph"
  t_state :: ResponseState
  t_time :: int
  t_pc :: TargetPc
  t_owed :: nat

definition target_turn :: "Guid \<Rightarrow> int \<Rightarrow> 'q TargetSys \<Rightarrow> TargetPc" where
  "target_turn reader deadline s =
     (case t_pc s of
        AskGraph \<Rightarrow> Locked (target_status (Some (t_graph s)) reader)
      | Locked status \<Rightarrow>
          if ps_degraded (t_state s) \<or> status = TargetUnavailable then Answer TargetUnavailable
          else if status = TargetRemoved then Answer TargetRemoved
          else if reader_present reader (t_state s) then Answer TargetReady
          else Sleeping
      | Sleeping \<Rightarrow> if t_time s \<ge> deadline then Answer TargetTimedOut else Sleeping
      | Answer status \<Rightarrow> Answer status)"

definition wake_target :: "'q TargetSys \<Rightarrow> 'q TargetSys" where
  "wake_target s = (if t_pc s = Sleeping then s\<lparr>t_pc := AskGraph\<rparr> else s)"

inductive target_step :: "Guid \<Rightarrow> Guid \<Rightarrow> u64 \<Rightarrow> int \<Rightarrow> 'q TargetSys \<Rightarrow> 'q TargetSys \<Rightarrow> bool"
  for unknown reader i deadline where
  turn: "target_step unknown reader i deadline s (s\<lparr>t_pc := target_turn reader deadline s\<rparr>)"
| spurious: "target_step unknown reader i deadline s (wake_target s)"
| discovered: "graph_exec op (t_graph s) = (ns, g) \<Longrightarrow> op \<noteq> GUnsubscribe i \<Longrightarrow>
    target_step unknown reader i deadline s
      (s\<lparr>t_graph := g, t_owed := t_owed s + length (filter (\<lambda>n. fst n = i) ns)\<rparr>)"
| deliver: "t_owed s = Suc n \<Longrightarrow> target_step unknown reader i deadline s (wake_target (s\<lparr>t_owed := n\<rparr>))"
| matched: "target_step unknown reader i deadline s
    (wake_target (s\<lparr>t_state := observe_reader unknown handle change (t_state s)\<rparr>))"
| degraded: "target_step unknown reader i deadline s (wake_target (s\<lparr>t_state := response_degrade (t_state s)\<rparr>))"
| pass: "t_time s \<le> t \<Longrightarrow> target_step unknown reader i deadline s (s\<lparr>t_time := t\<rparr>)"

inductive target_reach :: "Guid \<Rightarrow> Guid \<Rightarrow> u64 \<Rightarrow> int \<Rightarrow> 'q TargetSys \<Rightarrow> 'q TargetSys \<Rightarrow> bool"
  for unknown reader i deadline s0 where
  start: "t_pc s0 = AskGraph \<Longrightarrow> target_reach unknown reader i deadline s0 s0"
| step: "target_reach unknown reader i deadline s0 s \<Longrightarrow> target_step unknown reader i deadline s t \<Longrightarrow>
    target_reach unknown reader i deadline s0 t"

text \<open>A change of the match counts is never missed.\<close>

lemma target_asleep:
  "target_reach unknown reader i deadline s0 s \<Longrightarrow>
    t_pc s = Sleeping \<longrightarrow> \<not> reader_present reader (t_state s) \<and> \<not> ps_degraded (t_state s)"
proof (induction rule: target_reach.induct)
  case (step s t)
  from step.hyps(2) show ?case
    by (cases rule: target_step.cases)
      (use step.IH in \<open>auto simp: target_turn_def wake_target_def split: TargetPc.splits if_splits\<close>)
qed simp

section \<open>Properties\<close>

text \<open>
  C25. A client's wait misses nothing but matches. The graph may change, match callbacks arrive, the
  context be shut down and the wait be interrupted, in every interleaving. When the thread sleeps
  on the current revision and no notification is on its way, then with the match counts that its
  last check saw the service is not available, the context runs and the wait is not interrupted;
  and whenever the wait gives up with \<open>False\<close> and nothing is on its way, the service is not available
  with those counts. So as long as the match counts stay as they were at the last check, it is
  indeed not available; what a later match does is the matter of \<open>service_match_missed\<close>.
  (Fewer than \<open>2^64\<close> notifications come between two turns.)
\<close>

theorem wait_misses_nothing:
  assumes "checked_reach (service_is_available ros2 metadata) (client_step unknown i) token timeout deadline s0 s c"
    and "client_ok i (env s0)" "owed s = 0" "missed s < 2 ^ 64"
  shows "(pc s = Asleep (wait_revision (wait_state s)) \<longrightarrow>
        service_is_available ros2 metadata (shut_down s) ((env s)\<lparr>client_request := client_request c\<rparr>) = Inr False
        \<and> \<not> shut_down s \<and> \<not> interrupted token (wait_state s))
    \<and> ((\<forall>a. pc s \<noteq> Answered a) \<longrightarrow>
        waiter_turn (service_is_available ros2 metadata) token timeout deadline s = Answered (Inr False) \<longrightarrow>
        service_is_available ros2 metadata (shut_down s) ((env s)\<lparr>client_request := client_request (last_check s c)\<rparr>) = Inr False)"
proof -
  note q = service.nothing_missed [OF assms(1,2) _ assms(3,4), unfolded with_matches_def]
  show ?thesis
  proof (intro conjI impI)
    assume live: "\<forall>a. pc s \<noteq> Answered a"
      and gives_up: "waiter_turn (service_is_available ros2 metadata) token timeout deadline s = Answered (Inr False)"
    show "service_is_available ros2 metadata (shut_down s) ((env s)\<lparr>client_request := client_request (last_check s c)\<rparr>) = Inr False"
    proof (cases "\<exists>observed. pc s = Checking observed")
      case True
      with gives_up show ?thesis by (auto simp: waiter_turn_def last_check_def Let_def split: if_splits)
    next
      case False
      with live gives_up have "pc s = Asleep (wait_revision (wait_state s)) \<or> pc s = Locking (wait_revision (wait_state s))"
        by (cases "pc s") (auto simp: waiter_turn_def Let_def split: if_splits)
      from q [OF this] this show ?thesis by (auto simp: last_check_def)
    qed
  qed (use q in blast)+
qed

text \<open>
  How a wait ends: \<open>True\<close> only when the check finds the service, an infinite wait never with
  \<open>False\<close>, a finite one with \<open>False\<close> only at its deadline; interruption and shutdown are reported
  as such.
\<close>

theorem wait_answers:
  assumes "waiter_turn (service_is_available ros2 metadata) token timeout deadline s = Answered answer"
    and "\<forall>a. pc s \<noteq> Answered a"
  shows "(answer = Inr True \<longrightarrow> \<not> shut_down s \<and> is_available (Some (client_graph (env s))) (client_request (env s)))
    \<and> (answer = Inr False \<longrightarrow> timeout = Poll \<or> (\<exists>d. timeout = Finite d \<and> wait_time s \<ge> deadline))
    \<and> (answer = Inl Interrupted \<longrightarrow> interrupted token (wait_state s))
    \<and> (answer = Inl ContextShutdown \<longrightarrow> shut_down s)"
  using assms
  by (cases "pc s") (auto simp: waiter_turn_def Let_def service_is_available_def split: if_splits WaitTimeout.splits)

text \<open>The service of one participant, complete in the graph, before and after it is matched.\<close>

definition reader_1 :: Guid where "reader_1 = \<lparr>guidPrefix = replicate 12 9, entityId = [0, 0, 1, 4]\<rparr>"
definition writer_1 :: Guid where "writer_1 = \<lparr>guidPrefix = replicate 12 9, entityId = [0, 0, 2, 3]\<rparr>"

definition graph_1 :: "nat DiscoveryGraph" where
  "graph_1 = graph_run [GSubscribe, GParticipant (replicate 12 9) Added,
     GEndpoint reader_1 Reader ''q'' ''Q'' Added 0, GEndpoint writer_1 Writer ''r'' ''R'' Added 0] new_graph"

definition request_0 :: RequestState where
  "request_0 = \<lparr>rs_degraded = False, request_participants = [], response_participants = [],
     request_topic = ''q'', request_type = ''Q'', response_topic = ''r'', response_type = ''R'',
     require_node_association = False\<rparr>"

lemma graph_1_state:
  "graph_1 = new_graph\<lparr>revision := 3, next_subscription := 1, subscriptions := [1],
     participants := [\<lparr>p_prefix = replicate 12 9, p_lifecycle = Added, p_generation = 0\<rparr>],
     endpoints := [\<lparr>e_guid = reader_1, e_kind = Reader, e_topic = ''q'', e_type = ''Q'', e_qos = 0, e_lifecycle = Added\<rparr>,
       \<lparr>e_guid = writer_1, e_kind = Writer, e_topic = ''r'', e_type = ''R'', e_qos = 0, e_lifecycle = Added\<rparr>]\<rparr>"
  by (simp add: graph_1_def graph_run_def subscribe_def new_graph_def u64_max_def apply_participant_def
      mutate_def participant_change_def find_participant_def apply_endpoint_def endpoint_change_def
      participant_for_def find_endpoint_def reader_1_def writer_1_def Let_def)

lemma graph_1_ok: "graph_ok graph_1"
  unfolding graph_1_def by (rule graph_run_ok [OF new_graph_ok])

definition wait_0 :: "nat ClientEnv WaitSys" where
  "wait_0 = \<lparr>env = \<lparr>client_graph = graph_1, client_request = request_0\<rparr>, shut_down = False,
     wait_state = \<lparr>ws_identity = 5, wait_revision = 0, interruption_generation = 0\<rparr>,
     wait_time = 0, pc = Top, owed = 0, missed = 0\<rparr>"

definition token_0 :: AvailabilityWaitToken where "token_0 = prepare (wait_state wait_0)"

lemma complete_1:
  "service_state (replicate 12 9) ''q'' ''Q'' ''r'' ''R'' False graph_1 = ServiceComplete"
  by (simp add: graph_1_state service_state_def new_graph_def reader_1_def writer_1_def
      participant_gone_def find_participant_def)

text \<open>
  C27. The wait misses the matching of its own endpoints. The graph already shows the service, the
  client's listeners have not yet seen the match, the wait finds the service unavailable and goes
  to sleep; then both matches arrive and the service is available, but nothing wakes the wait,
  which sleeps for ever although it would now return \<open>True\<close>.
\<close>

theorem service_match_missed:
  "\<exists>s0 s :: nat ClientEnv WaitSys. \<exists>unknown token.
     wait_reach (service_is_available False False) (client_step unknown 1) token Infinite int64_max s0 s
     \<and> client_ok 1 (env s0) \<and> owed s = 0 \<and> missed s = 0
     \<and> service_is_available False False (shut_down s) (env s) = Inr True
     \<and> pc s = Asleep (wait_revision (wait_state s))
     \<and> waiter_turn (service_is_available False False) token Infinite int64_max s = pc s"
proof -
  let ?av = "service_is_available False False :: bool \<Rightarrow> nat ClientEnv \<Rightarrow> bool result"
  let ?st = "wait_step ?av (client_step (replicate 12 0) 1) token_0 Infinite int64_max"
  let ?re = "wait_reach ?av (client_step (replicate 12 0) 1) token_0 Infinite int64_max wait_0"
  let ?m1 = "observe_request_reader (replicate 12 0) (Some reader_1) 1 request_0"
  let ?m2 = "observe_response_writer (replicate 12 0) (Some writer_1) 1 ?m1"
  let ?s1 = "wait_0\<lparr>pc := Checking 0\<rparr>" and ?s2 = "wait_0\<lparr>pc := Locking 0\<rparr>" and ?s3 = "wait_0\<lparr>pc := Asleep 0\<rparr>"
  let ?s4 = "?s3\<lparr>env := (env wait_0)\<lparr>client_request := ?m1\<rparr>\<rparr>"
  let ?s5 = "?s3\<lparr>env := (env wait_0)\<lparr>client_request := ?m2\<rparr>\<rparr>"
  note defs = wait_0_def token_0_def prepare_def interrupted_def waiter_turn_def
  have healthy: "health graph_1 = Healthy" by (simp add: graph_1_state new_graph_def)
  have "?re wait_0" by (rule wait_reach.start) (simp add: wait_0_def)
  moreover have "?st wait_0 ?s1" using wait_step.turn [of ?av _ token_0 Infinite int64_max wait_0] by (simp add: defs)
  moreover have "?st ?s1 ?s2"
    using wait_step.turn [of ?av _ token_0 Infinite int64_max ?s1] healthy
    by (simp add: defs service_is_available_def request_is_degraded_def is_available_def request_0_def)
  moreover have "?st ?s2 ?s3" using wait_step.turn [of ?av _ token_0 Infinite int64_max ?s2] by (simp add: defs)
  moreover have "?st ?s3 ?s4"
    using wait_step.change [where env_step = "client_step (replicate 12 0) 1" and s = ?s3, OF client_step.request_matched [where e = "env ?s3"
        and handle = "Some reader_1" and change = 1]]
    by (simp add: wait_0_def)
  moreover have "?st ?s4 ?s5"
    using wait_step.change [where env_step = "client_step (replicate 12 0) 1" and s = ?s4, OF client_step.response_matched [where e = "env ?s4"
        and handle = "Some writer_1" and change = 1]]
    by (simp add: wait_0_def)
  ultimately have reach: "?re ?s5" by (meson wait_reach.step)
  have "service_is_available False False (shut_down ?s5) (env ?s5) = Inr True"
    using healthy complete_1
    by (simp add: wait_0_def service_is_available_def request_is_degraded_def is_available_def request_0_def
        observe_request_reader_def observe_response_writer_def request_update_def count_change_def
        reader_1_def writer_1_def)
  moreover have "client_ok 1 (env wait_0)" using graph_1_ok by (simp add: client_ok_def wait_0_def graph_1_state)
  moreover have "pc ?s5 = Asleep (wait_revision (wait_state ?s5))" "owed ?s5 = 0" "missed ?s5 = 0"
      "waiter_turn ?av token_0 Infinite int64_max ?s5 = pc ?s5"
    by (simp_all add: defs)
  ultimately show ?thesis using reach by blast
qed

theorem wait_misses_nothing_witness:
  "service_is_available False False False (env wait_0) = Inr False"
proof -
  let ?av = "service_is_available False False :: bool \<Rightarrow> nat ClientEnv \<Rightarrow> bool result"
  have no: "?av False (env wait_0) = Inr False"
    by (simp add: wait_0_def graph_1_state new_graph_def service_is_available_def request_is_degraded_def
        is_available_def request_0_def)
  have "checked_reach ?av (client_step (replicate 12 0) 1) token_0 Infinite int64_max wait_0
      (wait_0\<lparr>pc := Asleep (wait_revision (wait_state wait_0)), missed := 0\<rparr>) (env wait_0)"
    by (rule falls_asleep) (use no in \<open>simp_all add: wait_0_def token_0_def prepare_def interrupted_def\<close>)
  moreover have "client_ok 1 (env wait_0)" using graph_1_ok by (simp add: client_ok_def wait_0_def graph_1_state)
  ultimately show ?thesis
    using wait_misses_nothing [of False False "replicate 12 0" 1 token_0 Infinite int64_max wait_0
        "wait_0\<lparr>pc := Asleep (wait_revision (wait_state wait_0)), missed := 0\<rparr>" "env wait_0"] by (simp add: wait_0_def)
qed

theorem wait_answers_witness:
  "waiter_turn (service_is_available False False) token_0 (Finite 5) 0 (wait_0\<lparr>pc := Asleep 0\<rparr>) = Answered (Inr False)
   \<and> 0 \<le> wait_time (wait_0\<lparr>pc := Asleep 0\<rparr>)"
proof -
  let ?s = "wait_0\<lparr>pc := Asleep 0\<rparr>"
  have t: "waiter_turn (service_is_available False False) token_0 (Finite 5) 0 ?s = Answered (Inr False)"
    by (simp add: wait_0_def token_0_def prepare_def interrupted_def waiter_turn_def)
  from wait_answers [OF this] show ?thesis using t by simp
qed

text \<open>
  A server waiting for the reader of its response misses the removal of that reader when the
  graph's notification falls between its question to the graph and its sleep: it sleeps on, with
  nothing on its way, although the graph shows the reader as removed.
\<close>

theorem target_removal_missed:
  "\<exists>s0 s :: nat TargetSys. \<exists>unknown.
     target_reach unknown reader_1 1 int64_max s0 s \<and> t_owed s = 0 \<and> t_pc s = Sleeping
     \<and> target_turn reader_1 int64_max s = Sleeping
     \<and> target_status (Some (t_graph s)) reader_1 = TargetRemoved"
proof -
  let ?u = "\<lparr>guidPrefix = replicate 12 0, entityId = [0, 0, 0, 0]\<rparr> :: Guid"
  let ?st = "target_step ?u reader_1 1 int64_max"
  let ?r = "\<lparr>ps_degraded = False, readers = []\<rparr>"
  obtain ns g where g: "graph_exec (GEndpoint reader_1 Reader ''q'' ''Q'' Removed 0) graph_1 = (ns, g)" by fastforce
  have n: "length (filter (\<lambda>n. fst n = 1) ns) = 1" and rem: "target_status (Some g) reader_1 = TargetRemoved"
    using g by (auto simp: graph_1_state apply_endpoint_def mutate_def endpoint_change_def participant_for_def
        find_participant_def find_endpoint_def reader_1_def writer_1_def new_graph_def notify_def u64_max_def
        target_status_def endpoint_state_def Let_def)
  have st1: "target_status (Some graph_1) reader_1 = TargetTimedOut"
    by (simp add: graph_1_state target_status_def endpoint_state_def find_endpoint_def find_participant_def
        new_graph_def reader_1_def)
  let ?s0 = "\<lparr>t_graph = graph_1, t_state = ?r, t_time = 0, t_pc = AskGraph, t_owed = 0\<rparr>"
  let ?s1 = "?s0\<lparr>t_pc := Locked TargetTimedOut\<rparr>"
  let ?s2 = "?s1\<lparr>t_graph := g, t_owed := 1\<rparr>" and ?s3 = "?s1\<lparr>t_graph := g\<rparr>" and ?s4 = "?s0\<lparr>t_graph := g, t_pc := Sleeping\<rparr>"
  have "target_reach ?u reader_1 1 int64_max ?s0 ?s0" by (rule target_reach.start) simp
  moreover have "?st ?s0 ?s1" using target_step.turn [of ?u reader_1 1 int64_max ?s0] st1 by (simp add: target_turn_def)
  moreover have "?st ?s1 ?s2"
    using target_step.discovered [where s = ?s1 and i = 1 and ns = ns and g = g
        and op = "GEndpoint reader_1 Reader ''q'' ''Q'' Removed 0" and unknown = ?u and reader = reader_1
        and deadline = int64_max] g n by simp
  moreover have "?st ?s2 ?s3" using target_step.deliver [of ?s2 0] by (simp add: wake_target_def)
  moreover have "?st ?s3 ?s4"
    using target_step.turn [of ?u reader_1 1 int64_max ?s3] by (simp add: target_turn_def reader_present_def)
  ultimately have "target_reach ?u reader_1 1 int64_max ?s0 ?s4" by (meson target_reach.step)
  then show ?thesis
    using rem by (intro exI [of _ ?s0] exI [of _ ?s4] exI [of _ ?u]) (simp add: target_turn_def int64_max_def)
qed

end
