(* ===== verification/Qos.thy ===== *)
theory Qos
  imports Names
begin

text \<open>
  Quality of service: the descriptor of \<^verbatim>\<open>dmw/qos.hpp\<close> with its setters, presets and the
  compatibility check, and its translation to and from the structures of Fast DDS in
  \<^verbatim>\<open>impl/qos.hpp\<close>. A 32-bit field of Fast DDS is an \<open>int\<close> with its range written out where a
  cast could leave it. The infinite duration of Fast DDS and its test \<^verbatim>\<open>is_infinite()\<close> are
  parameters.
\<close>

section \<open>Policies\<close>

datatype HistoryPolicy = HistoryDefault | KeepLast | KeepAll
datatype ReliabilityPolicy = ReliabilityDefault | Reliable | BestEffort
datatype DurabilityPolicy = DurabilityDefault | Volatile | TransientLocal
datatype LivelinessPolicy = LivelinessDefault | Automatic | ManualByTopic

text \<open>Nanoseconds of a finite duration; reading the value of any other kind terminates.\<close>

datatype QosDuration = DurationDefault | DurationInfinite | DurationFinite int

definition finite_duration :: "int \<Rightarrow> QosDuration result" where
  "finite_duration v = (if v < 0 then failure InvalidArgument else success (DurationFinite v))"

fun duration_value :: "QosDuration \<Rightarrow> int option" where
  "duration_value (DurationFinite v) = Some v"
| "duration_value _ = None"

record Qos =
  history :: HistoryPolicy
  depth :: u64
  reliability :: ReliabilityPolicy
  durability :: DurabilityPolicy
  q_deadline :: QosDuration
  lifespan :: QosDuration
  liveliness :: LivelinessPolicy
  lease_duration :: QosDuration

section \<open>Presets and setters\<close>

definition qos_system_default :: Qos where
  "qos_system_default = \<lparr>history = HistoryDefault, depth = 0, reliability = ReliabilityDefault,
     durability = DurabilityDefault, q_deadline = DurationDefault, lifespan = DurationDefault,
     liveliness = LivelinessDefault, lease_duration = DurationDefault\<rparr>"

definition ros2_default :: Qos where
  "ros2_default = qos_system_default\<lparr>history := KeepLast, depth := 10, reliability := Reliable,
     durability := Volatile\<rparr>"

definition ros2_services_default :: Qos where
  "ros2_services_default = ros2_default"

definition ros2_sensor_data :: Qos where
  "ros2_sensor_data = qos_system_default\<lparr>history := KeepLast, depth := 5, reliability := BestEffort,
     durability := Volatile\<rparr>"

definition ros2_parameters :: Qos where
  "ros2_parameters = qos_system_default\<lparr>history := KeepLast, depth := 1000, reliability := Reliable,
     durability := Volatile\<rparr>"

definition ros2_parameter_events :: Qos where
  "ros2_parameter_events = ros2_parameters"

definition ros2_action_status_default :: Qos where
  "ros2_action_status_default = qos_system_default\<lparr>history := KeepLast, depth := 1,
     reliability := Reliable, durability := TransientLocal\<rparr>"

definition keep_last :: "u64 \<Rightarrow> Qos \<Rightarrow> unit result \<times> Qos" where
  "keep_last n q = (if n = 0 then (failure InvalidArgument, q)
                    else (success (), q\<lparr>history := KeepLast, depth := n\<rparr>))"

definition keep_all :: "Qos \<Rightarrow> Qos" where
  "keep_all q = q\<lparr>history := KeepAll, depth := 0\<rparr>"

definition history_system_default :: "Qos \<Rightarrow> Qos" where
  "history_system_default q = q\<lparr>history := HistoryDefault, depth := 0\<rparr>"

definition reliable :: "Qos \<Rightarrow> Qos" where "reliable q = q\<lparr>reliability := Reliable\<rparr>"
definition best_effort :: "Qos \<Rightarrow> Qos" where "best_effort q = q\<lparr>reliability := BestEffort\<rparr>"
definition transient_local :: "Qos \<Rightarrow> Qos" where "transient_local q = q\<lparr>durability := TransientLocal\<rparr>"
definition set_volatile :: "Qos \<Rightarrow> Qos" where "set_volatile q = q\<lparr>durability := Volatile\<rparr>"

definition reliability_system_default :: "Qos \<Rightarrow> Qos" where
  "reliability_system_default q = q\<lparr>reliability := ReliabilityDefault\<rparr>"

definition durability_system_default :: "Qos \<Rightarrow> Qos" where
  "durability_system_default q = q\<lparr>durability := DurabilityDefault\<rparr>"

definition set_deadline :: "QosDuration \<Rightarrow> Qos \<Rightarrow> Qos" where "set_deadline v q = q\<lparr>q_deadline := v\<rparr>"
definition set_lifespan :: "QosDuration \<Rightarrow> Qos \<Rightarrow> Qos" where "set_lifespan v q = q\<lparr>lifespan := v\<rparr>"
definition set_liveliness :: "LivelinessPolicy \<Rightarrow> Qos \<Rightarrow> Qos" where "set_liveliness v q = q\<lparr>liveliness := v\<rparr>"

definition set_lease_duration :: "QosDuration \<Rightarrow> Qos \<Rightarrow> Qos" where
  "set_lease_duration v q = q\<lparr>lease_duration := v\<rparr>"

lemmas qos_setters [op_defs] = keep_last_def keep_all_def history_system_default_def reliable_def
  best_effort_def transient_local_def set_volatile_def reliability_system_default_def
  durability_system_default_def set_deadline_def set_lifespan_def set_liveliness_def
  set_lease_duration_def

lemmas qos_presets [op_defs] = qos_system_default_def ros2_default_def ros2_services_default_def
  ros2_sensor_data_def ros2_parameters_def ros2_parameter_events_def ros2_action_status_default_def

text \<open>
  The constructor and the fields are private, so every \<^verbatim>\<open>QosDuration\<close> comes from one of the three
  factories and every \<^verbatim>\<open>Qos\<close> from a preset by setters.
\<close>

inductive duration_built :: "QosDuration \<Rightarrow> bool" where
  "duration_built DurationDefault"
| "duration_built DurationInfinite"
| "finite_duration v = success d \<Longrightarrow> in_int64 v \<Longrightarrow> duration_built d"

inductive qos_built :: "Qos \<Rightarrow> bool" where
  preset: "q \<in> {qos_system_default, ros2_default, ros2_services_default, ros2_sensor_data,
             ros2_parameters, ros2_parameter_events, ros2_action_status_default} \<Longrightarrow> qos_built q"
| last: "qos_built q \<Longrightarrow> qos_built (snd (keep_last n q))"
| flag: "qos_built q \<Longrightarrow> f \<in> {keep_all, history_system_default, reliable, best_effort, transient_local,
             set_volatile, reliability_system_default, durability_system_default} \<Longrightarrow> qos_built (f q)"
| duration: "qos_built q \<Longrightarrow> duration_built d \<Longrightarrow> f \<in> {set_deadline, set_lifespan, set_lease_duration}
             \<Longrightarrow> qos_built (f d q)"
| kind: "qos_built q \<Longrightarrow> qos_built (set_liveliness l q)"

inductive_cases duration_built_finiteE: "duration_built (DurationFinite v)"

fun duration_ok :: "QosDuration \<Rightarrow> bool" where
  "duration_ok (DurationFinite v) \<longleftrightarrow> 0 \<le> v \<and> v \<le> int64_max"
| "duration_ok _ \<longleftrightarrow> True"

definition qos_ok :: "Qos \<Rightarrow> bool" where
  "qos_ok q \<longleftrightarrow> (history q = KeepLast \<longleftrightarrow> depth q \<noteq> 0) \<and> duration_ok (q_deadline q) \<and>
     duration_ok (lifespan q) \<and> duration_ok (lease_duration q)"

lemma duration_built_ok: "duration_built d \<Longrightarrow> duration_ok d"
  by (induction rule: duration_built.induct) (auto simp: finite_duration_def in_int64_def split: if_splits)

lemma qos_built_ok: "qos_built q \<Longrightarrow> qos_ok q"
proof (induction rule: qos_built.induct)
  case (preset q)
  then show ?case by (elim insertE) (simp_all add: qos_ok_def qos_presets)
next
  case (flag q f)
  then show ?case by (elim insertE) (simp_all add: qos_ok_def qos_setters)
next
  case (duration q d f)
  then show ?case using duration_built_ok by (elim insertE) (simp_all add: qos_ok_def qos_setters)
qed (simp_all add: qos_ok_def qos_setters)

section \<open>Compatibility\<close>

datatype QosCompatibility = Compatible | Warning | Incompatible

text \<open>The reason that accompanies the answer is text.\<close>

definition check_qos_compatibility :: "Qos \<Rightarrow> Qos \<Rightarrow> QosCompatibility result" where
  "check_qos_compatibility publisher_qos subscriber_qos =
     (if reliability publisher_qos = BestEffort \<and> reliability subscriber_qos = Reliable
      then success Incompatible
      else if durability publisher_qos = Volatile \<and> durability subscriber_qos = TransientLocal
      then success Incompatible
      else if reliability publisher_qos = ReliabilityDefault \<or> reliability subscriber_qos = ReliabilityDefault \<or>
              durability publisher_qos = DurabilityDefault \<or> durability subscriber_qos = DurabilityDefault
      then success Warning
      else success Compatible)"

text \<open>
  The reference. The middleware chooses every policy that is left to it, and keeps the others. Of
  what is chosen, the request-offer rules of DDS ask that the publisher is at least as reliable and
  durable as the subscriber requests, promises a deadline and a lease no longer than requested, and
  asserts its liveliness in a manner at least as strict. Lifespan and history are no part of them.
\<close>

definition resolves :: "Qos \<Rightarrow> Qos \<Rightarrow> bool" where
  "resolves q r \<longleftrightarrow>
     reliability r \<noteq> ReliabilityDefault \<and> (reliability q = ReliabilityDefault \<or> reliability r = reliability q) \<and>
     durability r \<noteq> DurabilityDefault \<and> (durability q = DurabilityDefault \<or> durability r = durability q) \<and>
     q_deadline r \<noteq> DurationDefault \<and> (q_deadline q = DurationDefault \<or> q_deadline r = q_deadline q) \<and>
     liveliness r \<noteq> LivelinessDefault \<and> (liveliness q = LivelinessDefault \<or> liveliness r = liveliness q) \<and>
     lease_duration r \<noteq> DurationDefault \<and> (lease_duration q = DurationDefault \<or> lease_duration r = lease_duration q) \<and>
     lifespan r \<noteq> DurationDefault \<and> (lifespan q = DurationDefault \<or> lifespan r = lifespan q) \<and>
     history r \<noteq> HistoryDefault \<and> (history q = HistoryDefault \<or> history r = history q \<and> depth r = depth q)"

fun reliability_rank :: "ReliabilityPolicy \<Rightarrow> nat" where
  "reliability_rank BestEffort = 0" | "reliability_rank Reliable = 1" | "reliability_rank ReliabilityDefault = 0"

fun durability_rank :: "DurabilityPolicy \<Rightarrow> nat" where
  "durability_rank Volatile = 0" | "durability_rank TransientLocal = 1" | "durability_rank DurabilityDefault = 0"

fun liveliness_rank :: "LivelinessPolicy \<Rightarrow> nat" where
  "liveliness_rank Automatic = 0" | "liveliness_rank ManualByTopic = 1" | "liveliness_rank LivelinessDefault = 0"

fun no_longer :: "QosDuration \<Rightarrow> QosDuration \<Rightarrow> bool" where
  "no_longer _ DurationInfinite = True"
| "no_longer (DurationFinite a) (DurationFinite b) = (a \<le> b)"
| "no_longer _ _ = False"

definition delivers :: "Qos \<Rightarrow> Qos \<Rightarrow> bool" where
  "delivers p s \<longleftrightarrow> reliability_rank (reliability s) \<le> reliability_rank (reliability p) \<and>
     durability_rank (durability s) \<le> durability_rank (durability p)"

definition in_time :: "Qos \<Rightarrow> Qos \<Rightarrow> bool" where
  "in_time p s \<longleftrightarrow> no_longer (q_deadline p) (q_deadline s) \<and>
     liveliness_rank (liveliness s) \<le> liveliness_rank (liveliness p) \<and> no_longer (lease_duration p) (lease_duration s)"

definition offers :: "Qos \<Rightarrow> Qos \<Rightarrow> bool" where
  "offers p s \<longleftrightarrow> delivers p s \<and> in_time p s"

definition left_open :: "Qos \<Rightarrow> bool" where
  "left_open q \<longleftrightarrow> reliability q = ReliabilityDefault \<or> durability q = DurabilityDefault"

definition refused :: "Qos \<Rightarrow> Qos \<Rightarrow> bool" where
  "refused p s \<longleftrightarrow> reliability p = BestEffort \<and> reliability s = Reliable \<or>
     durability p = Volatile \<and> durability s = TransientLocal"

text \<open>A resolution may take its reliability and durability from elsewhere: the rules are independent.\<close>

definition delivery_of :: "Qos \<Rightarrow> ReliabilityPolicy \<Rightarrow> DurabilityPolicy \<Rightarrow> Qos \<Rightarrow> Qos" where
  "delivery_of q r d q' = q'\<lparr>reliability := if reliability q = ReliabilityDefault then r else reliability q,
     durability := if durability q = DurabilityDefault then d else durability q\<rparr>"

lemma delivery_resolves:
  assumes "resolves q q'" "r \<noteq> ReliabilityDefault" "d \<noteq> DurabilityDefault"
  shows "resolves q (delivery_of q r d q')"
  using assms by (auto simp: resolves_def delivery_of_def)

lemma delivery_in_time: "in_time (delivery_of p r d p') (delivery_of s r' d' s') \<longleftrightarrow> in_time p' s'"
  by (simp add: in_time_def delivery_of_def)

lemma best_delivers:
  "\<not> refused p s \<Longrightarrow> delivers (delivery_of p Reliable TransientLocal p') (delivery_of s BestEffort Volatile s')"
  by (cases "reliability p"; cases "reliability s"; cases "durability p"; cases "durability s")
     (simp_all add: refused_def delivers_def delivery_of_def)

lemma kept:
  assumes "resolves q r"
  shows "reliability q \<noteq> ReliabilityDefault \<Longrightarrow> reliability r = reliability q"
    "durability q \<noteq> DurabilityDefault \<Longrightarrow> durability r = durability q"
  using assms unfolding resolves_def by blast+

lemma refused_never: "resolves p p' \<Longrightarrow> resolves s s' \<Longrightarrow> refused p s \<Longrightarrow> \<not> delivers p' s'"
  using kept [of p p'] kept [of s s'] by (auto simp: refused_def delivers_def)

lemma fixed_delivers:
  assumes "resolves p p'" "resolves s s'" "\<not> left_open p" "\<not> left_open s"
  shows "delivers p' s' \<longleftrightarrow> \<not> refused p s"
proof -
  have "reliability p' = reliability p" "durability p' = durability p" "reliability s' = reliability s" "durability s' = durability s"
    using kept assms by (simp_all add: left_open_def)
  then show ?thesis using assms(3,4)
    by (cases "reliability p"; cases "reliability s"; cases "durability p"; cases "durability s")
       (simp_all add: delivers_def refused_def left_open_def)
qed

lemma check_answers:
  "check_qos_compatibility p s =
     success (if refused p s then Incompatible else if left_open p \<or> left_open s then Warning else Compatible)"
  by (auto simp: check_qos_compatibility_def refused_def left_open_def)

section \<open>The structures of Fast DDS\<close>

record Duration_t =
  seconds :: int
  nanosec :: int

definition int32_max :: int where "int32_max = 2147483647"

text \<open>The kinds the code names; the last constructor of each is any other value.\<close>

datatype HistoryKind = KEEP_LAST_HISTORY_QOS | KEEP_ALL_HISTORY_QOS | HISTORY_UNNAMED
datatype ReliabilityKind = RELIABLE_RELIABILITY_QOS | BEST_EFFORT_RELIABILITY_QOS | RELIABILITY_UNNAMED
datatype DurabilityKind = VOLATILE_DURABILITY_QOS | TRANSIENT_LOCAL_DURABILITY_QOS | DURABILITY_UNNAMED
datatype LivelinessKind = AUTOMATIC_LIVELINESS_QOS | MANUAL_BY_TOPIC_LIVELINESS_QOS | LIVELINESS_UNNAMED

text \<open>
  What a discovery message carries, and what the QoS of an endpoint adds: a history and the
  implementation policies. \<open>realloc_memory\<close>, \<open>data_sharing_off\<close> and \<open>synchronous\<close> tell whether
  the value the code sets is in force.
\<close>

record DiscoveryQos =
  m_reliability :: ReliabilityKind
  m_durability :: DurabilityKind
  m_deadline :: Duration_t
  m_lifespan :: Duration_t
  m_liveliness :: LivelinessKind
  m_lease :: Duration_t

record DataReaderQos = DiscoveryQos +
  history_kind :: HistoryKind
  history_depth :: int
  realloc_memory :: bool
  data_sharing_off :: bool

record DataWriterQos = DataReaderQos +
  synchronous :: bool
  max_blocking_time :: Duration_t

section \<open>Translation to Fast DDS\<close>

text \<open>The divisions are of a non-negative count, so truncation is \<open>div\<close> and \<open>mod\<close>.\<close>

definition to_duration :: "Duration_t \<Rightarrow> QosDuration \<Rightarrow> Duration_t result" where
  "to_duration forever d = (case d of
       DurationDefault \<Rightarrow> failure InvalidState
     | DurationInfinite \<Rightarrow> success forever
     | DurationFinite v \<Rightarrow>
         let s = v div 1000000000; ns = v mod 1000000000
         in if s > int32_max then failure Unsupported else success \<lparr>seconds = s, nanosec = ns\<rparr>)"

definition apply_ros2_compatibility_defaults :: "'a DataReaderQos_scheme \<Rightarrow> 'a DataReaderQos_scheme" where
  "apply_ros2_compatibility_defaults qos = qos\<lparr>history_kind := KEEP_LAST_HISTORY_QOS, history_depth := 10,
     m_reliability := RELIABLE_RELIABILITY_QOS, m_durability := VOLATILE_DURABILITY_QOS\<rparr>"

text \<open>One optional duration: the early return of a failed conversion.\<close>

definition apply_duration ::
  "Duration_t \<Rightarrow> QosDuration \<Rightarrow> (Duration_t \<Rightarrow> 'n \<Rightarrow> 'n) \<Rightarrow> 'n \<Rightarrow> 'n result" where
  "apply_duration forever d set_field n =
     (if d = DurationDefault then success n else rbind (to_duration forever d) (\<lambda>t. success (set_field t n)))"

definition apply_history :: "Qos \<Rightarrow> 'a DataReaderQos_scheme \<Rightarrow> 'a DataReaderQos_scheme result" where
  "apply_history source qos =
     (case history source of
        KeepLast \<Rightarrow> if depth source > word_of_int int32_max then failure Unsupported
                    else success (qos\<lparr>history_kind := KEEP_LAST_HISTORY_QOS, history_depth := uint (depth source)\<rparr>)
      | KeepAll \<Rightarrow> success (qos\<lparr>history_kind := KEEP_ALL_HISTORY_QOS\<rparr>)
      | HistoryDefault \<Rightarrow> success qos)"

definition apply_kinds :: "Qos \<Rightarrow> 'a DataReaderQos_scheme \<Rightarrow> 'a DataReaderQos_scheme" where
  "apply_kinds source qos =
     (let q1 = (case reliability source of Reliable \<Rightarrow> qos\<lparr>m_reliability := RELIABLE_RELIABILITY_QOS\<rparr>
                | BestEffort \<Rightarrow> qos\<lparr>m_reliability := BEST_EFFORT_RELIABILITY_QOS\<rparr> | _ \<Rightarrow> qos)
      in case durability source of Volatile \<Rightarrow> q1\<lparr>m_durability := VOLATILE_DURABILITY_QOS\<rparr>
         | TransientLocal \<Rightarrow> q1\<lparr>m_durability := TRANSIENT_LOCAL_DURABILITY_QOS\<rparr> | _ \<Rightarrow> q1)"

definition apply_liveliness :: "Qos \<Rightarrow> 'a DataReaderQos_scheme \<Rightarrow> 'a DataReaderQos_scheme" where
  "apply_liveliness source qos =
     (case liveliness source of Automatic \<Rightarrow> qos\<lparr>m_liveliness := AUTOMATIC_LIVELINESS_QOS\<rparr>
      | ManualByTopic \<Rightarrow> qos\<lparr>m_liveliness := MANUAL_BY_TOPIC_LIVELINESS_QOS\<rparr> | _ \<Rightarrow> qos)"

definition apply_neutral_qos ::
  "Duration_t \<Rightarrow> Qos \<Rightarrow> 'a DataReaderQos_scheme \<Rightarrow> 'a DataReaderQos_scheme result" where
  "apply_neutral_qos forever source qos =
     rbind (apply_history source qos) (\<lambda>qos.
     rbind (apply_duration forever (q_deadline source) (\<lambda>t. m_deadline_update (\<lambda>_. t)) (apply_kinds source qos)) (\<lambda>qos.
     rbind (apply_duration forever (lifespan source) (\<lambda>t. m_lifespan_update (\<lambda>_. t)) qos) (\<lambda>qos.
       apply_duration forever (lease_duration source) (\<lambda>t. m_lease_update (\<lambda>_. t)) (apply_liveliness source qos))))"

definition apply_ros2_writer_implementation_policy :: "'a DataWriterQos_scheme \<Rightarrow> 'a DataWriterQos_scheme" where
  "apply_ros2_writer_implementation_policy qos = qos\<lparr>realloc_memory := True, synchronous := True,
     data_sharing_off := True, max_blocking_time := \<lparr>seconds = 0, nanosec = 100000000\<rparr>\<rparr>"

definition apply_ros2_reader_implementation_policy :: "'a DataReaderQos_scheme \<Rightarrow> 'a DataReaderQos_scheme" where
  "apply_ros2_reader_implementation_policy qos = qos\<lparr>realloc_memory := True, data_sharing_off := True\<rparr>"

definition to_writer_qos :: "Duration_t \<Rightarrow> Qos \<Rightarrow> RuntimeMode \<Rightarrow> DataWriterQos \<Rightarrow> DataWriterQos result" where
  "to_writer_qos forever source mode qos =
     rbind (apply_neutral_qos forever source (if mode = ROS2 then apply_ros2_compatibility_defaults qos else qos))
       (\<lambda>q. success (if mode = ROS2 then apply_ros2_writer_implementation_policy q else q))"

definition to_reader_qos :: "Duration_t \<Rightarrow> Qos \<Rightarrow> RuntimeMode \<Rightarrow> DataReaderQos \<Rightarrow> DataReaderQos result" where
  "to_reader_qos forever source mode qos =
     rbind (apply_neutral_qos forever source (if mode = ROS2 then apply_ros2_compatibility_defaults qos else qos))
       (\<lambda>q. success (if mode = ROS2 then apply_ros2_reader_implementation_policy q else q))"

section \<open>Translation from Fast DDS\<close>

definition from_duration :: "(Duration_t \<Rightarrow> bool) \<Rightarrow> Duration_t \<Rightarrow> QosDuration result" where
  "from_duration is_inf d =
     (if is_inf d then success DurationInfinite
      else if seconds d < 0 \<or> nanosec d \<ge> 1000000000 then failure DDSError
      else if seconds d > int64_max div 1000000000 then failure Unsupported
      else finite_duration (seconds d * 1000000000 + nanosec d))"

fun from_reliability :: "ReliabilityKind \<Rightarrow> Qos \<Rightarrow> Qos" where
  "from_reliability RELIABLE_RELIABILITY_QOS q = reliable q"
| "from_reliability BEST_EFFORT_RELIABILITY_QOS q = best_effort q"
| "from_reliability RELIABILITY_UNNAMED q = reliability_system_default q"

fun from_durability :: "DurabilityKind \<Rightarrow> Qos \<Rightarrow> Qos" where
  "from_durability VOLATILE_DURABILITY_QOS q = set_volatile q"
| "from_durability TRANSIENT_LOCAL_DURABILITY_QOS q = transient_local q"
| "from_durability DURABILITY_UNNAMED q = durability_system_default q"

fun from_liveliness :: "LivelinessKind \<Rightarrow> Qos \<Rightarrow> Qos" where
  "from_liveliness AUTOMATIC_LIVELINESS_QOS q = set_liveliness Automatic q"
| "from_liveliness MANUAL_BY_TOPIC_LIVELINESS_QOS q = set_liveliness ManualByTopic q"
| "from_liveliness LIVELINESS_UNNAMED q = q"

definition from_history :: "'a DataReaderQos_scheme \<Rightarrow> Qos \<Rightarrow> Qos result" where
  "from_history source q = (case history_kind source of
       KEEP_LAST_HISTORY_QOS \<Rightarrow>
         if history_depth source \<le> 0 then failure DDSError
         else (case keep_last (word_of_int (history_depth source)) q of
                 (Inl e, q) \<Rightarrow> failure e | (Inr _, q) \<Rightarrow> success q)
     | KEEP_ALL_HISTORY_QOS \<Rightarrow> success (keep_all q)
     | HISTORY_UNNAMED \<Rightarrow> success (history_system_default q))"

text \<open>The tail that \<^verbatim>\<open>from_neutral_qos\<close> and \<^verbatim>\<open>from_discovery_qos\<close> have in common.\<close>

definition from_discovered ::
  "(Duration_t \<Rightarrow> bool) \<Rightarrow> 'a DiscoveryQos_scheme \<Rightarrow> Qos \<Rightarrow> Qos result" where
  "from_discovered is_inf source q0 =
     (let q = from_durability (m_durability source) (from_reliability (m_reliability source) q0) in
      rbind (from_duration is_inf (m_deadline source)) (\<lambda>deadline.
      rbind (from_duration is_inf (m_lifespan source)) (\<lambda>life.
      rbind (from_duration is_inf (m_lease source)) (\<lambda>lease.
        success (from_liveliness (m_liveliness source)
          (set_lease_duration lease (set_lifespan life (set_deadline deadline q))))))))"

definition from_neutral_qos :: "(Duration_t \<Rightarrow> bool) \<Rightarrow> 'a DataReaderQos_scheme \<Rightarrow> Qos result" where
  "from_neutral_qos is_inf source = rbind (from_history source qos_system_default) (from_discovered is_inf source)"

definition from_discovery_qos :: "(Duration_t \<Rightarrow> bool) \<Rightarrow> 'a DiscoveryQos_scheme \<Rightarrow> Qos result" where
  "from_discovery_qos is_inf source = from_discovered is_inf source qos_system_default"

definition discovery_qos_or_unknown :: "(Duration_t \<Rightarrow> bool) \<Rightarrow> 'a DiscoveryQos_scheme \<Rightarrow> Qos" where
  "discovery_qos_or_unknown is_inf source =
     (case from_discovery_qos is_inf source of Inr q \<Rightarrow> q | Inl _ \<Rightarrow> qos_system_default)"


section \<open>Round trip\<close>

text \<open>
  What the code relies on: the infinite value is recognised as such, and no value of fewer than
  \<^verbatim>\<open>INT32_MAX\<close> seconds is.
\<close>

definition fastdds_time :: "Duration_t \<Rightarrow> (Duration_t \<Rightarrow> bool) \<Rightarrow> bool" where
  "fastdds_time forever is_inf \<longleftrightarrow> is_inf forever \<and>
     (\<forall>d. 0 \<le> seconds d \<and> seconds d < int32_max \<and> 0 \<le> nanosec d \<and> nanosec d < 1000000000 \<longrightarrow> \<not> is_inf d)"

fun short :: "QosDuration \<Rightarrow> bool" where
  "short (DurationFinite v) \<longleftrightarrow> 0 \<le> v \<and> v < int32_max * 1000000000"
| "short _ \<longleftrightarrow> True"

lemma duration_round:
  assumes t: "fastdds_time forever is_inf" and d: "short d" "d \<noteq> DurationDefault"
  shows "\<exists>n. to_duration forever d = Inr n \<and> from_duration is_inf n = Inr d"
proof (cases d)
  case DurationDefault
  with d(2) show ?thesis by simp
next
  case DurationInfinite
  with t show ?thesis by (simp add: to_duration_def from_duration_def fastdds_time_def)
next
  case (DurationFinite v)
  let ?n = "\<lparr>seconds = v div 1000000000, nanosec = v mod 1000000000\<rparr>"
  have v: "0 \<le> v" "v < int32_max * 1000000000" using d DurationFinite by simp_all
  then have s: "0 \<le> seconds ?n" "seconds ?n < int32_max"
    by (simp_all add: pos_imp_zdiv_nonneg_iff int32_max_def)
  have "\<not> is_inf ?n" using t s by (auto simp: fastdds_time_def)
  then have "from_duration is_inf ?n = Inr d"
    using s DurationFinite v(1) by (simp add: from_duration_def finite_duration_def int32_max_def int64_max_def)
  moreover have "to_duration forever d = Inr ?n"
    using s DurationFinite by (simp add: to_duration_def)
  ultimately show ?thesis by blast
qed

lemma duration_round':
  assumes "fastdds_time forever is_inf" and "short d"
  obtains n where "\<And>f (x :: 'n). apply_duration forever d f x = Inr (if d = DurationDefault then x else f n x)"
    and "d \<noteq> DurationDefault \<Longrightarrow> from_duration is_inf n = Inr d"
proof (cases "d = DurationDefault")
  case True
  then show ?thesis using that [of undefined] by (simp add: apply_duration_def)
next
  case False
  with duration_round [OF assms] obtain n where
    "to_duration forever d = Inr n" "from_duration is_inf n = Inr d" by blast
  then show ?thesis using that [of n] False by (simp add: apply_duration_def)
qed

text \<open>
  The native defaults the QoS is applied to are readable: durations in range, and a positive
  depth with \<^verbatim>\<open>KEEP_LAST\<close>. A \<open>Qos\<close> agrees with a requested one when each policy that the
  request fixes has the requested value.
\<close>

definition native_ok :: "(Duration_t \<Rightarrow> bool) \<Rightarrow> 'a DataReaderQos_scheme \<Rightarrow> bool" where
  "native_ok is_inf n \<longleftrightarrow> has_value (from_duration is_inf (m_deadline n)) \<and>
     has_value (from_duration is_inf (m_lifespan n)) \<and> has_value (from_duration is_inf (m_lease n)) \<and>
     (history_kind n = KEEP_LAST_HISTORY_QOS \<longrightarrow> 0 < history_depth n) \<and> history_depth n \<le> int32_max"

definition fits :: "Qos \<Rightarrow> bool" where
  "fits q \<longleftrightarrow> qos_ok q \<and> depth q \<le> word_of_int int32_max \<and> short (q_deadline q) \<and> short (lifespan q) \<and>
     short (lease_duration q)"

definition agrees :: "Qos \<Rightarrow> Qos \<Rightarrow> bool" where
  "agrees requested actual \<longleftrightarrow>
     (history requested = HistoryDefault \<or> history actual = history requested \<and> depth actual = depth requested) \<and>
     (reliability requested = ReliabilityDefault \<or> reliability actual = reliability requested) \<and>
     (durability requested = DurabilityDefault \<or> durability actual = durability requested) \<and>
     (q_deadline requested = DurationDefault \<or> q_deadline actual = q_deadline requested) \<and>
     (lifespan requested = DurationDefault \<or> lifespan actual = lifespan requested) \<and>
     (liveliness requested = LivelinessDefault \<or> liveliness actual = liveliness requested) \<and>
     (lease_duration requested = DurationDefault \<or> lease_duration actual = lease_duration requested)"

text \<open>What each translation does to each field.\<close>

lemma apply_fields:
  "m_reliability (apply_kinds q x) = (case reliability q of Reliable \<Rightarrow> RELIABLE_RELIABILITY_QOS
     | BestEffort \<Rightarrow> BEST_EFFORT_RELIABILITY_QOS | ReliabilityDefault \<Rightarrow> m_reliability x)"
  "m_durability (apply_kinds q x) = (case durability q of Volatile \<Rightarrow> VOLATILE_DURABILITY_QOS
     | TransientLocal \<Rightarrow> TRANSIENT_LOCAL_DURABILITY_QOS | DurabilityDefault \<Rightarrow> m_durability x)"
  "m_deadline (apply_kinds q x) = m_deadline x" "m_lifespan (apply_kinds q x) = m_lifespan x"
  "m_lease (apply_kinds q x) = m_lease x" "m_liveliness (apply_kinds q x) = m_liveliness x"
  "history_kind (apply_kinds q x) = history_kind x" "history_depth (apply_kinds q x) = history_depth x"
  "m_liveliness (apply_liveliness q x) = (case liveliness q of Automatic \<Rightarrow> AUTOMATIC_LIVELINESS_QOS
     | ManualByTopic \<Rightarrow> MANUAL_BY_TOPIC_LIVELINESS_QOS | LivelinessDefault \<Rightarrow> m_liveliness x)"
  "m_reliability (apply_liveliness q x) = m_reliability x" "m_durability (apply_liveliness q x) = m_durability x"
  "m_deadline (apply_liveliness q x) = m_deadline x" "m_lifespan (apply_liveliness q x) = m_lifespan x"
  "m_lease (apply_liveliness q x) = m_lease x" "history_kind (apply_liveliness q x) = history_kind x"
  "history_depth (apply_liveliness q x) = history_depth x"
  by (cases "reliability q"; cases "durability q"; cases "liveliness q";
      simp add: apply_kinds_def apply_liveliness_def Let_def)+

lemma from_fields:
  "history (from_reliability r q) = history q" "depth (from_reliability r q) = depth q"
  "reliability (from_reliability r q) = (case r of RELIABLE_RELIABILITY_QOS \<Rightarrow> Reliable
     | BEST_EFFORT_RELIABILITY_QOS \<Rightarrow> BestEffort | RELIABILITY_UNNAMED \<Rightarrow> ReliabilityDefault)"
  "history (from_durability d q) = history q" "depth (from_durability d q) = depth q"
  "reliability (from_durability d q) = reliability q"
  "durability (from_durability d q) = (case d of VOLATILE_DURABILITY_QOS \<Rightarrow> Volatile
     | TRANSIENT_LOCAL_DURABILITY_QOS \<Rightarrow> TransientLocal | DURABILITY_UNNAMED \<Rightarrow> DurabilityDefault)"
  "history (from_liveliness l q) = history q" "depth (from_liveliness l q) = depth q"
  "reliability (from_liveliness l q) = reliability q" "durability (from_liveliness l q) = durability q"
  "q_deadline (from_liveliness l q) = q_deadline q" "lifespan (from_liveliness l q) = lifespan q"
  "lease_duration (from_liveliness l q) = lease_duration q"
  "liveliness (from_liveliness l q) = (case l of AUTOMATIC_LIVELINESS_QOS \<Rightarrow> Automatic
     | MANUAL_BY_TOPIC_LIVELINESS_QOS \<Rightarrow> ManualByTopic | LIVELINESS_UNNAMED \<Rightarrow> liveliness q)"
  by (cases r; cases d; cases l; simp add: qos_setters)+

lemma apply_history_fields:
  assumes "apply_history q n = Inr h"
  shows "m_reliability h = m_reliability n" "m_durability h = m_durability n" "m_deadline h = m_deadline n"
    "m_lifespan h = m_lifespan n" "m_lease h = m_lease n" "m_liveliness h = m_liveliness n"
  using assms by (auto simp: apply_history_def split: HistoryPolicy.splits if_splits)

lemma history_round:
  assumes h: "apply_history q n = Inr h" and f: "fits q" and n: "native_ok is_inf n"
    and w: "history_kind w = history_kind h" "history_depth w = history_depth h"
  obtains a where "from_history w q0 = Inr a"
    and "history q \<noteq> HistoryDefault \<Longrightarrow> history a = history q \<and> depth a = depth q"
proof (cases "history q")
  case HistoryDefault
  then have "h = n" using h by (simp add: apply_history_def)
  moreover have "history_depth n \<noteq> 0 \<Longrightarrow> 0 < history_depth n \<Longrightarrow> (word_of_int (history_depth n) :: u64) \<noteq> 0"
    using n zdvd_imp_le [of "18446744073709551616" "history_depth n"]
    by (auto simp: native_ok_def int32_max_def word_of_int_eq_0_iff)
  ultimately have "has_value (from_history w q0)"
    using n w by (cases "history_kind n") (auto simp: from_history_def keep_last_def native_ok_def split: prod.splits)
  then show ?thesis using that HistoryDefault by (cases "from_history w q0") auto
next
  case KeepLast
  then have k: "history_kind h = KEEP_LAST_HISTORY_QOS" "history_depth h = uint (depth q)"
    using h by (auto simp: apply_history_def split: if_splits)
  have d: "depth q \<noteq> 0" using f KeepLast by (simp add: fits_def qos_ok_def)
  then have "0 < uint (depth q)" by (metis order_less_le uint_0_iff uint_ge_0)
  with k w d have "from_history w q0 = Inr (q0\<lparr>history := KeepLast, depth := depth q\<rparr>)"
    by (simp add: from_history_def keep_last_def)
  then show ?thesis using that KeepLast by simp
next
  case KeepAll
  then have "depth q = 0" using f by (simp add: fits_def qos_ok_def)
  moreover have "history_kind h = KEEP_ALL_HISTORY_QOS" using h KeepAll by (auto simp: apply_history_def)
  ultimately show ?thesis using that w KeepAll by (simp add: from_history_def keep_all_def)
qed

lemma neutral_readback:
  assumes t: "fastdds_time forever is_inf" and f: "fits q" and n: "native_ok is_inf n"
  shows "\<exists>w a. apply_neutral_qos forever q n = Inr w \<and> from_neutral_qos is_inf w = Inr a \<and> agrees q a"
proof -
  have s: "short (q_deadline q)" "short (lifespan q)" "short (lease_duration q)"
    using f by (simp_all add: fits_def)
  obtain t1 where t1: "\<And>f (x :: 'a DataReaderQos_scheme). apply_duration forever (q_deadline q) f x = Inr (if q_deadline q = DurationDefault then x else f t1 x)"
    "q_deadline q \<noteq> DurationDefault \<Longrightarrow> from_duration is_inf t1 = Inr (q_deadline q)"
    using duration_round' [OF t s(1)] by blast
  obtain t2 where t2: "\<And>f (x :: 'a DataReaderQos_scheme). apply_duration forever (lifespan q) f x = Inr (if lifespan q = DurationDefault then x else f t2 x)"
    "lifespan q \<noteq> DurationDefault \<Longrightarrow> from_duration is_inf t2 = Inr (lifespan q)"
    using duration_round' [OF t s(2)] by blast
  obtain t3 where t3: "\<And>f (x :: 'a DataReaderQos_scheme). apply_duration forever (lease_duration q) f x = Inr (if lease_duration q = DurationDefault then x else f t3 x)"
    "lease_duration q \<noteq> DurationDefault \<Longrightarrow> from_duration is_inf t3 = Inr (lease_duration q)"
    using duration_round' [OF t s(3)] by blast
  obtain h where h: "apply_history q n = Inr h"
    using f by (cases "history q") (simp_all add: apply_history_def fits_def not_less)
  define w where "w = (let w1 = apply_kinds q h;
      w2 = (if q_deadline q = DurationDefault then w1 else w1\<lparr>m_deadline := t1\<rparr>);
      w3 = (if lifespan q = DurationDefault then w2 else w2\<lparr>m_lifespan := t2\<rparr>);
      w4 = apply_liveliness q w3 in if lease_duration q = DurationDefault then w4 else w4\<lparr>m_lease := t3\<rparr>)"
  have w: "apply_neutral_qos forever q n = Inr w"
    by (simp add: apply_neutral_qos_def h t1(1) t2(1) t3(1) w_def Let_def)
  have w_fields: "history_kind w = history_kind h" "history_depth w = history_depth h"
    "m_reliability w = m_reliability (apply_kinds q h)" "m_durability w = m_durability (apply_kinds q h)"
    "m_liveliness w = m_liveliness (apply_liveliness q h)"
    "m_deadline w = (if q_deadline q = DurationDefault then m_deadline n else t1)"
    "m_lifespan w = (if lifespan q = DurationDefault then m_lifespan n else t2)"
    "m_lease w = (if lease_duration q = DurationDefault then m_lease n else t3)"
    using apply_history_fields [OF h] by (simp_all add: w_def Let_def apply_fields split: LivelinessPolicy.split)
  have d: "\<exists>d. from_duration is_inf (m_deadline w) = Inr d \<and> (q_deadline q = DurationDefault \<or> d = q_deadline q)"
    "\<exists>d. from_duration is_inf (m_lifespan w) = Inr d \<and> (lifespan q = DurationDefault \<or> d = lifespan q)"
    "\<exists>d. from_duration is_inf (m_lease w) = Inr d \<and> (lease_duration q = DurationDefault \<or> d = lease_duration q)"
    using t1(2) t2(2) t3(2) n by (auto simp: w_fields native_ok_def has_value_iff)
  then obtain d1 d2 d3 where d: "from_duration is_inf (m_deadline w) = Inr d1"
      "q_deadline q = DurationDefault \<or> d1 = q_deadline q"
      "from_duration is_inf (m_lifespan w) = Inr d2" "lifespan q = DurationDefault \<or> d2 = lifespan q"
      "from_duration is_inf (m_lease w) = Inr d3" "lease_duration q = DurationDefault \<or> d3 = lease_duration q"
    by blast
  obtain a0 where a0: "from_history w qos_system_default = Inr a0"
    "history q \<noteq> HistoryDefault \<Longrightarrow> history a0 = history q \<and> depth a0 = depth q"
    using history_round [OF h f n w_fields(1,2)] by blast
  define a where "a = from_liveliness (m_liveliness w) (set_lease_duration d3 (set_lifespan d2 (set_deadline d1
      (from_durability (m_durability w) (from_reliability (m_reliability w) a0)))))"
  have "from_neutral_qos is_inf w = Inr a"
    by (simp add: from_neutral_qos_def from_discovered_def a0(1) d(1,3,5) a_def Let_def)
  moreover have "agrees q a"
    using a0(2) d(2,4,6)
    by (cases "reliability q"; cases "durability q"; cases "liveliness q"; cases "history q")
       (simp_all add: agrees_def a_def from_fields w_fields apply_fields qos_setters)
  ultimately show ?thesis using w by blast
qed


text \<open>What is read back is a well-formed \<open>Qos\<close>.\<close>

lemma from_duration_ok: "from_duration is_inf t = Inr d \<Longrightarrow> nanosec t \<ge> 0 \<Longrightarrow> seconds t \<le> int32_max \<Longrightarrow> duration_ok d"
  by (auto simp: from_duration_def finite_duration_def int64_max_def int32_max_def split: if_splits)

definition times_ok :: "'a DiscoveryQos_scheme \<Rightarrow> bool" where
  "times_ok n \<longleftrightarrow> list_all (\<lambda>t. 0 \<le> nanosec t \<and> seconds t \<le> int32_max) [m_deadline n, m_lifespan n, m_lease n]"

lemma from_discovered_ok:
  assumes "from_discovered is_inf n q = Inr a" and "times_ok n" and "qos_ok q"
  shows "qos_ok a"
proof -
  obtain d1 d2 d3 where d: "from_duration is_inf (m_deadline n) = Inr d1" "from_duration is_inf (m_lifespan n) = Inr d2"
      "from_duration is_inf (m_lease n) = Inr d3"
    and a: "a = from_liveliness (m_liveliness n) (set_lease_duration d3 (set_lifespan d2 (set_deadline d1
      (from_durability (m_durability n) (from_reliability (m_reliability n) q)))))"
    using assms(1) by (auto simp: from_discovered_def Let_def)
  have "duration_ok d1" "duration_ok d2" "duration_ok d3"
    using d assms(2) from_duration_ok by (auto simp: times_ok_def)
  then show ?thesis using assms(3) by (simp add: a qos_ok_def from_fields qos_setters)
qed

lemma read_fields_only:
  assumes "history_kind w = history_kind n" "history_depth w = history_depth n"
    "m_reliability w = m_reliability n" "m_durability w = m_durability n" "m_deadline w = m_deadline n"
    "m_lifespan w = m_lifespan n" "m_liveliness w = m_liveliness n" "m_lease w = m_lease n"
  shows "from_neutral_qos is_inf w = from_neutral_qos is_inf n"
proof -
  have "from_discovered is_inf w = from_discovered is_inf n"
    using assms by (intro ext) (simp add: from_discovered_def)
  moreover have "from_history w = from_history n"
    by (rule ext, unfold from_history_def assms(1,2)) (rule refl)
  ultimately show ?thesis by (simp add: from_neutral_qos_def)
qed

lemma policies_invisible:
  "from_neutral_qos is_inf (apply_ros2_writer_implementation_policy w) = from_neutral_qos is_inf w"
  "from_neutral_qos is_inf (apply_ros2_reader_implementation_policy r) = from_neutral_qos is_inf r"
  by (rule read_fields_only; simp add: apply_ros2_writer_implementation_policy_def
      apply_ros2_reader_implementation_policy_def)+

lemma defaults_native_ok: "native_ok is_inf n \<Longrightarrow> native_ok is_inf (apply_ros2_compatibility_defaults n)"
  by (simp add: native_ok_def apply_ros2_compatibility_defaults_def int32_max_def)

section \<open>Properties\<close>

text \<open>
  Every \<open>Qos\<close> the interface can build has a positive depth exactly when its history is
  \<^verbatim>\<open>KeepLast\<close> and no negative duration, and what is made of a discovery message has the same
  form, also when the message cannot be translated.
\<close>

theorem qos_well_formed:
  "(qos_built q \<longrightarrow> qos_ok q) \<and> (times_ok n \<longrightarrow> qos_ok (discovery_qos_or_unknown is_inf n))"
proof -
  have d: "qos_ok qos_system_default" by (simp add: qos_ok_def qos_system_default_def)
  then show ?thesis
    using qos_built_ok from_discovered_ok
    by (auto simp: discovery_qos_or_unknown_def from_discovery_qos_def split: sum.split)
qed

text \<open>
  C37. The compatibility check against the request-offer rules of DDS. A publisher can match a
  subscriber, for some choice of what is left to the middleware, exactly when the check does not
  answer \<^verbatim>\<open>Incompatible\<close> and the rules for deadline, liveliness and lease, which it does not read, can
  be met. \<^verbatim>\<open>Warning\<close> says that a reliability or durability is left open. After \<^verbatim>\<open>Compatible\<close> no choice
  spoils these two: whether the offer suffices rests on deadline, liveliness and lease alone.
\<close>

theorem compatibility_exact:
  "((\<exists>p' s'. resolves p p' \<and> resolves s s' \<and> offers p' s') \<longleftrightarrow>
      check_qos_compatibility p s \<noteq> success Incompatible \<and> (\<exists>p' s'. resolves p p' \<and> resolves s s' \<and> in_time p' s')) \<and>
   (check_qos_compatibility p s = success Warning \<longleftrightarrow>
      check_qos_compatibility p s \<noteq> success Incompatible \<and> (left_open p \<or> left_open s)) \<and>
   (check_qos_compatibility p s = success Compatible \<longrightarrow> resolves p p' \<longrightarrow> resolves s s' \<longrightarrow>
      (offers p' s' \<longleftrightarrow> in_time p' s')) \<and>
   has_value (check_qos_compatibility p s)"
proof -
  have "(\<exists>p' s'. resolves p p' \<and> resolves s s' \<and> offers p' s') \<longleftrightarrow>
      \<not> refused p s \<and> (\<exists>p' s'. resolves p p' \<and> resolves s s' \<and> in_time p' s')"
  proof
    assume "\<not> refused p s \<and> (\<exists>p' s'. resolves p p' \<and> resolves s s' \<and> in_time p' s')"
    then obtain p' s' where r: "\<not> refused p s" "resolves p p'" "resolves s s'" "in_time p' s'" by blast
    then have "offers (delivery_of p Reliable TransientLocal p') (delivery_of s BestEffort Volatile s')"
      by (simp add: offers_def best_delivers delivery_in_time)
    with r show "\<exists>p' s'. resolves p p' \<and> resolves s s' \<and> offers p' s'" by (blast intro: delivery_resolves)
  qed (auto simp: offers_def dest: refused_never)
  then show ?thesis
    unfolding check_answers using fixed_delivers [of p p' s s'] by (auto simp: offers_def)
qed

text \<open>A publisher that promises no deadline, and a subscriber that asks for one millisecond.\<close>

definition no_deadline :: Qos where
  "no_deadline = set_deadline DurationInfinite ros2_default"

definition one_millisecond :: Qos where
  "one_millisecond = set_deadline (DurationFinite 1000000) ros2_default"

lemma compatibility_exact_witness:
  "check_qos_compatibility no_deadline one_millisecond = success Compatible \<and>
   \<not> (\<exists>p' s'. resolves no_deadline p' \<and> resolves one_millisecond s' \<and> offers p' s')"
proof -
  have "check_qos_compatibility no_deadline one_millisecond = success Compatible"
    by (simp add: check_qos_compatibility_def no_deadline_def one_millisecond_def ros2_default_def set_deadline_def)
  moreover have "\<not> in_time p' s'" if "resolves no_deadline p'" "resolves one_millisecond s'" for p' s'
    using that by (auto simp: resolves_def in_time_def no_deadline_def one_millisecond_def set_deadline_def)
  ultimately show ?thesis using compatibility_exact [of no_deadline one_millisecond] by blast
qed

text \<open>
  C35. QoS round trip: a well-formed \<open>Qos\<close> in the range of Fast DDS is accepted by the translation
  for writers and for readers, in both modes and over any readable defaults, and the \<^verbatim>\<open>actual_qos\<close>
  read back from the endpoint has every policy that the request fixed.
\<close>

theorem qos_round_trip:
  assumes "fastdds_time forever is_inf" and "fits q" and "native_ok is_inf w" and "native_ok is_inf r"
  shows "(\<exists>w' a. to_writer_qos forever q mode w = Inr w' \<and> from_neutral_qos is_inf w' = Inr a \<and> agrees q a)
    \<and> (\<exists>r' a. to_reader_qos forever q mode r = Inr r' \<and> from_neutral_qos is_inf r' = Inr a \<and> agrees q a)"
proof
  let ?w = "if mode = ROS2 then apply_ros2_compatibility_defaults w else w"
  have "native_ok is_inf ?w" using defaults_native_ok [OF assms(3)] assms(3) by simp
  from neutral_readback [OF assms(1,2) this]
  show "\<exists>w' a. to_writer_qos forever q mode w = Inr w' \<and> from_neutral_qos is_inf w' = Inr a \<and> agrees q a"
    by (auto simp: to_writer_qos_def policies_invisible)
next
  let ?r = "if mode = ROS2 then apply_ros2_compatibility_defaults r else r"
  have "native_ok is_inf ?r" using defaults_native_ok [OF assms(4)] assms(4) by simp
  from neutral_readback [OF assms(1,2) this]
  show "\<exists>r' a. to_reader_qos forever q mode r = Inr r' \<and> from_neutral_qos is_inf r' = Inr a \<and> agrees q a"
    by (auto simp: to_reader_qos_def policies_invisible)
qed

text \<open>A concrete middleware: the infinite duration has the largest two fields.\<close>

definition forever_1 :: Duration_t where "forever_1 = \<lparr>seconds = int32_max, nanosec = 4294967295\<rparr>"

definition qos_reader_1 :: DataReaderQos where
  "qos_reader_1 = \<lparr>m_reliability = BEST_EFFORT_RELIABILITY_QOS, m_durability = VOLATILE_DURABILITY_QOS,
     m_deadline = forever_1, m_lifespan = forever_1, m_liveliness = AUTOMATIC_LIVELINESS_QOS, m_lease = forever_1,
     history_kind = KEEP_LAST_HISTORY_QOS, history_depth = 1, realloc_memory = False, data_sharing_off = False\<rparr>"

definition qos_writer_1 :: DataWriterQos where
  "qos_writer_1 = DataReaderQos.extend qos_reader_1 \<lparr>synchronous = False, max_blocking_time = \<lparr>seconds = 0, nanosec = 0\<rparr>\<rparr>"

theorem qos_well_formed_witness:
  "qos_ok (snd (keep_last 3 ros2_sensor_data))
   \<and> qos_ok (discovery_qos_or_unknown (\<lambda>d. d = forever_1) qos_reader_1)"
proof -
  have "qos_built (snd (keep_last 3 ros2_sensor_data))" by (intro qos_built.last qos_built.preset) simp
  moreover have "times_ok qos_reader_1" by (simp add: times_ok_def qos_reader_1_def forever_1_def)
  ultimately show ?thesis using qos_well_formed by blast
qed

theorem qos_round_trip_witness:
  "\<exists>w' a. to_writer_qos forever_1 (set_deadline (DurationFinite 1500000000) ros2_default) ROS2 qos_writer_1 = Inr w' \<and>
     from_neutral_qos (\<lambda>d. d = forever_1) w' = Inr a \<and> q_deadline a = DurationFinite 1500000000 \<and> depth a = 10"
proof -
  let ?q = "set_deadline (DurationFinite 1500000000) ros2_default" and ?inf = "\<lambda>d. d = forever_1"
  have "fastdds_time forever_1 ?inf" by (auto simp: fastdds_time_def forever_1_def)
  moreover have "fits ?q"
    by (simp add: fits_def qos_ok_def qos_setters qos_presets int32_max_def int64_max_def)
  moreover have "native_ok ?inf qos_writer_1" "native_ok ?inf qos_reader_1"
    by (simp_all add: native_ok_def qos_writer_1_def qos_reader_1_def forever_1_def DataReaderQos.defs
        from_duration_def int32_max_def)
  ultimately obtain w' a where "to_writer_qos forever_1 ?q ROS2 qos_writer_1 = Inr w'"
    "from_neutral_qos ?inf w' = Inr a" "agrees ?q a"
    using qos_round_trip by metis
  then show ?thesis by (auto simp: agrees_def qos_setters qos_presets)
qed

end
