(* ===== verification/GraphCandidates.thy ===== *)
theory GraphCandidates
  imports Qos Availability "HOL-Library.List_Lexorder" "HOL-Library.Char_ord"
begin

text \<open>
  What the discovered graph means: \<^verbatim>\<open>impl/graph_candidates.cpp\<close> reduces the endpoints of a view to
  candidates, composes the eight endpoints of an action, and decides whether an action server is
  there; \<^verbatim>\<open>ActionClient::Impl::check_availability\<close> asks it with the QoS of the client.

  The structures with one field for each of the eight roles (\<^verbatim>\<open>ActionEndpointTypes\<close>,
  \<^verbatim>\<open>ActionClientEndpointQos\<close>) are functions of the role, and the code that names the eight roles
  one after the other goes over \<open>action_roles\<close>.
\<close>

section \<open>Candidates\<close>

record EndpointCandidate =
  ec_gid :: Gid
  native_kind :: EndpointKind
  ec_role :: GraphEndpointRole
  ec_logical_name :: string
  wire_type :: string
  ec_qos :: Qos
  ec_node_name :: string
  ec_node_namespace :: string
  has_node :: bool
  participant_key :: string

definition candidate_is_publisher :: "EndpointCandidate \<Rightarrow> bool" where
  "candidate_is_publisher c \<longleftrightarrow> native_kind c = Writer"

text \<open>Raw bytes read as characters.\<close>

definition byte_string :: "Bytes \<Rightarrow> string" where
  "byte_string bs = map (\<lambda>b. char_of (unat b)) bs"

definition key_of_prefix :: "Bytes \<Rightarrow> string" where
  "key_of_prefix guid_prefix = byte_string guid_prefix"

definition candidate_composition_key :: "RuntimeMode \<Rightarrow> EndpointCandidate \<Rightarrow> string" where
  "candidate_composition_key mode c =
     (if has_node c then ec_node_namespace c @ [CHR 0x00] @ ec_node_name c
      else if mode = ROS2 then ''?'' @ byte_string (ec_gid c)
      else '''')"

definition kGraphMetadataTopicName :: string where
  "kGraphMetadataTopicName = ''ros_discovery_info''"

text \<open>The maps keep the first entry of a key, as \<^verbatim>\<open>emplace\<close> does.\<close>

definition nodes_by_id :: "'q GraphView \<Rightarrow> (u64 \<times> LocalNodeRecord) list" where
  "nodes_by_id v = map (\<lambda>n. (ln_id n, n)) (gv_local_nodes v)"

definition remote_by_gid :: "'q GraphView \<Rightarrow> (Gid \<times> RemoteNodeRecord) list" where
  "remote_by_gid v = concat (map (\<lambda>p. concat (map (\<lambda>n. map (\<lambda>g. (g, n)) (reader_gids n @ writer_gids n))
     (rp_nodes p))) (gv_remote_nodes v))"

definition plain_candidate ::
  "Guid \<Rightarrow> EndpointKind \<Rightarrow> NormalizedEndpointName \<Rightarrow> string \<Rightarrow> Qos \<Rightarrow> EndpointCandidate" where
  "plain_candidate guid kind normalized type qos =
     \<lparr>ec_gid = to_gid guid, native_kind = kind, ec_role = ep_role normalized,
      ec_logical_name = logical_name normalized, wire_type = type, ec_qos = qos, ec_node_name = '''',
      ec_node_namespace = '''', has_node = False, participant_key = key_of_prefix (guidPrefix guid)\<rparr>"

definition local_candidate ::
  "RuntimeMode \<Rightarrow> Qos GraphView \<Rightarrow> Qos LocalEndpointRecord \<Rightarrow> EndpointCandidate option" where
  "local_candidate mode v e =
     (if le_topic e = kGraphMetadataTopicName then None
      else case normalize_endpoint_name mode (le_topic e) of
        None \<Rightarrow> None
      | Some normalized \<Rightarrow>
          let c = plain_candidate (le_guid e) (le_kind e) normalized (le_type e) (le_qos e)
          in Some (case map_of (nodes_by_id v) (le_node_id e) of
               None \<Rightarrow> c
             | Some n \<Rightarrow> c\<lparr>ec_node_name := ln_name n, ec_node_namespace := ln_namespace n, has_node := True\<rparr>))"

definition remote_candidate ::
  "RuntimeMode \<Rightarrow> Qos GraphView \<Rightarrow> Gid set \<Rightarrow> Qos EndpointRecord \<Rightarrow> EndpointCandidate option" where
  "remote_candidate mode v local_gids e =
     (if e_lifecycle e = Removed then None
      else if (case find (\<lambda>p. p_prefix p = guidPrefix (e_guid e)) (gv_participants v) of
                 Some p \<Rightarrow> p_lifecycle p = Removed | None \<Rightarrow> False) then None
      else if e_topic e = kGraphMetadataTopicName then None
      else if to_gid (e_guid e) \<in> local_gids then None
      else case normalize_endpoint_name mode (e_topic e) of
        None \<Rightarrow> None
      | Some normalized \<Rightarrow>
          let c = plain_candidate (e_guid e) (e_kind e) normalized (e_type e) (e_qos e)
          in Some (case map_of (remote_by_gid v) (ec_gid c) of
               None \<Rightarrow> c
             | Some n \<Rightarrow> c\<lparr>ec_node_name := rn_name n, ec_node_namespace := rn_namespace n, has_node := True\<rparr>))"

definition collect_endpoint_candidates :: "RuntimeMode \<Rightarrow> Qos GraphView \<Rightarrow> EndpointCandidate list" where
  "collect_endpoint_candidates mode v =
     (let locals = List.map_filter (local_candidate mode v) (gv_local_endpoints v)
      in locals @ List.map_filter (remote_candidate mode v (ec_gid ` set locals)) (gv_endpoints v))"

section \<open>Composition of actions\<close>

text \<open>The key of the endpoints of a group, ordered by role and then by kind.\<close>

datatype ActionRoleKey = ActionRoleKey ActionEndpointRole EndpointKind

fun role_index :: "ActionEndpointRole \<Rightarrow> nat" where
  "role_index SendGoalRequest = 0" | "role_index SendGoalResponse = 1"
| "role_index CancelGoalRequest = 2" | "role_index CancelGoalResponse = 3"
| "role_index GetResultRequest = 4" | "role_index GetResultResponse = 5"
| "role_index Feedback = 6" | "role_index Status = 7"

fun kind_index :: "EndpointKind \<Rightarrow> nat" where
  "kind_index Reader = 0" | "kind_index Writer = 1"

lemma role_index_inject: "role_index r = role_index r' \<Longrightarrow> r = r'"
  by (cases r; cases r') simp_all

lemma kind_index_inject: "kind_index k = kind_index k' \<Longrightarrow> k = k'"
  by (cases k; cases k') simp_all

fun role_key_less :: "ActionRoleKey \<Rightarrow> ActionRoleKey \<Rightarrow> bool" where
  "role_key_less (ActionRoleKey r k) (ActionRoleKey r' k') \<longleftrightarrow>
     role_index r < role_index r' \<or> role_index r = role_index r' \<and> kind_index k < kind_index k'"

instantiation ActionRoleKey :: linorder
begin

definition less_ActionRoleKey :: "ActionRoleKey \<Rightarrow> ActionRoleKey \<Rightarrow> bool" where
  [simp]: "less_ActionRoleKey a b \<longleftrightarrow> role_key_less a b"

definition less_eq_ActionRoleKey :: "ActionRoleKey \<Rightarrow> ActionRoleKey \<Rightarrow> bool" where
  "less_eq_ActionRoleKey a b \<longleftrightarrow> a < b \<or> a = b"

instance
proof
  fix a b c :: ActionRoleKey
  show "a < b \<longleftrightarrow> a \<le> b \<and> \<not> b \<le> a"
    by (cases a; cases b) (auto simp: less_eq_ActionRoleKey_def)
  show "a \<le> a" by (simp add: less_eq_ActionRoleKey_def)
  show "a \<le> b \<Longrightarrow> b \<le> c \<Longrightarrow> a \<le> c"
    by (cases a; cases b; cases c) (auto simp: less_eq_ActionRoleKey_def)
  show "a \<le> b \<Longrightarrow> b \<le> a \<Longrightarrow> a = b"
    by (cases a; cases b) (auto simp: less_eq_ActionRoleKey_def)
  show "a \<le> b \<or> b \<le> a"
    by (cases a; cases b) (auto simp: less_eq_ActionRoleKey_def intro: role_index_inject kind_index_inject
        dest: linorder_cases)
qed

end

record ActionGroup =
  group_action :: string
  group_endpoints :: "(ActionRoleKey \<times> EndpointCandidate) list"

definition group_find :: "ActionGroup \<Rightarrow> ActionEndpointRole \<Rightarrow> EndpointKind \<Rightarrow> EndpointCandidate option" where
  "group_find g r k = map_of (group_endpoints g) (ActionRoleKey r k)"

record ActionCandidate =
  ac_name :: string
  has_server :: bool
  has_client :: bool
  server_gids :: "Gid list"
  client_gids :: "Gid list"
  server_node_name :: string
  server_node_namespace :: string
  client_node_name :: string
  client_node_namespace :: string
  ac_participant_key :: string

definition action_roles :: "ActionEndpointRole list" where
  "action_roles = [SendGoalRequest, SendGoalResponse, CancelGoalRequest, CancelGoalResponse,
     GetResultRequest, GetResultResponse, Feedback, Status]"

text \<open>Which side of each role a server has; a client has the other one.\<close>

fun server_kind :: "ActionEndpointRole \<Rightarrow> EndpointKind" where
  "server_kind SendGoalRequest = Reader"
| "server_kind CancelGoalRequest = Reader"
| "server_kind GetResultRequest = Reader"
| "server_kind _ = Writer"

fun client_kind :: "ActionEndpointRole \<Rightarrow> EndpointKind" where
  "client_kind SendGoalRequest = Writer"
| "client_kind CancelGoalRequest = Writer"
| "client_kind GetResultRequest = Writer"
| "client_kind _ = Reader"

definition classified :: "EndpointCandidate \<Rightarrow> ActionEndpointClassification option" where
  "classified c = classify_action_endpoint \<lparr>logical_name = ec_logical_name c, ep_role = ec_role c\<rparr>"

definition group_key :: "RuntimeMode \<Rightarrow> EndpointCandidate \<Rightarrow> string \<Rightarrow> string" where
  "group_key mode c name = participant_key c @ ''|'' @ name @ ''|'' @ candidate_composition_key mode c"

type_synonym groups = "(string \<times> ActionGroup) list"

text \<open>\<^verbatim>\<open>groups[key]\<close> makes an empty group; \<^verbatim>\<open>insert\<close> keeps an endpoint that is there.\<close>

definition add_to_group :: "RuntimeMode \<Rightarrow> EndpointCandidate \<Rightarrow> groups \<Rightarrow> groups" where
  "add_to_group mode c groups = (case classified c of
       None \<Rightarrow> groups
     | Some k \<Rightarrow>
         um_modify (group_key mode c (action_name k))
           (\<lambda>g. g\<lparr>group_action := action_name k,
                  group_endpoints := om_emplace (ActionRoleKey (action_role k) (native_kind c)) c (group_endpoints g)\<rparr>)
           (om_emplace (group_key mode c (action_name k)) \<lparr>group_action = '''', group_endpoints = []\<rparr> groups))"

definition group_side :: "(ActionEndpointRole \<Rightarrow> EndpointKind) \<Rightarrow> ActionGroup \<Rightarrow> EndpointCandidate list option" where
  "group_side kind g = those (map (\<lambda>r. group_find g r (kind r)) action_roles)"

definition candidate_of_group :: "string \<times> ActionGroup \<Rightarrow> ActionCandidate" where
  "candidate_of_group e =
     (let (key, g) = e;
          pre = (case str_find ''|'' key of Some n \<Rightarrow> take n key | None \<Rightarrow> key);
          c0 = \<lparr>ac_name = group_action g, has_server = False, has_client = False, server_gids = [], client_gids = [],
                server_node_name = '''', server_node_namespace = '''', client_node_name = '''',
                client_node_namespace = '''', ac_participant_key = pre\<rparr>;
          c1 = (case group_side server_kind g of
                  None \<Rightarrow> c0
                | Some es \<Rightarrow>
                    let c = c0\<lparr>has_server := True, server_gids := map ec_gid es\<rparr>
                    in if has_node (hd es) then c\<lparr>server_node_name := ec_node_name (hd es),
                         server_node_namespace := ec_node_namespace (hd es)\<rparr> else c)
      in case group_side client_kind g of
           None \<Rightarrow> c1
         | Some es \<Rightarrow>
             let c = c1\<lparr>has_client := True, client_gids := map ec_gid es\<rparr>
             in if has_node (hd es) then c\<lparr>client_node_name := ec_node_name (hd es),
                  client_node_namespace := ec_node_namespace (hd es)\<rparr> else c)"

definition action_groups :: "RuntimeMode \<Rightarrow> EndpointCandidate list \<Rightarrow> groups" where
  "action_groups mode cs = fold (add_to_group mode) cs []"

definition compose_action_candidates :: "RuntimeMode \<Rightarrow> EndpointCandidate list \<Rightarrow> ActionCandidate list" where
  "compose_action_candidates mode cs = map candidate_of_group (action_groups mode cs)"

section \<open>Availability of an action server\<close>

type_synonym ActionEndpointTypes = "ActionEndpointRole \<Rightarrow> string"
type_synonym ActionClientEndpointQos = "ActionEndpointRole \<Rightarrow> Qos"

definition find_candidate ::
  "RuntimeMode \<Rightarrow> EndpointCandidate list \<Rightarrow> string \<Rightarrow> string \<Rightarrow> GraphEndpointRole \<Rightarrow> EndpointKind \<Rightarrow> string \<Rightarrow> string
    \<Rightarrow> EndpointCandidate option" where
  "find_candidate mode cs participant name role kind type composition =
     find (\<lambda>c. participant_key c = participant \<and> native_kind c = kind \<and> ec_role c = role \<and>
               ec_logical_name c = name \<and> wire_type c = type \<and>
               candidate_composition_key mode c = composition) cs"

definition qos_compatible :: "Qos \<Rightarrow> Qos \<Rightarrow> bool" where
  "qos_compatible publisher subscriber =
     (case check_qos_compatibility publisher subscriber of Inr c \<Rightarrow> c \<noteq> Incompatible | Inl _ \<Rightarrow> False)"

definition find_server_endpoint ::
  "RuntimeMode \<Rightarrow> EndpointCandidate list \<Rightarrow> ActionEndpointNames \<Rightarrow> ActionEndpointTypes \<Rightarrow> string \<Rightarrow> string
    \<Rightarrow> ActionEndpointRole \<Rightarrow> EndpointCandidate option" where
  "find_server_endpoint mode cs names types participant composition r =
     find_candidate mode cs participant (logical_name (action_endpoint names r)) (ep_role (action_endpoint names r))
       (server_kind r) (types r) composition"

text \<open>The QoS of a client's endpoint against that of the server's: the writer of the two publishes.\<close>

definition role_compatible :: "ActionClientEndpointQos \<Rightarrow> ActionEndpointRole \<Rightarrow> EndpointCandidate \<Rightarrow> bool" where
  "role_compatible client r e =
     (if server_kind r = Reader then qos_compatible (client r) (ec_qos e)
      else qos_compatible (ec_qos e) (client r))"

definition action_server_composition_complete ::
  "RuntimeMode \<Rightarrow> EndpointCandidate list \<Rightarrow> ActionEndpointNames \<Rightarrow> ActionEndpointTypes \<Rightarrow>
    ActionClientEndpointQos option \<Rightarrow> string \<Rightarrow> string \<Rightarrow> bool" where
  "action_server_composition_complete mode cs names types client_qos participant composition =
     (case those (map (find_server_endpoint mode cs names types participant composition) action_roles) of
        None \<Rightarrow> False
      | Some es \<Rightarrow> (case client_qos of
            None \<Rightarrow> True
          | Some q \<Rightarrow> list_all2 (role_compatible q) action_roles es))"

text \<open>A \<^verbatim>\<open>std::set\<close> filled from a vector.\<close>

definition set_from :: "'a::linorder list \<Rightarrow> 'a list" where
  "set_from xs = fold insort_insert xs []"

definition participant_has_action_server ::
  "RuntimeMode \<Rightarrow> EndpointCandidate list \<Rightarrow> ActionEndpointNames \<Rightarrow> ActionEndpointTypes \<Rightarrow>
    ActionClientEndpointQos option \<Rightarrow> string \<Rightarrow> bool" where
  "participant_has_action_server mode cs names types client_qos participant =
     list_ex (action_server_composition_complete mode cs names types client_qos participant)
       (set_from (map (candidate_composition_key mode) (filter (\<lambda>c. participant_key c = participant) cs)))"

definition has_action_server ::
  "RuntimeMode \<Rightarrow> EndpointCandidate list \<Rightarrow> ActionEndpointNames \<Rightarrow> ActionEndpointTypes \<Rightarrow>
    ActionClientEndpointQos option \<Rightarrow> bool" where
  "has_action_server mode cs names types client_qos =
     list_ex (participant_has_action_server mode cs names types client_qos) (set_from (map participant_key cs))"

section \<open>The action client\<close>

text \<open>\<^verbatim>\<open>load_qos\<close> on the eight endpoints in turn: the first error, or all of them.\<close>

fun load_qos :: "ActionEndpointRole list \<Rightarrow> (ActionEndpointRole \<Rightarrow> Qos result) \<Rightarrow> ActionClientEndpointQos
    \<Rightarrow> ActionClientEndpointQos result" where
  "load_qos [] actual target = success target"
| "load_qos (r # rs) actual target = (case actual r of
       Inl e \<Rightarrow> failure e
     | Inr q \<Rightarrow> load_qos rs actual (target(r := q)))"

record ActionClientEnv =
  ac_graph :: "Qos DiscoveryGraph"
  actual_qos :: "ActionEndpointRole \<Rightarrow> Qos result"

text \<open>
  What the check ingests from the metadata transport are operations on the graph that precede the
  second test of its health and the view.
\<close>

definition check_availability ::
  "RuntimeMode \<Rightarrow> ActionEndpointNames \<Rightarrow> ActionEndpointTypes \<Rightarrow> (Qos DiscoveryGraph \<Rightarrow> Qos DiscoveryGraph)
    \<Rightarrow> bool \<Rightarrow> ActionClientEnv \<Rightarrow> bool result" where
  "check_availability mode names types ingest_pending shut e =
     (if shut then failure ContextShutdown
      else if health (ac_graph e) \<noteq> Healthy then failure DDSError
      else case load_qos action_roles (actual_qos e) (\<lambda>_. qos_system_default) of
        Inl err \<Rightarrow> failure err
      | Inr client_qos \<Rightarrow>
          let graph = (if mode = ROS2 then ingest_pending (ac_graph e) else ac_graph e)
          in if health graph \<noteq> Healthy then failure DDSError
             else success (has_action_server mode (collect_endpoint_candidates mode (view graph)) names types
                    (Some client_qos)))"


section \<open>What availability means\<close>

lemma set_set_from [simp]: "set (set_from xs) = set xs"
proof -
  have "set (fold insort_insert xs ys) = set xs \<union> set ys" for ys
    by (induction xs arbitrary: ys) (auto simp: set_insort_insert)
  then show ?thesis by (simp add: set_from_def)
qed

lemma those_map_Some: "those (map f xs) = Some ys \<longleftrightarrow> list_all2 (\<lambda>x y. f x = Some y) xs ys"
proof (induction xs arbitrary: ys)
  case (Cons x xs)
  then show ?case by (cases ys) (auto split: option.splits)
qed auto

lemma those_map_None: "those (map f xs) = None \<longleftrightarrow> (\<exists>x\<in>set xs. f x = None)"
  by (induction xs) (auto split: option.splits)

lemma all_roles: "r \<in> set action_roles"
  by (cases r) (simp_all add: action_roles_def)

text \<open>The candidate \<open>c\<close> is the endpoint of a server in a role, in a participant and composition.\<close>

definition serves ::
  "RuntimeMode \<Rightarrow> ActionEndpointNames \<Rightarrow> ActionEndpointTypes \<Rightarrow> string \<Rightarrow> string \<Rightarrow> ActionEndpointRole
    \<Rightarrow> EndpointCandidate \<Rightarrow> bool" where
  "serves mode names types participant composition r c \<longleftrightarrow>
     participant_key c = participant \<and> native_kind c = server_kind r \<and>
     ec_role c = ep_role (action_endpoint names r) \<and> ec_logical_name c = logical_name (action_endpoint names r) \<and>
     wire_type c = types r \<and> candidate_composition_key mode c = composition"

lemma find_server_endpoint_alt:
  "find_server_endpoint mode cs names types p k = (\<lambda>r. find (serves mode names types p k r) cs)"
  unfolding find_server_endpoint_def find_candidate_def serves_def
  by (rule ext, rule arg_cong [where f = "\<lambda>q. find q cs"]) (rule ext, blast)

lemma complete_alt:
  "action_server_composition_complete mode cs names types q p k \<longleftrightarrow>
     (\<forall>r. \<exists>c. find (serves mode names types p k r) cs = Some c \<and>
        (case q of None \<Rightarrow> True | Some client \<Rightarrow> role_compatible client r c))"
  (is "?complete = ?all")
proof
  assume ?complete
  then obtain es where es: "list_all2 (\<lambda>r c. find (serves mode names types p k r) cs = Some c) action_roles es"
    and q: "case q of None \<Rightarrow> True | Some client \<Rightarrow> list_all2 (role_compatible client) action_roles es"
    by (auto simp: action_server_composition_complete_def those_map_Some find_server_endpoint_alt split: option.splits)
  show ?all
  proof
    fix r
    obtain i where i: "i < length action_roles" "action_roles ! i = r" using all_roles by (metis in_set_conv_nth)
    then show "\<exists>c. find (serves mode names types p k r) cs = Some c \<and>
        (case q of None \<Rightarrow> True | Some client \<Rightarrow> role_compatible client r c)"
      using es q by (auto simp: list_all2_conv_all_nth split: option.splits)
  qed
next
  assume ?all
  then obtain f where f: "\<And>r. find (serves mode names types p k r) cs = Some (f r)"
      "\<And>r. case q of None \<Rightarrow> True | Some client \<Rightarrow> role_compatible client r (f r)"
    by metis
  have "those (map (\<lambda>r. find (serves mode names types p k r) cs) action_roles) = Some (map f action_roles)"
    by (simp add: those_map_Some list_all2_conv_all_nth f(1))
  then show ?complete
    using f(2) by (auto simp: action_server_composition_complete_def find_server_endpoint_alt
        list_all2_conv_all_nth split: option.splits)
qed

lemma has_action_server_alt:
  "has_action_server mode cs names types q \<longleftrightarrow>
     (\<exists>p k. \<forall>r. \<exists>c. find (serves mode names types p k r) cs = Some c \<and>
        (case q of None \<Rightarrow> True | Some client \<Rightarrow> role_compatible client r c))"
proof -
  have "\<exists>c\<in>set cs. participant_key c = p \<and> candidate_composition_key mode c = k"
    if "action_server_composition_complete mode cs names types q p k" for p k
  proof -
    from that obtain c where "find (serves mode names types p k Status) cs = Some c"
      unfolding complete_alt by blast
    then show ?thesis by (auto dest!: find_Some_set simp: serves_def)
  qed
  then have "has_action_server mode cs names types q \<longleftrightarrow>
      (\<exists>p k. action_server_composition_complete mode cs names types q p k)"
    unfolding has_action_server_def participant_has_action_server_def list_ex_iff
    by (auto; blast)
  then show ?thesis unfolding complete_alt by blast
qed

section \<open>From the view to a server\<close>

text \<open>
  A view shows an endpoint of a node: a local one of a registered node, or a remote one that is
  live, not shadowed by a local endpoint and associated by the metadata of its participant.
\<close>

definition shows_local :: "Qos GraphView \<Rightarrow> Bytes \<Rightarrow> string \<Rightarrow> string \<Rightarrow> EndpointKind \<Rightarrow> string \<Rightarrow> string \<Rightarrow> bool" where
  "shows_local v prefix' ns nm kind topic type \<longleftrightarrow>
     (\<exists>e \<in> set (gv_local_endpoints v). guidPrefix (le_guid e) = prefix' \<and> le_kind e = kind \<and> le_topic e = topic \<and>
        le_type e = type \<and> (\<exists>n. map_of (nodes_by_id v) (le_node_id e) = Some n \<and> ln_name n = nm \<and> ln_namespace n = ns))"

definition shows_remote :: "Qos GraphView \<Rightarrow> Bytes \<Rightarrow> string \<Rightarrow> string \<Rightarrow> EndpointKind \<Rightarrow> string \<Rightarrow> string \<Rightarrow> bool" where
  "shows_remote v prefix' ns nm kind topic type \<longleftrightarrow>
     (\<exists>e \<in> set (gv_endpoints v). guidPrefix (e_guid e) = prefix' \<and> e_kind e = kind \<and> e_topic e = topic \<and>
        e_type e = type \<and> e_lifecycle e = Added \<and>
        to_gid (e_guid e) \<notin> (\<lambda>l. to_gid (le_guid l)) ` set (gv_local_endpoints v) \<and>
        (\<exists>n. map_of (remote_by_gid v) (to_gid (e_guid e)) = Some n \<and> rn_name n = nm \<and> rn_namespace n = ns)) \<and>
     (case find (\<lambda>p. p_prefix p = prefix') (gv_participants v) of None \<Rightarrow> True | Some p \<Rightarrow> p_lifecycle p = Added)"

lemma local_candidate_gid: "local_candidate mode v e = Some c \<Longrightarrow> ec_gid c = to_gid (le_guid e)"
  by (auto simp: local_candidate_def plain_candidate_def Let_def split: if_splits option.splits)

lemma wire_name_not_metadata:
  "derive_action_endpoint_names fqn = Some n \<Longrightarrow> wire_name mode (action_endpoint n r) \<noteq> kGraphMetadataTopicName"
proof
  assume n: "derive_action_endpoint_names fqn = Some n"
    and eq: "wire_name mode (action_endpoint n r) = kGraphMetadataTopicName"
  have f: "fqn \<noteq> []" using n by (auto simp: derive_action_endpoint_names_def split: if_splits)
  have "CHR ''/'' \<in> set (wire_name mode (action_endpoint n r))"
    using f by (cases r; cases mode; cases fqn)
      (simp_all add: derive_Some [OF n] wire_name_def dds_topic_name_def service_topic_name_def)
  moreover have "CHR ''/'' \<notin> set kGraphMetadataTopicName" by (simp add: kGraphMetadataTopicName_def)
  ultimately show False using eq by metis
qed

lemma shown_serves:
  assumes n: "name_ok fqn" "derive_action_endpoint_names fqn = Some names"
    and shown: "shows_local v prefix' ns nm (server_kind r) (wire_name mode (action_endpoint names r)) (types r) \<or>
      shows_remote v prefix' ns nm (server_kind r) (wire_name mode (action_endpoint names r)) (types r)"
  shows "\<exists>c \<in> set (collect_endpoint_candidates mode v).
    serves mode names types (key_of_prefix prefix') (ns @ [CHR 0x00] @ nm) r c"
  using shown
proof
  note norm = normalize_action_endpoint [OF n, of mode r] wire_name_not_metadata [OF n(2), of mode r]
  assume "shows_local v prefix' ns nm (server_kind r) (wire_name mode (action_endpoint names r)) (types r)"
  then obtain e m where e: "e \<in> set (gv_local_endpoints v)" "guidPrefix (le_guid e) = prefix'"
      "le_kind e = server_kind r" "le_topic e = wire_name mode (action_endpoint names r)" "le_type e = types r"
      "map_of (nodes_by_id v) (le_node_id e) = Some m" "ln_name m = nm" "ln_namespace m = ns"
    by (auto simp: shows_local_def)
  then obtain c where c: "local_candidate mode v e = Some c"
      "serves mode names types (key_of_prefix prefix') (ns @ [CHR 0x00] @ nm) r c"
    using norm by (simp add: local_candidate_def serves_def plain_candidate_def candidate_composition_key_def Let_def)
  then have "c \<in> set (collect_endpoint_candidates mode v)"
    using e(1) by (force simp: collect_endpoint_candidates_def Let_def List.map_filter_def)
  with c(2) show ?thesis by blast
next
  note norm = normalize_action_endpoint [OF n, of mode r] wire_name_not_metadata [OF n(2), of mode r]
  let ?locals = "List.map_filter (local_candidate mode v) (gv_local_endpoints v)"
  assume "shows_remote v prefix' ns nm (server_kind r) (wire_name mode (action_endpoint names r)) (types r)"
  then obtain e m where e: "e \<in> set (gv_endpoints v)" "guidPrefix (e_guid e) = prefix'"
      "e_kind e = server_kind r" "e_topic e = wire_name mode (action_endpoint names r)" "e_type e = types r"
      "e_lifecycle e = Added" "to_gid (e_guid e) \<notin> (\<lambda>l. to_gid (le_guid l)) ` set (gv_local_endpoints v)"
      "map_of (remote_by_gid v) (to_gid (e_guid e)) = Some m" "rn_name m = nm" "rn_namespace m = ns"
    and p: "case find (\<lambda>p. p_prefix p = prefix') (gv_participants v) of None \<Rightarrow> True | Some p \<Rightarrow> p_lifecycle p = Added"
    by (auto simp: shows_remote_def)
  have "to_gid (e_guid e) \<notin> ec_gid ` set ?locals"
    using e(7) local_candidate_gid by (fastforce simp: List.map_filter_def)
  then obtain c where c: "remote_candidate mode v (ec_gid ` set ?locals) e = Some c"
      "serves mode names types (key_of_prefix prefix') (ns @ [CHR 0x00] @ nm) r c"
    using norm e p
    by (auto simp: remote_candidate_def serves_def plain_candidate_def candidate_composition_key_def Let_def
        split: option.splits)
  then have "c \<in> set (collect_endpoint_candidates mode v)"
    using e(1) by (force simp: collect_endpoint_candidates_def Let_def List.map_filter_def)
  with c(2) show ?thesis by blast
qed


section \<open>What the graph lists\<close>

text \<open>A candidate of the group \<open>K\<close>, in the given role and kind.\<close>

definition in_group :: "RuntimeMode \<Rightarrow> string \<Rightarrow> ActionEndpointRole \<Rightarrow> EndpointKind \<Rightarrow> EndpointCandidate \<Rightarrow> bool" where
  "in_group mode K r k c \<longleftrightarrow> (case classified c of None \<Rightarrow> False
     | Some cl \<Rightarrow> group_key mode c (action_name cl) = K \<and> action_role cl = r \<and> native_kind c = k)"

lemma action_groups_snoc: "action_groups mode (cs @ [c]) = add_to_group mode c (action_groups mode cs)"
  by (simp add: action_groups_def)

lemma add_to_group_find:
  assumes "classified c = Some cl"
  shows "map_of (add_to_group mode c gs) K =
    (if group_key mode c (action_name cl) = K then
       let g = (case map_of gs K of Some g \<Rightarrow> g | None \<Rightarrow> \<lparr>group_action = '''', group_endpoints = []\<rparr>)
       in Some (g\<lparr>group_action := action_name cl,
            group_endpoints := om_emplace (ActionRoleKey (action_role cl) (native_kind c)) c (group_endpoints g)\<rparr>)
     else map_of gs K)"
  by (cases "map_of gs K") (auto simp: add_to_group_def assms om.lookup_modify om.lookup_emplace)

lemma groups_find:
  "(case map_of (action_groups mode cs) K of None \<Rightarrow> None | Some g \<Rightarrow> group_find g r k) = find (in_group mode K r k) cs"
proof (induction cs rule: rev_induct)
  case Nil
  then show ?case by (simp add: action_groups_def)
next
  case (snoc c cs)
  show ?case
  proof (cases "classified c")
    case None
    then have "add_to_group mode c (action_groups mode cs) = action_groups mode cs" "\<not> in_group mode K r k c"
      by (simp_all add: add_to_group_def in_group_def)
    with snoc show ?thesis by (simp add: action_groups_snoc find_append split: option.split)
  next
    case (Some cl)
    have mem: "in_group mode K r k c \<longleftrightarrow> group_key mode c (action_name cl) = K \<and> action_role cl = r \<and> native_kind c = k"
      by (simp add: in_group_def Some)
    show ?thesis
    proof (cases "group_key mode c (action_name cl) = K")
      case False
      with mem snoc show ?thesis
        by (simp add: action_groups_snoc add_to_group_find [OF Some] find_append split: option.split)
    next
      case True
      have empty: "map_of (action_groups mode cs) K = None \<Longrightarrow> find (in_group mode K r k) cs = None"
        using snoc by simp
      have full: "map_of (action_groups mode cs) K = Some g \<Longrightarrow>
          map_of (group_endpoints g) (ActionRoleKey r k) = find (in_group mode K r k) cs" for g
        using snoc by (simp add: group_find_def)
      show ?thesis
        using True mem empty full
        by (cases "map_of (action_groups mode cs) K")
           (auto simp: action_groups_snoc add_to_group_find [OF Some] find_append group_find_def Let_def
              om.lookup_emplace split: option.split)
    qed
  qed
qed

lemma groups_named:
  "map_of (action_groups mode cs) K = Some g \<Longrightarrow>
     \<exists>c\<in>set cs. \<exists>cl. classified c = Some cl \<and> group_key mode c (action_name cl) = K \<and> group_action g = action_name cl"
proof (induction cs arbitrary: g rule: rev_induct)
  case Nil
  then show ?case by (simp add: action_groups_def)
next
  case (snoc c cs)
  show ?case
  proof (cases "classified c")
    case None
    with snoc show ?thesis by (fastforce simp: action_groups_snoc add_to_group_def)
  next
    case (Some cl)
    show ?thesis
    proof (cases "group_key mode c (action_name cl) = K")
      case True
      with Some snoc.prems show ?thesis
        by (auto simp: action_groups_snoc add_to_group_find [OF Some] Let_def)
    next
      case False
      with Some snoc.prems have "map_of (action_groups mode cs) K = Some g"
        by (simp add: action_groups_snoc add_to_group_find [OF Some])
      from snoc.IH [OF this] show ?thesis by auto
    qed
  qed
qed

lemma groups_ok: "om_ok (action_groups mode cs)"
  by (induction cs rule: rev_induct)
     (auto simp: action_groups_snoc add_to_group_def om.oks action_groups_def om_ok_def [of "[]"] split: option.split)

lemma groups_mem: "(K, g) \<in> set (action_groups mode cs) \<longleftrightarrow> map_of (action_groups mode cs) K = Some g"
  using groups_ok [of mode cs] by (simp add: um_ok_map_of om_ok_um_ok)

lemma group_side_Some: "group_side kind g \<noteq> None \<longleftrightarrow> (\<forall>r. group_find g r (kind r) \<noteq> None)"
  using all_roles by (auto simp: group_side_def those_map_None)

lemma candidate_fields:
  "ac_name (candidate_of_group (K, g)) = group_action g"
  "has_server (candidate_of_group (K, g)) \<longleftrightarrow> group_side server_kind g \<noteq> None"
  "has_client (candidate_of_group (K, g)) \<longleftrightarrow> group_side client_kind g \<noteq> None"
  by (auto simp: candidate_of_group_def Let_def split: option.splits)

text \<open>
  The key of a participant has twelve characters. A topic name of ROS 2 does not contain the
  separator of the group keys; with it, groups of different names could be taken for one.
\<close>

definition candidates_ok :: "EndpointCandidate list \<Rightarrow> bool" where
  "candidates_ok cs \<longleftrightarrow> list_all (\<lambda>c. length (participant_key c) = 12 \<and> CHR ''|'' \<notin> set (ec_logical_name c)) cs"

definition action_part ::
  "RuntimeMode \<Rightarrow> string \<Rightarrow> string \<Rightarrow> string \<Rightarrow> (ActionEndpointRole \<Rightarrow> EndpointKind) \<Rightarrow> ActionEndpointRole
    \<Rightarrow> EndpointCandidate \<Rightarrow> bool" where
  "action_part mode fqn participant composition kind r c \<longleftrightarrow>
     participant_key c = participant \<and> candidate_composition_key mode c = composition \<and>
     native_kind c = kind r \<and> classified c = Some \<lparr>action_name = fqn, action_role = r\<rparr>"

lemma classified_name: "classified c = Some cl \<Longrightarrow> CHR ''|'' \<notin> set (ec_logical_name c) \<Longrightarrow> CHR ''|'' \<notin> set (action_name cl)"
  by (auto simp: classified_def classify_action_endpoint_def Let_def dest: in_set_takeD split: option.splits if_splits)

lemma bar_split: "a @ x # b = a' @ x # b' \<Longrightarrow> x \<notin> set a \<Longrightarrow> x \<notin> set a' \<Longrightarrow> a = a' \<and> b = b'"
proof (induction a arbitrary: a')
  case Nil
  then show ?case by (cases a') auto
next
  case (Cons y a)
  then show ?case by (cases a') auto
qed

lemma group_key_inject:
  assumes "group_key mode c n = group_key mode c' n'" "length (participant_key c) = 12"
    "length (participant_key c') = 12" "CHR ''|'' \<notin> set n" "CHR ''|'' \<notin> set n'"
  shows "participant_key c = participant_key c' \<and> n = n' \<and>
    candidate_composition_key mode c = candidate_composition_key mode c'"
  using assms bar_split [of n "CHR ''|''" "candidate_composition_key mode c" n' "candidate_composition_key mode c'"]
  by (auto simp: group_key_def)

lemma composed_iff:
  assumes ok: "candidates_ok cs"
  shows "(\<exists>K g. map_of (action_groups mode cs) K = Some g \<and> group_action g = fqn \<and> group_side kind g \<noteq> None) \<longleftrightarrow>
    (\<exists>p k. \<forall>r. \<exists>c\<in>set cs. action_part mode fqn p k kind r c)"
    (is "?group = ?parts")
proof
  have c_ok: "length (participant_key c) = 12" "classified c = Some cl \<Longrightarrow> CHR ''|'' \<notin> set (action_name cl)"
    if "c \<in> set cs" for c cl
    using ok that classified_name [of c cl] by (auto simp: candidates_ok_def list_all_iff)
  assume ?group
  then obtain K g where g: "map_of (action_groups mode cs) K = Some g" "group_action g = fqn"
    and some: "group_side kind g \<noteq> None" by blast
  have side: "\<forall>r. group_find g r (kind r) \<noteq> None" by (rule iffD1 [OF group_side_Some some])
  obtain c0 cl0 where c0: "c0 \<in> set cs" "classified c0 = Some cl0" "group_key mode c0 (action_name cl0) = K"
      "action_name cl0 = fqn"
    using groups_named [OF g(1)] g(2) by auto
  have "\<exists>c\<in>set cs. action_part mode fqn (participant_key c0) (candidate_composition_key mode c0) kind r c" for r
  proof -
    have "find (in_group mode K r (kind r)) cs = group_find g r (kind r)"
      using groups_find [where mode = mode and cs = cs and K = K and r = r and k = "kind r"] g(1) by simp
    with side obtain c where "find (in_group mode K r (kind r)) cs = Some c" by fastforce
    then have c: "c \<in> set cs" "in_group mode K r (kind r) c" by (auto dest: find_Some_set)
    then obtain cl where cl: "classified c = Some cl" "group_key mode c (action_name cl) = K" "action_role cl = r"
        "native_kind c = kind r" by (auto simp: in_group_def split: option.splits)
    have "participant_key c = participant_key c0 \<and> action_name cl = action_name cl0 \<and>
        candidate_composition_key mode c = candidate_composition_key mode c0"
      by (rule group_key_inject) (use c0 c cl c_ok in auto)
    then have "action_part mode fqn (participant_key c0) (candidate_composition_key mode c0) kind r c"
      using cl c0(4) by (simp add: action_part_def)
    with c(1) show ?thesis by blast
  qed
  then show ?parts by blast
next
  assume ?parts
  then obtain p k where pk: "\<forall>r. \<exists>c\<in>set cs. action_part mode fqn p k kind r c" by blast
  let ?K = "p @ ''|'' @ fqn @ ''|'' @ k"
  have mem: "find (in_group mode ?K r (kind r)) cs \<noteq> None" for r
  proof -
    from pk obtain c where "c \<in> set cs" "action_part mode fqn p k kind r c" by blast
    then have "in_group mode ?K r (kind r) c" by (auto simp: action_part_def in_group_def group_key_def)
    with \<open>c \<in> set cs\<close> show ?thesis by (auto simp: find_None_set)
  qed
  then obtain g where g: "map_of (action_groups mode cs) ?K = Some g"
    using groups_find [where mode = mode and cs = cs and K = ?K and r = Status and k = "kind Status"]
    by (cases "map_of (action_groups mode cs) ?K") (use mem [of Status] in simp)+
  have "\<forall>r. group_find g r (kind r) \<noteq> None"
    using mem groups_find [where mode = mode and cs = cs and K = ?K] g by simp
  then have "group_side kind g \<noteq> None" by (rule iffD2 [OF group_side_Some])
  moreover have "group_action g = fqn"
  proof -
    from pk obtain c where c: "c \<in> set cs" "action_part mode fqn p k kind Status c" by blast
    obtain c' cl' where c': "c' \<in> set cs" "classified c' = Some cl'" "group_key mode c' (action_name cl') = ?K"
        "group_action g = action_name cl'"
      using groups_named [OF g] by blast
    have l: "length (participant_key c) = 12" "length (participant_key c') = 12"
      and n: "CHR ''|'' \<notin> set (ec_logical_name c)" "CHR ''|'' \<notin> set (ec_logical_name c')"
      using ok c(1) c'(1) by (simp_all add: candidates_ok_def list_all_iff)
    have cl: "classified c = Some \<lparr>action_name = fqn, action_role = Status\<rparr>" "group_key mode c fqn = ?K"
      using c(2) by (auto simp: action_part_def group_key_def)
    have "CHR ''|'' \<notin> set fqn" "CHR ''|'' \<notin> set (action_name cl')"
      using classified_name [OF cl(1) n(1)] classified_name [OF c'(2) n(2)] by simp_all
    with group_key_inject [of mode c' "action_name cl'" c fqn] c'(3) cl(2) l
    show ?thesis using c'(4) by simp
  qed
  ultimately show ?group using g by blast
qed

lemma composed_ex: "(\<exists>a\<in>set (compose_action_candidates mode cs). P a) \<longleftrightarrow>
    (\<exists>K g. map_of (action_groups mode cs) K = Some g \<and> P (candidate_of_group (K, g)))"
  by (force simp: compose_action_candidates_def groups_mem [symmetric])

lemma listed_iff:
  assumes "candidates_ok cs"
  shows "(\<exists>a\<in>set (compose_action_candidates mode cs). ac_name a = fqn \<and> has_server a) \<longleftrightarrow>
      (\<exists>p k. \<forall>r. \<exists>c\<in>set cs. action_part mode fqn p k server_kind r c)"
    and "(\<exists>a\<in>set (compose_action_candidates mode cs). ac_name a = fqn \<and> has_client a) \<longleftrightarrow>
      (\<exists>p k. \<forall>r. \<exists>c\<in>set cs. action_part mode fqn p k client_kind r c)"
  unfolding composed_iff [OF assms, symmetric] composed_ex candidate_fields by (rule refl)+

lemma serves_part:
  "derive_action_endpoint_names fqn = Some names \<Longrightarrow> serves mode names types p k r c \<Longrightarrow>
     action_part mode fqn p k server_kind r c"
  using classify_derived [of fqn names r]
  by (cases "action_endpoint names r") (auto simp: serves_def action_part_def classified_def)


section \<open>The wait of an action client\<close>

text \<open>
  Around an action client only the graph changes: the QoS of its own endpoints is fixed when they
  are created. What the check ingests are graph operations that precede it. \<open>i\<close> is the graph
  subscription of the client's wait state.
\<close>

inductive action_client_step :: "u64 \<Rightarrow> ActionClientEnv \<Rightarrow> nat \<Rightarrow> ActionClientEnv \<Rightarrow> bool" for i where
  graph: "graph_exec op (ac_graph e) = (ns, g) \<Longrightarrow> op \<noteq> GUnsubscribe i \<Longrightarrow>
    op \<noteq> GSubscribe \<or> next_subscription (ac_graph e) \<noteq> u64_max \<Longrightarrow>
    action_client_step i e (length (filter (\<lambda>n. fst n = i) ns)) (e\<lparr>ac_graph := g\<rparr>)"

inductive_cases action_client_stepE: "action_client_step i e n e'"

definition action_client_ok :: "u64 \<Rightarrow> ActionClientEnv \<Rightarrow> bool" where
  "action_client_ok i e \<longleftrightarrow> graph_ok (ac_graph e) \<and> i \<in> set (subscriptions (ac_graph e))"

text \<open>The candidates depend on the view only as far as the revision counts its changes.\<close>

lemma map_of_nodes:
  assumes "map (\<lambda>n. (ln_id n, ln_name n, ln_namespace n)) ns = map (\<lambda>n. (ln_id n, ln_name n, ln_namespace n)) ns'"
  shows "map_option (\<lambda>n. (ln_name n, ln_namespace n)) (map_of (map (\<lambda>n. (ln_id n, n)) ns) i) =
    map_option (\<lambda>n. (ln_name n, ln_namespace n)) (map_of (map (\<lambda>n. (ln_id n, n)) ns') i)"
  using assms
proof (induction ns arbitrary: ns')
  case Nil
  then show ?case by simp
next
  case (Cons n ns)
  then show ?case by (cases ns') auto
qed

lemma candidates_cong:
  assumes "observable g' = observable g"
  shows "collect_endpoint_candidates mode (view g') = collect_endpoint_candidates mode (view g)"
proof -
  have same: "participants g' = participants g" "endpoints g' = endpoints g" "local_endpoints g' = local_endpoints g"
    "remote_nodes g' = remote_nodes g"
    and names: "map (\<lambda>n. (ln_id n, ln_name n, ln_namespace n)) (local_nodes g') =
       map (\<lambda>n. (ln_id n, ln_name n, ln_namespace n)) (local_nodes g)"
    using assms by (simp_all add: observable_def)
  have "local_candidate mode (view g') e = local_candidate mode (view g) e" for e
    using map_of_nodes [OF names, of "le_node_id e"]
    by (auto simp: local_candidate_def nodes_by_id_def view_def Let_def split: option.splits)
  moreover have "remote_candidate mode (view g') gids e = remote_candidate mode (view g) gids e" for gids e
  proof -
    have r: "remote_by_gid (view g') = remote_by_gid (view g)" by (simp add: remote_by_gid_def view_def same)
    have p: "gv_participants (view g') = gv_participants (view g)" by (simp add: view_def same)
    show ?thesis unfolding remote_candidate_def r p ..
  qed
  moreover have "gv_local_endpoints (view g') = gv_local_endpoints (view g)"
    "gv_endpoints (view g') = gv_endpoints (view g)" by (simp_all add: view_def same)
  ultimately show ?thesis by (simp add: collect_endpoint_candidates_def List.map_filter_def)
qed

interpretation action_server: availability_wait
    "check_availability mode names types (\<lambda>g. g)" "action_client_step i" "action_client_ok i" "\<lambda>c e. e"
  for mode names types i
proof
  fix e n e'
  assume ok: "action_client_ok i e" and "action_client_step i e n e'"
  then show "action_client_ok i e'"
    using graph_exec_ok [of "ac_graph e"] silent_graph_op(1) [of "ac_graph e" i]
    by (auto elim!: action_client_stepE simp: action_client_ok_def) (metis snd_conv)+
next
  show "e = e" for e :: ActionClientEnv ..
next
  fix e e'
  assume ok: "action_client_ok i e" and step: "action_client_step i e 0 e'"
    and no: "check_availability mode names types (\<lambda>g. g) False e = Inr False"
  from step obtain op ns g where s: "graph_exec op (ac_graph e) = (ns, g)" "op \<noteq> GUnsubscribe i"
      "op \<noteq> GSubscribe \<or> next_subscription (ac_graph e) \<noteq> u64_max" "filter (\<lambda>n. fst n = i) ns = []"
      "e' = e\<lparr>ac_graph := g\<rparr>"
    by (auto elim!: action_client_stepE)
  have "observable g = observable (ac_graph e) \<and> health g = health (ac_graph e)"
    using ok silent_graph_op(2) [OF _ _ s(1-4)] by (simp add: action_client_ok_def)
  then show "check_availability mode names types (\<lambda>g. g) False e' = Inr False"
    using no candidates_cong [of g "ac_graph e" mode]
    by (auto simp: check_availability_def s(5) split: if_splits sum.splits)
qed


section \<open>Properties\<close>

text \<open>
  C29. When an action server is available. Without a client's QoS: exactly when in one participant
  and composition each of the eight roles has an endpoint of the right direction, name and wire
  type. With it: exactly when the first such endpoint of every role is compatible with the
  client's; so, where no role has two endpoints, exactly when a complete server exists whose
  endpoints are all compatible.
\<close>

theorem action_server_available_iff:
  "(has_action_server mode cs names types None \<longleftrightarrow>
      (\<exists>p k. \<forall>r. \<exists>c\<in>set cs. serves mode names types p k r c))
   \<and> (has_action_server mode cs names types (Some client) \<longleftrightarrow>
      (\<exists>p k. \<forall>r. \<exists>c. find (serves mode names types p k r) cs = Some c \<and> role_compatible client r c))
   \<and> ((\<forall>p k r. \<forall>c\<in>set cs. \<forall>d\<in>set cs. serves mode names types p k r c \<longrightarrow> serves mode names types p k r d \<longrightarrow> c = d) \<longrightarrow>
      (has_action_server mode cs names types (Some client) \<longleftrightarrow>
        (\<exists>p k. \<forall>r. \<exists>c\<in>set cs. serves mode names types p k r c \<and> role_compatible client r c)))"
proof -
  have some: "(\<exists>c. find q cs = Some c) \<longleftrightarrow> (\<exists>c\<in>set cs. q c)" for q
    using find_None_set [of q cs] by (cases "find q cs") (auto dest: find_Some_set)
  have "has_action_server mode cs names types None \<longleftrightarrow> (\<exists>p k. \<forall>r. \<exists>c\<in>set cs. serves mode names types p k r c)"
    by (simp add: has_action_server_alt some)
  moreover have first: "has_action_server mode cs names types (Some client) \<longleftrightarrow>
      (\<exists>p k. \<forall>r. \<exists>c. find (serves mode names types p k r) cs = Some c \<and> role_compatible client r c)"
    by (simp add: has_action_server_alt)
  moreover have "(\<exists>c. find q cs = Some c \<and> P c) \<longleftrightarrow> (\<exists>c\<in>set cs. q c \<and> P c)"
    if "\<And>c d. c \<in> set cs \<Longrightarrow> d \<in> set cs \<Longrightarrow> q c \<Longrightarrow> q d \<Longrightarrow> c = d" for q P
    using that some [of q] find_Some_set [of q cs] by blast
  ultimately show ?thesis by (simp add: first)
qed

text \<open>
  C28. End to end: an action server whose eight endpoints the view shows in one node, local or
  remote and with the names and directions that the code gives to the endpoints of an action
  server of that name, is found among the collected candidates, in both runtime modes.
\<close>

theorem action_server_found:
  assumes "name_ok fqn" and "derive_action_endpoint_names fqn = Some names"
    and "\<forall>r. shows_local v prefix' ns nm (server_kind r) (wire_name mode (action_endpoint names r)) (types r) \<or>
      shows_remote v prefix' ns nm (server_kind r) (wire_name mode (action_endpoint names r)) (types r)"
  shows "has_action_server mode (collect_endpoint_candidates mode v) names types None"
proof -
  let ?cs = "collect_endpoint_candidates mode v"
  have "\<exists>c. find (serves mode names types (key_of_prefix prefix') (ns @ [CHR 0x00] @ nm) r) ?cs = Some c" for r
    using shown_serves [OF assms(1,2), of v prefix' ns nm r mode types] assms(3)
      find_None_set [of "serves mode names types (key_of_prefix prefix') (ns @ [CHR 0x00] @ nm) r" ?cs]
    by (cases "find (serves mode names types (key_of_prefix prefix') (ns @ [CHR 0x00] @ nm) r) ?cs") auto
  then show ?thesis by (auto simp: has_action_server_alt)
qed

text \<open>
  C30. The graph lists a server (a client) of an action exactly when the eight endpoints of one
  participant and composition are among the candidates, each with the direction of a server (a
  client). An action server that is available is listed.
\<close>

theorem listed_actions_exact:
  assumes "candidates_ok cs"
  shows "((\<exists>a\<in>set (compose_action_candidates mode cs). ac_name a = fqn \<and> has_server a) \<longleftrightarrow>
        (\<exists>p k. \<forall>r. \<exists>c\<in>set cs. action_part mode fqn p k server_kind r c))
    \<and> ((\<exists>a\<in>set (compose_action_candidates mode cs). ac_name a = fqn \<and> has_client a) \<longleftrightarrow>
        (\<exists>p k. \<forall>r. \<exists>c\<in>set cs. action_part mode fqn p k client_kind r c))
    \<and> (derive_action_endpoint_names fqn = Some names \<longrightarrow> has_action_server mode cs names types q \<longrightarrow>
        (\<exists>a\<in>set (compose_action_candidates mode cs). ac_name a = fqn \<and> has_server a))"
proof -
  have "\<exists>p k. \<forall>r. \<exists>c\<in>set cs. action_part mode fqn p k server_kind r c"
    if n: "derive_action_endpoint_names fqn = Some names" and h: "has_action_server mode cs names types q"
  proof -
    from h obtain p k where "\<forall>r. \<exists>c. find (serves mode names types p k r) cs = Some c"
      unfolding has_action_server_alt by blast
    then have "\<forall>r. \<exists>c\<in>set cs. serves mode names types p k r c" by (meson find_Some_set)
    then show ?thesis using serves_part [OF n] by blast
  qed
  then show ?thesis using listed_iff [OF assms, of mode fqn] by blast
qed

text \<open>
  An action client misses no server: while the graph changes and the context may be shut down or
  the wait interrupted, under every interleaving, when its thread sleeps on the current revision
  and no notification is on its way, the check answers that no server is available, the context
  runs and the wait is not interrupted.
\<close>

theorem action_wait_misses_nothing:
  assumes "wait_reach (check_availability mode names types (\<lambda>g. g)) (action_client_step i) token timeout deadline s0 s"
    and "action_client_ok i (env s0)" "owed s = 0" "missed s < 2 ^ 64"
    and "pc s = Asleep (wait_revision (wait_state s))"
  shows "check_availability mode names types (\<lambda>g. g) (shut_down s) (env s) = Inr False
    \<and> \<not> shut_down s \<and> \<not> interrupted token (wait_state s)"
  using action_server.nothing_missed [OF _ assms(2) disjI1 [OF assms(5)] assms(3,4)] assms(1)
  unfolding wait_reach_checked by blast

section \<open>Concrete runs\<close>

definition names_1 :: ActionEndpointNames where
  "names_1 = the (derive_action_endpoint_names ''/a'')"

lemma names_1_derived: "derive_action_endpoint_names ''/a'' = Some names_1"
  by (simp add: names_1_def derive_action_endpoint_names_def Let_def)

definition server_view :: "Qos GraphView" where
  "server_view =
     \<lparr>gv_revision = 9, gv_participants = [\<lparr>p_prefix = [1], p_lifecycle = Added, p_generation = 0\<rparr>],
      gv_endpoints = map (\<lambda>r. \<lparr>e_guid = \<lparr>guidPrefix = [1], entityId = [of_nat (role_index r)]\<rparr>,
        e_kind = server_kind r, e_topic = wire_name ROS2 (action_endpoint names_1 r), e_type = ''t'',
        e_qos = ros2_default, e_lifecycle = Added\<rparr>) action_roles,
      gv_local_nodes = [], gv_local_endpoints = [],
      gv_remote_nodes = [\<lparr>rp_prefix = [1], rp_nodes = [\<lparr>rn_namespace = ''/'', rn_name = ''n'', reader_gids = [],
        writer_gids = map (\<lambda>r. [1, of_nat (role_index r)]) action_roles\<rparr>]\<rparr>]\<rparr>"

theorem action_server_found_witness:
  "has_action_server ROS2 (collect_endpoint_candidates ROS2 server_view) names_1 (\<lambda>_. ''t'') None"
proof -
  have n: "name_ok ''/a''" by (simp add: name_ok_def has_invalid_name_syntax_def)
  note d = names_1_derived
  have "shows_remote server_view [1] ''/'' ''n'' (server_kind r) (wire_name ROS2 (action_endpoint names_1 r)) ''t''" for r
    by (cases r) (simp_all add: shows_remote_def server_view_def action_roles_def remote_by_gid_def to_gid_def)
  then show ?thesis by (intro action_server_found [OF n d, of server_view "[1]" "''/''" "''n''"]) blast
qed

text \<open>The endpoints of a server with the given QoS, as candidates of one node.\<close>

definition server_endpoint :: "Qos \<Rightarrow> ActionEndpointRole \<Rightarrow> EndpointCandidate" where
  "server_endpoint q r = \<lparr>ec_gid = [], native_kind = server_kind r,
     ec_role = ep_role (action_endpoint names_1 r), ec_logical_name = logical_name (action_endpoint names_1 r),
     wire_type = ''t'', ec_qos = q, ec_node_name = ''n'', ec_node_namespace = ''/'', has_node = True,
     participant_key = ''abcdefghijkl''\<rparr>"

definition server_endpoints :: "Qos \<Rightarrow> EndpointCandidate list" where
  "server_endpoints q = map (server_endpoint q) action_roles"

lemma server_endpoint_serves:
  "serves ROS2 names_1 (\<lambda>_. ''t'') p k r (server_endpoint q r') \<longleftrightarrow>
     r' = r \<and> p = ''abcdefghijkl'' \<and> k = ''/'' @ [CHR 0x00] @ ''n''"
proof -
  have "r' = r" if "action_endpoint names_1 r' = action_endpoint names_1 r"
    using that classify_derived [OF names_1_derived, of r] classify_derived [OF names_1_derived, of r'] by simp
  then show ?thesis by (auto simp: serves_def server_endpoint_def candidate_composition_key_def)
qed

lemma server_find:
  "find (serves ROS2 names_1 (\<lambda>_. ''t'') p k r) (server_endpoints q @ cs) =
     (if p = ''abcdefghijkl'' \<and> k = ''/'' @ [CHR 0x00] @ ''n''
      then Some (server_endpoint q r) else find (serves ROS2 names_1 (\<lambda>_. ''t'') p k r) cs)"
  by (cases r) (simp_all add: server_endpoints_def action_roles_def server_endpoint_serves)

lemma server_compatible:
  "role_compatible (\<lambda>_. ros2_default) r (server_endpoint ros2_default r)"
  "\<not> role_compatible (\<lambda>_. ros2_default) Status (server_endpoint ros2_sensor_data Status)"
  by (cases r) (simp_all add: server_endpoint_def role_compatible_def qos_compatible_def
      check_qos_compatibility_def qos_presets)

theorem action_server_available_iff_witness:
  "has_action_server ROS2 (server_endpoints ros2_default) names_1 (\<lambda>_. ''t'') (Some (\<lambda>_. ros2_default))"
proof -
  let ?cs = "server_endpoints ros2_default" and ?s = "serves ROS2 names_1 (\<lambda>_. ''t'')"
  have one: "?s p k r c \<Longrightarrow> ?s p k r d \<Longrightarrow> c \<in> set ?cs \<Longrightarrow> d \<in> set ?cs \<Longrightarrow> c = d" for p k r c d
    by (auto simp: server_endpoints_def server_endpoint_serves)
  have "\<exists>c\<in>set ?cs. ?s ''abcdefghijkl'' (''/'' @ [CHR 0x00] @ ''n'') r c \<and> role_compatible (\<lambda>_. ros2_default) r c" for r
    using all_roles [of r] server_compatible(1) [of r] by (auto simp: server_endpoints_def server_endpoint_serves)
  then show ?thesis using action_server_available_iff [of ROS2 ?cs names_1 "\<lambda>_. ''t''" "\<lambda>_. ros2_default"] one by blast
qed

theorem listed_actions_exact_witness:
  "\<exists>a\<in>set (compose_action_candidates ROS2 (server_endpoints ros2_default)). ac_name a = ''/a'' \<and> has_server a"
proof -
  let ?cs = "server_endpoints ros2_default"
  have ok: "candidates_ok ?cs"
    by (simp add: candidates_ok_def server_endpoints_def server_endpoint_def action_roles_def names_1_def derive_action_endpoint_names_def Let_def)
  have "action_part ROS2 ''/a'' ''abcdefghijkl'' (''/'' @ [CHR 0x00] @ ''n'') server_kind r (server_endpoint ros2_default r)
      \<and> server_endpoint ros2_default r \<in> set ?cs" for r
    using serves_part [OF names_1_derived, of ROS2 "\<lambda>_. ''t''"] all_roles [of r]
    by (simp add: server_endpoint_serves server_endpoints_def)
  then show ?thesis using listed_actions_exact [OF ok, of ROS2 "''/a''"] by blast
qed

definition client_env_1 :: ActionClientEnv where
  "client_env_1 = \<lparr>ac_graph = new_graph\<lparr>next_subscription := 1, subscriptions := [1]\<rparr>, actual_qos = (\<lambda>_. Inr ros2_default)\<rparr>"

theorem action_wait_misses_nothing_witness:
  "check_availability ROS2 names_1 (\<lambda>_. ''t'') (\<lambda>g. g) False client_env_1 = Inr False"
proof -
  let ?av = "check_availability ROS2 names_1 (\<lambda>_. ''t'') (\<lambda>g. g)"
  let ?s = "\<lparr>env = client_env_1, shut_down = False,
      wait_state = \<lparr>ws_identity = 7, wait_revision = 0, interruption_generation = 0\<rparr>,
      wait_time = 0, pc = Top, owed = 0, missed = 0\<rparr>"
  let ?t = "?s\<lparr>pc := Asleep (wait_revision (wait_state ?s)), missed := 0\<rparr>"
  have no: "?av False client_env_1 = Inr False"
    by (simp add: check_availability_def client_env_1_def new_graph_def action_roles_def view_def
        collect_endpoint_candidates_def List.map_filter_def has_action_server_def set_from_def)
  have "wait_reach ?av (action_client_step 1) \<lparr>token_identity = Some 7, token_generation = 0\<rparr> Infinite 0 ?s ?t"
    unfolding wait_reach_checked by (rule exI, rule falls_asleep) (use no in \<open>simp_all add: interrupted_def\<close>)
  moreover have "(new_graph :: Qos DiscoveryGraph)\<lparr>next_subscription := 1, subscriptions := [1]\<rparr> = snd (graph_exec GSubscribe new_graph)"
    by (simp add: subscribe_def new_graph_def u64_max_def Let_def)
  then have "graph_ok ((new_graph :: Qos DiscoveryGraph)\<lparr>next_subscription := 1, subscriptions := [1]\<rparr>)"
    using graph_exec_ok [OF new_graph_ok, of GSubscribe] by metis
  then have "action_client_ok 1 client_env_1" by (simp add: action_client_ok_def client_env_1_def)
  ultimately show ?thesis
    using action_wait_misses_nothing [of ROS2 names_1 "\<lambda>_. ''t''" 1 _ Infinite 0 ?s ?t] by simp
qed

text \<open>
  Availability looks at the first endpoint of each role only: with two complete servers of the
  action in one node, the client whose QoS only the second satisfies is told that no server is
  there, although it is told so of neither the second server alone nor of the two in the other
  order.
\<close>

theorem compatible_server_hidden:
  "has_action_server ROS2 (server_endpoints ros2_default) names_1 (\<lambda>_. ''t'') (Some (\<lambda>_. ros2_default))
   \<and> has_action_server ROS2 (server_endpoints ros2_default @ server_endpoints ros2_sensor_data) names_1 (\<lambda>_. ''t'')
       (Some (\<lambda>_. ros2_default))
   \<and> \<not> has_action_server ROS2 (server_endpoints ros2_sensor_data @ server_endpoints ros2_default) names_1 (\<lambda>_. ''t'')
       (Some (\<lambda>_. ros2_default))"
proof -
  have one: "has_action_server ROS2 (server_endpoints q @ cs) names_1 (\<lambda>_. ''t'') (Some (\<lambda>_. ros2_default))"
    if "q = ros2_default" for q cs
    unfolding has_action_server_alt
    by (intro exI [of _ "''abcdefghijkl''"] exI [of _ "''/'' @ [CHR 0x00] @ ''n''"])
       (simp add: server_find that server_compatible)
  have "find (serves ROS2 names_1 (\<lambda>_. ''t'') p k Status) (server_endpoints ros2_sensor_data @ server_endpoints ros2_default)
      \<noteq> Some c \<or> \<not> role_compatible (\<lambda>_. ros2_default) Status c" for p k c
    using server_compatible(2) server_find [where cs = "[]" and q = ros2_default and p = p and k = k and r = Status]
    by (auto simp: server_find)
  then have "\<not> has_action_server ROS2 (server_endpoints ros2_sensor_data @ server_endpoints ros2_default) names_1
      (\<lambda>_. ''t'') (Some (\<lambda>_. ros2_default))"
    unfolding has_action_server_alt by fastforce
  then show ?thesis using one [of ros2_default "[]"] one by simp
qed

definition bar_candidate :: EndpointCandidate where
  "bar_candidate = plain_candidate \<lparr>guidPrefix = 1 # 0x7C # replicate 10 2, entityId = [0, 0, 1, 3]\<rparr> Writer
     \<lparr>logical_name = ''/a/_action/status'', ep_role = Topic\<rparr> ''t'' ros2_default"

text \<open>
  The participant key of a listed action is cut at the first byte \<^verbatim>\<open>0x7C\<close> of the prefix, so it
  need not be the key of any participant.
\<close>

theorem participant_key_cut:
  "candidates_ok [bar_candidate]
   \<and> map ac_participant_key (compose_action_candidates ROS2 [bar_candidate]) = [byte_string [1]]
   \<and> participant_key bar_candidate = byte_string (1 # 0x7C # replicate 10 2)"
  by code_simp

end
