(* ===== verification/GraphSnapshot.thy ===== *)
theory GraphSnapshot
  imports GraphCandidates
begin

text \<open>
  The public graph: \<^verbatim>\<open>graph.cpp\<close> assembles a snapshot from one view, and a graph event
  (\<^verbatim>\<open>impl/graph_impl.hpp\<close>) reports the revisions that passed since it was last taken.
\<close>

section \<open>Maps accessed by key\<close>

text \<open>\<^verbatim>\<open>auto& x = m[k]\<close>, which makes a default entry, followed by an update of \<open>x\<close>.\<close>

definition om_at :: "'k::linorder \<Rightarrow> 'v \<Rightarrow> ('v \<Rightarrow> 'v) \<Rightarrow> ('k \<times> 'v) list \<Rightarrow> ('k \<times> 'v) list" where
  "om_at k d f m = um_modify k f (om_emplace k d m)"

lemma map_of_om_at:
  "map_of (om_at k d f m) k' = (if k' = k then Some (f (case map_of m k of None \<Rightarrow> d | Some v \<Rightarrow> v)) else map_of m k')"
  by (cases "map_of m k") (auto simp: om_at_def om.lookup_modify om.lookup_emplace)

lemma om_ok_at: "om_ok m \<Longrightarrow> om_ok (om_at k d f m)"
  by (simp add: om_at_def om.oks)

text \<open>A map filled by one pass over a list holds, for each key, the fold over its own elements.\<close>

definition tally :: "('a \<Rightarrow> 'k::linorder) \<Rightarrow> 'v \<Rightarrow> ('a \<Rightarrow> 'v \<Rightarrow> 'v) \<Rightarrow> 'a list \<Rightarrow> ('k \<times> 'v) list" where
  "tally key d f xs = fold (\<lambda>x. om_at (key x) d (f x)) xs []"

lemma tally_snoc: "tally key d f (xs @ [x]) = om_at (key x) d (f x) (tally key d f xs)"
  by (simp add: tally_def)

lemma tally_ok: "om_ok (tally key d f xs)"
  by (induction xs rule: rev_induct) (simp_all add: tally_snoc om_ok_at, simp add: tally_def om_ok_def)

lemma map_of_tally:
  "map_of (tally key d f xs) k =
     (if k \<in> key ` set xs then Some (fold f (filter (\<lambda>x. key x = k) xs) d) else None)"
proof (induction xs rule: rev_induct)
  case Nil
  then show ?case by (simp add: tally_def)
next
  case (snoc x xs)
  have "k \<notin> key ` set xs \<Longrightarrow> filter (\<lambda>x. key x = k) xs = []" by (auto simp: filter_empty_conv)
  with snoc show ?case by (auto simp: tally_snoc map_of_om_at)
qed

lemma tally_mem: "(k, v) \<in> set (tally key d f xs) \<longleftrightarrow> k \<in> key ` set xs \<and> v = fold f (filter (\<lambda>x. key x = k) xs) d"
  using um_ok_map_of [OF om_ok_um_ok [OF tally_ok], of k v key d f xs] by (auto simp: map_of_tally)

lemma set_from_sorted: "sorted (set_from ys) \<and> distinct (set_from ys)"
proof -
  have "sorted zs \<and> distinct zs \<Longrightarrow> sorted (fold insort_insert ys zs) \<and> distinct (fold insort_insert ys zs)" for zs
    by (induction ys arbitrary: zs) (auto simp: sorted_insort_insert distinct_insort_insert)
  then show ?thesis by (simp add: set_from_def)
qed

lemma tally_keys: "map fst (tally key d f xs) = set_from (map key xs)"
proof (rule sorted_distinct_set_unique)
  show "set (map fst (tally key d f xs)) = set (set_from (map key xs))"
  proof (rule set_eqI)
    fix k
    have "k \<in> set (map fst (tally key d f xs)) \<longleftrightarrow> (\<exists>v. (k, v) \<in> set (tally key d f xs))" by force
    then show "k \<in> set (map fst (tally key d f xs)) \<longleftrightarrow> k \<in> set (set_from (map key xs))" by (simp add: tally_mem)
  qed
  show "sorted (map fst (tally key d f xs))" "distinct (map fst (tally key d f xs))"
    using tally_ok [of key d f xs] by (simp_all add: om_ok_def strict_sorted_iff)
qed (simp_all add: set_from_sorted)

section \<open>The snapshot\<close>

record NodeGraphInfo =
  ni_name :: string
  ni_namespace :: string

datatype TopicEndpointKind = Publisher | Subscriber

record TopicEndpointInfo =
  te_gid :: Gid
  te_kind :: TopicEndpointKind
  te_node_name :: string
  te_node_namespace :: string
  te_topic :: string
  te_wire_type :: string
  te_qos :: Qos

record TopicGraphInfo =
  tg_name :: string
  tg_wire_types :: "string list"
  publisher_count :: nat
  subscriber_count :: nat

datatype PeerKind = Client | Server

record ServiceEndpointInfo =
  se_kind :: PeerKind
  se_node_name :: string
  se_node_namespace :: string
  se_service :: string
  se_request_gid :: Gid
  se_response_gid :: Gid
  se_request_type :: string
  se_response_type :: string

record ServiceGraphInfo =
  sg_name :: string
  sg_request_types :: "string list"
  sg_response_types :: "string list"
  sg_clients :: nat
  sg_servers :: nat

record ActionEndpointInfo =
  ae_kind :: PeerKind
  ae_node_name :: string
  ae_node_namespace :: string
  ae_action :: string
  ae_gids :: "Gid list"

record ActionGraphInfo =
  ag_name :: string
  ag_clients :: nat
  ag_servers :: nat

record GraphSnapshot =
  gs_revision :: u64
  gs_nodes :: "NodeGraphInfo list"
  gs_topics :: "TopicGraphInfo list"
  gs_topic_endpoints :: "TopicEndpointInfo list"
  gs_services :: "ServiceGraphInfo list"
  gs_service_endpoints :: "ServiceEndpointInfo list"
  gs_actions :: "ActionGraphInfo list"
  gs_action_endpoints :: "ActionEndpointInfo list"

definition snapshot_nodes :: "'q GraphView \<Rightarrow> NodeGraphInfo list" where
  "snapshot_nodes v = map (\<lambda>n. \<lparr>ni_name = ln_name n, ni_namespace = ln_namespace n\<rparr>) (gv_local_nodes v) @
     concat (map (\<lambda>p. map (\<lambda>n. \<lparr>ni_name = rn_name n, ni_namespace = rn_namespace n\<rparr>) (rp_nodes p)) (gv_remote_nodes v))"

subsection \<open>Topics\<close>

definition topic_candidates :: "EndpointCandidate list \<Rightarrow> EndpointCandidate list" where
  "topic_candidates cs = filter (\<lambda>c. ec_role c = Topic) cs"

definition topic_info :: "EndpointCandidate \<Rightarrow> TopicEndpointInfo" where
  "topic_info c = \<lparr>te_gid = ec_gid c, te_kind = (if candidate_is_publisher c then Publisher else Subscriber),
     te_node_name = ec_node_name c, te_node_namespace = ec_node_namespace c, te_topic = ec_logical_name c,
     te_wire_type = wire_type c, te_qos = ec_qos c\<rparr>"

definition count_topic :: "EndpointCandidate \<Rightarrow> TopicGraphInfo \<Rightarrow> TopicGraphInfo" where
  "count_topic c t =
     (let t = t\<lparr>tg_name := ec_logical_name c\<rparr>
      in if candidate_is_publisher c then t\<lparr>publisher_count := publisher_count t + 1\<rparr>
         else t\<lparr>subscriber_count := subscriber_count t + 1\<rparr>)"

definition topic_aggregates :: "EndpointCandidate list \<Rightarrow> (string \<times> TopicGraphInfo) list" where
  "topic_aggregates cs = tally ec_logical_name
     \<lparr>tg_name = '''', tg_wire_types = [], publisher_count = 0, subscriber_count = 0\<rparr> count_topic (topic_candidates cs)"

definition topic_wire_types :: "EndpointCandidate list \<Rightarrow> (string \<times> string list) list" where
  "topic_wire_types cs = tally ec_logical_name [] (\<lambda>c. insort_insert (wire_type c)) (topic_candidates cs)"

definition snapshot_topics :: "EndpointCandidate list \<Rightarrow> TopicGraphInfo list" where
  "snapshot_topics cs = map (\<lambda>(name, t). t\<lparr>tg_wire_types :=
     (case map_of (topic_wire_types cs) name of Some types \<Rightarrow> types | None \<Rightarrow> [])\<rparr>) (topic_aggregates cs)"

subsection \<open>Services\<close>

record ServiceGroup =
  sgr_name :: string
  request_reader :: "EndpointCandidate option"
  request_writer :: "EndpointCandidate option"
  response_reader :: "EndpointCandidate option"
  response_writer :: "EndpointCandidate option"

definition service_candidates :: "EndpointCandidate list \<Rightarrow> EndpointCandidate list" where
  "service_candidates cs = filter (\<lambda>c. ec_role c \<noteq> Topic) cs"

definition service_key :: "RuntimeMode \<Rightarrow> EndpointCandidate \<Rightarrow> string" where
  "service_key mode c = group_key mode c (ec_logical_name c)"

definition set_slot :: "EndpointCandidate \<Rightarrow> ServiceGroup \<Rightarrow> ServiceGroup" where
  "set_slot c g0 =
     (let g = g0\<lparr>sgr_name := ec_logical_name c\<rparr>
      in if ec_role c = ServiceRequest
         then (if native_kind c = Reader then g\<lparr>request_reader := Some c\<rparr> else g\<lparr>request_writer := Some c\<rparr>)
         else if native_kind c = Reader then g\<lparr>response_reader := Some c\<rparr> else g\<lparr>response_writer := Some c\<rparr>)"

definition no_group :: ServiceGroup where
  "no_group = \<lparr>sgr_name = '''', request_reader = None, request_writer = None, response_reader = None,
     response_writer = None\<rparr>"

definition service_groups :: "RuntimeMode \<Rightarrow> EndpointCandidate list \<Rightarrow> (string \<times> ServiceGroup) list" where
  "service_groups mode cs = tally (service_key mode) no_group set_slot (service_candidates cs)"

definition service_info :: "PeerKind \<Rightarrow> string \<Rightarrow> EndpointCandidate \<Rightarrow> EndpointCandidate \<Rightarrow> ServiceEndpointInfo" where
  "service_info kind name request response =
     (let info = \<lparr>se_kind = kind, se_node_name = '''', se_node_namespace = '''', se_service = name,
        se_request_gid = ec_gid request, se_response_gid = ec_gid response,
        se_request_type = wire_type request, se_response_type = wire_type response\<rparr>
      in if has_node request
         then info\<lparr>se_node_name := ec_node_name request, se_node_namespace := ec_node_namespace request\<rparr> else info)"

fun both :: "'a option \<Rightarrow> 'b option \<Rightarrow> ('a \<Rightarrow> 'b \<Rightarrow> 'c) \<Rightarrow> 'c list" where
  "both (Some a) (Some b) f = [f a b]"
| "both _ _ f = []"

definition server_infos :: "ServiceGroup \<Rightarrow> ServiceEndpointInfo list" where
  "server_infos g = both (request_reader g) (response_writer g) (service_info Server (sgr_name g))"

definition client_infos :: "ServiceGroup \<Rightarrow> ServiceEndpointInfo list" where
  "client_infos g = both (request_writer g) (response_reader g) (service_info Client (sgr_name g))"

definition count_service :: "ServiceGroup \<Rightarrow> ServiceGraphInfo \<Rightarrow> ServiceGraphInfo" where
  "count_service g s = s\<lparr>sg_name := sgr_name g, sg_servers := sg_servers s + length (server_infos g),
     sg_clients := sg_clients s + length (client_infos g)\<rparr>"

definition slot_types :: "EndpointCandidate option \<Rightarrow> EndpointCandidate option \<Rightarrow> string list \<Rightarrow> string list" where
  "slot_types reader writer types =
     (let add = (\<lambda>slot ts. case slot of None \<Rightarrow> ts | Some c \<Rightarrow> insort_insert (wire_type c) ts)
      in add writer (add reader types))"

definition service_aggregates :: "ServiceGroup list \<Rightarrow> (string \<times> ServiceGraphInfo) list" where
  "service_aggregates gs = tally sgr_name
     \<lparr>sg_name = '''', sg_request_types = [], sg_response_types = [], sg_clients = 0, sg_servers = 0\<rparr> count_service gs"

text \<open>
  The maps of the wire types have an entry only where a group has a slot of that side; a missing
  entry leaves the list empty, as an empty entry does.
\<close>

definition request_types :: "ServiceGroup list \<Rightarrow> (string \<times> string list) list" where
  "request_types gs = tally sgr_name [] (\<lambda>g. slot_types (request_reader g) (request_writer g)) gs"

definition response_types :: "ServiceGroup list \<Rightarrow> (string \<times> string list) list" where
  "response_types gs = tally sgr_name [] (\<lambda>g. slot_types (response_reader g) (response_writer g)) gs"

definition snapshot_services :: "ServiceGroup list \<Rightarrow> ServiceGraphInfo list" where
  "snapshot_services gs = map (\<lambda>(name, s). s\<lparr>
     sg_request_types := (case map_of (request_types gs) name of Some ts \<Rightarrow> ts | None \<Rightarrow> []),
     sg_response_types := (case map_of (response_types gs) name of Some ts \<Rightarrow> ts | None \<Rightarrow> [])\<rparr>) (service_aggregates gs)"

definition snapshot_service_endpoints :: "ServiceGroup list \<Rightarrow> ServiceEndpointInfo list" where
  "snapshot_service_endpoints gs = concat (map (\<lambda>g. server_infos g @ client_infos g) gs)"

subsection \<open>Actions\<close>

definition action_infos :: "ActionCandidate \<Rightarrow> ActionEndpointInfo list" where
  "action_infos c =
     (if has_server c then [\<lparr>ae_kind = Server, ae_node_name = server_node_name c,
        ae_node_namespace = server_node_namespace c, ae_action = ac_name c, ae_gids = server_gids c\<rparr>] else []) @
     (if has_client c then [\<lparr>ae_kind = Client, ae_node_name = client_node_name c,
        ae_node_namespace = client_node_namespace c, ae_action = ac_name c, ae_gids = client_gids c\<rparr>] else [])"

definition count_action :: "ActionCandidate \<Rightarrow> ActionGraphInfo \<Rightarrow> ActionGraphInfo" where
  "count_action c a = a\<lparr>ag_name := ac_name c, ag_servers := ag_servers a + (if has_server c then 1 else 0),
     ag_clients := ag_clients a + (if has_client c then 1 else 0)\<rparr>"

definition snapshot_actions :: "ActionCandidate list \<Rightarrow> ActionGraphInfo list" where
  "snapshot_actions as = map snd (tally ac_name \<lparr>ag_name = '''', ag_clients = 0, ag_servers = 0\<rparr> count_action as)"

definition assemble_snapshot :: "RuntimeMode \<Rightarrow> Qos GraphView \<Rightarrow> GraphSnapshot" where
  "assemble_snapshot mode v =
     (let cs = collect_endpoint_candidates mode v;
          groups = map snd (service_groups mode cs);
          actions = compose_action_candidates mode cs
      in \<lparr>gs_revision = gv_revision v, gs_nodes = snapshot_nodes v,
          gs_topics = snapshot_topics cs, gs_topic_endpoints = map topic_info (topic_candidates cs),
          gs_services = snapshot_services groups, gs_service_endpoints = snapshot_service_endpoints groups,
          gs_actions = snapshot_actions actions, gs_action_endpoints = concat (map action_infos actions)\<rparr>)"

subsection \<open>The operations of a context\<close>

definition graph_revision ::
  "('q DiscoveryGraph \<Rightarrow> 'q DiscoveryGraph) \<Rightarrow> bool \<Rightarrow> 'q DiscoveryGraph \<Rightarrow> u64 result \<times> 'q DiscoveryGraph" where
  "graph_revision ingest_pending shut g =
     (if shut then (failure ContextShutdown, g)
      else let g = ingest_pending g
           in (if health g \<noteq> Healthy then failure DDSError else success (revision g), g))"

definition graph_snapshot ::
  "RuntimeMode \<Rightarrow> (Qos DiscoveryGraph \<Rightarrow> Qos DiscoveryGraph) \<Rightarrow> bool \<Rightarrow> Qos DiscoveryGraph
    \<Rightarrow> GraphSnapshot result \<times> Qos DiscoveryGraph" where
  "graph_snapshot mode ingest_pending shut g =
     (if shut then (failure ContextShutdown, g)
      else let g = ingest_pending g
           in (if health g \<noteq> Healthy then failure DDSError else success (assemble_snapshot mode (view g)), g))"

section \<open>Graph events\<close>

record GraphEventState =
  ge_closing :: bool
  ge_cursor :: u64
  ge_subscription :: u64

record GraphChangeInfo =
  previous_revision :: u64
  current_revision :: u64

text \<open>
  The revision is read before the subscription is made; \<open>between\<close> are the changes of other
  threads in between. A subscription id of 0 is none.
\<close>

definition ge_initialize ::
  "('q DiscoveryGraph \<Rightarrow> 'q DiscoveryGraph) \<Rightarrow> 'q DiscoveryGraph \<Rightarrow> GraphEventState result \<times> 'q DiscoveryGraph" where
  "ge_initialize between g =
     (let cursor = revision g; (i, g) = subscribe (between g)
      in if i = 0 then (failure ResourceExhausted, g)
         else (success \<lparr>ge_closing = False, ge_cursor = cursor, ge_subscription = i\<rparr>, g))"

definition create_graph_event ::
  "('q DiscoveryGraph \<Rightarrow> 'q DiscoveryGraph) \<Rightarrow> bool \<Rightarrow> 'q DiscoveryGraph \<Rightarrow> GraphEventState result \<times> 'q DiscoveryGraph" where
  "create_graph_event between shut g = (if shut then (failure ContextShutdown, g) else ge_initialize between g)"

text \<open>Both ingest what is pending; as elsewhere that is a sequence of graph operations before.\<close>

definition logically_ready :: "bool \<Rightarrow> 'q DiscoveryGraph \<Rightarrow> GraphEventState \<Rightarrow> bool" where
  "logically_ready shut g e =
     (if ge_closing e \<or> shut then False
      else if health g \<noteq> Healthy then True
      else ge_cursor e < revision g)"

definition ge_take ::
  "bool \<Rightarrow> 'q DiscoveryGraph \<Rightarrow> GraphEventState \<Rightarrow> GraphChangeInfo option result \<times> GraphEventState" where
  "ge_take shut g e =
     (if ge_closing e then (failure ParentDestroyed, e)
      else if shut then (failure ContextShutdown, e)
      else if health g \<noteq> Healthy then (failure DDSError, e)
      else let current = revision g
           in if current = ge_cursor e then (success None, e)
              else (success (Some \<lparr>previous_revision = ge_cursor e, current_revision = current\<rparr>),
                    e\<lparr>ge_cursor := current\<rparr>))"

definition ge_close :: "GraphEventState \<Rightarrow> GraphEventState" where
  "ge_close e = e\<lparr>ge_closing := True\<rparr>"


section \<open>What the snapshot says\<close>

lemma fold_count:
  "publisher_count (fold count_topic xs t) = publisher_count t + length (filter candidate_is_publisher xs)"
  "subscriber_count (fold count_topic xs t) = subscriber_count t + length (filter (\<lambda>c. \<not> candidate_is_publisher c) xs)"
  by (induction xs arbitrary: t) (simp_all add: count_topic_def Let_def)

lemma fold_count_name: "\<forall>x\<in>set xs. ec_logical_name x = n \<Longrightarrow> xs \<noteq> [] \<Longrightarrow> tg_name (fold count_topic xs t) = n"
  by (induction xs rule: rev_induct) (simp_all add: count_topic_def Let_def)

lemma set_fold_insort: "set (fold (\<lambda>c. insort_insert (f c)) xs ts) = f ` set xs \<union> set ts"
  by (induction xs arbitrary: ts) (auto simp: set_insort_insert)

text \<open>What a topic, a service and an action of the snapshot must say about its endpoints.\<close>

definition topic_exact :: "TopicEndpointInfo list \<Rightarrow> TopicGraphInfo \<Rightarrow> bool" where
  "topic_exact es t \<longleftrightarrow>
     publisher_count t = length (filter (\<lambda>e. te_topic e = tg_name t \<and> te_kind e = Publisher) es) \<and>
     subscriber_count t = length (filter (\<lambda>e. te_topic e = tg_name t \<and> te_kind e = Subscriber) es) \<and>
     set (tg_wire_types t) = {te_wire_type e |e. e \<in> set es \<and> te_topic e = tg_name t}"

definition service_exact :: "ServiceEndpointInfo list \<Rightarrow> ServiceGraphInfo \<Rightarrow> bool" where
  "service_exact es s \<longleftrightarrow>
     sg_servers s = length (filter (\<lambda>e. se_service e = sg_name s \<and> se_kind e = Server) es) \<and>
     sg_clients s = length (filter (\<lambda>e. se_service e = sg_name s \<and> se_kind e = Client) es)"

definition action_exact :: "ActionEndpointInfo list \<Rightarrow> ActionGraphInfo \<Rightarrow> bool" where
  "action_exact es a \<longleftrightarrow>
     ag_servers a = length (filter (\<lambda>e. ae_action e = ag_name a \<and> ae_kind e = Server) es) \<and>
     ag_clients a = length (filter (\<lambda>e. ae_action e = ag_name a \<and> ae_kind e = Client) es)"

lemma topic_entry:
  assumes "(n, t) \<in> set (topic_aggregates cs)"
  shows "tg_name t = n" "n \<in> ec_logical_name ` set (topic_candidates cs)"
    "publisher_count t = length (filter (\<lambda>c. ec_logical_name c = n \<and> candidate_is_publisher c) (topic_candidates cs))"
    "subscriber_count t = length (filter (\<lambda>c. ec_logical_name c = n \<and> \<not> candidate_is_publisher c) (topic_candidates cs))"
proof -
  let ?xs = "filter (\<lambda>c. ec_logical_name c = n) (topic_candidates cs)"
  let ?t0 = "\<lparr>tg_name = '''', tg_wire_types = [], publisher_count = 0, subscriber_count = 0\<rparr>"
  have t: "t = fold count_topic ?xs ?t0" and n: "n \<in> ec_logical_name ` set (topic_candidates cs)"
    using assms by (simp_all add: topic_aggregates_def tally_mem)
  show "n \<in> ec_logical_name ` set (topic_candidates cs)" by (rule n)
  have "?xs \<noteq> []" using n by (auto simp: filter_empty_conv)
  then show "tg_name t = n" unfolding t by (intro fold_count_name) simp_all
  show "publisher_count t = length (filter (\<lambda>c. ec_logical_name c = n \<and> candidate_is_publisher c) (topic_candidates cs))"
    "subscriber_count t = length (filter (\<lambda>c. ec_logical_name c = n \<and> \<not> candidate_is_publisher c) (topic_candidates cs))"
    by (simp_all add: t fold_count)
qed

lemma topics_exact: "t \<in> set (snapshot_topics cs) \<Longrightarrow> topic_exact (map topic_info (topic_candidates cs)) t"
proof -
  assume "t \<in> set (snapshot_topics cs)"
  then obtain n t0 where t0: "(n, t0) \<in> set (topic_aggregates cs)"
    and t: "t = t0\<lparr>tg_wire_types := (case map_of (topic_wire_types cs) n of Some types \<Rightarrow> types | None \<Rightarrow> [])\<rparr>"
    by (auto simp: snapshot_topics_def)
  note e = topic_entry [OF t0]
  have "map_of (topic_wire_types cs) n =
      Some (fold (\<lambda>c. insort_insert (wire_type c)) (filter (\<lambda>c. ec_logical_name c = n) (topic_candidates cs)) [])"
    using e(2) by (simp add: topic_wire_types_def map_of_tally)
  then have "set (tg_wire_types t) = wire_type ` set (filter (\<lambda>c. ec_logical_name c = n) (topic_candidates cs))"
    by (simp add: t set_fold_insort)
  also have "\<dots> = {te_wire_type e |e. e \<in> set (map topic_info (topic_candidates cs)) \<and> te_topic e = n}"
    by (force simp: topic_info_def)
  finally have types: "set (tg_wire_types t) = \<dots>" .
  have pubs: "length (filter (\<lambda>e. te_topic e = n \<and> te_kind e = Publisher) (map topic_info (topic_candidates cs))) = publisher_count t0"
    unfolding e(3) by (auto simp: filter_map comp_def topic_info_def intro!: arg_cong [where f = length] filter_cong)
  have subs: "length (filter (\<lambda>e. te_topic e = n \<and> te_kind e = Subscriber) (map topic_info (topic_candidates cs))) = subscriber_count t0"
    unfolding e(4) by (auto simp: filter_map comp_def topic_info_def intro!: arg_cong [where f = length] filter_cong)
  have "tg_name t = n" "publisher_count t = publisher_count t0" "subscriber_count t = subscriber_count t0"
    using e(1) by (simp_all add: t)
  with types pubs subs show ?thesis by (simp only: topic_exact_def simp_thms)
qed

lemma both_length: "length (both a b f) = (if a = None \<or> b = None then 0 else 1)"
  by (cases a; cases b) auto

lemma both_all: "x \<in> set (both a b f) \<longleftrightarrow> (\<exists>y z. a = Some y \<and> b = Some z \<and> x = f y z)"
  by (cases a; cases b) auto

lemma service_info_fields:
  "se_kind (service_info k n a b) = k" "se_service (service_info k n a b) = n"
  "se_request_gid (service_info k n a b) = ec_gid a" "se_response_gid (service_info k n a b) = ec_gid b"
  "se_request_type (service_info k n a b) = wire_type a" "se_response_type (service_info k n a b) = wire_type b"
  by (simp_all add: service_info_def Let_def)

lemma filter_infos:
  "length (filter (\<lambda>e. se_service e = n \<and> se_kind e = Server) (server_infos g @ client_infos g)) =
     (if sgr_name g = n then length (server_infos g) else 0)"
  "length (filter (\<lambda>e. se_service e = n \<and> se_kind e = Client) (server_infos g @ client_infos g)) =
     (if sgr_name g = n then length (client_infos g) else 0)"
  unfolding server_infos_def client_infos_def
  by (cases "request_reader g"; cases "response_writer g"; cases "request_writer g"; cases "response_reader g";
      simp add: service_info_fields)+

lemma fold_services:
  "sg_servers (fold count_service gs s) = sg_servers s + sum_list (map (length \<circ> server_infos) gs)"
  "sg_clients (fold count_service gs s) = sg_clients s + sum_list (map (length \<circ> client_infos) gs)"
  by (induction gs arbitrary: s) (simp_all add: count_service_def)

lemma fold_service_name: "\<forall>g\<in>set gs. sgr_name g = n \<Longrightarrow> gs \<noteq> [] \<Longrightarrow> sg_name (fold count_service gs s) = n"
  by (induction gs rule: rev_induct) (simp_all add: count_service_def)

lemma sum_filter: "sum_list (map f (filter p xs)) = sum_list (map (\<lambda>x. if p x then f x else (0::nat)) xs)"
  by (induction xs) auto

lemma length_concat_filter: "length (filter p (concat (map f xs))) = sum_list (map (\<lambda>x. length (filter p (f x))) xs)"
  by (induction xs) auto

lemma services_exact: "s \<in> set (snapshot_services gs) \<Longrightarrow> service_exact (snapshot_service_endpoints gs) s"
proof -
  assume "s \<in> set (snapshot_services gs)"
  then obtain n s0 rq rs where s0: "(n, s0) \<in> set (service_aggregates gs)"
    and s: "s = s0\<lparr>sg_request_types := rq, sg_response_types := rs\<rparr>"
    by (auto simp: snapshot_services_def)
  let ?gs = "filter (\<lambda>g. sgr_name g = n) gs"
  let ?s0 = "\<lparr>sg_name = '''', sg_request_types = [], sg_response_types = [], sg_clients = 0, sg_servers = 0\<rparr>"
  have f: "s0 = fold count_service ?gs ?s0" and n: "n \<in> sgr_name ` set gs"
    using s0 by (simp_all add: service_aggregates_def tally_mem)
  have "?gs \<noteq> []" using n by (auto simp: filter_empty_conv)
  then have "sg_name s = n" unfolding s f by (simp add: fold_service_name)
  then show ?thesis
    by (simp add: service_exact_def s f fold_services snapshot_service_endpoints_def length_concat_filter
        filter_infos sum_filter comp_def del: filter_append)
qed

lemma filter_actions:
  "length (filter (\<lambda>e. ae_action e = n \<and> ae_kind e = Server) (action_infos c)) = (if ac_name c = n \<and> has_server c then 1 else 0)"
  "length (filter (\<lambda>e. ae_action e = n \<and> ae_kind e = Client) (action_infos c)) = (if ac_name c = n \<and> has_client c then 1 else 0)"
  by (simp_all add: action_infos_def)

lemma fold_actions:
  "ag_servers (fold count_action cs a) = ag_servers a + sum_list (map (\<lambda>c. if has_server c then 1 else 0) cs)"
  "ag_clients (fold count_action cs a) = ag_clients a + sum_list (map (\<lambda>c. if has_client c then 1 else 0) cs)"
  by (induction cs arbitrary: a) (simp_all add: count_action_def)

lemma fold_action_name: "\<forall>c\<in>set cs. ac_name c = n \<Longrightarrow> cs \<noteq> [] \<Longrightarrow> ag_name (fold count_action cs a) = n"
  by (induction cs rule: rev_induct) (simp_all add: count_action_def)

lemma actions_exact: "a \<in> set (snapshot_actions cs) \<Longrightarrow> action_exact (concat (map action_infos cs)) a"
proof -
  assume "a \<in> set (snapshot_actions cs)"
  then obtain n where n: "n \<in> ac_name ` set cs"
    and a: "a = fold count_action (filter (\<lambda>c. ac_name c = n) cs) \<lparr>ag_name = '''', ag_clients = 0, ag_servers = 0\<rparr>"
    by (auto simp: snapshot_actions_def tally_mem)
  have "filter (\<lambda>c. ac_name c = n) cs \<noteq> []" using n by (auto simp: filter_empty_conv)
  then have "ag_name a = n" unfolding a by (simp add: fold_action_name)
  moreover have "(if p then if q then 1 else 0 else 0) = (if p \<and> q then 1 else (0::nat))" for p q by simp
  ultimately show ?thesis
    by (simp add: action_exact_def a fold_actions length_concat_filter filter_actions sum_filter)
qed


section \<open>When a service is listed\<close>

text \<open>A slot of a group holds the last candidate of its side.\<close>

lemma slots:
  "request_reader (fold set_slot xs no_group) = None \<longleftrightarrow> \<not> (\<exists>c\<in>set xs. ec_role c = ServiceRequest \<and> native_kind c = Reader)"
  "request_writer (fold set_slot xs no_group) = None \<longleftrightarrow> \<not> (\<exists>c\<in>set xs. ec_role c = ServiceRequest \<and> native_kind c = Writer)"
  "response_reader (fold set_slot xs no_group) = None \<longleftrightarrow> \<not> (\<exists>c\<in>set xs. ec_role c \<noteq> ServiceRequest \<and> native_kind c = Reader)"
  "response_writer (fold set_slot xs no_group) = None \<longleftrightarrow> \<not> (\<exists>c\<in>set xs. ec_role c \<noteq> ServiceRequest \<and> native_kind c = Writer)"
proof (induction xs rule: rev_induct)
  case Nil
  { case 1 then show ?case by (simp add: no_group_def) }
  { case 2 then show ?case by (simp add: no_group_def) }
  { case 3 then show ?case by (simp add: no_group_def) }
  { case 4 then show ?case by (simp add: no_group_def) }
next
  case (snoc c xs)
  { case 1 then show ?case using snoc by (cases "native_kind c") (auto simp: set_slot_def Let_def) }
  { case 2 then show ?case using snoc by (cases "native_kind c") (auto simp: set_slot_def Let_def) }
  { case 3 then show ?case using snoc by (cases "native_kind c") (auto simp: set_slot_def Let_def) }
  { case 4 then show ?case using snoc by (cases "native_kind c") (auto simp: set_slot_def Let_def) }
qed

lemma slot_name: "xs \<noteq> [] \<Longrightarrow> \<exists>c\<in>set xs. sgr_name (fold set_slot xs no_group) = ec_logical_name c"
  by (induction xs rule: rev_induct) (auto simp: set_slot_def Let_def)

lemma groups_of_services:
  "g \<in> set (map snd (service_groups mode cs)) \<longleftrightarrow>
     (\<exists>c\<in>set (service_candidates cs). g = fold set_slot (filter (\<lambda>d. service_key mode d = service_key mode c)
        (service_candidates cs)) no_group)"
proof -
  have "g \<in> set (map snd (service_groups mode cs)) \<longleftrightarrow> (\<exists>k. (k, g) \<in> set (service_groups mode cs))" by force
  then show ?thesis by (auto simp: service_groups_def tally_mem)
qed

text \<open>Two candidates that can be the two ends of one service: same participant, composition and name.\<close>

definition service_pair :: "RuntimeMode \<Rightarrow> string \<Rightarrow> EndpointKind \<Rightarrow> EndpointCandidate \<Rightarrow> EndpointCandidate \<Rightarrow> bool" where
  "service_pair mode n kind c d \<longleftrightarrow>
     ec_role c = ServiceRequest \<and> native_kind c = kind \<and> ec_role d = ServiceResponse \<and> native_kind d \<noteq> kind \<and>
     ec_logical_name c = n \<and> ec_logical_name d = n \<and> participant_key c = participant_key d \<and>
     candidate_composition_key mode c = candidate_composition_key mode d"

lemma same_group:
  assumes "candidates_ok cs" "c \<in> set (service_candidates cs)" "d \<in> set (service_candidates cs)"
  shows "service_key mode c = service_key mode d \<longleftrightarrow> ec_logical_name c = ec_logical_name d \<and>
    participant_key c = participant_key d \<and> candidate_composition_key mode c = candidate_composition_key mode d"
proof -
  have "length (participant_key c) = 12" "length (participant_key d) = 12" "CHR ''|'' \<notin> set (ec_logical_name c)"
      "CHR ''|'' \<notin> set (ec_logical_name d)"
    using assms by (auto simp: candidates_ok_def list_all_iff service_candidates_def)
  then show ?thesis
    using group_key_inject [of mode c "ec_logical_name c" d "ec_logical_name d"]
    by (auto simp: service_key_def group_key_def)
qed

text \<open>A group has both ends of a server (\<open>Reader\<close>) or of a client (\<open>Writer\<close>).\<close>

definition has_ends :: "EndpointKind \<Rightarrow> ServiceGroup \<Rightarrow> bool" where
  "has_ends kind g \<longleftrightarrow>
     (if kind = Reader then request_reader g \<noteq> None \<and> response_writer g \<noteq> None
      else request_writer g \<noteq> None \<and> response_reader g \<noteq> None)"

lemma kind_other: "k \<noteq> Reader \<longleftrightarrow> k = Writer" "k \<noteq> Writer \<longleftrightarrow> k = Reader"
  by (cases k; simp)+

lemma has_ends_fold:
  "has_ends kind (fold set_slot xs no_group) \<longleftrightarrow>
     (\<exists>c\<in>set xs. ec_role c = ServiceRequest \<and> native_kind c = kind) \<and>
     (\<exists>d\<in>set xs. ec_role d \<noteq> ServiceRequest \<and> native_kind d \<noteq> kind)"
  unfolding has_ends_def slots by (cases kind) (auto simp: kind_other)

lemma service_group_iff:
  assumes ok: "candidates_ok cs"
  shows "(\<exists>g\<in>set (map snd (service_groups mode cs)). sgr_name g = n \<and> has_ends kind g) \<longleftrightarrow>
      (\<exists>c\<in>set cs. \<exists>d\<in>set cs. service_pair mode n kind c d)" (is "?group = ?pair")
proof -
  let ?sc = "service_candidates cs"
  let ?mem = "\<lambda>c. filter (\<lambda>d. service_key mode d = service_key mode c) ?sc"
  have name: "sgr_name (fold set_slot (?mem c) no_group) = ec_logical_name c" if c: "c \<in> set ?sc" for c
  proof -
    have "?mem c \<noteq> []" using c by (auto simp: filter_empty_conv)
    from slot_name [OF this] obtain d where "d \<in> set ?sc" "service_key mode d = service_key mode c"
      "sgr_name (fold set_slot (?mem c) no_group) = ec_logical_name d" by auto
    then show ?thesis using same_group [OF ok] c by metis
  qed
  have role: "ec_role c \<noteq> ServiceRequest \<Longrightarrow> ec_role c = ServiceResponse" if "c \<in> set ?sc" for c
    using that by (cases "ec_role c") (auto simp: service_candidates_def)
  have group: "?group \<longleftrightarrow> (\<exists>c\<in>set ?sc. ec_logical_name c = n \<and> has_ends kind (fold set_slot (?mem c) no_group))"
    unfolding Bex_def groups_of_services using name by auto
  show ?thesis
  proof
    assume ?group
    then obtain c a b where c: "c \<in> set ?sc" "ec_logical_name c = n"
      and a: "a \<in> set ?sc" "service_key mode a = service_key mode c" "ec_role a = ServiceRequest" "native_kind a = kind"
      and b: "b \<in> set ?sc" "service_key mode b = service_key mode c" "ec_role b \<noteq> ServiceRequest" "native_kind b \<noteq> kind"
      unfolding group has_ends_fold by auto
    have "service_pair mode n kind a b"
      using a b(2,4) role [OF b(1,3)] c(2) same_group [OF ok a(1) c(1)] same_group [OF ok b(1) c(1)]
      by (simp add: service_pair_def)
    moreover have "a \<in> set cs" "b \<in> set cs" using a(1) b(1) by (simp_all add: service_candidates_def)
    ultimately show ?pair by blast
  next
    assume ?pair
    then obtain c d where cd: "c \<in> set cs" "d \<in> set cs" and p: "service_pair mode n kind c d" by blast
    then have sc: "c \<in> set ?sc" "d \<in> set ?sc" by (auto simp: service_candidates_def service_pair_def)
    then have "service_key mode d = service_key mode c" using same_group [OF ok] p by (auto simp: service_pair_def)
    then have "has_ends kind (fold set_slot (?mem c) no_group)"
      unfolding has_ends_fold using sc p by (auto simp: service_pair_def)
    then show ?group unfolding group using sc(1) p by (auto simp: service_pair_def)
  qed
qed

lemma server_listed:
  "(\<exists>e\<in>set (snapshot_service_endpoints gs). se_service e = n \<and> se_kind e = Server) \<longleftrightarrow>
     (\<exists>g\<in>set gs. sgr_name g = n \<and> has_ends Reader g)"
  "(\<exists>e\<in>set (snapshot_service_endpoints gs). se_service e = n \<and> se_kind e = Client) \<longleftrightarrow>
     (\<exists>g\<in>set gs. sgr_name g = n \<and> has_ends Writer g)"
  by (force simp: snapshot_service_endpoints_def server_infos_def client_infos_def both_all has_ends_def
      service_info_fields)+

section \<open>Runs of a graph event\<close>

datatype 'q GeOp = GeGraph "'q GraphOp" | GeTake

text \<open>The intervals handed out, in order.\<close>

type_synonym 'q ge_sys = "'q DiscoveryGraph \<times> GraphEventState \<times> GraphChangeInfo list"

fun ge_exec :: "'q GeOp \<Rightarrow> 'q ge_sys \<Rightarrow> 'q ge_sys" where
  "ge_exec (GeGraph op) (g, e, log) = (snd (graph_exec op g), e, log)"
| "ge_exec GeTake (g, e, log) = (case ge_take False g e of
       (Inr (Some info), e) \<Rightarrow> (g, e, log @ [info])
     | (_, e) \<Rightarrow> (g, e, log))"

definition ge_run :: "'q GeOp list \<Rightarrow> 'q ge_sys \<Rightarrow> 'q ge_sys" where
  "ge_run ops s = fold ge_exec ops s"

fun tiles :: "u64 \<Rightarrow> GraphChangeInfo list \<Rightarrow> u64 \<Rightarrow> bool" where
  "tiles a [] b \<longleftrightarrow> a = b"
| "tiles a (i # is) b \<longleftrightarrow> previous_revision i = a \<and> a < current_revision i \<and> tiles (current_revision i) is b"

lemma tiles_append: "tiles a (is @ [i]) c \<longleftrightarrow> (\<exists>b. tiles a is b \<and> previous_revision i = b \<and> b < current_revision i \<and> current_revision i = c)"
  by (induction "is" arbitrary: a) auto

lemma revision_mono: "revision g \<le> revision (snd (graph_exec op g))"
proof (cases "change_of op")
  case None
  then show ?thesis
    by (cases op) (auto simp: release_local_node_def add_local_endpoint_def subscribe_def unsubscribe_def
        unavailable_def Let_def split: if_splits)
next
  case (Some c)
  have frame: "revision (snd (c g)) = revision g" using change_frame [OF Some, of g] by blast
  show ?thesis
    by (cases rule: mutate_cases [of g c])
       (use frame in \<open>auto simp: graph_exec_change [OF Some] intro: order.strict_implies_order u64_inc_gt\<close>)
qed

definition ge_inv :: "u64 \<Rightarrow> 'q ge_sys \<Rightarrow> bool" where
  "ge_inv start s \<longleftrightarrow> (case s of (g, e, log) \<Rightarrow>
     tiles start log (ge_cursor e) \<and> ge_cursor e \<le> revision g \<and> \<not> ge_closing e)"

lemma ge_exec_inv: "ge_inv start s \<Longrightarrow> ge_inv start (ge_exec op s)"
proof (induction op s rule: ge_exec.induct)
  case (1 op g e log)
  then show ?case using revision_mono [of g op] by (auto simp: ge_inv_def)
next
  case (2 g e log)
  then show ?case by (auto simp: ge_inv_def ge_take_def Let_def tiles_append order_le_less)
qed

lemma ge_run_inv: "ge_inv start s \<Longrightarrow> ge_inv start (ge_run ops s)"
proof (induction ops arbitrary: s)
  case (Cons op ops)
  from Cons.IH [OF ge_exec_inv [OF Cons.prems]] show ?case by (simp add: ge_run_def)
qed (simp add: ge_run_def)


section \<open>Properties\<close>

lemma tally_names:
  assumes "\<And>k v. (k, v) \<in> set (tally key d f xs) \<Longrightarrow> name v = k"
  shows "map (\<lambda>e. name (snd e)) (tally key d f xs) = set_from (map key xs)"
proof -
  have "map (\<lambda>e. name (snd e)) (tally key d f xs) = map fst (tally key d f xs)"
    using assms by (intro map_cong) auto
  then show ?thesis by (simp add: tally_keys)
qed

lemma snapshot_names:
  "map tg_name (snapshot_topics cs) = set_from (map ec_logical_name (topic_candidates cs))"
  "map sg_name (snapshot_services gs) = set_from (map sgr_name gs)"
  "map ag_name (snapshot_actions as) = set_from (map ac_name as)"
proof -
  have "map (\<lambda>e. tg_name (snd e)) (topic_aggregates cs) = set_from (map ec_logical_name (topic_candidates cs))"
    unfolding topic_aggregates_def by (rule tally_names) (use topic_entry(1) in \<open>simp add: topic_aggregates_def\<close>)
  then show "map tg_name (snapshot_topics cs) = set_from (map ec_logical_name (topic_candidates cs))"
    by (simp add: snapshot_topics_def comp_def case_prod_beta)
  have ne: "filter (\<lambda>x. f x = k) xs \<noteq> []" if "k \<in> f ` set xs" for f :: "'x \<Rightarrow> string" and k xs
    using that by (auto simp: filter_empty_conv)
  have "map (\<lambda>e. sg_name (snd e)) (service_aggregates gs) = set_from (map sgr_name gs)"
    unfolding service_aggregates_def
    by (rule tally_names) (use ne [of _ sgr_name gs] in \<open>auto simp: tally_mem intro!: fold_service_name\<close>)
  then show "map sg_name (snapshot_services gs) = set_from (map sgr_name gs)"
    by (simp add: snapshot_services_def comp_def case_prod_beta)
  have "map (\<lambda>e. ag_name (snd e)) (tally ac_name \<lparr>ag_name = '''', ag_clients = 0, ag_servers = 0\<rparr> count_action as) =
      set_from (map ac_name as)"
    by (rule tally_names) (use ne [of _ ac_name as] in \<open>auto simp: tally_mem intro!: fold_action_name\<close>)
  then show "map ag_name (snapshot_actions as) = set_from (map ac_name as)"
    by (simp add: snapshot_actions_def comp_def case_prod_beta)
qed

text \<open>
  A snapshot is consistent with itself: the counts of every topic, service and action are the
  numbers of the endpoints it lists for it, the wire types of a topic are those of its endpoints,
  the topics are the names of the listed topic endpoints, and topics, services and actions are
  in ascending order without repetition; its revision is that of the view it was made from.
\<close>

theorem snapshot_consistent:
  "list_all (topic_exact (gs_topic_endpoints (assemble_snapshot mode v))) (gs_topics (assemble_snapshot mode v))
   \<and> list_all (service_exact (gs_service_endpoints (assemble_snapshot mode v))) (gs_services (assemble_snapshot mode v))
   \<and> list_all (action_exact (gs_action_endpoints (assemble_snapshot mode v))) (gs_actions (assemble_snapshot mode v))
   \<and> map tg_name (gs_topics (assemble_snapshot mode v)) = set_from (map te_topic (gs_topic_endpoints (assemble_snapshot mode v)))
   \<and> sorted_wrt (<) (map tg_name (gs_topics (assemble_snapshot mode v)))
   \<and> sorted_wrt (<) (map sg_name (gs_services (assemble_snapshot mode v)))
   \<and> sorted_wrt (<) (map ag_name (gs_actions (assemble_snapshot mode v)))
   \<and> gs_revision (assemble_snapshot mode v) = gv_revision v"
proof -
  let ?s = "assemble_snapshot mode v" and ?cs = "collect_endpoint_candidates mode v"
  have parts: "gs_topics ?s = snapshot_topics ?cs" "gs_topic_endpoints ?s = map topic_info (topic_candidates ?cs)"
      "gs_services ?s = snapshot_services (map snd (service_groups mode ?cs))"
      "gs_service_endpoints ?s = snapshot_service_endpoints (map snd (service_groups mode ?cs))"
      "gs_actions ?s = snapshot_actions (compose_action_candidates mode ?cs)"
      "gs_action_endpoints ?s = concat (map action_infos (compose_action_candidates mode ?cs))"
      "gs_revision ?s = gv_revision v"
    by (simp_all add: assemble_snapshot_def Let_def)
  have "map te_topic (map topic_info (topic_candidates ?cs)) = map ec_logical_name (topic_candidates ?cs)"
    by (simp add: topic_info_def)
  then show ?thesis
    unfolding parts list_all_iff snapshot_names strict_sorted_iff
    using topics_exact services_exact actions_exact set_from_sorted by metis
qed

text \<open>
  The snapshot lists a server (a client) of a service exactly when two candidates of one
  participant and composition are the ends of one: a request reader and a response writer (a
  request writer and a response reader) of that name.
\<close>

theorem listed_services_exact:
  assumes "candidates_ok (collect_endpoint_candidates mode v)"
  shows "((\<exists>e\<in>set (gs_service_endpoints (assemble_snapshot mode v)). se_service e = n \<and> se_kind e = Server) \<longleftrightarrow>
        (\<exists>c\<in>set (collect_endpoint_candidates mode v). \<exists>d\<in>set (collect_endpoint_candidates mode v).
           service_pair mode n Reader c d))
    \<and> ((\<exists>e\<in>set (gs_service_endpoints (assemble_snapshot mode v)). se_service e = n \<and> se_kind e = Client) \<longleftrightarrow>
        (\<exists>c\<in>set (collect_endpoint_candidates mode v). \<exists>d\<in>set (collect_endpoint_candidates mode v).
           service_pair mode n Writer c d))"
proof -
  let ?gs = "map snd (service_groups mode (collect_endpoint_candidates mode v))"
  have "gs_service_endpoints (assemble_snapshot mode v) = snapshot_service_endpoints ?gs"
    by (simp add: assemble_snapshot_def Let_def)
  then show ?thesis
    using server_listed [of ?gs n] service_group_iff [OF assms, of mode n Reader] service_group_iff [OF assms, of mode n Writer]
    by (simp only: Bex_def)
qed

text \<open>
  C33. A graph event reports every change exactly once. After any sequence of graph operations and
  takes, the intervals handed out follow one another without gap or overlap from the revision
  read at creation to the cursor; the event is ready exactly when a take would not answer that
  nothing changed; and an event that is not ready has handed out everything up to the current
  revision.
\<close>

theorem graph_event_tiles:
  assumes "create_graph_event between False g0 = (Inr e0, g1)" and "revision g0 \<le> revision g1"
    and "ge_run ops (g1, e0, []) = (g, e, log)"
  shows "tiles (revision g0) log (ge_cursor e) \<and> ge_cursor e \<le> revision g
    \<and> (logically_ready False g e \<longleftrightarrow> fst (ge_take False g e) \<noteq> Inr None)
    \<and> (\<not> logically_ready False g e \<longrightarrow> tiles (revision g0) log (revision g))"
proof -
  have "ge_cursor e0 = revision g0" "\<not> ge_closing e0"
    using assms(1) by (auto simp: create_graph_event_def ge_initialize_def Let_def split: prod.splits if_splits)
  then have "ge_inv (revision g0) (g1, e0, [])" using assms(2) by (simp add: ge_inv_def)
  from ge_run_inv [OF this, of ops] have inv: "ge_inv (revision g0) (g, e, log)" using assms(3) by simp
  moreover have "ge_cursor e \<noteq> revision g \<Longrightarrow> ge_cursor e < revision g" using inv by (simp add: ge_inv_def order_less_le)
  ultimately show ?thesis by (auto simp: ge_inv_def logically_ready_def ge_take_def Let_def)
qed

text \<open>
  No readiness comes silently: an operation on the graph that makes a graph event ready hands
  its subscription a notification, which wakes the wait set.
\<close>

theorem graph_event_wakes:
  assumes "graph_ok g" "ge_subscription e \<in> set (subscriptions g)" "graph_exec op g = (ns, g')"
    and "op \<noteq> GUnsubscribe (ge_subscription e)" "op \<noteq> GSubscribe \<or> next_subscription g \<noteq> u64_max"
    and "\<not> logically_ready False g e" "logically_ready False g' e"
  shows "ge_subscription e \<in> fst ` set ns"
proof (rule ccontr)
  assume "ge_subscription e \<notin> fst ` set ns"
  then have "filter (\<lambda>n. fst n = ge_subscription e) ns = []" by (force simp: filter_empty_conv)
  then have "revision g' = revision g \<and> health g' = health g"
    using silent_graph_op(2) [OF assms(1-5)] by blast
  with assms(6,7) show False by (simp add: logically_ready_def split: if_splits)
qed

definition ghost_graph :: "Qos DiscoveryGraph" where
  "ghost_graph = graph_run [GParticipant [1] Added, GRemote [1] [\<lparr>rn_namespace = ''/'', rn_name = ''n'',
     reader_gids = [], writer_gids = []\<rparr>], GParticipant [1] Removed] new_graph"

text \<open>
  The removal of a participant takes none of its nodes out of a snapshot: the nodes are listed as
  before, and a node of a participant that is gone stays listed.
\<close>

theorem departed_nodes_listed:
  "gs_nodes (assemble_snapshot mode (view (snd (graph_exec (GParticipant p Removed) g)))) =
      gs_nodes (assemble_snapshot mode (view g))
   \<and> map p_lifecycle (participants ghost_graph) = [Removed] \<and> health ghost_graph = Healthy
   \<and> gs_nodes (assemble_snapshot mode (view ghost_graph)) = [\<lparr>ni_name = ''n'', ni_namespace = ''/''\<rparr>]"
proof -
  have nodes: "gs_nodes (assemble_snapshot mode v) = snapshot_nodes v" for v
    by (simp add: assemble_snapshot_def Let_def)
  let ?c = "participant_change p Removed"
  have "local_nodes (snd (?c g)) = local_nodes g \<and> remote_nodes (snd (?c g)) = remote_nodes g"
    by (simp add: participant_change_def split: option.split)
  then have "local_nodes (snd (mutate ?c g)) = local_nodes g \<and> remote_nodes (snd (mutate ?c g)) = remote_nodes g"
    by (cases rule: mutate_cases [of g ?c]) auto
  then have "gs_nodes (assemble_snapshot mode (view (snd (graph_exec (GParticipant p Removed) g)))) =
      gs_nodes (assemble_snapshot mode (view g))"
    by (simp add: nodes snapshot_nodes_def view_def apply_participant_def)
  moreover have "map p_lifecycle (participants ghost_graph) = [Removed] \<and> health ghost_graph = Healthy
      \<and> snapshot_nodes (view ghost_graph) = [\<lparr>ni_name = ''n'', ni_namespace = ''/''\<rparr>]"
    by (simp add: ghost_graph_def graph_run_def new_graph_def apply_participant_def participant_change_def
        find_participant_def apply_remote_nodes_def remote_change_def mutate_def u64_max_def snapshot_nodes_def view_def Let_def)
  ultimately show ?thesis by (simp add: nodes)
qed

section \<open>Concrete runs\<close>

definition pair_view :: "Qos GraphView" where
  "pair_view = \<lparr>gv_revision = 4, gv_participants = [],
     gv_endpoints = map (\<lambda>(i, k, t). \<lparr>e_guid = \<lparr>guidPrefix = replicate 12 1, entityId = [0, 0, i, 4]\<rparr>, e_kind = k,
       e_topic = t, e_type = ''T'', e_qos = ros2_default, e_lifecycle = Added\<rparr>)
       [(1, Reader, ''add_Request''), (2, Writer, ''add_Reply'')],
     gv_local_nodes = [], gv_local_endpoints = [], gv_remote_nodes = []\<rparr>"

theorem listed_services_exact_witness:
  "\<exists>e\<in>set (gs_service_endpoints (assemble_snapshot DDS pair_view)). se_service e = ''/add'' \<and> se_kind e = Server"
proof -
  let ?c = "plain_candidate \<lparr>guidPrefix = replicate 12 1, entityId = [0, 0, 1, 4]\<rparr> Reader
      \<lparr>logical_name = ''/add'', ep_role = ServiceRequest\<rparr> ''T'' ros2_default"
  let ?d = "plain_candidate \<lparr>guidPrefix = replicate 12 1, entityId = [0, 0, 2, 4]\<rparr> Writer
      \<lparr>logical_name = ''/add'', ep_role = ServiceResponse\<rparr> ''T'' ros2_default"
  have cs: "collect_endpoint_candidates DDS pair_view = [?c, ?d]"
    by (simp add: collect_endpoint_candidates_def pair_view_def List.map_filter_def remote_candidate_def
        kGraphMetadataTopicName_def normalize_endpoint_name_def name_ends_with_def Let_def remote_by_gid_def plain_candidate_def)
  have "candidates_ok (collect_endpoint_candidates DDS pair_view)"
    by (simp add: cs candidates_ok_def plain_candidate_def key_of_prefix_def byte_string_def)
  moreover have "service_pair DDS ''/add'' Reader ?c ?d"
    by (simp add: service_pair_def plain_candidate_def candidate_composition_key_def)
  ultimately show ?thesis using listed_services_exact [of DDS pair_view "''/add''"] by (simp add: cs)
qed

definition event_0 :: GraphEventState where
  "event_0 = \<lparr>ge_closing = False, ge_cursor = 0, ge_subscription = 1\<rparr>"

definition observed_graph :: "nat DiscoveryGraph" where
  "observed_graph = snd (subscribe new_graph)"

theorem graph_event_tiles_witness:
  "snd (snd (ge_run [GeGraph (GAddNode ''n'' ''/''), GeTake, GeTake] (observed_graph, event_0, []))) =
     [\<lparr>previous_revision = 0, current_revision = 1\<rparr>]
   \<and> tiles 0 [\<lparr>previous_revision = 0, current_revision = 1\<rparr>] 1"
proof -
  let ?s = "ge_run [GeGraph (GAddNode ''n'' ''/''), GeTake, GeTake] (observed_graph, event_0, [])"
  have "create_graph_event (\<lambda>g. g) False (new_graph :: nat DiscoveryGraph) = (Inr event_0, observed_graph)"
    by (simp add: create_graph_event_def ge_initialize_def subscribe_def new_graph_def event_0_def observed_graph_def
        u64_max_def Let_def)
  moreover have "revision (new_graph :: nat DiscoveryGraph) \<le> revision observed_graph"
    by (simp add: new_graph_def)
  moreover have "?s = (fst ?s, fst (snd ?s), snd (snd ?s))" by simp
  moreover have log: "snd (snd ?s) = [\<lparr>previous_revision = 0, current_revision = 1\<rparr>]" "ge_cursor (fst (snd ?s)) = 1"
    by (simp_all add: ge_run_def observed_graph_def event_0_def subscribe_def new_graph_def u64_max_def add_local_node_def
        local_node_change_def mutate_def ge_take_def Let_def)
  ultimately show ?thesis
    using graph_event_tiles [of "\<lambda>g. g" new_graph event_0 observed_graph
        "[GeGraph (GAddNode ''n'' ''/''), GeTake, GeTake]"] by (simp add: new_graph_def)
qed

theorem graph_event_wakes_witness:
  "1 \<in> fst ` set (fst (graph_exec (GAddNode ''n'' ''/'') observed_graph))"
proof -
  have g: "graph_ok observed_graph"
    using graph_exec_ok [OF new_graph_ok, of GSubscribe] by (simp add: observed_graph_def)
  have "logically_ready False (snd (graph_exec (GAddNode ''n'' ''/'') observed_graph)) event_0"
    "\<not> logically_ready False observed_graph event_0" "1 \<in> set (subscriptions observed_graph)"
    by (simp_all add: logically_ready_def observed_graph_def event_0_def subscribe_def new_graph_def u64_max_def
        add_local_node_def local_node_change_def mutate_def Let_def)
  then show ?thesis
    using graph_event_wakes [OF g, of event_0 "GAddNode ''n'' ''/''", OF _ surjective_pairing] by (simp add: event_0_def)
qed

end
