(* ===== verification/GraphMetadata.thy ===== *)
theory GraphMetadata
  imports GraphSnapshot Gates
begin

text \<open>
  The metadata transport of \<^verbatim>\<open>impl/graph_metadata.cpp\<close>: every participant publishes the nodes it
  has and the endpoints of each, its peers fold what they read into their graphs, and that is how
  a candidate finds its node. The size of an rmw gid on the wire (16 or 24 bytes, a build option)
  and the primitive operations of Fast CDR are parameters.
\<close>

section \<open>What is on the wire\<close>

record RmwNodeEntitiesInfo =
  rm_namespace :: string
  rm_name :: string
  rm_reader_gids :: "Bytes list"
  rm_writer_gids :: "Bytes list"

record RmwParticipantEntitiesInfo =
  pe_gid :: Bytes
  pe_nodes :: "RmwNodeEntitiesInfo list"

definition rmw_gid_to_guid :: "Bytes \<Rightarrow> Gid" where
  "rmw_gid_to_guid gid = take 16 gid"

text \<open>A zero-initialised gid of \<open>n\<close> bytes whose first 16 are set.\<close>

definition wire_gid :: "nat \<Rightarrow> Gid \<Rightarrow> Bytes" where
  "wire_gid n gid = take 16 gid @ replicate (n - length (take 16 gid)) 0"

section \<open>Serialisation\<close>

text \<open>
  The primitive operations of Fast CDR on a writer and on a reader; reading fails (an exception)
  at the end of the data.
\<close>

record ('w, 'r) Cdr =
  put_byte :: "8 word \<Rightarrow> 'w \<Rightarrow> 'w"
  put_u32 :: "u32 \<Rightarrow> 'w \<Rightarrow> 'w"
  put_string :: "string \<Rightarrow> 'w \<Rightarrow> 'w"
  get_byte :: "'r \<Rightarrow> (8 word \<times> 'r) option"
  get_u32 :: "'r \<Rightarrow> (u32 \<times> 'r) option"
  get_string :: "'r \<Rightarrow> (string \<times> 'r) option"

definition write_gid :: "('w, 'r) Cdr \<Rightarrow> Bytes \<Rightarrow> 'w \<Rightarrow> 'w" where
  "write_gid cdr gid w = fold (put_byte cdr) gid w"

definition write_gid_sequence :: "('w, 'r) Cdr \<Rightarrow> Bytes list \<Rightarrow> 'w \<Rightarrow> 'w" where
  "write_gid_sequence cdr gids w = fold (write_gid cdr) gids (put_u32 cdr (of_nat (length gids)) w)"

definition write_node :: "('w, 'r) Cdr \<Rightarrow> RmwNodeEntitiesInfo \<Rightarrow> 'w \<Rightarrow> 'w" where
  "write_node cdr n w = write_gid_sequence cdr (rm_writer_gids n) (write_gid_sequence cdr (rm_reader_gids n)
     (put_string cdr (rm_name n) (put_string cdr (rm_namespace n) w)))"

definition write_participant_entities :: "('w, 'r) Cdr \<Rightarrow> RmwParticipantEntitiesInfo \<Rightarrow> 'w \<Rightarrow> 'w" where
  "write_participant_entities cdr v w =
     fold (write_node cdr) (pe_nodes v) (put_u32 cdr (of_nat (length (pe_nodes v))) (write_gid cdr (pe_gid v) w))"

text \<open>A loop that reads \<open>n\<close> elements.\<close>

fun read_many :: "nat \<Rightarrow> ('r \<Rightarrow> ('a \<times> 'r) option) \<Rightarrow> 'r \<Rightarrow> ('a list \<times> 'r) option" where
  "read_many 0 f r = Some ([], r)"
| "read_many (Suc n) f r = Option.bind (f r) (\<lambda>(x, r). map_option (\<lambda>(xs, r). (x # xs, r)) (read_many n f r))"

definition read_gid :: "('w, 'r) Cdr \<Rightarrow> nat \<Rightarrow> 'r \<Rightarrow> (Bytes \<times> 'r) option" where
  "read_gid cdr n r = read_many n (get_byte cdr) r"

definition read_gid_sequence :: "('w, 'r) Cdr \<Rightarrow> nat \<Rightarrow> 'r \<Rightarrow> (Bytes list \<times> 'r) option" where
  "read_gid_sequence cdr n r = Option.bind (get_u32 cdr r) (\<lambda>(k, r). read_many (unat k) (read_gid cdr n) r)"

definition read_node :: "('w, 'r) Cdr \<Rightarrow> nat \<Rightarrow> 'r \<Rightarrow> (RmwNodeEntitiesInfo \<times> 'r) option" where
  "read_node cdr n r =
     Option.bind (get_string cdr r) (\<lambda>(ns, r). Option.bind (get_string cdr r) (\<lambda>(name, r).
     Option.bind (read_gid_sequence cdr n r) (\<lambda>(readers, r). Option.bind (read_gid_sequence cdr n r) (\<lambda>(writers, r).
       Some (\<lparr>rm_namespace = ns, rm_name = name, rm_reader_gids = readers, rm_writer_gids = writers\<rparr>, r)))))"

definition read_participant_entities :: "('w, 'r) Cdr \<Rightarrow> nat \<Rightarrow> 'r \<Rightarrow> (RmwParticipantEntitiesInfo \<times> 'r) option" where
  "read_participant_entities cdr n r =
     Option.bind (read_gid cdr n r) (\<lambda>(gid, r). Option.bind (get_u32 cdr r) (\<lambda>(k, r).
     Option.bind (read_many (unat k) (read_node cdr n) r) (\<lambda>(nodes, r).
       Some (\<lparr>pe_gid = gid, pe_nodes = nodes\<rparr>, r))))"

text \<open>
  What the code relies on: \<open>stands r w f\<close> tells that the reader \<open>r\<close> of the finished data \<open>f\<close> stands
  where the writer was at \<open>w\<close>. A reader that stands where a value was written next reads that
  value and stands behind it.
\<close>

inductive written :: "('w, 'r) Cdr \<Rightarrow> 'w \<Rightarrow> 'w \<Rightarrow> bool" for cdr where
  finished: "written cdr w w"
| byte: "written cdr (put_byte cdr b w) f \<Longrightarrow> written cdr w f"
| u32: "written cdr (put_u32 cdr k w) f \<Longrightarrow> written cdr w f"
| string: "written cdr (put_string cdr s w) f \<Longrightarrow> written cdr w f"

definition cdr_reads_back :: "('w, 'r) Cdr \<Rightarrow> ('r \<Rightarrow> 'w \<Rightarrow> 'w \<Rightarrow> bool) \<Rightarrow> bool" where
  "cdr_reads_back cdr stands \<longleftrightarrow> (\<forall>r w f.
     (\<forall>b. stands r w f \<longrightarrow> written cdr (put_byte cdr b w) f \<longrightarrow>
        (\<exists>r'. get_byte cdr r = Some (b, r') \<and> stands r' (put_byte cdr b w) f)) \<and>
     (\<forall>k. stands r w f \<longrightarrow> written cdr (put_u32 cdr k w) f \<longrightarrow>
        (\<exists>r'. get_u32 cdr r = Some (k, r') \<and> stands r' (put_u32 cdr k w) f)) \<and>
     (\<forall>s. stands r w f \<longrightarrow> written cdr (put_string cdr s w) f \<longrightarrow>
        (\<exists>r'. get_string cdr r = Some (s, r') \<and> stands r' (put_string cdr s w) f)))"

section \<open>The local snapshot\<close>

definition node_gids :: "nat \<Rightarrow> 'q GraphView \<Rightarrow> LocalNodeRecord \<Rightarrow> EndpointKind \<Rightarrow> Bytes list" where
  "node_gids n v node kind = map (\<lambda>e. wire_gid n (to_gid (le_guid e)))
     (filter (\<lambda>e. le_node_id e = ln_id node \<and> le_topic e \<noteq> kGraphMetadataTopicName \<and> le_kind e = kind)
       (gv_local_endpoints v))"

definition build_local_snapshot :: "nat \<Rightarrow> 'q GraphView \<Rightarrow> Guid \<Rightarrow> RmwParticipantEntitiesInfo" where
  "build_local_snapshot n v participant =
     \<lparr>pe_gid = wire_gid n (to_gid participant),
      pe_nodes = map (\<lambda>node. \<lparr>rm_namespace = ln_namespace node, rm_name = ln_name node,
        rm_reader_gids = node_gids n v node Reader, rm_writer_gids = node_gids n v node Writer\<rparr>) (gv_local_nodes v)\<rparr>"

section \<open>Ingestion\<close>

definition remote_record :: "RmwNodeEntitiesInfo \<Rightarrow> RemoteNodeRecord" where
  "remote_record n = \<lparr>rn_namespace = rm_namespace n, rn_name = rm_name n,
     reader_gids = map rmw_gid_to_guid (rm_reader_gids n), writer_gids = map rmw_gid_to_guid (rm_writer_gids n)\<rparr>"

text \<open>One valid sample; a snapshot of this participant itself is skipped.\<close>

definition ingest_sample ::
  "Bytes \<Rightarrow> RmwParticipantEntitiesInfo \<Rightarrow> 'q DiscoveryGraph \<Rightarrow> notices \<times> 'q DiscoveryGraph" where
  "ingest_sample local_prefix sample g =
     (let guid = rmw_gid_to_guid (pe_gid sample)
      in if take 12 guid = local_prefix then ([], g)
         else apply_remote_nodes (take 12 guid) (map remote_record (pe_nodes sample)) g)"

text \<open>What the reader answers to a take; \<open>NotTaken\<close> is any return code but \<^verbatim>\<open>RETCODE_OK\<close>.\<close>

datatype Taken = Sample RmwParticipantEntitiesInfo | InvalidSample | NotTaken

text \<open>The first argument is the number of unread samples; a reader without an answer has no data.\<close>

fun ingest :: "nat \<Rightarrow> Bytes \<Rightarrow> Taken list \<Rightarrow> 'q DiscoveryGraph \<Rightarrow> notices \<times> 'q DiscoveryGraph" where
  "ingest 0 local_prefix ts g = ([], g)"
| "ingest (Suc n) local_prefix [] g = ([], g)"
| "ingest (Suc n) local_prefix (NotTaken # ts) g = ([], g)"
| "ingest (Suc n) local_prefix (InvalidSample # ts) g = ingest n local_prefix ts g"
| "ingest (Suc n) local_prefix (Sample s # ts) g =
     (let (ntc, g1) = ingest_sample local_prefix s g; (ntc', g2) = ingest n local_prefix ts g1
      in (ntc @ ntc', g2))"

section \<open>The transport\<close>

text \<open>Observers are weak references: a number each, alive or not.\<close>

record Transport =
  has_writer :: bool
  has_reader :: bool
  local_guid :: Guid
  degraded :: bool
  data_pending :: bool
  pending_observers :: "nat list"

text \<open>
  The snapshot handed to the writer, if any; \<open>write_ok\<close> is false when the write fails or throws.
\<close>

definition publish_local_snapshot ::
  "nat \<Rightarrow> bool \<Rightarrow> 'q DiscoveryGraph \<Rightarrow> Transport \<Rightarrow> RmwParticipantEntitiesInfo option \<times> Transport" where
  "publish_local_snapshot n write_ok g t =
     (if \<not> has_writer t then (None, t)
      else let snapshot = build_local_snapshot n (view g) (local_guid t)
           in if write_ok then (Some snapshot, t) else (None, t\<lparr>degraded := True\<rparr>))"

text \<open>\<open>threw\<close>: the pass ended with an exception after the given answers.\<close>

definition ingest_pending ::
  "nat \<Rightarrow> Taken list \<Rightarrow> bool \<Rightarrow> 'q DiscoveryGraph \<Rightarrow> Transport \<Rightarrow> notices \<times> 'q DiscoveryGraph \<times> Transport" where
  "ingest_pending unread ts threw g t =
     (if \<not> has_reader t then ([], g, t)
      else let (ntc, g1) = ingest unread (guidPrefix (local_guid t)) ts g
           in (ntc, g1, t\<lparr>data_pending := False, degraded := degraded t \<or> threw\<rparr>))"

text \<open>The loop prunes the dead up to an entry that is the observer itself.\<close>

fun observe_loop :: "(nat \<Rightarrow> bool) \<Rightarrow> nat \<Rightarrow> nat list \<Rightarrow> bool \<times> nat list" where
  "observe_loop alive observer [] = (False, [])"
| "observe_loop alive observer (x # xs) =
     (if alive x then if x = observer then (True, x # xs)
                      else let (found, ys) = observe_loop alive observer xs in (found, x # ys)
      else observe_loop alive observer xs)"

definition observe_pending :: "(nat \<Rightarrow> bool) \<Rightarrow> nat \<Rightarrow> Transport \<Rightarrow> Transport" where
  "observe_pending alive observer t =
     (let (found, xs) = observe_loop alive observer (pending_observers t)
      in t\<lparr>pending_observers := if found then xs else xs @ [observer]\<rparr>)"

text \<open>Returns the observers it wakes.\<close>

definition ingest_from_listener :: "(nat \<Rightarrow> bool) \<Rightarrow> Transport \<Rightarrow> nat list \<times> Transport" where
  "ingest_from_listener alive t =
     (let awake = filter alive (pending_observers t)
      in (awake, t\<lparr>data_pending := True, pending_observers := awake\<rparr>))"

section \<open>The listener\<close>

record GraphMetadataListener =
  ml_active :: bool
  ml_accepting :: bool
  ml_in_flight :: nat

definition metadata_activate :: "GraphMetadataListener \<Rightarrow> GraphMetadataListener" where
  "metadata_activate l = l\<lparr>ml_active := True\<rparr>"

definition metadata_enter :: "GraphMetadataListener \<Rightarrow> bool \<times> GraphMetadataListener" where
  "metadata_enter l = (if \<not> ml_accepting l then (False, l) else (True, l\<lparr>ml_in_flight := ml_in_flight l + 1\<rparr>))"

definition metadata_leave :: "GraphMetadataListener \<Rightarrow> GraphMetadataListener" where
  "metadata_leave l = (if ml_in_flight l \<noteq> 0 then l\<lparr>ml_in_flight := ml_in_flight l - 1\<rparr> else l)"

definition metadata_close :: "GraphMetadataListener \<Rightarrow> GraphMetadataListener" where
  "metadata_close l = l\<lparr>ml_active := False, ml_accepting := False\<rparr>"

text \<open>Also what \<^verbatim>\<open>wait_until_idle\<close> waits for.\<close>

definition metadata_idle :: "GraphMetadataListener \<Rightarrow> bool" where
  "metadata_idle l \<longleftrightarrow> ml_in_flight l = 0"

text \<open>Whether a callback that entered records the arrival; for a match, only when one was added.\<close>

definition metadata_on_data :: "GraphMetadataListener \<Rightarrow> bool" where
  "metadata_on_data l \<longleftrightarrow> ml_active l"

definition metadata_on_matched :: "int \<Rightarrow> GraphMetadataListener \<Rightarrow> bool" where
  "metadata_on_matched change l \<longleftrightarrow> 0 < change \<and> ml_active l"

interpretation metadata_gate: in_flight_gate metadata_enter metadata_leave metadata_close ml_accepting ml_in_flight
  by unfold_locales (auto simp: metadata_enter_def metadata_leave_def metadata_close_def split: if_splits)

text \<open>
  The destructor: the listener is freed only when the reader has let go of it; otherwise it is
  retained, closed, for the life of the process.
\<close>

datatype ListenerFate = ListenerFreed | ListenerRetained

definition destroy_transport :: "bool \<Rightarrow> bool \<Rightarrow> Transport \<Rightarrow> GraphMetadataListener option
    \<Rightarrow> (ListenerFate \<times> GraphMetadataListener) option" where
  "destroy_transport detach_ok detach_threw t listener = (case listener of
       None \<Rightarrow> None
     | Some l \<Rightarrow>
         let detached = has_reader t \<and> detach_ok \<and> \<not> detach_threw
         in Some (if detached then ListenerFreed else ListenerRetained, metadata_close l))"

section \<open>Creation\<close>

text \<open>
  \<^verbatim>\<open>GraphMetadataTransport::create\<close>: the answers of the calls it makes, in their order; the type
  adapter, the topic, the two QoS translations, the two endpoints and the listener.
\<close>

record CreateTransportEnv =
  adapter :: "unit result"
  acquired_topic :: "unit result"
  made_writer :: bool
  made_reader :: bool
  listener_attached :: bool

definition metadata_writer_qos :: Qos where
  "metadata_writer_qos = transient_local (reliable (snd (keep_last 1 qos_system_default)))"

definition metadata_reader_qos :: Qos where
  "metadata_reader_qos = transient_local (reliable (keep_all qos_system_default))"

definition create_transport ::
  "Duration_t \<Rightarrow> RuntimeMode \<Rightarrow> DataWriterQos \<Rightarrow> DataReaderQos \<Rightarrow> CreateTransportEnv \<Rightarrow> Guid \<Rightarrow> Transport result" where
  "create_transport forever mode writer_baseline reader_baseline answers guid =
     rbind (adapter answers) (\<lambda>_. rbind (fst (keep_last 1 qos_system_default)) (\<lambda>_.
     rbind (acquired_topic answers) (\<lambda>_.
     rbind (to_writer_qos forever metadata_writer_qos mode writer_baseline) (\<lambda>_.
     rbind (to_reader_qos forever metadata_reader_qos mode reader_baseline) (\<lambda>_.
       if \<not> made_writer answers then failure DDSError
       else if \<not> made_reader answers then failure DDSError
       else if \<not> listener_attached answers then failure DDSError
       else success \<lparr>has_writer = True, has_reader = True, local_guid = guid, degraded = False,
              data_pending = False, pending_observers = []\<rparr>)))))"

text \<open>
  \<^verbatim>\<open>Context::install_graph_metadata_transport\<close> on the transport that was created: the graph
  subscription of the transport, then the first publication.
\<close>

definition install_transport ::
  "nat \<Rightarrow> RuntimeMode \<Rightarrow> Transport result \<Rightarrow> bool \<Rightarrow> 'q DiscoveryGraph
    \<Rightarrow> ((u64 \<times> RmwParticipantEntitiesInfo option \<times> Transport) option) result \<times> 'q DiscoveryGraph" where
  "install_transport n mode created write_ok g =
     (if mode \<noteq> ROS2 then (success None, g)
      else case created of
        Inl e \<Rightarrow> (failure e, g)
      | Inr t \<Rightarrow> let (i, g1) = subscribe g
                 in if i = 0 then (failure ResourceExhausted, g1)
                    else (success (Some (i, publish_local_snapshot n write_ok g1 t)), g1))"


section \<open>Writers and their readers\<close>

text \<open>A writer of one value and the reader that gets it back and stands behind it.\<close>

definition reads_back ::
  "('w, 'r) Cdr \<Rightarrow> ('r \<Rightarrow> 'w \<Rightarrow> 'w \<Rightarrow> bool) \<Rightarrow> ('a \<Rightarrow> 'w \<Rightarrow> 'w) \<Rightarrow> ('r \<Rightarrow> ('a \<times> 'r) option) \<Rightarrow> 'a \<Rightarrow> bool" where
  "reads_back cdr stands put get x \<longleftrightarrow>
     (\<forall>w f. written cdr (put x w) f \<longrightarrow> written cdr w f) \<and>
     (\<forall>r w f. stands r w f \<longrightarrow> written cdr (put x w) f \<longrightarrow>
        (\<exists>r'. get r = Some (x, r') \<and> stands r' (put x w) f))"

lemma reads_backD:
  assumes "reads_back cdr stands put get x"
  shows "written cdr (put x w) f \<Longrightarrow> written cdr w f"
    and "stands r w f \<Longrightarrow> written cdr (put x w) f \<Longrightarrow> \<exists>r'. get r = Some (x, r') \<and> stands r' (put x w) f"
  using assms by (auto simp: reads_back_def)

lemma primitives_read_back:
  assumes "cdr_reads_back cdr stands"
  shows "reads_back cdr stands (put_byte cdr) (get_byte cdr) b" "reads_back cdr stands (put_u32 cdr) (get_u32 cdr) k"
    "reads_back cdr stands (put_string cdr) (get_string cdr) str"
  using assms unfolding reads_back_def cdr_reads_back_def by (auto intro: written.intros)

lemma many_read_back:
  "\<forall>x\<in>set xs. reads_back cdr stands put get x \<Longrightarrow> reads_back cdr stands (fold put) (read_many (length xs) get) xs"
proof (induction xs)
  case Nil
  then show ?case by (simp add: reads_back_def)
next
  case (Cons x xs)
  then have x: "reads_back cdr stands put get x" and xs: "reads_back cdr stands (fold put) (read_many (length xs) get) xs"
    by auto
  have "\<exists>r'. read_many (length (x # xs)) get r = Some (x # xs, r') \<and> stands r' (fold put (x # xs) w) f"
    if s: "stands r w f" and f: "written cdr (fold put (x # xs) w) f" for r w f
  proof -
    have f': "written cdr (fold put xs (put x w)) f" using f by simp
    obtain r1 where r1: "get r = Some (x, r1)" "stands r1 (put x w) f"
      using reads_backD(2) [OF x s reads_backD(1) [OF xs f']] by blast
    obtain r2 where "read_many (length xs) get r1 = Some (xs, r2)" "stands r2 (fold put xs (put x w)) f"
      using reads_backD(2) [OF xs r1(2) f'] by blast
    then show ?thesis using r1(1) by simp
  qed
  moreover have "written cdr (fold put (x # xs) w) f \<Longrightarrow> written cdr w f" for w f
    using reads_backD(1) [OF x, of w f] reads_backD(1) [OF xs, of "put x w" f] by simp
  ultimately show ?case by (simp add: reads_back_def)
qed

text \<open>A length and that many elements, as sequences are written.\<close>

lemma sequence_reads_back:
  assumes cdr: "cdr_reads_back cdr stands" and xs: "\<forall>x\<in>set xs. reads_back cdr stands put get x" "length xs < 2 ^ 32"
  shows "reads_back cdr stands (\<lambda>xs w. fold put xs (put_u32 cdr (of_nat (length xs)) w))
    (\<lambda>r. Option.bind (get_u32 cdr r) (\<lambda>(k, r). read_many (unat k) get r)) xs"
proof -
  note k = primitives_read_back(2) [OF cdr, of "of_nat (length xs)"]
  note many = many_read_back [OF xs(1)]
  have n: "unat (of_nat (length xs) :: u32) = length xs" using xs(2) by (simp add: take_bit_nat_eq_self unat_of_nat)
  have "\<exists>r'. Option.bind (get_u32 cdr r) (\<lambda>(k, r). read_many (unat k) get r) = Some (xs, r') \<and>
      stands r' (fold put xs (put_u32 cdr (of_nat (length xs)) w)) f"
    if s: "stands r w f" and f: "written cdr (fold put xs (put_u32 cdr (of_nat (length xs)) w)) f" for r w f
  proof -
    obtain r1 where r1: "get_u32 cdr r = Some (of_nat (length xs), r1)" "stands r1 (put_u32 cdr (of_nat (length xs)) w) f"
      using reads_backD(2) [OF k s reads_backD(1) [OF many f]] by blast
    from reads_backD(2) [OF many r1(2) f] show ?thesis using r1(1) n by simp
  qed
  then show ?thesis
    unfolding reads_back_def using reads_backD(1) [OF k] reads_backD(1) [OF many] by blast
qed

definition gid_sized :: "nat \<Rightarrow> Bytes \<Rightarrow> bool" where "gid_sized n g \<longleftrightarrow> length g = n"

definition node_sized :: "nat \<Rightarrow> RmwNodeEntitiesInfo \<Rightarrow> bool" where
  "node_sized n x \<longleftrightarrow> list_all (gid_sized n) (rm_reader_gids x @ rm_writer_gids x) \<and>
     length (rm_reader_gids x) < 2 ^ 32 \<and> length (rm_writer_gids x) < 2 ^ 32"

definition info_sized :: "nat \<Rightarrow> RmwParticipantEntitiesInfo \<Rightarrow> bool" where
  "info_sized n v \<longleftrightarrow> gid_sized n (pe_gid v) \<and> list_all (node_sized n) (pe_nodes v) \<and> length (pe_nodes v) < 2 ^ 32"

lemma gid_reads_back:
  "cdr_reads_back cdr stands \<Longrightarrow> gid_sized n g \<Longrightarrow> reads_back cdr stands (write_gid cdr) (read_gid cdr n) g"
  using many_read_back [of g cdr stands "put_byte cdr" "get_byte cdr"] primitives_read_back(1)
  unfolding gid_sized_def write_gid_def [abs_def] read_gid_def [abs_def] by auto

lemma gids_read_back:
  assumes cdr: "cdr_reads_back cdr stands" and gs: "list_all (gid_sized n) gs" "length gs < 2 ^ 32"
  shows "reads_back cdr stands (write_gid_sequence cdr) (read_gid_sequence cdr n) gs"
proof -
  have "\<forall>g\<in>set gs. reads_back cdr stands (write_gid cdr) (read_gid cdr n) g"
    using gs(1) gid_reads_back [OF cdr] by (simp add: list_all_iff)
  from sequence_reads_back [OF cdr this gs(2)] show ?thesis
    unfolding write_gid_sequence_def [abs_def] read_gid_sequence_def [abs_def] .
qed

lemma node_reads_back:
  assumes cdr: "cdr_reads_back cdr stands" and x: "node_sized n x"
  shows "reads_back cdr stands (write_node cdr) (read_node cdr n) x"
proof -
  note ns = primitives_read_back(3) [OF cdr, of "rm_namespace x"]
  note nm = primitives_read_back(3) [OF cdr, of "rm_name x"]
  have rd: "reads_back cdr stands (write_gid_sequence cdr) (read_gid_sequence cdr n) (rm_reader_gids x)"
    and wr: "reads_back cdr stands (write_gid_sequence cdr) (read_gid_sequence cdr n) (rm_writer_gids x)"
    using gids_read_back [OF cdr] x by (auto simp: node_sized_def)
  have "\<exists>r'. read_node cdr n r = Some (x, r') \<and> stands r' (write_node cdr x w) f"
    if s: "stands r w f" and f: "written cdr (write_node cdr x w) f" for r w f
  proof -
    let ?w1 = "put_string cdr (rm_namespace x) w"
    let ?w2 = "put_string cdr (rm_name x) ?w1"
    let ?w3 = "write_gid_sequence cdr (rm_reader_gids x) ?w2"
    have f4: "written cdr (write_gid_sequence cdr (rm_writer_gids x) ?w3) f" using f by (simp add: write_node_def)
    note f3 = reads_backD(1) [OF wr f4]
    note f2 = reads_backD(1) [OF rd f3]
    note f1 = reads_backD(1) [OF nm f2]
    obtain r1 where r1: "get_string cdr r = Some (rm_namespace x, r1)" "stands r1 ?w1 f"
      using reads_backD(2) [OF ns s f1] by blast
    obtain r2 where r2: "get_string cdr r1 = Some (rm_name x, r2)" "stands r2 ?w2 f"
      using reads_backD(2) [OF nm r1(2) f2] by blast
    obtain r3 where r3: "read_gid_sequence cdr n r2 = Some (rm_reader_gids x, r3)" "stands r3 ?w3 f"
      using reads_backD(2) [OF rd r2(2) f3] by blast
    from reads_backD(2) [OF wr r3(2) f4] show ?thesis
      using r1(1) r2(1) r3(1) by (auto simp: read_node_def write_node_def)
  qed
  moreover have "written cdr (write_node cdr x w) f \<Longrightarrow> written cdr w f" for w f
    unfolding write_node_def
    by (rule reads_backD(1) [OF ns], rule reads_backD(1) [OF nm], rule reads_backD(1) [OF rd], rule reads_backD(1) [OF wr])
  ultimately show ?thesis unfolding reads_back_def by blast
qed

lemma info_reads_back:
  assumes cdr: "cdr_reads_back cdr stands" and v: "info_sized n v"
  shows "reads_back cdr stands (write_participant_entities cdr) (read_participant_entities cdr n) v"
proof -
  have gid: "reads_back cdr stands (write_gid cdr) (read_gid cdr n) (pe_gid v)"
    using gid_reads_back [OF cdr] v by (simp add: info_sized_def)
  have nodes: "reads_back cdr stands (\<lambda>xs w. fold (write_node cdr) xs (put_u32 cdr (of_nat (length xs)) w))
      (\<lambda>r. Option.bind (get_u32 cdr r) (\<lambda>(k, r). read_many (unat k) (read_node cdr n) r)) (pe_nodes v)"
    by (rule sequence_reads_back [OF cdr])
       (use node_reads_back [OF cdr] v in \<open>auto simp: info_sized_def list_all_iff\<close>)
  have "\<exists>r'. read_participant_entities cdr n r = Some (v, r') \<and> stands r' (write_participant_entities cdr v w) f"
    if s: "stands r w f" and f: "written cdr (write_participant_entities cdr v w) f" for r w f
  proof -
    let ?w1 = "write_gid cdr (pe_gid v) w"
    have f2: "written cdr (fold (write_node cdr) (pe_nodes v) (put_u32 cdr (of_nat (length (pe_nodes v))) ?w1)) f"
      using f by (simp add: write_participant_entities_def)
    obtain r1 where r1: "read_gid cdr n r = Some (pe_gid v, r1)" "stands r1 ?w1 f"
      using reads_backD(2) [OF gid s reads_backD(1) [OF nodes f2]] by blast
    from reads_backD(2) [OF nodes r1(2) f2] show ?thesis
      using r1(1) by (auto simp: read_participant_entities_def write_participant_entities_def bind_eq_Some_conv)
  qed
  moreover have "written cdr (write_participant_entities cdr v w) f \<Longrightarrow> written cdr w f" for w f
    unfolding write_participant_entities_def by (rule reads_backD(1) [OF gid], rule reads_backD(1) [OF nodes])
  ultimately show ?thesis unfolding reads_back_def by blast
qed


section \<open>Nodes across the wire\<close>

lemma remote_nodes_equal_iff: "remote_nodes_equal xs ys \<longleftrightarrow> xs = ys"
  by (induction xs ys rule: remote_nodes_equal.induct) auto

lemma remote_change_nodes:
  assumes "graph_ok g" "p \<in> set (remote_nodes (snd (remote_change prefix' nodes g)))"
  shows "(rp_prefix p = prefix' \<longrightarrow> rp_nodes p = nodes) \<and> (rp_prefix p \<noteq> prefix' \<longrightarrow> p \<in> set (remote_nodes g))"
proof -
  let ?is = "\<lambda>q. rp_prefix q = prefix'"
  have d: "distinct (map rp_prefix ps) \<Longrightarrow> q \<in> set (del_first ?is ps) \<Longrightarrow> rp_prefix q \<noteq> prefix' \<and> q \<in> set ps" for q ps
    by (induction ps) (auto split: if_splits, metis imageI)
  have u: "distinct (map rp_prefix ps) \<Longrightarrow> q \<in> set (upd_first ?is (\<lambda>q. q\<lparr>rp_nodes := nodes\<rparr>) ps) \<Longrightarrow>
      (rp_prefix q = prefix' \<longrightarrow> rp_nodes q = nodes) \<and> (rp_prefix q \<noteq> prefix' \<longrightarrow> q \<in> set ps)" for q ps
    by (induction ps) (auto split: if_splits, metis imageI)
  have k: "distinct (map rp_prefix ps) \<Longrightarrow> find ?is ps = Some q \<Longrightarrow> q' \<in> set ps \<Longrightarrow> rp_prefix q' = prefix' \<Longrightarrow> q' = q" for q q' ps
    by (induction ps) (auto split: if_splits)
  have ok: "distinct (map rp_prefix (remote_nodes g))" using assms(1) by (simp add: graph_ok_def)
  show ?thesis
  proof (cases "find ?is (remote_nodes g)")
    case None
    then show ?thesis using assms(2) find_None_set [of ?is "remote_nodes g"]
      by (auto simp: remote_change_def split: if_splits)
  next
    case (Some q)
    then have "remote_nodes (snd (remote_change prefix' nodes g)) =
        (if rp_nodes q = nodes then remote_nodes g else if nodes = [] then del_first ?is (remote_nodes g)
         else upd_first ?is (\<lambda>q. q\<lparr>rp_nodes := nodes\<rparr>) (remote_nodes g))"
      by (simp add: remote_change_def remote_nodes_equal_iff)
    then show ?thesis
      using assms(2) d [OF ok, of p] u [OF ok, of p] k [OF ok Some, of p] by (auto split: if_splits)
  qed
qed

lemma remote_change_present:
  assumes "nodes \<noteq> []"
  shows "\<exists>p\<in>set (remote_nodes (snd (remote_change prefix' nodes g))). rp_prefix p = prefix' \<and> rp_nodes p = nodes"
proof (cases "find (\<lambda>q. rp_prefix q = prefix') (remote_nodes g)")
  case None
  then show ?thesis using assms by (simp add: remote_change_def)
next
  case (Some q)
  then have q: "q \<in> set (remote_nodes g)" "rp_prefix q = prefix'" by (auto dest: find_Some_set)
  have "find (\<lambda>q. rp_prefix q = prefix') ps = Some q \<Longrightarrow>
      q\<lparr>rp_nodes := nodes\<rparr> \<in> set (upd_first (\<lambda>q. rp_prefix q = prefix') (\<lambda>p. p\<lparr>rp_nodes := nodes\<rparr>) ps)" for ps
    by (induction ps) (auto split: if_splits)
  from this [OF Some] show ?thesis
    using assms Some q by (auto simp: remote_change_def remote_nodes_equal_iff intro!: bexI [of _ "q\<lparr>rp_nodes := nodes\<rparr>"])
qed

lemma mutate_healthy:
  assumes "mutate c g = (ns, g')" "health g' = Healthy" "health g = Healthy"
  shows "remote_nodes g' = remote_nodes (snd (c g))"
  using assms by (cases rule: mutate_cases [of g c]) auto

lemma wire_gid_back: "16 \<le> n \<Longrightarrow> gid_ok gid \<Longrightarrow> rmw_gid_to_guid (wire_gid n gid) = gid"
  by (simp add: rmw_gid_to_guid_def wire_gid_def gid_ok_def)

lemma remote_by_gid_mem:
  "(gid, m) \<in> set (remote_by_gid v) \<longleftrightarrow>
     (\<exists>p\<in>set (gv_remote_nodes v). m \<in> set (rp_nodes p) \<and> gid \<in> set (reader_gids m @ writer_gids m))"
  by (auto simp: remote_by_gid_def)

text \<open>The node that the snapshot of a view gives to an endpoint.\<close>

lemma snapshot_node_gids:
  assumes n: "16 \<le> n" and ok: "\<forall>e\<in>set (gv_local_endpoints v). guid_ok (le_guid e)"
    and m: "m \<in> set (map remote_record (pe_nodes (build_local_snapshot n v p)))"
  shows "\<exists>node\<in>set (gv_local_nodes v). rn_name m = ln_name node \<and> rn_namespace m = ln_namespace node \<and>
    set (reader_gids m @ writer_gids m) =
      {to_gid (le_guid e) |e. e \<in> set (gv_local_endpoints v) \<and> le_node_id e = ln_id node \<and> le_topic e \<noteq> kGraphMetadataTopicName}"
proof -
  from m obtain node where node: "node \<in> set (gv_local_nodes v)"
      "m = remote_record \<lparr>rm_namespace = ln_namespace node, rm_name = ln_name node,
        rm_reader_gids = node_gids n v node Reader, rm_writer_gids = node_gids n v node Writer\<rparr>"
    by (auto simp: build_local_snapshot_def)
  have same: "rmw_gid_to_guid (wire_gid n (to_gid (le_guid e))) = to_gid (le_guid e)" if "e \<in> set (gv_local_endpoints v)" for e
    using wire_gid_back [OF n] to_gid_ok ok that by blast
  have "rmw_gid_to_guid ` set (node_gids n v node kind) = {to_gid (le_guid e) |e. e \<in> set (gv_local_endpoints v) \<and>
      le_node_id e = ln_id node \<and> le_topic e \<noteq> kGraphMetadataTopicName \<and> le_kind e = kind}" for kind
    using same by (force simp: node_gids_def)
  then have "set (reader_gids m @ writer_gids m) =
      {to_gid (le_guid e) |e. e \<in> set (gv_local_endpoints v) \<and> le_node_id e = ln_id node \<and>
        le_topic e \<noteq> kGraphMetadataTopicName \<and> (le_kind e = Reader \<or> le_kind e = Writer)}"
    by (auto simp: node(2) remote_record_def)
  moreover have "k = Reader \<or> k = Writer" for k by (cases k) simp_all
  ultimately show ?thesis using node by (auto simp: remote_record_def)
qed

section \<open>What is published\<close>

lemma snapshot_cong:
  assumes "observable g' = observable g"
  shows "build_local_snapshot n (view g') p = build_local_snapshot n (view g) p"
proof -
  let ?id = "\<lambda>node. (ln_id node, ln_name node, ln_namespace node)"
  let ?gids = "\<lambda>es i kind. map (\<lambda>e. wire_gid n (to_gid (le_guid e)))
     (filter (\<lambda>e. le_node_id e = i \<and> le_topic e \<noteq> kGraphMetadataTopicName \<and> le_kind e = kind) es)"
  let ?node = "\<lambda>es (i, name, ns). \<lparr>rm_namespace = ns, rm_name = name, rm_reader_gids = ?gids es i Reader,
     rm_writer_gids = ?gids es i Writer\<rparr>"
  have "pe_nodes (build_local_snapshot n (view g) p) = map (?node (local_endpoints g)) (map ?id (local_nodes g))"
    for g :: "'a DiscoveryGraph"
    by (simp add: build_local_snapshot_def node_gids_def view_def)
  moreover have "local_endpoints g' = local_endpoints g" "map ?id (local_nodes g') = map ?id (local_nodes g)"
    using assms by (simp_all add: observable_def)
  ultimately have "pe_nodes (build_local_snapshot n (view g') p) = pe_nodes (build_local_snapshot n (view g) p)"
    by (simp only:)
  then show ?thesis by (simp add: build_local_snapshot_def)
qed

record 'q PublishSys =
  pub_graph :: "'q DiscoveryGraph"
  pub_owed :: nat
  last_written :: "RmwParticipantEntitiesInfo option"

text \<open>
  A change of the graph notifies the transport's subscription \<open>i\<close>, and each notification
  publishes, except on the thread that folds in a remote snapshot. The writes succeed.
\<close>

inductive publish_step :: "nat \<Rightarrow> u64 \<Rightarrow> Transport \<Rightarrow> 'q PublishSys \<Rightarrow> 'q PublishSys \<Rightarrow> bool" for n i t where
  change: "graph_exec op (pub_graph s) = (ns, g) \<Longrightarrow> op \<noteq> GUnsubscribe i \<Longrightarrow>
    op \<noteq> GSubscribe \<or> next_subscription (pub_graph s) \<noteq> u64_max \<Longrightarrow>
    publish_step n i t s (s\<lparr>pub_graph := g, pub_owed := pub_owed s + length (filter (\<lambda>n. fst n = i) ns)\<rparr>)"
| ingested: "publish_step n i t s (s\<lparr>pub_graph := snd (ingest_sample (guidPrefix (local_guid t)) sample (pub_graph s))\<rparr>)"
| publish: "pub_owed s = Suc k \<Longrightarrow>
    publish_step n i t s (s\<lparr>pub_owed := k, last_written := fst (publish_local_snapshot n True (pub_graph s) t)\<rparr>)"

inductive publish_reach :: "nat \<Rightarrow> u64 \<Rightarrow> Transport \<Rightarrow> 'q PublishSys \<Rightarrow> 'q PublishSys \<Rightarrow> bool" for n i t s0 where
  start: "publish_reach n i t s0 s0"
| step: "publish_reach n i t s0 s \<Longrightarrow> publish_step n i t s s' \<Longrightarrow> publish_reach n i t s0 s'"

definition publish_inv :: "nat \<Rightarrow> u64 \<Rightarrow> Transport \<Rightarrow> 'q PublishSys \<Rightarrow> bool" where
  "publish_inv n i t s \<longleftrightarrow> graph_ok (pub_graph s) \<and> i \<in> set (subscriptions (pub_graph s)) \<and>
     (pub_owed s = 0 \<longrightarrow> last_written s = Some (build_local_snapshot n (view (pub_graph s)) (local_guid t)))"

lemma ingest_sample_frame:
  "local_frame g (snd (ingest_sample p s g)) \<and> subscriptions (snd (ingest_sample p s g)) = subscriptions g
   \<and> (graph_ok g \<longrightarrow> graph_ok (snd (ingest_sample p s g)))"
proof -
  let ?c = "remote_change (take 12 (rmw_gid_to_guid (pe_gid s))) (map remote_record (pe_nodes s))"
  have "local_frame g (snd (mutate ?c g)) \<and> subscriptions (snd (mutate ?c g)) = subscriptions g"
    using remote_change_frame(3) [of g "take 12 (rmw_gid_to_guid (pe_gid s))" "map remote_record (pe_nodes s)"]
      change_frame [of "GRemote (take 12 (rmw_gid_to_guid (pe_gid s))) (map remote_record (pe_nodes s))" ?c g]
    by (cases rule: mutate_cases [of g ?c]) (auto simp: local_frame_def)
  moreover have "graph_ok g \<longrightarrow> graph_ok (snd (mutate ?c g))"
    using mutate_ok [of g ?c] remote_change_ok by blast
  ultimately show ?thesis by (simp add: ingest_sample_def apply_remote_nodes_def Let_def local_frame_def)
qed

lemma publish_step_inv:
  assumes "publish_step n i t s s'" "publish_inv n i t s" "has_writer t"
  shows "publish_inv n i t s'"
  using assms(1)
proof (cases rule: publish_step.cases)
  case (change op ns g)
  have inv: "graph_ok (pub_graph s)" "i \<in> set (subscriptions (pub_graph s))" using assms(2) by (simp_all add: publish_inv_def)
  note silent = silent_graph_op [OF inv change(2-4)]
  have "graph_ok g" using graph_exec_ok [OF inv(1), of op] change(2) by simp
  moreover have "pub_owed s = 0 \<and> filter (\<lambda>n. fst n = i) ns = [] \<longrightarrow>
      last_written s = Some (build_local_snapshot n (view g) (local_guid t))"
    using silent(2) assms(2) snapshot_cong [of g "pub_graph s" n "local_guid t"] by (auto simp: publish_inv_def)
  ultimately show ?thesis using silent(1) by (simp add: publish_inv_def change(1))
next
  case (ingested sample)
  let ?g = "snd (ingest_sample (guidPrefix (local_guid t)) sample (pub_graph s))"
  have "build_local_snapshot n (view ?g) (local_guid t) = build_local_snapshot n (view (pub_graph s)) (local_guid t)"
    using ingest_sample_frame [of "pub_graph s" "guidPrefix (local_guid t)" sample]
    by (simp add: build_local_snapshot_def node_gids_def view_def local_frame_def)
  then show ?thesis
    using assms(2) ingest_sample_frame [of "pub_graph s" "guidPrefix (local_guid t)" sample]
    by (simp add: publish_inv_def ingested)
next
  case (publish k)
  then show ?thesis using assms(2,3) by (simp add: publish_inv_def publish_local_snapshot_def Let_def)
qed

lemma publish_reach_inv:
  "publish_reach n i t s0 s \<Longrightarrow> publish_inv n i t s0 \<Longrightarrow> has_writer t \<Longrightarrow> publish_inv n i t s"
  by (induction rule: publish_reach.induct) (auto intro: publish_step_inv)


section \<open>Properties\<close>

text \<open>
  What a participant publishes is read back as it was written: over any codec that gives back
  the primitive values in the order they were written, the reader of a participant snapshot
  returns the snapshot and stands behind it, whatever follows.
\<close>

theorem metadata_round_trip:
  assumes "cdr_reads_back cdr stands" and "info_sized n v" and "stands r w f"
    and "written cdr (write_participant_entities cdr v w) f"
  shows "\<exists>r'. read_participant_entities cdr n r = Some (v, r') \<and> stands r' (write_participant_entities cdr v w) f"
  using reads_backD(2) [OF info_reads_back [OF assms(1,2)] assms(3,4)] .

text \<open>
  C26. An endpoint finds its node across the wire: when a peer whose graph stays healthy folds in the
  snapshot of a participant, every public endpoint of that participant is associated in the
  peer's graph with the node it has at home, provided no other participant claims its gid.
\<close>

theorem association_crosses_the_wire:
  assumes home: "graph_ok home" "list_all (\<lambda>e. guid_ok (le_guid e)) (local_endpoints home)" "16 \<le> n" "guid_ok participant"
    and e: "e \<in> set (local_endpoints home)" "le_topic e \<noteq> kGraphMetadataTopicName"
    and node: "node \<in> set (local_nodes home)" "ln_id node = le_node_id e"
    and peer: "graph_ok g" "health g = Healthy" "guidPrefix participant \<noteq> own_prefix"
      "ingest_sample own_prefix (build_local_snapshot n (view home) participant) g = (ns, g')" "health g' = Healthy"
    and other: "\<not> list_ex (\<lambda>p. rp_prefix p \<noteq> guidPrefix participant \<and>
      list_ex (\<lambda>m. to_gid (le_guid e) \<in> set (reader_gids m @ writer_gids m)) (rp_nodes p)) (remote_nodes g)"
  shows "\<exists>m. map_of (remote_by_gid (view g')) (to_gid (le_guid e)) = Some m \<and>
    rn_name m = ln_name node \<and> rn_namespace m = ln_namespace node"
proof -
  let ?gid = "to_gid (le_guid e)" and ?nodes = "map remote_record (pe_nodes (build_local_snapshot n (view home) participant))"
  have guid: "rmw_gid_to_guid (wire_gid n (to_gid participant)) = to_gid participant"
    using wire_gid_back [OF home(3) to_gid_ok [OF home(4)]] .
  have prefix': "take 12 (to_gid participant) = guidPrefix participant"
    using home(4) by (simp add: to_gid_def guid_ok_def)
  have "mutate (remote_change (guidPrefix participant) ?nodes) g = (ns, g')"
    using peer(3,4) guid prefix' by (simp add: ingest_sample_def build_local_snapshot_def apply_remote_nodes_def Let_def)
  from mutate_healthy [OF this peer(5,2)]
  have after: "remote_nodes g' = remote_nodes (snd (remote_change (guidPrefix participant) ?nodes g))" .
  have ok: "\<forall>e\<in>set (gv_local_endpoints (view home)). guid_ok (le_guid e)"
    using home(2) by (simp add: view_def list_all_iff)
  note gids = snapshot_node_gids [OF home(3) ok]
  let ?m = "remote_record \<lparr>rm_namespace = ln_namespace node, rm_name = ln_name node,
      rm_reader_gids = node_gids n (view home) node Reader, rm_writer_gids = node_gids n (view home) node Writer\<rparr>"
  have m: "?m \<in> set ?nodes" using node(1) by (auto simp: build_local_snapshot_def view_def)
  have in_m: "?gid \<in> set (reader_gids ?m @ writer_gids ?m)"
  proof -
    have "rmw_gid_to_guid (wire_gid n ?gid) = ?gid"
      using wire_gid_back [OF home(3)] to_gid_ok home(2) e(1) by (auto simp: list_all_iff)
    moreover have "wire_gid n ?gid \<in> set (node_gids n (view home) node (le_kind e))"
      using e node(2) by (auto simp: node_gids_def view_def)
    ultimately have "?gid \<in> rmw_gid_to_guid ` set (node_gids n (view home) node (le_kind e))" by (metis imageI)
    then show ?thesis by (cases "le_kind e") (auto simp: remote_record_def)
  qed
  obtain p where p: "p \<in> set (remote_nodes g')" "rp_nodes p = ?nodes"
    using remote_change_present [of ?nodes "guidPrefix participant" g] m unfolding after by fastforce
  have listed: "gv_remote_nodes (view g') = remote_nodes g'" by (simp add: view_def)
  have "(?gid, ?m) \<in> set (remote_by_gid (view g'))"
    unfolding remote_by_gid_mem listed using p m in_m by metis
  then obtain m' where m': "map_of (remote_by_gid (view g')) ?gid = Some m'"
    by (metis map_of_eq_None_iff image_eqI fst_conv not_None_eq)
  from map_of_SomeD [OF this] obtain q where q: "q \<in> set (remote_nodes g')" "m' \<in> set (rp_nodes q)"
      "?gid \<in> set (reader_gids m' @ writer_gids m')"
    unfolding remote_by_gid_mem by (auto simp: view_def)
  have "rp_prefix q = guidPrefix participant"
  proof (rule ccontr)
    assume "rp_prefix q \<noteq> guidPrefix participant"
    with remote_change_nodes [OF peer(1) q(1) [unfolded after]] have "q \<in> set (remote_nodes g)" by simp
    with other q \<open>rp_prefix q \<noteq> guidPrefix participant\<close> show False by (auto simp: list_ex_iff)
  qed
  then have "m' \<in> set ?nodes" using remote_change_nodes [OF peer(1) q(1) [unfolded after]] q(2) by simp
  from gids [OF this] obtain node' where node': "node' \<in> set (local_nodes home)" "rn_name m' = ln_name node'"
      "rn_namespace m' = ln_namespace node'"
    and claims: "set (reader_gids m' @ writer_gids m') = {to_gid (le_guid d) |d. d \<in> set (local_endpoints home) \<and>
      le_node_id d = ln_id node' \<and> le_topic d \<noteq> kGraphMetadataTopicName}"
    by (auto simp: view_def)
  obtain d where d: "d \<in> set (local_endpoints home)" "le_node_id d = ln_id node'" "?gid = to_gid (le_guid d)"
    using q(3) unfolding claims by blast
  have "le_guid d = le_guid e"
    using d(1,3) e(1) home(2) to_gid_inject [of "le_guid d" "le_guid e"] by (simp add: list_all_iff)
  then have "d = e" using home(1) d(1) e(1) by (auto simp: graph_ok_def distinct_map inj_on_eq_iff)
  then have "node' = node"
    using d(2) node node'(1) home(1) by (auto simp: graph_ok_def distinct_map inj_on_eq_iff)
  with m' node'(2,3) show ?thesis by blast
qed

text \<open>
  C31. The published snapshot catches up: under every interleaving of local changes, of remote
  snapshots that are folded in and of publications, once no publication is on its way the last
  snapshot written is that of the current graph.
\<close>

theorem published_snapshot_current:
  assumes "publish_reach n i t s0 s" "publish_inv n i t s0" "has_writer t" "pub_owed s = 0"
  shows "last_written s = Some (build_local_snapshot n (view (pub_graph s)) (local_guid t))"
  using publish_reach_inv [OF assms(1-3)] assms(4) by (simp add: publish_inv_def)

text \<open>
  After the transport has drained its listener no callback of the reader runs, and none ever
  runs again; and the listener is freed only when the reader let go of it.
\<close>

theorem metadata_listener_final:
  assumes "gate_run metadata_enter metadata_leave metadata_close (before @ Close # mid)
      (\<lparr>ml_active = a, ml_accepting = True, ml_in_flight = 0\<rparr>, {}) = (l', A')" "metadata_idle l'"
  shows "snd (gate_run metadata_enter metadata_leave metadata_close (before @ Close # mid @ rest)
      (\<lparr>ml_active = a, ml_accepting = True, ml_in_flight = 0\<rparr>, {})) = {}
    \<and> (\<not> (has_reader t \<and> detach_ok \<and> \<not> detach_threw) \<longrightarrow>
        destroy_transport detach_ok detach_threw t (Some l) = Some (ListenerRetained, metadata_close l))"
  using metadata_gate.drained_for_good [OF _ assms(1)] assms(2)
  by (auto simp: metadata_idle_def destroy_transport_def)


section \<open>Concrete runs\<close>

text \<open>A codec that keeps the values themselves.\<close>

datatype CdrItem = CByte "8 word" | CU32 u32 | CString string

definition list_codec :: "(CdrItem list, CdrItem list) Cdr" where
  "list_codec =
     \<lparr>put_byte = (\<lambda>b w. w @ [CByte b]), put_u32 = (\<lambda>k w. w @ [CU32 k]), put_string = (\<lambda>s w. w @ [CString s]),
      get_byte = (\<lambda>r. case r of CByte b # r \<Rightarrow> Some (b, r) | _ \<Rightarrow> None),
      get_u32 = (\<lambda>r. case r of CU32 k # r \<Rightarrow> Some (k, r) | _ \<Rightarrow> None),
      get_string = (\<lambda>r. case r of CString s # r \<Rightarrow> Some (s, r) | _ \<Rightarrow> None)\<rparr>"

lemma list_codec_written: "written list_codec w f \<Longrightarrow> \<exists>t. f = w @ t"
  by (induction rule: written.induct) (auto simp: list_codec_def)

lemma list_codec_reads_back: "cdr_reads_back list_codec (\<lambda>r w f. f = w @ r)"
proof -
  have ops: "put_byte list_codec b w = w @ [CByte b]" "put_u32 list_codec k w = w @ [CU32 k]"
    "put_string list_codec s w = w @ [CString s]" "get_byte list_codec (CByte b # r) = Some (b, r)"
    "get_u32 list_codec (CU32 k # r) = Some (k, r)" "get_string list_codec (CString s # r) = Some (s, r)"
    for b k s w r by (simp_all add: list_codec_def)
  have "written list_codec (w @ [x]) (w @ r) \<Longrightarrow> \<exists>r'. r = x # r'" for w x r
    using list_codec_written [of "w @ [x]" "w @ r"] by auto
  then show ?thesis unfolding cdr_reads_back_def ops by (metis append.assoc append_Cons append_Nil ops(4-6))
qed

definition info_1 :: RmwParticipantEntitiesInfo where
  "info_1 = \<lparr>pe_gid = replicate 16 7, pe_nodes = [\<lparr>rm_namespace = ''/'', rm_name = ''n'',
     rm_reader_gids = [replicate 16 8], rm_writer_gids = []\<rparr>]\<rparr>"

theorem metadata_round_trip_witness:
  "read_participant_entities list_codec 16 (write_participant_entities list_codec info_1 []) = Some (info_1, [])"
proof -
  let ?f = "write_participant_entities list_codec info_1 []"
  have "info_sized 16 info_1" by (simp add: info_sized_def info_1_def gid_sized_def node_sized_def)
  from metadata_round_trip [OF list_codec_reads_back this, where r = ?f and f = ?f and w = "[]"] show ?thesis
    by (auto simp: written.finished)
qed

definition home_1 :: "nat DiscoveryGraph" where
  "home_1 = graph_run [GAddNode ''n'' ''/'',
     GAddLocal \<lparr>guidPrefix = replicate 12 1, entityId = [0, 0, 1, 4]\<rparr> Reader ''rt/t'' ''T'' 1 5] new_graph"

lemma home_1_ok: "graph_ok home_1"
  unfolding home_1_def by (rule graph_run_ok [OF new_graph_ok])

lemma home_1_state:
  "local_nodes home_1 = [\<lparr>ln_id = 1, ln_name = ''n'', ln_namespace = ''/'', references = 2\<rparr>]"
  "local_endpoints home_1 = [\<lparr>le_guid = \<lparr>guidPrefix = replicate 12 1, entityId = [0, 0, 1, 4]\<rparr>, le_kind = Reader,
     le_topic = ''rt/t'', le_type = ''T'', le_qos = 5, le_node_id = 1\<rparr>]"
  by (simp_all add: home_1_def graph_run_def new_graph_def add_local_node_def local_node_change_def mutate_def
      u64_max_def add_local_endpoint_def local_endpoint_change_def Let_def)

definition participant_1 :: Guid where
  "participant_1 = \<lparr>guidPrefix = replicate 12 1, entityId = [0, 0, 1, 0xC1]\<rparr>"

theorem association_crosses_the_wire_witness:
  "\<exists>m. map_of (remote_by_gid (view (snd (ingest_sample (replicate 12 2)
       (build_local_snapshot 24 (view home_1) participant_1) (new_graph :: nat DiscoveryGraph)))))
     (replicate 12 1 @ [0, 0, 1, 4]) = Some m \<and> rn_name m = ''n'' \<and> rn_namespace m = ''/''"
proof -
  let ?e = "\<lparr>le_guid = \<lparr>guidPrefix = replicate 12 1, entityId = [0, 0, 1, 4]\<rparr>, le_kind = Reader,
     le_topic = ''rt/t'', le_type = ''T'', le_qos = 5, le_node_id = 1\<rparr> :: nat LocalEndpointRecord"
  let ?node = "\<lparr>ln_id = 1, ln_name = ''n'', ln_namespace = ''/'', references = 2\<rparr>"
  let ?s = "build_local_snapshot 24 (view home_1) participant_1"
  let ?r = "ingest_sample (replicate 12 2) ?s (new_graph :: nat DiscoveryGraph)"
  have h: "health (snd ?r) = Healthy"
    by (simp add: ingest_sample_def apply_remote_nodes_def mutate_def remote_change_def new_graph_def u64_max_def
        Let_def split: if_splits)
  have "list_all (\<lambda>e. guid_ok (le_guid e)) (local_endpoints home_1)" "guid_ok participant_1"
    by (simp_all add: home_1_state guid_ok_def participant_1_def)
  moreover have "?e \<in> set (local_endpoints home_1)" "?node \<in> set (local_nodes home_1)" "ln_id ?node = le_node_id ?e"
    "le_topic ?e \<noteq> kGraphMetadataTopicName" "guidPrefix participant_1 \<noteq> replicate 12 2"
    by (simp_all add: home_1_state kGraphMetadataTopicName_def participant_1_def)
  moreover have "health (new_graph :: nat DiscoveryGraph) = Healthy" "remote_nodes (new_graph :: nat DiscoveryGraph) = []"
    by (simp_all add: new_graph_def)
  ultimately show ?thesis
    using association_crosses_the_wire [where home = home_1 and n = 24 and participant = participant_1 and e = ?e
        and node = ?node and g = new_graph and own_prefix = "replicate 12 2" and ns = "fst ?r" and g' = "snd ?r"]
      home_1_ok new_graph_ok h
    by (simp add: to_gid_def)
qed

definition transport_1 :: Transport where
  "transport_1 = \<lparr>has_writer = True, has_reader = True, local_guid = participant_1, degraded = False,
     data_pending = False, pending_observers = []\<rparr>"

theorem published_snapshot_current_witness:
  "fst (publish_local_snapshot 16 True home_1 transport_1) = Some (build_local_snapshot 16 (view home_1) participant_1)"
proof -
  let ?g = "snd (subscribe home_1)"
  let ?s = "\<lparr>pub_graph = ?g, pub_owed = 1, last_written = None\<rparr>"
  let ?t = "?s\<lparr>pub_owed := 0, last_written := fst (publish_local_snapshot 16 True (pub_graph ?s) transport_1)\<rparr>"
  have sub: "next_subscription home_1 = 0"
    by (simp add: home_1_def graph_run_def new_graph_def add_local_node_def local_node_change_def mutate_def
        u64_max_def add_local_endpoint_def local_endpoint_change_def Let_def)
  have ok: "graph_ok ?g" using graph_exec_ok [OF home_1_ok, of GSubscribe] by simp
  have "publish_step 16 1 transport_1 ?s ?t" by (rule publish_step.publish) simp
  then have "publish_reach 16 1 transport_1 ?s ?t" by (meson publish_reach.intros)
  moreover have "publish_inv 16 1 transport_1 ?s"
    using ok sub by (simp add: publish_inv_def subscribe_def u64_max_def Let_def)
  ultimately have "last_written ?t = Some (build_local_snapshot 16 (view (pub_graph ?t)) (local_guid transport_1))"
    using published_snapshot_current [of 16 1 transport_1 ?s ?t] by (simp add: transport_1_def)
  moreover have "local_nodes ?g = local_nodes home_1" "local_endpoints ?g = local_endpoints home_1"
    by (simp_all add: subscribe_def Let_def)
  ultimately show ?thesis
    by (simp add: publish_local_snapshot_def transport_1_def build_local_snapshot_def node_gids_def view_def Let_def)
qed

theorem metadata_listener_final_witness:
  "snd (gate_run metadata_enter metadata_leave metadata_close ([Enter 1] @ Close # [Leave 1] @ [Enter 2])
     (\<lparr>ml_active = True, ml_accepting = True, ml_in_flight = 0\<rparr>, {})) = {}"
  using metadata_listener_final [of "[Enter 1]" "[Leave 1]" True
      "\<lparr>ml_active = False, ml_accepting = False, ml_in_flight = 0\<rparr>" "{}" "[Enter 2]" transport_1 True True]
  by (simp add: metadata_enter_def metadata_leave_def metadata_close_def metadata_idle_def)

end
