(* ===== verification/Endpoints.thy ===== *)
theory Endpoints
  imports ServerFsm Qos Clocks
begin

text \<open>
  The endpoints a user holds: \<^verbatim>\<open>impl/publisher_impl.cpp\<close>, \<^verbatim>\<open>impl/subscriber_impl.cpp\<close>,
  \<^verbatim>\<open>impl/client_impl.cpp\<close>, the actual QoS of a server and the scratch sample of
  \<^verbatim>\<open>impl/temporary_sample.hpp\<close>. What Fast DDS answers to a call is an argument; \<open>shut\<close> tells
  whether the operation guard was refused, \<open>null\<close> whether the caller's pointer is null.
\<close>

section \<open>Queries\<close>

text \<open>The operation guard, then the return code of the one call made.\<close>

definition admitted :: "bool \<Rightarrow> 'a result \<Rightarrow> 'a result" where
  "admitted shut r = (if shut then failure ContextShutdown else r)"

definition checked :: "ReturnCode \<Rightarrow> 'a \<Rightarrow> 'a result" where
  "checked code x = (if code \<noteq> RETCODE_OK then failure (to_return_code code) else success x)"

definition publisher_write :: "bool \<Rightarrow> bool \<Rightarrow> ReturnCode \<Rightarrow> unit result" where
  "publisher_write null shut code = (if null then failure InvalidArgument else admitted shut (checked code ()))"

text \<open>The count is an \<^verbatim>\<open>int32_t\<close> cast to \<^verbatim>\<open>std::size_t\<close>.\<close>

definition matched_subscriber_count :: "bool \<Rightarrow> ReturnCode \<Rightarrow> int \<Rightarrow> u64 result" where
  "matched_subscriber_count shut code current = admitted shut (checked code (word_of_int current))"

definition matched_publisher_count :: "bool \<Rightarrow> ReturnCode \<Rightarrow> int \<Rightarrow> u64 result" where
  "matched_publisher_count shut code current = admitted shut (checked code (word_of_int current))"

definition publisher_actual_qos :: "(Duration_t \<Rightarrow> bool) \<Rightarrow> bool \<Rightarrow> ReturnCode \<Rightarrow> DataWriterQos \<Rightarrow> Qos result" where
  "publisher_actual_qos is_inf shut code q = admitted shut (rbind (checked code q) (from_neutral_qos is_inf))"

definition subscriber_actual_qos :: "(Duration_t \<Rightarrow> bool) \<Rightarrow> bool \<Rightarrow> ReturnCode \<Rightarrow> DataReaderQos \<Rightarrow> Qos result" where
  "subscriber_actual_qos is_inf shut code q = admitted shut (rbind (checked code q) (from_neutral_qos is_inf))"

definition client_request_actual_qos :: "(Duration_t \<Rightarrow> bool) \<Rightarrow> bool \<Rightarrow> ReturnCode \<Rightarrow> DataWriterQos \<Rightarrow> Qos result" where
  "client_request_actual_qos is_inf shut code q = admitted shut (rbind (checked code q) (from_neutral_qos is_inf))"

definition client_response_actual_qos :: "(Duration_t \<Rightarrow> bool) \<Rightarrow> bool \<Rightarrow> ReturnCode \<Rightarrow> DataReaderQos \<Rightarrow> Qos result" where
  "client_response_actual_qos is_inf shut code q = admitted shut (rbind (checked code q) (from_neutral_qos is_inf))"

definition server_request_actual_qos :: "(Duration_t \<Rightarrow> bool) \<Rightarrow> bool \<Rightarrow> ReturnCode \<Rightarrow> DataReaderQos \<Rightarrow> Qos result" where
  "server_request_actual_qos is_inf shut code q = admitted shut (rbind (checked code q) (from_neutral_qos is_inf))"

definition server_response_actual_qos :: "(Duration_t \<Rightarrow> bool) \<Rightarrow> bool \<Rightarrow> ReturnCode \<Rightarrow> DataWriterQos \<Rightarrow> Qos result" where
  "server_response_actual_qos is_inf shut code q = admitted shut (rbind (checked code q) (from_neutral_qos is_inf))"

text \<open>The query of the actual QoS takes a guard of its own, \<open>shut_query\<close>.\<close>

definition assert_liveliness ::
  "(Duration_t \<Rightarrow> bool) \<Rightarrow> bool \<Rightarrow> bool \<Rightarrow> ReturnCode \<Rightarrow> DataWriterQos \<Rightarrow> ReturnCode \<Rightarrow> unit result" where
  "assert_liveliness is_inf shut shut_query query q code =
     admitted shut (rbind (publisher_actual_qos is_inf shut_query query q) (\<lambda>actual.
       if liveliness actual \<noteq> ManualByTopic then failure InvalidState else checked code ()))"

section \<open>Waiting for acknowledgments\<close>

text \<open>
  One turn of the loop: what it sees of the shutdown flag and of the steady clock, and what
  \<^verbatim>\<open>wait_for_acknowledgments\<close> answers.
\<close>

record AckedTurn =
  at_shutdown :: bool
  at_now :: int
  at_code :: ReturnCode

definition shutdown_check_interval :: int where
  "shutdown_check_interval = 20000000"

fun finite_timeout :: "WaitTimeout \<Rightarrow> bool" where
  "finite_timeout (Finite d) = True"
| "finite_timeout _ = False"

text \<open>
  The waits handed to Fast DDS, as seconds and nanoseconds, and what the loop returns; \<open>None\<close>
  while it has not returned after the given turns. The deadline and the clock are not negative,
  so their difference does not overflow; the duration is not negative either.
\<close>

fun acked_loop :: "WaitTimeout \<Rightarrow> int \<Rightarrow> AckedTurn list \<Rightarrow> (int \<times> int) list \<times> bool result option" where
  "acked_loop timeout deadline [] = ([], None)"
| "acked_loop timeout deadline (t # ts) =
     (let remaining = (if finite_timeout timeout then deadline - at_now t else shutdown_check_interval);
          wait = (if timeout = Poll then 0 else min remaining shutdown_check_interval);
          secs = wait div 1000000000; nanos = wait mod 1000000000
      in if at_shutdown t then ([], Some (failure ContextShutdown))
         else if finite_timeout timeout \<and> remaining \<le> 0 then ([], Some (success False))
         else if secs > int32_max then ([], Some (failure Unsupported))
         else if at_code t = RETCODE_OK then ([(secs, nanos)], Some (success True))
         else if at_code t \<noteq> RETCODE_TIMEOUT then ([(secs, nanos)], Some (failure (to_return_code (at_code t))))
         else if timeout = Poll then ([(secs, nanos)], Some (success False))
         else let (waits, r) = acked_loop timeout deadline ts in ((secs, nanos) # waits, r))"

text \<open>The outer option is the undefined behaviour of computing the deadline.\<close>

definition wait_for_all_acked ::
  "(int \<Rightarrow> 'w::linorder) \<Rightarrow> bool \<Rightarrow> int \<Rightarrow> WaitTimeout \<Rightarrow> AckedTurn list \<Rightarrow> ((int \<times> int) list \<times> bool result option) option" where
  "wait_for_all_acked wide shut now timeout turns =
     (if shut then Some ([], Some (failure ContextShutdown))
      else map_option (\<lambda>deadline. acked_loop timeout deadline turns) (steady_deadline wide now timeout))"

section \<open>The scratch sample\<close>

text \<open>
  What the type support of a message type does: a copy of its own for a received sample, if it
  has one, or the way over the serialized form. A call that answers false or fails is \<open>None\<close>.
\<close>

record ('m, 'b) Support =
  receive_commit :: "('m \<Rightarrow> 'm result) option"
  serialized_size :: "'m \<Rightarrow> u32"
  new_payload :: "u32 \<Rightarrow> bool"
  to_bytes :: "'m \<Rightarrow> 'b option"
  of_bytes :: "'b \<Rightarrow> 'm option"

text \<open>The capacity of the payload, if there is one, and the number of payloads allocated.\<close>

record TemporarySample =
  payload_capacity :: "u32 option"
  payload_allocations :: nat

definition new_sample :: TemporarySample where
  "new_sample = \<lparr>payload_capacity = None, payload_allocations = 0\<rparr>"

text \<open>
  The new value of the destination, or the error; what a failed commit leaves in the destination
  is up to the type support and not modelled. \<^verbatim>\<open>std::bad_alloc\<close> passes through every operation
  and is not modelled either.
\<close>

definition ensure_payload :: "('m, 'b) Support \<Rightarrow> 'm \<Rightarrow> TemporarySample \<Rightarrow> unit result \<times> TemporarySample" where
  "ensure_payload ty m s =
     (let size = serialized_size ty m
      in if (case payload_capacity s of None \<Rightarrow> True | Some c \<Rightarrow> size > c)
         then if new_payload ty size
              then (success (), s\<lparr>payload_capacity := Some size, payload_allocations := payload_allocations s + 1\<rparr>)
              else (failure ResourceExhausted, s)
         else (success (), s))"

definition commit_to :: "('m, 'b) Support \<Rightarrow> 'm \<Rightarrow> TemporarySample \<Rightarrow> 'm result \<times> TemporarySample" where
  "commit_to ty m s = (case receive_commit ty of
       Some copy \<Rightarrow> (copy m, s)
     | None \<Rightarrow> (case ensure_payload ty m s of
           (Inl e, s) \<Rightarrow> (failure e, s)
         | (Inr _, s) \<Rightarrow> (case to_bytes ty m of
               None \<Rightarrow> (failure DDSError, s)
             | Some b \<Rightarrow> (case of_bytes ty b of
                   None \<Rightarrow> (failure DDSError, s)
                 | Some m' \<Rightarrow> (success m', s)))))"

section \<open>Reading\<close>

text \<open>
  The loop of \<^verbatim>\<open>Subscriber::read\<close> and \<^verbatim>\<open>Client::read_response\<close>: the samples that \<open>accept\<close> refuses
  are consumed and skipped. The first number is what is left of the unread count, \<open>takes\<close> what
  \<^verbatim>\<open>take_next_sample\<close> answers call by call (an exhausted list has no data), \<open>create\<close> the result of
  creating the scratch sample. Returns also what the caller's arguments become, if they change,
  and the samples not taken.
\<close>

fun take_loop ::
  "('i \<Rightarrow> 'k option) \<Rightarrow> ('m, 'b) Support \<Rightarrow> unit result \<Rightarrow> nat \<Rightarrow> (ReturnCode \<times> 'm \<times> 'i) list
    \<Rightarrow> TemporarySample option
    \<Rightarrow> bool result \<times> ('m \<times> 'k) option \<times> (ReturnCode \<times> 'm \<times> 'i) list \<times> TemporarySample option" where
  "take_loop accept ty create 0 takes sc = (success False, None, takes, sc)"
| "take_loop accept ty create (Suc n) takes sc =
     (case (if sc = None then create else success ()) of
        Inl e \<Rightarrow> (failure e, None, takes, sc)
      | Inr _ \<Rightarrow>
          let s = (case sc of None \<Rightarrow> new_sample | Some s \<Rightarrow> s) in
          case takes of
            [] \<Rightarrow> (success False, None, [], Some s)
          | (code, m, info) # rest \<Rightarrow>
              if code = RETCODE_NO_DATA then (success False, None, rest, Some s)
              else if code \<noteq> RETCODE_OK then (failure (to_return_code code), None, rest, Some s)
              else (case accept info of
                None \<Rightarrow> take_loop accept ty create n rest (Some s)
              | Some k \<Rightarrow> (case commit_to ty m s of
                  (Inl e, s) \<Rightarrow> (failure e, None, rest, Some s)
                | (Inr m', s) \<Rightarrow> (success True, Some (m', k), rest, Some s))))"

text \<open>A time of Fast DDS: 32 bits of seconds, signed, and 32 bits of nanoseconds.\<close>

record NativeTime =
  nt_seconds :: int
  nt_nanosec :: int

definition to_nanoseconds :: "NativeTime \<Rightarrow> int" where
  "to_nanoseconds t =
     (if nt_seconds t < 0 \<or> nt_seconds t > int64_max div 1000000000 then 0
      else nt_seconds t * 1000000000 + nt_nanosec t)"

record SampleInfo =
  si_valid :: bool
  source_timestamp :: NativeTime
  reception_timestamp :: NativeTime
  si_identity :: SampleIdentity
  publication_handle :: "Guid option"
  related_identity :: SampleIdentity

record MessageInfo =
  mi_writer_gid :: Gid
  writer_timestamp :: int
  writer_sequence :: u64
  reader_timestamp :: int

definition message_info :: "SequenceNumber \<Rightarrow> Guid \<Rightarrow> SampleInfo \<Rightarrow> MessageInfo" where
  "message_info unknown_seq unknown_guid info =
     \<lparr>mi_writer_gid =
        (if writer_guid (si_identity info) \<noteq> unknown_guid then to_gid (writer_guid (si_identity info))
         else case publication_handle info of Some g \<Rightarrow> to_gid g | None \<Rightarrow> replicate 16 0),
      writer_timestamp = to_nanoseconds (source_timestamp info),
      writer_sequence = to_writer_sequence unknown_seq (sample_sequence (si_identity info)),
      reader_timestamp = to_nanoseconds (reception_timestamp info)\<rparr>"

definition accept_message :: "SequenceNumber \<Rightarrow> Guid \<Rightarrow> SampleInfo \<Rightarrow> MessageInfo option" where
  "accept_message us ug info = (if si_valid info then Some (message_info us ug info) else None)"

definition subscriber_read where
  "subscriber_read us ug ty create null shut unread takes sc =
     (if null then (failure InvalidArgument, None, takes, sc)
      else if shut then (failure ContextShutdown, None, takes, sc)
      else take_loop (accept_message us ug) ty create unread takes sc)"

section \<open>The client\<close>

record ClientEndpoints =
  request_writer :: Guid
  response_reader :: Guid

text \<open>
  The writer fills in the identity of the sample, \<open>written\<close>, or answers false. The related
  identity it is given names the response reader; the rest of it stays unknown.
\<close>

definition write_request ::
  "SequenceNumber \<Rightarrow> bool \<Rightarrow> bool \<Rightarrow> SampleIdentity option \<Rightarrow> ClientEndpoints \<Rightarrow> RequestId result" where
  "write_request us null shut written c =
     (if null then failure InvalidArgument
      else admitted shut (case written of
          None \<Rightarrow> failure DDSError
        | Some identity \<Rightarrow> (case to_request_id us identity of
              None \<Rightarrow> failure DDSError
            | Some r \<Rightarrow> success (r\<lparr>client_gid := to_gid (response_reader c)\<rparr>))))"

text \<open>What a server takes of a request that was written.\<close>

definition request_on_wire :: "SampleIdentity \<Rightarrow> ClientEndpoints \<Rightarrow> RequestSample" where
  "request_on_wire identity c =
     \<lparr>valid_data = True, sample_identity = identity, related_writer = response_reader c\<rparr>"

definition accept_response :: "SequenceNumber \<Rightarrow> ClientEndpoints \<Rightarrow> SampleInfo \<Rightarrow> RequestId option" where
  "accept_response us c info =
     (let related = writer_guid (related_identity info)
      in if \<not> si_valid info then None
         else if related \<noteq> request_writer c \<and> related \<noteq> response_reader c then None
         else to_request_id us (related_identity info))"

definition read_response where
  "read_response us c ty create null shut unread takes sc =
     (if null then (failure InvalidArgument, None, takes, sc)
      else if shut then (failure ContextShutdown, None, takes, sc)
      else take_loop (accept_response us c) ty create unread takes sc)"

section \<open>What the loops do\<close>

text \<open>A turn after which the loop goes on, and what the loop returns at any other.\<close>

definition undecided :: "WaitTimeout \<Rightarrow> int \<Rightarrow> AckedTurn \<Rightarrow> bool" where
  "undecided timeout deadline t \<longleftrightarrow> \<not> at_shutdown t \<and> timeout \<noteq> Poll \<and>
     (finite_timeout timeout \<longrightarrow> at_now t < deadline) \<and> at_code t = RETCODE_TIMEOUT"

definition acked_answer :: "WaitTimeout \<Rightarrow> int \<Rightarrow> AckedTurn \<Rightarrow> bool result" where
  "acked_answer timeout deadline t =
     (if at_shutdown t then failure ContextShutdown
      else if finite_timeout timeout \<and> deadline \<le> at_now t then success False
      else if at_code t = RETCODE_OK then success True
      else if at_code t = RETCODE_TIMEOUT then success False
      else failure (to_return_code (at_code t)))"

text \<open>A wait is short, and a finite one ends before the deadline.\<close>

definition wait_bounded :: "WaitTimeout \<Rightarrow> int \<Rightarrow> AckedTurn \<Rightarrow> int \<times> int \<Rightarrow> bool" where
  "wait_bounded timeout deadline t w \<longleftrightarrow> fst w = 0 \<and> 0 \<le> snd w \<and> snd w \<le> shutdown_check_interval \<and>
     (finite_timeout timeout \<longrightarrow> at_now t + snd w \<le> deadline)"

lemma short_wait:
  assumes "0 \<le> w" "w \<le> shutdown_check_interval"
  shows "w div 1000000000 = 0" "w mod 1000000000 = w"
  using assms by (simp_all add: shutdown_check_interval_def)

lemma acked_loop_Cons:
  "acked_loop timeout deadline (t # ts) =
     (if undecided timeout deadline t
      then (let (waits, r) = acked_loop timeout deadline ts
            in ((0, if finite_timeout timeout then min (deadline - at_now t) shutdown_check_interval
                    else shutdown_check_interval) # waits, r))
      else (if at_shutdown t \<or> finite_timeout timeout \<and> deadline \<le> at_now t then []
            else [(0, if timeout = Poll then 0
                      else if finite_timeout timeout then min (deadline - at_now t) shutdown_check_interval
                      else shutdown_check_interval)],
            Some (acked_answer timeout deadline t)))"
proof -
  have "min x shutdown_check_interval div 1000000000 = 0"
    "min x shutdown_check_interval mod 1000000000 = min x shutdown_check_interval" if "0 < x" for x
    using that by (simp_all add: shutdown_check_interval_def min_def)
  then show ?thesis
    by (cases timeout) (auto simp: undecided_def acked_answer_def shutdown_check_interval_def int32_max_def split: prod.splits)
qed

declare acked_loop.simps(2) [simp del]

lemma acked_loop_correct:
  "acked_loop timeout deadline ts = (waits, r) \<Longrightarrow>
     r = (case dropWhile (undecided timeout deadline) ts of [] \<Rightarrow> None | t # _ \<Rightarrow> Some (acked_answer timeout deadline t)) \<and>
     list_all2 (wait_bounded timeout deadline) (take (length waits) ts) waits"
proof (induction ts arbitrary: waits r)
  case Nil
  then show ?case by simp
next
  case (Cons t ts)
  show ?case
  proof (cases "undecided timeout deadline t")
    case True
    obtain ws r' where rest: "acked_loop timeout deadline ts = (ws, r')" by force
    from Cons.IH [OF this] Cons.prems True rest show ?thesis
      by (auto simp: acked_loop_Cons wait_bounded_def undecided_def shutdown_check_interval_def)
  next
    case False
    with Cons.prems show ?thesis
      by (auto simp: acked_loop_Cons wait_bounded_def shutdown_check_interval_def min_def split: if_splits)
  qed
qed

lemma dropWhile_passes: "list_ex (\<lambda>x. \<not> P x) xs \<Longrightarrow> dropWhile P xs \<noteq> []"
  by (induction xs) auto

text \<open>Reading from a reader that holds the samples \<open>takes\<close>, again and again.\<close>

fun drain ::
  "(nat \<Rightarrow> (ReturnCode \<times> 'm \<times> 'i) list \<Rightarrow> TemporarySample option
      \<Rightarrow> bool result \<times> ('m \<times> 'k) option \<times> (ReturnCode \<times> 'm \<times> 'i) list \<times> TemporarySample option)
    \<Rightarrow> nat \<Rightarrow> (ReturnCode \<times> 'm \<times> 'i) list \<Rightarrow> TemporarySample option \<Rightarrow> ('m \<times> 'k) list" where
  "drain reader 0 takes sc = []"
| "drain reader (Suc n) takes sc =
     (case reader (length takes) takes sc of
        (Inr True, Some x, left, sc') \<Rightarrow> x # drain reader n left sc'
      | _ \<Rightarrow> [])"

text \<open>The type support makes faithful copies.\<close>

definition copies :: "('m, 'b) Support \<Rightarrow> bool" where
  "copies ty \<longleftrightarrow> (case receive_commit ty of
       Some copy \<Rightarrow> \<forall>m. copy m = success m
     | None \<Rightarrow> (\<forall>k. new_payload ty k) \<and> (\<forall>m. Option.bind (to_bytes ty m) (of_bytes ty) = Some m))"

lemma commit_copies: "copies ty \<Longrightarrow> \<exists>s'. commit_to ty m s = (Inr m, s')"
  by (cases "to_bytes ty m"; cases "receive_commit ty")
     (auto simp: copies_def commit_to_def ensure_payload_def Let_def bind_eq_Some_conv
       split: prod.splits sum.splits option.splits dest!: spec [where x = m])

lemma take_loop_queue:
  assumes "copies ty" "list_all (\<lambda>t. fst t = RETCODE_OK) takes" "length takes \<le> n"
  shows "case dropWhile (\<lambda>t. accept (snd (snd t)) = None) takes of
      [] \<Rightarrow> \<exists>sc'. take_loop accept ty (success ()) n takes sc = (success False, None, [], sc')
    | (_, m, i) # rest \<Rightarrow> \<exists>sc' k. accept i = Some k \<and>
        take_loop accept ty (success ()) n takes sc = (success True, Some (m, k), rest, sc')"
  using assms(2,3)
proof (induction takes arbitrary: n sc)
  case Nil
  then show ?case by (cases n) auto
next
  case (Cons t takes)
  obtain c m i where t: "t = (c, m, i)" by (cases t)
  obtain n' where n: "n = Suc n'" using Cons.prems by (cases n) auto
  let ?s = "case sc of None \<Rightarrow> new_sample | Some s \<Rightarrow> s"
  have c: "c = RETCODE_OK" using Cons.prems t by simp
  show ?case
  proof (cases "accept i")
    case None
    then have "take_loop accept ty (success ()) n (t # takes) sc = take_loop accept ty (success ()) n' takes (Some ?s)"
      by (simp add: t n c Let_def)
    with Cons.IH [of n' "Some ?s"] Cons.prems None show ?thesis by (simp only:) (simp add: t n)
  next
    case (Some k)
    obtain s' where "commit_to ty m ?s = (Inr m, s')" using commit_copies [OF assms(1)] by blast
    with Some show ?thesis by (auto simp: t n c Let_def)
  qed
qed

lemma drain_queue:
  assumes "copies ty"
  shows "list_all (\<lambda>t. fst t = RETCODE_OK) takes \<Longrightarrow> length takes \<le> n \<Longrightarrow>
    drain (take_loop accept ty (success ())) n takes sc =
      List.map_filter (\<lambda>(_, m, i). map_option (Pair m) (accept i)) takes"
proof (induction takes arbitrary: n sc rule: measure_induct_rule [of length])
  case (less takes)
  let ?P = "\<lambda>t. accept (snd (snd t)) = None"
  have skip: "List.map_filter (\<lambda>(_, m, i). map_option (Pair m) (accept i)) takes =
      List.map_filter (\<lambda>(_, m, i). map_option (Pair m) (accept i)) (dropWhile ?P takes)"
    by (induction takes) (auto simp: List.map_filter_def)
  show ?case
  proof (cases n)
    case 0
    with less.prems show ?thesis by (simp add: List.map_filter_def)
  next
    case (Suc n')
    note q = take_loop_queue [OF assms less.prems(1) order.refl, of accept sc]
    show ?thesis
    proof (cases "dropWhile ?P takes")
      case Nil
      with q obtain sc' where "take_loop accept ty (success ()) (length takes) takes sc = (success False, None, [], sc')" by auto
      then show ?thesis unfolding skip Nil Suc by (simp add: List.map_filter_def)
    next
      case (Cons t rest)
      obtain c m i where t: "t = (c, m, i)" by (cases t)
      from q obtain sc' k where k: "accept i = Some k"
          "take_loop accept ty (success ()) (length takes) takes sc = (success True, Some (m, k), rest, sc')"
        by (auto simp: Cons t)
      have len: "length (t # rest) \<le> length takes"
        using length_dropWhile_le [of ?P takes] unfolding Cons by simp
      have sub: "set rest \<subseteq> set takes"
        using set_dropWhileD [of _ ?P takes] unfolding Cons by auto
      have ok: "list_all (\<lambda>t. fst t = RETCODE_OK) rest"
        using less.prems(1) sub by (auto simp: list_all_iff)
      have "drain (take_loop accept ty (success ())) n' rest sc' =
          List.map_filter (\<lambda>(_, m, i). map_option (Pair m) (accept i)) rest"
        by (rule less.IH) (use len less.prems(2) Suc ok in auto)
      then show ?thesis unfolding skip Cons Suc by (simp add: k t List.map_filter_def)
    qed
  qed
qed

lemma to_nanoseconds_range:
  assumes "- int32_max - 1 \<le> nt_seconds t" "nt_seconds t \<le> int32_max" "0 \<le> nt_nanosec t" "nt_nanosec t < 2 ^ 32"
  shows "0 \<le> to_nanoseconds t \<and> to_nanoseconds t \<le> int64_max"
  using assms by (auto simp: to_nanoseconds_def int64_max_def int32_max_def)

text \<open>A payload that is large enough is kept.\<close>

lemma commit_reuses:
  assumes "receive_commit ty = None" "payload_capacity s = Some c" "serialized_size ty m \<le> c"
  shows "snd (commit_to ty m s) = s \<and> fst (commit_to ty m s) \<noteq> Inl ResourceExhausted"
  using assms by (auto simp: commit_to_def ensure_payload_def Let_def split: option.splits)

section \<open>Properties\<close>

text \<open>
  Waiting for acknowledgments: the loop returns at the first turn that decides, with the answer of
  that turn; every wait it hands to Fast DDS is at most 20 ms long, so that a shutdown is seen
  within that time, and with a finite timeout ends no later than the deadline; and with a finite
  timeout it has returned once a turn sees the deadline passed.
\<close>

theorem acked_wait_exact:
  assumes "acked_loop timeout deadline turns = (waits, r)"
  shows "r = (case dropWhile (undecided timeout deadline) turns of
        [] \<Rightarrow> None | t # _ \<Rightarrow> Some (acked_answer timeout deadline t)) \<and>
    list_all2 (wait_bounded timeout deadline) (take (length waits) turns) waits \<and>
    (finite_timeout timeout \<longrightarrow> list_ex (\<lambda>t. deadline \<le> at_now t) turns \<longrightarrow> r \<noteq> None)"
proof -
  note c = acked_loop_correct [OF assms]
  have "r \<noteq> None" if "finite_timeout timeout" "list_ex (\<lambda>t. deadline \<le> at_now t) turns"
  proof -
    have "list_ex (\<lambda>t. \<not> undecided timeout deadline t) turns"
      using that by (force simp: list_ex_iff undecided_def)
    from dropWhile_passes [OF this] show ?thesis
      using c by (cases "dropWhile (undecided timeout deadline) turns") auto
  qed
  with c show ?thesis by blast
qed

text \<open>
  A subscriber that reads until there is nothing left gets every valid sample of the reader
  exactly once, in order and each with its own information, whatever invalid samples lie between
  them; and no timestamp of a sample leaves the 64-bit range.
\<close>

theorem subscriber_reads_everything:
  assumes "copies ty" and "list_all (\<lambda>t. fst t = RETCODE_OK) takes"
  shows "drain (\<lambda>n takes sc. subscriber_read us ug ty (success ()) False False n takes sc) (length takes) takes sc =
    map (\<lambda>(_, m, info). (m, message_info us ug info)) (filter (\<lambda>(_, _, info). si_valid info) takes)"
proof -
  have "List.map_filter (\<lambda>(_, m, i). map_option (Pair m) (accept_message us ug i)) takes =
      map (\<lambda>(_, m, info). (m, message_info us ug info)) (filter (\<lambda>(_, _, info). si_valid info) takes)"
    by (induction takes) (auto simp: List.map_filter_def accept_message_def split: if_splits)
  then show ?thesis
    using drain_queue [OF assms order.refl, of "accept_message us ug" sc] by (simp add: subscriber_read_def)
qed

text \<open>
  C14. A response meets its request: when a server reads a request that a client wrote and answers
  it, the server names the request by the id the client was given, the client that takes the
  response reads that same id with it, and any other client skips the response.
\<close>

theorem response_meets_request:
  assumes written: "write_request us False False (Some identity) c = success r"
    and server: "in_use s < max_pending_requests s" "map_of (pending s) r = None" "response_reader c \<noteq> ug"
    and client: "copies ty"
  shows "\<exists>s1 s2 i.
    read_request us ug False False (success ()) (success ()) (Suc n) ((RETCODE_OK, request_on_wire identity c) # ts) s
      = (success True, Some r, s1) \<and>
    claim_response False r s1 = (success i, s2) \<and>
    (\<forall>info. si_valid info \<longrightarrow> related_identity info = i \<longrightarrow>
      (\<exists>sc'. read_response us c ty (success ()) False False (Suc k) ((RETCODE_OK, m, info) # rest) sc
         = (success True, Some (m, r), rest, sc')) \<and>
      (\<forall>c'. response_reader c \<noteq> request_writer c' \<longrightarrow> response_reader c \<noteq> response_reader c' \<longrightarrow>
         accept_response us c' info = None))"
proof -
  let ?i = "identity\<lparr>writer_guid := response_reader c\<rparr>"
  from written have r: "sample_sequence identity \<noteq> us"
      "r = \<lparr>client_gid = to_gid (response_reader c), sequence_number = from_sequence (sample_sequence identity)\<rparr>"
    by (auto simp: write_request_def admitted_def to_request_id_def split: if_splits)
  have addressed: "request_addressing us ug (request_on_wire identity c) = Some (r, ?i)"
    using server(3) r by (simp add: request_addressing_def request_on_wire_def to_request_id_def)
  obtain s1 where s1: "read_request us ug False False (success ()) (success ()) (Suc n)
        ((RETCODE_OK, request_on_wire identity c) # ts) s = (success True, Some r, s1)"
      "map_of (pending s1) r = Some \<lparr>pr_identity = ?i, pr_phase = PhasePending\<rparr>"
    using server(1,2) addressed
    by (cases "Suc (in_use s) = max_pending_requests s")
      (simp_all add: read_request_def reserve_request_slot_def insert_pending_def in_use_def Let_def
        set_blocking_enabled_def um_emplace_def request_on_wire_def map_add_def)
  obtain s2 where "claim_response False r s1 = (success ?i, s2)"
    using s1(2) by (simp add: claim_response_def)
  moreover have "\<exists>sc'. read_response us c ty (success ()) False False (Suc k) ((RETCODE_OK, m, info) # rest) sc
       = (success True, Some (m, r), rest, sc')"
    if "si_valid info" "related_identity info = ?i" for info
  proof -
    have "accept_response us c info = Some r" using that r by (simp add: accept_response_def to_request_id_def Let_def)
    moreover obtain s' where "commit_to ty m (case sc of None \<Rightarrow> new_sample | Some s \<Rightarrow> s) = (Inr m, s')"
      using commit_copies [OF client] by blast
    ultimately show ?thesis by (simp add: read_response_def Let_def)
  qed
  moreover have "accept_response us c' info = None"
    if "related_identity info = ?i" "response_reader c \<noteq> request_writer c'" "response_reader c \<noteq> response_reader c'" for info c'
    using that by (simp add: accept_response_def Let_def)
  ultimately show ?thesis using s1(1) by blast
qed

text \<open>
  A client also takes a response whose related identity is the one its own request writer
  produced, but then reads an id that is not the one it was given for the request.
\<close>

theorem writer_addressed_answer_misnamed:
  assumes "write_request us False False (Some identity) c = success r" "writer_guid identity = request_writer c"
    and "guid_ok (request_writer c)" "guid_ok (response_reader c)" "request_writer c \<noteq> response_reader c"
    and "si_valid info" "related_identity info = identity"
  shows "\<exists>r'. accept_response us c info = Some r' \<and> r' \<noteq> r \<and> sequence_number r' = sequence_number r"
proof -
  have "to_gid (request_writer c) \<noteq> to_gid (response_reader c)"
    using assms(3-5) by (simp add: to_gid_inject)
  with assms(1,2,6,7) show ?thesis
    by (auto simp: write_request_def admitted_def to_request_id_def accept_response_def Let_def split: if_splits)
qed

text \<open>
  The scratch sample of a reader stops allocating: once its payload is as large as the largest
  of the samples to come, no later commit allocates, and none fails for want of memory.
\<close>

theorem scratch_settles:
  assumes "receive_commit ty = None" "payload_capacity s = Some c" "list_all (\<lambda>m. serialized_size ty m \<le> c) (ms @ [m])"
  shows "fold (\<lambda>m s. snd (commit_to ty m s)) ms s = s \<and> fst (commit_to ty m s) \<noteq> failure ResourceExhausted"
proof -
  have "list_all (\<lambda>m. serialized_size ty m \<le> c) ms \<Longrightarrow> fold (\<lambda>m s. snd (commit_to ty m s)) ms s = s"
    using commit_reuses [OF assms(1,2)] by (induction ms) auto
  then show ?thesis using assms commit_reuses [OF assms(1,2), of m] by simp
qed

section \<open>Concrete runs\<close>

definition turns_1 :: "AckedTurn list" where
  "turns_1 = [\<lparr>at_shutdown = False, at_now = 0, at_code = RETCODE_TIMEOUT\<rparr>,
              \<lparr>at_shutdown = False, at_now = 20000000, at_code = RETCODE_TIMEOUT\<rparr>,
              \<lparr>at_shutdown = False, at_now = 40000000, at_code = RETCODE_OK\<rparr>]"

text \<open>An acknowledgment within 30 ms that comes too late, and one within a second that does not.\<close>

theorem acked_wait_exact_witness:
  "acked_loop (Finite 30000000) 30000000 turns_1 = ([(0, 20000000), (0, 10000000)], Some (success False)) \<and>
   acked_loop (Finite 1000000000) 1000000000 turns_1 = ([(0, 20000000), (0, 20000000), (0, 20000000)], Some (success True)) \<and>
   list_all2 (wait_bounded (Finite 30000000) 30000000) (take (length [(0::int, 20000000::int), (0, 10000000)]) turns_1)
     [(0, 20000000), (0, 10000000)]"
proof -
  have a: "acked_loop (Finite 30000000) 30000000 turns_1 = ([(0, 20000000), (0, 10000000)], Some (success False))"
    "acked_loop (Finite 1000000000) 1000000000 turns_1 = ([(0, 20000000), (0, 20000000), (0, 20000000)], Some (success True))"
    by (simp_all add: turns_1_def acked_loop_Cons undecided_def acked_answer_def shutdown_check_interval_def)
  have "list_all2 (wait_bounded (Finite 30000000) 30000000) (take (length [(0::int, 20000000::int), (0, 10000000)]) turns_1)
      [(0, 20000000), (0, 10000000)]"
    using acked_wait_exact [OF a(1)] by blast
  with a show ?thesis by blast
qed

definition plain_support :: "(nat, nat) Support" where
  "plain_support = \<lparr>receive_commit = None, serialized_size = (\<lambda>m. of_nat m), new_payload = (\<lambda>_. True),
     to_bytes = Some, of_bytes = Some\<rparr>"

lemma plain_copies: "copies plain_support"
  by (simp add: copies_def plain_support_def)

definition client_1 :: ClientEndpoints where
  "client_1 = \<lparr>request_writer = \<lparr>guidPrefix = replicate 12 7, entityId = [0, 0, 1, 3]\<rparr>, response_reader = guid_1\<rparr>"

definition written_identity :: SampleIdentity where
  "written_identity = \<lparr>writer_guid = request_writer client_1, sample_sequence = \<lparr>seq_high = 0, seq_low = 5\<rparr>\<rparr>"

definition info_of :: "bool \<Rightarrow> SampleIdentity \<Rightarrow> SampleInfo" where
  "info_of valid i = \<lparr>si_valid = valid, source_timestamp = \<lparr>nt_seconds = 1, nt_nanosec = 2\<rparr>,
     reception_timestamp = \<lparr>nt_seconds = 1, nt_nanosec = 3\<rparr>, si_identity = written_identity,
     publication_handle = None, related_identity = i\<rparr>"

lemma info_of_valid: "si_valid (info_of b i) = b"
  by (simp add: info_of_def)

theorem subscriber_reads_everything_witness:
  "drain (\<lambda>n takes sc. subscriber_read seq_unknown_1 guid_unknown_1 plain_support (success ()) False False n takes sc) 3
     [(RETCODE_OK, 10, info_of True written_identity), (RETCODE_OK, 20, info_of False written_identity),
      (RETCODE_OK, 30, info_of True written_identity)] None =
   [(10, message_info seq_unknown_1 guid_unknown_1 (info_of True written_identity)),
    (30, message_info seq_unknown_1 guid_unknown_1 (info_of True written_identity))]"
  using subscriber_reads_everything [OF plain_copies, of "[(RETCODE_OK, 10, info_of True written_identity),
      (RETCODE_OK, 20, info_of False written_identity), (RETCODE_OK, 30, info_of True written_identity)]"
      seq_unknown_1 guid_unknown_1 None]
  by (simp add: info_of_valid numeral_3_eq_3 del: drain.simps)

lemma client_1_writes: "write_request seq_unknown_1 False False (Some written_identity) client_1 = success request_1"
  by (simp add: write_request_def admitted_def to_request_id_def written_identity_def seq_unknown_1_def client_1_def
      request_1_def from_sequence_def to_gid_def guid_1_def)

theorem response_meets_request_witness:
  "\<exists>s1 s2 i sc'. read_request seq_unknown_1 guid_unknown_1 False False (success ()) (success ()) 1
      [(RETCODE_OK, request_on_wire written_identity client_1)] (new_server 1) = (success True, Some request_1, s1) \<and>
    claim_response False request_1 s1 = (success i, s2) \<and>
    read_response seq_unknown_1 client_1 plain_support (success ()) False False 1 [(RETCODE_OK, 42, info_of True i)] None
      = (success True, Some (42, request_1), [], sc')"
proof -
  have "in_use (new_server 1) < max_pending_requests (new_server 1)" "map_of (pending (new_server 1)) request_1 = None"
    "response_reader client_1 \<noteq> guid_unknown_1"
    by (simp_all add: in_use_def new_server_def client_1_def guid_1_def guid_unknown_1_def)
  from response_meets_request [OF client_1_writes this plain_copies, of 0 "[]" 0 42 "[]" None]
  obtain s1 s2 i where s: "read_request seq_unknown_1 guid_unknown_1 False False (success ()) (success ()) (Suc 0)
        [(RETCODE_OK, request_on_wire written_identity client_1)] (new_server 1) = (success True, Some request_1, s1)"
      "claim_response False request_1 s1 = (success i, s2)"
    and c: "\<And>info. si_valid info \<Longrightarrow> related_identity info = i \<Longrightarrow> \<exists>sc'. read_response seq_unknown_1 client_1
        plain_support (success ()) False False (Suc 0) [(RETCODE_OK, 42, info)] None = (success True, Some (42, request_1), [], sc')"
    by blast
  from c [of "info_of True i"] s show ?thesis by (auto simp: info_of_def)
qed

theorem writer_addressed_answer_misnamed_witness:
  "\<exists>r'. accept_response seq_unknown_1 client_1 (info_of True written_identity) = Some r' \<and> r' \<noteq> request_1
    \<and> sequence_number r' = sequence_number request_1"
  using writer_addressed_answer_misnamed [OF client_1_writes, of "info_of True written_identity"]
  by (simp add: written_identity_def client_1_def guid_ok_def guid_1_def info_of_def)

theorem scratch_settles_witness:
  "fold (\<lambda>m s. snd (commit_to plain_support m s)) [3, 7] \<lparr>payload_capacity = Some 8, payload_allocations = 1\<rparr>
     = \<lparr>payload_capacity = Some 8, payload_allocations = 1\<rparr>"
  using scratch_settles [of plain_support "\<lparr>payload_capacity = Some 8, payload_allocations = 1\<rparr>" 8 "[3, 7]" 8]
  by (simp add: plain_support_def)

end
