(* ===== verification/Nodes.thy ===== *)
theory Nodes
  imports Parameters ContextRuntime Qos Discovery "HOL-Library.Multiset"
begin

text \<open>
  How the entities of a node come and go: \<^verbatim>\<open>impl/node_impl.cpp\<close> with the constructors and
  destructors of the endpoints it creates. The world is what creation takes hold of: references to
  topics, DDS endpoints and their listeners, the entries of the local graph, graph subscriptions
  and shutdown callbacks. What Fast DDS and the topic registry answer is an argument. A raw DDS
  endpoint is named by its GUID.
\<close>

section \<open>The world\<close>

text \<open>\<open>ne_listener\<close>: a listener of ours is installed on the endpoint.\<close>

record NodeEnd =
  ne_guid :: Guid
  ne_kind :: EndpointKind
  ne_topic :: string
  ne_listener :: bool

text \<open>
  Orphans are topics that Fast DDS refused to delete because an endpoint still used them, dangling
  the endpoints whose listener was freed while it was installed, retained those whose listener
  \<^verbatim>\<open>ProcessLifetime\<close> keeps.
\<close>

record NodeWorld =
  nw_graph :: "Qos DiscoveryGraph"
  nw_runtime :: Runtime
  nw_topics :: "string multiset"
  nw_ends :: "NodeEnd list"
  nw_orphans :: "string list"
  nw_dangling :: "Guid list"
  nw_retained :: "Guid list"

definition hold_topic :: "string \<Rightarrow> NodeWorld \<Rightarrow> NodeWorld" where
  "hold_topic t w = w\<lparr>nw_topics := add_mset t (nw_topics w)\<rparr>"

definition give_topic :: "string \<Rightarrow> NodeWorld \<Rightarrow> NodeWorld" where
  "give_topic t w =
     (let left = nw_topics w - {#t#}
      in w\<lparr>nw_topics := left,
           nw_orphans := (if \<not> t \<in># left \<and> list_ex (\<lambda>e. ne_topic e = t) (nw_ends w)
                          then t # nw_orphans w else nw_orphans w)\<rparr>)"

definition make_end :: "Guid \<Rightarrow> EndpointKind \<Rightarrow> string \<Rightarrow> bool \<Rightarrow> NodeWorld \<Rightarrow> NodeWorld" where
  "make_end u kind t listener w =
     w\<lparr>nw_ends := nw_ends w @ [\<lparr>ne_guid = u, ne_kind = kind, ne_topic = t, ne_listener = listener\<rparr>]\<rparr>"

definition remove_end :: "Guid \<Rightarrow> NodeWorld \<Rightarrow> NodeWorld" where
  "remove_end u w = w\<lparr>nw_ends := filter (\<lambda>e. ne_guid e \<noteq> u) (nw_ends w)\<rparr>"

definition clear_listener :: "Guid \<Rightarrow> NodeWorld \<Rightarrow> NodeWorld" where
  "clear_listener u w = w\<lparr>nw_ends := map (\<lambda>e. if ne_guid e = u then e\<lparr>ne_listener := False\<rparr> else e) (nw_ends w)\<rparr>"

definition retain :: "bool \<Rightarrow> Guid \<Rightarrow> NodeWorld \<Rightarrow> NodeWorld" where
  "retain own u w = (if own then w\<lparr>nw_retained := u # nw_retained w\<rparr> else w)"

text \<open>The owner lets go of the listener of an endpoint; nothing happens when it was handed on.\<close>

definition free_listener :: "Guid \<Rightarrow> NodeWorld \<Rightarrow> NodeWorld" where
  "free_listener u w =
     (if \<not> u \<in> set (nw_retained w) \<and> list_ex (\<lambda>e. ne_guid e = u \<and> ne_listener e) (nw_ends w)
      then w\<lparr>nw_dangling := u # nw_dangling w\<rparr> else w)"

definition on_graph :: "(Qos DiscoveryGraph \<Rightarrow> Qos DiscoveryGraph) \<Rightarrow> NodeWorld \<Rightarrow> NodeWorld" where
  "on_graph f w = w\<lparr>nw_graph := f (nw_graph w)\<rparr>"

definition bind_endpoint_metadata :: "Guid \<Rightarrow> EndpointKind \<Rightarrow> string \<Rightarrow> string \<Rightarrow> Qos \<Rightarrow> u64 \<Rightarrow> NodeWorld \<Rightarrow> NodeWorld" where
  "bind_endpoint_metadata u kind t type qos node w =
     on_graph (\<lambda>g. snd (add_local_endpoint u kind t type node qos g)) w"

definition unbind_endpoint :: "Guid \<Rightarrow> NodeWorld \<Rightarrow> NodeWorld" where
  "unbind_endpoint u w = on_graph (\<lambda>g. snd (remove_local_endpoint u g)) w"

definition subscribe_graph :: "NodeWorld \<Rightarrow> u64 \<times> NodeWorld" where
  "subscribe_graph w = (let (i, g) = subscribe (nw_graph w) in (i, w\<lparr>nw_graph := g\<rparr>))"

definition unsubscribe_graph :: "u64 \<Rightarrow> NodeWorld \<Rightarrow> NodeWorld" where
  "unsubscribe_graph i w = (if i = 0 then w else on_graph (unsubscribe i) w)"

definition add_callback :: "NodeWorld \<Rightarrow> u64 \<times> NodeWorld" where
  "add_callback w = (let (c, r) = register_shutdown_callback (nw_runtime w) in (c, w\<lparr>nw_runtime := r\<rparr>))"

definition drop_callback :: "u64 \<Rightarrow> NodeWorld \<Rightarrow> NodeWorld" where
  "drop_callback c w = (if c = 0 then w else w\<lparr>nw_runtime := unregister_shutdown_callback c (nw_runtime w)\<rparr>)"

section \<open>Deleting endpoints\<close>

text \<open>
  What happens when an endpoint is torn down: whether \<^verbatim>\<open>set_listener(nullptr)\<close> returned OK, how
  deleting the endpoint ends, and whether its wait state could be detached from its wait set.
\<close>

datatype Deletion = Deleted | Refused | DeletionThrew

record Teardown =
  td_detach :: bool
  td_delete :: Deletion
  td_closed :: bool

type_synonym teardowns = "Guid \<Rightarrow> Teardown"

text \<open>\<^verbatim>\<open>delete_writer_noexcept\<close> and \<^verbatim>\<open>delete_reader_noexcept\<close>.\<close>

definition delete_end :: "teardowns \<Rightarrow> Guid \<Rightarrow> NodeWorld \<Rightarrow> NodeWorld" where
  "delete_end td u w = (if td_delete (td u) = Deleted then remove_end u w else w)"

text \<open>
  \<^verbatim>\<open>delete_writer_listener_noexcept\<close>, its twin for readers, and the same steps in the destructors
  of publishers and clients; \<open>own\<close> tells that the owner still has a listener.
\<close>

definition delete_listener_end :: "teardowns \<Rightarrow> bool \<Rightarrow> Guid \<Rightarrow> NodeWorld \<Rightarrow> NodeWorld" where
  "delete_listener_end td own u w =
     (if \<not> td_detach (td u) then retain own u w
      else let w1 = clear_listener u w in case td_delete (td u) of
          Deleted \<Rightarrow> remove_end u w1
        | Refused \<Rightarrow> w1
        | DeletionThrew \<Rightarrow> retain own u w1)"

text \<open>The reader of a subscriber or a client.\<close>

definition destroy_reader :: "teardowns \<Rightarrow> bool \<Rightarrow> Guid \<Rightarrow> NodeWorld \<Rightarrow> NodeWorld" where
  "destroy_reader td own u w =
     (let t = td u
      in if \<not> td_detach t then retain own u w
         else let w1 = clear_listener u w in if td_closed t then delete_end td u w1 else w1)"

text \<open>The two endpoints of a server: its response writer and its request reader.\<close>

definition destroy_response_writer :: "teardowns \<Rightarrow> Guid \<Rightarrow> NodeWorld \<Rightarrow> NodeWorld" where
  "destroy_response_writer td u w =
     (if td_detach (td u) then delete_end td u (clear_listener u w) else retain True u w)"

definition destroy_request_reader :: "teardowns \<Rightarrow> Guid \<Rightarrow> NodeWorld \<Rightarrow> NodeWorld" where
  "destroy_request_reader td u w = (if td_closed (td u) then delete_end td u w else w)"

section \<open>Publishers and subscribers\<close>

text \<open>What a node reads of itself and of its context.\<close>

record Host =
  h_mode :: RuntimeMode
  h_forever :: Duration_t
  h_writer_baseline :: DataWriterQos
  h_reader_baseline :: DataReaderQos

record NodeImpl =
  nd_name :: string
  nd_namespace :: string
  nd_remaps :: "RemapRule list"
  nd_parameters :: ParameterStoreState
  nd_id :: u64

definition node_resolve :: "NodeImpl \<Rightarrow> string \<Rightarrow> string result" where
  "node_resolve node name = resolve_remapped_name (nd_name node) (nd_namespace node) (nd_remaps node) name"

text \<open>An operation returns its \<^verbatim>\<open>Result\<close> or an exception leaves it.\<close>

datatype 'a Outcome = Yields "'a result" | Raised

text \<open>Where the part guarded by \<^verbatim>\<open>try\<close> throws: in a binding to the graph, or in the constructor.\<close>

datatype ThrowPoint = NoThrow | ThrowBind | ThrowBindSecond | ThrowConstruct

record EndAnswers =
  ea_shut :: bool
  ea_topic :: "unit result"
  ea_made :: "Guid option"
  ea_throw :: ThrowPoint

record TopicHandle =
  th_guid :: Guid
  th_topic :: string
  th_name :: string

text \<open>
  \<^verbatim>\<open>create_publisher\<close> and \<^verbatim>\<open>create_subscriber\<close> from the name on; they differ in the kind and in
  the translation of the QoS. When the constructor throws, the topic and the graph entry have
  been moved into its arguments, and are gone before the endpoint is deleted.
\<close>

definition create_topic_endpoint ::
  "EndpointKind \<Rightarrow> unit result \<Rightarrow> Host \<Rightarrow> NodeImpl \<Rightarrow> teardowns \<Rightarrow> EndAnswers \<Rightarrow> string \<Rightarrow> string \<Rightarrow> Qos \<Rightarrow> NodeWorld
    \<Rightarrow> TopicHandle Outcome \<times> NodeWorld" where
  "create_topic_endpoint kind native host node td a type name qos w = (case node_resolve node name of
       Inl e \<Rightarrow> (Yields (failure e), w)
     | Inr logical \<Rightarrow> (case native of
           Inl e \<Rightarrow> (Yields (failure e), w)
         | Inr _ \<Rightarrow>
             if ea_shut a then (Yields (failure ContextShutdown), w)
             else let t = dds_topic_name (h_mode host) logical in (case ea_topic a of
                 Inl e \<Rightarrow> (Yields (failure e), w)
               | Inr _ \<Rightarrow> (case ea_made a of
                   None \<Rightarrow> (Yields (failure DDSError), give_topic t (hold_topic t w))
                 | Some u \<Rightarrow>
                     let w1 = make_end u kind t False (hold_topic t w);
                         w2 = bind_endpoint_metadata u kind t type qos (nd_id node) w1
                     in (case ea_throw a of
                         NoThrow \<Rightarrow> (Yields (success \<lparr>th_guid = u, th_topic = t, th_name = logical\<rparr>), w2)
                       | ThrowConstruct \<Rightarrow> (Raised, delete_end td u (give_topic t (unbind_endpoint u w2)))
                       | _ \<Rightarrow> (Raised, give_topic t (delete_end td u w1)))))))"

definition create_publisher where
  "create_publisher host node td a type name qos w =
     create_topic_endpoint Writer
       (rbind (to_writer_qos (h_forever host) qos (h_mode host) (h_writer_baseline host)) (\<lambda>_. success ()))
       host node td a type name qos w"

definition create_subscriber where
  "create_subscriber host node td a type name qos w =
     create_topic_endpoint Reader
       (rbind (to_reader_qos (h_forever host) qos (h_mode host) (h_reader_baseline host)) (\<lambda>_. success ()))
       host node td a type name qos w"

text \<open>\<open>own\<close>: an event has installed a listener.\<close>

definition destroy_publisher :: "teardowns \<Rightarrow> bool \<Rightarrow> TopicHandle \<Rightarrow> NodeWorld \<Rightarrow> NodeWorld" where
  "destroy_publisher td own h w =
     give_topic (th_topic h) (unbind_endpoint (th_guid h) (delete_listener_end td own (th_guid h) w))"

definition destroy_subscriber :: "teardowns \<Rightarrow> bool \<Rightarrow> TopicHandle \<Rightarrow> NodeWorld \<Rightarrow> NodeWorld" where
  "destroy_subscriber td own h w =
     give_topic (th_topic h) (unbind_endpoint (th_guid h) (destroy_reader td own (th_guid h) w))"

section \<open>Clients and servers\<close>

record ServiceType =
  request_type :: string
  response_type :: string

record ServiceAnswers =
  sa_shut :: bool
  sa_request_topic :: "unit result"
  sa_response_topic :: "unit result"
  sa_writer :: "Guid option"
  sa_reader :: "Guid option"
  sa_throw :: ThrowPoint
  sa_shut_after :: bool

text \<open>The graph subscription of a client or a server and the shutdown callback of a client are ids.\<close>

record ServiceHandle =
  sh_request_topic :: string
  sh_response_topic :: string
  sh_writer :: Guid
  sh_reader :: Guid
  sh_subscription :: u64
  sh_callback :: u64
  sh_name :: string

definition destroy_client :: "teardowns \<Rightarrow> ServiceHandle \<Rightarrow> NodeWorld \<Rightarrow> NodeWorld" where
  "destroy_client td h w =
     (let w1 = drop_callback (sh_callback h) (unsubscribe_graph (sh_subscription h) w);
          w2 = delete_listener_end td True (sh_writer h) (destroy_reader td True (sh_reader h) w1);
          w3 = unbind_endpoint (sh_writer h) (unbind_endpoint (sh_reader h) w2);
          w4 = give_topic (sh_response_topic h) (free_listener (sh_reader h) w3)
      in give_topic (sh_request_topic h) (free_listener (sh_writer h) w4))"

text \<open>
  The constructor of \<^verbatim>\<open>Client::Impl\<close> subscribes to the graph and registers a shutdown callback;
  its client is destroyed again when one of them failed. When the constructor throws, topics,
  graph entries and both listeners have been moved into its arguments: they are gone when the
  handler detaches the listeners.
\<close>

definition create_client ::
  "Host \<Rightarrow> NodeImpl \<Rightarrow> teardowns \<Rightarrow> ServiceAnswers \<Rightarrow> ServiceType \<Rightarrow> string \<Rightarrow> Qos \<Rightarrow> NodeWorld
    \<Rightarrow> ServiceHandle Outcome \<times> NodeWorld" where
  "create_client host node td a sty name qos w = (case node_resolve node name of
       Inl e \<Rightarrow> (Yields (failure e), w)
     | Inr logical \<Rightarrow> (case rbind (to_writer_qos (h_forever host) qos (h_mode host) (h_writer_baseline host))
           (\<lambda>_. rbind (to_reader_qos (h_forever host) qos (h_mode host) (h_reader_baseline host)) (\<lambda>_. success ())) of
           Inl e \<Rightarrow> (Yields (failure e), w)
         | Inr _ \<Rightarrow>
     if sa_shut a then (Yields (failure ContextShutdown), w)
     else let rq = service_topic_name (h_mode host) logical True;
              rr = service_topic_name (h_mode host) logical False;
              give = (\<lambda>w. give_topic rq (give_topic rr w))
     in (case sa_request_topic a of
       Inl e \<Rightarrow> (Yields (failure e), w)
     | Inr _ \<Rightarrow> (case sa_response_topic a of
       Inl e \<Rightarrow> (Yields (failure e), give_topic rq (hold_topic rq w))
     | Inr _ \<Rightarrow> let w1 = hold_topic rr (hold_topic rq w) in (case sa_writer a of
       None \<Rightarrow> (Yields (failure DDSError), give w1)
     | Some uw \<Rightarrow> let w2 = make_end uw Writer rq True w1 in (case sa_reader a of
       None \<Rightarrow> (Yields (failure DDSError), give (free_listener uw (delete_listener_end td True uw w2)))
     | Some ur \<Rightarrow>
         let w3 = make_end ur Reader rr True w2;
             w4 = bind_endpoint_metadata uw Writer rq (request_type sty) qos (nd_id node) w3;
             w5 = bind_endpoint_metadata ur Reader rr (response_type sty) qos (nd_id node) w4;
             undo = (\<lambda>own w. delete_listener_end td own uw (delete_listener_end td own ur w));
             freed = (\<lambda>w. free_listener uw (free_listener ur w))
         in (case sa_throw a of
           ThrowBind \<Rightarrow> (Raised, give (freed (undo True w3)))
         | ThrowBindSecond \<Rightarrow> (Raised, give (freed (undo True (unbind_endpoint uw w4))))
         | ThrowConstruct \<Rightarrow> (Raised, undo False (give (freed (unbind_endpoint uw (unbind_endpoint ur w5)))))
         | NoThrow \<Rightarrow>
             let (i, w6) = subscribe_graph w5; (c, w7) = add_callback w6;
                 h = \<lparr>sh_request_topic = rq, sh_response_topic = rr, sh_writer = uw, sh_reader = ur,
                      sh_subscription = i, sh_callback = c, sh_name = logical\<rparr>
             in if i = 0 \<or> c = 0
                then (Yields (failure (if sa_shut_after a then ContextShutdown else DDSError)), destroy_client td h w7)
                else (Yields (success h), w7))))))))"

definition destroy_server :: "teardowns \<Rightarrow> ServiceHandle \<Rightarrow> NodeWorld \<Rightarrow> NodeWorld" where
  "destroy_server td h w =
     (let w1 = destroy_request_reader td (sh_reader h) (destroy_response_writer td (sh_writer h) w);
          w2 = unbind_endpoint (sh_reader h) (unbind_endpoint (sh_writer h) w1);
          w3 = give_topic (sh_request_topic h) (give_topic (sh_response_topic h) w2)
      in unsubscribe_graph (sh_subscription h) (free_listener (sh_writer h) w3))"

text \<open>
  The first argument is \<^verbatim>\<open>max_pending_requests\<close>. The subscription is that of the response state,
  and goes with its last owner. The handle has no shutdown callback.
\<close>

definition create_server ::
  "nat \<Rightarrow> Host \<Rightarrow> NodeImpl \<Rightarrow> teardowns \<Rightarrow> ServiceAnswers \<Rightarrow> ServiceType \<Rightarrow> string \<Rightarrow> Qos \<Rightarrow> NodeWorld
    \<Rightarrow> ServiceHandle Outcome \<times> NodeWorld" where
  "create_server max_pending host node td a sty name qos w =
     (if max_pending = 0 then (Yields (failure InvalidArgument), w)
      else case node_resolve node name of
       Inl e \<Rightarrow> (Yields (failure e), w)
     | Inr logical \<Rightarrow> (case rbind (to_reader_qos (h_forever host) qos (h_mode host) (h_reader_baseline host))
           (\<lambda>_. rbind (to_writer_qos (h_forever host) qos (h_mode host) (h_writer_baseline host)) (\<lambda>_. success ())) of
           Inl e \<Rightarrow> (Yields (failure e), w)
         | Inr _ \<Rightarrow>
     if sa_shut a then (Yields (failure ContextShutdown), w)
     else let rq = service_topic_name (h_mode host) logical True;
              rr = service_topic_name (h_mode host) logical False;
              give = (\<lambda>w. give_topic rq (give_topic rr w))
     in (case sa_request_topic a of
       Inl e \<Rightarrow> (Yields (failure e), w)
     | Inr _ \<Rightarrow> (case sa_response_topic a of
       Inl e \<Rightarrow> (Yields (failure e), give_topic rq (hold_topic rq w))
     | Inr _ \<Rightarrow> let (i, w1) = subscribe_graph (hold_topic rr (hold_topic rq w)) in
       if i = 0 then (Yields (failure DDSError), give w1)
       else (case sa_reader a of
       None \<Rightarrow> (Yields (failure DDSError), give (unsubscribe_graph i w1))
     | Some ur \<Rightarrow> let w2 = make_end ur Reader rq False w1 in (case sa_writer a of
       None \<Rightarrow> (Yields (failure DDSError), give (unsubscribe_graph i (delete_end td ur w2)))
     | Some uw \<Rightarrow>
         let w3 = make_end uw Writer rr True w2;
             w4 = bind_endpoint_metadata ur Reader rq (request_type sty) qos (nd_id node) w3;
             w5 = bind_endpoint_metadata uw Writer rr (response_type sty) qos (nd_id node) w4;
             undo = (\<lambda>own w. delete_end td ur (delete_listener_end td own uw w));
             h = \<lparr>sh_request_topic = rq, sh_response_topic = rr, sh_writer = uw, sh_reader = ur,
                  sh_subscription = i, sh_callback = 0, sh_name = logical\<rparr>
         in (case sa_throw a of
           ThrowBind \<Rightarrow> (Raised, give (unsubscribe_graph i (free_listener uw (undo True w3))))
         | ThrowBindSecond \<Rightarrow> (Raised, give (unsubscribe_graph i (free_listener uw (undo True (unbind_endpoint ur w4)))))
         | ThrowConstruct \<Rightarrow> (Raised, undo False (unsubscribe_graph i (give (free_listener uw
             (unbind_endpoint ur (unbind_endpoint uw w5))))))
         | NoThrow \<Rightarrow> (Yields (success h), w5))))))))"

section \<open>Action clients and servers\<close>

record ActionType =
  send_goal_type :: ServiceType
  cancel_goal_type :: ServiceType
  get_result_type :: ServiceType
  feedback_type :: string
  status_type :: string

record ActionQos =
  goal_service_qos :: Qos
  result_service_qos :: Qos
  cancel_service_qos :: Qos
  feedback_topic_qos :: Qos
  status_topic_qos :: Qos

record ActionAnswers =
  aa_shut :: bool
  aa_goal :: ServiceAnswers
  aa_cancel :: ServiceAnswers
  aa_result :: ServiceAnswers
  aa_feedback :: EndAnswers
  aa_status :: EndAnswers
  aa_shut_after :: bool

text \<open>The graph subscription and the shutdown callback of an action client; a server has neither.\<close>

record ActionHandle =
  ah_name :: string
  ah_names :: ActionEndpointNames
  ah_goal :: ServiceHandle
  ah_cancel :: ServiceHandle
  ah_result :: ServiceHandle
  ah_feedback :: TopicHandle
  ah_status :: TopicHandle
  ah_subscription :: u64
  ah_callback :: u64

text \<open>An early return or an exception destroys what was created before.\<close>

definition then_create ::
  "'a Outcome \<times> NodeWorld \<Rightarrow> (NodeWorld \<Rightarrow> NodeWorld) \<Rightarrow> ('a \<Rightarrow> NodeWorld \<Rightarrow> 'b Outcome \<times> NodeWorld) \<Rightarrow> 'b Outcome \<times> NodeWorld" where
  "then_create r undo k = (case r of
       (Raised, w) \<Rightarrow> (Raised, undo w)
     | (Yields (Inl e), w) \<Rightarrow> (Yields (failure e), undo w)
     | (Yields (Inr x), w) \<Rightarrow> k x w)"

definition create_action_client ::
  "Host \<Rightarrow> NodeImpl \<Rightarrow> teardowns \<Rightarrow> ActionAnswers \<Rightarrow> ActionType \<Rightarrow> string \<Rightarrow> ActionQos \<Rightarrow> NodeWorld
    \<Rightarrow> ActionHandle Outcome \<times> NodeWorld" where
  "create_action_client host node td a aty name q w = (case node_resolve node name of
       Inl e \<Rightarrow> (Yields (failure e), w)
     | Inr logical \<Rightarrow> (case derive_action_endpoint_names logical of
           None \<Rightarrow> (Yields (failure InvalidName), w)
         | Some names \<Rightarrow>
     if aa_shut a then (Yields (failure ContextShutdown), w)
     else then_create (create_client host node td (aa_goal a) (send_goal_type aty) (send_goal names) (goal_service_qos q) w)
       (\<lambda>w. w) (\<lambda>goal w.
     let undo1 = destroy_client td goal in
     then_create (create_client host node td (aa_cancel a) (cancel_goal_type aty) (cancel_goal names) (cancel_service_qos q) w)
       undo1 (\<lambda>cancel w.
     let undo2 = (\<lambda>w. undo1 (destroy_client td cancel w)) in
     then_create (create_client host node td (aa_result a) (get_result_type aty) (get_result names) (result_service_qos q) w)
       undo2 (\<lambda>result w.
     let undo3 = (\<lambda>w. undo2 (destroy_client td result w)) in
     then_create (create_subscriber host node td (aa_feedback a) (feedback_type aty) (feedback names) (feedback_topic_qos q) w)
       undo3 (\<lambda>fb w.
     let undo4 = (\<lambda>w. undo3 (destroy_subscriber td False fb w)) in
     then_create (create_subscriber host node td (aa_status a) (status_type aty) (status names) (status_topic_qos q) w)
       undo4 (\<lambda>st w.
     let undo5 = (\<lambda>w. undo4 (destroy_subscriber td False st w));
         (i, w1) = subscribe_graph w; (c, w2) = add_callback w1;
         destroyed = undo5 (unsubscribe_graph i (drop_callback c w2))
     in if i = 0 \<or> c = 0
        then (Yields (failure (if aa_shut_after a then ContextShutdown else DDSError)), destroyed)
        else if aa_shut_after a then (Yields (failure ContextShutdown), destroyed)
        else (Yields (success \<lparr>ah_name = logical, ah_names = names, ah_goal = goal, ah_cancel = cancel,
               ah_result = result, ah_feedback = fb, ah_status = st, ah_subscription = i, ah_callback = c\<rparr>), w2))))))))"

definition destroy_action_client :: "teardowns \<Rightarrow> ActionHandle \<Rightarrow> NodeWorld \<Rightarrow> NodeWorld" where
  "destroy_action_client td h w =
     destroy_client td (ah_goal h) (destroy_client td (ah_cancel h) (destroy_client td (ah_result h)
       (destroy_subscriber td False (ah_feedback h) (destroy_subscriber td False (ah_status h)
         (unsubscribe_graph (ah_subscription h) (drop_callback (ah_callback h) w))))))"

text \<open>\<^verbatim>\<open>ServerOptions{}\<close> has the default capacity; the timeout of results is in nanoseconds.\<close>

definition create_action_server ::
  "nat \<Rightarrow> int \<Rightarrow> Host \<Rightarrow> NodeImpl \<Rightarrow> teardowns \<Rightarrow> ActionAnswers \<Rightarrow> ActionType \<Rightarrow> string \<Rightarrow> ActionQos \<Rightarrow> NodeWorld
    \<Rightarrow> ActionHandle Outcome \<times> NodeWorld" where
  "create_action_server capacity result_timeout host node td a aty name q w =
     (if result_timeout < 0 then (Yields (failure InvalidArgument), w)
      else case node_resolve node name of
       Inl e \<Rightarrow> (Yields (failure e), w)
     | Inr logical \<Rightarrow> (case derive_action_endpoint_names logical of
           None \<Rightarrow> (Yields (failure InvalidName), w)
         | Some names \<Rightarrow>
     if aa_shut a then (Yields (failure ContextShutdown), w)
     else then_create (create_server capacity host node td (aa_goal a) (send_goal_type aty) (send_goal names) (goal_service_qos q) w)
       (\<lambda>w. w) (\<lambda>goal w.
     let undo1 = destroy_server td goal in
     then_create (create_server capacity host node td (aa_cancel a) (cancel_goal_type aty) (cancel_goal names) (cancel_service_qos q) w)
       undo1 (\<lambda>cancel w.
     let undo2 = (\<lambda>w. undo1 (destroy_server td cancel w)) in
     then_create (create_server capacity host node td (aa_result a) (get_result_type aty) (get_result names) (result_service_qos q) w)
       undo2 (\<lambda>result w.
     let undo3 = (\<lambda>w. undo2 (destroy_server td result w)) in
     then_create (create_publisher host node td (aa_feedback a) (feedback_type aty) (feedback names) (feedback_topic_qos q) w)
       undo3 (\<lambda>fb w.
     let undo4 = (\<lambda>w. undo3 (destroy_publisher td False fb w)) in
     then_create (create_publisher host node td (aa_status a) (status_type aty) (status names) (status_topic_qos q) w)
       undo4 (\<lambda>st w.
     let undo5 = (\<lambda>w. undo4 (destroy_publisher td False st w))
     in if aa_shut_after a then (Yields (failure ContextShutdown), undo5 w)
        else (Yields (success \<lparr>ah_name = logical, ah_names = names, ah_goal = goal, ah_cancel = cancel,
               ah_result = result, ah_feedback = fb, ah_status = st, ah_subscription = 0, ah_callback = 0\<rparr>), w))))))))"

definition destroy_action_server :: "teardowns \<Rightarrow> ActionHandle \<Rightarrow> NodeWorld \<Rightarrow> NodeWorld" where
  "destroy_action_server td h w =
     destroy_server td (ah_goal h) (destroy_server td (ah_cancel h) (destroy_server td (ah_result h)
       (destroy_publisher td False (ah_feedback h) (destroy_publisher td False (ah_status h) w))))"

section \<open>Nodes\<close>

text \<open>
  \<^verbatim>\<open>Context::create_node\<close> with the constructor of \<^verbatim>\<open>Node::Impl\<close>. A node that the graph did not
  take has the id 0, and its destructor then releases nothing.
\<close>

definition create_node :: "Arguments \<Rightarrow> NodeOptions \<Rightarrow> bool \<Rightarrow> NodeWorld \<Rightarrow> NodeImpl result \<times> NodeWorld" where
  "create_node global options shut w = (case node_identity global options of
       Inl e \<Rightarrow> (failure e, w)
     | Inr i \<Rightarrow>
         if shut then (failure ContextShutdown, w)
         else let (n, _, g) = add_local_node (id_name i) (id_namespace i) (nw_graph w);
                  w1 = w\<lparr>nw_graph := g\<rparr>;
                  node = \<lparr>nd_name = id_name i, nd_namespace = id_namespace i, nd_remaps = id_remaps i,
                    nd_parameters = new_store (allow_undeclared_parameters options)
                      (select_parameter_overrides (id_overrides i) (id_name i) (fully_qualified_name i)),
                    nd_id = n\<rparr>
              in if n = 0 then (failure DDSError, w1) else (success node, w1))"

definition destroy_node :: "NodeImpl \<Rightarrow> NodeWorld \<Rightarrow> NodeWorld" where
  "destroy_node node w = on_graph (\<lambda>g. snd (release_local_node (nd_id node) g)) w"

section \<open>What is held\<close>

text \<open>The part of the world that creation and destruction are about, without ids and revisions.\<close>

record Holdings =
  hd_topics :: "string multiset"
  hd_ends :: "NodeEnd list"
  hd_orphans :: "string list"
  hd_dangling :: "Guid list"
  hd_retained :: "Guid list"
  hd_entries :: "Qos LocalEndpointRecord list"
  hd_nodes :: "LocalNodeRecord list"
  hd_subscriptions :: "u64 list"
  hd_callbacks :: "(u64, ShutdownChild) umap"

definition holdings :: "NodeWorld \<Rightarrow> Holdings" where
  "holdings w = \<lparr>hd_topics = nw_topics w, hd_ends = nw_ends w, hd_orphans = nw_orphans w,
     hd_dangling = nw_dangling w, hd_retained = nw_retained w, hd_entries = local_endpoints (nw_graph w),
     hd_nodes = local_nodes (nw_graph w), hd_subscriptions = subscriptions (nw_graph w),
     hd_callbacks = shutdown_children (nw_runtime w)\<rparr>"

text \<open>An unavailable graph stays unavailable and refuses every change.\<close>

definition graph_works :: "NodeWorld \<Rightarrow> bool" where
  "graph_works w \<longleftrightarrow> health (nw_graph w) = Healthy"

lemmas world_defs = hold_topic_def give_topic_def make_end_def remove_end_def clear_listener_def retain_def
  free_listener_def on_graph_def bind_endpoint_metadata_def unbind_endpoint_def unsubscribe_graph_def
  drop_callback_def

lemma plain_graph [simp]:
  "nw_graph (hold_topic t w) = nw_graph w" "nw_graph (give_topic t w) = nw_graph w"
  "nw_graph (make_end u k t l w) = nw_graph w" "nw_graph (remove_end u w) = nw_graph w"
  "nw_graph (clear_listener u w) = nw_graph w" "nw_graph (retain own u w) = nw_graph w"
  "nw_graph (free_listener u w) = nw_graph w" "nw_graph (drop_callback c w) = nw_graph w"
  "nw_graph (delete_end td u w) = nw_graph w"
  by (simp_all add: world_defs Let_def delete_end_def)

lemma delete_listener_graph [simp]:
  "nw_graph (delete_listener_end td own u w) = nw_graph w" "nw_graph (destroy_reader td own u w) = nw_graph w"
  "nw_graph (destroy_response_writer td u w) = nw_graph w" "nw_graph (destroy_request_reader td u w) = nw_graph w"
  by (simp_all add: delete_listener_end_def destroy_reader_def destroy_response_writer_def destroy_request_reader_def
      Let_def split: Deletion.splits)

lemma mutate_works: "health (snd (mutate f g)) = Healthy \<Longrightarrow> health g = Healthy"
  by (auto simp: mutate_def split: if_splits)

lemma works_back:
  "graph_works (unbind_endpoint u w) \<Longrightarrow> graph_works w"
  "graph_works (bind_endpoint_metadata u k t y q i w) \<Longrightarrow> graph_works w"
  "graph_works (unsubscribe_graph c w) \<Longrightarrow> graph_works w"
  by (auto simp: graph_works_def world_defs remove_local_endpoint_def add_local_endpoint_def unsubscribe_def
      dest: mutate_works split: if_splits)

text \<open>What a change of the graph does when it works afterwards.\<close>

lemma mutate_worked:
  assumes "health (snd (mutate f g)) = Healthy"
  shows "fst (f g) \<noteq> Invalid" "local_endpoints (snd (mutate f g)) = local_endpoints (snd (f g))"
    "local_nodes (snd (mutate f g)) = local_nodes (snd (f g))"
    "subscriptions (snd (mutate f g)) = subscriptions (snd (f g))"
    "next_subscription (snd (mutate f g)) = next_subscription (snd (f g))"
  using assms by (auto simp: mutate_def Let_def split: if_splits prod.splits GraphMutation.splits)

definition new_entry :: "Guid \<Rightarrow> EndpointKind \<Rightarrow> string \<Rightarrow> string \<Rightarrow> u64 \<Rightarrow> Qos \<Rightarrow> Qos LocalEndpointRecord" where
  "new_entry u k t y i q = \<lparr>le_guid = u, le_kind = k, le_topic = t, le_type = y, le_qos = q, le_node_id = i\<rparr>"

definition one_more :: "u64 \<Rightarrow> LocalNodeRecord list \<Rightarrow> LocalNodeRecord list" where
  "one_more i ns = upd_first (\<lambda>n. ln_id n = i) (\<lambda>n. n\<lparr>references := references n + 1\<rparr>) ns"

definition node_live :: "u64 \<Rightarrow> LocalNodeRecord list \<Rightarrow> bool" where
  "node_live i ns \<longleftrightarrow> i \<noteq> 0 \<and> (\<exists>n. find (\<lambda>n. ln_id n = i) ns = Some n \<and> references n \<noteq> 0)"

lemma find_one_more: "find (\<lambda>n. ln_id n = i) (one_more i ns) =
    map_option (\<lambda>n. n\<lparr>references := references n + 1\<rparr>) (find (\<lambda>n. ln_id n = i) ns)"
  unfolding one_more_def by (rule find_upd_first_same) simp

lemma node_live_more [simp]: "node_live i ns \<Longrightarrow> node_live i (one_more i ns)"
  by (auto simp: node_live_def find_one_more)

lemma upd_first_undo: "(\<And>x. p x \<Longrightarrow> p (f x)) \<Longrightarrow> (\<And>x. g (f x) = x) \<Longrightarrow> upd_first p g (upd_first p f xs) = xs"
  by (induction xs) auto

lemma drop_one_more: "node_live i ns \<Longrightarrow> drop_reference i (one_more i ns) = ns"
proof -
  assume live: "node_live i ns"
  have undone: "upd_first (\<lambda>n. ln_id n = i) (\<lambda>n. n\<lparr>references := references n - 1\<rparr>) (one_more i ns) = ns"
    unfolding one_more_def by (rule upd_first_undo) simp_all
  show ?thesis using live unfolding drop_reference_def undone Let_def by (auto simp: node_live_def)
qed

lemma bind_worked:
  assumes "graph_works (bind_endpoint_metadata u k t y q i w)" "node_live i (hd_nodes (holdings w))"
    "\<not> u \<in> le_guid ` set (hd_entries (holdings w))"
  shows "holdings (bind_endpoint_metadata u k t y q i w) = (holdings w)
      \<lparr>hd_entries := hd_entries (holdings w) @ [new_entry u k t y i q], hd_nodes := one_more i (hd_nodes (holdings w))\<rparr>"
    "next_subscription (nw_graph (bind_endpoint_metadata u k t y q i w)) = next_subscription (nw_graph w)"
    "nw_runtime (bind_endpoint_metadata u k t y q i w) = nw_runtime w"
proof -
  let ?c = "local_endpoint_change u k t y i q" and ?g = "nw_graph w"
  from assms(2) have i: "i \<noteq> 0" by (simp add: node_live_def)
  have h: "health (snd (mutate ?c ?g)) = Healthy"
    using assms(1) i by (simp add: graph_works_def world_defs add_local_endpoint_def)
  have "find (\<lambda>e. le_guid e = u) (local_endpoints ?g) = None"
    using assms(3) by (auto simp: holdings_def find_None_iff)
  moreover obtain n where "find (\<lambda>n. ln_id n = i) (local_nodes ?g) = Some n"
    using assms(2) by (auto simp: node_live_def holdings_def)
  ultimately have c: "?c ?g = (Changed, ?g\<lparr>local_nodes := one_more i (local_nodes ?g),
      local_endpoints := local_endpoints ?g @ [new_entry u k t y i q]\<rparr>)"
    by (simp add: local_endpoint_change_def one_more_def new_entry_def)
  show "holdings (bind_endpoint_metadata u k t y q i w) = (holdings w)
      \<lparr>hd_entries := hd_entries (holdings w) @ [new_entry u k t y i q], hd_nodes := one_more i (hd_nodes (holdings w))\<rparr>"
    using mutate_worked(2-4) [OF h] i by (simp add: holdings_def world_defs add_local_endpoint_def c)
  show "next_subscription (nw_graph (bind_endpoint_metadata u k t y q i w)) = next_subscription (nw_graph w)"
    using mutate_worked(5) [OF h] i by (simp add: world_defs add_local_endpoint_def c)
  show "nw_runtime (bind_endpoint_metadata u k t y q i w) = nw_runtime w" by (simp add: world_defs)
qed

definition without_entry :: "Guid \<Rightarrow> Holdings \<Rightarrow> Holdings" where
  "without_entry u h = (case find (\<lambda>e. le_guid e = u) (hd_entries h) of
       None \<Rightarrow> h
     | Some e \<Rightarrow> h\<lparr>hd_entries := del_first (\<lambda>e. le_guid e = u) (hd_entries h),
                  hd_nodes := drop_reference (le_node_id e) (hd_nodes h)\<rparr>)"

lemma unbind_worked:
  assumes "graph_works (unbind_endpoint u w)"
  shows "holdings (unbind_endpoint u w) = without_entry u (holdings w)"
proof -
  have h: "health (snd (mutate (remove_endpoint_change u) (nw_graph w))) = Healthy"
    using assms by (simp add: graph_works_def world_defs remove_local_endpoint_def)
  show ?thesis
    using mutate_worked(2-4) [OF h]
    by (simp add: holdings_def world_defs remove_local_endpoint_def remove_endpoint_change_def without_entry_def
        split: option.splits)
qed

section \<open>Undoing\<close>

text \<open>Fast DDS does what it is asked when endpoints are torn down.\<close>

definition cooperative :: "teardowns \<Rightarrow> bool" where
  "cooperative td \<longleftrightarrow> (\<forall>u. td_detach (td u) \<and> td_delete (td u) = Deleted \<and> td_closed (td u))"

lemma remove_clear [simp]: "remove_end u (clear_listener u w) = remove_end u w"
proof -
  have "filter (\<lambda>e. ne_guid e \<noteq> u) (map (\<lambda>e. if ne_guid e = u then e\<lparr>ne_listener := False\<rparr> else e) es) =
      filter (\<lambda>e. ne_guid e \<noteq> u) es" for es by (induction es) auto
  from this [of "nw_ends w"] show ?thesis by (simp add: remove_end_def clear_listener_def)
qed

lemma cooperative_ends:
  assumes "cooperative td"
  shows "delete_end td u w = remove_end u w" "delete_listener_end td own u w = remove_end u w"
    "destroy_reader td own u w = remove_end u w" "destroy_response_writer td u w = remove_end u w"
    "destroy_request_reader td u w = remove_end u w"
  using assms by (simp_all add: cooperative_def delete_end_def delete_listener_end_def destroy_reader_def
      destroy_response_writer_def destroy_request_reader_def Let_def)

lemma free_absent: "\<not> u \<in> ne_guid ` set (nw_ends w) \<Longrightarrow> free_listener u w = w"
  by (auto simp: free_listener_def list_ex_iff)

text \<open>
  A world in order: an endpoint stands on a topic that is held, and the next ids are not in use.
  It is ready for a node and for endpoints with the GUIDs \<open>G\<close> when the node is in the graph and
  the GUIDs are new, as GUIDs of new DDS endpoints are.
\<close>

definition fit :: "NodeWorld \<Rightarrow> bool" where
  "fit w \<longleftrightarrow> (\<forall>e \<in> set (nw_ends w). ne_topic e \<in># nw_topics w) \<and>
     (\<forall>i \<in> set (subscriptions (nw_graph w)). i \<le> next_subscription (nw_graph w)) \<and>
     (\<forall>c \<in> fst ` set (shutdown_children (nw_runtime w)).
        next_shutdown_callback_id (nw_runtime w) = 0 \<or> c < next_shutdown_callback_id (nw_runtime w))"

definition ready :: "u64 \<Rightarrow> Guid set \<Rightarrow> NodeWorld \<Rightarrow> bool" where
  "ready i G w \<longleftrightarrow> fit w \<and> node_live i (local_nodes (nw_graph w)) \<and>
     (\<forall>u \<in> G. \<not> u \<in> ne_guid ` set (nw_ends w) \<and> \<not> u \<in> le_guid ` set (local_endpoints (nw_graph w)))"

text \<open>The effect of the plain operations on what is held.\<close>

definition h_give :: "string \<Rightarrow> Holdings \<Rightarrow> Holdings" where
  "h_give t h = (let left = hd_topics h - {#t#} in h\<lparr>hd_topics := left,
     hd_orphans := (if \<not> t \<in># left \<and> list_ex (\<lambda>e. ne_topic e = t) (hd_ends h) then t # hd_orphans h else hd_orphans h)\<rparr>)"

definition h_remove :: "Guid \<Rightarrow> Holdings \<Rightarrow> Holdings" where
  "h_remove u h = h\<lparr>hd_ends := filter (\<lambda>e. ne_guid e \<noteq> u) (hd_ends h)\<rparr>"

lemma holdings_plain:
  "holdings (hold_topic t w) = (holdings w)\<lparr>hd_topics := add_mset t (hd_topics (holdings w))\<rparr>"
  "holdings (give_topic t w) = h_give t (holdings w)"
  "holdings (make_end u k t l w) = (holdings w)\<lparr>hd_ends := hd_ends (holdings w) @
     [\<lparr>ne_guid = u, ne_kind = k, ne_topic = t, ne_listener = l\<rparr>]\<rparr>"
  "holdings (remove_end u w) = h_remove u (holdings w)"
  "holdings (unsubscribe_graph i w) = (if i = 0 then holdings w else
     (holdings w)\<lparr>hd_subscriptions := del_first (\<lambda>j. j = i) (hd_subscriptions (holdings w))\<rparr>)"
  "holdings (drop_callback c w) = (if c = 0 then holdings w else
     (holdings w)\<lparr>hd_callbacks := um_erase c (hd_callbacks (holdings w))\<rparr>)"
  by (simp_all add: holdings_def world_defs h_give_def h_remove_def unsubscribe_def unregister_shutdown_callback_def Let_def)

lemma ends_in_holdings: "nw_ends w = hd_ends (holdings w)"
  by (simp add: holdings_def)

lemma without_entry_ends [simp]: "hd_ends (without_entry u h) = hd_ends h"
  by (simp add: without_entry_def split: option.splits)

lemma without_last:
  assumes "hd_entries h = es @ [new_entry u k t y i q]" "\<not> u \<in> le_guid ` set es"
    "hd_nodes h = one_more i ns" "node_live i ns"
  shows "without_entry u h = h\<lparr>hd_entries := es, hd_nodes := ns\<rparr>"
proof -
  have "find (\<lambda>e. le_guid e = u) (es @ [new_entry u k t y i q]) = Some (new_entry u k t y i q)"
    using assms(2) by (induction es) (auto simp: new_entry_def)
  moreover have "del_first (\<lambda>e. le_guid e = u) (es @ [new_entry u k t y i q]) = es"
    using assms(2) by (induction es) (auto simp: new_entry_def)
  ultimately show ?thesis
    by (simp add: without_entry_def assms(1,3) drop_one_more [OF assms(4)] new_entry_def)
qed

lemma h_give_fit: "(\<forall>e \<in> set (hd_ends h). ne_topic e \<in># T) \<Longrightarrow> hd_topics h = add_mset t T \<Longrightarrow> h_give t h = h\<lparr>hd_topics := T\<rparr>"
  by (auto simp: h_give_def list_ex_iff Let_def)

lemma filter_absent: "\<not> u \<in> ne_guid ` set es \<Longrightarrow> filter (\<lambda>e. ne_guid e \<noteq> u) es = es"
  by (induction es) auto

text \<open>An undo brings back what was held, whatever came and went in between.\<close>

definition undoes :: "(NodeWorld \<Rightarrow> NodeWorld) \<Rightarrow> NodeWorld \<Rightarrow> NodeWorld \<Rightarrow> bool" where
  "undoes undo w w1 \<longleftrightarrow> (\<forall>w'. graph_works (undo w') \<longrightarrow> graph_works w') \<and>
     (\<forall>w'. holdings w' = holdings w1 \<longrightarrow> graph_works (undo w') \<longrightarrow> holdings (undo w') = holdings w)"

lemma undoes_id [simp]: "undoes (\<lambda>w. w) w w"
  by (simp add: undoes_def)

lemma undoes_comp: "undoes f w w1 \<Longrightarrow> undoes g w1 w2 \<Longrightarrow> undoes (\<lambda>w. f (g w)) w w2"
  unfolding undoes_def by blast

text \<open>
  What a creation promises: it works only on a graph that works, a failure leaves nothing behind,
  and a success leaves a world that is ready for the next and can be undone.
\<close>

definition promised :: "u64 \<Rightarrow> Guid set \<Rightarrow> ('a \<Rightarrow> NodeWorld \<Rightarrow> NodeWorld) \<Rightarrow> NodeWorld \<Rightarrow> 'a Outcome \<times> NodeWorld \<Rightarrow> bool" where
  "promised i G undo w r \<longleftrightarrow> (graph_works (snd r) \<longrightarrow> graph_works w \<and> (case fst r of
       Yields (Inr h) \<Rightarrow> ready i G (snd r) \<and> undoes (undo h) w (snd r)
     | _ \<Rightarrow> holdings (snd r) = holdings w))"

lemma promised_same: "promised i G undo w (Yields (failure e), w)"
  by (simp add: promised_def)

lemma destroy_topic_undoes:
  assumes "ready i {u} w"
    and w1: "holdings w1 = (holdings w)\<lparr>hd_topics := add_mset t (hd_topics (holdings w)), hd_ends := hd_ends (holdings w) @
       [\<lparr>ne_guid = u, ne_kind = k, ne_topic = t, ne_listener = False\<rparr>],
       hd_entries := hd_entries (holdings w) @ [new_entry u k t y i q], hd_nodes := one_more i (hd_nodes (holdings w))\<rparr>"
  shows "undoes (\<lambda>w. give_topic t (unbind_endpoint u (remove_end u w))) w w1"
  unfolding undoes_def
proof (intro conjI allI impI)
  fix w' assume "graph_works (give_topic t (unbind_endpoint u (remove_end u w')))"
  then show "graph_works w'" using works_back(1) [of u "remove_end u w'"] by (simp add: graph_works_def)
next
  fix w' assume same: "holdings w' = holdings w1" and works: "graph_works (give_topic t (unbind_endpoint u (remove_end u w')))"
  from works have works: "graph_works (unbind_endpoint u (remove_end u w'))" by (simp add: graph_works_def)
  have node: "node_live i (hd_nodes (holdings w))" and u: "\<not> u \<in> ne_guid ` set (hd_ends (holdings w))"
      "\<not> u \<in> le_guid ` set (hd_entries (holdings w))"
    and fit: "\<forall>e \<in> set (hd_ends (holdings w)). ne_topic e \<in># hd_topics (holdings w)"
    using assms(1) by (simp_all add: ready_def fit_def holdings_def)
  let ?h = "holdings w"
  have 1: "holdings (remove_end u w') = ?h\<lparr>hd_topics := add_mset t (hd_topics ?h),
      hd_entries := hd_entries ?h @ [new_entry u k t y i q], hd_nodes := one_more i (hd_nodes ?h)\<rparr>"
    using u(1) unfolding holdings_plain same w1 by (simp add: h_remove_def filter_absent)
  have 2: "holdings (unbind_endpoint u (remove_end u w')) = ?h\<lparr>hd_topics := add_mset t (hd_topics ?h)\<rparr>"
    unfolding unbind_worked [OF works] 1
    by (subst without_last [where es = "hd_entries ?h" and ns = "hd_nodes ?h"]) (use u node in simp_all)
  show "holdings (give_topic t (unbind_endpoint u (remove_end u w'))) = ?h"
    unfolding holdings_plain 2 by (subst h_give_fit [where T = "hd_topics ?h"]) (use fit in simp_all)
qed

lemma ready_facts:
  assumes "ready i G w"
  shows "node_live i (hd_nodes (holdings w))" "\<forall>e \<in> set (hd_ends (holdings w)). ne_topic e \<in># hd_topics (holdings w)"
    "\<And>u. u \<in> G \<Longrightarrow> \<not> u \<in> ne_guid ` set (hd_ends (holdings w))" "\<And>u. u \<in> G \<Longrightarrow> \<not> u \<in> le_guid ` set (hd_entries (holdings w))"
    "\<forall>i \<in> set (hd_subscriptions (holdings w)). i \<le> next_subscription (nw_graph w)"
    "\<forall>c \<in> fst ` set (hd_callbacks (holdings w)).
        next_shutdown_callback_id (nw_runtime w) = 0 \<or> c < next_shutdown_callback_id (nw_runtime w)"
  using assms by (simp_all add: ready_def fit_def holdings_def)

lemma readyI:
  assumes "node_live i (hd_nodes (holdings w))" "\<forall>e \<in> set (hd_ends (holdings w)). ne_topic e \<in># hd_topics (holdings w)"
    "\<And>u. u \<in> G \<Longrightarrow> \<not> u \<in> ne_guid ` set (hd_ends (holdings w))" "\<And>u. u \<in> G \<Longrightarrow> \<not> u \<in> le_guid ` set (hd_entries (holdings w))"
    "\<forall>i \<in> set (hd_subscriptions (holdings w)). i \<le> next_subscription (nw_graph w)"
    "\<forall>c \<in> fst ` set (hd_callbacks (holdings w)).
        next_shutdown_callback_id (nw_runtime w) = 0 \<or> c < next_shutdown_callback_id (nw_runtime w)"
  shows "ready i G w"
  using assms by (simp add: ready_def fit_def holdings_def)

lemma ready_sub: "ready i G w \<Longrightarrow> G' \<subseteq> G \<Longrightarrow> ready i G' w"
  by (auto simp: ready_def)

lemma give_held: "ready i G w \<Longrightarrow> holdings (give_topic t (hold_topic t w)) = holdings w"
  unfolding holdings_plain by (subst h_give_fit [where T = "hd_topics (holdings w)"]) (use ready_facts(2) in simp_all)

lemma topic_promised:
  assumes td: "cooperative td" and ready: "ready (nd_id node) (set_option (ea_made a) \<union> G) w"
    and apart: "set_option (ea_made a) \<inter> G = {}" and throw: "ea_throw a \<noteq> ThrowConstruct"
    and destroy: "\<And>h w. destroy h w = give_topic (th_topic h) (unbind_endpoint (th_guid h) (remove_end (th_guid h) w))"
  shows "promised (nd_id node) G destroy w (create_topic_endpoint kind native host node td a type name qos w)"
proof -
  let ?H = "holdings w" and ?r = "create_topic_endpoint kind native host node td a type name qos w"
  have made: "promised (nd_id node) G destroy w (case ea_throw a of
        NoThrow \<Rightarrow> (Yields (success \<lparr>th_guid = u, th_topic = t, th_name = logical\<rparr>),
          bind_endpoint_metadata u kind t type qos (nd_id node) (make_end u kind t False (hold_topic t w)))
      | ThrowConstruct \<Rightarrow> x
      | _ \<Rightarrow> (Raised, give_topic t (remove_end u (make_end u kind t False (hold_topic t w)))))"
    if made: "ea_made a = Some u" for t u logical x
  proof -
    let ?w1 = "make_end u kind t False (hold_topic t w)"
    let ?w2 = "bind_endpoint_metadata u kind t type qos (nd_id node) ?w1"
    note f = ready_facts [OF ready]
    have u: "\<not> u \<in> ne_guid ` set (hd_ends ?H)" "\<not> u \<in> le_guid ` set (hd_entries ?H)" using f(3,4) made by auto
    have rest: "holdings (give_topic t (remove_end u ?w1)) = ?H"
    proof -
      have "holdings (remove_end u ?w1) = ?H\<lparr>hd_topics := add_mset t (hd_topics ?H)\<rparr>"
        unfolding holdings_plain using u(1) by (simp add: h_remove_def filter_absent)
      then show ?thesis unfolding holdings_plain(2)
        by (simp only:) (subst h_give_fit [where T = "hd_topics ?H"], use f(2) in simp_all)
    qed
    have bound: "promised (nd_id node) G destroy w (Yields (success \<lparr>th_guid = u, th_topic = t, th_name = logical\<rparr>), ?w2)"
    proof (unfold promised_def fst_conv snd_conv Outcome.case sum.case, intro impI conjI)
      assume works: "graph_works ?w2"
      then show "graph_works w" using works_back(2) by (fastforce simp: graph_works_def)
      have H1: "holdings ?w1 = ?H\<lparr>hd_topics := add_mset t (hd_topics ?H), hd_ends := hd_ends ?H @
         [\<lparr>ne_guid = u, ne_kind = kind, ne_topic = t, ne_listener = False\<rparr>]\<rparr>" by (simp add: holdings_plain)
      note b = bind_worked [OF works, unfolded H1]
      from b(1) u f(1) have H2: "holdings ?w2 = ?H\<lparr>hd_topics := add_mset t (hd_topics ?H), hd_ends := hd_ends ?H @
         [\<lparr>ne_guid = u, ne_kind = kind, ne_topic = t, ne_listener = False\<rparr>],
         hd_entries := hd_entries ?H @ [new_entry u kind t type (nd_id node) qos], hd_nodes := one_more (nd_id node) (hd_nodes ?H)\<rparr>"
        by simp
      have n: "next_subscription (nw_graph ?w2) = next_subscription (nw_graph w)" "nw_runtime ?w2 = nw_runtime w"
        using b(2,3) u f(1) by (simp_all add: world_defs)
      show "ready (nd_id node) G ?w2"
        using f u apart made by (intro readyI) (auto simp: H2 n new_entry_def)
      show "undoes (destroy \<lparr>th_guid = u, th_topic = t, th_name = logical\<rparr>) w ?w2"
        using destroy_topic_undoes [OF ready_sub [OF ready] H2] made
        by (simp add: destroy [abs_def])
    qed
    have raised: "promised (nd_id node) G destroy w (Raised, give_topic t (remove_end u ?w1))"
      using rest by (simp add: promised_def graph_works_def)
    show ?thesis using bound raised throw by (cases "ea_throw a") simp_all
  qed
  have none: "promised (nd_id node) G destroy w (Yields (failure e), give_topic t (hold_topic t w))" for t e
    using give_held [OF ready] by (simp add: promised_def graph_works_def)
  show ?thesis unfolding create_topic_endpoint_def Let_def cooperative_ends [OF td]
    by (cases "node_resolve node name"; cases native; cases "ea_shut a"; cases "ea_topic a"; cases "ea_made a")
      (simp_all add: promised_same none made)
qed

text \<open>Two endpoints bound one after the other, and taken down again.\<close>

lemma pair_bound:
  assumes works: "graph_works (bind_endpoint_metadata u2 k2 t2 y2 q i (bind_endpoint_metadata u1 k1 t1 y1 q i w))"
    and live: "node_live i (hd_nodes (holdings w))" and new: "\<not> u1 \<in> le_guid ` set (hd_entries (holdings w))"
      "\<not> u2 \<in> le_guid ` set (hd_entries (holdings w))" "u1 \<noteq> u2"
  defines "w2 \<equiv> bind_endpoint_metadata u2 k2 t2 y2 q i (bind_endpoint_metadata u1 k1 t1 y1 q i w)"
  shows "holdings w2 = (holdings w)\<lparr>hd_entries := hd_entries (holdings w) @ [new_entry u1 k1 t1 y1 i q, new_entry u2 k2 t2 y2 i q],
      hd_nodes := one_more i (one_more i (hd_nodes (holdings w)))\<rparr>"
    "next_subscription (nw_graph w2) = next_subscription (nw_graph w)" "nw_runtime w2 = nw_runtime w" "graph_works w"
proof -
  let ?w1 = "bind_endpoint_metadata u1 k1 t1 y1 q i w"
  have works1: "graph_works ?w1" using works_back(2) [OF works] .
  note b1 = bind_worked [OF works1 live new(1)]
  have new2: "\<not> u2 \<in> le_guid ` set (hd_entries (holdings ?w1))" using new by (simp add: b1(1) new_entry_def)
  have live2: "node_live i (hd_nodes (holdings ?w1))" using live by (simp add: b1(1))
  note b2 = bind_worked [OF works live2 new2]
  show "holdings w2 = (holdings w)\<lparr>hd_entries := hd_entries (holdings w) @ [new_entry u1 k1 t1 y1 i q, new_entry u2 k2 t2 y2 i q],
      hd_nodes := one_more i (one_more i (hd_nodes (holdings w)))\<rparr>"
    unfolding w2_def b2(1) b1(1) by simp
  show "next_subscription (nw_graph w2) = next_subscription (nw_graph w)" "nw_runtime w2 = nw_runtime w"
    unfolding w2_def by (simp_all add: b2(2,3) b1(2,3))
  show "graph_works w" using works_back(2) [OF works1] .
qed

lemma pair_undone:
  assumes x: "holdings x = h\<lparr>hd_ends := hd_ends h @ [e1, e2],
      hd_entries := hd_entries h @ [new_entry u1 k1 t1 y1 i q, new_entry u2 k2 t2 y2 i q],
      hd_nodes := one_more i (one_more i (hd_nodes h))\<rparr>"
    and new: "\<not> u1 \<in> ne_guid ` set (hd_ends h)" "\<not> u2 \<in> ne_guid ` set (hd_ends h)" "{ne_guid e1, ne_guid e2} = {u1, u2}"
      "\<not> u1 \<in> le_guid ` set (hd_entries h)" "\<not> u2 \<in> le_guid ` set (hd_entries h)" "u1 \<noteq> u2"
    and live: "node_live i (hd_nodes h)" and ab: "{a, b} = {u1, u2}"
    and works: "graph_works (unbind_endpoint u1 (unbind_endpoint u2 (remove_end a (remove_end b x))))"
  shows "holdings (unbind_endpoint u1 (unbind_endpoint u2 (remove_end a (remove_end b x)))) = h"
proof -
  have keep: "filter (\<lambda>e. ne_guid e \<noteq> a) (filter (\<lambda>e. ne_guid e \<noteq> b) (hd_ends h)) = hd_ends h"
    using new(1,2) ab by (subst (2) filter_absent, auto intro!: filter_absent)
  have gone: "filter (\<lambda>e. ne_guid e \<noteq> a) (filter (\<lambda>e. ne_guid e \<noteq> b) [e1, e2]) = []"
    using ab new(3) by (auto simp: doubleton_eq_iff)
  have 1: "holdings (remove_end a (remove_end b x)) = h\<lparr>
      hd_entries := (hd_entries h @ [new_entry u1 k1 t1 y1 i q]) @ [new_entry u2 k2 t2 y2 i q],
      hd_nodes := one_more i (one_more i (hd_nodes h))\<rparr>"
    using keep gone unfolding holdings_plain x h_remove_def by simp
  have 2: "holdings (unbind_endpoint u2 (remove_end a (remove_end b x))) = h\<lparr>
      hd_entries := hd_entries h @ [new_entry u1 k1 t1 y1 i q], hd_nodes := one_more i (hd_nodes h)\<rparr>"
    unfolding unbind_worked [OF works_back(1) [OF works]] 1
    by (subst without_last [where es = "hd_entries h @ [new_entry u1 k1 t1 y1 i q]" and ns = "one_more i (hd_nodes h)"])
      (use new live in \<open>auto simp: new_entry_def\<close>)
  show ?thesis
    unfolding unbind_worked [OF works] 2
    by (subst without_last [where es = "hd_entries h" and ns = "hd_nodes h"]) (use new live in simp_all)
qed

text \<open>Both topics of a service given back, in either order.\<close>

lemma give_two:
  assumes "\<forall>e \<in> set (hd_ends h). ne_topic e \<in># hd_topics h"
  shows "h_give s (h_give t (h\<lparr>hd_topics := add_mset t (add_mset s (hd_topics h))\<rparr>)) = h"
    "h_give t (h_give s (h\<lparr>hd_topics := add_mset t (add_mset s (hd_topics h))\<rparr>)) = h"
  using assms by (auto simp: h_give_def list_ex_iff Let_def)

lemma subscribed:
  assumes "subscribe_graph w = (i, w1)"
  shows "i = 0 \<Longrightarrow> \<not> graph_works w1"
    and "i \<noteq> 0 \<Longrightarrow> holdings w1 = (holdings w)\<lparr>hd_subscriptions := hd_subscriptions (holdings w) @ [i]\<rparr>"
    and "i \<noteq> 0 \<Longrightarrow> next_subscription (nw_graph w1) = i" "i \<noteq> 0 \<Longrightarrow> next_subscription (nw_graph w) < i"
    and "i \<noteq> 0 \<Longrightarrow> graph_works w1 = graph_works w" "nw_runtime w1 = nw_runtime w" "nw_ends w1 = nw_ends w"
  using assms u64_inc_gt [of "next_subscription (nw_graph w)"] u64_inc_nonzero [of "next_subscription (nw_graph w)"]
  by (auto simp: subscribe_graph_def subscribe_def Let_def holdings_def graph_works_def split: if_splits prod.splits)

lemma called_back:
  assumes "add_callback w = (c, w1)"
  shows "c = 0 \<Longrightarrow> w1 = w"
    and "c \<noteq> 0 \<Longrightarrow> holdings w1 = (holdings w)\<lparr>hd_callbacks := um_emplace c \<lparr>requested = False, acknowledged = False\<rparr> (hd_callbacks (holdings w))\<rparr>"
    and "c \<noteq> 0 \<Longrightarrow> next_shutdown_callback_id (nw_runtime w1) = c + 1" "c \<noteq> 0 \<Longrightarrow> next_shutdown_callback_id (nw_runtime w) = c"
    and "nw_graph w1 = nw_graph w"
  using assms by (auto simp: add_callback_def register_shutdown_callback_def holdings_def split: if_splits prod.splits)

lemma erase_emplaced: "\<not> c \<in> fst ` set m \<Longrightarrow> um_erase c (um_emplace c x m) = m"
  by (induction m) (auto simp: um_erase_def um_emplace_def map_of_eq_None_iff split: if_splits)

lemma next_id_above: "c + 1 = 0 \<or> c < c + 1 \<and> (d < c \<longrightarrow> d < c + 1)" for c d :: u64
  using u64_inc_gt [of c] by (cases "c = u64_max") (auto simp: u64_max_def)

lemma del_first_last: "\<not> i \<in> set xs \<Longrightarrow> del_first (\<lambda>j. j = i) (xs @ [i]) = xs"
  by (induction xs) auto

lemma ends_simps [simp]:
  "nw_ends (hold_topic t w) = nw_ends w" "nw_ends (give_topic t w) = nw_ends w"
  "nw_ends (unbind_endpoint u w) = nw_ends w" "nw_ends (bind_endpoint_metadata u k t y q i w) = nw_ends w"
  "nw_ends (unsubscribe_graph i w) = nw_ends w" "nw_ends (drop_callback c w) = nw_ends w"
  "nw_ends (remove_end u w) = filter (\<lambda>e. ne_guid e \<noteq> u) (nw_ends w)"
  by (simp_all add: world_defs Let_def)

lemma free_removed: "\<forall>e \<in> set (nw_ends w). ne_guid e \<noteq> u \<Longrightarrow> free_listener u w = w"
  by (rule free_absent) auto

lemma remove_made: "\<not> u \<in> ne_guid ` set (nw_ends w) \<Longrightarrow> remove_end u (make_end u k t l w) = w"
  by (simp add: world_defs filter_absent)

lemma destroy_client_simp:
  "cooperative td \<Longrightarrow> destroy_client td h w =
     give_topic (sh_request_topic h) (give_topic (sh_response_topic h)
       (unbind_endpoint (sh_writer h) (unbind_endpoint (sh_reader h) (remove_end (sh_writer h) (remove_end (sh_reader h)
         (drop_callback (sh_callback h) (unsubscribe_graph (sh_subscription h) w)))))))"
  by (simp add: destroy_client_def Let_def cooperative_ends free_removed)

lemma destroy_server_simp:
  "cooperative td \<Longrightarrow> destroy_server td h w =
     unsubscribe_graph (sh_subscription h) (give_topic (sh_request_topic h) (give_topic (sh_response_topic h)
       (unbind_endpoint (sh_reader h) (unbind_endpoint (sh_writer h) (remove_end (sh_reader h) (remove_end (sh_writer h) w))))))"
  by (simp add: destroy_server_def Let_def cooperative_ends free_removed)

lemma destroy_client_works:
  assumes "cooperative td" "graph_works (destroy_client td h w)"
  shows "graph_works w"
proof -
  have "graph_works (unbind_endpoint (sh_writer h) (unbind_endpoint (sh_reader h) (remove_end (sh_writer h) (remove_end (sh_reader h)
      (drop_callback (sh_callback h) (unsubscribe_graph (sh_subscription h) w))))))"
    using assms(2) by (simp add: destroy_client_simp [OF assms(1)] graph_works_def)
  from works_back(1) [OF works_back(1) [OF this]] have "graph_works (unsubscribe_graph (sh_subscription h) w)"
    by (simp add: graph_works_def)
  then show ?thesis by (rule works_back(3))
qed

lemma client_undoes:
  fixes name :: string
  assumes td: "cooperative td" and ready: "ready i {uw, ur} w" "uw \<noteq> ur"
    and w1: "holdings w1 = (holdings w)\<lparr>hd_topics := add_mset rr (add_mset rq (hd_topics (holdings w))),
      hd_ends := hd_ends (holdings w) @ [\<lparr>ne_guid = uw, ne_kind = Writer, ne_topic = rq, ne_listener = True\<rparr>,
        \<lparr>ne_guid = ur, ne_kind = Reader, ne_topic = rr, ne_listener = True\<rparr>],
      hd_entries := hd_entries (holdings w) @ [new_entry uw Writer rq y1 i q, new_entry ur Reader rr y2 i q],
      hd_nodes := one_more i (one_more i (hd_nodes (holdings w))),
      hd_subscriptions := hd_subscriptions (holdings w) @ [s],
      hd_callbacks := (if c = 0 then hd_callbacks (holdings w) else um_emplace c x (hd_callbacks (holdings w)))\<rparr>"
    and s: "s \<noteq> 0" "\<not> s \<in> set (hd_subscriptions (holdings w))"
    and c: "c \<noteq> 0 \<longrightarrow> \<not> c \<in> fst ` set (hd_callbacks (holdings w))"
  defines "h \<equiv> \<lparr>sh_request_topic = rq, sh_response_topic = rr, sh_writer = uw, sh_reader = ur,
      sh_subscription = s, sh_callback = c, sh_name = name\<rparr>"
  shows "undoes (destroy_client td h) w w1"
  unfolding undoes_def
proof (intro conjI allI impI)
  show "graph_works w'" if "graph_works (destroy_client td h w')" for w'
    using destroy_client_works [OF td that] .
next
  fix w' assume same: "holdings w' = holdings w1" and works: "graph_works (destroy_client td h w')"
  let ?x = "drop_callback c (unsubscribe_graph s w')" and ?T = "hd_topics (holdings w)"
  let ?h = "(holdings w)\<lparr>hd_topics := add_mset rr (add_mset rq ?T)\<rparr>"
  note f = ready_facts [OF ready(1)]
  have x: "holdings ?x = ?h\<lparr>hd_ends := hd_ends ?h @ [\<lparr>ne_guid = uw, ne_kind = Writer, ne_topic = rq, ne_listener = True\<rparr>,
        \<lparr>ne_guid = ur, ne_kind = Reader, ne_topic = rr, ne_listener = True\<rparr>],
      hd_entries := hd_entries ?h @ [new_entry uw Writer rq y1 i q, new_entry ur Reader rr y2 i q],
      hd_nodes := one_more i (one_more i (hd_nodes ?h))\<rparr>"
    unfolding holdings_plain same w1 using s c by (simp add: del_first_last erase_emplaced)
  have "graph_works (unbind_endpoint uw (unbind_endpoint ur (remove_end uw (remove_end ur ?x))))"
    using works by (simp add: destroy_client_simp [OF td] graph_works_def h_def)
  from pair_undone [OF x _ _ _ _ _ _ _ _ this]
  have "holdings (unbind_endpoint uw (unbind_endpoint ur (remove_end uw (remove_end ur ?x)))) = ?h"
    using f(1,3,4) ready(2) by simp
  then show "holdings (destroy_client td h w') = holdings w"
    unfolding destroy_client_simp [OF td] holdings_plain(2) using give_two(1) [OF f(2)] by (simp add: h_def)
qed

lemma client_promised:
  assumes td: "cooperative td" and ready: "ready (nd_id node) (set_option (sa_writer a) \<union> set_option (sa_reader a) \<union> G) w"
    and apart: "set_option (sa_writer a) \<inter> G = {}" "set_option (sa_reader a) \<inter> G = {}"
      "set_option (sa_writer a) \<inter> set_option (sa_reader a) = {}"
    and throw: "sa_throw a \<noteq> ThrowConstruct"
  shows "promised (nd_id node) G (destroy_client td) w (create_client host node td a sty name qos w)"
proof -
  let ?H = "holdings w" and ?i = "nd_id node"
  note f = ready_facts [OF ready]
  have one: "promised ?i G (destroy_client td) w (Yields (failure e), give_topic t (hold_topic t w))" for t e
    using give_held [OF ready] by (simp add: promised_def graph_works_def)
  have given: "holdings x = ?H\<lparr>hd_topics := add_mset rr (add_mset rq (hd_topics ?H))\<rparr> \<Longrightarrow>
      holdings (give_topic rq (give_topic rr x)) = ?H" for rr rq x
    unfolding holdings_plain(2) using give_two(1) [OF f(2)] by simp
  have held: "holdings (hold_topic rr (hold_topic rq w)) = ?H\<lparr>hd_topics := add_mset rr (add_mset rq (hd_topics ?H))\<rparr>" for rr rq
    by (simp add: holdings_plain)
  have two: "promised ?i G (destroy_client td) w (Yields (failure e), give_topic rq (give_topic rr (hold_topic rr (hold_topic rq w))))" for rq rr e
    using given [OF held] by (simp add: promised_def graph_works_def)
  have no_reader: "promised ?i G (destroy_client td) w (Yields (failure e), give_topic rq (give_topic rr (free_listener uw
      (remove_end uw (make_end uw Writer rq True (hold_topic rr (hold_topic rq w)))))))" if "sa_writer a = Some uw" for rq rr e uw
  proof -
    have "\<not> uw \<in> ne_guid ` set (nw_ends w)" using f(3) that by (auto simp: ends_in_holdings)
    then show ?thesis using two by (simp add: remove_made free_absent)
  qed
  have made: "promised ?i G (destroy_client td) w (case sa_throw a of
      ThrowBind \<Rightarrow> (Raised, give_topic rq (give_topic rr (free_listener uw (free_listener ur (remove_end uw (remove_end ur w3))))))
    | ThrowBindSecond \<Rightarrow> (Raised, give_topic rq (give_topic rr (free_listener uw (free_listener ur
        (remove_end uw (remove_end ur (unbind_endpoint uw w4)))))))
    | ThrowConstruct \<Rightarrow> z
    | NoThrow \<Rightarrow> case subscribe_graph w5 of (i, w6) \<Rightarrow> case add_callback w6 of (c, w7) \<Rightarrow>
        if i = 0 \<or> c = 0 then (Yields (failure (e)), destroy_client td \<lparr>sh_request_topic = rq, sh_response_topic = rr,
            sh_writer = uw, sh_reader = ur, sh_subscription = i, sh_callback = c, sh_name = logical\<rparr> w7)
        else (Yields (success \<lparr>sh_request_topic = rq, sh_response_topic = rr,
            sh_writer = uw, sh_reader = ur, sh_subscription = i, sh_callback = c, sh_name = logical\<rparr>), w7))"
    if u: "sa_writer a = Some uw" "sa_reader a = Some ur"
      and w3: "w3 = make_end ur Reader rr True (make_end uw Writer rq True (hold_topic rr (hold_topic rq w)))"
      and w4: "w4 = bind_endpoint_metadata uw Writer rq y1 qos ?i w3"
      and w5: "w5 = bind_endpoint_metadata ur Reader rr y2 qos ?i w4"
    for rq rr uw ur w3 w4 w5 y1 y2 z e logical
  proof -
    have ne: "uw \<noteq> ur" "ur \<noteq> uw" using apart(3) u by auto
    have new: "\<not> uw \<in> ne_guid ` set (nw_ends w)" "\<not> ur \<in> ne_guid ` set (nw_ends w)"
        "\<not> uw \<in> le_guid ` set (hd_entries ?H)" "\<not> ur \<in> le_guid ` set (hd_entries ?H)"
      using f(3,4) u by (auto simp: ends_in_holdings)
    have removed: "remove_end uw (remove_end ur w3) = hold_topic rr (hold_topic rq w)"
    proof -
      have "\<not> ur \<in> ne_guid ` set (nw_ends (make_end uw Writer rq True (hold_topic rr (hold_topic rq w))))"
        using new(2) ne by (auto simp: make_end_def)
      then have "remove_end ur w3 = make_end uw Writer rq True (hold_topic rr (hold_topic rq w))"
        unfolding w3 by (rule remove_made)
      then show ?thesis using new(1) by (simp add: remove_made)
    qed
    have absent: "free_listener uw (free_listener ur x) = x" if "nw_ends x = nw_ends w" for x
      using new(1,2) that by (simp add: free_absent)
    have H3: "holdings w3 = ?H\<lparr>hd_topics := add_mset rr (add_mset rq (hd_topics ?H)), hd_ends := hd_ends ?H @
        [\<lparr>ne_guid = uw, ne_kind = Writer, ne_topic = rq, ne_listener = True\<rparr>,
         \<lparr>ne_guid = ur, ne_kind = Reader, ne_topic = rr, ne_listener = True\<rparr>]\<rparr>"
      by (simp add: w3 holdings_plain)
    have works3: "graph_works w3 = graph_works w" by (simp add: graph_works_def w3)
    have bind: "promised ?i G (destroy_client td) w (Raised, give_topic rq (give_topic rr (free_listener uw
        (free_listener ur (remove_end uw (remove_end ur w3))))))"
      using given [OF held] by (simp add: promised_def removed absent graph_works_def)
    have second: "promised ?i G (destroy_client td) w (Raised, give_topic rq (give_topic rr (free_listener uw (free_listener ur
        (remove_end uw (remove_end ur (unbind_endpoint uw w4)))))))"
    proof (unfold promised_def fst_conv snd_conv Outcome.case, intro impI conjI)
      let ?y = "remove_end uw (remove_end ur (unbind_endpoint uw w4))"
      have ends: "nw_ends ?y = nw_ends w"
        using arg_cong [OF removed, of nw_ends] by (simp add: w4)
      assume "graph_works (give_topic rq (give_topic rr (free_listener uw (free_listener ur ?y))))"
      then have works: "graph_works (unbind_endpoint uw w4)" by (simp add: graph_works_def)
      note works4 = works_back(1) [OF works, unfolded w4]
      show "graph_works w" using works_back(2) [OF works4] works3 by simp
      have "holdings (unbind_endpoint uw w4) = holdings w3"
        unfolding unbind_worked [OF works]
        by (subst without_last [where es = "hd_entries (holdings w3)" and ns = "hd_nodes (holdings w3)"])
          (use bind_worked(1) [OF works4] new f(1) in \<open>simp_all add: H3 w4\<close>)
      then have "holdings ?y = holdings (remove_end uw (remove_end ur w3))" by (simp only: holdings_plain)
      then show "holdings (give_topic rq (give_topic rr (free_listener uw (free_listener ur ?y)))) = ?H"
        unfolding absent [OF ends] removed held by (rule given)
    qed
    obtain i w6 where sub: "subscribe_graph w5 = (i, w6)" by force
    obtain c w7 where cb: "add_callback w6 = (c, w7)" by force
    let ?h = "\<lparr>sh_request_topic = rq, sh_response_topic = rr, sh_writer = uw, sh_reader = ur, sh_subscription = i,
        sh_callback = c, sh_name = logical\<rparr>"
    have w7: "graph_works w \<and> ready ?i G w7 \<and> undoes (destroy_client td ?h) w w7" if works: "graph_works w7"
    proof -
      have w6: "graph_works w6" using works called_back(5) [OF cb] by (simp add: graph_works_def)
      then have i: "i \<noteq> 0" using subscribed(1) [OF sub] by blast
      have "graph_works (bind_endpoint_metadata ur Reader rr y2 qos ?i (bind_endpoint_metadata uw Writer rq y1 qos ?i w3))"
        using w6 subscribed(5) [OF sub i] by (simp add: w5 w4)
      from pair_bound [OF this, unfolded H3, folded w4, folded w5] new f(1) ne
      have H5: "holdings w5 = ?H\<lparr>hd_topics := add_mset rr (add_mset rq (hd_topics ?H)), hd_ends := hd_ends ?H @
          [\<lparr>ne_guid = uw, ne_kind = Writer, ne_topic = rq, ne_listener = True\<rparr>,
           \<lparr>ne_guid = ur, ne_kind = Reader, ne_topic = rr, ne_listener = True\<rparr>],
          hd_entries := hd_entries ?H @ [new_entry uw Writer rq y1 ?i qos, new_entry ur Reader rr y2 ?i qos],
          hd_nodes := one_more ?i (one_more ?i (hd_nodes ?H))\<rparr>"
        and n5: "next_subscription (nw_graph w5) = next_subscription (nw_graph w)" "nw_runtime w5 = nw_runtime w" "graph_works w"
        by (simp_all add: w3 graph_works_def world_defs)
      have s: "\<not> i \<in> set (hd_subscriptions ?H)"
        using subscribed(4) [OF sub i] f(5) by (fastforce simp: n5)
      have c: "c \<noteq> 0 \<longrightarrow> \<not> c \<in> fst ` set (hd_callbacks ?H)"
        using called_back(4) [OF cb] f(6) subscribed(6) [OF sub] n5(2) by fastforce
      have H7: "holdings w7 = ?H\<lparr>hd_topics := add_mset rr (add_mset rq (hd_topics ?H)), hd_ends := hd_ends ?H @
          [\<lparr>ne_guid = uw, ne_kind = Writer, ne_topic = rq, ne_listener = True\<rparr>,
           \<lparr>ne_guid = ur, ne_kind = Reader, ne_topic = rr, ne_listener = True\<rparr>],
          hd_entries := hd_entries ?H @ [new_entry uw Writer rq y1 ?i qos, new_entry ur Reader rr y2 ?i qos],
          hd_nodes := one_more ?i (one_more ?i (hd_nodes ?H)), hd_subscriptions := hd_subscriptions ?H @ [i],
          hd_callbacks := (if c = 0 then hd_callbacks ?H else um_emplace c \<lparr>requested = False, acknowledged = False\<rparr> (hd_callbacks ?H))\<rparr>"
        using called_back(1,2) [OF cb] subscribed(2) [OF sub i] H5 by (cases "c = 0") simp_all
      have "undoes (destroy_client td ?h) w w7"
        using client_undoes [OF td ready_sub [OF ready] ne(1) H7 i s c] u by simp
      moreover have "ready ?i G w7"
      proof (rule readyI)
        show "\<forall>j\<in>set (hd_subscriptions (holdings w7)). j \<le> next_subscription (nw_graph w7)"
          using f(5) subscribed(3,4) [OF sub i] called_back(5) [OF cb] n5(1) by (auto simp: H7)
        show "\<forall>d\<in>fst ` set (hd_callbacks (holdings w7)).
            next_shutdown_callback_id (nw_runtime w7) = 0 \<or> d < next_shutdown_callback_id (nw_runtime w7)"
        proof (cases "c = 0")
          case True
          have "nw_runtime w7 = nw_runtime w" using called_back(1) [OF cb True] subscribed(6) [OF sub] n5(2) by simp
          then show ?thesis using f(6) True by (simp add: H7)
        next
          case False
          have "next_shutdown_callback_id (nw_runtime w7) = c + 1" "next_shutdown_callback_id (nw_runtime w) = c"
            using called_back(3,4) [OF cb False] subscribed(6) [OF sub] n5(2) by simp_all
          then show ?thesis using f(6) False next_id_above [of c]
            by (auto simp: H7 um_emplace_def split: if_splits)
        qed
      qed (use f new u apart in \<open>auto simp: H7 new_entry_def\<close>)
      ultimately show ?thesis using n5(3) by blast
    qed
    have "promised ?i G (destroy_client td) w (if i = 0 \<or> c = 0 then (Yields (failure e), destroy_client td ?h w7)
        else (Yields (success ?h), w7))"
    proof (cases "i = 0 \<or> c = 0")
      case True
      have "graph_works w \<and> holdings (destroy_client td ?h w7) = ?H" if works: "graph_works (destroy_client td ?h w7)"
        using w7 [OF destroy_client_works [OF td works]] works unfolding undoes_def by blast
      with True show ?thesis by (simp add: promised_def)
    next
      case False
      with w7 show ?thesis by (simp add: promised_def)
    qed
    with bind second throw show ?thesis by (cases "sa_throw a") (simp_all add: sub cb)
  qed
  show ?thesis unfolding create_client_def Let_def cooperative_ends [OF td]
    by (cases "node_resolve node name"; cases "rbind (to_writer_qos (h_forever host) qos (h_mode host) (h_writer_baseline host))
           (\<lambda>_. rbind (to_reader_qos (h_forever host) qos (h_mode host) (h_reader_baseline host)) (\<lambda>_. success ()))";
        cases "sa_shut a"; cases "sa_request_topic a"; cases "sa_response_topic a"; cases "sa_writer a"; cases "sa_reader a")
      (simp_all del: rbind.simps rbind_Inr_iff add: promised_same one two no_reader made)
qed

lemma destroy_server_works:
  assumes "cooperative td" "graph_works (destroy_server td h w)"
  shows "graph_works w"
proof -
  from works_back(3) assms(2) have "graph_works (unbind_endpoint (sh_reader h) (unbind_endpoint (sh_writer h)
      (remove_end (sh_reader h) (remove_end (sh_writer h) w))))"
    unfolding destroy_server_simp [OF assms(1)] by (fastforce simp: graph_works_def)
  from works_back(1) [OF works_back(1) [OF this]] show ?thesis by (simp add: graph_works_def)
qed

lemma server_undoes:
  fixes name :: string
  assumes td: "cooperative td" and ready: "ready i {uw, ur} w" "uw \<noteq> ur"
    and w1: "holdings w1 = (holdings w)\<lparr>hd_topics := add_mset rr (add_mset rq (hd_topics (holdings w))),
      hd_ends := hd_ends (holdings w) @ [\<lparr>ne_guid = ur, ne_kind = Reader, ne_topic = rq, ne_listener = False\<rparr>,
        \<lparr>ne_guid = uw, ne_kind = Writer, ne_topic = rr, ne_listener = True\<rparr>],
      hd_entries := hd_entries (holdings w) @ [new_entry ur Reader rq y1 i q, new_entry uw Writer rr y2 i q],
      hd_nodes := one_more i (one_more i (hd_nodes (holdings w))),
      hd_subscriptions := hd_subscriptions (holdings w) @ [s]\<rparr>"
    and s: "s \<noteq> 0" "\<not> s \<in> set (hd_subscriptions (holdings w))"
  defines "h \<equiv> \<lparr>sh_request_topic = rq, sh_response_topic = rr, sh_writer = uw, sh_reader = ur,
      sh_subscription = s, sh_callback = 0, sh_name = name\<rparr>"
  shows "undoes (destroy_server td h) w w1"
  unfolding undoes_def
proof (intro conjI allI impI)
  show "graph_works w'" if "graph_works (destroy_server td h w')" for w'
    using destroy_server_works [OF td that] .
next
  fix w' assume same: "holdings w' = holdings w1" and works: "graph_works (destroy_server td h w')"
  let ?T = "hd_topics (holdings w)"
  let ?g = "(holdings w)\<lparr>hd_subscriptions := hd_subscriptions (holdings w) @ [s]\<rparr>"
  let ?h = "?g\<lparr>hd_topics := add_mset rr (add_mset rq (hd_topics ?g))\<rparr>"
  note f = ready_facts [OF ready(1)]
  have x: "holdings w' = ?h\<lparr>hd_ends := hd_ends ?h @ [\<lparr>ne_guid = ur, ne_kind = Reader, ne_topic = rq, ne_listener = False\<rparr>,
        \<lparr>ne_guid = uw, ne_kind = Writer, ne_topic = rr, ne_listener = True\<rparr>],
      hd_entries := hd_entries ?h @ [new_entry ur Reader rq y1 i q, new_entry uw Writer rr y2 i q],
      hd_nodes := one_more i (one_more i (hd_nodes ?h))\<rparr>"
    unfolding same w1 by simp
  have "graph_works (unbind_endpoint ur (unbind_endpoint uw (remove_end ur (remove_end uw w'))))"
    using works works_back(3) unfolding destroy_server_simp [OF td] h_def by (fastforce simp: graph_works_def)
  from pair_undone [OF x _ _ _ _ _ _ _ _ this]
  have "holdings (unbind_endpoint ur (unbind_endpoint uw (remove_end ur (remove_end uw w')))) = ?h"
    using f(1,3,4) ready(2) by fastforce
  then show "holdings (destroy_server td h w') = holdings w"
    unfolding destroy_server_simp [OF td] holdings_plain using give_two(1) [of ?g] f(2) s by (simp add: h_def del_first_last)
qed

lemma server_promised:
  assumes td: "cooperative td" and ready: "ready (nd_id node) (set_option (sa_writer a) \<union> set_option (sa_reader a) \<union> G) w"
    and apart: "set_option (sa_writer a) \<inter> G = {}" "set_option (sa_reader a) \<inter> G = {}"
      "set_option (sa_writer a) \<inter> set_option (sa_reader a) = {}"
    and throw: "sa_throw a \<noteq> ThrowConstruct"
  shows "promised (nd_id node) G (destroy_server td) w (create_server max_pending host node td a sty name qos w)"
proof -
  let ?H = "holdings w" and ?i = "nd_id node"
  note f = ready_facts [OF ready]
  have one: "promised ?i G (destroy_server td) w (Yields (failure e), give_topic t (hold_topic t w))" for t e
    using give_held [OF ready] by (simp add: promised_def graph_works_def)
  have given: "holdings x = ?H\<lparr>hd_topics := add_mset rr (add_mset rq (hd_topics ?H))\<rparr> \<Longrightarrow>
      holdings (give_topic rq (give_topic rr x)) = ?H" for rr rq x
    unfolding holdings_plain(2) using give_two(1) [OF f(2)] by simp
  have made: "promised ?i G (destroy_server td) w (case subscribe_graph (hold_topic rr (hold_topic rq w)) of (i, w1) \<Rightarrow>
      if i = 0 then (Yields (failure DDSError), give_topic rq (give_topic rr w1))
      else case sa_reader a of
        None \<Rightarrow> (Yields (failure DDSError), give_topic rq (give_topic rr (unsubscribe_graph i w1)))
      | Some ur \<Rightarrow> (case sa_writer a of
          None \<Rightarrow> (Yields (failure DDSError), give_topic rq (give_topic rr (unsubscribe_graph i
                    (remove_end ur (make_end ur Reader rq False w1)))))
        | Some uw \<Rightarrow> (case sa_throw a of
            ThrowBind \<Rightarrow> (Raised, give_topic rq (give_topic rr (unsubscribe_graph i (free_listener uw (remove_end ur (remove_end uw
              (make_end uw Writer rr True (make_end ur Reader rq False w1))))))))
          | ThrowBindSecond \<Rightarrow> (Raised, give_topic rq (give_topic rr (unsubscribe_graph i (free_listener uw (remove_end ur (remove_end uw
              (unbind_endpoint ur (bind_endpoint_metadata ur Reader rq (request_type sty) qos ?i
                (make_end uw Writer rr True (make_end ur Reader rq False w1)))))))))) 
          | ThrowConstruct \<Rightarrow> z i w1 ur uw
          | NoThrow \<Rightarrow> (Yields (success \<lparr>sh_request_topic = rq, sh_response_topic = rr, sh_writer = uw, sh_reader = ur,
                sh_subscription = i, sh_callback = 0, sh_name = logical\<rparr>),
              bind_endpoint_metadata uw Writer rr (response_type sty) qos ?i (bind_endpoint_metadata ur Reader rq (request_type sty) qos ?i
                (make_end uw Writer rr True (make_end ur Reader rq False w1)))))))"
    for rq rr z logical
  proof -
    obtain i w1 where sub: "subscribe_graph (hold_topic rr (hold_topic rq w)) = (i, w1)" by force
    show ?thesis
    proof (cases "i = 0")
      case True
      then show ?thesis using subscribed(1) [OF sub] by (simp add: sub promised_def graph_works_def)
    next
      case i: False
      have works1: "graph_works w1 = graph_works w" using subscribed(5) [OF sub i] by (simp add: graph_works_def)
      have H1: "holdings w1 = ?H\<lparr>hd_topics := add_mset rr (add_mset rq (hd_topics ?H)),
          hd_subscriptions := hd_subscriptions ?H @ [i]\<rparr>"
        using subscribed(2) [OF sub i] by (simp add: holdings_plain)
      have s: "\<not> i \<in> set (hd_subscriptions ?H)" using subscribed(4) [OF sub i] f(5) by fastforce
      have ends1: "nw_ends w1 = nw_ends w" using subscribed(7) [OF sub] by simp
      have undone: "promised ?i G (destroy_server td) w (r, give_topic rq (give_topic rr (unsubscribe_graph i x)))"
        if x: "holdings x = holdings w1" "graph_works x \<Longrightarrow> graph_works w1" and r: "r = Raised \<or> (\<exists>e. r = Yields (failure e))" for x r
      proof -
        have "holdings (unsubscribe_graph i x) = ?H\<lparr>hd_topics := add_mset rr (add_mset rq (hd_topics ?H))\<rparr>"
          unfolding holdings_plain x(1) H1 using i s by (simp add: del_first_last)
        from given [OF this] show ?thesis
          using x(2) works1 works_back(3) [of i x] r by (auto simp: promised_def graph_works_def)
      qed
      have "promised ?i G (destroy_server td) w (case sa_writer a of
          None \<Rightarrow> (Yields (failure DDSError), give_topic rq (give_topic rr (unsubscribe_graph i
                    (remove_end ur (make_end ur Reader rq False w1)))))
        | Some uw \<Rightarrow> (case sa_throw a of
            ThrowBind \<Rightarrow> (Raised, give_topic rq (give_topic rr (unsubscribe_graph i (free_listener uw (remove_end ur (remove_end uw
              (make_end uw Writer rr True (make_end ur Reader rq False w1))))))))
          | ThrowBindSecond \<Rightarrow> (Raised, give_topic rq (give_topic rr (unsubscribe_graph i (free_listener uw (remove_end ur (remove_end uw
              (unbind_endpoint ur (bind_endpoint_metadata ur Reader rq (request_type sty) qos ?i
                (make_end uw Writer rr True (make_end ur Reader rq False w1)))))))))) 
          | ThrowConstruct \<Rightarrow> z i w1 ur uw
          | NoThrow \<Rightarrow> (Yields (success \<lparr>sh_request_topic = rq, sh_response_topic = rr, sh_writer = uw, sh_reader = ur,
                sh_subscription = i, sh_callback = 0, sh_name = logical\<rparr>),
              bind_endpoint_metadata uw Writer rr (response_type sty) qos ?i (bind_endpoint_metadata ur Reader rq (request_type sty) qos ?i
                (make_end uw Writer rr True (make_end ur Reader rq False w1))))))"
        if ur: "sa_reader a = Some ur" for ur
      proof (cases "sa_writer a")
        case None
        have "\<not> ur \<in> ne_guid ` set (nw_ends w1)" using f(3) ur by (auto simp: ends_in_holdings [of w] ends1)
        then show ?thesis using undone [OF refl] by (simp add: None remove_made)
      next
        case (Some uw)
        let ?w2 = "make_end ur Reader rq False w1"
        let ?w3 = "make_end uw Writer rr True ?w2"
        let ?w4 = "bind_endpoint_metadata ur Reader rq (request_type sty) qos ?i ?w3"
        let ?w5 = "bind_endpoint_metadata uw Writer rr (response_type sty) qos ?i ?w4"
        have ne: "uw \<noteq> ur" "ur \<noteq> uw" using apart(3) ur Some by auto
        have new: "\<not> uw \<in> ne_guid ` set (nw_ends w1)" "\<not> ur \<in> ne_guid ` set (nw_ends w1)"
            "\<not> uw \<in> le_guid ` set (hd_entries ?H)" "\<not> ur \<in> le_guid ` set (hd_entries ?H)"
          using f(3,4) ur Some by (auto simp: ends_in_holdings [of w] ends1)
        have "\<not> uw \<in> ne_guid ` set (nw_ends ?w2)" using new(1) ne by (auto simp: make_end_def)
        from remove_made [OF this] have removed: "remove_end ur (remove_end uw ?w3) = w1"
          using new(2) by (simp add: remove_made)
        have H3: "holdings ?w3 = ?H\<lparr>hd_topics := add_mset rr (add_mset rq (hd_topics ?H)),
            hd_subscriptions := hd_subscriptions ?H @ [i], hd_ends := hd_ends ?H @
            [\<lparr>ne_guid = ur, ne_kind = Reader, ne_topic = rq, ne_listener = False\<rparr>,
             \<lparr>ne_guid = uw, ne_kind = Writer, ne_topic = rr, ne_listener = True\<rparr>]\<rparr>"
          by (simp add: holdings_plain H1)
        have works3: "graph_works ?w3 = graph_works w" using works1 by (simp add: graph_works_def)
        let ?y = "remove_end ur (remove_end uw (unbind_endpoint ur ?w4))"
        have second: "promised ?i G (destroy_server td) w (Raised, give_topic rq (give_topic rr (unsubscribe_graph i (free_listener uw ?y))))"
        proof (cases "graph_works (unbind_endpoint ur ?w4)")
          case True
          note works4 = works_back(1) [OF True]
          have "holdings (unbind_endpoint ur ?w4) = holdings ?w3"
            unfolding unbind_worked [OF True]
            by (subst without_last [where es = "hd_entries (holdings ?w3)" and ns = "hd_nodes (holdings ?w3)"])
              (use bind_worked(1) [OF works4] new f(1) in \<open>simp_all add: H3\<close>)
          then have y: "holdings ?y = holdings w1" using arg_cong [OF removed, of holdings] by (simp only: holdings_plain)
          moreover have "free_listener uw ?y = ?y"
            using new(1) arg_cong [OF y, of hd_ends] by (intro free_absent) (simp add: ends_in_holdings)
          ultimately show ?thesis
            using undone [of ?y Raised] works_back(2) [OF works4] works3 works1 by simp
        next
          case False
          have "graph_works (unsubscribe_graph i (free_listener uw ?y)) \<Longrightarrow> graph_works (free_listener uw ?y)"
            by (rule works_back(3))
          with False show ?thesis by (auto simp: promised_def graph_works_def)
        qed
        have ok: "promised ?i G (destroy_server td) w (Yields (success \<lparr>sh_request_topic = rq, sh_response_topic = rr,
            sh_writer = uw, sh_reader = ur, sh_subscription = i, sh_callback = 0, sh_name = logical\<rparr>), ?w5)"
        proof (unfold promised_def fst_conv snd_conv Outcome.case sum.case, intro impI conjI)
          assume works: "graph_works ?w5"
          from pair_bound [OF works, unfolded H3] new f(1) ne
          have H5: "holdings ?w5 = ?H\<lparr>hd_topics := add_mset rr (add_mset rq (hd_topics ?H)), hd_ends := hd_ends ?H @
              [\<lparr>ne_guid = ur, ne_kind = Reader, ne_topic = rq, ne_listener = False\<rparr>,
               \<lparr>ne_guid = uw, ne_kind = Writer, ne_topic = rr, ne_listener = True\<rparr>],
              hd_entries := hd_entries ?H @ [new_entry ur Reader rq (request_type sty) ?i qos, new_entry uw Writer rr (response_type sty) ?i qos],
              hd_nodes := one_more ?i (one_more ?i (hd_nodes ?H)), hd_subscriptions := hd_subscriptions ?H @ [i]\<rparr>"
            and n5: "next_subscription (nw_graph ?w5) = i" "nw_runtime ?w5 = nw_runtime w" "graph_works ?w3"
            using subscribed(3,6) [OF sub] i by (simp_all add: world_defs)
          show "graph_works w" using n5(3) works3 by simp
          show "undoes (destroy_server td \<lparr>sh_request_topic = rq, sh_response_topic = rr, sh_writer = uw, sh_reader = ur,
              sh_subscription = i, sh_callback = 0, sh_name = logical\<rparr>) w ?w5"
            using server_undoes [OF td ready_sub [OF ready] ne(1) H5 i s] ur Some by simp
          show "ready ?i G ?w5"
            using f(1-4,6) new ur Some apart f(5) subscribed(4) [OF sub i]
            by (intro readyI) (auto simp: H5 n5 new_entry_def)
        qed
        have bind: "promised ?i G (destroy_server td) w (Raised, give_topic rq (give_topic rr (unsubscribe_graph i
            (free_listener uw (remove_end ur (remove_end uw ?w3))))))"
          using undone [OF refl, of Raised] new(1) by (simp add: removed free_absent)
        show ?thesis using ok second bind throw by (cases "sa_throw a") (simp_all add: Some)
      qed
      moreover have "promised ?i G (destroy_server td) w (Yields (failure DDSError), give_topic rq (give_topic rr (unsubscribe_graph i w1)))"
        using undone [OF refl] by simp
      ultimately show ?thesis using i by (cases "sa_reader a") (simp_all add: sub)
    qed
  qed
  show ?thesis unfolding create_server_def Let_def cooperative_ends [OF td]
    by (cases "max_pending = 0"; cases "node_resolve node name"; cases "rbind (to_reader_qos (h_forever host) qos (h_mode host) (h_reader_baseline host))
           (\<lambda>_. rbind (to_writer_qos (h_forever host) qos (h_mode host) (h_writer_baseline host)) (\<lambda>_. success ()))";
        cases "sa_shut a"; cases "sa_request_topic a"; cases "sa_response_topic a")
      (simp_all del: rbind.simps rbind_Inr_iff add: promised_same one made)
qed

text \<open>No operation revives a graph.\<close>

lemma dead_plain [simp]:
  "graph_works (hold_topic t w) = graph_works w" "graph_works (give_topic t w) = graph_works w"
  "graph_works (make_end u k t l w) = graph_works w" "graph_works (free_listener u w) = graph_works w"
  "graph_works (drop_callback c w) = graph_works w" "graph_works (delete_end td u w) = graph_works w"
  "graph_works (delete_listener_end td own u w) = graph_works w" "graph_works (destroy_reader td own u w) = graph_works w"
  "graph_works (destroy_response_writer td u w) = graph_works w" "graph_works (destroy_request_reader td u w) = graph_works w"
  "graph_works (snd (add_callback w)) = graph_works w"
  by (simp_all add: graph_works_def add_callback_def split: prod.splits)

lemma dead_graph [simp]:
  "\<not> graph_works w \<Longrightarrow> \<not> graph_works (unbind_endpoint u w)"
  "\<not> graph_works w \<Longrightarrow> \<not> graph_works (bind_endpoint_metadata u k t y q i w)"
  "\<not> graph_works w \<Longrightarrow> \<not> graph_works (unsubscribe_graph c w)"
  "\<not> graph_works w \<Longrightarrow> \<not> graph_works (snd (subscribe_graph w))"
  using works_back(1) [of u w] works_back(2) [of u k t y q i w] works_back(3) [of c w]
  by (blast, blast, blast, simp add: subscribe_graph_def subscribe_def graph_works_def Let_def)

lemma dead_destroy [simp]:
  "\<not> graph_works w \<Longrightarrow> \<not> graph_works (destroy_client td h w)"
  "\<not> graph_works w \<Longrightarrow> \<not> graph_works (destroy_server td h w)"
  "\<not> graph_works w \<Longrightarrow> \<not> graph_works (destroy_publisher td own th w)"
  "\<not> graph_works w \<Longrightarrow> \<not> graph_works (destroy_subscriber td own th w)"
  by (simp_all add: destroy_client_def destroy_server_def destroy_publisher_def destroy_subscriber_def Let_def)

lemma dead_topic: "\<not> graph_works w \<Longrightarrow> \<not> graph_works (snd (create_topic_endpoint kind native host node td a type name qos w))"
  by (simp add: create_topic_endpoint_def Let_def split: sum.split option.split ThrowPoint.split)

lemma dead_client: "\<not> graph_works w \<Longrightarrow> \<not> graph_works (snd (create_client host node td a sty name qos w))"
  by (simp add: create_client_def Let_def case_prod_beta split: sum.split option.split ThrowPoint.split)

lemma dead_server: "\<not> graph_works w \<Longrightarrow> \<not> graph_works (snd (create_server max_pending host node td a sty name qos w))"
  by (simp add: create_server_def Let_def case_prod_beta split: sum.split option.split ThrowPoint.split)

lemma dead_then:
  "\<not> graph_works (snd r) \<Longrightarrow> (\<And>w. \<not> graph_works w \<Longrightarrow> \<not> graph_works (f w)) \<Longrightarrow>
     (\<And>h w. \<not> graph_works w \<Longrightarrow> \<not> graph_works (snd (k h w))) \<Longrightarrow> \<not> graph_works (snd (then_create r f k))"
  by (cases r) (auto simp: then_create_def split: Outcome.splits sum.splits)

text \<open>One stage of a transaction that began at \<open>w0\<close> and so far is undone by \<open>f\<close>.\<close>

lemma then_promised:
  assumes r: "promised i G undo w r" and f: "undoes f w0 w" "graph_works w \<Longrightarrow> graph_works w0"
    and k: "\<And>h w1. graph_works w1 \<Longrightarrow> ready i G w1 \<Longrightarrow> undoes (\<lambda>x. f (undo h x)) w0 w1 \<Longrightarrow> graph_works w0 \<Longrightarrow>
      promised i G' U w0 (k h w1)"
    and dead: "\<And>h w1. \<not> graph_works w1 \<Longrightarrow> \<not> graph_works (snd (k h w1))"
  shows "promised i G' U w0 (then_create r f k)"
proof -
  obtain out w1 where r': "r = (out, w1)" by (cases r)
  have failed: "promised i G' U w0 (x, f w1)"
    if x: "x = Raised \<or> (\<exists>e. x = Yields (failure e))" and "\<not> (\<exists>h. out = Yields (success h))" for x
  proof -
    have "graph_works w0 \<and> holdings (f w1) = holdings w0" if works: "graph_works (f w1)"
    proof -
      have w1: "graph_works w1" using f(1) works unfolding undoes_def by blast
      then have "graph_works w \<and> holdings w1 = holdings w"
        using r \<open>\<not> (\<exists>h. out = Yields (success h))\<close>
        by (auto simp: r' promised_def split: Outcome.splits sum.splits)
      then show ?thesis using f works unfolding undoes_def by blast
    qed
    with x show ?thesis by (auto simp: promised_def)
  qed
  show ?thesis
  proof (cases "\<exists>h. out = Yields (success h)")
    case False
    then show ?thesis using failed by (auto simp: r' then_create_def split: Outcome.splits sum.splits)
  next
    case True
    then obtain h where out: "out = Yields (success h)" ..
    show ?thesis
    proof (cases "graph_works w1")
      case True
      then have "ready i G w1" "undoes (undo h) w w1" "graph_works w"
        using r by (simp_all add: r' out promised_def)
      then show ?thesis
        using k [OF True _ undoes_comp [OF f(1)] f(2)] by (simp add: r' out then_create_def)
    next
      case False
      from dead [OF False] show ?thesis by (simp add: r' out then_create_def promised_def)
    qed
  qed
qed

text \<open>The GUIDs Fast DDS gives out while the endpoints of an action are created.\<close>

definition service_guids :: "ServiceAnswers \<Rightarrow> Guid set" where
  "service_guids a = set_option (sa_writer a) \<union> set_option (sa_reader a)"

definition action_guids :: "ActionAnswers \<Rightarrow> Guid set" where
  "action_guids a = service_guids (aa_goal a) \<union> (service_guids (aa_cancel a) \<union> (service_guids (aa_result a) \<union>
     (set_option (ea_made (aa_feedback a)) \<union> set_option (ea_made (aa_status a)))))"

text \<open>All of them are different, and no constructor throws.\<close>

definition service_calm :: "ServiceAnswers \<Rightarrow> Guid set \<Rightarrow> bool" where
  "service_calm a G \<longleftrightarrow> set_option (sa_writer a) \<inter> set_option (sa_reader a) = {} \<and> service_guids a \<inter> G = {} \<and>
     sa_throw a \<noteq> ThrowConstruct"

definition action_calm :: "ActionAnswers \<Rightarrow> bool" where
  "action_calm a \<longleftrightarrow>
     (let g5 = set_option (ea_made (aa_status a)); g4 = set_option (ea_made (aa_feedback a)) \<union> g5;
          g3 = service_guids (aa_result a) \<union> g4; g2 = service_guids (aa_cancel a) \<union> g3
      in service_calm (aa_goal a) g2 \<and> service_calm (aa_cancel a) g3 \<and> service_calm (aa_result a) g4 \<and>
         set_option (ea_made (aa_feedback a)) \<inter> g5 = {} \<and>
         ea_throw (aa_feedback a) \<noteq> ThrowConstruct \<and> ea_throw (aa_status a) \<noteq> ThrowConstruct)"

lemma client_stage:
  assumes "cooperative td" "ready (nd_id node) (service_guids a \<union> G) w" "service_calm a G"
  shows "promised (nd_id node) G (destroy_client td) w (create_client host node td a sty name qos w)"
  using assms by (intro client_promised) (auto simp: service_calm_def service_guids_def)

lemma server_stage:
  assumes "cooperative td" "ready (nd_id node) (service_guids a \<union> G) w" "service_calm a G"
  shows "promised (nd_id node) G (destroy_server td) w (create_server max_pending host node td a sty name qos w)"
  using assms by (intro server_promised) (auto simp: service_calm_def service_guids_def)

lemma subscriber_stage:
  assumes td: "cooperative td" and "ready (nd_id node) (set_option (ea_made a) \<union> G) w" "set_option (ea_made a) \<inter> G = {}"
    "ea_throw a \<noteq> ThrowConstruct"
  shows "promised (nd_id node) G (destroy_subscriber td False) w (create_subscriber host node td a type name qos w)"
  unfolding create_subscriber_def using assms
  by (intro topic_promised) (auto simp: destroy_subscriber_def cooperative_ends [OF td])

lemma publisher_stage:
  assumes td: "cooperative td" and "ready (nd_id node) (set_option (ea_made a) \<union> G) w" "set_option (ea_made a) \<inter> G = {}"
    "ea_throw a \<noteq> ThrowConstruct"
  shows "promised (nd_id node) G (destroy_publisher td False) w (create_publisher host node td a type name qos w)"
  unfolding create_publisher_def using assms
  by (intro topic_promised) (auto simp: destroy_publisher_def cooperative_ends [OF td])

text \<open>The last steps of an action client: its own subscription and shutdown callback.\<close>

definition watch :: "(NodeWorld \<Rightarrow> NodeWorld) \<Rightarrow> ErrorCode \<Rightarrow> bool \<Rightarrow> (u64 \<Rightarrow> u64 \<Rightarrow> 'a) \<Rightarrow> NodeWorld \<Rightarrow> 'a Outcome \<times> NodeWorld" where
  "watch undo e shut made w =
     (case subscribe_graph w of (i, w1) \<Rightarrow> case add_callback w1 of (c, w2) \<Rightarrow>
        if i = 0 \<or> c = 0 then (Yields (failure e), undo (unsubscribe_graph i (drop_callback c w2)))
        else if shut then (Yields (failure ContextShutdown), undo (unsubscribe_graph i (drop_callback c w2)))
        else (Yields (success (made i c)), w2))"

lemma unwatch_undoes:
  assumes "fit w" "subscribe_graph w = (i, w1)" "add_callback w1 = (c, w2)" "i \<noteq> 0"
  shows "undoes (\<lambda>x. unsubscribe_graph i (drop_callback c x)) w w2"
  unfolding undoes_def
proof (intro conjI allI impI)
  show "graph_works w'" if "graph_works (unsubscribe_graph i (drop_callback c w'))" for w'
    using works_back(3) [OF that] by simp
next
  fix w' assume same: "holdings w' = holdings w2"
  note s = subscribed [OF assms(2)] and b = called_back [OF assms(3)]
  have i: "\<not> i \<in> set (hd_subscriptions (holdings w))"
    using s(4) [OF assms(4)] assms(1) by (fastforce simp: fit_def holdings_def)
  have c: "c \<noteq> 0 \<Longrightarrow> \<not> c \<in> fst ` set (hd_callbacks (holdings w))"
    using b(4) s(6) assms(1) by (fastforce simp: fit_def holdings_def)
  show "holdings (unsubscribe_graph i (drop_callback c w')) = holdings w"
    unfolding holdings_plain same using b(1,2) s(2) [OF assms(4)] assms(4) i c
    by (cases "c = 0") (simp_all add: del_first_last erase_emplaced)
qed

lemma watch_promised:
  assumes ready: "ready n {} w" and undo: "undoes undo w0 w" "graph_works w \<Longrightarrow> graph_works w0"
    and U: "\<And>i c x. U (made i c) x = undo (unsubscribe_graph i (drop_callback c x))"
  shows "promised n {} U w0 (watch undo e shut made w)"
proof -
  obtain i w1 where sub: "subscribe_graph w = (i, w1)" by force
  obtain c w2 where cb: "add_callback w1 = (c, w2)" by force
  have works: "graph_works w \<and> i \<noteq> 0" if "graph_works w2"
    using that subscribed(1,5) [OF sub] called_back(5) [OF cb] by (auto simp: graph_works_def)
  have all: "undoes (\<lambda>x. undo (unsubscribe_graph i (drop_callback c x))) w0 w2" if "i \<noteq> 0"
    by (rule undoes_comp [OF undo(1) unwatch_undoes [OF _ sub cb that]]) (use ready in \<open>simp add: ready_def\<close>)
  have failed: "promised n {} U w0 (Yields (failure e), undo (unsubscribe_graph i (drop_callback c w2)))" for e
  proof -
    have "graph_works w0 \<and> holdings (undo (unsubscribe_graph i (drop_callback c w2))) = holdings w0"
      if u: "graph_works (undo (unsubscribe_graph i (drop_callback c w2)))"
    proof -
      have "graph_works (unsubscribe_graph i (drop_callback c w2))" using undo(1) u unfolding undoes_def by blast
      from works_back(3) [OF this] have "graph_works w2" by simp
      with works all undo(2) u show ?thesis unfolding undoes_def by blast
    qed
    then show ?thesis by (simp add: promised_def)
  qed
  have "promised n {} U w0 (Yields (success (made i c)), w2)" if c: "c \<noteq> 0"
  proof -
    have "graph_works w0 \<and> ready n {} w2 \<and> undoes (U (made i c)) w0 w2" if w2: "graph_works w2"
    proof -
      have i: "i \<noteq> 0" and w: "graph_works w" using works [OF w2] by auto
      note s = subscribed [OF sub] and b = called_back [OF cb] and f = ready_facts [OF ready]
      have H: "holdings w2 = (holdings w)\<lparr>hd_subscriptions := hd_subscriptions (holdings w) @ [i],
          hd_callbacks := um_emplace c \<lparr>requested = False, acknowledged = False\<rparr> (hd_callbacks (holdings w))\<rparr>"
        using b(2) [OF c] s(2) [OF i] by simp
      have "ready n {} w2"
        using f b(3,4) [OF c] b(5) s(3,4) [OF i] s(6) next_id_above [of c] c
        by (intro readyI) (auto simp: H um_emplace_def split: if_splits)
      moreover have "U (made i c) = (\<lambda>x. undo (unsubscribe_graph i (drop_callback c x)))" using U by blast
      ultimately show ?thesis using all [OF i] undo(2) [OF w] by simp
    qed
    then show ?thesis by (simp add: promised_def)
  qed
  with failed show ?thesis by (simp add: watch_def sub cb)
qed

lemma dead_watch: "(\<And>x. \<not> graph_works x \<Longrightarrow> \<not> graph_works (undo x)) \<Longrightarrow> \<not> graph_works w \<Longrightarrow> \<not> graph_works (snd (watch undo e shut made w))"
  by (simp add: watch_def case_prod_beta)

lemma action_client_promised:
  assumes td: "cooperative td" and ready: "ready (nd_id node) (action_guids a) w" and calm: "action_calm a"
  shows "promised (nd_id node) {} (destroy_action_client td) w (create_action_client host node td a aty name q w)"
proof -
  note c = calm [unfolded action_calm_def Let_def]
  note dead = dead_then dead_client dead_watch dead_destroy
  have sub: "\<not> graph_works w \<Longrightarrow> \<not> graph_works (snd (create_subscriber host node td b y n qos w))" for b y n qos w
    unfolding create_subscriber_def by (rule dead_topic)
  have body: "promised (nd_id node) {} (destroy_action_client td) w
      (then_create (create_client host node td (aa_goal a) (send_goal_type aty) (send_goal names) (goal_service_qos q) w) (\<lambda>w. w) (\<lambda>goal w.
       then_create (create_client host node td (aa_cancel a) (cancel_goal_type aty) (cancel_goal names) (cancel_service_qos q) w)
         (destroy_client td goal) (\<lambda>cancel w.
       then_create (create_client host node td (aa_result a) (get_result_type aty) (get_result names) (result_service_qos q) w)
         (\<lambda>w. destroy_client td goal (destroy_client td cancel w)) (\<lambda>result w.
       then_create (create_subscriber host node td (aa_feedback a) (feedback_type aty) (feedback names) (feedback_topic_qos q) w)
         (\<lambda>w. destroy_client td goal (destroy_client td cancel (destroy_client td result w))) (\<lambda>fb w.
       then_create (create_subscriber host node td (aa_status a) (status_type aty) (status names) (status_topic_qos q) w)
         (\<lambda>w. destroy_client td goal (destroy_client td cancel (destroy_client td result (destroy_subscriber td False fb w)))) (\<lambda>st w.
       watch (\<lambda>w. destroy_client td goal (destroy_client td cancel (destroy_client td result (destroy_subscriber td False fb
           (destroy_subscriber td False st w))))) (if aa_shut_after a then ContextShutdown else DDSError) (aa_shut_after a)
         (\<lambda>i c. \<lparr>ah_name = logical, ah_names = names, ah_goal = goal, ah_cancel = cancel,
               ah_result = result, ah_feedback = fb, ah_status = st, ah_subscription = i, ah_callback = c\<rparr>) w))))))"
    (is "promised _ _ ?U w _") for names logical
    by (intro then_promised [OF client_stage [OF td]] then_promised [OF subscriber_stage [OF td]] watch_promised
        dead sub undoes_id) (use ready c in \<open>auto simp: action_guids_def destroy_action_client_def\<close>)
  show ?thesis unfolding create_action_client_def Let_def
    by (cases "node_resolve node name"; cases "derive_action_endpoint_names (case node_resolve node name of Inr x \<Rightarrow> x | Inl _ \<Rightarrow> [])";
        cases "aa_shut a") (simp_all add: promised_same body [unfolded watch_def])
qed

lemma finish_promised:
  assumes ready: "ready n {} w" and undo: "undoes undo w0 w" "graph_works w \<Longrightarrow> graph_works w0" and U: "\<And>x. U h x = undo x"
  shows "promised n {} U w0 (if shut then (Yields (failure e), undo w) else (Yields (success h), w))"
proof -
  have "U h = undo" using U by blast
  moreover have "graph_works w0 \<and> holdings (undo w) = holdings w0" if "graph_works (undo w)"
    using undo that unfolding undoes_def by blast
  ultimately show ?thesis using assms by (simp add: promised_def)
qed

lemma action_server_promised:
  assumes td: "cooperative td" and ready: "ready (nd_id node) (action_guids a) w" and calm: "action_calm a"
  shows "promised (nd_id node) {} (destroy_action_server td) w
    (create_action_server capacity result_timeout host node td a aty name q w)"
proof -
  note c = calm [unfolded action_calm_def Let_def]
  note dead = dead_then dead_server dead_destroy
  have pub: "\<not> graph_works w \<Longrightarrow> \<not> graph_works (snd (create_publisher host node td b y n qos w))" for b y n qos w
    unfolding create_publisher_def by (rule dead_topic)
  have body: "promised (nd_id node) {} (destroy_action_server td) w
      (then_create (create_server capacity host node td (aa_goal a) (send_goal_type aty) (send_goal names) (goal_service_qos q) w) (\<lambda>w. w) (\<lambda>goal w.
       then_create (create_server capacity host node td (aa_cancel a) (cancel_goal_type aty) (cancel_goal names) (cancel_service_qos q) w)
         (destroy_server td goal) (\<lambda>cancel w.
       then_create (create_server capacity host node td (aa_result a) (get_result_type aty) (get_result names) (result_service_qos q) w)
         (\<lambda>w. destroy_server td goal (destroy_server td cancel w)) (\<lambda>result w.
       then_create (create_publisher host node td (aa_feedback a) (feedback_type aty) (feedback names) (feedback_topic_qos q) w)
         (\<lambda>w. destroy_server td goal (destroy_server td cancel (destroy_server td result w))) (\<lambda>fb w.
       then_create (create_publisher host node td (aa_status a) (status_type aty) (status names) (status_topic_qos q) w)
         (\<lambda>w. destroy_server td goal (destroy_server td cancel (destroy_server td result (destroy_publisher td False fb w)))) (\<lambda>st w.
       if aa_shut_after a then (Yields (failure ContextShutdown), destroy_server td goal (destroy_server td cancel
           (destroy_server td result (destroy_publisher td False fb (destroy_publisher td False st w)))))
       else (Yields (success \<lparr>ah_name = logical, ah_names = names, ah_goal = goal, ah_cancel = cancel,
               ah_result = result, ah_feedback = fb, ah_status = st, ah_subscription = 0, ah_callback = 0\<rparr>), w)))))))"
    for names logical
    by (intro then_promised [OF server_stage [OF td]] then_promised [OF publisher_stage [OF td]] finish_promised
        dead pub undoes_id) (use ready c in \<open>auto simp: action_guids_def destroy_action_server_def\<close>)
  show ?thesis unfolding create_action_server_def Let_def
    by (cases "result_timeout < 0"; cases "node_resolve node name";
        cases "derive_action_endpoint_names (case node_resolve node name of Inr x \<Rightarrow> x | Inl _ \<Rightarrow> [])";
        cases "aa_shut a") (simp_all add: promised_same body)
qed

section \<open>Listeners\<close>

text \<open>The listener of an endpoint may be let go of: it is detached, or it was handed on.\<close>

definition letgo :: "Guid \<Rightarrow> NodeWorld \<Rightarrow> bool" where
  "letgo u w \<longleftrightarrow> u \<in> set (nw_retained w) \<or> (\<forall>e \<in> set (nw_ends w). ne_guid e = u \<longrightarrow> \<not> ne_listener e)"

lemma free_letgo [simp]: "letgo u w \<Longrightarrow> free_listener u w = w"
  by (auto simp: letgo_def free_listener_def list_ex_iff)

lemma letgo_steps [simp]:
  "letgo u (clear_listener u w)" "letgo u (retain True u w)" "letgo u (remove_end u w)"
  "letgo u w \<Longrightarrow> letgo u (clear_listener v w)" "letgo u w \<Longrightarrow> letgo u (retain own v w)" "letgo u w \<Longrightarrow> letgo u (remove_end v w)"
  unfolding letgo_def clear_listener_def retain_def remove_end_def by (simp_all add: ball_Un) blast+

lemma letgo_made [simp]:
  "letgo u (delete_listener_end td True u w)" "letgo u (destroy_reader td True u w)" "letgo u (destroy_response_writer td u w)"
  by (simp_all add: delete_listener_end_def destroy_reader_def destroy_response_writer_def delete_end_def Let_def
      split: Deletion.split)

lemma letgo_kept [simp]:
  "letgo u (hold_topic t w) = letgo u w" "letgo u (give_topic t w) = letgo u w" "letgo u (unbind_endpoint v w) = letgo u w"
  "letgo u (unsubscribe_graph i w) = letgo u w" "letgo u (drop_callback c w) = letgo u w"
  by (simp_all add: letgo_def world_defs Let_def)

lemma letgo_ends [simp]:
  "letgo u w \<Longrightarrow> letgo u (delete_end td v w)" "letgo u w \<Longrightarrow> letgo u (delete_listener_end td own v w)"
  "letgo u w \<Longrightarrow> letgo u (destroy_reader td own v w)" "letgo u w \<Longrightarrow> letgo u (destroy_request_reader td v w)"
  by (simp_all add: delete_listener_end_def destroy_reader_def destroy_request_reader_def delete_end_def Let_def
      split: Deletion.split)

lemma dangling_plain [simp]:
  "nw_dangling (hold_topic t w) = nw_dangling w" "nw_dangling (give_topic t w) = nw_dangling w"
  "nw_dangling (make_end u k t l w) = nw_dangling w" "nw_dangling (unbind_endpoint u w) = nw_dangling w"
  "nw_dangling (bind_endpoint_metadata u k t y q i w) = nw_dangling w"
  "nw_dangling (unsubscribe_graph i w) = nw_dangling w" "nw_dangling (drop_callback c w) = nw_dangling w"
  "nw_dangling (snd (subscribe_graph w)) = nw_dangling w" "nw_dangling (snd (add_callback w)) = nw_dangling w"
  by (simp_all add: world_defs Let_def subscribe_graph_def add_callback_def split: prod.splits)

lemma dangling_ends [simp]:
  "nw_dangling (delete_end td u w) = nw_dangling w" "nw_dangling (delete_listener_end td own u w) = nw_dangling w"
  "nw_dangling (destroy_reader td own u w) = nw_dangling w" "nw_dangling (destroy_response_writer td u w) = nw_dangling w"
  "nw_dangling (destroy_request_reader td u w) = nw_dangling w"
  by (simp_all add: delete_listener_end_def destroy_reader_def destroy_response_writer_def destroy_request_reader_def
      delete_end_def Let_def retain_def clear_listener_def remove_end_def split: Deletion.split)

lemma dangling_destroy [simp]:
  "nw_dangling (destroy_client td h w) = nw_dangling w" "nw_dangling (destroy_server td h w) = nw_dangling w"
  "nw_dangling (destroy_publisher td own th w) = nw_dangling w" "nw_dangling (destroy_subscriber td own th w) = nw_dangling w"
  by (simp_all add: destroy_client_def destroy_server_def destroy_publisher_def destroy_subscriber_def Let_def)

lemma dangling_topic [simp]:
  "nw_dangling (snd (create_publisher host node td a type name qos w)) = nw_dangling w"
  "nw_dangling (snd (create_subscriber host node td a type name qos w)) = nw_dangling w"
  by (simp_all add: create_publisher_def create_subscriber_def create_topic_endpoint_def Let_def
      split: sum.split option.split ThrowPoint.split)

lemma dangling_client [simp]:
  "sa_throw a \<noteq> ThrowConstruct \<Longrightarrow> nw_dangling (snd (create_client host node td a sty name qos w)) = nw_dangling w"
  by (simp add: create_client_def Let_def case_prod_beta split: sum.split option.split ThrowPoint.split)

lemma dangling_server [simp]:
  "sa_throw a \<noteq> ThrowConstruct \<Longrightarrow> nw_dangling (snd (create_server max_pending host node td a sty name qos w)) = nw_dangling w"
  by (simp add: create_server_def Let_def case_prod_beta split: sum.split option.split ThrowPoint.split)

lemma dangling_then:
  "nw_dangling (snd r) = d \<Longrightarrow> (\<And>w. nw_dangling (f w) = nw_dangling w) \<Longrightarrow>
     (\<And>h w. nw_dangling w = d \<Longrightarrow> nw_dangling (snd (k h w)) = d) \<Longrightarrow> nw_dangling (snd (then_create r f k)) = d"
  by (cases r) (auto simp: then_create_def split: Outcome.splits sum.splits)

section \<open>Names and nodes\<close>

lemma then_yields:
  "then_create r f k = (Yields (success y), w') \<Longrightarrow> \<exists>x w. r = (Yields (success x), w) \<and> k x w = (Yields (success y), w')"
  by (auto simp: then_create_def split: prod.splits Outcome.splits sum.splits)

lemma client_name:
  "create_client host node td a sty name qos w = (Yields (success h), w') \<Longrightarrow> node_resolve node name = success (sh_name h)"
  by (auto simp: create_client_def Let_def split: sum.splits option.splits ThrowPoint.splits if_splits prod.splits)

lemma subscriber_name:
  "create_subscriber host node td a type name qos w = (Yields (success h), w') \<Longrightarrow> node_resolve node name = success (th_name h)"
  by (auto simp: create_subscriber_def create_topic_endpoint_def Let_def split: sum.splits option.splits ThrowPoint.splits if_splits)

lemma node_added:
  assumes "health (snd (snd (add_local_node name ns g))) = Healthy" "graph_ok g"
  defines "i \<equiv> fst (add_local_node name ns g)" and "g' \<equiv> snd (snd (add_local_node name ns g))"
  shows "i \<noteq> 0" "\<not> i \<in> ln_id ` set (local_nodes g)"
    "local_nodes g' = local_nodes g @ [\<lparr>ln_id = i, ln_name = name, ln_namespace = ns, references = 1\<rparr>]"
    "local_endpoints g' = local_endpoints g" "subscriptions g' = subscriptions g" "health g = Healthy"
proof -
  have works: "health (snd (mutate (local_node_change name ns) g)) = Healthy"
    using assms(1) by (simp add: add_local_node_def case_prod_beta)
  note m = mutate_worked [OF works]
  have room: "next_local_node_id g \<noteq> u64_max" using m(1) by (auto simp: local_node_change_def)
  have h: "health g = Healthy" using works by (rule mutate_works)
  have i: "i = next_local_node_id g + 1" using room h by (simp add: i_def add_local_node_def case_prod_beta)
  show "i \<noteq> 0" using u64_inc_nonzero [OF room] unfolding i by auto
  show "\<not> i \<in> ln_id ` set (local_nodes g)"
    using assms(2) u64_inc_gt [OF room] unfolding i by (force simp: graph_ok_def ids_ok_def)
  show "local_nodes g' = local_nodes g @ [\<lparr>ln_id = i, ln_name = name, ln_namespace = ns, references = 1\<rparr>]"
    "local_endpoints g' = local_endpoints g" "subscriptions g' = subscriptions g"
    using m(2-4) room by (simp_all add: g'_def i add_local_node_def case_prod_beta local_node_change_def Let_def)
  show "health g = Healthy" by (rule h)
qed

lemma drop_last_node:
  assumes "\<not> i \<in> ln_id ` set ns"
  shows "drop_reference i (ns @ [\<lparr>ln_id = i, ln_name = name, ln_namespace = nsp, references = 1\<rparr>]) = ns"
proof -
  have "upd_first (\<lambda>n. ln_id n = i) f (ns @ [x]) = ns @ [f x]" if "ln_id x = i" for f and x :: LocalNodeRecord
    using assms that by (induction ns) auto
  moreover have "find (\<lambda>n. ln_id n = i) (ns @ [x]) = Some x \<and> del_first (\<lambda>n. ln_id n = i) (ns @ [x]) = ns"
    if "ln_id x = i" for x :: LocalNodeRecord
    using assms that by (induction ns) auto
  ultimately show ?thesis by (simp add: drop_reference_def)
qed

section \<open>Creation that succeeds\<close>

text \<open>Enough ids are left for \<open>k\<close> more subscriptions and shutdown callbacks.\<close>

definition room :: "nat \<Rightarrow> NodeWorld \<Rightarrow> bool" where
  "room k w \<longleftrightarrow> unat (next_subscription (nw_graph w)) + k < 2 ^ 64 \<and> \<not> shutdown_flag (nw_runtime w) \<and>
     next_shutdown_callback_id (nw_runtime w) \<noteq> 0 \<and> unat (next_shutdown_callback_id (nw_runtime w)) + k < 2 ^ 64"

lemma room_steps [simp]:
  "room k (hold_topic t w) = room k w" "room k (make_end u d t l w) = room k w"
  by (simp_all add: room_def hold_topic_def make_end_def)

lemma room_bind [simp]: "room k (bind_endpoint_metadata u d t y q i w) = room k w"
  by (auto simp: room_def bind_endpoint_metadata_def on_graph_def add_local_endpoint_def mutate_def local_endpoint_change_def
      Let_def split: option.splits)

lemma spare_id:
  assumes "unat (n :: u64) + Suc k < 2 ^ 64"
  shows "n \<noteq> u64_max" "n + 1 \<noteq> 0" "unat (n + 1) = unat n + 1"
proof -
  show max: "n \<noteq> u64_max" using assms by (auto simp: u64_max_def unsigned_minus_1_eq_mask mask_eq_exp_minus_1)
  show "unat (n + 1) = unat n + 1" by (rule u64_inc_nonzero [OF max])
  then show "n + 1 \<noteq> 0" by (metis unat_0 add_is_0 one_neq_zero)
qed

lemma room_taken:
  assumes "room (Suc k) w"
  obtains i c w1 w2 where "subscribe_graph w = (i, w1)" "add_callback w1 = (c, w2)" "i \<noteq> 0" "c \<noteq> 0" "room k w2"
proof -
  let ?i = "next_subscription (nw_graph w)" and ?c = "next_shutdown_callback_id (nw_runtime w)"
  have "unat ?i + Suc k < 2 ^ 64" "unat ?c + Suc k < 2 ^ 64" using assms by (simp_all add: room_def)
  note i = spare_id [OF this(1)] and c = spare_id [OF this(2)]
  show ?thesis
    using assms i c
    by (intro that [of "?i + 1" _ ?c])
      (auto simp: subscribe_graph_def subscribe_def add_callback_def register_shutdown_callback_def room_def Let_def)
qed

text \<open>The answers to a creation in which nothing goes wrong.\<close>

definition service_well :: "ServiceAnswers \<Rightarrow> bool" where
  "service_well a \<longleftrightarrow> \<not> sa_shut a \<and> sa_request_topic a = success () \<and> sa_response_topic a = success () \<and>
     sa_writer a \<noteq> None \<and> sa_reader a \<noteq> None \<and> sa_throw a = NoThrow"

definition topic_well :: "EndAnswers \<Rightarrow> bool" where
  "topic_well a \<longleftrightarrow> \<not> ea_shut a \<and> ea_topic a = success () \<and> ea_made a \<noteq> None \<and> ea_throw a = NoThrow"

text \<open>Both directions of a service can have the QoS.\<close>

definition qos_translates :: "Host \<Rightarrow> Qos \<Rightarrow> bool" where
  "qos_translates host q \<longleftrightarrow>
     has_value (to_writer_qos (h_forever host) q (h_mode host) (h_writer_baseline host)) \<and>
     has_value (to_reader_qos (h_forever host) q (h_mode host) (h_reader_baseline host))"

lemma client_made:
  assumes "service_well a" "room (Suc k) w" "qos_translates host q" "has_value (node_resolve node name)"
  shows "\<exists>h w'. create_client host node td a sty name q w = (Yields (success h), w') \<and> room k w'"
proof -
  obtain n where n: "node_resolve node name = success n" using assms(4) by (metis has_value_iff)
  obtain x y where q: "to_writer_qos (h_forever host) q (h_mode host) (h_writer_baseline host) = success x"
      "to_reader_qos (h_forever host) q (h_mode host) (h_reader_baseline host) = success y"
    using assms(3) unfolding qos_translates_def by (metis has_value_iff)
  obtain uw ur where u: "sa_writer a = Some uw" "sa_reader a = Some ur" using assms(1) by (auto simp: service_well_def)
  let ?rq = "service_topic_name (h_mode host) n True" and ?rr = "service_topic_name (h_mode host) n False"
  define v where "v = bind_endpoint_metadata ur Reader ?rr (response_type sty) q (nd_id node)
      (bind_endpoint_metadata uw Writer ?rq (request_type sty) q (nd_id node)
        (make_end ur Reader ?rr True (make_end uw Writer ?rq True (hold_topic ?rr (hold_topic ?rq w)))))"
  have "room (Suc k) v" using assms(2) by (simp add: v_def)
  then obtain i c w1 w2 where s: "subscribe_graph v = (i, w1)" "add_callback w1 = (c, w2)" "i \<noteq> 0" "c \<noteq> 0" "room k w2"
    by (rule room_taken)
  show ?thesis
    using assms(1) s by (auto simp: create_client_def n q u service_well_def Let_def v_def [symmetric])
qed

lemma subscriber_made:
  assumes "topic_well a" "room k w" "qos_translates host q" "has_value (node_resolve node name)"
  shows "\<exists>h w'. create_subscriber host node td a y name q w = (Yields (success h), w') \<and> room k w'"
proof -
  obtain n where n: "node_resolve node name = success n" using assms(4) by (metis has_value_iff)
  obtain x where q: "to_reader_qos (h_forever host) q (h_mode host) (h_reader_baseline host) = success x"
    using assms(3) unfolding qos_translates_def by (metis has_value_iff)
  show ?thesis using assms(1,2)
    by (auto simp: create_subscriber_def create_topic_endpoint_def n q topic_well_def Let_def)
qed

text \<open>An action has a name, and its five endpoints have names that resolve.\<close>

definition action_resolves :: "NodeImpl \<Rightarrow> string \<Rightarrow> bool" where
  "action_resolves node name \<longleftrightarrow> (case node_resolve node name of
       Inl e \<Rightarrow> False
     | Inr n \<Rightarrow> (case derive_action_endpoint_names n of
           None \<Rightarrow> False
         | Some ns \<Rightarrow> list_all (\<lambda>f. has_value (node_resolve node (f ns))) [send_goal, cancel_goal, get_result, feedback, status]))"

definition action_well :: "ActionAnswers \<Rightarrow> bool" where
  "action_well a \<longleftrightarrow> \<not> aa_shut a \<and> service_well (aa_goal a) \<and> service_well (aa_cancel a) \<and> service_well (aa_result a) \<and>
     topic_well (aa_feedback a) \<and> topic_well (aa_status a) \<and> \<not> aa_shut_after a"

definition action_qos_translates :: "Host \<Rightarrow> ActionQos \<Rightarrow> bool" where
  "action_qos_translates host q \<longleftrightarrow> list_all (qos_translates host)
     [goal_service_qos q, cancel_service_qos q, result_service_qos q, feedback_topic_qos q, status_topic_qos q]"

lemma then_success [simp]: "then_create (Yields (success x), w) undo k = k x w"
  by (simp add: then_create_def)

lemma action_client_made:
  assumes "action_well a" "room 4 w" "action_qos_translates host q" "action_resolves node name"
  shows "\<exists>h w'. create_action_client host node td a aty name q w = (Yields (success h), w')"
proof -
  obtain n ns where n: "node_resolve node name = success n" "derive_action_endpoint_names n = Some ns"
      and r: "has_value (node_resolve node (send_goal ns))" "has_value (node_resolve node (cancel_goal ns))"
        "has_value (node_resolve node (get_result ns))" "has_value (node_resolve node (feedback ns))"
        "has_value (node_resolve node (status ns))"
    using assms(4) by (auto simp: action_resolves_def split: sum.splits option.splits)
  have q: "qos_translates host (goal_service_qos q)" "qos_translates host (cancel_service_qos q)"
      "qos_translates host (result_service_qos q)" "qos_translates host (feedback_topic_qos q)"
      "qos_translates host (status_topic_qos q)"
    using assms(3) by (simp_all add: action_qos_translates_def)
  have a: "service_well (aa_goal a)" "service_well (aa_cancel a)" "service_well (aa_result a)"
      "topic_well (aa_feedback a)" "topic_well (aa_status a)" "\<not> aa_shut a" "\<not> aa_shut_after a"
    using assms(1) by (simp_all add: action_well_def)
  have "room (Suc 3) w" using assms(2) by simp
  from client_made [OF a(1) this q(1) r(1)] obtain h1 w1 where
    1: "create_client host node td (aa_goal a) (send_goal_type aty) (send_goal ns) (goal_service_qos q) w = (Yields (success h1), w1)"
      "room (Suc 2) w1" unfolding numeral_2_eq_2 numeral_3_eq_3 by blast
  from client_made [OF a(2) 1(2) q(2) r(2)] obtain h2 w2 where
    2: "create_client host node td (aa_cancel a) (cancel_goal_type aty) (cancel_goal ns) (cancel_service_qos q) w1 = (Yields (success h2), w2)"
      "room (Suc 1) w2" unfolding numeral_2_eq_2 One_nat_def by blast
  from client_made [OF a(3) 2(2) q(3) r(3)] obtain h3 w3 where
    3: "create_client host node td (aa_result a) (get_result_type aty) (get_result ns) (result_service_qos q) w2 = (Yields (success h3), w3)"
      "room (Suc 0) w3" unfolding One_nat_def by blast
  from subscriber_made [OF a(4) 3(2) q(4) r(4)] obtain h4 w4 where
    4: "create_subscriber host node td (aa_feedback a) (feedback_type aty) (feedback ns) (feedback_topic_qos q) w3 = (Yields (success h4), w4)"
      "room (Suc 0) w4" by blast
  from subscriber_made [OF a(5) 4(2) q(5) r(5)] obtain h5 w5 where
    5: "create_subscriber host node td (aa_status a) (status_type aty) (status ns) (status_topic_qos q) w4 = (Yields (success h5), w5)"
      "room (Suc 0) w5" by blast
  obtain i c w6 w7 where "subscribe_graph w5 = (i, w6)" "add_callback w6 = (c, w7)" "i \<noteq> 0" "c \<noteq> 0"
    using room_taken [OF 5(2)] by metis
  with a(6,7) show ?thesis
    by (simp add: create_action_client_def n 1(1) 2(1) 3(1) 4(1) 5(1))
qed

section \<open>What a creation makes\<close>

text \<open>
  The endpoints of a client and of a subscriber, as Fast DDS and as the local graph know them:
  each on the topic of the resolved name, with the type and the QoS that were asked for.
\<close>

definition client_ends :: "Host \<Rightarrow> ServiceHandle \<Rightarrow> NodeEnd list" where
  "client_ends host h =
     [\<lparr>ne_guid = sh_writer h, ne_kind = Writer, ne_topic = service_topic_name (h_mode host) (sh_name h) True, ne_listener = True\<rparr>,
      \<lparr>ne_guid = sh_reader h, ne_kind = Reader, ne_topic = service_topic_name (h_mode host) (sh_name h) False, ne_listener = True\<rparr>]"

definition client_entries :: "Host \<Rightarrow> NodeImpl \<Rightarrow> ServiceType \<Rightarrow> Qos \<Rightarrow> ServiceHandle \<Rightarrow> Qos LocalEndpointRecord list" where
  "client_entries host node sty q h =
     [new_entry (sh_writer h) Writer (service_topic_name (h_mode host) (sh_name h) True) (request_type sty) (nd_id node) q,
      new_entry (sh_reader h) Reader (service_topic_name (h_mode host) (sh_name h) False) (response_type sty) (nd_id node) q]"

definition subscriber_ends :: "Host \<Rightarrow> TopicHandle \<Rightarrow> NodeEnd list" where
  "subscriber_ends host h =
     [\<lparr>ne_guid = th_guid h, ne_kind = Reader, ne_topic = dds_topic_name (h_mode host) (th_name h), ne_listener = False\<rparr>]"

definition subscriber_entries :: "Host \<Rightarrow> NodeImpl \<Rightarrow> string \<Rightarrow> Qos \<Rightarrow> TopicHandle \<Rightarrow> Qos LocalEndpointRecord list" where
  "subscriber_entries host node type q h =
     [new_entry (th_guid h) Reader (dds_topic_name (h_mode host) (th_name h)) type (nd_id node) q]"

definition adds :: "NodeEnd list \<Rightarrow> Qos LocalEndpointRecord list \<Rightarrow> NodeWorld \<Rightarrow> NodeWorld \<Rightarrow> bool" where
  "adds es rs w w' \<longleftrightarrow> nw_ends w' = nw_ends w @ es \<and> local_endpoints (nw_graph w') = local_endpoints (nw_graph w) @ rs"

lemma adds_trans: "adds es rs w w1 \<Longrightarrow> adds es' rs' w1 w2 \<Longrightarrow> adds (es @ es') (rs @ rs') w w2"
  by (simp add: adds_def)

lemma subscribe_adds: "subscribe_graph w = (i, w') \<Longrightarrow> adds [] [] w w'"
  by (auto simp: adds_def subscribe_graph_def subscribe_def Let_def split: prod.splits if_splits)

lemma callback_adds: "add_callback w = (c, w') \<Longrightarrow> adds [] [] w w'"
  by (auto simp: adds_def add_callback_def split: prod.splits)

lemma bind_adds:
  assumes "graph_works (bind_endpoint_metadata u k t y q i w)" "node_live i (local_nodes (nw_graph w))"
    "\<not> u \<in> le_guid ` set (local_endpoints (nw_graph w))"
  shows "adds [] [new_entry u k t y i q] w (bind_endpoint_metadata u k t y q i w)"
  using bind_worked(1) [OF assms(1)] assms(2,3)
  by (simp add: adds_def holdings_def)

lemma client_shape:
  assumes "create_client host node td a sty name q w = (Yields (success h), w')"
  obtains n uw ur v i c w6 where "node_resolve node name = success n" "sa_writer a = Some uw" "sa_reader a = Some ur"
    "v = make_end ur Reader (service_topic_name (h_mode host) n False) True (make_end uw Writer (service_topic_name (h_mode host) n True) True
      (hold_topic (service_topic_name (h_mode host) n False) (hold_topic (service_topic_name (h_mode host) n True) w)))"
    "subscribe_graph (bind_endpoint_metadata ur Reader (service_topic_name (h_mode host) n False) (response_type sty) q (nd_id node)
      (bind_endpoint_metadata uw Writer (service_topic_name (h_mode host) n True) (request_type sty) q (nd_id node) v)) = (i, w6)"
    "i \<noteq> 0" "add_callback w6 = (c, w')"
    "h = \<lparr>sh_request_topic = service_topic_name (h_mode host) n True, sh_response_topic = service_topic_name (h_mode host) n False,
       sh_writer = uw, sh_reader = ur, sh_subscription = i, sh_callback = c, sh_name = n\<rparr>"
proof -
  obtain n where n: "node_resolve node name = success n" using assms by (auto simp: create_client_def split: sum.splits)
  show ?thesis using assms that [OF n] unfolding create_client_def n Let_def
    by (auto split: sum.splits option.splits ThrowPoint.splits if_splits prod.splits)
qed

lemma client_adds:
  assumes ready: "ready (nd_id node) (service_guids a \<union> G) w" and calm: "service_calm a G"
    and made: "create_client host node td a sty name q w = (Yields (success h), w')" and works: "graph_works w'"
  shows "adds (client_ends host h) (client_entries host node sty q h) w w' \<and> node_resolve node name = success (sh_name h)"
proof -
  from client_shape [OF made] obtain n uw ur v i c w6 where n: "node_resolve node name = success n"
      and u: "sa_writer a = Some uw" "sa_reader a = Some ur"
      and v: "v = make_end ur Reader (service_topic_name (h_mode host) n False) True (make_end uw Writer (service_topic_name (h_mode host) n True) True
      (hold_topic (service_topic_name (h_mode host) n False) (hold_topic (service_topic_name (h_mode host) n True) w)))"
      and s: "subscribe_graph (bind_endpoint_metadata ur Reader (service_topic_name (h_mode host) n False) (response_type sty) q (nd_id node)
      (bind_endpoint_metadata uw Writer (service_topic_name (h_mode host) n True) (request_type sty) q (nd_id node) v)) = (i, w6)"
        "add_callback w6 = (c, w')"
      and h: "h = \<lparr>sh_request_topic = service_topic_name (h_mode host) n True, sh_response_topic = service_topic_name (h_mode host) n False,
       sh_writer = uw, sh_reader = ur, sh_subscription = i, sh_callback = c, sh_name = n\<rparr>" by metis
  let ?rq = "service_topic_name (h_mode host) n True" and ?rr = "service_topic_name (h_mode host) n False"
  let ?b = "bind_endpoint_metadata ur Reader ?rr (response_type sty) q (nd_id node)
      (bind_endpoint_metadata uw Writer ?rq (request_type sty) q (nd_id node) v)"
  have "graph_works w6" using works called_back(5) [OF s(2)] by (simp add: graph_works_def)
  then have bw: "graph_works ?b" using subscribed(1,5) [OF s(1)] by blast
  have live: "node_live (nd_id node) (hd_nodes (holdings v))"
    and new: "\<not> uw \<in> le_guid ` set (hd_entries (holdings v))" "\<not> ur \<in> le_guid ` set (hd_entries (holdings v))" "uw \<noteq> ur"
    using ready calm u by (auto simp: ready_def service_guids_def service_calm_def v holdings_def)
  have e: "hd_entries (holdings v) = local_endpoints (nw_graph w)"
    "hd_ends (holdings v) = nw_ends w @ client_ends host h"
    by (simp_all add: v holdings_def h client_ends_def) (simp add: make_end_def hold_topic_def)
  have "holdings ?b = (holdings v)\<lparr>hd_entries := hd_entries (holdings v) @
      [new_entry uw Writer ?rq (request_type sty) (nd_id node) q, new_entry ur Reader ?rr (response_type sty) (nd_id node) q],
      hd_nodes := one_more (nd_id node) (one_more (nd_id node) (hd_nodes (holdings v)))\<rparr>"
    using pair_bound(1) [OF bw live new] .
  then have "hd_ends (holdings ?b) = nw_ends w @ client_ends host h"
    "hd_entries (holdings ?b) = local_endpoints (nw_graph w) @ client_entries host node sty q h"
    using e by (simp_all add: h client_entries_def)
  then have "adds (client_ends host h) (client_entries host node sty q h) w ?b" by (simp add: adds_def holdings_def)
  from adds_trans [OF adds_trans [OF this subscribe_adds [OF s(1)]] callback_adds [OF s(2)]]
  show ?thesis using n h by simp
qed

lemma subscriber_adds:
  assumes ready: "ready (nd_id node) (set_option (ea_made a) \<union> G) w"
    and made: "create_subscriber host node td a type name q w = (Yields (success h), w')" and works: "graph_works w'"
  shows "adds (subscriber_ends host h) (subscriber_entries host node type q h) w w' \<and> node_resolve node name = success (th_name h)"
proof -
  obtain n where n: "node_resolve node name = success n"
    using made by (auto simp: create_subscriber_def create_topic_endpoint_def split: sum.splits)
  let ?t = "dds_topic_name (h_mode host) n"
  define v where "v = (\<lambda>u. make_end u Reader ?t False (hold_topic ?t w))"
  obtain u where u: "ea_made a = Some u" and w': "w' = bind_endpoint_metadata u Reader ?t type q (nd_id node) (v u)"
      and h: "h = \<lparr>th_guid = u, th_topic = ?t, th_name = n\<rparr>"
    using made unfolding create_subscriber_def create_topic_endpoint_def n v_def Let_def
    by (auto split: sum.splits option.splits ThrowPoint.splits if_splits)
  have "adds [] [new_entry u Reader ?t type (nd_id node) q] (v u) w'"
    unfolding w' by (rule bind_adds [OF works [unfolded w']]) (use ready u in \<open>auto simp: ready_def v_def\<close>)
  moreover have "adds (subscriber_ends host h) [] w (v u)"
    by (simp add: adds_def v_def subscriber_ends_def h) (simp add: make_end_def hold_topic_def)
  ultimately show ?thesis using adds_trans by (fastforce simp: n h subscriber_entries_def)
qed

lemma stage_ready:
  assumes "promised i G undo w r" "r = (Yields (success h), w')" "graph_works w'"
  shows "ready i G w'"
  using assms by (simp add: promised_def)

text \<open>The five endpoints of an action client, and the names that its handle has for them.\<close>

definition action_ends :: "Host \<Rightarrow> ActionHandle \<Rightarrow> NodeEnd list" where
  "action_ends host h = client_ends host (ah_goal h) @ client_ends host (ah_cancel h) @ client_ends host (ah_result h) @
     subscriber_ends host (ah_feedback h) @ subscriber_ends host (ah_status h)"

definition action_entries :: "Host \<Rightarrow> NodeImpl \<Rightarrow> ActionType \<Rightarrow> ActionQos \<Rightarrow> ActionHandle \<Rightarrow> Qos LocalEndpointRecord list" where
  "action_entries host node aty q h =
     client_entries host node (send_goal_type aty) (goal_service_qos q) (ah_goal h) @
     client_entries host node (cancel_goal_type aty) (cancel_service_qos q) (ah_cancel h) @
     client_entries host node (get_result_type aty) (result_service_qos q) (ah_result h) @
     subscriber_entries host node (feedback_type aty) (feedback_topic_qos q) (ah_feedback h) @
     subscriber_entries host node (status_type aty) (status_topic_qos q) (ah_status h)"

definition action_named :: "NodeImpl \<Rightarrow> string \<Rightarrow> ActionHandle \<Rightarrow> bool" where
  "action_named node name h \<longleftrightarrow> node_resolve node name = success (ah_name h) \<and>
     derive_action_endpoint_names (ah_name h) = Some (ah_names h) \<and>
     node_resolve node (send_goal (ah_names h)) = success (sh_name (ah_goal h)) \<and>
     node_resolve node (cancel_goal (ah_names h)) = success (sh_name (ah_cancel h)) \<and>
     node_resolve node (get_result (ah_names h)) = success (sh_name (ah_result h)) \<and>
     node_resolve node (feedback (ah_names h)) = success (th_name (ah_feedback h)) \<and>
     node_resolve node (status (ah_names h)) = success (th_name (ah_status h))"

lemma client_alive: "create_client host node td a sty name q w = (r, w') \<Longrightarrow> graph_works w' \<Longrightarrow> graph_works w"
  using dead_client [of w host node td a sty name q] by force

lemma subscriber_alive: "create_subscriber host node td a y name q w = (r, w') \<Longrightarrow> graph_works w' \<Longrightarrow> graph_works w"
  unfolding create_subscriber_def by (metis dead_topic snd_conv)

lemma action_client_shape:
  assumes "create_action_client host node td a aty name q w = (Yields (success h), w')"
  obtains n ns goal w1 can w2 res w3 fb w4 st w5 i w6 cb where
    "node_resolve node name = success n" "derive_action_endpoint_names n = Some ns"
    "create_client host node td (aa_goal a) (send_goal_type aty) (send_goal ns) (goal_service_qos q) w = (Yields (success goal), w1)"
    "create_client host node td (aa_cancel a) (cancel_goal_type aty) (cancel_goal ns) (cancel_service_qos q) w1 = (Yields (success can), w2)"
    "create_client host node td (aa_result a) (get_result_type aty) (get_result ns) (result_service_qos q) w2 = (Yields (success res), w3)"
    "create_subscriber host node td (aa_feedback a) (feedback_type aty) (feedback ns) (feedback_topic_qos q) w3 = (Yields (success fb), w4)"
    "create_subscriber host node td (aa_status a) (status_type aty) (status ns) (status_topic_qos q) w4 = (Yields (success st), w5)"
    "subscribe_graph w5 = (i, w6)" "i \<noteq> 0" "add_callback w6 = (cb, w')"
    "h = \<lparr>ah_name = n, ah_names = ns, ah_goal = goal, ah_cancel = can, ah_result = res, ah_feedback = fb,
         ah_status = st, ah_subscription = i, ah_callback = cb\<rparr>"
proof -
  obtain n ns where n: "node_resolve node name = success n" "derive_action_endpoint_names n = Some ns"
    using assms by (auto simp: create_action_client_def split: sum.splits option.splits)
  show ?thesis using assms that [OF n] unfolding create_action_client_def Let_def
    by (auto simp: n dest!: then_yields split: if_splits prod.splits)
qed

lemma action_client_adds:
  assumes td: "cooperative td" and ready: "ready (nd_id node) (action_guids a) w" and calm: "action_calm a"
    and made: "create_action_client host node td a aty name q w = (Yields (success h), w')" and works: "graph_works w'"
  shows "adds (action_ends host h) (action_entries host node aty q h) w w' \<and> action_named node name h"
proof -
  note c = calm [unfolded action_calm_def Let_def]
  from action_client_shape [OF made] obtain n ns goal w1 can w2 res w3 fb w4 st w5 i w6 cb where
    n: "node_resolve node name = success n" "derive_action_endpoint_names n = Some ns" and
    1: "create_client host node td (aa_goal a) (send_goal_type aty) (send_goal ns) (goal_service_qos q) w = (Yields (success goal), w1)" and
    2: "create_client host node td (aa_cancel a) (cancel_goal_type aty) (cancel_goal ns) (cancel_service_qos q) w1 = (Yields (success can), w2)" and
    3: "create_client host node td (aa_result a) (get_result_type aty) (get_result ns) (result_service_qos q) w2 = (Yields (success res), w3)" and
    4: "create_subscriber host node td (aa_feedback a) (feedback_type aty) (feedback ns) (feedback_topic_qos q) w3 = (Yields (success fb), w4)" and
    5: "create_subscriber host node td (aa_status a) (status_type aty) (status ns) (status_topic_qos q) w4 = (Yields (success st), w5)" and
    6: "subscribe_graph w5 = (i, w6)" "add_callback w6 = (cb, w')" and
    h: "h = \<lparr>ah_name = n, ah_names = ns, ah_goal = goal, ah_cancel = can, ah_result = res, ah_feedback = fb,
         ah_status = st, ah_subscription = i, ah_callback = cb\<rparr>" by metis
  have "graph_works w6" using works called_back(5) [OF 6(2)] by (simp add: graph_works_def)
  then have g5: "graph_works w5" using subscribed(1,5) [OF 6(1)] by blast
  then have g4: "graph_works w4" by (rule subscriber_alive [OF 5])
  then have g3: "graph_works w3" by (rule subscriber_alive [OF 4])
  then have g2: "graph_works w2" by (rule client_alive [OF 3])
  then have g1: "graph_works w1" by (rule client_alive [OF 2])
  let ?G4 = "set_option (ea_made (aa_status a))"
  let ?G3 = "set_option (ea_made (aa_feedback a)) \<union> ?G4"
  let ?G2 = "service_guids (aa_result a) \<union> ?G3"
  let ?G1 = "service_guids (aa_cancel a) \<union> ?G2"
  have r0: "ready (nd_id node) (service_guids (aa_goal a) \<union> ?G1) w" using ready by (simp add: action_guids_def)
  have r1: "ready (nd_id node) ?G1 w1" using stage_ready [OF client_stage [OF td r0] 1 g1] c by simp
  have r2: "ready (nd_id node) ?G2 w2" using stage_ready [OF client_stage [OF td r1] 2 g2] c by simp
  have r3: "ready (nd_id node) ?G3 w3" using stage_ready [OF client_stage [OF td r2] 3 g3] c by simp
  have r4: "ready (nd_id node) ?G4 w4" using stage_ready [OF subscriber_stage [OF td r3] 4 g4] c by simp
  have r4': "ready (nd_id node) (?G4 \<union> {}) w4" using r4 by simp
  note a1 = client_adds [OF r0 _ 1 g1] and a2 = client_adds [OF r1 _ 2 g2] and a3 = client_adds [OF r2 _ 3 g3]
    and a4 = subscriber_adds [OF r3 4 g4] and a5 = subscriber_adds [OF r4' 5 g5]
  have steps: "adds (client_ends host goal) (client_entries host node (send_goal_type aty) (goal_service_qos q) goal) w w1"
    "adds (client_ends host can) (client_entries host node (cancel_goal_type aty) (cancel_service_qos q) can) w1 w2"
    "adds (client_ends host res) (client_entries host node (get_result_type aty) (result_service_qos q) res) w2 w3"
    "adds (subscriber_ends host fb) (subscriber_entries host node (feedback_type aty) (feedback_topic_qos q) fb) w3 w4"
    "adds (subscriber_ends host st) (subscriber_entries host node (status_type aty) (status_topic_qos q) st) w4 w5"
    "adds [] [] w5 w6" "adds [] [] w6 w'"
    using a1 a2 a3 a4 a5 c subscribe_adds [OF 6(1)] callback_adds [OF 6(2)] by simp_all
  have "adds (action_ends host h) (action_entries host node aty q h) w w'"
    using steps unfolding adds_def by (simp add: action_ends_def action_entries_def h)
  moreover have "action_named node name h" using n a1 a2 a3 a4 a5 c by (simp add: action_named_def h)
  ultimately show ?thesis by blast
qed


text \<open>While the revision has room for \<open>k\<close> more changes, the graph works.\<close>

definition roomy :: "u64 \<Rightarrow> nat \<Rightarrow> NodeWorld \<Rightarrow> bool" where
  "roomy i k w \<longleftrightarrow> graph_works w \<and> i \<noteq> 0 \<and> find (\<lambda>n. ln_id n = i) (local_nodes (nw_graph w)) \<noteq> None \<and>
     unat (revision (nw_graph w)) + k < 2 ^ 64"

lemma roomy_steps [simp]:
  "roomy i k (hold_topic t w) = roomy i k w" "roomy i k (make_end u d t l w) = roomy i k w"
  by (simp_all add: roomy_def graph_works_def)

lemma roomy_bind:
  assumes "roomy i (Suc k) w" shows "roomy i k (bind_endpoint_metadata u d t y q i w)"
proof -
  let ?c = "local_endpoint_change u d t y i q" and ?g = "nw_graph w"
  have g: "health ?g = Healthy" "i \<noteq> 0" "find (\<lambda>n. ln_id n = i) (local_nodes ?g) \<noteq> None" "unat (revision ?g) + Suc k < 2 ^ 64"
    using assms by (auto simp: roomy_def graph_works_def)
  note r = spare_id [OF g(4)]
  have c: "fst (?c ?g) \<noteq> Invalid" "health (snd (?c ?g)) = Healthy" "revision (snd (?c ?g)) = revision ?g"
    "find (\<lambda>n. ln_id n = i) (local_nodes (snd (?c ?g))) \<noteq> None"
    using g find_one_more [of i "local_nodes ?g"]
    by (auto simp: local_endpoint_change_def one_more_def split: option.splits)
  have "health (snd (mutate ?c ?g)) = Healthy \<and> local_nodes (snd (mutate ?c ?g)) = local_nodes (snd (?c ?g)) \<and>
      unat (revision (snd (mutate ?c ?g))) \<le> unat (revision ?g) + 1"
    using c r g(1) by (auto simp: mutate_def Let_def split: prod.splits GraphMutation.splits)
  then show ?thesis using g c(4) by (simp add: roomy_def graph_works_def bind_endpoint_metadata_def on_graph_def add_local_endpoint_def)
qed

lemma roomy_less: "roomy i (Suc k) w \<Longrightarrow> roomy i k w"
  by (simp add: roomy_def)

lemma roomy_watch:
  "subscribe_graph w = (j, w1) \<Longrightarrow> j \<noteq> 0 \<Longrightarrow> roomy i k w \<Longrightarrow> roomy i k w1"
  "add_callback w = (c, w1) \<Longrightarrow> roomy i k w \<Longrightarrow> roomy i k w1"
  by (auto simp: roomy_def graph_works_def subscribe_graph_def subscribe_def add_callback_def Let_def split: prod.splits if_splits)

lemma client_roomy:
  assumes "create_client host node td a sty name q w = (Yields (success h), w')" "roomy (nd_id node) (Suc (Suc k)) w"
  shows "roomy (nd_id node) k w'"
proof (rule client_shape [OF assms(1)])
  fix n uw ur v i c w6
  let ?b = "bind_endpoint_metadata ur Reader (service_topic_name (h_mode host) n False) (response_type sty) q (nd_id node)
      (bind_endpoint_metadata uw Writer (service_topic_name (h_mode host) n True) (request_type sty) q (nd_id node) v)"
  assume v: "v = make_end ur Reader (service_topic_name (h_mode host) n False) True (make_end uw Writer (service_topic_name (h_mode host) n True) True
      (hold_topic (service_topic_name (h_mode host) n False) (hold_topic (service_topic_name (h_mode host) n True) w)))"
    and s: "subscribe_graph ?b = (i, w6)" "i \<noteq> 0" "add_callback w6 = (c, w')"
  have "roomy (nd_id node) k ?b" by (intro roomy_bind) (simp add: v assms(2))
  from roomy_watch(2) [OF s(3) roomy_watch(1) [OF s(1,2) this]] show ?thesis .
qed

lemma subscriber_roomy:
  assumes "create_subscriber host node td a y name q w = (Yields (success h), w')" "roomy (nd_id node) (Suc k) w"
  shows "roomy (nd_id node) k w'"
  using assms unfolding create_subscriber_def create_topic_endpoint_def Let_def
  by (auto split: sum.splits option.splits ThrowPoint.splits if_splits prod.splits intro!: roomy_bind)

lemma action_client_roomy:
  assumes "create_action_client host node td a aty name q w = (Yields (success h), w')" "roomy (nd_id node) 8 w"
  shows "graph_works w'"
proof (rule action_client_shape [OF assms(1)])
  fix n ns goal w1 can w2 res w3 fb w4 st w5 i w6 cb
  assume 1: "create_client host node td (aa_goal a) (send_goal_type aty) (send_goal ns) (goal_service_qos q) w = (Yields (success goal), w1)"
    and 2: "create_client host node td (aa_cancel a) (cancel_goal_type aty) (cancel_goal ns) (cancel_service_qos q) w1 = (Yields (success can), w2)"
    and 3: "create_client host node td (aa_result a) (get_result_type aty) (get_result ns) (result_service_qos q) w2 = (Yields (success res), w3)"
    and 4: "create_subscriber host node td (aa_feedback a) (feedback_type aty) (feedback ns) (feedback_topic_qos q) w3 = (Yields (success fb), w4)"
    and 5: "create_subscriber host node td (aa_status a) (status_type aty) (status ns) (status_topic_qos q) w4 = (Yields (success st), w5)"
    and 6: "subscribe_graph w5 = (i, w6)" "i \<noteq> 0" "add_callback w6 = (cb, w')"
  have "roomy (nd_id node) (Suc (Suc 6)) w" using assms(2) by simp
  from client_roomy [OF 1 this] have "roomy (nd_id node) (Suc (Suc 4)) w1" by simp
  from client_roomy [OF 2 this] have "roomy (nd_id node) (Suc (Suc 2)) w2" by simp
  from client_roomy [OF 3 this] have "roomy (nd_id node) (Suc 1) w3" by (simp add: numeral_2_eq_2)
  from subscriber_roomy [OF 4 this] have "roomy (nd_id node) (Suc 0) w4" by simp
  from roomy_watch(2) [OF 6(3) roomy_watch(1) [OF 6(1,2) subscriber_roomy [OF 5 this]]]
  show ?thesis by (simp add: roomy_def)
qed

section \<open>Properties\<close>

text \<open>
  C12. Creating an action client is all or nothing, as long as no constructor throws and Fast DDS
  deletes what it is asked to. When it fails, at whatever step and whether it returns an error or an
  exception leaves it, the topics, endpoints, listeners, graph entries, subscriptions and callbacks
  held are those from before. When it succeeds, Fast DDS and the graph have just its five endpoints
  besides: the writer and the reader of each of its three clients and its two subscribers, each on
  the topic, with the type and with the QoS of its own; and destroying the client at any later time
  gives back exactly what it took.
\<close>

theorem action_client_all_or_nothing:
  assumes "cooperative td" "ready (nd_id node) (action_guids a) w" "action_calm a"
    and "create_action_client host node td a aty name q w = (out, w')" "graph_works w'"
  shows "case out of
      Yields (Inr h) \<Rightarrow> action_named node name h \<and>
        nw_ends w' = nw_ends w @ action_ends host h \<and>
        local_endpoints (nw_graph w') = local_endpoints (nw_graph w) @ action_entries host node aty q h \<and>
        (\<forall>w2. holdings w2 = holdings w' \<longrightarrow> graph_works (destroy_action_client td h w2) \<longrightarrow>
          holdings (destroy_action_client td h w2) = holdings w)
    | _ \<Rightarrow> holdings w' = holdings w"
proof -
  have "nw_ends w' = nw_ends w @ action_ends host h \<and> action_named node name h \<and>
      local_endpoints (nw_graph w') = local_endpoints (nw_graph w) @ action_entries host node aty q h" if "out = Yields (success h)" for h
    using action_client_adds [OF assms(1-3) assms(4) [unfolded that] assms(5)] by (simp add: adds_def)
  then show ?thesis using action_client_promised [OF assms(1-3), of host aty name q] assms(4,5)
    by (auto simp: promised_def undoes_def split: Outcome.splits sum.splits)
qed

text \<open>
  Creating an action server is all or nothing in the same sense.
\<close>

theorem action_server_all_or_nothing:
  assumes "cooperative td" "ready (nd_id node) (action_guids a) w" "action_calm a"
    and "create_action_server capacity result_timeout host node td a aty name q w = (out, w')" "graph_works w'"
  shows "case out of
      Yields (Inr h) \<Rightarrow> (\<forall>w2. holdings w2 = holdings w' \<longrightarrow> graph_works (destroy_action_server td h w2) \<longrightarrow>
        holdings (destroy_action_server td h w2) = holdings w)
    | _ \<Rightarrow> holdings w' = holdings w"
  using action_server_promised [OF assms(1-3), of capacity result_timeout host aty name q] assms(4,5)
  by (auto simp: promised_def undoes_def split: Outcome.splits sum.splits)

text \<open>
  Whatever Fast DDS answers, to creation as to deletion, no listener is freed while it is
  installed: not by a creation in which no constructor throws, and not by any destruction.
\<close>

theorem listeners_never_dangle:
  assumes "sa_throw (aa_goal a) \<noteq> ThrowConstruct" "sa_throw (aa_cancel a) \<noteq> ThrowConstruct"
    "sa_throw (aa_result a) \<noteq> ThrowConstruct"
  shows "nw_dangling (snd (create_action_client host node td a aty name q w)) = nw_dangling w \<and>
    nw_dangling (snd (create_action_server capacity result_timeout host node td a aty name q w)) = nw_dangling w \<and>
    nw_dangling (destroy_action_client td h w) = nw_dangling w \<and>
    nw_dangling (destroy_action_server td h w) = nw_dangling w"
proof (intro conjI)
  show "nw_dangling (snd (create_action_client host node td a aty name q w)) = nw_dangling w"
    unfolding create_action_client_def Let_def using assms
    by (auto intro!: dangling_then simp: case_prod_beta split: sum.split option.split)
  show "nw_dangling (snd (create_action_server capacity result_timeout host node td a aty name q w)) = nw_dangling w"
    unfolding create_action_server_def Let_def using assms
    by (auto intro!: dangling_then split: sum.split option.split)
  show "nw_dangling (destroy_action_client td h w) = nw_dangling w" by (simp add: destroy_action_client_def)
  show "nw_dangling (destroy_action_server td h w) = nw_dangling w" by (simp add: destroy_action_server_def)
qed

text \<open>
  When the constructor of a client throws, its two listeners are freed while they are still
  installed on the endpoints: they were moved into the arguments of the constructor, and the
  handler has nothing left to detach, drain or retain.
\<close>

theorem constructor_throw_dangles:
  assumes "node_resolve node name = success logical"
    "has_value (to_writer_qos (h_forever host) qos (h_mode host) (h_writer_baseline host))"
    "has_value (to_reader_qos (h_forever host) qos (h_mode host) (h_reader_baseline host))"
    and "\<not> sa_shut a" "sa_request_topic a = success ()" "sa_response_topic a = success ()"
    "sa_writer a = Some uw" "sa_reader a = Some ur" "sa_throw a = ThrowConstruct"
    and "\<not> uw \<in> set (nw_retained w)" "\<not> ur \<in> set (nw_retained w)"
  shows "{uw, ur} \<subseteq> set (nw_dangling (snd (create_client host node td a sty name qos w)))"
proof -
  obtain x y where "to_writer_qos (h_forever host) qos (h_mode host) (h_writer_baseline host) = success x"
      "to_reader_qos (h_forever host) qos (h_mode host) (h_reader_baseline host) = success y"
    using assms(2,3) by (metis has_value_iff)
  with assms show ?thesis
    by (simp add: create_client_def Let_def)
      (simp add: free_listener_def list_ex_iff make_end_def hold_topic_def unbind_endpoint_def bind_endpoint_metadata_def on_graph_def)
qed

text \<open>
  The names of an action are remapped twice: the action name, and then each of the names
  derived from the result once more, so that an endpoint can stand under another name than the one
  the action client uses to find its server.
\<close>

theorem action_names_remapped_again:
  assumes "create_action_client host node td a aty name q w = (Yields (success h), w')"
  shows "node_resolve node name = success (ah_name h) \<and>
    derive_action_endpoint_names (ah_name h) = Some (ah_names h) \<and>
    node_resolve node (send_goal (ah_names h)) = success (sh_name (ah_goal h)) \<and>
    node_resolve node (cancel_goal (ah_names h)) = success (sh_name (ah_cancel h)) \<and>
    node_resolve node (get_result (ah_names h)) = success (sh_name (ah_result h)) \<and>
    node_resolve node (feedback (ah_names h)) = success (th_name (ah_feedback h)) \<and>
    node_resolve node (status (ah_names h)) = success (th_name (ah_status h))"
  using assms unfolding create_action_client_def Let_def
  by (auto dest!: then_yields client_name subscriber_name split: sum.splits option.splits if_splits prod.splits)

text \<open>
  A node that was created is in the local graph under its resolved name, held once, with an id
  no other node has; destroying it brings back what was held. A creation that fails leaves nothing.
\<close>

theorem node_all_or_nothing:
  assumes "create_node global options shut w = (r, w')" "graph_works w'" "graph_ok (nw_graph w)"
  shows "case r of
      Inl e \<Rightarrow> holdings w' = holdings w
    | Inr node \<Rightarrow>
        local_nodes (nw_graph w') = local_nodes (nw_graph w) @ [\<lparr>ln_id = nd_id node, ln_name = nd_name node,
          ln_namespace = nd_namespace node, references = 1\<rparr>] \<and>
        \<not> nd_id node \<in> ln_id ` set (local_nodes (nw_graph w)) \<and> nd_id node \<noteq> 0 \<and>
        (graph_works (destroy_node node w') \<longrightarrow> holdings (destroy_node node w') = holdings w)"
proof (cases "node_identity global options")
  case (Inl e)
  with assms(1) show ?thesis by (auto simp: create_node_def)
next
  case (Inr i)
  let ?a = "add_local_node (id_name i) (id_namespace i) (nw_graph w)"
  show ?thesis
  proof (cases shut)
    case True
    with Inr assms(1) show ?thesis by (auto simp: create_node_def)
  next
    case False
    have w': "w' = w\<lparr>nw_graph := snd (snd ?a)\<rparr>"
      using Inr False assms(1) by (auto simp: create_node_def case_prod_beta Let_def split: if_splits)
    from assms(2) have works: "health (snd (snd ?a)) = Healthy" by (simp add: w' graph_works_def)
    note n = node_added [OF works assms(3)]
    obtain node where r: "r = success node" "nd_id node = fst ?a" "nd_name node = id_name i" "nd_namespace node = id_namespace i"
      using Inr False assms(1) n(1) by (auto simp: create_node_def case_prod_beta Let_def)
    have "holdings (destroy_node node w') = holdings w" if d: "graph_works (destroy_node node w')"
    proof -
      have m: "health (snd (mutate (release_node_change (fst ?a)) (snd (snd ?a)))) = Healthy"
        using d n(1) by (simp add: destroy_node_def graph_works_def on_graph_def release_local_node_def r w')
      have f: "find (\<lambda>x. ln_id x = fst ?a) (local_nodes (snd (snd ?a))) \<noteq> None"
        by (auto simp: find_None_iff n(3))
      then obtain x where "find (\<lambda>x. ln_id x = fst ?a) (local_nodes (snd (snd ?a))) = Some x" by blast
      then show ?thesis
        using mutate_worked(2-4) [OF m] n(1) drop_last_node [OF n(2), of "id_name i" "id_namespace i"]
        by (simp add: holdings_def destroy_node_def on_graph_def release_local_node_def r w' release_node_change_def
            n(3-5))
    qed
    then show ?thesis using n(1-3) by (simp add: r w')
  qed
qed

section \<open>Concrete runs\<close>

definition kind_td :: teardowns where
  "kind_td = (\<lambda>_. \<lparr>td_detach = True, td_delete = Deleted, td_closed = True\<rparr>)"

lemma kind_cooperative: "cooperative kind_td"
  by (simp add: cooperative_def kind_td_def)

definition node_1 :: NodeImpl where
  "node_1 = \<lparr>nd_name = ''n'', nd_namespace = ''/'', nd_remaps = [], nd_parameters = new_store False [], nd_id = 1\<rparr>"

definition world_with_node :: NodeWorld where
  "world_with_node = \<lparr>nw_graph = (new_graph :: Qos DiscoveryGraph)\<lparr>next_local_node_id := 1,
       local_nodes := [\<lparr>ln_id = 1, ln_name = ''n'', ln_namespace = ''/'', references = 1\<rparr>]\<rparr>,
     nw_runtime = new_runtime, nw_topics = {#}, nw_ends = [], nw_orphans = [], nw_dangling = [], nw_retained = []\<rparr>"

definition host_1 :: Host where
  "host_1 = \<lparr>h_mode = DDS, h_forever = forever_1, h_writer_baseline = qos_writer_1, h_reader_baseline = qos_reader_1\<rparr>"

definition end_guid :: "nat \<Rightarrow> Guid" where
  "end_guid k = \<lparr>guidPrefix = replicate 12 1, entityId = [0, 0, of_nat k, 3]\<rparr>"

definition service_answers :: "nat \<Rightarrow> unit result \<Rightarrow> ThrowPoint \<Rightarrow> ServiceAnswers" where
  "service_answers k topic throw = \<lparr>sa_shut = False, sa_request_topic = topic, sa_response_topic = success (),
     sa_writer = Some (end_guid k), sa_reader = Some (end_guid (k + 1)), sa_throw = throw, sa_shut_after = False\<rparr>"

definition end_answers :: "nat \<Rightarrow> unit result \<Rightarrow> EndAnswers" where
  "end_answers k topic = \<lparr>ea_shut = False, ea_topic = topic, ea_made = Some (end_guid k), ea_throw = NoThrow\<rparr>"

text \<open>Everything works but the topic of the status endpoint, which has another type already.\<close>

definition action_answers :: "unit result \<Rightarrow> ActionAnswers" where
  "action_answers topic = \<lparr>aa_shut = False, aa_goal = service_answers 0 (success ()) NoThrow,
     aa_cancel = service_answers 2 (success ()) NoThrow, aa_result = service_answers 4 (success ()) NoThrow,
     aa_feedback = end_answers 6 (success ()), aa_status = end_answers 7 topic, aa_shut_after = False\<rparr>"

definition service_1 :: ServiceType where "service_1 = \<lparr>request_type = ''Q'', response_type = ''R''\<rparr>"

definition action_type_1 :: ActionType where
  "action_type_1 = \<lparr>send_goal_type = service_1, cancel_goal_type = service_1, get_result_type = service_1,
     feedback_type = ''F'', status_type = ''S''\<rparr>"

definition action_qos_1 :: ActionQos where
  "action_qos_1 = \<lparr>goal_service_qos = qos_system_default, result_service_qos = qos_system_default,
     cancel_service_qos = qos_system_default, feedback_topic_qos = qos_system_default, status_topic_qos = qos_system_default\<rparr>"

lemma resolved_1: "node_resolve node_1 ''fib'' = success ''/fib''" by code_simp

lemma qos_1: "qos_translates host_1 qos_system_default" by code_simp

lemma qos_both_1: "rbind (to_writer_qos forever_1 qos_system_default DDS qos_writer_1)
    (\<lambda>_. rbind (to_reader_qos forever_1 qos_system_default DDS qos_reader_1) (\<lambda>_. success ())) = success ()"
  by code_simp

text \<open>The endpoints of the goal service are made; the request topic of the next has another type.\<close>

definition action_answers_refused :: ActionAnswers where
  "action_answers_refused = (action_answers (success ()))\<lparr>aa_cancel := service_answers 2 (failure TypeMismatch) NoThrow\<rparr>"


lemmas graph_run = add_local_endpoint_def remove_local_endpoint_def mutate_def local_endpoint_change_def
  remove_endpoint_change_def subscribe_def unsubscribe_def register_shutdown_callback_def subscribe_graph_def
  add_callback_def um_emplace_def drop_reference_def notify_def u64_max_def

lemmas start_1 = node_1_def world_with_node_def new_graph_def new_runtime_def end_guid_def service_answers_def

lemma action_names_1:
  "node_resolve node_1 ''/fib/_action/send_goal'' = success ''/fib/_action/send_goal''"
  "node_resolve node_1 ''/fib/_action/cancel_goal'' = success ''/fib/_action/cancel_goal''"
  "derive_action_endpoint_names ''/fib'' = Some \<lparr>send_goal = ''/fib/_action/send_goal'', cancel_goal = ''/fib/_action/cancel_goal'',
     get_result = ''/fib/_action/get_result'', feedback = ''/fib/_action/feedback'', status = ''/fib/_action/status''\<rparr>"
  by code_simp+

lemma destroyed_graph: "nw_graph (destroy_client td h w) = nw_graph (unbind_endpoint (sh_writer h)
    (unbind_endpoint (sh_reader h) (unsubscribe_graph (sh_subscription h) w)))"
  by (simp add: destroy_client_def Let_def unbind_endpoint_def unsubscribe_graph_def on_graph_def)

lemma goal_made: "\<exists>h w1. create_client host_1 node_1 kind_td (service_answers 0 (success ()) NoThrow) service_1
    ''/fib/_action/send_goal'' qos_system_default world_with_node = (Yields (success h), w1) \<and>
    graph_works (destroy_client kind_td h w1)"
  unfolding graph_works_def destroyed_graph
  apply (simp only: create_client_def action_names_1 host_1_def Host.simps qos_both_1 sum.case Let_def service_answers_def
      ServiceAnswers.simps option.case if_False ThrowPoint.case)
  by (simp add: service_topic_name_def world_defs graph_run Let_def start_1)


lemma served_graph: "nw_graph (destroy_server td h w) = nw_graph (unsubscribe_graph (sh_subscription h)
    (unbind_endpoint (sh_reader h) (unbind_endpoint (sh_writer h) w)))"
  by (simp add: destroy_server_def Let_def unbind_endpoint_def unsubscribe_graph_def on_graph_def)

lemma qos_both_2: "rbind (to_reader_qos forever_1 qos_system_default DDS qos_reader_1)
    (\<lambda>_. rbind (to_writer_qos forever_1 qos_system_default DDS qos_writer_1) (\<lambda>_. success ())) = success ()"
  by code_simp

lemma goal_served: "\<exists>h w1. create_server 9 host_1 node_1 kind_td (service_answers 0 (success ()) NoThrow) service_1
    ''/fib/_action/send_goal'' qos_system_default world_with_node = (Yields (success h), w1) \<and>
    graph_works (destroy_server kind_td h w1)"
  unfolding graph_works_def served_graph
  apply (simp only: create_server_def action_names_1 host_1_def Host.simps qos_both_2 sum.case Let_def service_answers_def
      ServiceAnswers.simps option.case if_False ThrowPoint.case)
  by (simp add: service_topic_name_def world_defs graph_run Let_def start_1)

lemma cancel_refused:
  "create_client host_1 node_1 kind_td (service_answers 2 (failure TypeMismatch) NoThrow) service_1
     ''/fib/_action/cancel_goal'' qos_system_default w = (Yields (failure TypeMismatch), w)"
  "create_server 9 host_1 node_1 kind_td (service_answers 2 (failure TypeMismatch) NoThrow) service_1
     ''/fib/_action/cancel_goal'' qos_system_default w = (Yields (failure TypeMismatch), w)"
  by (simp_all only: create_client_def create_server_def action_names_1 host_1_def Host.simps qos_both_1 qos_both_2 sum.case Let_def
      service_answers_def ServiceAnswers.simps if_False) simp

lemma ready_refused: "ready (nd_id node_1) (action_guids action_answers_refused) world_with_node"
  by (simp add: ready_def fit_def world_with_node_def new_graph_def new_runtime_def node_live_def node_1_def)

lemma calm_refused: "action_calm action_answers_refused"
  by (simp add: action_calm_def action_answers_refused_def action_answers_def service_answers_def end_answers_def
      service_calm_def service_guids_def end_guid_def)

lemmas action_1 = action_answers_refused_def action_answers_def action_type_1_def action_qos_1_def

lemma action_guids_1: "ready 1 (action_guids (action_answers (success ()))) world_with_node"
  by (simp add: ready_def fit_def world_with_node_def new_graph_def new_runtime_def node_live_def)

lemma action_calm_1: "action_calm (action_answers (success ()))"
  by (simp add: action_calm_def action_answers_def service_answers_def end_answers_def
      service_calm_def service_guids_def end_guid_def)

lemma action_made_1: "\<exists>h w'. create_action_client host_1 node_1 kind_td (action_answers (success ())) action_type_1 ''fib'' action_qos_1
    world_with_node = (Yields (success h), w') \<and> graph_works w'"
proof -
  have w: "action_well (action_answers (success ()))"
    by (simp add: action_well_def action_answers_def service_answers_def end_answers_def service_well_def topic_well_def)
  have m: "room 4 world_with_node"
    by (simp add: room_def world_with_node_def new_graph_def new_runtime_def)
  have q: "action_qos_translates host_1 action_qos_1"
    by (simp add: action_qos_translates_def action_qos_1_def qos_1)
  have r: "action_resolves node_1 ''fib''" by code_simp
  have s: "roomy (nd_id node_1) 8 world_with_node"
    by (simp add: roomy_def graph_works_def node_1_def world_with_node_def new_graph_def)
  from action_client_made [OF w m q r] obtain h w' where run: "create_action_client host_1 node_1 kind_td
      (action_answers (success ())) action_type_1 ''fib'' action_qos_1 world_with_node = (Yields (success h), w')" by blast
  from run action_client_roomy [OF run s] show ?thesis by blast
qed

theorem action_client_all_or_nothing_witness:
  "(\<exists>w'. create_action_client host_1 node_1 kind_td action_answers_refused action_type_1 ''fib'' action_qos_1 world_with_node
       = (Yields (failure TypeMismatch), w') \<and> holdings w' = holdings world_with_node) \<and>
   (\<exists>h w'. create_action_client host_1 node_1 kind_td (action_answers (success ())) action_type_1 ''fib'' action_qos_1 world_with_node
       = (Yields (success h), w') \<and> length (nw_ends w') = 8 \<and>
     map le_type (local_endpoints (nw_graph w')) = [''Q'', ''R'', ''Q'', ''R'', ''Q'', ''R'', ''F'', ''S''])"
proof
  obtain h w1 where h: "create_client host_1 node_1 kind_td (service_answers 0 (success ()) NoThrow) service_1
      ''/fib/_action/send_goal'' qos_system_default world_with_node = (Yields (success h), w1)"
      "graph_works (destroy_client kind_td h w1)" using goal_made by blast
  have run: "create_action_client host_1 node_1 kind_td action_answers_refused action_type_1 ''fib'' action_qos_1 world_with_node
      = (Yields (failure TypeMismatch), destroy_client kind_td h w1)"
    by (simp add: create_action_client_def resolved_1 action_names_1 action_1 h(1) cancel_refused then_create_def)
  show "\<exists>w'. create_action_client host_1 node_1 kind_td action_answers_refused action_type_1 ''fib'' action_qos_1 world_with_node
       = (Yields (failure TypeMismatch), w') \<and> holdings w' = holdings world_with_node"
    using action_client_all_or_nothing [OF kind_cooperative ready_refused calm_refused run h(2)] run by auto
next
  obtain h w' where run: "create_action_client host_1 node_1 kind_td (action_answers (success ())) action_type_1 ''fib'' action_qos_1
      world_with_node = (Yields (success h), w')" and works: "graph_works w'" using action_made_1 by blast
  have i: "nd_id node_1 = 1" by (simp add: node_1_def)
  from action_client_all_or_nothing [OF kind_cooperative action_guids_1 [folded i] action_calm_1 run works]
  have made: "nw_ends w' = nw_ends world_with_node @ action_ends host_1 h"
    "local_endpoints (nw_graph w') = local_endpoints (nw_graph world_with_node) @ action_entries host_1 node_1 action_type_1 action_qos_1 h"
    by simp_all
  have "length (nw_ends w') = 8"
    unfolding made by (simp add: world_with_node_def action_ends_def client_ends_def subscriber_ends_def)
  moreover have "map le_type (local_endpoints (nw_graph w')) = [''Q'', ''R'', ''Q'', ''R'', ''Q'', ''R'', ''F'', ''S'']"
    unfolding made by (simp add: world_with_node_def new_graph_def action_entries_def client_entries_def subscriber_entries_def
        new_entry_def action_type_1_def service_1_def)
  ultimately show "\<exists>h w'. create_action_client host_1 node_1 kind_td (action_answers (success ())) action_type_1 ''fib'' action_qos_1
       world_with_node = (Yields (success h), w') \<and> length (nw_ends w') = 8 \<and>
     map le_type (local_endpoints (nw_graph w')) = [''Q'', ''R'', ''Q'', ''R'', ''Q'', ''R'', ''F'', ''S'']"
    using run by - (rule exI [of _ h], rule exI [of _ w'], simp)
qed

theorem action_server_all_or_nothing_witness:
  "\<exists>w'. create_action_server 9 0 host_1 node_1 kind_td action_answers_refused action_type_1 ''fib'' action_qos_1 world_with_node
       = (Yields (failure TypeMismatch), w') \<and> holdings w' = holdings world_with_node"
proof -
  obtain h w1 where h: "create_server 9 host_1 node_1 kind_td (service_answers 0 (success ()) NoThrow) service_1
      ''/fib/_action/send_goal'' qos_system_default world_with_node = (Yields (success h), w1)"
      "graph_works (destroy_server kind_td h w1)" using goal_served by blast
  have run: "create_action_server 9 0 host_1 node_1 kind_td action_answers_refused action_type_1 ''fib'' action_qos_1 world_with_node
      = (Yields (failure TypeMismatch), destroy_server kind_td h w1)"
    by (simp add: create_action_server_def resolved_1 action_names_1 action_1 h(1) cancel_refused then_create_def)
  show ?thesis
    using action_server_all_or_nothing [OF kind_cooperative ready_refused calm_refused run h(2)] run by auto
qed

theorem listeners_never_dangle_witness:
  "nw_dangling (snd (create_action_client host_1 node_1 (\<lambda>_. \<lparr>td_detach = False, td_delete = Refused, td_closed = False\<rparr>)
     action_answers_refused action_type_1 ''fib'' action_qos_1 world_with_node)) = []"
  using listeners_never_dangle [of action_answers_refused host_1 node_1 _ action_type_1 "''fib''" action_qos_1 world_with_node]
  by (simp add: action_1 service_answers_def) (simp add: world_with_node_def)

theorem constructor_throw_dangles_witness:
  "{end_guid 0, end_guid 1} \<subseteq> set (nw_dangling (snd (create_client host_1 node_1 kind_td
     (service_answers 0 (success ()) ThrowConstruct) service_1 ''fib'' qos_system_default world_with_node)))"
  using qos_1 unfolding qos_translates_def
  by (intro constructor_throw_dangles [OF resolved_1])
    (simp_all add: service_answers_def world_with_node_def)

text \<open>A rule that names the feedback topic of an action moves the endpoint, not the name the client looks for.\<close>

definition node_remapped :: NodeImpl where
  "node_remapped = node_1\<lparr>nd_remaps := [\<lparr>remap_from = ''/fib/_action/feedback'', remap_to = ''/f''\<rparr>]\<rparr>"

theorem action_names_remapped_again_witness:
  "\<exists>h w'. create_action_client host_1 node_remapped kind_td (action_answers (success ())) action_type_1 ''fib'' action_qos_1
       world_with_node = (Yields (success h), w') \<and>
     feedback (ah_names h) = ''/fib/_action/feedback'' \<and> th_name (ah_feedback h) = ''/f''"
proof -
  have w: "action_well (action_answers (success ()))"
    by (simp add: action_well_def action_answers_def service_answers_def end_answers_def service_well_def topic_well_def)
  have m: "room 4 world_with_node"
    by (simp add: room_def world_with_node_def new_graph_def new_runtime_def)
  have q: "action_qos_translates host_1 action_qos_1"
    by (simp add: action_qos_translates_def action_qos_1_def qos_1)
  have r: "action_resolves node_remapped ''fib''" by code_simp
  obtain h w' where run: "create_action_client host_1 node_remapped kind_td (action_answers (success ())) action_type_1 ''fib''
      action_qos_1 world_with_node = (Yields (success h), w')"
    using action_client_made [OF w m q r] by blast
  have f: "node_resolve node_remapped ''fib'' = success ''/fib''"
    "node_resolve node_remapped ''/fib/_action/feedback'' = success ''/f''" by code_simp+
  note t = action_names_remapped_again [OF run]
  have n: "ah_name h = ''/fib''" using t by (simp add: f(1))
  have "Some (ah_names h) = derive_action_endpoint_names (ah_name h)" using t by simp
  then have ns: "feedback (ah_names h) = ''/fib/_action/feedback''" by (simp add: n action_names_1(3))
  show ?thesis using t run by (auto simp: ns f(2))
qed

definition empty_world :: NodeWorld where
  "empty_world = \<lparr>nw_graph = new_graph, nw_runtime = new_runtime, nw_topics = {#}, nw_ends = [], nw_orphans = [],
     nw_dangling = [], nw_retained = []\<rparr>"

definition node_options_1 :: NodeOptions where
  "node_options_1 = \<lparr>node_name = ''n'', node_namespace = ''a'', node_arguments = no_arguments,
     use_global_arguments = True, allow_undeclared_parameters = False\<rparr>"

theorem node_all_or_nothing_witness:
  "\<exists>node w'. create_node no_arguments node_options_1 False empty_world = (success node, w') \<and> nd_namespace node = ''/a'' \<and>
     map ln_name (local_nodes (nw_graph w')) = [''n''] \<and> graph_works (destroy_node node w') \<and>
     holdings (destroy_node node w') = holdings empty_world"
proof -
  have i: "node_identity no_arguments node_options_1 =
      success \<lparr>id_name = ''n'', id_namespace = ''/a'', id_remaps = [], id_overrides = []\<rparr>" by code_simp
  define node where "node = \<lparr>nd_name = ''n'', nd_namespace = ''/a'', nd_remaps = [],
    nd_parameters = new_store False (select_parameter_overrides [] ''n'' ''/a/n''), nd_id = 1\<rparr>"
  have "\<exists>w'. create_node no_arguments node_options_1 False empty_world = (success node, w') \<and> graph_works w' \<and>
      graph_works (destroy_node node w')"
    unfolding create_node_def i sum.case if_False
    by (simp add: node_def add_local_node_def mutate_def local_node_change_def release_local_node_def
        release_node_change_def empty_world_def new_graph_def u64_max_def Let_def destroy_node_def on_graph_def
        graph_works_def node_options_1_def fully_qualified_name_def)
  then obtain w' where run: "create_node no_arguments node_options_1 False empty_world = (success node, w')"
    and w: "graph_works w'" "graph_works (destroy_node node w')" by blast
  have g: "graph_ok (nw_graph empty_world)" "local_nodes (nw_graph empty_world) = []"
    by (simp_all add: empty_world_def new_graph_ok) (simp add: new_graph_def)
  have n: "nd_namespace node = ''/a''" "nd_name node = ''n''" by (simp_all add: node_def)
  show ?thesis
    using node_all_or_nothing [OF run w(1) g(1)] run w by (auto simp: g(2) n)
qed

end
