(* ===== verification/Leases.thy ===== *)
theory Leases
  imports Prelude
begin

text \<open>
  The entities of the Python binding: \<^verbatim>\<open>dclpy/src/entity.hpp\<close> keeps a native object alive while
  somebody works with it, \<^verbatim>\<open>dclpy/src/waitable.hpp\<close> claims an entity for a wait set,
  \<^verbatim>\<open>dclpy/src/context.hpp\<close> closes all entities of a context, and \<^verbatim>\<open>dclpy/src/wait_set.*\<close> hands out
  what is ready together with leases on it. Every section under the mutex of a backing is one
  function; the steps of threads between them are the events of a schedule.
\<close>

section \<open>Backings\<close>

datatype EntityState = EntityOpen | EntityClosing | EntityClosed
datatype LeaseKind = Operation | Dispatch | Work

text \<open>The exceptions of the binding; \<^verbatim>\<open>MiddlewareFailure\<close> carries an error code.\<close>

datatype Thrown = ThrowEntityClosed | ThrowContextShutdown | ThrowMiddleware ErrorCode

text \<open>\<open>resource\<close>: the pointer to the native object is not null.\<close>

record EntityBacking =
  entity_state :: EntityState
  resource :: bool
  lease_refs :: "LeaseKind \<Rightarrow> nat"
  executor_registered :: bool
  destroy_started :: bool

definition new_backing :: EntityBacking where
  "new_backing = \<lparr>entity_state = EntityOpen, resource = True, lease_refs = (\<lambda>_. 0), executor_registered = False,
     destroy_started = False\<rparr>"

definition add_ref :: "LeaseKind \<Rightarrow> EntityBacking \<Rightarrow> EntityBacking" where
  "add_ref k b = b\<lparr>lease_refs := (lease_refs b)(k := lease_refs b k + 1)\<rparr>"

text \<open>\<open>op\<close>: the admission of the context is open. \<^verbatim>\<open>prepare_operation\<close> is this for an operation.\<close>

definition acquire :: "bool \<Rightarrow> LeaseKind \<Rightarrow> EntityBacking \<Rightarrow> Thrown + EntityBacking" where
  "acquire op k b =
     (if \<not> op then Inl ThrowContextShutdown
      else if entity_state b \<noteq> EntityOpen then Inl ThrowEntityClosed
      else Inr (add_ref k b))"

definition derive_work :: "EntityBacking \<Rightarrow> Thrown + EntityBacking" where
  "derive_work b =
     (if lease_refs b Work = 0 \<or> destroy_started b then Inl ThrowEntityClosed else Inr (add_ref Work b))"

text \<open>The section of \<^verbatim>\<open>release\<close>; \<open>None\<close> is \<^verbatim>\<open>std::terminate\<close>.\<close>

definition drop_ref :: "LeaseKind \<Rightarrow> EntityBacking \<Rightarrow> EntityBacking option" where
  "drop_ref k b =
     (if lease_refs b k = 0 then None else Some (b\<lparr>lease_refs := (lease_refs b)(k := lease_refs b k - 1)\<rparr>))"

definition set_registered :: "bool \<Rightarrow> EntityBacking \<Rightarrow> Thrown + EntityBacking" where
  "set_registered v b =
     (if v \<and> entity_state b \<noteq> EntityOpen then Inl ThrowEntityClosed
      else if v \<and> executor_registered b then Inl (ThrowMiddleware AlreadyRegistered)
      else Inr (b\<lparr>executor_registered := v\<rparr>))"

definition close_backing :: "EntityBacking \<Rightarrow> EntityBacking" where
  "close_backing b = (if entity_state b \<noteq> EntityOpen then b else b\<lparr>entity_state := EntityClosing\<rparr>)"

definition quiescent :: "EntityBacking \<Rightarrow> bool" where
  "quiescent b \<longleftrightarrow> lease_refs b Operation = 0 \<and> lease_refs b Dispatch = 0 \<and> lease_refs b Work = 0"

text \<open>
  The two sections of \<^verbatim>\<open>try_finalize\<close>. The first tells whether this thread takes the resource, which
  it destroys between them.
\<close>

definition finalize_check :: "EntityBacking \<Rightarrow> bool \<times> EntityBacking" where
  "finalize_check b =
     (if entity_state b \<noteq> EntityClosing \<or> destroy_started b \<or> executor_registered b \<or> \<not> quiescent b then (False, b)
      else (True, b\<lparr>destroy_started := True, resource := False\<rparr>))"

definition finalize_end :: "EntityBacking \<Rightarrow> EntityBacking" where
  "finalize_end b = b\<lparr>entity_state := EntityClosed\<rparr>"

definition operations_idle :: "EntityBacking \<Rightarrow> bool" where
  "operations_idle b \<longleftrightarrow> lease_refs b Operation = 0"

definition is_closed :: "EntityBacking \<Rightarrow> bool" where
  "is_closed b \<longleftrightarrow> entity_state b = EntityClosed"

section \<open>Schedules\<close>

text \<open>
  A backing among threads: the leases that are held, and how many calls are about to enter
  \<^verbatim>\<open>try_finalize\<close>, are destroying the resource, or have destroyed it and are about to say so.
\<close>

record LeaseSys =
  admission_open :: bool
  backing :: EntityBacking
  held_leases :: "LeaseKind \<Rightarrow> nat"
  finalizing :: nat
  destroying :: nat
  ending :: nat
  destroyed :: nat

definition new_lease_sys :: LeaseSys where
  "new_lease_sys = \<lparr>admission_open = True, backing = new_backing, held_leases = (\<lambda>_. 0), finalizing = 0, destroying = 0,
     ending = 0, destroyed = 0\<rparr>"

datatype LeaseStep = Acquire LeaseKind | Derive | Release LeaseKind | Register | Unregister | CloseEntity
  | Check | Destroy | Finish | StopAdmission

definition leased :: "LeaseKind \<Rightarrow> Thrown + EntityBacking \<Rightarrow> LeaseSys \<Rightarrow> LeaseSys" where
  "leased k r s = (case r of
       Inl _ \<Rightarrow> s
     | Inr b \<Rightarrow> s\<lparr>backing := b, held_leases := (held_leases s)(k := held_leases s k + 1)\<rparr>)"

definition registered_to :: "bool \<Rightarrow> LeaseSys \<Rightarrow> LeaseSys" where
  "registered_to v s = (case set_registered v (backing s) of
       Inl _ \<Rightarrow> s
     | Inr b \<Rightarrow> s\<lparr>backing := b, finalizing := finalizing s + 1\<rparr>)"

text \<open>A step that its thread cannot make leaves everything as it is.\<close>

fun lease_exec :: "LeaseStep \<Rightarrow> LeaseSys \<Rightarrow> LeaseSys" where
  "lease_exec (Acquire k) s = leased k (acquire (admission_open s) k (backing s)) s"
| "lease_exec Derive s = (if held_leases s Work = 0 then s else leased Work (derive_work (backing s)) s)"
| "lease_exec (Release k) s =
     (if held_leases s k = 0 then s
      else case drop_ref k (backing s) of
          None \<Rightarrow> s
        | Some b \<Rightarrow> s\<lparr>backing := b, held_leases := (held_leases s)(k := held_leases s k - 1), finalizing := finalizing s + 1\<rparr>)"
| "lease_exec Register s = registered_to True s"
| "lease_exec Unregister s = registered_to False s"
| "lease_exec CloseEntity s =
     (if entity_state (backing s) \<noteq> EntityOpen then s
      else s\<lparr>backing := close_backing (backing s), finalizing := finalizing s + 1\<rparr>)"
| "lease_exec Check s =
     (if finalizing s = 0 then s
      else let (took, b) = finalize_check (backing s)
           in s\<lparr>backing := b, finalizing := finalizing s - 1, destroying := destroying s + (if took then 1 else 0)\<rparr>)"
| "lease_exec Destroy s =
     (if destroying s = 0 then s
      else s\<lparr>destroying := destroying s - 1, ending := ending s + 1, destroyed := destroyed s + 1\<rparr>)"
| "lease_exec Finish s =
     (if ending s = 0 then s else s\<lparr>backing := finalize_end (backing s), ending := ending s - 1\<rparr>)"
| "lease_exec StopAdmission s = s\<lparr>admission_open := False\<rparr>"

definition lease_run :: "LeaseStep list \<Rightarrow> LeaseSys \<Rightarrow> LeaseSys" where
  "lease_run es s = foldl (\<lambda>s e. lease_exec e s) s es"

lemma lease_run_simps [simp]:
  "lease_run [] s = s" "lease_run (e # es) s = lease_run es (lease_exec e s)"
  "lease_run (xs @ ys) s = lease_run ys (lease_run xs s)"
  by (simp_all add: lease_run_def)

section \<open>The invariant\<close>

text \<open>
  Whoever holds a lease, or a wait set that has claimed the entity, keeps the resource. One call at
  most takes the resource; as long as nobody has and nothing keeps it, a call is on its way to do so.
\<close>

definition closed_count :: "EntityBacking \<Rightarrow> nat" where
  "closed_count b = (if entity_state b = EntityClosed then 1 else 0)"

definition lease_inv :: "LeaseSys \<Rightarrow> bool" where
  "lease_inv s \<longleftrightarrow>
     lease_refs (backing s) = held_leases s \<and>
     (resource (backing s) \<longleftrightarrow> \<not> destroy_started (backing s)) \<and>
     (destroy_started (backing s) \<longrightarrow>
        entity_state (backing s) \<noteq> EntityOpen \<and> quiescent (backing s) \<and> \<not> executor_registered (backing s)) \<and>
     destroying s + ending s + closed_count (backing s) = (if destroy_started (backing s) then 1 else 0) \<and>
     destroyed s = ending s + closed_count (backing s) \<and>
     (fst (finalize_check (backing s)) \<longrightarrow> 0 < finalizing s)"

lemma lease_inv_new: "lease_inv new_lease_sys"
  by (simp add: lease_inv_def new_lease_sys_def new_backing_def closed_count_def finalize_check_def)

lemmas lease_defs = lease_inv_def closed_count_def finalize_check_def quiescent_def acquire_def derive_work_def add_ref_def
  drop_ref_def set_registered_def close_backing_def finalize_end_def leased_def registered_to_def

lemma lease_inv_exec: "lease_inv s \<Longrightarrow> lease_inv (lease_exec e s)"
proof (cases e)
  case (Acquire k)
  assume "lease_inv s"
  then show ?thesis by (cases k) (auto simp: Acquire lease_defs)
next
  case (Release k)
  assume "lease_inv s"
  then show ?thesis by (cases k) (auto simp: Release lease_defs split: if_splits)
qed (auto simp: lease_defs split: if_splits)

lemma lease_inv_run: "lease_inv s \<Longrightarrow> lease_inv (lease_run es s)"
  by (induction es arbitrary: s) (simp_all add: lease_inv_exec)

lemma closed_open: "entity_state (backing (lease_run es s)) = EntityOpen \<longleftrightarrow>
    entity_state (backing s) = EntityOpen \<and> \<not> CloseEntity \<in> set es" if "lease_inv s"
  using that
proof (induction es arbitrary: s)
  case (Cons e es)
  have "entity_state (backing (lease_exec e s)) = EntityOpen \<longleftrightarrow> entity_state (backing s) = EntityOpen \<and> e \<noteq> CloseEntity"
    using Cons.prems
    by (cases e) (auto simp: leased_def acquire_def derive_work_def add_ref_def drop_ref_def registered_to_def set_registered_def
        close_backing_def finalize_check_def finalize_end_def lease_inv_def closed_count_def split: if_splits)
  then show ?case using Cons lease_inv_exec [OF Cons.prems, of e] by auto
qed simp

text \<open>Admission is over: only work that is under way can make more work.\<close>

definition user_stopped :: "LeaseSys \<Rightarrow> bool" where
  "user_stopped s \<longleftrightarrow> \<not> admission_open s \<or> entity_state (backing s) \<noteq> EntityOpen"

lemma user_stopped_exec:
  assumes "user_stopped s"
  shows "user_stopped (lease_exec e s)" "k \<noteq> Work \<Longrightarrow> held_leases (lease_exec e s) k \<le> held_leases s k"
    "held_leases s Work = 0 \<Longrightarrow> held_leases (lease_exec e s) Work = 0"
  using assms
  by (cases e; auto simp: user_stopped_def leased_def acquire_def derive_work_def add_ref_def drop_ref_def registered_to_def
      set_registered_def close_backing_def finalize_check_def finalize_end_def split: if_splits)+

lemma user_stopped_run:
  assumes "user_stopped s"
  shows "user_stopped (lease_run es s) \<and> (k \<noteq> Work \<longrightarrow> held_leases (lease_run es s) k \<le> held_leases s k) \<and>
    (held_leases s Work = 0 \<longrightarrow> held_leases (lease_run es s) Work = 0)"
  using assms
proof (induction es arbitrary: s)
  case (Cons e es)
  note u = user_stopped_exec [OF Cons.prems, where e = e]
  from Cons.IH [OF u(1)] u(2) [of k] u(3) show ?case by (auto intro: order_trans)
qed simp

section \<open>Properties of leases\<close>

text \<open>
  C9. Whatever threads do, the native object is there as long as a lease is held or a wait set has
  claimed it, and it is destroyed once at most.
\<close>

theorem resource_outlives_leases:
  assumes "s = lease_run es new_lease_sys" "0 < held_leases s k \<or> executor_registered (backing s)"
  shows "resource (backing s) \<and> destroyed s = 0 \<and> entity_state (backing s) \<noteq> EntityClosed \<and>
    destroyed (lease_run later s) \<le> 1"
proof -
  have i: "lease_inv s" unfolding assms(1) by (rule lease_inv_run [OF lease_inv_new])
  have "destroyed (lease_run later s) \<le> 1"
    using lease_inv_run [OF i, of later] by (auto simp: lease_inv_def split: if_splits)
  moreover have "\<not> destroy_started (backing s)"
    using i assms(2) by (cases k) (auto simp: lease_inv_def quiescent_def)
  ultimately show ?thesis using i by (auto simp: lease_inv_def closed_count_def split: if_splits)
qed

theorem resource_outlives_leases_witness:
  "resource (backing (lease_run [Acquire Work, Acquire Dispatch, CloseEntity, Check, Release Dispatch, Check] new_lease_sys))"
  using resource_outlives_leases [OF refl, of "[Acquire Work, Acquire Dispatch, CloseEntity, Check, Release Dispatch, Check]" Work]
  by (simp add: new_lease_sys_def new_backing_def lease_defs)

text \<open>
  C24. Once every call has returned, an entity that was closed is destroyed and closed exactly when
  nobody holds a lease and no wait set has claimed it: the last one to let go finishes the job.
\<close>

theorem last_lease_finishes:
  assumes "s = lease_run es new_lease_sys" "finalizing s = 0" "destroying s = 0" "ending s = 0" "CloseEntity \<in> set es"
  shows "entity_state (backing s) = EntityClosed \<longleftrightarrow> held_leases s = (\<lambda>_. 0) \<and> \<not> executor_registered (backing s)"
proof -
  have i: "lease_inv s" unfolding assms(1) by (rule lease_inv_run [OF lease_inv_new])
  have "entity_state (backing s) \<noteq> EntityOpen"
    unfolding assms(1) using assms(5) by (simp add: closed_open [OF lease_inv_new])
  moreover have "quiescent (backing s) \<longleftrightarrow> held_leases s = (\<lambda>_. 0)"
  proof
    assume q: "quiescent (backing s)"
    have "held_leases s k = 0" for k using q i by (cases k) (auto simp: lease_inv_def quiescent_def)
    then show "held_leases s = (\<lambda>_. 0)" by (rule ext)
  qed (use i in \<open>simp add: lease_inv_def quiescent_def\<close>)
  ultimately show ?thesis
    using i assms(2-4)
    by (cases "entity_state (backing s)") (auto simp: lease_inv_def closed_count_def finalize_check_def split: if_splits)
qed

theorem last_lease_finishes_witness:
  "entity_state (backing (lease_run [Acquire Work, CloseEntity, Check, Derive, Release Work, Check, Release Work, Check,
     Destroy, Finish] new_lease_sys)) = EntityClosed"
  by (subst last_lease_finishes [OF refl])
    (auto simp: new_lease_sys_def new_backing_def lease_defs fun_eq_iff)

text \<open>
  After an entity was closed or its context stopped admission, no operation and no dispatch
  starts, and no work either but what is derived from work that is under way.
\<close>

theorem stop_is_final:
  assumes "StopAdmission \<in> set es \<or> CloseEntity \<in> set es" "s = lease_run es new_lease_sys"
  shows "(k \<noteq> Work \<longrightarrow> held_leases (lease_run later s) k \<le> held_leases s k) \<and>
    (held_leases s Work = 0 \<longrightarrow> held_leases (lease_run later s) Work = 0)"
proof -
  have "\<not> admission_open (lease_run xs t)" if "\<not> admission_open t \<or> StopAdmission \<in> set xs" for xs t
    using that
  proof (induction xs arbitrary: t)
    case (Cons x xs)
    have "\<not> admission_open t \<or> x = StopAdmission \<Longrightarrow> \<not> admission_open (lease_exec x t)"
      by (cases x) (auto simp: leased_def registered_to_def case_prod_beta split: sum.splits option.splits)
    then show ?case using Cons by auto
  qed simp
  then have "user_stopped s"
    using assms closed_open [OF lease_inv_new, of es] by (auto simp: user_stopped_def)
  then show ?thesis by (simp add: user_stopped_run)
qed

theorem stop_is_final_witness:
  "held_leases (lease_run [Acquire Operation, Acquire Work, Derive] (lease_run [StopAdmission] new_lease_sys)) Work = 0"
  using stop_is_final [of "[StopAdmission]" _ Work "[Acquire Operation, Acquire Work, Derive]"]
  by (simp add: new_lease_sys_def)

section \<open>The entities of a context\<close>

text \<open>
  \<^verbatim>\<open>NativeContext\<close> keeps weak pointers to the backings it adopted. \<open>cx_alive\<close> are the backings that
  exist, \<open>cx_shut\<close> those that were told to close. A call of \<^verbatim>\<open>adopt\<close> is between its section and the
  closing that it may owe; a call of \<^verbatim>\<open>close_children\<close> has the rest of its copy of the children.
\<close>

record ContextSys =
  cx_open :: bool
  cx_children :: "nat list"
  cx_alive :: "nat list"
  cx_shut :: "nat list"
  cx_adopting :: "(nat, nat \<times> bool) umap"
  cx_closers :: "(nat, nat list) umap"

definition new_context_sys :: ContextSys where
  "new_context_sys = \<lparr>cx_open = True, cx_children = [], cx_alive = [], cx_shut = [], cx_adopting = [], cx_closers = []\<rparr>"

definition adopt_child :: "nat \<Rightarrow> nat \<Rightarrow> ContextSys \<Rightarrow> ContextSys" where
  "adopt_child t i s = s\<lparr>cx_children := filter (\<lambda>j. j \<in> set (cx_alive s)) (cx_children s) @ [i],
     cx_alive := i # cx_alive s, cx_adopting := um_emplace t (i, \<not> cx_open s) (cx_adopting s)\<rparr>"

definition adopt_end :: "nat \<Rightarrow> ContextSys \<Rightarrow> ContextSys" where
  "adopt_end t s = (case map_of (cx_adopting s) t of
       None \<Rightarrow> s
     | Some (i, owes) \<Rightarrow> s\<lparr>cx_shut := (if owes then i # cx_shut s else cx_shut s), cx_adopting := um_erase t (cx_adopting s)\<rparr>)"

definition stop_admission :: "ContextSys \<Rightarrow> ContextSys" where
  "stop_admission s = s\<lparr>cx_open := False\<rparr>"

definition copy_children :: "nat \<Rightarrow> ContextSys \<Rightarrow> ContextSys" where
  "copy_children t s =
     s\<lparr>cx_closers := um_emplace t (filter (\<lambda>j. j \<in> set (cx_alive s)) (cx_children s)) (cx_closers s)\<rparr>"

definition close_next :: "nat \<Rightarrow> ContextSys \<Rightarrow> ContextSys" where
  "close_next t s = (case map_of (cx_closers s) t of
       None \<Rightarrow> s
     | Some [] \<Rightarrow> s\<lparr>cx_closers := um_erase t (cx_closers s)\<rparr>
     | Some (i # is) \<Rightarrow> s\<lparr>cx_shut := i # cx_shut s, cx_closers := um_modify t (\<lambda>_. is) (cx_closers s)\<rparr>)"

text \<open>A backing goes with its last owner; a copy of the children and an adoption own theirs.\<close>

definition owned :: "nat \<Rightarrow> ContextSys \<Rightarrow> bool" where
  "owned i s \<longleftrightarrow> list_ex (\<lambda>(t, is). i \<in> set is) (cx_closers s) \<or> list_ex (\<lambda>(t, j, b). i = j) (cx_adopting s)"

datatype ContextStep = AdoptChild nat nat | AdoptEnd nat | StopContext | CopyChildren nat | CloseNext nat | Expire nat

fun context_exec :: "ContextStep \<Rightarrow> ContextSys \<Rightarrow> ContextSys" where
  "context_exec (AdoptChild t i) s =
     (if map_of (cx_adopting s) t \<noteq> None \<or> i \<in> set (cx_alive s) \<or> i \<in> set (cx_shut s) then s else adopt_child t i s)"
| "context_exec (AdoptEnd t) s = adopt_end t s"
| "context_exec StopContext s = stop_admission s"
| "context_exec (CopyChildren t) s = (if map_of (cx_closers s) t \<noteq> None then s else copy_children t s)"
| "context_exec (CloseNext t) s = close_next t s"
| "context_exec (Expire i) s = (if owned i s then s else s\<lparr>cx_alive := filter (\<lambda>j. j \<noteq> i) (cx_alive s)\<rparr>)"

definition context_run :: "ContextStep list \<Rightarrow> ContextSys \<Rightarrow> ContextSys" where
  "context_run es s = foldl (\<lambda>s e. context_exec e s) s es"

lemma context_run_simps [simp]:
  "context_run [] s = s" "context_run (e # es) s = context_run es (context_exec e s)"
  by (simp_all add: context_run_def)

lemmas context_ops = adopt_child_def adopt_end_def stop_admission_def copy_children_def close_next_def

text \<open>Every backing is known to the context.\<close>

lemma children_exec:
  "set (cx_alive s) \<subseteq> set (cx_children s) \<Longrightarrow> set (cx_alive (context_exec e s)) \<subseteq> set (cx_children (context_exec e s))"
  by (cases e) (auto simp: context_ops split: option.splits list.splits)

lemma children_run:
  "set (cx_alive s) \<subseteq> set (cx_children s) \<Longrightarrow> set (cx_alive (context_run es s)) \<subseteq> set (cx_children (context_run es s))"
  by (induction es arbitrary: s) (simp_all add: children_exec)

text \<open>Admission has stopped, and whoever is not told to close yet is owed it.\<close>

definition is_owed :: "ContextSys \<Rightarrow> nat \<Rightarrow> bool" where
  "is_owed s i \<longleftrightarrow> i \<in> set (cx_shut s) \<or>
     (\<exists>t is. map_of (cx_closers s) t = Some is \<and> i \<in> set is) \<or> (\<exists>t. map_of (cx_adopting s) t = Some (i, True))"

definition owed :: "ContextSys \<Rightarrow> bool" where
  "owed s \<longleftrightarrow> \<not> cx_open s \<and> (\<forall>i \<in> set (cx_alive s). is_owed s i)"

lemma is_owed_by:
  "i \<in> set (cx_shut s) \<Longrightarrow> is_owed s i"
  "map_of (cx_closers s) t = Some is \<Longrightarrow> i \<in> set is \<Longrightarrow> is_owed s i"
  "map_of (cx_adopting s) t = Some (i, True) \<Longrightarrow> is_owed s i"
  by (auto simp: is_owed_def)

lemma is_owed_exec:
  assumes "is_owed s i"
  shows "is_owed (context_exec e s) i"
  using assms [unfolded is_owed_def]
proof (elim disjE exE conjE)
  assume "i \<in> set (cx_shut s)"
  then have "i \<in> set (cx_shut (context_exec e s))"
    by (cases e) (auto simp: context_ops split: option.splits list.splits)
  then show ?thesis by (rule is_owed_by)
next
  fix t us
  assume m: "map_of (cx_closers s) t = Some us" "i \<in> set us"
  show ?thesis
  proof (cases "e = CloseNext t")
    case True
    obtain j js where us: "us = j # js" using m(2) by (cases us) auto
    have shut: "set (cx_shut (context_exec e s)) = insert j (set (cx_shut s))"
      "map_of (cx_closers (context_exec e s)) t = Some js"
      using m(1) by (simp_all add: True close_next_def us um.lookup_modify)
    show ?thesis using m(2) us shut by (cases "i = j") (auto intro: is_owed_by)
  next
    case False
    have "map_of (cx_closers (context_exec e s)) t = Some us"
      using m(1) False
      by (cases e) (auto simp: context_ops um.lookup_emplace um.lookup_modify um.lookup_erase split: option.splits list.splits)
    then show ?thesis using m(2) by (rule is_owed_by)
  qed
next
  fix t
  assume m: "map_of (cx_adopting s) t = Some (i, True)"
  show ?thesis
  proof (cases "e = AdoptEnd t")
    case True
    have "i \<in> set (cx_shut (context_exec e s))" using m by (simp add: True adopt_end_def)
    then show ?thesis by (rule is_owed_by)
  next
    case False
    have "map_of (cx_adopting (context_exec e s)) t = Some (i, True)"
      using m False
      by (cases e) (auto simp: context_ops um.lookup_emplace um.lookup_erase split: option.splits list.splits)
    then show ?thesis by (rule is_owed_by)
  qed
qed

lemma owed_exec:
  assumes "owed s"
  shows "owed (context_exec e s)"
  unfolding owed_def
proof (intro conjI ballI)
  show "\<not> cx_open (context_exec e s)"
    using assms by (cases e) (auto simp: owed_def context_ops split: option.splits list.splits)
next
  fix i
  assume i: "i \<in> set (cx_alive (context_exec e s))"
  show "is_owed (context_exec e s) i"
  proof (cases "i \<in> set (cx_alive s)")
    case True
    then show ?thesis using assms by (intro is_owed_exec) (simp add: owed_def)
  next
    case False
    then obtain t where e: "e = AdoptChild t i"
      using i by (cases e) (auto simp: context_ops split: option.splits list.splits if_splits)
    have "map_of (cx_adopting s) t = None"
    proof (rule ccontr)
      assume "map_of (cx_adopting s) t \<noteq> None"
      then have "context_exec e s = s" by (simp add: e)
      with i False show False by simp
    qed
    moreover from this have "context_exec e s = adopt_child t i s" using i False by (auto simp: e split: if_splits)
    ultimately have "map_of (cx_adopting (context_exec e s)) t = Some (i, True)"
      using assms by (simp add: adopt_child_def um.lookup_emplace owed_def)
    then show ?thesis by (rule is_owed_by)
  qed
qed

lemma owed_run: "owed s \<Longrightarrow> owed (context_run es s)"
  by (induction es arbitrary: s) (simp_all add: owed_exec)

text \<open>
  C34. When \<^verbatim>\<open>close_children\<close> is called after admission has stopped, no entity of the context is left
  open once the calls have returned: an entity that is adopted at the same time is in the copy of
  the children, or its adoption sees that admission has stopped and closes it.
\<close>

theorem no_entity_left_open:
  assumes "s = context_run es new_context_sys" "\<not> cx_open s" "map_of (cx_closers s) t = None"
    and "s' = context_run later (context_exec (CopyChildren t) s)" "cx_closers s' = []" "cx_adopting s' = []"
  shows "set (cx_alive s') \<subseteq> set (cx_shut s')"
proof -
  have c: "set (cx_alive s) \<subseteq> set (cx_children s)"
    unfolding assms(1) by (rule children_run) (simp add: new_context_sys_def)
  have "owed (context_exec (CopyChildren t) s)"
    using assms(2,3) c by (auto simp: owed_def is_owed_def copy_children_def um.lookup_emplace)
  from owed_run [OF this, of later] show ?thesis using assms(4-6) by (auto simp: owed_def is_owed_def)
qed

theorem no_entity_left_open_witness:
  "set (cx_alive (context_run [AdoptChild 2 8, CloseNext 1, CloseNext 1, AdoptEnd 2] (context_exec (CopyChildren 1)
     (context_run [AdoptChild 1 7, AdoptEnd 1, StopContext] new_context_sys)))) \<subseteq> {7, 8}"
  using no_entity_left_open [OF refl, of "[AdoptChild 1 7, AdoptEnd 1, StopContext]" 1 _ "[AdoptChild 2 8, CloseNext 1, CloseNext 1, AdoptEnd 2]"]
  by (auto simp: new_context_sys_def context_ops um_emplace_def um_erase_def um_modify_def)

section \<open>Shutting a context down\<close>

text \<open>
  The context has a backing of its own, on which \<^verbatim>\<open>control_\<close> is a lease for work. One call of
  \<^verbatim>\<open>finish_shutdown\<close>: what other threads do while it waits for operations, whether each child closed
  in time, what \<^verbatim>\<open>shutdown()\<close> answers, what other threads do between dropping the lease and
  \<^verbatim>\<open>try_finalize\<close>, and until the last wait ends. A wait that ends has seen its condition or its
  deadline.
\<close>

record ShutdownCall =
  sc_before :: "LeaseStep list"
  sc_children :: "bool list"
  sc_answer :: "unit result"
  sc_between :: "LeaseStep list"
  sc_after :: "LeaseStep list"

record NativeContext =
  nc_sys :: LeaseSys
  nc_control :: bool

datatype ShutdownReturn = ShutdownReturned bool | ShutdownThrew ErrorCode | ShutdownLogicError | ShutdownNullControl

text \<open>\<^verbatim>\<open>try_finalize\<close> of a thread that nobody interrupts.\<close>

definition try_finalize :: "LeaseSys \<Rightarrow> LeaseSys" where
  "try_finalize s =
     (let s1 = lease_exec Check s in if destroying s < destroying s1 then lease_run [Destroy, Finish] s1 else s1)"

definition finish_shutdown :: "ShutdownCall \<Rightarrow> NativeContext \<Rightarrow> ShutdownReturn \<times> NativeContext" where
  "finish_shutdown c n =
     (if is_closed (backing (nc_sys n)) then (ShutdownReturned True, n)
      else if admission_open (nc_sys n) then (ShutdownLogicError, n)
      else let s1 = lease_run (sc_before c) (nc_sys n); n1 = n\<lparr>nc_sys := s1\<rparr>
      in if \<not> operations_idle (backing s1) then (ShutdownReturned False, n1)
      else if \<not> list_all (\<lambda>closed. closed) (sc_children c) then (ShutdownReturned False, n1)
      else if \<not> nc_control n then (ShutdownNullControl, n1)
      else case sc_answer c of
          Inl e \<Rightarrow> (ShutdownThrew e, n1)
        | Inr _ \<Rightarrow>
            let s2 = try_finalize (lease_exec CloseEntity s1);
                s3 = try_finalize (lease_run (sc_between c) (lease_exec (Release Work) s2));
                s4 = lease_run (sc_after c) s3
            in (ShutdownReturned (is_closed (backing s4)), \<lparr>nc_sys = s4, nc_control = False\<rparr>))"

text \<open>
  When nobody but the control lease keeps the context and no other call is under way, finishing
  the shutdown destroys it once and says so.
\<close>

theorem shutdown_destroys_context:
  assumes "lease_inv (nc_sys n)" "\<not> admission_open (nc_sys n)" "entity_state (backing (nc_sys n)) = EntityOpen" "nc_control n"
    and "held_leases (nc_sys n) = (\<lambda>k. if k = Work then 1 else 0)" "\<not> executor_registered (backing (nc_sys n))"
    and "sc_before c = []" "sc_between c = []" "sc_after c = []" "list_all (\<lambda>closed. closed) (sc_children c)" "sc_answer c = success ()"
  shows "fst (finish_shutdown c n) = ShutdownReturned True \<and> destroyed (nc_sys (snd (finish_shutdown c n))) = 1"
proof -
  let ?s = "nc_sys n"
  have r: "lease_refs (backing ?s) = (\<lambda>k. if k = Work then 1 else 0)" and d: "\<not> destroy_started (backing ?s)"
      "destroying ?s = 0" "ending ?s = 0" "destroyed ?s = 0"
    using assms(1,3,5) by (auto simp: lease_inv_def closed_count_def split: if_splits)
  show ?thesis
    using assms(2-11) r d
    by (simp add: finish_shutdown_def is_closed_def operations_idle_def try_finalize_def Let_def close_backing_def
        finalize_check_def quiescent_def drop_ref_def finalize_end_def)
qed

definition quiet_call :: ShutdownCall where
  "quiet_call = \<lparr>sc_before = [], sc_children = [True], sc_answer = success (), sc_between = [], sc_after = []\<rparr>"

definition stopped_context :: NativeContext where
  "stopped_context = \<lparr>nc_sys = lease_run [Acquire Work, StopAdmission] new_lease_sys, nc_control = True\<rparr>"

theorem shutdown_destroys_context_witness:
  "fst (finish_shutdown quiet_call stopped_context) = ShutdownReturned True \<and>
   destroyed (nc_sys (snd (finish_shutdown quiet_call stopped_context))) = 1"
  by (rule shutdown_destroys_context)
    (auto simp: stopped_context_def quiet_call_def new_lease_sys_def new_backing_def lease_defs fun_eq_iff)

text \<open>
  A call that drops the control lease and then runs out of time leaves the context closing
  without its control: the next call dereferences the null lease. It takes another thread that drops
  the last operation lease and is still destroying the context when the deadline passes.
\<close>

theorem shutdown_retry_without_control:
  assumes "n = \<lparr>nc_sys = lease_run [Acquire Work, Acquire Operation, StopAdmission] new_lease_sys, nc_control = True\<rparr>"
    and "finish_shutdown \<lparr>sc_before = [Release Operation], sc_children = [], sc_answer = success (), sc_between = [Check],
      sc_after = []\<rparr> n = (r, n')"
  shows "r = ShutdownReturned False \<and> lease_inv (nc_sys n') \<and> destroying (nc_sys n') = 1 \<and>
    fst (finish_shutdown quiet_call n') = ShutdownNullControl"
proof -
  have i: "lease_inv (nc_sys n')" if "nc_sys n' = lease_run [Acquire Work, Acquire Operation, StopAdmission, Release Operation,
      CloseEntity, Check, Release Work, Check, Check] new_lease_sys"
    unfolding that by (rule lease_inv_run [OF lease_inv_new])
  show ?thesis
    using assms(2) unfolding assms(1)
    by (intro conjI i)
      (auto simp: finish_shutdown_def quiet_call_def new_lease_sys_def new_backing_def is_closed_def operations_idle_def
        try_finalize_def leased_def acquire_def add_ref_def drop_ref_def close_backing_def finalize_check_def quiescent_def
        finalize_end_def Let_def)
qed

theorem shutdown_retry_without_control_witness:
  "\<exists>n r n'. finish_shutdown \<lparr>sc_before = [Release Operation], sc_children = [], sc_answer = success (), sc_between = [Check],
      sc_after = []\<rparr> n = (r, n') \<and> fst (finish_shutdown quiet_call n') = ShutdownNullControl"
proof -
  let ?n = "\<lparr>nc_sys = lease_run [Acquire Work, Acquire Operation, StopAdmission] new_lease_sys, nc_control = True\<rparr>"
  obtain r n' where "finish_shutdown \<lparr>sc_before = [Release Operation], sc_children = [], sc_answer = success (),
      sc_between = [Check], sc_after = []\<rparr> ?n = (r, n')" by force
  with shutdown_retry_without_control [OF refl this] show ?thesis by blast
qed

section \<open>Wait sets of the binding\<close>

text \<open>
  \<^verbatim>\<open>NativeWaitSet\<close>: its registrations, and the entities by number. A call runs under
  \<^verbatim>\<open>registrations_mutex_\<close>; what the wait set of \<^verbatim>\<open>dmw\<close> answers is an argument, and a native
  registration is a number.
\<close>

record WaitEntry =
  we_entity :: nat
  we_generation :: u64
  we_native :: nat

record NativeWaitSet =
  nws_registrations :: "(u64, WaitEntry) umap"
  nws_next :: u64
  nws_closed :: bool
  nws_waiting :: bool

type_synonym entities = "nat \<Rightarrow> EntityBacking"

definition settle :: "EntityBacking \<Rightarrow> EntityBacking" where
  "settle b = (let (took, b1) = finalize_check b in if took then finalize_end b1 else b1)"

definition give_back :: "LeaseKind \<Rightarrow> EntityBacking \<Rightarrow> EntityBacking" where
  "give_back k b = (case drop_ref k b of None \<Rightarrow> b | Some b1 \<Rightarrow> settle b1)"

definition mark_registered :: "bool \<Rightarrow> EntityBacking \<Rightarrow> Thrown + EntityBacking" where
  "mark_registered v b = map_sum id settle (set_registered v b)"

text \<open>\<^verbatim>\<open>mark_unregistered\<close> never throws.\<close>

definition unregister :: "EntityBacking \<Rightarrow> EntityBacking" where
  "unregister b = (case mark_registered False b of Inl _ \<Rightarrow> b | Inr b1 \<Rightarrow> b1)"

definition register_backing :: "bool \<Rightarrow> nat result \<Rightarrow> EntityBacking \<Rightarrow> (Thrown + nat) \<times> EntityBacking" where
  "register_backing op answer b = (case acquire op Operation b of
       Inl t \<Rightarrow> (Inl t, b)
     | Inr b1 \<Rightarrow> (case mark_registered True b1 of
           Inl t \<Rightarrow> (Inl t, give_back Operation b1)
         | Inr b2 \<Rightarrow> (case answer of
               Inl e \<Rightarrow> (Inl (ThrowMiddleware e), give_back Operation (unregister b2))
             | Inr native \<Rightarrow> (Inr native, give_back Operation b2))))"

definition nws_add ::
  "bool \<Rightarrow> nat result \<Rightarrow> nat \<Rightarrow> u64 \<Rightarrow> NativeWaitSet \<Rightarrow> entities \<Rightarrow> (Thrown + u64) \<times> NativeWaitSet \<times> entities" where
  "nws_add op answer i generation w es =
     (if nws_closed w then (Inl ThrowEntityClosed, w, es)
      else if nws_next w = u64_max then (Inl (ThrowMiddleware ResourceExhausted), w, es)
      else let token = nws_next w; w1 = w\<lparr>nws_next := token + 1\<rparr>; (r, b) = register_backing op answer (es i)
      in case r of
          Inl t \<Rightarrow> (Inl t, w1, es(i := b))
        | Inr native \<Rightarrow> (Inr token, w1\<lparr>nws_registrations := um_emplace token
              \<lparr>we_entity = i, we_generation = generation, we_native = native\<rparr> (nws_registrations w1)\<rparr>, es(i := b)))"

definition nws_remove :: "unit result \<Rightarrow> u64 \<Rightarrow> NativeWaitSet \<Rightarrow> entities \<Rightarrow> (Thrown + unit) \<times> NativeWaitSet \<times> entities" where
  "nws_remove answer token w es = (case map_of (nws_registrations w) token of
       None \<Rightarrow> (Inl (ThrowMiddleware NotRegistered), w, es)
     | Some e \<Rightarrow> (case answer of
           Inl c \<Rightarrow> (Inl (ThrowMiddleware c), w, es)
         | Inr _ \<Rightarrow> (Inr (), w\<lparr>nws_registrations := um_erase token (nws_registrations w)\<rparr>,
             es(we_entity e := unregister (es (we_entity e))))))"

definition nws_set_interest :: "unit result \<Rightarrow> u64 \<Rightarrow> NativeWaitSet \<Rightarrow> Thrown + unit" where
  "nws_set_interest answer token w = (case map_of (nws_registrations w) token of
       None \<Rightarrow> Inl (ThrowMiddleware NotRegistered)
     | Some _ \<Rightarrow> map_sum ThrowMiddleware id answer)"

text \<open>The two sections of \<^verbatim>\<open>wait\<close>, and the loop over what is ready. The pins are dispatch leases.\<close>

definition nws_begin_wait :: "NativeWaitSet \<Rightarrow> (Thrown + unit) \<times> NativeWaitSet" where
  "nws_begin_wait w =
     (if nws_closed w then (Inl ThrowEntityClosed, w)
      else if nws_waiting w then (Inl (ThrowMiddleware Busy), w)
      else (Inr (), w\<lparr>nws_waiting := True\<rparr>))"

record NativeReady =
  nr_registration :: u64
  nr_generation :: u64
  nr_detail :: nat
  nr_entity :: nat

fun pin_ready ::
  "bool \<Rightarrow> (u64, WaitEntry) umap \<Rightarrow> (nat \<times> nat) list \<Rightarrow> entities \<Rightarrow> NativeReady list \<times> entities" where
  "pin_ready op regs [] es = ([], es)"
| "pin_ready op regs ((native, detail) # items) es =
     (case find (\<lambda>(token, e). we_native e = native) regs of
        None \<Rightarrow> pin_ready op regs items es
      | Some (token, e) \<Rightarrow> (case acquire op Dispatch (es (we_entity e)) of
            Inl _ \<Rightarrow> pin_ready op regs items es
          | Inr b \<Rightarrow>
              let (ready, es1) = pin_ready op regs items (es(we_entity e := b))
              in (\<lparr>nr_registration = token, nr_generation = we_generation e, nr_detail = detail,
                   nr_entity = we_entity e\<rparr> # ready, es1)))"

definition nws_end_wait ::
  "bool \<Rightarrow> (nat \<times> nat) list result \<Rightarrow> NativeWaitSet \<Rightarrow> entities \<Rightarrow> (Thrown + NativeReady list) \<times> NativeWaitSet \<times> entities" where
  "nws_end_wait op answer w es = (case answer of
       Inl c \<Rightarrow> (Inl (ThrowMiddleware c), w\<lparr>nws_waiting := False\<rparr>, es)
     | Inr items \<Rightarrow>
         let (ready, es1) = pin_ready op (nws_registrations w) items es
         in (Inr ready, w\<lparr>nws_waiting := False\<rparr>, es1))"

definition release_batch :: "NativeReady list \<Rightarrow> entities \<Rightarrow> entities" where
  "release_batch rs es = foldl (\<lambda>es r. es(nr_entity r := give_back Dispatch (es (nr_entity r)))) es rs"

text \<open>The loop of \<^verbatim>\<open>close\<close>; \<open>answer\<close> is what the removal of a native registration returns.\<close>

fun detach_all ::
  "(nat \<Rightarrow> unit result) \<Rightarrow> (u64, WaitEntry) umap \<Rightarrow> entities \<Rightarrow> (ErrorCode + unit) \<times> (u64, WaitEntry) umap \<times> entities" where
  "detach_all answer [] es = (Inr (), [], es)"
| "detach_all answer ((token, e) # regs) es = (case answer (we_native e) of
       Inl c \<Rightarrow> (Inl c, (token, e) # regs, es)
     | Inr _ \<Rightarrow> detach_all answer regs (es(we_entity e := unregister (es (we_entity e)))))"

definition nws_close :: "(nat \<Rightarrow> unit result) \<Rightarrow> NativeWaitSet \<Rightarrow> entities \<Rightarrow> (Thrown + unit) \<times> NativeWaitSet \<times> entities" where
  "nws_close answer w es =
     (if nws_closed w then (Inr (), w, es)
      else if nws_waiting w then (Inl (ThrowMiddleware Busy), w, es)
      else let (r, regs, es1) = detach_all answer (nws_registrations w) es
      in case r of
          Inl c \<Rightarrow> (Inl (ThrowMiddleware c), w\<lparr>nws_registrations := regs\<rparr>, es1)
        | Inr _ \<Rightarrow> (Inr (), w\<lparr>nws_registrations := regs, nws_closed := True\<rparr>, es1))"

text \<open>Tokens are fresh, an entity is registered once, and its backing knows.\<close>

definition nws_inv :: "NativeWaitSet \<Rightarrow> entities \<Rightarrow> bool" where
  "nws_inv w es \<longleftrightarrow> um_ok (nws_registrations w) \<and> distinct (map (we_entity \<circ> snd) (nws_registrations w)) \<and>
     (\<forall>(token, e) \<in> set (nws_registrations w). token < nws_next w \<and> executor_registered (es (we_entity e))) \<and>
     (nws_closed w \<longrightarrow> nws_registrations w = [])"

text \<open>While an entity is open, nothing that lets go of it finalizes it.\<close>

lemma settle_open: "entity_state b = EntityOpen \<Longrightarrow> settle b = b"
  by (simp add: settle_def finalize_check_def)

lemma settle_registered [simp]: "executor_registered (settle b) = executor_registered b"
  by (simp add: settle_def finalize_check_def finalize_end_def)

lemma give_back_added: "entity_state b = EntityOpen \<Longrightarrow> give_back k (add_ref k b) = b"
  by (cases b) (simp add: give_back_def drop_ref_def add_ref_def settle_open)

lemma give_back_registered [simp]: "executor_registered (give_back k b) = executor_registered b"
  by (auto simp: give_back_def drop_ref_def split: option.splits if_splits)

lemma unregister_off [simp]: "\<not> executor_registered (unregister b)"
  by (simp add: unregister_def mark_registered_def set_registered_def)

text \<open>A registration that fails, for whatever reason, leaves the entity as it was.\<close>

lemma register_backing_exact:
  assumes "register_backing op answer b = (r, b')"
  shows "case r of
      Inl _ \<Rightarrow> b' = b
    | Inr native \<Rightarrow> op \<and> entity_state b = EntityOpen \<and> \<not> executor_registered b \<and> answer = success native \<and>
        b' = b\<lparr>executor_registered := True\<rparr>"
proof (cases "op \<and> entity_state b = EntityOpen")
  case False
  with assms show ?thesis by (auto simp: register_backing_def acquire_def split: if_splits)
next
  case True
  then have a: "acquire op Operation b = Inr (add_ref Operation b)" by (simp add: acquire_def)
  have op: "entity_state (add_ref Operation b) = EntityOpen" using True by (simp add: add_ref_def)
  show ?thesis
  proof (cases "executor_registered b")
    case reg: True
    then have "mark_registered True (add_ref Operation b) = Inl (ThrowMiddleware AlreadyRegistered)"
      using op by (simp add: mark_registered_def set_registered_def) (simp add: add_ref_def)
    then show ?thesis
      using assms [unfolded register_backing_def a sum.case] True by (auto simp: give_back_added)
  next
    case reg: False
    let ?b = "add_ref Operation (b\<lparr>executor_registered := True\<rparr>)"
    have m: "mark_registered True (add_ref Operation b) = Inr ?b"
      using reg op by (simp add: mark_registered_def set_registered_def settle_open) (simp add: add_ref_def settle_open)
    have u: "unregister ?b = add_ref Operation b"
      using reg op by (cases b) (simp add: unregister_def mark_registered_def set_registered_def settle_open add_ref_def)
    have g: "give_back Operation (add_ref Operation b) = b" "give_back Operation ?b = b\<lparr>executor_registered := True\<rparr>"
      using True by (simp_all add: give_back_added)
    show ?thesis
      using assms [unfolded register_backing_def a sum.case m] True reg by (cases answer) (auto simp: u g)
  qed
qed

definition pinned :: "NativeReady list \<Rightarrow> entities \<Rightarrow> entities" where
  "pinned rs es = (\<lambda>i. (es i)\<lparr>lease_refs := (lease_refs (es i))
     (Dispatch := lease_refs (es i) Dispatch + length (filter (\<lambda>r. nr_entity r = i) rs))\<rparr>)"

definition ready_ok :: "bool \<Rightarrow> (u64, WaitEntry) umap \<Rightarrow> (nat \<times> nat) list \<Rightarrow> entities \<Rightarrow> NativeReady \<Rightarrow> bool" where
  "ready_ok op regs items es r \<longleftrightarrow> op \<and> entity_state (es (nr_entity r)) = EntityOpen \<and>
     (\<exists>e. (nr_registration r, e) \<in> set regs \<and> we_entity e = nr_entity r \<and> we_generation e = nr_generation r \<and>
       (we_native e, nr_detail r) \<in> set items)"

lemma ready_ok_more: "ready_ok op regs items es r \<Longrightarrow> ready_ok op regs (item # items) es r"
  by (auto simp: ready_ok_def)

lemma pinned_open [simp]: "entity_state (pinned rs es i) = entity_state (es i)"
  by (simp add: pinned_def)

lemma pinned_Cons: "pinned (r # rs) es = pinned rs (es(nr_entity r := add_ref Dispatch (es (nr_entity r))))"
  by (auto simp: pinned_def add_ref_def fun_eq_iff)

lemma pin_ready_exact:
  assumes "pin_ready op regs items es = (ready, es')"
  shows "list_all (ready_ok op regs items es) ready \<and> es' = pinned ready es"
  using assms
proof (induction items arbitrary: es ready)
  case Nil
  then show ?case by (auto simp: pinned_def)
next
  case (Cons item items)
  obtain native detail where item: "item = (native, detail)" by (cases item)
  have skip: ?case if "pin_ready op regs items es = (ready, es')"
    using Cons.IH [OF that] by (auto simp: list_all_iff intro: ready_ok_more)
  show ?case
  proof (cases "find (\<lambda>(token, e). we_native e = native) regs")
    case None
    with Cons.prems show ?thesis by (intro skip) (simp add: item)
  next
    case (Some te)
    obtain token e where te: "te = (token, e)" by (cases te)
    have e: "(token, e) \<in> set regs" "we_native e = native" using Some by (auto simp: te find_Some_iff set_conv_nth)
    let ?i = "we_entity e"
    show ?thesis
    proof (cases "acquire op Dispatch (es ?i)")
      case (Inl t)
      with Cons.prems Some show ?thesis by (intro skip) (simp add: item te)
    next
      case (Inr b)
      then have b: "b = add_ref Dispatch (es ?i)" "op" "entity_state (es ?i) = EntityOpen"
        by (auto simp: acquire_def split: if_splits)
      let ?r = "\<lparr>nr_registration = token, nr_generation = we_generation e, nr_detail = detail, nr_entity = ?i\<rparr>"
      define es1 where "es1 = es(?i := b)"
      obtain rest where rest: "pin_ready op regs items es1 = (rest, es')" "ready = ?r # rest"
        using Cons.prems Some Inr by (auto simp: item te es1_def split: prod.splits)
      have "entity_state (es1 j) = entity_state (es j)" for j by (simp add: es1_def b add_ref_def)
      then have "ready_ok op regs items es1 r \<Longrightarrow> ready_ok op regs (item # items) es r" for r
        by (auto simp: ready_ok_def)
      moreover have "ready_ok op regs (item # items) es ?r" using b e by (auto simp: ready_ok_def item)
      moreover have "pinned (?r # rest) es = pinned rest es1" by (simp add: pinned_Cons b es1_def)
      ultimately show ?thesis using Cons.IH [OF rest(1)] by (auto simp: rest(2) list_all_iff)
    qed
  qed
qed

lemma release_pinned:
  assumes "list_all (\<lambda>r. entity_state (es (nr_entity r)) = EntityOpen) ready"
  shows "release_batch ready (pinned ready es) = es"
  using assms
proof (induction ready arbitrary: es)
  case Nil
  then show ?case by (simp add: release_batch_def pinned_def)
next
  case (Cons r rs)
  let ?i = "nr_entity r"
  have "(pinned (r # rs) es)(?i := give_back Dispatch (pinned (r # rs) es ?i)) = pinned rs es"
  proof (rule ext)
    fix i
    have "pinned (r # rs) es ?i = add_ref Dispatch (pinned rs es ?i)" by (simp add: pinned_def add_ref_def)
    moreover have "give_back Dispatch (add_ref Dispatch (pinned rs es ?i)) = pinned rs es ?i"
      using Cons.prems by (intro give_back_added) simp
    ultimately show "((pinned (r # rs) es)(?i := give_back Dispatch (pinned (r # rs) es ?i))) i = pinned rs es i"
      by (simp add: pinned_def)
  qed
  then show ?case using Cons by (simp add: release_batch_def)
qed

lemma detach_all_exact:
  assumes "detach_all answer regs es = (r, rest, es')" "distinct (map (we_entity \<circ> snd) regs)"
  shows "\<exists>done. regs = done @ rest \<and> (\<forall>(token, e) \<in> set done. \<not> executor_registered (es' (we_entity e))) \<and>
    (\<forall>i. \<not> i \<in> (we_entity \<circ> snd) ` set done \<longrightarrow> es' i = es i) \<and>
    (case r of Inl c \<Rightarrow> (\<exists>token e rest'. rest = (token, e) # rest' \<and> answer (we_native e) = failure c) | Inr _ \<Rightarrow> rest = [])"
  using assms
proof (induction regs arbitrary: es)
  case (Cons te regs)
  obtain token e where te: "te = (token, e)" by (cases te)
  show ?case
  proof (cases "answer (we_native e)")
    case (Inl c)
    with Cons.prems have "r = Inl c" "rest = (token, e) # regs" "es' = es" by (simp_all add: te)
    with Inl show ?thesis by (intro exI [of _ "[]"]) (simp add: te)
  next
    case (Inr u)
    let ?es = "es(we_entity e := unregister (es (we_entity e)))"
    have "detach_all answer regs ?es = (r, rest, es')" "distinct (map (we_entity \<circ> snd) regs)"
      using Cons.prems Inr by (simp_all add: te comp_def)
    from Cons.IH [OF this] obtain ds where ds: "regs = ds @ rest" "\<forall>(token, e) \<in> set ds. \<not> executor_registered (es' (we_entity e))"
        "\<forall>i. \<not> i \<in> (we_entity \<circ> snd) ` set ds \<longrightarrow> es' i = ?es i"
        "case r of Inl c \<Rightarrow> (\<exists>token e rest'. rest = (token, e) # rest' \<and> answer (we_native e) = failure c) | Inr _ \<Rightarrow> rest = []"
      by blast
    have "\<not> we_entity e \<in> (we_entity \<circ> snd) ` set ds" using Cons.prems(2) ds(1) by (auto simp: te)
    then have "\<not> executor_registered (es' (we_entity e))" using ds(3) by simp
    then show ?thesis using ds by (intro exI [of _ "(token, e) # ds"]) (auto simp: te)
  qed
qed auto

lemma nws_inv_add:
  assumes "nws_inv w es" "nws_add op answer i generation w es = (r, w', es')"
  shows "nws_inv w' es'"
proof (cases "nws_closed w \<or> nws_next w = u64_max")
  case True
  with assms show ?thesis by (auto simp: nws_add_def split: if_splits)
next
  case False
  obtain q b where q: "register_backing op answer (es i) = (q, b)" by force
  note exact = register_backing_exact [OF q]
  have next_token: "unat (nws_next w + 1) = unat (nws_next w) + 1" using False by (simp add: u64_inc_nonzero)
  have less: "token < nws_next w \<Longrightarrow> token < nws_next w + 1" for token
    using next_token by (simp add: word_less_nat_alt)
  show ?thesis
  proof (cases q)
    case (Inl t)
    then have "w' = w\<lparr>nws_next := nws_next w + 1\<rparr>" "es' = es"
      using assms(2) False q exact by (auto simp: nws_add_def Let_def)
    with assms(1) show ?thesis by (auto simp: nws_inv_def less)
  next
    case (Inr native)
    let ?e = "\<lparr>we_entity = i, we_generation = generation, we_native = native\<rparr>"
    have b: "\<not> executor_registered (es i)" "executor_registered b" using exact by (simp_all add: Inr)
    have fresh: "map_of (nws_registrations w) (nws_next w) = None"
      using assms(1) by (auto simp: nws_inv_def map_of_eq_None_iff)
    have w': "w' = w\<lparr>nws_next := nws_next w + 1, nws_registrations := nws_registrations w @ [(nws_next w, ?e)]\<rparr>" "es' = es(i := b)"
      using assms(2) False q fresh by (auto simp: nws_add_def Let_def Inr um_emplace_def)
    have "\<not> i \<in> (we_entity \<circ> snd) ` set (nws_registrations w)"
      using assms(1) b(1) by (auto simp: nws_inv_def)
    moreover have "\<not> nws_next w \<in> fst ` set (nws_registrations w)" using fresh by (simp add: map_of_eq_None_iff)
    moreover have "nws_next w < nws_next w + 1" using next_token by (simp add: word_less_nat_alt)
    ultimately show ?thesis
      using assms(1) b(2) False by (auto simp: nws_inv_def w' um_ok_def less comp_def)
  qed
qed

lemma nws_inv_remove:
  assumes "nws_inv w es" "nws_remove answer token w es = (r, w', es')"
  shows "nws_inv w' es'"
proof (cases "map_of (nws_registrations w) token")
  case None
  with assms show ?thesis by (simp add: nws_remove_def)
next
  case (Some e)
  show ?thesis
  proof (cases answer)
    case (Inl c)
    with assms Some show ?thesis by (simp add: nws_remove_def)
  next
    case (Inr u)
    have w': "w' = w\<lparr>nws_registrations := um_erase token (nws_registrations w)\<rparr>"
        "es' = es(we_entity e := unregister (es (we_entity e)))"
      using assms(2) Some Inr by (auto simp: nws_remove_def)
    have m: "(token, e) \<in> set (nws_registrations w)" using Some by (rule map_of_SomeD)
    have d: "distinct (map (we_entity \<circ> snd) (nws_registrations w))" using assms(1) by (simp add: nws_inv_def)
    have "we_entity f \<noteq> we_entity e" if "(t, f) \<in> set (nws_registrations w)" "t \<noteq> token" for t f
    proof
      assume "we_entity f = we_entity e"
      then have "(t, f) = (token, e)"
        using d that(1) m unfolding distinct_map inj_on_def by fastforce
      with that(2) show False by simp
    qed
    moreover have "distinct (map (we_entity \<circ> snd) (um_erase token (nws_registrations w)))"
      unfolding um_erase_def by (rule distinct_map_filter [OF d])
    moreover have "um_ok (um_erase token (nws_registrations w))" using assms(1) by (simp add: nws_inv_def um.ok_erase)
    ultimately show ?thesis
      using assms(1) by (auto simp: nws_inv_def w' um_erase_def)
  qed
qed

lemma nws_inv_end_wait:
  assumes "nws_inv w es" "nws_end_wait op answer w es = (r, w', es')"
  shows "nws_inv w' es'"
proof (cases answer)
  case (Inl c)
  with assms show ?thesis by (auto simp: nws_end_wait_def nws_inv_def)
next
  case (Inr items)
  obtain ready es1 where p: "pin_ready op (nws_registrations w) items es = (ready, es1)" by force
  with Inr assms(2) have "w' = w\<lparr>nws_waiting := False\<rparr>" "es' = pinned ready es"
    using pin_ready_exact [OF p] by (auto simp: nws_end_wait_def)
  with assms(1) show ?thesis by (auto simp: nws_inv_def pinned_def)
qed

lemma nws_inv_close:
  assumes "nws_inv w es" "nws_close answer w es = (r, w', es')"
  shows "nws_inv w' es'"
proof (cases "nws_closed w \<or> nws_waiting w")
  case True
  with assms show ?thesis by (auto simp: nws_close_def split: if_splits)
next
  case False
  obtain q rest es1 where q: "detach_all answer (nws_registrations w) es = (q, rest, es1)" by (metis prod_cases3)
  have w': "nws_registrations w' = rest" "es' = es1" "nws_next w' = nws_next w" "nws_closed w' \<longleftrightarrow> has_value q"
    using assms(2) False q by (auto simp: nws_close_def split: sum.splits)
  have d: "distinct (map (we_entity \<circ> snd) (nws_registrations w))" using assms(1) by (simp add: nws_inv_def)
  from detach_all_exact [OF q d] obtain ds where ds: "nws_registrations w = ds @ rest"
      "\<forall>i. \<not> i \<in> (we_entity \<circ> snd) ` set ds \<longrightarrow> es1 i = es i" "has_value q \<longrightarrow> rest = []"
    by (auto split: sum.splits)
  have same: "es1 (we_entity e) = es (we_entity e)" if "(t, e) \<in> set rest" for t e
    using ds(2) d that unfolding ds(1) by (force simp: comp_def)
  have reg: "t < nws_next w \<and> executor_registered (es (we_entity e))" if "(t, e) \<in> set rest" for t e
    using assms(1) that ds(1) by (fastforce simp: nws_inv_def)
  have "um_ok rest" "distinct (map (we_entity \<circ> snd) rest)" using assms(1) ds(1) by (simp_all add: nws_inv_def um_ok_def)
  then show ?thesis
    using same ds(3) reg unfolding nws_inv_def w' by auto
qed

text \<open>
  Every operation of a wait set, whatever it is answered, leaves each registration with a token of
  its own and an entity of its own, which is claimed for the wait set; a closed wait set has none.
\<close>

theorem wait_set_claims_exact:
  assumes "nws_inv w es"
  shows "(case nws_add op a1 i generation w es of (_, w', es') \<Rightarrow> nws_inv w' es') \<and>
    (case nws_remove a2 token w es of (_, w', es') \<Rightarrow> nws_inv w' es') \<and>
    (case nws_end_wait op a3 w es of (_, w', es') \<Rightarrow> nws_inv w' es') \<and>
    (case nws_close a4 w es of (_, w', es') \<Rightarrow> nws_inv w' es')"
  using nws_inv_add [OF assms] nws_inv_remove [OF assms] nws_inv_end_wait [OF assms] nws_inv_close [OF assms]
  by (auto split: prod.splits)

definition new_wait_set :: NativeWaitSet where
  "new_wait_set = \<lparr>nws_registrations = [], nws_next = 1, nws_closed = False, nws_waiting = False\<rparr>"

theorem wait_set_claims_exact_witness:
  "\<exists>w' es'. nws_add True (success 40) 3 1 new_wait_set (\<lambda>_. new_backing) = (Inr 1, w', es') \<and> nws_inv w' es'"
proof -
  have "nws_inv new_wait_set (\<lambda>_. new_backing)" by (simp add: nws_inv_def new_wait_set_def um_ok_def)
  from wait_set_claims_exact [OF this, of True "success 40" 3 1] show ?thesis
    by (auto simp: nws_add_def new_wait_set_def u64_max_def register_backing_def acquire_def new_backing_def add_ref_def
        mark_registered_def set_registered_def Let_def settle_open split: prod.splits)
qed

text \<open>
  What a wait returns is pinned: each entry is a registration whose native counterpart was
  ready, with its generation, of an open entity that now counts one dispatch more for it; releasing
  the batch gives back exactly that.
\<close>

theorem ready_batch_exact:
  assumes "nws_end_wait op (success items) w es = (r, w', es')"
  shows "\<exists>ready. r = Inr ready \<and> list_all (ready_ok op (nws_registrations w) items es) ready \<and>
    nws_registrations w' = nws_registrations w \<and> \<not> nws_waiting w' \<and>
    es' = pinned ready es \<and> release_batch ready es' = es"
proof -
  obtain ready es1 where p: "pin_ready op (nws_registrations w) items es = (ready, es1)" by force
  note e = pin_ready_exact [OF p]
  have "list_all (\<lambda>r. entity_state (es (nr_entity r)) = EntityOpen) ready"
    using e by (auto simp: list_all_iff ready_ok_def)
  from release_pinned [OF this] show ?thesis
    using assms p e by (auto simp: nws_end_wait_def)
qed

definition wait_set_two :: NativeWaitSet where
  "wait_set_two = \<lparr>nws_registrations = [(1, \<lparr>we_entity = 3, we_generation = 1, we_native = 40\<rparr>),
     (2, \<lparr>we_entity = 4, we_generation = 1, we_native = 41\<rparr>)], nws_next = 3, nws_closed = False, nws_waiting = True\<rparr>"

definition entities_two :: entities where
  "entities_two = (\<lambda>i. if i = 3 then close_backing (new_backing\<lparr>executor_registered := True\<rparr>)
     else new_backing\<lparr>executor_registered := True\<rparr>)"

theorem ready_batch_exact_witness:
  "\<exists>w' es'. nws_end_wait True (success [(40, 1), (41, 5), (99, 1)]) wait_set_two entities_two
      = (Inr [\<lparr>nr_registration = 2, nr_generation = 1, nr_detail = 5, nr_entity = 4\<rparr>], w', es') \<and>
     release_batch [\<lparr>nr_registration = 2, nr_generation = 1, nr_detail = 5, nr_entity = 4\<rparr>] es' = entities_two"
proof -
  obtain r w' es' where run: "nws_end_wait True (success [(40, 1), (41, 5), (99, 1)]) wait_set_two entities_two = (r, w', es')"
    by (metis prod_cases3)
  have "r = Inr [\<lparr>nr_registration = 2, nr_generation = 1, nr_detail = 5, nr_entity = 4\<rparr>]"
    using run by (auto simp: nws_end_wait_def wait_set_two_def entities_two_def acquire_def new_backing_def close_backing_def)
  with ready_batch_exact [OF run] run show ?thesis by auto
qed

text \<open>
  Closing a wait set either releases the claim on every entity it had and says so, or stops at the
  first native registration that cannot be removed: what was removed before is released, the rest
  is still registered and claimed, and the wait set can be closed again.
\<close>

theorem close_releases_or_keeps:
  assumes "nws_inv w es" "\<not> nws_closed w" "\<not> nws_waiting w" "nws_close answer w es = (r, w', es')"
  shows "\<exists>removed. nws_registrations w = removed @ nws_registrations w' \<and>
    list_all (\<lambda>(_, e). \<not> executor_registered (es' (we_entity e))) removed \<and>
    list_all (\<lambda>(_, e). executor_registered (es' (we_entity e)) \<and> es' (we_entity e) = es (we_entity e)) (nws_registrations w') \<and>
    (case r of Inr _ \<Rightarrow> nws_closed w' \<and> nws_registrations w' = []
     | Inl t \<Rightarrow> \<not> nws_closed w' \<and>
         (\<exists>token e rest c. nws_registrations w' = (token, e) # rest \<and> answer (we_native e) = failure c \<and> t = ThrowMiddleware c))"
proof -
  obtain q rest es1 where q: "detach_all answer (nws_registrations w) es = (q, rest, es1)" by (metis prod_cases3)
  have d: "distinct (map (we_entity \<circ> snd) (nws_registrations w))" using assms(1) by (simp add: nws_inv_def)
  from detach_all_exact [OF q d] obtain ds where ds: "nws_registrations w = ds @ rest"
      "\<forall>(token, e) \<in> set ds. \<not> executor_registered (es1 (we_entity e))"
      "\<forall>i. \<not> i \<in> (we_entity \<circ> snd) ` set ds \<longrightarrow> es1 i = es i"
      "case q of Inl c \<Rightarrow> (\<exists>token e rest'. rest = (token, e) # rest' \<and> answer (we_native e) = failure c) | Inr _ \<Rightarrow> rest = []"
    by blast
  have w': "nws_registrations w' = rest" "es' = es1"
    using assms(2-4) q by (auto simp: nws_close_def split: sum.splits)
  have same: "es1 (we_entity e) = es (we_entity e)" if "(t, e) \<in> set rest" for t e
    using ds(3) d that unfolding ds(1) by (force simp: comp_def)
  have reg: "t < nws_next w \<and> executor_registered (es (we_entity e))" if "(t, e) \<in> set rest" for t e
    using assms(1) that ds(1) by (fastforce simp: nws_inv_def)
  have kept: "list_all (\<lambda>(_, e). executor_registered (es1 (we_entity e)) \<and> es1 (we_entity e) = es (we_entity e)) rest"
    using same reg by (auto simp: list_all_iff)
  show ?thesis
  proof (cases q)
    case (Inl c)
    then have "r = Inl (ThrowMiddleware c)" "\<not> nws_closed w'" using assms(2-4) q by (auto simp: nws_close_def)
    then show ?thesis
      using ds kept Inl by (intro exI [of _ ds]) (auto simp: w' list_all_iff)
  next
    case (Inr u)
    then have "r = Inr ()" "nws_closed w'" using assms(2-4) q by (auto simp: nws_close_def)
    then show ?thesis
      using ds Inr by (intro exI [of _ ds]) (auto simp: w' list_all_iff)
  qed
qed

theorem close_releases_or_keeps_witness:
  "\<exists>w' es'. nws_close (\<lambda>n. if n = 41 then failure DDSError else success ()) (wait_set_two\<lparr>nws_waiting := False\<rparr>)
       (\<lambda>_. new_backing\<lparr>executor_registered := True\<rparr>) = (Inl (ThrowMiddleware DDSError), w', es') \<and>
     map fst (nws_registrations w') = [2] \<and> \<not> executor_registered (es' 3)"
proof -
  let ?w = "wait_set_two\<lparr>nws_waiting := False\<rparr>" and ?es = "\<lambda>_::nat. new_backing\<lparr>executor_registered := True\<rparr>"
    and ?a = "\<lambda>n::nat. if n = 41 then failure DDSError else success ()"
  obtain r w' es' where run: "nws_close ?a ?w ?es = (r, w', es')" by (metis prod_cases3)
  have i: "nws_inv ?w ?es" by (simp add: nws_inv_def wait_set_two_def um_ok_def)
  have r: "r = Inl (ThrowMiddleware DDSError)" "map fst (nws_registrations w') = [2]"
    using run by (auto simp: nws_close_def wait_set_two_def)
  from close_releases_or_keeps [OF i _ _ run] obtain removed where
    "nws_registrations ?w = removed @ nws_registrations w'" "list_all (\<lambda>(_, e). \<not> executor_registered (es' (we_entity e))) removed"
    by (auto simp: wait_set_two_def)
  then have "\<not> executor_registered (es' 3)"
    using r(2) by (cases removed) (auto simp: wait_set_two_def)
  with run r show ?thesis by (metis (no_types, lifting))
qed

end
