(* ===== verification/NativeIo.thy ===== *)
theory NativeIo
  imports Identity
begin

text \<open>
  The dispatcher of the Python binding, \<^verbatim>\<open>dclpy/src/native_io.*\<close>: 256 slots for jobs, two queues
  threaded through them, one worker thread that runs the jobs and retries them, and a mailbox for
  each executor, from which it takes the completions. The jobs are those of \<^verbatim>\<open>native_io.hpp\<close>,
  \<^verbatim>\<open>service_io.hpp\<close> and \<^verbatim>\<open>action_io.hpp\<close>. A section under the mutex is one function; a job runs
  outside, on a slot that nobody else touches. What the calls into \<^verbatim>\<open>dmw\<close> answer is an argument.
\<close>

section \<open>Jobs\<close>

datatype NativeJobKind = KPublish | KServiceRequest | KServiceResponse | KDiscardRequest | KGoalRequest | KCancelRequest
  | KResultRequest | KGoalResponse | KCancelResponse | KResultResponse | KFeedback | KStatus

record CompletionRecord =
  executor_id :: u64
  attachment_generation :: u64
  operation_id :: u64
  entity_id :: u64
  job_kind :: NativeJobKind
  job_failed :: bool
  job_skipped :: bool
  cleanup_failed :: bool
  error_code :: ErrorCode
  sent_request :: "RequestId option"

text \<open>
  A delivery answers a request or discards it; \<^verbatim>\<open>ServiceDeliveryJob\<close> and \<^verbatim>\<open>ActionServerDeliveryJob\<close>
  do the same with other calls.
\<close>

record Delivery =
  dl_discard :: bool
  dl_failure :: "CompletionRecord option"
  dl_cleanup_pending :: bool

datatype NativeJob = PublishJob | ActionPublishJob | SendJob | DeliveryJob Delivery

text \<open>
  What a job meets in one run: whether its cancellation was requested, what its write returns, and
  what discarding the request returns in \<^verbatim>\<open>run\<close> and in \<^verbatim>\<open>after_failed_delivery\<close>; and the time at the end.
\<close>

record JobEnv =
  je_cancelled :: bool
  je_sent :: "RequestId result"
  je_written :: "unit result"
  je_discarded :: "unit result"
  je_discarded_after :: "unit result"
  je_now :: int

text \<open>\<^verbatim>\<open>execute_step\<close> turns an exception into a failed completion.\<close>

definition execute_step :: "ErrorCode option \<Rightarrow> CompletionRecord \<Rightarrow> CompletionRecord" where
  "execute_step thrown c = (case thrown of None \<Rightarrow> c | Some e \<Rightarrow> c\<lparr>job_failed := True, error_code := e\<rparr>)"

definition job_discard ::
  "unit result \<Rightarrow> Delivery \<Rightarrow> CompletionRecord \<Rightarrow> ErrorCode option \<times> Delivery \<times> CompletionRecord" where
  "job_discard answer d c = (case answer of
       Inr _ \<Rightarrow> (None, d, c)
     | Inl e \<Rightarrow> if e = NotFound then (None, d, c)
         else (Some e, d\<lparr>dl_cleanup_pending := (e = Busy)\<rparr>, c\<lparr>cleanup_failed := (e \<noteq> Busy)\<rparr>))"

definition thrown_by :: "'a result \<Rightarrow> ErrorCode option" where
  "thrown_by r = (case r of Inl e \<Rightarrow> Some e | Inr _ \<Rightarrow> None)"

definition run_delivery :: "JobEnv \<Rightarrow> Delivery \<Rightarrow> CompletionRecord \<Rightarrow> Delivery \<times> CompletionRecord" where
  "run_delivery v d c =
     (let d0 = d\<lparr>dl_cleanup_pending := False\<rparr>
      in if dl_discard d0
         then let (thrown, d1, c1) = job_discard (je_discarded v) d0 c
              in (d1, execute_step thrown (case (thrown, dl_failure d1) of (None, Some f) \<Rightarrow> f | _ \<Rightarrow> c1))
         else (d0, execute_step (thrown_by (je_written v)) c))"

fun run_job :: "JobEnv \<Rightarrow> NativeJob \<Rightarrow> CompletionRecord \<Rightarrow> NativeJob \<times> CompletionRecord" where
  "run_job v PublishJob c = (PublishJob, execute_step (thrown_by (je_written v)) c)"
| "run_job v ActionPublishJob c = (ActionPublishJob, execute_step (thrown_by (je_written v)) c)"
| "run_job v SendJob c =
     (SendJob, if je_cancelled v then c\<lparr>job_skipped := True\<rparr>
       else case je_sent v of
           Inl e \<Rightarrow> execute_step (Some e) c
         | Inr r \<Rightarrow> c\<lparr>sent_request := Some r\<rparr>)"
| "run_job v (DeliveryJob d) c = (let (d1, c1) = run_delivery v d c in (DeliveryJob d1, c1))"

fun max_attempts :: "NativeJob \<Rightarrow> nat" where
  "max_attempts PublishJob = 1"
| "max_attempts SendJob = 1"
| "max_attempts _ = 3"

definition transient :: "ErrorCode \<Rightarrow> bool" where
  "transient e \<longleftrightarrow> e = DDSError \<or> e = Busy"

fun retryable :: "NativeJob \<Rightarrow> CompletionRecord \<Rightarrow> bool" where
  "retryable ActionPublishJob c = transient (error_code c)"
| "retryable (DeliveryJob d) c = (if dl_discard d then dl_cleanup_pending d else transient (error_code c))"
| "retryable _ c = False"

fun cleanup_pending :: "NativeJob \<Rightarrow> bool" where
  "cleanup_pending (DeliveryJob d) = dl_cleanup_pending d"
| "cleanup_pending _ = False"

fun after_failed_delivery :: "JobEnv \<Rightarrow> NativeJob \<Rightarrow> CompletionRecord \<Rightarrow> NativeJob \<times> CompletionRecord" where
  "after_failed_delivery v (DeliveryJob d) c =
     (let d1 = (if dl_discard d then d else d\<lparr>dl_failure := Some c\<rparr>);
          (thrown, d2, c1) = job_discard (je_discarded_after v) (d1\<lparr>dl_discard := True\<rparr>) c
      in (DeliveryJob d2, execute_step thrown c1))"
| "after_failed_delivery v j c = (j, c)"

section \<open>Slots\<close>

datatype SlotState = SlotFree | SlotReserved | SlotQueued | SlotRunning | SlotRetryWaiting | SlotCompleted

text \<open>256 is the null of the links. A port is known by its id.\<close>

record Slot =
  sl_ticket :: nat
  sl_state :: SlotState
  sl_control :: bool
  sl_priority :: bool
  sl_retries :: nat
  sl_due :: int
  sl_next :: nat
  sl_completion :: CompletionRecord
  sl_port :: "u64 option"
  sl_job :: "NativeJob option"

definition milliseconds :: "nat \<Rightarrow> int" where
  "milliseconds n = int n * 1000000"

definition tries_again :: "NativeJob \<Rightarrow> CompletionRecord \<Rightarrow> Slot \<Rightarrow> bool" where
  "tries_again j c s \<longleftrightarrow> job_failed c \<and> error_code c \<noteq> ProtocolFault \<and> retryable j c \<and> sl_retries s < 3 \<and>
     sl_retries s + 1 < max_attempts j"

text \<open>One turn of the worker with a job: the slot is to be retried, or it is completed.\<close>

definition run_slot :: "JobEnv \<Rightarrow> Slot \<Rightarrow> Slot" where
  "run_slot v s = (case sl_job s of
       None \<Rightarrow> s
     | Some j \<Rightarrow>
         let (j1, c1) = run_job v j ((sl_completion s)\<lparr>job_failed := False\<rparr>)
         in if tries_again j1 c1 s
            then s\<lparr>sl_job := Some j1, sl_completion := c1, sl_due := je_now v + milliseconds (10 * 2 ^ sl_retries s),
                   sl_retries := sl_retries s + 1, sl_state := SlotRetryWaiting\<rparr>
            else let (j2, c2) = (if job_failed c1 then after_failed_delivery v j1 c1 else (j1, c1))
            in if cleanup_pending j2
               then s\<lparr>sl_job := Some j2, sl_completion := c2, sl_due := je_now v + milliseconds 50, sl_state := SlotRetryWaiting\<rparr>
               else s\<lparr>sl_job := Some j2, sl_completion := c2, sl_state := SlotCompleted\<rparr>)"

section \<open>The dispatcher\<close>

record Queue =
  qu_head :: nat
  qu_tail :: nat

record CompletionPort =
  po_completions :: "nat list"
  po_head :: nat
  po_count :: nat
  po_outstanding :: nat
  po_accepting :: bool

text \<open>
  The worker waits or picks, runs a job, or has completed one that is not in the mailbox yet.
\<close>

datatype WorkerPc = WorkerIdle | WorkerRunning nat | WorkerDelivering nat | WorkerExited

record Dispatcher =
  slots :: "Slot list"
  control_queue :: Queue
  user_queue :: Queue
  routes :: "(u64, CompletionPort) umap"
  used :: nat
  ordinary_used :: nat
  next_ticket :: nat
  next_owner :: u64
  stopping :: bool
  worker :: WorkerPc

definition empty_completion :: CompletionRecord where
  "empty_completion = \<lparr>executor_id = 0, attachment_generation = 0, operation_id = 0, entity_id = 0, job_kind = KPublish,
     job_failed = False, job_skipped = False, cleanup_failed = False, error_code = DDSError, sent_request = None\<rparr>"

definition empty_slot :: Slot where
  "empty_slot = \<lparr>sl_ticket = 0, sl_state = SlotFree, sl_control = False, sl_priority = False, sl_retries = 0, sl_due = 0,
     sl_next = 256, sl_completion = empty_completion, sl_port = None, sl_job = None\<rparr>"

definition new_dispatcher :: Dispatcher where
  "new_dispatcher = \<lparr>slots = replicate 256 empty_slot, control_queue = \<lparr>qu_head = 256, qu_tail = 256\<rparr>,
     user_queue = \<lparr>qu_head = 256, qu_tail = 256\<rparr>, routes = [], used = 0, ordinary_used = 0, next_ticket = 1,
     next_owner = 1, stopping = False, worker = WorkerIdle\<rparr>"

definition new_port :: CompletionPort where
  "new_port = \<lparr>po_completions = replicate 256 0, po_head = 0, po_count = 0, po_outstanding = 0, po_accepting = True\<rparr>"

definition upd_slot :: "nat \<Rightarrow> (Slot \<Rightarrow> Slot) \<Rightarrow> Dispatcher \<Rightarrow> Dispatcher" where
  "upd_slot i f d = d\<lparr>slots := (slots d)[i := f (slots d ! i)]\<rparr>"

definition upd_port :: "u64 \<Rightarrow> (CompletionPort \<Rightarrow> CompletionPort) \<Rightarrow> Dispatcher \<Rightarrow> Dispatcher" where
  "upd_port p f d = d\<lparr>routes := um_modify p f (routes d)\<rparr>"

section \<open>Routes\<close>

text \<open>\<^verbatim>\<open>validate_route\<close>: the port is one that this dispatcher has opened and not retired.\<close>

definition validate_route :: "u64 \<Rightarrow> Dispatcher \<Rightarrow> CompletionPort result" where
  "validate_route p d = (case map_of (routes d) p of None \<Rightarrow> failure NotRegistered | Some port \<Rightarrow> success port)"

definition open_route :: "Dispatcher \<Rightarrow> u64 result \<times> Dispatcher" where
  "open_route d =
     (if stopping d then (failure InvalidState, d)
      else if next_owner d = u64_max then (failure ResourceExhausted, d)
      else (success (next_owner d), d\<lparr>routes := um_emplace (next_owner d) new_port (routes d), next_owner := next_owner d + 1\<rparr>))"

definition stop_route :: "u64 \<Rightarrow> Dispatcher \<Rightarrow> unit result \<times> Dispatcher" where
  "stop_route p d = (case validate_route p d of
       Inl e \<Rightarrow> (failure e, d)
     | Inr _ \<Rightarrow> (success (), upd_port p (\<lambda>x. x\<lparr>po_accepting := False\<rparr>) d))"

definition retire_route :: "u64 \<Rightarrow> Dispatcher \<Rightarrow> unit result \<times> Dispatcher" where
  "retire_route p d = (case validate_route p d of
       Inl e \<Rightarrow> (failure e, d)
     | Inr port \<Rightarrow>
         if po_outstanding port \<noteq> 0 then (failure Busy, d)
         else if po_count port \<noteq> 0 then (failure Busy, d)
         else (success (), d\<lparr>routes := um_erase p (routes d)\<rparr>))"

section \<open>Tickets\<close>

definition prioritised :: "NativeJobKind \<Rightarrow> bool" where
  "prioritised k \<longleftrightarrow> k = KServiceResponse \<or> k = KDiscardRequest \<or> k = KGoalResponse \<or> k = KCancelResponse \<or> k = KResultResponse"

definition first_slot :: "(Slot \<Rightarrow> bool) \<Rightarrow> Dispatcher \<Rightarrow> nat option" where
  "first_slot P d = find (\<lambda>i. P (slots d ! i)) [0..<length (slots d)]"

definition ticket_max :: nat where "ticket_max = 2 ^ 64 - 1"

definition reserve_ticket :: "u64 \<Rightarrow> CompletionRecord \<Rightarrow> bool \<Rightarrow> Dispatcher \<Rightarrow> nat result \<times> Dispatcher" where
  "reserve_ticket p c control d = (case validate_route p d of
       Inl e \<Rightarrow> (failure e, d)
     | Inr port \<Rightarrow>
         if control \<and> job_kind c \<noteq> KGoalResponse \<and> job_kind c \<noteq> KCancelResponse then (failure InvalidArgument, d)
         else if stopping d \<or> \<not> control \<and> \<not> po_accepting port then (failure InvalidState, d)
         else if used d = length (slots d) \<or> \<not> control \<and> ordinary_used d = 224 then (failure ResourceExhausted, d)
         else if next_ticket d = ticket_max then (failure ResourceExhausted, d)
         else (case first_slot (\<lambda>s. sl_state s = SlotFree) d of
             None \<Rightarrow> (failure InvalidState, d)
           | Some i \<Rightarrow> (success (next_ticket d),
               upd_port p (\<lambda>x. x\<lparr>po_outstanding := po_outstanding x + 1\<rparr>)
                (upd_slot i (\<lambda>s. s\<lparr>sl_ticket := next_ticket d, sl_state := SlotReserved, sl_control := control,
                   sl_priority := prioritised (job_kind c), sl_retries := 0, sl_completion := c\<lparr>executor_id := p\<rparr>,
                   sl_port := Some p\<rparr>)
                (d\<lparr>next_ticket := next_ticket d + 1, used := used d + 1,
                   ordinary_used := (if control then ordinary_used d else ordinary_used d + 1)\<rparr>)))))"

definition locate :: "nat \<Rightarrow> Dispatcher \<Rightarrow> nat result" where
  "locate ticket d = (case first_slot (\<lambda>s. sl_state s \<noteq> SlotFree \<and> sl_ticket s = ticket) d of
       None \<Rightarrow> failure NotFound | Some i \<Rightarrow> success i)"

definition install :: "nat \<Rightarrow> NativeJob \<Rightarrow> Dispatcher \<Rightarrow> unit result \<times> Dispatcher" where
  "install ticket j d = (case locate ticket d of
       Inl e \<Rightarrow> (failure e, d)
     | Inr i \<Rightarrow>
         if sl_state (slots d ! i) \<noteq> SlotReserved \<or> sl_job (slots d ! i) \<noteq> None then (failure InvalidState, d)
         else (success (), upd_slot i (\<lambda>s. s\<lparr>sl_job := Some j\<rparr>) d))"

section \<open>Queues\<close>

definition push_queue :: "nat \<Rightarrow> Slot list \<times> Queue \<Rightarrow> Slot list \<times> Queue" where
  "push_queue i = (\<lambda>(ss, q).
     let ss1 = ss[i := (ss ! i)\<lparr>sl_next := length ss\<rparr>]
     in if qu_tail q = length ss then (ss1, \<lparr>qu_head = i, qu_tail = i\<rparr>)
        else (ss1[qu_tail q := (ss1 ! qu_tail q)\<lparr>sl_next := i\<rparr>], q\<lparr>qu_tail := i\<rparr>))"

definition pop_queue :: "Slot list \<Rightarrow> Queue \<Rightarrow> nat \<times> Queue" where
  "pop_queue ss q =
     (let h = sl_next (ss ! qu_head q)
      in (qu_head q, \<lparr>qu_head = h, qu_tail = (if h = length ss then length ss else qu_tail q)\<rparr>))"

text \<open>The queue of the slot: \<^verbatim>\<open>slot.priority ? control_queue_ : user_queue_\<close>.\<close>

definition push_ready :: "nat \<Rightarrow> Dispatcher \<Rightarrow> Dispatcher" where
  "push_ready i d =
     (if sl_priority (slots d ! i)
      then let (ss, q) = push_queue i (slots d, control_queue d) in d\<lparr>slots := ss, control_queue := q\<rparr>
      else let (ss, q) = push_queue i (slots d, user_queue d) in d\<lparr>slots := ss, user_queue := q\<rparr>)"

definition set_state :: "SlotState \<Rightarrow> nat \<Rightarrow> Dispatcher \<Rightarrow> Dispatcher" where
  "set_state st i d = upd_slot i (\<lambda>s. s\<lparr>sl_state := st\<rparr>) d"

definition enqueue_prepared :: "nat \<Rightarrow> Dispatcher \<Rightarrow> unit result \<times> Dispatcher" where
  "enqueue_prepared ticket d = (case locate ticket d of
       Inl e \<Rightarrow> (failure e, d)
     | Inr i \<Rightarrow>
         if sl_state (slots d ! i) \<noteq> SlotReserved \<or> sl_job (slots d ! i) = None then (failure InvalidState, d)
         else (success (), push_ready i (set_state SlotQueued i d)))"

text \<open>
  The loop of \<^verbatim>\<open>cancel_queued\<close> that looks for the predecessor, from \<open>current\<close> on; 256 for none. The
  fuel is the number of links it may follow.
\<close>

fun predecessor :: "nat \<Rightarrow> Slot list \<Rightarrow> nat \<Rightarrow> nat \<Rightarrow> nat \<Rightarrow> nat option" where
  "predecessor fuel ss target previous current =
     (if current = target then Some previous
      else if current = length ss then None
      else case fuel of 0 \<Rightarrow> None | Suc n \<Rightarrow> predecessor n ss target current (sl_next (ss ! current)))"

definition unlink :: "nat \<Rightarrow> nat \<Rightarrow> Slot list \<times> Queue \<Rightarrow> Slot list \<times> Queue" where
  "unlink i previous = (\<lambda>(ss, q).
     let next_one = sl_next (ss ! i);
         q1 = (if previous = length ss then q\<lparr>qu_head := next_one\<rparr> else q);
         ss1 = (if previous = length ss then ss else ss[previous := (ss ! previous)\<lparr>sl_next := next_one\<rparr>])
     in (ss1, if qu_tail q = i then q1\<lparr>qu_tail := previous\<rparr> else q1))"

section \<open>Completions\<close>

text \<open>The end of the worker's turn and of a cancellation: the slot goes to the mailbox of its port.\<close>

definition post :: "nat \<Rightarrow> CompletionPort \<Rightarrow> CompletionPort" where
  "post i x = x\<lparr>po_completions := (po_completions x)[(po_head x + po_count x) mod 256 := i], po_count := po_count x + 1\<rparr>"

definition deliver_slot :: "nat \<Rightarrow> Dispatcher \<Rightarrow> Dispatcher" where
  "deliver_slot i d = (case sl_port (slots d ! i) of None \<Rightarrow> d | Some p \<Rightarrow> upd_port p (post i) d)"

definition cancel_queued :: "nat \<Rightarrow> Dispatcher \<Rightarrow> bool result \<times> Dispatcher" where
  "cancel_queued ticket d = (case first_slot (\<lambda>s. sl_state s \<noteq> SlotFree \<and> sl_ticket s = ticket) d of
       None \<Rightarrow> (success False, d)
     | Some i \<Rightarrow>
         let s = slots d ! i; q = (if sl_priority s then control_queue d else user_queue d)
         in if sl_state s \<noteq> SlotQueued then (success False, d)
            else (case predecessor (length (slots d)) (slots d) i (length (slots d)) (qu_head q) of
                None \<Rightarrow> (failure InvalidState, d)
              | Some previous \<Rightarrow>
                  let (ss, q1) = unlink i previous (slots d, q);
                      d1 = (if sl_priority s then d\<lparr>slots := ss, control_queue := q1\<rparr> else d\<lparr>slots := ss, user_queue := q1\<rparr>);
                      d2 = upd_slot i (\<lambda>s. s\<lparr>sl_completion := (sl_completion s)\<lparr>job_skipped := True\<rparr>, sl_state := SlotCompleted\<rparr>) d1
                  in (success True, deliver_slot i d2)))"

definition release_slot :: "nat \<Rightarrow> Dispatcher \<Rightarrow> Dispatcher" where
  "release_slot i d =
     (let s = slots d ! i;
          d1 = (case sl_port s of None \<Rightarrow> d | Some p \<Rightarrow> upd_port p (\<lambda>x. x\<lparr>po_outstanding := po_outstanding x - 1\<rparr>) d)
      in upd_slot i (\<lambda>s. s\<lparr>sl_job := None, sl_port := None, sl_state := SlotFree\<rparr>)
           (d1\<lparr>used := used d - 1, ordinary_used := (if sl_control s then ordinary_used d else ordinary_used d - 1)\<rparr>))"

definition abandon :: "nat \<Rightarrow> Dispatcher \<Rightarrow> unit result \<times> Dispatcher" where
  "abandon ticket d = (case locate ticket d of
       Inl e \<Rightarrow> (failure e, d)
     | Inr i \<Rightarrow>
         if sl_state (slots d ! i) \<noteq> SlotReserved then (failure Busy, d) else (success (), release_slot i d))"

definition peek :: "u64 \<Rightarrow> Dispatcher \<Rightarrow> (nat \<times> CompletionRecord) option result" where
  "peek p d = (case validate_route p d of
       Inl e \<Rightarrow> failure e
     | Inr port \<Rightarrow>
         if po_count port = 0 then success None
         else let s = slots d ! (po_completions port ! po_head port) in success (Some (sl_ticket s, sl_completion s)))"

definition acknowledge :: "u64 \<Rightarrow> nat \<Rightarrow> Dispatcher \<Rightarrow> unit result \<times> Dispatcher" where
  "acknowledge p ticket d = (case validate_route p d of
       Inl e \<Rightarrow> (failure e, d)
     | Inr port \<Rightarrow> (case locate ticket d of
           Inl e \<Rightarrow> (failure e, d)
         | Inr i \<Rightarrow>
             if po_count port = 0 \<or> po_completions port ! po_head port \<noteq> i \<or> sl_port (slots d ! i) \<noteq> Some p
             then (failure InvalidState, d)
             else (success (), release_slot i
               (upd_port p (\<lambda>x. x\<lparr>po_head := (po_head x + 1) mod 256, po_count := po_count x - 1\<rparr>) d))))"

definition outstanding :: "u64 \<Rightarrow> Dispatcher \<Rightarrow> nat result" where
  "outstanding p d = (case validate_route p d of Inl e \<Rightarrow> failure e | Inr port \<Rightarrow> success (po_outstanding port))"

section \<open>The worker and the end\<close>

text \<open>The loop that puts retries that are due back into their queues.\<close>

definition promote :: "int \<Rightarrow> Dispatcher \<Rightarrow> Dispatcher" where
  "promote now d = foldl (\<lambda>d i. if sl_state (slots d ! i) = SlotRetryWaiting \<and> sl_due (slots d ! i) \<le> now
      then push_ready i (set_state SlotQueued i d) else d) d [0..<length (slots d)]"

definition retry_waiting :: "Dispatcher \<Rightarrow> bool" where
  "retry_waiting d \<longleftrightarrow> list_ex (\<lambda>s. sl_state s = SlotRetryWaiting) (slots d)"

text \<open>One look of the idle worker: it takes a job, leaves, or waits to be woken.\<close>

definition worker_pick :: "int \<Rightarrow> Dispatcher \<Rightarrow> Dispatcher" where
  "worker_pick now d =
     (if worker d \<noteq> WorkerIdle then d
      else let d1 = promote now d
      in if qu_head (control_queue d1) \<noteq> length (slots d1)
         then let (i, q) = pop_queue (slots d1) (control_queue d1)
              in set_state SlotRunning i (d1\<lparr>control_queue := q, worker := WorkerRunning i\<rparr>)
         else if qu_head (user_queue d1) \<noteq> length (slots d1)
         then let (i, q) = pop_queue (slots d1) (user_queue d1)
              in set_state SlotRunning i (d1\<lparr>user_queue := q, worker := WorkerRunning i\<rparr>)
         else if stopping d1 \<and> \<not> retry_waiting d1 then d1\<lparr>worker := WorkerExited\<rparr>
         else d1)"

definition worker_run :: "JobEnv \<Rightarrow> Dispatcher \<Rightarrow> Dispatcher" where
  "worker_run v d = (case worker d of
       WorkerRunning i \<Rightarrow>
         let d1 = upd_slot i (run_slot v) d
         in d1\<lparr>worker := (if sl_state (slots d1 ! i) = SlotCompleted then WorkerDelivering i else WorkerIdle)\<rparr>
     | _ \<Rightarrow> d)"

definition worker_deliver :: "Dispatcher \<Rightarrow> Dispatcher" where
  "worker_deliver d = (case worker d of
       WorkerDelivering i \<Rightarrow> (deliver_slot i d)\<lparr>worker := WorkerIdle\<rparr>
     | _ \<Rightarrow> d)"

definition shutdown_dispatcher :: "Dispatcher \<Rightarrow> unit result \<times> Dispatcher" where
  "shutdown_dispatcher d =
     (if used d \<noteq> 0 \<or> routes d \<noteq> [] then (failure Busy, d) else (success (), d\<lparr>stopping := True\<rparr>))"

text \<open>The destructor stops the worker without asking.\<close>

definition destroy_dispatcher :: "Dispatcher \<Rightarrow> Dispatcher" where
  "destroy_dispatcher d = d\<lparr>stopping := True\<rparr>"

section \<open>The intrusive queues are lists\<close>

fun chain :: "Slot list \<Rightarrow> nat \<Rightarrow> nat list \<Rightarrow> bool" where
  "chain ss h [] = (h = length ss)"
| "chain ss h (x # xs) = (h = x \<and> x < length ss \<and> chain ss (sl_next (ss ! x)) xs)"

definition is_queue :: "Slot list \<Rightarrow> Queue \<Rightarrow> nat list \<Rightarrow> bool" where
  "is_queue ss q xs \<longleftrightarrow> chain ss (qu_head q) xs \<and> qu_tail q = (if xs = [] then length ss else last xs)"

lemma chain_bound: "chain ss h xs \<Longrightarrow> x \<in> set xs \<Longrightarrow> x < length ss"
  by (induction xs arbitrary: h) auto

lemma chain_frame: "\<not> i \<in> set xs \<Longrightarrow> chain (ss[i := s]) h xs = chain ss h xs"
  by (induction xs arbitrary: h) (auto simp: nth_list_update)

lemma chain_same:
  assumes "sl_next s = sl_next (ss ! i)"
  shows "chain (ss[i := s]) h xs = chain ss h xs"
proof -
  have "x < length ss \<Longrightarrow> sl_next (ss[i := s] ! x) = sl_next (ss ! x)" for x
    using assms by (cases "i = x") auto
  then show ?thesis by (induction xs arbitrary: h) auto
qed

lemma is_queue_same: "sl_next s = sl_next (ss ! i) \<Longrightarrow> is_queue (ss[i := s]) q xs = is_queue ss q xs"
  by (simp add: is_queue_def chain_same)

lemma chain_extend:
  assumes "chain ss h xs" "xs \<noteq> []" "distinct xs" "\<not> i \<in> set xs" "i < length ss" "sl_next a = length ss" "sl_next b = i"
  shows "chain (ss[i := a, last xs := b]) h (xs @ [i])"
  using assms(1-4)
proof (induction xs arbitrary: h)
  case (Cons x xs)
  show ?case
  proof (cases "xs = []")
    case True
    with Cons.prems assms(5-7) show ?thesis by (simp add: nth_list_update)
  next
    case False
    then have "x \<noteq> last xs" using Cons.prems(3) by auto
    moreover have "chain (ss[i := a, last xs := b]) (sl_next (ss ! x)) (xs @ [i])"
      using Cons False by simp
    ultimately show ?thesis using Cons.prems False by (simp add: nth_list_update)
  qed
qed simp

text \<open>The slots are as they were but for their links.\<close>

definition relinked :: "Slot list \<Rightarrow> Slot list \<Rightarrow> bool" where
  "relinked ss ss' \<longleftrightarrow> length ss' = length ss \<and> (\<forall>i < length ss. (ss' ! i)\<lparr>sl_next := 0\<rparr> = (ss ! i)\<lparr>sl_next := 0\<rparr>)"

lemma relinked_refl [simp]: "relinked ss ss"
  by (simp add: relinked_def)

lemma relinked_upd: "relinked ss ss' \<Longrightarrow> relinked ss (ss'[i := (ss' ! i)\<lparr>sl_next := n\<rparr>])"
  by (cases "i < length ss'") (auto simp: relinked_def nth_list_update)

lemma same_but_link:
  assumes "s'\<lparr>sl_next := 0\<rparr> = (s :: Slot)\<lparr>sl_next := 0\<rparr>"
  shows "sl_state s' = sl_state s" "sl_port s' = sl_port s" "sl_job s' = sl_job s" "sl_ticket s' = sl_ticket s"
    "sl_control s' = sl_control s" "sl_priority s' = sl_priority s" "sl_due s' = sl_due s"
    "sl_completion s' = sl_completion s" "sl_retries s' = sl_retries s"
  using assms by (cases s; cases s'; simp)+

lemma relinked_fields:
  assumes "relinked ss ss'" "i < length ss"
  shows "sl_state (ss' ! i) = sl_state (ss ! i)" "sl_port (ss' ! i) = sl_port (ss ! i)" "sl_job (ss' ! i) = sl_job (ss ! i)"
    "sl_ticket (ss' ! i) = sl_ticket (ss ! i)" "sl_control (ss' ! i) = sl_control (ss ! i)"
    "sl_priority (ss' ! i) = sl_priority (ss ! i)" "sl_due (ss' ! i) = sl_due (ss ! i)"
    "sl_completion (ss' ! i) = sl_completion (ss ! i)" "sl_retries (ss' ! i) = sl_retries (ss ! i)"
  using assms by (simp_all add: relinked_def same_but_link [of "ss' ! i" "ss ! i"])

lemma push_list:
  assumes "is_queue ss q xs" "distinct xs" "i < length ss" "\<not> i \<in> set xs" "push_queue i (ss, q) = (ss', q')"
  shows "is_queue ss' q' (xs @ [i])" "relinked ss ss'"
    "is_queue ss q2 ys \<Longrightarrow> set ys \<inter> set (xs @ [i]) = {} \<Longrightarrow> is_queue ss' q2 ys"
proof -
  define a where "a = (ss ! i)\<lparr>sl_next := length ss\<rparr>"
  have bounds: "x < length ss" if "x \<in> set xs" for x
    using assms(1) that by (auto simp: is_queue_def intro: chain_bound)
  have "is_queue ss' q' (xs @ [i]) \<and> relinked ss ss' \<and>
      (is_queue ss q2 ys \<longrightarrow> set ys \<inter> set (xs @ [i]) = {} \<longrightarrow> is_queue ss' q2 ys)"
  proof (cases "xs = []")
    case True
    then have "ss' = ss[i := a]" "q' = \<lparr>qu_head = i, qu_tail = i\<rparr>"
      using assms(1,5) by (simp_all add: push_queue_def is_queue_def Let_def a_def)
    then show ?thesis
      using True assms(3) relinked_upd [of ss ss i "length ss"]
      by (auto simp: is_queue_def a_def chain_frame)
  next
    case False
    let ?l = "last xs"
    have l: "?l \<in> set xs" "?l \<noteq> i" "?l < length ss" using False assms(4) bounds by auto
    define b where "b = (ss ! ?l)\<lparr>sl_next := i\<rparr>"
    have ss': "ss' = ss[i := a, ?l := b]" "q' = q\<lparr>qu_tail := i\<rparr>"
      using assms(1,5) False l by (auto simp: push_queue_def is_queue_def Let_def a_def b_def)
    have "chain ss' (qu_head q) (xs @ [i])"
      unfolding ss' by (rule chain_extend) (use assms False in \<open>auto simp: is_queue_def a_def b_def\<close>)
    moreover have "relinked ss ss'"
    proof -
      have "relinked ss (ss[i := a])" unfolding a_def by (rule relinked_upd) simp
      from relinked_upd [OF this, of ?l i] show ?thesis using l by (simp add: ss' b_def)
    qed
    moreover have "is_queue ss' q2 ys" if "is_queue ss q2 ys" "set ys \<inter> set (xs @ [i]) = {}"
    proof -
      have "\<not> i \<in> set ys" "\<not> ?l \<in> set ys" using that(2) l(1) by auto
      with that(1) show ?thesis by (simp add: is_queue_def chain_frame ss')
    qed
    ultimately show ?thesis by (auto simp: is_queue_def ss')
  qed
  then show "is_queue ss' q' (xs @ [i])" "relinked ss ss'"
    "is_queue ss q2 ys \<Longrightarrow> set ys \<inter> set (xs @ [i]) = {} \<Longrightarrow> is_queue ss' q2 ys" by blast+
qed

lemma pop_list:
  assumes "is_queue ss q (x # xs)" "pop_queue ss q = (i, q')"
  shows "i = x" "is_queue ss q' xs"
proof -
  have c: "qu_head q = x" "chain ss (sl_next (ss ! x)) xs" using assms(1) by (auto simp: is_queue_def)
  have "sl_next (ss ! x) = length ss \<longleftrightarrow> xs = []"
    using c(2) by (cases xs) auto
  then show "i = x" "is_queue ss q' xs" using assms c by (auto simp: pop_queue_def is_queue_def Let_def)
qed

lemma queue_empty: "is_queue ss q xs \<Longrightarrow> qu_head q = length ss \<longleftrightarrow> xs = []"
  by (cases xs) (auto simp: is_queue_def)

lemma chain_append: "chain ss h (xs @ y # ys) \<Longrightarrow> chain ss y (y # ys)"
  by (induction xs arbitrary: h) auto

lemma predecessor_found:
  assumes "chain ss current (xs @ i # ys)" "\<not> i \<in> set xs" "length xs \<le> fuel"
  shows "predecessor fuel ss i previous current = Some (if xs = [] then previous else last xs)"
  using assms
proof (induction xs arbitrary: fuel previous current)
  case Nil
  then show ?case by (cases fuel) auto
next
  case (Cons x xs)
  then obtain n where n: "fuel = Suc n" by (cases fuel) auto
  have x: "current = x" "x < length ss" "x \<noteq> i" "chain ss (sl_next (ss ! x)) (xs @ i # ys)" "\<not> i \<in> set xs"
    using Cons.prems by auto
  have "predecessor n ss i x (sl_next (ss ! x)) = Some (if xs = [] then x else last xs)"
    using Cons.IH [OF x(4,5), of n x] Cons.prems(3) n by simp
  then show ?case using x by (simp add: n)
qed

lemma chain_cut:
  assumes "chain ss h (xs @ i # ys)" "distinct (xs @ i # ys)" "xs \<noteq> []"
  shows "chain (ss[last xs := (ss ! last xs)\<lparr>sl_next := sl_next (ss ! i)\<rparr>]) h (xs @ ys)"
  using assms
proof (induction xs arbitrary: h)
  case (Cons x xs)
  let ?s = "(ss ! last (x # xs))\<lparr>sl_next := sl_next (ss ! i)\<rparr>"
  show ?case
  proof (cases "xs = []")
    case True
    have "chain ss (sl_next (ss ! i)) ys" using Cons.prems(1) True by simp
    then show ?thesis using Cons.prems True by (simp add: chain_frame)
  next
    case False
    then have "x \<noteq> last xs" using Cons.prems(2) by auto
    with Cons False show ?thesis by (simp add: nth_list_update)
  qed
qed simp

lemma unlink_list:
  assumes "is_queue ss q (xs @ i # ys)" "distinct (xs @ i # ys)"
    "unlink i (if xs = [] then length ss else last xs) (ss, q) = (ss', q')"
  shows "is_queue ss' q' (xs @ ys)" "relinked ss ss'"
    "is_queue ss q2 zs \<Longrightarrow> set zs \<inter> set xs = {} \<Longrightarrow> is_queue ss' q2 zs"
proof -
  have c: "chain ss (qu_head q) (xs @ i # ys)" and t: "qu_tail q = last (xs @ i # ys)"
    using assms(1) by (auto simp: is_queue_def)
  have i: "chain ss i (i # ys)" by (rule chain_append [OF c])
  have tail: "qu_tail q = i \<longleftrightarrow> ys = []" using t assms(2) by (auto split: if_splits)
  have bound: "x < length ss" if "x \<in> set xs" for x using chain_bound [OF c, of x] that by simp
  have "is_queue ss' q' (xs @ ys) \<and> relinked ss ss' \<and> (is_queue ss q2 zs \<longrightarrow> set zs \<inter> set xs = {} \<longrightarrow> is_queue ss' q2 zs)"
  proof (cases "xs = []")
    case True
    with assms(3) tail t i show ?thesis by (auto simp: unlink_def is_queue_def Let_def)
  next
    case False
    let ?l = "last xs"
    have l: "?l \<in> set xs" "?l \<noteq> length ss" using False bound [of ?l] by auto
    have ss': "ss' = ss[?l := (ss ! ?l)\<lparr>sl_next := sl_next (ss ! i)\<rparr>]" "q' = (if ys = [] then q\<lparr>qu_tail := ?l\<rparr> else q)"
      using assms(3) False l tail by (auto simp: unlink_def Let_def split: if_splits)
    have "relinked ss ss'" unfolding ss' by (rule relinked_upd) simp
    moreover have "is_queue ss' q' (xs @ ys)"
      using chain_cut [OF c assms(2) False] t False by (auto simp: is_queue_def ss')
    moreover have "is_queue ss' q2 zs" if "is_queue ss q2 zs" "set zs \<inter> set xs = {}"
    proof -
      have "\<not> ?l \<in> set zs" using that(2) l(1) by auto
      with that(1) show ?thesis by (simp add: is_queue_def chain_frame ss')
    qed
    ultimately show ?thesis by blast
  qed
  then show "is_queue ss' q' (xs @ ys)" "relinked ss ss'"
    "is_queue ss q2 zs \<Longrightarrow> set zs \<inter> set xs = {} \<Longrightarrow> is_queue ss' q2 zs" by blast+
qed

section \<open>The invariant of the dispatcher\<close>

abbreviation nslots :: "Dispatcher \<Rightarrow> nat" where "nslots d \<equiv> length (slots d)"
abbreviation state_at :: "Dispatcher \<Rightarrow> nat \<Rightarrow> SlotState" where "state_at d i \<equiv> sl_state (slots d ! i)"
abbreviation port_at :: "Dispatcher \<Rightarrow> nat \<Rightarrow> u64 option" where "port_at d i \<equiv> sl_port (slots d ! i)"

definition count_slots :: "(Slot \<Rightarrow> bool) \<Rightarrow> Slot list \<Rightarrow> nat" where
  "count_slots P ss = length (filter P ss)"

text \<open>The counters count, and what a slot points to is there.\<close>

definition accounted :: "Dispatcher \<Rightarrow> bool" where
  "accounted d \<longleftrightarrow>
     used d = count_slots (\<lambda>s. sl_state s \<noteq> SlotFree) (slots d) \<and>
     ordinary_used d = count_slots (\<lambda>s. sl_state s \<noteq> SlotFree \<and> \<not> sl_control s) (slots d) \<and>
     ordinary_used d \<le> 224 \<and>
     (\<forall>i < nslots d. state_at d i = SlotFree \<longleftrightarrow> port_at d i = None) \<and>
     (\<forall>i < nslots d. \<forall>p. port_at d i = Some p \<longrightarrow> map_of (routes d) p \<noteq> None) \<and>
     (\<forall>p x. map_of (routes d) p = Some x \<longrightarrow> po_outstanding x = count_slots (\<lambda>s. sl_port s = Some p) (slots d) \<and> p < next_owner d) \<and>
     um_ok (routes d)"

text \<open>The two queues hold the queued slots.\<close>

definition ready_lists :: "Dispatcher \<Rightarrow> nat list \<Rightarrow> nat list \<Rightarrow> bool" where
  "ready_lists d cs us \<longleftrightarrow> is_queue (slots d) (control_queue d) cs \<and> is_queue (slots d) (user_queue d) us \<and> distinct (cs @ us) \<and>
     (\<forall>i < nslots d. i \<in> set cs \<longleftrightarrow> state_at d i = SlotQueued \<and> sl_priority (slots d ! i)) \<and>
     (\<forall>i < nslots d. i \<in> set us \<longleftrightarrow> state_at d i = SlotQueued \<and> \<not> sl_priority (slots d ! i))"

text \<open>Tickets tell the slots in use apart, and a slot that was enqueued has a job.\<close>

definition ticketed :: "Dispatcher \<Rightarrow> bool" where
  "ticketed d \<longleftrightarrow> next_ticket d \<le> ticket_max \<and>
     (\<forall>i < nslots d. state_at d i \<noteq> SlotFree \<longrightarrow> sl_ticket (slots d ! i) < next_ticket d) \<and>
     (\<forall>i < nslots d. \<forall>j < nslots d. state_at d i \<noteq> SlotFree \<longrightarrow> state_at d j \<noteq> SlotFree \<longrightarrow>
        sl_ticket (slots d ! i) = sl_ticket (slots d ! j) \<longrightarrow> i = j) \<and>
     (\<forall>i < nslots d. state_at d i \<noteq> SlotReserved \<longrightarrow> (sl_job (slots d ! i) = None \<longleftrightarrow> state_at d i = SlotFree))"

definition mailbox :: "CompletionPort \<Rightarrow> nat list" where
  "mailbox x = map (\<lambda>k. po_completions x ! ((po_head x + k) mod 256)) [0..<po_count x]"

definition worker_ok :: "Dispatcher \<Rightarrow> bool" where
  "worker_ok d \<longleftrightarrow> (\<forall>i < nslots d. state_at d i = SlotRunning \<longleftrightarrow> worker d = WorkerRunning i) \<and>
     (\<forall>i. worker d = WorkerRunning i \<longrightarrow> i < nslots d) \<and>
     (\<forall>i. worker d = WorkerDelivering i \<longrightarrow> i < nslots d \<and> state_at d i = SlotCompleted)"

text \<open>A mailbox holds each completed slot of its port once, but for the one on its way.\<close>

definition posted :: "Dispatcher \<Rightarrow> u64 \<Rightarrow> nat set" where
  "posted d p = {i. i < nslots d \<and> state_at d i = SlotCompleted \<and> port_at d i = Some p \<and> worker d \<noteq> WorkerDelivering i}"

definition port_ok :: "CompletionPort \<Rightarrow> nat set \<Rightarrow> bool" where
  "port_ok x S \<longleftrightarrow> length (po_completions x) = 256 \<and> po_head x < 256 \<and> po_count x \<le> 256 \<and>
     distinct (mailbox x) \<and> set (mailbox x) = S"

definition delivered_ok :: "Dispatcher \<Rightarrow> bool" where
  "delivered_ok d \<longleftrightarrow> (\<forall>p x. map_of (routes d) p = Some x \<longrightarrow> port_ok x (posted d p))"

definition dispatcher_ok :: "Dispatcher \<Rightarrow> bool" where
  "dispatcher_ok d \<longleftrightarrow> nslots d = 256 \<and> accounted d \<and> (\<exists>cs us. ready_lists d cs us) \<and> ticketed d \<and> worker_ok d \<and> delivered_ok d"

lemma port_ok_other [simp]:
  "port_ok (x\<lparr>po_outstanding := n\<rparr>) S = port_ok x S" "port_ok (x\<lparr>po_accepting := b\<rparr>) S = port_ok x S"
  by (simp_all add: port_ok_def mailbox_def)

lemma count_slots_upd: "i < length ss \<Longrightarrow> count_slots P (ss[i := s]) + (if P (ss ! i) then 1 else 0) = count_slots P ss + (if P s then 1 else 0)"
proof (induction ss arbitrary: i)
  case (Cons x ss)
  show ?case using Cons.IH [of "i - 1"] Cons.prems by (cases i) (auto simp: count_slots_def)
qed simp

lemma count_same:
  assumes "length ss' = length ss" "\<And>i. i < length ss \<Longrightarrow> P (ss' ! i) = P (ss ! i)"
  shows "count_slots P ss' = count_slots P ss"
  using assms
proof (induction ss arbitrary: ss')
  case (Cons x ss)
  then obtain y ys where ys: "ss' = y # ys" "length ys = length ss" by (cases ss') auto
  have "P y = P x" using Cons.prems(2) [of 0] by (simp add: ys)
  moreover have "P (ys ! i) = P (ss ! i)" if "i < length ss" for i using Cons.prems(2) [of "Suc i"] that by (simp add: ys)
  then have "count_slots P ys = count_slots P ss" by (rule Cons.IH [OF ys(2)])
  ultimately show ?case by (simp add: ys count_slots_def)
qed (simp add: count_slots_def)

lemma count_le: "count_slots P ss \<le> length ss"
  by (simp add: count_slots_def)

lemma count_pos: "i < length ss \<Longrightarrow> P (ss ! i) \<Longrightarrow> 0 < count_slots P ss"
  by (auto simp: count_slots_def filter_empty_conv intro: nth_mem)

lemma mailbox_post:
  assumes "po_count x < 256" "length (po_completions x) = 256"
  shows "mailbox (post i x) = mailbox x @ [i]"
proof -
  let ?at = "(po_head x + po_count x) mod 256"
  have other: "(po_head x + k) mod 256 \<noteq> ?at" if "k < po_count x" for k
  proof
    assume "(po_head x + k) mod 256 = ?at"
    then have "256 dvd (po_head x + po_count x) - (po_head x + k)"
      using that by (intro mod_eq_dvd_iff_nat [THEN iffD1]) simp_all
    then have "256 dvd po_count x - k" by simp
    then show False using that assms(1) by (auto dest: dvd_imp_le)
  qed
  have "(po_completions x)[?at := i] ! ((po_head x + k) mod 256) = po_completions x ! ((po_head x + k) mod 256)"
    if "k < po_count x" for k using other [OF that] by (intro nth_list_update_neq) simp
  then show ?thesis using assms(2) by (simp add: mailbox_def post_def)
qed

lemma mailbox_take:
  assumes "0 < po_count x"
  shows "mailbox (x\<lparr>po_head := (po_head x + 1) mod 256, po_count := po_count x - 1\<rparr>) = tl (mailbox x)"
    "mailbox x = po_completions x ! (po_head x mod 256) # tl (mailbox x)"
proof -
  obtain n where n: "po_count x = Suc n" using assms by (cases "po_count x") auto
  have e: "(Suc (po_head x) mod 256 + k) mod 256 = (po_head x + Suc k) mod 256" for k by (simp add: mod_simps)
  have "mailbox x = po_completions x ! (po_head x mod 256) #
      map (\<lambda>k. po_completions x ! ((po_head x + Suc k) mod 256)) [0..<n]"
    by (simp add: mailbox_def n upt_conv_Cons map_Suc_upt [symmetric] comp_def del: upt_Suc)
  then show "mailbox (x\<lparr>po_head := (po_head x + 1) mod 256, po_count := po_count x - 1\<rparr>) = tl (mailbox x)"
    "mailbox x = po_completions x ! (po_head x mod 256) # tl (mailbox x)"
    by (simp_all add: mailbox_def n e)
qed

text \<open>What a slot is to the counters, the tickets and the mailboxes.\<close>

lemma accounted_cong:
  assumes "accounted d" "nslots d' = nslots d" "used d' = used d" "ordinary_used d' = ordinary_used d"
    and "routes d' = routes d" "next_owner d' = next_owner d"
    and "\<And>i. i < nslots d \<Longrightarrow> (state_at d' i = SlotFree \<longleftrightarrow> state_at d i = SlotFree) \<and> port_at d' i = port_at d i \<and>
      sl_control (slots d' ! i) = sl_control (slots d ! i)"
  shows "accounted d'"
proof -
  have "count_slots (\<lambda>s. sl_state s \<noteq> SlotFree) (slots d') = count_slots (\<lambda>s. sl_state s \<noteq> SlotFree) (slots d)"
    "count_slots (\<lambda>s. sl_state s \<noteq> SlotFree \<and> \<not> sl_control s) (slots d') = count_slots (\<lambda>s. sl_state s \<noteq> SlotFree \<and> \<not> sl_control s) (slots d)"
    "count_slots (\<lambda>s. sl_port s = Some p) (slots d') = count_slots (\<lambda>s. sl_port s = Some p) (slots d)" for p
    using assms(2,7) by (simp_all cong: count_same)+
  with assms show ?thesis by (simp add: accounted_def)
qed

lemma ticketed_cong:
  assumes "ticketed d" "nslots d' = nslots d" "next_ticket d' = next_ticket d"
    and "\<And>i. i < nslots d \<Longrightarrow> (state_at d' i = SlotFree \<longleftrightarrow> state_at d i = SlotFree) \<and>
      sl_ticket (slots d' ! i) = sl_ticket (slots d ! i) \<and>
      (state_at d' i \<noteq> SlotReserved \<longrightarrow> (sl_job (slots d' ! i) = None \<longleftrightarrow> state_at d' i = SlotFree))"
  shows "ticketed d'"
  unfolding ticketed_def assms(2,3)
proof (intro conjI allI impI)
  show "next_ticket d \<le> ticket_max" using assms(1) by (simp add: ticketed_def)
next
  fix i assume "i < nslots d" "state_at d' i \<noteq> SlotFree"
  then show "sl_ticket (slots d' ! i) < next_ticket d" using assms(1) assms(4) [of i] by (simp add: ticketed_def)
next
  fix i j
  assume "i < nslots d" "j < nslots d" "state_at d' i \<noteq> SlotFree" "state_at d' j \<noteq> SlotFree"
    "sl_ticket (slots d' ! i) = sl_ticket (slots d' ! j)"
  then show "i = j" using assms(1) assms(4) [of i] assms(4) [of j] by (simp add: ticketed_def)
next
  fix i assume "i < nslots d" "state_at d' i \<noteq> SlotReserved"
  then show "(sl_job (slots d' ! i) = None) = (state_at d' i = SlotFree)" using assms(4) [of i] by blast
qed

lemma delivered_cong:
  assumes "delivered_ok d" "routes d' = routes d"
    and "nslots d' = nslots d" "\<And>i p. i < nslots d \<Longrightarrow> i \<in> posted d' p \<longleftrightarrow> i \<in> posted d p"
  shows "delivered_ok d'"
proof -
  have "posted d' p = posted d p" for p using assms(3,4) by (auto simp: posted_def)
  with assms(1,2) show ?thesis by (simp add: delivered_ok_def)
qed

text \<open>A slot becomes ready: a prepared job is enqueued, or a retry is due.\<close>

definition make_ready :: "nat \<Rightarrow> Dispatcher \<Rightarrow> Dispatcher" where
  "make_ready i d = push_ready i (set_state SlotQueued i d)"

lemma push_ready_rest [simp]:
  "used (push_ready i d) = used d" "ordinary_used (push_ready i d) = ordinary_used d" "routes (push_ready i d) = routes d"
  "next_ticket (push_ready i d) = next_ticket d" "next_owner (push_ready i d) = next_owner d"
  "stopping (push_ready i d) = stopping d" "worker (push_ready i d) = worker d"
  by (simp_all add: push_ready_def split: prod.splits)

lemma upd_slot_rest [simp]:
  "used (upd_slot i f d) = used d" "ordinary_used (upd_slot i f d) = ordinary_used d" "routes (upd_slot i f d) = routes d"
  "next_ticket (upd_slot i f d) = next_ticket d" "next_owner (upd_slot i f d) = next_owner d"
  "stopping (upd_slot i f d) = stopping d" "worker (upd_slot i f d) = worker d" "nslots (upd_slot i f d) = nslots d"
  "control_queue (upd_slot i f d) = control_queue d" "user_queue (upd_slot i f d) = user_queue d"
  "slots (upd_slot i f d) = (slots d)[i := f (slots d ! i)]"
  by (simp_all add: upd_slot_def)

lemma make_ready_lists:
  assumes "ready_lists d cs us" "i < nslots d" "state_at d i \<noteq> SlotQueued"
  shows "relinked ((slots d)[i := (slots d ! i)\<lparr>sl_state := SlotQueued\<rparr>]) (slots (make_ready i d)) \<and>
    (if sl_priority (slots d ! i) then ready_lists (make_ready i d) (cs @ [i]) us else ready_lists (make_ready i d) cs (us @ [i]))"
proof -
  let ?s = "(slots d ! i)\<lparr>sl_state := SlotQueued\<rparr>"
  let ?ss = "(slots d)[i := ?s]"
  have q: "is_queue ?ss (control_queue d) cs" "is_queue ?ss (user_queue d) us" "distinct (cs @ us)" "\<not> i \<in> set (cs @ us)"
    using assms by (auto simp: ready_lists_def is_queue_same)
  have len: "i < length ?ss" using assms(2) by simp
  show ?thesis
  proof (cases "sl_priority (slots d ! i)")
    case True
    obtain ss' q' where p: "push_queue i (?ss, control_queue d) = (ss', q')" by force
    have d': "make_ready i d = d\<lparr>slots := ss', control_queue := q'\<rparr>"
      using True assms(2) p by (simp add: make_ready_def push_ready_def set_state_def upd_slot_def)
    from q have "distinct cs" "\<not> i \<in> set cs" "set us \<inter> set (cs @ [i]) = {}" by auto
    note l = push_list [OF q(1) this(1) len this(2) p] and o = push_list(3) [OF q(1) this(1) len this(2) p q(2) this(3)]
    have len': "length ss' = nslots d" using l(2) by (simp add: relinked_def)
    have f: "sl_state (ss' ! j) = (if j = i then SlotQueued else state_at d j)" "sl_priority (ss' ! j) = sl_priority (slots d ! j)"
      if "j < nslots d" for j
      using that assms(2) relinked_fields(1,6) [OF l(2), of j] by (cases "i = j"; simp)+
    have "ready_lists (make_ready i d) (cs @ [i]) us"
      unfolding ready_lists_def d'
      using l(1) o q(3,4) assms(1-3) True by (auto simp: f len' ready_lists_def)
    then show ?thesis using True l(2) d' by simp
  next
    case False
    obtain ss' q' where p: "push_queue i (?ss, user_queue d) = (ss', q')" by force
    have d': "make_ready i d = d\<lparr>slots := ss', user_queue := q'\<rparr>"
      using False assms(2) p by (simp add: make_ready_def push_ready_def set_state_def upd_slot_def)
    from q have "distinct us" "\<not> i \<in> set us" "set cs \<inter> set (us @ [i]) = {}" by auto
    note l = push_list [OF q(2) this(1) len this(2) p] and o = push_list(3) [OF q(2) this(1) len this(2) p q(1) this(3)]
    have len': "length ss' = nslots d" using l(2) by (simp add: relinked_def)
    have f: "sl_state (ss' ! j) = (if j = i then SlotQueued else state_at d j)" "sl_priority (ss' ! j) = sl_priority (slots d ! j)"
      if "j < nslots d" for j
      using that assms(2) relinked_fields(1,6) [OF l(2), of j] by (cases "i = j"; simp)+
    have "ready_lists (make_ready i d) cs (us @ [i])"
      unfolding ready_lists_def d'
      using l(1) o q(3,4) assms(1-3) False by (auto simp: f len' ready_lists_def)
    then show ?thesis using False l(2) d' by simp
  qed
qed

lemma make_ready_rest [simp]:
  "used (make_ready i d) = used d" "ordinary_used (make_ready i d) = ordinary_used d" "routes (make_ready i d) = routes d"
  "next_ticket (make_ready i d) = next_ticket d" "next_owner (make_ready i d) = next_owner d"
  "stopping (make_ready i d) = stopping d" "worker (make_ready i d) = worker d"
  by (simp_all add: make_ready_def set_state_def)

lemma make_ready_at:
  assumes "ready_lists d cs us" "i < nslots d" "state_at d i \<noteq> SlotQueued"
  shows "nslots (make_ready i d) = nslots d"
    "j < nslots d \<Longrightarrow> state_at (make_ready i d) j = (if j = i then SlotQueued else state_at d j)"
    "j < nslots d \<Longrightarrow> port_at (make_ready i d) j = port_at d j"
    "j < nslots d \<Longrightarrow> sl_job (slots (make_ready i d) ! j) = sl_job (slots d ! j)"
    "j < nslots d \<Longrightarrow> sl_ticket (slots (make_ready i d) ! j) = sl_ticket (slots d ! j)"
    "j < nslots d \<Longrightarrow> sl_control (slots (make_ready i d) ! j) = sl_control (slots d ! j)"
    "j < nslots d \<Longrightarrow> sl_due (slots (make_ready i d) ! j) = sl_due (slots d ! j)"
proof -
  from make_ready_lists [OF assms]
  have r: "relinked ((slots d)[i := (slots d ! i)\<lparr>sl_state := SlotQueued\<rparr>]) (slots (make_ready i d))" by blast
  then show "nslots (make_ready i d) = nslots d" by (simp add: relinked_def)
  note f = relinked_fields [OF r, of j]
  show "j < nslots d \<Longrightarrow> state_at (make_ready i d) j = (if j = i then SlotQueued else state_at d j)"
    "j < nslots d \<Longrightarrow> port_at (make_ready i d) j = port_at d j"
    "j < nslots d \<Longrightarrow> sl_job (slots (make_ready i d) ! j) = sl_job (slots d ! j)"
    "j < nslots d \<Longrightarrow> sl_ticket (slots (make_ready i d) ! j) = sl_ticket (slots d ! j)"
    "j < nslots d \<Longrightarrow> sl_control (slots (make_ready i d) ! j) = sl_control (slots d ! j)"
    "j < nslots d \<Longrightarrow> sl_due (slots (make_ready i d) ! j) = sl_due (slots d ! j)"
    using f assms(2) by (cases "i = j"; simp)+
qed

lemma make_ready_ok:
  assumes ok: "dispatcher_ok d" and i: "i < nslots d" "state_at d i = SlotReserved \<or> state_at d i = SlotRetryWaiting"
    and job: "sl_job (slots d ! i) \<noteq> None"
  shows "dispatcher_ok (make_ready i d)"
proof -
  obtain cs us where l: "ready_lists d cs us" using ok by (auto simp: dispatcher_ok_def)
  have nq: "state_at d i \<noteq> SlotQueued" using i(2) by auto
  note at = make_ready_at [OF l i(1) nq]
  have g: "nslots d = 256" "accounted d" "ticketed d" "worker_ok d" "delivered_ok d" using ok by (simp_all add: dispatcher_ok_def)
  have "accounted (make_ready i d)"
    using g(2) at(1) by (rule accounted_cong) (use i(2) in \<open>auto simp: at(2,3,6)\<close>)
  moreover have "ticketed (make_ready i d)"
    using g(3) at(1) by (rule ticketed_cong) (use i job g(3) in \<open>auto simp: at(2,4,5) ticketed_def\<close>)
  moreover have "delivered_ok (make_ready i d)"
    using g(5) make_ready_rest(3) at(1)
    by (rule delivered_cong) (use i(2) in \<open>auto simp: posted_def at(1-3)\<close>)
  moreover have "worker_ok (make_ready i d)"
    using g(4) i(2) unfolding worker_ok_def at(1) make_ready_rest
    by (auto simp: at(2))
  moreover have "\<exists>cs us. ready_lists (make_ready i d) cs us" using make_ready_lists [OF l i(1) nq] by metis
  ultimately show ?thesis using g(1) at(1) by (simp add: dispatcher_ok_def)
qed

lemma promote_ok:
  assumes "dispatcher_ok d"
  shows "dispatcher_ok (promote now d)" "worker (promote now d) = worker d" "stopping (promote now d) = stopping d"
    "nslots (promote now d) = nslots d" "routes (promote now d) = routes d"
proof -
  define f where "f = (\<lambda>d i. if state_at d i = SlotRetryWaiting \<and> sl_due (slots d ! i) \<le> now
      then push_ready i (set_state SlotQueued i d) else d)"
  have step: "dispatcher_ok (f d i) \<and> worker (f d i) = worker d \<and> stopping (f d i) = stopping d \<and> nslots (f d i) = nslots d \<and> routes (f d i) = routes d"
    if ok: "dispatcher_ok d" and i: "i < nslots d" for d i
  proof (cases "state_at d i = SlotRetryWaiting \<and> sl_due (slots d ! i) \<le> now")
    case True
    have job: "sl_job (slots d ! i) \<noteq> None" using ok i True by (auto simp: dispatcher_ok_def ticketed_def)
    obtain cs us where l: "ready_lists d cs us" using ok by (auto simp: dispatcher_ok_def)
    have nq: "state_at d i \<noteq> SlotQueued" using True by simp
    have "f d i = make_ready i d" using True by (simp add: f_def make_ready_def)
    then show ?thesis using make_ready_ok [OF ok i _ job] True make_ready_at(1) [OF l i nq] by simp
  next
    case False
    then have "f d i = d" by (auto simp: f_def)
    then show ?thesis by (simp add: ok)
  qed
  have "dispatcher_ok (foldl f d is) \<and> worker (foldl f d is) = worker d \<and> stopping (foldl f d is) = stopping d \<and>
      nslots (foldl f d is) = nslots d \<and> routes (foldl f d is) = routes d"
    if "dispatcher_ok d" "\<forall>i \<in> set is. i < nslots d" for d "is"
    using that
  proof (induction "is" arbitrary: d)
    case (Cons i js)
    note st = step [OF Cons.prems(1), of i]
    have "i < nslots d" "\<forall>j \<in> set js. j < nslots (f d i)" using Cons.prems(2) st by auto
    with st Cons.IH [of "f d i"] show ?case by simp
  qed simp
  from this [OF assms, of "[0..<nslots d]"]
  show "dispatcher_ok (promote now d)" "worker (promote now d) = worker d" "stopping (promote now d) = stopping d"
    "nslots (promote now d) = nslots d" "routes (promote now d) = routes d"
    unfolding promote_def f_def by simp_all
qed

text \<open>The worker takes the first job of a queue.\<close>

lemma take_ok:
  assumes ok: "dispatcher_ok d" and idle: "worker d = WorkerIdle" and l: "ready_lists d cs us"
    and which: "cs = i # cs' \<and> us' = us \<and> pop_queue (slots d) (control_queue d) = (j, q) \<and>
        d' = set_state SlotRunning j (d\<lparr>control_queue := q, worker := WorkerRunning j\<rparr>) \<or>
      us = i # us' \<and> cs' = cs \<and> pop_queue (slots d) (user_queue d) = (j, q) \<and>
        d' = set_state SlotRunning j (d\<lparr>user_queue := q, worker := WorkerRunning j\<rparr>)"
  shows "dispatcher_ok d' \<and> j = i \<and> ready_lists d' cs' us'"
proof -
  have g: "nslots d = 256" "accounted d" "ticketed d" "worker_ok d" "delivered_ok d" using ok by (simp_all add: dispatcher_ok_def)
  have qs: "is_queue (slots d) (control_queue d) cs" "is_queue (slots d) (user_queue d) us" using l by (simp_all add: ready_lists_def)
  have j: "j = i" using which qs pop_list(1) by metis
  have i: "i < nslots d" "state_at d i = SlotQueued" "\<not> i \<in> set (cs' @ us')" "distinct (cs' @ us')"
      "set (cs @ us) = insert i (set (cs' @ us'))"
  proof -
    have "i \<in> set (cs @ us)" "distinct (cs @ us)" using which l by (auto simp: ready_lists_def)
    moreover from this have "i < nslots d" using qs by (auto simp: is_queue_def intro: chain_bound)
    ultimately show "i < nslots d" "state_at d i = SlotQueued" using l by (auto simp: ready_lists_def)
    show "\<not> i \<in> set (cs' @ us')" "distinct (cs' @ us')" "set (cs @ us) = insert i (set (cs' @ us'))"
      using which l by (auto simp: ready_lists_def)
  qed
  have slots': "slots d' = (slots d)[i := (slots d ! i)\<lparr>sl_state := SlotRunning\<rparr>]" "worker d' = WorkerRunning i"
      "used d' = used d" "ordinary_used d' = ordinary_used d" "routes d' = routes d" "next_ticket d' = next_ticket d"
      "next_owner d' = next_owner d"
    using which j by (auto simp: set_state_def)
  have at: "nslots d' = nslots d" "\<And>k. k < nslots d \<Longrightarrow> state_at d' k = (if k = i then SlotRunning else state_at d k)"
      "\<And>k. k < nslots d \<Longrightarrow> port_at d' k = port_at d k \<and> sl_job (slots d' ! k) = sl_job (slots d ! k) \<and>
        sl_ticket (slots d' ! k) = sl_ticket (slots d ! k) \<and> sl_control (slots d' ! k) = sl_control (slots d ! k) \<and>
        sl_priority (slots d' ! k) = sl_priority (slots d ! k)"
    using i(1) by (auto simp: slots' nth_list_update)
  have "accounted d'" using g(2) at(1) slots'(3,4,5,7) by (rule accounted_cong) (use i in \<open>auto simp: at\<close>)
  moreover have "ticketed d'" using g(3) at(1) slots'(6) by (rule ticketed_cong) (use i g(3) in \<open>auto simp: at ticketed_def\<close>)
  moreover have "delivered_ok d'"
    using g(5) slots'(5) at(1) by (rule delivered_cong) (use i idle slots'(2) in \<open>auto simp: posted_def at\<close>)
  moreover have "worker_ok d'" using g(4) i idle unfolding worker_ok_def at(1) slots'(2) by (auto simp: at(2))
  moreover have "ready_lists d' cs' us'"
  proof -
    have "is_queue (slots d') (control_queue d') cs' \<and> is_queue (slots d') (user_queue d') us'"
      using which qs pop_list(2) [of "slots d"] j
      by (auto simp: slots'(1) is_queue_same set_state_def)
    moreover have "k \<in> set cs' \<longleftrightarrow> k \<in> set cs \<and> k \<noteq> i" "k \<in> set us' \<longleftrightarrow> k \<in> set us \<and> k \<noteq> i" for k
      using which i(3) l by (auto simp: ready_lists_def)
    ultimately show ?thesis using l i(1,2,4) unfolding ready_lists_def at(1) by (auto simp: at)
  qed
  ultimately show ?thesis using g(1) at(1) j by (auto simp: dispatcher_ok_def)
qed

lemma worker_change:
  assumes "dispatcher_ok d" "w = WorkerIdle \<or> w = WorkerExited" "worker d = WorkerIdle"
  shows "dispatcher_ok (d\<lparr>worker := w\<rparr>)"
proof -
  have "posted (d\<lparr>worker := w\<rparr>) p = posted d p" for p using assms(2,3) by (auto simp: posted_def)
  then have "delivered_ok (d\<lparr>worker := w\<rparr>) = delivered_ok d" by (simp add: delivered_ok_def)
  moreover have "accounted (d\<lparr>worker := w\<rparr>) = accounted d" "ready_lists (d\<lparr>worker := w\<rparr>) = ready_lists d"
    "ticketed (d\<lparr>worker := w\<rparr>) = ticketed d" by (simp_all add: accounted_def ready_lists_def ticketed_def fun_eq_iff)
  moreover have "worker_ok (d\<lparr>worker := w\<rparr>)"
    using assms by (auto simp: dispatcher_ok_def worker_ok_def)
  ultimately show ?thesis using assms(1) by (simp add: dispatcher_ok_def)
qed

lemma pick_step:
  assumes ok: "dispatcher_ok d" and True: "worker d = WorkerIdle" and l: "ready_lists (promote now d) cs us"
  shows "dispatcher_ok (worker_pick now d) \<and> ready_lists (worker_pick now d) (tl cs) (if cs = [] then tl us else us) \<and>
    worker (worker_pick now d) = (if cs @ us \<noteq> [] then WorkerRunning (hd (cs @ us))
      else if stopping d \<and> \<not> retry_waiting (promote now d) then WorkerExited else WorkerIdle)"
proof -
  let ?d = "promote now d"
  note p = promote_ok [OF ok, of now]
  have idle: "worker ?d = WorkerIdle" using p(2) True by simp
  have q: "is_queue (slots ?d) (control_queue ?d) cs" "is_queue (slots ?d) (user_queue ?d) us"
    using l by (simp_all add: ready_lists_def)
  consider i cs' where "cs = i # cs'" | i us' where "cs = []" "us = i # us'" | "cs = []" "us = []"
    by (cases cs; cases us) auto
  then show ?thesis
  proof cases
    case (1 i cs')
    obtain j q' where pop: "pop_queue (slots ?d) (control_queue ?d) = (j, q')" by force
    have "worker_pick now d = set_state SlotRunning j (?d\<lparr>control_queue := q', worker := WorkerRunning j\<rparr>)"
      using True 1 queue_empty [OF q(1)] pop by (simp add: worker_pick_def Let_def)
    moreover from this take_ok [OF p(1) idle l, of i cs' us j q' "worker_pick now d"] 1 pop
    have "dispatcher_ok (worker_pick now d) \<and> j = i \<and> ready_lists (worker_pick now d) cs' us" by blast
    ultimately show ?thesis using 1 by (simp add: set_state_def)
  next
    case (2 i us')
    obtain j q' where pop: "pop_queue (slots ?d) (user_queue ?d) = (j, q')" by force
    have "worker_pick now d = set_state SlotRunning j (?d\<lparr>user_queue := q', worker := WorkerRunning j\<rparr>)"
      using True 2 queue_empty [OF q(1)] queue_empty [OF q(2)] pop by (simp add: worker_pick_def Let_def)
    moreover from this take_ok [OF p(1) idle l, of i "[]" us' j q' "worker_pick now d"] 2 pop
    have "dispatcher_ok (worker_pick now d) \<and> j = i \<and> ready_lists (worker_pick now d) [] us'" by blast
    ultimately show ?thesis using 2 by (simp add: set_state_def)
  next
    case 3
    with True queue_empty [OF q(1)] queue_empty [OF q(2)]
    have e: "worker_pick now d = (if stopping ?d \<and> \<not> retry_waiting ?d then ?d\<lparr>worker := WorkerExited\<rparr> else ?d)"
      by (simp add: worker_pick_def Let_def)
    have "ready_lists (?d\<lparr>worker := w\<rparr>) cs us" for w using l by (simp add: ready_lists_def)
    then show ?thesis using 3 l p(1,3) idle worker_change [OF p(1) _ idle, of WorkerExited] by (simp add: e)
  qed
qed

lemma pick_ok:
  assumes ok: "dispatcher_ok d"
  shows "dispatcher_ok (worker_pick now d)"
proof (cases "worker d = WorkerIdle")
  case True
  moreover obtain cs us where "ready_lists (promote now d) cs us" using promote_ok(1) [OF ok, of now] by (auto simp: dispatcher_ok_def)
  ultimately show ?thesis using pick_step [OF ok] by blast
next
  case False
  with ok show ?thesis by (simp add: worker_pick_def)
qed

lemma run_slot_fields:
  "sl_ticket (run_slot v s) = sl_ticket s" "sl_control (run_slot v s) = sl_control s" "sl_priority (run_slot v s) = sl_priority s"
  "sl_next (run_slot v s) = sl_next s" "sl_port (run_slot v s) = sl_port s"
  "sl_job s \<noteq> None \<Longrightarrow> sl_job (run_slot v s) \<noteq> None \<and>
     (sl_state (run_slot v s) = SlotRetryWaiting \<or> sl_state (run_slot v s) = SlotCompleted)"
  by (auto simp: run_slot_def Let_def split: option.splits prod.splits)

lemma run_ok:
  assumes ok: "dispatcher_ok d"
  shows "dispatcher_ok (worker_run v d)"
proof (cases "worker d")
  case (WorkerRunning i)
  have g: "nslots d = 256" "accounted d" "ticketed d" "worker_ok d" "delivered_ok d" using ok by (simp_all add: dispatcher_ok_def)
  have i: "i < nslots d" "state_at d i = SlotRunning" using g(4) WorkerRunning by (auto simp: worker_ok_def)
  have job: "sl_job (slots d ! i) \<noteq> None" using g(3) i by (auto simp: ticketed_def)
  define s where "s = run_slot v (slots d ! i)"
  have st: "sl_state s = SlotRetryWaiting \<or> sl_state s = SlotCompleted" "sl_job s \<noteq> None"
    using run_slot_fields(6) [OF job, of v] by (auto simp: s_def)
  let ?d = "worker_run v d"
  have d': "slots ?d = (slots d)[i := s]" "worker ?d = (if sl_state s = SlotCompleted then WorkerDelivering i else WorkerIdle)"
      "used ?d = used d" "ordinary_used ?d = ordinary_used d" "routes ?d = routes d" "next_ticket ?d = next_ticket d"
      "next_owner ?d = next_owner d" "control_queue ?d = control_queue d" "user_queue ?d = user_queue d"
    using i(1) by (simp_all add: worker_run_def WorkerRunning Let_def s_def)
  have at: "nslots ?d = nslots d" "\<And>k. k < nslots d \<Longrightarrow> slots ?d ! k = (if k = i then s else slots d ! k)"
    using i(1) by (auto simp: d' nth_list_update)
  note f = run_slot_fields(1-5) [of v "slots d ! i", folded s_def]
  have "accounted ?d" using g(2) at(1) d'(3,4,5,7) by (rule accounted_cong) (use i st f in \<open>auto simp: at\<close>)
  moreover have "ticketed ?d" using g(3) at(1) d'(6) by (rule ticketed_cong) (use i st f g(3) in \<open>auto simp: at ticketed_def\<close>)
  moreover have "delivered_ok ?d"
    using g(5) d'(5) at(1)
    by (rule delivered_cong) (use i st f WorkerRunning d'(2) in \<open>auto simp: posted_def at\<close>)
  moreover have "worker_ok ?d" using g(4) i st WorkerRunning unfolding worker_ok_def at(1) d'(2) by (auto simp: at(2))
  moreover have "\<exists>cs us. ready_lists ?d cs us"
  proof -
    obtain cs us where l: "ready_lists d cs us" using ok by (auto simp: dispatcher_ok_def)
    have "ready_lists ?d cs us"
      using l i st f unfolding ready_lists_def at(1) d'(8,9)
      by (auto simp: at(2)) (auto simp: d'(1) is_queue_same)
    then show ?thesis by blast
  qed
  ultimately show ?thesis using g(1) at(1) by (simp add: dispatcher_ok_def)
qed (use ok in \<open>simp_all add: worker_run_def\<close>)

text \<open>A completed slot is put into the mailbox of its port, where there is room for it.\<close>

lemma port_post:
  assumes "port_ok x S" "\<not> i \<in> S" "insert i S \<subseteq> {..<256}"
  shows "port_ok (post i x) (insert i S)" "po_count x < 256"
proof -
  have x: "length (po_completions x) = 256" "po_head x < 256" "distinct (mailbox x)" "set (mailbox x) = S"
    using assms(1) by (simp_all add: port_ok_def)
  have S: "finite S" using x(4) by (metis List.finite_set)
  have "card (insert i S) \<le> card {..<256 :: nat}" by (rule card_mono [OF _ assms(3)]) simp
  then have "card S < 256" using assms(2) S by simp
  moreover have "po_count x = card S" using distinct_card [OF x(3)] x(4) by (simp add: mailbox_def)
  ultimately show c: "po_count x < 256" by simp
  note m = mailbox_post [OF c x(1), of i]
  have "distinct (mailbox x @ [i])" "set (mailbox x @ [i]) = insert i S" using x(3,4) assms(2) by simp_all
  then show "port_ok (post i x) (insert i S)"
    using x(1,2) c by (simp add: port_ok_def m) (simp add: post_def)
qed

lemma posted_bound: "nslots d = 256 \<Longrightarrow> posted d p \<subseteq> {..<256}"
  by (auto simp: posted_def)

lemma deliver_rest [simp]:
  "slots (deliver_slot i d) = slots d" "used (deliver_slot i d) = used d" "ordinary_used (deliver_slot i d) = ordinary_used d"
  "next_ticket (deliver_slot i d) = next_ticket d" "next_owner (deliver_slot i d) = next_owner d"
  "control_queue (deliver_slot i d) = control_queue d" "user_queue (deliver_slot i d) = user_queue d"
  "worker (deliver_slot i d) = worker d" "stopping (deliver_slot i d) = stopping d"
  by (simp_all add: deliver_slot_def upd_port_def split: option.splits)

text \<open>The delivery of slot \<open>i\<close>, whether or not the worker does it.\<close>

lemma deliver_ok:
  assumes len: "nslots d = 256" and acc: "accounted d" and i: "i < nslots d" "state_at d i = SlotCompleted"
    and del: "\<And>p x. map_of (routes d) p = Some x \<Longrightarrow> port_ok x (posted d p - {i})"
    and w: "w \<noteq> WorkerDelivering i" "\<And>k. k \<noteq> i \<Longrightarrow> worker d = WorkerDelivering k \<longleftrightarrow> w = WorkerDelivering k"
  shows "delivered_ok ((deliver_slot i d)\<lparr>worker := w\<rparr>)" "accounted ((deliver_slot i d)\<lparr>worker := w\<rparr>)"
proof -
  obtain p x where p: "port_at d i = Some p" "map_of (routes d) p = Some x"
    using acc i by (fastforce simp: accounted_def)
  let ?d = "(deliver_slot i d)\<lparr>worker := w\<rparr>"
  have r: "routes ?d = um_modify p (post i) (routes d)" using p by (simp add: deliver_slot_def upd_port_def)
  have posted': "posted ?d q = (if q = p then insert i (posted d q - {i}) else posted d q - {i})" for q
  proof (rule set_eqI)
    fix k
    show "k \<in> posted ?d q \<longleftrightarrow> k \<in> (if q = p then insert i (posted d q - {i}) else posted d q - {i})"
    proof (cases "k = i")
      case True
      then show ?thesis using i p(1) w(1) by (simp add: posted_def)
    next
      case False
      then show ?thesis using w(2) [of k] by (simp add: posted_def)
    qed
  qed
  show "delivered_ok ?d"
    unfolding delivered_ok_def r um.lookup_modify
  proof (intro allI impI)
    fix q y
    assume y: "(if q = p then map_option (post i) (map_of (routes d) p) else map_of (routes d) q) = Some y"
    show "port_ok y (posted ?d q)"
    proof (cases "q = p")
      case True
      have "insert i (posted d p - {i}) \<subseteq> {..<256}" using posted_bound [OF len, of p] i(1) len by auto
      then have "port_ok (post i x) (insert i (posted d p - {i}))" by (intro port_post(1) del [OF p(2)]) simp_all
      then show ?thesis using y True p(2) by (simp add: posted')
    next
      case False
      with y del show ?thesis by (simp add: posted')
    qed
  qed
  show "accounted ?d"
    using acc unfolding accounted_def r um.lookup_modify
    by (auto simp: post_def um.ok_modify split: if_splits)
qed

lemma worker_deliver_ok:
  assumes ok: "dispatcher_ok d"
  shows "dispatcher_ok (worker_deliver d)"
proof (cases "worker d")
  case (WorkerDelivering i)
  have g: "nslots d = 256" "accounted d" "ticketed d" "worker_ok d" "delivered_ok d" using ok by (simp_all add: dispatcher_ok_def)
  have i: "i < nslots d" "state_at d i = SlotCompleted" using g(4) WorkerDelivering by (auto simp: worker_ok_def)
  have d': "worker_deliver d = (deliver_slot i d)\<lparr>worker := WorkerIdle\<rparr>" by (simp add: worker_deliver_def WorkerDelivering)
  have "port_ok x (posted d p - {i})" if "map_of (routes d) p = Some x" for p x
  proof -
    have "posted d p - {i} = posted d p" by (auto simp: posted_def WorkerDelivering)
    then show ?thesis using g(5) that by (simp add: delivered_ok_def)
  qed
  from deliver_ok [OF g(1,2) i this, of WorkerIdle]
  have "delivered_ok (worker_deliver d)" "accounted (worker_deliver d)" by (simp_all add: d' WorkerDelivering)
  moreover have "ticketed (worker_deliver d) = ticketed d" "ready_lists (worker_deliver d) = ready_lists d"
    by (simp_all add: d' ticketed_def ready_lists_def fun_eq_iff)
  moreover have "worker_ok (worker_deliver d)" using g(4) by (auto simp: d' worker_ok_def WorkerDelivering)
  moreover have "nslots (worker_deliver d) = 256" using g(1) by (simp add: d')
  ultimately show ?thesis using ok by (simp add: dispatcher_ok_def)
qed (use ok in \<open>simp_all add: worker_deliver_def\<close>)

lemma first_slot_Some:
  assumes "first_slot P d = Some i"
  shows "i < nslots d" "P (slots d ! i)"
  using assms by (auto simp: first_slot_def find_Some_iff)

lemma first_slot_None: "first_slot P d = None \<longleftrightarrow> (\<forall>i < nslots d. \<not> P (slots d ! i))"
  by (auto simp: first_slot_def find_None_iff)

lemma locate_Inr:
  assumes "locate ticket d = success i"
  shows "i < nslots d" "state_at d i \<noteq> SlotFree" "sl_ticket (slots d ! i) = ticket"
  using assms by (auto simp: locate_def split: option.splits dest: first_slot_Some)

lemma enqueue_ok:
  assumes "dispatcher_ok d"
  shows "dispatcher_ok (snd (enqueue_prepared ticket d))"
proof (cases "locate ticket d")
  case (Inr i)
  note l = locate_Inr [OF Inr]
  show ?thesis
  proof (cases "state_at d i \<noteq> SlotReserved \<or> sl_job (slots d ! i) = None")
    case False
    then show ?thesis using make_ready_ok [OF assms l(1)] by (auto simp: enqueue_prepared_def Inr make_ready_def)
  qed (use assms Inr in \<open>auto simp: enqueue_prepared_def\<close>)
qed (use assms in \<open>simp add: enqueue_prepared_def\<close>)

lemma job_change_ok:
  assumes ok: "dispatcher_ok d" and i: "i < nslots d"
    and f: "state_at d i = SlotReserved \<or> (f (sl_job (slots d ! i)) = None \<longleftrightarrow> sl_job (slots d ! i) = None)"
  shows "dispatcher_ok (upd_slot i (\<lambda>s. s\<lparr>sl_job := f (sl_job s)\<rparr>) d)"
proof -
  let ?d = "upd_slot i (\<lambda>s. s\<lparr>sl_job := f (sl_job s)\<rparr>) d"
  have g: "nslots d = 256" "accounted d" "ticketed d" "worker_ok d" "delivered_ok d"
    using ok by (simp_all add: dispatcher_ok_def)
  have at: "\<And>k. k < nslots d \<Longrightarrow> slots ?d ! k = (if k = i then (slots d ! k)\<lparr>sl_job := f (sl_job (slots d ! k))\<rparr> else slots d ! k)"
    using i by (auto simp: nth_list_update)
  have "accounted ?d" using g(2) by (rule accounted_cong) (auto simp: at simp del: upd_slot_rest(11))
  moreover have "ticketed ?d"
    using g(3) by (rule ticketed_cong) (use i f g(3) in \<open>auto simp: at ticketed_def simp del: upd_slot_rest(11)\<close>)
  moreover have "delivered_ok ?d"
    using g(5) by (rule delivered_cong) (auto simp: posted_def at simp del: upd_slot_rest(11))
  moreover have "worker_ok ?d" using g(4) by (auto simp: worker_ok_def at simp del: upd_slot_rest(11))
  moreover have "\<exists>cs us. ready_lists ?d cs us"
  proof -
    obtain cs us where r: "ready_lists d cs us" using ok by (auto simp: dispatcher_ok_def)
    have "is_queue (slots ?d) q xs = is_queue (slots d) q xs" for q xs by (simp add: is_queue_same)
    with r have "ready_lists ?d cs us" by (auto simp: ready_lists_def at simp del: upd_slot_rest(11))
    then show ?thesis by blast
  qed
  ultimately show ?thesis using g(1) by (simp add: dispatcher_ok_def)
qed

lemma install_ok:
  assumes ok: "dispatcher_ok d"
  shows "dispatcher_ok (snd (install ticket j d))"
proof (cases "\<exists>i. locate ticket d = Inr i \<and> state_at d i = SlotReserved \<and> sl_job (slots d ! i) = None")
  case True
  then obtain i where i: "locate ticket d = Inr i" "state_at d i = SlotReserved" "sl_job (slots d ! i) = None" by blast
  show ?thesis using job_change_ok [OF ok locate_Inr(1) [OF i(1)], of "\<lambda>_. Some j"] i by (simp add: install_def)
next
  case False
  then show ?thesis using ok by (auto simp: install_def split: sum.splits)
qed

text \<open>A queued slot is taken out of its queue and completed at once.\<close>

lemma filter_out: "\<not> i \<in> set xs \<Longrightarrow> filter (\<lambda>k. k \<noteq> i) xs = xs"
  by (induction xs) auto

lemma unlinked_lists:
  assumes "ready_lists d cs us" "i < nslots d" "state_at d i = SlotQueued"
    and q: "q = (if sl_priority (slots d ! i) then control_queue d else user_queue d)"
  obtains previous ss q1 cs' us' where "predecessor (nslots d) (slots d) i (nslots d) (qu_head q) = Some previous"
    "unlink i previous (slots d, q) = (ss, q1)" "relinked (slots d) ss"
    "is_queue ss (if sl_priority (slots d ! i) then q1 else control_queue d) cs'"
    "is_queue ss (if sl_priority (slots d ! i) then user_queue d else q1) us'"
    "distinct (cs' @ us')" "cs' = filter (\<lambda>k. k \<noteq> i) cs" "us' = filter (\<lambda>k. k \<noteq> i) us"
proof -
  have b: "is_queue (slots d) (control_queue d) cs" "is_queue (slots d) (user_queue d) us" "distinct (cs @ us)"
    using assms(1) by (simp_all add: ready_lists_def)
  have short: "length xs \<le> nslots d" if "is_queue (slots d) p (xs @ i # ys)" "distinct (xs @ i # ys)" for p xs ys
  proof -
    have "set xs \<subseteq> {..<nslots d}" using that(1) by (auto simp: is_queue_def dest: chain_bound)
    then have "card (set xs) \<le> nslots d" using card_mono [of "{..<nslots d}" "set xs"] by simp
    then show ?thesis using that(2) distinct_card [of xs] by simp
  qed
  show ?thesis
  proof (cases "sl_priority (slots d ! i)")
    case True
    then have "i \<in> set cs" using assms by (simp add: ready_lists_def)
    then obtain xs ys where cs: "cs = xs @ i # ys" by (meson split_list)
    have ql: "is_queue (slots d) q (xs @ i # ys)" "distinct (xs @ i # ys)" "\<not> i \<in> set xs" using b True by (auto simp: q cs)
    let ?pr = "if xs = [] then nslots d else last xs"
    obtain ss q1 where u: "unlink i ?pr (slots d, q) = (ss, q1)" by force
    have disj: "set us \<inter> set xs = {}" using b(3) by (auto simp: cs)
    show ?thesis
    proof (rule that)
      show "predecessor (nslots d) (slots d) i (nslots d) (qu_head q) = Some ?pr"
        using predecessor_found [of "slots d" "qu_head q" xs i ys "nslots d" "nslots d"] ql short [OF ql(1,2)] by (simp add: is_queue_def)
      show "unlink i ?pr (slots d, q) = (ss, q1)" by (rule u)
      show "relinked (slots d) ss" by (rule unlink_list(2) [OF ql(1,2) u])
      show "is_queue ss (if sl_priority (slots d ! i) then q1 else control_queue d) (xs @ ys)" using unlink_list(1) [OF ql(1,2) u] True by simp
      show "is_queue ss (if sl_priority (slots d ! i) then user_queue d else q1) us" using unlink_list(3) [OF ql(1,2) u b(2) disj] True by simp
      show "distinct ((xs @ ys) @ us)" using b(3) by (auto simp: cs)
      show "xs @ ys = filter (\<lambda>k. k \<noteq> i) cs" "us = filter (\<lambda>k. k \<noteq> i) us" using b(3) ql(2) by (simp_all add: cs filter_out)
    qed
  next
    case False
    then have "i \<in> set us" using assms by (simp add: ready_lists_def)
    then obtain xs ys where us: "us = xs @ i # ys" by (meson split_list)
    have ql: "is_queue (slots d) q (xs @ i # ys)" "distinct (xs @ i # ys)" "\<not> i \<in> set xs" using b False by (auto simp: q us)
    let ?pr = "if xs = [] then nslots d else last xs"
    obtain ss q1 where u: "unlink i ?pr (slots d, q) = (ss, q1)" by force
    have disj: "set cs \<inter> set xs = {}" using b(3) by (auto simp: us)
    show ?thesis
    proof (rule that)
      show "predecessor (nslots d) (slots d) i (nslots d) (qu_head q) = Some ?pr"
        using predecessor_found [of "slots d" "qu_head q" xs i ys "nslots d" "nslots d"] ql short [OF ql(1,2)] by (simp add: is_queue_def)
      show "unlink i ?pr (slots d, q) = (ss, q1)" by (rule u)
      show "relinked (slots d) ss" by (rule unlink_list(2) [OF ql(1,2) u])
      show "is_queue ss (if sl_priority (slots d ! i) then q1 else control_queue d) cs" using unlink_list(3) [OF ql(1,2) u b(1) disj] False by simp
      show "is_queue ss (if sl_priority (slots d ! i) then user_queue d else q1) (xs @ ys)" using unlink_list(1) [OF ql(1,2) u] False by simp
      show "distinct (cs @ xs @ ys)" using b(3) by (auto simp: us)
      show "cs = filter (\<lambda>k. k \<noteq> i) cs" "xs @ ys = filter (\<lambda>k. k \<noteq> i) us" using b(3) ql(2) by (simp_all add: us filter_out)
    qed
  qed
qed

lemma cancel_step:
  assumes ok: "dispatcher_ok d" and Some: "first_slot (\<lambda>s. sl_state s \<noteq> SlotFree \<and> sl_ticket s = ticket) d = Some i"
    and True: "state_at d i = SlotQueued" and l: "ready_lists d cs us"
  shows "dispatcher_ok (snd (cancel_queued ticket d)) \<and> fst (cancel_queued ticket d) = success True \<and>
    ready_lists (snd (cancel_queued ticket d)) (filter (\<lambda>k. k \<noteq> i) cs) (filter (\<lambda>k. k \<noteq> i) us)"
proof -
  have i: "i < nslots d" using first_slot_Some [OF Some] by simp
  have g: "nslots d = 256" "accounted d" "ticketed d" "worker_ok d" "delivered_ok d" using ok by (simp_all add: dispatcher_ok_def)
  define q where "q = (if sl_priority (slots d ! i) then control_queue d else user_queue d)"
  obtain previous ss q1 cs' us' where u: "predecessor (nslots d) (slots d) i (nslots d) (qu_head q) = Some previous"
      "unlink i previous (slots d, q) = (ss, q1)" "relinked (slots d) ss"
      "is_queue ss (if sl_priority (slots d ! i) then q1 else control_queue d) cs'"
      "is_queue ss (if sl_priority (slots d ! i) then user_queue d else q1) us'"
      "distinct (cs' @ us')" "cs' = filter (\<lambda>k. k \<noteq> i) cs" "us' = filter (\<lambda>k. k \<noteq> i) us"
    using unlinked_lists [OF l i True q_def] .
  define d1 where "d1 = (if sl_priority (slots d ! i) then d\<lparr>slots := ss, control_queue := q1\<rparr> else d\<lparr>slots := ss, user_queue := q1\<rparr>)"
  define d2 where "d2 = upd_slot i (\<lambda>s. s\<lparr>sl_completion := (sl_completion s)\<lparr>job_skipped := True\<rparr>, sl_state := SlotCompleted\<rparr>) d1"
  have d': "cancel_queued ticket d = (success True, deliver_slot i d2)"
    using Some True u(1,2) by (simp add: cancel_queued_def Let_def q_def d1_def d2_def)
  have len: "length ss = nslots d" using u(3) by (simp add: relinked_def)
  have rest: "used d2 = used d" "ordinary_used d2 = ordinary_used d" "routes d2 = routes d" "next_ticket d2 = next_ticket d"
      "next_owner d2 = next_owner d" "worker d2 = worker d"
    by (simp_all add: d2_def d1_def)
  have at: "nslots d2 = nslots d" "\<And>k. k < nslots d \<Longrightarrow> state_at d2 k = (if k = i then SlotCompleted else state_at d k)"
      "\<And>k. k < nslots d \<Longrightarrow> port_at d2 k = port_at d k \<and> sl_job (slots d2 ! k) = sl_job (slots d ! k) \<and>
        sl_ticket (slots d2 ! k) = sl_ticket (slots d ! k) \<and> sl_control (slots d2 ! k) = sl_control (slots d ! k) \<and>
        sl_priority (slots d2 ! k) = sl_priority (slots d ! k)"
    using i len relinked_fields [OF u(3)] by (auto simp: d2_def d1_def nth_list_update)
  have a2: "accounted d2" using g(2) at(1) rest(1,2,3,5) by (rule accounted_cong) (use True in \<open>auto simp: at\<close>)
  have w: "worker d \<noteq> WorkerDelivering i" using g(4) True by (auto simp: worker_ok_def)
  have p2: "port_ok x (posted d2 p - {i})" if "map_of (routes d2) p = Some x" for p x
  proof -
    have "posted d2 p - {i} = posted d p" using True i by (auto simp: posted_def at rest)
    then show ?thesis using g(5) that by (simp add: delivered_ok_def rest)
  qed
  have same: "(deliver_slot i d2)\<lparr>worker := worker d\<rparr> = deliver_slot i d2"
    using deliver_rest(8) [of i d2] by (simp add: rest(6) [symmetric])
  have "nslots d2 = 256" "i < nslots d2" "state_at d2 i = SlotCompleted" using g(1) i by (simp_all add: at)
  from deliver_ok [OF this(1) a2 this(2,3) p2 w] have "delivered_ok (deliver_slot i d2)" "accounted (deliver_slot i d2)"
    by (simp_all add: same rest)
  moreover have "ticketed (deliver_slot i d2)"
    using g(3) by (rule ticketed_cong) (use i True g(3) in \<open>auto simp: at rest ticketed_def\<close>)
  moreover have "worker_ok (deliver_slot i d2)"
    using g(4) i True w unfolding worker_ok_def deliver_rest at(1) rest by (auto simp: at)
  moreover have "ready_lists (deliver_slot i d2) cs' us'"
  proof -
    have nx: "sl_next ((ss ! i)\<lparr>sl_completion := c, sl_state := st\<rparr>) = sl_next (ss ! i)" for c st by simp
    have "is_queue (slots d2) (control_queue d2) cs'" "is_queue (slots d2) (user_queue d2) us'"
      using u(4,5) by (auto simp: d2_def d1_def is_queue_same [OF nx])
    then show ?thesis using l u(6-8) unfolding ready_lists_def deliver_rest at(1) by (auto simp: at)
  qed
  ultimately show ?thesis using g(1) at(1) u(7,8) by (auto simp: d' dispatcher_ok_def)
qed

lemma cancel_ok:
  assumes ok: "dispatcher_ok d"
  shows "dispatcher_ok (snd (cancel_queued ticket d))"
proof (cases "\<exists>i. first_slot (\<lambda>s. sl_state s \<noteq> SlotFree \<and> sl_ticket s = ticket) d = Some i \<and> state_at d i = SlotQueued")
  case True
  moreover obtain cs us where "ready_lists d cs us" using ok by (auto simp: dispatcher_ok_def)
  ultimately show ?thesis using cancel_step [OF ok] by blast
next
  case False
  then show ?thesis using ok by (auto simp: cancel_queued_def Let_def split: option.splits)
qed

text \<open>A slot is given back: a reservation that was abandoned, or a completion that was acknowledged.\<close>

lemma release_ok:
  assumes len: "nslots d = 256" and acc: "accounted d" and tick: "ticketed d" and work: "worker_ok d" and l: "ready_lists d cs us"
    and i: "i < nslots d" "state_at d i = SlotReserved \<or> state_at d i = SlotCompleted" "worker d \<noteq> WorkerDelivering i"
    and del: "\<And>p x. map_of (routes d) p = Some x \<Longrightarrow> port_ok x (posted d p - {i})"
  shows "dispatcher_ok (release_slot i d)"
proof -
  obtain p x where p: "port_at d i = Some p" "map_of (routes d) p = Some x"
    using acc i by (fastforce simp: accounted_def)
  let ?d = "release_slot i d" and ?s = "(slots d ! i)\<lparr>sl_job := None, sl_port := None, sl_state := SlotFree\<rparr>"
  have d': "slots ?d = (slots d)[i := ?s]" "routes ?d = um_modify p (\<lambda>x. x\<lparr>po_outstanding := po_outstanding x - 1\<rparr>) (routes d)"
      "used ?d = used d - 1" "ordinary_used ?d = (if sl_control (slots d ! i) then ordinary_used d else ordinary_used d - 1)"
      "next_ticket ?d = next_ticket d" "next_owner ?d = next_owner d" "worker ?d = worker d"
      "control_queue ?d = control_queue d" "user_queue ?d = user_queue d"
    by (simp_all add: release_slot_def Let_def p(1) upd_port_def)
  have at: "nslots ?d = nslots d" "\<And>k. k < nslots d \<Longrightarrow> slots ?d ! k = (if k = i then ?s else slots d ! k)"
    using i(1) by (auto simp: d' nth_list_update)
  have nf: "state_at d i \<noteq> SlotFree" using i(2) by auto
  have "accounted ?d"
  proof -
    have c: "count_slots P (slots ?d) + (if P (slots d ! i) then 1 else 0) = count_slots P (slots d) + (if P ?s then 1 else 0)" for P
      unfolding d'(1) by (rule count_slots_upd [OF i(1)])
    have u: "used ?d = count_slots (\<lambda>s. sl_state s \<noteq> SlotFree) (slots ?d)"
      using c [of "\<lambda>s. sl_state s \<noteq> SlotFree"] acc nf by (simp add: d'(3) accounted_def)
    have o: "ordinary_used ?d = count_slots (\<lambda>s. sl_state s \<noteq> SlotFree \<and> \<not> sl_control s) (slots ?d)"
      using c [of "\<lambda>s. sl_state s \<noteq> SlotFree \<and> \<not> sl_control s"] acc nf
      by (cases "sl_control (slots d ! i)") (simp_all add: d'(4) accounted_def)
    have o2: "ordinary_used ?d \<le> 224" using acc unfolding d'(4) accounted_def by auto
    have r: "po_outstanding y = count_slots (\<lambda>s. sl_port s = Some q) (slots ?d) \<and> q < next_owner d"
      if "map_of (routes ?d) q = Some y" for q y
    proof (cases "q = p")
      case True
      then have y: "y = x\<lparr>po_outstanding := po_outstanding x - 1\<rparr>" using that p(2) by (simp add: d'(2) um.lookup_modify)
      show ?thesis using c [of "\<lambda>s. sl_port s = Some p"] acc p by (simp add: y True accounted_def)
    next
      case False
      then have "map_of (routes d) q = Some y" using that by (simp add: d'(2) um.lookup_modify)
      then show ?thesis using c [of "\<lambda>s. sl_port s = Some q"] acc p(1) False by (simp add: accounted_def)
    qed
    have s1: "\<forall>k < nslots d. state_at ?d k = SlotFree \<longleftrightarrow> port_at ?d k = None" using acc by (simp add: at accounted_def)
    have s2: "\<forall>k < nslots d. \<forall>q. port_at ?d k = Some q \<longrightarrow> map_of (routes ?d) q \<noteq> None"
      using acc by (auto simp: at accounted_def d'(2) um.lookup_modify)
    have "um_ok (routes ?d)" using acc by (simp add: d'(2) accounted_def um.ok_modify)
    with u o o2 r s1 s2 show ?thesis unfolding accounted_def d'(6) at(1) by blast
  qed
  moreover have "ticketed ?d"
    using tick i unfolding ticketed_def at(1) d'(5) by (auto simp: at(2))
  moreover have "worker_ok ?d" using work i unfolding worker_ok_def at(1) d'(7) by (auto simp: at(2))
  moreover have "ready_lists ?d cs us"
    using l i unfolding ready_lists_def at(1) d'(8,9) by (auto simp: at(2)) (simp_all add: d'(1) is_queue_same)
  moreover have "delivered_ok ?d"
  proof -
    have "posted ?d q = posted d q - {i}" for q by (auto simp: posted_def at d'(7) split: if_splits)
    then show ?thesis
      using del by (auto simp: delivered_ok_def d'(2) um.lookup_modify split: if_splits)
  qed
  ultimately show ?thesis using len at(1) by (auto simp: dispatcher_ok_def)
qed

lemma abandon_ok:
  assumes ok: "dispatcher_ok d"
  shows "dispatcher_ok (snd (abandon ticket d))"
proof (cases "locate ticket d")
  case (Inr i)
  have g: "nslots d = 256" "accounted d" "ticketed d" "worker_ok d" "delivered_ok d" using ok by (simp_all add: dispatcher_ok_def)
  obtain cs us where l: "ready_lists d cs us" using ok by (auto simp: dispatcher_ok_def)
  show ?thesis
  proof (cases "state_at d i = SlotReserved")
    case True
    have "posted d p - {i} = posted d p" for p using True by (auto simp: posted_def)
    then have "port_ok x (posted d p - {i})" if "map_of (routes d) p = Some x" for p x
      using g(5) that by (simp add: delivered_ok_def)
    moreover have "worker d \<noteq> WorkerDelivering i" using g(4) True by (auto simp: worker_ok_def)
    ultimately show ?thesis using release_ok [OF g(1-4) l locate_Inr(1) [OF Inr]] True by (simp add: abandon_def Inr)
  qed (use ok Inr in \<open>simp add: abandon_def\<close>)
qed (use ok in \<open>simp add: abandon_def\<close>)

lemma upd_port_rest [simp]:
  "slots (upd_port p f d) = slots d" "used (upd_port p f d) = used d" "ordinary_used (upd_port p f d) = ordinary_used d"
  "next_ticket (upd_port p f d) = next_ticket d" "next_owner (upd_port p f d) = next_owner d"
  "control_queue (upd_port p f d) = control_queue d" "user_queue (upd_port p f d) = user_queue d"
  "worker (upd_port p f d) = worker d" "stopping (upd_port p f d) = stopping d" "routes (upd_port p f d) = um_modify p f (routes d)"
  by (simp_all add: upd_port_def)

lemma acknowledge_ok:
  assumes ok: "dispatcher_ok d"
  shows "dispatcher_ok (snd (acknowledge p ticket d))"
proof -
  have g: "nslots d = 256" "accounted d" "ticketed d" "worker_ok d" "delivered_ok d" using ok by (simp_all add: dispatcher_ok_def)
  obtain cs us where l: "ready_lists d cs us" using ok by (auto simp: dispatcher_ok_def)
  show ?thesis
  proof (cases "\<exists>port i. map_of (routes d) p = Some port \<and> locate ticket d = success i \<and> po_count port \<noteq> 0 \<and>
      po_completions port ! po_head port = i \<and> port_at d i = Some p")
    case False
    then have "snd (acknowledge p ticket d) = d"
      by (auto simp: acknowledge_def validate_route_def split: option.splits sum.splits)
    with ok show ?thesis by simp
  next
    case True
    then obtain port i where a: "map_of (routes d) p = Some port" "locate ticket d = success i" "0 < po_count port"
        "po_completions port ! po_head port = i" "port_at d i = Some p" by auto
    define f where "f = (\<lambda>x :: CompletionPort. x\<lparr>po_head := (po_head x + 1) mod 256, po_count := po_count x - 1\<rparr>)"
    let ?d = "upd_port p f d"
    have k: "port_ok port (posted d p)" using g(5) a(1) by (simp add: delivered_ok_def)
    then obtain ms where h: "mailbox port = i # ms" using mailbox_take(2) [OF a(3)] a(4) by (auto simp: port_ok_def)
    then have i: "i < nslots d" "state_at d i = SlotCompleted" "worker d \<noteq> WorkerDelivering i"
      using k by (auto simp: port_ok_def posted_def)
    have new: "port_ok (f port) (posted d p - {i})"
    proof -
      have m: "mailbox (f port) = ms" unfolding f_def mailbox_take(1) [OF a(3)] h by simp
      have "distinct (i # ms)" "set (i # ms) = posted d p" using k h by (simp_all add: port_ok_def)
      then have "distinct ms" "set ms = posted d p - {i}" by auto
      moreover have "length (po_completions (f port)) = 256" "po_head (f port) < 256" "po_count (f port) \<le> 256"
        using k by (auto simp: port_ok_def f_def)
      ultimately show ?thesis by (simp add: port_ok_def m)
    qed
    have "accounted ?d"
      using g(2) a(1) by (auto simp: accounted_def um.lookup_modify um.ok_modify f_def)
    moreover have "ticketed ?d" "worker_ok ?d" "ready_lists ?d cs us" using g(3,4) l by (simp_all add: ticketed_def worker_ok_def ready_lists_def)
    moreover have "port_ok x (posted ?d q - {i})" if "map_of (routes ?d) q = Some x" for q x
    proof -
      have same: "posted ?d q = posted d q" by (simp add: posted_def)
      show ?thesis
      proof (cases "q = p")
        case True
        with that a(1) new same show ?thesis by (simp add: um.lookup_modify)
      next
        case False
        then have "posted d q - {i} = posted d q" using a(5) by (auto simp: posted_def)
        then show ?thesis using that False g(5) same by (simp add: um.lookup_modify delivered_ok_def)
      qed
    qed
    ultimately have "dispatcher_ok (release_slot i ?d)"
      using i g(1) by (intro release_ok) (auto simp: upd_port_rest)
    moreover have "snd (acknowledge p ticket d) = release_slot i ?d"
      using a by (simp add: acknowledge_def validate_route_def f_def)
    ultimately show ?thesis by simp
  qed
qed

lemma reserve_ticket_ok:
  assumes ok: "dispatcher_ok d"
  shows "dispatcher_ok (snd (reserve_ticket p c control d))"
proof -
  have g: "nslots d = 256" "accounted d" "ticketed d" "worker_ok d" "delivered_ok d" using ok by (simp_all add: dispatcher_ok_def)
  show ?thesis
  proof (cases "snd (reserve_ticket p c control d) = d")
    case False
    then obtain port i where a: "map_of (routes d) p = Some port" "first_slot (\<lambda>s. sl_state s = SlotFree) d = Some i"
        "next_ticket d \<noteq> ticket_max" "control \<or> ordinary_used d \<noteq> 224"
      by (auto simp: reserve_ticket_def validate_route_def split: option.splits sum.splits if_splits)
    let ?d = "snd (reserve_ticket p c control d)"
    let ?s = "(slots d ! i)\<lparr>sl_ticket := next_ticket d, sl_state := SlotReserved, sl_control := control,
       sl_priority := prioritised (job_kind c), sl_retries := 0, sl_completion := c\<lparr>executor_id := p\<rparr>, sl_port := Some p\<rparr>"
    have i: "i < nslots d" "state_at d i = SlotFree" using first_slot_Some [OF a(2)] by simp_all
    have d': "slots ?d = (slots d)[i := ?s]" "routes ?d = um_modify p (\<lambda>x. x\<lparr>po_outstanding := po_outstanding x + 1\<rparr>) (routes d)"
        "used ?d = used d + 1" "ordinary_used ?d = (if control then ordinary_used d else ordinary_used d + 1)"
        "next_ticket ?d = next_ticket d + 1" "next_owner ?d = next_owner d" "worker ?d = worker d"
        "control_queue ?d = control_queue d" "user_queue ?d = user_queue d"
      using False a(1,2) by (auto simp: reserve_ticket_def validate_route_def split: if_splits)
    have at: "nslots ?d = nslots d" "\<And>k. k < nslots d \<Longrightarrow> slots ?d ! k = (if k = i then ?s else slots d ! k)"
      using i(1) by (auto simp: d' nth_list_update)
    have np: "port_at d i = None" using g(2) i by (auto simp: accounted_def)
    have "accounted ?d"
    proof -
      have c: "count_slots P (slots ?d) + (if P (slots d ! i) then 1 else 0) = count_slots P (slots d) + (if P ?s then 1 else 0)" for P
        unfolding d'(1) by (rule count_slots_upd [OF i(1)])
      have u: "used ?d = count_slots (\<lambda>s. sl_state s \<noteq> SlotFree) (slots ?d)"
        using c [of "\<lambda>s. sl_state s \<noteq> SlotFree"] g(2) i(2) by (simp add: d'(3) accounted_def)
      have o: "ordinary_used ?d = count_slots (\<lambda>s. sl_state s \<noteq> SlotFree \<and> \<not> sl_control s) (slots ?d)"
        unfolding d'(4) using c [of "\<lambda>s. sl_state s \<noteq> SlotFree \<and> \<not> sl_control s"] g(2) i(2)
        by (cases control) (simp_all add: accounted_def)
      have o2: "ordinary_used ?d \<le> 224" using g(2) a(4) by (auto simp: d'(4) accounted_def)
      have r: "po_outstanding y = count_slots (\<lambda>s. sl_port s = Some q) (slots ?d) \<and> q < next_owner d"
        if "map_of (routes ?d) q = Some y" for q y
      proof (cases "q = p")
        case True
        then have y: "y = port\<lparr>po_outstanding := po_outstanding port + 1\<rparr>" using that a(1) by (simp add: d'(2) um.lookup_modify)
        show ?thesis using c [of "\<lambda>s. sl_port s = Some p"] g(2) a(1) np by (simp add: y True accounted_def)
      next
        case False
        then have "map_of (routes d) q = Some y" using that by (simp add: d'(2) um.lookup_modify)
        then show ?thesis using c [of "\<lambda>s. sl_port s = Some q"] g(2) np False by (simp add: accounted_def)
      qed
      have s1: "\<forall>k < nslots d. state_at ?d k = SlotFree \<longleftrightarrow> port_at ?d k = None" using g(2) by (simp add: at accounted_def)
      have s2: "\<forall>k < nslots d. \<forall>q. port_at ?d k = Some q \<longrightarrow> map_of (routes ?d) q \<noteq> None"
        using g(2) a(1) by (auto simp: at accounted_def d'(2) um.lookup_modify)
      have "um_ok (routes ?d)" using g(2) by (simp add: d'(2) accounted_def um.ok_modify)
      with u o o2 r s1 s2 show ?thesis unfolding accounted_def d'(6) at(1) by blast
    qed
    moreover have "ticketed ?d"
    proof -
      have "next_ticket d + 1 \<le> ticket_max" using g(3) a(3) by (simp add: ticketed_def)
      moreover have "sl_ticket (slots d ! k) \<noteq> next_ticket d" if "k < nslots d" "state_at d k \<noteq> SlotFree" for k
        using g(3) that by (auto simp: ticketed_def)
      ultimately show ?thesis
        using g(3) i unfolding ticketed_def at(1) d'(5) by (auto simp: at(2) less_Suc_eq)
    qed
    moreover have "worker_ok ?d" using g(4) i unfolding worker_ok_def at(1) d'(7) by (auto simp: at(2))
    moreover have "\<exists>cs us. ready_lists ?d cs us"
    proof -
      obtain cs us where l: "ready_lists d cs us" using ok by (auto simp: dispatcher_ok_def)
      have "ready_lists ?d cs us"
        using l i unfolding ready_lists_def at(1) d'(8,9) by (auto simp: at(2)) (simp_all add: d'(1) is_queue_same)
      then show ?thesis by blast
    qed
    moreover have "delivered_ok ?d"
    proof -
      have "posted ?d q = posted d q" for q using i by (auto simp: posted_def at d'(7) split: if_splits)
      then show ?thesis
        using g(5) a(1) by (auto simp: delivered_ok_def d'(2) um.lookup_modify split: if_splits)
    qed
    ultimately show ?thesis using g(1) at(1) by (simp add: dispatcher_ok_def)
  qed (simp add: ok)
qed

lemma routes_ok:
  assumes ok: "dispatcher_ok d"
  shows "dispatcher_ok (snd (open_route d))" "dispatcher_ok (snd (stop_route p d))" "dispatcher_ok (snd (retire_route p d))"
    "dispatcher_ok (d\<lparr>stopping := True\<rparr>)"
proof -
  have g: "nslots d = 256" "accounted d" "ticketed d" "worker_ok d" "delivered_ok d" using ok by (simp_all add: dispatcher_ok_def)
  obtain cs us where l: "ready_lists d cs us" using ok by (auto simp: dispatcher_ok_def)
  have keep: "dispatcher_ok (d\<lparr>routes := rs, next_owner := n\<rparr>)"
    if "accounted (d\<lparr>routes := rs, next_owner := n\<rparr>)" "\<And>q x. map_of rs q = Some x \<Longrightarrow> port_ok x (posted d q)" for rs n
  proof -
    have "posted (d\<lparr>routes := rs, next_owner := n\<rparr>) q = posted d q" for q by (simp add: posted_def)
    then have "delivered_ok (d\<lparr>routes := rs, next_owner := n\<rparr>)" using that(2) by (simp add: delivered_ok_def)
    moreover have "ticketed (d\<lparr>routes := rs, next_owner := n\<rparr>)" "worker_ok (d\<lparr>routes := rs, next_owner := n\<rparr>)"
      "ready_lists (d\<lparr>routes := rs, next_owner := n\<rparr>) cs us"
      using g(3,4) l by (simp_all add: ticketed_def worker_ok_def ready_lists_def)
    ultimately show ?thesis using that(1) g(1) by (auto simp: dispatcher_ok_def)
  qed
  show "dispatcher_ok (snd (open_route d))"
  proof (cases "stopping d \<or> next_owner d = u64_max")
    case False
    let ?n = "next_owner d" and ?rs = "um_emplace (next_owner d) new_port (routes d)"
    have new: "map_of (routes d) ?n = None"
      using g(2) by (cases "map_of (routes d) ?n") (auto simp: accounted_def)
    have none: "port_at d k \<noteq> Some ?n" if "k < nslots d" for k using g(2) new that by (auto simp: accounted_def)
    have "filter (\<lambda>s. sl_port s = Some ?n) (slots d) = []"
      using none by (auto simp: filter_empty_conv in_set_conv_nth)
    then have zero: "count_slots (\<lambda>s. sl_port s = Some ?n) (slots d) = 0" by (simp add: count_slots_def)
    have inc: "unat (?n + 1) = unat ?n + 1" using False by (simp add: u64_inc_nonzero)
    have lt: "q < ?n + 1" if "q < ?n \<or> q = ?n" for q using that inc by (auto simp: word_less_nat_alt)
    have "accounted (d\<lparr>routes := ?rs, next_owner := ?n + 1\<rparr>)"
      using g(2) new zero lt
      by (auto simp: accounted_def um.lookup_emplace um.ok_emplace new_port_def split: if_splits)
    moreover have "port_ok x (posted d q)" if "map_of ?rs q = Some x" for q x
    proof (cases "q = ?n")
      case True
      have "posted d ?n = {}" using none by (auto simp: posted_def)
      then show ?thesis using that new True by (auto simp: um.lookup_emplace port_ok_def new_port_def mailbox_def)
    next
      case False
      then show ?thesis using that g(5) by (simp add: um.lookup_emplace delivered_ok_def)
    qed
    ultimately show ?thesis using keep [where rs = ?rs and n = "?n + 1"] False by (simp add: open_route_def)
  qed (use ok in \<open>auto simp: open_route_def\<close>)
  show "dispatcher_ok (snd (stop_route p d))"
  proof (cases "map_of (routes d) p")
    case (Some port)
    let ?rs = "um_modify p (\<lambda>x. x\<lparr>po_accepting := False\<rparr>) (routes d)"
    have "accounted (d\<lparr>routes := ?rs, next_owner := next_owner d\<rparr>)"
      using g(2) by (auto simp: accounted_def um.lookup_modify um.ok_modify)
    moreover have "port_ok x (posted d q)" if "map_of ?rs q = Some x" for q x
      using that g(5) by (auto simp: um.lookup_modify delivered_ok_def split: if_splits)
    ultimately have "dispatcher_ok (d\<lparr>routes := ?rs, next_owner := next_owner d\<rparr>)" by (rule keep)
    moreover have "snd (stop_route p d) = d\<lparr>routes := ?rs, next_owner := next_owner d\<rparr>"
      using Some by (simp add: stop_route_def validate_route_def upd_port_def)
    ultimately show ?thesis by simp
  qed (use ok in \<open>simp add: stop_route_def validate_route_def\<close>)
  show "dispatcher_ok (snd (retire_route p d))"
  proof (cases "\<exists>port. map_of (routes d) p = Some port \<and> po_outstanding port = 0 \<and> po_count port = 0")
    case True
    then obtain port where port: "map_of (routes d) p = Some port" "po_outstanding port = 0" "po_count port = 0" by blast
    let ?rs = "um_erase p (routes d)"
    have "count_slots (\<lambda>s. sl_port s = Some p) (slots d) = 0" using g(2) port by (auto simp: accounted_def)
    then have none: "port_at d k \<noteq> Some p" if "k < nslots d" for k
      using count_pos [of k "slots d" "\<lambda>s. sl_port s = Some p"] that by auto
    have "accounted (d\<lparr>routes := ?rs, next_owner := next_owner d\<rparr>)"
      using g(2) none by (auto simp: accounted_def um.lookup_erase um.ok_erase)
    moreover have "port_ok x (posted d q)" if "map_of ?rs q = Some x" for q x
      using that g(5) by (auto simp: um.lookup_erase delivered_ok_def split: if_splits)
    moreover have "d\<lparr>routes := ?rs, next_owner := next_owner d\<rparr> = d\<lparr>routes := ?rs\<rparr>" by simp
    ultimately show ?thesis using keep [where rs = ?rs and n = "next_owner d"] port by (simp add: retire_route_def validate_route_def)
  qed (use ok in \<open>auto simp: retire_route_def validate_route_def split: option.splits\<close>)
  have "posted (d\<lparr>stopping := True\<rparr>) q = posted d q" for q by (simp add: posted_def)
  then have "delivered_ok (d\<lparr>stopping := True\<rparr>)" using g(5) by (simp add: delivered_ok_def)
  moreover have "accounted (d\<lparr>stopping := True\<rparr>)" using g(2) unfolding accounted_def by simp
  moreover have "ready_lists (d\<lparr>stopping := True\<rparr>) cs us" using l unfolding ready_lists_def by simp
  moreover have "ticketed (d\<lparr>stopping := True\<rparr>)" using g(3) unfolding ticketed_def by simp
  moreover have "worker_ok (d\<lparr>stopping := True\<rparr>)" using g(4) unfolding worker_ok_def by simp
  ultimately show "dispatcher_ok (d\<lparr>stopping := True\<rparr>)" using g(1) by (auto simp: dispatcher_ok_def)
qed

end
