(* ===== verification/DispatcherRuns.thy ===== *)
theory DispatcherRuns
  imports NativeIo
begin

text \<open>
  Runs of the dispatcher of NativeIo: every sequence of calls, worker steps and deliveries. What
  executors rely on holds in every state a run reaches: capacity kept for control, mailboxes that
  do not overflow, queues that are first in first out, and an end that leaves nothing behind.
\<close>

section \<open>Runs of the dispatcher\<close>

text \<open>
  What threads do to the dispatcher, one critical section at a time. \<open>Amend\<close> is the owner of a
  request filling in its job, which the reserved slot shares.
\<close>

datatype DispOp = OpenRoute | StopRoute u64 | RetireRoute u64 | Reserve u64 CompletionRecord bool | Install nat NativeJob
  | Amend nat bool | Enqueue nat | CancelQueued nat | Abandon nat | Acknowledge u64 nat
  | PickJob int | RunJob JobEnv | DeliverJob | ShutDown | Destroy

definition set_discard :: "bool \<Rightarrow> NativeJob \<Rightarrow> NativeJob" where
  "set_discard b j = (case j of DeliveryJob dl \<Rightarrow> DeliveryJob (dl\<lparr>dl_discard := b\<rparr>) | _ \<Rightarrow> j)"

definition amend :: "nat \<Rightarrow> bool \<Rightarrow> Dispatcher \<Rightarrow> Dispatcher" where
  "amend ticket b d = (case locate ticket d of
       Inl _ \<Rightarrow> d
     | Inr i \<Rightarrow> upd_slot i (\<lambda>s. s\<lparr>sl_job := map_option (set_discard b) (sl_job s)\<rparr>) d)"

fun disp_exec :: "DispOp \<Rightarrow> Dispatcher \<Rightarrow> Dispatcher" where
  "disp_exec OpenRoute d = snd (open_route d)"
| "disp_exec (StopRoute p) d = snd (stop_route p d)"
| "disp_exec (RetireRoute p) d = snd (retire_route p d)"
| "disp_exec (Reserve p c control) d = snd (reserve_ticket p c control d)"
| "disp_exec (Install t j) d = snd (install t j d)"
| "disp_exec (Amend t b) d = amend t b d"
| "disp_exec (Enqueue t) d = snd (enqueue_prepared t d)"
| "disp_exec (CancelQueued t) d = snd (cancel_queued t d)"
| "disp_exec (Abandon t) d = snd (abandon t d)"
| "disp_exec (Acknowledge p t) d = snd (acknowledge p t d)"
| "disp_exec (PickJob now) d = worker_pick now d"
| "disp_exec (RunJob v) d = worker_run v d"
| "disp_exec DeliverJob d = worker_deliver d"
| "disp_exec ShutDown d = snd (shutdown_dispatcher d)"
| "disp_exec Destroy d = destroy_dispatcher d"

definition disp_run :: "DispOp list \<Rightarrow> Dispatcher \<Rightarrow> Dispatcher" where
  "disp_run ops d = foldl (\<lambda>d op. disp_exec op d) d ops"

lemma new_dispatcher_ok: "dispatcher_ok new_dispatcher"
proof -
  have at: "slots new_dispatcher ! i = empty_slot" if "i < 256" for i using that by (simp add: new_dispatcher_def)
  have len: "nslots new_dispatcher = 256" by (simp add: new_dispatcher_def)
  have c: "count_slots P (slots new_dispatcher) = 0" if "\<not> P empty_slot" for P
    using that by (simp add: count_slots_def new_dispatcher_def)
  have "ready_lists new_dispatcher [] []"
    by (auto simp: ready_lists_def is_queue_def len at empty_slot_def) (simp_all add: new_dispatcher_def)
  moreover have "accounted new_dispatcher"
    using at c by (simp add: accounted_def len empty_slot_def) (simp add: new_dispatcher_def um_ok_def)
  moreover have "ticketed new_dispatcher"
    using at by (simp add: ticketed_def len empty_slot_def) (simp add: new_dispatcher_def ticket_max_def)
  moreover have "worker_ok new_dispatcher"
    using at by (simp add: worker_ok_def len empty_slot_def) (simp add: new_dispatcher_def)
  moreover have "delivered_ok new_dispatcher" by (simp add: delivered_ok_def new_dispatcher_def)
  ultimately show ?thesis by (auto simp: dispatcher_ok_def len)
qed

lemma amend_ok:
  assumes ok: "dispatcher_ok d"
  shows "dispatcher_ok (amend t b d)"
proof (cases "locate t d")
  case (Inr i)
  show ?thesis using job_change_ok [OF ok locate_Inr(1) [OF Inr], of "map_option (set_discard b)"] Inr by (simp add: amend_def)
qed (use ok in \<open>simp add: amend_def\<close>)

lemma disp_exec_ok: "dispatcher_ok d \<Longrightarrow> dispatcher_ok (disp_exec op d)"
  by (cases op)
    (simp_all add: routes_ok reserve_ticket_ok install_ok amend_ok enqueue_ok cancel_ok abandon_ok acknowledge_ok pick_ok run_ok
      worker_deliver_ok shutdown_dispatcher_def destroy_dispatcher_def)

lemma disp_run_ok: "dispatcher_ok d \<Longrightarrow> dispatcher_ok (disp_run ops d)"
  by (induction ops arbitrary: d) (simp_all add: disp_run_def disp_exec_ok)

lemma reached_ok: "dispatcher_ok (disp_run ops new_dispatcher)"
  by (simp add: disp_run_ok new_dispatcher_ok)


section \<open>Capacity and mailboxes\<close>

lemma count_card: "count_slots P ss = card {i. i < length ss \<and> P (ss ! i)}"
  by (simp add: count_slots_def length_filter_conv_card)

definition control_used :: "Dispatcher \<Rightarrow> nat" where
  "control_used d = count_slots (\<lambda>s. sl_state s \<noteq> SlotFree \<and> sl_control s) (slots d)"

lemma count_split: "count_slots P ss = count_slots (\<lambda>s. P s \<and> \<not> Q s) ss + count_slots (\<lambda>s. P s \<and> Q s) ss"
  by (induction ss) (auto simp: count_slots_def)

lemma used_split: "accounted d \<Longrightarrow> used d = ordinary_used d + control_used d"
  by (simp add: accounted_def control_used_def count_split [of "\<lambda>s. sl_state s \<noteq> SlotFree" _ sl_control])

lemma free_slot:
  assumes "accounted d" "used d < nslots d"
  obtains i where "first_slot (\<lambda>s. sl_state s = SlotFree) d = Some i"
proof (cases "first_slot (\<lambda>s. sl_state s = SlotFree) d")
  case None
  then have "{i. i < nslots d \<and> state_at d i \<noteq> SlotFree} = {..<nslots d}" by (auto simp: first_slot_None)
  then have "used d = nslots d" using assms(1) by (simp add: accounted_def count_card)
  then show thesis using assms(2) by simp
qed

text \<open>
  C36. Capacity for control is never taken by user work: whatever has happened, while fewer than 32
  control tickets are held_job, a Goal or Cancel transaction on an open route of a running dispatcher
  gets a ticket.
\<close>

theorem control_capacity_kept:
  assumes "d = disp_run ops new_dispatcher" "map_of (routes d) p = Some x" "\<not> stopping d" "next_ticket d \<noteq> ticket_max"
    "control_used d < 32" "job_kind c = KGoalResponse \<or> job_kind c = KCancelResponse"
  shows "fst (reserve_ticket p c True d) = success (next_ticket d)"
proof -
  have ok: "nslots d = 256" "accounted d" using reached_ok [of ops] assms(1) by (simp_all add: dispatcher_ok_def)
  then have "used d < nslots d" using used_split [OF ok(2)] assms(5) by (simp add: accounted_def)
  from free_slot [OF ok(2) this] obtain i where "first_slot (\<lambda>s. sl_state s = SlotFree) d = Some i" .
  with assms \<open>used d < nslots d\<close> show ?thesis by (auto simp: reserve_ticket_def validate_route_def)
qed

lemma control_capacity_kept_witness:
  "fst (reserve_ticket 1 (empty_completion\<lparr>job_kind := KGoalResponse\<rparr>) True (disp_run [OpenRoute] new_dispatcher)) = success 1"
proof -
  have d: "disp_run [OpenRoute] new_dispatcher = new_dispatcher\<lparr>routes := um_emplace 1 new_port [], next_owner := 2\<rparr>"
    by (simp add: disp_run_def open_route_def) (simp add: new_dispatcher_def u64_max_def)
  have "control_used (disp_run [OpenRoute] new_dispatcher) = 0"
    by (simp add: d control_used_def count_slots_def) (simp add: new_dispatcher_def empty_slot_def)
  moreover have "map_of (routes (disp_run [OpenRoute] new_dispatcher)) 1 = Some new_port"
    by (simp add: d um.lookup_emplace)
  ultimately show ?thesis
    using control_capacity_kept [OF refl, of "[OpenRoute]" 1 new_port "empty_completion\<lparr>job_kind := KGoalResponse\<rparr>"]
    by (simp add: d) (simp add: new_dispatcher_def ticket_max_def)
qed

text \<open>The slots of a port that are on their way into its mailbox.\<close>

definition on_the_way :: "Dispatcher \<Rightarrow> u64 \<Rightarrow> nat" where
  "on_the_way d p = (case worker d of WorkerDelivering i \<Rightarrow> if sl_port (slots d ! i) = Some p then 1 else 0 | _ \<Rightarrow> 0)"

lemma mailbox_bound:
  assumes ok: "dispatcher_ok d" and x: "map_of (routes d) p = Some x"
  shows "po_count x + on_the_way d p \<le> po_outstanding x" "po_outstanding x \<le> 256" "length (mailbox x) = po_count x"
proof -
  let ?all = "{i. i < nslots d \<and> port_at d i = Some p}"
  have port: "port_ok x (posted d p)" using ok x by (simp add: dispatcher_ok_def delivered_ok_def)
  have all: "po_outstanding x = card ?all" using ok x by (simp add: dispatcher_ok_def accounted_def count_card)
  show "length (mailbox x) = po_count x" by (simp add: mailbox_def)
  then have count: "po_count x = card (posted d p)" using port by (metis port_ok_def distinct_card)
  have fin: "finite ?all" by simp
  have "card ?all \<le> card {..<nslots d}" by (rule card_mono) auto
  then show "po_outstanding x \<le> 256" using ok by (simp add: all dispatcher_ok_def)
  show "po_count x + on_the_way d p \<le> po_outstanding x"
  proof (cases "\<exists>i. worker d = WorkerDelivering i \<and> port_at d i = Some p")
    case True
    then obtain i where i: "worker d = WorkerDelivering i" "port_at d i = Some p" by blast
    then have "i < nslots d" using ok by (auto simp: dispatcher_ok_def worker_ok_def)
    then have "insert i (posted d p) \<subseteq> ?all" using i(2) by (auto simp: posted_def)
    then have "card (insert i (posted d p)) \<le> card ?all" using fin by (intro card_mono)
    moreover have "\<not> i \<in> posted d p" "finite (posted d p)" using i(1) by (auto simp: posted_def)
    ultimately show ?thesis using i by (simp add: count all on_the_way_def)
  next
    case False
    have "posted d p \<subseteq> ?all" by (auto simp: posted_def)
    then have "card (posted d p) \<le> card ?all" using fin by (intro card_mono)
    moreover have "on_the_way d p = 0" using False by (auto simp: on_the_way_def split: WorkerPc.splits)
    ultimately show ?thesis by (simp add: count all)
  qed
qed

text \<open>
  C15. The mailbox ring never overflows: with what is on its way it holds no more completions than its
  port has tickets out, which are 256 at most, and it holds each completed slot of the port once.
\<close>

theorem mailbox_never_overflows:
  assumes "d = disp_run ops new_dispatcher" "map_of (routes d) p = Some x"
  shows "po_count x + on_the_way d p \<le> po_outstanding x \<and> po_outstanding x \<le> 256 \<and> length (mailbox x) = po_count x \<and>
    distinct (mailbox x) \<and> set (mailbox x) = posted d p"
proof -
  have ok: "dispatcher_ok d" using reached_ok [of ops] assms(1) by simp
  then have "port_ok x (posted d p)" using assms(2) by (simp add: dispatcher_ok_def delivered_ok_def)
  then show ?thesis using mailbox_bound [OF ok assms(2)] by (simp add: port_ok_def)
qed

lemma mailbox_never_overflows_witness:
  "\<exists>x. map_of (routes (disp_run [OpenRoute] new_dispatcher)) 1 = Some x \<and> po_count x \<le> po_outstanding x \<and> distinct (mailbox x)"
proof -
  have "map_of (routes (disp_run [OpenRoute] new_dispatcher)) 1 = Some new_port"
    by (simp add: disp_run_def open_route_def) (simp add: new_dispatcher_def u64_max_def um.lookup_emplace)
  with mailbox_never_overflows [OF refl this] show ?thesis by auto
qed

text \<open>
  C11. In every state that calls and the worker can reach the dispatcher is consistent: its counters
  count the slots, the two intrusive queues hold exactly the queued slots, tickets tell slots apart,
  the worker has at most one of them, and every completion is in the mailbox of its port once.
\<close>

theorem dispatcher_stays_ok:
  "dispatcher_ok (disp_run ops new_dispatcher)"
  by (simp add: disp_run_ok new_dispatcher_ok)

text \<open>The ticket at the head of the mailbox.\<close>

lemma peek_head:
  assumes ok: "dispatcher_ok d" and peek: "peek p d = success (Some (t, c))"
  obtains x i where "map_of (routes d) p = Some x" "0 < po_count x" "po_completions x ! po_head x = i" "i \<in> posted d p"
    "mailbox x = i # tl (mailbox x)" "sl_ticket (slots d ! i) = t" "sl_completion (slots d ! i) = c"
proof -
  obtain x where x: "map_of (routes d) p = Some x" "po_count x \<noteq> 0"
      "sl_ticket (slots d ! (po_completions x ! po_head x)) = t" "sl_completion (slots d ! (po_completions x ! po_head x)) = c"
    using peek by (auto simp: peek_def validate_route_def Let_def split: option.splits sum.splits if_splits)
  have k: "port_ok x (posted d p)" using ok x(1) by (simp add: dispatcher_ok_def delivered_ok_def)
  then have "mailbox x = (po_completions x ! po_head x) # tl (mailbox x)"
    using mailbox_take(2) [of x] x(2) by (simp add: port_ok_def)
  moreover from this have "po_completions x ! po_head x \<in> posted d p" using k by (metis port_ok_def list.set_intros(1))
  ultimately show thesis using that x by blast
qed

lemma locate_ticket:
  assumes "ticketed d" "i < nslots d" "state_at d i \<noteq> SlotFree"
  shows "locate (sl_ticket (slots d ! i)) d = success i"
proof (cases "first_slot (\<lambda>s. sl_state s \<noteq> SlotFree \<and> sl_ticket s = sl_ticket (slots d ! i)) d")
  case None
  then show ?thesis using assms by (auto simp: first_slot_None)
next
  case (Some k)
  then have "k < nslots d" "state_at d k \<noteq> SlotFree" "sl_ticket (slots d ! k) = sl_ticket (slots d ! i)"
    using first_slot_Some by blast+
  then have "k = i" using assms unfolding ticketed_def by blast
  with Some show ?thesis by (simp add: locate_def)
qed

text \<open>
  What an executor peeks it can acknowledge, and this takes exactly that completion out of its
  mailbox and gives the slot back.
\<close>

theorem peeked_is_acknowledged:
  assumes "d = disp_run ops new_dispatcher" "peek p d = success (Some (t, c))"
  shows "\<exists>x y i d'. acknowledge p t d = (success (), d') \<and> map_of (routes d) p = Some x \<and> map_of (routes d') p = Some y \<and>
    mailbox x = i # mailbox y \<and> sl_completion (slots d ! i) = c \<and> state_at d' i = SlotFree \<and>
    po_outstanding y = po_outstanding x - 1 \<and> used d' = used d - 1"
proof -
  have ok: "dispatcher_ok d" using reached_ok [of ops] assms(1) by simp
  obtain x i where h: "map_of (routes d) p = Some x" "0 < po_count x" "po_completions x ! po_head x = i" "i \<in> posted d p"
      "mailbox x = i # tl (mailbox x)" "sl_ticket (slots d ! i) = t" "sl_completion (slots d ! i) = c"
    by (rule peek_head [OF ok assms(2)])
  have i: "i < nslots d" "state_at d i \<noteq> SlotFree" "port_at d i = Some p" using h(4) by (auto simp: posted_def)
  have loc: "locate t d = success i" using locate_ticket [of d i] i(1,2) ok h(6) by (simp add: dispatcher_ok_def)
  define f where "f = (\<lambda>x :: CompletionPort. x\<lparr>po_head := (po_head x + 1) mod 256, po_count := po_count x - 1\<rparr>)"
  define d' where "d' = release_slot i (upd_port p f d)"
  have "acknowledge p t d = (success (), d')"
    using h i loc by (simp add: acknowledge_def validate_route_def d'_def f_def)
  moreover have "map_of (routes d') p = Some ((f x)\<lparr>po_outstanding := po_outstanding x - 1\<rparr>)"
    using h(1) i by (simp add: d'_def release_slot_def um.lookup_modify f_def upd_port_def Let_def)
  moreover have "mailbox ((f x)\<lparr>po_outstanding := po_outstanding x - 1\<rparr>) = tl (mailbox x)"
    using mailbox_take(1) [OF h(2)] by (simp add: f_def mailbox_def)
  moreover have "state_at d' i = SlotFree" "used d' = used d - 1"
    using i by (simp_all add: d'_def release_slot_def upd_port_def Let_def)
  ultimately show ?thesis using h(1,5,7) by (auto simp: f_def)
qed


text \<open>A send of one executor, reserved, installed, queued, and cancelled in its queue.\<close>

definition one_used :: "Slot \<Rightarrow> Queue \<Rightarrow> CompletionPort \<Rightarrow> Dispatcher" where
  "one_used s q x = \<lparr>slots = s # replicate 255 empty_slot, control_queue = \<lparr>qu_head = 256, qu_tail = 256\<rparr>, user_queue = q,
     routes = [(1, x)], used = 1, ordinary_used = 1, next_ticket = 2, next_owner = 2, stopping = False, worker = WorkerIdle\<rparr>"

definition sending :: Slot where
  "sending = empty_slot\<lparr>sl_ticket := 1, sl_state := SlotReserved, sl_completion := empty_completion\<lparr>executor_id := 1\<rparr>, sl_port := Some 1\<rparr>"

definition held_port :: CompletionPort where "held_port = new_port\<lparr>po_outstanding := 1\<rparr>"

definition no_queue :: Queue where "no_queue = \<lparr>qu_head = 256, qu_tail = 256\<rparr>"

definition send_queued :: "DispOp list" where
  "send_queued = [OpenRoute, Reserve 1 empty_completion False, Install 1 SendJob, Enqueue 1]"

lemma first_slot_0: "P (slots d ! 0) \<Longrightarrow> 0 < nslots d \<Longrightarrow> first_slot P d = Some 0"
  by (simp add: first_slot_def upt_conv_Cons)

lemma replicate_256: "replicate 256 x = x # replicate 255 x"
  using replicate_Suc [of 255 x] by simp

lemma send_reserved: "disp_run [OpenRoute, Reserve 1 empty_completion False] new_dispatcher = one_used sending no_queue held_port"
proof -
  have f: "first_slot (\<lambda>s. sl_state s = SlotFree) d = Some 0" if "slots d = replicate 256 empty_slot" for d
    by (rule first_slot_0) (simp_all add: that replicate_256 empty_slot_def)
  show ?thesis
    by (simp add: disp_run_def open_route_def reserve_ticket_def validate_route_def f new_dispatcher_def u64_max_def ticket_max_def
      um_emplace_def um_modify_def upd_port_def upd_slot_def one_used_def sending_def held_port_def no_queue_def replicate_256
      empty_slot_def empty_completion_def new_port_def prioritised_def)
qed

lemma one_used_locate: "sl_state s \<noteq> SlotFree \<Longrightarrow> sl_ticket s = t \<Longrightarrow> locate t (one_used s q x) = success 0"
  unfolding locate_def by (subst first_slot_0) (simp_all add: one_used_def)

lemma send_queued_run: "disp_run send_queued new_dispatcher =
    one_used (sending\<lparr>sl_state := SlotQueued, sl_job := Some SendJob\<rparr>) \<lparr>qu_head = 0, qu_tail = 0\<rparr> held_port"
proof -
  have i: "disp_exec (Install 1 SendJob) (one_used sending no_queue held_port) =
      one_used (sending\<lparr>sl_job := Some SendJob\<rparr>) no_queue held_port"
    by (simp add: install_def one_used_locate sending_def) (simp add: one_used_def upd_slot_def empty_slot_def)
  have e: "disp_exec (Enqueue 1) (one_used (sending\<lparr>sl_job := Some SendJob\<rparr>) no_queue held_port) =
      one_used (sending\<lparr>sl_state := SlotQueued, sl_job := Some SendJob\<rparr>) \<lparr>qu_head = 0, qu_tail = 0\<rparr> held_port"
    by (simp add: enqueue_prepared_def one_used_locate sending_def)
      (simp add: one_used_def upd_slot_def empty_slot_def set_state_def push_ready_def push_queue_def no_queue_def)
  show ?thesis using send_reserved i e by (simp add: disp_run_def send_queued_def)
qed

lemma send_cancelled: "peek 1 (disp_run (send_queued @ [CancelQueued 1]) new_dispatcher) =
    success (Some (1, empty_completion\<lparr>executor_id := 1, job_skipped := True\<rparr>))"
proof -
  let ?d = "disp_run send_queued new_dispatcher"
  have f: "first_slot (\<lambda>s. sl_state s \<noteq> SlotFree \<and> sl_ticket s = 1) ?d = Some 0"
    unfolding send_queued_run by (rule first_slot_0) (simp_all add: one_used_def sending_def)
  have "disp_exec (CancelQueued 1) ?d = one_used
      (sending\<lparr>sl_state := SlotCompleted, sl_job := Some SendJob, sl_completion := (sl_completion sending)\<lparr>job_skipped := True\<rparr>\<rparr>)
      no_queue (post 0 held_port)"
    using f unfolding send_queued_run
    by (simp add: cancel_queued_def one_used_def sending_def empty_slot_def unlink_def no_queue_def upd_slot_def upd_port_def
      deliver_slot_def um_modify_def)
  moreover have "disp_run (send_queued @ [CancelQueued 1]) new_dispatcher = disp_exec (CancelQueued 1) ?d"
    by (simp add: disp_run_def)
  ultimately show ?thesis
    by (simp add: peek_def validate_route_def one_used_def post_def held_port_def new_port_def sending_def replicate_256)
qed


lemma peeked_is_acknowledged_witness:
  "\<exists>y d'. acknowledge 1 1 (disp_run (send_queued @ [CancelQueued 1]) new_dispatcher) = (success (), d') \<and>
    map_of (routes d') 1 = Some y"
  using peeked_is_acknowledged [OF refl send_cancelled] by blast

section \<open>The ready queues as lists\<close>

fun links :: "nat \<Rightarrow> Slot list \<Rightarrow> nat \<Rightarrow> nat list" where
  "links 0 ss h = []"
| "links (Suc n) ss h = (if h < length ss then h # links n ss (sl_next (ss ! h)) else [])"

definition abs_ready :: "Dispatcher \<Rightarrow> nat list \<times> nat list" where
  "abs_ready d = (links (nslots d) (slots d) (qu_head (control_queue d)), links (nslots d) (slots d) (qu_head (user_queue d)))"

definition spec_push :: "bool \<Rightarrow> nat \<Rightarrow> nat list \<times> nat list \<Rightarrow> nat list \<times> nat list" where
  "spec_push priority i = (\<lambda>(cs, us). if priority then (cs @ [i], us) else (cs, us @ [i]))"

definition spec_remove :: "nat \<Rightarrow> nat list \<times> nat list \<Rightarrow> nat list \<times> nat list" where
  "spec_remove i = (\<lambda>(cs, us). (filter (\<lambda>k. k \<noteq> i) cs, filter (\<lambda>k. k \<noteq> i) us))"

definition spec_take :: "nat list \<times> nat list \<Rightarrow> nat option \<times> nat list \<times> nat list" where
  "spec_take = (\<lambda>(cs, us). case cs of
       i # cs' \<Rightarrow> (Some i, cs', us)
     | [] \<Rightarrow> (case us of i # us' \<Rightarrow> (Some i, [], us') | [] \<Rightarrow> (None, [], [])))"

definition due_slots :: "int \<Rightarrow> Dispatcher \<Rightarrow> nat list" where
  "due_slots now d = filter (\<lambda>i. state_at d i = SlotRetryWaiting \<and> sl_due (slots d ! i) \<le> now) [0..<nslots d]"

definition spec_promote :: "(nat \<Rightarrow> bool) \<Rightarrow> nat list \<Rightarrow> nat list \<times> nat list \<Rightarrow> nat list \<times> nat list" where
  "spec_promote priority due q = foldl (\<lambda>q i. spec_push (priority i) i q) q due"

lemma links_chain: "chain ss h xs \<Longrightarrow> length xs \<le> n \<Longrightarrow> links n ss h = xs"
proof (induction n arbitrary: h xs)
  case (Suc n)
  then show ?case by (cases xs) auto
qed simp

lemma abs_ready_lists:
  assumes "ready_lists d cs us"
  shows "abs_ready d = (cs, us)"
proof -
  have c: "chain (slots d) (qu_head (control_queue d)) cs" "chain (slots d) (qu_head (user_queue d)) us" "distinct cs" "distinct us"
    using assms by (auto simp: ready_lists_def is_queue_def)
  have "length xs \<le> nslots d" if "chain (slots d) h xs" "distinct xs" for h xs
  proof -
    have "set xs \<subseteq> {..<nslots d}" using chain_bound [OF that(1)] by auto
    then have "card (set xs) \<le> card {..<nslots d}" by (rule card_mono [rotated]) simp
    then show ?thesis using distinct_card [OF that(2)] by simp
  qed
  with c show ?thesis by (simp add: abs_ready_def links_chain)
qed

lemma ready_lists_unique: "dispatcher_ok d \<Longrightarrow> ready_lists d (fst (abs_ready d)) (snd (abs_ready d))"
  using abs_ready_lists by (fastforce simp: dispatcher_ok_def)

lemma make_ready_abs:
  assumes "dispatcher_ok d" "i < nslots d" "state_at d i \<noteq> SlotQueued"
  shows "abs_ready (make_ready i d) = spec_push (sl_priority (slots d ! i)) i (abs_ready d)"
proof -
  note r = ready_lists_unique [OF assms(1)]
  from make_ready_lists [OF r assms(2,3)] show ?thesis
    by (cases "sl_priority (slots d ! i)") (auto simp: spec_push_def split_beta dest: abs_ready_lists)
qed

lemma promote_abs:
  assumes "dispatcher_ok d"
  shows "abs_ready (promote now d) = spec_promote (\<lambda>i. sl_priority (slots d ! i)) (due_slots now d) (abs_ready d)"
proof -
  define f where "f = (\<lambda>d i. if state_at d i = SlotRetryWaiting \<and> sl_due (slots d ! i) \<le> now
      then push_ready i (set_state SlotQueued i d) else d)"
  have "abs_ready (foldl f d is) = spec_promote (\<lambda>i. sl_priority (slots d ! i))
      (filter (\<lambda>i. state_at d i = SlotRetryWaiting \<and> sl_due (slots d ! i) \<le> now) is) (abs_ready d)"
    if "dispatcher_ok d" "\<forall>i \<in> set is. i < nslots d" "distinct is" for d "is"
    using that
  proof (induction "is" arbitrary: d)
    case (Cons i js)
    show ?case
    proof (cases "state_at d i = SlotRetryWaiting \<and> sl_due (slots d ! i) \<le> now")
      case True
      have i: "i < nslots d" "state_at d i \<noteq> SlotQueued" "sl_job (slots d ! i) \<noteq> None"
        using Cons.prems True by (auto simp: dispatcher_ok_def ticketed_def)
      obtain cs us where l: "ready_lists d cs us" using Cons.prems(1) by (auto simp: dispatcher_ok_def)
      note at = make_ready_at [OF l i(1,2)]
      have fd: "f d i = make_ready i d" using True by (simp add: f_def make_ready_def)
      have rel: "sl_priority (slots (make_ready i d) ! k) = sl_priority (slots d ! k)" if "k < nslots d" for k
      proof -
        have r: "relinked ((slots d)[i := (slots d ! i)\<lparr>sl_state := SlotQueued\<rparr>]) (slots (make_ready i d))"
          using make_ready_lists [OF l i(1,2)] by blast
        show ?thesis using relinked_fields(6) [OF r, of k] that by (cases "k = i") simp_all
      qed
      have ok: "dispatcher_ok (make_ready i d)" using make_ready_ok [OF Cons.prems(1) i(1) _ i(3)] True by blast
      have js: "\<forall>k \<in> set js. k < nslots d \<and> k \<noteq> i" using Cons.prems(2,3) by auto
      have same: "filter (\<lambda>k. state_at (make_ready i d) k = SlotRetryWaiting \<and> sl_due (slots (make_ready i d) ! k) \<le> now) js =
          filter (\<lambda>k. state_at d k = SlotRetryWaiting \<and> sl_due (slots d ! k) \<le> now) js"
        using js at(2,7) by (intro filter_cong) auto
      have push: "foldl (\<lambda>q k. spec_push (sl_priority (slots (make_ready i d) ! k)) k q) q ks =
          foldl (\<lambda>q k. spec_push (sl_priority (slots d ! k)) k q) q ks" if "\<forall>k \<in> set ks. k < nslots d" for q ks
        using that rel by (intro foldl_cong) auto
      have "abs_ready (foldl f (make_ready i d) js) = spec_promote (\<lambda>i. sl_priority (slots d ! i))
          (filter (\<lambda>k. state_at d k = SlotRetryWaiting \<and> sl_due (slots d ! k) \<le> now) js) (abs_ready (make_ready i d))"
        using Cons.IH [OF ok] js Cons.prems(3) at(1) same push by (auto simp: spec_promote_def)
      then show ?thesis using True make_ready_abs [OF Cons.prems(1) i(1,2)] fd by (simp add: spec_promote_def)
    next
      case False
      then have "f d i = d" by (auto simp: f_def)
      then show ?thesis using False Cons by auto
    qed
  qed (simp add: spec_promote_def)
  from this [OF assms, of "[0..<nslots d]"] show ?thesis unfolding promote_def f_def due_slots_def by simp
qed

text \<open>
  C13. The queues threaded through the slots refine two lists: an enqueued slot goes to the end of the
  list of its priority, a cancelled one leaves its list, and the worker, after the retries that are
  due have joined in the order of their slots, takes the first of the control list or, if there is
  none, of the user list.
\<close>

theorem ready_queues_refine:
  assumes "d = disp_run ops new_dispatcher"
  shows "(\<forall>t i. locate t d = success i \<longrightarrow> fst (enqueue_prepared t d) = success () \<longrightarrow>
       abs_ready (snd (enqueue_prepared t d)) = spec_push (sl_priority (slots d ! i)) i (abs_ready d)) \<and>
    (\<forall>t i. locate t d = success i \<longrightarrow> fst (cancel_queued t d) = success (state_at d i = SlotQueued) \<and>
       abs_ready (snd (cancel_queued t d)) = spec_remove i (abs_ready d)) \<and>
    (\<forall>now. worker d = WorkerIdle \<longrightarrow>
       (case spec_take (spec_promote (\<lambda>i. sl_priority (slots d ! i)) (due_slots now d) (abs_ready d)) of
          (Some i, q) \<Rightarrow> worker (worker_pick now d) = WorkerRunning i \<and> abs_ready (worker_pick now d) = q
        | (None, q) \<Rightarrow> (\<forall>i. worker (worker_pick now d) \<noteq> WorkerRunning i) \<and> abs_ready (worker_pick now d) = q))"
proof (intro conjI allI impI)
  have ok: "dispatcher_ok d" using reached_ok [of ops] assms by simp
  note r = ready_lists_unique [OF ok]
  fix t i
  assume loc: "locate t d = success i"
  note i = locate_Inr [OF loc]
  {
    assume "fst (enqueue_prepared t d) = success ()"
    then have "state_at d i = SlotReserved" and e: "snd (enqueue_prepared t d) = make_ready i d"
      using loc by (auto simp: enqueue_prepared_def make_ready_def split: if_splits)
    then show "abs_ready (snd (enqueue_prepared t d)) = spec_push (sl_priority (slots d ! i)) i (abs_ready d)"
      using make_ready_abs [OF ok i(1)] by simp
  }
  have f: "first_slot (\<lambda>s. sl_state s \<noteq> SlotFree \<and> sl_ticket s = t) d = Some i"
    using loc by (auto simp: locate_def split: option.splits)
  have c: "fst (cancel_queued t d) = success (state_at d i = SlotQueued) \<and>
      abs_ready (snd (cancel_queued t d)) = spec_remove i (abs_ready d)"
  proof (cases "state_at d i = SlotQueued")
    case True
    from cancel_step [OF ok f True r] show ?thesis
      using True by (auto simp: spec_remove_def split_beta dest: abs_ready_lists)
  next
    case False
    then have "\<not> i \<in> set (fst (abs_ready d)) \<and> \<not> i \<in> set (snd (abs_ready d))" using r i(1) by (auto simp: ready_lists_def)
    then show ?thesis using False f by (simp add: cancel_queued_def spec_remove_def split_beta filter_out)
  qed
  then show "fst (cancel_queued t d) = success (state_at d i = SlotQueued)" by blast
  from c show "abs_ready (snd (cancel_queued t d)) = spec_remove i (abs_ready d)" by blast
next
  fix now
  assume idle: "worker d = WorkerIdle"
  have ok: "dispatcher_ok d" using reached_ok [of ops] assms by simp
  note r = ready_lists_unique [OF promote_ok(1) [OF ok, of now]]
  obtain cs us where q: "abs_ready (promote now d) = (cs, us)" by force
  then have "ready_lists (promote now d) cs us" using r by simp
  from pick_step [OF ok idle this] have p: "ready_lists (worker_pick now d) (tl cs) (if cs = [] then tl us else us)"
      "worker (worker_pick now d) = (if cs @ us \<noteq> [] then WorkerRunning (hd (cs @ us))
        else if stopping d \<and> \<not> retry_waiting (promote now d) then WorkerExited else WorkerIdle)"
    by blast+
  show "case spec_take (spec_promote (\<lambda>i. sl_priority (slots d ! i)) (due_slots now d) (abs_ready d)) of
      (Some i, q) \<Rightarrow> worker (worker_pick now d) = WorkerRunning i \<and> abs_ready (worker_pick now d) = q
    | (None, q) \<Rightarrow> (\<forall>i. worker (worker_pick now d) \<noteq> WorkerRunning i) \<and> abs_ready (worker_pick now d) = q"
    unfolding promote_abs [OF ok, symmetric] q using abs_ready_lists [OF p(1)] p(2)
    by (cases cs; cases us) (simp_all add: spec_take_def)
qed

lemma ready_queues_refine_witness:
  "fst (cancel_queued 1 (disp_run send_queued new_dispatcher)) = success True \<and>
    abs_ready (snd (cancel_queued 1 (disp_run send_queued new_dispatcher))) = ([], [])"
proof -
  let ?d = "disp_run send_queued new_dispatcher"
  have "locate 1 ?d = success 0" unfolding send_queued_run by (rule one_used_locate) (simp_all add: sending_def)
  moreover have "state_at ?d 0 = SlotQueued" by (simp add: send_queued_run one_used_def sending_def)
  moreover have "abs_ready ?d = ([], [0])"
    by (simp add: send_queued_run abs_ready_def one_used_def numeral_eq_Suc sending_def empty_slot_def)
  ultimately show ?thesis using ready_queues_refine [OF refl, of send_queued] by (simp add: spec_remove_def)
qed

section \<open>The end of the dispatcher\<close>

definition shut_down :: "Dispatcher \<Rightarrow> bool" where
  "shut_down d \<longleftrightarrow> dispatcher_ok d \<and> used d = 0 \<and> routes d = [] \<and> stopping d"

lemma unused_free:
  assumes "dispatcher_ok d" "used d = 0" "i < nslots d"
  shows "state_at d i = SlotFree"
  using assms count_pos [of i "slots d" "\<lambda>s. sl_state s \<noteq> SlotFree"] by (auto simp: dispatcher_ok_def accounted_def)

lemma unused_locate:
  assumes "dispatcher_ok d" "used d = 0"
  shows "locate t d = failure NotFound" "first_slot (\<lambda>s. sl_state s \<noteq> SlotFree \<and> sl_ticket s = t) d = None"
proof -
  show "first_slot (\<lambda>s. sl_state s \<noteq> SlotFree \<and> sl_ticket s = t) d = None"
    using unused_free [OF assms] by (simp add: first_slot_None)
  then show "locate t d = failure NotFound" by (simp add: locate_def)
qed

lemma unused_worker:
  assumes "dispatcher_ok d" "used d = 0"
  shows "worker d = WorkerIdle \<or> worker d = WorkerExited"
  using assms(1) unused_free [OF assms] by (cases "worker d") (auto simp: dispatcher_ok_def worker_ok_def)

lemma promote_unused:
  assumes "dispatcher_ok d" "used d = 0"
  shows "promote now d = d"
proof -
  have "foldl (\<lambda>d i. if state_at d i = SlotRetryWaiting \<and> sl_due (slots d ! i) \<le> now
      then push_ready i (set_state SlotQueued i d) else d) d is = d" if "\<forall>i \<in> set is. i < nslots d" for "is"
    using that by (induction "is") (auto simp: unused_free [OF assms])
  then show ?thesis by (simp add: promote_def)
qed

lemma pick_unused:
  assumes ok: "dispatcher_ok d" and none: "used d = 0"
  shows "\<exists>w. worker_pick now d = d\<lparr>worker := w\<rparr>"
proof (cases "worker d = WorkerIdle")
  case True
  obtain cs us where l: "ready_lists d cs us" using ok by (auto simp: dispatcher_ok_def)
  have "\<not> i \<in> set cs" "\<not> i \<in> set us" for i
    using l unused_free [OF ok none, of i] by (auto simp: ready_lists_def is_queue_def dest: chain_bound)
  then have "cs = []" "us = []" by (metis list.set_intros(1) neq_Nil_conv)+
  then have q: "qu_head (control_queue d) = nslots d" "qu_head (user_queue d) = nslots d"
    using l queue_empty by (fastforce simp: ready_lists_def)+
  have "d\<lparr>worker := worker d\<rparr> = d" by simp
  then have "\<exists>w. d = d\<lparr>worker := w\<rparr>" by metis
  then show ?thesis using True by (auto simp: worker_pick_def promote_unused [OF ok none] q)
next
  case False
  have "d\<lparr>worker := worker d\<rparr> = d" by simp
  with False show ?thesis unfolding worker_pick_def by (metis (full_types))
qed

lemma shut_down_step:
  assumes sh: "shut_down d"
  shows "shut_down (disp_exec op d)"
proof -
  have d: "dispatcher_ok d" "used d = 0" "routes d = []" "stopping d" using sh by (simp_all add: shut_down_def)
  note none = unused_locate [OF d(1,2)]
  have "used (disp_exec op d) = 0 \<and> routes (disp_exec op d) = [] \<and> stopping (disp_exec op d)"
  proof (cases op)
    case (PickJob now)
    then show ?thesis using pick_unused [OF d(1,2), of now] d by auto
  next
    case (RunJob v)
    then show ?thesis using unused_worker [OF d(1,2)] d by (auto simp: worker_run_def)
  next
    case DeliverJob
    then show ?thesis using unused_worker [OF d(1,2)] d by (auto simp: worker_deliver_def)
  qed (use d none in \<open>simp_all add: open_route_def stop_route_def retire_route_def validate_route_def reserve_ticket_def install_def
      amend_def enqueue_prepared_def cancel_queued_def abandon_def acknowledge_def shutdown_dispatcher_def destroy_dispatcher_def\<close>)
  then show ?thesis using disp_exec_ok [OF d(1)] by (simp add: shut_down_def)
qed

text \<open>
  A shutdown succeeds exactly when no ticket is out and every route has been retired, and then it
  is final: whatever is called later, no ticket is given out and no route is opened again.
\<close>

theorem shutdown_is_final:
  assumes "d = disp_run ops new_dispatcher"
  shows "(fst (shutdown_dispatcher d) = success () \<longleftrightarrow> routes d = [] \<and> (\<forall>i < nslots d. state_at d i = SlotFree)) \<and>
    (fst (shutdown_dispatcher d) = success () \<longrightarrow>
       used (disp_run later (snd (shutdown_dispatcher d))) = 0 \<and> routes (disp_run later (snd (shutdown_dispatcher d))) = [])"
proof -
  have ok: "dispatcher_ok d" using reached_ok [of ops] assms by simp
  have "used d = 0 \<longleftrightarrow> (\<forall>i < nslots d. state_at d i = SlotFree)"
    using unused_free [OF ok] ok by (auto simp: dispatcher_ok_def accounted_def count_card)
  moreover have "shut_down (disp_run later e)" if "shut_down e" for e
    using that by (induction later arbitrary: e) (simp_all add: disp_run_def shut_down_step)
  moreover have "shut_down (snd (shutdown_dispatcher d))" if "fst (shutdown_dispatcher d) = success ()"
    using that routes_ok(4) [OF ok] ok by (auto simp: shutdown_dispatcher_def shut_down_def split: if_splits)
  ultimately show ?thesis by (auto simp: shutdown_dispatcher_def shut_down_def)
qed

lemma shutdown_is_final_witness:
  "used (disp_run [OpenRoute, Reserve 1 empty_completion True] (snd (shutdown_dispatcher (disp_run [] new_dispatcher)))) = 0"
proof -
  have "fst (shutdown_dispatcher (disp_run [] new_dispatcher)) = success ()"
    by (simp add: disp_run_def shutdown_dispatcher_def new_dispatcher_def)
  then show ?thesis using shutdown_is_final [OF refl, of "[]" "[OpenRoute, Reserve 1 empty_completion True]"] by blast
qed

end
