(* ===== verification/Deliveries.thy ===== *)
theory Deliveries
  imports DispatcherRuns
begin

text \<open>
  What becomes of one job over the turns of the worker, above all of a delivery, which answers a
  request or discards it: the job completes, writes three times at most, and says what came of it.
\<close>

section \<open>What becomes of a job\<close>

text \<open>The calls that one turn makes for a delivery, and the turns of a slot until it is completed.\<close>

datatype Call = Wrote "unit result" | Discarded "unit result"

definition turn_calls :: "JobEnv \<Rightarrow> Slot \<Rightarrow> Call list" where
  "turn_calls v s = (case sl_job s of
       Some (DeliveryJob dl) \<Rightarrow>
         let (j1, c1) = run_job v (DeliveryJob dl) ((sl_completion s)\<lparr>job_failed := False\<rparr>)
         in (if dl_discard dl then Discarded (je_discarded v) else Wrote (je_written v)) #
            (if job_failed c1 \<and> \<not> tries_again j1 c1 s then [Discarded (je_discarded_after v)] else [])
     | _ \<Rightarrow> [])"

fun serve :: "JobEnv list \<Rightarrow> Slot \<Rightarrow> Call list \<times> Slot option" where
  "serve [] s = ([], None)"
| "serve (v # vs) s =
     (if sl_state (run_slot v s) = SlotCompleted then (turn_calls v s, Some (run_slot v s))
      else (turn_calls v s @ fst (serve vs (run_slot v s)), snd (serve vs (run_slot v s))))"

definition discarding :: "Slot \<Rightarrow> bool" where
  "discarding s \<longleftrightarrow> (case sl_job s of Some (DeliveryJob dl) \<Rightarrow> dl_discard dl | _ \<Rightarrow> False)"

definition not_busy :: "JobEnv \<Rightarrow> bool" where
  "not_busy v \<longleftrightarrow> je_discarded v \<noteq> failure Busy \<and> je_discarded_after v \<noteq> failure Busy"

lemmas turn_defs = run_slot_def run_delivery_def job_discard_def execute_step_def thrown_by_def tries_again_def transient_def Let_def

lemma turn_discarding:
  assumes "discarding s" "sl_state s \<noteq> SlotCompleted"
  shows "discarding (run_slot v s)" "not_busy v \<Longrightarrow> sl_state (run_slot v s) = SlotCompleted"
proof -
  obtain dl where dl: "sl_job s = Some (DeliveryJob dl)" "dl_discard dl"
    using assms(1) by (auto simp: discarding_def split: option.splits NativeJob.splits)
  show "discarding (run_slot v s)"
    using dl by (cases "je_discarded v"; cases "je_discarded_after v")
      (auto simp: turn_defs discarding_def split: option.splits)
  show "sl_state (run_slot v s) = SlotCompleted" if "not_busy v"
    using dl that by (cases "je_discarded v"; cases "je_discarded_after v")
      (auto simp: turn_defs not_busy_def split: option.splits)
qed

lemma turn_retried:
  assumes "sl_job s = Some j" "sl_state s \<noteq> SlotCompleted" "sl_state (run_slot v s) \<noteq> SlotCompleted" "\<not> discarding s"
  shows "sl_retries (run_slot v s) = sl_retries s + 1 \<and> sl_retries s \<le> 1 \<or> discarding (run_slot v s)"
    "not_busy v \<Longrightarrow> sl_retries s \<le> 1"
proof -
  have "(sl_retries (run_slot v s) = sl_retries s + 1 \<and> sl_retries s \<le> 1 \<or> discarding (run_slot v s)) \<and> (not_busy v \<longrightarrow> sl_retries s \<le> 1)"
  proof (cases j)
    case (DeliveryJob dl)
    then show ?thesis using assms
      by (cases "je_written v"; cases "je_discarded_after v")
        (auto simp: turn_defs discarding_def not_busy_def split: option.splits if_splits)
  qed (use assms in \<open>auto simp: turn_defs discarding_def not_busy_def split: option.splits if_splits sum.splits\<close>)
  then show "sl_retries (run_slot v s) = sl_retries s + 1 \<and> sl_retries s \<le> 1 \<or> discarding (run_slot v s)"
    "not_busy v \<Longrightarrow> sl_retries s \<le> 1" by blast+
qed

lemma run_slot_job: "sl_job s \<noteq> None \<Longrightarrow> sl_job (run_slot v s) \<noteq> None"
  using run_slot_fields(6) by blast

lemma serve_completes:
  assumes "sl_job s \<noteq> None" "sl_state s \<noteq> SlotCompleted" "discarding s \<or> 2 \<le> sl_retries s + length xs" "not_busy v"
  shows "snd (serve (xs @ v # ys) s) \<noteq> None"
  using assms
proof (induction xs arbitrary: s)
  case Nil
  then obtain j where "sl_job s = Some j" by auto
  then have "sl_state (run_slot v s) = SlotCompleted"
    using Nil turn_discarding(2) [of s v] turn_retried(2) [of s j v] by fastforce
  then show ?case by simp
next
  case (Cons x xs)
  then obtain j where j: "sl_job s = Some j" by auto
  show ?case
  proof (cases "sl_state (run_slot x s) = SlotCompleted")
    case False
    have "discarding (run_slot x s) \<or> 2 \<le> sl_retries (run_slot x s) + length xs"
      using turn_discarding(1) [of s x] turn_retried(1) [OF j Cons.prems(2) False] Cons.prems(2,3) by (cases "discarding s") auto
    then show ?thesis using Cons.IH [OF run_slot_job [OF Cons.prems(1)] False _ Cons.prems(4)] False by simp
  qed simp
qed

text \<open>
  No job keeps the worker for ever: whatever its calls answer, after two turns the first turn in
  which discarding the request does not answer Busy completes it.
\<close>

theorem every_job_completes:
  assumes "sl_job s = Some j" "sl_state s = SlotRunning" "2 \<le> length xs" "not_busy v"
  shows "\<exists>done_slot. snd (serve (xs @ v # ys) s) = Some done_slot \<and> sl_state done_slot = SlotCompleted"
proof -
  have "sl_state r = SlotCompleted" if "snd (serve vs s) = Some r" for vs s r
    using that by (induction vs arbitrary: s) (auto split: if_splits)
  moreover have "snd (serve (xs @ v # ys) s) \<noteq> None" using assms by (intro serve_completes) simp_all
  ultimately show ?thesis by blast
qed

definition answering :: "unit result \<Rightarrow> unit result \<Rightarrow> JobEnv" where
  "answering written discarded = \<lparr>je_cancelled = False, je_sent = failure DDSError, je_written = written,
     je_discarded = discarded, je_discarded_after = discarded, je_now = 0\<rparr>"

definition response_slot :: Slot where
  "response_slot = empty_slot\<lparr>sl_ticket := 1, sl_state := SlotRunning, sl_port := Some 1,
     sl_job := Some (DeliveryJob \<lparr>dl_discard = False, dl_failure = None, dl_cleanup_pending = False\<rparr>)\<rparr>"

lemma every_job_completes_witness:
  "\<exists>r. snd (serve [answering (failure Busy) (failure Busy), answering (failure Busy) (failure Busy),
     answering (failure Busy) (success ())] response_slot) = Some r"
proof -
  let ?busy = "answering (failure Busy) (failure Busy)" and ?free = "answering (failure Busy) (success ())"
  have "sl_job response_slot = Some (DeliveryJob \<lparr>dl_discard = False, dl_failure = None, dl_cleanup_pending = False\<rparr>)"
    "sl_state response_slot = SlotRunning" "not_busy ?free"
    by (simp_all add: response_slot_def not_busy_def answering_def)
  from every_job_completes [OF this(1,2) _ this(3), of "[?busy, ?busy]" "[]"] show ?thesis
    by (auto simp del: serve.simps)
qed

section \<open>Deliveries\<close>

definition gone :: "Call \<Rightarrow> bool" where
  "gone c \<longleftrightarrow> (case c of Wrote r \<Rightarrow> r = success () | Discarded r \<Rightarrow> r = success () \<or> r = failure NotFound)"

text \<open>A response that is still to be written, and a request that is being discarded after its write has failed.\<close>

definition to_write :: "Slot \<Rightarrow> bool" where
  "to_write s \<longleftrightarrow> (\<exists>dl. sl_job s = Some (DeliveryJob dl) \<and> \<not> dl_discard dl \<and> dl_failure dl = None) \<and>
     \<not> cleanup_failed (sl_completion s) \<and> sl_retries s \<le> 2 \<and> sl_state s \<noteq> SlotCompleted"

definition to_discard :: "ErrorCode option \<Rightarrow> Slot \<Rightarrow> bool" where
  "to_discard e s \<longleftrightarrow> (\<exists>dl. sl_job s = Some (DeliveryJob dl) \<and> dl_discard dl \<and>
      (case dl_failure dl of None \<Rightarrow> e = None | Some f \<Rightarrow> job_failed f \<and> e = Some (error_code f) \<and> \<not> cleanup_failed f)) \<and>
     \<not> cleanup_failed (sl_completion s) \<and> sl_state s \<noteq> SlotCompleted"

definition ends_with :: "ErrorCode option \<Rightarrow> CompletionRecord \<Rightarrow> bool" where
  "ends_with e c \<longleftrightarrow> (case e of None \<Rightarrow> \<not> job_failed c | Some x \<Rightarrow> job_failed c \<and> error_code c = x)"

lemma discard_turn:
  assumes "to_discard e s"
  shows "if sl_state (run_slot v s) = SlotCompleted
     then cleanup_failed (sl_completion (run_slot v s)) \<or>
       ends_with e (sl_completion (run_slot v s)) \<and> list_ex gone (turn_calls v s)
     else to_discard e (run_slot v s)"
    "cleanup_failed (sl_completion (run_slot v s)) \<Longrightarrow> job_failed (sl_completion (run_slot v s))"
    "\<exists>rs. turn_calls v s = map Discarded rs"
proof -
  obtain dl where dl: "sl_job s = Some (DeliveryJob dl)" "dl_discard dl" "\<not> cleanup_failed (sl_completion s)" "sl_state s \<noteq> SlotCompleted"
      "case dl_failure dl of None \<Rightarrow> e = None | Some f \<Rightarrow> job_failed f \<and> e = Some (error_code f) \<and> \<not> cleanup_failed f"
    using assms by (auto simp: to_discard_def)
  show "if sl_state (run_slot v s) = SlotCompleted
     then cleanup_failed (sl_completion (run_slot v s)) \<or>
       ends_with e (sl_completion (run_slot v s)) \<and> list_ex gone (turn_calls v s)
     else to_discard e (run_slot v s)"
    using dl by (cases "je_discarded v"; cases "je_discarded_after v"; cases "dl_failure dl")
      (auto simp: turn_defs to_discard_def turn_calls_def gone_def ends_with_def)
  show "cleanup_failed (sl_completion (run_slot v s)) \<Longrightarrow> job_failed (sl_completion (run_slot v s))"
    using dl by (cases "je_discarded v"; cases "je_discarded_after v"; cases "dl_failure dl")
      (auto simp: turn_defs split: if_splits)
  show "\<exists>rs. turn_calls v s = map Discarded rs"
    using dl by (auto simp: turn_calls_def Let_def split_beta intro: exI [of _ "[_]"] exI [of _ "[_, _]"])
qed

lemma write_turn:
  assumes "to_write s"
  shows "je_written v = success () \<Longrightarrow> sl_state (run_slot v s) = SlotCompleted \<and> ends_with None (sl_completion (run_slot v s)) \<and>
       \<not> cleanup_failed (sl_completion (run_slot v s)) \<and> turn_calls v s = [Wrote (success ())]"
    "je_written v = failure e \<Longrightarrow>
       (if sl_state (run_slot v s) = SlotCompleted
        then turn_calls v s = [Wrote (failure e), Discarded (je_discarded_after v)] \<and> job_failed (sl_completion (run_slot v s)) \<and>
          (cleanup_failed (sl_completion (run_slot v s)) \<or>
           ends_with (Some e) (sl_completion (run_slot v s)) \<and> gone (Discarded (je_discarded_after v)))
        else turn_calls v s = [Wrote (failure e)] \<and> to_write (run_slot v s) \<and> sl_retries (run_slot v s) = sl_retries s + 1 \<or>
          turn_calls v s = [Wrote (failure e), Discarded (je_discarded_after v)] \<and> to_discard (Some e) (run_slot v s))"
proof -
  obtain dl where dl: "sl_job s = Some (DeliveryJob dl)" "\<not> dl_discard dl" "dl_failure dl = None"
      "\<not> cleanup_failed (sl_completion s)" "sl_state s \<noteq> SlotCompleted" "sl_retries s \<le> 2"
    using assms by (auto simp: to_write_def)
  show "je_written v = success () \<Longrightarrow> sl_state (run_slot v s) = SlotCompleted \<and> ends_with None (sl_completion (run_slot v s)) \<and>
       \<not> cleanup_failed (sl_completion (run_slot v s)) \<and> turn_calls v s = [Wrote (success ())]"
    using dl by (auto simp: turn_defs turn_calls_def ends_with_def)
  show "je_written v = failure e \<Longrightarrow>
       (if sl_state (run_slot v s) = SlotCompleted
        then turn_calls v s = [Wrote (failure e), Discarded (je_discarded_after v)] \<and> job_failed (sl_completion (run_slot v s)) \<and>
          (cleanup_failed (sl_completion (run_slot v s)) \<or>
           ends_with (Some e) (sl_completion (run_slot v s)) \<and> gone (Discarded (je_discarded_after v)))
        else turn_calls v s = [Wrote (failure e)] \<and> to_write (run_slot v s) \<and> sl_retries (run_slot v s) = sl_retries s + 1 \<or>
          turn_calls v s = [Wrote (failure e), Discarded (je_discarded_after v)] \<and> to_discard (Some e) (run_slot v s))"
    using dl by (cases "je_discarded_after v")
      (auto simp: turn_defs to_discard_def to_write_def turn_calls_def gone_def ends_with_def)
qed

lemma serve_discards:
  assumes "to_discard e s" "serve vs s = (calls, Some r)"
  shows "\<exists>rs. calls = map Discarded rs" "cleanup_failed (sl_completion r) \<Longrightarrow> job_failed (sl_completion r)"
    "cleanup_failed (sl_completion r) \<or> ends_with e (sl_completion r) \<and> list_ex gone calls"
proof -
  have "(\<exists>rs. calls = map Discarded rs) \<and> (cleanup_failed (sl_completion r) \<longrightarrow> job_failed (sl_completion r)) \<and>
      (cleanup_failed (sl_completion r) \<or> ends_with e (sl_completion r) \<and> list_ex gone calls)"
    using assms
  proof (induction vs arbitrary: s calls)
    case (Cons v vs)
    note t = discard_turn [OF Cons.prems(1), of v]
    show ?case
    proof (cases "sl_state (run_slot v s) = SlotCompleted")
      case True
      then show ?thesis using t Cons.prems(2) by auto
    next
      case False
      then obtain cs where cs: "serve vs (run_slot v s) = (cs, Some r)" "calls = turn_calls v s @ cs"
        using Cons.prems(2) by (auto simp: prod_eq_iff)
      have "to_discard e (run_slot v s)" using t(1) False by simp
      from Cons.IH [OF this cs(1)] t(3) cs(2) show ?thesis by (auto simp: map_append [symmetric] simp del: map_append)
    qed
  qed simp
  then show "\<exists>rs. calls = map Discarded rs" "cleanup_failed (sl_completion r) \<Longrightarrow> job_failed (sl_completion r)"
    "cleanup_failed (sl_completion r) \<or> ends_with e (sl_completion r) \<and> list_ex gone calls" by blast+
qed

lemma serve_writes:
  assumes "to_write s" "serve vs s = (calls, Some r)"
  shows "\<exists>ws ds. calls = map Wrote ws @ map Discarded ds \<and> ws \<noteq> [] \<and> length ws + sl_retries s \<le> 3 \<and>
    (\<forall>w \<in> set (butlast ws). w \<noteq> success ()) \<and> (last ws = success () \<longrightarrow> ds = []) \<and> (cleanup_failed (sl_completion r) \<longrightarrow> job_failed (sl_completion r) \<and> last ws \<noteq> success ()) \<and>
    (cleanup_failed (sl_completion r) \<or> ends_with (thrown_by (last ws)) (sl_completion r) \<and> list_ex gone calls)"
  using assms
proof (induction vs arbitrary: s calls)
  case (Cons v vs)
  have r: "sl_retries s \<le> 2" using Cons.prems(1) by (simp add: to_write_def)
  show ?case
  proof (cases "je_written v")
    case (Inr u)
    then have "je_written v = success ()" by simp
    from write_turn(1) [OF Cons.prems(1) this] Cons.prems(2) r show ?thesis
      by - (rule exI [of _ "[success ()]"], rule exI [of _ "[]"], auto simp: gone_def thrown_by_def)
  next
    case (Inl e)
    note t = write_turn(2) [OF Cons.prems(1) Inl]
    show ?thesis
    proof (cases "sl_state (run_slot v s) = SlotCompleted")
      case True
      then have "r = run_slot v s" "calls = [Wrote (failure e), Discarded (je_discarded_after v)]"
        using t Cons.prems(2) by simp_all
      moreover from this have "job_failed (sl_completion r)" "cleanup_failed (sl_completion r) \<or>
          ends_with (Some e) (sl_completion r) \<and> gone (Discarded (je_discarded_after v))" using t True by simp_all
      ultimately show ?thesis using r
        by - (rule exI [of _ "[failure e]"], rule exI [of _ "[je_discarded_after v]"], auto simp: thrown_by_def)
    next
      case False
      then obtain cs where cs: "serve vs (run_slot v s) = (cs, Some r)" "calls = turn_calls v s @ cs"
        using Cons.prems(2) by (auto simp: prod_eq_iff)
      from t False consider "turn_calls v s = [Wrote (failure e)]" "to_write (run_slot v s)" "sl_retries (run_slot v s) = sl_retries s + 1"
        | "turn_calls v s = [Wrote (failure e), Discarded (je_discarded_after v)]" "to_discard (Some e) (run_slot v s)" by auto
      then show ?thesis
      proof cases
        case 1
        from Cons.IH [OF 1(2) cs(1)] obtain ws ds where i: "cs = map Wrote ws @ map Discarded ds" "ws \<noteq> []"
            "length ws + sl_retries (run_slot v s) \<le> 3" "\<forall>w \<in> set (butlast ws). w \<noteq> success ()" "last ws = success () \<longrightarrow> ds = []"
            "cleanup_failed (sl_completion r) \<longrightarrow> job_failed (sl_completion r) \<and> last ws \<noteq> success ()"
            "cleanup_failed (sl_completion r) \<or> ends_with (thrown_by (last ws)) (sl_completion r) \<and> list_ex gone cs" by blast
        then show ?thesis using 1 cs(2) by - (rule exI [of _ "failure e # ws"], rule exI [of _ ds], auto)
      next
        case 2
        note d = serve_discards [OF 2(2) cs(1)]
        then obtain rs where "cs = map Discarded rs" by blast
        then show ?thesis using 2 cs(2) d r
          by - (rule exI [of _ "[failure e]"], rule exI [of _ "je_discarded_after v # rs"], auto simp: thrown_by_def)
      qed
    qed
  qed
qed simp

definition fresh_delivery :: "bool \<Rightarrow> Slot \<Rightarrow> bool" where
  "fresh_delivery discards s \<longleftrightarrow>
     sl_job s = Some (DeliveryJob \<lparr>dl_discard = discards, dl_failure = None, dl_cleanup_pending = False\<rparr>) \<and>
     sl_state s = SlotRunning \<and> sl_retries s = 0 \<and> \<not> cleanup_failed (sl_completion s)"

text \<open>
  C20. A response is written three times at most and never again after a write that succeeded. Then,
  unless the record says that the cleanup failed, the completion says what the last write returned
  and the request is gone: written, or discarded after the last write.
\<close>

theorem delivery_outcome:
  assumes "fresh_delivery False s" "serve vs s = (calls, Some r)"
  shows "\<exists>ws ds. calls = map Wrote ws @ map Discarded ds \<and> ws \<noteq> [] \<and> length ws \<le> 3 \<and> \<not> success () \<in> set (butlast ws) \<and>
    (last ws = success () \<longrightarrow> ds = []) \<and>
    (if cleanup_failed (sl_completion r) then job_failed (sl_completion r)
     else ends_with (thrown_by (last ws)) (sl_completion r) \<and> list_ex gone calls)"
proof -
  have "to_write s" "sl_retries s = 0" using assms(1) by (simp_all add: fresh_delivery_def to_write_def)
  from serve_writes [OF this(1) assms(2)] this(2) show ?thesis by fastforce
qed

lemma delivery_outcome_witness:
  "\<exists>calls r ws. serve [answering (failure Busy) (success ()), answering (success ()) (success ())] response_slot = (calls, Some r) \<and>
     calls = map Wrote ws \<and> length ws = 2 \<and> ends_with None (sl_completion r)"
proof -
  let ?vs = "[answering (failure Busy) (success ()), answering (success ()) (success ())]"
  have f: "fresh_delivery False response_slot" by (simp add: fresh_delivery_def response_slot_def empty_slot_def empty_completion_def)
  have s: "fst (serve ?vs response_slot) = [Wrote (failure Busy), Wrote (success ())]" "snd (serve ?vs response_slot) \<noteq> None"
    "\<And>r. snd (serve ?vs response_slot) = Some r \<Longrightarrow> \<not> cleanup_failed (sl_completion r)"
    by (auto simp: turn_defs turn_calls_def response_slot_def answering_def empty_slot_def empty_completion_def)
  then obtain r where r: "serve ?vs response_slot = ([Wrote (failure Busy), Wrote (success ())], Some r)" by (auto simp: prod_eq_iff)
  from delivery_outcome [OF f this] obtain ws ds where
    d: "[Wrote (failure Busy), Wrote (success ())] = map Wrote ws @ map Discarded ds" "ends_with (thrown_by (last ws)) (sl_completion r)"
    using s(3) r by auto
  from d(1) have "ws = [failure Busy, success ()]" by (auto simp: Cons_eq_append_conv Cons_eq_map_conv)
  with d(2) have "ends_with None (sl_completion r)" by (simp add: thrown_by_def)
  moreover have "[Wrote (failure Busy), Wrote (success ())] = map Wrote [failure Busy, success ()]" by simp
  ultimately show ?thesis using r by (metis length_Cons list.size(3) numeral_2_eq_2)
qed

text \<open>
  A request whose handler gave no response is discarded, however long another response keeps it
  busy: unless the cleanup failed, the completion reports no failure and the request is gone.
\<close>

theorem discard_outcome:
  assumes "fresh_delivery True s" "serve vs s = (calls, Some r)"
  shows "(\<exists>rs. calls = map Discarded rs) \<and>
    (if cleanup_failed (sl_completion r) then job_failed (sl_completion r)
     else \<not> job_failed (sl_completion r) \<and> list_ex gone calls)"
proof -
  have "to_discard None s" using assms(1) by (simp add: fresh_delivery_def to_discard_def)
  from serve_discards [OF this assms(2)] show ?thesis by (auto simp: ends_with_def)
qed

lemma discard_outcome_witness:
  "\<exists>calls r. serve [answering (failure Busy) (failure NotFound)]
     (response_slot\<lparr>sl_job := Some (DeliveryJob \<lparr>dl_discard = True, dl_failure = None, dl_cleanup_pending = False\<rparr>)\<rparr>) = (calls, Some r) \<and>
     list_ex gone calls"
proof -
  let ?s = "response_slot\<lparr>sl_job := Some (DeliveryJob \<lparr>dl_discard = True, dl_failure = None, dl_cleanup_pending = False\<rparr>)\<rparr>"
  let ?vs = "[answering (failure Busy) (failure NotFound)]"
  have f: "fresh_delivery True ?s" by (simp add: fresh_delivery_def response_slot_def empty_slot_def empty_completion_def)
  obtain calls r where r: "serve ?vs ?s = (calls, Some r)" "\<not> cleanup_failed (sl_completion r)"
    by (simp add: turn_defs response_slot_def answering_def empty_slot_def empty_completion_def)
  with discard_outcome [OF f r(1)] show ?thesis by auto
qed

end
