(* ===== verification/RequestWorks.thy ===== *)
theory RequestWorks
  imports Deliveries
begin

text \<open>
  The work of a request a server has to answer (\<^verbatim>\<open>ServiceRequestWork\<close> of \<^verbatim>\<open>service_io.hpp\<close>,
  \<^verbatim>\<open>ActionServerRequestWork\<close> of \<^verbatim>\<open>action_io.hpp\<close>): it reserves the ticket before the request is read,
  shares the job with the slot, and queues it with the response or as a discard. \<^verbatim>\<open>receive\<close> of the
  binding is two steps, for the native read runs between the check under the mutex and
  \<^verbatim>\<open>accepted\<close>, which does not take it. The checks of the dispatch pin and the construction of the Python
  sample leave the work as it is and are not modelled.
\<close>

section \<open>The work of a request\<close>

datatype WorkKind = ServiceWork | GoalWork | CancelWork | ResultWork

text \<open>\<open>rw_job\<close>: the work still has its pointer to the job, which it shares with the slot of its ticket.\<close>

record RequestWork =
  rw_kind :: WorkKind
  rw_ticket :: nat
  rw_job :: bool
  rw_accepted :: bool
  rw_submitted :: bool




definition validate_take :: "bool \<Rightarrow> RequestWork \<Rightarrow> unit result" where
  "validate_take belongs w =
     (if rw_accepted w \<or> rw_submitted w \<or> \<not> rw_job w then failure InvalidState
      else if \<not> belongs then failure TypeMismatch else success ())"

text \<open>What \<open>receive\<close> does when the native read has answered, \<open>taken\<close> telling whether a request was taken.\<close>

definition receive_taken :: "bool result \<Rightarrow> RequestWork \<Rightarrow> unit result \<times> RequestWork" where
  "receive_taken taken w = (case taken of
       Inl e \<Rightarrow> (failure e, w)
     | Inr t \<Rightarrow> (success (), if t then w\<lparr>rw_accepted := True\<rparr> else w))"

definition require_accepted :: "RequestWork \<Rightarrow> unit result" where
  "require_accepted w = (if rw_submitted w \<or> \<not> rw_accepted w then failure InvalidState else success ())"

definition submit_job :: "bool \<Rightarrow> RequestWork \<Rightarrow> Dispatcher \<Rightarrow> unit result \<times> RequestWork \<times> Dispatcher" where
  "submit_job discard w d = (case enqueue_prepared (rw_ticket w) (amend (rw_ticket w) discard d) of
       (Inl e, d1) \<Rightarrow> (failure e, w, d1)
     | (Inr _, d1) \<Rightarrow> (success (), w\<lparr>rw_submitted := True\<rparr>, d1))"

definition respond_request :: "bool \<Rightarrow> RequestWork \<Rightarrow> Dispatcher \<Rightarrow> unit result \<times> RequestWork \<times> Dispatcher" where
  "respond_request typed w d = (case require_accepted w of
       Inl e \<Rightarrow> (failure e, w, d)
     | Inr _ \<Rightarrow> if \<not> typed then (failure TypeMismatch, w, d) else submit_job False w d)"

definition respond_payload :: "bool \<Rightarrow> RequestWork \<Rightarrow> Dispatcher \<Rightarrow> unit result \<times> RequestWork \<times> Dispatcher" where
  "respond_payload typed w d = (if rw_kind w \<noteq> ResultWork then (failure InvalidState, w, d) else respond_request typed w d)"

definition accept_request :: "bool \<Rightarrow> RequestWork \<Rightarrow> Dispatcher \<Rightarrow> unit result \<times> RequestWork \<times> Dispatcher" where
  "accept_request typed w d = (case require_accepted w of
       Inl e \<Rightarrow> (failure e, w, d)
     | Inr _ \<Rightarrow>
         if rw_kind w \<noteq> GoalWork then (failure InvalidState, w, d)
         else if \<not> typed then (failure TypeMismatch, w, d) else submit_job False w d)"

definition submit_discard :: "RequestWork \<Rightarrow> Dispatcher \<Rightarrow> unit result \<times> RequestWork \<times> Dispatcher" where
  "submit_discard w d =
     (if rw_submitted w then (success (), w, d)
      else if \<not> rw_accepted w then (failure InvalidState, w, d) else submit_job True w d)"

definition finish_task :: "RequestWork \<Rightarrow> Dispatcher \<Rightarrow> unit result \<times> RequestWork \<times> Dispatcher" where
  "finish_task w d =
     (if \<not> rw_job w then (success (), w, d)
      else if \<not> rw_accepted w
      then (case abandon (rw_ticket w) d of
          (Inl e, d1) \<Rightarrow> (failure e, w, d1)
        | (Inr _, d1) \<Rightarrow> (success (), w\<lparr>rw_submitted := (rw_submitted w \<or> rw_kind w = ServiceWork), rw_job := False\<rparr>, d1))
      else (case submit_discard w d of
          (Inl e, w1, d1) \<Rightarrow> (failure e, w1, d1)
        | (Inr _, w1, d1) \<Rightarrow> (success (), w1\<lparr>rw_job := False\<rparr>, d1)))"

text \<open>
  A work among everything else that happens to the dispatcher, with what an observer writes down:
  the job that is queued under its ticket, the calls that the worker makes for it, and the record
  with which it completes. \<open>ws_reading\<close>: a thread is between the two steps of \<open>receive\<close>.
\<close>

datatype WorkOp = Validate bool | Taken "bool result" | Respond bool | RespondPayload bool | AcceptGoal bool | DiscardRequest | FinishTask

record WorkSys =
  ws_work :: RequestWork
  ws_disp :: Dispatcher
  ws_reading :: bool
  ws_queued :: "NativeJob option list"
  ws_calls :: "Call list"
  ws_outcome :: "CompletionRecord option"

fun work_exec :: "WorkOp \<Rightarrow> RequestWork \<Rightarrow> Dispatcher \<Rightarrow> unit result \<times> RequestWork \<times> Dispatcher" where
  "work_exec (Validate belongs) w d = (validate_take belongs w, w, d)"
| "work_exec (Taken taken) w d = (let (r, w1) = receive_taken taken w in (r, w1, d))"
| "work_exec (Respond typed) w d = respond_request typed w d"
| "work_exec (RespondPayload typed) w d = respond_payload typed w d"
| "work_exec (AcceptGoal typed) w d = accept_request typed w d"
| "work_exec DiscardRequest w d = submit_discard w d"
| "work_exec FinishTask w d = finish_task w d"

datatype WorkEvent = ByWork WorkOp | ByOthers DispOp

definition has_ticket :: "nat \<Rightarrow> Slot \<Rightarrow> bool" where
  "has_ticket t s \<longleftrightarrow> sl_state s \<noteq> SlotFree \<and> sl_ticket s = t"

definition slot_of :: "nat \<Rightarrow> Dispatcher \<Rightarrow> Slot option" where
  "slot_of t d = map_option (\<lambda>i. slots d ! i) (first_slot (has_ticket t) d)"

definition newly_queued :: "Slot option \<Rightarrow> Slot option \<Rightarrow> NativeJob option list" where
  "newly_queued a b = (case (a, b) of
       (Some s, Some s') \<Rightarrow> if sl_state s = SlotReserved \<and> sl_state s' = SlotQueued then [sl_job s'] else []
     | _ \<Rightarrow> [])"

definition calls_of :: "WorkEvent \<Rightarrow> Slot option \<Rightarrow> Call list" where
  "calls_of ev a = (case (ev, a) of
       (ByOthers (RunJob v), Some s) \<Rightarrow> if sl_state s = SlotRunning then turn_calls v s else []
     | _ \<Rightarrow> [])"

definition outcome_of :: "CompletionRecord option \<Rightarrow> Slot option \<Rightarrow> CompletionRecord option" where
  "outcome_of c b = (case b of Some s \<Rightarrow> if sl_state s = SlotCompleted then Some (sl_completion s) else c | None \<Rightarrow> c)"

fun work_effect :: "WorkEvent \<Rightarrow> RequestWork \<Rightarrow> Dispatcher \<Rightarrow> unit result \<times> RequestWork \<times> Dispatcher" where
  "work_effect (ByWork op) w d = work_exec op w d"
| "work_effect (ByOthers op) w d = (success (), w, disp_exec op d)"

fun still_reading :: "WorkEvent \<Rightarrow> unit result \<Rightarrow> bool \<Rightarrow> bool" where
  "still_reading (ByWork (Validate _)) r b = (r = success ())"
| "still_reading (ByWork (Taken _)) r b = False"
| "still_reading _ r b = b"

definition work_step :: "WorkEvent \<Rightarrow> WorkSys \<Rightarrow> WorkSys" where
  "work_step ev s =
     (let (r, w, d) = work_effect ev (ws_work s) (ws_disp s);
          a = slot_of (rw_ticket (ws_work s)) (ws_disp s); b = slot_of (rw_ticket (ws_work s)) d
      in \<lparr>ws_work = w, ws_disp = d, ws_reading = still_reading ev r (ws_reading s),
          ws_queued = ws_queued s @ newly_queued a b, ws_calls = ws_calls s @ calls_of ev a,
          ws_outcome = outcome_of (ws_outcome s) b\<rparr>)"






section \<open>What others do to the slot of a ticket\<close>

text \<open>The slot has the same job in the same state of work; \<open>woken\<close>: the worker may have taken it up.\<close>

definition same_work :: "Slot \<Rightarrow> Slot \<Rightarrow> bool" where
  "same_work s s' \<longleftrightarrow> sl_job s' = sl_job s \<and> sl_completion s' = sl_completion s \<and> sl_retries s' = sl_retries s"

definition still :: "Slot \<Rightarrow> Slot \<Rightarrow> bool" where
  "still s s' \<longleftrightarrow> same_work s s' \<and> sl_ticket s' = sl_ticket s \<and> sl_state s' = sl_state s"

definition woken :: "Slot \<Rightarrow> Slot \<Rightarrow> bool" where
  "woken s s' \<longleftrightarrow> same_work s s' \<and> sl_ticket s' = sl_ticket s \<and> (sl_state s' = sl_state s \<or>
     sl_state s = SlotRetryWaiting \<and> sl_state s' \<in> {SlotQueued, SlotRunning} \<or> sl_state s = SlotQueued \<and> sl_state s' = SlotRunning)"


lemma still_refl [simp]: "still s s" by (simp add: still_def same_work_def)
lemma still_woken: "still s s' \<Longrightarrow> woken s s'" by (simp add: still_def woken_def)
lemma woken_refl [simp]: "woken s s" by (simp add: still_woken)

































section \<open>The job of a ticket, turn by turn\<close>

definition after :: "JobEnv list \<Rightarrow> Slot \<Rightarrow> Slot" where
  "after vs s = foldl (\<lambda>s v. run_slot v s) s vs"

lemma after_snoc [simp]: "after (vs @ [v]) s = run_slot v (after vs s)"
  by (simp add: after_def)






section \<open>A request is settled once\<close>



















lemma step_ticket [simp]: "rw_ticket (ws_work (work_step ev s)) = rw_ticket (ws_work s)"
proof (cases ev)
  case (ByWork op)
  then show ?thesis
    by (cases op) (auto simp: work_step_def Let_def receive_taken_def respond_request_def respond_payload_def accept_request_def
      submit_discard_def finish_task_def submit_job_def split: sum.split prod.split)
qed (simp add: work_step_def Let_def)






end
