(* ===== verification/ShutdownWaits.thy ===== *)
theory ShutdownWaits
  imports ContextRuntime
begin

text \<open>
  The condition variable of the shutdown protocol (\<^verbatim>\<open>Context::shutdown\<close> and the operation guards of
  \<^verbatim>\<open>impl/context_impl.cpp\<close>): the steps of ContextRuntime with the threads that sleep on it. A thread
  that has gone to sleep goes on only when it is notified or wakes for no reason.
\<close>

section \<open>Who sleeps and who wakes them\<close>

text \<open>
  \<open>exec_asleep\<close>: the executing call sleeps on \<^verbatim>\<open>operation_cv_\<close>. \<open>others_awake\<close> and \<open>others_asleep\<close> count
  the calls of \<^verbatim>\<open>shutdown\<close> that found the flag set. \<open>owed\<close>: the executing call has completed and has
  still to notify, which it does after it has let go of the mutex.
\<close>

record Sleepers =
  exec_asleep :: bool
  others_awake :: nat
  others_asleep :: nat
  notify_owed :: bool

definition no_sleepers :: Sleepers where
  "no_sleepers = \<lparr>exec_asleep = False, others_awake = 0, others_asleep = 0, notify_owed = False\<rparr>"

text \<open>\<^verbatim>\<open>operation_cv_.notify_all()\<close>; what wakes looks at its condition again.\<close>

definition wake_all :: "Sleepers \<Rightarrow> Sleepers" where
  "wake_all w = w\<lparr>exec_asleep := False, others_awake := others_awake w + others_asleep w, others_asleep := 0\<rparr>"

definition release_and_wake :: "CtxSys \<Rightarrow> Sleepers \<Rightarrow> CtxSys \<times> Sleepers" where
  "release_and_wake s w =
     (let (signal, r) = release_operation (runtime s)
      in (s\<lparr>runtime := r, live_guards := live_guards s - 1\<rparr>, if signal then wake_all w else w))"

text \<open>The executing call looks whether operations are active: it completes, or goes to sleep.\<close>

definition executor_looks :: "CtxSys \<Rightarrow> Sleepers \<Rightarrow> CtxSys \<times> Sleepers" where
  "executor_looks s w = (case shutdown_drain (runtime s) of
       None \<Rightarrow> (s, w\<lparr>exec_asleep := True\<rparr>)
     | Some r \<Rightarrow> (s\<lparr>runtime := r, executor := Returned\<rparr>, w\<lparr>notify_owed := True\<rparr>))"

text \<open>Another call looks whether the shutdown is complete: it returns, or goes to sleep.\<close>

definition other_looks :: "CtxSys \<Rightarrow> Sleepers \<Rightarrow> Sleepers" where
  "other_looks s w =
     (if shutdown_complete (runtime s) then w\<lparr>others_awake := others_awake w - 1\<rparr>
      else w\<lparr>others_awake := others_awake w - 1, others_asleep := others_asleep w + 1\<rparr>)"

text \<open>The steps that the calls of \<^verbatim>\<open>shutdown\<close> and the operations in progress take by themselves.\<close>

inductive drain_step :: "CtxSys \<times> Sleepers \<Rightarrow> CtxSys \<times> Sleepers \<Rightarrow> bool" where
  releases: "0 < live_guards s \<Longrightarrow> drain_step (s, w) (release_and_wake s w)"
| requests: "executor s = Flagged \<Longrightarrow> shutdown_request (runtime s) = (children, r) \<Longrightarrow>
    drain_step (s, w) (s\<lparr>runtime := r, executor := Calling children\<rparr>, w)"
| calls_child: "executor s = Calling ((cid, c) # rest) \<Longrightarrow>
    drain_step (s, w) (s\<lparr>executor := Calling rest, calls := calls s @ [cid]\<rparr>, w)"
| called_all: "executor s = Calling [] \<Longrightarrow>
    drain_step (s, w) (s\<lparr>runtime := shutdown_called (runtime s), executor := Called\<rparr>, w)"
| looks: "executor s = Called \<Longrightarrow> \<not> exec_asleep w \<Longrightarrow> drain_step (s, w) (executor_looks s w)"
| notifies: "notify_owed w \<Longrightarrow> drain_step (s, w) (s, (wake_all w)\<lparr>notify_owed := False\<rparr>)"
| other: "0 < others_awake w \<Longrightarrow> drain_step (s, w) (s, other_looks s w)"

text \<open>
  What else happens: operations begin while the flag is clear, callbacks come and go, \<^verbatim>\<open>shutdown\<close> is
  called, the first time and again, and a thread may wake for no reason.
\<close>

inductive drain_event :: "CtxSys \<times> Sleepers \<Rightarrow> CtxSys \<times> Sleepers \<Rightarrow> bool" where
  acquires: "try_acquire_operation (runtime s) = (True, r) \<Longrightarrow>
    drain_event (s, w) (s\<lparr>runtime := r, live_guards := live_guards s + 1\<rparr>, w)"
| begins: "shutdown_begin (runtime s) = (True, r) \<Longrightarrow> executor s = NotStarted \<Longrightarrow>
    drain_event (s, w) (s\<lparr>runtime := r, executor := Flagged\<rparr>, w)"
| joins: "shutdown_begin (runtime s) = (False, r) \<Longrightarrow> drain_event (s, w) (s, w\<lparr>others_awake := others_awake w + 1\<rparr>)"
| registers: "register_shutdown_callback (runtime s) = (cid, r) \<Longrightarrow> cid \<noteq> 0 \<Longrightarrow>
    drain_event (s, w) (s\<lparr>runtime := r, registered := insert cid (registered s)\<rparr>, w)"
| unregisters: "drain_event (s, w) (s\<lparr>runtime := unregister_shutdown_callback cid (runtime s),
    unregistered := unregistered s \<union> ({cid} \<inter> dom (map_of (shutdown_children (runtime s))))\<rparr>, w)"
| stirs: "drain_event (s, w) (s, w\<lparr>exec_asleep := False\<rparr>)"
| other_stirs: "0 < others_asleep w \<Longrightarrow>
    drain_event (s, w) (s, w\<lparr>others_asleep := others_asleep w - 1, others_awake := others_awake w + 1\<rparr>)"

inductive drain_reach :: "CtxSys \<times> Sleepers \<Rightarrow> bool" where
  start: "drain_reach (start_ctx, no_sleepers)"
| step: "drain_reach x \<Longrightarrow> drain_step x y \<Longrightarrow> drain_reach y"
| event: "drain_reach x \<Longrightarrow> drain_event x y \<Longrightarrow> drain_reach y"

text \<open>No wake-up is lost: who sleeps with no notification on its way has a reason to.\<close>

definition sleepers_ok :: "CtxSys \<Rightarrow> Sleepers \<Rightarrow> bool" where
  "sleepers_ok s w \<longleftrightarrow> ctx_reach s \<and> (exec_asleep w \<longrightarrow> executor s = Called \<and> 0 < active_operations (runtime s)) \<and>
     (0 < others_asleep w \<and> \<not> notify_owed w \<longrightarrow> \<not> shutdown_complete (runtime s)) \<and>
     (0 < others_awake w + others_asleep w \<longrightarrow> shutdown_flag (runtime s)) \<and>
     (notify_owed w \<longrightarrow> executor s = Returned)"

lemma drain_step_ok:
  assumes "drain_step x y" "sleepers_ok (fst x) (snd x)"
  shows "sleepers_ok (fst y) (snd y)"
  using assms
proof (cases rule: drain_step.cases)
  case (releases s w)
  have "ctx_reach s" using releases assms(2) by (simp add: sleepers_ok_def)
  from ctx_reach.step [OF this ctx_step.release [OF releases(3)]]
  have "ctx_reach (fst (release_and_wake s w))" by (simp add: release_and_wake_def split_beta)
  then show ?thesis using releases assms(2)
    by (auto simp: sleepers_ok_def release_and_wake_def release_operation_def wake_all_def Let_def)
next
  case (requests s children r w)
  have "ctx_reach (s\<lparr>runtime := r, executor := Calling children\<rparr>)"
    using requests assms(2) by (auto simp: sleepers_ok_def intro: ctx_reach.step ctx_step.request)
  then show ?thesis using requests assms(2) by (auto simp: sleepers_ok_def shutdown_request_def)
next
  case (calls_child s cid c rest w)
  have "ctx_reach (s\<lparr>executor := Calling rest, calls := calls s @ [cid]\<rparr>)"
    using calls_child assms(2) by (auto simp: sleepers_ok_def intro: ctx_reach.step ctx_step.call)
  then show ?thesis using calls_child assms(2) by (auto simp: sleepers_ok_def)
next
  case (called_all s w)
  have "ctx_reach (s\<lparr>runtime := shutdown_called (runtime s), executor := Called\<rparr>)"
    using called_all assms(2) by (auto simp: sleepers_ok_def intro: ctx_reach.step ctx_step.all_called)
  then show ?thesis using called_all assms(2) by (auto simp: sleepers_ok_def shutdown_called_def)
next
  case (looks s w)
  have "ctx_reach (s\<lparr>runtime := r, executor := Returned\<rparr>)" if "shutdown_drain (runtime s) = Some r" for r
    using looks assms(2) that by (auto simp: sleepers_ok_def intro: ctx_reach.step ctx_step.drain)
  then show ?thesis using looks assms(2)
    by (auto simp: sleepers_ok_def executor_looks_def shutdown_drain_def split: if_splits)
next
  case (notifies w s)
  then show ?thesis using assms(2) by (auto simp: sleepers_ok_def wake_all_def)
next
  case (other w s)
  then show ?thesis using assms(2) by (auto simp: sleepers_ok_def other_looks_def)
qed

lemma drain_event_ok:
  assumes "drain_event x y" "sleepers_ok (fst x) (snd x)"
  shows "sleepers_ok (fst y) (snd y)"
  using assms
proof (cases rule: drain_event.cases)
  case (acquires s r w)
  have "ctx_reach s" using acquires assms(2) by (simp add: sleepers_ok_def)
  note ctx_reach.step [OF this ctx_step.acquire [OF acquires(3)]]
  with acquires assms(2) show ?thesis by (auto simp: sleepers_ok_def try_acquire_operation_def split: if_splits)
next
  case (begins s r w)
  have "ctx_reach (s\<lparr>runtime := r, executor := Flagged\<rparr>)"
    using begins assms(2) by (auto simp: sleepers_ok_def intro: ctx_reach.step ctx_step.begin_shutdown)
  then show ?thesis using begins assms(2) by (auto simp: sleepers_ok_def shutdown_begin_def split: if_splits)
next
  case (registers s cid r w)
  have "ctx_reach (s\<lparr>runtime := r, registered := insert cid (registered s)\<rparr>)"
    using registers assms(2) by (auto simp: sleepers_ok_def intro: ctx_reach.step ctx_step.register)
  then show ?thesis using registers assms(2)
    by (auto simp: sleepers_ok_def register_shutdown_callback_def split: if_splits)
next
  case (unregisters s w cid)
  have "ctx_reach (s\<lparr>runtime := unregister_shutdown_callback cid (runtime s),
      unregistered := unregistered s \<union> ({cid} \<inter> dom (map_of (shutdown_children (runtime s))))\<rparr>)"
    using unregisters assms(2) by (auto simp: sleepers_ok_def intro: ctx_reach.step ctx_step.unregister)
  then show ?thesis using unregisters assms(2) by (auto simp: sleepers_ok_def unregister_shutdown_callback_def)
qed (use assms(2) in \<open>auto simp: sleepers_ok_def shutdown_begin_def split: if_splits\<close>)

lemma drain_reach_ok: "drain_reach x \<Longrightarrow> sleepers_ok (fst x) (snd x)"
proof (induction rule: drain_reach.induct)
  case start
  show ?case by (simp add: sleepers_ok_def no_sleepers_def ctx_reach.start)
next
  case (step x y)
  then show ?case by (blast intro: drain_step_ok)
next
  case (event x y)
  then show ?case by (blast intro: drain_event_ok)
qed

text \<open>How much is left to do: the steps of the protocol weigh more than all the wake-ups they cause.\<close>

definition protocol_left :: "CtxSys \<Rightarrow> nat" where
  "protocol_left s = live_guards s + (case executor s of
       NotStarted \<Rightarrow> 0 | Flagged \<Rightarrow> 3 + length (shutdown_children (runtime s)) | Calling cs \<Rightarrow> 2 + length cs | Called \<Rightarrow> 1 | Returned \<Rightarrow> 0)"

definition sleepers_left :: "Sleepers \<Rightarrow> nat" where
  "sleepers_left w = others_awake w + (if exec_asleep w then 0 else 1)"

definition shutdown_left :: "CtxSys \<times> Sleepers \<Rightarrow> nat" where
  "shutdown_left = (\<lambda>(s, w). let n = others_awake w + others_asleep w + 2
     in 2 * n * protocol_left s + (if notify_owed w then n else 0) + sleepers_left w)"

definition all_returned :: "CtxSys \<times> Sleepers \<Rightarrow> bool" where
  "all_returned = (\<lambda>(s, w). executor s = Returned \<and> others_awake w + others_asleep w = 0 \<and> \<not> notify_owed w \<and> live_guards s = 0)"

lemma drain_step_less:
  assumes "drain_step x y" "sleepers_ok (fst x) (snd x)"
  shows "shutdown_left y < shutdown_left x"
  using assms
proof (cases rule: drain_step.cases)
  case (releases s w)
  have "protocol_left (fst (release_and_wake s w)) + 1 = protocol_left s"
    using releases by (simp add: protocol_left_def release_and_wake_def release_operation_def Let_def split: ShutdownPc.split)
  then have "protocol_left s = protocol_left (fst (release_and_wake s w)) + 1" by simp
  then show ?thesis using releases
    by (auto simp: shutdown_left_def release_and_wake_def release_operation_def wake_all_def sleepers_left_def Let_def algebra_simps)
next
  case (requests s children r w)
  then have "protocol_left s = protocol_left (s\<lparr>runtime := r, executor := Calling children\<rparr>) + 1"
    by (auto simp: protocol_left_def shutdown_request_def)
  then show ?thesis using requests by (simp add: shutdown_left_def Let_def algebra_simps)
next
  case (calls_child s cid c rest w)
  then have "protocol_left s = protocol_left (s\<lparr>executor := Calling rest, calls := calls s @ [cid]\<rparr>) + 1"
    by (simp add: protocol_left_def)
  then show ?thesis using calls_child by (simp add: shutdown_left_def Let_def algebra_simps)
next
  case (called_all s w)
  then have "protocol_left s = protocol_left (s\<lparr>runtime := shutdown_called (runtime s), executor := Called\<rparr>) + 1"
    by (simp add: protocol_left_def)
  then show ?thesis using called_all by (simp add: shutdown_left_def Let_def algebra_simps)
next
  case (looks s w)
  then show ?thesis
    by (auto simp: executor_looks_def shutdown_drain_def shutdown_left_def protocol_left_def sleepers_left_def Let_def algebra_simps)
next
  case (notifies w s)
  then show ?thesis by (auto simp: shutdown_left_def wake_all_def sleepers_left_def Let_def)
next
  case (other w s)
  then obtain n where "others_awake w = Suc n" by (cases "others_awake w") auto
  with other show ?thesis by (auto simp: shutdown_left_def other_looks_def sleepers_left_def Let_def)
qed

lemma drain_step_enabled:
  assumes "sleepers_ok s w" "shutdown_flag (runtime s)" "\<not> all_returned (s, w)"
  shows "\<exists>y. drain_step (s, w) y"
proof -
  have ok: "ctx_ok s" using assms(1) by (simp add: sleepers_ok_def ctx_reach_ok)
  show ?thesis
  proof (cases "executor s")
    case (Calling cs)
    then show ?thesis by (cases cs) (auto intro: drain_step.intros)
  next
    case Flagged
    then show ?thesis by (cases "shutdown_request (runtime s)") (auto intro: drain_step.intros)
  next
    case Called
    show ?thesis
    proof (cases "exec_asleep w")
      case True
      then have "0 < live_guards s" using assms(1) ok by (auto simp: sleepers_ok_def ctx_ok_def)
      then show ?thesis by (blast intro: drain_step.intros)
    qed (use Called in \<open>blast intro: drain_step.intros\<close>)
  next
    case Returned
    then have "shutdown_complete (runtime s)" "live_guards s = 0" using ok by (auto simp: ctx_ok_def)
    then have "notify_owed w \<or> 0 < others_awake w"
      using assms(1,3) Returned by (auto simp: sleepers_ok_def all_returned_def)
    then show ?thesis by (blast intro: drain_step.intros)
  qed (use ok assms(2) in \<open>auto simp: ctx_ok_def\<close>)
qed


lemma drain_step_flag: "drain_step x y \<Longrightarrow> shutdown_flag (runtime (fst x)) \<Longrightarrow> shutdown_flag (runtime (fst y))"
  by (cases rule: drain_step.cases)
    (auto simp: release_and_wake_def release_operation_def shutdown_request_def shutdown_called_def executor_looks_def
      shutdown_drain_def Let_def)

text \<open>
  C19. A shutdown ends. No wake-up is lost: the executing call sleeps only while operations are
  active, and another call of \<^verbatim>\<open>shutdown\<close>, unless a notification is on its way, only while the shutdown
  is not complete. Once the flag is set, the steps that the calls and the operations in progress
  take by themselves cannot go on for ever, and they stop only when every call has returned.
\<close>

theorem shutdown_ends:
  assumes "drain_reach (s, w)"
  shows "(exec_asleep w \<longrightarrow> 0 < active_operations (runtime s)) \<and>
    (0 < others_asleep w \<and> \<not> notify_owed w \<longrightarrow> \<not> shutdown_complete (runtime s)) \<and>
    (shutdown_flag (runtime s) \<longrightarrow>
       (\<forall>run. run 0 = (s, w) \<longrightarrow> (\<exists>n. \<not> drain_step (run n) (run (Suc n)))) \<and>
       (\<forall>y. rtranclp drain_step (s, w) y \<longrightarrow> (\<forall>z. \<not> drain_step y z) \<longrightarrow> all_returned y))"
proof (intro conjI impI allI)
  have ok: "sleepers_ok s w" using drain_reach_ok [OF assms] by simp
  then show "exec_asleep w \<Longrightarrow> 0 < active_operations (runtime s)"
    "0 < others_asleep w \<and> \<not> notify_owed w \<Longrightarrow> \<not> shutdown_complete (runtime s)"
    by (simp_all add: sleepers_ok_def)
  assume flag: "shutdown_flag (runtime s)"
  show "\<exists>n. \<not> drain_step (run n) (run (Suc n))" if "run 0 = (s, w)" for run
  proof (rule ccontr)
    assume "\<not> (\<exists>n. \<not> drain_step (run n) (run (Suc n)))"
    then have steps: "drain_step (run n) (run (Suc n))" for n by blast
    have "sleepers_ok (fst (run n)) (snd (run n))" for n
      by (induction n) (use ok that drain_step_ok [OF steps] in auto)
    then have "shutdown_left (run (Suc n)) < shutdown_left (run n)" for n using drain_step_less [OF steps] by blast
    then show False using wf_no_infinite_down_chainE [OF wf_measure [of shutdown_left], of run] by (metis in_measure)
  qed
  show "all_returned y" if y: "rtranclp drain_step (s, w) y" and stuck: "\<forall>z. \<not> drain_step y z" for y
  proof -
    from y have "sleepers_ok (fst y) (snd y) \<and> shutdown_flag (runtime (fst y))"
      by (induction rule: rtranclp_induct) (use ok flag drain_step_ok drain_step_flag in auto)
    then show ?thesis using drain_step_enabled [of "fst y" "snd y"] stuck by auto
  qed
qed

text \<open>An operation is in progress, the executing call and another one sleep.\<close>

definition asleep_1 :: "CtxSys \<times> Sleepers" where
  "asleep_1 = (start_ctx\<lparr>runtime := new_runtime\<lparr>shutdown_flag := True, active_operations := 1,
       shutdown_execution_state := Complete\<rparr>, executor := Called, live_guards := 1\<rparr>,
     \<lparr>exec_asleep = True, others_awake = 0, others_asleep = 1, notify_owed = False\<rparr>)"

lemma reach_asleep: "drain_reach asleep_1"
proof -
  let ?r = "\<lambda>n f e. new_runtime\<lparr>active_operations := n, shutdown_flag := f, shutdown_execution_state := e\<rparr>"
  let ?c = "\<lambda>n f e pc. start_ctx\<lparr>runtime := ?r n f e, live_guards := n, executor := pc\<rparr>"
  have r: "new_runtime\<lparr>active_operations := 1\<rparr> = ?r 1 False Running" by (simp add: new_runtime_def)
  have "drain_reach (?c 1 False Running NotStarted, no_sleepers)"
    using drain_reach.event [OF drain_reach.start drain_event.acquires [of start_ctx "?r 1 False Running"]]
    by (simp add: try_acquire_operation_def start_ctx_def new_runtime_def)
  from drain_reach.event [OF this drain_event.begins [of _ "?r 1 True Running"]]
  have "drain_reach (?c 1 True Running Flagged, no_sleepers)"
    by (simp add: shutdown_begin_def start_ctx_def new_runtime_def)
  from drain_reach.step [OF this drain_step.requests [of _ "[]" "?r 1 True RequestingChildren"]]
  have "drain_reach (?c 1 True RequestingChildren (Calling []), no_sleepers)"
    by (simp add: shutdown_request_def start_ctx_def new_runtime_def)
  from drain_reach.step [OF this drain_step.called_all]
  have "drain_reach (?c 1 True Complete Called, no_sleepers)"
    by (simp add: shutdown_called_def start_ctx_def new_runtime_def)
  from drain_reach.step [OF this drain_step.looks]
  have "drain_reach (?c 1 True Complete Called, no_sleepers\<lparr>exec_asleep := True\<rparr>)"
    by (simp add: executor_looks_def shutdown_drain_def no_sleepers_def)
  from drain_reach.event [OF this drain_event.joins [of _ "?r 1 True Complete"]]
  have "drain_reach (?c 1 True Complete Called, no_sleepers\<lparr>exec_asleep := True, others_awake := 1\<rparr>)"
    by (simp add: shutdown_begin_def no_sleepers_def)
  from drain_reach.step [OF this drain_step.other] show ?thesis
    by (simp add: other_looks_def no_sleepers_def asleep_1_def start_ctx_def new_runtime_def)
qed

text \<open>The operation is released, the executing call completes and notifies, and the other one returns.\<close>

definition ended_1 :: "CtxSys \<times> Sleepers" where
  "ended_1 = (start_ctx\<lparr>runtime := new_runtime\<lparr>shutdown_flag := True, shutdown_complete := True,
       shutdown_execution_state := Complete\<rparr>, executor := Returned\<rparr>, no_sleepers)"

lemma asleep_ends: "rtranclp drain_step asleep_1 ended_1"
proof -
  let ?r = "\<lambda>n d. new_runtime\<lparr>shutdown_flag := True, shutdown_complete := d, active_operations := n,
    shutdown_execution_state := Complete\<rparr>"
  let ?c = "\<lambda>n d pc. start_ctx\<lparr>runtime := ?r n d, live_guards := n, executor := pc\<rparr>"
  let ?awake = "no_sleepers\<lparr>others_awake := 1\<rparr>"
  have released: "release_and_wake (fst asleep_1) (snd asleep_1) = (?c 0 False Called, ?awake)"
    by (simp add: asleep_1_def release_and_wake_def release_operation_def wake_all_def start_ctx_def new_runtime_def no_sleepers_def Let_def)
  have "drain_step (fst asleep_1, snd asleep_1) (release_and_wake (fst asleep_1) (snd asleep_1))"
    by (rule drain_step.releases) (simp add: asleep_1_def)
  then have 1: "drain_step asleep_1 (?c 0 False Called, ?awake)" by (simp only: released prod.collapse)
  have 2: "drain_step (?c 0 False Called, ?awake) (?c 0 True Returned, ?awake\<lparr>notify_owed := True\<rparr>)"
    using drain_step.looks [of "?c 0 False Called" ?awake]
    by (simp add: executor_looks_def shutdown_drain_def no_sleepers_def new_runtime_def start_ctx_def)
  have 3: "drain_step (?c 0 True Returned, ?awake\<lparr>notify_owed := True\<rparr>) (?c 0 True Returned, ?awake)"
    using drain_step.notifies [of "?awake\<lparr>notify_owed := True\<rparr>" "?c 0 True Returned"] by (simp add: wake_all_def no_sleepers_def)
  have 4: "drain_step (?c 0 True Returned, ?awake) ended_1"
    using drain_step.other [of ?awake "?c 0 True Returned"]
    by (simp add: other_looks_def no_sleepers_def ended_1_def start_ctx_def new_runtime_def)
  show ?thesis using 1 2 3 4 by (blast intro: rtranclp.intros(1) converse_rtranclp_into_rtranclp)
qed

lemma ended_stuck: "\<not> drain_step ended_1 z"
  by (auto simp: ended_1_def start_ctx_def no_sleepers_def elim: drain_step.cases)

lemma shutdown_ends_witness:
  "0 < active_operations (runtime (fst asleep_1)) \<and> \<not> shutdown_complete (runtime (fst asleep_1)) \<and> all_returned ended_1"
proof -
  have "drain_reach (fst asleep_1, snd asleep_1)" using reach_asleep by simp
  note e = shutdown_ends [OF this]
  have "exec_asleep (snd asleep_1)" "0 < others_asleep (snd asleep_1)" "\<not> notify_owed (snd asleep_1)"
    "shutdown_flag (runtime (fst asleep_1))" by (simp_all add: asleep_1_def)
  with e have "0 < active_operations (runtime (fst asleep_1))" "\<not> shutdown_complete (runtime (fst asleep_1))"
    "\<forall>y. rtranclp drain_step asleep_1 y \<longrightarrow> (\<forall>z. \<not> drain_step y z) \<longrightarrow> all_returned y" by simp_all
  with asleep_ends ended_stuck show ?thesis by blast
qed

end
