(* ===== verification/Spec2Isabelle.thy ===== *)
theory Spec2Isabelle
  imports Timers GoalRegistry ServerFsm Discovery Gates Matching Events WaitSets Parameters ContextRuntime ActionServer Availability Qos GraphCandidates GraphSnapshot GraphMetadata Endpoints Nodes Leases RequestWorks ShutdownWaits
begin

text \<open>
  This development models the C++ middleware runtime of the repository, \<^verbatim>\<open>dmw\<close>: a layer over
  Fast DDS that offers nodes, topics, services, actions, parameters, timers, a graph of what is
  discovered, and wait sets, with the wire conventions of ROS 2; and the native core of its Python
  binding, \<^verbatim>\<open>dclpy\<close>. Paths without a prefix are below \<^verbatim>\<open>src/dmw/\<close>.

  \<^bold>\<open>The program.\<close>
  A \<^verbatim>\<open>Context\<close> owns a DDS participant, the registries of types and topics, the discovered graph and
  the shutdown protocol. Nodes create endpoints in it: publishers and subscribers; clients and
  servers, which are a writer and a reader each; action clients and servers, which are three
  services and two topics. Discovery callbacks of Fast DDS and the metadata topic of ROS 2 feed the
  graph; clients wait on the graph for their server; wait sets wait on readers and on logical
  waitables (guard conditions, timers, events, graph events). In the binding a Python entity holds
  a backing that owns the native object; leases on it keep the object alive. Executors wait on a
  wait set of backings, and hand what they have to write to a dispatcher, whose one worker thread
  runs the jobs and puts the completions into a mailbox for each executor.

  \<^bold>\<open>Conventions.\<close>
  A type of the source keeps its name. A result is \<^typ>\<open>ErrorCode + 'a\<close> (\<^theory_text>\<open>success\<close>,
  \<^theory_text>\<open>failure\<close>); error messages are not modelled, no code branches on them. An operation under a
  mutex is one function of the state; where an operation spans several critical sections and other
  threads matter, its sections are the steps of an inductive relation. What Fast DDS, the host's
  clocks and other code outside the repository answer is an argument of the operation; \<open>shut\<close> says
  that the context refused the operation guard. Unordered maps are association lists with distinct
  keys, ordered maps are sorted ones; both are instances of the locale \<open>keyed_store\<close>. 64-bit
  counters are machine words; signed 64-bit arithmetic is checked, \<open>None\<close> standing for undefined
  behaviour. Allocation failure is modelled only where a handler of the source deals with it.

  \<^bold>\<open>The theories.\<close>
  \<^item> Prelude: error codes and results (\<^verbatim>\<open>include/dmw/error.hpp\<close>, \<^verbatim>\<open>result.hpp\<close>), checked 64-bit
    arithmetic, updates of the first match in a vector, the maps.
  \<^item> Clocks (\<^verbatim>\<open>src/clock.cpp\<close>, \<^verbatim>\<open>impl/clock_impl.hpp\<close>, \<^verbatim>\<open>wait_timeout.hpp\<close>, \<^verbatim>\<open>impl/deadline.hpp\<close>) and
    Timers (\<^verbatim>\<open>src/timer.cpp\<close>, \<^verbatim>\<open>impl/timer_impl.hpp\<close>): no computation overflows, the next deadline
    is the least point of the period grid after now, consuming never drifts.
  \<^item> Identity (\<^verbatim>\<open>gid.hpp\<close>, \<^verbatim>\<open>request_id.hpp\<close>, \<^verbatim>\<open>impl/identity.hpp\<close>, \<^verbatim>\<open>impl/return_code.hpp\<close>): what is
    converted to DDS identities converts back.
  \<^item> Names (\<^verbatim>\<open>impl/name.hpp\<close>, \<^verbatim>\<open>impl/graph_names.hpp\<close>, \<^verbatim>\<open>src/arguments.cpp\<close>, the names of
    \<^verbatim>\<open>impl/node_impl.cpp\<close>): resolved names are well formed, endpoint names can be read back, the last
    matching remap rule wins, and the argument parser accepts one grammar.
  \<^item> Doubles (IEEE 754 values and \<^verbatim>\<open>strtod\<close>, as far as the code uses them) and Parameters
    (\<^verbatim>\<open>impl/parameter_store.*\<close>): the store refines a map with descriptors, every stored value keeps
    its contract, the change set balances.
  \<^item> GoalRegistry (\<^verbatim>\<open>impl/action_goal_registry.cpp\<close>): the life of a goal, expiry, results, canceling.
  \<^item> ServerFsm (\<^verbatim>\<open>impl/server_impl.cpp\<close>): pending requests, the capacity gate and at most one response
    per request, under any interleaving of threads.
  \<^item> ActionServer (\<^verbatim>\<open>impl/action_impl.cpp\<close>): the operations that span its three servers and the
    registry; accepting a goal is a transaction. The critical sections of the result server are the
    steps of ServerFsm, also here: a result request that waits for its goal can be answered when one
    thread at a time answers it.
  \<^item> Discovery (\<^verbatim>\<open>impl/discovery_graph.hpp\<close>): the graph, its revision, reference counts of local nodes,
    removals that are final.
  \<^item> Gates (the in-flight gates of \<^verbatim>\<open>impl/request.hpp\<close>, \<^verbatim>\<open>impl/event_parent_state.cpp\<close>,
    \<^verbatim>\<open>impl/context_impl.cpp\<close>, \<^verbatim>\<open>impl/discovery_graph.hpp\<close>, \<^verbatim>\<open>impl/graph_metadata.cpp\<close>): the locale
    \<open>in_flight_gate\<close> and its four interpretations: after the drain no callback is inside.
  \<^item> Matching (\<^verbatim>\<open>impl/request.hpp\<close>, \<^verbatim>\<open>impl/response.hpp\<close>): matched counts, when a service is available and
    when a response can reach its client.
  \<^item> Availability (\<^verbatim>\<open>impl/availability_wait_state.hpp\<close>, the wait loops of \<^verbatim>\<open>impl/client_impl.cpp\<close> and
    \<^verbatim>\<open>impl/action_impl.cpp\<close>): the locale \<open>availability_wait\<close>, interpreted for services and actions: a
    change of the graph or of the matches that the last check did not see is owed a wake-up; the one
    exception, a match that is reported to the callbacks before the graph, is a theorem.
  \<^item> Qos (\<^verbatim>\<open>qos.hpp\<close>, \<^verbatim>\<open>impl/qos.hpp\<close>): presets, the translation to Fast DDS and back,
    and compatibility against the request-offer rules of DDS for every policy that \<^verbatim>\<open>Qos\<close> carries:
    the code compares reliability and durability, and where it is silent is stated.
  \<^item> GraphCandidates (\<^verbatim>\<open>impl/graph_candidates.cpp\<close>), GraphSnapshot (\<^verbatim>\<open>src/graph.cpp\<close>,
    \<^verbatim>\<open>impl/graph_impl.hpp\<close>), GraphMetadata (\<^verbatim>\<open>impl/graph_metadata.cpp\<close>): what the graph shows to users, how
    the association of endpoints and nodes crosses the wire.
  \<^item> Events (\<^verbatim>\<open>impl/guard_condition_impl.hpp\<close>, \<^verbatim>\<open>impl/event_parent_state.cpp\<close>, \<^verbatim>\<open>impl/event_impl.cpp\<close>) and
    WaitSets (\<^verbatim>\<open>impl/wait_set_impl.*\<close>, \<^verbatim>\<open>impl/reader_wait_state.hpp\<close>): a waitable is in one wait set at a
    time, a pass reports exactly what is ready and sleeps exactly until the earliest deadline, an event
    loses no change.
  \<^item> ContextRuntime (\<^verbatim>\<open>impl/context.hpp\<close>, \<^verbatim>\<open>impl/context_impl.cpp\<close>): the shutdown protocol, the type and
    topic registries, creating and destroying the participant. ShutdownWaits: a shutdown that sleeps is
    signalled by the last operation and ends.
  \<^item> Endpoints (\<^verbatim>\<open>impl/publisher_impl.cpp\<close>, \<^verbatim>\<open>impl/subscriber_impl.cpp\<close>, \<^verbatim>\<open>impl/client_impl.cpp\<close>,
    \<^verbatim>\<open>impl/temporary_sample.hpp\<close>): the operations of the endpoints a user holds.
  \<^item> Nodes (\<^verbatim>\<open>impl/node_impl.cpp\<close> and the destructors of the endpoints): creation is all or nothing, makes
    its endpoints on their topics with their types and qualities of service, and destruction gives
    everything back.
  \<^item> Leases (\<^verbatim>\<open>src/dclpy/src/entity.hpp\<close>, \<^verbatim>\<open>waitable.hpp\<close>, \<^verbatim>\<open>context.hpp\<close>, \<^verbatim>\<open>wait_set.*\<close>): leases keep the
    native object alive and the last one finishes it, closing a context misses no entity, a wait set
    claims and pins what it names.
  \<^item> NativeIo (\<^verbatim>\<open>src/dclpy/src/native_io.*\<close>, the jobs of \<^verbatim>\<open>service_io.hpp\<close> and \<^verbatim>\<open>action_io.hpp\<close>): the
    operations of the dispatcher and its invariant. DispatcherRuns: what holds in every state that
    calls and the worker reach; the queues threaded through the slots refine lists, mailboxes do not
    overflow, capacity is kept for control. Deliveries: what becomes of one job over its turns.
    RequestWorks (\<^verbatim>\<open>ServiceRequestWork\<close>, \<^verbatim>\<open>ActionServerRequestWork\<close>): a request that was taken is
    queued once, as a response or a discard, and its completed job has answered or discarded it
    exactly once unless the record reports a failed cleanup.

  \<^bold>\<open>Loops and fuel.\<close>
  Loops over data are structural recursions. A wait is a step relation or a function of the list
  of answers that its turns receive; where its end depends on other threads, \<open>None\<close> means that it
  has not returned with the given answers, and its termination is a theorem of its own. The search
  of \<open>predecessor\<close> has a fuel of 256 links, the number of slots; the invariant shows that it is enough.

  \<^bold>\<open>Not modelled.\<close>
  Error messages and formatting; the type-support callbacks and serialisation of user messages
  (\<^verbatim>\<open>message_type.cpp\<close>), which only forward to Fast CDR; the destructors' last resort of
  \<^verbatim>\<open>ProcessLifetime\<close> beyond the fact that it keeps listeners; lock ranks (\<^verbatim>\<open>lock_rank.hpp\<close>), a debug
  check; the public classes that forward to their implementation (\<^verbatim>\<open>publisher.cpp\<close>, \<^verbatim>\<open>node.cpp\<close> and
  their siblings); in \<^verbatim>\<open>dclpy\<close>, the bindings themselves (\<^verbatim>\<open>*_bind.cpp\<close>, \<^verbatim>\<open>action.cpp\<close>, \<^verbatim>\<open>graph.cpp\<close>,
  \<^verbatim>\<open>timer.cpp\<close>, \<^verbatim>\<open>parameter.cpp\<close>, \<^verbatim>\<open>type_support.cpp\<close>), which convert Python objects and forward, and the
  wake-ups of the dispatcher, which only bring a look forward; data races below the level of
  critical sections and the C++ memory model; what Fast DDS does by itself.
\<close>

end
